(* ===== verification/Nxt_Prelude.thy ===== *)
theory Nxt_Prelude
  imports Main "HOL-Library.Word"
begin

text \<open>
  Shared vocabulary of the development: the types that stand for the C++ scalar
  and buffer types, the theorem collections the components fill, and the generic
  facts on lists, bits and options that more than one component uses.

  \<^item> \<open>byte\<close> is \<^verbatim>\<open>unsigned char\<close> / \<^verbatim>\<open>std::byte\<close>, \<open>u32\<close> is \<^verbatim>\<open>std::uint32_t\<close> and
    \<open>u64\<close> is \<^verbatim>\<open>std::uint64_t\<close>;
  \<^item> \<^verbatim>\<open>std::size_t\<close> values that count elements of an existing container are \<open>nat\<close>:
    a container never holds \<open>2 ^ 64\<close> elements, so the counts do not wrap;
  \<^item> a throwing operation returns \<open>error + 'a\<close>, \<open>Inl\<close> being the exception.
\<close>

unbundle bit_operations_syntax

type_synonym byte = "8 word"
type_synonym u16 = "16 word"
type_synonym u32 = "32 word"
type_synonym u64 = "64 word"
type_synonym bytes = "byte list"

text \<open>Sums and differences of \<^verbatim>\<open>std::size_t\<close> values that callers choose (sizes of layouts, rows of a screen) are
  \<open>nat\<close> with the wrap-around written out.\<close>

definition sz_add :: "nat \<Rightarrow> nat \<Rightarrow> nat" where
  "sz_add a b = (a + b) mod 2 ^ 64"

definition sz_sub :: "nat \<Rightarrow> nat \<Rightarrow> nat" where
  "sz_sub a b = (if b \<le> a then a - b else 2 ^ 64 - (b - a))"

lemma sz_add_exact: "a + b < 2 ^ 64 \<Longrightarrow> sz_add a b = a + b"
  by (simp add: sz_add_def)

lemma sz_add_assoc: "sz_add (sz_add a b) c = sz_add a (b + c)"
  by (simp add: sz_add_def mod_simps add.assoc)

text \<open>The exception of the cryptographic components, with its message.\<close>

datatype crypto_error = crypto_error string

named_theorems mask_simps \<open>evaluation rules of the slot mask\<close>
named_theorems ring_simps \<open>evaluation rules of the ring region\<close>
named_theorems deck_simps \<open>evaluation rules of the scheduler's task table\<close>
named_theorems heap_simps \<open>evaluation rules of the Wisp heap\<close>
named_theorems text_simps \<open>evaluation rules of the text components\<close>

section \<open>Lists\<close>

lemma nth_list_update_if:
  "i < length xs \<Longrightarrow> xs[j := v] ! i = (if i = j then v else xs ! i)"
  by simp

lemma take_drop_split:
  "a \<le> b \<Longrightarrow> take a xs @ take (b - a) (drop a xs) = take b xs"
  by (metis le_add_diff_inverse take_add)

lemma drop_take_append:
  "n \<le> length xs \<Longrightarrow> drop n (take n xs @ ys) = ys"
  by simp

lemma length_takeWhile_upt:
  assumes "\<exists>j<n. P j"
  shows "length (takeWhile (\<lambda>j. \<not> P j) [0..<n]) < n
    \<and> P (length (takeWhile (\<lambda>j. \<not> P j) [0..<n]))
    \<and> (\<forall>k < length (takeWhile (\<lambda>j. \<not> P j) [0..<n]). \<not> P k)"
proof -
  let ?m = "length (takeWhile (\<lambda>j. \<not> P j) [0..<n])"
  have ex: "\<exists>x \<in> set [0..<n]. \<not> \<not> P x" using assms by auto
  then have lt: "?m < length [0..<n]"
    by (metis length_takeWhile_le le_neq_implies_less takeWhile_eq_all_conv
        takeWhile_eq_take take_all_iff order_refl)
  then have "P ([0..<n] ! ?m)"
    using nth_length_takeWhile by blast
  moreover have "\<forall>k < ?m. \<not> P k"
  proof (intro allI impI)
    fix k assume k: "k < ?m"
    then have "[0..<n] ! k \<in> set (takeWhile (\<lambda>j. \<not> P j) [0..<n])"
      by (metis nth_mem takeWhile_nth)
    then have "\<not> P ([0..<n] ! k)" by (auto dest: set_takeWhileD)
    with k lt show "\<not> P k" by simp
  qed
  ultimately show ?thesis using lt by simp
qed

section \<open>Bits\<close>

lemma push_bit_or_small:
  fixes i c :: nat
  assumes "c < 64"
  shows "or (push_bit 6 i) c = 64 * i + c"
proof -
  have "and (push_bit 6 i) c = 0"
  proof (rule bit_eqI)
    fix n :: nat
    assume "possible_bit TYPE(nat) n"
    show "bit (and (push_bit 6 i) c) n = bit (0 :: nat) n"
    proof (cases "n < 6")
      case True
      then show ?thesis by (simp add: bit_and_iff bit_push_bit_iff)
    next
      case False
      then have "64 \<le> (2::nat) ^ n"
        using power_increasing [of 6 n "2::nat"] by simp
      then have "c div 2 ^ n = 0" using assms by simp
      then have "\<not> bit c n" by (simp add: bit_iff_odd)
      then show ?thesis by (simp add: bit_and_iff)
    qed
  qed
  then have "or (push_bit 6 i) c = push_bit 6 i + c"
    by (rule disjunctive_add_eq_or [symmetric])
  then show ?thesis by (simp add: push_bit_eq_mult)
qed

lemma or_push_small:
  fixes i c :: nat
  assumes "c < 2 ^ k"
  shows "or (push_bit k i) c = 2 ^ k * i + c"
proof -
  have "and (push_bit k i) c = 0"
  proof (rule bit_eqI)
    fix n :: nat
    assume "possible_bit TYPE(nat) n"
    show "bit (and (push_bit k i) c) n = bit (0 :: nat) n"
    proof (cases "n < k")
      case False
      then have "(2 :: nat) ^ k \<le> 2 ^ n" by (simp add: power_increasing)
      then have "c div 2 ^ n = 0" using assms by (meson div_less less_le_trans)
      then have "\<not> bit c n" by (simp add: bit_iff_odd)
      then show ?thesis by (simp add: bit_and_iff)
    qed (simp add: bit_and_iff bit_push_bit_iff)
  qed
  then show ?thesis using disjunctive_add_eq_or [of "push_bit k i" c] by (simp add: push_bit_eq_mult mult.commute)
qed

lemma unat_or_push:
  fixes x y :: u32
  assumes "unat y < 2 ^ k" "2 ^ k * unat x < 2 ^ 32"
  shows "unat (push_bit k x OR y) = 2 ^ k * unat x + unat y"
proof -
  have "unat (push_bit k x) = push_bit k (unat x)"
    unfolding unsigned_push_bit_eq using assms(2)
    by (simp add: take_bit_nat_eq_self_iff push_bit_eq_mult mult.commute del: push_bit_of_nat)
  then show ?thesis using or_push_small [OF assms(1), of "unat x"] by (simp add: unsigned_or_eq)
qed

lemma unat_ucast_byte [simp]: "unat (ucast (b :: byte) :: u32) = unat b"
proof -
  have "unat b < 2 ^ 32" using unsigned_less [of b, where ?'a = nat] by simp
  then show ?thesis unfolding unsigned_ucast_eq by (simp add: take_bit_nat_eq_self_iff)
qed

lemma drop_bit_6: "drop_bit 6 (i :: nat) = i div 64"
  by (simp add: drop_bit_eq_div)

lemma and_63: "and (i :: nat) 63 = i mod 64"
proof -
  have "and i 63 = take_bit 6 i" by (simp add: take_bit_eq_mask mask_eq_exp_minus_1)
  then show ?thesis by (simp add: take_bit_eq_mod)
qed

lemma div64_less: "p div 64 < n \<Longrightarrow> p < 64 * (n :: nat)"
  by linarith

lemma less_div64: "p < 64 * n \<Longrightarrow> p div 64 < (n :: nat)"
  by linarith

lemma small_word_bit:
  assumes le: "unat (x :: u32) < 2 ^ n" and b: "bit x k"
  shows "k < n"
proof (rule ccontr)
  assume "\<not> k < n"
  then have "(2 :: nat) ^ n \<le> 2 ^ k" by (simp add: power_increasing)
  then have "unat x < 2 ^ k" using le by linarith
  then have "\<not> bit (unat x) k" by (simp add: bit_iff_odd)
  then show False using b by (simp add: bit_unsigned_iff)
qed

end
