(* ===== verification/Wisp_Word.thy ===== *)
theory Wisp_Word
  imports Nxt_Prelude
begin

text \<open>
  The tagged 32-bit words of the Wisp machine, \<^verbatim>\<open>src/wisp/word.hpp\<close>: a word with a clear top
  bit is a 31-bit integer; otherwise its five top bits are a tag, and the rest is either
  an immediate payload or, for a pointer tag, a row index and the era bit of the copying
  collector.  The assertions of the source are the hypotheses of the lemmas.
\<close>

section \<open>Model\<close>

type_synonym wword = u32

text \<open>\<^verbatim>\<open>enum class tag : word\<close>.  The code \<^verbatim>\<open>0x10\<close> has no enumerator; a word can still carry it.\<close>

datatype tag = integer | sys | chr | jet | rec | duo | sym | "fun" | mac | v32 | v08 | pkg | run | ktx | ext | pin | unnamed

fun tag_code :: "tag \<Rightarrow> u32" where
  "tag_code integer = 0x00" | "tag_code sys = 0x11" | "tag_code chr = 0x12" | "tag_code jet = 0x13"
| "tag_code rec = 0x14" | "tag_code duo = 0x15" | "tag_code sym = 0x16" | "tag_code fun = 0x17"
| "tag_code mac = 0x18" | "tag_code v32 = 0x19" | "tag_code v08 = 0x1a" | "tag_code pkg = 0x1b"
| "tag_code run = 0x1c" | "tag_code ktx = 0x1d" | "tag_code ext = 0x1e" | "tag_code pin = 0x1f"
| "tag_code unnamed = 0x10"

definition tag_of_code :: "u32 \<Rightarrow> tag" where
  "tag_of_code c =
     (case find (\<lambda>t. tag_code t = c)
        [sys, chr, jet, rec, duo, sym, fun, mac, v32, v08, pkg, run, ktx, ext, pin] of
        Some t \<Rightarrow> t | None \<Rightarrow> unnamed)"

definition max_index :: u32 where "max_index = push_bit 26 1 - 1"
definition max_immediate :: u32 where "max_immediate = push_bit 27 1 - 1"
definition min_fixnum :: int where "min_fixnum = - (2 ^ 30)"
definition max_fixnum :: int where "max_fixnum = 2 ^ 30 - 1"

definition tag_of :: "wword \<Rightarrow> tag" where
  "tag_of x = (if x AND 0x80000000 = 0 then integer else tag_of_code (drop_bit 27 x))"

definition is_pointer :: "tag \<Rightarrow> bool" where
  "is_pointer t \<longleftrightarrow> t = rec \<or> (tag_code t \<ge> tag_code duo \<and> tag_code t \<le> tag_code ext)"

definition fixnum :: "int \<Rightarrow> wword" where
  "fixnum x = word_of_int x AND 0x7fffffff"

definition integer_of :: "wword \<Rightarrow> int" where
  "integer_of x = sint (x AND 0x3fffffff) - sint (x AND 0x40000000)"

definition immediate :: "tag \<Rightarrow> u32 \<Rightarrow> wword" where
  "immediate t payload = push_bit 27 (tag_code t) OR payload"

definition pointer :: "tag \<Rightarrow> u32 \<Rightarrow> bool \<Rightarrow> wword" where
  "pointer t index era = push_bit 27 (tag_code t) OR push_bit 1 index OR of_bool era"

definition index_of :: "wword \<Rightarrow> u32" where
  "index_of x = drop_bit 1 x AND max_index"

definition era_of :: "wword \<Rightarrow> bool" where
  "era_of x \<longleftrightarrow> x AND 1 \<noteq> 0"

definition payload_of :: "wword \<Rightarrow> u32" where
  "payload_of x = x AND max_immediate"

definition nil :: wword where "nil = immediate sys 0"
definition w_t :: wword where "w_t = immediate sys 1"
definition nah :: wword where "nah = immediate sys 2"
definition zap :: wword where "zap = immediate sys 3"
definition w_top :: wword where "w_top = immediate sys 4"

section \<open>Bit layout\<close>

lemma max_index_mask: "max_index = mask 26"
  by (simp add: max_index_def mask_eq_exp_minus_1)

lemma max_immediate_mask: "max_immediate = mask 27"
  by (simp add: max_immediate_def mask_eq_exp_minus_1)

lemma small_word_and:
  assumes "unat (x :: u32) < 2 ^ n"
  shows "x AND mask n = x"
  using small_word_bit [OF assms] by (intro bit_word_eqI) (auto simp: bit_simps)

lemma and_mask_small: "n < 32 \<Longrightarrow> unat (x AND mask n :: u32) < 2 ^ n"
  by (simp add: unsigned_take_bit_eq flip: take_bit_eq_mask)

lemma bit_shift_1: "bit (push_bit 1 (w :: u32)) n \<longleftrightarrow> 0 < n \<and> n < 32 \<and> bit w (n - 1)"
  by (auto simp only: bit_push_bit_iff Suc_le_eq One_nat_def) (auto dest: bit_imp_le_length)

lemma tag_code_top: "t \<noteq> integer \<Longrightarrow> bit (tag_code t) 4 \<and> unat (tag_code t) < 2 ^ 5"
  by (cases t) simp_all

lemma tag_of_code_code: "t \<noteq> integer \<Longrightarrow> tag_of_code (tag_code t) = t"
  by (cases t) (simp_all add: tag_of_code_def)

text \<open>A word made of a tag's code and 27 bits of payload.\<close>

lemma tagged_word:
  assumes t: "t \<noteq> integer" and p: "unat p < 2 ^ 27"
  shows "tag_of (push_bit 27 (tag_code t) OR p) = t"
    "(push_bit 27 (tag_code t) OR p) AND mask 27 = p"
proof -
  let ?x = "push_bit 27 (tag_code t) OR p"
  note top = tag_code_top [OF t]
  have c5: "k < 5" if "bit (tag_code t) k" for k using small_word_bit [OF _ that] top by blast
  have p27: "k < 27" if "bit p k" for k using small_word_bit [OF p that] .
  have "bit (?x AND 0x80000000) 31"
    using top by (simp add: bit_and_iff bit_or_iff bit_push_bit_iff)
  then have nz: "?x AND 0x80000000 \<noteq> 0" by (metis bit_0_eq bot_apply bot_bool_def)
  have "drop_bit 27 ?x = tag_code t"
  proof (rule bit_word_eqI)
    fix n assume "n < LENGTH(32)"
    then show "bit (drop_bit 27 ?x) n = bit (tag_code t) n"
      using p27 [of "27 + n"] c5 [of n] by (auto simp: bit_simps)
  qed
  then show "tag_of ?x = t" using nz tag_of_code_code [OF t] by (simp add: tag_of_def)
  show "?x AND mask 27 = p"
  proof (rule bit_word_eqI)
    fix n assume "n < LENGTH(32)"
    then show "bit (?x AND mask 27) n = bit p n" using p27 [of n] by (auto simp: bit_simps)
  qed
qed

lemma pointer_payload_small:
  assumes "index \<le> max_index"
  shows "unat (push_bit 1 index OR of_bool era) < 2 ^ 27"
proof -
  have "unat index < 2 ^ 26"
    using assms by (simp add: max_index_def word_le_nat_alt)
  note i = small_word_bit [OF this]
  have "(push_bit 1 index OR of_bool era) AND mask 27 = push_bit 1 index OR of_bool era"
  proof (rule bit_word_eqI)
    fix n assume "n < LENGTH(32)"
    then show "bit ((push_bit 1 index OR of_bool era) AND mask 27) n = bit (push_bit 1 index OR of_bool era) n"
      using i [of "n - 1"] by (cases n) (auto simp: bit_and_iff bit_or_iff bit_shift_1 bit_mask_iff bit_of_bool_iff simp del: One_nat_def push_bit_Suc)
  qed
  then show ?thesis using and_mask_small [of 27 "push_bit 1 index OR of_bool era"] by simp
qed

lemma pointer_fields:
  assumes t: "t \<noteq> integer" and i: "index \<le> max_index"
  shows "tag_of (pointer t index era) = t" "index_of (pointer t index era) = index"
    "era_of (pointer t index era) = era"
proof -
  have eq: "pointer t index era = push_bit 27 (tag_code t) OR (push_bit 1 index OR of_bool era)"
    by (simp add: pointer_def or.assoc)
  show "tag_of (pointer t index era) = t" unfolding eq by (rule tagged_word(1) [OF t pointer_payload_small [OF i]])
  have i26: "k < 26" if "bit index k" for k
    using small_word_bit [OF _ that, of 26] i by (simp add: max_index_def word_le_nat_alt)
  show "index_of (pointer t index era) = index"
    unfolding index_of_def eq max_index_mask
  proof (rule bit_word_eqI)
    fix n assume "n < LENGTH(32)"
    moreover have "bit (drop_bit 1 (push_bit 27 (tag_code t) OR (push_bit 1 index OR of_bool era)) AND mask 26) n
        \<longleftrightarrow> n < 26 \<and> bit index n"
      by (auto simp: bit_and_iff bit_or_iff bit_drop_bit_eq bit_push_bit_iff bit_mask_iff bit_of_bool_iff bit_shift_1 simp del: One_nat_def push_bit_Suc)
    ultimately show "bit (drop_bit 1 (push_bit 27 (tag_code t) OR (push_bit 1 index OR of_bool era)) AND mask 26) n = bit index n"
      using i26 [of n] by blast
  qed
  have "bit (pointer t index era) 0 = era" 
    unfolding eq by (simp add: bit_or_iff bit_push_bit_iff bit_of_bool_iff bit_shift_1 del: One_nat_def push_bit_Suc)
  then show "era_of (pointer t index era) = era"
    by (simp add: era_of_def and_one_eq bit_0 odd_iff_mod_2_eq_one)
qed

lemma immediate_fields:
  assumes "t \<noteq> integer" "p \<le> max_immediate"
  shows "tag_of (immediate t p) = t" "payload_of (immediate t p) = p"
proof -
  have "unat p < 2 ^ 27" using assms(2) by (simp add: max_immediate_def word_le_nat_alt)
  from tagged_word [OF assms(1) this] show "tag_of (immediate t p) = t" "payload_of (immediate t p) = p"
    by (simp_all add: immediate_def payload_of_def max_immediate_mask)
qed

lemma fixnum_fields:
  assumes "min_fixnum \<le> x" "x \<le> max_fixnum"
  shows "tag_of (fixnum x) = integer" "integer_of (fixnum x) = x"
proof -
  show "tag_of (fixnum x) = integer"
    by (simp add: tag_of_def fixnum_def and.assoc)
  define w :: u32 where "w = word_of_int x"
  have lo: "fixnum x AND 0x3fffffff = w AND 0x3fffffff" "fixnum x AND 0x40000000 = w AND 0x40000000"
    by (simp_all add: fixnum_def w_def and.assoc)
  have "uint (w AND 0x3fffffff) = uint w mod 2 ^ 30"
  proof -
    have "w AND 0x3fffffff = take_bit 30 w" by (simp add: take_bit_eq_mask mask_eq_exp_minus_1)
    then have "uint (w AND 0x3fffffff) = take_bit 30 (uint w)" by (simp only: unsigned_take_bit_eq)
    then show ?thesis by (simp only: take_bit_eq_mod)
  qed
  also have "\<dots> = x mod 2 ^ 30" by (simp add: w_def uint_word_of_int mod_mod_cancel)
  finally have u: "uint (w AND 0x3fffffff) = x mod 2 ^ 30" .
  then have s: "sint (w AND 0x3fffffff) = x mod 2 ^ 30"
    by (simp add: sint_uint signed_take_bit_eq_if_positive bit_iff_odd take_bit_eq_mod)
  show "integer_of (fixnum x) = x"
  proof (cases "0 \<le> x")
    case True
    then have "x div 2 ^ 30 = 0" using assms(2) by (simp add: max_fixnum_def)
    then have "\<not> bit w 30" by (simp add: w_def bit_word_of_int_iff bit_iff_odd [of x])
    then have "w AND 0x40000000 = 0"
      using and_exp_eq_0_iff_not_bit [of w 30] by simp
    with True s lo assms(2) show ?thesis by (simp add: integer_of_def max_fixnum_def)
  next
    case False
    have d: "x div 2 ^ 30 = - 1" using assms False by (simp add: min_fixnum_def div_eq_minus1)
    then have "bit w 30" by (simp add: w_def bit_word_of_int_iff bit_iff_odd [of x])
    then have "w AND 2 ^ 30 = 2 ^ 30"
      by (intro bit_word_eqI) (auto simp only: bit_and_iff bit_exp_iff)
    then have "sint (w AND 0x40000000) = 2 ^ 30" by simp
    moreover have "x mod 2 ^ 30 = x + 2 ^ 30"
      using d minus_mult_div_eq_mod [of x "2 ^ 30"] by simp
    ultimately show ?thesis using s lo by (simp add: integer_of_def)
  qed
qed

lemma is_pointer_iff: "is_pointer t \<longleftrightarrow> t \<in> {rec, duo, sym, fun, mac, v32, v08, pkg, run, ktx, ext}"
  by (cases t) (simp_all add: is_pointer_def)

lemma is_pointer_not_integer: "is_pointer t \<Longrightarrow> t \<noteq> integer"
  by (auto simp: is_pointer_iff)

lemma tag_of_code_eq: "tag_of_code c = t \<Longrightarrow> t \<noteq> unnamed \<Longrightarrow> tag_code t = c"
  by (auto simp: tag_of_code_def split: if_splits)

text \<open>A pointer word is determined by its tag, index and era.\<close>

lemma pointer_eta:
  assumes "is_pointer (tag_of x)"
  shows "pointer (tag_of x) (index_of x) (era_of x) = x"
proof -
  have c: "tag_code (tag_of x) = drop_bit 27 x"
    using assms by (intro tag_of_code_eq) (auto simp: tag_of_def is_pointer_iff split: if_splits)
  show ?thesis unfolding pointer_def c
  proof (rule bit_word_eqI)
    fix n assume n: "n < LENGTH(32)"
    have e: "era_of x = bit x 0" by (simp add: era_of_def and_one_eq bit_0 odd_iff_mod_2_eq_one)
    have hi: "bit (push_bit 27 (drop_bit 27 x)) n \<longleftrightarrow> 27 \<le> n \<and> bit x n"
      using n by (auto simp: bit_push_bit_iff bit_drop_bit_eq)
    have lo: "bit (push_bit 1 (index_of x)) n \<longleftrightarrow> 0 < n \<and> n < 27 \<and> bit x n"
      using n by (cases n) (auto simp: bit_shift_1 index_of_def max_index_mask bit_and_iff bit_mask_iff
          bit_drop_bit_eq plus_1_eq_Suc simp del: One_nat_def push_bit_Suc)
    show "bit (push_bit 27 (drop_bit 27 x) OR push_bit 1 (index_of x) OR of_bool (era_of x)) n = bit x n"
      unfolding bit_or_iff hi lo by (cases n) (auto simp: e bit_of_bool_iff)
  qed
qed

lemma pointer_eqI:
  assumes "is_pointer (tag_of x)" "tag_of y = tag_of x" "unat (index_of y) = unat (index_of x)" "era_of y = era_of x"
  shows "x = y"
proof -
  have i: "index_of y = index_of x" using assms(3) by (simp only: word_unat_eq_iff)
  have "pointer (tag_of y) (index_of y) (era_of y) = y"
    by (rule pointer_eta) (simp only: assms(1,2))
  then have "pointer (tag_of x) (index_of x) (era_of x) = y" by (simp only: assms(2,4) i)
  then show ?thesis using pointer_eta [OF assms(1)] by (simp only:)
qed

lemma zap_not_pointer: "tag_of zap = sys"
  unfolding zap_def by (rule immediate_fields) (simp_all add: max_immediate_def)

section \<open>Properties\<close>

text \<open>Words round-trip: the tag, index and era of a pointer, the tag and payload of an
  immediate, and every integer from \<^verbatim>\<open>min_fixnum\<close> to \<^verbatim>\<open>max_fixnum\<close> are read back as written.\<close>

lemma word_roundtrip:
  assumes "is_pointer t" "index \<le> max_index" "u \<noteq> integer" "payload \<le> max_immediate"
    "min_fixnum \<le> x" "x \<le> max_fixnum"
  shows "tag_of (pointer t index era) = t \<and> index_of (pointer t index era) = index
    \<and> era_of (pointer t index era) = era
    \<and> tag_of (immediate u payload) = u \<and> payload_of (immediate u payload) = payload
    \<and> tag_of (fixnum x) = integer \<and> integer_of (fixnum x) = x"
  using pointer_fields [OF is_pointer_not_integer [OF assms(1)] assms(2)] immediate_fields [OF assms(3,4)]
    fixnum_fields [OF assms(5,6)] by blast

end
