(* ===== verification/Wisp_Heap.thy ===== *)
theory Wisp_Heap
  imports Wisp_Word "HOL-Library.Sublist"
begin

text \<open>
  The storage of the Wisp machine: the columnar tables of \<^verbatim>\<open>src/wisp/vat.hpp\<close> and the heap of
  \<^verbatim>\<open>src/wisp/heap.hpp\<close> and \<^verbatim>\<open>src/wisp/heap.cpp\<close> (allocation, field access, byte and word
  pools, pins, host roots).  The collector is in the theory \<open>Wisp_Tidy\<close>.

  A table is the list of its rows, a row the list of its column words.  An operation
  that throws, or whose assertion fails, returns \<open>Inl\<close>.  Profile counters, which the
  default build compiles out, are left out.
\<close>

section \<open>Model of the tables\<close>

datatype field = F_car | F_cdr | F_str | F_pkg | F_val | F_fun | F_dyn | F_env | F_par | F_exp | F_sym
  | F_cnt | F_idx | F_len | F_nam | F_use | F_hop | F_acc | F_arg | F_err | F_way | F_meta

datatype field_kind = Value | Offset | Length | Count | External

type_synonym column = "field \<times> field_kind"

fun schema :: "tag \<Rightarrow> column list" where
  "schema duo = [(F_car, Value), (F_cdr, Value)]"
| "schema sym = [(F_str, Value), (F_pkg, Value), (F_val, Value), (F_fun, Value), (F_dyn, Value)]"
| "schema fun = [(F_env, Value), (F_par, Value), (F_exp, Value), (F_sym, Value), (F_cnt, Count)]"
| "schema mac = [(F_env, Value), (F_par, Value), (F_exp, Value), (F_sym, Value), (F_cnt, Count)]"
| "schema v08 = [(F_idx, Offset), (F_len, Length)]"
| "schema v32 = [(F_idx, Offset), (F_len, Length)]"
| "schema rec = [(F_idx, Offset), (F_len, Length)]"
| "schema pkg = [(F_nam, Value), (F_sym, Value), (F_use, Value)]"
| "schema run = [(F_exp, Value), (F_val, Value), (F_err, Value), (F_env, Value), (F_way, Value), (F_meta, Value)]"
| "schema ktx = [(F_hop, Value), (F_env, Value), (F_fun, Value), (F_acc, Value), (F_arg, Value)]"
| "schema ext = [(F_idx, External), (F_val, Value)]"
| "schema _ = []"

text \<open>The position of a field; the source rejects a foreign field at compile time.\<close>

definition column_index :: "tag \<Rightarrow> field \<Rightarrow> nat option" where
  "column_index T F = (let cs = schema T; i = length (takeWhile (\<lambda>c. fst c \<noteq> F) cs)
     in if i < length cs then Some i else None)"

abbreviation width :: "tag \<Rightarrow> nat" where
  "width T \<equiv> length (schema T)"

type_synonym row = "wword list"

record tab =
  trows :: "row list"
  tcapacity :: nat

datatype heap_error = Assertion | TableExceedsIndices | TableIsFull | PayloadExceedsOffsets | PinsExhausted

definition max_rows :: nat where
  "max_rows = unat max_index + 1"

definition empty_tab :: tab where
  "empty_tab = \<lparr>trows = [], tcapacity = 0\<rparr>"

definition tab_size :: "tab \<Rightarrow> nat" where
  "tab_size t = length (trows t)"

definition tab_reserve :: "nat \<Rightarrow> tab \<Rightarrow> heap_error + tab" where
  "tab_reserve n t =
     (if n > max_rows then Inl TableExceedsIndices
      else if n \<le> tcapacity t then Inr t
      else Inr (t\<lparr>tcapacity := n\<rparr>))"

definition tab_push :: "row \<Rightarrow> tab \<Rightarrow> heap_error + u32 \<times> tab" where
  "tab_push data t =
     (case (if tab_size t = tcapacity t
            then if tab_size t = max_rows then Inl TableIsFull
                 else tab_reserve (min max_rows (if tcapacity t = 0 then 8 else tcapacity t * 2)) t
            else Inr t) of
        Inl e \<Rightarrow> Inl e
      | Inr t' \<Rightarrow> Inr (of_nat (tab_size t'), t'\<lparr>trows := trows t' @ [data]\<rparr>))"

definition tab_col :: "nat \<Rightarrow> tab \<Rightarrow> wword list" where
  "tab_col c t = map (\<lambda>r. r ! c) (trows t)"

definition tab_get :: "nat \<Rightarrow> nat \<Rightarrow> tab \<Rightarrow> wword" where
  "tab_get i c t = trows t ! i ! c"

definition tab_set :: "nat \<Rightarrow> nat \<Rightarrow> wword \<Rightarrow> tab \<Rightarrow> tab" where
  "tab_set i c x t = t\<lparr>trows := (trows t)[i := (trows t ! i)[c := x]]\<rparr>"

definition tab_read :: "nat \<Rightarrow> tab \<Rightarrow> row" where
  "tab_read i t = trows t ! i"

definition tab_put :: "nat \<Rightarrow> row \<Rightarrow> tab \<Rightarrow> tab" where
  "tab_put i data t = t\<lparr>trows := (trows t)[i := data]\<rparr>"

section \<open>Model of the heap\<close>

type_synonym vat = "tag \<Rightarrow> tab"

definition vat_order :: "tag list" where
  "vat_order = [duo, sym, fun, mac, v32, v08, pkg, run, ktx, ext, rec]"

text \<open>Pins are kept in key order, as \<^verbatim>\<open>std::map\<close> keeps them; roots are the intrusive list
  with the newest first, each with the address of its slot.  \<open>released\<close> is the trace
  of the host's release callback.\<close>

record heap =
  hvat :: vat
  hbytes :: bytes
  hwords :: "wword list"
  hpins :: "(u32 \<times> wword) list"
  next_pin :: u32
  hroots :: "(nat \<times> wword) list"
  hera :: bool
  frozen_ktx :: nat
  host_release :: bool
  released :: "u32 list"

definition new_heap :: "bool \<Rightarrow> heap" where
  "new_heap release =
     \<lparr>hvat = (\<lambda>_. empty_tab), hbytes = [], hwords = [], hpins = [], next_pin = 1, hroots = [],
      hera = False, frozen_ktx = 0, host_release = release, released = []\<rparr>"

definition heap_make :: "tag \<Rightarrow> row \<Rightarrow> heap \<Rightarrow> heap_error + wword \<times> heap" where
  "heap_make T data h =
     (if data ! 0 = zap then Inl Assertion
      else case tab_push data (hvat h T) of
        Inl e \<Rightarrow> Inl e
      | Inr (i, t) \<Rightarrow> Inr (pointer T i (hera h), h\<lparr>hvat := (hvat h)(T := t)\<rparr>))"

definition heap_check :: "tag \<Rightarrow> wword \<Rightarrow> heap \<Rightarrow> heap_error + nat" where
  "heap_check T x h =
     (if tag_of x = T \<and> era_of x = hera h \<and> unat (index_of x) < tab_size (hvat h T)
      then Inr (unat (index_of x)) else Inl Assertion)"

definition heap_read :: "tag \<Rightarrow> wword \<Rightarrow> heap \<Rightarrow> heap_error + row" where
  "heap_read T x h = map_sum id (\<lambda>i. tab_read i (hvat h T)) (heap_check T x h)"

definition heap_get :: "tag \<Rightarrow> field \<Rightarrow> wword \<Rightarrow> heap \<Rightarrow> heap_error + wword" where
  "heap_get T F x h =
     (case column_index T F of
        None \<Rightarrow> Inl Assertion
      | Some c \<Rightarrow> map_sum id (\<lambda>i. tab_get i c (hvat h T)) (heap_check T x h))"

definition heap_set :: "tag \<Rightarrow> field \<Rightarrow> wword \<Rightarrow> wword \<Rightarrow> heap \<Rightarrow> heap_error + heap" where
  "heap_set T F x v h =
     (case column_index T F of
        None \<Rightarrow> Inl Assertion
      | Some c \<Rightarrow>
          if c = 0 \<and> v = zap then Inl Assertion
          else map_sum id (\<lambda>i. h\<lparr>hvat := (hvat h)(T := tab_set i c v (hvat h T))\<rparr>) (heap_check T x h))"

definition heap_put :: "tag \<Rightarrow> wword \<Rightarrow> row \<Rightarrow> heap \<Rightarrow> heap_error + heap" where
  "heap_put T x data h =
     (if data ! 0 = zap then Inl Assertion
      else map_sum id (\<lambda>i. h\<lparr>hvat := (hvat h)(T := tab_put i data (hvat h T))\<rparr>) (heap_check T x h))"

definition heap_copy :: "tag \<Rightarrow> wword \<Rightarrow> heap \<Rightarrow> heap_error + wword \<times> heap" where
  "heap_copy T x h = (case heap_read T x h of Inl e \<Rightarrow> Inl e | Inr data \<Rightarrow> heap_make T data h)"

definition heap_cons :: "wword \<Rightarrow> wword \<Rightarrow> heap \<Rightarrow> heap_error + wword \<times> heap" where
  "heap_cons a d h = heap_make duo [a, d] h"

definition word_payload :: "tag \<Rightarrow> bool" where
  "word_payload T \<longleftrightarrow> T = v32 \<or> T = rec"

definition pool_size :: "nat \<Rightarrow> nat \<Rightarrow> heap_error + nat" where
  "pool_size sz extra =
     (let limit = 2 ^ 32 - 1 in if extra > limit - sz then Inl PayloadExceedsOffsets else Inr (sz + extra))"

text \<open>\<^verbatim>\<open>append\<close> copies its source from the pool itself when the source is a slice of it;
  the values read are the same either way, since the pool only grows.\<close>

definition pool_append :: "'a list \<Rightarrow> 'a list \<Rightarrow> heap_error + u32 \<times> 'a list" where
  "pool_append pool data =
     (if data = [] then Inr (of_nat (length pool), pool)
      else case pool_size (length pool) (length data) of
        Inl e \<Rightarrow> Inl e
      | Inr _ \<Rightarrow> Inr (of_nat (length pool), pool @ data))"

text \<open>On an exception the pool is cut back to where it was, which leaves the heap as before.\<close>

definition newv08 :: "bytes \<Rightarrow> heap \<Rightarrow> heap_error + wword \<times> heap" where
  "newv08 data h =
     (case pool_append (hbytes h) data of
        Inl e \<Rightarrow> Inl e
      | Inr (idx, pool) \<Rightarrow> heap_make v08 [idx, of_nat (length data)] (h\<lparr>hbytes := pool\<rparr>))"

definition new_words :: "tag \<Rightarrow> wword list \<Rightarrow> heap \<Rightarrow> heap_error + wword \<times> heap" where
  "new_words T data h =
     (case pool_append (hwords h) data of
        Inl e \<Rightarrow> Inl e
      | Inr (idx, pool) \<Rightarrow> heap_make T [idx, of_nat (length data)] (h\<lparr>hwords := pool\<rparr>))"

definition newv32 :: "wword list \<Rightarrow> heap \<Rightarrow> heap_error + wword \<times> heap" where
  "newv32 data h = new_words v32 data h"

definition filledv32 :: "nat \<Rightarrow> wword \<Rightarrow> heap \<Rightarrow> heap_error + wword \<times> heap" where
  "filledv32 n v h =
     (case pool_size (length (hwords h)) n of
        Inl e \<Rightarrow> Inl e
      | Inr _ \<Rightarrow> heap_make v32 [of_nat (length (hwords h)), of_nat n] (h\<lparr>hwords := hwords h @ replicate n v\<rparr>))"

definition slice :: "u32 \<Rightarrow> u32 \<Rightarrow> 'a list \<Rightarrow> heap_error + 'a list" where
  "slice idx len pool =
     (if unat idx \<le> length pool \<and> unat len \<le> length pool - unat idx
      then Inr (take (unat len) (drop (unat idx) pool)) else Inl Assertion)"

definition heap_words :: "tag \<Rightarrow> wword \<Rightarrow> heap \<Rightarrow> heap_error + wword list" where
  "heap_words T x h =
     (case heap_read T x h of Inl e \<Rightarrow> Inl e | Inr r \<Rightarrow> slice (r ! 0) (r ! 1) (hwords h))"

definition v08slice :: "wword \<Rightarrow> heap \<Rightarrow> heap_error + bytes" where
  "v08slice x h =
     (case heap_read v08 x h of Inl e \<Rightarrow> Inl e | Inr r \<Rightarrow> slice (r ! 0) (r ! 1) (hbytes h))"

definition v32slice :: "wword \<Rightarrow> heap \<Rightarrow> heap_error + wword list" where
  "v32slice x h = heap_words v32 x h"

definition set_word :: "tag \<Rightarrow> wword \<Rightarrow> nat \<Rightarrow> wword \<Rightarrow> heap \<Rightarrow> heap_error + heap" where
  "set_word T x i v h =
     (case heap_read T x h of
        Inl e \<Rightarrow> Inl e
      | Inr r \<Rightarrow>
          if i < unat (r ! 1) \<and> unat (r ! 0) \<le> length (hwords h) \<and> unat (r ! 1) \<le> length (hwords h) - unat (r ! 0)
          then Inr (h\<lparr>hwords := (hwords h)[unat (r ! 0) + i := v]\<rparr>) else Inl Assertion)"

definition v32set :: "wword \<Rightarrow> nat \<Rightarrow> wword \<Rightarrow> heap \<Rightarrow> heap_error + heap" where
  "v32set x i v h = set_word v32 x i v h"

definition clonev32 :: "wword \<Rightarrow> heap \<Rightarrow> heap_error + wword \<times> heap" where
  "clonev32 x h = (case v32slice x h of Inl e \<Rightarrow> Inl e | Inr ws \<Rightarrow> newv32 ws h)"

text \<open>Columns of a continuation frame: hop, env, fun, acc, arg.\<close>

definition copy_continuation_frame :: "wword \<Rightarrow> heap \<Rightarrow> heap_error + wword \<times> heap" where
  "copy_continuation_frame x h =
     (case heap_read ktx x h of
        Inl e \<Rightarrow> Inl e
      | Inr frame \<Rightarrow>
          let f = tag_of (frame ! 2); acc = frame ! 3 in
          if (f = fun \<or> f = jet \<or> f = rec) \<and> tag_of acc = v32
          then (case clonev32 acc h of
                  Inl e \<Rightarrow> Inl e
                | Inr (acc', h') \<Rightarrow> heap_make ktx (frame[3 := acc']) h')
          else heap_make ktx frame h)"

definition freeze_continuations :: "heap \<Rightarrow> heap" where
  "freeze_continuations h = h\<lparr>frozen_ktx := tab_size (hvat h ktx)\<rparr>"

definition continuation_frozen :: "wword \<Rightarrow> heap \<Rightarrow> heap_error + bool" where
  "continuation_frozen x h = map_sum id (\<lambda>i. i < frozen_ktx h) (heap_check ktx x h)"

definition make_pin :: "wword \<Rightarrow> heap \<Rightarrow> heap_error + wword \<times> heap" where
  "make_pin v h =
     (if next_pin h > max_immediate then Inl PinsExhausted
      else Inr (immediate pin (next_pin h),
                h\<lparr>hpins := (if map_of (hpins h) (next_pin h) = None then hpins h @ [(next_pin h, v)] else hpins h),
                  next_pin := next_pin h + 1\<rparr>))"

definition pinned :: "wword \<Rightarrow> heap \<Rightarrow> heap_error + wword" where
  "pinned p h =
     (if tag_of p \<noteq> pin then Inl Assertion
      else case map_of (hpins h) (payload_of p) of None \<Rightarrow> Inl Assertion | Some v \<Rightarrow> Inr v)"

definition free_pin :: "wword \<Rightarrow> heap \<Rightarrow> heap_error + heap" where
  "free_pin p h =
     (if tag_of p \<noteq> pin then Inl Assertion
      else Inr (h\<lparr>hpins := filter (\<lambda>kv. fst kv \<noteq> payload_of p) (hpins h)\<rparr>))"

definition root_open :: "nat \<Rightarrow> wword \<Rightarrow> heap \<Rightarrow> heap" where
  "root_open a v h = h\<lparr>hroots := (a, v) # hroots h\<rparr>"

definition root_close :: "nat \<Rightarrow> heap \<Rightarrow> heap" where
  "root_close a h = h\<lparr>hroots := filter (\<lambda>r. fst r \<noteq> a) (hroots h)\<rparr>"

definition root_get :: "nat \<Rightarrow> heap \<Rightarrow> wword option" where
  "root_get a h = map_of (hroots h) a"

definition root_set :: "nat \<Rightarrow> wword \<Rightarrow> heap \<Rightarrow> heap" where
  "root_set a v h = h\<lparr>hroots := map (\<lambda>r. if fst r = a then (a, v) else r) (hroots h)\<rparr>"

definition release_externals :: "heap \<Rightarrow> heap" where
  "release_externals h =
     (if host_release h
      then h\<lparr>released := released h @ filter (\<lambda>i. i \<noteq> zap) (tab_col 0 (hvat h ext))\<rparr> else h)"

definition heap_destroy :: "heap \<Rightarrow> heap_error + heap" where
  "heap_destroy h = (if hroots h \<noteq> [] then Inl Assertion else Inr (release_externals h))"


section \<open>The tables\<close>

definition tab_ok :: "tab \<Rightarrow> bool" where
  "tab_ok t \<longleftrightarrow> tab_size t \<le> tcapacity t \<and> tcapacity t \<le> max_rows"

lemma max_rows_eq: "max_rows = 2 ^ 26"
  by (simp add: max_rows_def max_index_def)

lemma empty_tab_simps [simp]: "trows empty_tab = []" "tab_size empty_tab = 0" "tcapacity empty_tab = 0" "tab_ok empty_tab"
  by (simp_all add: empty_tab_def tab_size_def tab_ok_def)

text \<open>Pushing grows the table by one row, and fails only on a table of \<^verbatim>\<open>max_rows\<close> rows.\<close>

lemma tab_push_ok:
  assumes "tab_ok t" "tab_size t < max_rows"
  obtains t' where "tab_push data t = Inr (of_nat (tab_size t), t')" "trows t' = trows t @ [data]" "tab_ok t'"
proof -
  show ?thesis
  proof (cases "tab_size t = tcapacity t")
    case True
    define n where "n = min max_rows (if tcapacity t = 0 then 8 else tcapacity t * 2)"
    have n: "tcapacity t < n" "n \<le> max_rows" using True assms(2) by (auto simp: n_def max_rows_eq)
    then have "tab_reserve n t = Inr (t\<lparr>tcapacity := n\<rparr>)" by (simp add: tab_reserve_def)
    moreover have "tab_push data t = (case tab_reserve n t of Inl e \<Rightarrow> Inl e
        | Inr t' \<Rightarrow> Inr (of_nat (tab_size t'), t'\<lparr>trows := trows t' @ [data]\<rparr>))"
      using True assms(2) unfolding tab_push_def n_def by simp
    ultimately show ?thesis
      using that [of "t\<lparr>tcapacity := n, trows := trows t @ [data]\<rparr>"] True n
      by (simp add: tab_ok_def tab_size_def)
  next
    case False
    then show ?thesis
      using that [of "t\<lparr>trows := trows t @ [data]\<rparr>"] assms by (simp add: tab_push_def tab_ok_def tab_size_def)
  qed
qed

lemma tab_push_full:
  assumes "tab_ok t" "\<not> tab_size t < max_rows"
  shows "tab_push data t = Inl TableIsFull"
  using assms by (simp add: tab_push_def tab_ok_def)

lemma tab_push_cases:
  assumes "tab_ok t" "tab_push data t = Inr (i, t')"
  shows "i = of_nat (tab_size t) \<and> tab_size t < max_rows \<and> trows t' = trows t @ [data] \<and> tab_ok t'"
proof -
  have lt: "tab_size t < max_rows" using tab_push_full [OF assms(1)] assms(2) by fastforce
  from tab_push_ok [OF assms(1) lt, of data] assms(2) lt show ?thesis by (metis Inr_inject prod.inject)
qed

lemma row_index_fits: "n < max_rows \<Longrightarrow> (of_nat n :: u32) \<le> max_index \<and> unat (of_nat n :: u32) = n"
  by (simp add: max_rows_eq max_index_def word_le_nat_alt unat_of_nat)

section \<open>Heap invariant\<close>

text \<open>A word is live when it is immediate or points at a row of the current era.  Rows have
  their schema's width, never start with the forwarding mark, hold live words in
  their value columns, and describe a part of their payload pool.\<close>

definition live :: "heap \<Rightarrow> wword \<Rightarrow> bool" where
  "live h x \<longleftrightarrow> (is_pointer (tag_of x) \<longrightarrow>
     era_of x = hera h \<and> unat (index_of x) < tab_size (hvat h (tag_of x)))"

definition payload_ok :: "tag \<Rightarrow> nat \<Rightarrow> nat \<Rightarrow> row \<Rightarrow> bool" where
  "payload_ok T nb nw r \<longleftrightarrow>
     (T = v08 \<longrightarrow> unat (r ! 0) + unat (r ! 1) \<le> nb) \<and>
     (word_payload T \<longrightarrow> unat (r ! 0) + unat (r ! 1) \<le> nw)"

definition row_ok :: "tag \<Rightarrow> heap \<Rightarrow> row \<Rightarrow> bool" where
  "row_ok T h r \<longleftrightarrow> length r = width T \<and> r ! 0 \<noteq> zap
     \<and> (\<forall>c < width T. snd (schema T ! c) = Value \<longrightarrow> live h (r ! c))
     \<and> payload_ok T (length (hbytes h)) (length (hwords h)) r"

definition tables_ok :: "heap \<Rightarrow> bool" where
  "tables_ok h \<longleftrightarrow> (\<forall>T. tab_ok (hvat h T) \<and> (\<not> is_pointer T \<longrightarrow> trows (hvat h T) = [])
     \<and> (\<forall>r \<in> set (trows (hvat h T)). row_ok T h r))"

definition pools_ok :: "heap \<Rightarrow> bool" where
  "pools_ok h \<longleftrightarrow> length (hbytes h) < 2 ^ 32 \<and> length (hwords h) < 2 ^ 32 \<and> (\<forall>w \<in> set (hwords h). live h w)"

definition pins_ok :: "heap \<Rightarrow> bool" where
  "pins_ok h \<longleftrightarrow> sorted_wrt (<) (map fst (hpins h)) \<and> (\<forall>(k, v) \<in> set (hpins h). k < next_pin h \<and> live h v)
     \<and> 0 < next_pin h \<and> next_pin h \<le> max_immediate + 1"

definition roots_ok :: "heap \<Rightarrow> bool" where
  "roots_ok h \<longleftrightarrow> distinct (map fst (hroots h)) \<and> (\<forall>(a, v) \<in> set (hroots h). live h v)"

definition heap_ok :: "heap \<Rightarrow> bool" where
  "heap_ok h \<longleftrightarrow> tables_ok h \<and> pools_ok h \<and> pins_ok h \<and> roots_ok h \<and> frozen_ktx h \<le> tab_size (hvat h ktx)"

text \<open>Allocation and mutation only ever extend a heap.\<close>

definition extends :: "heap \<Rightarrow> heap \<Rightarrow> bool" where
  "extends h h' \<longleftrightarrow> hera h' = hera h \<and> (\<forall>T. tab_size (hvat h T) \<le> tab_size (hvat h' T))
     \<and> length (hbytes h) \<le> length (hbytes h') \<and> length (hwords h) \<le> length (hwords h')"

lemma extends_refl [simp]: "extends h h" by (simp add: extends_def)

lemma extends_trans: "extends a b \<Longrightarrow> extends b c \<Longrightarrow> extends a c"
  unfolding extends_def by (meson order_trans)

lemma live_mono: "live h x \<Longrightarrow> extends h h' \<Longrightarrow> live h' x"
  unfolding live_def extends_def using less_le_trans by metis

lemma row_ok_mono: "row_ok T h r \<Longrightarrow> extends h h' \<Longrightarrow> row_ok T h' r"
  unfolding row_ok_def payload_ok_def using live_mono by (auto simp: extends_def intro: order_trans)

lemma extends_roots_ok: "roots_ok h \<Longrightarrow> extends h h' \<Longrightarrow> hroots h' = hroots h \<Longrightarrow> roots_ok h'"
  unfolding roots_ok_def using live_mono by fastforce

lemma extends_pins_ok:
  "pins_ok h \<Longrightarrow> extends h h' \<Longrightarrow> hpins h' = hpins h \<Longrightarrow> next_pin h' = next_pin h \<Longrightarrow> pins_ok h'"
  unfolding pins_ok_def using live_mono by fastforce

lemma new_heap_ok: "heap_ok (new_heap release)"
  by (simp add: heap_ok_def new_heap_def tables_ok_def pools_ok_def pins_ok_def roots_ok_def max_immediate_def)

lemma heap_ok_tab: "heap_ok h \<Longrightarrow> tab_ok (hvat h T)"
  by (simp add: heap_ok_def tables_ok_def)

lemma heap_ok_row:
  "heap_ok h \<Longrightarrow> i < tab_size (hvat h T) \<Longrightarrow> row_ok T h (trows (hvat h T) ! i)"
  unfolding heap_ok_def tables_ok_def tab_size_def by (meson nth_mem)

lemma heap_ok_size_pos: "heap_ok h \<Longrightarrow> i < tab_size (hvat h T) \<Longrightarrow> is_pointer T"
  by (metis heap_ok_def tables_ok_def tab_size_def list.size(3) not_less_zero)

lemma width_pos: "is_pointer T \<Longrightarrow> 2 \<le> width T"
  by (auto simp: is_pointer_iff)

text \<open>A row that replaces or joins the others keeps the invariant.\<close>

lemma heap_ok_new_rows:
  assumes ok: "heap_ok h" and T: "is_pointer T" and t: "tab_ok t" and sz: "tab_size (hvat h T) \<le> tab_size t"
    and rows: "set (trows t) \<subseteq> set (trows (hvat h T)) \<union> {r}"
    and r: "row_ok T (h\<lparr>hvat := (hvat h)(T := t)\<rparr>) r"
  shows "heap_ok (h\<lparr>hvat := (hvat h)(T := t)\<rparr>)"
proof -
  let ?h = "h\<lparr>hvat := (hvat h)(T := t)\<rparr>"
  have e: "extends h ?h" using sz by (simp add: extends_def)
  have "row_ok U ?h r'" if "r' \<in> set (trows (hvat ?h U))" for U r'
  proof (cases "r' \<in> set (trows (hvat h U))")
    case True
    then have "row_ok U h r'" using ok by (simp add: heap_ok_def tables_ok_def)
    then show ?thesis using e by (rule row_ok_mono)
  next
    case False
    then have "U = T" "r' = r" using that rows by (auto split: if_splits)
    then show ?thesis using r by simp
  qed
  then have "tables_ok ?h" using ok t T by (simp add: heap_ok_def tables_ok_def)
  moreover have "pools_ok ?h" using ok live_mono [OF _ e] by (simp add: heap_ok_def pools_ok_def)
  moreover have "frozen_ktx ?h \<le> tab_size (hvat ?h ktx)" using ok sz by (auto simp: heap_ok_def)
  ultimately show ?thesis
    using ok extends_pins_ok [OF _ e] extends_roots_ok [OF _ e] by (simp add: heap_ok_def)
qed

section \<open>Allocation and field access\<close>

lemma heap_check_Inr:
  "heap_check T x h = Inr i \<longleftrightarrow>
     tag_of x = T \<and> era_of x = hera h \<and> unat (index_of x) < tab_size (hvat h T) \<and> i = unat (index_of x)"
  by (auto simp: heap_check_def)

lemma live_check:
  "is_pointer T \<Longrightarrow> tag_of x = T \<Longrightarrow> live h x \<Longrightarrow> heap_check T x h = Inr (unat (index_of x))"
  by (simp add: heap_check_def live_def)

lemma heap_read_Inr:
  "heap_read T x h = Inr r \<longleftrightarrow> heap_check T x h = Inr (unat (index_of x)) \<and> r = trows (hvat h T) ! unat (index_of x)"
  by (auto simp: heap_read_def tab_read_def heap_check_def)

lemma heap_read_row_ok: "heap_ok h \<Longrightarrow> heap_read T x h = Inr r \<Longrightarrow> row_ok T h r"
  using heap_ok_row by (auto simp: heap_read_Inr heap_check_Inr)

text \<open>What an allocation promises: a fresh live object that reads as the row given, every
  older object unchanged, the heap extended and well formed.\<close>

definition keeps :: "heap \<Rightarrow> heap \<Rightarrow> bool" where
  "keeps h h' \<longleftrightarrow> (\<forall>U y r. heap_read U y h = Inr r \<longrightarrow> heap_read U y h' = Inr r)
     \<and> prefix (hbytes h) (hbytes h') \<and> prefix (hwords h) (hwords h')"

definition allocates :: "tag \<Rightarrow> row \<Rightarrow> heap \<Rightarrow> wword \<Rightarrow> heap \<Rightarrow> bool" where
  "allocates T data h x h' \<longleftrightarrow> heap_ok h' \<and> extends h h' \<and> live h' x \<and> \<not> live h x \<and> tag_of x = T
     \<and> heap_read T x h' = Inr data \<and> keeps h h'"

lemma heap_make_allocates:
  assumes ok: "heap_ok h" and T: "is_pointer T" and row: "row_ok T h data"
    and mk: "heap_make T data h = Inr (x, h')"
  shows "allocates T data h x h' \<and> (\<exists>t. h' = h\<lparr>hvat := (hvat h)(T := t)\<rparr>)"
proof -
  have nz: "data ! 0 \<noteq> zap" using row by (simp add: row_ok_def)
  obtain i t where p: "tab_push data (hvat h T) = Inr (i, t)"
    and x: "x = pointer T i (hera h)" and h': "h' = h\<lparr>hvat := (hvat h)(T := t)\<rparr>"
    using mk nz by (auto simp: heap_make_def split: sum.splits prod.splits)
  from tab_push_cases [OF heap_ok_tab [OF ok] p]
  have i: "i = of_nat (tab_size (hvat h T))" "tab_size (hvat h T) < max_rows"
    and t: "trows t = trows (hvat h T) @ [data]" "tab_ok t" by auto
  have sz: "tab_size t = Suc (tab_size (hvat h T))" using t(1) by (simp add: tab_size_def)
  note fits = row_index_fits [OF i(2), folded i(1)]
  note pf = pointer_fields [OF is_pointer_not_integer [OF T], of i "hera h", folded x]
  have e: "extends h h'" using sz by (simp add: extends_def h')
  have "heap_ok h'"
    unfolding h' by (rule heap_ok_new_rows [OF ok T t(2) _ _ row_ok_mono [OF row e [unfolded h']]]) (auto simp: t(1) sz)
  moreover have "live h' x" "\<not> live h x" using pf fits sz T by (simp_all add: live_def h')
  moreover have "heap_read T x h' = Inr data"
    using pf fits sz t(1) by (simp add: heap_read_Inr heap_check_Inr h' tab_size_def nth_append)
  moreover have "heap_read U y h' = Inr r" if "heap_read U y h = Inr r" for U y r
    using that t(1) sz by (cases "U = T") (auto simp: heap_read_Inr heap_check_Inr h' nth_append tab_size_def)
  ultimately show ?thesis using e pf fits h' by (auto simp: allocates_def keeps_def)
qed

lemma heap_make_total:
  assumes "heap_ok h" "is_pointer T" "row_ok T h data" "tab_size (hvat h T) < max_rows"
  obtains x h' where "heap_make T data h = Inr (x, h')"
proof -
  from tab_push_ok [OF heap_ok_tab [OF assms(1)] assms(4), of data]
  obtain t where "tab_push data (hvat h T) = Inr (of_nat (tab_size (hvat h T)), t)" by blast
  then show ?thesis using that assms(3) by (simp add: heap_make_def row_ok_def)
qed

lemma heap_make_full:
  "heap_ok h \<Longrightarrow> \<not> tab_size (hvat h T) < max_rows \<Longrightarrow> data ! 0 \<noteq> zap \<Longrightarrow> heap_make T data h = Inl TableIsFull"
  using tab_push_full [OF heap_ok_tab] by (simp add: heap_make_def)

text \<open>Overwriting one row.\<close>

lemma heap_put_row_ok:
  assumes ok: "heap_ok h" and i: "i < tab_size (hvat h T)" and r: "row_ok T h r"
  shows "heap_ok (h\<lparr>hvat := (hvat h)(T := tab_put i r (hvat h T))\<rparr>)"
proof (rule heap_ok_new_rows [OF ok heap_ok_size_pos [OF ok i]])
  let ?h = "h\<lparr>hvat := (hvat h)(T := tab_put i r (hvat h T))\<rparr>"
  show "tab_ok (tab_put i r (hvat h T))"
    using heap_ok_tab [OF ok, of T] by (simp add: tab_ok_def tab_put_def tab_size_def)
  have "extends h ?h" by (simp add: extends_def tab_put_def tab_size_def)
  then show "row_ok T ?h r" by (rule row_ok_mono [OF r])
qed (simp_all add: tab_put_def tab_size_def set_update_subset_insert [simplified])

lemma tab_set_put: "tab_set i c v t = tab_put i ((trows t ! i)[c := v]) t"
  by (simp add: tab_set_def tab_put_def)

lemma column_index_Some:
  assumes "column_index T F = Some c"
  shows "c < width T" "fst (schema T ! c) = F"
proof -
  let ?P = "\<lambda>c. fst c \<noteq> F"
  have c: "c = length (takeWhile ?P (schema T))" "c < width T"
    using assms by (auto simp: column_index_def Let_def split: if_splits)
  then show "c < width T" "fst (schema T ! c) = F"
    using nth_length_takeWhile [of ?P "schema T"] by auto
qed

definition stores :: "tag \<Rightarrow> nat \<Rightarrow> wword \<Rightarrow> heap \<Rightarrow> bool" where
  "stores T c v h \<longleftrightarrow> (c = 0 \<longrightarrow> v \<noteq> zap) \<and> (snd (schema T ! c) = Value \<longrightarrow> live h v)
     \<and> snd (schema T ! c) \<notin> {Offset, Length}"

lemma payload_columns:
  "T = v08 \<or> word_payload T \<Longrightarrow> c < width T \<Longrightarrow> snd (schema T ! c) \<in> {Offset, Length}"
  by (auto simp: word_payload_def less_Suc_eq numeral_2_eq_2)

lemma row_ok_update:
  assumes r: "row_ok T h r" and c: "c < width T" and v: "stores T c v h"
  shows "row_ok T h (r[c := v])"
proof -
  have np: "T \<noteq> v08" "\<not> word_payload T" using payload_columns [of T c] c v by (auto simp: stores_def)
  have "r[c := v] ! 0 \<noteq> zap" using r v c by (cases c) (auto simp: row_ok_def stores_def nth_list_update_if)
  moreover have "live h (r[c := v] ! k)" if "k < width T" "snd (schema T ! k) = Value" for k
    using r v that c by (cases "k = c") (auto simp: row_ok_def stores_def)
  ultimately show ?thesis using r np by (simp add: row_ok_def payload_ok_def)
qed

lemma heap_set_cases:
  assumes "heap_set T F x v h = Inr h'"
  obtains c i where "column_index T F = Some c" "heap_check T x h = Inr i" "c = 0 \<longrightarrow> v \<noteq> zap"
    "h' = h\<lparr>hvat := (hvat h)(T := tab_set i c v (hvat h T))\<rparr>"
proof (cases "column_index T F")
  case (Some c)
  have "\<not> (c = 0 \<and> v = zap)" using assms Some by (auto simp: heap_set_def)
  then show ?thesis using that assms Some by (cases "heap_check T x h") (auto simp: heap_set_def)
qed (use assms in \<open>simp add: heap_set_def\<close>)

section \<open>Fields as memory cells\<close>

text \<open>The contract of a mutable store: a read after a write to the same place gives the
  value written, and other places are not touched.\<close>

locale cell_store =
  fixes inv :: "'h \<Rightarrow> bool"
    and get :: "'p \<Rightarrow> 'h \<Rightarrow> 'e + 'v"
    and set :: "'p \<Rightarrow> 'v \<Rightarrow> 'h \<Rightarrow> 'e + 'h"
  assumes set_inv: "inv h \<Longrightarrow> set p v h = Inr h' \<Longrightarrow> inv h'"
    and get_set_same: "inv h \<Longrightarrow> set p v h = Inr h' \<Longrightarrow> get p h' = Inr v"
    and get_set_other: "inv h \<Longrightarrow> set p v h = Inr h' \<Longrightarrow> p \<noteq> q \<Longrightarrow> get q h' = get q h"
begin

fun writes :: "('p \<times> 'v) list \<Rightarrow> 'h \<Rightarrow> 'e + 'h" where
  "writes [] h = Inr h"
| "writes ((p, v) # ws) h = (case set p v h of Inl e \<Rightarrow> Inl e | Inr h' \<Rightarrow> writes ws h')"

lemma writes_read:
  assumes "inv h" "writes ws h = Inr h'"
  shows "get q h' = (case map_of (rev ws) q of Some v \<Rightarrow> Inr v | None \<Rightarrow> get q h)"
  using assms
proof (induction ws arbitrary: h)
  case (Cons w ws)
  obtain p v where w: "w = (p, v)" by (cases w)
  from Cons.prems obtain h1 where s: "set p v h = Inr h1" and r: "writes ws h1 = Inr h'"
    by (auto simp: w split: sum.splits)
  from Cons.IH [OF set_inv [OF Cons.prems(1) s] r]
  show ?case using get_set_same [OF Cons.prems(1) s] get_set_other [OF Cons.prems(1) s, of q]
    by (cases "p = q") (auto simp: w map_of_append map_add_def split: option.splits)
qed simp

lemma writes_commute:
  assumes "inv h" "p \<noteq> q" "writes [(p, v), (q, w)] h = Inr h1" "writes [(q, w), (p, v)] h = Inr h2"
  shows "get r h1 = get r h2"
  using writes_read [OF assms(1,3), of r] writes_read [OF assms(1,4), of r] assms(2) by simp

end

text \<open>A place is a field of an object.\<close>

definition rows_wide :: "heap \<Rightarrow> bool" where
  "rows_wide h \<longleftrightarrow> (\<forall>T. \<forall>r \<in> set (trows (hvat h T)). length r = width T)"

definition place_get :: "tag \<times> field \<times> wword \<Rightarrow> heap \<Rightarrow> heap_error + wword" where
  "place_get p h = (case p of (T, F, x) \<Rightarrow> heap_get T F x h)"

definition place_set :: "tag \<times> field \<times> wword \<Rightarrow> wword \<Rightarrow> heap \<Rightarrow> heap_error + heap" where
  "place_set p v h = (case p of (T, F, x) \<Rightarrow> heap_set T F x v h)"

lemma place_set_triple: "place_set (T, F, x) v h = heap_set T F x v h"
  by (simp add: place_set_def)

lemma heap_ok_rows_wide: "heap_ok h \<Longrightarrow> rows_wide h"
  by (simp add: heap_ok_def tables_ok_def rows_wide_def row_ok_def)

lemma rows_wide_row: "rows_wide h \<Longrightarrow> heap_check T x h = Inr i \<Longrightarrow> length (trows (hvat h T) ! i) = width T"
  unfolding rows_wide_def heap_check_Inr tab_size_def by (meson nth_mem)

lemma width_pointer: "0 < width T \<Longrightarrow> is_pointer T"
  by (cases T) (simp_all add: is_pointer_iff)

lemma check_same_index:
  assumes "heap_check T x h = Inr i" "heap_check T y h = Inr i" "is_pointer T"
  shows "x = y"
  by (rule pointer_eqI) (use assms in \<open>simp_all add: heap_check_Inr\<close>)

lemma heap_get_Inr:
  "heap_get T F x h = Inr v \<longleftrightarrow> (\<exists>c i. column_index T F = Some c \<and> heap_check T x h = Inr i \<and> v = tab_get i c (hvat h T))"
  by (cases "heap_check T x h") (auto simp: heap_get_def split: option.splits)

lemma heap_get_cong:
  assumes "\<And>c. column_index T F = Some c \<Longrightarrow> heap_check T x h' = heap_check T x h"
    "\<And>c i. column_index T F = Some c \<Longrightarrow> heap_check T x h = Inr i \<Longrightarrow> tab_get i c (hvat h' T) = tab_get i c (hvat h T)"
  shows "heap_get T F x h' = heap_get T F x h"
  using assms by (cases "heap_check T x h") (auto simp: heap_get_def split: option.splits)

lemma heap_check_set:
  "heap_check U y (h\<lparr>hvat := (hvat h)(T := tab_set i c v (hvat h T))\<rparr>) = heap_check U y h"
  by (simp add: heap_check_def tab_set_def tab_size_def)

lemma heap_set_get_other:
  assumes "rows_wide h" "heap_set T F x v h = Inr h'" "(T, F, x) \<noteq> (U, G, y)"
  shows "heap_get U G y h' = heap_get U G y h"
  using assms(2)
proof (rule heap_set_cases)
  fix c i assume c: "column_index T F = Some c" and i: "heap_check T x h = Inr i"
    and h': "h' = h\<lparr>hvat := (hvat h)(T := tab_set i c v (hvat h T))\<rparr>"
  note cw = column_index_Some [OF c]
  show ?thesis
  proof (rule heap_get_cong)
    show "heap_check U y h' = heap_check U y h" unfolding h' by (rule heap_check_set)
  next
    fix d j assume d: "column_index U G = Some d" and j: "heap_check U y h = Inr j"
    have "(j, d) \<noteq> (i, c)" if "U = T"
      using assms(3) that c d i j cw column_index_Some [OF d] check_same_index [of T x h i y] width_pointer [of T]
      by (auto dest: gr_implies_not0)
    then show "tab_get j d (hvat h' U) = tab_get j d (hvat h U)"
      using i by (cases "U = T"; cases "j = i") (auto simp: h' tab_get_def tab_set_def heap_check_Inr tab_size_def)
  qed
qed

lemma heap_set_get_same:
  assumes "rows_wide h" "heap_set T F x v h = Inr h'"
  shows "heap_get T F x h' = Inr v"
  using assms(2)
proof (rule heap_set_cases)
  fix c i assume c: "column_index T F = Some c" and i: "heap_check T x h = Inr i"
    and h': "h' = h\<lparr>hvat := (hvat h)(T := tab_set i c v (hvat h T))\<rparr>"
  have "c < length (trows (hvat h T) ! i)"
    using column_index_Some(1) [OF c] rows_wide_row [OF assms(1) i] by simp
  then have "tab_get i c (hvat h' T) = v" using i by (simp add: h' tab_get_def tab_set_def heap_check_Inr tab_size_def)
  moreover have "heap_check T x h' = Inr i" unfolding h' heap_check_set by (rule i)
  ultimately show ?thesis using c by (auto simp: heap_get_Inr)
qed

lemma heap_set_rows_wide:
  assumes "rows_wide h" "heap_set T F x v h = Inr h'"
  shows "rows_wide h'"
  using assms(2)
proof (rule heap_set_cases)
  fix c i assume i: "heap_check T x h = Inr i" and h': "h' = h\<lparr>hvat := (hvat h)(T := tab_set i c v (hvat h T))\<rparr>"
  have "length (trows (hvat h T) ! i) = width T" by (rule rows_wide_row [OF assms(1) i])
  then show ?thesis
    using assms(1) set_update_subset_insert [of "trows (hvat h T)" i]
    by (fastforce simp: rows_wide_def h' tab_set_def dest: subsetD)
qed

interpretation cells: cell_store rows_wide place_get place_set
proof
  fix h h' :: heap and p q :: "tag \<times> field \<times> wword" and v
  assume w: "rows_wide h" and s: "place_set p v h = Inr h'"
  obtain T F x U G y where p: "p = (T, F, x)" and q: "q = (U, G, y)" by (metis prod_cases3)
  from s have s': "heap_set T F x v h = Inr h'" by (simp add: place_set_def p)
  show "rows_wide h'" by (rule heap_set_rows_wide [OF w s'])
  show "place_get p h' = Inr v" using heap_set_get_same [OF w s'] by (simp add: place_get_def p)
  show "p \<noteq> q \<Longrightarrow> place_get q h' = place_get q h"
    using heap_set_get_other [OF w s', of U G y] by (simp add: place_get_def p q)
qed

section \<open>Payload pools\<close>

lemma extends_pools:
  "length (hbytes h) \<le> length b \<Longrightarrow> length (hwords h) \<le> length w \<Longrightarrow> extends h (h\<lparr>hbytes := b, hwords := w\<rparr>)"
  by (simp add: extends_def)

lemma heap_ok_pools:
  assumes ok: "heap_ok h" and b: "length (hbytes h) \<le> length b" "length b < 2 ^ 32"
    and w: "length (hwords h) \<le> length w" "length w < 2 ^ 32" "\<forall>x \<in> set w. live h x"
  shows "heap_ok (h\<lparr>hbytes := b, hwords := w\<rparr>)"
proof -
  let ?h = "h\<lparr>hbytes := b, hwords := w\<rparr>"
  note e = extends_pools [OF b(1) w(1)]
  have "tables_ok ?h" using ok row_ok_mono [OF _ e] by (simp add: heap_ok_def tables_ok_def)
  moreover have "pools_ok ?h" using b w live_mono [OF _ e] by (simp add: pools_ok_def)
  ultimately show ?thesis
    using ok extends_pins_ok [OF _ e] extends_roots_ok [OF _ e] by (simp add: heap_ok_def)
qed

lemma pool_append_Inr:
  assumes "pool_append pool data = Inr (idx, pool')" "length pool < 2 ^ 32"
  shows "pool' = pool @ data \<and> idx = of_nat (length pool) \<and> length pool' < 2 ^ 32"
  using assms by (auto simp: pool_append_def pool_size_def Let_def split: if_splits)

lemma unat_length: "length xs < 2 ^ 32 \<Longrightarrow> unat (of_nat (length xs) :: u32) = length xs"
  by (simp add: unat_of_nat)

lemma heap_read_pools [simp]: "heap_read T x (h\<lparr>hbytes := b, hwords := w\<rparr>) = heap_read T x h"
  by (simp add: heap_read_def heap_check_def)

lemma slice_prefix: "slice i n p = Inr d \<Longrightarrow> prefix p q \<Longrightarrow> slice i n q = Inr d"
  by (auto simp: slice_def prefix_def split: if_splits)

lemma slice_appended: "length p + length d < 2 ^ 32 \<Longrightarrow> slice (of_nat (length p)) (of_nat (length d)) (p @ d) = Inr d"
  by (simp add: slice_def unat_of_nat)

lemma keeps_slices:
  assumes "keeps h h'"
  shows "v08slice y h = Inr d \<Longrightarrow> v08slice y h' = Inr d" "heap_words T y h = Inr ws \<Longrightarrow> heap_words T y h' = Inr ws"
  using assms slice_prefix by (auto simp: keeps_def v08slice_def heap_words_def split: sum.splits)

lemma keeps_trans: "keeps a b \<Longrightarrow> keeps b c \<Longrightarrow> keeps a c"
  by (auto simp: keeps_def intro: prefix_order.trans)

lemma allocates_after:
  assumes "allocates T r h x h'" "keeps h0 h" "extends h0 h" "hvat h = hvat h0"
  shows "allocates T r h0 x h'"
proof -
  have "live h x = live h0 x" using assms(3,4) by (simp add: live_def extends_def)
  then show ?thesis using assms keeps_trans extends_trans by (auto simp: allocates_def)
qed

text \<open>A payload object: grow the pools, then push the row that describes the new part.\<close>

lemma payload_allocates:
  assumes ok: "heap_ok h" and T: "T = v08 \<or> word_payload T"
    and pb: "pb = hbytes h @ db" "length pb < 2 ^ 32" and pw: "pw = hwords h @ dw" "length pw < 2 ^ 32"
    and live: "\<forall>w \<in> set dw. live h w"
    and fit: "T = v08 \<longrightarrow> unat i + unat n \<le> length pb" "word_payload T \<longrightarrow> unat i + unat n \<le> length pw"
    and mk: "heap_make T [i, n] (h\<lparr>hbytes := pb, hwords := pw\<rparr>) = Inr (x, h')"
  shows "allocates T [i, n] h x h' \<and> hbytes h' = pb \<and> hwords h' = pw"
proof -
  let ?h = "h\<lparr>hbytes := pb, hwords := pw\<rparr>"
  have lp: "\<forall>w \<in> set pw. live h w" using live ok pw by (auto simp: heap_ok_def pools_ok_def)
  have ok1: "heap_ok ?h" by (rule heap_ok_pools [OF ok]) (use pb pw lp in simp_all)
  have p: "is_pointer T" "schema T = [(F_idx, Offset), (F_len, Length)]"
    using T by (auto simp: is_pointer_iff word_payload_def)
  have "i \<noteq> zap" using mk by (auto simp: heap_make_def)
  then have "row_ok T ?h [i, n]" using fit p(2) by (auto simp: row_ok_def payload_ok_def less_Suc_eq)
  from heap_make_allocates [OF ok1 p(1) this mk]
  have a: "allocates T [i, n] ?h x h'" and s: "\<exists>t. h' = ?h\<lparr>hvat := (hvat ?h)(T := t)\<rparr>" by auto
  have "keeps h ?h" using pb pw by (simp add: keeps_def)
  moreover have "extends h ?h" using pb pw by (simp add: extends_def)
  ultimately show ?thesis using allocates_after [OF a] s by auto
qed

lemma newv08_allocates:
  assumes ok: "heap_ok h" and n: "newv08 data h = Inr (x, h')"
  shows "allocates v08 [of_nat (length (hbytes h)), of_nat (length data)] h x h'
    \<and> v08slice x h' = Inr data \<and> hbytes h' = hbytes h @ data \<and> hwords h' = hwords h"
proof -
  obtain idx pool where a: "pool_append (hbytes h) data = Inr (idx, pool)"
    and mk: "heap_make v08 [idx, of_nat (length data)] (h\<lparr>hbytes := pool\<rparr>) = Inr (x, h')"
    using n by (auto simp: newv08_def split: sum.splits)
  have lb: "length (hbytes h) < 2 ^ 32" "length (hwords h) < 2 ^ 32" using ok by (simp_all add: heap_ok_def pools_ok_def)
  note p = pool_append_Inr [OF a lb(1)]
  have mk': "heap_make v08 [idx, of_nat (length data)] (h\<lparr>hbytes := pool, hwords := hwords h\<rparr>) = Inr (x, h')"
    using mk by simp
  note pa = payload_allocates [OF ok, of v08 pool data "hwords h" "[]" idx "of_nat (length data)" x h', OF _ _ _ _ _ _ _ _ mk']
  have A: "allocates v08 [idx, of_nat (length data)] h x h' \<and> hbytes h' = pool \<and> hwords h' = hwords h"
    by (rule pa) (use p lb in \<open>auto simp: unat_of_nat word_payload_def\<close>)
  moreover from A p have "v08slice x h' = Inr data"
    using slice_appended [of "hbytes h" data] by (auto simp: allocates_def v08slice_def)
  ultimately show ?thesis using p by simp
qed

lemma new_words_allocates:
  assumes ok: "heap_ok h" and T: "word_payload T" and live: "\<forall>w \<in> set data. live h w"
    and n: "new_words T data h = Inr (x, h')"
  shows "allocates T [of_nat (length (hwords h)), of_nat (length data)] h x h'
    \<and> heap_words T x h' = Inr data \<and> hbytes h' = hbytes h \<and> hwords h' = hwords h @ data"
proof -
  obtain idx pool where a: "pool_append (hwords h) data = Inr (idx, pool)"
    and mk: "heap_make T [idx, of_nat (length data)] (h\<lparr>hwords := pool\<rparr>) = Inr (x, h')"
    using n by (auto simp: new_words_def split: sum.splits)
  have lb: "length (hbytes h) < 2 ^ 32" "length (hwords h) < 2 ^ 32" using ok by (simp_all add: heap_ok_def pools_ok_def)
  note p = pool_append_Inr [OF a lb(2)]
  have mk': "heap_make T [idx, of_nat (length data)] (h\<lparr>hbytes := hbytes h, hwords := pool\<rparr>) = Inr (x, h')"
    using mk by simp
  note pa = payload_allocates [OF ok, of T "hbytes h" "[]" pool data idx "of_nat (length data)" x h', OF _ _ _ _ _ _ _ _ mk']
  have A: "allocates T [idx, of_nat (length data)] h x h' \<and> hbytes h' = hbytes h \<and> hwords h' = pool"
    by (rule pa) (use p lb live T in \<open>auto simp: unat_of_nat word_payload_def\<close>)
  moreover from A p have "heap_words T x h' = Inr data"
    using slice_appended [of "hwords h" data] by (auto simp: allocates_def heap_words_def)
  ultimately show ?thesis using p by simp
qed

lemma filledv32_new_words:
  "heap_ok h \<Longrightarrow> filledv32 n v h = (if n = 0 then newv32 [] h else newv32 (replicate n v) h)"
  by (auto simp: filledv32_def newv32_def new_words_def pool_append_def pool_size_def heap_ok_def pools_ok_def Let_def
      split: sum.splits)

section \<open>Mutation keeps the invariant\<close>

lemma heap_set_ok:
  assumes ok: "heap_ok h" and s: "heap_set T F x v h = Inr h'"
    and v: "\<And>c. column_index T F = Some c \<Longrightarrow> stores T c v h"
  shows "heap_ok h'"
  using s
proof (rule heap_set_cases)
  fix c i assume c: "column_index T F = Some c" and i: "heap_check T x h = Inr i"
    and h': "h' = h\<lparr>hvat := (hvat h)(T := tab_set i c v (hvat h T))\<rparr>"
  have i': "i < tab_size (hvat h T)" using i by (simp add: heap_check_Inr)
  show ?thesis unfolding h' tab_set_put
    by (rule heap_put_row_ok [OF ok i' row_ok_update [OF heap_ok_row [OF ok i'] column_index_Some(1) [OF c] v [OF c]]])
qed

lemma heap_put_ok:
  assumes "heap_ok h" "heap_put T x data h = Inr h'" "row_ok T h data"
  shows "heap_ok h'"
proof (cases "heap_check T x h")
  case (Inr i)
  then have "i < tab_size (hvat h T)" by (simp add: heap_check_Inr)
  from heap_put_row_ok [OF assms(1) this assms(3)] show ?thesis
    using assms(2) Inr by (auto simp: heap_put_def split: if_splits)
qed (use assms in \<open>simp add: heap_put_def split: if_splits\<close>)

lemma set_word_cases:
  assumes "heap_ok h" "set_word T x i v h = Inr h'"
  obtains r where "heap_read T x h = Inr r" "i < unat (r ! 1)" "unat (r ! 0) + unat (r ! 1) \<le> length (hwords h)"
    "h' = h\<lparr>hwords := (hwords h)[unat (r ! 0) + i := v]\<rparr>"
proof (cases "heap_read T x h")
  case (Inr r)
  then show ?thesis using that [of r] assms by (auto simp: set_word_def split: if_splits)
qed (use assms in \<open>simp add: set_word_def\<close>)

lemma set_word_ok:
  assumes "heap_ok h" "set_word T x i v h = Inr h'" "live h v"
  shows "heap_ok h'"
  using assms(1,2)
proof (rule set_word_cases)
  fix r assume h': "h' = h\<lparr>hwords := (hwords h)[unat (r ! 0) + i := v]\<rparr>"
  let ?w = "(hwords h)[unat (r ! 0) + i := v]"
  have "\<forall>x \<in> set ?w. live h x"
    using assms(1,3) set_update_subset_insert [of "hwords h" "unat (r ! 0) + i" v]
    by (auto simp: heap_ok_def pools_ok_def)
  then have "heap_ok (h\<lparr>hbytes := hbytes h, hwords := ?w\<rparr>)"
    using assms(1) by (intro heap_ok_pools) (simp_all add: heap_ok_def pools_ok_def)
  then show ?thesis by (simp add: h')
qed

lemma heap_ok_pins_roots:
  assumes "heap_ok h" "pins_ok (h\<lparr>hpins := p, next_pin := n\<rparr>)"
  shows "heap_ok (h\<lparr>hpins := p, next_pin := n\<rparr>)"
proof -
  have e: "extends h (h\<lparr>hpins := p, next_pin := n\<rparr>)" by (simp add: extends_def)
  show ?thesis
    using assms live_mono [OF _ e] row_ok_mono [OF _ e] extends_roots_ok [OF _ e]
    by (auto simp: heap_ok_def tables_ok_def pools_ok_def)
qed

lemma live_pins [simp]: "live (h\<lparr>hpins := p, next_pin := n\<rparr>) v = live h v" "live (h\<lparr>hroots := r\<rparr>) v = live h v"
  "live (h\<lparr>hpins := p\<rparr>) v = live h v"
  by (simp_all add: live_def)

lemma pins_fresh: "pins_ok h \<Longrightarrow> map_of (hpins h) (next_pin h) = None"
  by (auto simp: pins_ok_def map_of_eq_None_iff)

lemma make_pin_eq:
  assumes "heap_ok h" "next_pin h \<le> max_immediate"
  shows "make_pin v h = Inr (immediate pin (next_pin h), h\<lparr>hpins := hpins h @ [(next_pin h, v)], next_pin := next_pin h + 1\<rparr>)"
  using assms pins_fresh [of h] by (simp add: make_pin_def heap_ok_def)

lemma pin_word: "heap_ok h \<Longrightarrow> next_pin h \<le> max_immediate \<Longrightarrow>
    tag_of (immediate pin (next_pin h)) = pin \<and> payload_of (immediate pin (next_pin h)) = next_pin h"
  by (simp add: immediate_fields)

lemma next_pin_increases: "next_pin h \<le> max_immediate \<Longrightarrow> next_pin h < next_pin h + 1 \<and> next_pin h + 1 \<le> max_immediate + 1"
  by (simp add: max_immediate_def word_le_nat_alt word_less_nat_alt unat_word_ariths)

lemma make_pin_ok:
  assumes ok: "heap_ok h" and v: "live h v" and p: "make_pin v h = Inr (x, h')"
  shows "heap_ok h'"
proof -
  have le: "next_pin h \<le> max_immediate" using p by (auto simp: make_pin_def split: if_splits)
  have h': "h' = h\<lparr>hpins := hpins h @ [(next_pin h, v)], next_pin := next_pin h + 1\<rparr>"
    using make_pin_eq [OF ok le] p by simp
  note np = next_pin_increases [OF le]
  have P: "pins_ok h" using ok by (simp add: heap_ok_def)
  have "pins_ok h'"
    using P v np unfolding pins_ok_def h'
    by (auto simp: sorted_wrt_append intro: order.strict_trans)
  then show ?thesis unfolding h' by (rule heap_ok_pins_roots [OF ok])
qed

lemma free_pin_ok:
  assumes "heap_ok h" "free_pin x h = Inr h'"
  shows "heap_ok h'"
proof -
  let ?p = "filter (\<lambda>kv. fst kv \<noteq> payload_of x) (hpins h)"
  have h': "h' = h\<lparr>hpins := ?p, next_pin := next_pin h\<rparr>" using assms(2) by (simp add: free_pin_def split: if_splits)
  have "sorted_wrt (<) (map fst ?p)"
    using assms(1) by (simp add: heap_ok_def pins_ok_def sorted_wrt_map sorted_wrt_filter)
  then have "pins_ok h'" using assms(1) unfolding h' by (auto simp: heap_ok_def pins_ok_def)
  then show ?thesis unfolding h' by (rule heap_ok_pins_roots [OF assms(1)])
qed

lemma heap_ok_roots:
  assumes "heap_ok h" "distinct (map fst r)" "\<forall>(a, v) \<in> set r. live h v"
  shows "heap_ok (h\<lparr>hroots := r\<rparr>)"
proof -
  have e: "extends h (h\<lparr>hroots := r\<rparr>)" by (simp add: extends_def)
  show ?thesis
    using assms row_ok_mono [OF _ e] extends_pins_ok [OF _ e]
    by (auto simp: heap_ok_def tables_ok_def pools_ok_def roots_ok_def)
qed

lemma root_open_ok: "heap_ok h \<Longrightarrow> live h v \<Longrightarrow> a \<notin> fst ` set (hroots h) \<Longrightarrow> heap_ok (root_open a v h)"
  unfolding root_open_def by (rule heap_ok_roots) (auto simp: heap_ok_def roots_ok_def)

lemma root_close_ok: "heap_ok h \<Longrightarrow> heap_ok (root_close a h)"
  unfolding root_close_def by (rule heap_ok_roots) (auto simp: heap_ok_def roots_ok_def distinct_map_filter)

lemma root_set_ok:
  assumes "heap_ok h" "live h v"
  shows "heap_ok (root_set a v h)"
  unfolding root_set_def
proof (rule heap_ok_roots [OF assms(1)])
  have "map fst (map (\<lambda>r. if fst r = a then (a, v) else r) (hroots h)) = map fst (hroots h)" by (simp cong: map_cong)
  then show "distinct (map fst (map (\<lambda>r. if fst r = a then (a, v) else r) (hroots h)))"
    using assms(1) by (simp add: heap_ok_def roots_ok_def del: map_map)
  show "\<forall>(b, w) \<in> set (map (\<lambda>r. if fst r = a then (a, v) else r) (hroots h)). live h w"
    using assms by (auto simp: heap_ok_def roots_ok_def)
qed

lemma freeze_continuations_ok: "heap_ok h \<Longrightarrow> heap_ok (freeze_continuations h)"
proof -
  assume ok: "heap_ok h"
  have e: "extends h (freeze_continuations h)" by (simp add: extends_def freeze_continuations_def)
  show ?thesis
    using ok row_ok_mono [OF _ e] live_mono [OF _ e] extends_pins_ok [OF _ e] extends_roots_ok [OF _ e]
    by (auto simp: heap_ok_def tables_ok_def pools_ok_def freeze_continuations_def)
qed

section \<open>Copying a continuation frame\<close>

lemma v32slice_region:
  assumes "v32slice x h = Inr ws"
  obtains r where "heap_read v32 x h = Inr r" "unat (r ! 0) + unat (r ! 1) \<le> length (hwords h)"
    "ws = take (unat (r ! 1)) (drop (unat (r ! 0)) (hwords h))"
  using assms by (auto simp: v32slice_def heap_words_def slice_def split: sum.splits if_splits)

lemma slice_live: "heap_ok h \<Longrightarrow> v32slice x h = Inr ws \<Longrightarrow> \<forall>w \<in> set ws. live h w"
  by (erule v32slice_region) (auto simp: heap_ok_def pools_ok_def dest!: in_set_takeD in_set_dropD)

lemma take_drop_update_disjoint:
  "i + n \<le> k \<Longrightarrow> take n (drop i (xs[k := v])) = take n (drop i xs)"
  by (simp add: drop_update_swap)

lemma clonev32_disjoint:
  assumes ok: "heap_ok h" and old: "v32slice x h = Inr ws" and c: "clonev32 x h = Inr (y, h1)"
    and keep: "keeps h1 h2" and ok2: "heap_ok h2" and set: "v32set y i v h2 = Inr h3"
  shows "v32slice x h3 = Inr ws"
proof -
  have n: "new_words v32 ws h = Inr (y, h1)" using c old by (simp add: clonev32_def newv32_def)
  have "word_payload v32" by (simp add: word_payload_def)
  from new_words_allocates [OF ok this slice_live [OF ok old] n]
  have a: "allocates v32 [of_nat (length (hwords h)), of_nat (length ws)] h y h1" by blast
  from keep have y: "heap_read v32 y h2 = Inr [of_nat (length (hwords h)), of_nat (length ws)]"
    using a by (auto simp: keeps_def allocates_def)
  obtain r where r: "heap_read v32 x h = Inr r" "unat (r ! 0) + unat (r ! 1) \<le> length (hwords h)"
    "ws = take (unat (r ! 1)) (drop (unat (r ! 0)) (hwords h))" using old by (rule v32slice_region)
  have k: "keeps h h2" using keep a keeps_trans by (auto simp: allocates_def)
  have l: "length (hwords h) < 2 ^ 32" using ok by (simp add: heap_ok_def pools_ok_def)
  have old2: "v32slice x h2 = Inr ws" using keeps_slices(2) [OF k] old by (simp add: v32slice_def)
  have h3: "h3 = h2\<lparr>hwords := (hwords h2)[length (hwords h) + i := v]\<rparr>"
    using set ok2 y l by (auto simp: v32set_def set_word_def unat_of_nat split: if_splits)
  have x2: "heap_read v32 x h2 = Inr r" using k r(1) by (auto simp: keeps_def)
  have x3: "heap_read v32 x h3 = Inr r" using x2 by (simp add: h3 heap_read_def heap_check_def)
  show ?thesis using old2 x2 x3 r(2) take_drop_update_disjoint [of "unat (r ! 0)" "unat (r ! 1)" "length (hwords h) + i" "hwords h2" v]
    by (simp add: v32slice_def heap_words_def slice_def h3 split: if_splits)
qed

lemma copy_continuation_frame_cases:
  assumes ok: "heap_ok h" and r: "heap_read ktx x h = Inr frame"
    and f: "tag_of (frame ! 2) \<in> {fun, jet, rec}" "tag_of (frame ! 3) = v32"
    and c: "copy_continuation_frame x h = Inr (y, h')"
  obtains acc h1 ws where "v32slice (frame ! 3) h = Inr ws" "clonev32 (frame ! 3) h = Inr (acc, h1)"
    "keeps h h1" "keeps h1 h'" "heap_ok h'" "heap_read ktx y h' = Inr (frame[3 := acc])"
    "v32slice acc h' = Inr ws" "\<not> live h y"
proof -
  obtain acc h1 where cl: "clonev32 (frame ! 3) h = Inr (acc, h1)" and mk: "heap_make ktx (frame[3 := acc]) h1 = Inr (y, h')"
    using c r f by (auto simp: copy_continuation_frame_def Let_def split: sum.splits)
  then obtain ws where ws: "v32slice (frame ! 3) h = Inr ws" by (auto simp: clonev32_def split: sum.splits)
  have n: "new_words v32 ws h = Inr (acc, h1)" using cl ws by (simp add: clonev32_def newv32_def)
  have "word_payload v32" by (simp add: word_payload_def)
  from new_words_allocates [OF ok this slice_live [OF ok ws] n]
  have a: "allocates v32 [of_nat (length (hwords h)), of_nat (length ws)] h acc h1"
    and w: "heap_words v32 acc h1 = Inr ws" by auto
  from a have ok1: "heap_ok h1" and e: "extends h h1" and k: "keeps h h1" and l: "live h1 acc"
    by (auto simp: allocates_def)
  have ro: "row_ok ktx h1 frame" by (rule row_ok_mono [OF heap_read_row_ok [OF ok r] e])
  have "stores ktx 3 acc h1" using l by (simp add: stores_def)
  then have "row_ok ktx h1 (frame[3 := acc])" by (intro row_ok_update [OF ro]) simp_all
  from heap_make_allocates [OF ok1 _ this mk]
  have a2: "allocates ktx (frame[3 := acc]) h1 y h'" by (simp add: is_pointer_iff)
  then have k2: "keeps h1 h'" and ok': "heap_ok h'" and y: "heap_read ktx y h' = Inr (frame[3 := acc])"
    and nl: "\<not> live h1 y" by (auto simp: allocates_def)
  have "\<not> live h y" using nl live_mono [OF _ e] by blast
  moreover have "v32slice acc h' = Inr ws" using keeps_slices(2) [OF k2 w] by (simp add: v32slice_def)
  ultimately show ?thesis using that [OF ws cl k k2 ok' y] by blast
qed

section \<open>Properties\<close>

text \<open>A heap used by the witnesses: one pair, one byte string, one word vector and a frame
  that holds it.\<close>

definition sample_heap :: heap where
  "sample_heap = (new_heap True)\<lparr>
     hvat := (\<lambda>_. empty_tab)(
       duo := \<lparr>trows = [[fixnum 1, nil]], tcapacity = 8\<rparr>,
       v08 := \<lparr>trows = [[0, 2]], tcapacity = 8\<rparr>,
       v32 := \<lparr>trows = [[0, 1]], tcapacity = 8\<rparr>,
       ktx := \<lparr>trows = [[nil, nil, immediate jet 7, pointer v32 0 False, nil]], tcapacity = 8\<rparr>),
     hbytes := [104, 105], hwords := [nil]\<rparr>"


lemma live_immediate: "t \<noteq> integer \<Longrightarrow> \<not> is_pointer t \<Longrightarrow> p \<le> max_immediate \<Longrightarrow> live h (immediate t p)"
  by (simp add: live_def immediate_fields)

lemma sample_words: "live h nil" "live h (fixnum 1)" "live h (immediate jet 7)" "live sample_heap (pointer v32 0 False)"
  "fixnum 1 \<noteq> zap" "nil \<noteq> zap" "(0 :: u32) \<noteq> zap"
proof -
  show "live h nil" "live h (immediate jet 7)"
    unfolding nil_def by (rule live_immediate; simp add: is_pointer_iff max_immediate_def)+
  show "live h (fixnum 1)" using fixnum_fields(1) [of 1] by (simp add: live_def is_pointer_iff min_fixnum_def max_fixnum_def)
  show "live sample_heap (pointer v32 0 False)"
    using pointer_fields [of v32 0 False] by (simp add: live_def sample_heap_def tab_size_def new_heap_def)
qed (simp_all add: nil_def zap_def immediate_def fixnum_def)

lemma sample_vat: "hvat sample_heap = (\<lambda>_. empty_tab)(
       duo := \<lparr>trows = [[fixnum 1, nil]], tcapacity = 8\<rparr>,
       v08 := \<lparr>trows = [[0, 2]], tcapacity = 8\<rparr>,
       v32 := \<lparr>trows = [[0, 1]], tcapacity = 8\<rparr>,
       ktx := \<lparr>trows = [[nil, nil, immediate jet 7, pointer v32 0 False, nil]], tcapacity = 8\<rparr>)"
  by (simp add: sample_heap_def)

lemma sample_heap_ok: "heap_ok sample_heap"
proof -
  have "row_ok duo sample_heap [fixnum 1, nil]" "row_ok v08 sample_heap [0, 2]" "row_ok v32 sample_heap [0, 1]"
    "row_ok ktx sample_heap [nil, nil, immediate jet 7, pointer v32 0 False, nil]"
    using sample_words by (auto simp: row_ok_def payload_ok_def word_payload_def less_Suc_eq)
      (simp_all add: sample_heap_def)
  then have "tab_ok (hvat sample_heap T) \<and> (\<not> is_pointer T \<longrightarrow> trows (hvat sample_heap T) = [])
      \<and> (\<forall>r \<in> set (trows (hvat sample_heap T)). row_ok T sample_heap r)" for T
    by (cases T) (simp_all add: sample_vat tab_ok_def tab_size_def max_rows_eq is_pointer_iff)
  then have "tables_ok sample_heap" by (simp add: tables_ok_def)
  moreover have "pools_ok sample_heap" using sample_words(1) [of sample_heap] by (simp add: pools_ok_def) (simp add: sample_heap_def)
  ultimately show ?thesis
    by (simp add: heap_ok_def pins_ok_def roots_ok_def max_immediate_def) (simp add: sample_heap_def new_heap_def)
qed

text \<open>C34. Allocating a row on a well-formed heap succeeds exactly while its table has fewer than
  2^26 rows, and fails with the table-is-full error otherwise.  On success the new
  object is live, was not before, reads back as the row given, every object that could
  be read before reads the same, both payload pools keep their content, and the heap
  is again well formed.\<close>

theorem heap_make_spec:
  assumes "heap_ok h" "is_pointer T" "row_ok T h data"
  shows "if tab_size (hvat h T) < 2 ^ 26
    then \<exists>x h'. heap_make T data h = Inr (x, h') \<and> heap_ok h' \<and> live h' x \<and> \<not> live h x
      \<and> heap_read T x h' = Inr data
      \<and> (\<forall>U y r. heap_read U y h = Inr r \<longrightarrow> heap_read U y h' = Inr r)
      \<and> prefix (hbytes h) (hbytes h') \<and> prefix (hwords h) (hwords h')
    else heap_make T data h = Inl TableIsFull"
proof (cases "tab_size (hvat h T) < max_rows")
  case True
  then obtain x h' where "heap_make T data h = Inr (x, h')" using heap_make_total [OF assms] by blast
  with heap_make_allocates [OF assms this] True show ?thesis
    unfolding allocates_def keeps_def max_rows_eq by auto
next
  case False
  then show ?thesis using heap_make_full [OF assms(1) False] assms(3) by (simp add: row_ok_def max_rows_eq)
qed

theorem heap_make_spec_witness:
  "\<exists>x h'. heap_make duo [nil, nil] sample_heap = Inr (x, h') \<and> heap_read duo x h' = Inr [nil, nil]
     \<and> heap_read duo (pointer duo 0 False) h' = Inr [fixnum 1, nil]"
proof -
  have "row_ok duo sample_heap [nil, nil]"
    using sample_words by (auto simp: row_ok_def payload_ok_def word_payload_def less_Suc_eq)
  from heap_make_spec [OF sample_heap_ok _ this]
  obtain x h' where "heap_make duo [nil, nil] sample_heap = Inr (x, h')" "heap_read duo x h' = Inr [nil, nil]"
    "\<forall>U y r. heap_read U y sample_heap = Inr r \<longrightarrow> heap_read U y h' = Inr r"
    by (auto simp: is_pointer_iff sample_heap_def tab_size_def)
  moreover have "heap_read duo (pointer duo 0 False) sample_heap = Inr [fixnum 1, nil]"
    using pointer_fields [of duo 0 False]
    by (simp add: heap_read_Inr heap_check_Inr sample_heap_def new_heap_def tab_size_def)
  ultimately show ?thesis by blast
qed

text \<open>Byte strings and word vectors read back as written: what \<^verbatim>\<open>newv08\<close> or \<^verbatim>\<open>newv32\<close> stored
  is what the slice of the returned word gives, earlier slices of either kind are
  unaffected, and the heap stays well formed.\<close>

theorem payload_roundtrip:
  assumes "heap_ok h" "\<forall>w \<in> set ws. live h w"
    "newv08 bs h = Inr (x, h1)" "newv32 ws h1 = Inr (y, h2)"
  shows "heap_ok h2 \<and> v08slice x h2 = Inr bs \<and> v32slice y h2 = Inr ws
    \<and> (\<forall>z d. v08slice z h = Inr d \<longrightarrow> v08slice z h2 = Inr d)
    \<and> (\<forall>z d. v32slice z h = Inr d \<longrightarrow> v32slice z h2 = Inr d)"
proof -
  have a: "allocates v08 [of_nat (length (hbytes h)), of_nat (length bs)] h x h1" and x: "v08slice x h1 = Inr bs"
    using newv08_allocates [OF assms(1,3)] by auto
  then have ok1: "heap_ok h1" and k1: "keeps h h1" and e: "extends h h1" by (auto simp: allocates_def)
  have lv: "\<forall>w \<in> set ws. live h1 w" using assms(2) live_mono [OF _ e] by blast
  have "word_payload v32" by (simp add: word_payload_def)
  from new_words_allocates [OF ok1 this lv assms(4) [unfolded newv32_def]]
  have ok2: "heap_ok h2" and k2: "keeps h1 h2" and y: "heap_words v32 y h2 = Inr ws" by (auto simp: allocates_def)
  then show ?thesis
    using x keeps_slices [OF k2] keeps_slices [OF keeps_trans [OF k1 k2]] by (auto simp: v32slice_def)
qed

theorem payload_roundtrip_witness:
  "\<exists>x y h1 h2. newv08 [1, 2, 3] sample_heap = Inr (x, h1) \<and> newv32 [nil, nil] h1 = Inr (y, h2)
     \<and> v08slice x h2 = Inr [1, 2, 3] \<and> v32slice y h2 = Inr [nil, nil]"
proof -
  have e1: "\<exists>x h1 y h2. newv08 [1, 2, 3] sample_heap = Inr (x, h1) \<and> newv32 [nil, nil] h1 = Inr (y, h2)"
    by (simp add: newv08_def newv32_def new_words_def sample_heap_def new_heap_def pool_append_def pool_size_def
        heap_make_def tab_push_def tab_size_def zap_def immediate_def)
  then show ?thesis
    using payload_roundtrip [OF sample_heap_ok, of "[nil, nil]" "[1, 2, 3]"] sample_words(1) by fastforce
qed

text \<open>Fields behave as independent memory cells: after any sequence of successful \<^verbatim>\<open>set\<close>s, a
  field reads as the last value written to it, or as before if it was not written.\<close>

theorem field_writes_read:
  assumes "heap_ok h"
    "foldl (\<lambda>r ((T, F, x), v). case r of Inl e \<Rightarrow> Inl e | Inr g \<Rightarrow> heap_set T F x v g) (Inr h) ws = Inr h'"
  shows "heap_get U G y h' = (case map_of (rev ws) (U, G, y) of Some v \<Rightarrow> Inr v | None \<Rightarrow> heap_get U G y h)"
proof -
  let ?f = "\<lambda>r ((T, F, x), v). case r of Inl e \<Rightarrow> Inl e | Inr g \<Rightarrow> heap_set T F x v g"
  have err: "foldl ?f (Inl e) ws = Inl e" for e :: heap_error and ws by (induction ws) auto
  have "foldl ?f (Inr h) ws = cells.writes ws h" for h ws
  proof (induction ws arbitrary: h)
    case (Cons w ws)
    then show ?case
      by (cases w; cases "heap_set (fst (fst w)) (fst (snd (fst w))) (snd (snd (fst w))) (snd w) h")
        (auto simp: place_set_triple err)
  qed simp
  then have "cells.writes ws h = Inr h'" using assms(2) by simp
  from cells.writes_read [OF heap_ok_rows_wide [OF assms(1)] this, of "(U, G, y)"]
  show ?thesis by (simp add: place_get_def split: option.splits)
qed

theorem field_writes_read_witness:
  "\<exists>h'. foldl (\<lambda>r ((T, F, x), v). case r of Inl e \<Rightarrow> Inl e | Inr g \<Rightarrow> heap_set T F x v g) (Inr sample_heap)
      [((duo, F_car, pointer duo 0 False), w_t), ((duo, F_cdr, pointer duo 0 False), nah)] = Inr h'
    \<and> heap_get duo F_car (pointer duo 0 False) h' = Inr w_t"
proof -
  let ?f = "\<lambda>r ((T, F, x), v). case r of Inl e \<Rightarrow> Inl e | Inr g \<Rightarrow> heap_set T F x v g"
  let ?x = "pointer duo 0 False"
  have "\<exists>h'. foldl ?f (Inr sample_heap) [((duo, F_car, ?x), w_t), ((duo, F_cdr, ?x), nah)] = Inr h'"
    using pointer_fields [of duo 0 False]
    by (simp add: heap_set_def column_index_def heap_check_def sample_heap_def new_heap_def tab_size_def tab_set_def
        w_t_def zap_def immediate_def)
  then obtain h' where h': "foldl ?f (Inr sample_heap) [((duo, F_car, ?x), w_t), ((duo, F_cdr, ?x), nah)] = Inr h'" by blast
  from field_writes_read [OF sample_heap_ok h', of duo F_car ?x] h' show ?thesis by auto
qed

text \<open>Copying a continuation frame that holds a partially filled argument vector gives a
  fresh frame whose vector has the same words and is not shared: writing any slot of
  the copy's vector leaves the original's vector as it was.\<close>

theorem copy_continuation_frame_private:
  assumes "heap_ok h" "heap_read ktx x h = Inr frame"
    "tag_of (frame ! 2) \<in> {fun, jet, rec}" "tag_of (frame ! 3) = v32"
    "copy_continuation_frame x h = Inr (y, h')"
  shows "\<exists>acc ws. heap_ok h' \<and> \<not> live h y \<and> heap_read ktx y h' = Inr (frame[3 := acc])
    \<and> heap_read ktx x h' = Inr frame
    \<and> v32slice (frame ! 3) h' = Inr ws \<and> v32slice acc h' = Inr ws
    \<and> (\<forall>i v h''. v32set acc i v h' = Inr h'' \<longrightarrow> v32slice (frame ! 3) h'' = Inr ws)"
  using assms
proof (rule copy_continuation_frame_cases)
  fix acc h1 ws
  assume ws: "v32slice (frame ! 3) h = Inr ws" and cl: "clonev32 (frame ! 3) h = Inr (acc, h1)"
    and k: "keeps h h1" "keeps h1 h'" and ok': "heap_ok h'" and y: "heap_read ktx y h' = Inr (frame[3 := acc])"
    and a: "v32slice acc h' = Inr ws" and nl: "\<not> live h y"
  have kk: "keeps h h'" by (rule keeps_trans [OF k])
  have "v32slice (frame ! 3) h' = Inr ws" using keeps_slices(2) [OF kk] ws by (simp add: v32slice_def)
  moreover have "heap_read ktx x h' = Inr frame" using kk assms(2) by (auto simp: keeps_def)
  ultimately show ?thesis
    using ok' nl y a clonev32_disjoint [OF assms(1) ws cl k(2) ok'] by blast
qed

theorem copy_continuation_frame_private_witness:
  "\<exists>y h' acc. copy_continuation_frame (pointer ktx 0 False) sample_heap = Inr (y, h')
     \<and> heap_read ktx y h' = Inr [nil, nil, immediate jet 7, acc, nil]"
proof -
  let ?x = "pointer ktx 0 False" and ?f = "[nil, nil, immediate jet 7, pointer v32 0 False, nil]"
  have r: "heap_read ktx ?x sample_heap = Inr ?f"
    using pointer_fields [of ktx 0 False]
    by (simp add: heap_read_Inr heap_check_Inr sample_heap_def new_heap_def tab_size_def)
  have t: "tag_of (immediate jet 7) = jet" "tag_of (pointer v32 0 False) = v32"
    using pointer_fields [of v32 0 False] by (simp_all add: immediate_fields max_immediate_def)
  have "heap_read v32 (pointer v32 0 False) sample_heap = Inr [0, 1]"
    using pointer_fields [of v32 0 False]
    by (simp add: heap_read_Inr heap_check_Inr sample_heap_def new_heap_def tab_size_def)
  then have "\<exists>y h'. copy_continuation_frame ?x sample_heap = Inr (y, h')"
    using r t sample_words(6)
    by (simp add: copy_continuation_frame_def clonev32_def v32slice_def heap_words_def slice_def
        newv32_def new_words_def sample_heap_def pool_append_def pool_size_def heap_make_def tab_push_def tab_size_def
        new_heap_def zap_def immediate_def)
  then obtain y h' where c: "copy_continuation_frame ?x sample_heap = Inr (y, h')" by blast
  from copy_continuation_frame_private [OF sample_heap_ok r _ _ c] t c show ?thesis by auto
qed

text \<open>Pins: a new pin resolves to its value, other pins are unaffected by it, pin ids are
  never reused, and a freed pin resolves no more; exhausting the ids is an error.\<close>

theorem pin_laws:
  assumes "heap_ok h" "live h v" "make_pin v h = Inr (p, h')" "free_pin p h' = Inr h''"
  shows "heap_ok h' \<and> heap_ok h'' \<and> pinned p h = Inl Assertion \<and> pinned p h' = Inr v \<and> pinned p h'' = Inl Assertion
    \<and> (\<forall>q. q \<noteq> p \<longrightarrow> tag_of q = pin \<longrightarrow> payload_of q \<noteq> payload_of p
          \<longrightarrow> pinned q h' = pinned q h \<and> pinned q h'' = pinned q h)
    \<and> (\<forall>w q g. make_pin w h'' = Inr (q, g) \<longrightarrow> q \<noteq> p)"
proof -
  have le: "next_pin h \<le> max_immediate" using assms(3) by (auto simp: make_pin_def split: if_splits)
  have pe: "p = immediate pin (next_pin h)"
    and h': "h' = h\<lparr>hpins := hpins h @ [(next_pin h, v)], next_pin := next_pin h + 1\<rparr>"
    using make_pin_eq [OF assms(1) le] assms(3) by auto
  note pw = pin_word [OF assms(1) le, folded pe]
  have h'': "h'' = h'\<lparr>hpins := filter (\<lambda>kv. fst kv \<noteq> next_pin h) (hpins h')\<rparr>"
    using assms(4) pw by (simp add: free_pin_def split: if_splits)
  have fr: "map_of (hpins h) (next_pin h) = None" using pins_fresh assms(1) by (simp add: heap_ok_def)
  have un: "map_of (filter (\<lambda>kv. fst kv \<noteq> k) m) j = (if j = k then None else map_of m j)" for m :: "(u32 \<times> wword) list" and j k
    by (induction m) auto
  have "q \<noteq> p" if m: "make_pin w h'' = Inr (q, g)" for w q g
  proof -
    have l2: "next_pin h + 1 \<le> max_immediate" and q: "q = immediate pin (next_pin h + 1)"
      using m by (auto simp: make_pin_def h'' h' split: if_splits)
    have "payload_of q = next_pin h + 1" using immediate_fields(2) [of pin "next_pin h + 1"] l2 q by simp
    then show "q \<noteq> p" using pw next_pin_increases [OF le] by auto
  qed
  moreover have "heap_ok h'" "heap_ok h''"
    using make_pin_ok [OF assms(1-3)] free_pin_ok [OF _ assms(4)] by auto
  ultimately show ?thesis
    using pw fr by (auto simp: pinned_def h'' un) (auto simp: h' map_of_append map_add_def split: option.splits)
qed

theorem pin_laws_witness:
  "\<exists>p h' h''. make_pin nil sample_heap = Inr (p, h') \<and> free_pin p h' = Inr h'' \<and> pinned p h' = Inr nil \<and> pinned p h'' = Inl Assertion"
proof -
  have le: "next_pin sample_heap \<le> max_immediate" by (simp add: sample_heap_def new_heap_def max_immediate_def)
  obtain p h' where m: "make_pin nil sample_heap = Inr (p, h')" and "tag_of p = pin"
    using make_pin_eq [OF sample_heap_ok le, of nil] pin_word [OF sample_heap_ok le] by blast
  then obtain h'' where f: "free_pin p h' = Inr h''" by (auto simp: free_pin_def)
  from pin_laws [OF sample_heap_ok sample_words(1) m f] m f show ?thesis by blast
qed

end
