(* ===== verification/Wisp_Tidy.thy ===== *)
theory Wisp_Tidy
  imports Wisp_Heap
begin

text \<open>
  The copying collector of the Wisp heap, \<^verbatim>\<open>struct tidy\<close> and \<^verbatim>\<open>heap::collect\<close> of
  \<^verbatim>\<open>src/wisp/heap.cpp\<close>.  Live rows are copied to fresh tables of the other era; the first
  two columns of a copied row become the forwarding mark \<^verbatim>\<open>zap\<close> and the new pointer.
  The fresh tables and the fresh word pool are scanned until no old pointer is left.

  Everything after the reservation is \<^verbatim>\<open>noexcept\<close>: \<open>None\<close> stands for an assertion that
  fails, a terminated process or a loop that does not end.  The theorems show that
  none of these happens on a well-formed heap.
\<close>

section \<open>Model\<close>

record tidy =
  told :: heap
  tnext :: vat
  tbytes :: bytes
  twords :: "wword list"
  tscan :: "tag \<Rightarrow> nat"
  tword_scan :: nat

fun pool_total :: "nat \<Rightarrow> wword list \<Rightarrow> heap_error + nat" where
  "pool_total n [] = Inr n"
| "pool_total n (len # lens) = (case pool_size n (unat len) of Inl e \<Rightarrow> Inl e | Inr n' \<Rightarrow> pool_total n' lens)"

fun reserve_all :: "tag list \<Rightarrow> heap \<Rightarrow> vat \<Rightarrow> heap_error + vat" where
  "reserve_all [] h v = Inr v"
| "reserve_all (T # Ts) h v =
     (case tab_reserve (tab_size (hvat h T)) (v T) of Inl e \<Rightarrow> Inl e | Inr t \<Rightarrow> reserve_all Ts h (v(T := t)))"

definition tidy_make :: "heap \<Rightarrow> heap_error + tidy" where
  "tidy_make h =
     (case reserve_all vat_order h (\<lambda>_. empty_tab) of
        Inl e \<Rightarrow> Inl e
      | Inr next \<Rightarrow>
          (case pool_total 0 (tab_col 1 (hvat h v32)) of
             Inl e \<Rightarrow> Inl e
           | Inr n \<Rightarrow>
               (case pool_total n (tab_col 1 (hvat h rec)) of
                  Inl e \<Rightarrow> Inl e
                | Inr _ \<Rightarrow>
                    (case pool_total 0 (tab_col 1 (hvat h v08)) of
                       Inl e \<Rightarrow> Inl e
                     | Inr _ \<Rightarrow> Inr \<lparr>told = h, tnext = next, tbytes = [], twords = [], tscan = (\<lambda>_. 0), tword_scan = 0\<rparr>))))"

fun ok_value :: "heap_error + 'a \<Rightarrow> 'a option" where
  "ok_value (Inl _) = None"
| "ok_value (Inr a) = Some a"

text \<open>The payload of the row moves to the end of the fresh pool, whose length becomes the offset.\<close>

definition move_payload :: "tag \<Rightarrow> wword \<Rightarrow> row \<Rightarrow> tidy \<Rightarrow> (row \<times> tidy) option" where
  "move_payload T x data t =
     (if word_payload T then
        Option.bind (ok_value (heap_words T x (told t)))
          (\<lambda>payload. Some (data[0 := of_nat (length (twords t))], t\<lparr>twords := twords t @ payload\<rparr>))
      else if T = v08 then
        Option.bind (ok_value (v08slice x (told t)))
          (\<lambda>payload. Some (data[0 := of_nat (length (tbytes t))], t\<lparr>tbytes := tbytes t @ payload\<rparr>))
      else Some (data, t))"

definition tidy_push :: "tag \<Rightarrow> wword \<Rightarrow> tidy \<Rightarrow> (wword \<times> tidy) option" where
  "tidy_push T x t =
     (if era_of x \<noteq> hera (told t) then Some (x, t)
      else Option.bind (ok_value (heap_check T x (told t))) (\<lambda>i.
        let from = hvat (told t) T in
        if tab_get i 0 from = zap then Some (tab_get i 1 from, t)
        else Option.bind (move_payload T x (tab_read i from) t) (\<lambda>(data, t').
          Option.bind (ok_value (tab_push data (tnext t' T))) (\<lambda>(j, to).
            let y = pointer T j (\<not> hera (told t'));
                from' = tab_set i 1 y (tab_set i 0 zap from)
            in Some (y, t'\<lparr>tnext := (tnext t')(T := to),
                           told := (told t')\<lparr>hvat := (hvat (told t'))(T := from')\<rparr>\<rparr>)))))"

definition tidy_copy :: "wword \<Rightarrow> tidy \<Rightarrow> (wword \<times> tidy) option" where
  "tidy_copy x t =
     (if tag_of x \<in> {duo, sym, fun, mac, v32, v08, pkg, run, ktx, ext, rec} then tidy_push (tag_of x) x t
      else Some (x, t))"

fun pull_cells :: "tag \<Rightarrow> nat \<Rightarrow> nat list \<Rightarrow> tidy \<Rightarrow> tidy option" where
  "pull_cells T i [] t = Some t"
| "pull_cells T i (c # cs) t =
     (if snd (schema T ! c) \<noteq> Value then pull_cells T i cs t
      else Option.bind (tidy_copy (tab_get i c (tnext t T)) t) (\<lambda>(v, t').
        pull_cells T i cs (t'\<lparr>tnext := (tnext t')(T := tab_set i c v (tnext t' T))\<rparr>)))"

partial_function (option) pull_rows :: "tag \<Rightarrow> tidy \<Rightarrow> tidy option" where
  "pull_rows T t =
     (if tscan t T < tab_size (tnext t T)
      then Option.bind (pull_cells T (tscan t T) [0..<width T] t)
             (\<lambda>t'. pull_rows T (t'\<lparr>tscan := (tscan t')(T := tscan t' T + 1)\<rparr>))
      else Some t)"

definition pull :: "tag \<Rightarrow> tidy \<Rightarrow> (bool \<times> tidy) option" where
  "pull T t = map_option (Pair (tscan t T < tab_size (tnext t T))) (pull_rows T t)"

fun pull_all :: "tag list \<Rightarrow> bool \<Rightarrow> tidy \<Rightarrow> (bool \<times> tidy) option" where
  "pull_all [] changed t = Some (changed, t)"
| "pull_all (T # Ts) changed t = Option.bind (pull T t) (\<lambda>(c, t'). pull_all Ts (c \<or> changed) t')"

partial_function (option) scan_words :: "bool \<Rightarrow> tidy \<Rightarrow> (bool \<times> tidy) option" where
  "scan_words changed t =
     (if tword_scan t < length (twords t)
      then Option.bind (tidy_copy (twords t ! tword_scan t) t)
             (\<lambda>(v, t'). scan_words True
                (t'\<lparr>twords := (twords t')[tword_scan t' := v], tword_scan := tword_scan t' + 1\<rparr>))
      else Some (changed, t))"

definition sweep :: "tidy \<Rightarrow> (bool \<times> tidy) option" where
  "sweep t = Option.bind (pull_all vat_order False t) (\<lambda>(changed, t'). scan_words changed t')"

partial_function (option) sweep_loop :: "tidy \<Rightarrow> tidy option" where
  "sweep_loop t = Option.bind (sweep t) (\<lambda>(changed, t'). if changed then sweep_loop t' else Some t')"

declare pull_rows.simps [code] scan_words.simps [code] sweep_loop.simps [code]

text \<open>Pins and roots: each slot is rewritten in place, in map order and from the newest root on.\<close>

fun copy_slots :: "('k \<times> wword) list \<Rightarrow> tidy \<Rightarrow> (('k \<times> wword) list \<times> tidy) option" where
  "copy_slots [] t = Some ([], t)"
| "copy_slots ((k, v) # rest) t =
     Option.bind (tidy_copy v t) (\<lambda>(v', t').
       Option.bind (copy_slots rest t') (\<lambda>(rest', t''). Some ((k, v') # rest', t'')))"

definition tidy_run :: "tidy \<Rightarrow> heap option" where
  "tidy_run t0 =
     Option.bind (copy_slots (hpins (told t0)) t0) (\<lambda>(ps, t1).
       Option.bind (copy_slots (hroots (told t1)) (t1\<lparr>told := (told t1)\<lparr>hpins := ps\<rparr>\<rparr>)) (\<lambda>(rs, t2).
         Option.bind (sweep_loop (t2\<lparr>told := (told t2)\<lparr>hroots := rs\<rparr>\<rparr>)) (\<lambda>t.
           let old = release_externals (told t)
           in Some (freeze_continuations
                (old\<lparr>hvat := tnext t, hbytes := tbytes t, hwords := twords t, hera := \<not> hera old\<rparr>)))))"

definition collect :: "heap \<Rightarrow> heap_error + heap" where
  "collect h =
     (case tidy_make h of
        Inl e \<Rightarrow> Inl e
      | Inr t \<Rightarrow> (case tidy_run t of None \<Rightarrow> Inl Assertion | Some h' \<Rightarrow> Inr h'))"


section \<open>Reachability and translation\<close>

inductive reach :: "heap \<Rightarrow> wword \<Rightarrow> bool" for h where
  reach_pin: "(k, v) \<in> set (hpins h) \<Longrightarrow> reach h v"
| reach_root: "(a, v) \<in> set (hroots h) \<Longrightarrow> reach h v"
| reach_field: "reach h x \<Longrightarrow> heap_read (tag_of x) x h = Inr r \<Longrightarrow> c < width (tag_of x)
    \<Longrightarrow> snd (schema (tag_of x) ! c) = Value \<Longrightarrow> reach h (r ! c)"
| reach_word: "reach h x \<Longrightarrow> word_payload (tag_of x) \<Longrightarrow> heap_words (tag_of x) x h = Inr ws
    \<Longrightarrow> w \<in> set ws \<Longrightarrow> reach h w"

lemma heap_words_live: "heap_ok h \<Longrightarrow> heap_words T x h = Inr ws \<Longrightarrow> w \<in> set ws \<Longrightarrow> live h w"
  by (auto simp: heap_words_def slice_def heap_ok_def pools_ok_def split: sum.splits if_splits
      dest!: in_set_takeD in_set_dropD)

lemma reach_live:
  assumes ok: "heap_ok h" and r: "reach h x"
  shows "live h x"
  using r
proof (induction rule: reach.induct)
  case (reach_pin k v)
  then show ?case using ok by (auto simp: heap_ok_def pins_ok_def)
next
  case (reach_root a v)
  then show ?case using ok by (auto simp: heap_ok_def roots_ok_def)
next
  case (reach_field x r c)
  then show ?case using heap_read_row_ok [OF ok] by (auto simp: row_ok_def)
next
  case (reach_word x ws w)
  then show ?case using heap_words_live [OF ok] by blast
qed

text \<open>While the collector runs, \<open>src T\<close> lists the old rows of table \<open>T\<close> copied so far, in the
  order of their copies.  It determines the translation \<open>phi\<close> of old words.\<close>

definition pos :: "nat list \<Rightarrow> nat \<Rightarrow> nat" where
  "pos xs i = length (takeWhile (\<lambda>j. j \<noteq> i) xs)"

definition moved :: "heap \<Rightarrow> (tag \<Rightarrow> nat list) \<Rightarrow> wword \<Rightarrow> bool" where
  "moved h src x \<longleftrightarrow> is_pointer (tag_of x) \<and> era_of x = hera h \<and> unat (index_of x) \<in> set (src (tag_of x))"

definition new_word :: "heap \<Rightarrow> (tag \<Rightarrow> nat list) \<Rightarrow> tag \<Rightarrow> nat \<Rightarrow> wword" where
  "new_word h src T i = pointer T (of_nat (pos (src T) i)) (\<not> hera h)"

definition phi :: "heap \<Rightarrow> (tag \<Rightarrow> nat list) \<Rightarrow> wword \<Rightarrow> wword" where
  "phi h src x = (if moved h src x then new_word h src (tag_of x) (unat (index_of x)) else x)"

definition clean :: "heap \<Rightarrow> wword \<Rightarrow> bool" where
  "clean h v \<longleftrightarrow> (is_pointer (tag_of v) \<longrightarrow> era_of v \<noteq> hera h)"

definition rel :: "heap \<Rightarrow> (tag \<Rightarrow> nat list) \<Rightarrow> wword \<Rightarrow> wword \<Rightarrow> bool" where
  "rel h src x v \<longleftrightarrow> v = x \<or> v = phi h src x"

definition src_ok :: "heap \<Rightarrow> (tag \<Rightarrow> nat list) \<Rightarrow> bool" where
  "src_ok h src \<longleftrightarrow> (\<forall>T. distinct (src T) \<and> (\<forall>i \<in> set (src T). i < tab_size (hvat h T) \<and> reach h (pointer T (of_nat i) (hera h))))"

definition grown :: "(tag \<Rightarrow> nat list) \<Rightarrow> (tag \<Rightarrow> nat list) \<Rightarrow> bool" where
  "grown src src' \<longleftrightarrow> (\<forall>T. prefix (src T) (src' T))"

lemma pos_less: "i \<in> set xs \<Longrightarrow> pos xs i < length xs"
  by (induction xs) (auto simp: pos_def)

lemma nth_pos: "i \<in> set xs \<Longrightarrow> xs ! pos xs i = i"
  unfolding pos_def using nth_length_takeWhile [of "\<lambda>j. j \<noteq> i" xs] pos_less [of i xs, unfolded pos_def] by auto

lemma pos_nth: "distinct xs \<Longrightarrow> k < length xs \<Longrightarrow> pos xs (xs ! k) = k"
  using nth_pos [of "xs ! k" xs] pos_less [of "xs ! k" xs] by (simp add: nth_eq_iff_index_eq)

lemma pos_append: "i \<in> set xs \<Longrightarrow> pos (xs @ ys) i = pos xs i"
  unfolding pos_def by (subst takeWhile_append1) auto

lemma pos_last: "i \<notin> set xs \<Longrightarrow> pos (xs @ [i]) i = length xs"
  unfolding pos_def by (subst takeWhile_append2) auto

lemma grown_refl [simp]: "grown src src" by (simp add: grown_def)

lemma grown_trans: "grown a b \<Longrightarrow> grown b c \<Longrightarrow> grown a c"
  unfolding grown_def using prefix_order.trans by blast

lemma grown_set: "grown src src' \<Longrightarrow> i \<in> set (src T) \<Longrightarrow> i \<in> set (src' T) \<and> pos (src' T) i = pos (src T) i"
  unfolding grown_def by (metis pos_append prefixE set_append UnI1)

lemma moved_mono: "grown src src' \<Longrightarrow> moved h src x \<Longrightarrow> moved h src' x"
  by (auto simp: moved_def grown_set)

lemma phi_mono: "grown src src' \<Longrightarrow> moved h src x \<Longrightarrow> phi h src' x = phi h src x"
  using moved_mono [of src src' h x] by (simp add: phi_def new_word_def moved_def grown_set)

lemma rel_mono: "grown src src' \<Longrightarrow> rel h src x v \<Longrightarrow> rel h src' x v"
  unfolding rel_def by (metis phi_def phi_mono)

lemma src_ok_row: "src_ok h src \<Longrightarrow> i \<in> set (src T) \<Longrightarrow> i < tab_size (hvat h T)"
  by (simp add: src_ok_def)

lemma src_ok_length:
  assumes "src_ok h src"
  shows "length (src T) \<le> tab_size (hvat h T)"
proof -
  have "length (src T) = card (set (src T))" using assms by (simp add: src_ok_def distinct_card)
  also have "\<dots> \<le> card {..<tab_size (hvat h T)}" using assms by (intro card_mono) (auto simp: src_ok_def)
  finally show ?thesis by simp
qed

lemma new_word_fields:
  assumes "heap_ok h" "src_ok h src" "is_pointer T" "i \<in> set (src T)"
  shows "tag_of (new_word h src T i) = T" "unat (index_of (new_word h src T i)) = pos (src T) i"
    "era_of (new_word h src T i) = (\<not> hera h)"
proof -
  have "pos (src T) i < tab_size (hvat h T)"
    using pos_less [OF assms(4)] src_ok_length [OF assms(2), of T] by simp
  then have "pos (src T) i < max_rows" using heap_ok_tab [OF assms(1), of T] by (simp add: tab_ok_def)
  note f = row_index_fits [OF this]
  from pointer_fields [OF is_pointer_not_integer [OF assms(3)], of "of_nat (pos (src T) i)" "\<not> hera h"] f
  show "tag_of (new_word h src T i) = T" "unat (index_of (new_word h src T i)) = pos (src T) i"
    "era_of (new_word h src T i) = (\<not> hera h)" by (simp_all add: new_word_def)
qed

lemma phi_moved:
  assumes "heap_ok h" "src_ok h src" "moved h src x"
  shows "tag_of (phi h src x) = tag_of x \<and> unat (index_of (phi h src x)) = pos (src (tag_of x)) (unat (index_of x))
    \<and> era_of (phi h src x) = (\<not> hera h)"
  using new_word_fields [OF assms(1,2), of "tag_of x" "unat (index_of x)"] assms(3)
  by (simp add: phi_def moved_def)

lemma phi_clean:
  assumes "heap_ok h" "src_ok h src" "live h x"
  shows "clean h (phi h src x) \<longleftrightarrow> (is_pointer (tag_of x) \<longrightarrow> moved h src x)"
  using phi_moved [OF assms(1,2), of x] assms(3) by (auto simp: clean_def phi_def live_def moved_def)

lemma rel_clean:
  assumes "heap_ok h" "live h x" "rel h src x v" "clean h v"
  shows "v = phi h src x"
  using assms by (auto simp: rel_def phi_def moved_def clean_def live_def)

lemma phi_tag: "heap_ok h \<Longrightarrow> src_ok h src \<Longrightarrow> tag_of (phi h src x) = tag_of x"
  using phi_moved [of h src x] by (cases "moved h src x") (auto simp: phi_def)

lemma phi_inj:
  assumes "heap_ok h" "src_ok h src" "moved h src x" "moved h src y" "phi h src x = phi h src y"
  shows "x = y"
proof (rule pointer_eqI)
  note x = phi_moved [OF assms(1,2,3)] and y = phi_moved [OF assms(1,2,4)]
  show t: "tag_of y = tag_of x" using x y assms(5) by metis
  show "is_pointer (tag_of x)" "era_of y = era_of x" using assms(3,4) by (simp_all add: moved_def)
  have "pos (src (tag_of x)) (unat (index_of x)) = pos (src (tag_of x)) (unat (index_of y))"
    using x y assms(5) t by metis
  then show "unat (index_of y) = unat (index_of x)"
    using assms(3,4) t nth_pos unfolding moved_def by metis
qed

section \<open>Invariant of the collector\<close>

definition fwd_vat :: "heap \<Rightarrow> (tag \<Rightarrow> nat list) \<Rightarrow> vat" where
  "fwd_vat h src T = (hvat h T)\<lparr>trows := map (\<lambda>i.
     if i \<in> set (src T) then (trows (hvat h T) ! i)[0 := zap, 1 := new_word h src T i]
     else trows (hvat h T) ! i) [0..<tab_size (hvat h T)]\<rparr>"

definition wlen :: "heap \<Rightarrow> (tag \<Rightarrow> nat list) \<Rightarrow> tag \<Rightarrow> nat" where
  "wlen h src T = sum_list (map (\<lambda>i. unat (trows (hvat h T) ! i ! 1)) (src T))"

definition wtotal :: "heap \<Rightarrow> tag \<Rightarrow> nat" where
  "wtotal h T = (\<Sum>i < tab_size (hvat h T). unat (trows (hvat h T) ! i ! 1))"

text \<open>The payloads of all descriptors, copied one by one, end below the number that is the
  forwarding mark, so that no offset can be mistaken for it.\<close>

definition fits :: "heap \<Rightarrow> bool" where
  "fits h \<longleftrightarrow> wtotal h v32 + wtotal h rec < unat zap \<and> wtotal h v08 < unat zap"

definition row_rel :: "heap \<Rightarrow> (tag \<Rightarrow> nat list) \<Rightarrow> wword list \<Rightarrow> bytes \<Rightarrow> tag \<Rightarrow> row \<Rightarrow> row \<Rightarrow> bool" where
  "row_rel h src ow bs T r r' \<longleftrightarrow> length r' = width T \<and> r' ! 0 \<noteq> zap
     \<and> (\<forall>c < width T. snd (schema T ! c) = Value \<longrightarrow> rel h src (r ! c) (r' ! c))
     \<and> (\<forall>c < width T. snd (schema T ! c) \<notin> {Value, Offset} \<longrightarrow> r' ! c = r ! c)
     \<and> (T = v08 \<longrightarrow> unat (r' ! 0) + unat (r ! 1) \<le> length bs
         \<and> take (unat (r ! 1)) (drop (unat (r' ! 0)) bs) = take (unat (r ! 1)) (drop (unat (r ! 0)) (hbytes h)))
     \<and> (word_payload T \<longrightarrow> unat (r' ! 0) + unat (r ! 1) \<le> length ow
         \<and> take (unat (r ! 1)) (drop (unat (r' ! 0)) ow) = take (unat (r ! 1)) (drop (unat (r ! 0)) (hwords h)))"

definition row_clean :: "heap \<Rightarrow> tag \<Rightarrow> row \<Rightarrow> bool" where
  "row_clean h T r \<longleftrightarrow> (\<forall>c < width T. snd (schema T ! c) = Value \<longrightarrow> clean h (r ! c))"

definition old_inv :: "heap \<Rightarrow> (tag \<Rightarrow> nat list) \<Rightarrow> tidy \<Rightarrow> bool" where
  "old_inv h src t \<longleftrightarrow> told t = h\<lparr>hvat := fwd_vat h src, hpins := hpins (told t), hroots := hroots (told t)\<rparr>"

definition next_inv :: "heap \<Rightarrow> (tag \<Rightarrow> nat list) \<Rightarrow> wword list \<Rightarrow> tidy \<Rightarrow> bool" where
  "next_inv h src ow t \<longleftrightarrow> (\<forall>T. tab_ok (tnext t T) \<and> tab_size (tnext t T) = length (src T)
     \<and> (\<forall>k < length (src T). row_rel h src ow (tbytes t) T (trows (hvat h T) ! (src T ! k)) (trows (tnext t T) ! k)))"

definition pool_inv :: "heap \<Rightarrow> (tag \<Rightarrow> nat list) \<Rightarrow> wword list \<Rightarrow> tidy \<Rightarrow> bool" where
  "pool_inv h src ow t \<longleftrightarrow> length (twords t) = length ow
     \<and> (\<forall>j < length ow. rel h src (ow ! j) (twords t ! j) \<and> reach h (ow ! j))
     \<and> length ow = wlen h src v32 + wlen h src rec \<and> length (tbytes t) = wlen h src v08"

definition scan_inv :: "heap \<Rightarrow> tidy \<Rightarrow> bool" where
  "scan_inv h t \<longleftrightarrow> (\<forall>T. tscan t T \<le> tab_size (tnext t T) \<and> (\<forall>k < tscan t T. row_clean h T (trows (tnext t T) ! k)))
     \<and> tword_scan t \<le> length (twords t) \<and> (\<forall>j < tword_scan t. clean h (twords t ! j))"

definition tinv :: "heap \<Rightarrow> (tag \<Rightarrow> nat list) \<Rightarrow> wword list \<Rightarrow> tidy \<Rightarrow> bool" where
  "tinv h src ow t \<longleftrightarrow> old_inv h src t \<and> src_ok h src \<and> next_inv h src ow t \<and> pool_inv h src ow t \<and> scan_inv h t"

lemma row_rel_mono:
  "row_rel h src ow bs T r r' \<Longrightarrow> grown src src' \<Longrightarrow> prefix ow ow' \<Longrightarrow> prefix bs bs' \<Longrightarrow> row_rel h src' ow' bs' T r r'"
  unfolding row_rel_def using rel_mono by (auto simp: prefix_def)

lemma wlen_le:
  assumes "src_ok h src"
  shows "wlen h src T \<le> wtotal h T"
proof -
  have "wlen h src T = (\<Sum>i \<in> set (src T). unat (trows (hvat h T) ! i ! 1))"
    unfolding wlen_def using assms by (simp add: src_ok_def sum_list_distinct_conv_sum_set)
  also have "\<dots> \<le> wtotal h T"
    unfolding wtotal_def using assms by (intro sum_mono2) (auto simp: src_ok_def)
  finally show ?thesis .
qed

lemma wlen_other: "U \<noteq> T \<Longrightarrow> wlen h (src(T := xs)) U = wlen h src U"
  by (simp add: wlen_def)

lemma wlen_snoc: "wlen h (src(T := src T @ [i])) T = wlen h src T + unat (trows (hvat h T) ! i ! 1)"
  by (simp add: wlen_def)

lemma grown_snoc [simp]: "grown src (src(T := src T @ xs))"
  by (simp add: grown_def)

lemma fwd_vat_size [simp]: "tab_size (fwd_vat h src T) = tab_size (hvat h T)"
  by (simp add: fwd_vat_def tab_size_def)

lemma fwd_vat_row:
  "i < tab_size (hvat h T) \<Longrightarrow> trows (fwd_vat h src T) ! i =
     (if i \<in> set (src T) then (trows (hvat h T) ! i)[0 := zap, 1 := new_word h src T i] else trows (hvat h T) ! i)"
  by (simp add: fwd_vat_def)

lemma new_word_grown: "grown src src' \<Longrightarrow> i \<in> set (src T) \<Longrightarrow> new_word h src' T i = new_word h src T i"
  by (simp add: new_word_def grown_set)

lemma fwd_vat_snoc:
  assumes "i \<notin> set (src T)" "i < tab_size (hvat h T)"
  shows "fwd_vat h (src(T := src T @ [i])) = (fwd_vat h src)(T :=
    tab_set i 1 (pointer T (of_nat (length (src T))) (\<not> hera h)) (tab_set i 0 zap (fwd_vat h src T)))"
proof
  fix U
  let ?src = "src(T := src T @ [i])"
  have nw: "new_word h ?src V j = new_word h src V j" if "j \<in> set (src V)" for V j
    using that by (rule new_word_grown [OF grown_snoc])
  have ni: "new_word h ?src T i = pointer T (of_nat (length (src T))) (\<not> hera h)"
    using pos_last [OF assms(1)] by (simp add: new_word_def)
  show "fwd_vat h ?src U = ((fwd_vat h src)(T := tab_set i 1 (pointer T (of_nat (length (src T))) (\<not> hera h))
      (tab_set i 0 zap (fwd_vat h src T)))) U"
  proof (cases "U = T")
    case True
    have "trows (fwd_vat h ?src T) = trows (tab_set i 1 (pointer T (of_nat (length (src T))) (\<not> hera h))
      (tab_set i 0 zap (fwd_vat h src T)))" (is "?l = ?r")
    proof (rule nth_equalityI)
      show len: "length ?l = length ?r" by (simp add: fwd_vat_def tab_set_def)
      fix j assume "j < length ?l"
      then have j: "j < tab_size (hvat h T)" by (simp add: fwd_vat_def)
      then have jl: "j < length (trows (fwd_vat h src T))" by (simp add: fwd_vat_def)
      show "?l ! j = ?r ! j"
        using j jl assms nw [of j T] ni
        by (cases "j = i") (auto simp: fwd_vat_row tab_set_def list_update_overwrite)
    qed
    then show ?thesis using True by (simp add: tab_set_def fwd_vat_def)
  next
    case False
    then show ?thesis using nw [of _ U] by (simp add: fwd_vat_def)
  qed
qed

lemma tinv_told:
  assumes "tinv h src ow t"
  shows "hera (told t) = hera h" "hbytes (told t) = hbytes h" "hwords (told t) = hwords h" "hvat (told t) = fwd_vat h src"
proof -
  have e: "told t = h\<lparr>hvat := fwd_vat h src, hpins := hpins (told t), hroots := hroots (told t)\<rparr>"
    using assms by (simp add: tinv_def old_inv_def)
  show "hera (told t) = hera h" "hbytes (told t) = hbytes h" "hwords (told t) = hwords h" "hvat (told t) = fwd_vat h src"
    by (subst e, simp)+
qed

lemma told_check: "tinv h src ow t \<Longrightarrow> heap_check T x (told t) = heap_check T x h"
  by (simp add: heap_check_def tinv_told)

lemma told_read:
  assumes "tinv h src ow t" "unat (index_of x) \<notin> set (src T)"
  shows "heap_read T x (told t) = heap_read T x h"
proof (cases "heap_check T x h")
  case (Inr i)
  then have "i = unat (index_of x)" "i < tab_size (hvat h T)" by (auto simp: heap_check_Inr)
  then show ?thesis using Inr told_check [OF assms(1)] assms(2) tinv_told(4) [OF assms(1)]
    by (simp add: heap_read_def tab_read_def fwd_vat_row)
qed (simp add: heap_read_def told_check [OF assms(1)])

text \<open>What a step that may copy objects keeps.\<close>

definition later :: "(tag \<Rightarrow> nat list) \<Rightarrow> wword list \<Rightarrow> tidy \<Rightarrow> (tag \<Rightarrow> nat list) \<Rightarrow> wword list \<Rightarrow> tidy \<Rightarrow> bool" where
  "later src ow t src' ow' t' \<longleftrightarrow> grown src src' \<and> prefix ow ow'
     \<and> hpins (told t') = hpins (told t) \<and> hroots (told t') = hroots (told t)
     \<and> (\<forall>T. tscan t T \<le> tscan t' T) \<and> tword_scan t \<le> tword_scan t'"

definition copies :: "(tag \<Rightarrow> nat list) \<Rightarrow> wword list \<Rightarrow> tidy \<Rightarrow> (tag \<Rightarrow> nat list) \<Rightarrow> wword list \<Rightarrow> tidy \<Rightarrow> bool" where
  "copies src ow t src' ow' t' \<longleftrightarrow> later src ow t src' ow' t' \<and> tscan t' = tscan t \<and> tword_scan t' = tword_scan t
     \<and> (\<forall>T. prefix (trows (tnext t T)) (trows (tnext t' T))) \<and> prefix (twords t) (twords t')"

lemma later_refl [simp]: "later src ow t src ow t" by (simp add: later_def)

lemma later_trans: "later a o1 t b o2 u \<Longrightarrow> later b o2 u c o3 v \<Longrightarrow> later a o1 t c o3 v"
  unfolding later_def using grown_trans prefix_order.trans order_trans by (metis (no_types, lifting))

lemma copies_refl [simp]: "copies src ow t src ow t" by (simp add: copies_def)

lemma prefix_nth: "prefix xs ys \<Longrightarrow> i < length xs \<Longrightarrow> ys ! i = xs ! i"
  by (auto simp: prefix_def nth_append)

lemma row_clean_prefix: "prefix (trows a) (trows b) \<Longrightarrow> k < tab_size a \<Longrightarrow> trows b ! k = trows a ! k"
  unfolding tab_size_def by (rule prefix_nth)

text \<open>One more row copied: the heart of \<^verbatim>\<open>push\<close>.\<close>

lemma tinv_add:
  assumes ok: "heap_ok h" and inv: "tinv h src ow t"
    and i: "i < tab_size (hvat h T)" "i \<notin> set (src T)" and r: "reach h (pointer T (of_nat i) (hera h))"
    and pw: "\<forall>w \<in> set pw. reach h w"
      "length pw = (if word_payload T then unat (trows (hvat h T) ! i ! 1) else 0)"
    and pb: "length pb = (if T = v08 then unat (trows (hvat h T) ! i ! 1) else 0)"
    and to: "tab_ok to" "trows to = trows (tnext t T) @ [data]"
    and src': "src' = src(T := src T @ [i])"
    and rr: "row_rel h src' (ow @ pw) (tbytes t @ pb) T (trows (hvat h T) ! i) data"
    and t': "t' = t\<lparr>twords := twords t @ pw, tbytes := tbytes t @ pb, tnext := (tnext t)(T := to),
                   told := (told t)\<lparr>hvat := fwd_vat h src'\<rparr>\<rparr>"
  shows "tinv h src' (ow @ pw) t' \<and> copies src ow t src' (ow @ pw) t'"
proof -
  have g: "grown src src'" by (simp add: src')
  have so: "src_ok h src" and ni: "next_inv h src ow t" and pi: "pool_inv h src ow t" and si: "scan_inv h t"
    and oi: "old_inv h src t" using inv by (simp_all add: tinv_def)
  have "src_ok h src'" using so i r by (simp add: src_ok_def src')
  moreover have "old_inv h src' t'" using oi unfolding old_inv_def t' by (simp) (metis (no_types, lifting) heap.update_convs(1) heap.surjective heap.update_convs(4) heap.update_convs(6))
  moreover have "next_inv h src' (ow @ pw) t'"
    unfolding next_inv_def
  proof (intro allI conjI impI)
    fix U
    show "tab_ok (tnext t' U)" using ni to(1) by (simp add: t' next_inv_def)
    have szT: "tab_size (tnext t T) = length (src T)" using ni by (simp add: next_inv_def)
    show "tab_size (tnext t' U) = length (src' U)" using ni to(2) szT by (auto simp: t' next_inv_def src' tab_size_def)
    fix k assume k: "k < length (src' U)"
    have old: "row_rel h src' (ow @ pw) (tbytes t @ pb) U (trows (hvat h U) ! (src U ! k)) (trows (tnext t U) ! k)"
      if "k < length (src U)"
      using ni that by (intro row_rel_mono [OF _ g]) (auto simp: next_inv_def)
    show "row_rel h src' (ow @ pw) (tbytes t') U (trows (hvat h U) ! (src' U ! k)) (trows (tnext t' U) ! k)"
      using old rr k to(2) szT by (cases "U = T"; cases "k < length (src U)") (auto simp: t' src' nth_append tab_size_def not_less less_Suc_eq)
  qed
  moreover have "pool_inv h src' (ow @ pw) t'"
    unfolding pool_inv_def
  proof (intro conjI allI impI)
    have l: "length (twords t) = length ow" using pi by (simp add: pool_inv_def)
    then show "length (twords t') = length (ow @ pw)" by (simp add: t')
    have tt: "T = v32 \<Longrightarrow> word_payload T" "T = rec \<Longrightarrow> word_payload T" by (simp_all add: word_payload_def)
    show "length (ow @ pw) = wlen h src' v32 + wlen h src' rec"
      using pi pw(2) tt by (auto simp: pool_inv_def src' wlen_other wlen_snoc word_payload_def)
    show "length (tbytes t') = wlen h src' v08"
      using pi pb by (auto simp: pool_inv_def t' src' wlen_other wlen_snoc)
    fix j assume j: "j < length (ow @ pw)"
    show "rel h src' ((ow @ pw) ! j) (twords t' ! j)"
    proof (cases "j < length ow")
      case True
      then have "rel h src (ow ! j) (twords t ! j)" using pi by (simp add: pool_inv_def)
      then show ?thesis using True l rel_mono [OF g] by (simp add: t' nth_append)
    next
      case False then show ?thesis using l by (simp add: t' nth_append rel_def)
    qed
    show "reach h ((ow @ pw) ! j)" using j pi pw(1) by (auto simp: pool_inv_def nth_append)
  qed
  moreover have "scan_inv h t'"
    unfolding scan_inv_def
  proof (intro conjI allI impI)
    have pre: "prefix (trows (tnext t U)) (trows (tnext t' U))" for U using to(2) by (simp add: t')
    note si' = si [unfolded scan_inv_def]
    fix U
    show "tscan t' U \<le> tab_size (tnext t' U)"
      using si' prefix_length_le [OF pre, of U] by (auto simp: t' tab_size_def intro: order_trans)
    fix k assume "k < tscan t' U"
    then have k: "k < tscan t U" by (simp add: t')
    then have "k < tab_size (tnext t U)" using si' less_le_trans by blast
    then show "row_clean h U (trows (tnext t' U) ! k)" using row_clean_prefix [OF pre] si' k by metis
  next
    show "tword_scan t' \<le> length (twords t')" using si by (simp add: scan_inv_def t')
    fix j assume "j < tword_scan t'"
    then show "clean h (twords t' ! j)" using si by (auto simp: scan_inv_def t' nth_append)
  qed
  ultimately have "tinv h src' (ow @ pw) t'" by (simp add: tinv_def)
  then show ?thesis using g to(2) by (simp add: copies_def later_def t')
qed

lemma live_row:
  assumes "heap_ok h" "live h x" "is_pointer (tag_of x)"
  shows "heap_read (tag_of x) x h = Inr (trows (hvat h (tag_of x)) ! unat (index_of x))"
    "row_ok (tag_of x) h (trows (hvat h (tag_of x)) ! unat (index_of x))"
    "pointer (tag_of x) (of_nat (unat (index_of x))) (hera h) = x"
proof -
  have l: "era_of x = hera h" "unat (index_of x) < tab_size (hvat h (tag_of x))" using assms(2,3) by (simp_all add: live_def)
  then show "heap_read (tag_of x) x h = Inr (trows (hvat h (tag_of x)) ! unat (index_of x))"
    by (simp add: heap_read_Inr heap_check_Inr)
  then show "row_ok (tag_of x) h (trows (hvat h (tag_of x)) ! unat (index_of x))" by (rule heap_read_row_ok [OF assms(1)])
  show "pointer (tag_of x) (of_nat (unat (index_of x))) (hera h) = x"
    using pointer_eta [OF assms(3)] l(1) by simp
qed

definition moved_words :: "heap \<Rightarrow> tag \<Rightarrow> row \<Rightarrow> wword list" where
  "moved_words h T r = (if word_payload T then take (unat (r ! 1)) (drop (unat (r ! 0)) (hwords h)) else [])"

definition moved_bytes :: "heap \<Rightarrow> tag \<Rightarrow> row \<Rightarrow> bytes" where
  "moved_bytes h T r = (if T = v08 then take (unat (r ! 1)) (drop (unat (r ! 0)) (hbytes h)) else [])"

definition moved_row :: "tag \<Rightarrow> row \<Rightarrow> tidy \<Rightarrow> row" where
  "moved_row T r t = (if word_payload T then r[0 := of_nat (length (twords t))]
     else if T = v08 then r[0 := of_nat (length (tbytes t))] else r)"

lemma moved_lengths:
  assumes "row_ok T h r"
  shows "length (moved_words h T r) = (if word_payload T then unat (r ! 1) else 0)"
    "length (moved_bytes h T r) = (if T = v08 then unat (r ! 1) else 0)"
  using assms by (auto simp: row_ok_def payload_ok_def moved_words_def moved_bytes_def min_def)

lemma payload_words_slice:
  assumes "row_ok T h r" "word_payload T" "heap_read T x h = Inr r"
  shows "heap_words T x h = Inr (moved_words h T r)"
  using assms by (auto simp: heap_words_def slice_def row_ok_def payload_ok_def moved_words_def)

lemma payload_bytes_slice:
  assumes "row_ok v08 h r" "heap_read v08 x h = Inr r"
  shows "v08slice x h = Inr (moved_bytes h v08 r)"
  using assms by (auto simp: v08slice_def slice_def row_ok_def payload_ok_def moved_bytes_def)

lemma move_payload_eq:
  assumes inv: "tinv h src ow t" and n: "unat (index_of x) \<notin> set (src T)"
    and r: "heap_read T x h = Inr r" "row_ok T h r"
  shows "move_payload T x r t = Some (moved_row T r t,
     t\<lparr>twords := twords t @ moved_words h T r, tbytes := tbytes t @ moved_bytes h T r\<rparr>)"
proof -
  note rd = told_read [OF inv n]
  have w: "heap_words T x (told t) = heap_words T x h" using r(1) by (simp add: heap_words_def rd tinv_told [OF inv])
  have b: "v08slice x (told t) = v08slice x h" if "T = v08"
    using rd that r(1) by (simp add: v08slice_def tinv_told [OF inv])
  have nw: "\<not> word_payload v08" by (simp add: word_payload_def)
  consider "word_payload T" | "T = v08" | "\<not> word_payload T" "T \<noteq> v08" by blast
  then show ?thesis
  proof cases
    case 1
    then have "T \<noteq> v08" using nw by blast
    then show ?thesis using 1 w payload_words_slice [OF r(2) 1 r(1)]
      by (simp add: move_payload_def moved_row_def moved_bytes_def)
  next
    case 2
    then show ?thesis using b payload_bytes_slice [of h r x] r nw
      by (simp add: move_payload_def moved_row_def moved_words_def)
  qed (simp add: move_payload_def moved_row_def moved_words_def moved_bytes_def)
qed

lemma unat_below_zap: "n < unat zap \<Longrightarrow> unat (of_nat n :: u32) = n \<and> (of_nat n :: u32) \<noteq> zap"
proof -
  assume n: "n < unat zap"
  also have "unat zap < 2 ^ 32" by (simp add: zap_def immediate_def)
  finally have "unat (of_nat n :: u32) = n" by (simp add: unat_of_nat)
  then show ?thesis using n by auto
qed

lemma moved_row_rel:
  assumes r: "row_ok T h r" and lw: "length (twords t) = length ow"
    and fit: "word_payload T \<longrightarrow> length ow < unat zap" "T = v08 \<longrightarrow> length (tbytes t) < unat zap"
  shows "row_rel h src (ow @ moved_words h T r) (tbytes t @ moved_bytes h T r) T r (moved_row T r t)"
proof -
  note ml = moved_lengths [OF r]
  have np: "\<not> word_payload v08" by (simp add: word_payload_def)
  have len: "length r = width T" and nz: "r ! 0 \<noteq> zap" using r by (simp_all add: row_ok_def)
  consider (w) "word_payload T" "T \<noteq> v08" | (b) "T = v08" | (o) "\<not> word_payload T" "T \<noteq> v08" using np by blast
  then show ?thesis
  proof cases
    case w
    have sch: "schema T = [(F_idx, Offset), (F_len, Length)]" using w by (auto simp: word_payload_def)
    have len2: "length r = 2" using len sch by simp
    show ?thesis using w sch ml(1) len2 unat_below_zap [of "length ow"] fit lw
      by (auto simp: row_rel_def moved_row_def moved_words_def less_Suc_eq)
  next
    case b
    have len2: "length r = 2" using len b by simp
    show ?thesis using b np ml(2) len2 unat_below_zap [of "length (tbytes t)"] fit
      by (auto simp: row_rel_def moved_row_def moved_bytes_def less_Suc_eq)
  next
    case o
    then show ?thesis using len nz by (simp add: row_rel_def moved_row_def rel_def)
  qed
qed

lemma pool_room:
  assumes "fits h" "tinv h src ow t"
  shows "length ow < unat zap" "length (tbytes t) < unat zap"
  using assms wlen_le [of h src v32] wlen_le [of h src rec] wlen_le [of h src v08]
  by (simp_all add: tinv_def pool_inv_def fits_def)

lemma push_new:
  assumes ok: "heap_ok h" and fit: "fits h" and inv: "tinv h src ow t"
    and x: "reach h x" "is_pointer (tag_of x)" "unat (index_of x) \<notin> set (src (tag_of x))"
  shows "\<exists>src' ow' t'. tidy_push (tag_of x) x t = Some (phi h src' x, t') \<and> tinv h src' ow' t'
    \<and> copies src ow t src' ow' t' \<and> moved h src' x"
proof -
  define T where "T = tag_of x"
  define i where "i = unat (index_of x)"
  define r where "r = trows (hvat h T) ! i"
  define src' where "src' = src(T := src T @ [i])"
  have lv: "live h x" by (rule reach_live [OF ok x(1)])
  note lr = live_row [OF ok lv x(2), folded T_def i_def, folded r_def]
  have i: "i < tab_size (hvat h T)" "i \<notin> set (src T)" "era_of x = hera h"
    using lv x(2,3) by (simp_all add: live_def T_def i_def)
  have so: "src_ok h src" and ni: "next_inv h src ow t" and lw: "length (twords t) = length ow"
    using inv by (simp_all add: tinv_def pool_inv_def)
  have chk: "heap_check T x (told t) = Inr i" using told_check [OF inv] lv x(2) by (simp add: heap_check_Inr live_def T_def i_def)
  have frm: "trows (hvat (told t) T) ! i = r" using fwd_vat_row [OF i(1), of src] i(2) by (simp add: tinv_told [OF inv] r_def)
  have nz: "r ! 0 \<noteq> zap" using lr(2) by (simp add: row_ok_def)
  have rch: "reach h (pointer T (of_nat i) (hera h))" using lr(3) x(1) by simp
  have pwr: "\<forall>w \<in> set (moved_words h T r). reach h w"
  proof (cases "word_payload T")
    case True
    from reach_word [OF x(1) _ payload_words_slice [OF lr(2) True lr(1), unfolded T_def]] True
    show ?thesis by (simp add: T_def)
  qed (simp add: moved_words_def)
  have "src_ok h src'" using so i rch by (simp add: src_ok_def src'_def)
  from src_ok_length [OF this, of T] have "length (src T) < tab_size (hvat h T)" by (simp add: src'_def)
  also have "\<dots> \<le> max_rows" using heap_ok_tab [OF ok, of T] by (simp add: tab_ok_def)
  finally have room: "tab_size (tnext t T) < max_rows" using ni by (simp add: next_inv_def)
  have tk: "tab_ok (tnext t T)" and sz: "tab_size (tnext t T) = length (src T)" using ni by (simp_all add: next_inv_def)
  obtain to where to: "tab_push (moved_row T r t) (tnext t T) = Inr (of_nat (tab_size (tnext t T)), to)"
    "trows to = trows (tnext t T) @ [moved_row T r t]" "tab_ok to" using tab_push_ok [OF tk room] by blast
  define t' where "t' = t\<lparr>twords := twords t @ moved_words h T r, tbytes := tbytes t @ moved_bytes h T r,
      tnext := (tnext t)(T := to), told := (told t)\<lparr>hvat := fwd_vat h src'\<rparr>\<rparr>"
  have rr: "row_rel h src' (ow @ moved_words h T r) (tbytes t @ moved_bytes h T r) T r (moved_row T r t)"
    using pool_room [OF fit inv] by (intro moved_row_rel [OF lr(2) lw]) auto
  have A: "tinv h src' (ow @ moved_words h T r) t' \<and> copies src ow t src' (ow @ moved_words h T r) t'"
    using tinv_add [OF ok inv i(1,2) rch pwr _ _ to(3,2) src'_def, of "moved_bytes h T r" t'] rr moved_lengths [OF lr(2)]
    by (simp add: t'_def r_def)
  have mv: "moved h src' x" using x(2) i(3) by (simp add: moved_def src'_def T_def i_def)
  have ph: "phi h src' x = pointer T (of_nat (length (src T))) (\<not> hera h)"
    using mv pos_last [OF i(2)] by (simp add: phi_def new_word_def src'_def T_def i_def)
  have "tidy_push T x t = Some (phi h src' x, t')"
    using chk i(3) frm nz to(1) sz move_payload_eq [OF inv _ lr(1,2)] i(2)
    by (simp add: tidy_push_def tinv_told [OF inv] tab_get_def tab_read_def ph t'_def fwd_vat_snoc [of i src T h, OF i(2,1), folded src'_def]
        i_def Let_def)
  then show ?thesis using A mv unfolding T_def by blast
qed

lemma update_two: "2 \<le> length r \<Longrightarrow> r[0 := a, 1 := b] ! 0 = a \<and> r[0 := a, 1 := b] ! 1 = b"
  by (cases r; cases "tl r") auto

lemma copy_spec:
  assumes ok: "heap_ok h" and fit: "fits h" and inv: "tinv h src ow t"
    and x: "reach h x" and v: "rel h src x v"
  shows "\<exists>src' ow' t'. tidy_copy v t = Some (phi h src' x, t') \<and> tinv h src' ow' t'
    \<and> copies src ow t src' ow' t' \<and> clean h (phi h src' x)"
proof -
  have lv: "live h x" by (rule reach_live [OF ok x])
  have so: "src_ok h src" using inv by (simp add: tinv_def)
  have tg: "tag_of v = tag_of x" using v phi_tag [OF ok so, of x] by (auto simp: rel_def)
  have cp: "tidy_copy v t = (if is_pointer (tag_of v) then tidy_push (tag_of v) v t else Some (v, t))"
    by (simp add: tidy_copy_def is_pointer_iff)
  have "clean h v \<or> is_pointer (tag_of x) \<and> v = x"
  proof (cases "moved h src x")
    case True
    then show ?thesis using v phi_moved [OF ok so True] by (auto simp: clean_def rel_def moved_def)
  next
    case False
    then show ?thesis using v by (auto simp: clean_def rel_def phi_def)
  qed
  then consider (clean) "clean h v" | (old) "is_pointer (tag_of x)" "v = x" by blast
  then show ?thesis
  proof cases
    case clean
    then have "tidy_copy v t = Some (v, t)" using cp by (auto simp: clean_def tidy_push_def tinv_told [OF inv])
    then show ?thesis using rel_clean [OF ok lv v clean] clean inv copies_refl by blast
  next
    case old
    define i where "i = unat (index_of x)"
    show ?thesis
    proof (cases "i \<in> set (src (tag_of x))")
      case True
      let ?T = "tag_of x"
      have l: "era_of x = hera h" "i < tab_size (hvat h ?T)" using lv old(1) by (simp_all add: live_def i_def)
      have mv: "moved h src x" using True old(1) l by (simp add: moved_def i_def)
      have chk: "heap_check ?T x (told t) = Inr i" using told_check [OF inv] l by (simp add: heap_check_Inr i_def)
      have wd: "2 \<le> length (trows (hvat h ?T) ! i)"
        using live_row(2) [OF ok lv old(1)] width_pos [OF old(1)] by (simp add: row_ok_def i_def)
      have "trows (hvat (told t) ?T) ! i = (trows (hvat h ?T) ! i)[0 := zap, 1 := new_word h src ?T i]"
        using fwd_vat_row [OF l(2), of src] True by (simp add: tinv_told [OF inv])
      then have g: "tab_get i 0 (hvat (told t) ?T) = zap" "tab_get i 1 (hvat (told t) ?T) = new_word h src ?T i"
        using update_two [OF wd] unfolding tab_get_def by presburger+
      have "tidy_push ?T x t = Some (phi h src x, t)"
        using chk g l mv by (simp add: tidy_push_def tinv_told [OF inv] phi_def i_def)
      then show ?thesis using cp old inv mv phi_clean [OF ok so lv] copies_refl by metis
    next
      case False
      from push_new [OF ok fit inv x old(1)] False obtain src' ow' t' where
        "tidy_push (tag_of x) x t = Some (phi h src' x, t')" and i': "tinv h src' ow' t'"
        and "copies src ow t src' ow' t'" and mv: "moved h src' x" by (auto simp: i_def)
      moreover have "clean h (phi h src' x)" using phi_clean [OF ok _ lv, of src'] mv i' by (simp add: tinv_def)
      ultimately show ?thesis using cp old by auto
    qed
  qed
qed

lemma phi_not_zap:
  assumes "heap_ok h" "src_ok h src" "x \<noteq> zap"
  shows "phi h src x \<noteq> zap"
proof (cases "moved h src x")
  case True
  then show ?thesis using phi_moved [OF assms(1,2) True] zap_not_pointer by (auto simp: moved_def is_pointer_iff)
qed (use assms in \<open>simp add: phi_def\<close>)

lemma next_row:
  assumes "tinv h src ow t" "k < length (src T)"
  shows "row_rel h src ow (tbytes t) T (trows (hvat h T) ! (src T ! k)) (trows (tnext t T) ! k)"
    "k < length (trows (tnext t T))" "length (trows (tnext t T) ! k) = width T"
  using assms by (simp_all add: tinv_def next_inv_def row_rel_def tab_size_def)

lemma row_rel_set:
  assumes "row_rel h src ow bs T r r'" "c < width T" "snd (schema T ! c) = Value" "rel h src (r ! c) v" "c = 0 \<longrightarrow> v \<noteq> zap"
  shows "row_rel h src ow bs T r (r'[c := v])"
proof -
  have l: "length r' = width T" using assms(1) by (simp add: row_rel_def)
  have np: "T \<noteq> v08" "\<not> word_payload T"
    using payload_columns [of T c] assms(2,3) by (metis empty_iff field_kind.distinct(1,3) insert_iff)+
  have n: "r'[c := v] ! d = (if d = c then v else r' ! d)" if "d < width T" for d
    using that l by (simp add: nth_list_update_if)
  have "r'[c := v] ! 0 \<noteq> zap" using assms(1,2,5) n [of 0] by (cases "c = 0") (simp_all add: row_rel_def)
  moreover have "rel h src (r ! d) (r'[c := v] ! d)" if "d < width T" "snd (schema T ! d) = Value" for d
    using assms(1,4) that n [of d] by (cases "d = c") (simp_all add: row_rel_def)
  moreover have "r'[c := v] ! d = r ! d" if "d < width T" "snd (schema T ! d) \<notin> {Value, Offset}" for d
    using assms(1,3) that n [of d] by (cases "d = c") (simp_all add: row_rel_def)
  ultimately show ?thesis using l np by (simp add: row_rel_def)
qed

lemma tinv_set_cell:
  assumes ok: "heap_ok h" and inv: "tinv h src ow t" and k: "k < length (src T)" and c: "c < width T" "snd (schema T ! c) = Value"
    and v: "v = phi h src (trows (hvat h T) ! (src T ! k) ! c)" "clean h v"
    and t': "t' = t\<lparr>tnext := (tnext t)(T := tab_set k c v (tnext t T))\<rparr>"
  shows "tinv h src ow t' \<and> trows (tnext t' T) ! k = (trows (tnext t T) ! k)[c := v]"
proof -
  let ?r = "trows (hvat h T) ! (src T ! k)"
  note nr = next_row [OF inv k]
  have so: "src_ok h src" using inv by (simp add: tinv_def)
  have "src T ! k < tab_size (hvat h T)" using src_ok_row [OF so] k by simp
  then have "?r ! 0 \<noteq> zap" using heap_ok_row [OF ok] by (simp add: row_ok_def)
  then have nz: "c = 0 \<longrightarrow> v \<noteq> zap" using phi_not_zap [OF ok so, of "?r ! 0"] v(1) by simp
  have row: "trows (tnext t' T) ! k = (trows (tnext t T) ! k)[c := v]" using nr(2) by (simp add: t' tab_set_def)
  have other: "trows (tnext t' U) ! j = trows (tnext t U) ! j" if "(U, j) \<noteq> (T, k)" for U j
    using that by (auto simp: t' tab_set_def)
  have size: "tab_size (tnext t' U) = tab_size (tnext t U)" "tab_ok (tnext t' U) = tab_ok (tnext t U)" for U
    by (simp_all add: t' tab_set_def tab_size_def tab_ok_def)
  have rr: "row_rel h src ow (tbytes t) T ?r ((trows (tnext t T) ! k)[c := v])"
    by (rule row_rel_set [OF nr(1) c _ nz]) (simp add: rel_def v(1))
  have "next_inv h src ow t'"
    unfolding next_inv_def size
  proof (intro allI conjI impI)
    fix U j
    show "tab_ok (tnext t U)" "tab_size (tnext t U) = length (src U)" using inv by (simp_all add: tinv_def next_inv_def)
    assume j: "j < length (src U)"
    show "row_rel h src ow (tbytes t') U (trows (hvat h U) ! (src U ! j)) (trows (tnext t' U) ! j)"
      using rr row other [of U j] next_row(1) [OF inv j] by (cases "(U, j) = (T, k)") (auto simp: t')
  qed
  moreover have "scan_inv h t'"
  proof -
    have "row_clean h U (trows (tnext t' U) ! j)" if "row_clean h U (trows (tnext t U) ! j)" for U j
      using that row other [of U j] v(2) nr(3) c(1)
      by (cases "(U, j) = (T, k)") (auto simp: row_clean_def nth_list_update_if)
    then show ?thesis using inv unfolding tinv_def scan_inv_def size by (simp add: t')
  qed
  ultimately show ?thesis using inv row by (simp add: tinv_def old_inv_def pool_inv_def t')
qed

lemma tinv_set_word:
  assumes inv: "tinv h src ow t" and j: "tword_scan t < length ow" and v: "v = phi h src (ow ! tword_scan t)" "clean h v"
  shows "tinv h src ow (t\<lparr>twords := (twords t)[tword_scan t := v], tword_scan := tword_scan t + 1\<rparr>)"
  using assms by (auto simp: tinv_def old_inv_def next_inv_def pool_inv_def scan_inv_def rel_def nth_list_update_if less_Suc_eq)

lemma tinv_advance:
  assumes "tinv h src ow t" "tscan t T < length (src T)" "row_clean h T (trows (tnext t T) ! tscan t T)"
  shows "tinv h src ow (t\<lparr>tscan := (tscan t)(T := tscan t T + 1)\<rparr>)"
  using assms by (auto simp: tinv_def old_inv_def next_inv_def pool_inv_def scan_inv_def less_Suc_eq)

section \<open>The loops end, and keep the invariant\<close>

lemma tinv_reach_cell:
  assumes "heap_ok h" "src_ok h src" "k < length (src T)" "c < width T" "snd (schema T ! c) = Value"
  shows "reach h (trows (hvat h T) ! (src T ! k) ! c)"
proof -
  let ?i = "src T ! k"
  have i: "?i < tab_size (hvat h T)" "reach h (pointer T (of_nat ?i) (hera h))" using assms(2,3) by (simp_all add: src_ok_def)
  have T: "is_pointer T" by (rule heap_ok_size_pos [OF assms(1) i(1)])
  have "?i < max_rows" using i(1) heap_ok_tab [OF assms(1), of T] by (simp add: tab_ok_def)
  from row_index_fits [OF this] pointer_fields [OF is_pointer_not_integer [OF T], of "of_nat ?i" "hera h"]
  have f: "tag_of (pointer T (of_nat ?i) (hera h)) = T" "unat (index_of (pointer T (of_nat ?i) (hera h))) = ?i"
    "era_of (pointer T (of_nat ?i) (hera h)) = hera h" by auto
  then have "heap_read T (pointer T (of_nat ?i) (hera h)) h = Inr (trows (hvat h T) ! ?i)"
    using i(1) by (simp add: heap_read_Inr heap_check_Inr)
  from reach_field [OF i(2), unfolded f(1), OF this assms(4,5)] show ?thesis .
qed

lemma pull_cells_spec:
  assumes ok: "heap_ok h" and fit: "fits h" and inv: "tinv h src ow t" and k: "k < length (src T)" and cs: "set cs \<subseteq> {..<width T}"
  shows "\<exists>src' ow' t'. pull_cells T k cs t = Some t' \<and> tinv h src' ow' t' \<and> later src ow t src' ow' t'
    \<and> tscan t' = tscan t \<and> tword_scan t' = tword_scan t
    \<and> (\<forall>c < width T. snd (schema T ! c) = Value \<longrightarrow> c \<in> set cs \<or> clean h (trows (tnext t T) ! k ! c)
          \<longrightarrow> clean h (trows (tnext t' T) ! k ! c))"
  using inv k cs
proof (induction cs arbitrary: src ow t)
  case Nil
  then show ?case by (auto intro!: exI)
next
  case (Cons c cs)
  show ?case
  proof (cases "snd (schema T ! c) = Value")
    case False
    with Cons show ?thesis by (fastforce simp: False)
  next
    case True
    let ?x = "trows (hvat h T) ! (src T ! k) ! c"
    have so: "src_ok h src" using Cons.prems(1) by (simp add: tinv_def)
    have c: "c < width T" using Cons.prems(3) by simp
    have r: "rel h src ?x (trows (tnext t T) ! k ! c)"
      using next_row(1) [OF Cons.prems(1,2)] c True by (simp add: row_rel_def)
    from copy_spec [OF ok fit Cons.prems(1) tinv_reach_cell [OF ok so Cons.prems(2) c True] r]
    obtain s1 o1 t1 where cp: "tidy_copy (tab_get k c (tnext t T)) t = Some (phi h s1 ?x, t1)"
      and i1: "tinv h s1 o1 t1" and c1: "copies src ow t s1 o1 t1" and cl: "clean h (phi h s1 ?x)"
      by (auto simp: tab_get_def)
    define t2 where "t2 = t1\<lparr>tnext := (tnext t1)(T := tab_set k c (phi h s1 ?x) (tnext t1 T))\<rparr>"
    have g: "grown src s1" using c1 by (simp add: copies_def later_def)
    then have pre: "prefix (src T) (s1 T)" by (simp add: grown_def)
    then have k1: "k < length (s1 T)" and sk: "s1 T ! k = src T ! k"
      using Cons.prems(2) prefix_length_le [OF pre] prefix_nth [OF pre] by auto
    have i2: "tinv h s1 o1 t2" and row2: "trows (tnext t2 T) ! k = (trows (tnext t1 T) ! k)[c := phi h s1 ?x]"
      using tinv_set_cell [OF ok i1 k1 c True _ cl t2_def] sk by simp_all
    from Cons.IH [OF i2 k1] Cons.prems(3) obtain s3 o3 t3 where
      p: "pull_cells T k cs t2 = Some t3" and i3: "tinv h s3 o3 t3" and l3: "later s1 o1 t2 s3 o3 t3"
      and sc: "tscan t3 = tscan t2" "tword_scan t3 = tword_scan t2"
      and cl3: "\<forall>d < width T. snd (schema T ! d) = Value \<longrightarrow> d \<in> set cs \<or> clean h (trows (tnext t2 T) ! k ! d)
          \<longrightarrow> clean h (trows (tnext t3 T) ! k ! d)" by auto
    have "later src ow t s1 o1 t2" using c1 by (simp add: copies_def later_def t2_def)
    then have l: "later src ow t s3 o3 t3" using l3 later_trans by blast
    have same: "trows (tnext t1 T) ! k = trows (tnext t T) ! k"
      using c1 next_row(2) [OF Cons.prems(1,2)] by (intro prefix_nth) (simp_all add: copies_def)
    have len: "length (trows (tnext t1 T) ! k) = width T" by (rule next_row(3) [OF i1 k1])
    have "clean h (trows (tnext t3 T) ! k ! d)"
      if "d < width T" "snd (schema T ! d) = Value" "d \<in> set (c # cs) \<or> clean h (trows (tnext t T) ! k ! d)" for d
      using that cl3 cl row2 same len by (cases "d = c") (auto simp: nth_list_update_if)
    moreover have "pull_cells T k (c # cs) t = Some t3" using True cp p by (simp add: t2_def)
    moreover have "tscan t3 = tscan t" "tword_scan t3 = tword_scan t" using sc c1 by (simp_all add: t2_def copies_def)
    ultimately show ?thesis using i3 l by blast
  qed
qed

lemma pull_rows_spec:
  assumes ok: "heap_ok h" and fit: "fits h" and inv: "tinv h src ow t"
  shows "\<exists>src' ow' t'. pull_rows T t = Some t' \<and> tinv h src' ow' t' \<and> later src ow t src' ow' t'
    \<and> (tscan t T < tab_size (tnext t T) \<longrightarrow> tscan t T < tscan t' T)
    \<and> (\<not> tscan t T < tab_size (tnext t T) \<longrightarrow> t' = t)"
  using inv
proof (induction "tab_size (hvat h T) - tscan t T" arbitrary: src ow t rule: less_induct)
  case less
  show ?case
  proof (cases "tscan t T < tab_size (tnext t T)")
    case False
    then have "pull_rows T t = Some t" by (simp add: pull_rows.simps)
    then show ?thesis using less.prems False later_refl by blast
  next
    case True
    let ?k = "tscan t T"
    have k: "?k < length (src T)" using True less.prems by (simp add: tinv_def next_inv_def)
    have "length (src T) \<le> tab_size (hvat h T)" using less.prems src_ok_length by (simp add: tinv_def)
    then have lt: "?k < tab_size (hvat h T)" using k by simp
    from pull_cells_spec [OF ok fit less.prems k, of "[0..<width T]"] obtain s1 o1 t1 where
      p: "pull_cells T ?k [0..<width T] t = Some t1" and i1: "tinv h s1 o1 t1" and l1: "later src ow t s1 o1 t1"
      and sc: "tscan t1 = tscan t" and cl: "row_clean h T (trows (tnext t1 T) ! ?k)" 
      unfolding row_clean_def by fastforce
    define t2 where "t2 = t1\<lparr>tscan := (tscan t1)(T := tscan t1 T + 1)\<rparr>"
    have "prefix (src T) (s1 T)" using l1 by (simp add: later_def grown_def)
    then have k1: "tscan t1 T < length (s1 T)" using k sc prefix_length_le by fastforce
    have i2: "tinv h s1 o1 t2" unfolding t2_def by (rule tinv_advance [OF i1 k1]) (use cl sc in simp)
    have "tab_size (hvat h T) - tscan t2 T < tab_size (hvat h T) - tscan t T" using lt sc by (simp add: t2_def)
    from less.hyps [OF this i2] obtain s3 o3 t3 where
      r: "pull_rows T t2 = Some t3" and i3: "tinv h s3 o3 t3" and l3: "later s1 o1 t2 s3 o3 t3" by blast
    have "later src ow t s1 o1 t2" using l1 sc by (simp add: later_def t2_def)
    then have l: "later src ow t s3 o3 t3" using l3 later_trans by blast
    have "tscan t T < tscan t2 T" using sc by (simp add: t2_def)
    also have "\<dots> \<le> tscan t3 T" using l3 by (simp add: later_def)
    finally have "tscan t T < tscan t3 T" .
    moreover have "pull_rows T t = Some t3" using True p r by (subst pull_rows.simps) (simp add: t2_def)
    ultimately show ?thesis using i3 l True by blast
  qed
qed

text \<open>The work left: rows and pool words not yet scanned, counted against what can be copied at most.\<close>

definition work :: "heap \<Rightarrow> tidy \<Rightarrow> nat" where
  "work h t = (\<Sum>T \<in> set vat_order. tab_size (hvat h T) - tscan t T) + (wtotal h v32 + wtotal h rec - tword_scan t)"

lemma tinv_scan_bounds:
  assumes "tinv h src ow t"
  shows "tscan t T \<le> tab_size (hvat h T)" "tword_scan t \<le> wtotal h v32 + wtotal h rec"
proof -
  show "tscan t T \<le> tab_size (hvat h T)"
    using assms src_ok_length [of h src T] by (auto simp: tinv_def scan_inv_def next_inv_def intro: order_trans)
  show "tword_scan t \<le> wtotal h v32 + wtotal h rec"
    using assms wlen_le [of h src v32] wlen_le [of h src rec] by (simp add: tinv_def scan_inv_def pool_inv_def)
qed

lemma work_later:
  assumes "later src ow t src' ow' t'"
  shows "work h t' \<le> work h t"
proof -
  have "wtotal h v32 + wtotal h rec - tword_scan t' \<le> wtotal h v32 + wtotal h rec - tword_scan t"
    using assms unfolding later_def by (intro diff_le_mono2) blast
  moreover have "(\<Sum>T \<in> set vat_order. tab_size (hvat h T) - tscan t' T) \<le> (\<Sum>T \<in> set vat_order. tab_size (hvat h T) - tscan t T)"
    using assms by (intro sum_mono) (simp add: later_def diff_le_mono2)
  ultimately show ?thesis unfolding work_def by (rule add_mono [rotated])
qed

lemma work_less_rows:
  assumes l: "later src ow t src' ow' t'" and i: "tinv h src' ow' t'" and T: "T \<in> set vat_order" and lt: "tscan t T < tscan t' T"
  shows "work h t' < work h t"
proof -
  have "(\<Sum>T \<in> set vat_order. tab_size (hvat h T) - tscan t' T) < (\<Sum>T \<in> set vat_order. tab_size (hvat h T) - tscan t T)"
  proof (rule sum_strict_mono_ex1)
    show "\<forall>T \<in> set vat_order. tab_size (hvat h T) - tscan t' T \<le> tab_size (hvat h T) - tscan t T"
      using l by (simp add: later_def diff_le_mono2)
    show "\<exists>T \<in> set vat_order. tab_size (hvat h T) - tscan t' T < tab_size (hvat h T) - tscan t T"
      using T lt tinv_scan_bounds(1) [OF i, of T] by (intro bexI [of _ T]) auto
  qed simp
  moreover have "wtotal h v32 + wtotal h rec - tword_scan t' \<le> wtotal h v32 + wtotal h rec - tword_scan t"
    using l unfolding later_def by (intro diff_le_mono2) blast
  ultimately show ?thesis unfolding work_def by (rule add_less_le_mono)
qed

lemma work_less_words:
  assumes l: "later src ow t src' ow' t'" and i: "tinv h src' ow' t'" and lt: "tword_scan t < tword_scan t'"
  shows "work h t' < work h t"
proof -
  have "(\<Sum>T \<in> set vat_order. tab_size (hvat h T) - tscan t' T) \<le> (\<Sum>T \<in> set vat_order. tab_size (hvat h T) - tscan t T)"
    using l by (intro sum_mono) (simp add: later_def diff_le_mono2)
  moreover have "wtotal h v32 + wtotal h rec - tword_scan t' < wtotal h v32 + wtotal h rec - tword_scan t"
    using lt tinv_scan_bounds(2) [OF i] by simp
  ultimately show ?thesis unfolding work_def by (rule add_le_less_mono)
qed

lemma pull_all_spec:
  assumes ok: "heap_ok h" and fit: "fits h" and inv: "tinv h src ow t" and Ts: "set Ts \<subseteq> set vat_order"
  shows "\<exists>src' ow' t' c. pull_all Ts ch t = Some (c, t') \<and> tinv h src' ow' t' \<and> later src ow t src' ow' t'
    \<and> (c \<longrightarrow> ch \<or> work h t' < work h t)
    \<and> (\<not> c \<longrightarrow> \<not> ch \<and> t' = t \<and> (\<forall>T \<in> set Ts. \<not> tscan t T < tab_size (tnext t T)))"
  using inv Ts
proof (induction Ts arbitrary: src ow t ch)
  case Nil
  then show ?case by (intro exI [of _ src] exI [of _ ow] exI [of _ t] exI [of _ ch]) simp
next
  case (Cons T Ts)
  from pull_rows_spec [OF ok fit Cons.prems(1), of T] obtain s1 o1 t1 where
    p: "pull_rows T t = Some t1" and i1: "tinv h s1 o1 t1" and l1: "later src ow t s1 o1 t1"
    and lt: "tscan t T < tab_size (tnext t T) \<longrightarrow> tscan t T < tscan t1 T"
    and st: "\<not> tscan t T < tab_size (tnext t T) \<longrightarrow> t1 = t" by blast
  let ?c = "tscan t T < tab_size (tnext t T)"
  have w1: "?c \<Longrightarrow> work h t1 < work h t" using work_less_rows [OF l1 i1, of T] lt Cons.prems(2) by simp
  have sub: "set Ts \<subseteq> set vat_order" using Cons.prems(2) by simp
  from Cons.IH [OF i1 sub, of "?c \<or> ch"]
  obtain s2 o2 t2 c where q: "pull_all Ts (?c \<or> ch) t1 = Some (c, t2)" and i2: "tinv h s2 o2 t2"
    and l2: "later s1 o1 t1 s2 o2 t2" and cw: "c \<longrightarrow> (?c \<or> ch) \<or> work h t2 < work h t1"
    and cn: "\<not> c \<longrightarrow> \<not> (?c \<or> ch) \<and> t2 = t1 \<and> (\<forall>T \<in> set Ts. \<not> tscan t1 T < tab_size (tnext t1 T))" by blast
  have wl: "work h t2 \<le> work h t1" "work h t1 \<le> work h t" by (rule work_later [OF l2], rule work_later [OF l1])
  have "c \<longrightarrow> ch \<or> work h t2 < work h t" using cw w1 wl by linarith
  moreover have "\<not> c \<longrightarrow> \<not> ch \<and> t2 = t \<and> (\<forall>U \<in> set (T # Ts). \<not> tscan t U < tab_size (tnext t U))"
    using cn st by auto
  moreover have "pull_all (T # Ts) ch t = Some (c, t2)" using p q by (simp add: pull_def)
  ultimately show ?case using i2 later_trans [OF l1 l2] by blast
qed

lemma scan_words_spec:
  assumes ok: "heap_ok h" and fit: "fits h" and inv: "tinv h src ow t"
  shows "\<exists>src' ow' t' c. scan_words ch t = Some (c, t') \<and> tinv h src' ow' t' \<and> later src ow t src' ow' t'
    \<and> (c \<longrightarrow> ch \<or> tword_scan t < tword_scan t') \<and> (\<not> c \<longrightarrow> \<not> ch \<and> t' = t \<and> \<not> tword_scan t < length (twords t))"
  using inv
proof (induction "wtotal h v32 + wtotal h rec - tword_scan t" arbitrary: src ow t ch rule: less_induct)
  case less
  show ?case
  proof (cases "tword_scan t < length (twords t)")
    case False
    then have "scan_words ch t = Some (ch, t)" by (simp add: scan_words.simps)
    then show ?thesis using less.prems False later_refl by blast
  next
    case True
    let ?j = "tword_scan t"
    have pi: "pool_inv h src ow t" using less.prems by (simp add: tinv_def)
    then have j: "?j < length ow" and r: "rel h src (ow ! ?j) (twords t ! ?j)" and x: "reach h (ow ! ?j)"
      using True by (simp_all add: pool_inv_def)
    from copy_spec [OF ok fit less.prems x r] obtain s1 o1 t1 where
      cp: "tidy_copy (twords t ! ?j) t = Some (phi h s1 (ow ! ?j), t1)" and i1: "tinv h s1 o1 t1"
      and c1: "copies src ow t s1 o1 t1" and cl: "clean h (phi h s1 (ow ! ?j))" by blast
    have sc: "tword_scan t1 = ?j" using c1 by (simp add: copies_def)
    have po: "prefix ow o1" using c1 by (simp add: copies_def later_def)
    have j1: "tword_scan t1 < length o1" "o1 ! ?j = ow ! ?j"
      using j sc prefix_length_le [OF po] prefix_nth [OF po j] by auto
    define t2 where "t2 = t1\<lparr>twords := (twords t1)[tword_scan t1 := phi h s1 (ow ! ?j)], tword_scan := tword_scan t1 + 1\<rparr>"
    have i2: "tinv h s1 o1 t2" unfolding t2_def by (rule tinv_set_word [OF i1 j1(1) _ cl]) (simp add: sc j1(2))
    have "wtotal h v32 + wtotal h rec - tword_scan t2 < wtotal h v32 + wtotal h rec - tword_scan t"
      using sc tinv_scan_bounds(2) [OF i2] by (simp add: t2_def)
    from less.hyps [OF this i2, of True] obtain s3 o3 t3 c where
      q: "scan_words True t2 = Some (c, t3)" and i3: "tinv h s3 o3 t3" and l3: "later s1 o1 t2 s3 o3 t3"
      and c: c by blast
    have l2: "later src ow t s1 o1 t2" using c1 by (simp add: copies_def later_def t2_def)
    have "?j < tword_scan t2" by (simp add: t2_def sc)
    also have "\<dots> \<le> tword_scan t3" using l3 by (simp add: later_def)
    finally have "?j < tword_scan t3" .
    moreover have "scan_words ch t = Some (c, t3)" using True cp q by (subst scan_words.simps) (simp add: t2_def)
    ultimately show ?thesis using i3 c later_trans [OF l2 l3] by blast
  qed
qed

definition scanned :: "tidy \<Rightarrow> bool" where
  "scanned t \<longleftrightarrow> (\<forall>T \<in> set vat_order. \<not> tscan t T < tab_size (tnext t T)) \<and> \<not> tword_scan t < length (twords t)"

lemma sweep_loop_spec:
  assumes ok: "heap_ok h" and fit: "fits h" and inv: "tinv h src ow t"
  shows "\<exists>src' ow' t'. sweep_loop t = Some t' \<and> tinv h src' ow' t' \<and> later src ow t src' ow' t' \<and> scanned t'"
  using inv
proof (induction "work h t" arbitrary: src ow t rule: less_induct)
  case less
  from pull_all_spec [OF ok fit less.prems order_refl, of False] obtain s1 o1 t1 c1 where
    p: "pull_all vat_order False t = Some (c1, t1)" and i1: "tinv h s1 o1 t1" and l1: "later src ow t s1 o1 t1"
    and w1: "c1 \<longrightarrow> work h t1 < work h t"
    and n1: "\<not> c1 \<longrightarrow> t1 = t \<and> (\<forall>T \<in> set vat_order. \<not> tscan t T < tab_size (tnext t T))" by blast
  from scan_words_spec [OF ok fit i1, of c1] obtain s2 o2 t2 c2 where
    q: "scan_words c1 t1 = Some (c2, t2)" and i2: "tinv h s2 o2 t2" and l2: "later s1 o1 t1 s2 o2 t2"
    and w2: "c2 \<longrightarrow> c1 \<or> tword_scan t1 < tword_scan t2"
    and n2: "\<not> c2 \<longrightarrow> \<not> c1 \<and> t2 = t1 \<and> \<not> tword_scan t1 < length (twords t1)" by blast
  have sw: "sweep t = Some (c2, t2)" using p q by (simp add: sweep_def)
  have l: "later src ow t s2 o2 t2" by (rule later_trans [OF l1 l2])
  show ?case
  proof (cases c2)
    case False
    then have "sweep_loop t = Some t2" using sw by (subst sweep_loop.simps) simp
    moreover have "scanned t2" using n1 n2 False by (simp add: scanned_def)
    ultimately show ?thesis using i2 l by blast
  next
    case True
    have "work h t2 < work h t"
      using w1 w2 True work_later [OF l1] work_later [OF l2] work_less_words [OF l2 i2] by (meson le_less_trans less_le_trans)
    from less.hyps [OF this i2] obtain s3 o3 t3 where
      r: "sweep_loop t2 = Some t3" "tinv h s3 o3 t3" "later s2 o2 t2 s3 o3 t3" "scanned t3" by blast
    moreover have "sweep_loop t = Some t3" using sw True r(1) by (subst sweep_loop.simps) simp
    ultimately show ?thesis using later_trans [OF l] by blast
  qed
qed

text \<open>Copying the slots of pins and roots.\<close>

lemma phi_stable:
  assumes "heap_ok h" "src_ok h src" "live h x" "clean h (phi h src x)" "grown src src'"
  shows "phi h src' x = phi h src x"
proof (cases "is_pointer (tag_of x)")
  case True
  then show ?thesis using phi_clean [OF assms(1-3)] assms(4) phi_mono [OF assms(5)] by blast
qed (simp add: phi_def moved_def)

lemma copy_slots_spec:
  assumes ok: "heap_ok h" and fit: "fits h" and inv: "tinv h src ow t" and r: "\<forall>(k, v) \<in> set ps. reach h v"
  shows "\<exists>src' ow' t'. copy_slots ps t = Some (map (\<lambda>(k, v). (k, phi h src' v)) ps, t') \<and> tinv h src' ow' t'
    \<and> later src ow t src' ow' t' \<and> (\<forall>(k, v) \<in> set ps. clean h (phi h src' v))"
  using inv r
proof (induction ps arbitrary: src ow t)
  case Nil
  then show ?case by (intro exI [of _ src] exI [of _ ow] exI [of _ t]) simp
next
  case (Cons p ps)
  obtain k v where kv: "p = (k, v)" by (cases p)
  have rv: "reach h v" and rps: "\<forall>(k, v) \<in> set ps. reach h v" using Cons.prems(2) by (auto simp: kv)
  have lv: "live h v" by (rule reach_live [OF ok rv])
  have "rel h src v v" by (simp add: rel_def)
  from copy_spec [OF ok fit Cons.prems(1) rv this] obtain s1 o1 t1 where
    c: "tidy_copy v t = Some (phi h s1 v, t1)" and i1: "tinv h s1 o1 t1" and c1: "copies src ow t s1 o1 t1"
    and cl: "clean h (phi h s1 v)" by blast
  from Cons.IH [OF i1 rps] obtain s2 o2 t2 where
    q: "copy_slots ps t1 = Some (map (\<lambda>(k, v). (k, phi h s2 v)) ps, t2)" and i2: "tinv h s2 o2 t2"
    and l2: "later s1 o1 t1 s2 o2 t2" and cps: "\<forall>(k, v) \<in> set ps. clean h (phi h s2 v)" by blast
  have st: "phi h s2 v = phi h s1 v"
    using i1 l2 by (intro phi_stable [OF ok _ lv cl]) (simp_all add: tinv_def later_def)
  have "copy_slots (p # ps) t = Some (map (\<lambda>(k, v). (k, phi h s2 v)) (p # ps), t2)" using c q st by (simp add: kv)
  moreover have "later src ow t s2 o2 t2" using c1 l2 later_trans by (auto simp: copies_def)
  moreover have "\<forall>(k, v) \<in> set (p # ps). clean h (phi h s2 v)" using cps cl st by (simp add: kv)
  ultimately show ?case using i2 by blast
qed

section \<open>What is left at the end\<close>

lemma vat_order_pointers: "T \<in> set vat_order \<longleftrightarrow> is_pointer T"
  by (auto simp: vat_order_def is_pointer_iff)

definition complete :: "heap \<Rightarrow> (tag \<Rightarrow> nat list) \<Rightarrow> bool" where
  "complete h src \<longleftrightarrow> (\<forall>x. reach h x \<longrightarrow> is_pointer (tag_of x) \<longrightarrow> moved h src x)"

lemma scanned_cells:
  assumes ok: "heap_ok h" and inv: "tinv h src ow t" and sc: "scanned t"
    and k: "k < length (src T)" and c: "c < width T" "snd (schema T ! c) = Value"
  shows "trows (tnext t T) ! k ! c = phi h src (trows (hvat h T) ! (src T ! k) ! c)
    \<and> clean h (trows (tnext t T) ! k ! c)"
proof -
  have so: "src_ok h src" and si: "scan_inv h t" using inv by (simp_all add: tinv_def)
  have i: "src T ! k < tab_size (hvat h T)" using src_ok_row [OF so] k by simp
  have "T \<in> set vat_order" using heap_ok_size_pos [OF ok i] by (simp add: vat_order_pointers)
  then have "k < tscan t T" using sc inv k by (auto simp: scanned_def tinv_def next_inv_def)
  then have cl: "clean h (trows (tnext t T) ! k ! c)" using si c by (simp add: scan_inv_def row_clean_def)
  have rl: "rel h src (trows (hvat h T) ! (src T ! k) ! c) (trows (tnext t T) ! k ! c)"
    using next_row(1) [OF inv k] c by (simp add: row_rel_def)
  show ?thesis using rel_clean [OF ok reach_live [OF ok tinv_reach_cell [OF ok so k c]] rl cl] cl by blast
qed

lemma scanned_words:
  assumes ok: "heap_ok h" and inv: "tinv h src ow t" and sc: "scanned t"
  shows "twords t = map (phi h src) ow" "\<forall>w \<in> set (twords t). clean h w"
proof -
  have pi: "pool_inv h src ow t" and si: "scan_inv h t" using inv by (simp_all add: tinv_def)
  have cl: "clean h (twords t ! j)" if "j < length (twords t)" for j
    using si sc that by (simp add: scan_inv_def scanned_def)
  then show "\<forall>w \<in> set (twords t). clean h w" by (auto simp: in_set_conv_nth)
  show "twords t = map (phi h src) ow"
  proof (rule nth_equalityI)
    fix j assume j: "j < length (twords t)"
    then have "rel h src (ow ! j) (twords t ! j)" "reach h (ow ! j)" "j < length ow" using pi by (simp_all add: pool_inv_def)
    then show "twords t ! j = map (phi h src) ow ! j" using rel_clean [OF ok reach_live [OF ok]] cl [OF j] by simp
  qed (use pi in \<open>simp add: pool_inv_def\<close>)
qed

lemma moved_row_found:
  assumes "heap_ok h" "src_ok h src" "moved h src x"
  obtains k where "k < length (src (tag_of x))" "src (tag_of x) ! k = unat (index_of x)"
    "k = unat (index_of (phi h src x))"
proof -
  have i: "unat (index_of x) \<in> set (src (tag_of x))" using assms(3) by (simp add: moved_def)
  show ?thesis
    by (rule that [of "pos (src (tag_of x)) (unat (index_of x))"])
      (use pos_less [OF i] nth_pos [OF i] phi_moved [OF assms] in simp_all)
qed

lemma scanned_complete:
  assumes ok: "heap_ok h" and inv: "tinv h src ow t" and sc: "scanned t"
    and pins: "\<forall>(k, v) \<in> set (hpins h). clean h (phi h src v)" and roots: "\<forall>(a, v) \<in> set (hroots h). clean h (phi h src v)"
  shows "complete h src"
  unfolding complete_def
proof (intro allI impI)
  have so: "src_ok h src" using inv by (simp add: tinv_def)
  fix x assume "reach h x" "is_pointer (tag_of x)"
  then show "moved h src x"
  proof (induction rule: reach.induct)
    case (reach_pin k v)
    then show ?case using pins phi_clean [OF ok so reach_live [OF ok reach.reach_pin]] by blast
  next
    case (reach_root a v)
    then show ?case using roots phi_clean [OF ok so reach_live [OF ok reach.reach_root]] by blast
  next
    case (reach_field x r c)
    have p: "is_pointer (tag_of x)"
      using reach_field.hyps(2) heap_ok_size_pos [OF ok] by (auto simp: heap_read_Inr heap_check_Inr)
    obtain k where k: "k < length (src (tag_of x))" "src (tag_of x) ! k = unat (index_of x)"
      using moved_row_found [OF ok so reach_field.IH [OF p]] by blast
    have r: "r = trows (hvat h (tag_of x)) ! unat (index_of x)" using reach_field.hyps(2) by (simp add: heap_read_Inr)
    have "clean h (phi h src (r ! c))"
      using scanned_cells [OF ok inv sc k(1) reach_field.hyps(3,4)] k(2) r by metis
    then show ?case
      using phi_clean [OF ok so reach_live [OF ok reach.reach_field [OF reach_field.hyps]]] reach_field.prems by blast
  next
    case (reach_word x ws w)
    have p: "is_pointer (tag_of x)" using reach_word.hyps(2) by (auto simp: word_payload_def is_pointer_iff)
    have lx: "live h x" by (rule reach_live [OF ok reach_word.hyps(1)])
    note lr = live_row [OF ok lx p]
    obtain k where k: "k < length (src (tag_of x))" "src (tag_of x) ! k = unat (index_of x)"
      using moved_row_found [OF ok so reach_word.IH [OF p]] by blast
    have "ws = moved_words h (tag_of x) (trows (hvat h (tag_of x)) ! unat (index_of x))"
      using payload_words_slice [OF lr(2) reach_word.hyps(2) lr(1)] reach_word.hyps(3) by simp
    then have "\<exists>a n. ws = take n (drop a ow)"
      using next_row(1) [OF inv k(1)] k(2) reach_word.hyps(2) unfolding row_rel_def moved_words_def by metis
    then have "set ws \<subseteq> set ow" by (auto dest: in_set_takeD in_set_dropD)
    then have "w \<in> set ow" using reach_word.hyps(4) by blast
    then have "clean h (phi h src w)" using scanned_words [OF ok inv sc] by simp
    then show ?case
      using phi_clean [OF ok so reach_live [OF ok reach.reach_word [OF reach_word.hyps]]] reach_word.prems by blast
  qed
qed

section \<open>Reservation\<close>

lemma pool_total_eq:
  "n < 2 ^ 32 \<Longrightarrow> pool_total n lens =
     (if n + sum_list (map unat lens) < 2 ^ 32 then Inr (n + sum_list (map unat lens)) else Inl PayloadExceedsOffsets)"
  by (induction lens arbitrary: n) (auto simp: pool_size_def Let_def)

lemma wtotal_col: "sum_list (map unat (tab_col 1 (hvat h T))) = wtotal h T"
proof -
  have "sum_list (map unat (tab_col 1 (hvat h T))) = (\<Sum>i < length (trows (hvat h T)). unat (trows (hvat h T) ! i ! 1))"
    by (simp add: tab_col_def sum_list_sum_nth atLeast0LessThan)
  then show ?thesis by (simp add: wtotal_def tab_size_def)
qed

lemma reserve_all_ok:
  assumes "heap_ok h" "\<forall>T. trows (v T) = [] \<and> tab_ok (v T)"
  shows "\<exists>v'. reserve_all Ts h v = Inr v' \<and> (\<forall>T. trows (v' T) = [] \<and> tab_ok (v' T))"
  using assms(2)
proof (induction Ts arbitrary: v)
  case (Cons T Ts)
  have le: "tab_size (hvat h T) \<le> max_rows" using heap_ok_tab [OF assms(1), of T] by (simp add: tab_ok_def)
  have vT: "trows (v T) = []" "tab_ok (v T)" using Cons.prems by auto
  define t where "t = (if tab_size (hvat h T) \<le> tcapacity (v T) then v T else (v T)\<lparr>tcapacity := tab_size (hvat h T)\<rparr>)"
  have r: "tab_reserve (tab_size (hvat h T)) (v T) = Inr t" using le by (simp add: tab_reserve_def t_def)
  have "trows t = [] \<and> tab_ok t" using vT le by (simp add: t_def tab_ok_def tab_size_def)
  then have "\<forall>U. trows ((v(T := t)) U) = [] \<and> tab_ok ((v(T := t)) U)" using Cons.prems by simp
  from Cons.IH [OF this] show ?case by (simp only: reserve_all.simps r sum.case)
qed simp

lemma tidy_make_spec:
  assumes ok: "heap_ok h"
  shows "if wtotal h v32 + wtotal h rec < 2 ^ 32 \<and> wtotal h v08 < 2 ^ 32
    then \<exists>t. tidy_make h = Inr t \<and> tinv h (\<lambda>_. []) [] t \<and> hpins (told t) = hpins h \<and> hroots (told t) = hroots h
    else tidy_make h = Inl PayloadExceedsOffsets"
proof -
  obtain v where v: "reserve_all vat_order h (\<lambda>_. empty_tab) = Inr v" "\<forall>T. trows (v T) = [] \<and> tab_ok (v T)"
    using reserve_all_ok [OF ok, of "\<lambda>_. empty_tab" vat_order] by auto
  let ?t = "\<lparr>told = h, tnext = v, tbytes = [], twords = [], tscan = (\<lambda>_. 0), tword_scan = 0\<rparr>"
  have map_nth_all: "map (\<lambda>i. xs ! i) [0..<length xs] = xs" for xs :: "row list" by (rule map_nth)
  have "fwd_vat h (\<lambda>_. []) = hvat h"
    by (rule ext) (simp add: fwd_vat_def tab_size_def map_nth_all)
  then have "tinv h (\<lambda>_. []) [] ?t"
    using v(2) by (simp add: tinv_def old_inv_def src_ok_def next_inv_def pool_inv_def scan_inv_def wlen_def tab_size_def)
  moreover have "tidy_make h = (if wtotal h v32 + wtotal h rec < 2 ^ 32 \<and> wtotal h v08 < 2 ^ 32 then Inr ?t
      else Inl PayloadExceedsOffsets)"
    unfolding tidy_make_def v(1) sum.case by (simp add: pool_total_eq wtotal_col [unfolded One_nat_def])
  ultimately show ?thesis by auto
qed

section \<open>The heap after collection\<close>

definition finished :: "heap \<Rightarrow> (tag \<Rightarrow> nat list) \<Rightarrow> tidy \<Rightarrow> heap" where
  "finished h src t = freeze_continuations (release_externals (told t)\<lparr>hvat := tnext t, hbytes := tbytes t,
     hwords := twords t, hera := \<not> hera h\<rparr>)"

lemma finished_fields:
  assumes "tinv h src ow t"
  shows "hvat (finished h src t) = tnext t" "hbytes (finished h src t) = tbytes t" "hwords (finished h src t) = twords t"
    "hera (finished h src t) = (\<not> hera h)" "hpins (finished h src t) = hpins (told t)"
    "hroots (finished h src t) = hroots (told t)" "next_pin (finished h src t) = next_pin h"
    "frozen_ktx (finished h src t) = tab_size (tnext t ktx)"
proof -
  have "next_pin (told t) = next_pin h"
    using assms unfolding tinv_def old_inv_def by (metis (no_types, lifting) heap.select_convs(5) heap.surjective heap.update_convs(1,4,6))
  then show "next_pin (finished h src t) = next_pin h" by (simp add: finished_def freeze_continuations_def release_externals_def)
qed (simp_all add: finished_def freeze_continuations_def release_externals_def)

lemma live_phi:
  assumes ok: "heap_ok h" and inv: "tinv h src ow t" and x: "is_pointer (tag_of x) \<longrightarrow> moved h src x"
  shows "live (finished h src t) (phi h src x)"
proof (cases "moved h src x")
  case True
  have so: "src_ok h src" and ni: "next_inv h src ow t" using inv by (simp_all add: tinv_def)
  have "unat (index_of x) \<in> set (src (tag_of x))" using True by (simp add: moved_def)
  then show ?thesis using phi_moved [OF ok so True] pos_less ni
    by (simp add: live_def finished_fields [OF inv] next_inv_def)
next
  case False
  then show ?thesis using x by (simp add: live_def phi_def)
qed

lemma complete_phi_live:
  assumes "heap_ok h" "tinv h src ow t" "complete h src" "reach h x"
  shows "live (finished h src t) (phi h src x)"
  using assms by (intro live_phi) (auto simp: complete_def)

lemma finished_row_ok:
  assumes ok: "heap_ok h" and inv: "tinv h src ow t" and sc: "scanned t" and cm: "complete h src" and k: "k < length (src T)"
  shows "row_ok T (finished h src t) (trows (tnext t T) ! k)"
proof -
  have so: "src_ok h src" and pi: "pool_inv h src ow t" using inv by (simp_all add: tinv_def)
  note nr = next_row [OF inv k]
  let ?r = "trows (hvat h T) ! (src T ! k)" and ?r' = "trows (tnext t T) ! k"
  have "live (finished h src t) (?r' ! c)" if "c < width T" "snd (schema T ! c) = Value" for c
    using scanned_cells [OF ok inv sc k that] complete_phi_live [OF ok inv cm tinv_reach_cell [OF ok so k that]] by simp
  moreover have "?r' ! 1 = ?r ! 1" if "T = v08 \<or> word_payload T"
  proof -
    have "schema T = [(F_idx, Offset), (F_len, Length)]" using that by (auto simp: word_payload_def)
    then show ?thesis using nr(1) by (auto simp: row_rel_def)
  qed
  moreover have "length (twords t) = length ow" using pi by (simp add: pool_inv_def)
  ultimately show ?thesis
    using nr(1) by (auto simp: row_rel_def row_ok_def payload_ok_def finished_fields [OF inv])
qed

lemma finished_ok:
  assumes ok: "heap_ok h" and fit: "fits h" and inv: "tinv h src ow t" and sc: "scanned t" and cm: "complete h src"
    and pins: "hpins (told t) = map (\<lambda>(k, v). (k, phi h src v)) (hpins h)"
    and roots: "hroots (told t) = map (\<lambda>(k, v). (k, phi h src v)) (hroots h)"
  shows "heap_ok (finished h src t)"
proof -
  let ?h = "finished h src t"
  note ff = finished_fields [OF inv]
  have so: "src_ok h src" and ni: "next_inv h src ow t" and pi: "pool_inv h src ow t" using inv by (simp_all add: tinv_def)
  have "tables_ok ?h"
    unfolding tables_ok_def ff
  proof (intro allI conjI impI ballI)
    fix T
    show "tab_ok (tnext t T)" using ni by (simp add: next_inv_def)
    { assume "\<not> is_pointer T"
      then have "tab_size (hvat h T) = 0" using ok by (simp add: heap_ok_def tables_ok_def tab_size_def)
      then have "src T = []" using src_ok_length [OF so, of T] by simp
      then have "length (trows (tnext t T)) = 0" using ni by (simp add: next_inv_def tab_size_def)
      then show "trows (tnext t T) = []" by simp }
    fix r assume "r \<in> set (trows (tnext t T))"
    then obtain k where "k < length (src T)" "r = trows (tnext t T) ! k" using ni by (auto simp: in_set_conv_nth next_inv_def tab_size_def)
    then show "row_ok T ?h r" using finished_row_ok [OF ok inv sc cm] by simp
  qed
  moreover have "pools_ok ?h"
  proof -
    have "unat zap < 2 ^ 32" by (simp add: zap_def immediate_def)
    then have "length (tbytes t) < 2 ^ 32" "length (twords t) < 2 ^ 32"
      using pool_room [OF fit inv] pi by (simp_all add: pool_inv_def)
    moreover have "live ?h w" if "w \<in> set (twords t)" for w
    proof -
      from that scanned_words(1) [OF ok inv sc] obtain v where "v \<in> set ow" "w = phi h src v" by auto
      then show ?thesis using complete_phi_live [OF ok inv cm] pi by (auto simp: in_set_conv_nth pool_inv_def)
    qed
    ultimately show ?thesis by (simp add: pools_ok_def ff)
  qed
  moreover have "pins_ok ?h"
  proof -
    have P: "pins_ok h" using ok by (simp add: heap_ok_def)
    have "map fst (hpins (told t)) = map fst (hpins h)" by (auto simp: pins)
    then have "sorted_wrt (<) (map fst (hpins (told t)))" using P by (simp add: pins_ok_def)
    moreover have "live ?h (phi h src v)" if "(k, v) \<in> set (hpins h)" for k v
      using complete_phi_live [OF ok inv cm reach_pin [OF that]] .
    then have "\<forall>(k, v) \<in> set (hpins (told t)). k < next_pin h \<and> live ?h v" using P by (auto simp: pins pins_ok_def)
    ultimately show ?thesis using P unfolding pins_ok_def ff by blast
  qed
  moreover have "roots_ok ?h"
  proof -
    have R: "roots_ok h" using ok by (simp add: heap_ok_def)
    have "map fst (hroots (told t)) = map fst (hroots h)" by (auto simp: roots)
    then have "distinct (map fst (hroots (told t)))" using R by (simp add: roots_ok_def)
    moreover have "live ?h (phi h src v)" if "(k, v) \<in> set (hroots h)" for k v
      using complete_phi_live [OF ok inv cm reach_root [OF that]] .
    then have "\<forall>(k, v) \<in> set (hroots (told t)). live ?h v" by (auto simp: roots)
    ultimately show ?thesis unfolding roots_ok_def ff by blast
  qed
  ultimately show ?thesis by (simp add: heap_ok_def ff)
qed

text \<open>The copy of an object: same tag, same plain columns, translated value columns, same bytes,
  translated words.\<close>

definition same_object :: "heap \<Rightarrow> heap \<Rightarrow> (wword \<Rightarrow> wword) \<Rightarrow> wword \<Rightarrow> bool" where
  "same_object h h' f x \<longleftrightarrow> tag_of (f x) = tag_of x \<and> live h' (f x)
     \<and> (\<exists>r r'. heap_read (tag_of x) x h = Inr r \<and> heap_read (tag_of x) (f x) h' = Inr r' \<and> length r' = length r
          \<and> (\<forall>c < length r. snd (schema (tag_of x) ! c) = Value \<longrightarrow> r' ! c = f (r ! c))
          \<and> (\<forall>c < length r. snd (schema (tag_of x) ! c) \<notin> {Value, Offset} \<longrightarrow> r' ! c = r ! c))
     \<and> (tag_of x = v08 \<longrightarrow> (\<exists>d. v08slice x h = Inr d \<and> v08slice (f x) h' = Inr d))
     \<and> (word_payload (tag_of x) \<longrightarrow> (\<exists>ws. heap_words (tag_of x) x h = Inr ws \<and> heap_words (tag_of x) (f x) h' = Inr (map f ws)))"

lemma finished_same_object:
  assumes ok: "heap_ok h" and inv: "tinv h src ow t" and sc: "scanned t" and cm: "complete h src"
    and x: "reach h x" "is_pointer (tag_of x)"
  shows "same_object h (finished h src t) (phi h src) x"
proof -
  define T where "T = tag_of x"
  define r where "r = trows (hvat h T) ! unat (index_of x)"
  let ?h = "finished h src t" and ?y = "phi h src x"
  note ff = finished_fields [OF inv]
  have so: "src_ok h src" and pi: "pool_inv h src ow t" using inv by (simp_all add: tinv_def)
  have lx: "live h x" by (rule reach_live [OF ok x(1)])
  have mv: "moved h src x" using cm x by (simp add: complete_def)
  obtain k where k: "k < length (src T)" "src T ! k = unat (index_of x)" "k = unat (index_of ?y)"
    using moved_row_found [OF ok so mv] by (auto simp: T_def)
  define r' where "r' = trows (tnext t T) ! k"
  note lr = live_row [OF ok lx x(2), folded T_def, folded r_def]
  note nr = next_row [OF inv k(1), folded r'_def, unfolded k(2), folded r_def]
  have tg: "tag_of ?y = T" "era_of ?y = (\<not> hera h)" using phi_moved [OF ok so mv] by (simp_all add: T_def)
  have rd: "heap_read T ?y ?h = Inr r'"
    using tg k(3) nr(2) by (simp add: heap_read_Inr heap_check_Inr ff tab_size_def r'_def)
  have len: "length r = width T" using lr(2) by (simp add: row_ok_def)
  have val: "r' ! c = phi h src (r ! c)" if "c < width T" "snd (schema T ! c) = Value" for c
    using scanned_cells [OF ok inv sc k(1) that] by (simp add: r'_def r_def k(2))
  have l1: "r' ! 1 = r ! 1" if "T = v08 \<or> word_payload T"
  proof -
    have "schema T = [(F_idx, Offset), (F_len, Length)]" using that by (auto simp: word_payload_def)
    then show ?thesis using nr(1) by (auto simp: row_rel_def)
  qed
  have byt: "\<exists>d. v08slice x h = Inr d \<and> v08slice ?y ?h = Inr d" if v: "T = v08"
  proof -
    have "v08slice ?y ?h = Inr (take (unat (r ! 1)) (drop (unat (r ! 0)) (hbytes h)))"
      using rd v l1 nr(1) by (auto simp: v08slice_def slice_def ff row_rel_def)
    moreover have "v08slice x h = Inr (moved_bytes h v08 r)"
      using payload_bytes_slice [of h r x] lr v by simp
    ultimately show ?thesis by (simp add: moved_bytes_def)
  qed
  have wo: "\<exists>ws. heap_words T x h = Inr ws \<and> heap_words T ?y ?h = Inr (map (phi h src) ws)" if w: "word_payload T"
  proof -
    have lw: "length (twords t) = length ow" using pi by (simp add: pool_inv_def)
    have "heap_words T ?y ?h = Inr (take (unat (r ! 1)) (drop (unat (r' ! 0)) (twords t)))"
      using rd w l1 nr(1) lw by (auto simp: heap_words_def slice_def ff row_rel_def)
    also have "take (unat (r ! 1)) (drop (unat (r' ! 0)) (twords t)) = map (phi h src) (moved_words h T r)"
      using scanned_words(1) [OF ok inv sc] nr(1) w by (simp add: moved_words_def row_rel_def take_map drop_map)
    finally show ?thesis using payload_words_slice [OF lr(2) w lr(1)] by simp
  qed
  have "live ?h ?y" by (rule complete_phi_live [OF ok inv cm x(1)])
  then show ?thesis
    using tg rd lr(1) len nr(1) val byt wo unfolding same_object_def T_def [symmetric]
    by (auto simp: row_rel_def)
qed

lemma src_iff_reach:
  assumes ok: "heap_ok h" and so: "src_ok h src" and cm: "complete h src" and i: "i < tab_size (hvat h T)"
  shows "i \<in> set (src T) \<longleftrightarrow> reach h (pointer T (of_nat i) (hera h))"
proof
  assume "i \<in> set (src T)"
  then show "reach h (pointer T (of_nat i) (hera h))" using so by (simp add: src_ok_def)
next
  have T: "is_pointer T" by (rule heap_ok_size_pos [OF ok i])
  have "i < max_rows" using i heap_ok_tab [OF ok, of T] by (simp add: tab_ok_def)
  note f = row_index_fits [OF this]
  note pf = pointer_fields [OF is_pointer_not_integer [OF T], of "of_nat i" "hera h"]
  assume "reach h (pointer T (of_nat i) (hera h))"
  then have "moved h src (pointer T (of_nat i) (hera h))" using cm pf f T by (simp add: complete_def)
  then show "i \<in> set (src T)" using pf f by (simp add: moved_def)
qed

lemma finished_size:
  assumes "heap_ok h" "tinv h src ow t" "complete h src"
  shows "tab_size (hvat (finished h src t) T) = card {i. i < tab_size (hvat h T) \<and> reach h (pointer T (of_nat i) (hera h))}"
proof -
  have so: "src_ok h src" using assms(2) by (simp add: tinv_def)
  have "{i. i < tab_size (hvat h T) \<and> reach h (pointer T (of_nat i) (hera h))} = set (src T)"
    using src_iff_reach [OF assms(1) so assms(3)] src_ok_row [OF so] by blast
  moreover have "card (set (src T)) = length (src T)" using so by (simp add: src_ok_def distinct_card)
  ultimately show ?thesis using assms(2) by (simp add: finished_fields [OF assms(2)] tinv_def next_inv_def)
qed

lemma finished_released:
  assumes ok: "heap_ok h" and inv: "tinv h src ow t" and cm: "complete h src"
  shows "released (finished h src t) = released h @ (if host_release h
    then map (\<lambda>i. trows (hvat h ext) ! i ! 0)
           (filter (\<lambda>i. \<not> reach h (pointer ext (of_nat i) (hera h))) [0..<tab_size (hvat h ext)]) else [])"
proof -
  let ?R = "\<lambda>i. reach h (pointer ext (of_nat i) (hera h))" and ?n = "tab_size (hvat h ext)"
  have so: "src_ok h src" using inv by (simp add: tinv_def)
  have e: "told t = h\<lparr>hvat := fwd_vat h src, hpins := hpins (told t), hroots := hroots (told t)\<rparr>"
    using inv by (simp add: tinv_def old_inv_def)
  have hr: "host_release (told t) = host_release h" "released (told t) = released h" by (subst e, simp)+
  have row: "trows (fwd_vat h src ext) ! i ! 0 = (if ?R i then zap else trows (hvat h ext) ! i ! 0)
      \<and> trows (hvat h ext) ! i ! 0 \<noteq> zap" if i: "i < ?n" for i
  proof -
    have "row_ok ext h (trows (hvat h ext) ! i)" by (rule heap_ok_row [OF ok i])
    then have "trows (hvat h ext) ! i ! 0 \<noteq> zap" "2 \<le> length (trows (hvat h ext) ! i)" by (simp_all add: row_ok_def)
    then show ?thesis
      using src_iff_reach [OF ok so cm i] update_two [of "trows (hvat h ext) ! i" zap "new_word h src ext i"]
      unfolding fwd_vat_row [OF i] by (simp split: if_splits)
  qed
  have "tab_col 0 (fwd_vat h src ext) = map (\<lambda>i. if ?R i then zap else trows (hvat h ext) ! i ! 0) [0..<?n]"
  proof (rule nth_equalityI)
    fix i assume "i < length (tab_col 0 (fwd_vat h src ext))"
    then have i: "i < ?n" using fwd_vat_size [of h src ext] by (simp add: tab_col_def tab_size_def)
    then have "i < length (trows (fwd_vat h src ext))" using fwd_vat_size [of h src ext] by (simp add: tab_size_def)
    then show "tab_col 0 (fwd_vat h src ext) ! i = map (\<lambda>i. if ?R i then zap else trows (hvat h ext) ! i ! 0) [0..<?n] ! i"
      using row [OF i] i by (simp add: tab_col_def)
  qed (use fwd_vat_size [of h src ext] in \<open>simp add: tab_col_def tab_size_def\<close>)
  moreover have "filter (\<lambda>w. w \<noteq> zap) (map (\<lambda>i. if ?R i then zap else trows (hvat h ext) ! i ! 0) [0..<m])
      = map (\<lambda>i. trows (hvat h ext) ! i ! 0) (filter (\<lambda>i. \<not> ?R i) [0..<m])" if "m \<le> ?n" for m
    using that by (induction m) (use row in \<open>auto simp: Suc_le_eq\<close>)
  ultimately show ?thesis
    by (simp add: finished_def freeze_continuations_def release_externals_def hr tinv_told(4) [OF inv])
qed

lemma tinv_slots:
  assumes "tinv h src ow t"
  shows "tinv h src ow (t\<lparr>told := (told t)\<lparr>hpins := p\<rparr>\<rparr>)" "tinv h src ow (t\<lparr>told := (told t)\<lparr>hroots := r\<rparr>\<rparr>)"
proof -
  have e: "told t = h\<lparr>hvat := fwd_vat h src, hpins := hpins (told t), hroots := hroots (told t)\<rparr>"
    using assms by (simp add: tinv_def old_inv_def)
  have "(told t)\<lparr>hpins := p\<rparr> = h\<lparr>hvat := fwd_vat h src, hpins := p, hroots := hroots (told t)\<rparr>"
    "(told t)\<lparr>hroots := r\<rparr> = h\<lparr>hvat := fwd_vat h src, hpins := hpins (told t), hroots := r\<rparr>" by (subst e, simp)+
  then have "old_inv h src (t\<lparr>told := (told t)\<lparr>hpins := p\<rparr>\<rparr>)" "old_inv h src (t\<lparr>told := (told t)\<lparr>hroots := r\<rparr>\<rparr>)"
    by (simp_all add: old_inv_def)
  moreover have "next_inv h src ow (t\<lparr>told := o'\<rparr>) = next_inv h src ow t" "pool_inv h src ow (t\<lparr>told := o'\<rparr>) = pool_inv h src ow t"
    "scan_inv h (t\<lparr>told := o'\<rparr>) = scan_inv h t" for o'
    by (simp_all add: next_inv_def pool_inv_def scan_inv_def)
  ultimately show "tinv h src ow (t\<lparr>told := (told t)\<lparr>hpins := p\<rparr>\<rparr>)" "tinv h src ow (t\<lparr>told := (told t)\<lparr>hroots := r\<rparr>\<rparr>)"
    using assms unfolding tinv_def by blast+
qed

lemma collect_spec:
  assumes ok: "heap_ok h" and fit: "fits h"
  obtains src ow t where "collect h = Inr (finished h src t)" "tinv h src ow t" "scanned t" "complete h src"
    "hpins (told t) = map (\<lambda>(k, v). (k, phi h src v)) (hpins h)"
    "hroots (told t) = map (\<lambda>(k, v). (k, phi h src v)) (hroots h)"
proof -
  have "unat zap < 2 ^ 32" by (simp add: zap_def immediate_def)
  then obtain t0 where t0: "tidy_make h = Inr t0" and i0: "tinv h (\<lambda>_. []) [] t0"
    and ps0: "hpins (told t0) = hpins h" and rs0: "hroots (told t0) = hroots h"
    using tidy_make_spec [OF ok] fit by (auto simp: fits_def split: if_splits)
  have "\<forall>(k, v) \<in> set (hpins h). reach h v" by (auto intro: reach_pin)
  from copy_slots_spec [OF ok fit i0 this] obtain s1 o1 t1 where
    c1: "copy_slots (hpins h) t0 = Some (map (\<lambda>(k, v). (k, phi h s1 v)) (hpins h), t1)" and i1: "tinv h s1 o1 t1"
    and l1: "later (\<lambda>_. []) [] t0 s1 o1 t1" and cl1: "\<forall>(k, v) \<in> set (hpins h). clean h (phi h s1 v)" by blast
  let ?ps = "map (\<lambda>(k, v). (k, phi h s1 v)) (hpins h)"
  define t1' where "t1' = t1\<lparr>told := (told t1)\<lparr>hpins := ?ps\<rparr>\<rparr>"
  have i1': "tinv h s1 o1 t1'" unfolding t1'_def by (rule tinv_slots(1) [OF i1])
  have rs1: "hroots (told t1) = hroots h" using l1 rs0 by (simp add: later_def)
  have "\<forall>(k, v) \<in> set (hroots h). reach h v" by (auto intro: reach_root)
  from copy_slots_spec [OF ok fit i1' this] obtain s2 o2 t2 where
    c2: "copy_slots (hroots h) t1' = Some (map (\<lambda>(k, v). (k, phi h s2 v)) (hroots h), t2)" and i2: "tinv h s2 o2 t2"
    and l2: "later s1 o1 t1' s2 o2 t2" and cl2: "\<forall>(k, v) \<in> set (hroots h). clean h (phi h s2 v)" by blast
  let ?rs = "map (\<lambda>(k, v). (k, phi h s2 v)) (hroots h)"
  define t2' where "t2' = t2\<lparr>told := (told t2)\<lparr>hroots := ?rs\<rparr>\<rparr>"
  have i2': "tinv h s2 o2 t2'" unfolding t2'_def by (rule tinv_slots(2) [OF i2])
  from sweep_loop_spec [OF ok fit i2'] obtain s3 o3 t3 where
    c3: "sweep_loop t2' = Some t3" and i3: "tinv h s3 o3 t3" and l3: "later s2 o2 t2' s3 o3 t3" and sc: "scanned t3" by blast
  have g: "grown s1 s2" "grown s2 s3" using l2 l3 by (simp_all add: later_def)
  have so: "src_ok h s1" "src_ok h s2" using i1 i2 by (simp_all add: tinv_def)
  have pv: "phi h s3 v = phi h s1 v" if "(k, v) \<in> set (hpins h)" for k v
    using that cl1 by (intro phi_stable [OF ok so(1) reach_live [OF ok reach_pin [OF that]] _ grown_trans [OF g]]) auto
  have rv: "phi h s3 v = phi h s2 v" if "(k, v) \<in> set (hroots h)" for k v
    using that cl2 by (intro phi_stable [OF ok so(2) reach_live [OF ok reach_root [OF that]] _ g(2)]) auto
  have p3: "hpins (told t3) = map (\<lambda>(k, v). (k, phi h s3 v)) (hpins h)"
    using l2 l3 pv by (auto simp: later_def t1'_def t2'_def)
  have r3: "hroots (told t3) = map (\<lambda>(k, v). (k, phi h s3 v)) (hroots h)"
    using l3 rv by (auto simp: later_def t2'_def)
  have cm: "complete h s3"
    by (rule scanned_complete [OF ok i3 sc]) (use cl1 cl2 pv rv in fastforce)+
  have "tidy_run t0 = Some (finished h s3 t3)"
  proof -
    have "hera (release_externals (told t3)) = hera h" by (simp add: release_externals_def tinv_told(1) [OF i3])
    then show ?thesis using c1 c2 c3
      by (simp add: tidy_run_def ps0 rs1 t1'_def [symmetric] t2'_def [symmetric] finished_def Let_def)
  qed
  then have "collect h = Inr (finished h s3 t3)" using t0 by (simp add: collect_def)
  then show ?thesis using that i3 sc cm p3 r3 by blast
qed

lemma collect_ok:
  assumes "heap_ok h" "fits h" "collect h = Inr h'"
  shows "heap_ok h'"
  using assms(1,2)
proof (rule collect_spec)
  fix src ow t
  assume "collect h = Inr (finished h src t)" and f: "tinv h src ow t" "scanned t" "complete h src"
    "hpins (told t) = map (\<lambda>(k, v). (k, phi h src v)) (hpins h)"
    "hroots (told t) = map (\<lambda>(k, v). (k, phi h src v)) (hroots h)"
  then show ?thesis using finished_ok [OF assms(1,2) f] assms(3) by simp
qed

section \<open>The heap as a state machine\<close>

text \<open>Everything the evaluator and the host can do to a heap, with the words they may pass.\<close>

inductive heap_step :: "heap \<Rightarrow> heap \<Rightarrow> bool" where
  step_make: "is_pointer T \<Longrightarrow> row_ok T h data \<Longrightarrow> heap_make T data h = Inr (x, h') \<Longrightarrow> heap_step h h'"
| step_set: "column_index T F = Some c \<Longrightarrow> stores T c v h \<Longrightarrow> heap_set T F x v h = Inr h' \<Longrightarrow> heap_step h h'"
| step_put: "row_ok T h data \<Longrightarrow> heap_put T x data h = Inr h' \<Longrightarrow> heap_step h h'"
| step_bytes: "newv08 data h = Inr (x, h') \<Longrightarrow> heap_step h h'"
| step_words: "word_payload T \<Longrightarrow> \<forall>w \<in> set ws. live h w \<Longrightarrow> new_words T ws h = Inr (x, h') \<Longrightarrow> heap_step h h'"
| step_set_word: "live h v \<Longrightarrow> set_word T x i v h = Inr h' \<Longrightarrow> heap_step h h'"
| step_make_pin: "live h v \<Longrightarrow> make_pin v h = Inr (x, h') \<Longrightarrow> heap_step h h'"
| step_free_pin: "free_pin x h = Inr h' \<Longrightarrow> heap_step h h'"
| step_root_open: "live h v \<Longrightarrow> a \<notin> fst ` set (hroots h) \<Longrightarrow> heap_step h (root_open a v h)"
| step_root_set: "live h v \<Longrightarrow> heap_step h (root_set a v h)"
| step_root_close: "heap_step h (root_close a h)"
| step_freeze: "heap_step h (freeze_continuations h)"
| step_collect: "fits h \<Longrightarrow> collect h = Inr h' \<Longrightarrow> heap_step h h'"

lemma heap_step_ok:
  assumes "heap_step h h'" "heap_ok h"
  shows "heap_ok h'"
  using assms
proof (induction rule: heap_step.induct)
  case (step_make T h data x h')
  then show ?case using heap_make_allocates [OF step_make.prems step_make.hyps] by (simp add: allocates_def)
next
  case (step_set T F c v h x h')
  then show ?case using heap_set_ok [OF step_set.prems step_set.hyps(3)] by simp
next
  case (step_put T h data x h')
  then show ?case by (blast intro: heap_put_ok)
next
  case (step_bytes data h x h')
  then show ?case using newv08_allocates [OF step_bytes.prems step_bytes.hyps] by (simp add: allocates_def)
next
  case (step_words T ws h x h')
  then show ?case using new_words_allocates [OF step_words.prems step_words.hyps] by (simp add: allocates_def)
next
  case (step_set_word h v T x i h')
  then show ?case by (blast intro: set_word_ok)
next
  case (step_make_pin h v x h')
  then show ?case by (blast intro: make_pin_ok)
next
  case (step_free_pin x h h')
  then show ?case by (blast intro: free_pin_ok)
next
  case (step_root_open h v a)
  then show ?case by (blast intro: root_open_ok)
next
  case (step_root_set h v a)
  then show ?case by (blast intro: root_set_ok)
next
  case (step_root_close h a)
  then show ?case by (rule root_close_ok)
next
  case (step_freeze h)
  then show ?case by (rule freeze_continuations_ok)
next
  case (step_collect h h')
  then show ?case by (blast intro: collect_ok)
qed

section \<open>Properties\<close>

text \<open>A well-formed heap with one root on its pair.\<close>

definition rooted_heap :: heap where
  "rooted_heap = root_open 0 (pointer duo 0 False) sample_heap"

lemma rooted_heap_ok: "heap_ok rooted_heap"
  unfolding rooted_heap_def
proof (rule root_open_ok [OF sample_heap_ok])
  show "live sample_heap (pointer duo 0 False)"
    using pointer_fields [of duo 0 False] by (simp add: live_def sample_heap_def tab_size_def new_heap_def)
qed (simp add: sample_heap_def new_heap_def)

lemma rooted_vat: "hvat rooted_heap = hvat sample_heap" "hera rooted_heap = False"
  by (simp_all add: rooted_heap_def root_open_def sample_heap_def new_heap_def)

lemma rooted_fits: "fits rooted_heap"
  by (simp add: fits_def wtotal_def rooted_vat sample_vat tab_size_def zap_def immediate_def)

text \<open>C8. Collection keeps the object graph.  On a well-formed heap whose payloads, copied one
  descriptor at a time, stay below 2^31 + 2^27 + 3 entries, \<^verbatim>\<open>collect\<close> returns: its loops end and no
  assertion fails.  The era flips, the heap is again well formed, and there is a translation of
  words that is the identity on immediates, injective on reachable objects, and maps
  pins, roots, fields, word payloads and byte payloads of everything reachable
  exactly onto those of the new heap.\<close>

theorem collect_preserves_graph:
  assumes "heap_ok h" "fits h"
  shows "\<exists>h' f. collect h = Inr h' \<and> heap_ok h' \<and> hera h' = (\<not> hera h)
    \<and> hpins h' = map (\<lambda>(k, v). (k, f v)) (hpins h) \<and> hroots h' = map (\<lambda>(a, v). (a, f v)) (hroots h)
    \<and> (\<forall>x. \<not> is_pointer (tag_of x) \<longrightarrow> f x = x)
    \<and> inj_on f {x. reach h x \<and> is_pointer (tag_of x)}
    \<and> (\<forall>x. reach h x \<longrightarrow> is_pointer (tag_of x) \<longrightarrow> same_object h h' f x)"
  using assms
proof (rule collect_spec)
  fix src ow t
  assume c: "collect h = Inr (finished h src t)" and f: "tinv h src ow t" "scanned t" "complete h src"
    and pr: "hpins (told t) = map (\<lambda>(k, v). (k, phi h src v)) (hpins h)"
    "hroots (told t) = map (\<lambda>(k, v). (k, phi h src v)) (hroots h)"
  have so: "src_ok h src" using f(1) by (simp add: tinv_def)
  have "\<forall>x. \<not> is_pointer (tag_of x) \<longrightarrow> phi h src x = x" by (simp add: phi_def moved_def)
  moreover have "inj_on (phi h src) {x. reach h x \<and> is_pointer (tag_of x)}"
    using f(3) phi_inj [OF assms(1) so] unfolding complete_def inj_on_def by blast
  ultimately show ?thesis
    by (intro exI [of _ "finished h src t"] exI [of _ "phi h src"] conjI allI impI)
      (simp_all add: c finished_ok [OF assms f pr] finished_fields [OF f(1)] pr finished_same_object [OF assms(1) f])
qed

theorem collect_preserves_graph_witness:
  "\<exists>h' f. collect rooted_heap = Inr h' \<and> heap_ok h' \<and> hera h' \<and> same_object rooted_heap h' f (pointer duo 0 False)"
proof -
  have r: "reach rooted_heap (pointer duo 0 False)" by (rule reach_root [of 0]) (simp add: rooted_heap_def root_open_def)
  have p: "is_pointer (tag_of (pointer duo 0 False))" using pointer_fields [of duo 0 False] by (simp add: is_pointer_iff)
  show ?thesis using collect_preserves_graph [OF rooted_heap_ok rooted_fits] r p rooted_vat(2) by metis
qed

text \<open>C9. Collection reclaims exactly the garbage: every table of the new heap has as many rows as
  the old one had reachable rows, continuation frames are all frozen, and the host is told to release
  the ids of the unreachable external rows, each once and in table order.\<close>

theorem collect_reclaims_garbage:
  assumes "heap_ok h" "fits h"
  shows "\<exists>h'. collect h = Inr h'
    \<and> (\<forall>T. tab_size (hvat h' T) = card {i. i < tab_size (hvat h T) \<and> reach h (pointer T (of_nat i) (hera h))})
    \<and> frozen_ktx h' = tab_size (hvat h' ktx)
    \<and> released h' = released h @ (if host_release h
        then map (\<lambda>i. trows (hvat h ext) ! i ! 0)
               (filter (\<lambda>i. \<not> reach h (pointer ext (of_nat i) (hera h))) [0..<tab_size (hvat h ext)]) else [])"
  using assms
proof (rule collect_spec)
  fix src ow t
  assume c: "collect h = Inr (finished h src t)" and f: "tinv h src ow t" "complete h src"
  show ?thesis
    using c finished_size [OF assms(1) f] finished_fields [OF f(1)] finished_released [OF assms(1) f] by auto
qed

theorem collect_reclaims_garbage_witness:
  "\<exists>h'. collect rooted_heap = Inr h' \<and> frozen_ktx h' = tab_size (hvat h' ktx)
     \<and> tab_size (hvat h' sym) = 0"
proof -
  obtain h' where "collect rooted_heap = Inr h'" "frozen_ktx h' = tab_size (hvat h' ktx)"
    and sz: "\<forall>T. tab_size (hvat h' T) = card {i. i < tab_size (hvat rooted_heap T)
      \<and> reach rooted_heap (pointer T (of_nat i) (hera rooted_heap))}"
    using collect_reclaims_garbage [OF rooted_heap_ok rooted_fits] by blast
  moreover have "tab_size (hvat rooted_heap sym) = 0" by (simp add: rooted_vat sample_vat)
  ultimately show ?thesis by auto
qed

text \<open>C33. A collection that cannot be guaranteed to fit is refused before anything is touched: when
  the descriptor lengths of the word or byte payloads sum to 2^32 or more, \<^verbatim>\<open>collect\<close> gives the
  length error (and the old heap is still the heap).\<close>

theorem collect_refuses_overflow:
  assumes "heap_ok h" "2 ^ 32 \<le> wtotal h v32 + wtotal h rec \<or> 2 ^ 32 \<le> wtotal h v08"
  shows "collect h = Inl PayloadExceedsOffsets"
  using tidy_make_spec [OF assms(1)] assms(2) by (auto simp: collect_def split: if_splits)

text \<open>Two descriptors of one shared 2^31-byte payload, as shallow copies make them.\<close>

definition shared_heap :: heap where
  "shared_heap = (new_heap True)\<lparr>hvat := (\<lambda>_. empty_tab)(v08 := \<lparr>trows = [[0, 0x80000000], [0, 0x80000000]], tcapacity = 8\<rparr>),
     hbytes := replicate 0x80000000 0\<rparr>"

lemma shared_vat: "hvat shared_heap = (\<lambda>_. empty_tab)(v08 := \<lparr>trows = [[0, 0x80000000], [0, 0x80000000]], tcapacity = 8\<rparr>)"
  "hbytes shared_heap = replicate 0x80000000 0" "hwords shared_heap = []" "hpins shared_heap = []" "hroots shared_heap = []"
  "next_pin shared_heap = 1" "frozen_ktx shared_heap = 0"
  by (simp_all add: shared_heap_def new_heap_def)

lemma shared_heap_ok: "heap_ok shared_heap"
proof -
  have "row_ok v08 shared_heap [0, 0x80000000]"
    using sample_words(7) by (auto simp: row_ok_def payload_ok_def word_payload_def less_Suc_eq shared_vat)
  then have "tab_ok (hvat shared_heap T) \<and> (\<not> is_pointer T \<longrightarrow> trows (hvat shared_heap T) = [])
      \<and> (\<forall>r \<in> set (trows (hvat shared_heap T)). row_ok T shared_heap r)" for T
    by (cases T) (simp_all add: shared_vat tab_ok_def tab_size_def max_rows_eq is_pointer_iff)
  then show ?thesis
    by (simp add: heap_ok_def tables_ok_def pools_ok_def pins_ok_def roots_ok_def shared_vat max_immediate_def)
qed

theorem collect_refuses_overflow_witness: "collect shared_heap = Inl PayloadExceedsOffsets"
  by (rule collect_refuses_overflow [OF shared_heap_ok]) (simp add: wtotal_def shared_vat tab_size_def lessThan_Suc)

text \<open>C10. Whatever sequence of allocations, writes, pins, roots and collections runs on a new heap,
  the heap is well formed, so every live word a later read is given resolves.\<close>

theorem reachable_heaps_ok:
  assumes "heap_step\<^sup>*\<^sup>* (new_heap release) h" "live h x" "is_pointer (tag_of x)"
  shows "heap_ok h \<and> (\<exists>r. heap_read (tag_of x) x h = Inr r \<and> length r = width (tag_of x))"
proof -
  have ok: "heap_ok h" using assms(1)
  proof (induction rule: rtranclp_induct)
    case base
    then show ?case by (rule new_heap_ok)
  next
    case (step h h')
    then show ?case using heap_step_ok by blast
  qed
  then show ?thesis using live_row [OF ok assms(2,3)] by (simp add: row_ok_def)
qed

theorem reachable_heaps_ok_witness:
  "\<exists>h x. heap_step\<^sup>*\<^sup>* (new_heap False) h \<and> (\<exists>r. heap_read v08 x h = Inr r \<and> length r = 2)"
proof -
  obtain x h where n: "newv08 [1] (new_heap False) = Inr (x, h)"
    by (simp add: newv08_def new_heap_def pool_append_def pool_size_def heap_make_def tab_push_def tab_size_def
        tab_reserve_def max_rows_eq empty_tab_def zap_def immediate_def)
  have s: "heap_step\<^sup>*\<^sup>* (new_heap False) h" by (rule r_into_rtranclp) (rule step_bytes [OF n])
  have l: "live h x" "tag_of x = v08" using newv08_allocates [OF new_heap_ok n] by (simp_all add: allocates_def)
  have "is_pointer (tag_of x)" using l(2) by (simp add: is_pointer_iff)
  from reachable_heaps_ok [OF s l(1) this] l(2) obtain r where "heap_read v08 x h = Inr r" "length r = 2" by auto
  then show ?thesis using s by blast
qed

text \<open>A byte payload copied at an offset equal to the forwarding mark leaves a row that reads as
  forwarded: the collector does not check what \<^verbatim>\<open>make\<close> asserts.\<close>

lemma offset_forges_mark:
  assumes "v08slice x (told t) = Inr payload" "length (tbytes t) = unat zap" "data \<noteq> []"
  shows "\<exists>data' t'. move_payload v08 x data t = Some (data', t') \<and> data' ! 0 = zap"
  using assms by (simp add: move_payload_def word_payload_def)

end
