(* ===== verification/Land.thy ===== *)
theory Land
  imports Nxt_Prelude
begin

text \<open>
  The slot mask of \<^verbatim>\<open>src/nxtrt/land.hpp\<close>: a set of indices \<open>0 ..< capacity\<close> kept as a
  64-ary summary tree of machine words, which hands out its lowest member.  The
  theory models \<^verbatim>\<open>detail::mask_layout\<close> and the two \<^verbatim>\<open>mask\<close> classes over it, states the
  tree invariant, and proves that every operation refines the obvious operation on
  a finite set of indices.  The interface a slot allocator relies on is the locale
  \<open>index_set\<close>, interpreted on the model at the end.
\<close>

section \<open>Model of the layout and its operations\<close>

record mask_layout =
  capacity :: nat
  depth :: nat
  words :: nat
  offset :: "nat list"

definition max_depth :: nat where
  "max_depth = 6"

definition max_capacity :: nat where
  "max_capacity = 2 ^ 36"

text \<open>The do-while loop of \<^verbatim>\<open>mask_layout::of\<close>: words per level, leaf level first.\<close>

function layout_counts :: "nat \<Rightarrow> nat \<Rightarrow> nat list" where
  "layout_counts width d =
     (let c = (if width = 0 then 1 else width) in
      if c > 1 \<and> Suc d < max_depth
      then c # layout_counts ((width + 63) div 64) (Suc d)
      else [c])"
  by pat_completeness auto
termination
  by (relation "measure (\<lambda>(w, d). max_depth - d)") auto

text \<open>The for loop of \<^verbatim>\<open>mask_layout::of\<close>: first word of each level, root level first,
  and the number of words placed.\<close>

fun place_levels :: "nat list \<Rightarrow> nat \<Rightarrow> nat list \<times> nat" where
  "place_levels [] w = ([], w)"
| "place_levels (c # cs) w = (let (os, w') = place_levels cs (w + c) in (w # os, w'))"

definition mask_layout_of :: "nat \<Rightarrow> mask_layout" where
  "mask_layout_of cap =
     (let counts = layout_counts ((cap + 63) div 64) 0;
          (os, total) = place_levels (rev counts) 0
      in \<lparr>capacity = cap, depth = length counts, words = total,
          offset = os @ replicate (max_depth - length counts) 0\<rparr>)"

definition mask_bit :: "nat \<Rightarrow> u64" where
  "mask_bit j = push_bit (63 - j) 1"

text \<open>\<^verbatim>\<open>std::countl_zero\<close> on a 64-bit word.\<close>

definition countl_zero :: "u64 \<Rightarrow> nat" where
  "countl_zero w = length (takeWhile (\<lambda>j. \<not> bit w (63 - j)) [0..<64])"

definition layout_peek :: "mask_layout \<Rightarrow> u64 list \<Rightarrow> nat" where
  "layout_peek L ws =
     (if ws ! 0 = 0 then capacity L
      else fold (\<lambda>level index.
             or (push_bit 6 index) (countl_zero (ws ! (offset L ! level + index))))
           [0..<depth L] 0)"

definition layout_contains :: "mask_layout \<Rightarrow> u64 list \<Rightarrow> nat \<Rightarrow> bool" where
  "layout_contains L ws index \<longleftrightarrow> index < capacity L
     \<and> ws ! (offset L ! (depth L - 1) + drop_bit 6 index) AND mask_bit (and index 63) \<noteq> 0"

fun erase_up :: "mask_layout \<Rightarrow> nat \<Rightarrow> u64 list \<Rightarrow> nat \<Rightarrow> u64 list" where
  "erase_up L 0 ws index = ws"
| "erase_up L (Suc level) ws index =
     (let k = offset L ! level + drop_bit 6 index;
          w = ws ! k AND NOT (mask_bit (and index 63));
          ws' = ws[k := w]
      in if w \<noteq> 0 then ws' else erase_up L level ws' (drop_bit 6 index))"

definition layout_erase :: "mask_layout \<Rightarrow> u64 list \<Rightarrow> nat \<Rightarrow> u64 list" where
  "layout_erase L ws index = erase_up L (depth L) ws index"

fun insert_up :: "mask_layout \<Rightarrow> nat \<Rightarrow> u64 list \<Rightarrow> nat \<Rightarrow> u64 list" where
  "insert_up L 0 ws index = ws"
| "insert_up L (Suc level) ws index =
     (let k = offset L ! level + drop_bit 6 index;
          was_empty = (ws ! k = 0);
          ws' = ws[k := ws ! k OR mask_bit (and index 63)]
      in if \<not> was_empty then ws' else insert_up L level ws' (drop_bit 6 index))"

definition layout_insert :: "mask_layout \<Rightarrow> u64 list \<Rightarrow> nat \<Rightarrow> u64 list" where
  "layout_insert L ws index = insert_up L (depth L) ws index"

text \<open>The inner loop of \<^verbatim>\<open>fill\<close> writes the words of one level, the outer one walks
  the levels from the leaves to the root.\<close>

definition fill_word :: "nat \<Rightarrow> u64" where
  "fill_word live = (if live = 64 then NOT 0 else NOT (drop_bit live (NOT 0)))"

definition fill_level :: "nat \<Rightarrow> nat \<Rightarrow> u64 list \<Rightarrow> u64 list" where
  "fill_level first members ws =
     fold (\<lambda>w xs. xs[first + w := fill_word (min 64 (members - w * 64))])
       [0..<(members + 63) div 64] ws"

fun fill_up :: "mask_layout \<Rightarrow> nat \<Rightarrow> nat \<Rightarrow> u64 list \<Rightarrow> u64 list" where
  "fill_up L 0 members ws = ws"
| "fill_up L (Suc level) members ws =
     fill_up L level ((members + 63) div 64) (fill_level (offset L ! level) members ws)"

definition layout_fill :: "mask_layout \<Rightarrow> u64 list \<Rightarrow> u64 list" where
  "layout_fill L ws = fill_up L (depth L) (capacity L) ws"

section \<open>Model of the mask classes\<close>

text \<open>\<^verbatim>\<open>mask<N>\<close>, whose words are inline: the state is the word array.\<close>

definition static_mask :: "nat \<Rightarrow> u64 list" where
  "static_mask N = replicate (words (mask_layout_of N)) 0"

definition static_empty :: "u64 list \<Rightarrow> bool" where
  "static_empty ws \<longleftrightarrow> ws ! 0 = 0"

definition static_peek :: "nat \<Rightarrow> u64 list \<Rightarrow> nat" where
  "static_peek N ws = layout_peek (mask_layout_of N) ws"

definition static_take :: "nat \<Rightarrow> u64 list \<Rightarrow> nat \<times> u64 list" where
  "static_take N ws =
     (let index = static_peek N ws
      in (index, if index \<noteq> N then layout_erase (mask_layout_of N) ws index else ws))"

definition static_give :: "nat \<Rightarrow> nat \<Rightarrow> u64 list \<Rightarrow> u64 list" where
  "static_give N index ws = layout_insert (mask_layout_of N) ws index"

definition static_contains :: "nat \<Rightarrow> u64 list \<Rightarrow> nat \<Rightarrow> bool" where
  "static_contains N ws index = layout_contains (mask_layout_of N) ws index"

definition static_fill :: "nat \<Rightarrow> u64 list \<Rightarrow> u64 list" where
  "static_fill N ws = layout_fill (mask_layout_of N) ws"

text \<open>\<^verbatim>\<open>mask<>\<close>, which borrows its words: \<open>None\<close> is the null pointer of a default
  constructed mask.\<close>

record dyn_mask =
  dwords :: "u64 list option"
  dlayout :: mask_layout

definition words_for :: "nat \<Rightarrow> nat" where
  "words_for cap = words (mask_layout_of cap)"

definition dyn_default :: dyn_mask where
  "dyn_default = \<lparr>dwords = None, dlayout = mask_layout_of 0\<rparr>"

text \<open>The constructor clears the first \<open>words_for cap\<close> of the borrowed words.\<close>

definition dyn_borrow :: "u64 list \<Rightarrow> nat \<Rightarrow> dyn_mask" where
  "dyn_borrow ws cap =
     \<lparr>dwords = Some (replicate (words_for cap) 0 @ drop (words_for cap) ws),
      dlayout = mask_layout_of cap\<rparr>"

definition dyn_empty :: "dyn_mask \<Rightarrow> bool" where
  "dyn_empty m = (case dwords m of None \<Rightarrow> True | Some ws \<Rightarrow> ws ! 0 = 0)"

definition dyn_peek :: "dyn_mask \<Rightarrow> nat" where
  "dyn_peek m = (case dwords m of None \<Rightarrow> 0 | Some ws \<Rightarrow> layout_peek (dlayout m) ws)"

definition dyn_take :: "dyn_mask \<Rightarrow> nat \<times> dyn_mask" where
  "dyn_take m =
     (let index = dyn_peek m
      in (index,
          if index \<noteq> capacity (dlayout m)
          then m\<lparr>dwords := map_option (\<lambda>ws. layout_erase (dlayout m) ws index) (dwords m)\<rparr>
          else m))"

definition dyn_give :: "nat \<Rightarrow> dyn_mask \<Rightarrow> dyn_mask" where
  "dyn_give index m =
     m\<lparr>dwords := map_option (\<lambda>ws. layout_insert (dlayout m) ws index) (dwords m)\<rparr>"

definition dyn_contains :: "dyn_mask \<Rightarrow> nat \<Rightarrow> bool" where
  "dyn_contains m index =
     (case dwords m of None \<Rightarrow> False | Some ws \<Rightarrow> layout_contains (dlayout m) ws index)"

definition dyn_fill :: "dyn_mask \<Rightarrow> dyn_mask" where
  "dyn_fill m = m\<lparr>dwords := map_option (layout_fill (dlayout m)) (dwords m)\<rparr>"

text \<open>A run of \<open>n\<close> allocations through a \<open>take\<close> operation: the indices handed out and the
  final state.\<close>

fun take_many :: "('m \<Rightarrow> nat \<times> 'm) \<Rightarrow> nat \<Rightarrow> 'm \<Rightarrow> nat list \<times> 'm" where
  "take_many tk 0 m = ([], m)"
| "take_many tk (Suc n) m =
     (let (i, m') = tk m; (is, m'') = take_many tk n m' in (i # is, m''))"

section \<open>The tree invariant and the abstraction\<close>

text \<open>\<open>lword L ws l i\<close> is word \<open>i\<close> of level \<open>l\<close> (root level 0), \<open>lbit L ws l p\<close> bit
  \<open>p\<close> of that level, counted from the most significant bit of its first word.\<close>

definition lword :: "mask_layout \<Rightarrow> u64 list \<Rightarrow> nat \<Rightarrow> nat \<Rightarrow> u64" where
  "lword L ws l i = ws ! (offset L ! l + i)"

definition lbit :: "mask_layout \<Rightarrow> u64 list \<Rightarrow> nat \<Rightarrow> nat \<Rightarrow> bool" where
  "lbit L ws l p = bit (lword L ws l (p div 64)) (63 - p mod 64)"

text \<open>What \<^verbatim>\<open>mask_layout::of\<close> promises of a layout whose levels hold \<open>cs\<close> words.\<close>

definition wf_layout :: "mask_layout \<Rightarrow> nat list \<Rightarrow> bool" where
  "wf_layout L cs \<longleftrightarrow> depth L = length cs \<and> cs \<noteq> [] \<and> cs ! 0 = 1
     \<and> (\<forall>l < length cs. offset L ! l = sum_list (take l cs))
     \<and> words L = sum_list cs
     \<and> (\<forall>l. Suc l < length cs \<longrightarrow> cs ! l = (cs ! Suc l + 63) div 64)
     \<and> last cs = (if capacity L = 0 then 1 else (capacity L + 63) div 64)"

definition level_counts :: "mask_layout \<Rightarrow> nat list" where
  "level_counts L = rev (layout_counts ((capacity L + 63) div 64) 0)"

text \<open>Every summary bit tells whether its child word is empty, and no leaf bit past
  the capacity is set.\<close>

definition mask_inv :: "mask_layout \<Rightarrow> u64 list \<Rightarrow> bool" where
  "mask_inv L ws \<longleftrightarrow> (let cs = level_counts L in
     wf_layout L cs \<and> words L \<le> length ws
     \<and> (\<forall>l p. Suc l < length cs \<longrightarrow> p < 64 * cs ! l \<longrightarrow>
          (lbit L ws l p \<longleftrightarrow> p < cs ! Suc l \<and> lword L ws (Suc l) p \<noteq> 0))
     \<and> (\<forall>p < 64 * last cs. lbit L ws (length cs - 1) p \<longrightarrow> p < capacity L))"

definition mask_set :: "mask_layout \<Rightarrow> u64 list \<Rightarrow> nat set" where
  "mask_set L ws = {p. p < capacity L \<and> lbit L ws (depth L - 1) p}"

section \<open>Bits of one word\<close>

lemma bit_mask_bit [mask_simps]:
  "j < 64 \<Longrightarrow> k < 64 \<Longrightarrow> bit (mask_bit j) (63 - k) = (j = k)"
  by (simp add: mask_bit_def push_bit_of_1 bit_exp_iff) auto

lemma word64_nonzero: "(w :: u64) \<noteq> 0 \<longleftrightarrow> (\<exists>j<64. bit w (63 - j))"
proof
  assume "w \<noteq> 0"
  then obtain n where n: "bit w n" by (auto simp: bit_eq_iff)
  then have "n < 64" using bit_imp_le_length by fastforce
  then have "63 - (63 - n) = n" "63 - n < 64" by simp_all
  with n show "\<exists>j<64. bit w (63 - j)" by metis
qed auto

lemma countl_zero_nonzero:
  assumes "w \<noteq> 0"
  shows "countl_zero w < 64" "bit w (63 - countl_zero w)"
    "k < countl_zero w \<Longrightarrow> \<not> bit w (63 - k)"
proof -
  have "\<exists>j<64. bit w (63 - j)" using assms by (simp add: word64_nonzero)
  from length_takeWhile_upt [of 64 "\<lambda>j. bit w (63 - j)", OF this]
  show "countl_zero w < 64" "bit w (63 - countl_zero w)"
    "k < countl_zero w \<Longrightarrow> \<not> bit w (63 - k)"
    by (auto simp: countl_zero_def)
qed

lemma bit_erased [mask_simps]:
  "j < 64 \<Longrightarrow> k < 64 \<Longrightarrow>
     bit (w AND NOT (mask_bit j)) (63 - k) = (k \<noteq> j \<and> bit (w :: u64) (63 - k))"
  by (auto simp: bit_and_iff bit_not_iff bit_mask_bit)

lemma bit_inserted [mask_simps]:
  "j < 64 \<Longrightarrow> k < 64 \<Longrightarrow>
     bit (w OR mask_bit j) (63 - k) = (k = j \<or> bit (w :: u64) (63 - k))"
  by (auto simp: bit_or_iff bit_mask_bit)

lemma and_mask_bit_nonzero [mask_simps]:
  "j < 64 \<Longrightarrow> (w AND mask_bit j \<noteq> 0) = bit (w :: u64) (63 - j)"
  by (auto simp: word64_nonzero bit_and_iff bit_mask_bit)

lemma bit_fill_word:
  "live \<le> 64 \<Longrightarrow> k < 64 \<Longrightarrow> bit (fill_word live) (63 - k) = (k < live)"
  by (auto simp: fill_word_def bit_not_iff bit_drop_bit_eq bit_mask_iff)

lemma lword_nonzero:
  "lword L ws l i \<noteq> 0 \<longleftrightarrow> (\<exists>p. p div 64 = i \<and> lbit L ws l p)"
proof
  assume "lword L ws l i \<noteq> 0"
  then obtain j where "j < 64" "bit (lword L ws l i) (63 - j)"
    by (auto simp: word64_nonzero)
  then have "(64 * i + j) div 64 = i" "lbit L ws l (64 * i + j)"
    by (simp_all add: lbit_def)
  then show "\<exists>p. p div 64 = i \<and> lbit L ws l p" by blast
qed (auto simp: lbit_def)

section \<open>The layout is well formed\<close>

declare layout_counts.simps [simp del]

lemma layout_counts_nonempty [simp]: "layout_counts w d \<noteq> []"
  by (subst layout_counts.simps) (simp add: Let_def)

lemma hd_layout_counts [simp]: "hd (layout_counts w d) = (if w = 0 then 1 else w)"
  by (subst layout_counts.simps) (simp add: Let_def)

lemma last_layout_counts:
  "w \<le> 64 ^ (5 - d) \<Longrightarrow> d < 6 \<Longrightarrow> last (layout_counts w d) = 1"
proof (induction w d rule: layout_counts.induct)
  case (1 w d)
  show ?case
  proof (cases "w > 1")
    case True
    with "1.prems" have d: "Suc d < 6"
      by (cases "d = 5") auto
    then have "64 ^ (5 - d) = 64 * (64::nat) ^ (5 - Suc d)"
      by (simp add: Suc_diff_Suc flip: power_Suc)
    with "1.prems" have "(w + 63) div 64 \<le> 64 ^ (5 - Suc d)" by simp
    with 1 True d show ?thesis
      by (subst layout_counts.simps) (simp add: max_depth_def Let_def)
  next
    case False
    then show ?thesis by (subst layout_counts.simps) (auto simp: Let_def)
  qed
qed

lemma layout_counts_step:
  "Suc i < length (layout_counts w d) \<Longrightarrow>
     layout_counts w d ! Suc i = (layout_counts w d ! i + 63) div 64"
proof (induction w d arbitrary: i rule: layout_counts.induct)
  case (1 w d)
  show ?case
  proof (cases "w > 1 \<and> Suc d < max_depth")
    case True
    then have eq: "layout_counts w d = w # layout_counts ((w + 63) div 64) (Suc d)"
      by (subst layout_counts.simps) (simp add: Let_def)
    show ?thesis
    proof (cases i)
      case 0
      have "layout_counts ((w + 63) div 64) (Suc d) ! 0 = (w + 63) div 64"
        using True by (simp add: hd_conv_nth [symmetric]) linarith
      with 0 eq show ?thesis by simp
    next
      case (Suc j)
      with "1.IH" [of w j] "1.prems" True eq show ?thesis by (simp add: Let_def)
    qed
  next
    case False
    then have "length (layout_counts w d) = 1"
      by (subst layout_counts.simps) (auto simp: Let_def)
    with "1.prems" show ?thesis by simp
  qed
qed

lemma length_layout_counts: "d < 6 \<Longrightarrow> length (layout_counts w d) \<le> 6 - d"
proof (induction w d rule: layout_counts.induct)
  case (1 w d)
  then show ?case
    by (subst layout_counts.simps) (auto simp: Let_def max_depth_def)
qed

lemma place_levels_eq:
  "place_levels cs w = (map (\<lambda>l. w + sum_list (take l cs)) [0..<length cs], w + sum_list cs)"
proof (induction cs arbitrary: w)
  case (Cons c cs)
  have "map (\<lambda>l. w + sum_list (take l (c # cs))) [0..<length (c # cs)]
      = w # map (\<lambda>l. w + c + sum_list (take l cs)) [0..<length cs]"
    by (subst upt_conv_Cons) (simp_all add: map_Suc_upt [symmetric] comp_def add.assoc del: upt_Suc)
  then show ?case by (simp add: Cons add.assoc del: upt_Suc)
qed simp

lemma mask_layout_of_fields [simp]:
  "capacity (mask_layout_of cap) = cap"
  "depth (mask_layout_of cap) = length (layout_counts ((cap + 63) div 64) 0)"
  by (simp_all add: mask_layout_of_def place_levels_eq Let_def)

lemma wf_layout_of:
  assumes "cap \<le> max_capacity"
  shows "wf_layout (mask_layout_of cap) (level_counts (mask_layout_of cap))"
proof -
  let ?w = "(cap + 63) div 64"
  let ?c = "layout_counts ?w 0"
  have le: "?w \<le> 64 ^ (5 - 0)" using assms by (simp add: max_capacity_def)
  have len: "length ?c \<le> 6" using length_layout_counts [of 0] by simp
  have step: "rev ?c ! l = (rev ?c ! Suc l + 63) div 64" if "Suc l < length ?c" for l
  proof -
    have "Suc (length ?c - Suc (Suc l)) < length ?c" using that by simp
    from layout_counts_step [OF this] show ?thesis
      using that by (simp add: rev_nth Suc_diff_Suc)
  qed
  have "offset (mask_layout_of cap) ! l = sum_list (take l (rev ?c))" if "l < length ?c" for l
    using that by (simp add: mask_layout_of_def place_levels_eq Let_def nth_append)
  moreover have "rev ?c ! 0 = 1"
    using last_layout_counts [OF le] by (simp add: rev_nth last_conv_nth)
  moreover have "last (rev ?c) = (if cap = 0 then 1 else ?w)"
    by (simp add: last_rev) arith
  ultimately show ?thesis
    using step by (simp add: wf_layout_def level_counts_def)
      (simp add: mask_layout_of_def place_levels_eq Let_def)
qed

section \<open>Geometry of the levels\<close>

lemma mask_invD:
  assumes "mask_inv L ws"
  shows "wf_layout L (level_counts L)" "words L \<le> length ws"
    "\<lbrakk>Suc l < depth L; p < 64 * level_counts L ! l\<rbrakk> \<Longrightarrow>
       lbit L ws l p \<longleftrightarrow> p < level_counts L ! Suc l \<and> lword L ws (Suc l) p \<noteq> 0"
    "\<lbrakk>p < 64 * last (level_counts L); lbit L ws (depth L - 1) p\<rbrakk> \<Longrightarrow> p < capacity L"
proof -
  show wf: "wf_layout L (level_counts L)" using assms by (simp add: mask_inv_def Let_def)
  have len: "length (level_counts L) = depth L" using wf by (simp add: wf_layout_def)
  show "words L \<le> length ws" using assms by (simp add: mask_inv_def Let_def)
  show "\<lbrakk>Suc l < depth L; p < 64 * level_counts L ! l\<rbrakk> \<Longrightarrow>
       lbit L ws l p \<longleftrightarrow> p < level_counts L ! Suc l \<and> lword L ws (Suc l) p \<noteq> 0"
    using assms len by (simp add: mask_inv_def Let_def)
  show "\<lbrakk>p < 64 * last (level_counts L); lbit L ws (depth L - 1) p\<rbrakk> \<Longrightarrow> p < capacity L"
    using assms len by (simp add: mask_inv_def Let_def)
qed

lemma wf_layoutD:
  assumes "wf_layout L cs"
  shows "depth L = length cs" "0 < depth L" "cs ! 0 = 1"
    "l < depth L \<Longrightarrow> offset L ! l = sum_list (take l cs)" "words L = sum_list cs"
    "Suc l < depth L \<Longrightarrow> cs ! Suc l \<le> 64 * cs ! l"
    "Suc l < depth L \<Longrightarrow> cs ! l = (cs ! Suc l + 63) div 64"
    "capacity L \<le> 64 * cs ! (depth L - 1)"
    "last cs = cs ! (depth L - 1)"
    "capacity L \<noteq> 0 \<Longrightarrow> cs ! (depth L - 1) = (capacity L + 63) div 64"
proof -
  have "cs \<noteq> []" "depth L = length cs" using assms by (auto simp: wf_layout_def)
  then show last: "last cs = cs ! (depth L - 1)" by (simp add: last_conv_nth)
  show "capacity L \<le> 64 * cs ! (depth L - 1)"
    using assms unfolding last [symmetric] by (auto simp: wf_layout_def)
  show "capacity L \<noteq> 0 \<Longrightarrow> cs ! (depth L - 1) = (capacity L + 63) div 64"
    using assms unfolding last [symmetric] by (auto simp: wf_layout_def)
  show "Suc l < depth L \<Longrightarrow> cs ! l = (cs ! Suc l + 63) div 64"
    using assms by (simp add: wf_layout_def)
  moreover have "a \<le> 64 * ((a + 63) div 64)" for a :: nat by linarith
  ultimately show "Suc l < depth L \<Longrightarrow> cs ! Suc l \<le> 64 * cs ! l" by simp
qed (use assms in \<open>auto simp: wf_layout_def\<close>)

lemma sum_list_take_mono: "m \<le> n \<Longrightarrow> sum_list (take m xs) \<le> sum_list (take n (xs :: nat list))"
  by (metis le_add1 sum_list_append take_drop_split)

lemma sum_list_take_Suc:
  "l < length xs \<Longrightarrow> sum_list (take (Suc l) xs) = sum_list (take l xs) + (xs ! l :: nat)"
  by (simp add: take_Suc_conv_app_nth)

lemma level_end:
  assumes "wf_layout L cs" "l < depth L"
  shows "offset L ! l + cs ! l \<le> words L"
proof -
  have "sum_list (take (Suc l) cs) \<le> sum_list (take (length cs) cs)"
    using assms by (intro sum_list_take_mono) (simp add: wf_layoutD)
  then show ?thesis using assms by (simp add: wf_layoutD sum_list_take_Suc)
qed

lemma level_apart:
  assumes wf: "wf_layout L cs" and lt: "l < l'" "l' < depth L" and i: "i < cs ! l"
  shows "offset L ! l + i < offset L ! l' + i'"
proof -
  have "sum_list (take (Suc l) cs) \<le> sum_list (take l' cs)"
    using lt by (intro sum_list_take_mono) simp
  then show ?thesis using wf lt i by (simp add: wf_layoutD sum_list_take_Suc)
qed

lemma lword_update:
  assumes wf: "wf_layout L cs" and len: "words L \<le> length ws"
    and l: "l < depth L" "l' < depth L" and i: "i < cs ! l" "i' < cs ! l'"
  shows "lword L (ws[offset L ! l + i := v]) l' i'
      = (if l' = l \<and> i' = i then v else lword L ws l' i')"
proof (cases "l = l'")
  case True
  then show ?thesis
    using level_end [OF wf l(1)] len i by (auto simp: lword_def)
next
  case False
  then have "offset L ! l + i \<noteq> offset L ! l' + i'"
    using level_apart [OF wf _ l(2) i(1)] level_apart [OF wf _ l(1) i(2)]
    by (metis linorder_neqE_nat less_irrefl)
  with False show ?thesis by (auto simp: lword_def)
qed

lemma lbit_update:
  assumes "wf_layout L cs" "words L \<le> length ws"
    and "l < depth L" "l' < depth L" "i < cs ! l" "p < 64 * cs ! l'"
  shows "lbit L (ws[offset L ! l + i := v]) l' p
      = (if l' = l \<and> p div 64 = i then bit v (63 - p mod 64) else lbit L ws l' p)"
proof -
  have "p div 64 < cs ! l'" using assms(6) by (simp add: less_div64)
  from lword_update [OF assms(1-5) this] show ?thesis by (simp add: lbit_def)
qed

section \<open>Finding the lowest member\<close>

text \<open>The loop's invariant after \<open>l\<close> levels: the word it points at is the first one of
  its level that is not empty.\<close>

definition first_live :: "mask_layout \<Rightarrow> u64 list \<Rightarrow> nat \<Rightarrow> nat \<Rightarrow> bool" where
  "first_live L ws l i \<longleftrightarrow> i < level_counts L ! l \<and> lword L ws l i \<noteq> 0
     \<and> (\<forall>k < level_counts L ! l. lword L ws l k \<noteq> 0 \<longrightarrow> i \<le> k)"

abbreviation peek_step :: "mask_layout \<Rightarrow> u64 list \<Rightarrow> nat \<Rightarrow> nat \<Rightarrow> nat" where
  "peek_step L ws level index \<equiv>
     or (push_bit 6 index) (countl_zero (ws ! (offset L ! level + index)))"

lemma peek_step_first_bit:
  assumes "first_live L ws l i"
  shows "peek_step L ws l i div 64 = i" "lbit L ws l (peek_step L ws l i)"
    "\<lbrakk>q < 64 * level_counts L ! l; lbit L ws l q\<rbrakk> \<Longrightarrow> peek_step L ws l i \<le> q"
proof -
  let ?w = "lword L ws l i"
  let ?c = "countl_zero ?w"
  have nz: "?w \<noteq> 0" using assms by (simp add: first_live_def)
  note c = countl_zero_nonzero [OF nz]
  have eq: "peek_step L ws l i = 64 * i + ?c"
    using c(1) by (simp add: push_bit_or_small flip: lword_def)
  show "peek_step L ws l i div 64 = i" unfolding eq using c(1) by simp
  show "lbit L ws l (peek_step L ws l i)" unfolding eq using c(1,2) by (simp add: lbit_def)
  assume q: "q < 64 * level_counts L ! l" "lbit L ws l q"
  then have "lword L ws l (q div 64) \<noteq> 0" by (auto simp: lword_nonzero)
  moreover have "q div 64 < level_counts L ! l" using q(1) by (simp add: less_div64)
  ultimately have le: "i \<le> q div 64" using assms by (simp add: first_live_def)
  show "peek_step L ws l i \<le> q"
  proof (cases "i = q div 64")
    case True
    then have "\<not> q mod 64 < ?c" using q(2) c(3) by (auto simp: lbit_def)
    moreover have "q = 64 * (q div 64) + q mod 64" by simp
    ultimately show ?thesis unfolding eq using True by linarith
  next
    case False
    with le have "64 * i + 64 \<le> q" by linarith
    then show ?thesis unfolding eq using c(1) by linarith
  qed
qed

lemma peek_step_descends:
  assumes inv: "mask_inv L ws" and l: "Suc l < depth L" and fl: "first_live L ws l i"
  shows "first_live L ws (Suc l) (peek_step L ws l i)"
proof -
  let ?p = "peek_step L ws l i"
  note wf = mask_invD(1) [OF inv]
  have "i < level_counts L ! l" using fl by (simp add: first_live_def)
  then have "?p < 64 * level_counts L ! l"
    using peek_step_first_bit(1) [OF fl] by linarith
  then have p: "?p < level_counts L ! Suc l \<and> lword L ws (Suc l) ?p \<noteq> 0"
    using mask_invD(3) [OF inv l] peek_step_first_bit(2) [OF fl] by blast
  have "?p \<le> k" if k: "k < level_counts L ! Suc l" "lword L ws (Suc l) k \<noteq> 0" for k
  proof -
    have "k < 64 * level_counts L ! l" using wf_layoutD(6) [OF wf l] k(1) by linarith
    then show ?thesis
      using mask_invD(3) [OF inv l] k peek_step_first_bit(3) [OF fl] by blast
  qed
  with p show ?thesis by (simp add: first_live_def)
qed

lemma peek_loop:
  assumes inv: "mask_inv L ws" and nz: "ws ! 0 \<noteq> 0"
  shows "l < depth L \<Longrightarrow> first_live L ws l (fold (peek_step L ws) [0..<l] 0)"
proof (induction l)
  case 0
  have "offset L ! 0 = 0" "level_counts L ! 0 = 1"
    using wf_layoutD [OF mask_invD(1) [OF inv]] by simp_all
  then show ?case using nz by (simp add: first_live_def lword_def)
next
  case (Suc l)
  then show ?case using peek_step_descends [OF inv] by simp
qed

lemma root_empty_iff:
  assumes inv: "mask_inv L ws"
  shows "ws ! 0 = 0 \<longleftrightarrow> mask_set L ws = {}"
proof
  note wf = mask_invD(1) [OF inv]
  assume "ws ! 0 = 0"
  then have root: "lword L ws 0 0 = 0"
    using wf_layoutD(2,4) [OF wf] by (simp add: lword_def)
  have "\<forall>i < level_counts L ! l. lword L ws l i = 0" if "l < depth L" for l
    using that
  proof (induction l)
    case 0
    then show ?case using root wf_layoutD(3) [OF wf] by simp
  next
    case (Suc l)
    show ?case
    proof (intro allI impI)
      fix i assume i: "i < level_counts L ! Suc l"
      then have lt: "i < 64 * level_counts L ! l" using wf_layoutD(6) [OF wf Suc.prems] by simp
      then have "i div 64 < level_counts L ! l" by (simp add: less_div64)
      then have "\<not> lbit L ws l i" using Suc by (simp add: lbit_def)
      then show "lword L ws (Suc l) i = 0" using mask_invD(3) [OF inv Suc.prems lt] i by simp
    qed
  qed
  moreover have "p div 64 < level_counts L ! (depth L - 1)" if "p < capacity L" for p
    using wf_layoutD(8) [OF wf] that by (simp add: less_div64)
  ultimately show "mask_set L ws = {}"
    using wf_layoutD(2) [OF wf] by (auto simp: mask_set_def lbit_def)
next
  note wf = mask_invD(1) [OF inv]
  assume none: "mask_set L ws = {}"
  show "ws ! 0 = 0"
  proof (rule ccontr)
    assume "ws ! 0 \<noteq> 0"
    from peek_loop [OF inv this, of "depth L - 1"] wf_layoutD(2) [OF wf]
    have fl: "first_live L ws (depth L - 1) (fold (peek_step L ws) [0..<depth L - 1] 0)"
      by simp
    let ?p = "peek_step L ws (depth L - 1) (fold (peek_step L ws) [0..<depth L - 1] 0)"
    have "?p < 64 * last (level_counts L)"
      using fl peek_step_first_bit(1) [OF fl] wf_layoutD(9) [OF wf]
      by (intro div64_less) (simp add: first_live_def)
    then have "?p \<in> mask_set L ws"
      using peek_step_first_bit(2) [OF fl] mask_invD(4) [OF inv] by (simp add: mask_set_def)
    with none show False by simp
  qed
qed

lemma mask_set_leaf:
  "wf_layout L cs \<Longrightarrow> p \<in> mask_set L ws \<Longrightarrow> p < 64 * cs ! (depth L - 1)"
  using wf_layoutD(8) by (fastforce simp: mask_set_def)

lemma finite_mask_set [simp]: "finite (mask_set L ws)"
  by (simp add: mask_set_def)

lemma layout_peek_Min:
  assumes inv: "mask_inv L ws" and ne: "mask_set L ws \<noteq> {}"
  shows "layout_peek L ws = Min (mask_set L ws)"
proof -
  note wf = mask_invD(1) [OF inv]
  obtain d where d: "depth L = Suc d" using wf_layoutD(2) [OF wf] by (cases "depth L") auto
  have nz: "ws ! 0 \<noteq> 0" using ne root_empty_iff [OF inv] by simp
  let ?i = "fold (peek_step L ws) [0..<d] 0"
  have fl: "first_live L ws d ?i" using peek_loop [OF inv nz, of d] d by simp
  have eq: "layout_peek L ws = peek_step L ws d ?i"
    using nz by (simp add: layout_peek_def d)
  have "peek_step L ws d ?i < 64 * level_counts L ! d"
    using fl by (intro div64_less) (simp add: peek_step_first_bit(1) [OF fl] first_live_def)
  then have "peek_step L ws d ?i \<in> mask_set L ws"
    using mask_invD(4) [OF inv] peek_step_first_bit(2) [OF fl] wf_layoutD(9) [OF wf] d
    by (simp add: mask_set_def)
  moreover have "peek_step L ws d ?i \<le> q" if "q \<in> mask_set L ws" for q
    using peek_step_first_bit(3) [OF fl, of q] mask_set_leaf [OF wf that] that d
    by (simp add: mask_set_def)
  ultimately show ?thesis unfolding eq by (intro Min_eqI [symmetric]) auto
qed

lemma layout_peek_empty:
  "mask_inv L ws \<Longrightarrow> mask_set L ws = {} \<Longrightarrow> layout_peek L ws = capacity L"
  by (simp add: layout_peek_def root_empty_iff)

lemma layout_contains_iff:
  "0 < depth L \<Longrightarrow> layout_contains L ws p \<longleftrightarrow> p \<in> mask_set L ws"
  by (auto simp: layout_contains_def mask_set_def lbit_def lword_def drop_bit_6 and_63
      and_mask_bit_nonzero)

section \<open>Writing one bit\<close>

text \<open>All summary facts hold but possibly the one of the bit at level \<open>l\<close>, position \<open>q\<close>.\<close>

definition inv_except :: "mask_layout \<Rightarrow> u64 list \<Rightarrow> nat \<Rightarrow> nat \<Rightarrow> bool" where
  "inv_except L ws l q \<longleftrightarrow>
     wf_layout L (level_counts L) \<and> words L \<le> length ws
     \<and> (\<forall>k p. Suc k < depth L \<longrightarrow> p < 64 * level_counts L ! k \<longrightarrow> \<not> (k = l \<and> p = q) \<longrightarrow>
          (lbit L ws k p \<longleftrightarrow> p < level_counts L ! Suc k \<and> lword L ws (Suc k) p \<noteq> 0))
     \<and> (\<forall>p < 64 * last (level_counts L). lbit L ws (depth L - 1) p \<longrightarrow>
          \<not> (l = depth L - 1 \<and> p = q) \<longrightarrow> p < capacity L)"

lemma inv_exceptD:
  assumes "inv_except L ws l q"
  shows "wf_layout L (level_counts L)" "words L \<le> length ws"
    "\<lbrakk>Suc k < depth L; p < 64 * level_counts L ! k; \<not> (k = l \<and> p = q)\<rbrakk> \<Longrightarrow>
       lbit L ws k p \<longleftrightarrow> p < level_counts L ! Suc k \<and> lword L ws (Suc k) p \<noteq> 0"
    "\<lbrakk>p < 64 * last (level_counts L); lbit L ws (depth L - 1) p; \<not> (l = depth L - 1 \<and> p = q)\<rbrakk>
       \<Longrightarrow> p < capacity L"
  using assms by (auto simp: inv_except_def)

lemma mask_inv_except: "mask_inv L ws \<Longrightarrow> inv_except L ws l q"
  by (auto simp: inv_except_def mask_invD)

lemma mask_invI:
  assumes "wf_layout L (level_counts L)" "words L \<le> length ws"
    and "\<And>k p. \<lbrakk>Suc k < depth L; p < 64 * level_counts L ! k\<rbrakk> \<Longrightarrow>
       lbit L ws k p \<longleftrightarrow> p < level_counts L ! Suc k \<and> lword L ws (Suc k) p \<noteq> 0"
    and "\<And>p. \<lbrakk>p < 64 * last (level_counts L); lbit L ws (depth L - 1) p\<rbrakk> \<Longrightarrow> p < capacity L"
  shows "mask_inv L ws"
  using assms wf_layoutD(1) [OF assms(1)] by (simp add: mask_inv_def Let_def)

text \<open>\<open>sets_bit L ws l q b ws'\<close>: \<open>ws'\<close> is \<open>ws\<close> with bit \<open>q\<close> of level \<open>l\<close> set to \<open>b\<close>.\<close>

definition sets_bit :: "mask_layout \<Rightarrow> u64 list \<Rightarrow> nat \<Rightarrow> nat \<Rightarrow> bool \<Rightarrow> u64 list \<Rightarrow> bool" where
  "sets_bit L ws l q b ws' \<longleftrightarrow>
     (\<exists>v. ws' = ws[offset L ! l + q div 64 := v]
        \<and> (\<forall>j<64. bit v (63 - j) = (if j = q mod 64 then b else bit (lword L ws l (q div 64)) (63 - j))))"

lemma sets_bit_lbit:
  assumes "sets_bit L ws l q b ws'" "wf_layout L cs" "words L \<le> length ws"
    and "l < depth L" "q < 64 * cs ! l" "k < depth L" "p < 64 * cs ! k"
  shows "lbit L ws' k p = (if k = l \<and> p = q then b else lbit L ws k p)"
proof -
  obtain v where v: "ws' = ws[offset L ! l + q div 64 := v]"
    "\<And>j. j < 64 \<Longrightarrow> bit v (63 - j) = (if j = q mod 64 then b else bit (lword L ws l (q div 64)) (63 - j))"
    using assms(1) by (auto simp: sets_bit_def)
  have eq: "p = q \<longleftrightarrow> p div 64 = q div 64 \<and> p mod 64 = q mod 64"
    by (metis div_mult_mod_eq)
  show ?thesis
    unfolding v(1) using lbit_update [OF assms(2-4,6) less_div64 [OF assms(5)] assms(7), of v]
    by (auto simp: v(2) lbit_def eq)
qed

lemma sets_bit_lword:
  assumes "sets_bit L ws l q b ws'" "wf_layout L cs" "words L \<le> length ws"
    and "l < depth L" "q < 64 * cs ! l" "k < depth L" "i < cs ! k" "\<not> (k = l \<and> i = q div 64)"
  shows "lword L ws' k i = lword L ws k i"
  using assms(1) lword_update [OF assms(2-4,6) less_div64 [OF assms(5)] assms(7)] assms(8)
  by (auto simp: sets_bit_def)

lemma sets_bit_length: "sets_bit L ws l q b ws' \<Longrightarrow> length ws' = length ws"
  by (auto simp: sets_bit_def)

text \<open>Writing the right value at the exempt bit moves the exemption to its parent.\<close>

lemma write_exempt_bit:
  assumes ex: "inv_except L ws l q" and l: "l < depth L" and q: "q < 64 * level_counts L ! l"
    and set: "sets_bit L ws l q b ws'"
    and b: "Suc l < depth L \<Longrightarrow> b \<longleftrightarrow> q < level_counts L ! Suc l \<and> lword L ws (Suc l) q \<noteq> 0"
    and leaf: "l = depth L - 1 \<Longrightarrow> b \<Longrightarrow> q < capacity L"
  shows "0 < l \<Longrightarrow> inv_except L ws' (l - 1) (q div 64)"
    and "l = 0 \<or> (lword L ws l (q div 64) = 0 \<longleftrightarrow> lword L ws' l (q div 64) = 0) \<Longrightarrow> mask_inv L ws'"
proof -
  note wf = inv_exceptD(1) [OF ex] and len = inv_exceptD(2) [OF ex]
  note lb = sets_bit_lbit [OF set wf len l q] and lw = sets_bit_lword [OF set wf len l q]
  have main: "lbit L ws' k p \<longleftrightarrow> p < level_counts L ! Suc k \<and> lword L ws' (Suc k) p \<noteq> 0"
    if k: "Suc k < depth L" "p < 64 * level_counts L ! k"
      and keep: "Suc k = l \<Longrightarrow> p = q div 64 \<Longrightarrow>
        (lword L ws l (q div 64) = 0 \<longleftrightarrow> lword L ws' l (q div 64) = 0)" for k p
  proof (cases "k = l \<and> p = q")
    case True
    then have "lbit L ws' k p = b" using lb k by simp
    moreover have "lword L ws' (Suc k) p = lword L ws (Suc k) p"
      if "p < level_counts L ! Suc k" using lw [OF k(1) that] True by simp
    ultimately show ?thesis using b True k(1) by auto
  next
    case False
    then have 1: "lbit L ws' k p = lbit L ws k p" using lb [OF _ k(2)] k(1) by auto
    have 2: "(lword L ws' (Suc k) p = 0) = (lword L ws (Suc k) p = 0)"
      if "p < level_counts L ! Suc k"
      using lw [OF k(1) that] keep by (cases "Suc k = l \<and> p = q div 64") auto
    show ?thesis using 1 2 inv_exceptD(3) [OF ex k False] by auto
  qed
  have leaves: "p < capacity L"
    if "p < 64 * last (level_counts L)" "lbit L ws' (depth L - 1) p" for p
  proof (cases "l = depth L - 1 \<and> p = q")
    case True
    then show ?thesis using lb [of "depth L - 1" p] that wf_layoutD(2,9) [OF wf] leaf by auto
  next
    case False
    then have "lbit L ws (depth L - 1) p"
      using lb [of "depth L - 1" p] that wf_layoutD(2,9) [OF wf] by auto
    then show ?thesis using inv_exceptD(4) [OF ex that(1)] False by blast
  qed
  have len': "words L \<le> length ws'" using len sets_bit_length [OF set] by simp
  show "inv_except L ws' (l - 1) (q div 64)" if "0 < l"
    unfolding inv_except_def using wf len' main leaves that by auto
  show "mask_inv L ws'"
    if "l = 0 \<or> (lword L ws l (q div 64) = 0 \<longleftrightarrow> lword L ws' l (q div 64) = 0)"
    by (rule mask_invI [OF wf len']) (use main leaves that in auto)
qed

section \<open>Removing, adding and filling\<close>

lemma erase_sets_bit:
  "sets_bit L ws l q False
     (ws[offset L ! l + drop_bit 6 q := ws ! (offset L ! l + drop_bit 6 q) AND NOT (mask_bit (and q 63))])"
  unfolding sets_bit_def drop_bit_6 and_63
proof (rule exI, rule conjI, rule refl, intro allI impI)
  fix j :: nat
  assume "j < 64"
  with bit_erased [of "q mod 64" j "ws ! (offset L ! l + q div 64)"]
  show "bit (ws ! (offset L ! l + q div 64) AND NOT (mask_bit (q mod 64))) (63 - j)
      = (if j = q mod 64 then False else bit (lword L ws l (q div 64)) (63 - j))"
    by (simp add: lword_def)
qed

lemma insert_sets_bit:
  "sets_bit L ws l q True
     (ws[offset L ! l + drop_bit 6 q := ws ! (offset L ! l + drop_bit 6 q) OR mask_bit (and q 63)])"
  unfolding sets_bit_def drop_bit_6 and_63
proof (rule exI, rule conjI, rule refl, intro allI impI)
  fix j :: nat
  assume "j < 64"
  with bit_inserted [of "q mod 64" j "ws ! (offset L ! l + q div 64)"]
  show "bit (ws ! (offset L ! l + q div 64) OR mask_bit (q mod 64)) (63 - j)
      = (if j = q mod 64 then True else bit (lword L ws l (q div 64)) (63 - j))"
    by (simp add: lword_def)
qed

text \<open>What one walk towards the root leaves of the leaf level: only bit \<open>q\<close> of it, and
  only when the walk starts there.\<close>

definition leaf_update :: "mask_layout \<Rightarrow> u64 list \<Rightarrow> u64 list \<Rightarrow> nat \<Rightarrow> nat \<Rightarrow> bool \<Rightarrow> bool" where
  "leaf_update L ws ws' l q b \<longleftrightarrow> (\<forall>p < 64 * level_counts L ! (depth L - 1).
     lbit L ws' (depth L - 1) p
       = (if l = depth L - 1 \<and> p = q then b else lbit L ws (depth L - 1) p))"

lemma sets_bit_leaf_update:
  assumes "sets_bit L ws l q b ws'" "inv_except L ws l q" "l < depth L"
    "q < 64 * level_counts L ! l"
  shows "leaf_update L ws ws' l q b"
  using sets_bit_lbit [OF assms(1) inv_exceptD(1,2) [OF assms(2)] assms(3,4), of "depth L - 1"]
    wf_layoutD(2) [OF inv_exceptD(1) [OF assms(2)]]
  by (auto simp: leaf_update_def)

lemma leaf_update_above:
  "leaf_update L ws ws' (Suc l) q b \<Longrightarrow> leaf_update L ws' ws'' l q' b' \<Longrightarrow> Suc l < depth L \<Longrightarrow>
     leaf_update L ws ws'' (Suc l) q b"
  by (auto simp: leaf_update_def)

lemma erase_up_correct:
  assumes "l < depth L" "q < 64 * level_counts L ! l" "inv_except L ws l q"
    and "Suc l < depth L \<Longrightarrow> lword L ws (Suc l) q = 0"
  shows "mask_inv L (erase_up L (Suc l) ws q) \<and> leaf_update L ws (erase_up L (Suc l) ws q) l q False"
  using assms
proof (induction l arbitrary: q ws)
  case 0
  let ?ws = "ws[offset L ! 0 + drop_bit 6 q := ws ! (offset L ! 0 + drop_bit 6 q) AND NOT (mask_bit (and q 63))]"
  have "mask_inv L ?ws"
    by (rule write_exempt_bit(2) [OF 0(3,1,2) erase_sets_bit]) (use 0 in auto)
  moreover have "leaf_update L ws ?ws 0 q False"
    by (rule sets_bit_leaf_update [OF erase_sets_bit 0(3,1,2)])
  moreover have "erase_up L (Suc 0) ws q = ?ws" by (simp only: erase_up.simps Let_def if_cancel)
  ultimately show ?case by (simp only:)
next
  case (Suc l)
  let ?k = "offset L ! Suc l + drop_bit 6 q"
  let ?w = "ws ! ?k AND NOT (mask_bit (and q 63))"
  let ?ws = "ws[?k := ?w]"
  note set = erase_sets_bit [of L ws "Suc l" q]
  note wf = inv_exceptD(1) [OF Suc.prems(3)]
  have lu: "leaf_update L ws ?ws (Suc l) q False"
    by (rule sets_bit_leaf_update [OF set Suc.prems(3,1,2)])
  have i: "q div 64 < level_counts L ! Suc l" using Suc.prems(2) by (rule less_div64)
  have new: "lword L ?ws (Suc l) (q div 64) = ?w"
    using lword_update [OF wf inv_exceptD(2) [OF Suc.prems(3)] Suc.prems(1,1) i i]
    by (simp add: drop_bit_6)
  show ?case
  proof (cases "?w = 0")
    case False
    then have "lword L ws (Suc l) (q div 64) \<noteq> 0" by (auto simp: lword_def drop_bit_6)
    with False new have "mask_inv L ?ws"
      by (intro write_exempt_bit(2) [OF Suc.prems(3,1,2) set]) (use Suc.prems(4) in auto)
    with False lu show ?thesis by (simp add: Let_def)
  next
    case True
    have "inv_except L ?ws l (q div 64)"
      using write_exempt_bit(1) [OF Suc.prems(3,1,2) set] Suc.prems(4) by auto
    moreover have "q div 64 < 64 * level_counts L ! l"
      using i wf_layoutD(6) [OF wf Suc.prems(1)] by simp
    ultimately have "mask_inv L (erase_up L (Suc l) ?ws (q div 64))
      \<and> leaf_update L ?ws (erase_up L (Suc l) ?ws (q div 64)) l (q div 64) False"
      using Suc.prems(1) True new by (intro Suc.IH) auto
    with True lu Suc.prems(1) show ?thesis
      by (auto simp: Let_def drop_bit_6 intro: leaf_update_above)
  qed
qed

lemma insert_up_correct:
  assumes "l < depth L" "q < 64 * level_counts L ! l" "inv_except L ws l q"
    and "Suc l < depth L \<Longrightarrow> q < level_counts L ! Suc l \<and> lword L ws (Suc l) q \<noteq> 0"
    and "l = depth L - 1 \<Longrightarrow> q < capacity L"
  shows "mask_inv L (insert_up L (Suc l) ws q) \<and> leaf_update L ws (insert_up L (Suc l) ws q) l q True"
  using assms
proof (induction l arbitrary: q ws)
  case 0
  let ?ws = "ws[offset L ! 0 + drop_bit 6 q := ws ! (offset L ! 0 + drop_bit 6 q) OR mask_bit (and q 63)]"
  have "mask_inv L ?ws"
    by (rule write_exempt_bit(2) [OF 0(3,1,2) insert_sets_bit]) (use 0 in auto)
  moreover have "leaf_update L ws ?ws 0 q True"
    by (rule sets_bit_leaf_update [OF insert_sets_bit 0(3,1,2)])
  moreover have "insert_up L (Suc 0) ws q = ?ws" by (simp only: insert_up.simps Let_def if_cancel)
  ultimately show ?case by (simp only:)
next
  case (Suc l)
  let ?k = "offset L ! Suc l + drop_bit 6 q"
  let ?w = "ws ! ?k OR mask_bit (and q 63)"
  let ?ws = "ws[?k := ?w]"
  note set = insert_sets_bit [of L ws "Suc l" q]
  note wf = inv_exceptD(1) [OF Suc.prems(3)]
  have lu: "leaf_update L ws ?ws (Suc l) q True"
    by (rule sets_bit_leaf_update [OF set Suc.prems(3,1,2)])
  have i: "q div 64 < level_counts L ! Suc l" using Suc.prems(2) by (rule less_div64)
  have new: "lword L ?ws (Suc l) (q div 64) = ?w"
    using lword_update [OF wf inv_exceptD(2) [OF Suc.prems(3)] Suc.prems(1,1) i i]
    by (simp add: drop_bit_6)
  have "bit ?w (63 - q mod 64)" by (simp add: and_63 bit_inserted)
  then have nz: "?w \<noteq> 0" by auto
  show ?case
  proof (cases "ws ! ?k = 0")
    case False
    then have "lword L ws (Suc l) (q div 64) \<noteq> 0" by (simp add: lword_def drop_bit_6)
    with nz new have "mask_inv L ?ws"
      by (intro write_exempt_bit(2) [OF Suc.prems(3,1,2) set]) (use Suc.prems(4,5) in auto)
    with False lu show ?thesis by (simp add: Let_def)
  next
    case True
    have "inv_except L ?ws l (q div 64)"
      using write_exempt_bit(1) [OF Suc.prems(3,1,2) set] Suc.prems(4,5) by auto
    moreover have "q div 64 < 64 * level_counts L ! l"
      using i wf_layoutD(6) [OF wf Suc.prems(1)] by simp
    ultimately have "mask_inv L (insert_up L (Suc l) ?ws (q div 64))
      \<and> leaf_update L ?ws (insert_up L (Suc l) ?ws (q div 64)) l (q div 64) True"
      using Suc.prems(1) nz new i by (intro Suc.IH) auto
    with True lu Suc.prems(1) show ?thesis
      by (auto simp: Let_def drop_bit_6 intro: leaf_update_above)
  qed
qed

lemma leaf_update_mask_set:
  assumes "leaf_update L ws ws' (depth L - 1) q b" "wf_layout L (level_counts L)" "q < capacity L"
  shows "mask_set L ws' = (if b then insert q (mask_set L ws) else mask_set L ws - {q})"
proof -
  have "lbit L ws' (depth L - 1) p = (if p = q then b else lbit L ws (depth L - 1) p)"
    if "p < capacity L" for p
    using assms(1) wf_layoutD(8) [OF assms(2)] that by (simp add: leaf_update_def)
  then show ?thesis using assms(3) unfolding mask_set_def by (auto split: if_splits)
qed

lemma layout_erase_correct:
  assumes inv: "mask_inv L ws" and q: "q < capacity L"
  shows "mask_inv L (layout_erase L ws q)" "mask_set L (layout_erase L ws q) = mask_set L ws - {q}"
proof -
  note wf = mask_invD(1) [OF inv]
  obtain d where d: "depth L = Suc d" using wf_layoutD(2) [OF wf] by (cases "depth L") auto
  have qd: "q < 64 * level_counts L ! d" using wf_layoutD(8) [OF wf] q d by simp
  have "mask_inv L (erase_up L (Suc d) ws q) \<and> leaf_update L ws (erase_up L (Suc d) ws q) d q False"
    by (intro erase_up_correct mask_inv_except [OF inv]) (simp_all add: d q qd)
  then have *: "mask_inv L (layout_erase L ws q)"
    "leaf_update L ws (layout_erase L ws q) (depth L - 1) q False"
    by (simp_all only: layout_erase_def d diff_Suc_1)
  from *(1) show "mask_inv L (layout_erase L ws q)" .
  from leaf_update_mask_set [OF *(2) wf q]
  show "mask_set L (layout_erase L ws q) = mask_set L ws - {q}" by (simp only: if_True if_False)
qed

lemma layout_insert_correct:
  assumes inv: "mask_inv L ws" and q: "q < capacity L"
  shows "mask_inv L (layout_insert L ws q)" "mask_set L (layout_insert L ws q) = insert q (mask_set L ws)"
proof -
  note wf = mask_invD(1) [OF inv]
  obtain d where d: "depth L = Suc d" using wf_layoutD(2) [OF wf] by (cases "depth L") auto
  have qd: "q < 64 * level_counts L ! d" using wf_layoutD(8) [OF wf] q d by simp
  have "mask_inv L (insert_up L (Suc d) ws q) \<and> leaf_update L ws (insert_up L (Suc d) ws q) d q True"
    by (intro insert_up_correct mask_inv_except [OF inv]) (simp_all add: d q qd)
  then have *: "mask_inv L (layout_insert L ws q)"
    "leaf_update L ws (layout_insert L ws q) (depth L - 1) q True"
    by (simp_all only: layout_insert_def d diff_Suc_1)
  from *(1) show "mask_inv L (layout_insert L ws q)" .
  from leaf_update_mask_set [OF *(2) wf q]
  show "mask_set L (layout_insert L ws q) = insert q (mask_set L ws)" by (simp only: if_True if_False)
qed

lemma length_fill_level [simp]: "length (fill_level first members ws) = length ws"
proof -
  have "length (fold (\<lambda>w xs. xs[first + w := f w]) is xs) = length xs" for f "is" and xs :: "u64 list"
    by (induction "is" arbitrary: xs) auto
  then show ?thesis by (simp add: fill_level_def)
qed

lemma fold_update_nth:
  "k < length ws \<Longrightarrow>
   fold (\<lambda>w xs. xs[first + w := f w]) [0..<n] ws ! k
     = (if first \<le> k \<and> k < first + n then f (k - first) else ws ! k)"
proof (induction n)
  case (Suc n)
  have "length (fold (\<lambda>w xs. xs[first + w := f w]) [0..<m] ws) = length ws" for m
    by (induction m) auto
  with Suc show ?case by (auto simp: nth_list_update_if)
qed auto

lemma fill_level_lbit:
  assumes wf: "wf_layout L cs" and len: "words L \<le> length ws" and l: "l < depth L" "k < depth L"
    and m: "members \<noteq> 0" "cs ! l = (members + 63) div 64" and p: "p < 64 * cs ! k"
  shows "lbit L (fill_level (offset L ! l) members ws) k p
      = (if k = l then p < members else lbit L ws k p)"
proof -
  have i: "p div 64 < cs ! k" using p by (rule less_div64)
  have end_k: "offset L ! k + p div 64 < length ws" using level_end [OF wf l(2)] i len by linarith
  have inside: "offset L ! l \<le> offset L ! k + p div 64 \<and> offset L ! k + p div 64 < offset L ! l + cs ! l
      \<longleftrightarrow> k = l"
  proof (cases k l rule: linorder_cases)
    case less
    then show ?thesis using level_apart [OF wf less l(1) i, of 0] by simp
  next
    case equal
    then show ?thesis using i by simp
  next
    case greater
    have "offset L ! l + (cs ! l - 1) < offset L ! k + p div 64"
      using level_apart [OF wf greater l(2), of "cs ! l - 1" "p div 64"] m by simp
    then show ?thesis using greater by simp
  qed
  have nth: "fill_level (offset L ! l) members ws ! (offset L ! k + p div 64)
      = (if k = l then fill_word (min 64 (members - p div 64 * 64)) else ws ! (offset L ! k + p div 64))"
    unfolding fill_level_def using fold_update_nth [OF end_k] inside by (auto simp: m(2))
  show ?thesis
  proof (cases "k = l")
    case True
    have "p = p div 64 * 64 + p mod 64" "p mod 64 < 64" by simp_all
    then have "p mod 64 < min 64 (members - p div 64 * 64) \<longleftrightarrow> p < members"
      by linarith
    with True nth show ?thesis by (simp add: lbit_def lword_def bit_fill_word)
  qed (use nth in \<open>simp add: lbit_def lword_def\<close>)
qed

text \<open>The number of members of each level: the capacity at the leaves, and above them
  the number of words of the level below.\<close>

definition level_members :: "mask_layout \<Rightarrow> nat \<Rightarrow> nat" where
  "level_members L l = (if Suc l < depth L then level_counts L ! Suc l else capacity L)"

lemma level_members_words:
  assumes wf: "wf_layout L (level_counts L)" and l: "l < depth L" and cap: "capacity L \<noteq> 0"
  shows "(level_members L l + 63) div 64 = level_counts L ! l" "level_members L l \<noteq> 0"
proof -
  have "(level_members L l + 63) div 64 = level_counts L ! l" if "l < depth L" for l
  proof (cases "Suc l < depth L")
    case True
    then show ?thesis using wf_layoutD(7) [OF wf] by (simp add: level_members_def)
  next
    case False
    then have "l = depth L - 1" using that by simp
    then show ?thesis using wf_layoutD(10) [OF wf cap] False by (simp add: level_members_def)
  qed
  then show "(level_members L l + 63) div 64 = level_counts L ! l" using l by blast
  have pos: "0 < level_counts L ! l" if "l < depth L" for l
    using that
  proof (induction l)
    case 0
    then show ?case using wf_layoutD(3) [OF wf] by simp
  next
    case (Suc l)
    then have "0 < level_counts L ! l" by simp
    then show ?case using wf_layoutD(7) [OF wf Suc.prems] by (cases "level_counts L ! Suc l") auto
  qed
  show "level_members L l \<noteq> 0"
    using pos [of "Suc l"] cap l by (auto simp: level_members_def)
qed

lemma fill_up_correct:
  assumes wf: "wf_layout L (level_counts L)" and cap: "capacity L \<noteq> 0"
    and "l \<le> depth L" "words L \<le> length ws"
    and "l \<noteq> 0 \<Longrightarrow> members = level_members L (l - 1)"
    and "\<forall>k p. l \<le> k \<longrightarrow> k < depth L \<longrightarrow> p < 64 * level_counts L ! k \<longrightarrow>
       lbit L ws k p = (p < level_members L k)"
  shows "words L \<le> length (fill_up L l members ws) \<and>
    (\<forall>k p. k < depth L \<longrightarrow> p < 64 * level_counts L ! k \<longrightarrow>
       lbit L (fill_up L l members ws) k p = (p < level_members L k))"
  using assms(3-)
proof (induction l arbitrary: members ws)
  case 0
  then show ?case by simp
next
  case (Suc l)
  then have l: "l < depth L" and m: "members = level_members L l" by simp_all
  note mw = level_members_words [OF wf l cap]
  let ?ws = "fill_level (offset L ! l) members ws"
  have "lbit L ?ws k p = (p < level_members L k)"
    if k: "l \<le> k" "k < depth L" "p < 64 * level_counts L ! k" for k p
  proof (cases "k = l")
    case True
    then show ?thesis
      using fill_level_lbit [OF wf Suc.prems(2) l k(2) _ _ k(3), of members] mw m by simp
  next
    case False
    then have "lbit L ws k p = (p < level_members L k)" using Suc.prems(4) k by simp
    then show ?thesis
      using fill_level_lbit [OF wf Suc.prems(2) l k(2) _ _ k(3), of members] mw m False by simp
  qed
  moreover have "(members + 63) div 64 = level_members L (l - 1)" if "l \<noteq> 0"
    using that l mw(1) m by (simp add: level_members_def)
  ultimately show ?case
    using Suc.IH [of ?ws "(members + 63) div 64"] Suc.prems(2) l by simp
qed

lemma fill_level_none [simp]: "fill_level first 0 ws = ws"
  by (simp add: fill_level_def)

lemma fill_up_none [simp]: "fill_up L l 0 ws = ws"
  by (induction l) auto

lemma layout_fill_correct:
  assumes inv: "mask_inv L ws"
  shows "mask_inv L (layout_fill L ws)" "mask_set L (layout_fill L ws) = {..<capacity L}"
proof -
  note wf = mask_invD(1) [OF inv] and len = mask_invD(2) [OF inv]
  let ?ws = "layout_fill L ws"
  have "mask_inv L ?ws \<and> mask_set L ?ws = {..<capacity L}"
  proof (cases "capacity L = 0")
    case True
    then show ?thesis using inv by (simp add: layout_fill_def mask_set_def)
  next
    case False
    have "words L \<le> length ?ws \<and> (\<forall>k p. k < depth L \<longrightarrow> p < 64 * level_counts L ! k \<longrightarrow>
       lbit L ?ws k p = (p < level_members L k))"
      unfolding layout_fill_def
      by (rule fill_up_correct [OF wf False]) (use len in \<open>auto simp: level_members_def\<close>)
    then have len': "words L \<le> length ?ws"
      and bits: "\<And>k p. k < depth L \<Longrightarrow> p < 64 * level_counts L ! k \<Longrightarrow>
        lbit L ?ws k p = (p < level_members L k)" by blast+
    have live: "lword L ?ws k i \<noteq> 0" if "k < depth L" "i < level_counts L ! k" for k i
    proof -
      have "64 * i < level_members L k" "64 * i < 64 * level_counts L ! k"
        using level_members_words(1) [OF wf that(1) False] that(2) by linarith+
      then have "lbit L ?ws k (64 * i)" using bits [OF that(1)] by simp
      then show ?thesis unfolding lword_nonzero by (intro exI [of _ "64 * i"]) simp
    qed
    have "mask_inv L ?ws"
    proof (rule mask_invI [OF wf len'])
      fix k p assume k: "Suc k < depth L" "p < 64 * level_counts L ! k"
      then have "lbit L ?ws k p = (p < level_counts L ! Suc k)"
        using bits by (simp add: level_members_def)
      then show "lbit L ?ws k p \<longleftrightarrow> p < level_counts L ! Suc k \<and> lword L ?ws (Suc k) p \<noteq> 0"
        using live k by auto
    next
      fix p assume "p < 64 * last (level_counts L)" "lbit L ?ws (depth L - 1) p"
      then show "p < capacity L"
        using bits [of "depth L - 1" p] wf_layoutD(2,9) [OF wf] by (simp add: level_members_def)
    qed
    moreover have "lbit L ?ws (depth L - 1) p" if "p < capacity L" for p
      using bits [of "depth L - 1" p] wf_layoutD(2,8) [OF wf] that by (simp add: level_members_def)
    ultimately show ?thesis by (auto simp: mask_set_def)
  qed
  then show "mask_inv L ?ws" "mask_set L ?ws = {..<capacity L}" by blast+
qed

lemma mask_inv_zero:
  assumes cap: "cap \<le> max_capacity"
  shows "mask_inv (mask_layout_of cap) (replicate (words (mask_layout_of cap)) 0 @ rest)"
    "mask_set (mask_layout_of cap) (replicate (words (mask_layout_of cap)) 0 @ rest) = {}"
proof -
  let ?L = "mask_layout_of cap"
  let ?ws = "replicate (words ?L) (0 :: u64) @ rest"
  note wf = wf_layout_of [OF cap]
  have zero: "lword ?L ?ws l i = 0" if "l < depth ?L" "i < level_counts ?L ! l" for l i
    using level_end [OF wf that(1)] that(2) by (simp add: lword_def nth_append)
  then have bits: "\<not> lbit ?L ?ws l p" if "l < depth ?L" "p < 64 * level_counts ?L ! l" for l p
    using that less_div64 [OF that(2)] by (simp add: lbit_def)
  show "mask_inv ?L ?ws"
    by (rule mask_invI [OF wf]) (use zero bits wf_layoutD(2,9) [OF wf] in auto)
  show "mask_set ?L ?ws = {}"
    using bits [of "depth ?L - 1"] wf_layoutD(2,8) [OF wf] by (fastforce simp: mask_set_def)
qed

section \<open>The allocator's interface\<close>

text \<open>What a holder of land relies on: a finite set of free indices below a fixed
  capacity, of which \<open>take\<close> hands out the lowest.\<close>

locale index_set =
  fixes invar :: "'m \<Rightarrow> bool" and elems :: "'m \<Rightarrow> nat set" and cap :: "'m \<Rightarrow> nat"
    and is_empty :: "'m \<Rightarrow> bool" and peek :: "'m \<Rightarrow> nat" and tk :: "'m \<Rightarrow> nat \<times> 'm"
    and give :: "nat \<Rightarrow> 'm \<Rightarrow> 'm" and contains :: "'m \<Rightarrow> nat \<Rightarrow> bool" and refill :: "'m \<Rightarrow> 'm"
  assumes elems_below: "invar m \<Longrightarrow> elems m \<subseteq> {..<cap m}"
    and is_empty_iff: "invar m \<Longrightarrow> is_empty m \<longleftrightarrow> elems m = {}"
    and peek_none: "invar m \<Longrightarrow> elems m = {} \<Longrightarrow> peek m = cap m"
    and peek_least: "invar m \<Longrightarrow> elems m \<noteq> {} \<Longrightarrow> peek m = Min (elems m)"
    and take_law: "invar m \<Longrightarrow> invar (snd (tk m)) \<and> fst (tk m) = peek m
      \<and> elems (snd (tk m)) = elems m - {peek m} \<and> cap (snd (tk m)) = cap m"
    and give_law: "invar m \<Longrightarrow> i < cap m \<Longrightarrow> invar (give i m)
      \<and> elems (give i m) = insert i (elems m) \<and> cap (give i m) = cap m"
    and contains_iff: "invar m \<Longrightarrow> contains m i \<longleftrightarrow> i \<in> elems m"
    and refill_law: "invar m \<Longrightarrow> invar (refill m) \<and> elems (refill m) = {..<cap m}
      \<and> cap (refill m) = cap m"
begin

lemma finite_elems: "invar m \<Longrightarrow> finite (elems m)"
  using elems_below finite_subset by blast

text \<open>A slot that was handed out is free again after it is given back.\<close>

lemma take_give:
  assumes "invar m" "elems m \<noteq> {}"
  shows "elems (give (fst (tk m)) (snd (tk m))) = elems m"
proof -
  have p: "peek m \<in> elems m" using assms peek_least finite_elems Min_in by metis
  with assms elems_below have "peek m < cap m" by auto
  with take_law [OF assms(1)] give_law [of "snd (tk m)" "peek m"] p show ?thesis by auto
qed

text \<open>Repeated allocation hands out the members in increasing order, and leaves the
  others.\<close>

lemma take_many_sorted:
  assumes "invar m" "n \<le> card (elems m)"
  shows "fst (take_many tk n m) = take n (sorted_list_of_set (elems m))
    \<and> invar (snd (take_many tk n m))
    \<and> elems (snd (take_many tk n m)) = elems m - set (fst (take_many tk n m))"
  using assms
proof (induction n arbitrary: m)
  case 0
  then show ?case by simp
next
  case (Suc n)
  let ?m = "snd (tk m)"
  have ne: "elems m \<noteq> {}" using Suc.prems by auto
  have fin: "finite (elems m)" using Suc.prems finite_elems by blast
  have least: "peek m = Min (elems m)" using peek_least [OF Suc.prems(1) ne] .
  note tl = take_law [OF Suc.prems(1)]
  have "card (elems ?m) = card (elems m) - 1" using tl least ne fin by simp
  then have "fst (take_many tk n ?m) = take n (sorted_list_of_set (elems ?m))
    \<and> invar (snd (take_many tk n ?m))
    \<and> elems (snd (take_many tk n ?m)) = elems ?m - set (fst (take_many tk n ?m))"
    using Suc.prems tl by (intro Suc.IH) auto
  moreover have "sorted_list_of_set (elems m) = peek m # sorted_list_of_set (elems ?m)"
    using sorted_list_of_set_nonempty [OF fin ne] tl least by simp
  ultimately show ?case using tl by (auto simp: split_beta Let_def)
qed

lemma take_many_full:
  assumes "invar m" "n \<le> cap m"
  shows "fst (take_many tk n (refill m)) = [0..<n]"
proof -
  have r: "invar (refill m)" "elems (refill m) = {..<cap m}" using refill_law [OF assms(1)] by auto
  then have "fst (take_many tk n (refill m)) = take n (sorted_list_of_set {..<cap m})"
    using take_many_sorted [of "refill m" n] assms(2) by simp
  then show ?thesis using assms(2) by (simp add: lessThan_atLeast0)
qed

end

definition static_inv :: "nat \<Rightarrow> u64 list \<Rightarrow> bool" where
  "static_inv N ws \<longleftrightarrow> N \<le> max_capacity \<and> mask_inv (mask_layout_of N) ws"

definition static_set :: "nat \<Rightarrow> u64 list \<Rightarrow> nat set" where
  "static_set N ws = mask_set (mask_layout_of N) ws"

text \<open>A default constructed \<^verbatim>\<open>mask<>\<close> has no words and capacity 0; a borrowing one
  keeps the layout of its capacity.\<close>

definition dyn_inv :: "dyn_mask \<Rightarrow> bool" where
  "dyn_inv m \<longleftrightarrow> capacity (dlayout m) \<le> max_capacity \<and> dlayout m = mask_layout_of (capacity (dlayout m))
     \<and> (case dwords m of None \<Rightarrow> capacity (dlayout m) = 0 | Some ws \<Rightarrow> mask_inv (dlayout m) ws)"

definition dyn_set :: "dyn_mask \<Rightarrow> nat set" where
  "dyn_set m = (case dwords m of None \<Rightarrow> {} | Some ws \<Rightarrow> mask_set (dlayout m) ws)"

lemma layout_contains_inv:
  "mask_inv L ws \<Longrightarrow> layout_contains L ws p \<longleftrightarrow> p \<in> mask_set L ws"
  using layout_contains_iff mask_invD(1) wf_layoutD(2) by blast

lemma mask_set_below: "mask_set L ws \<subseteq> {..<capacity L}"
  by (auto simp: mask_set_def)

lemma peek_in_mask_set:
  "mask_inv L ws \<Longrightarrow> layout_peek L ws \<noteq> capacity L \<Longrightarrow> layout_peek L ws < capacity L"
  using layout_peek_empty layout_peek_Min Min_in [of "mask_set L ws"] mask_set_below [of L ws]
  by (metis finite_mask_set lessThan_iff subset_iff)

lemma mask_set_no_capacity: "mask_set L ws - {capacity L} = mask_set L ws"
  using mask_set_below by fastforce

lemma static_set_below: "x \<in> mask_set (mask_layout_of N) ws \<Longrightarrow> x < N"
  using mask_set_below [of "mask_layout_of N" ws] by auto

interpretation static: index_set "static_inv N" "static_set N" "\<lambda>_. N" static_empty
  "static_peek N" "static_take N" "static_give N" "static_contains N" "static_fill N" for N
proof (unfold_locales, goal_cases)
  case (5 m)
  then show ?case
    using layout_erase_correct [of "mask_layout_of N" m] peek_in_mask_set [of "mask_layout_of N" m]
      mask_set_no_capacity [of "mask_layout_of N" m]
    by (auto simp: static_take_def static_inv_def static_set_def static_peek_def Let_def)
qed (auto simp: static_inv_def static_set_def static_empty_def static_peek_def static_give_def
    static_contains_def static_fill_def root_empty_iff layout_peek_empty layout_peek_Min
    layout_insert_correct layout_fill_correct layout_contains_inv
    intro: static_set_below)

interpretation dyn: index_set dyn_inv dyn_set "\<lambda>m. capacity (dlayout m)" dyn_empty
  dyn_peek dyn_take dyn_give dyn_contains dyn_fill
proof (unfold_locales, goal_cases)
  case (5 m)
  then show ?case
    using layout_erase_correct [of "dlayout m"] peek_in_mask_set [of "dlayout m"]
      mask_set_no_capacity [of "dlayout m"]
    by (auto simp: dyn_take_def dyn_inv_def dyn_set_def dyn_peek_def Let_def split: option.splits)
qed (auto simp: dyn_inv_def dyn_set_def dyn_empty_def dyn_peek_def dyn_give_def
    dyn_contains_def dyn_fill_def root_empty_iff layout_peek_empty layout_peek_Min
    layout_insert_correct layout_fill_correct layout_contains_inv
    intro: mask_set_below [THEN subsetD, simplified] split: option.splits)

section \<open>Properties\<close>

text \<open>C16. The static mask refines a finite set of indices: after any of its operations the
  tree invariant holds again and the set it stands for is the one the operation's
  comment promises; \<open>take\<close> returns the least member and removes it, or returns the
  capacity and changes nothing when there is none.\<close>

theorem static_mask_refines_set:
  assumes "static_inv N ws" "i < N"
  shows "static_inv N (static_give N i ws) \<and> static_set N (static_give N i ws) = insert i (static_set N ws)
    \<and> static_inv N (snd (static_take N ws))
    \<and> static_take N ws = (if static_set N ws = {} then (N, ws)
         else (Min (static_set N ws), snd (static_take N ws)))
    \<and> static_set N (snd (static_take N ws)) = static_set N ws - {Min (static_set N ws)}
    \<and> (static_contains N ws i \<longleftrightarrow> i \<in> static_set N ws)
    \<and> (static_empty ws \<longleftrightarrow> static_set N ws = {})
    \<and> static_inv N (static_fill N ws) \<and> static_set N (static_fill N ws) = {..<N}"
  using assms static.give_law [of N ws i] static.take_law [of N ws] static.peek_least [of N ws]
    static.peek_none [of N ws] static.refill_law [of N ws] static.contains_iff [of N ws i]
    static.is_empty_iff [of N ws]
  by (auto simp: static_take_def Let_def)

lemma static_mask_start: "N \<le> max_capacity \<Longrightarrow> static_inv N (static_mask N) \<and> static_set N (static_mask N) = {}"
  using mask_inv_zero [of N "[]"] by (simp add: static_inv_def static_set_def static_mask_def)

theorem static_mask_refines_set_witness:
  "static_inv 100 (static_mask 100)
    \<and> static_set 100 (static_give 100 7 (static_mask 100)) = insert 7 (static_set 100 (static_mask 100))"
proof -
  have "static_inv 100 (static_mask 100)" using static_mask_start [of 100] by (simp add: max_capacity_def)
  with static_mask_refines_set [of 100 "static_mask 100" 7] show ?thesis by simp
qed

text \<open>C18. A mask that was filled hands out the indices \<open>0, 1, 2, \<dots>\<close> in order, for every
  capacity up to \<open>2 ^ 36\<close> and every number of allocations up to the capacity.\<close>

theorem static_fill_take_in_order:
  assumes "N \<le> max_capacity" "n \<le> N"
  shows "fst (take_many (static_take N) n (static_fill N (static_mask N))) = [0..<n]"
  using static_mask_start [OF assms(1)] assms(2) static.take_many_full by blast

theorem static_fill_take_in_order_witness:
  "fst (take_many (static_take 5000) 4100 (static_fill 5000 (static_mask 5000))) = [0..<4100]"
  by (rule static_fill_take_in_order) (simp_all add: max_capacity_def)

text \<open>The borrowing mask starts empty whatever its words held before, and giving a
  slot that was taken restores the set of free slots.\<close>

theorem dyn_mask_take_give:
  assumes "cap \<le> max_capacity" "words_for cap \<le> length ws" "dyn_inv m" "dyn_set m \<noteq> {}"
  shows "dyn_inv (dyn_borrow ws cap) \<and> dyn_set (dyn_borrow ws cap) = {}
    \<and> dyn_set (dyn_give (fst (dyn_take m)) (snd (dyn_take m))) = dyn_set m"
  using mask_inv_zero [OF assms(1), of "drop (words_for cap) ws"] assms dyn.take_give
  by (simp add: dyn_inv_def dyn_set_def dyn_borrow_def words_for_def)

lemma dyn_borrow_start:
  "cap \<le> max_capacity \<Longrightarrow> dyn_inv (dyn_borrow ws cap) \<and> capacity (dlayout (dyn_borrow ws cap)) = cap"
  using mask_inv_zero [of cap "drop (words_for cap) ws"]
  by (simp add: dyn_inv_def dyn_borrow_def words_for_def)

theorem dyn_mask_take_give_witness:
  "dyn_set (dyn_borrow [5, 6, 7, 8, 9] 130) = {}
    \<and> dyn_set (dyn_give (fst (dyn_take (dyn_fill (dyn_borrow [1, 2] 70))))
        (snd (dyn_take (dyn_fill (dyn_borrow [1, 2] 70)))))
      = dyn_set (dyn_fill (dyn_borrow [1, 2] 70))"
proof -
  have w: "words_for 130 = 4"
    by (simp add: words_for_def mask_layout_of_def layout_counts.simps max_depth_def Let_def)
  have c: "(130 :: nat) \<le> max_capacity" "(70 :: nat) \<le> max_capacity" by (simp_all add: max_capacity_def)
  have "dyn_inv (dyn_fill (dyn_borrow [1, 2] 70))" "dyn_set (dyn_fill (dyn_borrow [1, 2] 70)) \<noteq> {}"
    using dyn.refill_law [of "dyn_borrow [1, 2] 70"] dyn_borrow_start [OF c(2), of "[1, 2]"]
    by (auto simp: lessThan_empty_iff)
  with dyn_mask_take_give [OF c(1), of "[5, 6, 7, 8, 9]"] w show ?thesis by simp
qed

end
