(* ===== verification/Deck.thy ===== *)
theory Deck
  imports Nxt_Prelude "HOL-Library.Sublist"
begin

text \<open>
  The cooperative scheduler of \<^verbatim>\<open>src/nxtrt\<close>: task ids (\<^verbatim>\<open>ids.hpp\<close>), the deck's task table
  and ready queue (\<^verbatim>\<open>deck.hpp\<close>, \<^verbatim>\<open>task/runtime.hpp\<close>).

  Coroutine bodies are not code of the runtime.  A resumed coroutine may do to the deck
  exactly what its interface lets it: queue a handle, destroy a frame, finish, create a
  frame, or attach another wand; these are the steps \<open>deck_api\<close>.  The pump takes the effect of a
  resumption (\<open>resume\<close>) and of a wand's \<^verbatim>\<open>wave\<close> as parameters, under the hypothesis
  \<open>api_only\<close> that each is a sequence of such steps.  Addresses of decks, handles and
  promises are natural numbers, a null pointer is \<open>None\<close>.
\<close>

section \<open>Model\<close>

subsection \<open>Task ids\<close>

definition index_mask :: u32 where
  "index_mask = push_bit 24 1 - 1"

definition max_index :: nat where
  "max_index = unat index_mask"

definition task_make :: "u32 \<Rightarrow> byte \<Rightarrow> u32" where
  "task_make index era = push_bit 24 (ucast era) OR (index AND index_mask)"

definition task_index :: "u32 \<Rightarrow> u32" where
  "task_index v = v AND index_mask"

definition task_era :: "u32 \<Rightarrow> byte" where
  "task_era v = ucast (drop_bit 24 v)"

subsection \<open>The task table\<close>

datatype deck_task_state = vacant | live

record deck_task_record =
  row_id :: u32
  row_handle :: "nat option"
  row_promise :: "nat option"
  row_state :: deck_task_state
  row_era :: byte

text \<open>The two fields of \<^verbatim>\<open>detail::promise_base\<close> the table uses.\<close>

record promise_base =
  pid :: u32
  pdeck :: "nat option"

text \<open>The deck, with the promises and coroutine states its pointers reach, the promise
  that is current in the running environment, and the trace of resumed ids.\<close>

record deck =
  this :: nat
  tasks :: "deck_task_record list"
  ready :: "u32 list"
  wand :: "nat option"
  prom :: "nat \<Rightarrow> promise_base"
  hdone :: "nat \<Rightarrow> bool"
  current :: "nat option"
  resumed :: "u32 list"

datatype deck_error =
    DifferentDeck | IdCollision | TableTooLarge | TableFull | NotReentrant | Deadlock

definition fresh_row :: deck_task_record where
  "fresh_row = \<lparr>row_id = 0, row_handle = None, row_promise = None, row_state = vacant, row_era = 1\<rparr>"

definition new_deck :: "nat \<Rightarrow> nat \<Rightarrow> nat option \<Rightarrow> deck" where
  "new_deck addr capacity w =
     \<lparr>this = addr, tasks = replicate capacity fresh_row, ready = [], wand = w,
      prom = (\<lambda>_. \<lparr>pid = 0, pdeck = None\<rparr>), hdone = (\<lambda>_. False), current = None, resumed = []\<rparr>"

definition default_task_capacity :: nat where
  "default_task_capacity = 4096"

definition resolve :: "deck \<Rightarrow> u32 \<Rightarrow> nat option" where
  "resolve d i =
     (if i = 0 then None
      else let index = unat (task_index i) in
        if index = 0 \<or> index > length (tasks d) then None
        else let row = tasks d ! (index - 1) in
          if row_state row \<noteq> live \<or> row_id row \<noteq> i then None else Some (index - 1))"

text \<open>The search loop of \<^verbatim>\<open>register_task\<close>: the first vacant row from \<open>i\<close> on.\<close>

function first_vacant :: "deck_task_record list \<Rightarrow> nat \<Rightarrow> nat option" where
  "first_vacant rows i =
     (if i < length rows
      then if row_state (rows ! i) \<noteq> vacant then first_vacant rows (Suc i) else Some i
      else None)"
  by pat_completeness auto
termination
  by (relation "measure (\<lambda>(rows, i). length rows - i)") auto

definition allocate_row :: "deck \<Rightarrow> nat \<Rightarrow> nat \<Rightarrow> (deck_error + u32) \<times> deck" where
  "allocate_row d h p =
     (case first_vacant (tasks d) 0 of
        None \<Rightarrow> (Inl TableFull, d)
      | Some i \<Rightarrow>
          if i + 1 > max_index then (Inl TableTooLarge, d)
          else let row = tasks d ! i; tid = task_make (of_nat (i + 1)) (row_era row) in
            (Inr tid,
             d\<lparr>tasks := (tasks d)[i := row\<lparr>row_id := tid, row_handle := Some h,
                 row_promise := Some p, row_state := live\<rparr>],
               prom := (prom d)(p := \<lparr>pid = tid, pdeck = Some (this d)\<rparr>)\<rparr>))"

definition register_task :: "deck \<Rightarrow> nat option \<Rightarrow> nat option \<Rightarrow> (deck_error + u32) \<times> deck" where
  "register_task d handle promise =
     (case (handle, promise) of
        (Some h, Some p) \<Rightarrow>
          if pdeck (prom d p) \<noteq> None \<and> pdeck (prom d p) \<noteq> Some (this d) then (Inl DifferentDeck, d)
          else if pid (prom d p) \<noteq> 0 then
            (case resolve d (pid (prom d p)) of
               Some i \<Rightarrow>
                 if row_promise (tasks d ! i) \<noteq> Some p then (Inl IdCollision, d)
                 else (Inr (pid (prom d p)),
                       d\<lparr>tasks := (tasks d)[i := (tasks d ! i)\<lparr>row_handle := Some h\<rparr>]\<rparr>)
             | None \<Rightarrow> allocate_row (d\<lparr>prom := (prom d)(p := (prom d p)\<lparr>pid := 0\<rparr>)\<rparr>) h p)
          else allocate_row d h p
      | _ \<Rightarrow> (Inr 0, d))"

definition next_era :: "byte \<Rightarrow> byte" where
  "next_era e = (if e + 1 = 0 then 1 else e + 1)"

definition unregister_task :: "deck \<Rightarrow> u32 \<Rightarrow> nat option \<Rightarrow> deck" where
  "unregister_task d i promise =
     (case resolve d i of
        None \<Rightarrow> d
      | Some k \<Rightarrow>
          if row_promise (tasks d ! k) \<noteq> promise then d
          else let d1 = d\<lparr>tasks := (tasks d)[k := \<lparr>row_id = 0, row_handle = None, row_promise = None,
                   row_state = vacant, row_era = next_era (row_era (tasks d ! k))\<rparr>]\<rparr> in
            (case promise of
               None \<Rightarrow> d1
             | Some p \<Rightarrow> d1\<lparr>prom := (prom d1)(p :=
                 \<lparr>pid = 0, pdeck = (if pdeck (prom d1 p) = Some (this d1) then None
                                   else pdeck (prom d1 p))\<rparr>)\<rparr>))"

text \<open>\<^verbatim>\<open>promise_base::unregister_from_deck\<close>, for a promise of this deck or of none.\<close>

definition unregister_from_deck :: "deck \<Rightarrow> nat \<Rightarrow> deck" where
  "unregister_from_deck d p =
     (if pdeck (prom d p) = Some (this d) then unregister_task d (pid (prom d p)) (Some p) else d)"

definition enqueue :: "deck \<Rightarrow> nat option \<Rightarrow> nat option \<Rightarrow> (deck_error + u32) \<times> deck" where
  "enqueue d handle promise =
     (case register_task d handle promise of
        (Inl e, d') \<Rightarrow> (Inl e, d')
      | (Inr i, d') \<Rightarrow> if i = 0 then (Inr 0, d') else (Inr i, d'\<lparr>ready := ready d' @ [i]\<rparr>))"

definition start :: "deck \<Rightarrow> nat option \<Rightarrow> nat \<Rightarrow> (deck_error + u32) \<times> deck" where
  "start d handle promise =
     (case handle of
        None \<Rightarrow> (Inr 0, d)
      | Some h \<Rightarrow> if hdone d h then (Inr 0, d) else enqueue d (Some h) (Some promise))"

text \<open>The environment of the caller, if there is one: its current deck and its current promise.\<close>

definition current_task_id :: "deck \<Rightarrow> (nat option \<times> nat option) option \<Rightarrow> u32" where
  "current_task_id d env =
     (case env of
        None \<Rightarrow> 0
      | Some (cd, cp) \<Rightarrow>
          if cd \<noteq> Some (this d) then 0 else (case cp of None \<Rightarrow> 0 | Some p \<Rightarrow> pid (prom d p)))"

definition set_wand :: "nat option \<Rightarrow> deck \<Rightarrow> deck" where
  "set_wand w d = d\<lparr>wand := w\<rparr>"

definition deck_empty :: "deck \<Rightarrow> bool" where
  "deck_empty d \<longleftrightarrow> ready d = []"

subsection \<open>The pump\<close>

definition resume_if_ready :: "(nat \<Rightarrow> deck \<Rightarrow> deck) \<Rightarrow> u32 \<Rightarrow> deck \<Rightarrow> deck" where
  "resume_if_ready resume i d =
     (case resolve d i of
        None \<Rightarrow> d
      | Some k \<Rightarrow>
          (case row_handle (tasks d ! k) of
             None \<Rightarrow> d
           | Some h \<Rightarrow>
               if hdone d h then d
               else (resume h (d\<lparr>current := row_promise (tasks d ! k), resumed := resumed d @ [i]\<rparr>))
                 \<lparr>current := current d\<rparr>))"

definition run_ready_with :: "(nat \<Rightarrow> deck \<Rightarrow> deck) \<Rightarrow> deck \<Rightarrow> deck_error + deck" where
  "run_ready_with resume d =
     (if current d \<noteq> None then Inl NotReentrant
      else Inr (fold (resume_if_ready resume) (ready d) (d\<lparr>ready := []\<rparr>)))"

definition run_ready :: "(nat \<Rightarrow> deck \<Rightarrow> deck) \<Rightarrow> (nat \<Rightarrow> deck \<Rightarrow> deck) \<Rightarrow> deck \<Rightarrow> deck_error + deck" where
  "run_ready resume wave d =
     (case run_ready_with resume d of
        Inl e \<Rightarrow> Inl e
      | Inr d' \<Rightarrow> Inr (case wand d' of None \<Rightarrow> d' | Some w \<Rightarrow> wave w d'))"

text \<open>\<^verbatim>\<open>run_ready(wand &)\<close>: the wand is attached for one round and the previous one restored.\<close>

definition run_ready_on :: "(nat \<Rightarrow> deck \<Rightarrow> deck) \<Rightarrow> (nat \<Rightarrow> deck \<Rightarrow> deck) \<Rightarrow> nat \<Rightarrow> deck \<Rightarrow> deck_error + deck" where
  "run_ready_on resume wave w d =
     map_sum id (\<lambda>d'. d'\<lparr>wand := wand d\<rparr>) (run_ready resume wave (d\<lparr>wand := Some w\<rparr>))"

text \<open>\<^verbatim>\<open>run_until_idle\<close> and the loop of \<^verbatim>\<open>drive\<close> need not end: \<open>None\<close> is a run that does not.\<close>

partial_function (option) run_until_idle ::
  "(nat \<Rightarrow> deck \<Rightarrow> deck) \<Rightarrow> (nat \<Rightarrow> deck \<Rightarrow> deck) \<Rightarrow> deck \<Rightarrow> (deck_error + deck) option" where
  "run_until_idle resume wave d =
     (if ready d = [] then Some (Inr d)
      else case run_ready resume wave d of
        Inl e \<Rightarrow> Some (Inl e)
      | Inr d' \<Rightarrow> run_until_idle resume wave d')"

partial_function (option) drive_loop ::
  "(nat \<Rightarrow> deck \<Rightarrow> deck) \<Rightarrow> (nat \<Rightarrow> deck \<Rightarrow> deck) \<Rightarrow> nat \<Rightarrow> deck \<Rightarrow> (deck_error + deck) option" where
  "drive_loop resume wave h d =
     (if hdone d h then Some (Inr d)
      else if ready d = [] then Some (Inl Deadlock)
      else case run_ready resume wave d of
        Inl e \<Rightarrow> Some (Inl e)
      | Inr d' \<Rightarrow> drive_loop resume wave h d')"

declare run_until_idle.simps [code] drive_loop.simps [code]

definition drive :: "(nat \<Rightarrow> deck \<Rightarrow> deck) \<Rightarrow> (nat \<Rightarrow> deck \<Rightarrow> deck) \<Rightarrow> nat \<Rightarrow> nat \<Rightarrow> deck \<Rightarrow> (deck_error + deck) option" where
  "drive resume wave h p d =
     (case start d (Some h) p of
        (Inl e, d') \<Rightarrow> Some (Inl e)
      | (Inr _, d') \<Rightarrow> drive_loop resume wave h d')"

subsection \<open>What a coroutine or a wand may do\<close>

inductive deck_api :: "deck \<Rightarrow> deck \<Rightarrow> bool" where
  api_enqueue: "deck_api d (snd (enqueue d handle promise))"
| api_destroy: "deck_api d (unregister_from_deck d p)"
| api_wand: "deck_api d (set_wand w d)"
| api_finish: "deck_api d (d\<lparr>hdone := (hdone d)(h := True)\<rparr>)"
| api_create: "(\<forall>row \<in> set (tasks d). row_handle row \<noteq> Some h) \<Longrightarrow>
    deck_api d (d\<lparr>hdone := (hdone d)(h := False)\<rparr>)"
| api_other_deck: "pdeck (prom d p) \<noteq> Some (this d) \<Longrightarrow> pdeck q \<noteq> Some (this d) \<Longrightarrow>
    (pdeck q = None \<Longrightarrow> pid q = 0) \<Longrightarrow> deck_api d (d\<lparr>prom := (prom d)(p := q)\<rparr>)"

inductive_cases deck_apiE: "deck_api d d'"

abbreviation deck_apis :: "deck \<Rightarrow> deck \<Rightarrow> bool" where
  "deck_apis \<equiv> deck_api\<^sup>*\<^sup>*"

definition api_only :: "(nat \<Rightarrow> deck \<Rightarrow> deck) \<Rightarrow> bool" where
  "api_only act \<longleftrightarrow> (\<forall>x d. deck_apis d (act x d))"

text \<open>Every live row and its promise point at each other, under the id of the row's
  position and era.\<close>

definition row_ok :: "deck \<Rightarrow> nat \<Rightarrow> bool" where
  "row_ok d i = (let row = tasks d ! i in
     row_era row \<noteq> 0 \<and>
     (case row_state row of
        vacant \<Rightarrow> row_id row = 0 \<and> row_handle row = None \<and> row_promise row = None
      | live \<Rightarrow> Suc i \<le> max_index \<and> row_id row = task_make (of_nat (Suc i)) (row_era row)
          \<and> row_handle row \<noteq> None
          \<and> (case row_promise row of None \<Rightarrow> False
             | Some p \<Rightarrow> prom d p = \<lparr>pid = row_id row, pdeck = Some (this d)\<rparr>)))"

definition deck_inv :: "deck \<Rightarrow> bool" where
  "deck_inv d \<longleftrightarrow> (\<forall>i < length (tasks d). row_ok d i)
     \<and> (\<forall>p. pdeck (prom d p) = None \<longrightarrow> pid (prom d p) = 0)
     \<and> (\<forall>p. pdeck (prom d p) = Some (this d) \<longrightarrow>
          (\<exists>i < length (tasks d). row_state (tasks d ! i) = live \<and> row_promise (tasks d ! i) = Some p))"

section \<open>Task ids\<close>

lemma index_mask_eq: "index_mask = mask 24"
  by (simp add: index_mask_def mask_eq_exp_minus_1 push_bit_eq_mult)

lemma max_index_eq: "max_index = 2 ^ 24 - 1"
  by (simp add: max_index_def index_mask_def)

lemma task_index_make: "task_index (task_make x e) = x AND index_mask"
  unfolding task_index_def task_make_def index_mask_eq
  by (rule bit_word_eqI) (auto simp: bit_simps)

lemma task_era_make: "task_era (task_make x e) = e"
  unfolding task_era_def task_make_def index_mask_eq
  by (rule bit_word_eqI) (auto simp: bit_simps)

lemma unat_index_make:
  assumes "i \<le> max_index"
  shows "unat (task_index (task_make (of_nat i) e)) = i"
proof -
  have "unat (of_nat i AND mask 24 :: u32) = take_bit 24 (unat (of_nat i :: u32))"
    by (simp add: unsigned_take_bit_eq flip: take_bit_eq_mask)
  also have "\<dots> = i"
    using assms by (simp add: max_index_eq unat_of_nat take_bit_eq_mod)
  finally show ?thesis by (simp add: task_index_make index_mask_eq)
qed

lemma task_make_nonzero:
  "0 < i \<Longrightarrow> i \<le> max_index \<Longrightarrow> task_make (of_nat i) e \<noteq> 0"
  using unat_index_make [of i e] by (auto simp: task_index_def)

lemma task_make_inject:
  "i \<le> max_index \<Longrightarrow> j \<le> max_index \<Longrightarrow>
     task_make (of_nat i) e = task_make (of_nat j) f \<longleftrightarrow> i = j \<and> e = f"
  using unat_index_make [of i e] unat_index_make [of j f] task_era_make by metis

lemma next_era_nonzero: "next_era e \<noteq> 0"
  by (simp add: next_era_def)

text \<open>Eras count \<open>1, \<dots>, 255\<close> and start over.\<close>

lemma unat_next_era:
  "e \<noteq> 0 \<Longrightarrow> unat (next_era e) = unat e mod 255 + 1"
proof -
  assume "e \<noteq> 0"
  then have pos: "0 < unat e" by (simp add: unat_gt_0)
  have lt: "unat e < 256" using unsigned_less [of e, where ?'a = nat] by simp
  have suc: "unat (e + 1) = (unat e + 1) mod 256"
    by (simp add: unat_word_ariths)
  show ?thesis
  proof (cases "unat e = 255")
    case True
    then have "unat (e + 1) = 0" using suc by simp
    then have "e + 1 = 0" by (simp add: unat_eq_0)
    then show ?thesis using True by (simp add: next_era_def)
  next
    case False
    then have "unat (e + 1) = unat e + 1" using suc lt by simp
    moreover from this have "e + 1 \<noteq> 0" by (metis Suc_eq_plus1 nat.distinct(1) unat_0)
    ultimately show ?thesis using False lt pos by (simp add: next_era_def)
  qed
qed

lemma unat_next_era_pow:
  "e \<noteq> 0 \<Longrightarrow> unat ((next_era ^^ k) e) = (unat e - 1 + k) mod 255 + 1"
proof (induction k)
  case 0
  have "unat e < 256" using unsigned_less [of e, where ?'a = nat] by simp
  moreover have "0 < unat e" using 0 by (simp add: unat_gt_0)
  ultimately show ?case by simp
next
  case (Suc k)
  have nz: "(next_era ^^ k) e \<noteq> 0" using Suc.prems next_era_nonzero by (cases k) auto
  have "unat ((next_era ^^ Suc k) e) = unat ((next_era ^^ k) e) mod 255 + 1"
    using unat_next_era [OF nz] by simp
  also have "\<dots> = ((unat e - 1 + k) mod 255 + 1) mod 255 + 1" using Suc by simp
  also have "\<dots> = (unat e - 1 + Suc k) mod 255 + 1" by (simp add: mod_simps)
  finally show ?case .
qed

section \<open>The task table\<close>

declare first_vacant.simps [simp del]

lemma first_vacant_spec:
  "case first_vacant rows i of
     None \<Rightarrow> (\<forall>k. i \<le> k \<longrightarrow> k < length rows \<longrightarrow> row_state (rows ! k) = live)
   | Some j \<Rightarrow> i \<le> j \<and> j < length rows \<and> row_state (rows ! j) = vacant
       \<and> (\<forall>k. i \<le> k \<longrightarrow> k < j \<longrightarrow> row_state (rows ! k) = live)"
proof (induction rows i rule: first_vacant.induct)
  case (1 rows i)
  show ?case
  proof (cases "i < length rows \<and> row_state (rows ! i) \<noteq> vacant")
    case True
    then have l: "row_state (rows ! i) = live" by (cases "row_state (rows ! i)") auto
    from 1 True have IH: "case first_vacant rows (Suc i) of
        None \<Rightarrow> (\<forall>k. Suc i \<le> k \<longrightarrow> k < length rows \<longrightarrow> row_state (rows ! k) = live)
      | Some j \<Rightarrow> Suc i \<le> j \<and> j < length rows \<and> row_state (rows ! j) = vacant
          \<and> (\<forall>k. Suc i \<le> k \<longrightarrow> k < j \<longrightarrow> row_state (rows ! k) = live)" by blast
    have eq: "first_vacant rows i = first_vacant rows (Suc i)"
      using True by (subst first_vacant.simps) simp
    show ?thesis unfolding eq using IH l
      by (auto split: option.splits) (metis Suc_leI le_neq_implies_less)+
  next
    case False
    then show ?thesis by (subst first_vacant.simps) auto
  qed
qed


lemma first_vacant_Some:
  "first_vacant rows 0 = Some j \<Longrightarrow> j < length rows \<and> row_state (rows ! j) = vacant"
  using first_vacant_spec [of 0 rows] by simp

lemma deck_invD:
  assumes "deck_inv d" "i < length (tasks d)"
  shows "row_era (tasks d ! i) \<noteq> 0"
    "row_state (tasks d ! i) = live \<Longrightarrow> Suc i \<le> max_index
       \<and> row_id (tasks d ! i) = task_make (of_nat (Suc i)) (row_era (tasks d ! i))
       \<and> row_handle (tasks d ! i) \<noteq> None
       \<and> (\<exists>p. row_promise (tasks d ! i) = Some p \<and> pid (prom d p) = row_id (tasks d ! i)
            \<and> pdeck (prom d p) = Some (this d))"
    "row_state (tasks d ! i) = vacant \<Longrightarrow> row_promise (tasks d ! i) = None \<and> row_handle (tasks d ! i) = None"
  using assms by (auto simp: deck_inv_def row_ok_def Let_def split: option.splits)

lemma live_rowD:
  assumes "deck_inv d" "i < length (tasks d)" "row_state (tasks d ! i) = live" "row_promise (tasks d ! i) = Some p"
  shows "pid (prom d p) = row_id (tasks d ! i)" "pdeck (prom d p) = Some (this d)"
  using deck_invD(2) [OF assms(1-3)] assms(4) by auto

text \<open>Under the invariant an id resolves exactly when a live row carries it.\<close>

lemma resolve_Some:
  "resolve d i = Some k \<Longrightarrow> k < length (tasks d) \<and> row_state (tasks d ! k) = live \<and> row_id (tasks d ! k) = i"
  by (auto simp: resolve_def Let_def split: if_splits)

lemma resolve_row:
  assumes inv: "deck_inv d" and k: "k < length (tasks d)" "row_state (tasks d ! k) = live"
  shows "resolve d (row_id (tasks d ! k)) = Some k"
proof -
  note r = deck_invD(2) [OF inv k]
  then have "unat (task_index (row_id (tasks d ! k))) = Suc k" "row_id (tasks d ! k) \<noteq> 0"
    using unat_index_make [of "Suc k"] task_make_nonzero [of "Suc k"] by auto
  then show ?thesis using k by (simp add: resolve_def Let_def)
qed

lemma live_row_unique:
  assumes inv: "deck_inv d" and "i < length (tasks d)" "row_state (tasks d ! i) = live"
    "k < length (tasks d)" "row_state (tasks d ! k) = live"
    "row_promise (tasks d ! i) = Some p" "row_promise (tasks d ! k) = Some p"
  shows "i = k"
proof -
  have "row_id (tasks d ! i) = row_id (tasks d ! k)"
    using live_rowD(1) [OF inv assms(2,3,6)] live_rowD(1) [OF inv assms(4,5,7)] by simp
  then show ?thesis using resolve_row [OF inv] assms by (metis option.inject)
qed

lemma registered_row:
  assumes inv: "deck_inv d" and p: "pdeck (prom d p) = Some (this d)"
  obtains i where "i < length (tasks d)" "row_state (tasks d ! i) = live"
    "row_promise (tasks d ! i) = Some p" "pid (prom d p) = row_id (tasks d ! i)"
    "resolve d (pid (prom d p)) = Some i" "pid (prom d p) \<noteq> 0"
proof -
  obtain i where i: "i < length (tasks d)" "row_state (tasks d ! i) = live" "row_promise (tasks d ! i) = Some p"
    using inv p by (auto simp: deck_inv_def)
  then have "pid (prom d p) = row_id (tasks d ! i)" using live_rowD(1) [OF inv] by simp
  moreover have "row_id (tasks d ! i) \<noteq> 0"
    using deck_invD(2) [OF inv i(1,2)] task_make_nonzero [of "Suc i"] by simp
  ultimately show ?thesis using that i resolve_row [OF inv i(1,2)] by simp
qed

lemma row_ok_cong:
  "tasks d' ! i = tasks d ! i \<Longrightarrow> this d' = this d \<Longrightarrow>
   (\<And>p. row_promise (tasks d ! i) = Some p \<Longrightarrow> prom d' p = prom d p) \<Longrightarrow> row_ok d' i = row_ok d i"
  by (auto simp: row_ok_def Let_def split: option.splits deck_task_state.splits)

lemma deck_invI:
  assumes "\<And>i. i < length (tasks d) \<Longrightarrow> row_ok d i"
    and "\<And>p. pdeck (prom d p) = None \<Longrightarrow> pid (prom d p) = 0"
    and "\<And>p. pdeck (prom d p) = Some (this d) \<Longrightarrow>
      \<exists>i < length (tasks d). row_state (tasks d ! i) = live \<and> row_promise (tasks d ! i) = Some p"
  shows "deck_inv d"
  using assms by (simp add: deck_inv_def)

lemma deck_inv_rowD: "deck_inv d \<Longrightarrow> i < length (tasks d) \<Longrightarrow> row_ok d i"
  by (simp add: deck_inv_def)

lemma new_deck_inv: "deck_inv (new_deck addr capacity w)"
  by (auto simp: deck_inv_def row_ok_def new_deck_def fresh_row_def)

text \<open>Filling a vacant row for a promise no deck holds.\<close>

lemma allocate_row_inv:
  assumes inv: "deck_inv d" and p: "pdeck (prom d p) = None"
  shows "deck_inv (snd (allocate_row d h p))"
proof (cases "first_vacant (tasks d) 0")
  case None
  then show ?thesis using inv by (simp add: allocate_row_def)
next
  case (Some i)
  note v = first_vacant_Some [OF Some]
  show ?thesis
  proof (cases "i + 1 > max_index")
    case True
    then show ?thesis using inv Some by (simp add: allocate_row_def)
  next
    case False
    let ?row = "tasks d ! i"
    let ?tid = "task_make (of_nat (i + 1)) (row_era ?row)"
    let ?d = "d\<lparr>tasks := (tasks d)[i := ?row\<lparr>row_id := ?tid, row_handle := Some h,
                 row_promise := Some p, row_state := live\<rparr>],
               prom := (prom d)(p := \<lparr>pid = ?tid, pdeck = Some (this d)\<rparr>)\<rparr>"
    have res: "snd (allocate_row d h p) = ?d" using Some False by (simp add: allocate_row_def Let_def)
    have "row_ok ?d k" if k: "k < length (tasks d)" for k
    proof (cases "k = i")
      case True
      then show ?thesis using v False deck_invD(1) [OF inv k] by (simp add: row_ok_def Let_def)
    next
      case False
      have "row_promise (tasks d ! k) \<noteq> Some p"
        using live_rowD(2) [OF inv k] deck_invD(3) [OF inv k] p
        by (cases "row_state (tasks d ! k)") auto
      then have "row_ok ?d k = row_ok d k" using False by (intro row_ok_cong) auto
      then show ?thesis using deck_inv_rowD [OF inv k] by simp
    qed
    moreover have "\<exists>k < length (tasks d). row_state (tasks ?d ! k) = live \<and> row_promise (tasks ?d ! k) = Some q"
      if own: "pdeck (prom ?d q) = Some (this d)" for q
    proof (cases "q = p")
      case True
      then show ?thesis using v by (intro exI [of _ i]) simp
    next
      case False
      then obtain k where k: "k < length (tasks d)" "row_state (tasks d ! k) = live" "row_promise (tasks d ! k) = Some q"
        using own inv by (auto simp: deck_inv_def)
      then show ?thesis using v by (intro exI [of _ k]) (auto simp: nth_list_update)
    qed
    moreover have "pid (prom ?d q) = 0" if "pdeck (prom ?d q) = None" for q
      using that inv by (auto simp: deck_inv_def split: if_splits)
    ultimately show ?thesis unfolding res by (intro deck_invI) auto
  qed
qed

lemma register_task_cases:
  assumes inv: "deck_inv d"
  shows "(pdeck (prom d p) = None \<and> register_task d (Some h) (Some p) = allocate_row d h p)
    \<or> (pdeck (prom d p) \<noteq> None \<and> pdeck (prom d p) \<noteq> Some (this d)
        \<and> register_task d (Some h) (Some p) = (Inl DifferentDeck, d))
    \<or> (\<exists>i. pdeck (prom d p) = Some (this d) \<and> resolve d (pid (prom d p)) = Some i
        \<and> row_promise (tasks d ! i) = Some p \<and> pid (prom d p) \<noteq> 0
        \<and> register_task d (Some h) (Some p) = (Inr (pid (prom d p)),
             d\<lparr>tasks := (tasks d)[i := (tasks d ! i)\<lparr>row_handle := Some h\<rparr>]\<rparr>))"
proof (cases "pdeck (prom d p) = Some (this d)")
  case True
  from registered_row [OF inv this] obtain i where
    "row_promise (tasks d ! i) = Some p" "resolve d (pid (prom d p)) = Some i" "pid (prom d p) \<noteq> 0" .
  with True show ?thesis by (simp add: register_task_def)
next
  case False
  then show ?thesis using inv by (cases "pdeck (prom d p)") (auto simp: register_task_def deck_inv_def)
qed

lemma set_handle_inv:
  assumes inv: "deck_inv d" and i: "i < length (tasks d)" "row_state (tasks d ! i) = live"
  shows "deck_inv (d\<lparr>tasks := (tasks d)[i := (tasks d ! i)\<lparr>row_handle := Some h\<rparr>]\<rparr>)" (is "deck_inv ?d")
proof (rule deck_invI)
  fix k assume k: "k < length (tasks ?d)"
  show "row_ok ?d k"
  proof (cases "k = i")
    case True
    then show ?thesis using deck_inv_rowD [OF inv i(1)] i by (simp add: row_ok_def Let_def split: option.splits)
  next
    case False
    then have "row_ok ?d k = row_ok d k" by (intro row_ok_cong) auto
    then show ?thesis using deck_inv_rowD [OF inv] k by simp
  qed
next
  fix p assume "pdeck (prom ?d p) = Some (this ?d)"
  then obtain k where "k < length (tasks d)" "row_state (tasks d ! k) = live" "row_promise (tasks d ! k) = Some p"
    using inv by (auto simp: deck_inv_def)
  then show "\<exists>k < length (tasks ?d). row_state (tasks ?d ! k) = live \<and> row_promise (tasks ?d ! k) = Some p"
    using i by (intro exI [of _ k]) (auto simp: nth_list_update)
qed (use inv in \<open>auto simp: deck_inv_def\<close>)

lemma register_task_inv: "deck_inv d \<Longrightarrow> deck_inv (snd (register_task d handle promise))"
proof (cases "handle = None \<or> promise = None")
  case False
  assume inv: "deck_inv d"
  from False obtain h p where "handle = Some h" "promise = Some p" by auto
  with register_task_cases [OF inv, of p h] inv show ?thesis
    using allocate_row_inv [OF inv] set_handle_inv [OF inv] resolve_Some [of d] by fastforce
qed (auto simp: register_task_def split: option.splits)

lemma row_ok_frame [simp]:
  "row_ok (d\<lparr>ready := r\<rparr>) i = row_ok d i" "row_ok (d\<lparr>hdone := f\<rparr>) i = row_ok d i"
  "row_ok (d\<lparr>current := c\<rparr>) i = row_ok d i" "row_ok (d\<lparr>resumed := l\<rparr>) i = row_ok d i"
  "row_ok (d\<lparr>wand := w\<rparr>) i = row_ok d i"
  by (rule row_ok_cong; simp)+

lemma deck_inv_frame [simp]:
  "deck_inv (d\<lparr>ready := r\<rparr>) = deck_inv d" "deck_inv (d\<lparr>hdone := f\<rparr>) = deck_inv d"
  "deck_inv (d\<lparr>current := c\<rparr>) = deck_inv d" "deck_inv (d\<lparr>resumed := l\<rparr>) = deck_inv d"
  "deck_inv (d\<lparr>wand := w\<rparr>) = deck_inv d"
  by (simp_all add: deck_inv_def)

lemma enqueue_inv: "deck_inv d \<Longrightarrow> deck_inv (snd (enqueue d handle promise))"
  using register_task_inv [of d handle promise]
  by (auto simp: enqueue_def split: prod.splits sum.splits)

lemma unregister_inv:
  assumes inv: "deck_inv d"
  shows "deck_inv (unregister_from_deck d p)"
proof (cases "pdeck (prom d p) = Some (this d)")
  case True
  from registered_row [OF inv this] obtain i where i: "i < length (tasks d)" "row_state (tasks d ! i) = live"
    "row_promise (tasks d ! i) = Some p" "resolve d (pid (prom d p)) = Some i" .
  let ?d = "d\<lparr>tasks := (tasks d)[i := \<lparr>row_id = 0, row_handle = None, row_promise = None,
        row_state = vacant, row_era = next_era (row_era (tasks d ! i))\<rparr>],
      prom := (prom d)(p := \<lparr>pid = 0, pdeck = None\<rparr>)\<rparr>"
  have res: "unregister_from_deck d p = ?d"
    using True i by (simp add: unregister_from_deck_def unregister_task_def Let_def)
  have "row_ok ?d k" if k: "k < length (tasks d)" for k
  proof (cases "k = i")
    case True
    then show ?thesis using i next_era_nonzero by (simp add: row_ok_def Let_def)
  next
    case False
    have "row_promise (tasks d ! k) \<noteq> Some p"
      using live_row_unique [OF inv k _ i(1,2) _ i(3)] deck_invD(3) [OF inv k] False
      by (cases "row_state (tasks d ! k)") auto
    then have "row_ok ?d k = row_ok d k" using False by (intro row_ok_cong) auto
    then show ?thesis using deck_inv_rowD [OF inv k] by simp
  qed
  moreover have "\<exists>k < length (tasks d). row_state (tasks ?d ! k) = live \<and> row_promise (tasks ?d ! k) = Some q"
    if own: "pdeck (prom ?d q) = Some (this d)" for q
  proof -
    have "q \<noteq> p" using own by auto
    then obtain k where k: "k < length (tasks d)" "row_state (tasks d ! k) = live" "row_promise (tasks d ! k) = Some q"
      using own inv by (auto simp: deck_inv_def)
    then show ?thesis using i \<open>q \<noteq> p\<close> by (intro exI [of _ k]) (auto simp: nth_list_update)
  qed
  moreover have "pid (prom ?d q) = 0" if "pdeck (prom ?d q) = None" for q
    using that inv by (auto simp: deck_inv_def split: if_splits)
  ultimately show ?thesis unfolding res by (intro deck_invI) auto
qed (use inv in \<open>simp add: unregister_from_deck_def\<close>)

lemma other_deck_inv:
  assumes inv: "deck_inv d" and "pdeck (prom d p) \<noteq> Some (this d)" "pdeck q \<noteq> Some (this d)"
    "pdeck q = None \<Longrightarrow> pid q = 0"
  shows "deck_inv (d\<lparr>prom := (prom d)(p := q)\<rparr>)"
proof (rule deck_invI)
  fix k assume k: "k < length (tasks (d\<lparr>prom := (prom d)(p := q)\<rparr>))"
  then have "row_promise (tasks d ! k) \<noteq> Some p"
    using live_rowD(2) [OF inv, of k p] deck_invD(3) [OF inv, of k] assms(2)
    by (cases "row_state (tasks d ! k)") auto
  then have "row_ok (d\<lparr>prom := (prom d)(p := q)\<rparr>) k = row_ok d k" by (intro row_ok_cong) auto
  then show "row_ok (d\<lparr>prom := (prom d)(p := q)\<rparr>) k" using deck_inv_rowD [OF inv, of k] k by simp
qed (use assms inv in \<open>auto simp: deck_inv_def split: if_splits\<close>)

lemma deck_api_inv: "deck_api d d' \<Longrightarrow> deck_inv d \<Longrightarrow> deck_inv d'"
  by (induction rule: deck_api.induct) (simp_all add: enqueue_inv unregister_inv other_deck_inv set_wand_def)

lemma deck_apis_inv: "deck_apis d d' \<Longrightarrow> deck_inv d \<Longrightarrow> deck_inv d'"
  by (induction rule: rtranclp_induct) (auto intro: deck_api_inv)



section \<open>The pump\<close>

text \<open>The api never rewrites the trace of resumed ids and only appends to the ready queue.\<close>

lemma deck_api_frame:
  "deck_api d d' \<Longrightarrow> resumed d' = resumed d \<and> current d' = current d
     \<and> this d' = this d \<and> length (tasks d') = length (tasks d) \<and> (\<exists>q. ready d' = ready d @ q)"
proof (induction rule: deck_api.induct)
  case (api_enqueue d handle promise)
  then show ?case
    by (auto simp: enqueue_def register_task_def allocate_row_def Let_def split: prod.splits sum.splits option.splits if_splits)
next
  case (api_destroy d p)
  then show ?case
    by (auto simp: unregister_from_deck_def unregister_task_def Let_def split: option.splits)
qed (auto simp: set_wand_def)

lemma deck_apis_frame:
  "deck_apis d d' \<Longrightarrow> resumed d' = resumed d \<and> current d' = current d
     \<and> this d' = this d \<and> length (tasks d') = length (tasks d) \<and> (\<exists>q. ready d' = ready d @ q)"
  by (induction rule: rtranclp_induct) (auto dest: deck_api_frame)

lemma resume_if_ready_frame:
  assumes "api_only resume"
  shows "(resumed (resume_if_ready resume i d) = resumed d
      \<or> resumed (resume_if_ready resume i d) = resumed d @ [i])
    \<and> current (resume_if_ready resume i d) = current d
    \<and> (\<exists>q. ready (resume_if_ready resume i d) = ready d @ q)"
proof -
  have "deck_apis d' (resume h d')" for h d' using assms by (simp add: api_only_def)
  note f = deck_apis_frame [OF this]
  have "\<exists>q. ready (resume h (d\<lparr>current := c, resumed := l\<rparr>)) = ready d @ q" for h c l
    using f [of h "d\<lparr>current := c, resumed := l\<rparr>"] by simp
  with f show ?thesis by (auto simp: resume_if_ready_def split: option.splits)
qed

lemma resume_if_ready_inv:
  assumes "api_only resume" "deck_inv d"
  shows "deck_inv (resume_if_ready resume i d)"
proof -
  have "deck_apis d' (resume h d')" for h d' using assms by (simp add: api_only_def)
  from deck_apis_inv [OF this] assms(2) show ?thesis
    by (auto simp: resume_if_ready_def split: option.splits)
qed

lemma round_inv:
  "api_only resume \<Longrightarrow> deck_inv d \<Longrightarrow> deck_inv (fold (resume_if_ready resume) is d)"
  by (induction "is" arbitrary: d) (auto simp: resume_if_ready_inv)

lemma round_frame:
  assumes "api_only resume"
  shows "(\<exists>ks. resumed (fold (resume_if_ready resume) is d) = resumed d @ ks \<and> subseq ks is)
    \<and> current (fold (resume_if_ready resume) is d) = current d
    \<and> (\<exists>q. ready (fold (resume_if_ready resume) is d) = ready d @ q)"
proof (induction "is" arbitrary: d)
  case Nil
  then show ?case by simp
next
  case (Cons i "is")
  let ?d = "resume_if_ready resume i d"
  from Cons [of ?d] obtain ks q where ks: "resumed (fold (resume_if_ready resume) is ?d) = resumed ?d @ ks"
    "subseq ks is" "current (fold (resume_if_ready resume) is ?d) = current ?d"
    "ready (fold (resume_if_ready resume) is ?d) = ready ?d @ q" by blast
  from resume_if_ready_frame [OF assms, of i d] obtain q' where f:
    "resumed ?d = resumed d \<or> resumed ?d = resumed d @ [i]" "current ?d = current d" "ready ?d = ready d @ q'" by blast
  from f(1) have "\<exists>ks'. resumed (fold (resume_if_ready resume) is ?d) = resumed d @ ks' \<and> subseq ks' (i # is)"
    using ks(1,2) by auto
  with ks(3,4) f(2,3) show ?case by simp
qed

text \<open>The ids a round resumes: at its turn an id must name a live task with an unfinished
  coroutine.\<close>

definition resumable :: "deck \<Rightarrow> u32 \<Rightarrow> bool" where
  "resumable d i =
     (case resolve d i of
        None \<Rightarrow> False
      | Some k \<Rightarrow> (case row_handle (tasks d ! k) of None \<Rightarrow> False | Some h \<Rightarrow> \<not> hdone d h))"

fun turns :: "(nat \<Rightarrow> deck \<Rightarrow> deck) \<Rightarrow> u32 list \<Rightarrow> deck \<Rightarrow> u32 list" where
  "turns resume [] d = []"
| "turns resume (i # is) d = (if resumable d i then [i] else []) @ turns resume is (resume_if_ready resume i d)"

lemma turns_subseq: "subseq (turns resume is d) is"
  by (induction "is" arbitrary: d) auto

lemma resume_if_ready_resumed:
  assumes "api_only resume"
  shows "resumed (resume_if_ready resume i d) = resumed d @ (if resumable d i then [i] else [])"
proof -
  have "deck_apis d' (resume h d')" for h d' using assms by (simp add: api_only_def)
  from deck_apis_frame [OF this] show ?thesis by (simp add: resume_if_ready_def resumable_def split: option.split)
qed

lemma round_resumed:
  "api_only resume \<Longrightarrow> resumed (fold (resume_if_ready resume) is d) = resumed d @ turns resume is d"
  by (induction "is" arbitrary: d) (simp_all add: resume_if_ready_resumed)

lemma run_ready_resumed:
  assumes "api_only resume" "api_only wave" "current d = None"
  obtains d' where "run_ready resume wave d = Inr d'" "current d' = None"
    "resumed d' = resumed d @ turns resume (ready d) (d\<lparr>ready := []\<rparr>)"
proof -
  let ?r = "fold (resume_if_ready resume) (ready d) (d\<lparr>ready := []\<rparr>)"
  have run: "run_ready resume wave d = Inr (case wand ?r of None \<Rightarrow> ?r | Some w \<Rightarrow> wave w ?r)"
    using assms(3) by (simp add: run_ready_def run_ready_with_def)
  have "deck_apis d' (wave w d')" for w d' using assms(2) by (simp add: api_only_def)
  from deck_apis_frame [OF this] have w:
    "resumed (wave w d') = resumed d' \<and> current (wave w d') = current d'" for w d' by simp
  have "resumed ?r = resumed d @ turns resume (ready d) (d\<lparr>ready := []\<rparr>)" "current ?r = None"
    using round_resumed [OF assms(1), of "ready d" "d\<lparr>ready := []\<rparr>"]
      round_frame [OF assms(1), of "ready d" "d\<lparr>ready := []\<rparr>"] assms(3) by simp_all
  with that run w show thesis by (cases "wand ?r") auto
qed

text \<open>A task that waits: its id resolves to a row with this promise and this unfinished coroutine.\<close>

definition waits :: "deck \<Rightarrow> u32 \<Rightarrow> nat \<Rightarrow> nat \<Rightarrow> bool" where
  "waits d i h p \<longleftrightarrow> (case resolve d i of None \<Rightarrow> False
     | Some k \<Rightarrow> row_handle (tasks d ! k) = Some h \<and> row_promise (tasks d ! k) = Some p \<and> \<not> hdone d h)"

lemma waits_resumable: "waits d i h p \<Longrightarrow> resumable d i"
  by (auto simp: waits_def resumable_def split: option.splits)

lemma waits_frame: "waits (d\<lparr>current := c, resumed := l\<rparr>) i h p = waits d i h p" "waits (d\<lparr>current := c\<rparr>) i h p = waits d i h p"
  "waits (d\<lparr>ready := q\<rparr>) i h p = waits d i h p"
  by (simp_all add: waits_def resolve_def Let_def)

lemma other_turn_waits:
  assumes inv: "deck_inv d" and w: "waits d i h p" and "j \<noteq> i"
    and spared: "\<And>x d'. current d' \<noteq> Some p \<Longrightarrow> waits d' i h p \<Longrightarrow> waits (resume x d') i h p"
  shows "waits (resume_if_ready resume j d) i h p"
proof (cases "resolve d j")
  case (Some k)
  obtain l where l: "resolve d i = Some l" "row_promise (tasks d ! l) = Some p" using w by (auto simp: waits_def split: option.splits)
  have "row_promise (tasks d ! k) \<noteq> Some p"
    using live_row_unique [OF inv, of k l p] resolve_Some [OF Some] resolve_Some [OF l(1)] l(2) assms(3) by auto
  then show ?thesis using spared [of "d\<lparr>current := row_promise (tasks d ! k), resumed := resumed d @ [j]\<rparr>"] w Some
    by (auto simp: resume_if_ready_def waits_frame split: option.split)
qed (use w in \<open>simp add: resume_if_ready_def\<close>)

lemma waiting_turn:
  assumes "api_only resume"
    and spared: "\<And>x d'. current d' \<noteq> Some p \<Longrightarrow> waits d' i h p \<Longrightarrow> waits (resume x d') i h p"
  shows "deck_inv d \<Longrightarrow> waits d i h p \<Longrightarrow> i \<in> set is \<Longrightarrow> i \<in> set (turns resume is d)"
proof (induction "is" arbitrary: d)
  case (Cons j "is")
  show ?case
  proof (cases "j = i")
    case True
    then show ?thesis using waits_resumable [OF Cons.prems(2)] by simp
  next
    case False
    then show ?thesis using Cons.IH [OF resume_if_ready_inv [OF assms(1) Cons.prems(1)]
          other_turn_waits [OF Cons.prems(1,2) False, of resume, OF spared]] Cons.prems(3) by auto
  qed
qed simp

text \<open>Activity through the interface in which row \<open>r\<close> is freed \<open>n\<close> times.\<close>

inductive row_history :: "nat \<Rightarrow> nat \<Rightarrow> deck \<Rightarrow> deck \<Rightarrow> bool" for r where
  history_start: "row_history r 0 d d"
| history_step: "row_history r n d d' \<Longrightarrow> deck_api d' d'' \<Longrightarrow>
    row_history r (if row_state (tasks d' ! r) = live \<and> row_state (tasks d'' ! r) = vacant then Suc n else n) d d''"

lemma era_period: "e \<noteq> 0 \<Longrightarrow> (next_era ^^ k) e = e \<longleftrightarrow> 255 dvd k"
proof -
  assume e: "e \<noteq> 0"
  have b: "0 < unat e" "unat e - 1 < 255"
    using e unsigned_less [of e, where ?'a = nat] by (simp_all add: unat_gt_0)
  have "(next_era ^^ k) e = e \<longleftrightarrow> unat ((next_era ^^ k) e) = unat e" by (simp add: word_unat_eq_iff)
  also have "\<dots> \<longleftrightarrow> (unat e - 1 + k) mod 255 + 1 = unat e" by (simp only: unat_next_era_pow [OF e])
  also have "\<dots> \<longleftrightarrow> (unat e - 1 + k) mod 255 = unat e - 1" using b(1) by (cases "unat e") auto
  also have "\<dots> \<longleftrightarrow> (unat e - 1 + k) mod 255 = (unat e - 1) mod 255" using b by simp
  also have "\<dots> \<longleftrightarrow> 255 dvd k" using mod_eq_dvd_iff_nat [of "unat e - 1" "unat e - 1 + k" 255] by simp
  finally show ?thesis .
qed

text \<open>A step frees a row and moves its era on, or keeps the era; it renames no row that stays live.\<close>

lemma allocate_row_row:
  assumes "r < length (tasks d)"
  shows "row_era (tasks (snd (allocate_row d h p)) ! r) = row_era (tasks d ! r)
    \<and> (row_state (tasks d ! r) = live \<longrightarrow> tasks (snd (allocate_row d h p)) ! r = tasks d ! r)"
  using first_vacant_Some [of "tasks d"] assms
  by (auto simp: allocate_row_def Let_def nth_list_update split: option.splits)

lemma register_task_row:
  assumes inv: "deck_inv d" and r: "r < length (tasks d)"
  shows "row_era (tasks (snd (register_task d handle promise)) ! r) = row_era (tasks d ! r)
    \<and> (row_state (tasks d ! r) = live \<longrightarrow> row_state (tasks (snd (register_task d handle promise)) ! r) = live
         \<and> row_id (tasks (snd (register_task d handle promise)) ! r) = row_id (tasks d ! r))"
proof (cases "handle = None \<or> promise = None")
  case False
  then obtain h p where "handle = Some h" "promise = Some p" by auto
  then show ?thesis using register_task_cases [OF inv, of p h] allocate_row_row [OF r, of h p] r
    by (auto simp: nth_list_update_if)
qed (auto simp: register_task_def split: option.splits)

lemma api_row:
  assumes "deck_api d d'" "deck_inv d" "r < length (tasks d)"
  shows "(if row_state (tasks d ! r) = live \<and> row_state (tasks d' ! r) = vacant
      then row_era (tasks d' ! r) = next_era (row_era (tasks d ! r))
      else row_era (tasks d' ! r) = row_era (tasks d ! r)
        \<and> (row_state (tasks d ! r) = live \<longrightarrow> row_state (tasks d' ! r) = live \<and> row_id (tasks d' ! r) = row_id (tasks d ! r)))"
  using assms
proof (induction rule: deck_api.induct)
  case (api_enqueue d handle promise)
  have "tasks (snd (enqueue d handle promise)) = tasks (snd (register_task d handle promise))"
    by (auto simp: enqueue_def split: prod.splits sum.splits)
  then show ?case using register_task_row [OF api_enqueue, of handle promise] by auto
next
  case (api_destroy d p)
  show ?case
  proof (cases "pdeck (prom d p) = Some (this d)")
    case True
    from registered_row [OF api_destroy(1) True] obtain i where i: "i < length (tasks d)" "row_state (tasks d ! i) = live"
      "row_promise (tasks d ! i) = Some p" "resolve d (pid (prom d p)) = Some i" .
    then show ?thesis using True api_destroy(2)
      by (auto simp: unregister_from_deck_def unregister_task_def Let_def nth_list_update)
  qed (auto simp: unregister_from_deck_def)
qed (auto simp: set_wand_def)

lemma row_history_row:
  assumes "row_history r n d d'" "deck_inv d" "r < length (tasks d)"
  shows "deck_inv d' \<and> length (tasks d') = length (tasks d)
    \<and> row_era (tasks d' ! r) = (next_era ^^ n) (row_era (tasks d ! r))
    \<and> (n = 0 \<longrightarrow> row_state (tasks d ! r) = live \<longrightarrow>
        row_state (tasks d' ! r) = live \<and> row_id (tasks d' ! r) = row_id (tasks d ! r))"
  using assms
proof (induction rule: row_history.induct)
  case (history_step n d d' d'')
  then show ?case
    using api_row [OF history_step(2), of r] deck_api_inv [OF history_step(2)] deck_api_frame [OF history_step(2)]
    by (auto split: if_splits)
qed simp

section \<open>Properties\<close>

text \<open>C1. The task table's invariant (every live row and its promise point at each other,
  under the id made of the row's index and era) holds after any round of the pump,
  whatever the resumed coroutines and the wand do through the deck's interface, and
  after any such activity outside a round.\<close>

theorem deck_invariant_preserved:
  assumes "deck_inv d" "api_only resume" "api_only wave" "deck_apis d d1" "run_ready resume wave d1 = Inr d2"
  shows "deck_inv d1 \<and> deck_inv d2"
proof -
  have 1: "deck_inv d1" using assms(1,4) deck_apis_inv by blast
  have "deck_apis d' (wave w d')" for w d' using assms(3) by (simp add: api_only_def)
  with 1 assms(5) show ?thesis
    using round_inv [OF assms(2), of "d1\<lparr>ready := []\<rparr>" "ready d1"] deck_apis_inv
    by (auto simp: run_ready_def run_ready_with_def split: sum.splits if_splits option.splits)
qed

lemma api_only_finish: "api_only (\<lambda>h d. d\<lparr>hdone := (hdone d)(h := True)\<rparr>)"
  by (auto simp: api_only_def intro: api_finish)

theorem deck_invariant_preserved_witness:
  "deck_inv (new_deck 9 4 None) \<and>
   deck_inv (the (case run_ready (\<lambda>h d. d\<lparr>hdone := (hdone d)(h := True)\<rparr>) (\<lambda>w d. d)
     (snd (enqueue (new_deck 9 4 None) (Some 20) (Some 30))) of Inl _ \<Rightarrow> None | Inr d \<Rightarrow> Some d))"
proof -
  let ?f = "\<lambda>h d. d\<lparr>hdone := (hdone d)(h := True)\<rparr>" and ?g = "\<lambda>w d :: deck. d"
  let ?d = "snd (enqueue (new_deck 9 4 None) (Some 20) (Some 30))"
  have "current ?d = None"
    using deck_api_frame [OF api_enqueue, of "new_deck 9 4 None" "Some 20" "Some 30"] by (simp add: new_deck_def)
  then obtain d2 where d2: "run_ready ?f ?g ?d = Inr d2"
    by (auto simp: run_ready_def run_ready_with_def)
  have "deck_inv ?d \<and> deck_inv d2"
    by (rule deck_invariant_preserved [OF new_deck_inv api_only_finish _ _ d2])
      (auto simp: api_only_def intro: api_enqueue)
  with d2 new_deck_inv show ?thesis by simp
qed

text \<open>C2. One round resumes exactly the tasks of the queue as it was at the start, in queue order,
  that are still registered and unfinished when their turn comes, and nothing that was
  queued during the round: the trace of resumed ids grows by that subsequence of the
  queue.  Called from inside a task the pump throws.\<close>

theorem run_ready_round_order:
  assumes "api_only resume" "api_only wave"
  shows "case run_ready resume wave d of
      Inl e \<Rightarrow> e = NotReentrant \<and> current d \<noteq> None
    | Inr d' \<Rightarrow> current d = None \<and> current d' = None
        \<and> (\<exists>ks. resumed d' = resumed d @ ks \<and> ks = turns resume (ready d) (d\<lparr>ready := []\<rparr>) \<and> subseq ks (ready d))"
proof (cases "current d = None")
  case True
  from run_ready_resumed [OF assms this] obtain d' where "run_ready resume wave d = Inr d'" "current d' = None"
    "resumed d' = resumed d @ turns resume (ready d) (d\<lparr>ready := []\<rparr>)" .
  then show ?thesis using True turns_subseq by simp
next
  case False
  then show ?thesis by (simp add: run_ready_def run_ready_with_def)
qed

theorem run_ready_round_order_witness:
  "case run_ready (\<lambda>h d. d\<lparr>hdone := (hdone d)(h := True)\<rparr>) (\<lambda>w d. d) (new_deck 9 4 None) of
      Inl e \<Rightarrow> False | Inr d' \<Rightarrow> current d' = None \<and> resumed d' = []"
  using run_ready_round_order [of "\<lambda>h d. d\<lparr>hdone := (hdone d)(h := True)\<rparr>" "\<lambda>w d. d" "new_deck 9 4 None", OF api_only_finish]
  by (simp add: api_only_def new_deck_def split: sum.splits)

text \<open>C3. No queued task is passed over: a task that waits in the queue, and that no other task
  destroys or finishes while it runs, is resumed in the next round.\<close>

theorem queued_task_resumed:
  assumes "deck_inv d" "api_only resume" "api_only wave" "current d = None"
    and "i \<in> set (ready d)" "waits d i h p"
    and "\<And>x d'. current d' \<noteq> Some p \<Longrightarrow> waits d' i h p \<Longrightarrow> waits (resume x d') i h p"
  shows "\<exists>d'. run_ready resume wave d = Inr d' \<and> i \<in> set (drop (length (resumed d)) (resumed d'))"
proof -
  obtain d' where d': "run_ready resume wave d = Inr d'"
    "resumed d' = resumed d @ turns resume (ready d) (d\<lparr>ready := []\<rparr>)"
    using run_ready_resumed [OF assms(2,3,4)] by metis
  have "deck_inv (d\<lparr>ready := []\<rparr>)" using assms(1) by simp
  from waiting_turn [OF assms(2,7) this _ assms(5)] have "i \<in> set (turns resume (ready d) (d\<lparr>ready := []\<rparr>))"
    using assms(6) by (simp add: waits_frame)
  with d' show ?thesis by simp
qed

theorem queued_task_resumed_witness:
  "\<exists>d'. run_ready (\<lambda>h d. d) (\<lambda>w d. d) (snd (enqueue (new_deck 9 4 None) (Some 20) (Some 30))) = Inr d' \<and> resumed d' \<noteq> []"
proof -
  let ?d = "snd (enqueue (new_deck 9 4 None) (Some 20) (Some 30))"
  let ?i = "task_make 1 1 :: u32"
  have f: "first_vacant (replicate 4 fresh_row) 0 = Some 0" by (subst first_vacant.simps) (simp add: fresh_row_def)
  have n: "?i \<noteq> 0" using task_make_nonzero [of 1 1] by (simp add: max_index_eq)
  have e: "enqueue (new_deck 9 4 None) (Some 20) (Some 30) = (Inr ?i, (new_deck 9 4 None)\<lparr>tasks := (replicate 4 fresh_row)
      [0 := fresh_row\<lparr>row_id := ?i, row_handle := Some 20, row_promise := Some 30, row_state := live\<rparr>],
      prom := (prom (new_deck 9 4 None))(30 := \<lparr>pid = ?i, pdeck = Some 9\<rparr>), ready := [?i]\<rparr>)"
    using f n by (simp add: enqueue_def register_task_def allocate_row_def new_deck_def Let_def max_index_eq fresh_row_def)
  have inv: "deck_inv ?d" using enqueue_inv [OF new_deck_inv] by simp
  have "resolve ?d (row_id (tasks ?d ! 0)) = Some 0" by (rule resolve_row [OF inv]) (simp_all add: e)
  moreover have nd: "hdone (new_deck 9 4 None) = (\<lambda>_. False)" "current (new_deck 9 4 None) = None" "resumed (new_deck 9 4 None) = []"
    by (simp_all add: new_deck_def)
  ultimately have w: "waits ?d ?i 20 30" by (simp add: waits_def e)
  have "\<exists>d'. run_ready (\<lambda>h d. d) (\<lambda>w d. d) ?d = Inr d' \<and> ?i \<in> set (drop (length (resumed ?d)) (resumed d'))"
    by (rule queued_task_resumed [OF inv _ _ _ _ w]) (simp_all add: api_only_def e nd)
  then show ?thesis by (auto simp: e)
qed



text \<open>C7. Stale ids.  Take the id of a registered task and any later activity through the interface of the deck, in which
  the row of the task is freed \<open>n\<close> times.  While the row is not freed the id names it; once it is, the id names nothing,
  whatever tasks the row holds since, as long as it is freed fewer than 255 times: then the 8-bit era comes round.\<close>

theorem stale_id_unresolved:
  assumes "deck_inv d" "pdeck (prom d p) = Some (this d)" "resolve d (pid (prom d p)) = Some r"
    and "row_history r n d d'" "n < 255"
  shows "resolve d' (pid (prom d p)) = (if n = 0 then Some r else None)"
proof -
  note r = resolve_Some [OF assms(3)]
  from row_history_row [OF assms(4,1)] r have inv': "deck_inv d'" and len: "length (tasks d') = length (tasks d)"
    and era: "row_era (tasks d' ! r) = (next_era ^^ n) (row_era (tasks d ! r))"
    and same: "n = 0 \<Longrightarrow> row_state (tasks d' ! r) = live \<and> row_id (tasks d' ! r) = pid (prom d p)" by auto
  have id: "pid (prom d p) = task_make (of_nat (Suc r)) (row_era (tasks d ! r))" "Suc r \<le> max_index"
    using deck_invD(2) [OF assms(1)] r by auto
  show ?thesis
  proof (cases "n = 0")
    case True
    then show ?thesis using resolve_row [OF inv', of r] same r len by simp
  next
    case False
    have "resolve d' (pid (prom d p)) = None"
    proof (rule ccontr)
      assume "resolve d' (pid (prom d p)) \<noteq> None"
      then obtain k where k: "resolve d' (pid (prom d p)) = Some k" by blast
      note kk = resolve_Some [OF k]
      then have "pid (prom d p) = task_make (of_nat (Suc k)) (row_era (tasks d' ! k))" "Suc k \<le> max_index"
        using deck_invD(2) [OF inv', of k] by auto
      then have "k = r" "row_era (tasks d' ! k) = row_era (tasks d ! r)" using task_make_inject [OF id(2), of "Suc k"] id(1) by auto
      then have "(next_era ^^ n) (row_era (tasks d ! r)) = row_era (tasks d ! r)" using era by simp
      then have "255 dvd n" using era_period deck_invD(1) [OF assms(1)] r by blast
      then show False using False assms(5) by (auto dest: dvd_imp_le)
    qed
    then show ?thesis using False by simp
  qed
qed

theorem stale_id_unresolved_witness:
  "\<exists>d2. deck_apis (new_deck 9 (Suc 0) None) d2 \<and> resolve d2 (task_make 1 1) = None \<and> resolve d2 (task_make 1 2) = Some 0"
proof -
  let ?d = "new_deck 9 (Suc 0) None"
  let ?d1 = "snd (enqueue ?d (Some 20) (Some 30))"
  let ?d2 = "unregister_from_deck ?d1 30"
  let ?d3 = "snd (enqueue ?d2 (Some 21) (Some 31))"
  have vac: "first_vacant [r] 0 = Some 0" if "row_state r = vacant" for r using that by (subst first_vacant.simps) simp
  have nz: "task_make 1 1 \<noteq> 0" "task_make 1 2 \<noteq> 0" using task_make_nonzero [of 1 1] task_make_nonzero [of 1 2] by (simp_all add: max_index_eq)
  have e1: "tasks ?d1 = [\<lparr>row_id = task_make 1 1, row_handle = Some 20, row_promise = Some 30, row_state = live, row_era = 1\<rparr>]"
    "prom ?d1 = (\<lambda>_. \<lparr>pid = 0, pdeck = None\<rparr>)(30 := \<lparr>pid = task_make 1 1, pdeck = Some 9\<rparr>)" "this ?d1 = 9"
    using vac [of fresh_row] nz by (simp_all add: enqueue_def register_task_def allocate_row_def new_deck_def Let_def max_index_eq fresh_row_def)
  have inv1: "deck_inv ?d1" by (rule enqueue_inv [OF new_deck_inv])
  have res1: "resolve ?d1 (task_make 1 1) = Some 0" using resolve_row [OF inv1, of 0] by (simp add: e1)
  have e2: "tasks ?d2 = [\<lparr>row_id = 0, row_handle = None, row_promise = None, row_state = vacant, row_era = 2\<rparr>]"
    "pdeck (prom ?d2 31) = None" "pid (prom ?d2 31) = 0" "this ?d2 = 9"
    using res1 by (simp_all add: unregister_from_deck_def unregister_task_def e1 Let_def next_era_def)
  have e3: "tasks ?d3 = [\<lparr>row_id = task_make 1 2, row_handle = Some 21, row_promise = Some 31, row_state = live, row_era = 2\<rparr>]"
    using vac [of "tasks ?d2 ! 0"] e2 nz by (simp add: enqueue_def register_task_def allocate_row_def Let_def max_index_eq)
  have "row_history 0 0 ?d1 ?d1" by (rule history_start)
  from history_step [OF this api_destroy [of ?d1 30]] have "row_history 0 1 ?d1 ?d2" by (simp add: e1 e2)
  from history_step [OF this api_enqueue [of ?d2 "Some 21" "Some 31"]] have h: "row_history 0 1 ?d1 ?d3" by (simp add: e2)
  have "resolve ?d3 (pid (prom ?d1 30)) = (if (1 :: nat) = 0 then Some 0 else None)"
    by (rule stale_id_unresolved [OF inv1 _ _ h]) (simp_all add: e1 res1)
  moreover have "resolve ?d3 (task_make 1 2) = Some 0"
    using resolve_row [OF enqueue_inv [OF unregister_inv [OF inv1], of 30 "Some 21" "Some 31"], of 0] by (simp add: e3)
  moreover have "deck_apis ?d ?d3"
    by (meson api_enqueue api_destroy rtranclp.rtrancl_into_rtrancl rtranclp.rtrancl_refl)
  ultimately show ?thesis by (auto simp: e1)
qed

end
