(* ===== verification/Buffer_Core.thy ===== *)
theory Buffer_Core
  imports Nxt_Prelude
begin

text \<open>
  The storage layer under the runtime's byte and value streams,
  \<^verbatim>\<open>src/nxtrt/buffer-core.hpp\<close>: chunk views (\<^verbatim>\<open>buffer_chunks\<close>), the lazily scanned frame
  view over them (\<^verbatim>\<open>chop_view\<close>) and the ring of constructed values (\<^verbatim>\<open>ring_region\<close>).

  A span is the list of the values it shows.  A storage slot is \<open>None\<close> while no value
  lives in it, so constructing and destroying values are visible in the model.  The
  interface the feeds and sinks rely on is the locale \<open>fifo\<close>.
\<close>

section \<open>Model of chunk views\<close>

datatype buffer_error = TooManyChunks | ZeroExtent | OverreportedExtent

text \<open>\<^verbatim>\<open>fare_t\<close>: a count, or end of stream.\<close>

datatype fare = Fare nat | Eof

definition value_count :: "fare \<Rightarrow> nat" where
  "value_count r = (case r of Fare n \<Rightarrow> n | Eof \<Rightarrow> 0)"

definition is_eof :: "fare \<Rightarrow> bool" where
  "is_eof r = (case r of Fare n \<Rightarrow> False | Eof \<Rightarrow> True)"

text \<open>\<^verbatim>\<open>find_bytes\<close>: \<^verbatim>\<open>std::ranges::search\<close> returns the first match, or the end.\<close>

fun find_bytes :: "'a list \<Rightarrow> 'a list \<Rightarrow> nat" where
  "find_bytes [] needle = 0"
| "find_bytes (x # xs) needle =
     (if take (length needle) (x # xs) = needle then 0 else Suc (find_bytes xs needle))"

type_synonym 'a chunks = "'a list list"

definition chunks_append :: "nat \<Rightarrow> 'a chunks \<Rightarrow> 'a list \<Rightarrow> buffer_error + 'a chunks" where
  "chunks_append inline cs chunk =
     (if chunk = [] then Inr cs
      else if length cs = inline then Inl TooManyChunks
      else Inr (cs @ [chunk]))"

fun chunks_of_from :: "nat \<Rightarrow> 'a chunks \<Rightarrow> 'a list list \<Rightarrow> buffer_error + 'a chunks" where
  "chunks_of_from inline out [] = Inr out"
| "chunks_of_from inline out (c # cs) =
     (case chunks_append inline out c of Inl e \<Rightarrow> Inl e | Inr out' \<Rightarrow> chunks_of_from inline out' cs)"

definition chunks_of :: "nat \<Rightarrow> 'a list list \<Rightarrow> buffer_error + 'a chunks" where
  "chunks_of inline cs = chunks_of_from inline [] cs"

definition chunks_size :: "'a chunks \<Rightarrow> nat" where
  "chunks_size cs = fold (\<lambda>c total. total + length c) cs 0"

definition chunks_empty :: "'a chunks \<Rightarrow> bool" where
  "chunks_empty cs \<longleftrightarrow> chunks_size cs = 0"

fun chunks_first_from :: "nat \<Rightarrow> 'a chunks \<Rightarrow> 'a chunks \<Rightarrow> nat \<Rightarrow> buffer_error + 'a chunks" where
  "chunks_first_from inline out [] n = Inr out"
| "chunks_first_from inline out (c # cs) n =
     (if n = 0 then Inr out
      else let k = min n (length c) in
        (case chunks_append inline out (take k c) of
           Inl e \<Rightarrow> Inl e
         | Inr out' \<Rightarrow> chunks_first_from inline out' cs (n - k)))"

definition chunks_first :: "nat \<Rightarrow> 'a chunks \<Rightarrow> nat \<Rightarrow> buffer_error + 'a chunks" where
  "chunks_first inline cs n = chunks_first_from inline [] cs n"

fun chunks_subspan_from :: "nat \<Rightarrow> 'a chunks \<Rightarrow> 'a chunks \<Rightarrow> nat \<Rightarrow> nat \<Rightarrow> buffer_error + 'a chunks" where
  "chunks_subspan_from inline out [] off count = Inr out"
| "chunks_subspan_from inline out (c # cs) off count =
     (if off \<ge> length c then chunks_subspan_from inline out cs (off - length c) count
      else let rest = drop off c; k = min count (length rest) in
        (case chunks_append inline out (take k rest) of
           Inl e \<Rightarrow> Inl e
         | Inr out' \<Rightarrow> if count - k = 0 then Inr out' else chunks_subspan_from inline out' cs 0 (count - k)))"

definition chunks_subspan :: "nat \<Rightarrow> 'a chunks \<Rightarrow> nat \<Rightarrow> nat \<Rightarrow> buffer_error + 'a chunks" where
  "chunks_subspan inline cs off count = chunks_subspan_from inline [] cs off count"

definition single_span :: "'a chunks \<Rightarrow> 'a list option" where
  "single_span cs = (case cs of [] \<Rightarrow> Some [] | [c] \<Rightarrow> Some c | _ \<Rightarrow> None)"

section \<open>Model of the frame view\<close>

text \<open>A scanner sees the rest of the stock: \<open>None\<close> is \<^verbatim>\<open>chop_need_more\<close>, \<open>Some (extent, frame)\<close> a
  \<^verbatim>\<open>frame_chop\<close>.  The subspan to the end is \<^verbatim>\<open>subspan(offset_)\<close> with its default count.\<close>

definition chop_refresh ::
  "nat \<Rightarrow> ('a chunks \<Rightarrow> (nat \<times> 'f) option) \<Rightarrow> 'a chunks \<Rightarrow> nat \<Rightarrow> buffer_error + (nat \<times> 'f) option" where
  "chop_refresh inline scanner stock off =
     (case chunks_subspan inline stock off (chunks_size stock) of
        Inl e \<Rightarrow> Inl e
      | Inr suffix \<Rightarrow>
          if chunks_empty suffix then Inr None
          else (case scanner suffix of
                  None \<Rightarrow> Inr None
                | Some (extent, frame) \<Rightarrow>
                    if extent = 0 then Inl ZeroExtent
                    else if extent > chunks_size suffix then Inl OverreportedExtent
                    else Inr (Some (extent, frame))))"

lemma chunks_size_fold: "fold (\<lambda>c total. total + length c) cs n = n + length (concat cs)"
  by (induction cs arbitrary: n) auto

lemma chunks_size_concat [simp]: "chunks_size cs = length (concat cs)"
  by (simp add: chunks_size_def chunks_size_fold)

lemma chunks_append_concat:
  "chunks_append inline out c = Inr out' \<Longrightarrow> concat out' = concat out @ c"
  by (auto simp: chunks_append_def split: if_splits)

lemma chunks_subspan_from_concat:
  "chunks_subspan_from inline out cs off count = Inr out' \<Longrightarrow>
     concat out' = concat out @ take count (drop off (concat cs))"
proof (induction inline out cs off count arbitrary: out' rule: chunks_subspan_from.induct)
  case (2 inline out c cs off count)
  show ?case
  proof (cases "off \<ge> length c")
    case True
    then show ?thesis using 2 by simp
  next
    case False
    let ?k = "min count (length (drop off c))"
    from "2.prems" False obtain out1 where
      1: "chunks_append inline out (take ?k (drop off c)) = Inr out1"
      by (auto simp: Let_def split: sum.splits)
    have c1: "concat out1 = concat out @ take count (drop off c)"
      using chunks_append_concat [OF 1] by (simp add: min_def)
    show ?thesis
    proof (cases "count - ?k = 0")
      case True
      then have "count \<le> length (drop off c)" by simp
      then show ?thesis using "2.prems" False 1 c1 True by (simp add: Let_def)
    next
      case False2: False
      then have k: "?k = length (drop off c)" by simp
      have "chunks_subspan_from inline out1 cs 0 (count - ?k) = Inr out'"
        using "2.prems" False 1 False2 by (simp only: chunks_subspan_from.simps Let_def if_False sum.case)
      from 2(2) [OF False refl refl 1 False2 this]
      have "concat out' = concat out1 @ take (count - ?k) (drop 0 (concat cs))" .
      then show ?thesis using c1 k False False2 by simp
    qed
  qed
qed auto

lemma chop_refresh_bounds:
  "chop_refresh inline scanner stock off = Inr (Some (extent, frame)) \<Longrightarrow>
     0 < extent \<and> off + extent \<le> chunks_size stock"
  using chunks_subspan_from_concat [of inline "[]" stock off "chunks_size stock"]
  by (auto simp: chop_refresh_def chunks_subspan_def chunks_empty_def split: sum.splits option.splits if_splits)

text \<open>Iterating the view: the frames from \<open>off\<close> on, with their extents.  The loops over
  the view (\<^verbatim>\<open>count\<close>, \<^verbatim>\<open>has_at_least\<close>, \<^verbatim>\<open>extent\<close>) stop where the source stops.\<close>

function chop_frames ::
  "nat \<Rightarrow> ('a chunks \<Rightarrow> (nat \<times> 'f) option) \<Rightarrow> 'a chunks \<Rightarrow> nat \<Rightarrow> buffer_error + (nat \<times> 'f) list" where
  "chop_frames inline scanner stock off =
     (case chop_refresh inline scanner stock off of
        Inl e \<Rightarrow> Inl e
      | Inr None \<Rightarrow> Inr []
      | Inr (Some (extent, frame)) \<Rightarrow>
          map_sum id (\<lambda>fs. (extent, frame) # fs) (chop_frames inline scanner stock (off + extent)))"
  by pat_completeness auto
termination
  by (relation "measure (\<lambda>(inline, scanner, stock, off). chunks_size stock - off)")
    (auto dest!: chop_refresh_bounds)

definition chop_count ::
  "nat \<Rightarrow> ('a chunks \<Rightarrow> (nat \<times> 'f) option) \<Rightarrow> 'a chunks \<Rightarrow> buffer_error + nat" where
  "chop_count inline scanner stock = map_sum id length (chop_frames inline scanner stock 0)"

function chop_has_at_least ::
  "nat \<Rightarrow> ('a chunks \<Rightarrow> (nat \<times> 'f) option) \<Rightarrow> 'a chunks \<Rightarrow> nat \<Rightarrow> nat \<Rightarrow> buffer_error + bool" where
  "chop_has_at_least inline scanner stock off n =
     (if n = 0 then Inr True
      else case chop_refresh inline scanner stock off of
        Inl e \<Rightarrow> Inl e
      | Inr None \<Rightarrow> Inr False
      | Inr (Some (extent, frame)) \<Rightarrow> chop_has_at_least inline scanner stock (off + extent) (n - 1))"
  by pat_completeness auto
termination
  by (relation "measure (\<lambda>(inline, scanner, stock, off, n). n)") auto

function chop_extent ::
  "nat \<Rightarrow> ('a chunks \<Rightarrow> (nat \<times> 'f) option) \<Rightarrow> 'a chunks \<Rightarrow> nat \<Rightarrow> nat \<Rightarrow> nat \<Rightarrow> buffer_error + nat" where
  "chop_extent inline scanner stock off max_count out =
     (case chop_refresh inline scanner stock off of
        Inl e \<Rightarrow> Inl e
      | Inr None \<Rightarrow> Inr out
      | Inr (Some (extent, frame)) \<Rightarrow>
          if max_count = 0 then Inr out
          else chop_extent inline scanner stock (off + extent) (max_count - 1) (out + extent))"
  by pat_completeness auto
termination
  by (relation "measure (\<lambda>(inline, scanner, stock, off, mc, out). mc)") auto

section \<open>Model of the ring\<close>

text \<open>A window of the storage is its first slot and its length.\<close>

type_synonym window = "nat \<times> nat"

definition ring_chunks :: "nat \<Rightarrow> nat \<Rightarrow> nat \<Rightarrow> window list" where
  "ring_chunks cap sk sz =
     (if sz = 0 then []
      else let first = min sz (cap - sk) in
        if first = sz then filter (\<lambda>w. snd w \<noteq> 0) [(sk, first)]
        else filter (\<lambda>w. snd w \<noteq> 0) [(sk, first), (0, sz - first)])"

definition ring_write_index :: "nat \<Rightarrow> nat \<Rightarrow> nat \<Rightarrow> nat" where
  "ring_write_index cap sk sz = (sk + sz) mod cap"

definition ring_unused_capacity :: "nat \<Rightarrow> nat \<Rightarrow> nat \<Rightarrow> window" where
  "ring_unused_capacity cap sk sz =
     (if sz = cap then (0, 0)
      else let w = ring_write_index cap sk sz;
               n = (if w < sk then sk - w else cap - w)
           in (w, min n (cap - sz)))"

record 'a ring =
  slots :: "'a option list"
  seek :: nat
  rsize :: nat

abbreviation cap :: "'a ring \<Rightarrow> nat" where
  "cap r \<equiv> length (slots r)"

definition ring_make :: "nat \<Rightarrow> 'a ring" where
  "ring_make n = \<lparr>slots = replicate n None, seek = 0, rsize = 0\<rparr>"

definition ring_empty :: "'a ring \<Rightarrow> bool" where
  "ring_empty r \<longleftrightarrow> rsize r = 0"

definition unused_capacity_size :: "'a ring \<Rightarrow> nat" where
  "unused_capacity_size r = cap r - rsize r"

definition window_slots :: "'a ring \<Rightarrow> window \<Rightarrow> 'a option list" where
  "window_slots r w = take (snd w) (drop (fst w) (slots r))"

definition constructed :: "'a ring \<Rightarrow> 'a option list list" where
  "constructed r = map (window_slots r) (ring_chunks (cap r) (seek r) (rsize r))"

definition unused_capacity :: "'a ring \<Rightarrow> window" where
  "unused_capacity r = ring_unused_capacity (cap r) (seek r) (rsize r)"

definition front_data :: "'a ring \<Rightarrow> 'a option" where
  "front_data r = (if ring_empty r then None else slots r ! seek r)"

definition write_index :: "'a ring \<Rightarrow> nat" where
  "write_index r = ring_write_index (cap r) (seek r) (rsize r)"

definition has_contiguous_constructed :: "'a ring \<Rightarrow> bool" where
  "has_contiguous_constructed r \<longleftrightarrow> seek r + rsize r \<le> cap r"

definition advance_constructed :: "nat \<Rightarrow> 'a ring \<Rightarrow> 'a ring" where
  "advance_constructed n r = r\<lparr>rsize := rsize r + n\<rparr>"

definition release_without_destroying :: "'a ring \<Rightarrow> 'a ring" where
  "release_without_destroying r = r\<lparr>seek := 0, rsize := 0\<rparr>"

definition reset_if_empty :: "'a ring \<Rightarrow> 'a ring" where
  "reset_if_empty r = (if ring_empty r then r\<lparr>seek := 0\<rparr> else r)"

text \<open>\<^verbatim>\<open>std::destroy_at\<close> over a window of the storage.\<close>

definition destroy_window :: "window \<Rightarrow> 'a option list \<Rightarrow> 'a option list" where
  "destroy_window w xs = take (fst w) xs @ replicate (min (snd w) (length xs - fst w)) None @ drop (fst w + snd w) xs"

text \<open>With \<open>seek = capacity\<close> the loop of \<^verbatim>\<open>destroy_prefix\<close> would not move; \<open>None\<close> stands for
  a run that does not end.\<close>

partial_function (option) destroy_prefix :: "nat \<Rightarrow> 'a ring \<Rightarrow> 'a ring option" where
  "destroy_prefix n r =
     (if n = 0 then Some r
      else let k = min n (cap r - seek r) in
        destroy_prefix (n - k)
          (r\<lparr>slots := destroy_window (seek r, k) (slots r),
             seek := (seek r + k) mod cap r, rsize := rsize r - k\<rparr>))"

declare destroy_prefix.simps [code]

definition destroy_all :: "'a ring \<Rightarrow> 'a ring option" where
  "destroy_all r = map_option (\<lambda>r'. r'\<lparr>seek := 0\<rparr>) (destroy_prefix (rsize r) r)"

text \<open>What a producer does with the ring: construct values at the front of
  \<^verbatim>\<open>unused_capacity()\<close>, then report them with \<^verbatim>\<open>advance_constructed\<close>.\<close>

definition construct_at :: "nat \<Rightarrow> 'a list \<Rightarrow> 'a option list \<Rightarrow> 'a option list" where
  "construct_at off vs xs = take off xs @ map Some vs @ drop (off + length vs) xs"

definition produce :: "'a list \<Rightarrow> 'a ring \<Rightarrow> 'a ring" where
  "produce vs r = advance_constructed (length vs)
     (r\<lparr>slots := construct_at (fst (unused_capacity r)) vs (slots r)\<rparr>)"

section \<open>Chunk views are windows of one sequence\<close>

lemma chunks_append_ok:
  "length out < inline \<Longrightarrow> \<exists>out'. chunks_append inline out c = Inr out' \<and> length out' \<le> Suc (length out)
     \<and> concat out' = concat out @ c"
  by (simp add: chunks_append_def)

lemma chunks_first_from_ok:
  "length out + length cs \<le> inline \<Longrightarrow>
     \<exists>out'. chunks_first_from inline out cs n = Inr out' \<and> concat out' = concat out @ take n (concat cs)
       \<and> length out' \<le> length out + length cs"
proof (induction cs arbitrary: out n)
  case (Cons c cs)
  show ?case
  proof (cases "n = 0")
    case True
    then show ?thesis by simp
  next
    case False
    let ?k = "min n (length c)"
    obtain out1 where 1: "chunks_append inline out (take ?k c) = Inr out1"
      "length out1 \<le> Suc (length out)" "concat out1 = concat out @ take ?k c"
      using chunks_append_ok [of out inline "take ?k c"] Cons.prems by auto
    obtain out2 where 2: "chunks_first_from inline out1 cs (n - ?k) = Inr out2"
      "concat out2 = concat out1 @ take (n - ?k) (concat cs)" "length out2 \<le> length out1 + length cs"
      using Cons.IH [of out1 "n - ?k"] Cons.prems 1(2) by auto
    have "concat out2 = concat out @ take n (concat (c # cs))"
      using 2(2) 1(3) by (simp add: min_def)
    with False 1 2 show ?thesis by (auto simp: Let_def)
  qed
qed auto

lemma chunks_subspan_from_ok:
  "length out + length cs \<le> inline \<Longrightarrow> \<exists>out'. chunks_subspan_from inline out cs off count = Inr out'"
proof (induction cs arbitrary: out off count)
  case (Cons c cs)
  show ?case
  proof (cases "off \<ge> length c")
    case True
    then show ?thesis using Cons by simp
  next
    case False
    let ?k = "min count (length (drop off c))"
    obtain out1 where 1: "chunks_append inline out (take ?k (drop off c)) = Inr out1"
      "length out1 \<le> Suc (length out)"
      using chunks_append_ok [of out inline "take ?k (drop off c)"] Cons.prems by auto
    then have "\<exists>out'. chunks_subspan_from inline out1 cs 0 (count - ?k) = Inr out'"
      using Cons.IH Cons.prems by simp
    with False 1 show ?thesis by (auto simp: Let_def)
  qed
qed simp

section \<open>The ring holds a sequence\<close>

text \<open>The live values, oldest first, and the invariant: the cursor is inside the storage
  and exactly the live slots hold values.\<close>

definition live_index :: "'a ring \<Rightarrow> nat \<Rightarrow> nat" where
  "live_index r i = (seek r + i) mod cap r"

definition ring_list :: "'a ring \<Rightarrow> 'a list" where
  "ring_list r = map (\<lambda>i. the (slots r ! live_index r i)) [0..<rsize r]"

definition ring_inv :: "'a ring \<Rightarrow> bool" where
  "ring_inv r \<longleftrightarrow> rsize r \<le> cap r \<and> (seek r < cap r \<or> cap r = 0 \<and> seek r = 0)
     \<and> (\<forall>i < cap r. slots r ! live_index r i \<noteq> None \<longleftrightarrow> i < rsize r)"

lemma ring_invD:
  assumes "ring_inv r"
  shows "rsize r \<le> cap r" "0 < cap r \<Longrightarrow> seek r < cap r"
    "i < cap r \<Longrightarrow> slots r ! live_index r i \<noteq> None \<longleftrightarrow> i < rsize r"
  using assms by (auto simp: ring_inv_def)

lemma length_ring_list [simp]: "length (ring_list r) = rsize r"
  by (simp add: ring_list_def)

lemma nth_ring_list: "ring_inv r \<Longrightarrow> i < rsize r \<Longrightarrow> slots r ! live_index r i = Some (ring_list r ! i)"
  using ring_invD(1,3) [of r] by (fastforce simp: ring_list_def)

lemma live_index_less: "0 < cap r \<Longrightarrow> live_index r i < cap r"
  by (simp add: live_index_def)

lemma live_index_eq:
  assumes "seek r < cap r" "i < cap r"
  shows "live_index r i = (if seek r + i < cap r then seek r + i else seek r + i - cap r)"
  using assms by (simp add: live_index_def mod_if)

lemma live_index_inj:
  "seek r < cap r \<Longrightarrow> i < cap r \<Longrightarrow> j < cap r \<Longrightarrow> live_index r i = live_index r j \<Longrightarrow> i = j"
  by (simp add: live_index_eq split: if_splits)

lemma ring_eqI:
  assumes "rsize r = length vs" "\<And>i. i < length vs \<Longrightarrow> slots r ! live_index r i = Some (vs ! i)"
  shows "ring_list r = vs"
  using assms by (intro nth_equalityI) (simp_all add: ring_list_def)

lemma window_values:
  assumes "fst w + snd w \<le> cap r" "length vs = snd w"
    "\<And>i. i < snd w \<Longrightarrow> slots r ! (fst w + i) = Some (vs ! i)"
  shows "window_slots r w = map Some vs"
  using assms by (intro nth_equalityI) (simp_all add: window_slots_def)

lemma constructed_values:
  assumes inv: "ring_inv r"
  shows "concat (constructed r) = map Some (ring_list r)"
proof (cases "rsize r = 0")
  case True
  then show ?thesis by (simp add: constructed_def ring_chunks_def ring_list_def)
next
  case False
  have sz: "rsize r \<le> cap r" "0 < cap r" using ring_invD(1) [OF inv] False by auto
  have sk: "seek r < cap r" using ring_invD(2) [OF inv] sz by simp
  have at: "slots r ! (if seek r + i < cap r then seek r + i else seek r + i - cap r) = Some (ring_list r ! i)"
    if "i < rsize r" for i
    using nth_ring_list [OF inv that] live_index_eq [OF sk, of i] that sz by simp
  show ?thesis
  proof (cases "rsize r \<le> cap r - seek r")
    case True
    have "window_slots r (seek r, rsize r) = map Some (ring_list r)"
    proof (rule window_values)
      fix i assume "i < snd (seek r, rsize r)"
      then show "slots r ! (fst (seek r, rsize r) + i) = Some (ring_list r ! i)"
        using at [of i] True by (simp split: if_splits)
    qed (use True sk in auto)
    then show ?thesis using True False by (simp add: constructed_def ring_chunks_def Let_def min_def)
  next
    case wrap: False
    let ?f = "cap r - seek r"
    have "window_slots r (seek r, ?f) = map Some (take ?f (ring_list r))"
    proof (rule window_values)
      fix i assume "i < snd (seek r, ?f)"
      then show "slots r ! (fst (seek r, ?f) + i) = Some (take ?f (ring_list r) ! i)"
        using at [of i] wrap by (simp split: if_splits)
    qed (use wrap sk in auto)
    moreover have "window_slots r (0, rsize r - ?f) = map Some (drop ?f (ring_list r))"
    proof (rule window_values)
      fix i assume "i < snd (0 :: nat, rsize r - ?f)"
      then show "slots r ! (fst (0, rsize r - ?f) + i) = Some (drop ?f (ring_list r) ! i)"
        using at [of "?f + i"] wrap sk by (simp split: if_splits)
    qed (use wrap sk sz in auto)
    ultimately have "concat (map (window_slots r) [(seek r, ?f), (0, rsize r - ?f)])
        = map Some (take ?f (ring_list r)) @ map Some (drop ?f (ring_list r))"
      by simp
    also have "\<dots> = map Some (ring_list r)" by (simp flip: map_append)
    finally have "concat (map (window_slots r) [(seek r, ?f), (0, rsize r - ?f)]) = map Some (ring_list r)" .
    moreover have "cap r < rsize r + seek r" using wrap sk by linarith
    ultimately show ?thesis
      using wrap False sk by (simp add: constructed_def ring_chunks_def Let_def min_def)
  qed
qed

text \<open>The raw tail: slot \<open>j\<close> of it follows the live values.\<close>

lemma unused_capacity_index:
  assumes inv: "ring_inv r" and j: "j < snd (unused_capacity r)"
  shows "rsize r + j < cap r" "live_index r (rsize r + j) = fst (unused_capacity r) + j"
    "fst (unused_capacity r) + j < cap r"
proof -
  have ne: "rsize r \<noteq> cap r" using j by (auto simp: unused_capacity_def ring_unused_capacity_def)
  then have lt: "rsize r < cap r" using ring_invD(1) [OF inv] by simp
  then have "0 < cap r" by linarith
  then have sk: "seek r < cap r" by (rule ring_invD(2) [OF inv])
  have w: "fst (unused_capacity r) = (if seek r + rsize r < cap r then seek r + rsize r else seek r + rsize r - cap r)"
    using ne live_index_eq [OF sk lt]
    by (simp add: unused_capacity_def ring_unused_capacity_def ring_write_index_def live_index_def Let_def)
  have n: "j < (if fst (unused_capacity r) < seek r then seek r - fst (unused_capacity r)
      else cap r - fst (unused_capacity r)) \<and> j < cap r - rsize r"
    using j ne by (simp add: unused_capacity_def ring_unused_capacity_def Let_def split: if_splits)
  then show "rsize r + j < cap r" by linarith
  from live_index_eq [OF sk this] show "live_index r (rsize r + j) = fst (unused_capacity r) + j"
    using n w lt sk by (auto split: if_splits)
  show "fst (unused_capacity r) + j < cap r" using n w sk lt by (auto split: if_splits)
qed

lemma nth_construct_at:
  assumes "off + length vs \<le> length xs" "k < length xs"
  shows "construct_at off vs xs ! k = (if off \<le> k \<and> k < off + length vs then Some (vs ! (k - off)) else xs ! k)"
  using assms by (auto simp: construct_at_def nth_append min_def)

lemma length_construct_at: "off + length vs \<le> length xs \<Longrightarrow> length (construct_at off vs xs) = length xs"
  by (simp add: construct_at_def)

lemma produce_correct:
  assumes inv: "ring_inv r" and fits: "length vs \<le> snd (unused_capacity r)"
  shows "ring_inv (produce vs r) \<and> ring_list (produce vs r) = ring_list r @ vs \<and> cap (produce vs r) = cap r"
proof (cases "vs = []")
  case True
  then have "produce vs r = r"
    by (simp add: produce_def advance_constructed_def construct_at_def)
  with True inv show ?thesis by simp
next
  case False
  let ?w = "fst (unused_capacity r)"
  let ?r = "produce vs r"
  have "length vs - 1 < snd (unused_capacity r)" using False fits by (cases vs) auto
  from unused_capacity_index [OF inv this] False
  have bound: "?w + length vs \<le> cap r" "rsize r + length vs \<le> cap r" by (cases vs; simp)+
  have len: "cap ?r = cap r"
    using length_construct_at [OF bound(1)] by (simp add: produce_def advance_constructed_def)
  have li: "live_index ?r i = live_index r i" for i
    using len by (simp add: live_index_def) (simp add: produce_def advance_constructed_def)
  have sz: "rsize ?r = rsize r + length vs" by (simp add: produce_def advance_constructed_def)
  have pos: "0 < cap r" using bound False by (cases vs) auto
  then have sk: "seek r < cap r" using ring_invD(2) [OF inv] by simp
  have at: "slots ?r ! live_index r i =
      (if rsize r \<le> i \<and> i < rsize r + length vs then Some (vs ! (i - rsize r)) else slots r ! live_index r i)"
    if i: "i < cap r" for i
  proof -
    have nth: "slots ?r ! live_index r i = (if ?w \<le> live_index r i \<and> live_index r i < ?w + length vs
        then Some (vs ! (live_index r i - ?w)) else slots r ! live_index r i)"
      using nth_construct_at [OF bound(1) live_index_less [OF pos]]
      by (simp add: produce_def advance_constructed_def)
    have idx: "live_index r (rsize r + j) = ?w + j" "rsize r + j < cap r" if "j < length vs" for j
      using unused_capacity_index(1,2) [OF inv, of j] that fits by simp_all
    show ?thesis
    proof (cases "rsize r \<le> i \<and> i < rsize r + length vs")
      case True
      then obtain j where j: "i = rsize r + j" "j < length vs"
        by (metis le_iff_add nat_add_left_cancel_less)
      with nth idx(1) [OF j(2)] show ?thesis by simp
    next
      case outside: False
      have "\<not> (?w \<le> live_index r i \<and> live_index r i < ?w + length vs)"
      proof
        assume *: "?w \<le> live_index r i \<and> live_index r i < ?w + length vs"
        then obtain j where j: "live_index r i = ?w + j" "j < length vs"
          by (metis le_iff_add nat_add_left_cancel_less)
        with idx [OF j(2)] have "i = rsize r + j" using live_index_inj [OF sk] i by metis
        with outside j show False by simp
      qed
      with nth outside show ?thesis by auto
    qed
  qed
  have "ring_inv ?r"
    unfolding ring_inv_def len sz li
    using at ring_invD(3) [OF inv] bound(2) sk
    by (auto simp: produce_def advance_constructed_def split: if_splits)
  moreover have "ring_list ?r = ring_list r @ vs"
  proof (rule ring_eqI)
    fix i assume i: "i < length (ring_list r @ vs)"
    then show "slots ?r ! live_index ?r i = Some ((ring_list r @ vs) ! i)"
      using at [of i] nth_ring_list [OF inv, of i] bound(2) by (auto simp: li nth_append)
  qed (use sz in simp)
  ultimately show ?thesis using len by simp
qed

lemma nth_destroy_window:
  assumes "fst w + snd w \<le> length xs" "k < length xs"
  shows "destroy_window w xs ! k = (if fst w \<le> k \<and> k < fst w + snd w then None else xs ! k)"
  using assms by (auto simp: destroy_window_def nth_append min_def)

lemma length_destroy_window: "fst w + snd w \<le> length xs \<Longrightarrow> length (destroy_window w xs) = length xs"
  by (simp add: destroy_window_def)

definition destroy_step :: "nat \<Rightarrow> 'a ring \<Rightarrow> 'a ring" where
  "destroy_step k r = r\<lparr>slots := destroy_window (seek r, k) (slots r),
     seek := (seek r + k) mod cap r, rsize := rsize r - k\<rparr>"

lemma destroy_step_correct:
  assumes inv: "ring_inv r" and k: "k \<le> rsize r" "seek r + k \<le> cap r" and pos: "0 < cap r"
  shows "ring_inv (destroy_step k r) \<and> ring_list (destroy_step k r) = drop k (ring_list r)
    \<and> cap (destroy_step k r) = cap r"
proof -
  let ?r = "destroy_step k r"
  have len: "cap ?r = cap r"
    using length_destroy_window [of "(seek r, k)" "slots r"] k by (simp add: destroy_step_def)
  have sk: "seek r < cap r" using ring_invD(2) [OF inv pos] .
  have le: "rsize r \<le> cap r" using ring_invD(1) [OF inv] .
  have li: "live_index ?r i = live_index r (k + i)" for i
    using len by (simp add: live_index_def) (simp add: destroy_step_def mod_simps add.assoc)
  have slot: "slots ?r ! live_index r m = (if m < k then None else slots r ! live_index r m)"
    if m: "m < cap r" for m
  proof -
    have "slots ?r ! live_index r m
        = (if seek r \<le> live_index r m \<and> live_index r m < seek r + k then None else slots r ! live_index r m)"
      using nth_destroy_window [of "(seek r, k)" "slots r" "live_index r m"] k live_index_less [OF pos]
      by (simp add: destroy_step_def)
    moreover have "seek r \<le> live_index r m \<and> live_index r m < seek r + k \<longleftrightarrow> m < k"
      using live_index_eq [OF sk m] m k by auto
    ultimately show ?thesis by simp
  qed
  have at: "slots ?r ! live_index ?r i = (if k + i < cap r then slots r ! live_index r (k + i) else None)"
    if i: "i < cap r" for i
  proof (cases "k + i < cap r")
    case True
    then show ?thesis using slot [OF True] by (simp add: li)
  next
    case False
    then have "live_index r (k + i) = live_index r (k + i - cap r)"
      by (simp add: live_index_def mod_if [of "seek r + (k + i)"])
    moreover have "k + i - cap r < k" "k + i - cap r < cap r" using i k le False by linarith+
    ultimately show ?thesis using slot [of "k + i - cap r"] False by (simp add: li)
  qed
  have "ring_inv ?r"
    unfolding ring_inv_def len
    using at ring_invD(3) [OF inv] le k pos
    by (auto simp: destroy_step_def)
  moreover have "ring_list ?r = drop k (ring_list r)"
  proof (rule ring_eqI)
    fix i assume "i < length (drop k (ring_list r))"
    then show "slots ?r ! live_index ?r i = Some (drop k (ring_list r) ! i)"
      using at [of i] nth_ring_list [OF inv, of "k + i"] le by simp
  qed (simp add: destroy_step_def)
  ultimately show ?thesis using len by simp
qed

lemma destroy_prefix_correct:
  assumes "ring_inv r" "n \<le> rsize r"
  shows "\<exists>r'. destroy_prefix n r = Some r' \<and> ring_inv r' \<and> ring_list r' = drop n (ring_list r) \<and> cap r' = cap r"
  using assms
proof (induction n arbitrary: r rule: less_induct)
  case (less n)
  show ?case
  proof (cases "n = 0")
    case True
    then show ?thesis using less.prems by (simp add: destroy_prefix.simps)
  next
    case False
    have pos: "0 < cap r" using less.prems(2) False ring_invD(1) [OF less.prems(1)] by linarith
    let ?k = "min n (cap r - seek r)"
    have sk: "seek r < cap r" using ring_invD(2) [OF less.prems(1) pos] .
    have k: "?k \<le> rsize r" "seek r + ?k \<le> cap r" "0 < ?k" using less.prems sk False by auto
    note step = destroy_step_correct [OF less.prems(1) k(1,2) pos]
    have "n - ?k \<le> rsize (destroy_step ?k r)" using less.prems by (simp add: destroy_step_def)
    then obtain r' where "destroy_prefix (n - ?k) (destroy_step ?k r) = Some r'" "ring_inv r'"
      "ring_list r' = drop (n - ?k) (ring_list (destroy_step ?k r))" "cap r' = cap (destroy_step ?k r)"
      using less.IH [of "n - ?k" "destroy_step ?k r"] step k(3) False by auto
    moreover have "destroy_prefix n r = destroy_prefix (n - ?k) (destroy_step ?k r)"
      using False by (subst destroy_prefix.simps) (simp add: Let_def destroy_step_def)
    ultimately show ?thesis using step by simp
  qed
qed

section \<open>The queue interface of feeds and sinks\<close>

text \<open>A bounded queue: values go in at the back, as many at a time as \<open>room\<close> says, and
  leave at the front.\<close>

locale fifo =
  fixes invar :: "'q \<Rightarrow> bool" and contents :: "'q \<Rightarrow> 'a list" and limit :: "'q \<Rightarrow> nat"
    and room :: "'q \<Rightarrow> nat" and push :: "'a list \<Rightarrow> 'q \<Rightarrow> 'q" and pop :: "nat \<Rightarrow> 'q \<Rightarrow> 'q option"
  assumes bounded: "invar q \<Longrightarrow> length (contents q) \<le> limit q"
    and room_pos: "invar q \<Longrightarrow> 0 < room q \<longleftrightarrow> length (contents q) < limit q"
    and push_law: "invar q \<Longrightarrow> length vs \<le> room q \<Longrightarrow>
      invar (push vs q) \<and> contents (push vs q) = contents q @ vs \<and> limit (push vs q) = limit q"
    and pop_law: "invar q \<Longrightarrow> n \<le> length (contents q) \<Longrightarrow>
      \<exists>q'. pop n q = Some q' \<and> invar q' \<and> contents q' = drop n (contents q) \<and> limit q' = limit q"
begin

text \<open>One transfer step of a producer: as much of the pending input as there is room for.\<close>

definition offer :: "'a list \<Rightarrow> 'q \<Rightarrow> 'q \<times> 'a list" where
  "offer vs q = (push (take (room q) vs) q, drop (room q) vs)"

lemma offer_keeps_order:
  assumes "invar q"
  shows "invar (fst (offer vs q)) \<and> contents (fst (offer vs q)) @ snd (offer vs q) = contents q @ vs
    \<and> limit (fst (offer vs q)) = limit q"
proof -
  have "length (take (room q) vs) \<le> room q" by simp
  from push_law [OF assms this] show ?thesis by (simp add: offer_def)
qed

text \<open>Two offers fill a ring that wraps: an offer makes progress unless the queue is full.\<close>

lemma offer_progress:
  assumes "invar q" "vs \<noteq> []" "length (contents q) < limit q"
  shows "length (snd (offer vs q)) < length vs"
  using assms room_pos [OF assms(1)] by (cases vs) (auto simp: offer_def)

lemma push_then_pop:
  assumes "invar q" "length vs \<le> room q" "pop (length (contents q)) (push vs q) = Some q'"
  shows "contents q' = vs"
  using push_law [OF assms(1,2)] pop_law [of "push vs q" "length (contents q)"] assms(3) by auto

end

lemma unused_capacity_pos:
  assumes "ring_inv r"
  shows "0 < snd (unused_capacity r) \<longleftrightarrow> rsize r < cap r"
proof (cases "rsize r = cap r")
  case True
  then show ?thesis by (simp add: unused_capacity_def ring_unused_capacity_def)
next
  case False
  then have lt: "rsize r < cap r" using ring_invD(1) [OF assms] by linarith
  then have "0 < cap r" by linarith
  from live_index_less [OF this] have "ring_write_index (cap r) (seek r) (rsize r) < cap r"
    by (simp add: ring_write_index_def live_index_def)
  with lt False show ?thesis by (auto simp: unused_capacity_def ring_unused_capacity_def Let_def)
qed

interpretation ring: fifo ring_inv ring_list cap "\<lambda>r. snd (unused_capacity r)" produce destroy_prefix
  by unfold_locales (use ring_invD(1) unused_capacity_pos produce_correct destroy_prefix_correct in auto)

section \<open>Properties\<close>

text \<open>C32. The ring region is a first-in first-out queue: constructing values in its unused
  capacity and reporting them appends them, destroying a prefix removes the oldest, and
  the (at most two) chunks it lends always read as the live values in order.\<close>

theorem ring_region_is_queue:
  assumes "ring_inv r" "length vs \<le> snd (unused_capacity r)" "n \<le> rsize r"
  shows "concat (constructed r) = map Some (ring_list r) \<and> length (constructed r) \<le> 2
    \<and> ring_inv (produce vs r) \<and> ring_list (produce vs r) = ring_list r @ vs
    \<and> (\<exists>r'. destroy_prefix n r = Some r' \<and> ring_inv r' \<and> ring_list r' = drop n (ring_list r))"
proof -
  have "\<exists>r'. destroy_prefix n r = Some r' \<and> ring_inv r' \<and> ring_list r' = drop n (ring_list r)"
    using ring.pop_law [OF assms(1)] assms(3) by auto
  moreover have "length (constructed r) \<le> 2" by (simp add: constructed_def ring_chunks_def Let_def)
  ultimately show ?thesis
    using constructed_values [OF assms(1)] ring.push_law [OF assms(1,2)] by blast
qed

definition sample_ring :: "nat ring" where
  "sample_ring = \<lparr>slots = [Some 3, None, None, Some 1, Some 2], seek = 3, rsize = 3\<rparr>"

lemma sample_ring_inv: "ring_inv sample_ring"
proof -
  have "slots sample_ring ! live_index sample_ring i \<noteq> None \<longleftrightarrow> i < 3" if "i < 5" for i
  proof -
    from that consider "i = 0" | "i = 1" | "i = 2" | "i = 3" | "i = 4" by linarith
    then show ?thesis by cases (simp_all add: sample_ring_def live_index_def)
  qed
  then show ?thesis by (simp add: ring_inv_def) (simp add: sample_ring_def)
qed

theorem ring_region_is_queue_witness:
  "ring_list sample_ring = [1, 2, 3]
    \<and> concat (constructed sample_ring) = map Some (ring_list sample_ring)
    \<and> ring_list (produce [4, 5] sample_ring) = ring_list sample_ring @ [4, 5]
    \<and> (\<exists>r'. destroy_prefix 2 sample_ring = Some r' \<and> ring_list r' = drop 2 (ring_list sample_ring))"
proof -
  have "ring_list sample_ring = [1, 2, 3]"
    by (simp add: ring_list_def sample_ring_def live_index_def upt_rec)
  moreover have "length [4, 5 :: nat] \<le> snd (unused_capacity sample_ring)" "2 \<le> rsize sample_ring"
    by (simp_all add: sample_ring_def unused_capacity_def ring_unused_capacity_def ring_write_index_def)
  ultimately show ?thesis using ring_region_is_queue [OF sample_ring_inv] by blast
qed

text \<open>\<^verbatim>\<open>first\<close> and \<^verbatim>\<open>subspan\<close> of a chunk view never run out of chunk slots, and show exactly
  the prefix and the window of the sequence the view reads as.\<close>

theorem chunk_view_windows:
  assumes "length cs \<le> inline"
  shows "\<exists>a b. chunks_first inline cs n = Inr a \<and> concat a = take n (concat cs)
    \<and> chunks_subspan inline cs off count = Inr b \<and> concat b = take count (drop off (concat cs))"
proof -
  obtain a where a: "chunks_first inline cs n = Inr a" "concat a = take n (concat cs)"
    using chunks_first_from_ok [of "[]" cs inline n] assms by (auto simp: chunks_first_def)
  obtain b where "chunks_subspan inline cs off count = Inr b"
    using chunks_subspan_from_ok [of "[]" cs inline off count] assms by (auto simp: chunks_subspan_def)
  with a show ?thesis
    using chunks_subspan_from_concat [of inline "[]" cs off count b] by (simp add: chunks_subspan_def)
qed

theorem chunk_view_windows_witness:
  "\<exists>a b. chunks_first 2 [[1, 2], [3, 4 :: nat]] 3 = Inr a \<and> concat a = take 3 (concat [[1, 2], [3, 4]])
    \<and> chunks_subspan 2 [[1, 2], [3, 4 :: nat]] 1 2 = Inr b \<and> concat b = take 2 (drop 1 (concat [[1, 2], [3, 4]]))"
  by (rule chunk_view_windows) simp

lemma chop_frames_sum:
  "chop_frames inline scanner stock off = Inr fs \<Longrightarrow> off \<le> chunks_size stock \<Longrightarrow>
     off + sum_list (map fst fs) \<le> chunks_size stock \<and> (\<forall>f \<in> set fs. 0 < fst f)"
proof (induction inline scanner stock off arbitrary: fs rule: chop_frames.induct)
  case (1 inline scanner stock off)
  show ?case
  proof (cases "chop_refresh inline scanner stock off")
    case (Inl e)
    then show ?thesis using "1.prems" by (simp add: chop_frames.simps [of inline scanner stock off])
  next
    case (Inr x)
    show ?thesis
    proof (cases x)
      case None
      then show ?thesis using "1.prems" Inr by (simp add: chop_frames.simps [of inline scanner stock off])
    next
      case (Some ef)
      obtain e f where ef: "ef = (e, f)" by (cases ef)
      note b = chop_refresh_bounds [OF Inr [unfolded Some ef]]
      obtain gs where gs: "chop_frames inline scanner stock (off + e) = Inr gs" "fs = (e, f) # gs"
        using "1.prems" Inr Some ef
        by (cases "chop_frames inline scanner stock (off + e)")
          (auto simp: chop_frames.simps [of inline scanner stock off])
      have "off + e + sum_list (map fst gs) \<le> chunks_size stock \<and> (\<forall>f \<in> set gs. 0 < fst f)"
        using "1.IH" [OF Inr Some ef [symmetric] gs(1)] b by simp
      with gs(2) b show ?thesis by simp
    qed
  qed
qed

lemma chop_extent_frames:
  "chop_frames inline scanner stock off = Inr fs \<Longrightarrow>
     chop_extent inline scanner stock off m out = Inr (out + sum_list (map fst (take m fs)))"
proof (induction m arbitrary: off fs out)
  case 0
  then show ?case
    by (simp add: chop_extent.simps [of inline scanner stock off] chop_frames.simps [of inline scanner stock off]
        split: sum.splits option.splits prod.splits)
next
  case (Suc m)
  show ?case
  proof (cases "chop_refresh inline scanner stock off")
    case (Inl e)
    then show ?thesis using Suc.prems by (simp add: chop_frames.simps [of inline scanner stock off])
  next
    case (Inr x)
    show ?thesis
    proof (cases x)
      case None
      then show ?thesis using Suc.prems Inr
        by (simp add: chop_frames.simps [of inline scanner stock off] chop_extent.simps [of inline scanner stock off])
    next
      case (Some ef)
      obtain e f where ef: "ef = (e, f)" by (cases ef)
      obtain gs where gs: "chop_frames inline scanner stock (off + e) = Inr gs" "fs = (e, f) # gs"
        using Suc.prems Inr Some ef
        by (cases "chop_frames inline scanner stock (off + e)")
          (auto simp: chop_frames.simps [of inline scanner stock off])
      then show ?thesis using Suc.IH [OF gs(1), of "out + e"] Inr Some ef
        by (simp add: chop_extent.simps [of inline scanner stock off])
    qed
  qed
qed

text \<open>Chopping terminates on every stock and scanner; the frames it yields tile a prefix
  of the stock (positive extents that add up to at most its size), and \<^verbatim>\<open>extent\<close> returns the
  sum of the extents of the first \<open>m\<close> of them.\<close>

theorem chop_view_tiles:
  assumes "chop_frames inline scanner stock 0 = Inr fs"
  shows "(\<forall>f \<in> set fs. 0 < fst f) \<and> sum_list (map fst fs) \<le> chunks_size stock
    \<and> chop_count inline scanner stock = Inr (length fs)
    \<and> chop_extent inline scanner stock 0 m 0 = Inr (sum_list (map fst (take m fs)))"
  using chop_frames_sum [OF assms] chop_extent_frames [OF assms, of m 0] assms
  by (simp add: chop_count_def)

theorem chop_view_tiles_witness:
  "chop_count 2 (\<lambda>cs. Some (2, hd (concat cs))) [[1, 2, 3], [4 :: nat]] = Inr 2"
proof -
  have f: "chop_frames 2 (\<lambda>cs. Some (2, hd (concat cs))) [[1, 2, 3], [4 :: nat]] 0 = Inr [(2, 1), (2, 3)]"
    by (simp add: chop_frames.simps chop_refresh_def chunks_subspan_def chunks_append_def chunks_empty_def Let_def)
  from chop_view_tiles [OF f] show ?thesis by simp
qed

end
