(* ===== verification/Input.thy ===== *)
theory Input
  imports Nxt_Prelude "HOL-Library.Sublist"
begin

text \<open>
  Keyboard input decoding, \<^verbatim>\<open>src/nxtui/input.hpp\<close> and \<^verbatim>\<open>src/nxtui/input.cpp\<close>: the incremental
  parser from terminal bytes to key events.  Strings are byte lists; \<^verbatim>\<open>long\<close> is a 64-bit word
  read with \<open>sint\<close> (the accumulation in \<^verbatim>\<open>parse_number\<close> wraps, where the C++ standard leaves
  signed overflow undefined).  The terminal mode guard is system calls only and is
  not modelled.
\<close>

section \<open>Model: events\<close>

datatype Key = K_unknown | K_character | K_enter | K_tab | K_backspace | K_escape | K_insert | K_delete
  | K_left | K_right | K_up | K_down | K_home | K_end | K_page_up | K_page_down | K_begin
  | K_f1 | K_f2 | K_f3 | K_f4 | K_f5 | K_f6 | K_f7 | K_f8 | K_f9 | K_f10 | K_f11 | K_f12

datatype EventType = Press | Repeat | Release

record Modifiers =
  m_shift :: bool
  m_alt :: bool
  m_ctrl :: bool
  m_super :: bool
  m_hyper :: bool
  m_meta :: bool
  m_caps_lock :: bool
  m_num_lock :: bool

definition no_modifiers :: Modifiers where
  "no_modifiers = \<lparr>m_shift = False, m_alt = False, m_ctrl = False, m_super = False, m_hyper = False,
     m_meta = False, m_caps_lock = False, m_num_lock = False\<rparr>"

text \<open>A position is its column and row offset from the terminal origin.\<close>

record Pos =
  pos_x :: u64
  pos_y :: u64

record KeyEvent =
  ev_key :: Key
  ev_type :: EventType
  ev_mods :: Modifiers
  ev_codepoint :: u32
  ev_shifted :: "u32 option"
  ev_base_layout :: "u32 option"
  ev_text :: bytes
  ev_raw :: bytes
  ev_cursor :: "Pos option"

definition new_event :: KeyEvent where
  "new_event = \<lparr>ev_key = K_unknown, ev_type = Press, ev_mods = no_modifiers, ev_codepoint = 0,
     ev_shifted = None, ev_base_layout = None, ev_text = [], ev_raw = [], ev_cursor = None\<rparr>"

definition is_text :: "KeyEvent \<Rightarrow> bool" where
  "is_text e \<longleftrightarrow> ev_key e = K_character \<and> ev_type e \<noteq> Release \<and> ev_text e \<noteq> []
     \<and> \<not> m_alt (ev_mods e) \<and> \<not> m_ctrl (ev_mods e) \<and> \<not> m_super (ev_mods e) \<and> \<not> m_hyper (ev_mods e) \<and> \<not> m_meta (ev_mods e)"

definition is_ctrl_key :: "u32 \<Rightarrow> KeyEvent \<Rightarrow> bool" where
  "is_ctrl_key cp e \<longleftrightarrow> ev_key e = K_character \<and> ev_type e \<noteq> Release \<and> ev_codepoint e = cp \<and> m_ctrl (ev_mods e)
     \<and> \<not> m_alt (ev_mods e) \<and> \<not> m_super (ev_mods e) \<and> \<not> m_hyper (ev_mods e) \<and> \<not> m_meta (ev_mods e)"

definition is_ctrl_c :: "KeyEvent \<Rightarrow> bool" where "is_ctrl_c = is_ctrl_key 0x63"
definition is_ctrl_l :: "KeyEvent \<Rightarrow> bool" where "is_ctrl_l = is_ctrl_key 0x6c"
definition is_ctrl_z :: "KeyEvent \<Rightarrow> bool" where "is_ctrl_z = is_ctrl_key 0x7a"

definition is_cursor_position_report :: "KeyEvent \<Rightarrow> bool" where
  "is_cursor_position_report e \<longleftrightarrow> ev_cursor e \<noteq> None"

section \<open>Model: fields of a control sequence\<close>

definition encode_utf8 :: "u32 \<Rightarrow> bytes" where
  "encode_utf8 cp =
     (if cp \<le> 0x7f then [ucast cp]
      else if cp \<le> 0x7ff then [ucast (0xc0 OR drop_bit 6 cp), ucast (0x80 OR (cp AND 0x3f))]
      else if cp \<le> 0xffff then
        [ucast (0xe0 OR drop_bit 12 cp), ucast (0x80 OR (drop_bit 6 cp AND 0x3f)), ucast (0x80 OR (cp AND 0x3f))]
      else [ucast (0xf0 OR drop_bit 18 cp), ucast (0x80 OR (drop_bit 12 cp AND 0x3f)),
            ucast (0x80 OR (drop_bit 6 cp AND 0x3f)), ucast (0x80 OR (cp AND 0x3f))])"

fun parse_digits :: "bytes \<Rightarrow> u64 \<Rightarrow> u64 option" where
  "parse_digits [] v = Some v"
| "parse_digits (c # cs) v = (if c < 0x30 \<or> c > 0x39 then None else parse_digits cs (v * 10 + ucast (c - 0x30)))"

definition parse_number :: "bytes \<Rightarrow> u64 option" where
  "parse_number text = (if text = [] then None else parse_digits text 0)"

function split_at :: "byte \<Rightarrow> bytes \<Rightarrow> bytes list" where
  "split_at sep body =
     (let p = takeWhile (\<lambda>b. b \<noteq> sep) body
      in if length p = length body then [p] else p # split_at sep (drop (length p + 1) body))"
  by auto
termination by (relation "measure (length o snd)") (auto intro!: diff_less)

definition decode_modifiers :: "u64 \<Rightarrow> Modifiers" where
  "decode_modifiers encoded =
     (let b = (if sint encoded > 0 then encoded - 1 else 0) in
      \<lparr>m_shift = b AND 1 \<noteq> 0, m_alt = b AND 2 \<noteq> 0, m_ctrl = b AND 4 \<noteq> 0, m_super = b AND 8 \<noteq> 0,
       m_hyper = b AND 16 \<noteq> 0, m_meta = b AND 32 \<noteq> 0, m_caps_lock = b AND 64 \<noteq> 0, m_num_lock = b AND 128 \<noteq> 0\<rparr>)"

definition decode_event_type :: "u64 \<Rightarrow> EventType" where
  "decode_event_type encoded = (if encoded = 2 then Repeat else if encoded = 3 then Release else Press)"

definition parse_codepoint :: "bytes \<Rightarrow> u32 option" where
  "parse_codepoint text =
     (case parse_number text of
        None \<Rightarrow> None
      | Some v \<Rightarrow>
          if sint v < 0 \<or> sint v > 0x10ffff then None
          else if sint v \<ge> 0xd800 \<and> sint v \<le> 0xdfff then None
          else Some (ucast v))"

fun encode_parts :: "bytes list \<Rightarrow> bytes \<Rightarrow> bytes option" where
  "encode_parts [] out = Some out"
| "encode_parts (p # ps) out =
     (case parse_codepoint p of None \<Rightarrow> None | Some cp \<Rightarrow> encode_parts ps (out @ encode_utf8 cp))"

definition parse_associated_text :: "bytes \<Rightarrow> bytes option" where
  "parse_associated_text text = (if text = [] then Some [] else encode_parts (split_at 0x3a text) [])"

definition key_from_tilde :: "u32 \<Rightarrow> Key" where
  "key_from_tilde n =
     (if n = 2 then K_insert else if n = 3 then K_delete else if n = 5 then K_page_up else if n = 6 then K_page_down
      else if n = 7 then K_home else if n = 8 then K_end else if n = 11 then K_f1 else if n = 12 then K_f2
      else if n = 13 then K_f3 else if n = 14 then K_f4 else if n = 15 then K_f5 else if n = 17 then K_f6
      else if n = 18 then K_f7 else if n = 19 then K_f8 else if n = 20 then K_f9 else if n = 21 then K_f10
      else if n = 23 then K_f11 else if n = 24 then K_f12 else K_unknown)"

definition key_from_final :: "byte \<Rightarrow> Key" where
  "key_from_final command =
     (if command = 0x41 then K_up else if command = 0x42 then K_down else if command = 0x43 then K_right
      else if command = 0x44 then K_left else if command = 0x45 then K_begin else if command = 0x46 then K_end
      else if command = 0x48 then K_home else if command = 0x50 then K_f1 else if command = 0x51 then K_f2
      else if command = 0x52 then K_f3 else if command = 0x53 then K_f4 else if command = 0x5a then K_tab
      else K_unknown)"

definition key_from_codepoint :: "u32 \<Rightarrow> Key" where
  "key_from_codepoint cp =
     (if cp = 0 then K_unknown else if cp = 9 then K_tab else if cp = 13 then K_enter else if cp = 27 then K_escape
      else if cp = 127 then K_backspace else if cp \<ge> 0xe000 \<and> cp \<le> 0xf8ff then K_unknown else K_character)"

definition valid_utf8_cont :: "byte \<Rightarrow> bool" where
  "valid_utf8_cont c \<longleftrightarrow> c AND 0xc0 = 0x80"

section \<open>Model: the parser\<close>

datatype CsiResult = CsiIncomplete | CsiParsed | CsiInvalid

text \<open>The stages of \<^verbatim>\<open>parse_csi\<close>.  \<open>Inl\<close> is an early return of \<^verbatim>\<open>invalid\<close>, with the event as far as
  it was filled in; \<open>Inr\<close> goes on.\<close>

definition csi_report :: "bytes \<Rightarrow> bytes list \<Rightarrow> KeyEvent \<Rightarrow> CsiResult \<times> KeyEvent" where
  "csi_report raw params event =
     (case (parse_number (params ! 0), parse_number (params ! 1)) of
        (Some row, Some col) \<Rightarrow>
          if sint row \<le> 0 \<or> sint col \<le> 0 then (CsiInvalid, event)
          else (CsiParsed, event\<lparr>ev_raw := raw, ev_key := K_unknown, ev_cursor := Some \<lparr>pos_x = col - 1, pos_y = row - 1\<rparr>\<rparr>)
      | _ \<Rightarrow> (CsiInvalid, event))"

definition csi_alternates :: "bytes list \<Rightarrow> KeyEvent \<Rightarrow> KeyEvent + KeyEvent" where
  "csi_alternates key_parts event =
     (case (if length key_parts \<ge> 2 \<and> key_parts ! 1 \<noteq> []
            then case parse_codepoint (key_parts ! 1) of None \<Rightarrow> Inl event | Some s \<Rightarrow> Inr (event\<lparr>ev_shifted := Some s\<rparr>)
            else Inr event) of
        Inl e \<Rightarrow> Inl e
      | Inr e \<Rightarrow>
          if length key_parts \<ge> 3 \<and> key_parts ! 2 \<noteq> []
          then case parse_codepoint (key_parts ! 2) of None \<Rightarrow> Inl e | Some b \<Rightarrow> Inr (e\<lparr>ev_base_layout := Some b\<rparr>)
          else Inr e)"

definition csi_modifiers :: "bytes list \<Rightarrow> KeyEvent \<Rightarrow> KeyEvent + KeyEvent" where
  "csi_modifiers params event =
     (if length params \<ge> 2 then
        let parts = split_at 0x3a (params ! 1);
            e = (case parse_number (parts ! 0) of None \<Rightarrow> event | Some m \<Rightarrow> event\<lparr>ev_mods := decode_modifiers m\<rparr>)
        in if length parts \<ge> 2 \<and> parts ! 1 \<noteq> []
           then case parse_number (parts ! 1) of None \<Rightarrow> Inl e | Some t \<Rightarrow> Inr (e\<lparr>ev_type := decode_event_type t\<rparr>)
           else Inr e
      else Inr event)"

fun associated :: "bytes \<Rightarrow> bytes list \<Rightarrow> bytes" where
  "associated a [] = a"
| "associated a (p # ps) = (if a = [] then associated p ps else a)"

definition csi_text :: "bytes list \<Rightarrow> KeyEvent \<Rightarrow> KeyEvent + KeyEvent" where
  "csi_text params event =
     (if length params \<ge> 3 then
        let a = associated (params ! 2) (drop 3 params)
        in if a = [] then Inr event
           else case parse_associated_text a of None \<Rightarrow> Inl event | Some text \<Rightarrow> Inr (event\<lparr>ev_text := text\<rparr>)
      else Inr event)"

definition csi_key :: "byte \<Rightarrow> u32 option \<Rightarrow> KeyEvent \<Rightarrow> KeyEvent" where
  "csi_key command first event =
     (if command = 0x75 then
        let cp = the first;
            k = key_from_codepoint cp;
            k = (if ev_text event \<noteq> [] \<and> k = K_unknown then K_character else k)
        in event\<lparr>ev_codepoint := cp, ev_key := k,
                 ev_text := (if k = K_character \<and> ev_text event = [] then encode_utf8 cp else ev_text event)\<rparr>
      else if command = 0x7e then event\<lparr>ev_key := key_from_tilde (the first)\<rparr>
      else if command = 0x5a
      then event\<lparr>ev_key := key_from_final command, ev_mods := (ev_mods event)\<lparr>m_shift := True\<rparr>\<rparr>
      else event\<lparr>ev_key := key_from_final command\<rparr>)"

definition parse_csi :: "nat \<Rightarrow> bytes \<Rightarrow> KeyEvent \<Rightarrow> CsiResult \<times> KeyEvent" where
  "parse_csi fin pending event =
     (let raw = take (fin + 1) pending; body = take (fin - 2) (drop 2 pending); command = pending ! fin in
      if body \<noteq> [] \<and> hd body = 0x3c then (CsiInvalid, event)
      else let params = split_at 0x3b body in
      if command = 0x52 \<and> length params = 2 then csi_report raw params event
      else
        let key_parts = split_at 0x3a (params ! 0);
            first = (if key_parts ! 0 = [] then None else parse_codepoint (key_parts ! 0))
        in if first = None \<and> command \<noteq> 0x5a then (CsiInvalid, event)
        else case csi_alternates key_parts (event\<lparr>ev_raw := raw\<rparr>) of
          Inl e \<Rightarrow> (CsiInvalid, e)
        | Inr e1 \<Rightarrow> (case csi_modifiers params e1 of
            Inl e \<Rightarrow> (CsiInvalid, e)
          | Inr e2 \<Rightarrow> (case csi_text params e2 of
              Inl e \<Rightarrow> (CsiInvalid, e)
            | Inr e3 \<Rightarrow> (CsiParsed, csi_key command first e3))))"

definition parse_control :: "byte \<Rightarrow> KeyEvent \<Rightarrow> bool \<times> KeyEvent" where
  "parse_control c event =
     (let event = event\<lparr>ev_raw := [c]\<rparr> in
      if c = 0x0d \<or> c = 0x0a then (True, event\<lparr>ev_key := K_enter\<rparr>)
      else if c = 0x09 then (True, event\<lparr>ev_key := K_tab\<rparr>)
      else if c = 0x08 \<or> c = 0x7f then (True, event\<lparr>ev_key := K_backspace\<rparr>)
      else if c \<ge> 1 \<and> c \<le> 26 then
        (True, event\<lparr>ev_key := K_character, ev_mods := (ev_mods event)\<lparr>m_ctrl := True\<rparr>,
                     ev_codepoint := 0x61 + ucast c - 1, ev_text := encode_utf8 (0x61 + ucast c - 1)\<rparr>)
      else (True, event\<lparr>ev_key := K_unknown\<rparr>))"

text \<open>The length of the sequence a byte starts and the bits it contributes; \<open>None\<close> is no start byte.\<close>

definition utf8_lead :: "byte \<Rightarrow> (nat \<times> u32) option" where
  "utf8_lead first =
     (if first AND 0x80 = 0 then Some (1, ucast first)
      else if first AND 0xe0 = 0xc0 then Some (2, ucast (first AND 0x1f))
      else if first AND 0xf0 = 0xe0 then Some (3, ucast (first AND 0x0f))
      else if first AND 0xf8 = 0xf0 then Some (4, ucast (first AND 0x07))
      else None)"

fun utf8_tail :: "bytes \<Rightarrow> u32 \<Rightarrow> u32 option" where
  "utf8_tail [] cp = Some cp"
| "utf8_tail (c # cs) cp =
     (if \<not> valid_utf8_cont c then None else utf8_tail cs (push_bit 6 cp OR ucast (c AND 0x3f)))"

definition parse_utf8 :: "bytes \<Rightarrow> KeyEvent \<Rightarrow> (KeyEvent \<times> bytes) option" where
  "parse_utf8 pending event =
     (let bad = (event\<lparr>ev_key := K_unknown, ev_raw := take 1 pending\<rparr>, drop 1 pending) in
      case utf8_lead (hd pending) of
        None \<Rightarrow> Some bad
      | Some (len, cp) \<Rightarrow>
          if length pending < len then None
          else case utf8_tail (take (len - 1) (drop 1 pending)) cp of
            None \<Rightarrow> Some bad
          | Some cp \<Rightarrow> Some (event\<lparr>ev_key := K_character, ev_codepoint := cp, ev_text := take len pending,
                                ev_raw := take len pending\<rparr>, drop len pending))"

definition csi_end :: "bytes \<Rightarrow> nat option" where
  "csi_end pending =
     (let i = 2 + length (takeWhile (\<lambda>b. \<not> (b \<ge> 0x40 \<and> b \<le> 0x7e)) (drop 2 pending))
      in if i < length pending then Some i else None)"

text \<open>One round of the loop of \<^verbatim>\<open>feed\<close> on non-empty pending bytes: the event and the bytes left, or
  \<open>None\<close> where the loop breaks.\<close>

definition feed_step :: "bytes \<Rightarrow> (KeyEvent \<times> bytes) option" where
  "feed_step pending =
     (let c = hd pending; escape = (\<lambda>e. (e\<lparr>ev_key := K_escape, ev_raw := take 1 pending\<rparr>, drop 1 pending)) in
      if c = 0x1b then
        if length pending = 1 then None
        else if pending ! 1 = 0x5b then
          (case csi_end pending of
             None \<Rightarrow> None
           | Some fin \<Rightarrow>
               (case parse_csi fin pending new_event of
                  (CsiParsed, e) \<Rightarrow> Some (e, drop (fin + 1) pending)
                | (CsiInvalid, e) \<Rightarrow>
                    Some (e\<lparr>ev_key := K_unknown, ev_raw := take (fin + 1) pending\<rparr>, drop (fin + 1) pending)
                | (CsiIncomplete, e) \<Rightarrow> Some (escape e)))
        else Some (escape new_event)
      else if c < 0x20 \<or> c = 0x7f then
        (case parse_control c new_event of
           (True, e) \<Rightarrow> Some (e, drop 1 pending)
         | (False, e) \<Rightarrow> parse_utf8 pending e)
      else parse_utf8 pending new_event)"

fun flush :: "bytes \<Rightarrow> KeyEvent list" where
  "flush [] = []"
| "flush (c # pending) =
     (if c = 0x1b then new_event\<lparr>ev_key := K_escape, ev_raw := [c]\<rparr>
      else if c < 0x20 \<or> c = 0x7f then snd (parse_control c new_event)
      else new_event\<lparr>ev_key := K_unknown, ev_raw := [c]\<rparr>) # flush pending"

section \<open>Every round consumes the bytes its event records\<close>

declare split_at.simps [simp del]

lemma csi_alternates_raw: "csi_alternates kp e = Inr e' \<Longrightarrow> ev_raw e' = ev_raw e"
  by (auto simp: csi_alternates_def split: if_splits option.splits)

lemma csi_modifiers_raw: "csi_modifiers ps e = Inr e' \<Longrightarrow> ev_raw e' = ev_raw e"
  by (auto simp: csi_modifiers_def Let_def split: if_splits option.splits)

lemma csi_text_raw: "csi_text ps e = Inr e' \<Longrightarrow> ev_raw e' = ev_raw e"
  by (auto simp: csi_text_def Let_def split: if_splits option.splits)

lemma csi_key_raw [simp]: "ev_raw (csi_key c f e) = ev_raw e"
  by (simp add: csi_key_def Let_def)

lemma csi_report_result:
  "csi_report raw ps e = (CsiParsed, e') \<Longrightarrow> ev_raw e' = raw" "fst (csi_report raw ps e) \<noteq> CsiIncomplete"
  by (auto simp: csi_report_def split: if_splits option.splits)

text \<open>The part of \<^verbatim>\<open>parse_csi\<close> after the first key code is known.\<close>

definition csi_rest :: "bytes list \<Rightarrow> byte \<Rightarrow> u32 option \<Rightarrow> bytes list \<Rightarrow> KeyEvent \<Rightarrow> CsiResult \<times> KeyEvent" where
  "csi_rest key_parts command first params event =
     (case csi_alternates key_parts event of
        Inl e \<Rightarrow> (CsiInvalid, e)
      | Inr e1 \<Rightarrow> (case csi_modifiers params e1 of
          Inl e \<Rightarrow> (CsiInvalid, e)
        | Inr e2 \<Rightarrow> (case csi_text params e2 of
            Inl e \<Rightarrow> (CsiInvalid, e)
          | Inr e3 \<Rightarrow> (CsiParsed, csi_key command first e3))))"

lemma csi_rest_result:
  "csi_rest kp c f ps e = (CsiParsed, e') \<Longrightarrow> ev_raw e' = ev_raw e" "fst (csi_rest kp c f ps e) \<noteq> CsiIncomplete"
  by (auto simp: csi_rest_def split: sum.splits dest!: csi_alternates_raw csi_modifiers_raw csi_text_raw)

lemma parse_csi_result:
  "parse_csi fin p e = (CsiParsed, e') \<Longrightarrow> ev_raw e' = take (fin + 1) p" "fst (parse_csi fin p e) \<noteq> CsiIncomplete"
  unfolding parse_csi_def csi_rest_def [symmetric]
  using csi_report_result csi_rest_result by (fastforce simp: Let_def split: if_splits)+

lemmas parse_csi_raw = parse_csi_result(1) and parse_csi_not_incomplete = parse_csi_result(2)

lemma parse_control_raw: "fst (parse_control c e) \<and> ev_raw (snd (parse_control c e)) = [c]"
  by (simp add: parse_control_def Let_def)

lemma utf8_lead_pos: "utf8_lead c = Some (n, cp) \<Longrightarrow> 1 \<le> n \<and> n \<le> 4"
  by (auto simp: utf8_lead_def split: if_splits)

lemma parse_utf8_raw:
  assumes "p \<noteq> []" "parse_utf8 p e = Some (e', rest)"
  shows "p = ev_raw e' @ rest \<and> ev_raw e' \<noteq> []"
  using assms utf8_lead_pos [of "hd p"]
  by (auto simp: parse_utf8_def Let_def take_Suc_conv_app_nth split: option.splits prod.splits if_splits)
    (auto simp: take_Suc neq_Nil_conv)

lemma csi_end_bound: "csi_end p = Some i \<Longrightarrow> 2 \<le> i \<and> i < length p"
  by (auto simp: csi_end_def Let_def split: if_splits)

lemma feed_step_raw:
  assumes "p \<noteq> []" "feed_step p = Some (e, rest)"
  shows "p = ev_raw e @ rest \<and> ev_raw e \<noteq> []"
proof -
  obtain c q where p: "p = c # q" using assms(1) by (cases p) auto
  show ?thesis
  proof (cases "c = 0x1b")
    case True
    then show ?thesis
      using assms(2) parse_csi_not_incomplete csi_end_bound parse_csi_raw
      by (auto simp: feed_step_def p Let_def split: if_splits option.splits prod.splits CsiResult.splits)
  next
    case False
    then show ?thesis
      using assms(2) parse_control_raw [of c new_event] parse_utf8_raw [OF assms(1)]
      by (auto simp: feed_step_def p Let_def split: if_splits prod.splits bool.splits)
  qed
qed

text \<open>\<^verbatim>\<open>Parser::feed\<close>: append the bytes, then take events while the loop does not break.\<close>

function feed_loop :: "bytes \<Rightarrow> KeyEvent list \<times> bytes" where
  "feed_loop pending =
     (if pending = [] then ([], [])
      else case feed_step pending of
        None \<Rightarrow> ([], pending)
      | Some (e, rest) \<Rightarrow> (let (es, p) = feed_loop rest in (e # es, p)))"
  by auto
termination
proof (relation "measure length")
  fix pending x e rest
  assume "pending \<noteq> []" "feed_step pending = Some x" "(e, rest) = x"
  then have "pending = ev_raw e @ rest" "ev_raw e \<noteq> []" using feed_step_raw by blast+
  then have "length pending = length (ev_raw e) + length rest" "0 < length (ev_raw e)" by (metis length_append, simp)
  then show "(rest, pending) \<in> measure length" by simp
qed simp

definition feed :: "bytes \<Rightarrow> bytes \<Rightarrow> KeyEvent list \<times> bytes" where
  "feed pending bytes = feed_loop (pending @ bytes)"

definition has_pending :: "bytes \<Rightarrow> bool" where
  "has_pending pending \<longleftrightarrow> pending \<noteq> []"

declare feed_loop.simps [simp del]

lemma feed_loop_stop: "p = [] \<or> feed_step p = None \<Longrightarrow> feed_loop p = ([], p)"
  by (subst feed_loop.simps) auto

lemma feed_loop_step:
  "p \<noteq> [] \<Longrightarrow> feed_step p = Some (e, rest) \<Longrightarrow> feed_loop p = (e # fst (feed_loop rest), snd (feed_loop rest))"
  by (subst feed_loop.simps) (simp add: case_prod_unfold Let_def)

lemma feed_loop_cases [case_names stop step]:
  assumes "\<And>p. p = [] \<or> feed_step p = None \<Longrightarrow> P p"
    "\<And>p e rest. p \<noteq> [] \<Longrightarrow> feed_step p = Some (e, rest) \<Longrightarrow> P rest \<Longrightarrow> P p"
  shows "P p"
proof (induction p rule: feed_loop.induct)
  case (1 p)
  then show ?case using assms by (cases "p = [] \<or> feed_step p = None") auto
qed

lemma feed_loop_raw: "concat (map ev_raw (fst (feed_loop p))) @ snd (feed_loop p) = p"
  by (induction p rule: feed_loop_cases) (auto simp: feed_loop_stop feed_loop_step dest: feed_step_raw)

section \<open>Decisions do not depend on later bytes\<close>

lemma csi_end_append:
  assumes "csi_end p = Some i"
  shows "csi_end (p @ b) = Some i"
proof -
  let ?P = "\<lambda>b :: byte. \<not> (b \<ge> 0x40 \<and> b \<le> 0x7e)"
  have i: "i = 2 + length (takeWhile ?P (drop 2 p))" "i < length p"
    using assms by (auto simp: csi_end_def Let_def split: if_splits)
  then have l: "length (takeWhile ?P (drop 2 p)) < length (drop 2 p)" by simp
  have "takeWhile ?P (drop 2 p @ b) = takeWhile ?P (drop 2 p)"
    by (rule takeWhile_append1 [of "drop 2 p ! length (takeWhile ?P (drop 2 p))" _ ?P, OF nth_mem [OF l] nth_length_takeWhile [OF l]])
  moreover have "drop 2 (p @ b) = drop 2 p @ b" using i by simp
  ultimately show ?thesis using i by (simp add: csi_end_def Let_def)
qed

lemma parse_csi_append:
  assumes "fin < length p"
  shows "parse_csi fin (p @ b) e = parse_csi fin p e"
proof -
  have "take (fin - 2) (drop 2 (p @ b)) = take (fin - 2) (drop 2 p)" using assms by simp
  then show ?thesis using assms by (simp add: parse_csi_def nth_append)
qed

lemma parse_utf8_append:
  assumes "p \<noteq> []" "parse_utf8 p e = Some (e', rest)"
  shows "parse_utf8 (p @ b) e = Some (e', rest @ b)"
proof (cases "utf8_lead (hd p)")
  case None
  then show ?thesis using assms by (cases p) (auto simp: parse_utf8_def Let_def)
next
  case (Some a)
  obtain n cp where a: "a = (n, cp)" by (cases a)
  have n: "n \<le> length p" "1 \<le> n" using assms(2) Some utf8_lead_pos [of "hd p"] by (auto simp: parse_utf8_def Let_def a split: if_splits)
  then have "take (n - 1) (drop 1 (p @ b)) = take (n - 1) (drop 1 p)" using assms(1) by (cases p) auto
  moreover have "hd (p @ b) = hd p" "take 1 (p @ b) = take 1 p" "drop 1 (p @ b) = drop 1 p @ b" using assms(1) by (cases p; simp)+
  ultimately show ?thesis using assms(2) Some n by (auto simp: parse_utf8_def Let_def a split: option.splits)
qed

lemma feed_step_csi:
  assumes "hd p = 0x1b" "length p \<noteq> 1" "p ! 1 = 0x5b" "csi_end p = Some fin"
  shows "feed_step p = (case parse_csi fin p new_event of
      (CsiParsed, e) \<Rightarrow> Some (e, drop (fin + 1) p)
    | (CsiInvalid, e) \<Rightarrow> Some (e\<lparr>ev_key := K_unknown, ev_raw := take (fin + 1) p\<rparr>, drop (fin + 1) p)
    | (CsiIncomplete, e) \<Rightarrow> Some (e\<lparr>ev_key := K_escape, ev_raw := take 1 p\<rparr>, drop 1 p))"
  using assms by (simp add: feed_step_def Let_def del: One_nat_def)

lemma feed_step_append:
  assumes "p \<noteq> []" "feed_step p = Some (e, rest)"
  shows "feed_step (p @ b) = Some (e, rest @ b)"
proof -
  have hd: "hd (p @ b) = hd p" "take 1 (p @ b) = take 1 p" "drop 1 (p @ b) = drop 1 p @ b" using assms(1) by (cases p; simp)+
  show ?thesis
  proof (cases "hd p = 0x1b")
    case True
    have l: "length p \<noteq> 1" using assms(2) True by (auto simp: feed_step_def)
    then have l2: "2 \<le> length p" using assms(1) by (cases p) (auto simp: Suc_le_eq)
    then have n1: "(p @ b) ! 1 = p ! 1" "length (p @ b) \<noteq> 1" by (simp_all add: nth_append)
    show ?thesis
    proof (cases "p ! 1 = 0x5b")
      case False
      then show ?thesis using assms(2) True l n1 hd by (auto simp: feed_step_def Let_def)
    next
      case br: True
      then obtain fin where f: "csi_end p = Some fin" using assms(2) True l by (auto simp: feed_step_def Let_def split: option.splits)
      have fl: "fin < length p" using csi_end_bound [OF f] by simp
      have td: "take (fin + 1) (p @ b) = take (fin + 1) p" "drop (fin + 1) (p @ b) = drop (fin + 1) p @ b" using fl by simp_all
      have "hd (p @ b) = 0x1b" "(p @ b) ! 1 = 0x5b" using True n1 br hd by simp_all
      note pb = feed_step_csi [OF this(1) n1(2) this(2) csi_end_append [OF f]]
      show ?thesis
        using assms(2) unfolding pb parse_csi_append [OF fl] td hd feed_step_csi [OF True l br f]
        by (auto split: prod.splits CsiResult.splits)
    qed
  next
    case False
    then show ?thesis
      using assms hd parse_utf8_append [OF assms(1)] by (auto simp: feed_step_def Let_def split: if_splits prod.splits bool.splits)
  qed
qed

lemma feed_loop_append:
  "feed_loop (p @ b) = (fst (feed_loop p) @ fst (feed_loop (snd (feed_loop p) @ b)), snd (feed_loop (snd (feed_loop p) @ b)))"
proof (induction p rule: feed_loop_cases)
  case (stop p)
  then show ?case by (simp add: feed_loop_stop)
next
  case (step p e rest)
  have "feed_loop (p @ b) = (e # fst (feed_loop (rest @ b)), snd (feed_loop (rest @ b)))"
    using feed_loop_step [OF _ feed_step_append [OF step(1,2)]] step(1) by simp
  then show ?case using step(3) by (simp add: feed_loop_step [OF step(1,2)])
qed

lemma feed_loop_stuck: "snd (feed_loop p) = [] \<or> feed_step (snd (feed_loop p)) = None"
  by (induction p rule: feed_loop_cases) (auto simp: feed_loop_stop feed_loop_step)

section \<open>Encoded text and control sequences\<close>

lemma byte_bits: "(\<And>n. n < 8 \<Longrightarrow> bit a n = bit b n) \<Longrightarrow> a = (b :: byte)"
  by (rule bit_word_eqI) simp

lemma high_byte:
  assumes "bit (b :: byte) 7"
  shows "0x80 \<le> b"
proof -
  have "bit (unat b) 7" using assms by (simp add: bit_unsigned_iff)
  then have "odd (unat b div 128)" by (simp add: bit_iff_odd)
  then have "unat b div 128 \<noteq> 0" by (metis even_zero)
  then show ?thesis by (simp add: word_le_nat_alt div_eq_0_iff not_less)
qed

lemma less_8: "n < (8 :: nat) \<longleftrightarrow> n \<in> {0, 1, 2, 3, 4, 5, 6, 7}"
  by auto

lemma cont_byte: "valid_utf8_cont (ucast (0x80 OR (x AND 0x3f :: u32)))"
  "ucast (ucast (0x80 OR (x AND 0x3f :: u32)) AND 0x3f :: byte) = x AND 0x3f"
proof -
  show "valid_utf8_cont (ucast (0x80 OR (x AND 0x3f :: u32)))"
    unfolding valid_utf8_cont_def
    by (rule byte_bits) (auto simp: less_8 bit_and_iff bit_or_iff bit_unsigned_iff)
  show "ucast (ucast (0x80 OR (x AND 0x3f :: u32)) AND 0x3f :: byte) = x AND 0x3f"
  proof (rule bit_word_eqI)
    fix n assume "n < LENGTH(32)"
    have m: "(0x3f :: byte) = mask 6" "(0x3f :: u32) = mask 6" by (simp_all add: mask_eq_exp_minus_1)
    have e: "(0x80 :: u32) = 2 ^ 7" by simp
    have z: "\<not> bit (0x80 :: u32) n" if "n < 6" using that unfolding e bit_exp_iff by simp
    show "bit (ucast (ucast (0x80 OR (x AND 0x3f :: u32)) AND 0x3f :: byte) :: u32) n = bit (x AND 0x3f) n"
      unfolding m using z by (auto simp: bit_and_iff bit_or_iff bit_unsigned_iff bit_mask_iff)
  qed
qed

lemma lead_bytes:
  "unat cp < 2 ^ 7 \<Longrightarrow> utf8_lead (ucast cp) = Some (1, cp)"
  "unat cp < 2 ^ 11 \<Longrightarrow> utf8_lead (ucast (0xc0 OR drop_bit 6 cp)) = Some (2, drop_bit 6 cp)"
  "unat cp < 2 ^ 16 \<Longrightarrow> utf8_lead (ucast (0xe0 OR drop_bit 12 cp)) = Some (3, drop_bit 12 cp)"
  "unat cp < 2 ^ 21 \<Longrightarrow> utf8_lead (ucast (0xf0 OR drop_bit 18 cp)) = Some (4, drop_bit 18 cp)"
proof -
  have nth: "a \<noteq> b" if "bit a n \<noteq> bit b n" for a b :: byte and n using that by auto
  have masks: "(0x1f :: byte) = mask 5" "(0x0f :: byte) = mask 4" "(0x07 :: byte) = mask 3" by (simp_all add: mask_eq_exp_minus_1)
  show "utf8_lead (ucast cp) = Some (1, cp)" if c: "unat cp < 2 ^ 7"
  proof -
    note b = small_word_bit [OF c]
    have "(ucast cp :: byte) AND 0x80 = 0"
      by (rule byte_bits) (use b [of 7] in \<open>auto simp: less_8 bit_and_iff bit_unsigned_iff\<close>)
    moreover have "ucast (ucast cp :: byte) = cp"
      by (rule bit_word_eqI) (use b in \<open>fastforce simp: bit_unsigned_iff\<close>)
    ultimately show ?thesis by (simp add: utf8_lead_def)
  qed
  show "utf8_lead (ucast (0xc0 OR drop_bit 6 cp)) = Some (2, drop_bit 6 cp)" if c: "unat cp < 2 ^ 11"
  proof -
    note b = small_word_bit [OF c]
    define lb where "lb = (ucast (0xc0 OR drop_bit 6 cp) :: byte)"
    have l: "bit lb n \<longleftrightarrow> n < 8 \<and> (n = 6 \<or> n = 7 \<or> bit cp (n + 6))" for n
      unfolding lb_def by (auto simp: less_8 bit_or_iff bit_unsigned_iff bit_drop_bit_eq)
    have "lb AND 0x80 \<noteq> 0" by (rule nth [of _ 7]) (simp add: bit_and_iff l)
    moreover have "lb AND 0xe0 = 0xc0" by (rule byte_bits) (use b [of 11] in \<open>auto simp: less_8 bit_and_iff l\<close>)
    moreover have "ucast (lb AND 0x1f) = drop_bit 6 cp"
      unfolding masks by (rule bit_word_eqI) (auto simp: bit_unsigned_iff bit_and_iff l bit_mask_iff bit_drop_bit_eq add.commute dest: b)
    ultimately show ?thesis unfolding lb_def [symmetric] by (simp add: utf8_lead_def)
  qed
  show "utf8_lead (ucast (0xe0 OR drop_bit 12 cp)) = Some (3, drop_bit 12 cp)" if c: "unat cp < 2 ^ 16"
  proof -
    note b = small_word_bit [OF c]
    define lb where "lb = (ucast (0xe0 OR drop_bit 12 cp) :: byte)"
    have l: "bit lb n \<longleftrightarrow> n < 8 \<and> (n = 5 \<or> n = 6 \<or> n = 7 \<or> bit cp (n + 12))" for n
      unfolding lb_def by (auto simp: less_8 bit_or_iff bit_unsigned_iff bit_drop_bit_eq)
    have "lb AND 0x80 \<noteq> 0" by (rule nth [of _ 7]) (simp add: bit_and_iff l)
    moreover have "lb AND 0xe0 \<noteq> 0xc0" by (rule nth [of _ 5]) (simp add: bit_and_iff l)
    moreover have "lb AND 0xf0 = 0xe0" by (rule byte_bits) (use b [of 16] in \<open>auto simp: less_8 bit_and_iff l\<close>)
    moreover have "ucast (lb AND 0x0f) = drop_bit 12 cp"
      unfolding masks by (rule bit_word_eqI) (auto simp: bit_unsigned_iff bit_and_iff l bit_mask_iff bit_drop_bit_eq add.commute dest: b)
    ultimately show ?thesis unfolding lb_def [symmetric] by (simp add: utf8_lead_def)
  qed
  show "utf8_lead (ucast (0xf0 OR drop_bit 18 cp)) = Some (4, drop_bit 18 cp)" if c: "unat cp < 2 ^ 21"
  proof -
    note b = small_word_bit [OF c]
    define lb where "lb = (ucast (0xf0 OR drop_bit 18 cp) :: byte)"
    have l: "bit lb n \<longleftrightarrow> n < 8 \<and> (n = 4 \<or> n = 5 \<or> n = 6 \<or> n = 7 \<or> bit cp (n + 18))" for n
      unfolding lb_def by (auto simp: less_8 bit_or_iff bit_unsigned_iff bit_drop_bit_eq)
    have "lb AND 0x80 \<noteq> 0" by (rule nth [of _ 7]) (simp add: bit_and_iff l)
    moreover have "lb AND 0xe0 \<noteq> 0xc0" by (rule nth [of _ 5]) (simp add: bit_and_iff l)
    moreover have "lb AND 0xf0 \<noteq> 0xe0" by (rule nth [of _ 4]) (simp add: bit_and_iff l)
    moreover have "lb AND 0xf8 = 0xf0" by (rule byte_bits) (use b [of 21] in \<open>auto simp: less_8 bit_and_iff l\<close>)
    moreover have "ucast (lb AND 0x07) = drop_bit 18 cp"
      unfolding masks by (rule bit_word_eqI) (auto simp: bit_unsigned_iff bit_and_iff l bit_mask_iff bit_drop_bit_eq add.commute dest: b)
    ultimately show ?thesis unfolding lb_def [symmetric] by (simp add: utf8_lead_def)
  qed
qed

text \<open>Six bits at a time back onto the bits above them.\<close>

lemma append_six: "push_bit 6 (drop_bit (n + 6) cp) OR (drop_bit n cp AND 0x3f) = drop_bit n (cp :: u32)"
proof -
  have m: "(0x3f :: u32) = mask 6" by (simp add: mask_eq_exp_minus_1)
  show ?thesis unfolding m
    by (rule bit_word_eqI) (auto simp: bit_or_iff bit_and_iff bit_push_bit_iff bit_drop_bit_eq bit_mask_iff add.commute add.left_commute)
qed

lemma tail_byte: "utf8_tail (ucast (0x80 OR (x AND 0x3f :: u32)) # cs) cp = utf8_tail cs (push_bit 6 cp OR (x AND 0x3f))"
  by (simp add: cont_byte)

lemma append_six_0: "push_bit 6 (drop_bit 6 cp) OR (cp AND 0x3f) = (cp :: u32)"
  "push_bit 6 (drop_bit 12 cp) OR (drop_bit 6 cp AND 0x3f) = drop_bit 6 (cp :: u32)"
  "push_bit 6 (drop_bit 18 cp) OR (drop_bit 12 cp AND 0x3f) = drop_bit 12 (cp :: u32)"
  using append_six [of 0 cp] append_six [of 6 cp] append_six [of 12 cp] by simp_all

lemma parse_utf8_whole:
  assumes "utf8_lead a = Some (Suc (length t), v)" "utf8_tail t v = Some cp"
  shows "parse_utf8 ((a # t) @ rest) e = Some (e\<lparr>ev_key := K_character, ev_codepoint := cp,
    ev_text := a # t, ev_raw := a # t\<rparr>, rest)"
  using assms by (simp add: parse_utf8_def Let_def)

lemma parse_utf8_encoded:
  assumes "unat cp < 2 ^ 21"
  shows "parse_utf8 (encode_utf8 cp @ rest) e = Some (e\<lparr>ev_key := K_character, ev_codepoint := cp,
    ev_text := encode_utf8 cp, ev_raw := encode_utf8 cp\<rparr>, rest)"
proof -
  obtain a t v where en: "encode_utf8 cp = a # t" and l: "utf8_lead a = Some (Suc (length t), v)" and tl: "utf8_tail t v = Some cp"
  proof -
    consider "cp \<le> 0x7f" | "\<not> cp \<le> 0x7f" "cp \<le> 0x7ff" | "\<not> cp \<le> 0x7f" "\<not> cp \<le> 0x7ff" "cp \<le> 0xffff"
      | "\<not> cp \<le> 0x7f" "\<not> cp \<le> 0x7ff" "\<not> cp \<le> 0xffff" by blast
    then show thesis
    proof cases
      case 1
      then have "unat cp < 2 ^ 7" by (simp add: word_le_nat_alt)
      then show thesis using 1 lead_bytes(1) that by (simp add: encode_utf8_def)
    next
      case 2
      then have "unat cp < 2 ^ 11" by (simp add: word_le_nat_alt)
      from lead_bytes(2) [OF this] show thesis
        by (intro that [of "ucast (0xc0 OR drop_bit 6 cp)"
          "[ucast (0x80 OR (cp AND 0x3f))]" "drop_bit 6 cp"]) (use 2 in \<open>simp_all add: encode_utf8_def tail_byte append_six_0 del: utf8_tail.simps(2)\<close>)
    next
      case 3
      then have "unat cp < 2 ^ 16" by (simp add: word_le_nat_alt)
      from lead_bytes(3) [OF this] show thesis
        by (intro that [of "ucast (0xe0 OR drop_bit 12 cp)"
          "[ucast (0x80 OR (drop_bit 6 cp AND 0x3f)), ucast (0x80 OR (cp AND 0x3f))]" "drop_bit 12 cp"]) (use 3 in \<open>simp_all add: encode_utf8_def tail_byte append_six_0 del: utf8_tail.simps(2)\<close>)
    next
      case 4
      from lead_bytes(4) [OF assms] show thesis
        by (intro that [of "ucast (0xf0 OR drop_bit 18 cp)"
          "[ucast (0x80 OR (drop_bit 12 cp AND 0x3f)), ucast (0x80 OR (drop_bit 6 cp AND 0x3f)), ucast (0x80 OR (cp AND 0x3f))]" "drop_bit 18 cp"]) (use 4 in \<open>simp_all add: encode_utf8_def tail_byte append_six_0 del: utf8_tail.simps(2)\<close>)
    qed
  qed
  show ?thesis unfolding en by (rule parse_utf8_whole [OF l tl])
qed

text \<open>Decimal numbers as terminals write them.\<close>

fun decimal :: "nat \<Rightarrow> bytes" where
  "decimal n = (if n < 10 then [0x30 + of_nat n] else decimal (n div 10) @ [0x30 + of_nat (n mod 10)])"

declare decimal.simps [simp del]

lemma digit_byte:
  assumes "d < 10"
  shows "\<not> (0x30 + of_nat d < (0x30 :: byte) \<or> 0x30 + of_nat d > (0x39 :: byte))" "unat (0x30 + of_nat d :: byte) = 48 + d"
proof -
  show u: "unat (0x30 + of_nat d :: byte) = 48 + d" using assms by (simp add: unat_word_ariths unat_of_nat)
  then show "\<not> (0x30 + of_nat d < (0x30 :: byte) \<or> 0x30 + of_nat d > (0x39 :: byte))"
    using assms by (simp add: word_less_nat_alt)
qed

lemma parse_digits_append: "parse_digits (xs @ ys) v = Option.bind (parse_digits xs v) (parse_digits ys)"
  by (induction xs arbitrary: v) auto

lemma parse_digit: "d < 10 \<Longrightarrow> parse_digits [0x30 + of_nat d] v = Some (v * 10 + of_nat d)"
  using digit_byte(1) [of d] by (simp add: unsigned_of_nat take_bit_nat_eq_self)

lemma parse_digits_decimal: "parse_digits (decimal n) 0 = Some (of_nat n)"
proof (induction n rule: decimal.induct)
  case (1 n)
  show ?case
  proof (cases "n < 10")
    case True
    then show ?thesis using parse_digit [OF True, of 0] by (simp add: decimal.simps [of n])
  next
    case False
    have "(of_nat (n div 10) * 10 + of_nat (n mod 10) :: u64) = of_nat n"
      by (metis div_mult_mod_eq of_nat_add of_nat_mult of_nat_numeral)
    then show ?thesis using 1 False parse_digit [of "n mod 10"]
      by (simp add: decimal.simps [of n] parse_digits_append)
  qed
qed

lemma decimal_nonempty [simp]: "decimal n \<noteq> []"
  by (simp add: decimal.simps [of n])

lemma parse_number_decimal: "parse_number (decimal n) = Some (of_nat n)"
  by (simp add: parse_number_def parse_digits_decimal)

lemma decimal_digits: "b \<in> set (decimal n) \<Longrightarrow> 0x30 \<le> b \<and> b \<le> 0x39"
proof (induction n rule: decimal.induct)
  case (1 n)
  have d: "(0x30 :: byte) \<le> 0x30 + of_nat d \<and> 0x30 + of_nat d \<le> (0x39 :: byte)" if "d < 10" for d
    using digit_byte(1) [OF that] by (simp add: not_less)
  show ?case using 1 d [of n] d [of "n mod 10"] by (cases "n < 10") (auto simp: decimal.simps [of n])
qed

lemma decimal_no_sep [simp]: "0x3a \<notin> set (decimal n)" "0x3b \<notin> set (decimal n)" "0x3c \<notin> set (decimal n)"
  using decimal_digits [of "0x3a" n] decimal_digits [of "0x3b" n] decimal_digits [of "0x3c" n] by auto

lemma decimal_hd: "hd (decimal n) \<noteq> 0x3c"
  by (metis decimal_no_sep(3) decimal_nonempty hd_in_set)

lemma split_at_none: "sep \<notin> set a \<Longrightarrow> split_at sep a = [a]"
proof -
  assume "sep \<notin> set a"
  then have "takeWhile (\<lambda>x. x \<noteq> sep) a = a" by (induction a) auto
  then show ?thesis by (subst split_at.simps) (simp only: Let_def if_True simp_thms)
qed

lemma split_at_sep: "sep \<notin> set a \<Longrightarrow> split_at sep (a @ sep # b) = a # split_at sep b"
proof -
  assume "sep \<notin> set a"
  then have "takeWhile (\<lambda>x. x \<noteq> sep) (a @ sep # b) = a" by (induction a) auto
  then show ?thesis by (subst split_at.simps) simp
qed

text \<open>A whole control sequence: its body is below \<^verbatim>\<open>0x40\<close> and one final byte follows.\<close>

definition csi :: "bytes \<Rightarrow> byte \<Rightarrow> bytes" where
  "csi body final = 0x1b # 0x5b # body @ [final]"

lemma csi_end_csi:
  assumes "\<forall>b \<in> set body. b < 0x40" "0x40 \<le> f" "f \<le> 0x7e"
  shows "csi_end (csi body f @ rest) = Some (2 + length body)"
proof -
  have "takeWhile (\<lambda>b. \<not> (0x40 \<le> b \<and> b \<le> 0x7e)) (body @ f # rest) = body"
    using assms by (subst takeWhile_append2) (auto simp: not_le)
  then show ?thesis by (simp add: csi_end_def csi_def Let_def)
qed

lemma parse_csi_csi:
  "parse_csi (2 + length body) (csi body f) e =
     (if body \<noteq> [] \<and> hd body = 0x3c then (CsiInvalid, e)
      else let params = split_at 0x3b body in
      if f = 0x52 \<and> length params = 2 then csi_report (csi body f) params e
      else
        let key_parts = split_at 0x3a (params ! 0);
            first = (if key_parts ! 0 = [] then None else parse_codepoint (key_parts ! 0))
        in if first = None \<and> f \<noteq> 0x5a then (CsiInvalid, e)
        else csi_rest key_parts f first params (e\<lparr>ev_raw := csi body f\<rparr>))"
  unfolding parse_csi_def csi_rest_def csi_def by (simp add: nth_append Let_def)

lemma feed_csi:
  assumes "\<forall>b \<in> set body. b < 0x40" "0x40 \<le> f" "f \<le> 0x7e"
    and p: "parse_csi (2 + length body) (csi body f) new_event = (r, e)" "r \<noteq> CsiIncomplete"
  shows "feed [] (csi body f) = ([if r = CsiParsed then e else e\<lparr>ev_key := K_unknown, ev_raw := csi body f\<rparr>], [])"
proof -
  let ?p = "csi body f"
  have hd: "hd ?p = 0x1b" "length ?p \<noteq> 1" "?p ! 1 = 0x5b" "?p \<noteq> []" by (simp_all add: csi_def)
  have ce: "csi_end ?p = Some (2 + length body)" using csi_end_csi [OF assms(1-3), of "[]"] by simp
  have td: "take (2 + length body + 1) ?p = ?p" "drop (2 + length body + 1) ?p = []" by (simp_all add: csi_def)
  have "feed_step ?p = Some (if r = CsiParsed then e else e\<lparr>ev_key := K_unknown, ev_raw := ?p\<rparr>, [])"
    unfolding feed_step_csi [OF hd(1-3) ce] p td using assms(5) by (cases r) simp_all
  then show ?thesis using feed_loop_step [OF hd(4)] by (simp add: feed_def feed_loop_stop)
qed

lemma sint_small: "n < 2 ^ 63 \<Longrightarrow> sint (of_nat n :: u64) = int n"
  by (simp add: signed_of_nat signed_take_bit_int_eq_self)

definition scalar_value :: "nat \<Rightarrow> bool" where
  "scalar_value n \<longleftrightarrow> n \<le> 0x10ffff \<and> \<not> (0xd800 \<le> n \<and> n \<le> 0xdfff)"

lemma parse_codepoint_decimal: "scalar_value n \<Longrightarrow> parse_codepoint (decimal n) = Some (of_nat n)"
  by (auto simp: parse_codepoint_def parse_number_decimal scalar_value_def sint_small unsigned_of_nat take_bit_nat_eq_self)

lemma body_low: "b \<in> set (decimal n) \<Longrightarrow> b < 0x40"
  using decimal_digits [of b n] by (auto simp: word_le_nat_alt word_less_nat_alt)

text \<open>A cursor position report \<^verbatim>\<open>CSI row ; col R\<close> with one-based coordinates is delivered as the
  zero-based position, with no key and no text.\<close>

lemma cursor_report:
  assumes "0 < row" "row < 2 ^ 63" "0 < col" "col < 2 ^ 63"
  shows "feed [] (csi (decimal row @ 0x3b # decimal col) 0x52) =
    ([new_event\<lparr>ev_raw := csi (decimal row @ 0x3b # decimal col) 0x52,
       ev_cursor := Some \<lparr>pos_x = of_nat (col - 1), pos_y = of_nat (row - 1)\<rparr>\<rparr>], [])"
proof -
  let ?b = "decimal row @ 0x3b # decimal col"
  have low: "\<forall>b \<in> set ?b. b < 0x40" by (auto dest: body_low)
  have hd: "hd ?b \<noteq> 0x3c" using decimal_hd [of row] by (simp add: hd_append)
  have sp: "split_at 0x3b ?b = [decimal row, decimal col]" by (simp add: split_at_sep split_at_none)
  have p: "parse_csi (2 + length ?b) (csi ?b 0x52) new_event = (CsiParsed, new_event\<lparr>ev_raw := csi ?b 0x52,
       ev_cursor := Some \<lparr>pos_x = of_nat (col - 1), pos_y = of_nat (row - 1)\<rparr>\<rparr>)"
    unfolding parse_csi_csi sp Let_def
    using hd assms by (simp add: csi_report_def parse_number_decimal sint_small new_event_def of_nat_diff)
  show ?thesis using feed_csi [OF low _ _ p] by simp
qed

section \<open>Properties\<close>

text \<open>C14. Decoding does not depend on how the terminal's bytes are cut into reads: feeding \<open>a\<close> and
  then \<open>b\<close> gives the same events and the same pending bytes as feeding them at once.\<close>

theorem feed_chunks:
  "feed p (a @ b) = (let (es, q) = feed p a; (es', q') = feed q b in (es @ es', q'))"
  using feed_loop_append [of "p @ a" b] by (simp add: feed_def Let_def case_prod_unfold)

text \<open>C15. No byte is lost or invented: the raw bytes of the delivered events followed by the pending
  bytes are exactly the bytes received, every event consumes at least one byte, and what
  stays pending is a lone escape, an unfinished control sequence, or the start of
  a UTF-8 sequence of at most four bytes that is not complete.\<close>

theorem feed_conserves_bytes:
  assumes "feed p b = (es, q)"
  shows "concat (map ev_raw es) @ q = p @ b
    \<and> (q = [] \<or> q = [0x1b] \<or> (\<exists>r. q = 0x1b # 0x5b # r \<and> csi_end q = None)
       \<or> (\<exists>n cp. utf8_lead (hd q) = Some (n, cp) \<and> length q < n \<and> n \<le> 4))"
proof -
  have r: "concat (map ev_raw es) @ q = p @ b" using feed_loop_raw [of "p @ b"] assms by (simp add: feed_def)
  have st: "q = [] \<or> feed_step q = None" using feed_loop_stuck [of "p @ b"] assms by (simp add: feed_def)
  have u: "\<exists>n cp. utf8_lead (hd q) = Some (n, cp) \<and> length q < n \<and> n \<le> 4" if "parse_utf8 q e = None" for e
    using that utf8_lead_pos [of "hd q"] by (auto simp: parse_utf8_def Let_def split: option.splits prod.splits if_splits)
  have "q = [0x1b] \<or> (\<exists>r. q = 0x1b # 0x5b # r \<and> csi_end q = None) \<or> (\<exists>e. parse_utf8 q e = None)" if q: "q \<noteq> []"
  proof -
    have n: "feed_step q = None" using st q by simp
    obtain c t where ct: "q = c # t" using q by (cases q) auto
    show ?thesis
    proof (cases "c = 0x1b")
      case True
      then show ?thesis using n parse_csi_not_incomplete
        by (cases t) (auto simp: feed_step_def ct Let_def split: if_splits option.splits prod.splits CsiResult.splits)
    next
      case False
      then show ?thesis using n parse_control_raw [of c new_event]
        by (auto simp: feed_step_def ct Let_def split: if_splits prod.splits bool.splits)
    qed
  qed
  then show ?thesis using r u by blast
qed

theorem feed_conserves_bytes_witness:
  "\<exists>es q. feed [] [0x61, 0xc4] = (es, q) \<and> concat (map ev_raw es) @ q = [0x61, 0xc4]"
  using feed_conserves_bytes [of "[]" "[0x61, 0xc4]"] by (metis append_Nil prod.collapse)

text \<open>\<^verbatim>\<open>flush\<close> delivers every pending byte as one event, in order, and nothing else.\<close>

lemma flush_conserves_bytes:
  "length (flush p) = length p \<and> concat (map ev_raw (flush p)) = p"
  by (induction p rule: flush.induct) (use parse_control_raw in \<open>auto simp: Let_def\<close>)

text \<open>C36. Typing text: for every Unicode scalar value from the space up except delete, the bytes of its encoding are delivered
  as exactly one text event with that code point and those bytes, and nothing stays pending.  The control bytes below
  the space and delete arrive as keys, not as text, and surrogates and values above \<open>0x10ffff\<close> have no encoding.\<close>

theorem typed_text_roundtrip:
  assumes "0x20 \<le> cp" "cp \<noteq> 0x7f" and scalar: "scalar_value (unat cp)"
  shows "feed [] (encode_utf8 cp) = ([new_event\<lparr>ev_key := K_character, ev_codepoint := cp,
      ev_text := encode_utf8 cp, ev_raw := encode_utf8 cp\<rparr>], [])
    \<and> is_text (hd (fst (feed [] (encode_utf8 cp))))"
proof -
  let ?p = "encode_utf8 cp"
  let ?e = "new_event\<lparr>ev_key := K_character, ev_codepoint := cp, ev_text := ?p, ev_raw := ?p\<rparr>"
  have ne: "?p \<noteq> []" by (simp add: encode_utf8_def)
  have "unat cp < 2 ^ 21" using scalar by (auto simp: scalar_value_def)
  then have pu: "parse_utf8 ?p new_event = Some (?e, [])" using parse_utf8_encoded [of cp "[]"] by simp
  have "\<not> (hd ?p < 0x20 \<or> hd ?p = 0x7f \<or> hd ?p = 0x1b)"
  proof (cases "cp \<le> 0x7f")
    case True
    then have h: "hd ?p = ucast cp" by (simp add: encode_utf8_def)
    have u: "unat (hd ?p) = unat cp" using True unfolding h
      by (simp add: word_le_nat_alt unsigned_ucast_eq take_bit_nat_eq_self)
    then show ?thesis using True assms(1,2) by (auto simp: word_le_nat_alt word_less_nat_alt word_unat_eq_iff)
  next
    case False
    then have "bit (hd ?p) 7" by (auto simp: encode_utf8_def bit_or_iff bit_unsigned_iff)
    then have "0x80 \<le> hd ?p" by (rule high_byte)
    then show ?thesis by (auto simp: word_le_nat_alt word_less_nat_alt)
  qed
  then have "feed_step ?p = Some (?e, [])" using pu by (simp add: feed_step_def Let_def)
  then have f: "feed [] ?p = ([?e], [])" using feed_loop_step [OF ne] by (simp add: feed_def feed_loop_stop)
  then show ?thesis using ne by (simp add: is_text_def new_event_def no_modifiers_def)
qed

theorem typed_text_roundtrip_witness:
  "fst (feed [] (encode_utf8 0x109)) = [new_event\<lparr>ev_key := K_character, ev_codepoint := 0x109,
      ev_text := [0xc4, 0x89], ev_raw := [0xc4, 0x89]\<rparr>]"
proof -
  have "encode_utf8 0x109 = [0xc4, 0x89]" by (simp add: encode_utf8_def)
  then show ?thesis using typed_text_roundtrip [of "0x109"] by (simp add: scalar_value_def)
qed

text \<open>Kitty key reports are decoded exactly: for any Unicode scalar value, modifier field and
  event type, the sequence \<^verbatim>\<open>CSI code ; modifiers : type u\<close> gives one event with that code point, the key it
  stands for, those modifiers and that phase, and text exactly when it is a character
  (for fields that fit a \<^verbatim>\<open>long\<close>).\<close>

theorem kitty_key_report:
  assumes "scalar_value cp" "m < 2 ^ 63" "t < 2 ^ 63"
  shows "feed [] (csi (decimal cp @ 0x3b # decimal m @ 0x3a # decimal t) 0x75) =
    ([\<lparr>ev_key = key_from_codepoint (of_nat cp), ev_type = decode_event_type (of_nat t), ev_mods = decode_modifiers (of_nat m),
       ev_codepoint = of_nat cp, ev_shifted = None, ev_base_layout = None,
       ev_text = (if key_from_codepoint (of_nat cp) = K_character then encode_utf8 (of_nat cp) else []),
       ev_raw = csi (decimal cp @ 0x3b # decimal m @ 0x3a # decimal t) 0x75, ev_cursor = None\<rparr>], [])"
proof -
  let ?b = "decimal cp @ 0x3b # decimal m @ 0x3a # decimal t"
  have low: "\<forall>b \<in> set ?b. b < 0x40" by (auto dest: body_low)
  have hd: "hd ?b \<noteq> 0x3c" using decimal_hd [of cp] by (simp add: hd_append)
  have sp: "split_at 0x3b ?b = [decimal cp, decimal m @ 0x3a # decimal t]"
    by (simp add: split_at_sep split_at_none)
  have sm: "split_at 0x3a (decimal m @ 0x3a # decimal t) = [decimal m, decimal t]" "split_at 0x3a (decimal cp) = [decimal cp]"
    by (simp_all add: split_at_sep split_at_none)
  have p: "parse_csi (2 + length ?b) (csi ?b 0x75) new_event = (CsiParsed, \<lparr>ev_key = key_from_codepoint (of_nat cp),
       ev_type = decode_event_type (of_nat t), ev_mods = decode_modifiers (of_nat m),
       ev_codepoint = of_nat cp, ev_shifted = None, ev_base_layout = None,
       ev_text = (if key_from_codepoint (of_nat cp) = K_character then encode_utf8 (of_nat cp) else []),
       ev_raw = csi ?b 0x75, ev_cursor = None\<rparr>)"
    unfolding parse_csi_csi sp Let_def
    using hd parse_codepoint_decimal [OF assms(1)]
    by (simp add: sm csi_rest_def csi_alternates_def csi_modifiers_def csi_text_def csi_key_def parse_number_decimal new_event_def Let_def)
  show ?thesis using feed_csi [OF low _ _ p] by simp
qed

theorem kitty_key_report_witness:
  "ev_mods (hd (fst (feed [] (csi (decimal 97 @ 0x3b # decimal 5 @ 0x3a # decimal 1) 0x75)))) = no_modifiers\<lparr>m_ctrl := True\<rparr>"
  using kitty_key_report [of 97 5 1] by (simp add: scalar_value_def decode_modifiers_def no_modifiers_def)

text \<open>A cursor key without parameters, such as \<^verbatim>\<open>ESC [ A\<close>, is not decoded: for every final byte but
  \<^verbatim>\<open>Z\<close> an empty body gives an event of unknown key that holds the raw bytes.\<close>

theorem plain_cursor_key_unknown:
  assumes "0x40 \<le> f" "f \<le> 0x7e" "f \<noteq> 0x5a"
  shows "feed [] (csi [] f) = ([new_event\<lparr>ev_raw := csi [] f\<rparr>], [])"
proof -
  have p: "parse_csi (2 + length ([] :: bytes)) (csi [] f) new_event = (CsiInvalid, new_event)"
    unfolding parse_csi_csi using assms(3) by (simp add: split_at_none Let_def)
  show ?thesis using feed_csi [OF _ assms(1,2) p] by (simp add: new_event_def)
qed

theorem plain_cursor_key_unknown_witness: "map ev_key (fst (feed [] [0x1b, 0x5b, 0x41])) = [K_unknown]"
  using plain_cursor_key_unknown [of "0x41"] by (simp add: csi_def new_event_def)

end
