(* ===== verification/Utf8proc.thy ===== *)
theory Utf8proc
  imports Nxt_Prelude
begin

text \<open>
  The Unicode library the text layer calls, \<^verbatim>\<open>subprojects/utf8proc-2.10.0/utf8proc.c\<close>: the UTF-8 decoder and
  encoder and the grapheme break state machine.  The generated property table
  (\<^verbatim>\<open>utf8proc_data.c\<close>) is the parameter \<open>U\<close>, which \<^verbatim>\<open>utf8proc_get_property\<close> indexes by code point;
  the fields kept are those these functions read.
\<close>

section \<open>Model\<close>

record utf8proc_property_t =
  category :: nat
  charwidth :: nat
  boundclass :: nat
  indic_conjunct_break :: nat

type_synonym Unicode = "u32 \<Rightarrow> utf8proc_property_t"

definition utf_cont :: "byte \<Rightarrow> bool" where
  "utf_cont c \<longleftrightarrow> c AND 0xc0 = 0x80"

text \<open>The number of bytes read and the code point; \<open>None\<close> is \<^verbatim>\<open>UTF8PROC_ERROR_INVALIDUTF8\<close>.\<close>

definition utf8proc_iterate :: "bytes \<Rightarrow> (nat \<times> u32) option" where
  "utf8proc_iterate s =
     (if s = [] then Some (0, - 1)
      else
        let uc = (ucast (hd s) :: u32); t = tl s; c = (\<lambda>i. ucast (t ! i) AND 0x3f :: u32) in
        if uc < 0x80 then Some (1, uc)
        else if uc - 0xc2 > 0xf4 - 0xc2 then None
        else if uc < 0xe0 then
          (if length t < 1 \<or> \<not> utf_cont (t ! 0) then None
           else Some (2, push_bit 6 (uc AND 0x1f) OR c 0))
        else if uc < 0xf0 then
          (if length t < 2 \<or> \<not> utf_cont (t ! 0) \<or> \<not> utf_cont (t ! 1) then None
           else if uc = 0xed \<and> t ! 0 > 0x9f then None
           else let v = push_bit 12 (uc AND 0xf) OR push_bit 6 (c 0) OR c 1
                in if v < 0x800 then None else Some (3, v))
        else if length t < 3 \<or> \<not> utf_cont (t ! 0) \<or> \<not> utf_cont (t ! 1) \<or> \<not> utf_cont (t ! 2) then None
        else if uc = 0xf0 \<and> t ! 0 < 0x90 then None
        else if uc = 0xf4 \<and> t ! 0 > 0x8f then None
        else Some (4, push_bit 18 (uc AND 7) OR push_bit 12 (c 0) OR push_bit 6 (c 1) OR c 2))"

definition utf8proc_codepoint_valid :: "u32 \<Rightarrow> bool" where
  "utf8proc_codepoint_valid uc \<longleftrightarrow> uc - 0xd800 > 0x07ff \<and> uc < 0x110000"

definition utf8proc_encode_char :: "u32 \<Rightarrow> bytes" where
  "utf8proc_encode_char uc =
     (if uc <s 0 then []
      else if uc < 0x80 then [ucast uc]
      else if uc < 0x800 then [ucast (0xc0 + drop_bit 6 uc), ucast (0x80 + (uc AND 0x3f))]
      else if uc < 0x10000 then
        [ucast (0xe0 + drop_bit 12 uc), ucast (0x80 + (drop_bit 6 uc AND 0x3f)), ucast (0x80 + (uc AND 0x3f))]
      else if uc < 0x110000 then
        [ucast (0xf0 + drop_bit 18 uc), ucast (0x80 + (drop_bit 12 uc AND 0x3f)),
         ucast (0x80 + (drop_bit 6 uc AND 0x3f)), ucast (0x80 + (uc AND 0x3f))]
      else [])"

abbreviation (input) BC_START :: nat where "BC_START \<equiv> 0"
abbreviation (input) BC_OTHER :: nat where "BC_OTHER \<equiv> 1"
abbreviation (input) BC_CR :: nat where "BC_CR \<equiv> 2"
abbreviation (input) BC_LF :: nat where "BC_LF \<equiv> 3"
abbreviation (input) BC_CONTROL :: nat where "BC_CONTROL \<equiv> 4"
abbreviation (input) BC_EXTEND :: nat where "BC_EXTEND \<equiv> 5"
abbreviation (input) BC_L :: nat where "BC_L \<equiv> 6"
abbreviation (input) BC_V :: nat where "BC_V \<equiv> 7"
abbreviation (input) BC_T :: nat where "BC_T \<equiv> 8"
abbreviation (input) BC_LV :: nat where "BC_LV \<equiv> 9"
abbreviation (input) BC_LVT :: nat where "BC_LVT \<equiv> 10"
abbreviation (input) BC_REGIONAL_INDICATOR :: nat where "BC_REGIONAL_INDICATOR \<equiv> 11"
abbreviation (input) BC_SPACINGMARK :: nat where "BC_SPACINGMARK \<equiv> 12"
abbreviation (input) BC_PREPEND :: nat where "BC_PREPEND \<equiv> 13"
abbreviation (input) BC_ZWJ :: nat where "BC_ZWJ \<equiv> 14"
abbreviation (input) BC_EXTENDED_PICTOGRAPHIC :: nat where "BC_EXTENDED_PICTOGRAPHIC \<equiv> 19"
abbreviation (input) BC_E_ZWG :: nat where "BC_E_ZWG \<equiv> 20"
abbreviation (input) ICB_NONE :: nat where "ICB_NONE \<equiv> 0"
abbreviation (input) ICB_LINKER :: nat where "ICB_LINKER \<equiv> 1"
abbreviation (input) ICB_CONSONANT :: nat where "ICB_CONSONANT \<equiv> 2"
abbreviation (input) ICB_EXTEND :: nat where "ICB_EXTEND \<equiv> 3"

definition grapheme_break_simple :: "nat \<Rightarrow> nat \<Rightarrow> bool" where
  "grapheme_break_simple lbc tbc =
     (if lbc = BC_START then True
      else if lbc = BC_CR \<and> tbc = BC_LF then False
      else if lbc \<ge> BC_CR \<and> lbc \<le> BC_CONTROL then True
      else if tbc \<ge> BC_CR \<and> tbc \<le> BC_CONTROL then True
      else if lbc = BC_L \<and> (tbc = BC_L \<or> tbc = BC_V \<or> tbc = BC_LV \<or> tbc = BC_LVT) then False
      else if (lbc = BC_LV \<or> lbc = BC_V) \<and> (tbc = BC_V \<or> tbc = BC_T) then False
      else if (lbc = BC_LVT \<or> lbc = BC_T) \<and> tbc = BC_T then False
      else if tbc = BC_EXTEND \<or> tbc = BC_ZWJ \<or> tbc = BC_SPACINGMARK \<or> lbc = BC_PREPEND then False
      else if lbc = BC_E_ZWG \<and> tbc = BC_EXTENDED_PICTOGRAPHIC then False
      else if lbc = BC_REGIONAL_INDICATOR \<and> tbc = BC_REGIONAL_INDICATOR then False
      else True)"

text \<open>The branch with a state pointer: the answer and the new state.\<close>

definition grapheme_break_extended :: "nat \<Rightarrow> nat \<Rightarrow> nat \<Rightarrow> nat \<Rightarrow> nat \<Rightarrow> bool \<times> nat" where
  "grapheme_break_extended lbc tbc licb ticb state =
     (let (state_bc, state_icb) =
            (if state = 0 then (lbc, if licb = ICB_CONSONANT then licb else ICB_NONE)
             else (state AND 0xff, drop_bit 8 state));
          break_permitted = (grapheme_break_simple state_bc tbc
             \<and> \<not> (state_icb = ICB_LINKER \<and> ticb = ICB_CONSONANT));
          new_icb =
            (if ticb = ICB_CONSONANT \<or> state_icb = ICB_CONSONANT \<or> state_icb = ICB_EXTEND then ticb
             else if state_icb = ICB_LINKER then (if ticb = ICB_EXTEND then ICB_LINKER else ticb)
             else state_icb);
          new_bc =
            (if state_bc = tbc \<and> tbc = BC_REGIONAL_INDICATOR then BC_OTHER
             else if state_bc = BC_EXTENDED_PICTOGRAPHIC then
               (if tbc = BC_EXTEND then BC_EXTENDED_PICTOGRAPHIC
                else if tbc = BC_ZWJ then BC_E_ZWG
                else tbc)
             else tbc)
      in (break_permitted, new_bc + push_bit 8 new_icb))"

definition utf8proc_grapheme_break_stateful :: "Unicode \<Rightarrow> u32 \<Rightarrow> u32 \<Rightarrow> nat \<Rightarrow> bool \<times> nat" where
  "utf8proc_grapheme_break_stateful U c1 c2 state =
     grapheme_break_extended (boundclass (U c1)) (boundclass (U c2))
       (indic_conjunct_break (U c1)) (indic_conjunct_break (U c2)) state"

definition utf8proc_charwidth :: "Unicode \<Rightarrow> u32 \<Rightarrow> int" where
  "utf8proc_charwidth U c = int (charwidth (U c))"

definition utf8proc_category :: "Unicode \<Rightarrow> u32 \<Rightarrow> nat" where
  "utf8proc_category U c = category (U c)"

section \<open>Reading words as numbers\<close>

lemma unat_and_mask: "unat (x AND mask k :: 'a :: len word) = unat x mod 2 ^ k"
  unfolding take_bit_eq_mask [symmetric] unsigned_take_bit_eq by (rule take_bit_eq_mod)

lemma unat_and_low:
  "unat (x AND 0x3f :: u32) = unat x mod 64" "unat (x AND 0x1f :: u32) = unat x mod 32"
  "unat (x AND 0xf :: u32) = unat x mod 16" "unat (x AND 7 :: u32) = unat x mod 8"
  using unat_and_mask [of x 6] unat_and_mask [of x 5] unat_and_mask [of x 4] unat_and_mask [of x 3]
  by (simp_all add: mask_eq_exp_minus_1)

lemma utf_cont_range: "utf_cont c \<longleftrightarrow> 128 \<le> unat c \<and> unat c < 192"
proof -
  have "c AND 0xc0 = 0x80 \<longleftrightarrow> drop_bit 6 c = 2"
  proof
    assume a: "c AND 0xc0 = 0x80"
    have "drop_bit 6 c = drop_bit 6 (c AND 0xc0)"
    proof (rule bit_eqI)
      fix n :: nat
      consider "n = 0" | "n = 1" | "2 \<le> n" by linarith
      then show "bit (drop_bit 6 c) n = bit (drop_bit 6 (c AND 0xc0)) n"
        by cases (auto simp: bit_drop_bit_eq bit_and_iff dest: bit_imp_le_length)
    qed
    then show "drop_bit 6 c = 2" using a by simp
  next
    assume "drop_bit 6 c = 2"
    then have "push_bit 6 (drop_bit 6 c) = 0x80" by simp
    moreover have "c AND 0xc0 = push_bit 6 (drop_bit 6 c)"
    proof (rule bit_eqI)
      fix n :: nat assume "possible_bit TYPE(byte) n"
      then have "n \<in> {0, 1, 2, 3, 4, 5, 6, 7}" by auto
      then show "bit (c AND 0xc0) n = bit (push_bit 6 (drop_bit 6 c)) n"
        by (elim insertE emptyE) (simp_all add: bit_push_bit_iff bit_drop_bit_eq bit_and_iff)
    qed
    ultimately show "c AND 0xc0 = 0x80" by simp
  qed
  moreover have "drop_bit 6 c = 2 \<longleftrightarrow> unat c div 64 = 2"
    unfolding word_unat_eq_iff unat_drop_bit_eq by (simp add: drop_bit_eq_div)
  ultimately show ?thesis unfolding utf_cont_def by linarith
qed

lemma unat_drop: "unat (drop_bit k x :: 'a :: len word) = unat x div 2 ^ k"
  unfolding unat_drop_bit_eq by (simp add: drop_bit_eq_div)

lemma ucast_num: "unat x < 256 \<Longrightarrow> unat (ucast (x :: u32) :: byte) = unat x"
  unfolding unsigned_ucast_eq by (simp add: take_bit_nat_eq_self_iff)

lemma unat_plus_small: "unat (x :: u32) + unat y < 2 ^ 32 \<Longrightarrow> unat (x + y) = unat x + unat y"
  by (simp add: unat_plus_if')

section \<open>The decoder as arithmetic\<close>

lemma valid_num: "utf8proc_codepoint_valid c \<longleftrightarrow> unat c < 0x110000 \<and> \<not> (0xd800 \<le> unat c \<and> unat c < 0xe000)"
  using unsigned_less [of c, where ?'a = nat]
  by (auto simp: utf8proc_codepoint_valid_def word_less_nat_alt unat_sub_if')

definition encoding :: "nat \<Rightarrow> nat list" where
  "encoding x =
    (if x < 128 then [x]
     else if x < 2048 then [192 + x div 64, 128 + x mod 64]
     else if x < 65536 then [224 + x div 4096, 128 + x div 64 mod 64, 128 + x mod 64]
     else [240 + x div 262144, 128 + x div 4096 mod 64, 128 + x div 64 mod 64, 128 + x mod 64])"

lemma encode_num:
  assumes "unat c < 0x110000"
  shows "map unat (utf8proc_encode_char c) = encoding (unat c)"
proof -
  have "sint (of_nat (unat c) :: u32) = int (unat c)"
    using assms by (simp add: signed_of_nat signed_take_bit_int_eq_self del: of_nat_unat)
  then have s: "\<not> c <s 0" by (simp add: word_sless_alt)
  have low: "unat (ucast (0x80 + (x AND 0x3f)) :: byte) = 128 + unat x mod 64" for x :: u32
    by (subst ucast_num; subst unat_plus_small) (simp_all add: unat_and_low)
  have high: "k + unat x < 256 \<Longrightarrow> unat (ucast (of_nat k + x) :: byte) = k + unat x" for k and x :: u32
    by (subst ucast_num; subst unat_plus_small) (simp_all add: unat_of_nat)
  consider "unat c < 128" | "128 \<le> unat c" "unat c < 2048" | "2048 \<le> unat c" "unat c < 65536" | "65536 \<le> unat c" by linarith
  then show ?thesis
  proof cases
    case 1
    then show ?thesis using s by (simp add: encoding_def utf8proc_encode_char_def word_less_nat_alt ucast_num)
  next
    case 2
    then have "unat c div 64 < 32" by simp
    then show ?thesis using s 2 high [of 192 "drop_bit 6 c"] by (simp add: encoding_def utf8proc_encode_char_def word_less_nat_alt low unat_drop)
  next
    case 3
    then have "unat c div 4096 < 16" by simp
    then show ?thesis using s 3 high [of 224 "drop_bit 12 c"] by (simp add: encoding_def utf8proc_encode_char_def word_less_nat_alt low unat_drop)
  next
    case 4
    then have "unat c div 262144 < 5" using assms by simp
    then show ?thesis using s 4 assms high [of 240 "drop_bit 18 c"] by (simp add: encoding_def utf8proc_encode_char_def word_less_nat_alt low unat_drop)
  qed
qed

text \<open>What the decoder accepts and returns, with the bytes read as numbers.\<close>

definition iterate_spec :: "nat list \<Rightarrow> nat \<Rightarrow> nat \<Rightarrow> bool" where
  "iterate_spec v n x \<longleftrightarrow>
     n = 1 \<and> v ! 0 < 128 \<and> x = v ! 0
   \<or> n = 2 \<and> 2 \<le> length v \<and> 194 \<le> v ! 0 \<and> v ! 0 < 224 \<and> 128 \<le> v ! 1 \<and> v ! 1 < 192
       \<and> x = 64 * (v ! 0 - 192) + (v ! 1 - 128)
   \<or> n = 3 \<and> 3 \<le> length v \<and> 224 \<le> v ! 0 \<and> v ! 0 < 240 \<and> 128 \<le> v ! 1 \<and> v ! 1 < 192 \<and> 128 \<le> v ! 2 \<and> v ! 2 < 192
       \<and> x = 4096 * (v ! 0 - 224) + 64 * (v ! 1 - 128) + (v ! 2 - 128) \<and> 2048 \<le> x \<and> \<not> (v ! 0 = 237 \<and> 159 < v ! 1)
   \<or> n = 4 \<and> 4 \<le> length v \<and> 240 \<le> v ! 0 \<and> v ! 0 < 245 \<and> 128 \<le> v ! 1 \<and> v ! 1 < 192 \<and> 128 \<le> v ! 2 \<and> v ! 2 < 192
       \<and> 128 \<le> v ! 3 \<and> v ! 3 < 192 \<and> \<not> (v ! 0 = 240 \<and> v ! 1 < 144) \<and> \<not> (v ! 0 = 244 \<and> 143 < v ! 1)
       \<and> x = 262144 * (v ! 0 - 240) + 4096 * (v ! 1 - 128) + 64 * (v ! 2 - 128) + (v ! 3 - 128)"

lemma band_mod: "q * m \<le> b \<Longrightarrow> b < q * m + m \<Longrightarrow> b mod m = b - q * (m :: nat)"
  by (metis add_diff_inverse_nat leD mod_less mod_mult_self3 nat_add_left_cancel_less)

lemmas cont_mod = band_mod [of 2 64, simplified]

lemma two_bytes:
  fixes a b :: byte
  assumes "192 \<le> unat a" "unat a < 224" "128 \<le> unat b" "unat b < 192"
  shows "unat (push_bit 6 (ucast a AND 0x1f) OR (ucast b AND 0x3f) :: u32) = 64 * (unat a - 192) + (unat b - 128)"
proof -
  have "unat a mod 32 = unat a - 192" "unat b mod 64 = unat b - 128"
    using assms band_mod [of 6 32 "unat a"] by (simp_all add: cont_mod)
  then show ?thesis using unat_or_push [of "ucast b AND 0x3f" 6 "ucast a AND 0x1f"] assms by (simp add: unat_and_low)
qed

lemma three_bytes:
  fixes a b c :: byte
  assumes "224 \<le> unat a" "unat a < 240" "128 \<le> unat b" "unat b < 192" "128 \<le> unat c" "unat c < 192"
  shows "unat (push_bit 12 (ucast a AND 0xf) OR (push_bit 6 (ucast b AND 0x3f) OR (ucast c AND 0x3f)) :: u32)
    = 4096 * (unat a - 224) + 64 * (unat b - 128) + (unat c - 128)"
proof -
  let ?y = "push_bit 6 (ucast b AND 0x3f) OR (ucast c AND 0x3f) :: u32"
  have a: "unat a mod 16 = unat a - 224" using assms band_mod [of 14 16 "unat a"] by simp
  have y: "unat ?y = 64 * (unat b - 128) + (unat c - 128)"
    using unat_or_push [of "ucast c AND 0x3f" 6 "ucast b AND 0x3f"] assms by (simp add: unat_and_low cont_mod)
  show ?thesis using unat_or_push [of ?y 12 "ucast a AND 0xf"] a y assms by (simp add: unat_and_low add.assoc [symmetric])
qed

lemma four_bytes:
  fixes a b c d :: byte
  assumes "240 \<le> unat a" "unat a < 248" "128 \<le> unat b" "unat b < 192" "128 \<le> unat c" "unat c < 192" "128 \<le> unat d" "unat d < 192"
  shows "unat (push_bit 18 (ucast a AND 7) OR (push_bit 12 (ucast b AND 0x3f) OR (push_bit 6 (ucast c AND 0x3f) OR (ucast d AND 0x3f))) :: u32)
    = 262144 * (unat a - 240) + 4096 * (unat b - 128) + 64 * (unat c - 128) + (unat d - 128)"
proof -
  let ?z = "push_bit 6 (ucast c AND 0x3f) OR (ucast d AND 0x3f) :: u32"
  let ?y = "push_bit 12 (ucast b AND 0x3f) OR ?z :: u32"
  have a: "unat a mod 8 = unat a - 240" using assms band_mod [of 30 8 "unat a"] by simp
  have z: "unat ?z = 64 * (unat c - 128) + (unat d - 128)"
    using unat_or_push [of "ucast d AND 0x3f" 6 "ucast c AND 0x3f"] assms by (simp add: unat_and_low cont_mod)
  have y: "unat ?y = 4096 * (unat b - 128) + 64 * (unat c - 128) + (unat d - 128)"
    using unat_or_push [of ?z 12 "ucast b AND 0x3f"] z assms by (simp add: unat_and_low cont_mod)
  show ?thesis using unat_or_push [of ?y 18 "ucast a AND 7"] a y assms by (simp add: unat_and_low add.assoc [symmetric])
qed

lemma lead_num:
  fixes a :: byte
  shows "(ucast a :: u32) < 0x80 \<longleftrightarrow> unat a < 128" "(ucast a :: u32) < 0xe0 \<longleftrightarrow> unat a < 224"
    "(ucast a :: u32) < 0xf0 \<longleftrightarrow> unat a < 240" "(ucast a :: u32) = 0xed \<longleftrightarrow> unat a = 237"
    "(ucast a :: u32) = 0xf0 \<longleftrightarrow> unat a = 240" "(ucast a :: u32) = 0xf4 \<longleftrightarrow> unat a = 244"
    "50 < (ucast a :: u32) - 0xc2 \<longleftrightarrow> unat a < 194 \<or> 245 \<le> unat a"
    "0x9f < a \<longleftrightarrow> 159 < unat a" "a < 0x90 \<longleftrightarrow> unat a < 144" "0x8f < a \<longleftrightarrow> 143 < unat a"
  using unsigned_less [of a, where ?'a = nat]
  by (simp_all add: word_less_nat_alt word_unat_eq_iff unat_sub_if') linarith

lemma iterate_num_2:
  assumes "194 \<le> unat a" "unat a < 224"
  shows "utf8proc_iterate (a # t) = Some (n, x) \<longleftrightarrow> iterate_spec (map unat (a # t)) n (unat x)"
proof (cases t)
  case Nil
  then show ?thesis using assms by (simp add: utf8proc_iterate_def lead_num iterate_spec_def Let_def)
next
  case (Cons b r)
  let ?v = "push_bit 6 (ucast a AND 0x1f) OR (ucast b AND 0x3f) :: u32"
  have i: "utf8proc_iterate (a # t) = (if utf_cont b then Some (2, ?v) else None)"
    using assms Cons by (simp add: utf8proc_iterate_def lead_num Let_def)
  have s: "iterate_spec (map unat (a # t)) n k \<longleftrightarrow> n = 2 \<and> utf_cont b \<and> k = 64 * (unat a - 192) + (unat b - 128)" for k
    using assms Cons by (simp add: iterate_spec_def utf_cont_range)
  show ?thesis unfolding i s using two_bytes [of a b] assms by (auto simp: utf_cont_range word_unat_eq_iff)
qed

lemma iterate_num_3:
  assumes "224 \<le> unat a" "unat a < 240"
  shows "utf8proc_iterate (a # t) = Some (n, x) \<longleftrightarrow> iterate_spec (map unat (a # t)) n (unat x)"
proof (cases "length t < 2")
  case True
  then show ?thesis using assms by (simp add: utf8proc_iterate_def lead_num iterate_spec_def Let_def)
next
  case False
  then obtain b c r where t: "t = b # c # r" by (cases t; cases "tl t") auto
  let ?v = "push_bit 12 (ucast a AND 0xf) OR (push_bit 6 (ucast b AND 0x3f) OR (ucast c AND 0x3f)) :: u32"
  let ?k = "4096 * (unat a - 224) + 64 * (unat b - 128) + (unat c - 128)"
  have i: "utf8proc_iterate (a # t) = (if utf_cont b \<and> utf_cont c \<and> \<not> (unat a = 237 \<and> 159 < unat b) \<and> \<not> ?v < 0x800
      then Some (3, ?v) else None)"
    using assms t by (simp add: utf8proc_iterate_def lead_num Let_def del: push_bit_and push_bit_or)
  have s: "iterate_spec (map unat (a # t)) n k \<longleftrightarrow> n = 3 \<and> utf_cont b \<and> utf_cont c \<and> k = ?k \<and> 2048 \<le> k
      \<and> \<not> (unat a = 237 \<and> 159 < unat b)" for k
    using assms t by (simp add: iterate_spec_def utf_cont_range conj_ac)
  show ?thesis unfolding i s using three_bytes [of a b c] assms by (auto simp: utf_cont_range word_unat_eq_iff word_less_nat_alt)
qed

lemma iterate_num_4:
  assumes "240 \<le> unat a" "unat a < 245"
  shows "utf8proc_iterate (a # t) = Some (n, x) \<longleftrightarrow> iterate_spec (map unat (a # t)) n (unat x)"
proof (cases "length t < 3")
  case True
  then show ?thesis using assms by (simp add: utf8proc_iterate_def lead_num iterate_spec_def Let_def)
next
  case False
  then obtain b c d r where t: "t = b # c # d # r" by (cases t; cases "tl t"; cases "tl (tl t)") auto
  let ?v = "push_bit 18 (ucast a AND 7) OR (push_bit 12 (ucast b AND 0x3f) OR (push_bit 6 (ucast c AND 0x3f) OR (ucast d AND 0x3f))) :: u32"
  let ?k = "262144 * (unat a - 240) + 4096 * (unat b - 128) + 64 * (unat c - 128) + (unat d - 128)"
  have i: "utf8proc_iterate (a # t) = (if utf_cont b \<and> utf_cont c \<and> utf_cont d \<and> \<not> (unat a = 240 \<and> unat b < 144)
      \<and> \<not> (unat a = 244 \<and> 143 < unat b) then Some (4, ?v) else None)"
    using assms t by (simp add: utf8proc_iterate_def lead_num Let_def del: push_bit_and push_bit_or)
  have s: "iterate_spec (map unat (a # t)) n k \<longleftrightarrow> n = 4 \<and> utf_cont b \<and> utf_cont c \<and> utf_cont d \<and> k = ?k
      \<and> \<not> (unat a = 240 \<and> unat b < 144) \<and> \<not> (unat a = 244 \<and> 143 < unat b)" for k
    using assms t by (simp add: iterate_spec_def utf_cont_range numeral_3_eq_3 conj_ac)
  show ?thesis unfolding i s using four_bytes [of a b c d] assms by (auto simp: utf_cont_range word_unat_eq_iff)
qed

lemma iterate_num:
  "utf8proc_iterate (a # t) = Some (n, x) \<longleftrightarrow> iterate_spec (map unat (a # t)) n (unat x)"
proof -
  consider "unat a < 128" | "128 \<le> unat a" "unat a < 194 \<or> 245 \<le> unat a" | "194 \<le> unat a" "unat a < 224"
    | "224 \<le> unat a" "unat a < 240" | "240 \<le> unat a" "unat a < 245" by linarith
  then show ?thesis
  proof cases
    case 1
    then show ?thesis by (auto simp: utf8proc_iterate_def lead_num iterate_spec_def Let_def word_unat_eq_iff)
  next
    case 2
    then show ?thesis by (auto simp: utf8proc_iterate_def lead_num iterate_spec_def Let_def)
  qed (rule iterate_num_2 iterate_num_3 iterate_num_4; assumption)+
qed

lemma digits_64:
  fixes x h m l g :: nat
  shows "l < 64 \<Longrightarrow> (64 * h + l) div 64 = h" "l < 64 \<Longrightarrow> (64 * h + l) mod 64 = l"
    "m < 64 \<Longrightarrow> l < 64 \<Longrightarrow> (4096 * h + 64 * m + l) div 4096 = h"
    "m < 64 \<Longrightarrow> l < 64 \<Longrightarrow> (4096 * h + 64 * m + l) div 64 mod 64 = m"
    "m < 64 \<Longrightarrow> l < 64 \<Longrightarrow> (4096 * h + 64 * m + l) mod 64 = l"
    "g < 64 \<Longrightarrow> m < 64 \<Longrightarrow> l < 64 \<Longrightarrow> (262144 * h + 4096 * g + 64 * m + l) div 262144 = h"
    "g < 64 \<Longrightarrow> m < 64 \<Longrightarrow> l < 64 \<Longrightarrow> (262144 * h + 4096 * g + 64 * m + l) div 4096 mod 64 = g"
    "g < 64 \<Longrightarrow> m < 64 \<Longrightarrow> l < 64 \<Longrightarrow> (262144 * h + 4096 * g + 64 * m + l) div 64 mod 64 = m"
    "g < 64 \<Longrightarrow> m < 64 \<Longrightarrow> l < 64 \<Longrightarrow> (262144 * h + 4096 * g + 64 * m + l) mod 64 = l"
proof -
  have e: "4096 * h + 64 * m + l = 64 * (64 * h + m) + l" "262144 * h + 4096 * g + 64 * m + l = 64 * (64 * (64 * h + g) + m) + l"
    "262144 * h + 4096 * g + 64 * m + l = 4096 * (64 * h + g) + (64 * m + l)" by simp_all
  show d: "l < 64 \<Longrightarrow> (64 * h + l) div 64 = h" "l < 64 \<Longrightarrow> (64 * h + l) mod 64 = l" for h l :: nat by simp_all
  show "m < 64 \<Longrightarrow> l < 64 \<Longrightarrow> (4096 * h + 64 * m + l) div 4096 = h" by simp
  show "m < 64 \<Longrightarrow> l < 64 \<Longrightarrow> (4096 * h + 64 * m + l) div 64 mod 64 = m" by (simp only: e(1) d)
  show "m < 64 \<Longrightarrow> l < 64 \<Longrightarrow> (4096 * h + 64 * m + l) mod 64 = l" by (simp only: e(1) d)
  show "g < 64 \<Longrightarrow> m < 64 \<Longrightarrow> l < 64 \<Longrightarrow> (262144 * h + 4096 * g + 64 * m + l) div 262144 = h" by simp
  show "g < 64 \<Longrightarrow> m < 64 \<Longrightarrow> l < 64 \<Longrightarrow> (262144 * h + 4096 * g + 64 * m + l) div 4096 mod 64 = g"
  proof -
    assume a: "g < 64" "m < 64" "l < 64"
    have "(4096 * (64 * h + g) + (64 * m + l)) div 4096 = 64 * h + g" using a by (subst div_mult_self4) simp_all
    then show ?thesis unfolding e(3) using a by (simp only: d)
  qed
  show "g < 64 \<Longrightarrow> m < 64 \<Longrightarrow> l < 64 \<Longrightarrow> (262144 * h + 4096 * g + 64 * m + l) div 64 mod 64 = m" by (simp only: e(2) d)
  show "g < 64 \<Longrightarrow> m < 64 \<Longrightarrow> l < 64 \<Longrightarrow> (262144 * h + 4096 * g + 64 * m + l) mod 64 = l" by (simp only: e(2) d)
qed

lemma recompose_64:
  fixes x :: nat
  shows "64 * (x div 64) + x mod 64 = x" "4096 * (x div 4096) + 64 * (x div 64 mod 64) + x mod 64 = x"
    "262144 * (x div 262144) + 4096 * (x div 4096 mod 64) + 64 * (x div 64 mod 64) + x mod 64 = x"
proof -
  have m: "64 * (y div 64) + y mod 64 = y" for y :: nat by simp
  have q: "x div 4096 = x div 64 div 64" "x div 262144 = x div 64 div 64 div 64" by (simp_all add: div_mult2_eq [symmetric])
  show "64 * (x div 64) + x mod 64 = x" by (rule m)
  show "4096 * (x div 4096) + 64 * (x div 64 mod 64) + x mod 64 = x"
    using m [of x] m [of "x div 64"] unfolding q by linarith
  show "262144 * (x div 262144) + 4096 * (x div 4096 mod 64) + 64 * (x div 64 mod 64) + x mod 64 = x"
    using m [of x] m [of "x div 64"] m [of "x div 64 div 64"] unfolding q by linarith
qed

lemma spec_encoding:
  assumes "v \<noteq> []"
  shows "iterate_spec v n x \<longleftrightarrow> x < 0x110000 \<and> \<not> (0xd800 \<le> x \<and> x < 0xe000) \<and> n = length (encoding x) \<and> take n v = encoding x"
    (is "?L \<longleftrightarrow> ?R")
proof
  have t: "take 1 v = [v ! 0]" "2 \<le> length v \<Longrightarrow> take 2 v = [v ! 0, v ! 1]" "3 \<le> length v \<Longrightarrow> take 3 v = [v ! 0, v ! 1, v ! 2]"
    "4 \<le> length v \<Longrightarrow> take 4 v = [v ! 0, v ! 1, v ! 2, v ! 3]"
    using assms by (simp_all add: take_Suc_conv_app_nth numeral_2_eq_2 numeral_3_eq_3 numeral_eq_Suc)
  assume ?L
  then consider (1) "n = 1" "v ! 0 < 128" "x = v ! 0"
    | (2) "n = 2" "2 \<le> length v" "194 \<le> v ! 0" "v ! 0 < 224" "128 \<le> v ! 1" "v ! 1 < 192" "x = 64 * (v ! 0 - 192) + (v ! 1 - 128)"
    | (3) "n = 3" "3 \<le> length v" "224 \<le> v ! 0" "v ! 0 < 240" "128 \<le> v ! 1" "v ! 1 < 192" "128 \<le> v ! 2" "v ! 2 < 192"
        "x = 4096 * (v ! 0 - 224) + 64 * (v ! 1 - 128) + (v ! 2 - 128)" "2048 \<le> x" "\<not> (v ! 0 = 237 \<and> 159 < v ! 1)"
    | (4) "n = 4" "4 \<le> length v" "240 \<le> v ! 0" "v ! 0 < 245" "128 \<le> v ! 1" "v ! 1 < 192" "128 \<le> v ! 2" "v ! 2 < 192"
        "128 \<le> v ! 3" "v ! 3 < 192" "\<not> (v ! 0 = 240 \<and> v ! 1 < 144)" "\<not> (v ! 0 = 244 \<and> 143 < v ! 1)"
        "x = 262144 * (v ! 0 - 240) + 4096 * (v ! 1 - 128) + 64 * (v ! 2 - 128) + (v ! 3 - 128)"
    unfolding iterate_spec_def by blast
  then show ?R
  proof cases
    case 1
    then show ?thesis by (simp add: encoding_def t del: One_nat_def)
  next
    case 2
    obtain h l where v: "v ! 0 = 192 + h" "v ! 1 = 128 + l" using le_Suc_ex [of 192 "v ! 0"] le_Suc_ex [of 128 "v ! 1"] 2 by auto
    have x: "x = 64 * h + l" and b: "2 \<le> h" "h < 32" "l < 64" using 2(3-7) unfolding v by simp_all
    have "128 \<le> x" "x < 2048" using x b by linarith+
    moreover have "x div 64 = h" "x mod 64 = l" unfolding x by (rule digits_64; use b in simp)+
    ultimately show ?thesis using 2(1,2) v by (simp add: encoding_def t)
  next
    case 3
    obtain h m l where v: "v ! 0 = 224 + h" "v ! 1 = 128 + m" "v ! 2 = 128 + l"
      using le_Suc_ex [of 224 "v ! 0"] le_Suc_ex [of 128 "v ! 1"] le_Suc_ex [of 128 "v ! 2"] 3 by auto
    have x: "x = 4096 * h + 64 * m + l" and b: "h < 16" "m < 64" "l < 64" and sur: "\<not> (h = 13 \<and> 31 < m)"
      using 3(3-9,11) unfolding v by simp_all
    have "\<not> (0xd800 \<le> x \<and> x < 0xe000)"
    proof
      assume a: "0xd800 \<le> x \<and> x < 0xe000"
      then have "h = 13" using x b by linarith
      then show False using sur a x b by linarith
    qed
    moreover have "x < 65536" using x b by linarith
    moreover have "x div 4096 = h" "x div 64 mod 64 = m" "x mod 64 = l" unfolding x by (rule digits_64; use b in simp)+
    ultimately show ?thesis using 3(1,2,10) v by (simp add: encoding_def t)
  next
    case 4
    obtain h g m l where v: "v ! 0 = 240 + h" "v ! 1 = 128 + g" "v ! 2 = 128 + m" "v ! 3 = 128 + l"
      using le_Suc_ex [of 240 "v ! 0"] le_Suc_ex [of 128 "v ! 1"] le_Suc_ex [of 128 "v ! 2"] le_Suc_ex [of 128 "v ! 3"] 4 by auto
    have x: "x = 262144 * h + 4096 * g + 64 * m + l" and b: "h < 5" "g < 64" "m < 64" "l < 64"
      and e: "\<not> (h = 0 \<and> g < 16)" "\<not> (h = 4 \<and> 15 < g)"
      using 4(3-13) unfolding v by simp_all
    have "65536 \<le> x" using x e(1) by (cases "h = 0") linarith+
    moreover have "x < 0x110000" using x b e(2) by (cases "h = 4") linarith+
    moreover have "x div 262144 = h" "x div 4096 mod 64 = g" "x div 64 mod 64 = m" "x mod 64 = l"
      unfolding x by (rule digits_64; use b in simp)+
    ultimately show ?thesis using 4(1,2) v by (simp add: encoding_def t)
  qed
next
  assume r: ?R
  let ?r = "drop n v"
  have v: "v = encoding x @ ?r" using r by (metis append_take_drop_id)
  show ?L
  proof -
    consider "x < 128" | "128 \<le> x" "x < 2048" | "2048 \<le> x" "x < 65536" | "65536 \<le> x" by linarith
    then show ?thesis
    proof cases
      case 1
      then show ?thesis by (subst v) (use r in \<open>simp add: iterate_spec_def encoding_def\<close>)
    next
      case 2
      define h l where "h = x div 64" and "l = x mod 64"
      have e: "encoding x = [192 + h, 128 + l]" using 2 by (simp add: encoding_def h_def l_def)
      have x: "64 * h + l = x" "l < 64" unfolding h_def l_def by simp_all
      then have "2 \<le> h" "h < 32" using 2 by linarith+
      then show ?thesis using x r e by (subst v) (simp add: iterate_spec_def)
    next
      case 3
      define h m l where "h = x div 4096" and "m = x div 64 mod 64" and "l = x mod 64"
      have e: "encoding x = [224 + h, 128 + m, 128 + l]" using 3 by (simp add: encoding_def h_def m_def l_def)
      have x: "4096 * h + 64 * m + l = x" "m < 64" "l < 64" using recompose_64(2) [of x] by (simp_all add: h_def m_def l_def)
      then have "h < 16" "h = 13 \<Longrightarrow> m < 32" using 3 r by linarith+
      then show ?thesis using x r e 3 by (subst v) (auto simp: iterate_spec_def)
    next
      case 4
      define h g m l where "h = x div 262144" and "g = x div 4096 mod 64" and "m = x div 64 mod 64" and "l = x mod 64"
      have e: "encoding x = [240 + h, 128 + g, 128 + m, 128 + l]" using 4 by (simp add: encoding_def h_def g_def m_def l_def)
      have x: "262144 * h + 4096 * g + 64 * m + l = x" "g < 64" "m < 64" "l < 64"
        using recompose_64(3) [of x] by (simp_all add: h_def g_def m_def l_def)
      then have "h < 5" "h = 0 \<Longrightarrow> 16 \<le> g" "h = 4 \<Longrightarrow> g < 16" using 4 r by linarith+
      then show ?thesis using x r e 4 by (subst v) (auto simp: iterate_spec_def numeral_3_eq_3)
    qed
  qed
qed

lemma inj_byte_unat: "inj (unat :: byte \<Rightarrow> nat)"
  by (rule injI) (simp add: word_unat_eq_iff)

lemma decode_iff:
  assumes "s \<noteq> []"
  shows "utf8proc_iterate s = Some (n, cp) \<longleftrightarrow>
    utf8proc_codepoint_valid cp \<and> n = length (utf8proc_encode_char cp) \<and> take n s = utf8proc_encode_char cp"
proof -
  obtain a t where s: "s = a # t" using assms by (cases s) auto
  have inj: "take n s = e \<longleftrightarrow> take n (map unat s) = map unat e" for e :: bytes
    using inj_map_eq_map [OF inj_byte_unat] by (simp add: take_map)
  have "utf8proc_iterate s = Some (n, cp) \<longleftrightarrow> iterate_spec (map unat s) n (unat cp)" unfolding s by (rule iterate_num)
  also have "\<dots> \<longleftrightarrow> utf8proc_codepoint_valid cp \<and> n = length (encoding (unat cp)) \<and> take n (map unat s) = encoding (unat cp)"
    using spec_encoding [of "map unat s" n "unat cp"] assms by (simp add: valid_num)
  also have "\<dots> \<longleftrightarrow> utf8proc_codepoint_valid cp \<and> n = length (utf8proc_encode_char cp) \<and> take n s = utf8proc_encode_char cp"
  proof (cases "unat cp < 0x110000")
    case True
    note e = encode_num [OF True]
    show ?thesis unfolding inj e using arg_cong [OF e, of length] by simp
  qed (simp add: valid_num)
  finally show ?thesis .
qed

section \<open>Grapheme cluster boundaries\<close>

text \<open>The boundary rules of Unicode Standard Annex 29 as statements on the whole text before a
  position: \<open>r\<close> holds the classes of the preceding code points, the nearest first.\<close>

definition no_break_pair :: "nat \<Rightarrow> nat \<Rightarrow> bool" where
  "no_break_pair l t \<longleftrightarrow>
     l = BC_CR \<and> t = BC_LF
   \<or> l \<notin> {BC_CR, BC_LF, BC_CONTROL} \<and> t \<notin> {BC_CR, BC_LF, BC_CONTROL} \<and>
       (l = BC_L \<and> t \<in> {BC_L, BC_V, BC_LV, BC_LVT}
      \<or> l \<in> {BC_LV, BC_V} \<and> t \<in> {BC_V, BC_T}
      \<or> l \<in> {BC_LVT, BC_T} \<and> t = BC_T
      \<or> t \<in> {BC_EXTEND, BC_ZWJ, BC_SPACINGMARK}
      \<or> l = BC_PREPEND)"

definition pictograph_before :: "nat list \<Rightarrow> bool" where
  "pictograph_before r \<longleftrightarrow> (case dropWhile (\<lambda>x. x = BC_EXTEND) r of [] \<Rightarrow> False | x # _ \<Rightarrow> x = BC_EXTENDED_PICTOGRAPHIC)"

definition odd_regional :: "nat list \<Rightarrow> bool" where
  "odd_regional r \<longleftrightarrow> odd (length (takeWhile (\<lambda>x. x = BC_REGIONAL_INDICATOR) r))"

definition conjunct_before :: "nat list \<Rightarrow> bool" where
  "conjunct_before r \<longleftrightarrow>
     (let joins = (\<lambda>x. x = ICB_LINKER \<or> x = ICB_EXTEND)
      in ICB_LINKER \<in> set (takeWhile joins r)
       \<and> (case dropWhile joins r of [] \<Rightarrow> False | x # _ \<Rightarrow> x = ICB_CONSONANT))"

definition tr29_break :: "Unicode \<Rightarrow> u32 list \<Rightarrow> u32 \<Rightarrow> bool" where
  "tr29_break U before c \<longleftrightarrow>
     (let r = map (\<lambda>x. boundclass (U x)) before; t = boundclass (U c) in
      \<not> no_break_pair (hd r) t
    \<and> \<not> (t = BC_EXTENDED_PICTOGRAPHIC \<and> hd r = BC_ZWJ \<and> pictograph_before (tl r))
    \<and> \<not> (t = BC_REGIONAL_INDICATOR \<and> odd_regional r)
    \<and> \<not> (indic_conjunct_break (U c) = ICB_CONSONANT \<and> conjunct_before (map (\<lambda>x. indic_conjunct_break (U x)) before)))"

text \<open>The state the machine reaches over the code points \<open>before\<close> (the nearest first), and the class
  and conjunct parts it stands for.\<close>

fun run_state :: "Unicode \<Rightarrow> u32 list \<Rightarrow> nat" where
  "run_state U (d # c # r) = snd (utf8proc_grapheme_break_stateful U c d (run_state U (c # r)))"
| "run_state U _ = 0"

definition proper_table :: "Unicode \<Rightarrow> bool" where
  "proper_table U \<longleftrightarrow> (\<forall>c. 1 \<le> boundclass (U c) \<and> boundclass (U c) \<le> 19 \<and> indic_conjunct_break (U c) \<le> 3)"

definition class_state :: "nat list \<Rightarrow> nat" where
  "class_state r =
     (if hd r = BC_REGIONAL_INDICATOR then (if odd_regional r then BC_REGIONAL_INDICATOR else BC_OTHER)
      else if hd r = BC_EXTEND \<and> pictograph_before r then BC_EXTENDED_PICTOGRAPHIC
      else if hd r = BC_ZWJ \<and> pictograph_before (tl r) then BC_E_ZWG
      else hd r)"

fun conjunct_state :: "nat list \<Rightarrow> nat" where
  "conjunct_state [] = ICB_NONE"
| "conjunct_state (x # r) =
     (if x = ICB_CONSONANT \<or> conjunct_state r = ICB_CONSONANT \<or> conjunct_state r = ICB_EXTEND then x
      else if conjunct_state r = ICB_LINKER then (if x = ICB_EXTEND then ICB_LINKER else x)
      else conjunct_state r)"

definition state_parts :: "nat \<Rightarrow> nat \<Rightarrow> nat \<Rightarrow> nat \<times> nat" where
  "state_parts lbc licb state =
     (if state = 0 then (lbc, if licb = ICB_CONSONANT then licb else ICB_NONE) else (state AND 0xff, drop_bit 8 state))"

lemma class_state_step:
  assumes "r \<noteq> []" "hd r \<le> 19"
  shows "class_state (t # r) =
    (if class_state r = t \<and> t = BC_REGIONAL_INDICATOR then BC_OTHER
     else if class_state r = BC_EXTENDED_PICTOGRAPHIC then
       (if t = BC_EXTEND then BC_EXTENDED_PICTOGRAPHIC else if t = BC_ZWJ then BC_E_ZWG else t)
     else t)"
  using assms by (cases r) (auto simp: class_state_def odd_regional_def pictograph_before_def)

lemma conjunct_state_le: "\<forall>x \<in> set r. x \<le> 3 \<Longrightarrow> conjunct_state r \<le> 3"
  by (induction r) auto

definition consonant_before :: "nat list \<Rightarrow> bool" where
  "consonant_before r \<longleftrightarrow> (case dropWhile (\<lambda>x. x = ICB_LINKER \<or> x = ICB_EXTEND) r of [] \<Rightarrow> False | x # _ \<Rightarrow> x = ICB_CONSONANT)"

definition linker_before :: "nat list \<Rightarrow> bool" where
  "linker_before r \<longleftrightarrow> ICB_LINKER \<in> set (takeWhile (\<lambda>x. x = ICB_LINKER \<or> x = ICB_EXTEND) r)"

lemma before_Nil [simp]: "consonant_before [] = False" "linker_before [] = False"
  by (simp_all add: consonant_before_def linker_before_def)

lemma consonant_before_Cons: "consonant_before (x # r) = (x = ICB_CONSONANT \<or> (x = ICB_LINKER \<or> x = ICB_EXTEND) \<and> consonant_before r)"
  by (simp add: consonant_before_def)

lemma linker_before_Cons: "linker_before (x # r) = (x = ICB_LINKER \<or> x = ICB_EXTEND \<and> linker_before r)"
proof (cases "x = ICB_LINKER")
  case False
  then show ?thesis by (cases "x = ICB_EXTEND") (simp_all add: linker_before_def)
qed (simp add: linker_before_def)

lemmas before_simps = consonant_before_Cons linker_before_Cons

lemma conjunct_state_eq:
  "\<forall>x \<in> set r. x \<le> 3 \<Longrightarrow> conjunct_state r =
    (if \<not> consonant_before r then ICB_NONE
     else if linker_before r then ICB_LINKER
     else hd r)"
proof (induction r)
  case (Cons x r)
  then have IH: "conjunct_state r =
    (if \<not> consonant_before r then ICB_NONE else if linker_before r then ICB_LINKER else hd r)" by simp
  have h: "consonant_before r \<Longrightarrow> \<not> linker_before r \<Longrightarrow> hd r = ICB_CONSONANT \<or> hd r = ICB_EXTEND"
    by (cases r) (auto simp: before_simps)
  have "x \<le> 3" using Cons by simp
  then consider "x = 0" | "x = 1" | "x = 2" | "x = 3" by linarith
  then show ?case by cases (use IH h in \<open>auto simp: before_simps\<close>)
qed (simp add: before_simps)

lemma conjunct_state_linker: "\<forall>x \<in> set r. x \<le> 3 \<Longrightarrow> conjunct_state r = ICB_LINKER \<longleftrightarrow> conjunct_before r"
proof -
  assume a: "\<forall>x \<in> set r. x \<le> 3"
  have "conjunct_before r \<longleftrightarrow> linker_before r \<and> consonant_before r"
    by (simp add: conjunct_before_def linker_before_def consonant_before_def Let_def)
  moreover have "consonant_before r \<Longrightarrow> \<not> linker_before r \<Longrightarrow> hd r \<noteq> ICB_LINKER"
    by (cases r) (auto simp: before_simps)
  ultimately show ?thesis using conjunct_state_eq [OF a] by auto
qed

lemma state_parts_pack: "1 \<le> b \<Longrightarrow> b \<le> 20 \<Longrightarrow> state_parts x y (b + push_bit 8 i) = (b, i)"
proof -
  assume b: "1 \<le> b" "b \<le> 20"
  have "(b + 256 * i) AND 0xff = b"
    using b take_bit_eq_mask [of 8 "b + 256 * i"] by (simp add: mask_eq_exp_minus_1 take_bit_eq_mod)
  moreover have "drop_bit 8 (b + 256 * i) = i" using b by (simp add: drop_bit_eq_div)
  ultimately show ?thesis using b by (simp add: state_parts_def push_bit_eq_mult mult.commute)
qed

lemma extended_parts:
  "grapheme_break_extended lbc tbc licb ticb state =
     (let (b, i) = state_parts lbc licb state in
      (grapheme_break_simple b tbc \<and> \<not> (i = ICB_LINKER \<and> ticb = ICB_CONSONANT),
       (if b = tbc \<and> tbc = BC_REGIONAL_INDICATOR then BC_OTHER
        else if b = BC_EXTENDED_PICTOGRAPHIC then
          (if tbc = BC_EXTEND then BC_EXTENDED_PICTOGRAPHIC else if tbc = BC_ZWJ then BC_E_ZWG else tbc)
        else tbc)
       + push_bit 8
         (if ticb = ICB_CONSONANT \<or> i = ICB_CONSONANT \<or> i = ICB_EXTEND then ticb
          else if i = ICB_LINKER then (if ticb = ICB_EXTEND then ICB_LINKER else ticb)
          else i)))"
  by (simp add: grapheme_break_extended_def state_parts_def Let_def)

abbreviation (input) classes :: "Unicode \<Rightarrow> u32 list \<Rightarrow> nat list" where
  "classes U \<equiv> map (\<lambda>x. boundclass (U x))"

abbreviation (input) conjuncts :: "Unicode \<Rightarrow> u32 list \<Rightarrow> nat list" where
  "conjuncts U \<equiv> map (\<lambda>x. indic_conjunct_break (U x))"

lemma run_state_parts:
  assumes "proper_table U" "before \<noteq> []"
  shows "state_parts (boundclass (U (hd before))) (indic_conjunct_break (U (hd before))) (run_state U before)
    = (class_state (classes U before), conjunct_state (conjuncts U before))"
  using assms
proof (induction U before rule: run_state.induct)
  case (1 U d c r)
  have t: "1 \<le> boundclass (U x)" "boundclass (U x) \<le> 19" "indic_conjunct_break (U x) \<le> 3" for x
    using 1(2) by (auto simp: proper_table_def)
  define B C where "B = classes U (c # r)" and "C = conjuncts U (c # r)"
  have BC: "classes U (d # c # r) = boundclass (U d) # B" "conjuncts U (d # c # r) = indic_conjunct_break (U d) # C"
    by (simp_all add: B_def C_def)
  have IH: "state_parts (boundclass (U c)) (indic_conjunct_break (U c)) (run_state U (c # r)) = (class_state B, conjunct_state C)"
    using 1 by (simp add: B_def C_def)
  have st: "class_state (boundclass (U d) # B) = (if class_state B = boundclass (U d) \<and> boundclass (U d) = BC_REGIONAL_INDICATOR then BC_OTHER
     else if class_state B = BC_EXTENDED_PICTOGRAPHIC then
       (if boundclass (U d) = BC_EXTEND then BC_EXTENDED_PICTOGRAPHIC else if boundclass (U d) = BC_ZWJ then BC_E_ZWG else boundclass (U d))
     else boundclass (U d))"
    by (rule class_state_step) (use t in \<open>simp_all add: B_def\<close>)
  have cs: "1 \<le> class_state (boundclass (U d) # B) \<and> class_state (boundclass (U d) # B) \<le> 20"
    using t [of d] by (simp add: class_state_def)
  have "run_state U (d # c # r) = class_state (boundclass (U d) # B) + push_bit 8 (conjunct_state (indic_conjunct_break (U d) # C))"
    unfolding st by (simp only: run_state.simps utf8proc_grapheme_break_stateful_def extended_parts IH Let_def prod.case snd_conv conjunct_state.simps)
  then show ?case unfolding BC using state_parts_pack cs by (simp del: conjunct_state.simps)
qed (auto simp: state_parts_def class_state_def odd_regional_def pictograph_before_def)

lemma simple_pair:
  assumes "1 \<le> l" "l \<le> 19" "\<not> (l = BC_REGIONAL_INDICATOR \<and> t = BC_REGIONAL_INDICATOR)"
  shows "grapheme_break_simple l t \<longleftrightarrow> \<not> no_break_pair l t"
proof -
  have e: "l \<noteq> BC_START" "l \<noteq> BC_E_ZWG" using assms by simp_all
  have r: "BC_CR \<le> x \<and> x \<le> BC_CONTROL \<longleftrightarrow> x \<in> {BC_CR, BC_LF, BC_CONTROL}" for x :: nat by auto
  show ?thesis
  proof (cases "l \<in> {BC_CR, BC_LF, BC_CONTROL} \<or> t \<in> {BC_CR, BC_LF, BC_CONTROL}")
    case True
    then show ?thesis using e assms(3) by (simp add: grapheme_break_simple_def no_break_pair_def r)
  next
    case False
    then show ?thesis using e assms(3) by (simp add: grapheme_break_simple_def no_break_pair_def r)
  qed
qed

lemma simple_same:
  "t \<noteq> BC_REGIONAL_INDICATOR \<Longrightarrow> grapheme_break_simple BC_REGIONAL_INDICATOR t = grapheme_break_simple BC_OTHER t"
  "grapheme_break_simple BC_EXTENDED_PICTOGRAPHIC t = grapheme_break_simple BC_EXTEND t"
  "t \<noteq> BC_EXTENDED_PICTOGRAPHIC \<Longrightarrow> grapheme_break_simple BC_E_ZWG t = grapheme_break_simple BC_ZWJ t"
  "grapheme_break_simple BC_OTHER BC_REGIONAL_INDICATOR" "\<not> grapheme_break_simple BC_REGIONAL_INDICATOR BC_REGIONAL_INDICATOR"
  "\<not> grapheme_break_simple BC_E_ZWG BC_EXTENDED_PICTOGRAPHIC"
  by (simp_all add: grapheme_break_simple_def)

lemma no_pair_regional: "\<not> no_break_pair BC_REGIONAL_INDICATOR BC_REGIONAL_INDICATOR"
  by (simp add: no_break_pair_def)

lemma odd_regional_hd: "odd_regional r \<Longrightarrow> r \<noteq> [] \<and> hd r = BC_REGIONAL_INDICATOR"
  by (cases r) (auto simp: odd_regional_def split: if_splits)

lemma simple_state:
  assumes "r \<noteq> []" "1 \<le> hd r" "hd r \<le> 19"
  shows "grapheme_break_simple (class_state r) t \<longleftrightarrow>
      \<not> no_break_pair (hd r) t
    \<and> \<not> (t = BC_EXTENDED_PICTOGRAPHIC \<and> hd r = BC_ZWJ \<and> pictograph_before (tl r))
    \<and> \<not> (t = BC_REGIONAL_INDICATOR \<and> odd_regional r)"
proof (cases "hd r = BC_REGIONAL_INDICATOR")
  case True
  then show ?thesis using simple_pair [of 11 t] no_pair_regional
    by (cases "t = BC_REGIONAL_INDICATOR") (simp_all add: class_state_def simple_same del: One_nat_def)
next
  case False
  then have no: "\<not> odd_regional r" using odd_regional_hd by blast
  have p: "grapheme_break_simple (hd r) t \<longleftrightarrow> \<not> no_break_pair (hd r) t" by (rule simple_pair) (use assms False in auto)
  show ?thesis
  proof (cases "t = BC_EXTENDED_PICTOGRAPHIC \<and> hd r = BC_ZWJ \<and> pictograph_before (tl r)")
    case True
    then show ?thesis by (simp add: class_state_def simple_same)
  next
    case nz: False
    then have "grapheme_break_simple (class_state r) t = grapheme_break_simple (hd r) t"
      using False by (auto simp: class_state_def simple_same)
    then show ?thesis using p nz no by simp
  qed
qed

lemma break_follows_tr29:
  assumes "proper_table U" "before \<noteq> []"
  shows "fst (utf8proc_grapheme_break_stateful U (hd before) c (run_state U before)) = tr29_break U before c"
proof -
  have t: "1 \<le> boundclass (U x)" "boundclass (U x) \<le> 19" "indic_conjunct_break (U x) \<le> 3" for x
    using assms(1) by (auto simp: proper_table_def)
  have h: "hd (classes U before) = boundclass (U (hd before))" using assms(2) by (simp add: hd_map)
  have s: "grapheme_break_simple (class_state (classes U before)) (boundclass (U c)) \<longleftrightarrow>
      \<not> no_break_pair (hd (classes U before)) (boundclass (U c))
    \<and> \<not> (boundclass (U c) = BC_EXTENDED_PICTOGRAPHIC \<and> hd (classes U before) = BC_ZWJ \<and> pictograph_before (tl (classes U before)))
    \<and> \<not> (boundclass (U c) = BC_REGIONAL_INDICATOR \<and> odd_regional (classes U before))"
    by (rule simple_state) (use t h assms(2) in simp_all)
  have l: "conjunct_state (conjuncts U before) = ICB_LINKER \<longleftrightarrow> conjunct_before (conjuncts U before)"
    by (rule conjunct_state_linker) (use t in auto)
  show ?thesis
    unfolding utf8proc_grapheme_break_stateful_def extended_parts run_state_parts [OF assms] Let_def prod.case fst_conv s l tr29_break_def
    by blast
qed

section \<open>Properties\<close>

text \<open>C37.  \<^verbatim>\<open>utf8proc_iterate\<close> decodes UTF-8 exactly: it returns a code point and a length if and only if
  the input starts with the encoding of that code point by \<^verbatim>\<open>utf8proc_encode_char\<close> and the code point is
  valid.  Overlong forms, surrogates, values above \<open>0x10ffff\<close> and cut sequences are refused.\<close>

theorem iterate_inverts_encode:
  assumes "s \<noteq> []"
  shows "utf8proc_iterate s = Some (n, cp) \<longleftrightarrow>
    utf8proc_codepoint_valid cp \<and> n = length (utf8proc_encode_char cp) \<and> take n s = utf8proc_encode_char cp"
  using assms by (rule decode_iff)

theorem iterate_inverts_encode_witness: "utf8proc_encode_char 0x20ac = [0xe2, 0x82, 0xac]"
proof -
  have "utf8proc_iterate [0xe2, 0x82, 0xac, 0x41] = Some (3, 0x20ac)"
    by (simp add: utf8proc_iterate_def utf_cont_def)
  then show ?thesis using iterate_inverts_encode [of "[0xe2, 0x82, 0xac, 0x41]" 3 "0x20ac"] by simp
qed

text \<open>C38.  The grapheme break machine, run over a cluster with its two-part state, answers as the rules of
  Unicode Annex 29 that look back over the whole text: GB9c conjuncts, GB11 emoji sequences and
  GB12/13 flag pairs included.\<close>

theorem break_machine_implements_tr29:
  assumes "proper_table U" "before \<noteq> []"
  shows "fst (utf8proc_grapheme_break_stateful U (hd before) c (run_state U before)) = tr29_break U before c"
  using assms by (rule break_follows_tr29)

theorem break_machine_implements_tr29_witness:
  "fst (utf8proc_grapheme_break_stateful
      (\<lambda>_. \<lparr>category = 0, charwidth = 1, boundclass = BC_REGIONAL_INDICATOR, indic_conjunct_break = ICB_NONE\<rparr>)
      0x1f1ea 0x1f1eb (run_state (\<lambda>_. \<lparr>category = 0, charwidth = 1, boundclass = BC_REGIONAL_INDICATOR, indic_conjunct_break = ICB_NONE\<rparr>)
        [0x1f1ea, 0x1f1e9]))"
proof -
  let ?U = "\<lambda>_ :: u32. \<lparr>category = 0, charwidth = 1, boundclass = BC_REGIONAL_INDICATOR, indic_conjunct_break = ICB_NONE\<rparr>"
  have "proper_table ?U" by (simp add: proper_table_def)
  moreover have "tr29_break ?U [0x1f1ea, 0x1f1e9] 0x1f1eb"
    by (simp add: tr29_break_def no_break_pair_def odd_regional_def conjunct_before_def Let_def)
  ultimately show ?thesis using break_machine_implements_tr29 [of ?U "[0x1f1ea, 0x1f1e9]" "0x1f1eb"] by simp
qed

end
