(* ===== verification/Utf8.thy ===== *)
theory Utf8
  imports Utf8proc
begin

text \<open>
  Terminal text, \<^verbatim>\<open>src/nxtui/utf8.hpp\<close>: decoding, grapheme cluster boundaries, display width, words,
  segments and paragraphs.  A text is its list of bytes, an offset or a width a natural number.
  The decoder and the grapheme break machine come from \<open>Utf8proc\<close>; the generated property table is
  the parameter \<open>U\<close>, and every theorem holds for all tables unless it says otherwise.
\<close>

section \<open>Model: decoding\<close>

record Decoded =
  d_length :: nat
  d_codepoint :: u32
  d_valid :: bool

definition decode :: "bytes \<Rightarrow> nat \<Rightarrow> Decoded" where
  "decode str b =
     (if b \<ge> length str then \<lparr>d_length = 0, d_codepoint = 0, d_valid = False\<rparr>
      else case utf8proc_iterate (drop b str) of
        None \<Rightarrow> \<lparr>d_length = 1, d_codepoint = 0xfffd, d_valid = False\<rparr>
      | Some (len, cp) \<Rightarrow> \<lparr>d_length = len, d_codepoint = cp, d_valid = True\<rparr>)"

definition regional_indicator :: "u32 \<Rightarrow> bool" where
  "regional_indicator cp \<longleftrightarrow> cp \<ge> 0x1f1e6 \<and> cp \<le> 0x1f1ff"

definition substr :: "bytes \<Rightarrow> nat \<Rightarrow> nat \<Rightarrow> bytes" where
  "substr str a n = take n (drop a str)"

lemma utf8proc_iterate_length:
  "utf8proc_iterate s = Some (n, cp) \<Longrightarrow> s \<noteq> [] \<Longrightarrow> 1 \<le> n \<and> n \<le> length s"
  by (cases s) (auto simp: utf8proc_iterate_def Let_def Suc_le_eq split: if_splits)

lemma decode_length:
  assumes "b < length str"
  shows "1 \<le> d_length (decode str b) \<and> b + d_length (decode str b) \<le> length str"
proof -
  have "drop b str \<noteq> []" using assms by simp
  then show ?thesis using assms utf8proc_iterate_length [of "drop b str"]
    by (auto simp: decode_def split: option.splits)
qed

lemma decode_end: "\<not> b < length str \<Longrightarrow> \<not> d_valid (decode str b)"
  by (simp add: decode_def)

section \<open>Model: clusters\<close>

function separator_from :: "Unicode \<Rightarrow> bytes \<Rightarrow> nat \<Rightarrow> bool" where
  "separator_from U cluster b =
     (if b < length cluster then
        let d = decode cluster b in
        if \<not> d_valid d then False
        else if d_codepoint d \<in> {0x09, 0x0a, 0x0b, 0x0c, 0x0d} then True
        else if utf8proc_category U (d_codepoint d) \<in> {23, 24, 25} then True
        else separator_from U cluster (b + d_length d)
      else False)"
  by auto
termination
  by (relation "measure (\<lambda>(U, cluster, b). length cluster - b)")
    (auto, metis One_nat_def decode_length diff_less_mono2 less_add_same_cancel1 less_le_trans zero_less_one)

definition is_word_separator :: "Unicode \<Rightarrow> bytes \<Rightarrow> bool" where
  "is_word_separator U cluster = separator_from U cluster 0"

definition is_line_break :: "bytes \<Rightarrow> bool" where
  "is_line_break cluster \<longleftrightarrow> cluster = [0x0a] \<or> cluster = [0x0d, 0x0a] \<or> cluster = [0x0d]"

function next_loop :: "Unicode \<Rightarrow> bytes \<Rightarrow> u32 \<Rightarrow> nat \<Rightarrow> nat \<Rightarrow> nat" where
  "next_loop U str cp b state =
     (if b < length str then
        let following = decode str b in
        if \<not> d_valid following then b
        else
          let (brk, state') = utf8proc_grapheme_break_stateful U cp (d_codepoint following) state in
          if brk then b else next_loop U str (d_codepoint following) (b + d_length following) state'
      else b)"
  by auto
termination
  by (relation "measure (\<lambda>(U, str, cp, b, state). length str - b)")
    (auto, metis One_nat_def decode_length diff_less_mono2 less_add_same_cancel1 less_le_trans zero_less_one)

definition utf8_next :: "Unicode \<Rightarrow> bytes \<Rightarrow> nat \<Rightarrow> nat" where
  "utf8_next U str b =
     (if b \<ge> length str then length str
      else let current = decode str b in
        if \<not> d_valid current then b + d_length current
        else next_loop U str (d_codepoint current) (b + d_length current) 0)"

declare separator_from.simps [simp del] next_loop.simps [simp del]

lemma next_loop_bounds: "b \<le> length str \<Longrightarrow> b \<le> next_loop U str cp b state \<and> next_loop U str cp b state \<le> length str"
proof (induction U str cp b state rule: next_loop.induct)
  case (1 U str cp b state)
  show ?case
  proof (cases "b < length str \<and> d_valid (decode str b)")
    case True
    obtain brk st where g: "utf8proc_grapheme_break_stateful U cp (d_codepoint (decode str b)) state = (brk, st)" by (cases "utf8proc_grapheme_break_stateful U cp (d_codepoint (decode str b)) state")
    show ?thesis
    proof (cases brk)
      case True
      then show ?thesis using 1(2) g by (subst (1 2) next_loop.simps) (auto simp: Let_def)
    next
      case nb: False
      let ?d = "decode str b"
      have l: "1 \<le> d_length ?d" "b + d_length ?d \<le> length str" using decode_length [of b str] True by auto
      have "next_loop U str cp b state = next_loop U str (d_codepoint ?d) (b + d_length ?d) st"
        using True g nb by (subst next_loop.simps) (auto simp: Let_def)
      then show ?thesis using 1(1) [of ?d "(brk, st)" brk st] True g nb l by auto
    qed
  next
    case False
    then show ?thesis using 1(2) by (subst (1 2) next_loop.simps) (auto simp: Let_def)
  qed
qed

text \<open>Progress: the law every scanning loop relies on.\<close>

lemma next_progress:
  assumes "b < length str"
  shows "b < utf8_next U str b" "utf8_next U str b \<le> length str"
proof -
  have l: "1 \<le> d_length (decode str b)" "b + d_length (decode str b) \<le> length str" using decode_length [OF assms] by auto
  show "b < utf8_next U str b" "utf8_next U str b \<le> length str"
    using assms l next_loop_bounds [OF l(2), of U "d_codepoint (decode str b)" 0] by (auto simp: utf8_next_def Let_def)
qed

lemma next_end: "\<not> b < length str \<Longrightarrow> utf8_next U str b = length str"
  by (simp add: utf8_next_def)

lemma next_measure: "b < length str \<Longrightarrow> length str - utf8_next U str b < length str - b"
  using next_progress(1) [of b str U] by simp

section \<open>Model: positions and widths\<close>

function prev_from :: "Unicode \<Rightarrow> bytes \<Rightarrow> nat \<Rightarrow> nat \<Rightarrow> nat" where
  "prev_from U str byte b =
     (if b < length str then
        let n = utf8_next U str b in if n \<ge> byte then b else prev_from U str byte n
      else length str)"
  by auto
termination by (relation "measure (\<lambda>(U, str, byte, b). length str - b)") (auto intro: next_measure)

definition prev :: "Unicode \<Rightarrow> bytes \<Rightarrow> nat \<Rightarrow> nat" where
  "prev U str byte =
     (let byte = (if byte > length str then length str else byte)
      in if byte = 0 then 0 else prev_from U str byte 0)"

function floor_from :: "Unicode \<Rightarrow> bytes \<Rightarrow> nat \<Rightarrow> nat \<Rightarrow> nat \<Rightarrow> nat" where
  "floor_from U str byte boundary b =
     (if b < length str then
        let n = utf8_next U str b in if byte < n then boundary else floor_from U str byte n n
      else length str)"
  by auto
termination by (relation "measure (\<lambda>(U, str, byte, boundary, b). length str - b)") (auto intro: next_measure)

definition floor_boundary :: "Unicode \<Rightarrow> bytes \<Rightarrow> nat \<Rightarrow> nat" where
  "floor_boundary U str byte = (if byte \<ge> length str then length str else floor_from U str byte 0 0)"

function count_from :: "Unicode \<Rightarrow> bytes \<Rightarrow> nat \<Rightarrow> nat \<Rightarrow> nat" where
  "count_from U str b n = (if b < length str then count_from U str (utf8_next U str b) (n + 1) else n)"
  by auto
termination by (relation "measure (\<lambda>(U, str, b, n). length str - b)") (auto intro: next_measure)

definition count :: "Unicode \<Rightarrow> bytes \<Rightarrow> nat" where
  "count U str = count_from U str 0 0"

record WidthScan =
  ws_sum :: nat
  ws_max :: nat
  ws_regional :: nat
  ws_only_regional :: bool
  ws_zwj :: bool

definition width_char :: "Unicode \<Rightarrow> u32 \<Rightarrow> WidthScan \<Rightarrow> WidthScan" where
  "width_char U cp w =
     (let w = (if cp = 0x200d then w\<lparr>ws_zwj := True\<rparr> else w);
          w = (if regional_indicator cp then w\<lparr>ws_regional := ws_regional w + 1\<rparr> else w\<lparr>ws_only_regional := False\<rparr>);
          width = utf8proc_charwidth U cp
      in if width > 0
         then w\<lparr>ws_sum := ws_sum w + nat width, ws_max := (if nat width > ws_max w then nat width else ws_max w)\<rparr>
         else w)"

definition width_result :: "WidthScan \<Rightarrow> nat" where
  "width_result w =
     (if ws_zwj w then (if ws_max w = 0 then 1 else ws_max w)
      else if ws_only_regional w \<and> ws_regional w \<ge> 2 then 2
      else if ws_sum w = 0 then 1 else ws_sum w)"

function width_from :: "Unicode \<Rightarrow> bytes \<Rightarrow> nat \<Rightarrow> WidthScan \<Rightarrow> nat" where
  "width_from U cluster b w =
     (if b < length cluster then
        let d = decode cluster b in
        if \<not> d_valid d then 1 else width_from U cluster (b + d_length d) (width_char U (d_codepoint d) w)
      else width_result w)"
  by auto
termination
  by (relation "measure (\<lambda>(U, cluster, b, w). length cluster - b)")
    (auto, metis One_nat_def decode_length diff_less_mono2 less_add_same_cancel1 less_le_trans zero_less_one)

definition cluster_width :: "Unicode \<Rightarrow> bytes \<Rightarrow> nat" where
  "cluster_width U cluster = width_from U cluster 0
     \<lparr>ws_sum = 0, ws_max = 0, ws_regional = 0, ws_only_regional = (cluster \<noteq> []), ws_zwj = False\<rparr>"

function display_from :: "Unicode \<Rightarrow> bytes \<Rightarrow> nat \<Rightarrow> nat \<Rightarrow> nat" where
  "display_from U str b width =
     (if b < length str then
        let n = utf8_next U str b in display_from U str n (width + cluster_width U (substr str b (n - b)))
      else width)"
  by auto
termination by (relation "measure (\<lambda>(U, str, b, w). length str - b)") (auto intro: next_measure)

definition display_width :: "Unicode \<Rightarrow> bytes \<Rightarrow> nat" where
  "display_width U str = display_from U str 0 0"

function byte_at_from :: "Unicode \<Rightarrow> bytes \<Rightarrow> nat \<Rightarrow> nat \<Rightarrow> nat \<Rightarrow> nat" where
  "byte_at_from U str cell i b =
     (if i < cell \<and> b < length str then byte_at_from U str cell (i + 1) (utf8_next U str b) else b)"
  by auto
termination by (relation "measure (\<lambda>(U, str, cell, i, b). length str - b)") (auto intro: next_measure)

definition byte_at :: "Unicode \<Rightarrow> bytes \<Rightarrow> nat \<Rightarrow> nat" where
  "byte_at U str cell = byte_at_from U str cell 0 0"

text \<open>\<^verbatim>\<open>cell_at\<close> and \<^verbatim>\<open>column_at\<close> stop at a boundary, which \<^verbatim>\<open>floor_boundary\<close> gives, so that they never run
  past the text; the guard on the length makes the recursion total.\<close>

function cell_from :: "Unicode \<Rightarrow> bytes \<Rightarrow> nat \<Rightarrow> nat \<Rightarrow> nat \<Rightarrow> nat" where
  "cell_from U str byte i b =
     (if b < byte \<and> b < length str then cell_from U str byte (i + 1) (utf8_next U str b) else i)"
  by auto
termination by (relation "measure (\<lambda>(U, str, byte, i, b). length str - b)") (auto intro: next_measure)

definition cell_at :: "Unicode \<Rightarrow> bytes \<Rightarrow> nat \<Rightarrow> nat" where
  "cell_at U str byte = cell_from U str (floor_boundary U str byte) 0 0"

function column_from :: "Unicode \<Rightarrow> bytes \<Rightarrow> nat \<Rightarrow> nat \<Rightarrow> nat \<Rightarrow> nat" where
  "column_from U str byte col b =
     (if b < byte \<and> b < length str then
        let n = utf8_next U str b in column_from U str byte (col + cluster_width U (substr str b (n - b))) n
      else col)"
  by auto
termination by (relation "measure (\<lambda>(U, str, byte, col, b). length str - b)") (auto intro: next_measure)

definition column_at :: "Unicode \<Rightarrow> bytes \<Rightarrow> nat \<Rightarrow> nat" where
  "column_at U str byte = column_from U str (floor_boundary U str byte) 0 0"

function byte_at_column_from :: "Unicode \<Rightarrow> bytes \<Rightarrow> nat \<Rightarrow> nat \<Rightarrow> nat \<Rightarrow> nat" where
  "byte_at_column_from U str column col b =
     (if b < length str then
        let n = utf8_next U str b; w = cluster_width U (substr str b (n - b)) in
        if col + w > column then b
        else if col + w \<ge> column then n
        else byte_at_column_from U str column (col + w) n
      else length str)"
  by auto
termination by (relation "measure (\<lambda>(U, str, column, col, b). length str - b)") (auto intro: next_measure)

definition byte_at_column :: "Unicode \<Rightarrow> bytes \<Rightarrow> nat \<Rightarrow> nat" where
  "byte_at_column U str column = byte_at_column_from U str column 0 0"

section \<open>Model: words, segments and paragraphs\<close>

function skip_separators :: "Unicode \<Rightarrow> bytes \<Rightarrow> nat \<Rightarrow> nat" where
  "skip_separators U str start =
     (if start < length str then
        let n = utf8_next U str start in
        if \<not> is_word_separator U (substr str start (n - start)) then start else skip_separators U str n
      else start)"
  by auto
termination by (relation "measure (\<lambda>(U, str, b). length str - b)") (auto intro: next_measure)

function take_word :: "Unicode \<Rightarrow> bytes \<Rightarrow> nat \<Rightarrow> nat \<Rightarrow> nat \<times> nat" where
  "take_word U str b width =
     (if b < length str then
        let n = utf8_next U str b; cluster = substr str b (n - b) in
        if is_word_separator U cluster then (b, width) else take_word U str n (width + cluster_width U cluster)
      else (b, width))"
  by auto
termination by (relation "measure (\<lambda>(U, str, b, w). length str - b)") (auto intro: next_measure)

declare prev_from.simps [simp del] floor_from.simps [simp del] count_from.simps [simp del] width_from.simps [simp del]
  display_from.simps [simp del] byte_at_from.simps [simp del] cell_from.simps [simp del] column_from.simps [simp del]
  byte_at_column_from.simps [simp del] skip_separators.simps [simp del] take_word.simps [simp del]

lemma skip_separators_le: "start \<le> skip_separators U str start"
proof (induction U str start rule: skip_separators.induct)
  case (1 U str start)
  then show ?case using next_progress(1) [of start str U]
    by (subst skip_separators.simps) (auto simp: Let_def intro: order_trans less_imp_le)
qed

lemma take_word_le: "b \<le> fst (take_word U str b w)"
proof (induction U str b w rule: take_word.induct)
  case (1 U str b w)
  from 1 [OF _ refl refl] show ?case using next_progress(1) [of b str U]
    by (subst take_word.simps) (auto simp: Let_def)
qed

lemma skip_separators_stop:
  "skip_separators U str start < length str \<Longrightarrow>
     \<not> is_word_separator U (substr str (skip_separators U str start)
         (utf8_next U str (skip_separators U str start) - skip_separators U str start))"
proof (induction U str start rule: skip_separators.induct)
  case (1 U str start)
  then show ?case
    by (cases "start < length str \<and> is_word_separator U (substr str start (utf8_next U str start - start))")
      (auto simp: skip_separators.simps [of U str start] Let_def)
qed

lemma take_word_progress:
  assumes "b < length str" "\<not> is_word_separator U (substr str b (utf8_next U str b - b))"
  shows "b < fst (take_word U str b w)"
proof -
  have "take_word U str b w = take_word U str (utf8_next U str b)
      (w + cluster_width U (substr str b (utf8_next U str b - b)))"
    using assms by (subst take_word.simps) (simp add: Let_def)
  then show ?thesis using next_progress(1) [OF assms(1), of U] take_word_le [of "utf8_next U str b" U str]
    by (metis less_le_trans)
qed

function words_from :: "Unicode \<Rightarrow> bytes \<Rightarrow> nat \<Rightarrow> (bytes \<times> nat) list" where
  "words_from U str start =
     (let s = skip_separators U str start; (e, width) = take_word U str s 0
      in if s \<ge> length str then [] else (substr str s (e - s), width) # words_from U str e)"
  by auto
termination
proof (relation "measure (\<lambda>(U, str, b). length str - b)", simp)
  fix U :: Unicode and str :: bytes and start s z e width
  assume s: "s = skip_separators U str start" and z: "z = take_word U str s 0" "(e, width) = z" and l: "\<not> length str \<le> s"
  have "s < e" using take_word_progress [of s str U 0] skip_separators_stop [of U str start] s l z by (metis fst_conv not_le)
  moreover have "start \<le> s" using skip_separators_le s by simp
  ultimately show "((U, str, e), U, str, start) \<in> measure (\<lambda>(U, str, b). length str - b)" using l by simp
qed

definition words :: "Unicode \<Rightarrow> bytes \<Rightarrow> (bytes \<times> nat) list" where
  "words U str = words_from U str 0"

datatype kind_t = WordSegment | LineBreak

record text_segment =
  seg_kind :: kind_t
  seg_text :: bytes
  seg_width :: nat

text \<open>The first loop of \<^verbatim>\<open>segment_view::iterator::scan\<close>: where it stops, and the end of the line break
  if it stopped at one.\<close>

function segment_skip :: "Unicode \<Rightarrow> bytes \<Rightarrow> nat \<Rightarrow> nat \<times> nat option" where
  "segment_skip U str start =
     (if start < length str then
        let n = utf8_next U str start; cluster = substr str start (n - start) in
        if is_line_break cluster then (start, Some n)
        else if \<not> is_word_separator U cluster then (start, None)
        else segment_skip U str n
      else (start, None))"
  by auto
termination by (relation "measure (\<lambda>(U, str, b). length str - b)") (auto intro: next_measure)

declare segment_skip.simps [simp del]

lemma segment_skip_result:
  "start \<le> fst (segment_skip U str start) \<and>
   (fst (segment_skip U str start) < length str \<longrightarrow>
      (case snd (segment_skip U str start) of
         Some n \<Rightarrow> n = utf8_next U str (fst (segment_skip U str start))
       | None \<Rightarrow> \<not> is_word_separator U (substr str (fst (segment_skip U str start))
           (utf8_next U str (fst (segment_skip U str start)) - fst (segment_skip U str start)))))"
proof (induction U str start rule: segment_skip.induct)
  case (1 U str start)
  let ?n = "utf8_next U str start"
  let ?c = "substr str start (?n - start)"
  show ?case
  proof (cases "start < length str \<and> \<not> is_line_break ?c \<and> is_word_separator U ?c")
    case True
    then have e: "segment_skip U str start = segment_skip U str ?n" by (subst segment_skip.simps) (simp add: Let_def)
    show ?thesis unfolding e using 1 [OF _ refl refl] True next_progress(1) [of start str U] by auto
  next
    case False
    then show ?thesis by (subst segment_skip.simps, subst segment_skip.simps, subst segment_skip.simps) (auto simp: Let_def segment_skip.simps [of U str start])
  qed
qed

function segments_from :: "Unicode \<Rightarrow> bytes \<Rightarrow> nat \<Rightarrow> text_segment list" where
  "segments_from U str start =
     (let (s, brk) = segment_skip U str start in
      if s \<ge> length str then []
      else case brk of
        Some n \<Rightarrow> \<lparr>seg_kind = LineBreak, seg_text = [], seg_width = 0\<rparr> # segments_from U str n
      | None \<Rightarrow>
          let (e, width) = take_word U str s 0
          in \<lparr>seg_kind = WordSegment, seg_text = substr str s (e - s), seg_width = width\<rparr> # segments_from U str e)"
  by auto
termination
proof (relation "measure (\<lambda>(U, str, b). length str - b)", simp)
  fix U :: Unicode and str :: bytes and start z s brk n
  assume z: "z = segment_skip U str start" "(s, brk) = z" and l: "\<not> length str \<le> s" and b: "brk = Some n"
  have "start \<le> s" "n = utf8_next U str s" using segment_skip_result [of start U str] z l b by (metis fst_conv, metis fst_conv not_le option.simps(5) snd_conv)
  then show "((U, str, n), U, str, start) \<in> measure (\<lambda>(U, str, b). length str - b)" using next_progress(1) [of s str U] l by simp
next
  fix U :: Unicode and str :: bytes and start z s brk y e w
  assume z: "z = segment_skip U str start" "(s, brk) = z" and l: "\<not> length str \<le> s" and b: "brk = None"
    and y: "y = take_word U str s 0" "(e, w) = y"
  have le: "start \<le> s" using segment_skip_result [of start U str] z by (metis fst_conv)
  have "\<not> is_word_separator U (substr str s (utf8_next U str s - s))"
    using segment_skip_result [of start U str] z l b by (metis fst_conv not_le option.simps(4) snd_conv)
  then have "s < e" using take_word_progress [of s str U 0] l y by (metis fst_conv not_le)
  then show "((U, str, e), U, str, start) \<in> measure (\<lambda>(U, str, b). length str - b)" using le l by simp
qed

definition segments :: "Unicode \<Rightarrow> bytes \<Rightarrow> text_segment list" where
  "segments U str = segments_from U str 0"

record line =
  ln_start :: nat
  ln_content_end :: nat
  ln_next :: nat

function next_line_from :: "Unicode \<Rightarrow> bytes \<Rightarrow> nat \<Rightarrow> nat \<Rightarrow> line" where
  "next_line_from U str start b =
     (if b < length str then
        let n = utf8_next U str b in
        if is_line_break (substr str b (n - b)) then \<lparr>ln_start = start, ln_content_end = b, ln_next = n\<rparr>
        else next_line_from U str start n
      else \<lparr>ln_start = start, ln_content_end = b, ln_next = b\<rparr>)"
  by auto
termination by (relation "measure (\<lambda>(U, str, start, b). length str - b)") (auto intro: next_measure)

definition next_line :: "Unicode \<Rightarrow> bytes \<Rightarrow> nat \<Rightarrow> line" where
  "next_line U str b = next_line_from U str b b"

function blank_from :: "Unicode \<Rightarrow> bytes \<Rightarrow> nat \<Rightarrow> nat \<Rightarrow> bool" where
  "blank_from U str content_end b =
     (if b < content_end \<and> b < length str then
        let n = utf8_next U str b in
        if \<not> is_word_separator U (substr str b (n - b)) then False else blank_from U str content_end n
      else True)"
  by auto
termination by (relation "measure (\<lambda>(U, str, e, b). length str - b)") (auto intro: next_measure)

definition blank :: "Unicode \<Rightarrow> bytes \<Rightarrow> line \<Rightarrow> bool" where
  "blank U str l = blank_from U str (ln_content_end l) (ln_start l)"

declare next_line_from.simps [simp del] blank_from.simps [simp del] words_from.simps [simp del] segments_from.simps [simp del]

lemma next_line_from_bounds:
  "b \<le> length str \<Longrightarrow> b \<le> ln_content_end (next_line_from U str a b)
     \<and> ln_content_end (next_line_from U str a b) \<le> ln_next (next_line_from U str a b)
     \<and> ln_next (next_line_from U str a b) \<le> length str \<and> (b < length str \<longrightarrow> b < ln_next (next_line_from U str a b))"
proof (induction U str a b rule: next_line_from.induct)
  case (1 U str a b)
  let ?n = "utf8_next U str b"
  show ?case
  proof (cases "b < length str \<and> \<not> is_line_break (substr str b (?n - b))")
    case True
    then have "next_line_from U str a b = next_line_from U str a ?n" by (subst next_line_from.simps) (simp add: Let_def)
    then show ?thesis using 1(1) [OF _ refl] True next_progress [of b str U] by auto
  next
    case False
    then show ?thesis using 1(2) next_progress [of b str U] by (auto simp: next_line_from.simps [of U str a b] Let_def)
  qed
qed

lemma next_line_next: "b < length str \<Longrightarrow> b < ln_next (next_line U str b)"
  using next_line_from_bounds [of b str U b] by (simp add: next_line_def)

function skip_blank_lines :: "Unicode \<Rightarrow> bytes \<Rightarrow> nat \<Rightarrow> nat" where
  "skip_blank_lines U str start =
     (if start < length str then
        let l = next_line U str start in if \<not> blank U str l then start else skip_blank_lines U str (ln_next l)
      else start)"
  by auto
termination by (relation "measure (\<lambda>(U, str, b). length str - b)") (auto intro!: diff_less_mono2 next_line_next)

text \<open>The second loop of \<^verbatim>\<open>paragraph_view::iterator::scan\<close> gives \<^verbatim>\<open>end_\<close> and \<^verbatim>\<open>next_\<close>.\<close>

function paragraph_lines :: "Unicode \<Rightarrow> bytes \<Rightarrow> nat \<Rightarrow> nat \<Rightarrow> nat \<times> nat" where
  "paragraph_lines U str fin b =
     (if b < length str then
        let l = next_line U str b in
        if blank U str l then (fin, ln_next l) else paragraph_lines U str (ln_content_end l) (ln_next l)
      else (fin, b))"
  by auto
termination by (relation "measure (\<lambda>(U, str, fin, b). length str - b)") (auto intro!: diff_less_mono2 next_line_next)

declare skip_blank_lines.simps [simp del] paragraph_lines.simps [simp del]

lemma skip_blank_lines_le: "start \<le> skip_blank_lines U str start"
proof (induction U str start rule: skip_blank_lines.induct)
  case (1 U str start)
  from 1 [OF _ refl] show ?case using next_line_next [of start str U]
    by (subst skip_blank_lines.simps) (auto simp: Let_def)
qed

lemma paragraph_lines_le: "b \<le> snd (paragraph_lines U str fin b) \<and> (b < length str \<longrightarrow> b < snd (paragraph_lines U str fin b))"
proof (induction U str fin b rule: paragraph_lines.induct)
  case (1 U str fin b)
  from 1 [OF _ refl] show ?case using next_line_next [of b str U]
    by (subst (1 2) paragraph_lines.simps) (auto simp: Let_def)
qed

function paragraphs_from :: "Unicode \<Rightarrow> bytes \<Rightarrow> nat \<Rightarrow> bytes list" where
  "paragraphs_from U str start =
     (let s = skip_blank_lines U str start; (e, n) = paragraph_lines U str s s
      in if s \<ge> length str then [] else substr str s (e - s) # paragraphs_from U str n)"
  by auto
termination
proof (relation "measure (\<lambda>(U, str, b). length str - b)", simp)
  fix U :: Unicode and str :: bytes and start s z e n
  assume s: "s = skip_blank_lines U str start" and z: "z = paragraph_lines U str s s" "(e, n) = z" and l: "\<not> length str \<le> s"
  have "s < n" using paragraph_lines_le [of s U str s] z l by (metis not_le snd_conv)
  moreover have "start \<le> s" using skip_blank_lines_le s by simp
  ultimately show "((U, str, n), U, str, start) \<in> measure (\<lambda>(U, str, b). length str - b)" using l by simp
qed

definition paragraphs :: "Unicode \<Rightarrow> bytes \<Rightarrow> bytes list" where
  "paragraphs U str = paragraphs_from U str 0"

function complete_from :: "Unicode \<Rightarrow> bytes \<Rightarrow> nat \<Rightarrow> nat \<Rightarrow> nat" where
  "complete_from U str consumed b =
     (if b < length str then
        let n = utf8_next U str b
        in complete_from U str (if is_word_separator U (substr str b (n - b)) then n else consumed) n
      else consumed)"
  by auto
termination by (relation "measure (\<lambda>(U, str, c, b). length str - b)") (auto intro: next_measure)

definition complete_words_prefix_size :: "Unicode \<Rightarrow> bytes \<Rightarrow> nat" where
  "complete_words_prefix_size U str = complete_from U str 0 0"

declare paragraphs_from.simps [simp del] complete_from.simps [simp del]

section \<open>Segmentation\<close>

text \<open>What the scanning loops rely on: a successor that makes progress, and the boundaries it
  generates from the start.\<close>

locale segmentation =
  fixes size :: nat and nxt :: "nat \<Rightarrow> nat" and B :: "nat \<Rightarrow> bool"
  assumes progress: "b < size \<Longrightarrow> b < nxt b \<and> nxt b \<le> size"
    and B_start: "B 0"
    and B_step: "B b \<Longrightarrow> b < size \<Longrightarrow> B (nxt b)"
    and B_least: "B b \<Longrightarrow> P 0 \<Longrightarrow> (\<And>b. B b \<Longrightarrow> b < size \<Longrightarrow> P b \<Longrightarrow> P (nxt b)) \<Longrightarrow> P b"
begin

primrec pos :: "nat \<Rightarrow> nat" where
  "pos 0 = 0"
| "pos (Suc k) = (if pos k < size then nxt (pos k) else pos k)"

lemma pos_le_size: "pos k \<le> size"
  by (induction k) (auto simp: progress)

lemma pos_B: "B (pos k)"
  by (induction k) (auto simp: B_start B_step)

lemma B_pos: "B b \<Longrightarrow> \<exists>k. b = pos k"
proof (erule B_least)
  show "\<exists>k. 0 = pos k" by (rule exI [of _ 0]) simp
next
  fix b assume "b < size" "\<exists>k. b = pos k"
  then show "\<exists>k. nxt b = pos k" by (metis pos.simps(2))
qed

lemma B_le: "B b \<Longrightarrow> b \<le> size"
  using B_pos pos_le_size by blast

lemma pos_mono: "i \<le> j \<Longrightarrow> pos i \<le> pos j"
  by (rule lift_Suc_mono_le [of pos]) (use progress in \<open>auto simp: less_imp_le\<close>)

lemma pos_strict: "pos i < size \<Longrightarrow> i < j \<Longrightarrow> pos i < pos j"
proof -
  assume a: "pos i < size" "i < j"
  then have "pos i < pos (Suc i)" using progress by simp
  also have "\<dots> \<le> pos j" by (rule pos_mono) (use a in simp)
  finally show ?thesis .
qed

lemma gap:
  assumes "B a" "B b" "a < b"
  shows "nxt a \<le> b"
proof -
  obtain i j where ij: "a = pos i" "b = pos j" using assms B_pos by blast
  have "i < j" using assms(3) ij pos_mono [of j i] by (meson leD le_less_linear)
  moreover have "a < size" using assms(3) B_le [OF assms(2)] by simp
  ultimately show ?thesis using pos_mono [of "Suc i" j] ij by (simp add: Suc_le_eq)
qed

lemma greatest_below: "B r \<Longrightarrow> r < byte \<Longrightarrow> byte \<le> nxt r \<Longrightarrow> B x \<Longrightarrow> x < byte \<Longrightarrow> x \<le> r"
  using gap [of r x] by (meson le_less_linear le_trans leD)

lemma greatest_upto: "B r \<Longrightarrow> byte < nxt r \<Longrightarrow> B x \<Longrightarrow> x \<le> byte \<Longrightarrow> x \<le> r"
  using gap [of r x] by (meson le_less_linear le_trans leD)

lemma pos_ends: "\<exists>k. pos k = size"
proof (rule ccontr)
  assume "\<not> ?thesis"
  then have "pos k < size" for k using pos_le_size [of k] by (meson le_neq_implies_less)
  then have "k \<le> pos k" for k
    by (induction k) (use progress in \<open>auto simp: Suc_le_eq intro: le_less_trans\<close>)
  then show False using \<open>\<And>k. pos k < size\<close> by (meson leD)
qed

lemma pos_inj: "pos i = pos j \<Longrightarrow> pos i < size \<Longrightarrow> i = j"
  by (metis linorder_neqE_nat order_less_irrefl pos_strict)

end

inductive grapheme_boundary :: "Unicode \<Rightarrow> bytes \<Rightarrow> nat \<Rightarrow> bool" for U str where
  boundary_start: "grapheme_boundary U str 0"
| boundary_next: "grapheme_boundary U str b \<Longrightarrow> b < length str \<Longrightarrow> grapheme_boundary U str (utf8_next U str b)"

interpretation clusters: segmentation "length str" "utf8_next U str" "grapheme_boundary U str" for U str
proof
  fix b P
  show "b < length str \<Longrightarrow> b < utf8_next U str b \<and> utf8_next U str b \<le> length str" using next_progress by blast
  show "grapheme_boundary U str 0" by (rule boundary_start)
  show "grapheme_boundary U str b \<Longrightarrow> b < length str \<Longrightarrow> grapheme_boundary U str (utf8_next U str b)"
    by (rule boundary_next)
  show "grapheme_boundary U str b \<Longrightarrow> P 0 \<Longrightarrow>
      (\<And>b. grapheme_boundary U str b \<Longrightarrow> b < length str \<Longrightarrow> P b \<Longrightarrow> P (utf8_next U str b)) \<Longrightarrow> P b"
    by (induction rule: grapheme_boundary.induct) auto
qed

lemma prev_from_spec:
  assumes "grapheme_boundary U str b" "b < byte" "byte \<le> length str"
  shows "grapheme_boundary U str (prev_from U str byte b) \<and> prev_from U str byte b < byte
    \<and> byte \<le> utf8_next U str (prev_from U str byte b)"
  using assms
proof (induction U str byte b rule: prev_from.induct)
  case (1 U str byte b)
  have b: "b < length str" using 1(3,4) by simp
  show ?case
  proof (cases "utf8_next U str b \<ge> byte")
    case True
    then have "prev_from U str byte b = b" using b by (subst prev_from.simps) (simp add: Let_def)
    then show ?thesis using True 1 by simp
  next
    case False
    then have "prev_from U str byte b = prev_from U str byte (utf8_next U str b)"
      using b by (subst prev_from.simps) (simp add: Let_def)
    then show ?thesis using 1(1) [OF b refl] False boundary_next [OF 1(2) b] 1(4) by simp
  qed
qed

lemma floor_from_spec:
  assumes "grapheme_boundary U str b" "b \<le> byte" "byte < length str"
  shows "grapheme_boundary U str (floor_from U str byte b b) \<and> floor_from U str byte b b \<le> byte
    \<and> byte < utf8_next U str (floor_from U str byte b b)"
  using assms
proof (induction U str byte b b rule: floor_from.induct)
  case (1 U str byte a b)
  have b: "b < length str" using 1(3,4) by simp
  show ?case
  proof (cases "byte < utf8_next U str b")
    case True
    then have "floor_from U str byte b b = b" using b by (subst floor_from.simps) (simp add: Let_def)
    then show ?thesis using True 1 by simp
  next
    case False
    then have "floor_from U str byte b b = floor_from U str byte (utf8_next U str b) (utf8_next U str b)"
      using b by (subst floor_from.simps) (simp add: Let_def)
    then show ?thesis using 1(1) [OF b refl] False boundary_next [OF 1(2) b] 1(4) by simp
  qed
qed

lemma floor_boundary_spec:
  assumes "byte \<le> length str"
  shows "grapheme_boundary U str (floor_boundary U str byte) \<and> floor_boundary U str byte \<le> byte
    \<and> (\<forall>x. grapheme_boundary U str x \<longrightarrow> x \<le> byte \<longrightarrow> x \<le> floor_boundary U str byte)"
proof (cases "byte < length str")
  case True
  then show ?thesis
    using floor_from_spec [OF boundary_start, of byte str U] clusters.greatest_upto [of U str _ byte]
    by (auto simp: floor_boundary_def)
next
  case False
  then have e: "byte = length str" using assms by simp
  have "grapheme_boundary U str (length str)" using clusters.pos_ends clusters.pos_B by metis
  then show ?thesis using e by (simp add: floor_boundary_def)
qed

lemma floor_boundary_fix: "grapheme_boundary U str b \<Longrightarrow> floor_boundary U str b = b"
  using floor_boundary_spec [of b str U] clusters.B_le [of U str b] by (simp add: le_antisym)

lemma floor_boundary_le: "floor_boundary U str byte \<le> length str"
  using floor_boundary_spec [of byte str U] by (cases "byte \<le> length str") (auto simp: floor_boundary_def)

lemma floor_is_boundary: "grapheme_boundary U str (floor_boundary U str byte)"
proof (cases "byte \<le> length str")
  case False
  then have "floor_boundary U str byte = floor_boundary U str (length str)" by (simp add: floor_boundary_def)
  then show ?thesis using floor_boundary_spec [of "length str" str U] by simp
qed (use floor_boundary_spec in blast)

lemma prev_spec:
  assumes "0 < byte" "byte \<le> length str"
  shows "grapheme_boundary U str (prev U str byte) \<and> prev U str byte < byte
    \<and> (\<forall>x. grapheme_boundary U str x \<longrightarrow> x < byte \<longrightarrow> x \<le> prev U str byte)"
proof -
  have "prev U str byte = prev_from U str byte 0" using assms by (simp add: prev_def)
  then show ?thesis using prev_from_spec [OF boundary_start assms, of U] clusters.greatest_below [of U str _ byte] by metis
qed

lemma next_of_prev:
  assumes "grapheme_boundary U str b" "0 < b"
  shows "utf8_next U str (prev U str b) = b"
proof -
  have le: "b \<le> length str" by (rule clusters.B_le [OF assms(1)])
  have e: "prev U str b = prev_from U str b 0" using assms le by (simp add: prev_def)
  note p = prev_from_spec [OF boundary_start assms(2) le, of U, folded e]
  then show ?thesis using clusters.gap [OF _ assms(1)] le_antisym by blast
qed

lemma prev_of_next:
  assumes "grapheme_boundary U str b" "b < length str"
  shows "prev U str (utf8_next U str b) = b"
proof -
  have n: "b < utf8_next U str b" "utf8_next U str b \<le> length str" using next_progress [OF assms(2)] by blast+
  have "0 < utf8_next U str b" using n(1) by simp
  note p = prev_spec [OF this n(2), of U]
  have "b \<le> prev U str (utf8_next U str b)" using p assms(1) n(1) by blast
  moreover have "\<not> b < prev U str (utf8_next U str b)" using clusters.gap [OF assms(1)] p by (meson leD)
  ultimately show ?thesis by simp
qed

section \<open>Indices and columns\<close>

abbreviation cpos :: "Unicode \<Rightarrow> bytes \<Rightarrow> nat \<Rightarrow> nat" where
  "cpos U str \<equiv> segmentation.pos (length str) (utf8_next U str)"

definition nth_width :: "Unicode \<Rightarrow> bytes \<Rightarrow> nat \<Rightarrow> nat" where
  "nth_width U str i = cluster_width U (substr str (cpos U str i) (cpos U str (Suc i) - cpos U str i))"

lemma cpos_Suc: "cpos U str i < length str \<Longrightarrow> cpos U str (Suc i) = utf8_next U str (cpos U str i)"
  by simp

lemma count_from_spec:
  "b = cpos U str i \<Longrightarrow> i \<le> count_from U str b i \<and> cpos U str (count_from U str b i) = length str
     \<and> (\<forall>k. i \<le> k \<longrightarrow> k < count_from U str b i \<longrightarrow> cpos U str k < length str)"
proof (induction U str b i rule: count_from.induct)
  case (1 U str b i)
  show ?case
  proof (cases "b < length str")
    case True
    then have e: "count_from U str b i = count_from U str (utf8_next U str b) (i + 1)" by (subst count_from.simps) simp
    have n: "utf8_next U str b = cpos U str (i + 1)" using True 1(2) by simp
    show ?thesis unfolding e
      using 1(1) [OF True n] True 1(2) by (metis Suc_eq_plus1 Suc_leI le_neq_implies_less le_trans less_or_eq_imp_le lessI)
  next
    case False
    then have "count_from U str b i = i" by (subst count_from.simps) simp
    then show ?thesis using False 1(2) clusters.pos_le_size [of str U i] by simp
  qed
qed

lemma count_spec: "cpos U str (count U str) = length str" "k < count U str \<Longrightarrow> cpos U str k < length str"
  using count_from_spec [of 0 str U 0] by (auto simp: count_def)

lemma cpos_min: "cpos U str k = cpos U str (min k (count U str))"
proof (cases "k \<le> count U str")
  case False
  then have "cpos U str (count U str) \<le> cpos U str k" by (intro clusters.pos_mono) simp
  then show ?thesis using False clusters.pos_le_size [of str U k] count_spec(1) [of str U] by (simp add: min_def)
qed (simp add: min_def)

lemma byte_at_from_spec: "b = cpos U str i \<Longrightarrow> i \<le> cell \<Longrightarrow> byte_at_from U str cell i b = cpos U str cell"
proof (induction U str cell i b rule: byte_at_from.induct)
  case (1 U str cell i b)
  show ?case
  proof (cases "i < cell \<and> b < length str")
    case True
    then have "byte_at_from U str cell i b = byte_at_from U str cell (i + 1) (utf8_next U str b)"
      by (subst byte_at_from.simps) simp
    then show ?thesis using 1 True by simp
  next
    case False
    then have e: "byte_at_from U str cell i b = b" by (subst byte_at_from.simps) auto
    have "b = cpos U str cell"
    proof (cases "i = cell")
      case ne: False
      then have "length str \<le> cpos U str cell"
        using False 1(2,3) clusters.pos_mono [of i cell str U] by simp
      then show ?thesis using False 1(2,3) ne clusters.pos_le_size [of str U cell] clusters.pos_le_size [of str U i] by simp
    qed (use 1 in simp)
    then show ?thesis using e by simp
  qed
qed

lemma byte_at_pos: "byte_at U str cell = cpos U str cell"
  using byte_at_from_spec [of 0 str U 0 cell] by (simp add: byte_at_def)

lemma cpos_less_iff:
  assumes "i \<le> m" "m \<le> count U str"
  shows "cpos U str i < cpos U str m \<longleftrightarrow> i < m"
proof
  assume "i < m"
  moreover have "cpos U str i < length str" using count_spec(2) [of i U str] \<open>i < m\<close> assms by simp
  ultimately show "cpos U str i < cpos U str m" using clusters.pos_strict by blast
qed (use assms in \<open>auto intro: le_neq_implies_less\<close>)

lemma cell_from_spec:
  "b = cpos U str i \<Longrightarrow> i \<le> m \<Longrightarrow> m \<le> count U str \<Longrightarrow> byte = cpos U str m \<Longrightarrow> cell_from U str byte i b = m"
proof (induction U str byte i b rule: cell_from.induct)
  case (1 U str byte i b)
  have lt: "b < byte \<longleftrightarrow> i < m" using 1 cpos_less_iff [of i m U str] by simp
  show ?case
  proof (cases "i < m")
    case True
    then have l: "b < byte \<and> b < length str" using lt count_spec(2) [of i U str] 1 by simp
    then have "cell_from U str byte i b = cell_from U str byte (i + 1) (utf8_next U str b)" by (subst cell_from.simps) simp
    then show ?thesis using 1(1) [OF l] 1 True l by simp
  next
    case False
    then have "cell_from U str byte i b = i" using lt by (subst cell_from.simps) simp
    then show ?thesis using False 1 by simp
  qed
qed

lemma cell_at_byte_at: "cell_at U str (byte_at U str n) = min n (count U str)"
proof -
  have "floor_boundary U str (cpos U str n) = cpos U str n" by (rule floor_boundary_fix) (rule clusters.pos_B)
  moreover have "cell_from U str (cpos U str n) 0 0 = min n (count U str)"
    by (rule cell_from_spec [of _ _ _ 0]) (use cpos_min [of str U n] in simp_all)
  ultimately show ?thesis by (simp add: cell_at_def byte_at_pos)
qed

lemma column_from_spec:
  "b = cpos U str i \<Longrightarrow> i \<le> m \<Longrightarrow> m \<le> count U str \<Longrightarrow> byte = cpos U str m
     \<Longrightarrow> column_from U str byte col b = col + (\<Sum>k = i..<m. nth_width U str k)"
proof (induction U str byte col b arbitrary: i rule: column_from.induct)
  case (1 U str byte col b)
  have lt: "b < byte \<longleftrightarrow> i < m" using 1 cpos_less_iff [of i m U str] by simp
  show ?case
  proof (cases "i < m")
    case True
    then have l: "b < byte \<and> b < length str" using lt count_spec(2) [of i U str] 1 by simp
    let ?n = "utf8_next U str b"
    have n: "?n = cpos U str (Suc i)" using l 1(2) by simp
    have w: "cluster_width U (substr str b (?n - b)) = nth_width U str i" using n 1(2) by (simp only: nth_width_def)
    have "column_from U str byte col b = column_from U str byte (col + nth_width U str i) ?n"
      using l w by (subst column_from.simps) (simp add: Let_def)
    also have "\<dots> = col + nth_width U str i + (\<Sum>k = Suc i..<m. nth_width U str k)"
      using 1(1) [OF l refl n, unfolded w] True 1(4,5) by simp
    finally show ?thesis using True by (simp add: sum.atLeast_Suc_lessThan)
  next
    case False
    then have "column_from U str byte col b = col" using lt by (subst column_from.simps) simp
    then show ?thesis using False 1(3) by simp
  qed
qed

lemma column_at_pos:
  assumes "k \<le> count U str"
  shows "column_at U str (cpos U str k) = (\<Sum>i < k. nth_width U str i)"
proof -
  have "floor_boundary U str (cpos U str k) = cpos U str k" by (rule floor_boundary_fix) (rule clusters.pos_B)
  moreover have "column_from U str (cpos U str k) 0 0 = 0 + (\<Sum>i = 0..<k. nth_width U str i)"
    by (rule column_from_spec) (use assms in simp_all)
  ultimately show ?thesis by (simp add: column_at_def atLeast0LessThan)
qed

lemma display_from_column: "display_from U str b w = column_from U str (length str) w b"
proof (induction U str b w rule: display_from.induct)
  case (1 U str b w)
  show ?case using 1 [OF _ refl]
    by (subst display_from.simps, subst column_from.simps) (auto simp: Let_def)
qed

lemma display_width_sum: "display_width U str = (\<Sum>i < count U str. nth_width U str i)"
proof -
  have "column_from U str (length str) 0 0 = 0 + (\<Sum>i = 0..<count U str. nth_width U str i)"
    by (rule column_from_spec) (use count_spec(1) in simp_all)
  then show ?thesis by (simp add: display_width_def display_from_column atLeast0LessThan)
qed

lemma width_from_pos: "1 \<le> width_from U c b w"
proof (induction U c b w rule: width_from.induct)
  case (1 U c b w)
  show ?case using 1 [OF _ refl] by (subst width_from.simps) (auto simp: Let_def width_result_def)
qed

lemma nth_width_pos: "1 \<le> nth_width U str i"
  unfolding nth_width_def cluster_width_def by (rule width_from_pos)

lemma byte_at_column_from_spec:
  "b = cpos U str i \<Longrightarrow> i \<le> count U str \<Longrightarrow> col = (\<Sum>k < i. nth_width U str k) \<Longrightarrow> col \<le> column \<Longrightarrow>
    \<exists>k \<le> count U str. byte_at_column_from U str column col b = cpos U str k \<and> (\<Sum>j < k. nth_width U str j) \<le> column
      \<and> (k < count U str \<longrightarrow> column < (\<Sum>j < Suc k. nth_width U str j))"
proof (induction U str column col b arbitrary: i rule: byte_at_column_from.induct)
  case (1 U str column col b)
  show ?case
  proof (cases "b < length str")
    case False
    then have "byte_at_column_from U str column col b = length str" by (subst byte_at_column_from.simps) simp
    moreover have "i = count U str" using False 1(2,3) count_spec(2) [of i U str] by (meson le_neq_implies_less)
    ultimately show ?thesis using 1(4,5) count_spec(1) [of str U] by (intro exI [of _ i]) simp
  next
    case True
    let ?n = "utf8_next U str b"
    have n: "?n = cpos U str (Suc i)" using True 1(2) by simp
    have w: "cluster_width U (substr str b (?n - b)) = nth_width U str i" using n 1(2) by (simp only: nth_width_def)
    have ic: "i < count U str" using True 1(2,3) count_spec(1) [of str U] by (metis le_neq_implies_less order_less_irrefl)
    have un: "byte_at_column_from U str column col b =
        (if col + nth_width U str i > column then b else if col + nth_width U str i \<ge> column then ?n
         else byte_at_column_from U str column (col + nth_width U str i) ?n)"
      using True w by (subst byte_at_column_from.simps) (simp add: Let_def)
    have col': "col + nth_width U str i = (\<Sum>k < Suc i. nth_width U str k)" using 1(4) by simp
    consider "col + nth_width U str i > column" | "col + nth_width U str i = column" | "col + nth_width U str i < column" by linarith
    then show ?thesis
    proof cases
      case 1
      then show ?thesis using un ic "1.prems" by (intro exI [of _ i]) simp
    next
      case 2
      have "column < (\<Sum>j < Suc (Suc i). nth_width U str j)" using 2 col' nth_width_pos [of U str "Suc i"] by simp
      then show ?thesis using 2 un n ic col' by (intro exI [of _ "Suc i"]) simp
    next
      case 3
      then have "byte_at_column_from U str column col b = byte_at_column_from U str column (col + nth_width U str i) ?n"
        using un by simp
      then show ?thesis using "1.IH" [OF True refl refl, unfolded w, OF _ _ n] 3 ic col' by auto
    qed
  qed
qed

section \<open>Words as runs of clusters\<close>

function clusters_from :: "Unicode \<Rightarrow> bytes \<Rightarrow> nat \<Rightarrow> bytes list" where
  "clusters_from U str b =
     (if b < length str then let n = utf8_next U str b in substr str b (n - b) # clusters_from U str n else [])"
  by auto
termination by (relation "measure (\<lambda>(U, str, b). length str - b)") (auto intro: next_measure)

declare clusters_from.simps [simp del]

fun word_groups :: "('a \<Rightarrow> bool) \<Rightarrow> 'a list \<Rightarrow> 'a list \<Rightarrow> 'a list list" where
  "word_groups sep run [] = (if run = [] then [] else [run])"
| "word_groups sep run (c # cs) =
     (if sep c then (if run = [] then word_groups sep [] cs else run # word_groups sep [] cs)
      else word_groups sep (run @ [c]) cs)"

lemma substr_append: "a \<le> b \<Longrightarrow> b \<le> c \<Longrightarrow> substr str a (b - a) @ substr str b (c - b) = substr str a (c - a)"
proof -
  assume "a \<le> b" "b \<le> c"
  then have "take (c - a) (drop a str) = take (b - a) (drop a str) @ take (c - b) (drop (b - a) (drop a str))"
    by (metis diff_add_inverse2 le_add_diff_inverse2 diff_add_assoc2 take_add add.commute)
  then show ?thesis using \<open>a \<le> b\<close> by (simp add: substr_def)
qed

lemma clusters_from_step:
  "b < length str \<Longrightarrow> clusters_from U str b = substr str b (utf8_next U str b - b) # clusters_from U str (utf8_next U str b)"
  by (subst clusters_from.simps) (simp add: Let_def)

lemma clusters_from_end: "\<not> b < length str \<Longrightarrow> clusters_from U str b = []"
  by (subst clusters_from.simps) simp

lemma concat_clusters: "b \<le> length str \<Longrightarrow> concat (clusters_from U str b) = drop b str"
proof (induction U str b rule: clusters_from.induct)
  case (1 U str b)
  show ?case
  proof (cases "b < length str")
    case True
    let ?n = "utf8_next U str b"
    have n: "b < ?n" "?n \<le> length str" using next_progress [OF True] by auto
    have "substr str b (?n - b) @ drop ?n str = drop b str"
      using n by (simp add: substr_def) (metis append_take_drop_id drop_drop le_add_diff_inverse2 less_imp_le)
    then show ?thesis using 1(1) [OF True refl n(2)] by (simp add: clusters_from_step [OF True])
  qed (use 1(2) in \<open>simp add: clusters_from_end\<close>)
qed

lemma skip_separators_groups:
  "word_groups (is_word_separator U) [] (clusters_from U str b)
     = word_groups (is_word_separator U) [] (clusters_from U str (skip_separators U str b))"
proof (induction U str b rule: skip_separators.induct)
  case (1 U str b)
  show ?case
  proof (cases "b < length str \<and> is_word_separator U (substr str b (utf8_next U str b - b))")
    case True
    then have "skip_separators U str b = skip_separators U str (utf8_next U str b)"
      by (subst skip_separators.simps) (simp add: Let_def)
    then show ?thesis using 1 [OF _ refl] True by (simp add: clusters_from_step)
  next
    case False
    then have "skip_separators U str b = b" by (subst skip_separators.simps) (auto simp: Let_def)
    then show ?thesis by simp
  qed
qed

lemma take_word_groups:
  assumes "b \<le> length str" "run \<noteq> [] \<or> (b < length str \<and> \<not> is_word_separator U (substr str b (utf8_next U str b - b)))"
  shows "\<exists>g. g \<noteq> [] \<and> word_groups (is_word_separator U) run (clusters_from U str b)
        = g # word_groups (is_word_separator U) [] (clusters_from U str (fst (take_word U str b w)))
      \<and> concat g = concat run @ substr str b (fst (take_word U str b w) - b)
      \<and> snd (take_word U str b w) + sum_list (map (cluster_width U) run) = w + sum_list (map (cluster_width U) g)
      \<and> fst (take_word U str b w) \<le> length str"
  using assms
proof (induction U str b w arbitrary: run rule: take_word.induct)
  case (1 U str b w)
  let ?n = "utf8_next U str b" let ?c = "substr str b (?n - b)"
  show ?case
  proof (cases "b < length str \<and> \<not> is_word_separator U ?c")
    case True
    have n: "b < ?n" "?n \<le> length str" using next_progress [of b str U] True by auto
    have e: "take_word U str b w = take_word U str ?n (w + cluster_width U ?c)"
      using True by (subst take_word.simps) (simp add: Let_def)
    have ne: "run @ [?c] \<noteq> [] \<or> (?n < length str \<and> \<not> is_word_separator U (substr str ?n (utf8_next U str ?n - ?n)))" by simp
    from 1(1) [OF _ refl refl _ n(2) ne] True obtain g where
      g: "g \<noteq> []" "word_groups (is_word_separator U) (run @ [?c]) (clusters_from U str ?n)
        = g # word_groups (is_word_separator U) [] (clusters_from U str (fst (take_word U str b w)))"
      and c: "concat g = concat (run @ [?c]) @ substr str ?n (fst (take_word U str b w) - ?n)"
      and s: "snd (take_word U str b w) + sum_list (map (cluster_width U) (run @ [?c])) = w + cluster_width U ?c + sum_list (map (cluster_width U) g)"
      and l: "fst (take_word U str b w) \<le> length str" unfolding e by blast
    have "?n \<le> fst (take_word U str b w)" unfolding e by (rule take_word_le)
    then have "concat g = concat run @ substr str b (fst (take_word U str b w) - b)"
      using c n(1) substr_append [of b ?n "fst (take_word U str b w)" str] by simp
    moreover have "word_groups (is_word_separator U) run (clusters_from U str b) =
        word_groups (is_word_separator U) (run @ [?c]) (clusters_from U str ?n)"
      using True by (simp add: clusters_from_step)
    ultimately show ?thesis using g s l by auto
  next
    case False
    then have e: "take_word U str b w = (b, w)" by (subst take_word.simps) (auto simp: Let_def)
    have run: "run \<noteq> []" using False 1(3) by blast
    have "word_groups (is_word_separator U) run (clusters_from U str b) = run # word_groups (is_word_separator U) [] (clusters_from U str b)"
    proof (cases "b < length str")
      case True
      then show ?thesis using False run by (simp add: clusters_from_step)
    qed (use run in \<open>simp add: clusters_from_end\<close>)
    then show ?thesis using e run 1(2) by (intro exI [of _ run]) (simp add: substr_def)
  qed
qed

lemma words_from_groups:
  "words_from U str b = map (\<lambda>g. (concat g, sum_list (map (cluster_width U) g)))
     (word_groups (is_word_separator U) [] (clusters_from U str b))"
proof (induction U str b rule: words_from.induct)
  case (1 U str b)
  let ?s = "skip_separators U str b"
  obtain e w where tw: "take_word U str ?s 0 = (e, w)" by (cases "take_word U str ?s 0")
  show ?case
  proof (cases "?s < length str")
    case True
    from take_word_groups [of ?s str "[]" U 0] True skip_separators_stop [OF True]
    obtain g where g: "word_groups (is_word_separator U) [] (clusters_from U str ?s)
        = g # word_groups (is_word_separator U) [] (clusters_from U str e)"
      "concat g = substr str ?s (e - ?s)" "w = sum_list (map (cluster_width U) g)" by (auto simp: tw)
    have "words_from U str b = (substr str ?s (e - ?s), w) # words_from U str e"
      using True tw by (subst words_from.simps) (simp add: Let_def)
    moreover have "words_from U str e = map (\<lambda>g. (concat g, sum_list (map (cluster_width U) g)))
        (word_groups (is_word_separator U) [] (clusters_from U str e))"
      using 1 [OF refl tw [symmetric] refl] True by simp
    ultimately show ?thesis using g skip_separators_groups [of U str b] by simp
  next
    case False
    then have "words_from U str b = []" using tw by (subst words_from.simps) (simp add: Let_def)
    then show ?thesis using skip_separators_groups [of U str b] False by (simp add: clusters_from_end)
  qed
qed

section \<open>Well-formed text\<close>

definition encode_all :: "u32 list \<Rightarrow> bytes" where
  "encode_all cs = concat (map utf8proc_encode_char cs)"

text \<open>The cluster that starts with \<open>hist\<close>, by the rules of Annex 29.\<close>

fun tr29_cluster :: "Unicode \<Rightarrow> u32 list \<Rightarrow> u32 list \<Rightarrow> u32 list" where
  "tr29_cluster U hist [] = hist"
| "tr29_cluster U hist (c # cs) = (if tr29_break U (rev hist) c then hist else tr29_cluster U (hist @ [c]) cs)"

lemma encode_all_simps [simp]:
  "encode_all [] = []" "encode_all (c # cs) = utf8proc_encode_char c @ encode_all cs"
  "encode_all (xs @ ys) = encode_all xs @ encode_all ys"
  by (simp_all add: encode_all_def)

lemma encode_char_nonempty: "utf8proc_codepoint_valid c \<Longrightarrow> utf8proc_encode_char c \<noteq> []"
  using encode_num [of c] by (auto simp: valid_num encoding_def split: if_splits)

lemma decode_encoded:
  assumes "utf8proc_codepoint_valid c"
  shows "decode (encode_all (pre @ c # post)) (length (encode_all pre)) =
    \<lparr>d_length = length (utf8proc_encode_char c), d_codepoint = c, d_valid = True\<rparr>"
proof -
  have ne: "utf8proc_encode_char c \<noteq> []" by (rule encode_char_nonempty [OF assms])
  then have "utf8proc_iterate (utf8proc_encode_char c @ encode_all post) = Some (length (utf8proc_encode_char c), c)"
    using assms by (simp add: decode_iff)
  then show ?thesis using ne by (simp add: decode_def)
qed

lemma next_loop_tr29:
  assumes "proper_table U" "hist \<noteq> []" "\<forall>c \<in> set post. utf8proc_codepoint_valid c"
  shows "next_loop U (encode_all (pre @ hist @ post)) (last hist) (length (encode_all (pre @ hist))) (run_state U (rev hist))
    = length (encode_all (pre @ tr29_cluster U hist post))"
  using assms(2,3)
proof (induction post arbitrary: hist)
  case Nil
  then show ?case by (subst next_loop.simps) simp
next
  case (Cons c post)
  let ?s = "encode_all (pre @ hist @ c # post)" and ?b = "length (encode_all (pre @ hist))"
  have v: "utf8proc_codepoint_valid c" using Cons.prems by simp
  have d: "decode ?s ?b = \<lparr>d_length = length (utf8proc_encode_char c), d_codepoint = c, d_valid = True\<rparr>"
    using decode_encoded [OF v, of "pre @ hist" post] by simp
  have lt: "?b < length ?s" using encode_char_nonempty [OF v] by simp
  obtain brk st where g: "utf8proc_grapheme_break_stateful U (last hist) c (run_state U (rev hist)) = (brk, st)"
    by (cases "utf8proc_grapheme_break_stateful U (last hist) c (run_state U (rev hist))")
  have h: "hd (rev hist) = last hist" "rev hist \<noteq> []" using Cons.prems by (simp_all add: hd_rev)
  have b: "brk = tr29_break U (rev hist) c" using break_follows_tr29 [OF assms(1) h(2), of c] h(1) g by simp
  have "rev hist = last hist # rev (butlast hist)" using Cons.prems(1) by (metis append_butlast_last_id rev_eq_Cons_iff rev_rev_ident)
  then have "run_state U (c # rev hist) = snd (utf8proc_grapheme_break_stateful U (last hist) c (run_state U (rev hist)))"
    by (metis run_state.simps(1))
  then have st: "st = run_state U (rev (hist @ [c]))" using g by simp
  have u: "next_loop U ?s (last hist) ?b (run_state U (rev hist)) =
      (if brk then ?b else next_loop U ?s c (?b + length (utf8proc_encode_char c)) st)"
    using d lt g by (subst next_loop.simps) simp
  show ?case
  proof (cases brk)
    case True
    then show ?thesis unfolding u using b by simp
  next
    case False
    then show ?thesis unfolding u using b st Cons.IH [of "hist @ [c]"] Cons.prems by (simp add: add.assoc)
  qed
qed

lemma next_tr29:
  assumes "proper_table U" "utf8proc_codepoint_valid c" "\<forall>x \<in> set post. utf8proc_codepoint_valid x"
  shows "utf8_next U (encode_all (pre @ c # post)) (length (encode_all pre)) = length (encode_all (pre @ tr29_cluster U [c] post))"
proof -
  have "length (encode_all pre) < length (encode_all (pre @ c # post))" using encode_char_nonempty [OF assms(2)] by simp
  then show ?thesis
    using next_loop_tr29 [OF assms(1) _ assms(3), of "[c]" pre] decode_encoded [OF assms(2), of pre post] encode_char_nonempty [OF assms(2)]
    by (simp add: utf8_next_def)
qed

lemma iterate_prefix:
  assumes "utf8proc_iterate [x] = Some (n, cp)"
  shows "utf8proc_iterate (x # r) = Some (n, cp)"
proof -
  have v: "utf8proc_codepoint_valid cp" "n = length (utf8proc_encode_char cp)" "take n [x] = utf8proc_encode_char cp"
    using assms decode_iff [of "[x]" n cp] by blast+
  have "n \<noteq> 0" using v encode_char_nonempty by auto
  moreover have "n \<le> 1" using arg_cong [OF v(3), of length] v(2) by simp
  ultimately have "n = 1" by simp
  then show ?thesis using v by (simp add: decode_iff)
qed

lemma malformed_next:
  assumes "b < length str" "utf8proc_iterate (drop b str) = None"
  shows "utf8_next U str b = b + 1" "cluster_width U (substr str b 1) = 1" "\<not> is_word_separator U (substr str b 1)"
proof -
  have s: "substr str b 1 = [str ! b]" using assms(1) by (simp add: substr_def take_Suc hd_drop_conv_nth)
  have "utf8proc_iterate [str ! b] = None"
    using iterate_prefix [of "str ! b" _ _ "drop (Suc b) str"] assms by (cases "utf8proc_iterate [str ! b]") (auto simp: Cons_nth_drop_Suc)
  then have d: "\<not> d_valid (decode [str ! b] 0)" by (simp add: decode_def)
  show "utf8_next U str b = b + 1" using assms by (simp add: utf8_next_def decode_def)
  show "cluster_width U (substr str b 1) = 1" unfolding s cluster_width_def using d by (subst width_from.simps) simp
  show "\<not> is_word_separator U (substr str b 1)" unfolding s is_word_separator_def using d by (subst separator_from.simps) simp
qed

section \<open>Properties\<close>

text \<open>The table of the witnesses: every code point is a word character of width one, except the space,
  the two line break characters and the combining acute accent.\<close>

definition sample_table :: Unicode where
  "sample_table c =
     (if c = 0x20 then \<lparr>category = 23, charwidth = 1, boundclass = BC_OTHER, indic_conjunct_break = ICB_NONE\<rparr>
      else if c = 0x0d then \<lparr>category = 26, charwidth = 0, boundclass = BC_CR, indic_conjunct_break = ICB_NONE\<rparr>
      else if c = 0x0a then \<lparr>category = 26, charwidth = 0, boundclass = BC_LF, indic_conjunct_break = ICB_NONE\<rparr>
      else if c = 0x301 then \<lparr>category = 6, charwidth = 0, boundclass = BC_EXTEND, indic_conjunct_break = ICB_EXTEND\<rparr>
      else \<lparr>category = 2, charwidth = 1, boundclass = BC_OTHER, indic_conjunct_break = ICB_NONE\<rparr>)"

lemma sample_table_proper: "proper_table sample_table"
  by (simp add: proper_table_def sample_table_def)

text \<open>C17.  On well-formed text \<^verbatim>\<open>utf8::next\<close> finds exactly the grapheme clusters of Unicode Annex 29:
  from the start of a code point \<open>c\<close>, it stops at the first following position where the
  rules, read on the whole cluster so far, allow a break.\<close>

theorem next_is_tr29_cluster:
  assumes "proper_table U" "\<forall>x \<in> set (c # post). utf8proc_codepoint_valid x"
  shows "utf8_next U (encode_all (pre @ c # post)) (length (encode_all pre)) = length (encode_all (pre @ tr29_cluster U [c] post))"
  by (rule next_tr29) (use assms in simp_all)

theorem next_is_tr29_cluster_witness:
  "utf8_next sample_table [0x41, 0x65, 0xcc, 0x81, 0x42] 1 = 4"
proof -
  have e: "utf8proc_encode_char 0x301 = [0xcc, 0x81]" "utf8proc_encode_char 0x41 = [0x41]" "utf8proc_encode_char 0x65 = [0x65]"
    "utf8proc_encode_char 0x42 = [0x42]" by (simp_all add: utf8proc_encode_char_def word_sless_alt)
  have c: "tr29_cluster sample_table [0x65] [0x301, 0x42] = [0x65, 0x301]"
    by (simp add: tr29_break_def sample_table_def no_break_pair_def odd_regional_def conjunct_before_def Let_def)
  have "\<forall>x \<in> set (0x65 # [0x301, 0x42]). utf8proc_codepoint_valid x" by (simp add: utf8proc_codepoint_valid_def)
  from next_is_tr29_cluster [OF sample_table_proper this, of "[0x41]"] show ?thesis unfolding c by (simp add: e)
qed

text \<open>C39.  Cursor positions: \<^verbatim>\<open>floor_boundary\<close> gives the greatest cluster boundary at or before an offset,
  \<^verbatim>\<open>prev\<close> the greatest one before it, and \<^verbatim>\<open>next\<close> and \<^verbatim>\<open>prev\<close> undo each other on boundaries.\<close>

theorem boundary_navigation:
  assumes "byte \<le> length str"
  shows "grapheme_boundary U str (floor_boundary U str byte) \<and> floor_boundary U str byte \<le> byte
    \<and> (\<forall>x. grapheme_boundary U str x \<longrightarrow> x \<le> byte \<longrightarrow> x \<le> floor_boundary U str byte)
    \<and> (0 < byte \<longrightarrow> grapheme_boundary U str (prev U str byte) \<and> prev U str byte < byte
        \<and> (\<forall>x. grapheme_boundary U str x \<longrightarrow> x < byte \<longrightarrow> x \<le> prev U str byte))
    \<and> (grapheme_boundary U str byte \<longrightarrow> (0 < byte \<longrightarrow> utf8_next U str (prev U str byte) = byte)
        \<and> (byte < length str \<longrightarrow> prev U str (utf8_next U str byte) = byte))"
  using floor_boundary_spec [OF assms, of U] prev_spec [OF _ assms, of U] next_of_prev [of U str byte] prev_of_next [of U str byte]
  by (intro conjI impI) simp_all

theorem boundary_navigation_witness:
  "floor_boundary sample_table [0x41, 0x20, 0x42] 2 \<le> 2 \<and> prev sample_table [0x41, 0x20, 0x42] 2 < 2"
  using boundary_navigation [of 2 "[0x41, 0x20, 0x42]" sample_table] by simp

text \<open> Counting and columns: the byte of the \<open>n\<close>-th cluster and the index of a byte are inverse up to
  the end of the text, every cluster takes at least one column, the column of a boundary is the
  sum of the widths before it and the display width is the column of the end.\<close>

theorem columns_add_up:
  "cell_at U str (byte_at U str n) = min n (count U str)
    \<and> byte_at U str (count U str) = length str
    \<and> column_at U str (byte_at U str n) = (\<Sum>i < min n (count U str). nth_width U str i)
    \<and> display_width U str = column_at U str (length str)
    \<and> count U str \<le> display_width U str"
proof -
  have c: "column_at U str (byte_at U str k) = (\<Sum>i < min k (count U str). nth_width U str i)" for k
    using column_at_pos [of "min k (count U str)" U str] cpos_min [of str U k] by (simp add: byte_at_pos)
  have "(\<Sum>i < count U str. 1) \<le> (\<Sum>i < count U str. nth_width U str i)" by (rule sum_mono) (rule nth_width_pos)
  then show ?thesis
    using c [of n] c [of "count U str"] count_spec(1) [of str U] cell_at_byte_at [of U str n] display_width_sum [of U str]
    by (simp add: byte_at_pos)
qed

text \<open>A click at a column lands on the last boundary that starts at or before that column.\<close>

theorem byte_at_column_floor:
  "grapheme_boundary U str (byte_at_column U str column)
    \<and> column_at U str (byte_at_column U str column) \<le> column
    \<and> (byte_at_column U str column < length str
        \<longrightarrow> column < column_at U str (utf8_next U str (byte_at_column U str column)))"
proof -
  obtain k where k: "k \<le> count U str" "byte_at_column U str column = cpos U str k"
    "(\<Sum>j < k. nth_width U str j) \<le> column" "k < count U str \<longrightarrow> column < (\<Sum>j < Suc k. nth_width U str j)"
    using byte_at_column_from_spec [of 0 str U 0 0 column] unfolding byte_at_column_def by auto
  have "column < column_at U str (utf8_next U str (cpos U str k))" if l: "cpos U str k < length str"
  proof -
    have kc: "k < count U str" using l k(1) count_spec(1) [of str U] by (metis le_neq_implies_less order_less_irrefl)
    have "utf8_next U str (cpos U str k) = cpos U str (Suc k)" using l by simp
    then show ?thesis using column_at_pos [of "Suc k" U str] kc k(4) by simp
  qed
  then show ?thesis using k column_at_pos [OF k(1)] clusters.pos_B [of U str k] by simp
qed

theorem byte_at_column_floor_witness:
  "column_at sample_table [0x41, 0x42, 0x43] (byte_at_column sample_table [0x41, 0x42, 0x43] 1) \<le> 1"
  using byte_at_column_floor [of sample_table "[0x41, 0x42, 0x43]" 1] by simp

text \<open>C40.  Words: \<^verbatim>\<open>words\<close> yields the maximal runs of clusters that are not separators, in order, each with
  the sum of its cluster widths, and the clusters the runs are taken from make up the text.\<close>

theorem words_are_runs:
  "words U str = map (\<lambda>g. (concat g, sum_list (map (cluster_width U) g)))
      (word_groups (is_word_separator U) [] (clusters_from U str 0))
    \<and> concat (clusters_from U str 0) = str"
  using words_from_groups [of U str 0] concat_clusters [of 0 str U] by (simp add: words_def)

text \<open>Malformed input: a byte at which no UTF-8 sequence starts is skipped alone, takes one column
  and does not separate words.\<close>

lemma malformed_byte_is_a_cell:
  assumes "b < length str" "utf8proc_iterate (drop b str) = None"
  shows "utf8_next U str b = b + 1 \<and> cluster_width U (substr str b 1) = 1 \<and> \<not> is_word_separator U (substr str b 1)"
  using malformed_next [OF assms] by blast

end
