(* ===== verification/Text_Field.thy ===== *)
theory Text_Field
  imports Utf8
begin

text \<open>
  The single-line editor of \<^verbatim>\<open>src/nxtui/text_field.hpp\<close>: the text with its byte cursor, the edit and cursor
  operations, and the scroll position of the rendered field.  An operation that returns
  \<^verbatim>\<open>bool\<close> in the source returns the new field with that answer.
\<close>

section \<open>Model\<close>

record TextField =
  tf_text :: bytes
  cursor_byte :: nat

definition clamp_cursor :: "Unicode \<Rightarrow> TextField \<Rightarrow> TextField" where
  "clamp_cursor U f = f\<lparr>cursor_byte := floor_boundary U (tf_text f) (cursor_byte f)\<rparr>"

definition insert_text :: "Unicode \<Rightarrow> bytes \<Rightarrow> TextField \<Rightarrow> TextField" where
  "insert_text U bs f =
     (let f = clamp_cursor U f; c = cursor_byte f
      in f\<lparr>tf_text := take c (tf_text f) @ bs @ drop c (tf_text f), cursor_byte := c + length bs\<rparr>)"

definition erase_text :: "bytes \<Rightarrow> nat \<Rightarrow> nat \<Rightarrow> bytes" where
  "erase_text s p n = take p s @ drop (p + n) s"

definition erase_left :: "Unicode \<Rightarrow> TextField \<Rightarrow> TextField \<times> bool" where
  "erase_left U f =
     (let f = clamp_cursor U f in
      if cursor_byte f = 0 then (f, False)
      else let p = prev U (tf_text f) (cursor_byte f)
           in (f\<lparr>tf_text := erase_text (tf_text f) p (cursor_byte f - p), cursor_byte := p\<rparr>, True))"

definition erase_right :: "Unicode \<Rightarrow> TextField \<Rightarrow> TextField \<times> bool" where
  "erase_right U f =
     (let f = clamp_cursor U f in
      if cursor_byte f \<ge> length (tf_text f) then (f, False)
      else let n = utf8_next U (tf_text f) (cursor_byte f)
           in (f\<lparr>tf_text := erase_text (tf_text f) (cursor_byte f) (n - cursor_byte f)\<rparr>, True))"

definition move_left :: "Unicode \<Rightarrow> TextField \<Rightarrow> TextField \<times> bool" where
  "move_left U f =
     (let f = clamp_cursor U f in
      if cursor_byte f = 0 then (f, False)
      else (f\<lparr>cursor_byte := prev U (tf_text f) (cursor_byte f)\<rparr>, True))"

definition move_right :: "Unicode \<Rightarrow> TextField \<Rightarrow> TextField \<times> bool" where
  "move_right U f =
     (let f = clamp_cursor U f in
      if cursor_byte f \<ge> length (tf_text f) then (f, False)
      else (f\<lparr>cursor_byte := utf8_next U (tf_text f) (cursor_byte f)\<rparr>, True))"

definition move_home :: "TextField \<Rightarrow> TextField \<times> bool" where
  "move_home f = (if cursor_byte f = 0 then (f, False) else (f\<lparr>cursor_byte := 0\<rparr>, True))"

definition move_end :: "TextField \<Rightarrow> TextField \<times> bool" where
  "move_end f =
     (if cursor_byte f \<ge> length (tf_text f) then (f, False) else (f\<lparr>cursor_byte := length (tf_text f)\<rparr>, True))"

definition clear_field :: "TextField \<Rightarrow> TextField" where
  "clear_field f = f\<lparr>tf_text := [], cursor_byte := 0\<rparr>"

definition empty_field :: "TextField \<Rightarrow> bool" where
  "empty_field f \<longleftrightarrow> tf_text f = []"

definition cell_count :: "Unicode \<Rightarrow> TextField \<Rightarrow> nat" where
  "cell_count U f = display_width U (tf_text f)"

definition cursor_cell :: "Unicode \<Rightarrow> TextField \<Rightarrow> nat" where
  "cursor_cell U f = column_at U (tf_text f) (cursor_byte f)"

definition scroll_for_cursor :: "nat \<Rightarrow> nat \<Rightarrow> nat" where
  "scroll_for_cursor cell field_w = (if field_w = 0 \<or> cell < field_w then 0 else cell - field_w + 1)"

text \<open>What the field shows of its text, and where it draws the cursor, in a view of \<open>total_w\<close> columns
  behind a prefix (the arithmetic of the leaf that \<^verbatim>\<open>text_field\<close> returns).\<close>

record FieldView =
  fv_prefix :: nat
  fv_text :: bytes
  fv_cursor :: "nat option"

definition field_view :: "Unicode \<Rightarrow> bytes \<Rightarrow> bytes \<Rightarrow> bool \<Rightarrow> nat \<Rightarrow> TextField \<Rightarrow> FieldView" where
  "field_view U prefix placeholder focused total_w f =
     (let prefix_w = min (display_width U prefix) total_w;
          field_w = total_w - prefix_w;
          cell = column_at U (tf_text f) (cursor_byte f);
          scroll = scroll_for_cursor cell field_w;
          start_byte = byte_at_column U (tf_text f) scroll;
          end_byte = byte_at_column U (tf_text f) (scroll + field_w)
      in \<lparr>fv_prefix = prefix_w,
          fv_text =
            (if tf_text f = [] \<and> placeholder \<noteq> [] \<and> field_w > 0 then placeholder
             else if field_w > 0 then substr (tf_text f) start_byte (end_byte - start_byte) else []),
          fv_cursor = (if focused \<and> field_w > 0 then Some (min (prefix_w + (cell - scroll)) (total_w - 1)) else None)\<rparr>)"

text \<open>One key press of the field.\<close>

datatype edit = Insert bytes | EraseLeft | EraseRight | MoveLeft | MoveRight | MoveHome | MoveEnd | Clear

fun apply_edit :: "Unicode \<Rightarrow> edit \<Rightarrow> TextField \<Rightarrow> TextField" where
  "apply_edit U (Insert bs) f = insert_text U bs f"
| "apply_edit U EraseLeft f = fst (erase_left U f)"
| "apply_edit U EraseRight f = fst (erase_right U f)"
| "apply_edit U MoveLeft f = fst (move_left U f)"
| "apply_edit U MoveRight f = fst (move_right U f)"
| "apply_edit U MoveHome f = fst (move_home f)"
| "apply_edit U MoveEnd f = fst (move_end f)"
| "apply_edit U Clear f = clear_field f"

lemmas field_defs = clamp_cursor_def insert_text_def erase_left_def erase_right_def move_left_def move_right_def
  move_home_def move_end_def clear_field_def

section \<open>Code point boundaries\<close>

definition valid_points :: "u32 list \<Rightarrow> bool" where
  "valid_points cs \<longleftrightarrow> (\<forall>c \<in> set cs. utf8proc_codepoint_valid c)"

lemma valid_points_simps [simp]:
  "valid_points []" "valid_points (c # cs) \<longleftrightarrow> utf8proc_codepoint_valid c \<and> valid_points cs"
  "valid_points (xs @ ys) \<longleftrightarrow> valid_points xs \<and> valid_points ys"
  by (auto simp: valid_points_def)

text \<open>The documented invariant: well-formed text, and the cursor between two code points.\<close>

definition field_ok :: "TextField \<Rightarrow> bool" where
  "field_ok f \<longleftrightarrow> (\<exists>xs ys. valid_points (xs @ ys) \<and> tf_text f = encode_all (xs @ ys) \<and> cursor_byte f = length (encode_all xs))"

lemma next_loop_points:
  "valid_points post \<Longrightarrow> \<exists>zs ws. post = zs @ ws \<and>
    next_loop U (encode_all (pre @ post)) cp (length (encode_all pre)) st = length (encode_all (pre @ zs))"
proof (induction post arbitrary: pre cp st)
  case Nil
  then show ?case by (subst next_loop.simps) simp
next
  case (Cons c post)
  let ?s = "encode_all (pre @ c # post)" and ?b = "length (encode_all pre)"
  have v: "utf8proc_codepoint_valid c" "valid_points post" using Cons.prems by simp_all
  have lt: "?b < length ?s" using encode_char_nonempty [OF v(1)] by simp
  obtain brk st' where g: "utf8proc_grapheme_break_stateful U cp c st = (brk, st')" by (cases "utf8proc_grapheme_break_stateful U cp c st")
  have u: "next_loop U ?s cp ?b st = (if brk then ?b else next_loop U ?s c (?b + length (utf8proc_encode_char c)) st')"
    using decode_encoded [OF v(1), of pre post] lt g by (subst next_loop.simps) simp
  show ?case
  proof (cases brk)
    case True
    then show ?thesis unfolding u by (intro exI [of _ "[]"] exI [of _ "c # post"]) simp
  next
    case False
    obtain zs ws where "post = zs @ ws"
      "next_loop U (encode_all ((pre @ [c]) @ post)) c (length (encode_all (pre @ [c]))) st' = length (encode_all ((pre @ [c]) @ zs))"
      using Cons.IH [OF v(2), of "pre @ [c]"] by blast
    then show ?thesis unfolding u using False by (intro exI [of _ "c # zs"] exI [of _ ws]) simp
  qed
qed

lemma next_points:
  assumes "valid_points (c # post)"
  shows "\<exists>zs ws. post = zs @ ws \<and> utf8_next U (encode_all (pre @ c # post)) (length (encode_all pre)) = length (encode_all (pre @ c # zs))"
proof -
  have v: "utf8proc_codepoint_valid c" "valid_points post" using assms by simp_all
  obtain zs ws where "post = zs @ ws"
    "next_loop U (encode_all ((pre @ [c]) @ post)) c (length (encode_all (pre @ [c]))) 0 = length (encode_all ((pre @ [c]) @ zs))"
    using next_loop_points [OF v(2), of U "pre @ [c]"] by blast
  then show ?thesis
    using decode_encoded [OF v(1), of pre post] encode_char_nonempty [OF v(1)] by (intro exI [of _ zs] exI [of _ ws]) (simp add: utf8_next_def)
qed

lemma boundary_points:
  "grapheme_boundary U (encode_all cs) b \<Longrightarrow> valid_points cs \<Longrightarrow> \<exists>xs ys. cs = xs @ ys \<and> b = length (encode_all xs)"
proof (induction rule: grapheme_boundary.induct)
  case boundary_start
  then show ?case by (intro exI [of _ "[]"] exI [of _ cs]) simp
next
  case (boundary_next b)
  then obtain xs ys where s: "cs = xs @ ys" "b = length (encode_all xs)" by blast
  then obtain c post where y: "ys = c # post" using boundary_next(2) by (cases ys) auto
  then have "valid_points (c # post)" using s boundary_next(4) by simp
  from next_points [OF this, of U xs] obtain zs ws where "post = zs @ ws"
    "utf8_next U (encode_all cs) b = length (encode_all (xs @ c # zs))" using s y by blast
  then show ?case using s y by (intro exI [of _ "xs @ c # zs"] exI [of _ ws]) simp
qed

section \<open>Every edit keeps the invariant\<close>

lemma field_okI:
  "valid_points (xs @ ys) \<Longrightarrow> tf_text f = encode_all (xs @ ys) \<Longrightarrow> cursor_byte f = length (encode_all xs) \<Longrightarrow> field_ok f"
  unfolding field_ok_def by blast

lemma field_ok_boundary:
  assumes "valid_points cs" "tf_text f = encode_all cs" "grapheme_boundary U (encode_all cs) (cursor_byte f)"
  shows "field_ok f"
  using boundary_points [OF assms(3,1)] assms(1,2) by (auto intro: field_okI)

lemma clamp_ok:
  assumes "field_ok f"
  shows "field_ok (clamp_cursor U f)"
proof -
  obtain xs ys where f: "valid_points (xs @ ys)" "tf_text f = encode_all (xs @ ys)" using assms unfolding field_ok_def by blast
  show ?thesis
    by (rule field_ok_boundary [OF f(1), of _ U]) (use f in \<open>simp_all add: clamp_cursor_def floor_is_boundary del: encode_all_simps(3)\<close>)
qed

lemma clamp_props [simp]:
  "tf_text (clamp_cursor U f) = tf_text f" "grapheme_boundary U (tf_text f) (cursor_byte (clamp_cursor U f))"
  "cursor_byte (clamp_cursor U f) \<le> length (tf_text f)"
  by (simp_all add: clamp_cursor_def floor_is_boundary floor_boundary_le)

lemma insert_ok:
  assumes "field_ok f" "valid_points bs"
  shows "field_ok (insert_text U (encode_all bs) f)"
proof -
  obtain xs ys where f: "valid_points (xs @ ys)" "tf_text f = encode_all (xs @ ys)" "cursor_byte (clamp_cursor U f) = length (encode_all xs)"
    using clamp_ok [OF assms(1), of U] unfolding field_ok_def by auto
  show ?thesis
    by (rule field_okI [of "xs @ bs" ys]) (use f assms(2) in \<open>simp_all add: insert_text_def Let_def\<close>)
qed

lemma field_ok_text: "field_ok f \<Longrightarrow> \<exists>cs. valid_points cs \<and> tf_text f = encode_all cs"
  unfolding field_ok_def by blast

lemma move_ok:
  assumes "field_ok f" "grapheme_boundary U (tf_text f) b"
  shows "field_ok (f\<lparr>cursor_byte := b\<rparr>)"
proof -
  obtain cs where cs: "valid_points cs" "tf_text f = encode_all cs" using field_ok_text [OF assms(1)] by blast
  show ?thesis by (rule field_ok_boundary [OF cs(1), of _ U]) (use cs assms(2) in simp_all)
qed

lemma prev_boundary: "0 < b \<Longrightarrow> b \<le> length s \<Longrightarrow> grapheme_boundary U s (prev U s b)"
  using prev_spec by blast

lemma end_boundary: "grapheme_boundary U s (length s)"
  using clusters.pos_ends clusters.pos_B by metis

text \<open>Cutting the text between two boundaries leaves well-formed text with the cursor at the cut.\<close>

lemma erase_ok:
  assumes "field_ok f" "grapheme_boundary U (tf_text f) p" "grapheme_boundary U (tf_text f) q" "p \<le> q"
  shows "field_ok \<lparr>tf_text = erase_text (tf_text f) p (q - p), cursor_byte = p\<rparr>"
proof -
  obtain cs where cs: "valid_points cs" "tf_text f = encode_all cs" using field_ok_text [OF assms(1)] by blast
  obtain xs ys where x: "cs = xs @ ys" "p = length (encode_all xs)" using boundary_points [OF assms(2) [unfolded cs(2)] cs(1)] by blast
  obtain us vs where u: "cs = us @ vs" "q = length (encode_all us)" using boundary_points [OF assms(3) [unfolded cs(2)] cs(1)] by blast
  have "erase_text (tf_text f) p (q - p) = encode_all (xs @ vs)"
  proof -
    have "take p (tf_text f) = encode_all xs" using x cs(2) by simp
    moreover have "drop q (tf_text f) = encode_all vs" using u cs(2) by simp
    ultimately show ?thesis using assms(4) by (simp add: erase_text_def)
  qed
  moreover have "valid_points (xs @ vs)" using cs(1) x(1) u(1) by (metis valid_points_simps(3))
  ultimately show ?thesis using x(2) by (intro field_okI [of xs vs]) simp_all
qed

lemma field_eta:
  "f\<lparr>tf_text := s, cursor_byte := b\<rparr> = \<lparr>tf_text = s, cursor_byte = b\<rparr>"
  "f\<lparr>tf_text := s\<rparr> = \<lparr>tf_text = s, cursor_byte = cursor_byte f\<rparr>"
  by (cases f; simp)+

lemma apply_edit_ok:
  assumes "field_ok f" "\<And>bs. e = Insert bs \<Longrightarrow> \<exists>cs. valid_points cs \<and> bs = encode_all cs"
  shows "field_ok (apply_edit U e f)"
proof -
  let ?f = "clamp_cursor U f" let ?s = "tf_text f" let ?c = "cursor_byte (clamp_cursor U f)"
  note c = clamp_ok [OF assms(1), of U]
  have b: "grapheme_boundary U ?s ?c" "?c \<le> length ?s" by simp_all
  have nb: "grapheme_boundary U ?s (utf8_next U ?s ?c)" if "?c < length ?s" using boundary_next [OF b(1) that] .
  show ?thesis
  proof (cases e)
    case (Insert bs)
    then show ?thesis using assms insert_ok by fastforce
  next
    case EraseLeft
    have "field_ok \<lparr>tf_text = erase_text ?s (prev U ?s ?c) (?c - prev U ?s ?c), cursor_byte = prev U ?s ?c\<rparr>" if "0 < ?c"
      by (rule erase_ok [OF assms(1)]) (use prev_boundary [OF that b(2)] b prev_spec [OF that b(2), of U] in auto)
    then show ?thesis using EraseLeft c by (auto simp: erase_left_def Let_def field_eta)
  next
    case EraseRight
    have "field_ok \<lparr>tf_text = erase_text ?s ?c (utf8_next U ?s ?c - ?c), cursor_byte = ?c\<rparr>" if "?c < length ?s"
      by (rule erase_ok [OF assms(1)]) (use nb [OF that] b next_progress(1) [OF that, of U] in auto)
    then show ?thesis using EraseRight c by (auto simp: erase_right_def Let_def field_eta)
  next
    case MoveLeft
    then show ?thesis using c move_ok [OF c] prev_boundary [OF _ b(2)] by (auto simp: move_left_def Let_def)
  next
    case MoveRight
    then show ?thesis using c move_ok [OF c] nb by (auto simp: move_right_def Let_def)
  next
    case MoveHome
    then show ?thesis using assms(1) move_ok [OF assms(1) boundary_start] by (simp add: move_home_def)
  next
    case MoveEnd
    then show ?thesis using assms(1) move_ok [OF assms(1) end_boundary] by (simp add: move_end_def)
  next
    case Clear
    then show ?thesis by (auto intro: field_okI [of "[]" "[]"] simp: clear_field_def)
  qed
qed

lemma clamp_boundary: "grapheme_boundary U (tf_text f) (cursor_byte f) \<Longrightarrow> clamp_cursor U f = f"
  by (simp add: clamp_cursor_def floor_boundary_fix)

lemma clamp_clamp [simp]: "clamp_cursor U (clamp_cursor U f) = clamp_cursor U f"
  by (rule clamp_boundary) simp

text \<open>Before a combining mark the order of typed characters is lost: after a letter is typed the cursor is
  inside the cluster it forms with the mark, and the next insertion rounds it down to before
  the letter.  Typing \<open>e\<close> then \<open>x\<close> in front of an acute accent gives \<open>xe\<close> and the accent.\<close>

lemma typing_before_mark_reverses:
  "insert_text sample_table [0x78] (insert_text sample_table [0x65] \<lparr>tf_text = [0xcc, 0x81], cursor_byte = 0\<rparr>)
    = \<lparr>tf_text = [0x78, 0x65, 0xcc, 0x81], cursor_byte = 1\<rparr>"
proof -
  have v: "utf8proc_encode_char 0x65 = [0x65]" "utf8proc_encode_char 0x301 = [0xcc, 0x81]"
    "utf8proc_codepoint_valid 0x65" "utf8proc_codepoint_valid 0x301"
    by (simp_all add: utf8proc_encode_char_def utf8proc_codepoint_valid_def word_sless_alt)
  have "tr29_cluster sample_table [0x65] [0x301] = [0x65, 0x301]"
    by (simp add: tr29_break_def sample_table_def no_break_pair_def odd_regional_def conjunct_before_def Let_def)
  then have n: "utf8_next sample_table [0x65, 0xcc, 0x81] 0 = 3"
    using next_tr29 [OF sample_table_proper v(3), of "[0x301]" "[]"] v by simp
  have f: "floor_boundary sample_table [0x65, 0xcc, 0x81] 1 = 0"
    by (simp add: floor_boundary_def, subst floor_from.simps) (simp add: n)
  have z: "floor_boundary sample_table [0xcc, 0x81] 0 = 0" by (rule floor_boundary_fix) (rule boundary_start)
  show ?thesis by (simp add: insert_text_def clamp_cursor_def Let_def z f [simplified])
qed

section \<open>Properties\<close>

text \<open>C19.  Whatever the user types and deletes, as long as the inserted bytes are well-formed UTF-8 the field's
  text stays well-formed UTF-8 and its cursor stays in range and between two code points, as the
  header promises.\<close>

theorem edits_keep_utf8:
  assumes "\<forall>e \<in> set es. \<forall>bs. e = Insert bs \<longrightarrow> (\<exists>cs. valid_points cs \<and> bs = encode_all cs)"
  shows "field_ok (fold (apply_edit U) es \<lparr>tf_text = [], cursor_byte = 0\<rparr>)"
proof -
  have "field_ok f \<Longrightarrow> field_ok (fold (apply_edit U) es f)" for f
    using assms by (induction es arbitrary: f) (simp_all add: apply_edit_ok)
  moreover have "field_ok \<lparr>tf_text = [], cursor_byte = 0\<rparr>" by (rule field_okI [of "[]" "[]"]) simp_all
  ultimately show ?thesis by blast
qed

theorem edits_keep_utf8_witness:
  "field_ok (fold (apply_edit sample_table) [Insert [0xc3, 0xa9], MoveLeft, Insert [0x41], EraseRight] \<lparr>tf_text = [], cursor_byte = 0\<rparr>)"
proof -
  have e: "utf8proc_encode_char 0xe9 = [0xc3, 0xa9]" "utf8proc_encode_char 0x41 = [0x41]"
    "utf8proc_codepoint_valid 0xe9" "utf8proc_codepoint_valid 0x41"
    by (simp_all add: utf8proc_encode_char_def utf8proc_codepoint_valid_def word_sless_alt)
  have "\<exists>cs. valid_points cs \<and> [0xc3, 0xa9] = encode_all cs" by (rule exI [of _ "[0xe9]"]) (simp add: e)
  moreover have "\<exists>cs. valid_points cs \<and> [0x41] = encode_all cs" by (rule exI [of _ "[0x41]"]) (simp add: e)
  ultimately show ?thesis by (intro edits_keep_utf8) simp
qed

text \<open>Moving and deleting agree on what a cell is: left undoes right, and deleting forward gives the
  same field as stepping right and deleting backward; both report that they changed something.\<close>

theorem move_and_erase_agree:
  assumes "cursor_byte (clamp_cursor U f) < length (tf_text f)"
  shows "snd (move_right U f) \<and> move_left U (fst (move_right U f)) = (clamp_cursor U f, True)
    \<and> erase_left U (fst (move_right U f)) = erase_right U f \<and> snd (erase_right U f)"
proof -
  let ?s = "tf_text f" let ?c = "cursor_byte (clamp_cursor U f)" let ?n = "utf8_next U ?s ?c"
  have b: "grapheme_boundary U ?s ?c" by simp
  have n: "grapheme_boundary U ?s ?n" "?c < ?n" "prev U ?s ?n = ?c"
    using boundary_next [OF b assms] next_progress(1) [OF assms, of U] prev_of_next [OF b assms] by simp_all
  have mr: "move_right U f = ((clamp_cursor U f)\<lparr>cursor_byte := ?n\<rparr>, True)" using assms by (simp add: move_right_def Let_def)
  have cl: "clamp_cursor U ((clamp_cursor U f)\<lparr>cursor_byte := ?n\<rparr>) = (clamp_cursor U f)\<lparr>cursor_byte := ?n\<rparr>"
    by (rule clamp_boundary) (use n(1) in simp)
  have "move_left U ((clamp_cursor U f)\<lparr>cursor_byte := ?n\<rparr>) = (clamp_cursor U f, True)"
    unfolding move_left_def cl using n by simp
  moreover have "erase_left U ((clamp_cursor U f)\<lparr>cursor_byte := ?n\<rparr>) = erase_right U f"
    unfolding erase_left_def erase_right_def cl using n assms by (simp add: Let_def field_eta)
  ultimately show ?thesis using mr assms by (simp add: erase_right_def Let_def)
qed

theorem move_and_erase_agree_witness:
  "erase_left sample_table (fst (move_right sample_table \<lparr>tf_text = [0x41, 0x42], cursor_byte = 0\<rparr>))
    = erase_right sample_table \<lparr>tf_text = [0x41, 0x42], cursor_byte = 0\<rparr>"
proof -
  have "clamp_cursor sample_table \<lparr>tf_text = [0x41, 0x42], cursor_byte = 0\<rparr> = \<lparr>tf_text = [0x41, 0x42], cursor_byte = 0\<rparr>"
    by (rule clamp_boundary) (simp add: boundary_start)
  then show ?thesis using move_and_erase_agree [of sample_table "\<lparr>tf_text = [0x41, 0x42], cursor_byte = 0\<rparr>"] by simp
qed

text \<open>Scrolling: when any column is left beside the prefix, the cursor of a focused field is drawn
  inside the field, at its distance from the scroll position; the clamp to the last column
  never changes it.\<close>

theorem cursor_stays_visible:
  assumes "display_width U prefix < total_w"
  shows "\<exists>scroll. scroll \<le> cursor_cell U f \<and> cursor_cell U f < scroll + (total_w - display_width U prefix)
    \<and> fv_cursor (field_view U prefix placeholder True total_w f) = Some (display_width U prefix + (cursor_cell U f - scroll))
    \<and> display_width U prefix + (cursor_cell U f - scroll) < total_w"
proof -
  let ?w = "total_w - display_width U prefix" let ?s = "scroll_for_cursor (cursor_cell U f) ?w"
  have s: "?s \<le> cursor_cell U f" "cursor_cell U f < ?s + ?w" using assms by (auto simp: scroll_for_cursor_def)
  then have l: "display_width U prefix + (cursor_cell U f - ?s) < total_w" using assms by linarith
  have "fv_cursor (field_view U prefix placeholder True total_w f) = Some (min (display_width U prefix + (cursor_cell U f - ?s)) (total_w - 1))"
    using assms min_absorb1 [OF less_imp_le [OF assms]] by (simp add: field_view_def Let_def cursor_cell_def)
  also have "\<dots> = Some (display_width U prefix + (cursor_cell U f - ?s))" using l by simp
  finally show ?thesis using s l by blast
qed

theorem cursor_stays_visible_witness:
  "\<exists>scroll. scroll \<le> cursor_cell sample_table \<lparr>tf_text = [0x41, 0x42], cursor_byte = 2\<rparr>
    \<and> cursor_cell sample_table \<lparr>tf_text = [0x41, 0x42], cursor_byte = 2\<rparr> < scroll + 1"
proof -
  have "display_width sample_table [] < 1" by (simp add: display_width_def display_from.simps)
  from cursor_stays_visible [OF this, of "\<lparr>tf_text = [0x41, 0x42], cursor_byte = 2\<rparr>" "[]"]
  show ?thesis by (auto simp: display_width_def display_from.simps)
qed

end
