(* ===== verification/Wisp_Printer.thy ===== *)
theory Wisp_Printer
  imports Wisp_Heap "HOL-Library.Multiset"
begin

text \<open>
  The compact printer of the Wisp machine, \<^verbatim>\<open>src/wisp/printer.cpp\<close>: a stack of pending commands,
  the set of objects on the current path, and the text written so far.  A read through a bad
  pointer or past the end of a record returns \<open>Inl\<close>, as in \<open>Wisp_Heap\<close>.  The loop of \<^verbatim>\<open>run\<close> is
  a partial function, so that its termination is a theorem.
\<close>

section \<open>Model\<close>

definition ascii :: "string \<Rightarrow> bytes" where
  "ascii s = map of_char s"

text \<open>\<^verbatim>\<open>std::to_string\<close>.\<close>

fun decimal_digits :: "nat \<Rightarrow> bytes" where
  "decimal_digits n = (if n < 10 then [0x30 + of_nat n] else decimal_digits (n div 10) @ [0x30 + of_nat (n mod 10)])"

declare decimal_digits.simps [simp del]

definition to_string :: "int \<Rightarrow> bytes" where
  "to_string i = (if i < 0 then 0x2d # decimal_digits (nat (- i)) else decimal_digits (nat i))"

datatype command = C_value wword | C_tail wword | C_elements wword nat | C_leave wword | C_close_list

record printer =
  pr_out :: bytes
  pr_pending :: "command list"
  pr_active :: "wword list"

definition emit :: "bytes \<Rightarrow> printer \<Rightarrow> printer" where
  "emit s p = p\<lparr>pr_out := pr_out p @ s\<rparr>"

definition push :: "command \<Rightarrow> printer \<Rightarrow> printer" where
  "push c p = p\<lparr>pr_pending := c # pr_pending p\<rparr>"

definition enter :: "wword \<Rightarrow> printer \<Rightarrow> bool \<times> printer" where
  "enter x p =
     (if x \<in> set (pr_active p) then (False, emit (ascii ''#<CYCLE>'') p)
      else (True, push (C_leave x) (p\<lparr>pr_active := x # pr_active p\<rparr>)))"

definition print_cons :: "heap \<Rightarrow> wword \<Rightarrow> printer \<Rightarrow> heap_error + printer" where
  "print_cons h x p =
     (case heap_read duo x h of
        Inl e \<Rightarrow> Inl e
      | Inr r \<Rightarrow> Inr (push (C_value (r ! 0)) (push (C_tail (r ! 1)) p)))"

fun escape :: "byte \<Rightarrow> bytes" where
  "escape c = (if c = 0x22 then [0x5c, 0x22] else if c = 0x5c then [0x5c, 0x5c] else if c = 0x0a then [0x5c, 0x6e] else [c])"

declare escape.simps [simp del]

definition print_string :: "bytes \<Rightarrow> printer \<Rightarrow> printer" where
  "print_string bs p = emit (0x22 # concat (map escape bs) @ [0x22]) p"

definition symbol_prefix :: "heap \<Rightarrow> wword \<Rightarrow> wword \<Rightarrow> heap_error + bytes" where
  "symbol_prefix h current package =
     (if package = nil then Inr (ascii ''#:'')
      else case heap_get pkg F_nam package h of
        Inl e \<Rightarrow> Inl e
      | Inr nam \<Rightarrow>
          (case v08slice nam h of
             Inl e \<Rightarrow> Inl e
           | Inr name \<Rightarrow>
               Inr (if name = ascii ''KEYWORD'' then ascii '':''
                    else if name \<noteq> ascii ''KEY'' \<and> (if current = nil then name \<noteq> ascii ''WISP'' else package \<noteq> current)
                    then name @ ascii '':'' else [])))"

definition symbol_name :: "heap \<Rightarrow> wword \<Rightarrow> heap_error + bytes" where
  "symbol_name h x = (case heap_get sym F_str x h of Inl e \<Rightarrow> Inl e | Inr s \<Rightarrow> v08slice s h)"

definition print_symbol :: "heap \<Rightarrow> wword \<Rightarrow> wword \<Rightarrow> printer \<Rightarrow> heap_error + printer" where
  "print_symbol h current x p =
     (case heap_get sym F_pkg x h of
        Inl e \<Rightarrow> Inl e
      | Inr package \<Rightarrow>
          (case symbol_prefix h current package of
             Inl e \<Rightarrow> Inl e
           | Inr pre \<Rightarrow> (case symbol_name h x of Inl e \<Rightarrow> Inl e | Inr name \<Rightarrow> Inr (emit (pre @ name) p))))"

definition print_function :: "heap \<Rightarrow> tag \<Rightarrow> wword \<Rightarrow> printer \<Rightarrow> heap_error + printer" where
  "print_function h T x p =
     (case heap_get T F_sym x h of
        Inl e \<Rightarrow> Inl e
      | Inr s \<Rightarrow>
          if s = nil then Inr (emit (ascii (if T = fun then ''#<ANONYMOUS-FUNCTION>'' else ''#<ANONYMOUS-MACRO>'')) p)
          else (case symbol_name h s of Inl e \<Rightarrow> Inl e | Inr name \<Rightarrow> Inr (emit ([0x23, 0x27] @ name) p)))"

definition diagnostic :: "string \<Rightarrow> u32 \<Rightarrow> printer \<Rightarrow> printer" where
  "diagnostic name payload p = emit (ascii ''#<'' @ ascii name @ [0x20] @ to_string (int (unat payload)) @ ascii ''>'') p"

definition word_at :: "wword list \<Rightarrow> nat \<Rightarrow> heap_error + wword" where
  "word_at xs i = (if i < length xs then Inr (xs ! i) else Inl Assertion)"

definition record_name :: "heap \<Rightarrow> wword \<Rightarrow> heap_error + wword" where
  "record_name h r =
     (case heap_words rec r h of
        Inl e \<Rightarrow> Inl e
      | Inr xs \<Rightarrow>
          (case word_at xs 0 of
             Inl e \<Rightarrow> Inl e
           | Inr type \<Rightarrow>
               if tag_of type = rec
               then (case heap_words rec type h of
                       Inl e \<Rightarrow> Inl e
                     | Inr ts \<Rightarrow> if length ts > 1 then Inr (ts ! 1) else Inr type)
               else Inr type))"

text \<open>The loop over the slot names: the list left, the cnt and the name found, or \<open>None\<close> when a
  name is not a symbol and the search gives up with \<^verbatim>\<open>nil\<close>.\<close>

function slot_scan :: "heap \<Rightarrow> nat \<Rightarrow> nat \<Rightarrow> wword \<Rightarrow> nat \<Rightarrow> wword \<Rightarrow> heap_error + (wword \<times> nat \<times> wword) option" where
  "slot_scan h sz slot names cnt found =
     (if tag_of names = duo \<and> cnt < sz then
        (case heap_read duo names h of
           Inl e \<Rightarrow> Inl e
         | Inr r \<Rightarrow>
             if tag_of (r ! 0) \<noteq> sym then Inr None
             else slot_scan h sz slot (r ! 1) (cnt + 1) (if cnt + 1 = slot then r ! 0 else found))
      else Inr (Some (names, cnt, found)))"
  by auto
termination by (relation "measure (\<lambda>(h, sz, slot, names, cnt, found). sz - cnt)") auto

definition slot_name :: "heap \<Rightarrow> wword \<Rightarrow> nat \<Rightarrow> heap_error + wword" where
  "slot_name h r slot =
     (case heap_words rec r h of
        Inl e \<Rightarrow> Inl e
      | Inr xs \<Rightarrow>
          (case word_at xs 0 of
             Inl e \<Rightarrow> Inl e
           | Inr type \<Rightarrow>
               if tag_of type \<noteq> rec then Inr nil
               else (case heap_words rec type h of
                       Inl e \<Rightarrow> Inl e
                     | Inr ts \<Rightarrow>
                         if length ts < 3 then Inr nil
                         else (case slot_scan h (length xs) slot (ts ! 2) 0 nil of
                                 Inl e \<Rightarrow> Inl e
                               | Inr None \<Rightarrow> Inr nil
                               | Inr (Some (names, cnt, found)) \<Rightarrow>
                                   Inr (if names = nil \<and> cnt + 1 = length xs then found else nil)))))"

definition field_name :: "field \<Rightarrow> bytes" where
  "field_name F = ascii
     (case F of F_car \<Rightarrow> ''car'' | F_cdr \<Rightarrow> ''cdr'' | F_str \<Rightarrow> ''str'' | F_pkg \<Rightarrow> ''pkg'' | F_val \<Rightarrow> ''val'' | F_fun \<Rightarrow> ''fun''
      | F_dyn \<Rightarrow> ''dyn'' | F_env \<Rightarrow> ''env'' | F_par \<Rightarrow> ''par'' | F_exp \<Rightarrow> ''exp'' | F_sym \<Rightarrow> ''sym'' | F_cnt \<Rightarrow> ''cnt''
      | F_idx \<Rightarrow> ''idx'' | F_len \<Rightarrow> ''len'' | F_nam \<Rightarrow> ''nam'' | F_use \<Rightarrow> ''use'' | F_hop \<Rightarrow> ''hop'' | F_acc \<Rightarrow> ''acc''
      | F_arg \<Rightarrow> ''arg'' | F_err \<Rightarrow> ''err'' | F_way \<Rightarrow> ''way'' | F_meta \<Rightarrow> ''meta'')"

definition print_fields :: "heap \<Rightarrow> tag \<Rightarrow> wword \<Rightarrow> nat \<Rightarrow> printer \<Rightarrow> heap_error + printer" where
  "print_fields h T x i p =
     (if i = width T then Inr p
      else case heap_read T x h of
        Inl e \<Rightarrow> Inl e
      | Inr r \<Rightarrow>
          if i < width T
          then Inr (push (C_value (r ! i)) (push (C_elements x (i + 1)) (emit ([0x20] @ field_name (fst (schema T ! i)) @ [0x3d]) p)))
          else Inl Assertion)"

definition print_value :: "heap \<Rightarrow> wword \<Rightarrow> wword \<Rightarrow> printer \<Rightarrow> heap_error + printer" where
  "print_value h current x p =
     (case tag_of x of
        integer \<Rightarrow> Inr (emit (to_string (integer_of x)) p)
      | sys \<Rightarrow>
          Inr (if x = nil then emit (ascii ''NIL'') p
               else if x = w_t then emit (ascii ''T'') p
               else if x = nah then emit (ascii ''#<NAH>'') p
               else if x = w_top then emit (ascii ''#<TOP>'') p
               else if x = zap then emit (ascii ''#<ZAP>'') p
               else diagnostic ''sys'' (payload_of x) p)
      | sym \<Rightarrow> print_symbol h current x p
      | v08 \<Rightarrow> (case v08slice x h of Inl e \<Rightarrow> Inl e | Inr bs \<Rightarrow> Inr (print_string bs p))
      | duo \<Rightarrow>
          (case enter x p of
             (False, p') \<Rightarrow> Inr p'
           | (True, p') \<Rightarrow> print_cons h x (push C_close_list (emit (ascii ''('') p')))
      | rec \<Rightarrow>
          (case enter x p of
             (False, p') \<Rightarrow> Inr p'
           | (True, p') \<Rightarrow>
               (case record_name h x of
                  Inl e \<Rightarrow> Inl e
                | Inr name \<Rightarrow> Inr (push (C_value name) (push (C_elements x 1) (emit (ascii ''#S('') p')))))
      | v32 \<Rightarrow>
          (case enter x p of (False, p') \<Rightarrow> Inr p' | (True, p') \<Rightarrow> Inr (push (C_elements x 0) (emit (ascii ''#<'') p')))
      | ktx \<Rightarrow>
          (case enter x p of (False, p') \<Rightarrow> Inr p' | (True, p') \<Rightarrow> Inr (push (C_elements x 0) (emit (ascii ''<%ktx'') p')))
      | run \<Rightarrow>
          (case enter x p of (False, p') \<Rightarrow> Inr p' | (True, p') \<Rightarrow> Inr (push (C_elements x 0) (emit (ascii ''<run'') p')))
      | pkg \<Rightarrow> Inr (emit (ascii ''<package>'') p)
      | fun \<Rightarrow> print_function h fun x p
      | mac \<Rightarrow> print_function h mac x p
      | ext \<Rightarrow> (case heap_get ext F_idx x h of Inl e \<Rightarrow> Inl e | Inr i \<Rightarrow> Inr (diagnostic ''ext'' i p))
      | jet \<Rightarrow> Inr (diagnostic ''jet'' (payload_of x) p)
      | chr \<Rightarrow> Inr (diagnostic ''chr'' (payload_of x) p)
      | pin \<Rightarrow> Inr (diagnostic ''pin'' (payload_of x) p)
      | unnamed \<Rightarrow> Inr (diagnostic ''word'' x p))"

definition print_tail :: "heap \<Rightarrow> wword \<Rightarrow> printer \<Rightarrow> heap_error + printer" where
  "print_tail h y p =
     (if tag_of y = duo then
        if y \<in> set (pr_active p) then Inr (emit (ascii '' . #<CYCLE>'') p)
        else print_cons h y (snd (enter y (emit (ascii '' '') p)))
      else if y \<noteq> nil then Inr (push (C_value y) (emit (ascii '' . '') p))
      else Inr p)"

definition print_elements :: "heap \<Rightarrow> wword \<Rightarrow> nat \<Rightarrow> printer \<Rightarrow> heap_error + printer" where
  "print_elements h y i p =
     (if tag_of y = rec then
        (case heap_words rec y h of
           Inl e \<Rightarrow> Inl e
         | Inr xs \<Rightarrow>
             if i = length xs then Inr p
             else (case slot_name h y i of
                     Inl e \<Rightarrow> Inl e
                   | Inr name \<Rightarrow>
                       (case (if name \<noteq> nil then map_sum id (\<lambda>n. ascii '':'' @ n @ ascii '' '') (symbol_name h name) else Inr []) of
                          Inl e \<Rightarrow> Inl e
                        | Inr label \<Rightarrow>
                            (case word_at xs i of
                               Inl e \<Rightarrow> Inl e
                             | Inr x \<Rightarrow> Inr (push (C_value x) (push (C_elements y (i + 1)) (emit (ascii '' '' @ label) p)))))))
      else if tag_of y = v32 then
        (case v32slice y h of
           Inl e \<Rightarrow> Inl e
         | Inr xs \<Rightarrow>
             if i = length xs then Inr p
             else (case word_at xs i of
                     Inl e \<Rightarrow> Inl e
                   | Inr x \<Rightarrow>
                       Inr (push (C_value x) (push (C_elements y (i + 1)) (if i \<noteq> 0 then emit (ascii '' '') p else p)))))
      else if tag_of y = ktx then print_fields h ktx y i p
      else print_fields h run y i p)"

definition print_leave :: "wword \<Rightarrow> printer \<Rightarrow> printer" where
  "print_leave y p =
     (let p = p\<lparr>pr_active := removeAll y (pr_active p)\<rparr>
      in if tag_of y = rec then emit (ascii '')'') p
         else if tag_of y \<noteq> duo then emit (ascii ''>'') p else p)"

definition print_command :: "heap \<Rightarrow> wword \<Rightarrow> command \<Rightarrow> printer \<Rightarrow> heap_error + printer" where
  "print_command h current c p =
     (case c of
        C_value y \<Rightarrow> print_value h current y p
      | C_tail y \<Rightarrow> print_tail h y p
      | C_elements y i \<Rightarrow> print_elements h y i p
      | C_leave y \<Rightarrow> Inr (print_leave y p)
      | C_close_list \<Rightarrow> Inr (emit (ascii '')'') p))"

partial_function (option) print_run :: "heap \<Rightarrow> wword \<Rightarrow> printer \<Rightarrow> (heap_error + bytes) option" where
  "print_run h current p =
     (case pr_pending p of
        [] \<Rightarrow> Some (Inr (pr_out p))
      | c # cs \<Rightarrow>
          (case print_command h current c (p\<lparr>pr_pending := cs\<rparr>) of
             Inl e \<Rightarrow> Some (Inl e)
           | Inr p' \<Rightarrow> print_run h current p'))"

declare print_run.simps [code]

definition print_word :: "heap \<Rightarrow> wword \<Rightarrow> wword \<Rightarrow> (heap_error + bytes) option" where
  "print_word h x current = print_run h current \<lparr>pr_out = [], pr_pending = [C_value x], pr_active = []\<rparr>"

section \<open>Termination\<close>

text \<open>A pending command ranks by the objects not yet on the path when its turn comes, then by its
  kind, then by the elements it still has to print.\<close>

type_synonym rank = "nat \<times> nat \<times> nat"

definition rank_less :: "(rank \<times> rank) set" where
  "rank_less = less_than <*lex*> less_than <*lex*> less_than"

lemma rank_less_iff [simp]:
  "((a, b, c), (a', b', c')) \<in> rank_less \<longleftrightarrow> a < a' \<or> a = a' \<and> (b < b' \<or> b = b' \<and> c < c')"
  by (simp add: rank_less_def)

lemma wf_rank_less: "wf rank_less"
  by (simp add: rank_less_def wf_lex_prod)

definition unvisited :: "wword list \<Rightarrow> nat" where
  "unvisited A = card (UNIV - set A :: wword set)"

lemma unvisited_enter: "x \<notin> set A \<Longrightarrow> unvisited (x # A) < unvisited A"
  unfolding unvisited_def by (rule psubset_card_mono) auto

definition element_limit :: "heap \<Rightarrow> wword \<Rightarrow> nat" where
  "element_limit h y =
     (if tag_of y = rec then (case heap_words rec y h of Inl _ \<Rightarrow> 0 | Inr xs \<Rightarrow> length xs)
      else if tag_of y = v32 then (case v32slice y h of Inl _ \<Rightarrow> 0 | Inr xs \<Rightarrow> length xs)
      else if tag_of y = ktx then width ktx else width run)"

fun rank_of :: "heap \<Rightarrow> wword list \<Rightarrow> command \<Rightarrow> rank" where
  "rank_of h A (C_value _) = (unvisited A, 1, 0)"
| "rank_of h A (C_tail _) = (unvisited A, 2, 0)"
| "rank_of h A (C_elements y i) = (unvisited A, 2, element_limit h y - i)"
| "rank_of h A (C_leave _) = (0, 0, 0)"
| "rank_of h A C_close_list = (0, 0, 0)"

fun ranks :: "heap \<Rightarrow> wword list \<Rightarrow> command list \<Rightarrow> rank multiset" where
  "ranks h A [] = {#}"
| "ranks h A (C_leave y # cs) = {#(0, 0, 0)#} + ranks h (removeAll y A) cs"
| "ranks h A (c # cs) = {#rank_of h A c#} + ranks h A cs"

definition measure_of :: "heap \<Rightarrow> printer \<Rightarrow> rank multiset" where
  "measure_of h p = ranks h (pr_active p) (pr_pending p)"

text \<open>A command is spent on smaller ones.\<close>

definition spends :: "heap \<Rightarrow> rank \<Rightarrow> rank multiset \<Rightarrow> printer \<Rightarrow> bool" where
  "spends h a R p' \<longleftrightarrow> (\<exists>K. measure_of h p' = R + K \<and> (\<forall>k \<in> set_mset K. (k, a) \<in> rank_less))"

lemma spends_mult: "spends h a R p' \<Longrightarrow> (measure_of h p', R + {#a#}) \<in> mult rank_less"
  unfolding spends_def using one_step_implies_mult [of "{#a#}" _ rank_less R] by auto

lemma spendsI: "measure_of h p' = R + K \<Longrightarrow> \<forall>k \<in> set_mset K. (k, a) \<in> rank_less \<Longrightarrow> spends h a R p'"
  unfolding spends_def by blast

lemma printer_simps [simp]:
  "pr_pending (emit s p) = pr_pending p" "pr_active (emit s p) = pr_active p"
  "pr_pending (push c p) = c # pr_pending p" "pr_active (push c p) = pr_active p"
  "pr_out (push c p) = pr_out p" "pr_out (emit s p) = pr_out p @ s"
  by (simp_all add: emit_def push_def)

lemma spends_nothing: "measure_of h p' = R \<Longrightarrow> spends h a R p'"
  by (rule spendsI [of _ _ _ "{#}"]) simp_all

lemma enter_fresh:
  "x \<notin> set (pr_active p) \<Longrightarrow> enter x p = (True, push (C_leave x) (p\<lparr>pr_active := x # pr_active p\<rparr>))"
  by (simp add: enter_def)

lemma enter_cycle: "x \<in> set (pr_active p) \<Longrightarrow> enter x p = (False, emit (ascii ''#<CYCLE>'') p)"
  by (simp add: enter_def)

text \<open>Entering an object: the commands it pushes rank below whatever entered it.\<close>

lemma ranks_step [simp]: "\<forall>y. c \<noteq> C_leave y \<Longrightarrow> ranks h A (c # cs) = {#rank_of h A c#} + ranks h A cs"
  by (cases c) simp_all

lemma spends_enter:
  assumes fresh: "x \<notin> set (pr_active p)" and p': "pr_active p' = x # pr_active p" "pr_pending p' = cs @ C_leave x # pr_pending p"
    and cs: "\<forall>c \<in> set cs. \<forall>y. c \<noteq> C_leave y" and a: "a = (unvisited (pr_active p), Suc k, n)"
  shows "spends h a (measure_of h p) p'"
proof (rule spendsI)
  have r: "ranks h B (cs @ C_leave x # ds) = mset (map (rank_of h B) cs) + {#(0, 0, 0)#} + ranks h (removeAll x B) ds" for B ds
    using cs by (induction cs) simp_all
  show "measure_of h p' = measure_of h p + (mset (map (rank_of h (x # pr_active p)) cs) + {#(0, 0, 0)#})"
    using fresh p' by (simp add: measure_of_def r)
  have "(rank_of h (x # pr_active p) c, a) \<in> rank_less" if "c \<in> set cs" for c
    using unvisited_enter [OF fresh] a by (cases c) simp_all
  then show "\<forall>k \<in> set_mset (mset (map (rank_of h (x # pr_active p)) cs) + {#(0, 0, 0)#}). (k, a) \<in> rank_less"
    using a by auto
qed

lemma spends_push:
  assumes "pr_active p' = pr_active p" "pr_pending p' = cs @ pr_pending p" "\<forall>c \<in> set cs. (\<forall>y. c \<noteq> C_leave y) \<and> (rank_of h (pr_active p) c, a) \<in> rank_less"
  shows "spends h a (measure_of h p) p'"
proof (rule spendsI)
  have "ranks h B (cs @ ds) = mset (map (rank_of h B) cs) + ranks h B ds" for B ds
    using assms(3) by (induction cs) simp_all
  then show "measure_of h p' = measure_of h p + mset (map (rank_of h (pr_active p)) cs)"
    using assms(1,2) by (simp add: measure_of_def)
  show "\<forall>k \<in> set_mset (mset (map (rank_of h (pr_active p)) cs)). (k, a) \<in> rank_less" using assms(3) by auto
qed

lemma spends_emit: "pr_active p' = pr_active p \<Longrightarrow> pr_pending p' = pr_pending p \<Longrightarrow> spends h a (measure_of h p) p'"
  by (rule spends_nothing) (simp add: measure_of_def)

lemma print_cons_Inr:
  "print_cons h x p = Inr p' \<Longrightarrow> \<exists>r. p' = push (C_value (r ! 0)) (push (C_tail (r ! 1)) p)"
  by (auto simp: print_cons_def split: sum.splits)

lemma emits_only:
  "print_symbol h current x p = Inr p' \<Longrightarrow> pr_active p' = pr_active p \<and> pr_pending p' = pr_pending p"
  "print_function h T x p = Inr p' \<Longrightarrow> pr_active p' = pr_active p \<and> pr_pending p' = pr_pending p"
  "pr_active (diagnostic s w p) = pr_active p" "pr_pending (diagnostic s w p) = pr_pending p"
  "pr_active (print_string bs p) = pr_active p" "pr_pending (print_string bs p) = pr_pending p"
  by (auto simp: print_symbol_def print_function_def diagnostic_def print_string_def split: sum.splits if_splits)

lemma value_spends:
  assumes "print_value h current x p = Inr p'"
  shows "spends h (unvisited (pr_active p), 1, 0) (measure_of h p) p'"
proof (cases "tag_of x \<in> {duo, rec, v32, ktx, run}")
  case True
  show ?thesis
  proof (cases "x \<in> set (pr_active p)")
    case cyc: True
    then have "p' = emit (ascii ''#<CYCLE>'') p" using assms True by (auto simp: print_value_def enter_cycle)
    then show ?thesis by (intro spends_emit) simp_all
  next
    case False
    have "\<exists>cs. pr_active p' = x # pr_active p \<and> pr_pending p' = cs @ C_leave x # pr_pending p \<and> (\<forall>c \<in> set cs. \<forall>y. c \<noteq> C_leave y)"
    proof (cases "tag_of x = duo")
      case True
      obtain r where "p' = push (C_value (r ! 0)) (push (C_tail (r ! 1)) (push C_close_list (emit (ascii ''('') (snd (enter x p)))))"
        using assms True print_cons_Inr by (fastforce simp: print_value_def enter_fresh [OF False])
      then show ?thesis by (intro exI [of _ "[C_value (r ! 0), C_tail (r ! 1), C_close_list]"]) (simp add: enter_fresh [OF False])
    next
      case nd: False
      show ?thesis
      proof (cases "tag_of x = rec")
        case True
        then obtain name where "p' = push (C_value name) (push (C_elements x 1) (emit (ascii ''#S('') (snd (enter x p))))"
          using assms by (auto simp: print_value_def enter_fresh [OF False] split: sum.splits)
        then show ?thesis by (intro exI [of _ "[C_value name, C_elements x 1]"]) (simp add: enter_fresh [OF False])
      next
        case nr: False
        then have "\<exists>s. p' = push (C_elements x 0) (emit s (snd (enter x p)))"
          using assms True nd by (auto simp: print_value_def enter_fresh [OF False])
        then show ?thesis by (intro exI [of _ "[C_elements x 0]"]) (auto simp: enter_fresh [OF False])
      qed
    qed
    then obtain cs where "pr_active p' = x # pr_active p" "pr_pending p' = cs @ C_leave x # pr_pending p" "\<forall>c \<in> set cs. \<forall>y. c \<noteq> C_leave y"
      by blast
    from spends_enter [OF False this, of _ 0 0 h] show ?thesis by simp
  qed
next
  case False
  then have "pr_active p' = pr_active p \<and> pr_pending p' = pr_pending p"
    using assms by (cases "tag_of x") (auto simp: print_value_def emits_only split: sum.splits if_splits)
  then show ?thesis by (intro spends_emit) simp_all
qed

lemma tail_spends:
  assumes "print_tail h y p = Inr p'"
  shows "spends h (unvisited (pr_active p), 2, 0) (measure_of h p) p'"
proof (cases "tag_of y = duo \<and> y \<notin> set (pr_active p)")
  case True
  then have f: "y \<notin> set (pr_active (emit (ascii '' '') p))" by simp
  obtain r where "p' = push (C_value (r ! 0)) (push (C_tail (r ! 1)) (snd (enter y (emit (ascii '' '') p))))"
    using assms True print_cons_Inr by (fastforce simp: print_tail_def)
  then have p': "pr_active p' = y # pr_active p" "pr_pending p' = [C_value (r ! 0), C_tail (r ! 1)] @ C_leave y # pr_pending p"
    by (simp_all add: enter_fresh [OF f])
  show ?thesis
    by (rule spends_enter [OF _ p', of _ 1 0]) (use True in simp_all)
next
  case False
  show ?thesis
  proof (cases "tag_of y \<noteq> duo \<and> y \<noteq> nil")
    case True
    then have "p' = push (C_value y) (emit (ascii '' . '') p)" using assms by (simp add: print_tail_def)
    then show ?thesis by (intro spends_push [of _ _ "[C_value y]"]) simp_all
  next
    case nil: False
    then have "pr_active p' = pr_active p \<and> pr_pending p' = pr_pending p" using assms False by (auto simp: print_tail_def split: if_splits)
    then show ?thesis by (intro spends_emit) simp_all
  qed
qed

lemma elements_Inr:
  assumes "print_elements h y i p = Inr p'"
  shows "p' = p \<or> i < element_limit h y \<and> (\<exists>x s. p' = push (C_value x) (push (C_elements y (i + 1)) (emit s p)))"
proof -
  have e: "(if i \<noteq> 0 then emit s p else p) = emit (if i \<noteq> 0 then s else []) p" for s by (simp add: emit_def)
  consider "tag_of y = rec" | "tag_of y = v32" | "tag_of y = ktx" | "tag_of y \<notin> {rec, v32, ktx}" by blast
  then show ?thesis
  proof cases
    case 1
    then show ?thesis using assms
      by (auto simp: print_elements_def element_limit_def word_at_def split: sum.splits if_splits)
  next
    case 2
    then obtain xs where xs: "v32slice y h = Inr xs" using assms by (auto simp: print_elements_def split: sum.splits)
    then show ?thesis using assms 2 unfolding print_elements_def e
      by (cases "i < length xs") (auto simp: element_limit_def word_at_def split: if_splits simp del: if_cancel)
  next
    case 3
    then show ?thesis using assms
      by (auto simp: print_elements_def element_limit_def print_fields_def split: sum.splits if_splits)
  next
    case 4
    then show ?thesis using assms
      by (auto simp: print_elements_def element_limit_def print_fields_def split: sum.splits if_splits)
  qed
qed

lemma elements_spends:
  assumes "print_elements h y i p = Inr p'"
  shows "spends h (unvisited (pr_active p), 2, element_limit h y - i) (measure_of h p) p'"
proof (cases "p' = p")
  case False
  then obtain x s where i: "i < element_limit h y" and "p' = push (C_value x) (push (C_elements y (i + 1)) (emit s p))"
    using elements_Inr [OF assms] by blast
  then show ?thesis by (intro spends_push [of _ _ "[C_value x, C_elements y (i + 1)]"]) auto
qed (intro spends_emit; simp)

lemma command_decreases:
  assumes "pr_pending p = c # cs" "print_command h current c (p\<lparr>pr_pending := cs\<rparr>) = Inr p'"
  shows "(measure_of h p', measure_of h p) \<in> mult rank_less"
proof (cases "\<exists>y. c = C_leave y")
  case True
  then obtain y where c: "c = C_leave y" by blast
  have "measure_of h p' = ranks h (removeAll y (pr_active p)) cs"
    using assms(2) c by (auto simp: print_command_def print_leave_def measure_of_def Let_def)
  moreover have "measure_of h p = ranks h (removeAll y (pr_active p)) cs + {#(0, 0, 0)#}"
    using assms(1) c by (simp add: measure_of_def)
  ultimately show ?thesis using spends_mult [OF spends_nothing, of h p'] by simp
next
  case False
  let ?q = "p\<lparr>pr_pending := cs\<rparr>"
  have m: "measure_of h p = measure_of h ?q + {#rank_of h (pr_active p) c#}" using assms(1) False by (simp add: measure_of_def)
  have "spends h (rank_of h (pr_active p) c) (measure_of h ?q) p'"
  proof (cases c)
    case (C_value y)
    then show ?thesis using value_spends [of h current y ?q p'] assms(2) by (simp add: print_command_def)
  next
    case (C_tail y)
    then show ?thesis using tail_spends [of h y ?q p'] assms(2) by (simp add: print_command_def)
  next
    case (C_elements y i)
    then show ?thesis using elements_spends [of h y i ?q p'] assms(2) by (simp add: print_command_def)
  next
    case C_close_list
    then show ?thesis using assms(2) by (auto simp: print_command_def intro: spends_emit)
  qed (use False in simp)
  then show ?thesis unfolding m by (rule spends_mult)
qed

lemma run_terminates: "\<exists>r. print_run h current p = Some r"
proof (induction p rule: wf_induct_rule [OF wf_inv_image [OF wf_mult [OF wf_rank_less], of "measure_of h"]])
  case (1 p)
  show ?case
  proof (cases "pr_pending p")
    case Nil
    then show ?thesis by (subst print_run.simps) simp
  next
    case (Cons c cs)
    show ?thesis
    proof (cases "print_command h current c (p\<lparr>pr_pending := cs\<rparr>)")
      case (Inl e)
      then show ?thesis using Cons by (subst print_run.simps) simp
    next
      case (Inr p')
      have "(p', p) \<in> inv_image (mult rank_less) (measure_of h)" using command_decreases [OF Cons Inr] by simp
      then show ?thesis using 1 [of p'] Cons Inr by (subst print_run.simps) simp
    qed
  qed
qed

section \<open>Printing a tree\<close>

text \<open>The data a program is written in, and what it means for a word to denote such a value.\<close>

datatype sexp = S_nil | S_true | S_int int | S_string bytes | S_symbol wword bytes | S_cons sexp sexp

inductive denotes :: "heap \<Rightarrow> wword \<Rightarrow> wword \<Rightarrow> sexp \<Rightarrow> bool" for h current where
  denotes_nil: "denotes h current nil S_nil"
| denotes_true: "denotes h current w_t S_true"
| denotes_int: "tag_of x = integer \<Longrightarrow> denotes h current x (S_int (integer_of x))"
| denotes_string: "tag_of x = v08 \<Longrightarrow> v08slice x h = Inr bs \<Longrightarrow> denotes h current x (S_string bs)"
| denotes_symbol: "tag_of x = sym \<Longrightarrow> heap_get sym F_pkg x h = Inr package \<Longrightarrow> symbol_prefix h current package = Inr []
    \<Longrightarrow> symbol_name h x = Inr name \<Longrightarrow> denotes h current x (S_symbol x name)"
| denotes_cons: "tag_of x = duo \<Longrightarrow> heap_read duo x h = Inr [a, d] \<Longrightarrow> denotes h current a s \<Longrightarrow> denotes h current d t
    \<Longrightarrow> denotes h current x (S_cons s t)"

fun show_sexp :: "sexp \<Rightarrow> bytes" and show_tail :: "sexp \<Rightarrow> bytes" where
  "show_sexp S_nil = ascii ''NIL''"
| "show_sexp S_true = ascii ''T''"
| "show_sexp (S_int i) = to_string i"
| "show_sexp (S_string bs) = 0x22 # concat (map escape bs) @ [0x22]"
| "show_sexp (S_symbol _ name) = name"
| "show_sexp (S_cons s t) = ascii ''('' @ show_sexp s @ show_tail t @ ascii '')''"
| "show_tail S_nil = []"
| "show_tail (S_cons s t) = ascii '' '' @ show_sexp s @ show_tail t"
| "show_tail s = ascii '' . '' @ show_sexp s"

lemma run_step:
  "print_command h current c \<lparr>pr_out = o', pr_pending = cs, pr_active = A\<rparr> = Inr p' \<Longrightarrow>
   print_run h current \<lparr>pr_out = o', pr_pending = c # cs, pr_active = A\<rparr> = print_run h current p'"
  by (subst print_run.simps) simp

lemma sys_words: "tag_of nil = sys" "tag_of w_t = sys" "w_t \<noteq> nil" "nil \<noteq> w_t"
  by (simp_all add: nil_def w_t_def immediate_def tag_of_def tag_of_code_def)

inductive_cases denotes_consE: "denotes h current x (S_cons s t)"

lemma denotes_unique: "denotes h current x s \<Longrightarrow> denotes h current x s' \<Longrightarrow> s = s'"
proof (induction arbitrary: s' rule: denotes.induct)
  case (denotes_cons x a d s t)
  from denotes_cons(7,1,2,5,6) show ?case by (auto elim: denotes.cases simp: sys_words)
qed (auto elim: denotes.cases simp: sys_words)

text \<open>Nothing on the path denotes a value as small as the one to print, so no edge is a cycle.\<close>

definition path_above :: "heap \<Rightarrow> wword \<Rightarrow> wword list \<Rightarrow> sexp \<Rightarrow> bool" where
  "path_above h current A s \<longleftrightarrow> (\<forall>a \<in> set A. \<forall>s'. denotes h current a s' \<longrightarrow> size s < size s')"

lemma path_above_fresh: "path_above h current A s \<Longrightarrow> denotes h current x s \<Longrightarrow> x \<notin> set A"
  unfolding path_above_def by blast

lemma path_above_enter:
  assumes "path_above h current A (S_cons s t)" "denotes h current x (S_cons s t)" "u = s \<or> u = t"
  shows "path_above h current (x # A) u"
  unfolding path_above_def
proof (intro ballI allI impI)
  fix a s' assume a: "a \<in> set (x # A)" "denotes h current a s'"
  have u: "size u < size (S_cons s t)" using assms(3) by auto
  show "size u < size s'"
  proof (cases "a = x")
    case True
    then have "s' = S_cons s t" using denotes_unique [OF assms(2)] a(2) by simp
    then show ?thesis using u by simp
  next
    case False
    then have "size (S_cons s t) < size s'" using assms(1) a unfolding path_above_def by (metis set_ConsD)
    then show ?thesis using u by linarith
  qed
qed

lemma run_atom:
  assumes "\<And>p. print_value h current x p = Inr (emit s p)"
  shows "print_run h current \<lparr>pr_out = o', pr_pending = C_value x # cs, pr_active = A\<rparr>
    = print_run h current \<lparr>pr_out = o' @ s, pr_pending = cs, pr_active = A\<rparr>"
  by (rule run_step) (simp add: print_command_def assms emit_def)

lemma run_atom_tail:
  assumes "\<And>p. print_value h current x p = Inr (emit s p)" "tag_of x \<noteq> duo" "x \<noteq> nil"
  shows "print_run h current \<lparr>pr_out = o', pr_pending = C_tail x # cs, pr_active = A\<rparr>
    = print_run h current \<lparr>pr_out = o' @ ascii '' . '' @ s, pr_pending = cs, pr_active = A\<rparr>"
proof -
  have "print_run h current \<lparr>pr_out = o', pr_pending = C_tail x # cs, pr_active = A\<rparr>
    = print_run h current \<lparr>pr_out = o' @ ascii '' . '', pr_pending = C_value x # cs, pr_active = A\<rparr>"
    by (rule run_step) (use assms(2,3) in \<open>simp add: print_command_def print_tail_def emit_def push_def\<close>)
  then show ?thesis using run_atom [OF assms(1)] by simp
qed

lemma run_leave_duo:
  assumes "x \<notin> set A" "tag_of x = duo"
  shows "print_run h current \<lparr>pr_out = o', pr_pending = C_leave x # cs, pr_active = x # A\<rparr>
    = print_run h current \<lparr>pr_out = o', pr_pending = cs, pr_active = A\<rparr>"
  by (rule run_step) (use assms in \<open>simp add: print_command_def print_leave_def Let_def\<close>)

lemma run_close:
  "print_run h current \<lparr>pr_out = o', pr_pending = C_close_list # cs, pr_active = A\<rparr>
    = print_run h current \<lparr>pr_out = o' @ ascii '')'', pr_pending = cs, pr_active = A\<rparr>"
  by (rule run_step) (simp add: print_command_def emit_def)

lemma run_tree:
  "denotes h current x s \<Longrightarrow> path_above h current A s \<Longrightarrow>
     print_run h current \<lparr>pr_out = o', pr_pending = C_value x # cs, pr_active = A\<rparr>
       = print_run h current \<lparr>pr_out = o' @ show_sexp s, pr_pending = cs, pr_active = A\<rparr>
   \<and> print_run h current \<lparr>pr_out = o', pr_pending = C_tail x # cs, pr_active = A\<rparr>
       = print_run h current \<lparr>pr_out = o' @ show_tail s, pr_pending = cs, pr_active = A\<rparr>"
proof (induction arbitrary: A o' cs rule: denotes.induct)
  case denotes_nil
  have "print_value h current nil p = Inr (emit (show_sexp S_nil) p)" for p by (simp add: print_value_def sys_words)
  moreover have "print_run h current \<lparr>pr_out = o', pr_pending = C_tail nil # cs, pr_active = A\<rparr>
    = print_run h current \<lparr>pr_out = o', pr_pending = cs, pr_active = A\<rparr>"
    by (rule run_step) (simp add: print_command_def print_tail_def sys_words)
  ultimately show ?case using run_atom by simp
next
  case denotes_true
  have "print_value h current w_t p = Inr (emit (show_sexp S_true) p)" for p by (simp add: print_value_def sys_words)
  then show ?case using run_atom run_atom_tail [of h current w_t] by (simp add: sys_words)
next
  case (denotes_int x)
  then have "print_value h current x p = Inr (emit (show_sexp (S_int (integer_of x))) p)" "x \<noteq> nil" for p
    using sys_words by (auto simp: print_value_def)
  then show ?case using denotes_int run_atom run_atom_tail [of h current x] by simp
next
  case (denotes_string x bs)
  then have "print_value h current x p = Inr (emit (show_sexp (S_string bs)) p)" "x \<noteq> nil" for p
    using sys_words by (auto simp: print_value_def print_string_def)
  then show ?case using denotes_string run_atom run_atom_tail [of h current x] by simp
next
  case (denotes_symbol x package name)
  then have "print_value h current x p = Inr (emit (show_sexp (S_symbol x name)) p)" "x \<noteq> nil" for p
    using sys_words by (auto simp: print_value_def print_symbol_def)
  then show ?case using denotes_symbol run_atom run_atom_tail [of h current x] by simp
next
  case (denotes_cons x a d s t)
  have dx: "denotes h current x (S_cons s t)" using denotes_cons(1-4) by (rule denotes.denotes_cons)
  have f: "x \<notin> set A" by (rule path_above_fresh [OF denotes_cons(7) dx])
  note as = path_above_enter [OF denotes_cons(7) dx, of s, simplified] and at = path_above_enter [OF denotes_cons(7) dx, of t, simplified]
  have body: "print_run h current \<lparr>pr_out = q, pr_pending = C_value a # C_tail d # ds, pr_active = x # A\<rparr>
      = print_run h current \<lparr>pr_out = q @ show_sexp s @ show_tail t, pr_pending = ds, pr_active = x # A\<rparr>" for q ds
    using denotes_cons(5) [OF as] denotes_cons(6) [OF at] by simp
  have "print_run h current \<lparr>pr_out = o', pr_pending = C_value x # cs, pr_active = A\<rparr>
      = print_run h current \<lparr>pr_out = o' @ ascii ''('', pr_pending = C_value a # C_tail d # C_close_list # C_leave x # cs, pr_active = x # A\<rparr>"
    by (rule run_step) (use denotes_cons(1,2) f in \<open>simp add: print_command_def print_value_def enter_def print_cons_def emit_def push_def\<close>)
  moreover have "print_run h current \<lparr>pr_out = o', pr_pending = C_tail x # cs, pr_active = A\<rparr>
      = print_run h current \<lparr>pr_out = o' @ ascii '' '', pr_pending = C_value a # C_tail d # C_leave x # cs, pr_active = x # A\<rparr>"
    by (rule run_step) (use denotes_cons(1,2) f in \<open>simp add: print_command_def print_tail_def enter_def print_cons_def emit_def push_def\<close>)
  ultimately show ?case by (simp add: body run_close run_leave_duo [OF f denotes_cons(1)])
qed

lemma print_tree:
  assumes "denotes h current x s"
  shows "print_word h x current = Some (Inr (show_sexp s))"
proof -
  have "path_above h current [] s" by (simp add: path_above_def)
  from run_tree [OF assms this, of "[]" "[]"] show ?thesis
    unfolding print_word_def by (simp add: print_run.simps)
qed

section \<open>Properties\<close>

text \<open>C25.  The printer always returns: on every heap, every word and every current package, cyclic structure
  included, the loop of \<^verbatim>\<open>run\<close> ends with the text or with an error.\<close>

theorem print_terminates: "\<exists>r. print_word h x current = Some r"
  unfolding print_word_def by (rule run_terminates)

end
