(* ===== verification/Wisp_Reader.thy ===== *)
theory Wisp_Reader
  imports Wisp_Printer Utf8proc
begin

text \<open>
  The reader of the Wisp machine, \<^verbatim>\<open>src/wisp/reader.cpp\<close>, and the package operations of the evaluator
  it calls (\<^verbatim>\<open>intern\<close>, \<^verbatim>\<open>keyword\<close>, \<^verbatim>\<open>find_package\<close> and \<^verbatim>\<open>define_package\<close> of \<^verbatim>\<open>src/wisp/eval.cpp\<close>).  The lexical
  operations take the source and a position and return the new position; the parser threads the
  heap as well.  A thrown exception is \<open>Inl\<close>.  The searches through package lists have no bound in
  the source, so they are partial functions: \<open>None\<close> is a search that never ends, on a cyclic list.
\<close>

section \<open>Model: characters\<close>

text \<open>\<^verbatim>\<open>read_error\<close>, an exception of the heap, or an \<^verbatim>\<open>std::invalid_argument\<close> that escapes.\<close>

datatype read_error = ReadError nat string | HeapError heap_error | Escaped string

definition digit :: "u32 \<Rightarrow> bool" where
  "digit c \<longleftrightarrow> c \<ge> 0x30 \<and> c \<le> 0x39"

definition symbol_ranges :: "(u32 \<times> u32) list" where
  "symbol_ranges =
     [(0x00c0, 0x02af), (0x0370, 0x03ff), (0x1f00, 0x1fff),
      (0x0400, 0x052f), (0x0530, 0x077f), (0x0900, 0x0d7f),
      (0x1e00, 0x1eff), (0x1d00, 0x1dbf), (0x1400, 0x167f),
      (0x1200, 0x137f), (0x13a0, 0x13ff), (0x16a0, 0x16ff),
      (0x10a0, 0x10ff), (0x1100, 0x11ff), (0x3040, 0x30ff),
      (0x31a0, 0x31ff), (0xac00, 0xd7a3), (0x4e00, 0x9fff),
      (0x3400, 0x4dbf), (0x2000, 0x206f), (0x20a0, 0x20cf),
      (0x2100, 0x218f), (0x2190, 0x21ff), (0x2200, 0x22ff),
      (0x2300, 0x23ff), (0x2460, 0x24ff), (0x25a0, 0x2bff),
      (0x1f300, 0x1f5ff), (0x1f600, 0x1f64f), (0x1f680, 0x1f6ff),
      (0x1f900, 0x1fad0), (0x1fa70, 0x1faff)]"

definition constituent :: "u32 \<Rightarrow> bool" where
  "constituent c =
     (if c < 128 then
        if c = 0x20 \<or> (c \<ge> 0x09 \<and> c \<le> 0x0d) then False
        else c \<notin> {0x28, 0x29, 0x5b, 0x5d, 0x7b, 0x7d, 0x22, 0x3b, 0x23, 0x60, 0x27, 0x2c}
      else (\<exists>(first, last) \<in> set symbol_ranges. c \<ge> first \<and> c \<le> last))"

definition source_location :: "bytes \<Rightarrow> bytes \<Rightarrow> nat \<Rightarrow> bytes option" where
  "source_location source path offset =
     (if offset > length source then None
      else
        let prefix = take offset source;
            line = 1 + length (filter (\<lambda>b. b = 0x0a) prefix);
            column = (if 0x0a \<in> set prefix then length (takeWhile (\<lambda>b. b \<noteq> 0x0a) (rev prefix)) + 1 else offset + 1)
        in Some (path @ [0x3a] @ decimal_digits line @ [0x3a] @ decimal_digits column))"

section \<open>Model: lexical operations\<close>

definition eof :: u32 where "eof = 0x110000"

definition lead_width :: "byte \<Rightarrow> nat" where
  "lead_width lead =
     (if lead \<ge> 0xc2 \<and> lead \<le> 0xdf then 2
      else if lead \<ge> 0xe0 \<and> lead \<le> 0xef then 3
      else if lead \<ge> 0xf0 \<and> lead \<le> 0xf4 then 4 else 0)"

fun continuation :: "bytes \<Rightarrow> u32 \<Rightarrow> u32 option" where
  "continuation [] c = Some c"
| "continuation (b # bs) c = (if b AND 0xc0 \<noteq> 0x80 then None else continuation bs (push_bit 6 c OR (ucast b AND 0x3f)))"

text \<open>The position never passes the end of the source; the comparison makes \<open>peek\<close> total.\<close>

definition peek :: "bytes \<Rightarrow> nat \<Rightarrow> read_error + u32" where
  "peek src pos =
     (if pos \<ge> length src then Inr eof
      else
        let lead = src ! pos in
        if lead < 0x80 then Inr (ucast lead)
        else
          let width = lead_width lead in
          if width = 0 \<or> length src - pos < width then Inl (ReadError pos ''invalid or truncated UTF-8'')
          else case continuation (take (width - 1) (drop (pos + 1) src)) (ucast lead AND drop_bit width 0x7f) of
            None \<Rightarrow> Inl (ReadError pos ''invalid UTF-8 continuation'')
          | Some c \<Rightarrow>
              if (width = 3 \<and> c < 0x800) \<or> (width = 4 \<and> c < 0x10000) \<or> (c \<ge> 0xd800 \<and> c \<le> 0xdfff) \<or> c > 0x10ffff
              then Inl (ReadError pos ''invalid UTF-8 scalar'') else Inr c)"

definition char_size :: "u32 \<Rightarrow> nat" where
  "char_size c = (if c < 0x80 then 1 else if c < 0x800 then 2 else if c < 0x10000 then 3 else 4)"

definition take_char :: "bytes \<Rightarrow> nat \<Rightarrow> read_error + u32 \<times> nat" where
  "take_char src pos =
     (case peek src pos of
        Inl e \<Rightarrow> Inl e
      | Inr c \<Rightarrow> if c = eof then Inl (ReadError pos ''unexpected EOF'') else Inr (c, pos + char_size c))"

lemma char_size_pos: "0 < char_size c"
  by (simp add: char_size_def)

lemma take_progress: "take_char src pos = Inr (c, pos') \<Longrightarrow> pos < pos' \<and> pos < length src"
  using char_size_pos by (auto simp: take_char_def peek_def split: sum.splits if_splits)

lemma take_measure: "take_char src pos = Inr (c, pos') \<Longrightarrow> length src - pos' < length src - pos"
  using take_progress by fastforce

function skip_comment :: "bytes \<Rightarrow> nat \<Rightarrow> read_error + nat" where
  "skip_comment src pos =
     (case peek src pos of
        Inl e \<Rightarrow> Inl e
      | Inr c \<Rightarrow>
          if c = eof then Inr pos
          else (case take_char src pos of
                  Inl e \<Rightarrow> Inl e
                | Inr (d, pos') \<Rightarrow> if d = 0x0a then Inr pos' else skip_comment src pos'))"
  by pat_completeness auto
termination by (relation "measure (\<lambda>(src, pos). length src - pos)") (auto intro: take_measure)

declare skip_comment.simps [simp del]

lemma skip_comment_le: "skip_comment src pos = Inr pos' \<Longrightarrow> pos \<le> pos'"
proof (induction src pos rule: skip_comment.induct)
  case (1 src pos)
  show ?case
  proof (cases "\<exists>c d q. peek src pos = Inr c \<and> c \<noteq> eof \<and> take_char src pos = Inr (d, q) \<and> d \<noteq> 0x0a")
    case True
    then obtain c d q where c: "peek src pos = Inr c" "c \<noteq> eof" "take_char src pos = Inr (d, q)" "d \<noteq> 0x0a" by blast
    then have "skip_comment src q = Inr pos'" using 1(2) by (subst (asm) skip_comment.simps) simp
    then show ?thesis using 1(1) [OF c(1,2,3) refl c(4)] take_progress [OF c(3)] by simp
  next
    case False
    then show ?thesis using 1(2)
      by (subst (asm) skip_comment.simps) (auto split: sum.splits if_splits prod.splits dest!: take_progress)
  qed
qed

lemma peek_in_range: "peek src pos = Inr c \<Longrightarrow> c \<noteq> eof \<Longrightarrow> pos < length src"
  by (auto simp: peek_def split: if_splits)

lemma skip_comment_progress:
  assumes "skip_comment src pos = Inr pos'" "peek src pos = Inr 0x3b"
  shows "pos < pos'" "pos < length src"
proof -
  have e: "(0x3b :: u32) \<noteq> eof" by (simp add: eof_def)
  then obtain q where t: "take_char src pos = Inr (0x3b, q)" using assms(2) by (simp add: take_char_def)
  then have "skip_comment src q = Inr pos'" using assms e by (subst (asm) skip_comment.simps) simp
  then show "pos < pos'" using skip_comment_le take_progress [OF t] by fastforce
  show "pos < length src" using peek_in_range [OF assms(2) e] .
qed

function space :: "bytes \<Rightarrow> nat \<Rightarrow> read_error + nat" where
  "space src pos =
     (case peek src pos of
        Inl e \<Rightarrow> Inl e
      | Inr c \<Rightarrow>
          if c = 0x20 \<or> c = 0x0a \<or> c = 0x0c then
            (case take_char src pos of Inl e \<Rightarrow> Inl e | Inr (_, pos') \<Rightarrow> space src pos')
          else if c = 0x3b then
            (case skip_comment src pos of Inl e \<Rightarrow> Inl e | Inr pos' \<Rightarrow> space src pos')
          else Inr pos)"
  by pat_completeness auto
termination
  by (relation "measure (\<lambda>(src, pos). length src - pos)")
    (auto dest: take_progress skip_comment_progress intro!: diff_less_mono2)

declare space.simps [simp del]

lemma space_le: "space src pos = Inr pos' \<Longrightarrow> pos \<le> pos'"
proof (induction src pos rule: space.induct)
  case (1 src pos)
  obtain c where c: "peek src pos = Inr c" using 1(3) by (subst (asm) space.simps) (auto split: sum.splits)
  consider "c = 0x20 \<or> c = 0x0a \<or> c = 0x0c" | "c = 0x3b" | "\<not> (c = 0x20 \<or> c = 0x0a \<or> c = 0x0c)" "c \<noteq> 0x3b" by blast
  then show ?case
  proof cases
    case w: 1
    then obtain d q where t: "take_char src pos = Inr (d, q)" "space src q = Inr pos'"
      using 1(3) c by (subst (asm) space.simps) (auto split: sum.splits)
    then show ?thesis using 1(1) [OF c w t(1) refl] take_progress [OF t(1)] by simp
  next
    case 2
    then obtain q where t: "skip_comment src pos = Inr q" "space src q = Inr pos'"
      using 1(3) c by (subst (asm) space.simps) (auto split: sum.splits)
    then show ?thesis using 1(2) [OF c _ 2 t(1)] 2 skip_comment_le [OF t(1)] by simp
  next
    case 3
    then show ?thesis using 1(3) c by (subst (asm) space.simps) simp
  qed
qed

function name_end :: "bytes \<Rightarrow> nat \<Rightarrow> read_error + nat" where
  "name_end src pos =
     (case peek src pos of
        Inl e \<Rightarrow> Inl e
      | Inr c \<Rightarrow>
          if constituent c
          then (case take_char src pos of Inl e \<Rightarrow> Inl e | Inr (_, pos') \<Rightarrow> name_end src pos')
          else Inr pos)"
  by pat_completeness auto
termination by (relation "measure (\<lambda>(src, pos). length src - pos)") (auto intro: take_measure)

definition upcase :: "byte \<Rightarrow> byte" where
  "upcase c = (if c \<ge> 0x61 \<and> c \<le> 0x7a then c - 0x20 else c)"

definition name :: "bytes \<Rightarrow> nat \<Rightarrow> read_error + bytes \<times> nat" where
  "name src start =
     (case name_end src start of
        Inl e \<Rightarrow> Inl e
      | Inr pos \<Rightarrow> Inr (map upcase (take (pos - start) (drop start src)), pos))"

text \<open>\<open>result\<close> never exceeds \<^verbatim>\<open>max_fixnum\<close>, so that the arithmetic on \<^verbatim>\<open>word\<close> does not wrap.\<close>

function number_from :: "bytes \<Rightarrow> nat \<Rightarrow> nat \<Rightarrow> nat \<Rightarrow> read_error + nat \<times> nat" where
  "number_from src pos result digits =
     (case peek src pos of
        Inl e \<Rightarrow> Inl e
      | Inr c \<Rightarrow>
          if digit c then
            let d = unat (c - 0x30) in
            if digits + 1 > 10 \<or> result > (nat max_fixnum - d) div 10 then Inl (ReadError pos ''integer overflow'')
            else (case take_char src pos of
                    Inl e \<Rightarrow> Inl e
                  | Inr (_, pos') \<Rightarrow> number_from src pos' (result * 10 + d) (digits + 1))
          else Inr (result, pos))"
  by pat_completeness auto
termination by (relation "measure (\<lambda>(src, pos, result, digits). length src - pos)") (auto intro: take_measure)

definition number :: "bytes \<Rightarrow> nat \<Rightarrow> read_error + wword \<times> nat" where
  "number src pos = map_sum id (\<lambda>(n, pos'). (of_nat n, pos')) (number_from src pos 0 0)"

function string_from :: "bytes \<Rightarrow> nat \<Rightarrow> bytes \<Rightarrow> read_error + bytes \<times> nat" where
  "string_from src start str =
     (case take_char src start of
        Inl e \<Rightarrow> Inl e
      | Inr (c, pos) \<Rightarrow>
          if c = 0x22 then Inr (str, pos)
          else if c \<noteq> 0x5c then string_from src pos (str @ take (pos - start) (drop start src))
          else
            (case take_char src pos of
               Inl e \<Rightarrow> Inl e
             | Inr (x, pos') \<Rightarrow>
                 if x = 0x6e then string_from src pos' (str @ [0x0a])
                 else if x = 0x22 then string_from src pos' (str @ [0x22])
                 else if x = 0x5c then string_from src pos' (str @ [0x5c])
                 else Inl (ReadError pos ''bad string escape'')))"
  by pat_completeness auto
termination
  by (relation "measure (\<lambda>(src, pos, str). length src - pos)")
    (auto intro: take_measure less_trans [OF take_measure take_measure])

declare name_end.simps [simp del] number_from.simps [simp del] string_from.simps [simp del]

section \<open>Model: packages\<close>

text \<open>The roots of the evaluator that the reader uses.\<close>

record evaluator =
  ev_base :: wword
  ev_keywords :: wword
  ev_packages :: wword
  ev_current :: wword
  ev_known :: "bytes \<Rightarrow> wword"

datatype eval_error = InvalidArgument string | EvalHeap heap_error

partial_function (option) find_symbol :: "heap \<Rightarrow> bytes \<Rightarrow> wword \<Rightarrow> (heap_error + wword option) option" where
  "find_symbol h nm cur =
     (if cur = nil then Some (Inr None)
      else case heap_read duo cur h of
        Inl e \<Rightarrow> Some (Inl e)
      | Inr r \<Rightarrow>
          (case symbol_name h (r ! 0) of
             Inl e \<Rightarrow> Some (Inl e)
           | Inr s \<Rightarrow> if s = nm then Some (Inr (Some (r ! 0))) else find_symbol h nm (r ! 1)))"

definition find_in_package :: "heap \<Rightarrow> bytes \<Rightarrow> wword \<Rightarrow> (heap_error + wword option) option" where
  "find_in_package h nm p =
     (case heap_get pkg F_sym p h of Inl e \<Rightarrow> Some (Inl e) | Inr cur \<Rightarrow> find_symbol h nm cur)"

text \<open>The search through the used packages, with the slow pointer that catches a cyclic list.\<close>

partial_function (option) search_uses ::
  "heap \<Rightarrow> bytes \<Rightarrow> wword \<Rightarrow> wword \<Rightarrow> bool \<Rightarrow> (eval_error + wword option) option" where
  "search_uses h nm cur slow move_slow =
     (if cur = nil then Some (Inr None)
      else if tag_of cur \<noteq> duo then Some (Inl (InvalidArgument ''malformed package uses list''))
      else case heap_read duo cur h of
        Inl e \<Rightarrow> Some (Inl (EvalHeap e))
      | Inr r \<Rightarrow>
          if tag_of (r ! 0) \<noteq> pkg then Some (Inl (InvalidArgument ''non-package in uses list''))
          else case find_in_package h nm (r ! 0) of
            None \<Rightarrow> None
          | Some (Inl e) \<Rightarrow> Some (Inl (EvalHeap e))
          | Some (Inr (Some s)) \<Rightarrow> Some (Inr (Some s))
          | Some (Inr None) \<Rightarrow>
              (case (if move_slow then heap_get duo F_cdr slow h else Inr slow) of
                 Inl e \<Rightarrow> Some (Inl (EvalHeap e))
               | Inr slow' \<Rightarrow>
                   if r ! 1 \<noteq> nil \<and> r ! 1 = slow' then Some (Inl (InvalidArgument ''cyclic package uses list''))
                   else search_uses h nm (r ! 1) slow' (\<not> move_slow)))"

definition create_symbol :: "bytes \<Rightarrow> wword \<Rightarrow> heap \<Rightarrow> heap_error + wword \<times> heap" where
  "create_symbol nm package h =
     (case heap_get pkg F_sym package h of
        Inl e \<Rightarrow> Inl e
      | Inr symbols \<Rightarrow>
          (case newv08 nm h of
             Inl e \<Rightarrow> Inl e
           | Inr (str, h1) \<Rightarrow>
               (case heap_make sym [str, package, nah, nil, nil] h1 of
                  Inl e \<Rightarrow> Inl e
                | Inr (s, h2) \<Rightarrow>
                    (case heap_cons s symbols h2 of
                       Inl e \<Rightarrow> Inl e
                     | Inr (cell, h3) \<Rightarrow>
                         (case heap_set pkg F_sym package cell h3 of Inl e \<Rightarrow> Inl e | Inr h4 \<Rightarrow> Inr (s, h4))))))"

definition intern :: "evaluator \<Rightarrow> bytes \<Rightarrow> wword \<Rightarrow> heap \<Rightarrow> (eval_error + wword \<times> heap) option" where
  "intern ev nm package h =
     (if package = ev_base ev \<and> nm = ascii ''NIL'' then Some (Inr (nil, h))
      else if package = ev_base ev \<and> nm = ascii ''T'' then Some (Inr (w_t, h))
      else case find_in_package h nm package of
        None \<Rightarrow> None
      | Some (Inl e) \<Rightarrow> Some (Inl (EvalHeap e))
      | Some (Inr (Some s)) \<Rightarrow> Some (Inr (s, h))
      | Some (Inr None) \<Rightarrow>
          (case heap_get pkg F_use package h of
             Inl e \<Rightarrow> Some (Inl (EvalHeap e))
           | Inr cur \<Rightarrow>
               (case search_uses h nm cur cur False of
                  None \<Rightarrow> None
                | Some (Inl e) \<Rightarrow> Some (Inl e)
                | Some (Inr (Some s)) \<Rightarrow> Some (Inr (s, h))
                | Some (Inr None) \<Rightarrow> Some (map_sum EvalHeap id (create_symbol nm package h)))))"

definition keyword :: "evaluator \<Rightarrow> bytes \<Rightarrow> heap \<Rightarrow> (eval_error + wword \<times> heap) option" where
  "keyword ev nm h = intern ev nm (ev_keywords ev) h"

partial_function (option) find_package_from :: "heap \<Rightarrow> bytes \<Rightarrow> wword \<Rightarrow> (heap_error + wword) option" where
  "find_package_from h nm cur =
     (if cur = nil then Some (Inr nil)
      else case heap_read duo cur h of
        Inl e \<Rightarrow> Some (Inl e)
      | Inr r \<Rightarrow>
          (case heap_get pkg F_nam (r ! 0) h of
             Inl e \<Rightarrow> Some (Inl e)
           | Inr n \<Rightarrow>
               (case v08slice n h of
                  Inl e \<Rightarrow> Some (Inl e)
                | Inr s \<Rightarrow> if s = nm then Some (Inr (r ! 0)) else find_package_from h nm (r ! 1))))"

declare find_symbol.simps [code] search_uses.simps [code] find_package_from.simps [code]

definition find_package :: "evaluator \<Rightarrow> bytes \<Rightarrow> heap \<Rightarrow> (heap_error + wword) option" where
  "find_package ev nm h = find_package_from h nm (ev_packages ev)"

definition define_package :: "evaluator \<Rightarrow> bytes \<Rightarrow> heap \<Rightarrow> (eval_error + wword \<times> evaluator \<times> heap) option" where
  "define_package ev nm h =
     (case find_package ev nm h of
        None \<Rightarrow> None
      | Some (Inl e) \<Rightarrow> Some (Inl (EvalHeap e))
      | Some (Inr p) \<Rightarrow>
          if p \<noteq> nil then Some (Inl (InvalidArgument ''package already exists''))
          else Some
            (case newv08 nm h of
               Inl e \<Rightarrow> Inl (EvalHeap e)
             | Inr (str, h1) \<Rightarrow>
                 (case heap_make pkg [str, nil, nil] h1 of
                    Inl e \<Rightarrow> Inl (EvalHeap e)
                  | Inr (q, h2) \<Rightarrow>
                      (case heap_cons q (ev_packages ev) h2 of
                         Inl e \<Rightarrow> Inl (EvalHeap e)
                       | Inr (cell, h3) \<Rightarrow> Inr (q, ev\<lparr>ev_packages := cell\<rparr>, h3)))))"

section \<open>Model: forms\<close>

text \<open>Exceptions of the package operations become read errors at the start of the symbol.\<close>

definition at_symbol :: "nat \<Rightarrow> eval_error + wword \<times> heap \<Rightarrow> read_error + wword \<times> heap" where
  "at_symbol start r =
     map_sum (\<lambda>e. case e of InvalidArgument m \<Rightarrow> ReadError start m | EvalHeap x \<Rightarrow> HeapError x) id r"

definition read_symbol :: "bytes \<Rightarrow> evaluator \<Rightarrow> nat \<Rightarrow> heap \<Rightarrow> (read_error + wword \<times> nat \<times> heap) option" where
  "read_symbol src ev start h =
     (case name src start of
        Inl e \<Rightarrow> Some (Inl e)
      | Inr (nm, pos) \<Rightarrow>
          let done = map_option (\<lambda>r. map_sum id (\<lambda>(s, h'). (s, pos, h')) (at_symbol start r));
              colon = length (takeWhile (\<lambda>b. b \<noteq> 0x3a) nm) in
          if colon = length nm then done (intern ev nm (ev_current ev) h)
          else
            let extra = colon + 1 + length (takeWhile (\<lambda>b. b \<noteq> 0x3a) (drop (colon + 1) nm)) in
            if extra < length nm then Some (Inl (ReadError (start + extra) ''colon in symbol name''))
            else case find_package ev (take colon nm) h of
              None \<Rightarrow> None
            | Some (Inl e) \<Rightarrow> Some (Inl (HeapError e))
            | Some (Inr package) \<Rightarrow>
                if package = nil then Some (Inl (ReadError start ''no such package''))
                else done (intern ev (drop (colon + 1) nm) package h))"

datatype kind = K_list | K_vector | K_quote | K_tail | K_close

record frame =
  fr_type :: kind
  fr_suffix :: wword
  fr_items :: "wword list"

definition new_frame :: "kind \<Rightarrow> wword \<Rightarrow> frame" where
  "new_frame k sfx = \<lparr>fr_type = k, fr_suffix = sfx, fr_items = []\<rparr>"

fun cons_items :: "wword list \<Rightarrow> wword \<Rightarrow> heap \<Rightarrow> heap_error + wword \<times> heap" where
  "cons_items [] v h = Inr (v, h)"
| "cons_items (x # xs) v h =
     (case cons_items xs v h of Inl e \<Rightarrow> Inl e | Inr (d, h') \<Rightarrow> heap_cons x d h')"

text \<open>What one round of the outer loop found: the end of the input, a changed stack, or a value.\<close>

datatype token = T_eof nat | T_stack "frame list" nat heap | T_value wword "frame list" nat heap

definition close_frame :: "bytes \<Rightarrow> nat \<Rightarrow> u32 \<Rightarrow> frame \<Rightarrow> frame list \<Rightarrow> heap \<Rightarrow> read_error + token" where
  "close_frame src pos c f rest h =
     (if fr_type f = K_close \<and> c \<noteq> 0x29 then Inl (ReadError pos ''expected ')' after dotted tail'')
      else case take_char src pos of
        Inl e \<Rightarrow> Inl e
      | Inr (_, pos') \<Rightarrow>
          (case (if fr_type f = K_vector then newv32 (fr_items f) h else cons_items (fr_items f) (fr_suffix f) h) of
             Inl e \<Rightarrow> Inl (HeapError e)
           | Inr (v, h') \<Rightarrow> Inr (T_value v rest pos' h')))"

definition read_dispatch :: "bytes \<Rightarrow> evaluator \<Rightarrow> nat \<Rightarrow> frame list \<Rightarrow> heap \<Rightarrow> read_error + token" where
  "read_dispatch src ev dispatch stack h =
     (case take_char src dispatch of
        Inl e \<Rightarrow> Inl e
      | Inr (d, pos) \<Rightarrow>
          if d = 0x3a then
            (case name src pos of
               Inl e \<Rightarrow> Inl e
             | Inr (nm, pos') \<Rightarrow>
                 (case newv08 nm h of
                    Inl e \<Rightarrow> Inl (HeapError e)
                  | Inr (str, h1) \<Rightarrow>
                      (case heap_make sym [str, nil, nah, nil, nil] h1 of
                         Inl e \<Rightarrow> Inl (HeapError e)
                       | Inr (s, h2) \<Rightarrow> Inr (T_value s stack pos' h2))))
          else if d = 0x5c then
            (case take_char src pos of Inl e \<Rightarrow> Inl e | Inr (c, pos') \<Rightarrow> Inr (T_value (immediate chr c) stack pos' h))
          else if d = 0x27 then Inr (T_stack (new_frame K_quote (ev_known ev (ascii ''FUNCTION'')) # stack) pos h)
          else Inl (ReadError dispatch ''unknown '#' dispatch''))"

definition read_keyword :: "bytes \<Rightarrow> evaluator \<Rightarrow> nat \<Rightarrow> frame list \<Rightarrow> heap \<Rightarrow> (read_error + token) option" where
  "read_keyword src ev pos stack h =
     (case name src pos of
        Inl e \<Rightarrow> Some (Inl e)
      | Inr (nm, pos') \<Rightarrow>
          (case keyword ev nm h of
             None \<Rightarrow> None
           | Some (Inl (InvalidArgument m)) \<Rightarrow> Some (Inl (Escaped m))
           | Some (Inl (EvalHeap e)) \<Rightarrow> Some (Inl (HeapError e))
           | Some (Inr (s, h1)) \<Rightarrow>
               Some (case heap_set sym F_val s s h1 of Inl e \<Rightarrow> Inl (HeapError e) | Inr h2 \<Rightarrow> Inr (T_value s stack pos' h2))))"

definition read_quote :: "bytes \<Rightarrow> evaluator \<Rightarrow> u32 \<Rightarrow> nat \<Rightarrow> frame list \<Rightarrow> heap \<Rightarrow> read_error + token" where
  "read_quote src ev c pos stack h =
     (let op = ev_known ev (ascii (if c = 0x27 then ''QUOTE'' else if c = 0x60 then ''BACKQUOTE'' else ''UNQUOTE'')) in
      if c = 0x2c then
        (case peek src pos of
           Inl e \<Rightarrow> Inl e
         | Inr d \<Rightarrow>
             if d = 0x40 then
               (case take_char src pos of
                  Inl e \<Rightarrow> Inl e
                | Inr (_, pos') \<Rightarrow> Inr (T_stack (new_frame K_quote (ev_known ev (ascii ''UNQUOTE-SPLICING'')) # stack) pos' h))
             else Inr (T_stack (new_frame K_quote op # stack) pos h))
      else Inr (T_stack (new_frame K_quote op # stack) pos h))"

definition read_atom :: "bytes \<Rightarrow> evaluator \<Rightarrow> u32 \<Rightarrow> nat \<Rightarrow> frame list \<Rightarrow> heap \<Rightarrow> (read_error + token) option" where
  "read_atom src ev c pos stack h =
     (if c = 0x28 \<or> c = 0x5b \<or> c = 0x27 \<or> c = 0x60 \<or> c = 0x2c \<or> c = 0x23 \<or> c = 0x3a \<or> c = 0x22 then
        (case take_char src pos of
           Inl e \<Rightarrow> Some (Inl e)
         | Inr (_, pos') \<Rightarrow>
             if c = 0x28 then Some (Inr (T_stack (new_frame K_list nil # stack) pos' h))
             else if c = 0x5b then Some (Inr (T_stack (new_frame K_vector nil # stack) pos' h))
             else if c = 0x27 \<or> c = 0x60 \<or> c = 0x2c then Some (read_quote src ev c pos' stack h)
             else if c = 0x23 then Some (read_dispatch src ev pos' stack h)
             else if c = 0x3a then read_keyword src ev pos' stack h
             else Some
               (case string_from src pos' [] of
                  Inl e \<Rightarrow> Inl e
                | Inr (str, pos'') \<Rightarrow>
                    (case newv08 str h of Inl e \<Rightarrow> Inl (HeapError e) | Inr (v, h') \<Rightarrow> Inr (T_value v stack pos'' h'))))
      else if digit c then Some (map_sum id (\<lambda>(v, pos'). T_value v stack pos' h) (number src pos))
      else if constituent c then
        map_option (map_sum id (\<lambda>(v, pos', h'). T_value v stack pos' h')) (read_symbol src ev pos h)
      else Some (Inl (ReadError pos ''unexpected character'')))"

definition form_token :: "bytes \<Rightarrow> evaluator \<Rightarrow> nat \<Rightarrow> frame list \<Rightarrow> heap \<Rightarrow> (read_error + token) option" where
  "form_token src ev start stack h =
     (case space src start of
        Inl e \<Rightarrow> Some (Inl e)
      | Inr pos \<Rightarrow>
          (case peek src pos of
             Inl e \<Rightarrow> Some (Inl e)
           | Inr c \<Rightarrow>
               if c = eof then
                 Some (if stack = [] then Inr (T_eof pos) else Inl (ReadError pos ''unexpected EOF''))
               else case stack of
                 [] \<Rightarrow> read_atom src ev c pos stack h
               | f # rest \<Rightarrow>
                   if fr_type f = K_close \<or> (fr_type f = K_list \<and> c = 0x29) \<or> (fr_type f = K_vector \<and> c = 0x5d)
                   then Some (close_frame src pos c f rest h)
                   else if fr_type f = K_list \<and> c = 0x2e then
                     Some (map_sum id (\<lambda>(_, pos'). T_stack (f\<lparr>fr_type := K_tail\<rparr> # rest) pos' h) (take_char src pos))
                   else read_atom src ev c pos stack h))"

text \<open>The inner loop hands a value to the frames: \<open>Inl\<close> the value of the whole form, \<open>Inr\<close> a stack that
  waits for more.\<close>

fun deliver :: "wword \<Rightarrow> frame list \<Rightarrow> heap \<Rightarrow> heap_error + (wword + frame list) \<times> heap" where
  "deliver v [] h = Inr (Inl v, h)"
| "deliver v (f # rest) h =
     (if fr_type f = K_quote then
        (case heap_cons v nil h of
           Inl e \<Rightarrow> Inl e
         | Inr (cell, h1) \<Rightarrow>
             (case heap_cons (fr_suffix f) cell h1 of Inl e \<Rightarrow> Inl e | Inr (v', h2) \<Rightarrow> deliver v' rest h2))
      else if fr_type f = K_tail then Inr (Inr (f\<lparr>fr_suffix := v, fr_type := K_close\<rparr> # rest), h)
      else Inr (Inr (f\<lparr>fr_items := fr_items f @ [v]\<rparr> # rest), h))"

lemma name_end_le: "name_end src pos = Inr pos' \<Longrightarrow> pos \<le> pos'"
proof (induction src pos rule: name_end.induct)
  case (1 src pos)
  obtain c where c: "peek src pos = Inr c" using 1(2) by (subst (asm) name_end.simps) (auto split: sum.splits)
  show ?case
  proof (cases "constituent c")
    case True
    then obtain d q where t: "take_char src pos = Inr (d, q)" "name_end src q = Inr pos'"
      using 1(2) c by (subst (asm) name_end.simps) (auto split: sum.splits)
    then show ?thesis using 1(1) [OF c True t(1) refl] take_progress [OF t(1)] by simp
  next
    case False
    then show ?thesis using 1(2) c by (subst (asm) name_end.simps) simp
  qed
qed

lemma name_le: "name src pos = Inr (nm, pos') \<Longrightarrow> pos \<le> pos'"
  using name_end_le by (auto simp: name_def split: sum.splits)

lemma name_progress:
  assumes "name src pos = Inr (nm, pos')" "peek src pos = Inr c" "constituent c"
  shows "pos < pos'"
proof -
  have "name_end src pos = Inr pos'" using assms(1) by (auto simp: name_def split: sum.splits)
  then obtain d q where t: "take_char src pos = Inr (d, q)" "name_end src q = Inr pos'"
    using assms(2,3) by (subst (asm) name_end.simps) (auto split: sum.splits)
  then show ?thesis using name_end_le [OF t(2)] take_progress [OF t(1)] by simp
qed

lemma number_from_le: "number_from src pos r k = Inr (n, pos') \<Longrightarrow> pos \<le> pos'"
proof (induction src pos r k rule: number_from.induct)
  case (1 src pos r k)
  obtain c where c: "peek src pos = Inr c" using 1(2) by (subst (asm) number_from.simps) (auto split: sum.splits)
  show ?case
  proof (cases "digit c")
    case True
    let ?d = "unat (c - 0x30)"
    obtain d q where t: "take_char src pos = Inr (d, q)" "number_from src q (r * 10 + ?d) (k + 1) = Inr (n, pos')"
      and ov: "\<not> (k + 1 > 10 \<or> r > (nat max_fixnum - ?d) div 10)"
      using 1(2) c True by (subst (asm) number_from.simps) (auto simp: Let_def split: sum.splits if_splits)
    then show ?thesis using 1(1) [OF c True refl ov t(1) refl] take_progress [OF t(1)] by simp
  next
    case False
    then show ?thesis using 1(2) c by (subst (asm) number_from.simps) simp
  qed
qed

lemma number_progress:
  assumes "number src pos = Inr (v, pos')" "peek src pos = Inr c" "digit c"
  shows "pos < pos'"
proof -
  let ?d = "unat (c - 0x30)"
  obtain n where "number_from src pos 0 0 = Inr (n, pos')" using assms(1) by (cases "number_from src pos 0 0") (auto simp: number_def)
  then obtain d q where t: "take_char src pos = Inr (d, q)" "number_from src q (0 * 10 + ?d) (0 + 1) = Inr (n, pos')"
    using assms(2,3) by (subst (asm) number_from.simps) (auto simp: Let_def split: sum.splits if_splits)
  then show ?thesis using number_from_le [OF t(2)] take_progress [OF t(1)] by simp
qed

lemma string_from_le: "string_from src pos str = Inr (s, pos') \<Longrightarrow> pos \<le> pos'"
proof (induction src pos str rule: string_from.induct)
  case (1 src pos str)
  obtain c q where t: "take_char src pos = Inr (c, q)" using 1(5) by (subst (asm) string_from.simps) (auto split: sum.splits)
  show ?case
  proof (cases "c = 0x22 \<or> c \<noteq> 0x5c")
    case True
    then show ?thesis using 1(1) [OF t refl] 1(5) t take_progress [OF t]
      by (subst (asm) string_from.simps) (auto split: if_splits)
  next
    case False
    then obtain x r where x: "take_char src q = Inr (x, r)" using 1(5) t by (subst (asm) string_from.simps) (auto split: sum.splits)
    note p = take_progress [OF t] take_progress [OF x]
    show ?thesis using 1(5) t x p False 1(2-4) [OF t refl _ _ x refl]
      by (subst (asm) string_from.simps) (auto split: if_splits)
  qed
qed

fun token_pos :: "token \<Rightarrow> nat option" where
  "token_pos (T_eof pos) = None"
| "token_pos (T_stack _ pos _) = Some pos"
| "token_pos (T_value _ _ pos _) = Some pos"

lemma close_frame_pos: "close_frame src pos c f rest h = Inr tk \<Longrightarrow> \<exists>q. token_pos tk = Some q \<and> pos < q"
  by (auto simp: close_frame_def split: sum.splits if_splits prod.splits dest!: take_progress)

lemma read_dispatch_pos: "read_dispatch src ev pos stack h = Inr tk \<Longrightarrow> \<exists>q. token_pos tk = Some q \<and> pos < q"
  by (auto simp: read_dispatch_def split: sum.splits if_splits prod.splits dest!: take_progress name_le intro: less_le_trans less_trans)

lemma read_keyword_pos: "read_keyword src ev pos stack h = Some (Inr tk) \<Longrightarrow> \<exists>q. token_pos tk = Some q \<and> pos \<le> q"
  by (auto simp: read_keyword_def split: sum.splits if_splits prod.splits option.splits eval_error.splits dest!: name_le)

lemma read_quote_pos: "read_quote src ev c pos stack h = Inr tk \<Longrightarrow> \<exists>q. token_pos tk = Some q \<and> pos \<le> q"
  by (auto simp: read_quote_def Let_def split: sum.splits if_splits prod.splits dest!: take_progress)

lemma read_symbol_pos:
  assumes "read_symbol src ev pos h = Some (Inr (v, pos', h'))" "peek src pos = Inr c" "constituent c"
  shows "pos < pos'"
proof -
  obtain nm q where n: "name src pos = Inr (nm, q)" using assms(1) by (auto simp: read_symbol_def split: sum.splits)
  have "pos' = q" using assms(1) n
    by (auto simp: read_symbol_def Let_def at_symbol_def map_option_case split: option.splits sum.splits if_splits)
       (auto simp: map_sum_def split: sum.splits)
  then show ?thesis using name_progress [OF n assms(2,3)] by simp
qed

lemma read_atom_pos:
  assumes "read_atom src ev c pos stack h = Some (Inr tk)" "peek src pos = Inr c"
  shows "\<exists>q. token_pos tk = Some q \<and> pos < q"
proof (cases "c = 0x28 \<or> c = 0x5b \<or> c = 0x27 \<or> c = 0x60 \<or> c = 0x2c \<or> c = 0x23 \<or> c = 0x3a \<or> c = 0x22")
  case True
  then obtain d q where t: "take_char src pos = Inr (d, q)" using assms(1) by (auto simp: read_atom_def split: sum.splits)
  note p = take_progress [OF t]
  show ?thesis using assms(1) True t p
    by (auto simp: read_atom_def split: sum.splits if_splits
        dest!: read_dispatch_pos read_keyword_pos read_quote_pos string_from_le intro: less_le_trans less_trans)
next
  case False
  show ?thesis
  proof (cases "digit c")
    case True
    then obtain v q where "number src pos = Inr (v, q)" "tk = T_value v stack q h"
      using assms(1) False by (cases "number src pos") (auto simp: read_atom_def)
    then show ?thesis using number_progress assms(2) True by auto
  next
    case nd: False
    then have "constituent c" using assms(1) False by (auto simp: read_atom_def split: if_splits)
    moreover obtain v q h' where "read_symbol src ev pos h = Some (Inr (v, q, h'))" "tk = T_value v stack q h'"
    proof -
      have "map_option (map_sum id (\<lambda>(v, pos', h'). T_value v stack pos' h')) (read_symbol src ev pos h) = Some (Inr tk)"
        using assms(1) False nd by (auto simp: read_atom_def split: if_splits)
      then show thesis using that by (cases "read_symbol src ev pos h"; cases "the (read_symbol src ev pos h)") auto
    qed
    ultimately show ?thesis using read_symbol_pos assms(2) by auto
  qed
qed

lemma form_token_pos:
  assumes "form_token src ev start stack h = Some (Inr tk)" "token_pos tk = Some q"
  shows "start < q \<and> start < length src"
proof -
  obtain pos c where s: "space src start = Inr pos" and c: "peek src pos = Inr c" "c \<noteq> eof"
    using assms by (auto simp: form_token_def split: sum.splits if_splits)
  have "pos < q"
  proof (cases stack)
    case Nil
    then show ?thesis using assms s c read_atom_pos [of src ev c pos stack h tk] by (auto simp: form_token_def)
  next
    case (Cons f rest)
    have "\<exists>q. token_pos tk = Some q \<and> pos < q"
    proof (cases "fr_type f = K_close \<or> (fr_type f = K_list \<and> c = 0x29) \<or> (fr_type f = K_vector \<and> c = 0x5d)")
      case True
      then show ?thesis using assms(1) s c Cons close_frame_pos by (auto simp: form_token_def)
    next
      case nc: False
      show ?thesis
      proof (cases "fr_type f = K_list \<and> c = 0x2e")
        case True
        then obtain d r where "take_char src pos = Inr (d, r)" "tk = T_stack (f\<lparr>fr_type := K_tail\<rparr> # rest) r h"
          using assms(1) s c Cons nc by (cases "take_char src pos") (auto simp: form_token_def)
        then show ?thesis using take_progress by auto
      next
        case False
        then have "read_atom src ev c pos stack h = Some (Inr tk)" using assms(1) s c Cons nc by (auto simp: form_token_def split: if_splits)
        then show ?thesis using read_atom_pos c(1) by blast
      qed
    qed
    then show ?thesis using assms(2) by simp
  qed
  then show ?thesis using space_le [OF s] peek_in_range [OF c] by simp
qed

function form_loop :: "bytes \<Rightarrow> evaluator \<Rightarrow> nat \<Rightarrow> frame list \<Rightarrow> heap \<Rightarrow> (read_error + wword option \<times> nat \<times> heap) option" where
  "form_loop src ev pos stack h =
     (case form_token src ev pos stack h of
        None \<Rightarrow> None
      | Some (Inl e) \<Rightarrow> Some (Inl e)
      | Some (Inr (T_eof pos')) \<Rightarrow> Some (Inr (None, pos', h))
      | Some (Inr (T_stack stack' pos' h')) \<Rightarrow> form_loop src ev pos' stack' h'
      | Some (Inr (T_value v stack' pos' h')) \<Rightarrow>
          (case deliver v stack' h' of
             Inl e \<Rightarrow> Some (Inl (HeapError e))
           | Inr (Inl v', h'') \<Rightarrow> Some (Inr (Some v', pos', h''))
           | Inr (Inr stack'', h'') \<Rightarrow> form_loop src ev pos' stack'' h''))"
  by pat_completeness auto
termination
  by (relation "measure (\<lambda>(src, ev, pos, stack, h). length src - pos)")
    (auto intro!: diff_less_mono2 dest: form_token_pos [OF _ token_pos.simps(2)] form_token_pos [OF _ token_pos.simps(3)])

declare form_loop.simps [simp del]

definition form :: "bytes \<Rightarrow> evaluator \<Rightarrow> nat \<Rightarrow> heap \<Rightarrow> (read_error + wword option \<times> nat \<times> heap) option" where
  "form src ev pos h = form_loop src ev pos [] h"

text \<open>\<^verbatim>\<open>next\<close> also gives the position of the form; the location it prepends to the message of a
  \<^verbatim>\<open>read_error\<close> is \<open>source_location\<close> of the error's offset.\<close>

definition read_next :: "bytes \<Rightarrow> evaluator \<Rightarrow> nat \<Rightarrow> heap \<Rightarrow> (read_error + wword option \<times> nat \<times> nat \<times> heap) option" where
  "read_next src ev pos h =
     (case space src pos of
        Inl e \<Rightarrow> Some (Inl e)
      | Inr form_position \<Rightarrow>
          map_option (map_sum id (\<lambda>(v, pos', h'). (v, form_position, pos', h'))) (form src ev form_position h))"

end
