(* ===== verification/Wisp_Machine.thy ===== *)
theory Wisp_Machine
  imports Wisp_Reader
begin

text \<open>
  The parts of the Wisp evaluator that exist between two steps: the names it keeps as roots, the
  manifest of its builtins, the code records of \<^verbatim>\<open>src/wisp/code.hpp\<close>, and the construction of a
  fresh machine (\<^verbatim>\<open>evaluator::evaluator\<close> and \<^verbatim>\<open>install_known\<close> of \<^verbatim>\<open>src/wisp/eval.cpp\<close>).
\<close>

section \<open>Model: code records\<close>

datatype code_op = OP_constant | OP_lexical_load | OP_global_load | OP_function_cell | OP_lexical_store | OP_global_store
  | OP_branch | OP_sequence | OP_let | OP_call | OP_closure | OP_source | OP_function

datatype operand_kind = OK_value | OK_address | OK_symbol | OK_name | OK_node | OK_nodes | OK_names

fun operand_name :: "operand_kind \<Rightarrow> string" where
  "operand_name OK_value = ''VALUE''"
| "operand_name OK_address = ''ADDRESS''"
| "operand_name OK_symbol = ''SYMBOL''"
| "operand_name OK_name = ''NAME''"
| "operand_name OK_node = ''NODE''"
| "operand_name OK_nodes = ''NODES''"
| "operand_name OK_names = ''NAMES''"

type_synonym code_operation = "code_op \<times> string \<times> operand_kind list"

definition code_operations :: "code_operation list" where
  "code_operations =
     [(OP_constant, ''CONSTANT'', [OK_value]),
      (OP_lexical_load, ''LEXICAL-LOAD'', [OK_address, OK_address]),
      (OP_global_load, ''GLOBAL-LOAD'', [OK_symbol]),
      (OP_function_cell, ''FUNCTION-CELL'', [OK_symbol]),
      (OP_lexical_store, ''LEXICAL-STORE'', [OK_address, OK_address, OK_node]),
      (OP_global_store, ''GLOBAL-STORE'', [OK_symbol, OK_node]),
      (OP_branch, ''BRANCH'', [OK_node, OK_node, OK_node]),
      (OP_sequence, ''SEQUENCE'', [OK_nodes]),
      (OP_let, ''LET'', [OK_names, OK_nodes, OK_node]),
      (OP_call, ''CALL'', [OK_symbol, OK_nodes]),
      (OP_closure, ''CLOSURE'', [OK_node]),
      (OP_source, ''SOURCE'', [OK_value]),
      (OP_function, ''FUNCTION'', [OK_name, OK_value, OK_node, OK_value])]"

text \<open>The enumerator's number is its position in the table, as the source asserts.\<close>

definition op_index :: "code_op \<Rightarrow> nat" where
  "op_index op = length (takeWhile (\<lambda>c. fst c \<noteq> op) code_operations)"

definition code_version :: nat where "code_version = 1"

definition code_opcode :: "code_op \<Rightarrow> wword" where
  "code_opcode op = fixnum (int (code_version * 2 ^ 8 + op_index op))"

definition code_operation_of :: "wword \<Rightarrow> code_op option" where
  "code_operation_of opcode =
     (if tag_of opcode \<noteq> integer then None
      else let index = integer_of opcode - int (code_version * 2 ^ 8) in
        if index < 0 \<or> nat index \<ge> length code_operations then None else Some (fst (code_operations ! nat index)))"

definition code_record_op :: "heap \<Rightarrow> wword \<Rightarrow> heap_error + code_op option" where
  "code_record_op h x =
     (if tag_of x \<noteq> rec then Inr None
      else case heap_words rec x h of
        Inl e \<Rightarrow> Inl e
      | Inr xs \<Rightarrow> Inr (if xs = [] then None else code_operation_of (xs ! 0)))"

definition operand_valid :: "heap \<Rightarrow> operand_kind \<Rightarrow> wword \<Rightarrow> heap_error + bool" where
  "operand_valid h k x =
     (case k of
        OK_value \<Rightarrow> Inr True
      | OK_address \<Rightarrow> Inr (\<not> (tag_of x \<noteq> integer \<or> integer_of x < 0))
      | OK_symbol \<Rightarrow> Inr (tag_of x = sym)
      | OK_name \<Rightarrow> Inr (\<not> (x \<noteq> nil \<and> tag_of x \<noteq> sym))
      | OK_node \<Rightarrow> map_sum id (\<lambda>op. op \<noteq> None) (code_record_op h x)
      | OK_nodes \<Rightarrow> Inr (tag_of x = v32)
      | OK_names \<Rightarrow> Inr (tag_of x = v32))"

fun operands_valid_from :: "heap \<Rightarrow> operand_kind list \<Rightarrow> wword list \<Rightarrow> heap_error + bool" where
  "operands_valid_from h (k # ks) (x # xs) =
     (case operand_valid h k x of
        Inl e \<Rightarrow> Inl e
      | Inr valid \<Rightarrow> if valid then operands_valid_from h ks xs else Inr False)"
| "operands_valid_from h _ _ = Inr True"

definition code_operands_valid :: "heap \<Rightarrow> code_op \<Rightarrow> wword list \<Rightarrow> heap_error + bool" where
  "code_operands_valid h op operands =
     (let shape = snd (snd (code_operations ! op_index op)) in
      if length operands \<noteq> length shape then Inr False else operands_valid_from h shape operands)"

section \<open>Model: the machine between steps\<close>

definition known_names :: "string list" where
  "known_names =
     [''QUOTE'', ''BACKQUOTE'', ''UNQUOTE'', ''UNQUOTE-SPLICING'', ''FUNCTION'', ''&REST'', ''&BODY'',
      ''&OPTIONAL'', ''BINDING'', ''COND'', ''DEFUN'', ''IF'', ''FN'', ''LET'', ''DO'', ''EVAL'', ''PROMPT'',
      ''RESUME'', ''EXP'', ''VAL'', ''ERROR'', ''BOOLEAN'', ''CHARACTER'', ''CONS'', ''CONTINUATION'',
      ''EVALUATOR'', ''EXTERNAL'', ''INTEGER'', ''MACRO'', ''NULL'', ''PACKAGE'', ''PIN'', ''RECORD'', ''STRING'',
      ''SYMBOL'', ''VECTOR'', ''ACTIVE-EVALUATOR'', ''BAD-FIXNUM-DIVISION'', ''BAD-MODULO'', ''BOUNDS-ERROR'',
      ''BUG'', ''BUILTIN-FAILURE'', ''CONTINUATION-CALL-ERROR'', ''CYCLIC-LIST'', ''END-OF-FILE'', ''EXHAUSTED'',
      ''FIXNUM-OVERFLOW'', ''IMMUTABLE-CODE'', ''INVALID-ARGUMENT-COUNT'', ''INVALID-BINDING'',
      ''INVALID-CALLEE'', ''INVALID-CODE'', ''INVALID-CONTINUATION'', ''INVALID-ENVIRONMENT'',
      ''INVALID-EXPRESSION'', ''INVALID-FUNCTION'', ''INVALID-PACKAGE-USES'', ''INVALID-PARAMETERS'',
      ''INVALID-STRING-INPUT-STREAM'', ''INVALID-VALUE'', ''KEY-SPACE-EXHAUSTED'', ''LOW-LEVEL-ERROR'',
      ''PACKAGE-ERROR'', ''PACKAGE-EXISTS'', ''PROGRAM-ERROR'', ''PROMPT-TAG-MISSING'', ''READ-ERROR'',
      ''TYPE-MISMATCH'', ''UNBOUND-VARIABLE'', ''UNDEFINED-FUNCTION'', ''UNDEFINED-PACKAGE'', ''UNHANDLED-ERROR'',
      ''STRING-INPUT-STREAM'']"

text \<open>The manifest: the name of every builtin and whether it is a control operator.  The number of a
  builtin is its position.\<close>

definition jet_manifest :: "(string \<times> bool) list" where
  "jet_manifest =
     [(''QUOTE'', True), (''FUNCTION'', True), (''%FN'', True), (''%MACRO-FN'', True), (''IF'', True),
      (''DO'', True), (''LET'', True), (''+'', False), (''-'', False), (''*'', False), (''<'', False),
      (''>'', False), (''EQ?'', False), (''CONS'', False), (''HEAD'', False), (''TAIL'', False),
      (''LIST'', False), (''CALL'', False), (''APPLY'', False), (''SYMBOL-FUNCTION'', False),
      (''SET-SYMBOL-FUNCTION!'', False), (''SET-SYMBOL-VALUE!'', False), (''%SET!'', False), (''ENV'', False),
      (''SET-SYMBOL-DYNAMIC!'', False), (''CALL-WITH-BINDING'', False), (''CALL-WITH-PROMPT'', False),
      (''SEND-WITH-DEFAULT!'', False), (''SEND-TO-WITH-DEFAULT!'', False), (''GET/CC'', False),
      (''COMPOSE-CONTINUATION'', False), (''KTX-HOP'', False), (''KTX-ENV'', False), (''KTX-FUN'', False),
      (''KTX-ACC'', False), (''KTX-ARG'', False), (''KTX-POS'', False), (''TOP?'', False), (''EVAL'', False),
      (''/'', False), (''MOD'', False), (''TYPE-OF'', False), (''PROGNIFY'', False), (''MACROEXPAND-1'', False),
      (''JET?'', False), (''JET-CTL?'', False), (''SYMBOL?'', False), (''SYMBOL-NAME'', False),
      (''SYMBOL-PACKAGE'', False), (''FUNCTION-NAME'', False), (''FUNCTION-CALL-COUNT'', False),
      (''CODE'', False), (''FUNCTION-PARAMETERS'', False), (''SET-CODE!'', False),
      (''SET-FUNCTION-NAME!'', False), (''SET-HEAD!'', False), (''SET-TAIL!'', False), (''VECTOR'', False),
      (''VECTOR-GET'', False), (''VECTOR-SET!'', False), (''VECTOR-LENGTH'', False), (''VECTOR-APPEND'', False),
      (''VECTOR-FROM-LIST'', False), (''RECORD'', False), (''RECORD?'', False), (''RECORD-TYPE'', False),
      (''RECORD-LENGTH'', False), (''RECORD-GET'', False), (''RECORD-SET!'', False), (''CODE-OPERATIONS'', False),
      (''MAKE-CODE'', False), (''BYTE-SIZE'', False), (''STRING-LENGTH'', False), (''STRING-EQUAL?'', False),
      (''STRING-APPEND'', False), (''STRING-SEARCH'', False), (''STRING-SLICE'', False),
      (''STRING-TO-UPPERCASE'', False), (''PRINT-TO-STRING'', False), (''READ-FROM-STRING'', False),
      (''READ-MANY-FROM-STRING'', False), (''READ-FROM-STRING-STREAM!'', False), (''UNHANDLED-ERROR'', False),
      (''GENKEY!'', False), (''FRESH-SYMBOL!'', False), (''KEY?'', False), (''MAKE-PINNED-VALUE'', False),
      (''RELEASE-PINNED-VALUE!'', False), (''FIND-PACKAGE'', False), (''PACKAGES'', False),
      (''PACKAGE-NAME'', False), (''PACKAGE-SYMBOLS'', False), (''PACKAGE-USES'', False),
      (''PACKAGE-SET-USES!'', False), (''%DEFPACKAGE'', False), (''DEFPACKAGE'', True), (''IN-PACKAGE'', True),
      (''INTERN'', False), (''RUN'', False), (''STEP!'', False), (''GC'', False), (''RUN-EXP'', False),
      (''RUN-WAY'', False), (''RUN-VAL'', False), (''RUN-ERR'', False)]"

text \<open>The roots of the evaluator and its other state at a safepoint.  \<^verbatim>\<open>known_\<close> is the map
  \<open>ev_known\<close> of the names.\<close>

record machine =
  vm_ev :: evaluator
  vm_keys :: wword
  vm_nil_name :: wword
  vm_true_name :: wword
  vm_next_key :: u64
  vm_collect :: bool

text \<open>\<^verbatim>\<open>evaluator(heap &, nullptr_t)\<close>: every root is \<^verbatim>\<open>nil\<close>.\<close>

definition empty_machine :: machine where
  "empty_machine =
     \<lparr>vm_ev = \<lparr>ev_base = nil, ev_keywords = nil, ev_packages = nil, ev_current = nil, ev_known = (\<lambda>_. nil)\<rparr>,
      vm_keys = nil, vm_nil_name = nil, vm_true_name = nil, vm_next_key = 0, vm_collect = False\<rparr>"

fun install_known_from :: "string list \<Rightarrow> evaluator \<Rightarrow> heap \<Rightarrow> (eval_error + evaluator \<times> heap) option" where
  "install_known_from [] ev h = Some (Inr (ev, h))"
| "install_known_from (nm # nms) ev h =
     (case intern ev (ascii nm) (ev_base ev) h of
        None \<Rightarrow> None
      | Some (Inl e) \<Rightarrow> Some (Inl e)
      | Some (Inr (s, h')) \<Rightarrow> install_known_from nms (ev\<lparr>ev_known := (ev_known ev)(ascii nm := s)\<rparr>) h')"

definition install_known :: "evaluator \<Rightarrow> heap \<Rightarrow> (eval_error + evaluator \<times> heap) option" where
  "install_known ev h = install_known_from known_names ev h"

fun install_jets :: "nat \<Rightarrow> (string \<times> bool) list \<Rightarrow> evaluator \<Rightarrow> heap \<Rightarrow> (eval_error + heap) option" where
  "install_jets i [] ev h = Some (Inr h)"
| "install_jets i ((nm, control) # jets) ev h =
     (case intern ev (ascii nm) (ev_base ev) h of
        None \<Rightarrow> None
      | Some (Inl e) \<Rightarrow> Some (Inl e)
      | Some (Inr (s, h')) \<Rightarrow>
          (case heap_set sym F_fun s (immediate jet (of_nat i)) h' of
             Inl e \<Rightarrow> Some (Inl (EvalHeap e))
           | Inr h'' \<Rightarrow> install_jets (i + 1) jets ev h''))"

definition named_package :: "string \<Rightarrow> heap \<Rightarrow> heap_error + wword \<times> heap" where
  "named_package nm h =
     (case newv08 (ascii nm) h of Inl e \<Rightarrow> Inl e | Inr (str, h') \<Rightarrow> heap_make pkg [str, nil, nil] h')"

text \<open>The packages, the package list and the two names of a fresh machine.\<close>

definition fresh_roots :: "heap \<Rightarrow> heap_error + machine \<times> heap" where
  "fresh_roots h =
     (case named_package ''WISP'' h of
        Inl e \<Rightarrow> Inl e
      | Inr (base, h1) \<Rightarrow>
          (case named_package ''KEYWORD'' h1 of
             Inl e \<Rightarrow> Inl e
           | Inr (keywords, h2) \<Rightarrow>
               (case named_package ''KEY'' h2 of
                  Inl e \<Rightarrow> Inl e
                | Inr (keys, h3) \<Rightarrow>
                    (case cons_items [keys, keywords, base] nil h3 of
                       Inl e \<Rightarrow> Inl e
                     | Inr (packages, h4) \<Rightarrow>
                         (case newv08 (ascii ''NIL'') h4 of
                            Inl e \<Rightarrow> Inl e
                          | Inr (nil_name, h5) \<Rightarrow>
                              (case newv08 (ascii ''T'') h5 of
                                 Inl e \<Rightarrow> Inl e
                               | Inr (true_name, h6) \<Rightarrow>
                                   Inr (empty_machine
                                     \<lparr>vm_ev := \<lparr>ev_base = base, ev_keywords = keywords, ev_packages = packages,
                                                ev_current = base, ev_known = (\<lambda>_. nil)\<rparr>,
                                      vm_keys := keys, vm_nil_name := nil_name, vm_true_name := true_name\<rparr>, h6)))))))"

definition new_machine :: "heap \<Rightarrow> (eval_error + machine \<times> heap) option" where
  "new_machine h =
     (case fresh_roots h of
        Inl e \<Rightarrow> Some (Inl (EvalHeap e))
      | Inr (m, h1) \<Rightarrow>
          (case install_known (vm_ev m) h1 of
             None \<Rightarrow> None
           | Some (Inl e) \<Rightarrow> Some (Inl e)
           | Some (Inr (ev, h2)) \<Rightarrow>
               map_option (map_sum id (\<lambda>h3. (m\<lparr>vm_ev := ev\<rparr>, h3))) (install_jets 0 jet_manifest ev h2)))"

end
