(* ===== verification/Wisp_Sample.thy ===== *)
theory Wisp_Sample
  imports Wisp_Machine
begin

text \<open>
  A machine to apply the theorems on tapes and on printing to: what \<^verbatim>\<open>evaluator::evaluator\<close> leaves behind
  without the builtins, laid out by hand.  It has the three packages, the names of NIL and T, and every cached
  symbol interned in the base package.
\<close>

definition minimal_names :: "string list" where
  "minimal_names = [''WISP'', ''KEYWORD'', ''KEY'', ''NIL'', ''T''] @ known_names"

definition row_at :: "tag \<Rightarrow> nat \<Rightarrow> wword" where
  "row_at T i = pointer T (of_nat i) False"

fun name_slices :: "nat \<Rightarrow> string list \<Rightarrow> row list" where
  "name_slices off [] = []"
| "name_slices off (nm # nms) = [of_nat off, of_nat (length nm)] # name_slices (off + length nm) nms"

definition symbol_cell :: "nat \<Rightarrow> row" where
  "symbol_cell i = [row_at sym i, if Suc i < length known_names then row_at duo (Suc i) else nil]"

definition minimal_table :: "tag \<Rightarrow> row list" where
  "minimal_table T =
     (if T = v08 then name_slices 0 minimal_names
      else if T = pkg then [[row_at v08 0, row_at duo 0, nil], [row_at v08 1, nil, nil], [row_at v08 2, nil, nil]]
      else if T = sym then map (\<lambda>i. [row_at v08 (i + 5), row_at pkg 0, nah, nil, nil]) [0..<length known_names]
      else if T = duo then map symbol_cell [0..<length known_names] @ [[row_at pkg 0, nil], [row_at pkg 1, row_at duo 73], [row_at pkg 2, row_at duo 74]]
      else [])"

definition minimal_heap :: heap where
  "minimal_heap = (new_heap False)\<lparr>hbytes := concat (map ascii minimal_names),
     hvat := (\<lambda>T. \<lparr>trows = minimal_table T, tcapacity = length (minimal_table T)\<rparr>)\<rparr>"

definition minimal_machine :: machine where
  "minimal_machine =
     \<lparr>vm_ev = \<lparr>ev_base = row_at pkg 0, ev_keywords = row_at pkg 1, ev_packages = row_at duo 75, ev_current = row_at pkg 0,
        ev_known = (\<lambda>s. case map_of (zip (map ascii known_names) (map (row_at sym) [0..<length known_names])) s of
                          None \<Rightarrow> nil | Some x \<Rightarrow> x)\<rparr>,
      vm_keys = row_at pkg 2, vm_nil_name = row_at v08 3, vm_true_name = row_at v08 4, vm_next_key = 7, vm_collect = True\<rparr>"

section \<open>Sizes and words\<close>

lemma count_known [simp]: "length known_names = 73"
  by (simp add: known_names_def)

lemma length_name_slices [simp]: "length (name_slices off nms) = length nms"
  by (induction nms arbitrary: off) simp_all

lemma length_ascii [simp]: "length (ascii s) = length s"
  by (simp add: ascii_def)

lemma minimal_reads [simp]:
  "hera minimal_heap = False" "hwords minimal_heap = []" "hpins minimal_heap = []" "next_pin minimal_heap = 1"
  "trows (hvat minimal_heap T) = minimal_table T" "tab_size (hvat minimal_heap T) = length (minimal_table T)" "hroots minimal_heap = []"
  by (simp_all add: minimal_heap_def new_heap_def tab_size_def)

lemma minimal_sizes [simp]:
  "length (minimal_table v08) = 78" "length (minimal_table pkg) = 3" "length (minimal_table sym) = 73" "length (minimal_table duo) = 76"
  by (simp_all add: minimal_table_def minimal_names_def)

lemma minimal_table_empty: "T \<notin> {v08, pkg, sym, duo} \<Longrightarrow> minimal_table T = []"
  by (simp add: minimal_table_def)

lemma minimal_bytes: "length (hbytes minimal_heap) = 805"
  by (simp add: minimal_heap_def minimal_names_def known_names_def)

lemma at_fields:
  assumes "is_pointer T" "i < 100"
  shows "tag_of (row_at T i) = T" "unat (index_of (row_at T i)) = i" "era_of (row_at T i) = False"
proof -
  have i: "i < max_rows" using assms(2) by (simp add: max_rows_eq)
  note p = pointer_fields [OF is_pointer_not_integer [OF assms(1)], of "of_nat i" False] row_index_fits [OF i]
  then show "tag_of (row_at T i) = T" "unat (index_of (row_at T i)) = i" "era_of (row_at T i) = False" by (simp_all add: row_at_def)
qed

lemma pointer_tags [simp]: "is_pointer v08" "is_pointer pkg" "is_pointer sym" "is_pointer duo"
  by (simp_all add: is_pointer_iff)

lemma tag_nil [simp]: "tag_of nil = sys" "tag_of nah = sys"
  unfolding nil_def nah_def by (rule immediate_fields; simp add: max_immediate_def)+

lemma at_not_sys: "is_pointer T \<Longrightarrow> i < 100 \<Longrightarrow> row_at T i \<noteq> nil \<and> row_at T i \<noteq> zap"
  using at_fields(1) [of T i] zap_not_pointer by (auto simp: is_pointer_iff)

lemma at_live: "is_pointer T \<Longrightarrow> i < length (minimal_table T) \<Longrightarrow> live minimal_heap (row_at T i)"
proof -
  assume a: "is_pointer T" "i < length (minimal_table T)"
  then have "i < 100" by (cases "T \<in> {v08, pkg, sym, duo}") (auto simp: minimal_table_empty)
  with a show ?thesis using at_fields [of T i] by (simp add: live_def)
qed

lemma sys_live: "live minimal_heap nil" "live minimal_heap nah"
  by (simp_all add: live_def is_pointer_iff)

section \<open>Reading\<close>

lemma minimal_read: "is_pointer T \<Longrightarrow> i < length (minimal_table T) \<Longrightarrow> i < 100 \<Longrightarrow> heap_read T (row_at T i) minimal_heap = Inr (minimal_table T ! i)"
  using at_fields [of T i] by (simp add: heap_read_def heap_check_def tab_read_def)

lemma minimal_get:
  "is_pointer T \<Longrightarrow> i < length (minimal_table T) \<Longrightarrow> i < 100 \<Longrightarrow> column_index T F = Some c \<Longrightarrow>
   heap_get T F (row_at T i) minimal_heap = Inr (minimal_table T ! i ! c)"
  using at_fields [of T i] by (simp add: heap_get_def heap_check_def tab_get_def)

lemma name_slice:
  assumes "i < length nms" "off = length pre" "length pre + sum_list (map length nms) < 2 ^ 32"
  shows "slice (name_slices off nms ! i ! 0) (name_slices off nms ! i ! 1) (pre @ concat (map ascii nms)) = Inr (ascii (nms ! i))
    \<and> unat (name_slices off nms ! i ! 0) + unat (name_slices off nms ! i ! 1) \<le> length (pre @ concat (map ascii nms))"
  using assms
proof (induction nms arbitrary: off pre i)
  case (Cons nm nms)
  show ?case
  proof (cases i)
    case 0
    have "unat (of_nat (length pre) :: u32) = length pre" "unat (of_nat (length nm) :: u32) = length nm"
      using Cons.prems(3) by (simp_all add: unat_of_nat)
    then show ?thesis using Cons.prems 0 by (simp add: slice_def)
  next
    case (Suc j)
    then show ?thesis using Cons.IH [of j "off + length nm" "pre @ ascii nm"] Cons.prems by simp
  qed
qed simp

lemma name_bytes: "sum_list (map length minimal_names) = 805"
  by (simp add: minimal_names_def known_names_def)

lemma minimal_name: "i < 78 \<Longrightarrow> v08slice (row_at v08 i) minimal_heap = Inr (ascii (minimal_names ! i))"
proof -
  assume i: "i < 78"
  then have n: "i < length minimal_names" by (simp add: minimal_names_def)
  have "heap_read v08 (row_at v08 i) minimal_heap = Inr (name_slices 0 minimal_names ! i)"
    using minimal_read [of v08 i] i by simp (simp add: minimal_table_def)
  then show ?thesis using name_slice [OF n, of 0 "[]"] name_bytes by (simp add: v08slice_def minimal_heap_def)
qed

lemma known_index: "i < 73 \<Longrightarrow> minimal_names ! (i + 5) = known_names ! i"
  using nth_append_length_plus [of "[''WISP'', ''KEYWORD'', ''KEY'', ''NIL'', ''T'']" known_names i]
  by (simp add: minimal_names_def add.commute)

lemma minimal_columns:
  "column_index sym F_str = Some 0" "column_index sym F_pkg = Some 1" "column_index pkg F_nam = Some 0" "column_index pkg F_sym = Some 1"
  "column_index duo F_cdr = Some 1" "column_index pkg F_use = Some 2"
  by (simp_all add: column_index_def)

lemma minimal_symbol:
  assumes "i < 73"
  shows "symbol_name minimal_heap (row_at sym i) = Inr (ascii (known_names ! i))" "heap_get sym F_pkg (row_at sym i) minimal_heap = Inr (row_at pkg 0)"
proof -
  have r: "minimal_table sym ! i = [row_at v08 (i + 5), row_at pkg 0, nah, nil, nil]" using assms by (simp add: minimal_table_def)
  have "heap_get sym F_str (row_at sym i) minimal_heap = Inr (row_at v08 (i + 5))"
    using minimal_get [of sym i F_str 0] assms r by (simp add: minimal_columns)
  then show "symbol_name minimal_heap (row_at sym i) = Inr (ascii (known_names ! i))"
    using minimal_name [of "i + 5"] assms known_index by (simp add: symbol_name_def)
  show "heap_get sym F_pkg (row_at sym i) minimal_heap = Inr (row_at pkg 0)"
    using minimal_get [of sym i F_pkg 1] assms r by (simp add: minimal_columns)
qed

lemma minimal_cell: "i < 73 \<Longrightarrow> heap_read duo (row_at duo i) minimal_heap = Inr (symbol_cell i)"
  using minimal_read [of duo i] by simp (simp add: minimal_table_def nth_append)

lemma minimal_package:
  "heap_get pkg F_sym (row_at pkg 0) minimal_heap = Inr (row_at duo 0)"
  "i < 3 \<Longrightarrow> heap_get pkg F_nam (row_at pkg i) minimal_heap = Inr (row_at v08 i)"
proof -
  show "heap_get pkg F_sym (row_at pkg 0) minimal_heap = Inr (row_at duo 0)"
    using minimal_get [of pkg 0 F_sym 1] by (simp add: minimal_columns) (simp add: minimal_table_def)
  assume i: "i < 3"
  then have "minimal_table pkg ! i ! 0 = row_at v08 i" by (auto simp: minimal_table_def less_Suc_eq numeral_3_eq_3 numeral_2_eq_2)
  then show "heap_get pkg F_nam (row_at pkg i) minimal_heap = Inr (row_at v08 i)"
    using minimal_get [of pkg i F_nam 0] i by (simp add: minimal_columns)
qed

section \<open>Looking up the cached symbols\<close>

lemma ascii_inj: "ascii s = ascii t \<longleftrightarrow> s = t"
proof -
  have "c = d" if "(of_char c :: byte) = of_char d" for c d
  proof -
    have "unat (of_char x :: byte) = of_char x" for x
      using nat_of_char_less_256 [of x] by (simp add: unat_of_nat flip: of_nat_of_char [where 'a = byte])
    then have "(of_char c :: nat) = of_char d" using that by metis
    then show ?thesis by simp
  qed
  then have "inj (of_char :: char \<Rightarrow> byte)" by (auto intro: injI)
  then show ?thesis by (simp add: ascii_def inj_map_eq_map)
qed

lemma known_distinct: "distinct known_names"
  by (simp add: known_names_def)

lemma minimal_find:
  assumes "j \<le> i" "i < 73"
  shows "find_symbol minimal_heap (ascii (known_names ! i)) (row_at duo j) = Some (Inr (Some (row_at sym i)))"
  using assms
proof (induction "i - j" arbitrary: j)
  case 0
  then have "j = i" by simp
  then show ?case using 0 minimal_cell [of i] minimal_symbol [of i] at_not_sys [of duo i]
    by (subst find_symbol.simps) (simp add: symbol_cell_def)
next
  case (Suc k)
  then have j: "j < i" "k = i - Suc j" by simp_all
  have "known_names ! j \<noteq> known_names ! i" using known_distinct j Suc.prems by (simp add: nth_eq_iff_index_eq)
  then show ?case using Suc.hyps(1) [OF j(2)] Suc.prems j minimal_cell [of j] minimal_symbol [of j] at_not_sys [of duo j]
    by (subst find_symbol.simps) (simp add: symbol_cell_def ascii_inj)
qed

lemma minimal_known:
  assumes "i < 73"
  shows "ev_known (vm_ev minimal_machine) (ascii (known_names ! i)) = row_at sym i"
proof -
  have "distinct (map ascii known_names)" using known_distinct by (simp add: distinct_map inj_on_def ascii_inj)
  then have "map_of (zip (map ascii known_names) (map (row_at sym) [0..<73])) (map ascii known_names ! i) = Some (map (row_at sym) [0..<73] ! i)"
    using assms by (intro map_of_zip_nth) simp_all
  then show ?thesis using assms by (simp add: minimal_machine_def)
qed

lemma minimal_interned:
  "nm \<in> set known_names \<Longrightarrow>
   find_in_package minimal_heap (ascii nm) (ev_base (vm_ev minimal_machine)) = Some (Inr (Some (ev_known (vm_ev minimal_machine) (ascii nm))))"
proof -
  assume "nm \<in> set known_names"
  then obtain i where i: "i < 73" "nm = known_names ! i" by (metis count_known in_set_conv_nth)
  then show ?thesis using minimal_find [of 0 i] minimal_known [of i] minimal_package(1)
    by (simp add: find_in_package_def) (simp add: minimal_machine_def)
qed

section \<open>The heap is well-formed\<close>

lemma minimal_row_ok: "r \<in> set (minimal_table T) \<Longrightarrow> row_ok T minimal_heap r"
proof -
  assume r: "r \<in> set (minimal_table T)"
  then obtain i where i: "i < length (minimal_table T)" "r = minimal_table T ! i" by (metis in_set_conv_nth)
  have w: "live minimal_heap (row_at v08 k)" if "k < 78" for k using at_live [of v08 k] that by simp
  have s: "live minimal_heap (row_at sym k)" if "k < 73" for k using at_live [of sym k] that by simp
  have d: "live minimal_heap (row_at duo k)" if "k < 76" for k using at_live [of duo k] that by simp
  have p: "live minimal_heap (row_at pkg k)" if "k < 3" for k using at_live [of pkg k] that by simp
  consider "T = v08" | "T = pkg" | "T = sym" | "T = duo" using minimal_table_empty r by force
  then show ?thesis
  proof cases
    case 1
    have n: "i < length minimal_names" using i 1 by (simp add: minimal_table_def)
    have e: "r = name_slices 0 minimal_names ! i" using i 1 by (simp add: minimal_table_def)
    have b: "unat (r ! 0) + unat (r ! 1) \<le> 805"
      using name_slice [OF n, of 0 "[]"] name_bytes minimal_bytes by (simp add: e minimal_heap_def)
    have "length (name_slices off nms ! k) = 2" if "k < length nms" for off nms k
      using that by (induction nms arbitrary: off k) (auto simp: nth_Cons split: nat.split)
    then have l: "length r = 2" using n e by simp
    have "r ! 0 \<noteq> zap"
    proof
      assume z: "r ! 0 = zap"
      have "unat zap = 0x88000003" by (simp add: zap_def immediate_def)
      then show False using b unfolding z by simp
    qed
    then show ?thesis using 1 l b by (simp add: row_ok_def payload_ok_def word_payload_def minimal_bytes less_Suc_eq numeral_2_eq_2)
  next
    case 2
    then show ?thesis using r w d sys_live at_not_sys [of v08]
      by (auto simp: minimal_table_def row_ok_def payload_ok_def word_payload_def less_Suc_eq)
  next
    case 3
    then show ?thesis using r w p sys_live at_not_sys [of v08]
      by (auto simp: minimal_table_def row_ok_def payload_ok_def word_payload_def less_Suc_eq)
  next
    case 4
    then show ?thesis using r s d p sys_live at_not_sys [of sym] at_not_sys [of pkg]
      by (auto simp: minimal_table_def symbol_cell_def row_ok_def payload_ok_def word_payload_def less_Suc_eq)
  qed
qed

lemma minimal_heap_ok: "heap_ok minimal_heap"
proof -
  have "tab_ok (hvat minimal_heap T)" for T
  proof (cases "T \<in> {v08, pkg, sym, duo}")
    case True
    then show ?thesis by (auto simp: tab_ok_def max_rows_eq) (auto simp: minimal_heap_def)
  next
    case False
    then show ?thesis using minimal_table_empty [OF False] by (simp add: tab_ok_def) (simp add: minimal_heap_def)
  qed
  moreover have "\<not> is_pointer T \<Longrightarrow> minimal_table T = []" for T
    by (rule minimal_table_empty) (auto simp: is_pointer_iff)
  moreover note minimal_bytes minimal_row_ok
  ultimately show ?thesis
    by (simp add: heap_ok_def tables_ok_def pools_ok_def pins_ok_def roots_ok_def max_immediate_def) (simp add: minimal_heap_def new_heap_def)
qed

end
