(* ===== verification/Wisp_Roundtrip.thy ===== *)
theory Wisp_Roundtrip
  imports Wisp_Sample Utf8
begin

text \<open>
  What the reader makes of what the printer writes.  The first part reads characters: the
  decoder of the reader agrees with the library's.  The second reads numbers, strings and
  symbols, and the last whole forms, to the round trip of printing and reading.
\<close>

section \<open>The decoder of the reader\<close>

lemma reader_three:
  fixes a b c :: byte
  assumes "224 \<le> unat a" "unat a < 240" "128 \<le> unat b" "unat b < 192" "128 \<le> unat c" "unat c < 192"
  shows "unat (push_bit 6 (push_bit 6 (ucast a AND 0xf) OR (ucast b AND 0x3f)) OR (ucast c AND 0x3f) :: u32)
    = 4096 * (unat a - 224) + 64 * (unat b - 128) + (unat c - 128)"
proof -
  let ?y = "push_bit 6 (ucast a AND 0xf) OR (ucast b AND 0x3f) :: u32"
  have a: "unat a mod 16 = unat a - 224" using assms band_mod [of 14 16 "unat a"] by simp
  have y: "unat ?y = 64 * (unat a - 224) + (unat b - 128)"
    using unat_or_push [of "ucast b AND 0x3f" 6 "ucast a AND 0xf"] a assms by (simp add: unat_and_low cont_mod)
  have "unat (push_bit 6 ?y OR (ucast c AND 0x3f)) = 64 * unat ?y + unat (ucast c AND 0x3f :: u32)"
    using unat_or_push [of "ucast c AND 0x3f" 6 ?y] y assms by (simp add: unat_and_low)
  then show ?thesis unfolding y using assms by (simp add: unat_and_low cont_mod add.assoc [symmetric])
qed

lemma reader_four:
  fixes a b c d :: byte
  assumes "240 \<le> unat a" "unat a < 245" "128 \<le> unat b" "unat b < 192" "128 \<le> unat c" "unat c < 192" "128 \<le> unat d" "unat d < 192"
  shows "unat (push_bit 6 (push_bit 6 (push_bit 6 (ucast a AND 7) OR (ucast b AND 0x3f)) OR (ucast c AND 0x3f)) OR (ucast d AND 0x3f) :: u32)
    = 262144 * (unat a - 240) + 4096 * (unat b - 128) + 64 * (unat c - 128) + (unat d - 128)"
proof -
  let ?y = "push_bit 6 (ucast a AND 7) OR (ucast b AND 0x3f) :: u32"
  let ?z = "push_bit 6 ?y OR (ucast c AND 0x3f)"
  have a: "unat a mod 8 = unat a - 240" using assms band_mod [of 30 8 "unat a"] by simp
  have y: "unat ?y = 64 * (unat a - 240) + (unat b - 128)"
    using unat_or_push [of "ucast b AND 0x3f" 6 "ucast a AND 7"] a assms by (simp add: unat_and_low cont_mod)
  have z: "unat ?z = 4096 * (unat a - 240) + 64 * (unat b - 128) + (unat c - 128)"
    using unat_or_push [of "ucast c AND 0x3f" 6 ?y] y assms by (simp add: unat_and_low cont_mod add.assoc [symmetric])
  have "unat (push_bit 6 ?z OR (ucast d AND 0x3f)) = 64 * unat ?z + unat (ucast d AND 0x3f :: u32)"
    using unat_or_push [of "ucast d AND 0x3f" 6 ?z] z assms by (simp add: unat_and_low)
  moreover have "unat (ucast d AND 0x3f :: u32) = unat d - 128" using assms by (simp add: unat_and_low cont_mod)
  ultimately show ?thesis using z by (simp only: distrib_left mult.assoc [symmetric])
qed

lemma lead_width_num:
  "lead_width a = (if 194 \<le> unat a \<and> unat a < 224 then 2 else if 224 \<le> unat a \<and> unat a < 240 then 3
     else if 240 \<le> unat a \<and> unat a < 245 then 4 else 0)"
  by (simp add: lead_width_def word_le_nat_alt)

lemma peek_drop: "drop pos src = s \<Longrightarrow> peek src pos = (if s = [] then Inr eof else
    if hd s < 0x80 then Inr (ucast (hd s))
    else if lead_width (hd s) = 0 \<or> length s < lead_width (hd s) then Inl (ReadError pos ''invalid or truncated UTF-8'')
    else case continuation (take (lead_width (hd s) - 1) (tl s)) (ucast (hd s) AND drop_bit (lead_width (hd s)) 0x7f) of
        None \<Rightarrow> Inl (ReadError pos ''invalid UTF-8 continuation'')
      | Some c \<Rightarrow> if (lead_width (hd s) = 3 \<and> c < 0x800) \<or> (lead_width (hd s) = 4 \<and> c < 0x10000) \<or> (c \<ge> 0xd800 \<and> c \<le> 0xdfff) \<or> c > 0x10ffff
          then Inl (ReadError pos ''invalid UTF-8 scalar'') else Inr c)"
proof -
  assume s: "drop pos src = s"
  show ?thesis
  proof (cases "pos < length src")
    case True
    then have ne: "s \<noteq> []" and e: "hd s = src ! pos" "tl s = drop (pos + 1) src" "length s = length src - pos"
      using s by (auto simp: hd_drop_conv_nth tl_drop drop_Suc)
    show ?thesis unfolding e using True ne by (simp add: peek_def Let_def)
  qed (use s in \<open>simp add: peek_def\<close>)
qed

lemma peek_two:
  assumes "drop pos src = a # t" "194 \<le> unat a" "unat a < 224"
  shows "peek src pos = Inr c \<longleftrightarrow> iterate_spec (map unat (a # t)) 2 (unat c)"
proof (cases t)
  case Nil
  then show ?thesis using assms by (simp add: peek_drop [OF assms(1)] lead_width_num word_less_nat_alt iterate_spec_def)
next
  case (Cons b r)
  let ?v = "push_bit 6 (ucast a AND 0x1f) OR (ucast b AND 0x3f) :: u32"
  show ?thesis
  proof (cases "utf_cont b")
    case False
    then have "peek src pos = Inl (ReadError pos ''invalid UTF-8 continuation'')"
      using assms Cons by (simp add: peek_drop [OF assms(1)] lead_width_num word_less_nat_alt utf_cont_def)
    then show ?thesis using False assms Cons by (auto simp: iterate_spec_def utf_cont_range)
  next
    case True
    then have v: "unat ?v = 64 * (unat a - 192) + (unat b - 128)" using two_bytes [of a b] assms by (simp add: utf_cont_range)
    then have "unat ?v < 2048" using assms True by (simp only: utf_cont_range) linarith
    then have "peek src pos = Inr ?v"
      using assms Cons True by (simp add: peek_drop [OF assms(1)] lead_width_num word_less_nat_alt word_le_nat_alt utf_cont_def)
    then show ?thesis using v assms Cons True by (auto simp: iterate_spec_def utf_cont_range word_unat_eq_iff)
  qed
qed

lemma surrogate_num:
  fixes A B C :: nat
  assumes "224 \<le> A" "A < 240" "128 \<le> B" "B < 192" "128 \<le> C" "C < 192"
  defines "x \<equiv> 4096 * (A - 224) + 64 * (B - 128) + (C - 128)"
  shows "x < 65536" "0xd800 \<le> x \<and> x \<le> 0xdfff \<longleftrightarrow> A = 237 \<and> 159 < B"
proof -
  obtain h m l where v: "A = 224 + h" "B = 128 + m" "C = 128 + l"
    using le_Suc_ex [of 224 A] le_Suc_ex [of 128 B] le_Suc_ex [of 128 C] assms by blast
  have x: "x = 4096 * h + 64 * m + l" and b: "h < 16" "m < 64" "l < 64" using assms by (simp_all add: v)
  show "x < 65536" using x b by linarith
  show "0xd800 \<le> x \<and> x \<le> 0xdfff \<longleftrightarrow> A = 237 \<and> 159 < B"
  proof
    assume r: "0xd800 \<le> x \<and> x \<le> 0xdfff"
    then have h: "h = 13" using x b by linarith
    then have "31 < m" using r x b by linarith
    then show "A = 237 \<and> 159 < B" using h v by simp
  next
    assume "A = 237 \<and> 159 < B"
    then show "0xd800 \<le> x \<and> x \<le> 0xdfff" using x b v by simp
  qed
qed

lemma supplementary_num:
  fixes A B C D :: nat
  assumes "240 \<le> A" "A < 245" "128 \<le> B" "B < 192" "128 \<le> C" "C < 192" "128 \<le> D" "D < 192"
  defines "x \<equiv> 262144 * (A - 240) + 4096 * (B - 128) + 64 * (C - 128) + (D - 128)"
  shows "x < 0x10000 \<longleftrightarrow> A = 240 \<and> B < 144" "0x10ffff < x \<longleftrightarrow> A = 244 \<and> 143 < B" "x < 0x140000"
proof -
  obtain h g m l where v: "A = 240 + h" "B = 128 + g" "C = 128 + m" "D = 128 + l"
    using le_Suc_ex [of 240 A] le_Suc_ex [of 128 B] le_Suc_ex [of 128 C] le_Suc_ex [of 128 D] assms by blast
  have x: "x = 262144 * h + 4096 * g + 64 * m + l" and b: "h < 5" "g < 64" "m < 64" "l < 64" using assms by (simp_all add: v)
  show "x < 0x140000" using x b by linarith
  show "x < 0x10000 \<longleftrightarrow> A = 240 \<and> B < 144"
  proof (cases "h = 0")
    case True
    then show ?thesis using x b v by (simp add: v) linarith
  next
    case False
    then have "0x10000 \<le> x" using x by linarith
    then show ?thesis using False v by simp
  qed
  show "0x10ffff < x \<longleftrightarrow> A = 244 \<and> 143 < B"
  proof (cases "h = 4")
    case True
    then show ?thesis using x b v by (simp add: v) linarith
  next
    case False
    then have "h < 4" using b by simp
    then have "x \<le> 0x10ffff" using x b by linarith
    then show ?thesis using False v by simp
  qed
qed

lemma peek_three:
  assumes "drop pos src = a # t" "224 \<le> unat a" "unat a < 240"
  shows "peek src pos = Inr c \<longleftrightarrow> iterate_spec (map unat (a # t)) 3 (unat c)"
proof (cases "length t < 2")
  case True
  then show ?thesis using assms by (simp add: peek_drop [OF assms(1)] lead_width_num word_less_nat_alt iterate_spec_def)
next
  case False
  then obtain b d r where t: "t = b # d # r" by (cases t; cases "tl t") auto
  let ?v = "push_bit 6 (push_bit 6 (ucast a AND 0xf) OR (ucast b AND 0x3f)) OR (ucast d AND 0x3f) :: u32"
  let ?x = "4096 * (unat a - 224) + 64 * (unat b - 128) + (unat d - 128)"
  have w: "lead_width a = 3" "\<not> a < 0x80" using assms by (simp_all add: lead_width_num word_less_nat_alt)
  have tk: "take (3 - 1) t = [b, d]" "\<not> length (a # t) < 3" by (simp_all add: t numeral_eq_Suc)
  have dm: "drop_bit 3 (0x7f :: u32) = 0xf" by simp
  note pk = peek_drop [OF assms(1), unfolded list.sel w tk dm, simplified w tk list.distinct if_False HOL.simp_thms]
  show ?thesis
  proof (cases "utf_cont b \<and> utf_cont d")
    case False
    then have "continuation [b, d] k = None" for k by (auto simp: utf_cont_def)
    then have "peek src pos = Inl (ReadError pos ''invalid UTF-8 continuation'')"
      by (simp add: pk del: continuation.simps)
    then show ?thesis using False assms t by (auto simp: iterate_spec_def utf_cont_range numeral_2_eq_2)
  next
    case True
    then have r: "128 \<le> unat b" "unat b < 192" "128 \<le> unat d" "unat d < 192" by (simp_all add: utf_cont_range)
    have v: "unat ?v = ?x" using reader_three [of a b d] assms r by simp
    have "continuation [b, d] (ucast a AND 0xf) = Some ?v" using True by (simp add: utf_cont_def)
    then have p: "peek src pos = (if ?v < 0x800 \<or> (?v \<ge> 0xd800 \<and> ?v \<le> 0xdfff) \<or> ?v > 0x10ffff
        then Inl (ReadError pos ''invalid UTF-8 scalar'') else Inr ?v)"
      by (simp add: pk del: continuation.simps push_bit_and push_bit_or)
    note s = surrogate_num [OF assms(2,3) r]
    have "peek src pos = Inr c \<longleftrightarrow> unat c = ?x \<and> \<not> ?x < 2048 \<and> \<not> (unat a = 237 \<and> 159 < unat b)"
      unfolding p using s v by (auto simp: word_unat_eq_iff word_less_nat_alt word_le_nat_alt)
    then show ?thesis using assms t r by (simp add: iterate_spec_def numeral_2_eq_2) linarith
  qed
qed

lemma peek_four:
  assumes "drop pos src = a # t" "240 \<le> unat a" "unat a < 245"
  shows "peek src pos = Inr c \<longleftrightarrow> iterate_spec (map unat (a # t)) 4 (unat c)"
proof (cases "length t < 3")
  case True
  then show ?thesis using assms by (simp add: peek_drop [OF assms(1)] lead_width_num word_less_nat_alt iterate_spec_def)
next
  case False
  then obtain b d e r where t: "t = b # d # e # r" by (cases t; cases "tl t"; cases "tl (tl t)") auto
  let ?v = "push_bit 6 (push_bit 6 (push_bit 6 (ucast a AND 7) OR (ucast b AND 0x3f)) OR (ucast d AND 0x3f)) OR (ucast e AND 0x3f) :: u32"
  let ?x = "262144 * (unat a - 240) + 4096 * (unat b - 128) + 64 * (unat d - 128) + (unat e - 128)"
  have w: "lead_width a = 4" "\<not> a < 0x80" using assms by (simp_all add: lead_width_num word_less_nat_alt)
  have tk: "take (4 - 1) t = [b, d, e]" "\<not> length (a # t) < 4" by (simp_all add: t numeral_eq_Suc)
  have dm: "drop_bit 4 (0x7f :: u32) = 7" by simp
  note pk = peek_drop [OF assms(1), unfolded list.sel w tk dm, simplified w tk list.distinct if_False HOL.simp_thms]
  show ?thesis
  proof (cases "utf_cont b \<and> utf_cont d \<and> utf_cont e")
    case False
    then have "continuation [b, d, e] k = None" for k by (auto simp: utf_cont_def)
    then have "peek src pos = Inl (ReadError pos ''invalid UTF-8 continuation'')"
      by (simp add: pk del: continuation.simps)
    then show ?thesis using False assms t by (auto simp: iterate_spec_def utf_cont_range numeral_3_eq_3 numeral_2_eq_2)
  next
    case True
    then have r: "128 \<le> unat b" "unat b < 192" "128 \<le> unat d" "unat d < 192" "128 \<le> unat e" "unat e < 192" by (simp_all add: utf_cont_range)
    have v: "unat ?v = ?x" using reader_four [of a b d e] assms r by simp
    have "continuation [b, d, e] (ucast a AND 7) = Some ?v" using True by (simp add: utf_cont_def)
    then have p: "peek src pos = (if ?v < 0x10000 \<or> (?v \<ge> 0xd800 \<and> ?v \<le> 0xdfff) \<or> ?v > 0x10ffff
        then Inl (ReadError pos ''invalid UTF-8 scalar'') else Inr ?v)"
      by (simp add: pk del: continuation.simps push_bit_and push_bit_or)
    note s = supplementary_num [OF assms(2,3) r]
    have "peek src pos = Inr c \<longleftrightarrow> unat c = ?x \<and> \<not> ?x < 0x10000 \<and> \<not> 0x10ffff < ?x"
      unfolding p using v by (auto simp: word_unat_eq_iff word_less_nat_alt word_le_nat_alt)
    then show ?thesis using assms t r s(1,2) by (simp add: iterate_spec_def numeral_3_eq_3 numeral_2_eq_2) blast
  qed
qed

lemma peek_ascii:
  assumes "drop pos src = b # r" "b < 0x80"
  shows "peek src pos = Inr (ucast b)" "take_char src pos = Inr (ucast b, pos + 1)"
proof -
  show p: "peek src pos = Inr (ucast b)" using assms(2) by (simp add: peek_drop [OF assms(1)])
  have u: "unat (ucast b :: u32) < 128" using assms(2) by (simp add: word_less_nat_alt)
  have e: "unat eof = 0x110000" by (simp add: eof_def)
  have "(ucast b :: u32) \<noteq> eof"
  proof
    assume "(ucast b :: u32) = eof"
    then have "unat (ucast b :: u32) = unat eof" by (rule arg_cong)
    then show False using u e by linarith
  qed
  moreover have "char_size (ucast b) = 1" using u by (simp add: char_size_def word_less_nat_alt)
  ultimately show "take_char src pos = Inr (ucast b, pos + 1)" using p by (simp add: take_char_def)
qed

lemma peek_spec:
  assumes "drop pos src = a # t"
  shows "peek src pos = Inr c \<longleftrightarrow> (\<exists>n. iterate_spec (map unat (a # t)) n (unat c))"
proof -
  consider "unat a < 128" | "128 \<le> unat a" "unat a < 194 \<or> 245 \<le> unat a" | "194 \<le> unat a" "unat a < 224"
    | "224 \<le> unat a" "unat a < 240" | "240 \<le> unat a" "unat a < 245" by linarith
  then show ?thesis
  proof cases
    case 1
    then have "a < 0x80" by (simp add: word_less_nat_alt)
    then show ?thesis using peek_ascii(1) [OF assms] 1 by (auto simp: iterate_spec_def word_unat_eq_iff)
  next
    case 2
    then show ?thesis by (auto simp: peek_drop [OF assms] lead_width_num word_less_nat_alt iterate_spec_def)
  next
    case 3
    then show ?thesis using peek_two [OF assms] by (auto simp: iterate_spec_def)
  next
    case 4
    then show ?thesis using peek_three [OF assms] by (auto simp: iterate_spec_def)
  next
    case 5
    then show ?thesis using peek_four [OF assms] by (auto simp: iterate_spec_def)
  qed
qed

lemma char_size_encoding: "utf8proc_codepoint_valid c \<Longrightarrow> char_size c = length (utf8proc_encode_char c)"
  using arg_cong [OF encode_num [of c], of length] by (auto simp: valid_num char_size_def encoding_def word_less_nat_alt)

lemma valid_not_eof: "utf8proc_codepoint_valid c \<Longrightarrow> c \<noteq> eof"
  by (auto simp: valid_num eof_def)

lemma peek_iterate:
  assumes "pos < length src"
  shows "peek src pos = Inr c \<longleftrightarrow> utf8proc_iterate (drop pos src) = Some (char_size c, c)"
proof -
  obtain a t where s: "drop pos src = a # t" using assms by (cases "drop pos src") auto
  have "peek src pos = Inr c \<longleftrightarrow> (\<exists>n. utf8proc_iterate (drop pos src) = Some (n, c))"
    unfolding peek_spec [OF s] s iterate_num ..
  also have "\<dots> \<longleftrightarrow> utf8proc_iterate (drop pos src) = Some (char_size c, c)"
    using decode_iff [of "drop pos src"] s char_size_encoding by auto
  finally show ?thesis .
qed

lemma take_encoded:
  assumes "drop pos src = utf8proc_encode_char c @ r" "utf8proc_codepoint_valid c"
  shows "take_char src pos = Inr (c, pos + length (utf8proc_encode_char c))"
proof -
  have ne: "drop pos src \<noteq> []" using assms encode_char_nonempty by auto
  then have "pos < length src" by simp
  moreover have "utf8proc_iterate (drop pos src) = Some (char_size c, c)"
    using ne assms char_size_encoding by (simp add: decode_iff)
  ultimately have "peek src pos = Inr c" using peek_iterate by blast
  then show ?thesis using valid_not_eof [OF assms(2)] char_size_encoding [OF assms(2)] by (simp add: take_char_def)
qed

section \<open>Reading tokens\<close>

lemma drop_Cons_step: "drop pos src = b # r \<Longrightarrow> drop (pos + 1) src = r"
  by (metis drop_drop drop_Suc_Cons drop0 add.commute One_nat_def plus_1_eq_Suc)

lemma drop_append_step: "drop pos src = s @ r \<Longrightarrow> drop (pos + length s) src = r"
  by (metis add.commute append_eq_conv_conj drop_drop)

text \<open>The text after a token: the end, a blank or a closing parenthesis.\<close>

definition delimited :: "bytes \<Rightarrow> bool" where
  "delimited r \<longleftrightarrow> r = [] \<or> hd r = 0x20 \<or> hd r = 0x29"

lemma delimited_simps [simp]: "delimited []" "delimited (0x20 # r)" "delimited (0x29 # r)"
  by (simp_all add: delimited_def)

lemma peek_delimited:
  assumes "drop pos src = r" "delimited r"
  shows "\<exists>c. peek src pos = Inr c \<and> \<not> digit c \<and> \<not> constituent c"
proof (cases r)
  case Nil
  then show ?thesis using assms by (simp add: peek_drop digit_def constituent_def eof_def symbol_ranges_def)
next
  case (Cons b r')
  then have b: "b = 0x20 \<or> b = 0x29" using assms(2) by (simp add: delimited_def)
  then have "b < 0x80" by auto
  then have "peek src pos = Inr (ucast b)" using peek_ascii(1) assms(1) Cons by blast
  then show ?thesis using b by (auto simp: digit_def constituent_def)
qed

fun digits_of :: "nat \<Rightarrow> nat list" where
  "digits_of n = (if n < 10 then [n] else digits_of (n div 10) @ [n mod 10])"

declare digits_of.simps [simp del]

lemma decimal_digits_map: "decimal_digits n = map (\<lambda>d. 0x30 + of_nat d) (digits_of n)"
proof (induction n rule: digits_of.induct)
  case (1 n)
  then show ?case by (subst decimal_digits.simps, subst digits_of.simps) simp
qed

lemma digits_small: "d \<in> set (digits_of n) \<Longrightarrow> d < 10"
proof (induction n rule: digits_of.induct)
  case (1 n)
  then show ?case by (subst (asm) digits_of.simps) (auto split: if_splits)
qed

lemma digits_value: "foldl (\<lambda>r d. r * 10 + d) 0 (digits_of n) = n"
proof (induction n rule: digits_of.induct)
  case (1 n)
  then show ?case by (subst digits_of.simps) simp
qed

lemma digits_length: "n < 10 ^ Suc k \<Longrightarrow> length (digits_of n) \<le> Suc k"
proof (induction k arbitrary: n)
  case 0
  then show ?case by (subst digits_of.simps) simp
next
  case (Suc k)
  have "n div 10 < 10 ^ Suc k" using Suc.prems by (simp add: div_less_iff_less_mult mult.commute)
  from Suc.IH [OF this] show ?case by (subst digits_of.simps) simp
qed

lemma foldl_digits_ge: "r \<le> foldl (\<lambda>r d. r * 10 + d) r (ds :: nat list)"
proof (induction ds arbitrary: r)
  case (Cons d ds)
  have "r \<le> r * 10 + d" by simp
  also have "\<dots> \<le> foldl (\<lambda>r d. r * 10 + d) (r * 10 + d) ds" by (rule Cons)
  finally show ?case by simp
qed simp

lemma digit_char:
  assumes "d < 10"
  shows "digit (ucast (0x30 + of_nat d :: byte))" "unat ((ucast (0x30 + of_nat d :: byte) :: u32) - 0x30) = d" "(0x30 + of_nat d :: byte) < 0x80"
proof -
  have u: "unat (0x30 + of_nat d :: byte) = 48 + d" using assms by (simp add: unat_plus_if' unat_of_nat)
  show "digit (ucast (0x30 + of_nat d :: byte))" using u assms by (simp add: digit_def word_le_nat_alt)
  show "unat ((ucast (0x30 + of_nat d :: byte) :: u32) - 0x30) = d" using u by (simp add: unat_sub_if')
  show "(0x30 + of_nat d :: byte) < 0x80" using u assms by (simp add: word_less_nat_alt)
qed

lemma number_from_digits:
  assumes "drop pos src = map (\<lambda>d. 0x30 + of_nat d) ds @ r" "delimited r" "\<forall>d \<in> set ds. d < 10"
    "foldl (\<lambda>r d. r * 10 + d) v ds \<le> nat max_fixnum" "k + length ds \<le> 10"
  shows "number_from src pos v k = Inr (foldl (\<lambda>r d. r * 10 + d) v ds, pos + length ds)"
  using assms
proof (induction ds arbitrary: pos v k)
  case Nil
  then show ?case using peek_delimited [of pos src r] by (subst number_from.simps) auto
next
  case (Cons d ds)
  let ?b = "0x30 + of_nat d :: byte"
  have s: "drop pos src = ?b # map (\<lambda>d. 0x30 + of_nat d) ds @ r" using Cons.prems(1) by simp
  have d: "d < 10" using Cons.prems(3) by simp
  note pc = peek_ascii [OF s digit_char(3) [OF d]]
  have "v * 10 + d \<le> nat max_fixnum" using Cons.prems(4) foldl_digits_ge [of "v * 10 + d" ds] by simp
  then have ov: "\<not> v > (nat max_fixnum - d) div 10" by linarith
  have "number_from src pos v k = number_from src (pos + 1) (v * 10 + d) (k + 1)"
    using pc digit_char [OF d] ov Cons.prems(5) by (subst number_from.simps) (simp add: Let_def)
  also have "\<dots> = Inr (foldl (\<lambda>r d. r * 10 + d) (v * 10 + d) ds, pos + 1 + length ds)"
    by (rule Cons.IH) (use Cons.prems drop_Cons_step [OF s] in simp_all)
  finally show ?case by simp
qed

lemma number_decimal:
  assumes "drop pos src = decimal_digits n @ r" "delimited r" "n \<le> nat max_fixnum"
  shows "number src pos = Inr (of_nat n, pos + length (decimal_digits n))"
proof -
  have "n < 10 ^ Suc 9" using assms(3) by (simp add: max_fixnum_def)
  then have "length (digits_of n) \<le> 10" using digits_length [of n 9] by simp
  then have "number_from src pos 0 0 = Inr (foldl (\<lambda>r d. r * 10 + d) 0 (digits_of n), pos + length (digits_of n))"
    using assms digits_small by (intro number_from_digits) (auto simp: decimal_digits_map digits_value)
  then show ?thesis by (simp add: number_def digits_value decimal_digits_map)
qed

text \<open>Escaping acts on single ASCII characters; the bytes of a longer encoding are copied.\<close>

lemma encode_high_bytes: "utf8proc_codepoint_valid c \<Longrightarrow> \<not> c < 0x80 \<Longrightarrow> b \<in> set (utf8proc_encode_char c) \<Longrightarrow> 0x80 \<le> b"
proof -
  assume c: "utf8proc_codepoint_valid c" "\<not> c < 0x80" "b \<in> set (utf8proc_encode_char c)"
  then have "unat b \<in> set (encoding (unat c))" using encode_num [of c] by (metis image_eqI list.set_map valid_num)
  then have "128 \<le> unat b" using c(2) by (auto simp: encoding_def word_less_nat_alt split: if_splits)
  then show ?thesis by (simp add: word_le_nat_alt)
qed

lemma escape_high: "0x80 \<le> b \<Longrightarrow> escape b = [b]"
  by (auto simp: escape.simps word_le_nat_alt)

lemma escape_encoded:
  assumes "utf8proc_codepoint_valid c"
  shows "concat (map escape (utf8proc_encode_char c)) =
    (if c = 0x22 then [0x5c, 0x22] else if c = 0x5c then [0x5c, 0x5c] else if c = 0x0a then [0x5c, 0x6e] else utf8proc_encode_char c)"
proof (cases "c < 0x80")
  case True
  have "\<not> c <s 0"
  proof -
    have "sint (of_nat (unat c) :: u32) = int (unat c)" using True
      by (simp add: signed_of_nat signed_take_bit_int_eq_self word_less_nat_alt del: of_nat_unat)
    then show ?thesis by (simp add: word_sless_alt)
  qed
  then have e: "utf8proc_encode_char c = [ucast c]" using True by (simp add: utf8proc_encode_char_def)
  have u: "unat (ucast c :: byte) = unat c" using True by (intro ucast_num) (simp add: word_less_nat_alt)
  have "(ucast c = (of_nat n :: byte)) \<longleftrightarrow> c = of_nat n" if "n < 128" for n
    using u that by (simp add: word_unat_eq_iff unat_of_nat)
  from this [of 34] this [of 92] this [of 10] show ?thesis by (simp add: e escape.simps)
next
  case False
  have "concat (map escape bs) = bs" if "\<forall>b \<in> set bs. 0x80 \<le> b" for bs
    using that by (induction bs) (simp_all add: escape_high)
  moreover have "c \<noteq> 0x22" "c \<noteq> 0x5c" "c \<noteq> 0x0a" using False by auto
  ultimately show ?thesis using encode_high_bytes [OF assms False] by simp
qed

lemma string_from_escaped:
  assumes "\<forall>c \<in> set cs. utf8proc_codepoint_valid c" "drop pos src = concat (map escape (encode_all cs)) @ 0x22 # r"
  shows "string_from src pos str = Inr (str @ encode_all cs, pos + length (concat (map escape (encode_all cs))) + 1)"
  using assms
proof (induction cs arbitrary: pos str)
  case Nil
  then have s: "drop pos src = 0x22 # r" by simp
  show ?case using peek_ascii(2) [OF s] by (subst string_from.simps) simp
next
  case (Cons c cs)
  have v: "utf8proc_codepoint_valid c" using Cons.prems by simp
  let ?e = "concat (map escape (utf8proc_encode_char c))" and ?t = "concat (map escape (encode_all cs)) @ 0x22 # r"
  have s: "drop pos src = ?e @ ?t" using Cons.prems(2) by simp
  have IH: "string_from src (pos + length ?e) str' = Inr (str' @ encode_all cs, pos + length ?e + length (concat (map escape (encode_all cs))) + 1)" for str'
    by (rule Cons.IH) (use Cons.prems(1) drop_append_step [OF s] in simp_all)
  have "string_from src pos str = string_from src (pos + length ?e) (str @ utf8proc_encode_char c)"
  proof (cases "c = 0x22 \<or> c = 0x5c \<or> c = 0x0a")
    case True
    then obtain x where e: "?e = [0x5c, x]" "x = (if c = 0x0a then 0x6e else ucast c)" "utf8proc_encode_char c = [ucast c]"
      using escape_encoded [OF v] by (auto simp: utf8proc_encode_char_def word_sless_alt)
    have s1: "drop pos src = 0x5c # x # ?t" using s e(1) by simp
    have s2: "drop (pos + 1) src = x # ?t" by (rule drop_Cons_step [OF s1])
    have x: "x < 0x80" using True e(2) by auto
    show ?thesis using peek_ascii(2) [OF s1] peek_ascii(2) [OF s2 x] True e(2) by (subst string_from.simps) (auto simp: e(3) escape.simps)
  next
    case False
    then have e: "?e = utf8proc_encode_char c" using escape_encoded [OF v] by simp
    note t = take_encoded [OF s [unfolded e] v]
    have "take (length (utf8proc_encode_char c)) (drop pos src) = utf8proc_encode_char c" using s e by simp
    then show ?thesis using t False by (subst string_from.simps) (simp add: e)
  qed
  then show ?case using IH by (simp add: add.assoc)
qed

text \<open>Names that read back as they are written.\<close>

definition plain_char :: "byte \<Rightarrow> bool" where
  "plain_char b \<longleftrightarrow> b < 0x80 \<and> constituent (ucast b) \<and> \<not> (0x61 \<le> b \<and> b \<le> 0x7a) \<and> b \<noteq> 0x3a"

definition plain_name :: "bytes \<Rightarrow> bool" where
  "plain_name nm \<longleftrightarrow> nm \<noteq> [] \<and> (\<forall>b \<in> set nm. plain_char b) \<and> \<not> digit (ucast (hd nm)) \<and> hd nm \<noteq> 0x2e"

lemma name_end_plain:
  assumes "drop pos src = nm @ r" "delimited r" "\<forall>b \<in> set nm. plain_char b"
  shows "name_end src pos = Inr (pos + length nm)"
  using assms
proof (induction nm arbitrary: pos)
  case Nil
  then show ?case using peek_delimited [of pos src r] by (subst name_end.simps) auto
next
  case (Cons b nm)
  have s: "drop pos src = b # nm @ r" using Cons.prems(1) by simp
  have b: "b < 0x80" "constituent (ucast b)" using Cons.prems(3) by (simp_all add: plain_char_def)
  have "name_end src pos = name_end src (pos + 1)"
    using peek_ascii [OF s b(1)] b(2) by (subst name_end.simps) simp
  also have "\<dots> = Inr (pos + 1 + length nm)" by (rule Cons.IH) (use Cons.prems drop_Cons_step [OF s] in simp_all)
  finally show ?case by simp
qed

lemma name_plain:
  assumes "drop pos src = nm @ r" "delimited r" "\<forall>b \<in> set nm. plain_char b"
  shows "name src pos = Inr (nm, pos + length nm)"
proof -
  have "map upcase nm = nm" using assms(3) by (simp add: map_idI plain_char_def upcase_def)
  then show ?thesis using name_end_plain [OF assms] assms(1) by (simp add: name_def)
qed

lemma read_symbol_plain:
  assumes "drop pos src = nm @ r" "delimited r" "\<forall>b \<in> set nm. plain_char b" "intern ev nm (ev_current ev) h = Some (Inr (x, h))"
  shows "read_symbol src ev pos h = Some (Inr (x, pos + length nm, h))"
proof -
  have "takeWhile (\<lambda>b. b \<noteq> 0x3a) nm = nm" using assms(3) by (simp add: takeWhile_eq_all_conv plain_char_def)
  then have "length (takeWhile (\<lambda>b. b \<noteq> 0x3a) nm) = length nm" by (rule arg_cong)
  then show ?thesis using name_plain [OF assms(1-3)] assms(4) by (simp add: read_symbol_def at_symbol_def Let_def)
qed

section \<open>Looking up symbols\<close>

inductive finds :: "heap \<Rightarrow> bytes \<Rightarrow> wword \<Rightarrow> wword \<Rightarrow> bool" for h nm where
  finds_here: "cur \<noteq> nil \<Longrightarrow> heap_read duo cur h = Inr row \<Longrightarrow> symbol_name h (row ! 0) = Inr nm \<Longrightarrow> finds h nm cur (row ! 0)"
| finds_later: "cur \<noteq> nil \<Longrightarrow> heap_read duo cur h = Inr row \<Longrightarrow> symbol_name h (row ! 0) = Inr s \<Longrightarrow> s \<noteq> nm
    \<Longrightarrow> finds h nm (row ! 1) x \<Longrightarrow> finds h nm cur x"

lemma find_symbol_finds: "finds h nm cur x \<Longrightarrow> find_symbol h nm cur = Some (Inr (Some x))"
  by (induction rule: finds.induct) (subst find_symbol.simps, simp)+

text \<open>A symbol the current package owns under its name.\<close>

definition owned_symbol :: "heap \<Rightarrow> evaluator \<Rightarrow> wword \<Rightarrow> bytes \<Rightarrow> bool" where
  "owned_symbol h ev x nm \<longleftrightarrow> nm \<noteq> ascii ''NIL'' \<and> nm \<noteq> ascii ''T''
     \<and> (\<exists>cur. heap_get pkg F_sym (ev_current ev) h = Inr cur \<and> finds h nm cur x)"

lemma intern_owned: "owned_symbol h ev x nm \<Longrightarrow> intern ev nm (ev_current ev) h = Some (Inr (x, h))"
  using find_symbol_finds by (fastforce simp: owned_symbol_def intern_def find_in_package_def)

section \<open>What growing the heap keeps\<close>

lemma keeps_read: "keeps h h' \<Longrightarrow> heap_read T x h = Inr r \<Longrightarrow> heap_read T x h' = Inr r"
  by (simp add: keeps_def)

lemma keeps_get: "keeps h h' \<Longrightarrow> heap_get T F x h = Inr v \<Longrightarrow> heap_get T F x h' = Inr v"
proof -
  assume k: "keeps h h'" and g: "heap_get T F x h = Inr v"
  obtain c i where c: "column_index T F = Some c" "heap_check T x h = Inr i" "v = tab_get i c (hvat h T)"
    using g by (auto simp: heap_get_def map_sum_def split: option.splits sum.splits)
  then have "heap_read T x h = Inr (trows (hvat h T) ! i)" by (simp add: heap_read_def tab_read_def)
  from keeps_read [OF k this] show ?thesis using c
    by (auto simp: heap_get_def heap_read_def tab_read_def tab_get_def map_sum_def split: sum.splits)
qed

lemma keeps_v08: "keeps h h' \<Longrightarrow> v08slice x h = Inr bs \<Longrightarrow> v08slice x h' = Inr bs"
  by (rule keeps_slices)

lemma keeps_symbol_name: "keeps h h' \<Longrightarrow> symbol_name h x = Inr n \<Longrightarrow> symbol_name h' x = Inr n"
  using keeps_get keeps_v08 by (fastforce simp: symbol_name_def split: sum.splits)

lemma keeps_symbol_prefix: "keeps h h' \<Longrightarrow> symbol_prefix h current p = Inr n \<Longrightarrow> symbol_prefix h' current p = Inr n"
proof -
  assume k: "keeps h h'" and s: "symbol_prefix h current p = Inr n"
  show ?thesis
  proof (cases "p = nil")
    case False
    then obtain nam nm where "heap_get pkg F_nam p h = Inr nam" "v08slice nam h = Inr nm"
      using s by (auto simp: symbol_prefix_def split: sum.splits)
    then show ?thesis using False s keeps_get [OF k] keeps_v08 [OF k] by (simp add: symbol_prefix_def)
  qed (use s in \<open>simp add: symbol_prefix_def\<close>)
qed

lemma keeps_denotes:
  assumes "keeps h h'" "denotes h current x s"
  shows "denotes h' current x s"
  using assms(2)
proof (induction rule: denotes.induct)
  case (denotes_symbol x package nm)
  then show ?case using keeps_get [OF assms(1)] keeps_symbol_prefix [OF assms(1)] keeps_symbol_name [OF assms(1)]
    by (blast intro: denotes.denotes_symbol)
next
  case (denotes_cons x a d s t)
  then show ?case using keeps_read [OF assms(1)] by (blast intro: denotes.denotes_cons)
qed (use keeps_v08 [OF assms(1)] in \<open>auto intro: denotes.intros\<close>)

lemma keeps_finds:
  assumes "keeps h h'" "finds h nm cur x"
  shows "finds h' nm cur x"
  using assms(2)
proof (induction rule: finds.induct)
  case (finds_here cur row)
  then show ?case using keeps_read [OF assms(1)] keeps_symbol_name [OF assms(1)] by (blast intro: finds.finds_here)
next
  case (finds_later cur row s x)
  then show ?case using keeps_read [OF assms(1)] keeps_symbol_name [OF assms(1)] by (blast intro: finds.finds_later)
qed

lemma keeps_owned: "keeps h h' \<Longrightarrow> owned_symbol h ev x nm \<Longrightarrow> owned_symbol h' ev x nm"
  using keeps_get keeps_finds unfolding owned_symbol_def by metis

lemma keeps_refl [simp]: "keeps h h"
  by (simp add: keeps_def)

text \<open>The rows and bytes a value takes.  A byte offset of \<open>0x88000003\<close> would be the word \<^verbatim>\<open>zap\<close>, which the
  table refuses in its first column (\<open>Wisp_Tidy.offset_forges_mark\<close>).\<close>

fun conses :: "sexp \<Rightarrow> nat" where
  "conses (S_cons s t) = Suc (conses s + conses t)"
| "conses _ = 0"

fun strings :: "sexp \<Rightarrow> bytes list" where
  "strings (S_cons s t) = strings s @ strings t"
| "strings (S_string bs) = [bs]"
| "strings _ = []"

definition room :: "heap \<Rightarrow> nat \<Rightarrow> bytes list \<Rightarrow> bool" where
  "room h n ss \<longleftrightarrow> tab_size (hvat h duo) + n \<le> max_rows \<and> tab_size (hvat h v08) + length ss \<le> max_rows
     \<and> length (hbytes h) + length (concat ss) < 0x88000003"

definition grows :: "heap \<Rightarrow> nat \<Rightarrow> bytes list \<Rightarrow> heap \<Rightarrow> bool" where
  "grows h n ss h' \<longleftrightarrow> heap_ok h' \<and> keeps h h' \<and> tab_size (hvat h' duo) = tab_size (hvat h duo) + n
     \<and> tab_size (hvat h' v08) = tab_size (hvat h v08) + length ss \<and> length (hbytes h') = length (hbytes h) + length (concat ss)"

lemma grows_refl: "heap_ok h \<Longrightarrow> grows h 0 [] h"
  by (simp add: grows_def)

lemma grows_trans: "grows a n ss b \<Longrightarrow> grows b m ts c \<Longrightarrow> grows a (n + m) (ss @ ts) c"
  using keeps_trans by (auto simp: grows_def)

lemma room_split: "room h (n + m) (ss @ ts) \<Longrightarrow> grows h n ss h' \<Longrightarrow> room h' m ts"
  by (simp add: room_def grows_def)

lemma room_left: "room h (n + m) (ss @ ts) \<Longrightarrow> room h n ss"
  by (simp add: room_def)

lemma heap_read_live: "heap_read T x h = Inr r \<Longrightarrow> live h x"
  by (auto simp: heap_read_Inr heap_check_Inr live_def)

lemma denotes_live:
  assumes "denotes h current x s"
  shows "live h x \<and> x \<noteq> zap"
  using assms
proof (cases rule: denotes.cases)
  case denotes_nil
  then show ?thesis by (simp add: live_def nil_def zap_def immediate_def is_pointer_def tag_of_def tag_of_code_def)
next
  case denotes_true
  then show ?thesis by (simp add: live_def w_t_def zap_def immediate_def is_pointer_def tag_of_def tag_of_code_def)
next
  case denotes_int
  then show ?thesis using zap_not_pointer by (auto simp: live_def is_pointer_def)
next
  case (denotes_string bs)
  then obtain r where "heap_read v08 x h = Inr r" by (auto simp: v08slice_def split: sum.splits)
  then show ?thesis using heap_read_live denotes_string zap_not_pointer by auto
next
  case (denotes_symbol package nm)
  then obtain i where "heap_check sym x h = Inr i" by (auto simp: heap_get_def map_sum_def split: option.splits sum.splits)
  then have "heap_read sym x h = Inr (tab_read i (hvat h sym))" by (simp add: heap_read_def)
  then show ?thesis using heap_read_live denotes_symbol zap_not_pointer by auto
next
  case (denotes_cons a d s t)
  then show ?thesis using heap_read_live zap_not_pointer by auto
qed

section \<open>Building values\<close>

lemma is_pointer_duo: "is_pointer duo" "is_pointer v08"
  by (simp_all add: is_pointer_def)

lemma pair_row: "live h a \<Longrightarrow> live h d \<Longrightarrow> a \<noteq> zap \<Longrightarrow> row_ok duo h [a, d]"
  by (auto simp: row_ok_def payload_ok_def word_payload_def less_Suc_eq numeral_2_eq_2)

lemma make_size:
  assumes "heap_ok h" "heap_make T data h = Inr (x, h')" "h' = h\<lparr>hvat := (hvat h)(T := t)\<rparr>"
  shows "tab_size (hvat h' T) = Suc (tab_size (hvat h T))"
proof -
  obtain i u where p: "tab_push data (hvat h T) = Inr (i, u)" "h' = h\<lparr>hvat := (hvat h)(T := u)\<rparr>"
    using assms(2) by (auto simp: heap_make_def split: sum.splits if_splits)
  then show ?thesis using tab_push_cases [OF heap_ok_tab [OF assms(1)] p(1)] by (auto simp: tab_size_def)
qed

lemma cons_denotes:
  assumes ok: "heap_ok h" and a: "denotes h current a s" and d: "denotes h current d t" and r: "room h 1 []"
  shows "\<exists>x h'. heap_cons a d h = Inr (x, h') \<and> grows h 1 [] h' \<and> denotes h' current x (S_cons s t)"
proof -
  have row: "row_ok duo h [a, d]" using denotes_live [OF a] denotes_live [OF d] by (simp add: pair_row)
  obtain x h' where mk: "heap_make duo [a, d] h = Inr (x, h')"
    using heap_make_total [OF ok is_pointer_duo(1) row] r by (auto simp: room_def)
  note al = heap_make_allocates [OF ok is_pointer_duo(1) row mk]
  obtain tb where h': "h' = h\<lparr>hvat := (hvat h)(duo := tb)\<rparr>" using al by blast
  have "grows h 1 [] h'" using al make_size [OF ok mk h'] by (auto simp: grows_def allocates_def h')
  moreover have "denotes h' current x (S_cons s t)"
    by (rule denotes.denotes_cons) (use al keeps_denotes [of h h'] a d in \<open>auto simp: allocates_def\<close>)
  ultimately show ?thesis using mk by (auto simp: heap_cons_def)
qed

lemma string_denotes:
  assumes ok: "heap_ok h" and r: "room h 0 [bs]"
  shows "\<exists>x h'. newv08 bs h = Inr (x, h') \<and> grows h 0 [bs] h' \<and> denotes h' current x (S_string bs)"
proof -
  obtain idx pool where p: "pool_append (hbytes h) bs = Inr (idx, pool)" "pool = hbytes h @ bs"
    using r by (auto simp: pool_append_def pool_size_def Let_def room_def)
  have idx: "idx = of_nat (length (hbytes h))" using p(1) by (auto simp: pool_append_def pool_size_def Let_def split: if_splits)
  have sz: "tab_size (hvat h v08) < max_rows" using r by (simp add: room_def)
  from tab_push_ok [OF heap_ok_tab [OF ok] sz, of "[idx, of_nat (length bs)]"] obtain tb where
    tb: "tab_push [idx, of_nat (length bs)] (hvat h v08) = Inr (of_nat (tab_size (hvat h v08)), tb)" "trows tb = trows (hvat h v08) @ [[idx, of_nat (length bs)]]"
    by blast
  have "idx \<noteq> zap"
  proof
    assume "idx = zap"
    then have "unat idx = unat zap" by simp
    moreover have "unat zap = 0x88000003" by (simp add: zap_def immediate_def)
    moreover have "unat idx = length (hbytes h)" using idx r by (simp add: unat_of_nat room_def)
    ultimately show False using r by (simp add: room_def)
  qed
  then obtain x h' where n: "newv08 bs h = Inr (x, h')" and h': "h' = h\<lparr>hbytes := pool, hvat := (hvat h)(v08 := tb)\<rparr>"
    using p tb by (simp add: newv08_def heap_make_def)
  note al = newv08_allocates [OF ok n]
  have "grows h 0 [bs] h'" using al h' tb(2) p(2) by (auto simp: grows_def allocates_def tab_size_def)
  moreover have "denotes h' current x (S_string bs)" using al by (auto simp: allocates_def intro: denotes.denotes_string)
  ultimately show ?thesis using n by blast
qed

lemma cons_items_denotes:
  assumes "heap_ok h" "list_all2 (denotes h current) vs ss" "denotes h current v t" "room h (length vs) []"
  shows "\<exists>x h'. cons_items vs v h = Inr (x, h') \<and> grows h (length vs) [] h' \<and> denotes h' current x (foldr S_cons ss t)"
  using assms(2,4)
proof (induction vs ss rule: list_all2_induct)
  case Nil
  then show ?case using assms(1,3) grows_refl by auto
next
  case (Cons a vs s ss)
  have r: "room h (length vs) []" using Cons.prems by (simp add: room_def)
  obtain d h1 where c: "cons_items vs v h = Inr (d, h1)" "grows h (length vs) [] h1" "denotes h1 current d (foldr S_cons ss t)"
    using Cons.IH [OF r] by blast
  have k: "keeps h h1" "heap_ok h1" using c(2) by (simp_all add: grows_def)
  have "room h1 1 []" using Cons.prems c(2) by (simp add: room_def grows_def)
  then obtain x h2 where x: "heap_cons a d h1 = Inr (x, h2)" "grows h1 1 [] h2" "denotes h2 current x (S_cons s (foldr S_cons ss t))"
    using cons_denotes [OF k(2) keeps_denotes [OF k(1) Cons.hyps(1)] c(3)] by blast
  have "grows h (length (a # vs)) [] h2" using grows_trans [OF c(2) x(2)] by simp
  then show ?case using c(1) x(1,3) by simp
qed

section \<open>Reading forms\<close>

text \<open>What the parser does with a value it has read.\<close>

definition resume :: "bytes \<Rightarrow> evaluator \<Rightarrow> wword \<Rightarrow> nat \<Rightarrow> frame list \<Rightarrow> heap \<Rightarrow> (read_error + wword option \<times> nat \<times> heap) option" where
  "resume src ev v pos stack h =
     (case deliver v stack h of
        Inl e \<Rightarrow> Some (Inl (HeapError e))
      | Inr (Inl v', h') \<Rightarrow> Some (Inr (Some v', pos, h'))
      | Inr (Inr stack', h') \<Rightarrow> form_loop src ev pos stack' h')"

definition waiting :: "frame list \<Rightarrow> bool" where
  "waiting stack \<longleftrightarrow> stack = [] \<or> fr_type (hd stack) = K_list \<or> fr_type (hd stack) = K_tail"

lemma space_stop:
  assumes "drop pos src = b # r" "b < 0x80" "b \<notin> {0x20, 0x0a, 0x0c, 0x3b}"
  shows "space src pos = Inr pos"
proof -
  have "(ucast b :: u32) \<notin> {0x20, 0x0a, 0x0c, 0x3b}" using assms(3) by (auto simp: word_unat_eq_iff)
  then show ?thesis using peek_ascii(1) [OF assms(1,2)] by (subst space.simps) simp
qed

lemma space_blank:
  assumes "drop pos src = 0x20 # r"
  shows "space src pos = space src (pos + 1)"
  using peek_ascii [OF assms] by (subst space.simps) simp

lemma form_loop_blank:
  assumes "drop pos src = 0x20 # r"
  shows "form_loop src ev pos stack h = form_loop src ev (pos + 1) stack h"
  by (subst (1 2) form_loop.simps) (simp add: form_token_def space_blank [OF assms])

lemma form_loop_value:
  "form_token src ev pos stack h = Some (Inr (T_value v stack' pos' h')) \<Longrightarrow>
   form_loop src ev pos stack h = resume src ev v pos' stack' h'"
  by (subst form_loop.simps) (simp add: resume_def)

lemma form_loop_stack:
  "form_token src ev pos stack h = Some (Inr (T_stack stack' pos' h')) \<Longrightarrow>
   form_loop src ev pos stack h = form_loop src ev pos' stack' h'"
  by (subst form_loop.simps) simp

text \<open>An ASCII character that starts an atom.\<close>

lemma form_token_atom:
  assumes "drop pos src = b # r" "b < 0x80" "b \<notin> {0x20, 0x0a, 0x0c, 0x3b, 0x29, 0x2e}" "waiting stack"
  shows "form_token src ev pos stack h = read_atom src ev (ucast b) pos stack h"
proof -
  have n: "(ucast b :: u32) \<notin> {0x29, 0x2e}" using assms(3) by (auto simp: word_unat_eq_iff)
  have "ucast b \<noteq> eof" using peek_ascii(2) [OF assms(1,2)] peek_ascii(1) [OF assms(1,2)]
    by (auto simp: take_char_def)
  then show ?thesis using space_stop [OF assms(1,2)] assms(3,4) peek_ascii(1) [OF assms(1,2)] n
    by (cases stack) (auto simp: form_token_def waiting_def)
qed

fun readable :: "heap \<Rightarrow> evaluator \<Rightarrow> sexp \<Rightarrow> bool" where
  "readable h ev (S_int i) \<longleftrightarrow> 0 \<le> i \<and> i \<le> max_fixnum"
| "readable h ev (S_string bs) \<longleftrightarrow> (\<exists>cs. (\<forall>c \<in> set cs. utf8proc_codepoint_valid c) \<and> bs = encode_all cs)"
| "readable h ev (S_symbol x nm) \<longleftrightarrow> plain_name nm \<and> owned_symbol h ev x nm"
| "readable h ev (S_cons s t) \<longleftrightarrow> readable h ev s \<and> readable h ev t"
| "readable h ev _ \<longleftrightarrow> True"

lemma keeps_readable: "keeps h h' \<Longrightarrow> readable h ev s \<Longrightarrow> readable h' ev s"
  by (induction s) (auto intro: keeps_owned)

definition source_ok :: "heap \<Rightarrow> evaluator \<Rightarrow> sexp \<Rightarrow> bool" where
  "source_ok h ev s \<longleftrightarrow> heap_ok h \<and> readable h ev s \<and> (\<exists>w. denotes h (ev_current ev) w s)"

lemma source_ok_grows: "grows h n ss h' \<Longrightarrow> source_ok h ev s \<Longrightarrow> source_ok h' ev s"
  unfolding source_ok_def grows_def using keeps_readable keeps_denotes by blast

lemma source_ok_cons: "source_ok h ev (S_cons s t) \<Longrightarrow> source_ok h ev s \<and> source_ok h ev t"
  by (auto simp: source_ok_def elim: denotes_consE)

definition reads_value :: "evaluator \<Rightarrow> sexp \<Rightarrow> bool" where
  "reads_value ev s \<longleftrightarrow> (\<forall>src pos r stack h. drop pos src = show_sexp s @ r \<longrightarrow> delimited r \<longrightarrow> waiting stack
     \<longrightarrow> source_ok h ev s \<longrightarrow> room h (conses s) (strings s) \<longrightarrow>
     (\<exists>v h'. form_loop src ev pos stack h = resume src ev v (pos + length (show_sexp s)) stack h'
        \<and> grows h (conses s) (strings s) h' \<and> denotes h' (ev_current ev) v s))"

definition reads_tail :: "evaluator \<Rightarrow> sexp \<Rightarrow> bool" where
  "reads_tail ev s \<longleftrightarrow> (\<forall>src pos r stack h vs ss. drop pos src = show_tail s @ 0x29 # r
     \<longrightarrow> source_ok h ev s \<longrightarrow> list_all2 (denotes h (ev_current ev)) vs ss \<longrightarrow> room h (length vs + conses s) (strings s) \<longrightarrow>
     (\<exists>v h'. form_loop src ev pos (\<lparr>fr_type = K_list, fr_suffix = nil, fr_items = vs\<rparr> # stack) h
          = resume src ev v (pos + length (show_tail s) + 1) stack h'
        \<and> grows h (length vs + conses s) (strings s) h' \<and> denotes h' (ev_current ev) v (foldr S_cons ss s)))"

lemma reads_valueD:
  "reads_value ev s \<Longrightarrow> drop pos src = show_sexp s @ r \<Longrightarrow> delimited r \<Longrightarrow> waiting stack \<Longrightarrow> source_ok h ev s
     \<Longrightarrow> room h (conses s) (strings s) \<Longrightarrow>
   \<exists>v h'. form_loop src ev pos stack h = resume src ev v (pos + length (show_sexp s)) stack h'
      \<and> grows h (conses s) (strings s) h' \<and> denotes h' (ev_current ev) v s"
  unfolding reads_value_def by blast

lemma reads_tailD:
  "reads_tail ev s \<Longrightarrow> drop pos src = show_tail s @ 0x29 # r \<Longrightarrow> source_ok h ev s
     \<Longrightarrow> list_all2 (denotes h (ev_current ev)) vs ss \<Longrightarrow> room h (length vs + conses s) (strings s) \<Longrightarrow>
   \<exists>v h'. form_loop src ev pos (\<lparr>fr_type = K_list, fr_suffix = nil, fr_items = vs\<rparr> # stack) h
        = resume src ev v (pos + length (show_tail s) + 1) stack h'
      \<and> grows h (length vs + conses s) (strings s) h' \<and> denotes h' (ev_current ev) v (foldr S_cons ss s)"
  unfolding reads_tail_def by blast

text \<open>A value that the tokens alone give, with no change to the heap.\<close>

lemma reads_word:
  assumes d: "drop pos src = b # r'" "b < 0x80" "b \<notin> {0x20, 0x0a, 0x0c, 0x3b, 0x29, 0x2e}" and w: "waiting stack"
    and a: "read_atom src ev (ucast b) pos stack h = Some (Inr (T_value v stack pos' h'))"
  shows "form_loop src ev pos stack h = resume src ev v pos' stack h'"
  by (rule form_loop_value) (use form_token_atom [OF d w] a in simp)

lemma plain_first:
  assumes "plain_name nm"
  obtains b nm' where "nm = b # nm'" "b < 0x80" "b \<notin> {0x20, 0x0a, 0x0c, 0x3b, 0x29, 0x2e}"
    "constituent (ucast b)" "\<not> digit (ucast b)"
    "(ucast b :: u32) \<notin> {0x28, 0x5b, 0x27, 0x60, 0x2c, 0x23, 0x3a, 0x22}"
proof -
  obtain b nm' where nm: "nm = b # nm'" using assms by (cases nm) (auto simp: plain_name_def)
  have p: "plain_char b" "\<not> digit (ucast b)" "b \<noteq> 0x2e" using assms nm by (simp_all add: plain_name_def)
  have c: "constituent (ucast b)" "b < 0x80" "b \<noteq> 0x3a" using p(1) by (simp_all add: plain_char_def)
  have "b \<notin> {0x20, 0x0a, 0x0c, 0x3b, 0x29, 0x2e}" using c(1) p(3) by (auto simp: constituent_def)
  moreover have "(ucast b :: u32) \<noteq> 0x3a" using c(3) by (auto simp: word_unat_eq_iff)
  moreover have "(ucast b :: u32) \<notin> {0x28, 0x5b, 0x27, 0x60, 0x2c, 0x23, 0x22}" using c(1) by (auto simp: constituent_def)
  ultimately show thesis using that nm c p by blast
qed

lemma read_plain_name:
  assumes nm: "plain_name nm" and s: "drop pos src = nm @ r" and r: "delimited r" and w: "waiting stack"
    and i: "intern ev nm (ev_current ev) h = Some (Inr (x, h))"
  shows "form_loop src ev pos stack h = resume src ev x (pos + length nm) stack h"
proof -
  from plain_first [OF nm] obtain b nm' where b: "nm = b # nm'" "b < 0x80" "b \<notin> {0x20, 0x0a, 0x0c, 0x3b, 0x29, 0x2e}"
    "constituent (ucast b)" "\<not> digit (ucast b)" "(ucast b :: u32) \<notin> {0x28, 0x5b, 0x27, 0x60, 0x2c, 0x23, 0x3a, 0x22}" by blast
  have "read_symbol src ev pos h = Some (Inr (x, pos + length nm, h))"
    by (rule read_symbol_plain [OF s r _ i]) (use nm in \<open>simp add: plain_name_def\<close>)
  then have "read_atom src ev (ucast b) pos stack h = Some (Inr (T_value x stack (pos + length nm) h))"
    using b by (simp add: read_atom_def)
  then show ?thesis using reads_word [of pos src b "nm' @ r"] s b w by simp
qed

lemma constant_names: "plain_name (ascii ''NIL'')" "plain_name (ascii ''T'')"
  by (simp_all add: plain_name_def plain_char_def ascii_def constituent_def digit_def)

lemma names_differ: "ascii ''T'' \<noteq> ascii ''NIL''"
  by (simp add: ascii_def)

lemma reads_constant:
  assumes "show_sexp s = ascii nm" "plain_name (ascii nm)" "conses s = 0" "strings s = []"
    "\<And>h. intern ev (ascii nm) (ev_current ev) h = Some (Inr (x, h))" "\<And>h. denotes h (ev_current ev) x s"
  shows "reads_value ev s"
  unfolding reads_value_def
proof (intro allI impI)
  fix src pos r stack h
  assume a: "drop pos src = show_sexp s @ r" "delimited r" "waiting stack" "source_ok h ev s" "room h (conses s) (strings s)"
  have "form_loop src ev pos stack h = resume src ev x (pos + length (show_sexp s)) stack h"
    using read_plain_name [OF assms(2) _ a(2,3) assms(5)] a(1) assms(1) by simp
  then show "\<exists>v h'. form_loop src ev pos stack h = resume src ev v (pos + length (show_sexp s)) stack h'
      \<and> grows h (conses s) (strings s) h' \<and> denotes h' (ev_current ev) v s"
    using assms(3,4,6) grows_refl a(4) by (auto simp: source_ok_def)
qed

lemma reads_symbol: "reads_value ev (S_symbol x nm)"
  unfolding reads_value_def
proof (intro allI impI)
  fix src pos r stack h
  assume a: "drop pos src = show_sexp (S_symbol x nm) @ r" "delimited r" "waiting stack" "source_ok h ev (S_symbol x nm)"
  have p: "plain_name nm" "owned_symbol h ev x nm" and ok: "heap_ok h" using a(4) by (simp_all add: source_ok_def)
  have d: "denotes h (ev_current ev) x (S_symbol x nm)" using a(4) by (auto simp: source_ok_def elim: denotes.cases intro: denotes_symbol)
  have "form_loop src ev pos stack h = resume src ev x (pos + length nm) stack h"
    using read_plain_name [OF p(1) _ a(2,3) intern_owned [OF p(2)]] a(1) by simp
  then show "\<exists>v h'. form_loop src ev pos stack h = resume src ev v (pos + length (show_sexp (S_symbol x nm))) stack h'
      \<and> grows h (conses (S_symbol x nm)) (strings (S_symbol x nm)) h' \<and> denotes h' (ev_current ev) v (S_symbol x nm)"
    using d grows_refl [OF ok] by auto
qed

lemma small_fixnum:
  assumes "0 \<le> i" "i \<le> max_fixnum"
  shows "denotes h current (of_nat (nat i)) (S_int i)"
proof -
  have f: "tag_of (fixnum i) = integer" "integer_of (fixnum i) = i"
    using fixnum_fields [of i] assms by (simp_all add: min_fixnum_def)
  define n where "n = nat i"
  have i: "i = int n" "n < 2 ^ 30" using assms by (simp_all add: n_def max_fixnum_def)
  have "unat (of_nat n :: u32) < 2 ^ 31" using i(2) by (simp add: unat_of_nat)
  then have "of_nat n AND mask 31 = (of_nat n :: u32)" by (rule small_word_and)
  then have "fixnum i = of_nat n" using i(1) by (simp add: fixnum_def mask_eq_exp_minus_1)
  then show ?thesis using denotes_int [of "fixnum i" h current] f unfolding n_def by simp
qed

lemma reads_int: "reads_value ev (S_int i)"
  unfolding reads_value_def
proof (intro allI impI)
  fix src pos r stack h
  assume a: "drop pos src = show_sexp (S_int i) @ r" "delimited r" "waiting stack" "source_ok h ev (S_int i)"
  have i: "0 \<le> i" "i \<le> max_fixnum" and ok: "heap_ok h" using a(4) by (simp_all add: source_ok_def)
  have sh: "show_sexp (S_int i) = decimal_digits (nat i)" using i by (simp add: to_string_def)
  have n: "number src pos = Inr (of_nat (nat i), pos + length (decimal_digits (nat i)))"
    by (rule number_decimal [OF _ a(2)]) (use a(1) sh i in simp_all)
  obtain d ds where ds: "digits_of (nat i) = d # ds" by (metis digits_of.simps append_is_Nil_conv list.exhaust not_Cons_self2)
  have dd: "d < 10" using digits_small [of d "nat i"] ds by simp
  let ?b = "0x30 + of_nat d :: byte"
  have s: "drop pos src = ?b # (map (\<lambda>d. 0x30 + of_nat d) ds @ r)" using a(1) sh ds by (simp add: decimal_digits_map)
  note dc = digit_char [OF dd]
  have u: "unat ?b = 48 + d" using dd by (simp add: unat_plus_if' unat_of_nat)
  have nb: "?b \<notin> {0x20, 0x0a, 0x0c, 0x3b, 0x29, 0x2e}" "(ucast ?b :: u32) \<notin> {0x28, 0x5b, 0x27, 0x60, 0x2c, 0x23, 0x3a, 0x22}"
    using u dd by (auto simp: word_unat_eq_iff)
  have "read_atom src ev (ucast ?b) pos stack h = Some (Inr (T_value (of_nat (nat i)) stack (pos + length (decimal_digits (nat i))) h))"
    using dc(1) nb(2) n by (simp add: read_atom_def)
  then have "form_loop src ev pos stack h = resume src ev (of_nat (nat i)) (pos + length (decimal_digits (nat i))) stack h"
    using reads_word [OF s dc(3) nb(1) a(3)] by blast
  then show "\<exists>v h'. form_loop src ev pos stack h = resume src ev v (pos + length (show_sexp (S_int i))) stack h'
      \<and> grows h (conses (S_int i)) (strings (S_int i)) h' \<and> denotes h' (ev_current ev) v (S_int i)"
    unfolding sh using small_fixnum [OF i] grows_refl [OF ok] by auto
qed

lemma reads_string: "reads_value ev (S_string bs)"
  unfolding reads_value_def
proof (intro allI impI)
  fix src pos r stack h
  assume a: "drop pos src = show_sexp (S_string bs) @ r" "delimited r" "waiting stack" "source_ok h ev (S_string bs)"
    "room h (conses (S_string bs)) (strings (S_string bs))"
  obtain cs where cs: "\<forall>c \<in> set cs. utf8proc_codepoint_valid c" "bs = encode_all cs" and ok: "heap_ok h"
    using a(4) by (auto simp: source_ok_def)
  let ?e = "concat (map escape bs)"
  have s: "drop pos src = 0x22 # (?e @ 0x22 # r)" using a(1) by simp
  have str: "string_from src (pos + 1) [] = Inr (bs, pos + 1 + length ?e + 1)"
    using string_from_escaped [OF cs(1), of "pos + 1" src r "[]"] drop_Cons_step [OF s] cs(2) by simp
  obtain x h' where n: "newv08 bs h = Inr (x, h')" "grows h 0 [bs] h'" "denotes h' (ev_current ev) x (S_string bs)"
    using string_denotes [OF ok] a(5) by (metis conses.simps(5) strings.simps(2))
  have "read_atom src ev (ucast (0x22 :: byte)) pos stack h = Some (Inr (T_value x stack (pos + 1 + length ?e + 1) h'))"
    using peek_ascii(2) [OF s] str n(1) by (simp add: read_atom_def)
  then have "form_loop src ev pos stack h = resume src ev x (pos + 1 + length ?e + 1) stack h'"
    using reads_word [OF s _ _ a(3)] by simp
  then show "\<exists>v h'. form_loop src ev pos stack h = resume src ev v (pos + length (show_sexp (S_string bs))) stack h'
      \<and> grows h (conses (S_string bs)) (strings (S_string bs)) h' \<and> denotes h' (ev_current ev) v (S_string bs)"
    using n(2,3) by auto
qed

lemma tail_delimited: "delimited (show_tail t @ 0x29 # r)"
  by (cases t) (simp_all add: ascii_def)

lemma form_token_char:
  assumes "drop pos src = b # r" "b < 0x80" "b \<notin> {0x20, 0x0a, 0x0c, 0x3b}"
  shows "form_token src ev pos (f # rest) h =
    (if fr_type f = K_close \<or> (fr_type f = K_list \<and> ucast b = (0x29 :: u32)) \<or> (fr_type f = K_vector \<and> ucast b = (0x5d :: u32))
     then Some (close_frame src pos (ucast b) f rest h)
     else if fr_type f = K_list \<and> ucast b = (0x2e :: u32) then Some (Inr (T_stack (f\<lparr>fr_type := K_tail\<rparr> # rest) (pos + 1) h))
     else read_atom src ev (ucast b) pos (f # rest) h)"
proof -
  have "(ucast b :: u32) \<noteq> eof" using peek_ascii [OF assms(1,2)] by (auto simp: take_char_def)
  then show ?thesis using space_stop [OF assms] peek_ascii [OF assms(1,2)] by (simp add: form_token_def)
qed

text \<open>Closing a list.\<close>

lemma reads_close:
  assumes s: "drop pos src = 0x29 # r" and ok: "heap_ok h" and vs: "list_all2 (denotes h (ev_current ev)) vs ss"
    and v: "denotes h (ev_current ev) v t" and room: "room h (length vs) []" and k: "k = K_list \<or> k = K_close"
  shows "\<exists>x h'. form_loop src ev pos (\<lparr>fr_type = k, fr_suffix = v, fr_items = vs\<rparr> # stack) h = resume src ev x (pos + 1) stack h'
      \<and> grows h (length vs) [] h' \<and> denotes h' (ev_current ev) x (foldr S_cons ss t)"
proof -
  obtain x h' where c: "cons_items vs v h = Inr (x, h')" "grows h (length vs) [] h'" "denotes h' (ev_current ev) x (foldr S_cons ss t)"
    using cons_items_denotes [OF ok vs v room] by blast
  have "form_token src ev pos (\<lparr>fr_type = k, fr_suffix = v, fr_items = vs\<rparr> # stack) h = Some (Inr (T_value x stack (pos + 1) h'))"
    using form_token_char [OF s, of ev "\<lparr>fr_type = k, fr_suffix = v, fr_items = vs\<rparr>"] c(1) k peek_ascii(2) [OF s]
    by (auto simp: close_frame_def)
  from form_loop_value [OF this] c(2,3) show ?thesis by blast
qed

lemma reads_tail_nil: "reads_tail ev S_nil"
  unfolding reads_tail_def
proof (intro allI impI)
  fix src pos r stack h vs ss
  assume a: "drop pos src = show_tail S_nil @ 0x29 # r" "source_ok h ev S_nil" "list_all2 (denotes h (ev_current ev)) vs ss"
    "room h (length vs + conses S_nil) (strings S_nil)"
  from reads_close [of pos src r h ev vs ss nil S_nil K_list stack] a denotes_nil
  show "\<exists>v h'. form_loop src ev pos (\<lparr>fr_type = K_list, fr_suffix = nil, fr_items = vs\<rparr> # stack) h
        = resume src ev v (pos + length (show_tail S_nil) + 1) stack h'
      \<and> grows h (length vs + conses S_nil) (strings S_nil) h' \<and> denotes h' (ev_current ev) v (foldr S_cons ss S_nil)"
    by (simp add: source_ok_def)
qed

lemma keeps_all: "keeps h h' \<Longrightarrow> list_all2 (denotes h c) vs ss \<Longrightarrow> list_all2 (denotes h' c) vs ss"
  by (erule list_all2_mono) (rule keeps_denotes)

lemma reads_tail_atom:
  assumes rv: "reads_value ev s" and sh: "show_tail s = ascii '' . '' @ show_sexp s" and c: "conses s = 0"
  shows "reads_tail ev s"
  unfolding reads_tail_def
proof (intro allI impI)
  fix src pos r stack h vs ss
  assume a: "drop pos src = show_tail s @ 0x29 # r" "source_ok h ev s" "list_all2 (denotes h (ev_current ev)) vs ss"
    "room h (length vs + conses s) (strings s)"
  let ?f = "\<lparr>fr_type = K_list, fr_suffix = nil, fr_items = vs\<rparr>" let ?p = "pos + 3 + length (show_sexp s)"
  have s0: "drop pos src = 0x20 # 0x2e # 0x20 # show_sexp s @ 0x29 # r" using a(1) sh by (simp add: ascii_def)
  have s1: "drop (pos + 1) src = 0x2e # 0x20 # show_sexp s @ 0x29 # r" by (rule drop_Cons_step [OF s0])
  have s2: "drop (pos + 2) src = 0x20 # show_sexp s @ 0x29 # r" using drop_Cons_step [OF s1] by (simp add: numeral_2_eq_2)
  have s3: "drop (pos + 3) src = show_sexp s @ 0x29 # r" using drop_Cons_step [OF s2] by (simp add: numeral_3_eq_3)
  have s4: "drop ?p src = 0x29 # r" by (rule drop_append_step [OF s3])
  have rm: "room h (conses s) (strings s)" using a(4) c by (simp add: room_def)
  obtain v h1 where v: "form_loop src ev (pos + 3) (?f\<lparr>fr_type := K_tail\<rparr> # stack) h = resume src ev v ?p (?f\<lparr>fr_type := K_tail\<rparr> # stack) h1"
    "grows h (conses s) (strings s) h1" "denotes h1 (ev_current ev) v s"
    using reads_valueD [OF rv s3 _ _ a(2) rm, of "?f\<lparr>fr_type := K_tail\<rparr> # stack"] by (auto simp: waiting_def)
  have "form_loop src ev pos (?f # stack) h = form_loop src ev (pos + 2) (?f\<lparr>fr_type := K_tail\<rparr> # stack) h"
    using form_loop_blank [OF s0, of ev "?f # stack" h] form_loop_stack [of src ev "pos + 1" "?f # stack" h]
      form_token_char [OF s1, of ev ?f stack h] by simp
  also have "\<dots> = form_loop src ev (pos + 3) (?f\<lparr>fr_type := K_tail\<rparr> # stack) h" using form_loop_blank [OF s2] by (simp add: numeral_3_eq_3)
  also have "\<dots> = form_loop src ev ?p (\<lparr>fr_type = K_close, fr_suffix = v, fr_items = vs\<rparr> # stack) h1"
    unfolding v(1) by (simp add: resume_def)
  finally have fl: "form_loop src ev pos (?f # stack) h = form_loop src ev ?p (\<lparr>fr_type = K_close, fr_suffix = v, fr_items = vs\<rparr> # stack) h1" .
  have k: "keeps h h1" "heap_ok h1" using v(2) by (simp_all add: grows_def)
  have "room h1 (length vs) []" using a(4) v(2) c by (simp add: room_def grows_def)
  then obtain x h2 where x: "form_loop src ev ?p (\<lparr>fr_type = K_close, fr_suffix = v, fr_items = vs\<rparr> # stack) h1 = resume src ev x (?p + 1) stack h2"
    "grows h1 (length vs) [] h2" "denotes h2 (ev_current ev) x (foldr S_cons ss s)"
    using reads_close [OF s4 k(2) keeps_all [OF k(1) a(3)] v(3), of K_close stack] by blast
  have "grows h (length vs + conses s) (strings s) h2" using grows_trans [OF v(2) x(2)] c by simp
  then show "\<exists>v h'. form_loop src ev pos (?f # stack) h = resume src ev v (pos + length (show_tail s) + 1) stack h'
      \<and> grows h (length vs + conses s) (strings s) h' \<and> denotes h' (ev_current ev) v (foldr S_cons ss s)"
  proof -
    have "?p + 1 = pos + length (show_tail s) + 1" using sh by (simp add: ascii_def)
    then show ?thesis using fl x \<open>grows h (length vs + conses s) (strings s) h2\<close> by metis
  qed
qed

lemma deliver_item:
  "resume src ev v pos (\<lparr>fr_type = K_list, fr_suffix = sfx, fr_items = vs\<rparr> # stack) h
    = form_loop src ev pos (\<lparr>fr_type = K_list, fr_suffix = sfx, fr_items = vs @ [v]\<rparr> # stack) h"
  by (simp add: resume_def)

lemma reads_item:
  assumes rv: "reads_value ev s" and rt: "reads_tail ev t"
    and s: "drop pos src = show_sexp s @ show_tail t @ 0x29 # r" and ok: "source_ok h ev s" "source_ok h ev t"
    and vs: "list_all2 (denotes h (ev_current ev)) vs ss" and room: "room h (Suc (length vs) + conses s + conses t) (strings s @ strings t)"
  shows "\<exists>v h'. form_loop src ev pos (\<lparr>fr_type = K_list, fr_suffix = nil, fr_items = vs\<rparr> # stack) h
        = resume src ev v (pos + length (show_sexp s) + length (show_tail t) + 1) stack h'
      \<and> grows h (Suc (length vs) + conses s + conses t) (strings s @ strings t) h'
      \<and> denotes h' (ev_current ev) v (foldr S_cons ss (S_cons s t))"
proof -
  let ?p = "pos + length (show_sexp s)"
  have s1: "drop ?p src = show_tail t @ 0x29 # r" by (rule drop_append_step [OF s])
  have rm: "room h (conses s) (strings s)" using room by (simp add: room_def)
  obtain v h1 where v: "form_loop src ev pos (\<lparr>fr_type = K_list, fr_suffix = nil, fr_items = vs\<rparr> # stack) h
      = form_loop src ev ?p (\<lparr>fr_type = K_list, fr_suffix = nil, fr_items = vs @ [v]\<rparr> # stack) h1"
    "grows h (conses s) (strings s) h1" "denotes h1 (ev_current ev) v s"
    using reads_valueD [OF rv s tail_delimited _ ok(1) rm, of "\<lparr>fr_type = K_list, fr_suffix = nil, fr_items = vs\<rparr> # stack"]
    by (auto simp: waiting_def deliver_item)
  have k: "keeps h h1" using v(2) by (simp add: grows_def)
  have vs': "list_all2 (denotes h1 (ev_current ev)) (vs @ [v]) (ss @ [s])" using keeps_all [OF k vs] v(3) by (simp add: list_all2_appendI)
  have "room h1 (length (vs @ [v]) + conses t) (strings t)" using room v(2) by (simp add: room_def grows_def)
  then obtain x h2 where x: "form_loop src ev ?p (\<lparr>fr_type = K_list, fr_suffix = nil, fr_items = vs @ [v]\<rparr> # stack) h1
      = resume src ev x (?p + length (show_tail t) + 1) stack h2"
    "grows h1 (length (vs @ [v]) + conses t) (strings t) h2" "denotes h2 (ev_current ev) x (foldr S_cons (ss @ [s]) t)"
    using reads_tailD [OF rt s1 source_ok_grows [OF v(2) ok(2)] vs', of stack] by blast
  have "grows h (conses s + (length (vs @ [v]) + conses t)) (strings s @ strings t) h2" by (rule grows_trans [OF v(2) x(2)])
  then have "grows h (Suc (length vs) + conses s + conses t) (strings s @ strings t) h2" by (simp add: ac_simps)
  then show ?thesis using v(1) x(1,3) by (intro exI [of _ x] exI [of _ h2]) simp
qed

lemma reads_tail_cons:
  assumes "reads_value ev s" "reads_tail ev t"
  shows "reads_tail ev (S_cons s t)"
  unfolding reads_tail_def
proof (intro allI impI)
  fix src pos r stack h vs ss
  assume a: "drop pos src = show_tail (S_cons s t) @ 0x29 # r" "source_ok h ev (S_cons s t)" "list_all2 (denotes h (ev_current ev)) vs ss"
    "room h (length vs + conses (S_cons s t)) (strings (S_cons s t))"
  have s0: "drop pos src = 0x20 # show_sexp s @ show_tail t @ 0x29 # r" using a(1) by (simp add: ascii_def)
  have rm: "room h (Suc (length vs) + conses s + conses t) (strings s @ strings t)" using a(4) by (simp add: ac_simps)
  from reads_item [OF assms drop_Cons_step [OF s0] _ _ a(3) rm, of stack] source_ok_cons [OF a(2)]
  show "\<exists>v h'. form_loop src ev pos (\<lparr>fr_type = K_list, fr_suffix = nil, fr_items = vs\<rparr> # stack) h
        = resume src ev v (pos + length (show_tail (S_cons s t)) + 1) stack h'
      \<and> grows h (length vs + conses (S_cons s t)) (strings (S_cons s t)) h' \<and> denotes h' (ev_current ev) v (foldr S_cons ss (S_cons s t))"
    using form_loop_blank [OF s0] by (simp add: ascii_def ac_simps)
qed

lemma reads_cons:
  assumes "reads_value ev s" "reads_tail ev t"
  shows "reads_value ev (S_cons s t)"
  unfolding reads_value_def
proof (intro allI impI)
  fix src pos r stack h
  assume a: "drop pos src = show_sexp (S_cons s t) @ r" "delimited r" "waiting stack" "source_ok h ev (S_cons s t)"
    "room h (conses (S_cons s t)) (strings (S_cons s t))"
  have s0: "drop pos src = 0x28 # show_sexp s @ show_tail t @ 0x29 # r" using a(1) by (simp add: ascii_def)
  have "form_token src ev pos stack h = Some (Inr (T_stack (\<lparr>fr_type = K_list, fr_suffix = nil, fr_items = []\<rparr> # stack) (pos + 1) h))"
    using form_token_atom [OF s0 _ _ a(3), of ev h] peek_ascii(2) [OF s0] by (simp add: read_atom_def new_frame_def)
  note fl = form_loop_stack [OF this]
  have rm: "room h (Suc (length ([] :: wword list)) + conses s + conses t) (strings s @ strings t)" using a(5) by simp
  from reads_item [OF assms drop_Cons_step [OF s0] _ _ list_all2_Nil [THEN iffD2, OF refl] rm, of stack] source_ok_cons [OF a(4)]
  show "\<exists>v h'. form_loop src ev pos stack h = resume src ev v (pos + length (show_sexp (S_cons s t))) stack h'
      \<and> grows h (conses (S_cons s t)) (strings (S_cons s t)) h' \<and> denotes h' (ev_current ev) v (S_cons s t)"
    unfolding fl by (simp add: ascii_def ac_simps)
qed

lemma reads_all:
  assumes "ev_current ev = ev_base ev"
  shows "reads_value ev s \<and> reads_tail ev s"
proof (induction s)
  case S_nil
  have "reads_value ev S_nil"
    by (rule reads_constant [of _ "''NIL''" _ nil]) (use assms in \<open>simp_all add: constant_names intern_def denotes_nil\<close>)
  then show ?case using reads_tail_nil by blast
next
  case S_true
  have "reads_value ev S_true"
    by (rule reads_constant [of _ "''T''" _ w_t]) (use assms names_differ in \<open>simp_all add: constant_names intern_def denotes_true\<close>)
  then show ?case using reads_tail_atom by simp
next
  case (S_cons s t)
  then show ?case using reads_cons reads_tail_cons by blast
qed (use reads_int reads_string reads_symbol reads_tail_atom in simp_all)

lemma show_first:
  assumes "source_ok h ev s"
  shows "\<exists>b r. show_sexp s = b # r \<and> b < 0x80 \<and> b \<notin> {0x20, 0x0a, 0x0c, 0x3b}"
proof (cases s)
  case (S_int i)
  then have i: "0 \<le> i" using assms by (simp add: source_ok_def)
  obtain d ds where ds: "digits_of (nat i) = d # ds" by (metis digits_of.simps append_is_Nil_conv list.exhaust not_Cons_self2)
  then have d: "d < 10" using digits_small [of d "nat i"] by simp
  have u: "unat (0x30 + of_nat d :: byte) = 48 + d" using d by (simp add: unat_plus_if' unat_of_nat)
  have "(0x30 + of_nat d :: byte) \<notin> {0x20, 0x0a, 0x0c, 0x3b}" using u d by (auto simp: word_unat_eq_iff)
  then show ?thesis using digit_char(3) [OF d] S_int i ds by (simp add: to_string_def decimal_digits_map)
next
  case (S_symbol x nm)
  then have "plain_name nm" using assms by (simp add: source_ok_def)
  from plain_first [OF this] obtain b nm' where "nm = b # nm'" "b < 0x80" "b \<notin> {0x20, 0x0a, 0x0c, 0x3b, 0x29, 0x2e}"
    by blast
  then show ?thesis using S_symbol by auto
qed (simp_all add: ascii_def)

section \<open>Properties\<close>

text \<open>C26. Printing and reading back, with the base package as the current one.  For a value made of pairs, proper or
  dotted, of non-negative integers up to the largest fixnum, of strings of well-formed UTF-8, of NIL and T, and of
  symbols the current package owns under a plain name (ASCII constituents, no lower-case letter, no colon, not
  beginning with a digit or a dot): the reader, run on the text the printer writes, consumes all of it and
  returns a word that denotes the same value (the very same symbols), with every object of the heap unchanged, as
  long as the tables have room for the new pairs and strings.  A negative integer is not covered: it is read back
  as a symbol.\<close>

theorem print_read_roundtrip:
  assumes "heap_ok h" "ev_current ev = ev_base ev" "denotes h (ev_current ev) x s" "readable h ev s" "room h (conses s) (strings s)"
  shows "\<exists>out v h'. print_word h x (ev_current ev) = Some (Inr out)
    \<and> read_next out ev 0 h = Some (Inr (Some v, 0, length out, h'))
    \<and> denotes h' (ev_current ev) v s \<and> keeps h h' \<and> heap_ok h'"
proof -
  have so: "source_ok h ev s" using assms by (auto simp: source_ok_def)
  obtain v h' where f: "form_loop (show_sexp s) ev 0 [] h = resume (show_sexp s) ev v (length (show_sexp s)) [] h'"
    "grows h (conses s) (strings s) h'" "denotes h' (ev_current ev) v s"
    using reads_valueD [of ev s 0 "show_sexp s" "[]" "[]" h] reads_all [OF assms(2)] so assms(5) by (auto simp: waiting_def)
  obtain b r where b: "show_sexp s = b # r" "b < 0x80" "b \<notin> {0x20, 0x0a, 0x0c, 0x3b}" using show_first [OF so] by blast
  have "space (show_sexp s) 0 = Inr 0" by (rule space_stop [of _ _ b r]) (use b in simp_all)
  then have "read_next (show_sexp s) ev 0 h = Some (Inr (Some v, 0, length (show_sexp s), h'))"
    using f(1) by (simp add: read_next_def form_def resume_def)
  then show ?thesis using print_tree [OF assms(3)] f(2,3) by (auto simp: grows_def)
qed

text \<open>In the sample machine, the value \<^verbatim>\<open>(QUOTE 7 . "\<close>e-acute\<^verbatim>\<open>")\<close>: a symbol, an integer and a string.\<close>

definition sample_value :: sexp where
  "sample_value = S_cons (S_symbol (row_at sym 0) (ascii ''QUOTE'')) (S_cons (S_int 7) (S_string [0xc3, 0xa9]))"

lemma sample_symbol:
  "denotes minimal_heap (row_at pkg 0) (row_at sym 0) (S_symbol (row_at sym 0) (ascii ''QUOTE''))"
  "owned_symbol minimal_heap (vm_ev minimal_machine) (row_at sym 0) (ascii ''QUOTE'')"
proof -
  have q: "known_names ! 0 = ''QUOTE''" by (simp add: known_names_def)
  have s: "symbol_name minimal_heap (row_at sym 0) = Inr (ascii ''QUOTE'')" "heap_get sym F_pkg (row_at sym 0) minimal_heap = Inr (row_at pkg 0)"
    using minimal_symbol [of 0] q by simp_all
  have n: "v08slice (row_at v08 0) minimal_heap = Inr (ascii ''WISP'')" using minimal_name [of 0] by (simp add: minimal_names_def)
  show "denotes minimal_heap (row_at pkg 0) (row_at sym 0) (S_symbol (row_at sym 0) (ascii ''QUOTE''))"
    using at_fields(1) [of sym 0] at_not_sys [of pkg 0] minimal_package(2) [of 0] n s
    by (intro denotes_symbol [where package = "row_at pkg 0"]) (simp_all add: symbol_prefix_def ascii_inj)
  have "finds minimal_heap (ascii ''QUOTE'') (row_at duo 0) (symbol_cell 0 ! 0)"
    using at_not_sys [of duo 0] minimal_cell [of 0] s(1) by (intro finds_here) (simp_all add: symbol_cell_def)
  then show "owned_symbol minimal_heap (vm_ev minimal_machine) (row_at sym 0) (ascii ''QUOTE'')"
    using minimal_package(1) by (simp add: owned_symbol_def ascii_inj symbol_cell_def minimal_machine_def)
qed

lemma sample_readable: "readable minimal_heap (vm_ev minimal_machine) sample_value"
proof -
  have e: "utf8proc_encode_char 0xe9 = [0xc3, 0xa9]" "utf8proc_codepoint_valid 0xe9"
    by (simp_all add: utf8proc_encode_char_def utf8proc_codepoint_valid_def word_sless_alt)
  have "\<exists>cs. (\<forall>c \<in> set cs. utf8proc_codepoint_valid c) \<and> [0xc3, 0xa9] = encode_all cs" by (rule exI [of _ "[0xe9]"]) (simp add: e)
  moreover have "plain_name (ascii ''QUOTE'')"
    by (simp add: plain_name_def plain_char_def ascii_def constituent_def digit_def)
  ultimately show ?thesis using sample_symbol(2) by (simp add: sample_value_def max_fixnum_def)
qed

lemma sample_denoted: "\<exists>h x. grows minimal_heap 2 [[0xc3, 0xa9]] h \<and> denotes h (row_at pkg 0) x sample_value"
proof -
  have r0: "room minimal_heap 0 [[0xc3, 0xa9]]" by (simp add: room_def minimal_bytes max_rows_eq)
  obtain y h1 where y: "grows minimal_heap 0 [[0xc3, 0xa9]] h1" "denotes h1 (row_at pkg 0) y (S_string [0xc3, 0xa9])"
    using string_denotes [OF minimal_heap_ok r0] by blast
  have ok1: "heap_ok h1" and r1: "room h1 1 []" using y(1) minimal_bytes by (simp_all add: grows_def room_def max_rows_eq)
  have "denotes h1 (row_at pkg 0) (of_nat (nat 7)) (S_int 7)" by (rule small_fixnum) (simp_all add: max_fixnum_def)
  from cons_denotes [OF ok1 this y(2) r1]
  obtain z h2 where z: "grows h1 1 [] h2" "denotes h2 (row_at pkg 0) z (S_cons (S_int 7) (S_string [0xc3, 0xa9]))" by blast
  have g: "grows minimal_heap 1 [[0xc3, 0xa9]] h2" using grows_trans [OF y(1) z(1)] by simp
  then have ok2: "heap_ok h2" and r2: "room h2 1 []" using minimal_bytes by (simp_all add: grows_def room_def max_rows_eq)
  have "denotes h2 (row_at pkg 0) (row_at sym 0) (S_symbol (row_at sym 0) (ascii ''QUOTE''))"
    using g sample_symbol(1) by (auto simp: grows_def intro: keeps_denotes)
  from cons_denotes [OF ok2 this z(2) r2] obtain x h where "grows h2 1 [] h" "denotes h (row_at pkg 0) x sample_value"
    unfolding sample_value_def by blast
  then show ?thesis using grows_trans [OF g, of 1 "[]" h] by (auto simp: numeral_2_eq_2)
qed

theorem print_read_roundtrip_witness:
  "\<exists>h x out v h'. print_word h x (row_at pkg 0) = Some (Inr out)
    \<and> read_next out (vm_ev minimal_machine) 0 h = Some (Inr (Some v, 0, length out, h'))
    \<and> denotes h' (row_at pkg 0) v
        (S_cons (S_symbol (row_at sym 0) (ascii ''QUOTE'')) (S_cons (S_int 7) (S_string [0xc3, 0xa9])))"
proof -
  obtain h x where x: "grows minimal_heap 2 [[0xc3, 0xa9]] h" "denotes h (row_at pkg 0) x sample_value" using sample_denoted by blast
  have ev: "ev_current (vm_ev minimal_machine) = row_at pkg 0" "ev_base (vm_ev minimal_machine) = row_at pkg 0"
    by (simp_all add: minimal_machine_def)
  have "heap_ok h" "readable h (vm_ev minimal_machine) sample_value"
    using x(1) sample_readable by (auto simp: grows_def intro: keeps_readable)
  moreover have "room h (conses sample_value) (strings sample_value)"
    using x(1) by (simp add: sample_value_def grows_def room_def max_rows_eq minimal_bytes)
  ultimately show ?thesis
    using print_read_roundtrip [of h "vm_ev minimal_machine" x sample_value] x(2) ev unfolding sample_value_def by fastforce
qed

end
