(* ===== verification/Secure_Hash.thy ===== *)
theory Secure_Hash
  imports Complex_Main Nxt_Prelude
begin

text \<open>
  The hash functions of the Secure Hash Standard (FIPS 180-4), written from the standard and
  independent of the program: the word functions, the constants as bits of the roots of the first
  primes, the message schedule as a recurrence, the rounds, the padding, and the digests of byte
  strings.  \<^verbatim>\<open>Digest\<close> proves that the program computes these functions.
\<close>

section \<open>Word functions\<close>

definition ROTR :: "nat \<Rightarrow> u32 \<Rightarrow> u32" where
  "ROTR n x = drop_bit n x OR push_bit (32 - n) x"

definition ROTL :: "nat \<Rightarrow> u32 \<Rightarrow> u32" where
  "ROTL n x = push_bit n x OR drop_bit (32 - n) x"

definition Choose :: "u32 \<Rightarrow> u32 \<Rightarrow> u32 \<Rightarrow> u32" where
  "Choose x y z = (x AND y) XOR (NOT x AND z)"

definition Majority :: "u32 \<Rightarrow> u32 \<Rightarrow> u32 \<Rightarrow> u32" where
  "Majority x y z = (x AND y) XOR (x AND z) XOR (y AND z)"

definition Parity :: "u32 \<Rightarrow> u32 \<Rightarrow> u32 \<Rightarrow> u32" where
  "Parity x y z = x XOR y XOR z"

definition Sum0 :: "u32 \<Rightarrow> u32" where "Sum0 x = ROTR 2 x XOR ROTR 13 x XOR ROTR 22 x"
definition Sum1 :: "u32 \<Rightarrow> u32" where "Sum1 x = ROTR 6 x XOR ROTR 11 x XOR ROTR 25 x"
definition small0 :: "u32 \<Rightarrow> u32" where "small0 x = ROTR 7 x XOR ROTR 18 x XOR drop_bit 3 x"
definition small1 :: "u32 \<Rightarrow> u32" where "small1 x = ROTR 17 x XOR ROTR 19 x XOR drop_bit 10 x"

section \<open>Constants\<close>

text \<open>The first sixty-four primes.\<close>

definition first_primes :: "nat list" where
  "first_primes = [2, 3, 5, 7, 11, 13, 17, 19, 23, 29, 31, 37, 41, 43, 47, 53, 59, 61, 67, 71, 73, 79, 83, 89, 97, 101, 103,
     107, 109, 113, 127, 131, 137, 139, 149, 151, 157, 163, 167, 173, 179, 181, 191, 193, 197, 199, 211, 223, 227, 229, 233,
     239, 241, 251, 257, 263, 269, 271, 277, 281, 283, 293, 307, 311]"

text \<open>The first 32 bits of the fractional part of a root: the integer part overflows the word.\<close>

definition fraction32 :: "real \<Rightarrow> u32" where
  "fraction32 x = of_int \<lfloor>2 ^ 32 * x\<rfloor>"

definition K256 :: "nat \<Rightarrow> u32" where
  "K256 t = fraction32 (root 3 (real (first_primes ! t)))"

definition H256 :: "u32 list" where
  "H256 = map (\<lambda>p. fraction32 (sqrt (real p))) (take 8 first_primes)"

text \<open>The constants of SHA-1 are the first 32 bits of the roots of 2, 3, 5 and 10, integer part included.\<close>

definition K160 :: "nat \<Rightarrow> u32" where
  "K160 t = of_int \<lfloor>2 ^ 30 * sqrt (if t \<le> 19 then 2 else if t \<le> 39 then 3 else if t \<le> 59 then 5 else 10)\<rfloor>"

definition H160 :: "u32 list" where
  "H160 = [0x67452301, 0xEFCDAB89, 0x98BADCFE, 0x10325476, 0xC3D2E1F0]"

section \<open>Padding and parsing\<close>

text \<open>A one bit, zeros, and the length in bits as 64 bits, big end first.\<close>

definition length_suffix :: "nat \<Rightarrow> bytes" where
  "length_suffix n = map (\<lambda>i. of_nat (8 * n div 256 ^ (7 - i))) [0..<8]"

definition padded :: "bytes \<Rightarrow> bytes" where
  "padded m = m @ 0x80 # replicate ((119 - length m mod 64) mod 64) 0 @ length_suffix (length m)"

function blocks :: "bytes \<Rightarrow> bytes list" where
  "blocks m = (if m = [] then [] else take 64 m # blocks (drop 64 m))"
  by auto
termination by (relation "measure length") auto

declare blocks.simps [simp del]

text \<open>The words of a block and the bytes of a digest, big end first.\<close>

definition block_word :: "bytes \<Rightarrow> nat \<Rightarrow> u32" where
  "block_word b t = of_nat (\<Sum>k<4. 256 ^ (3 - k) * unat (b ! (4 * t + k)))"

definition word_bytes :: "u32 \<Rightarrow> bytes" where
  "word_bytes w = map (\<lambda>k. of_nat (unat w div 256 ^ (3 - k))) [0..<4]"

section \<open>Hash computation\<close>

fun W256 :: "bytes \<Rightarrow> nat \<Rightarrow> u32" where
  "W256 b t = (if t < 16 then block_word b t
     else small1 (W256 b (t - 2)) + W256 b (t - 7) + small0 (W256 b (t - 15)) + W256 b (t - 16))"

fun W160 :: "bytes \<Rightarrow> nat \<Rightarrow> u32" where
  "W160 b t = (if t < 16 then block_word b t
     else ROTL 1 (W160 b (t - 3) XOR W160 b (t - 8) XOR W160 b (t - 14) XOR W160 b (t - 16)))"

declare W256.simps [simp del] W160.simps [simp del]

fun step256 :: "u32 \<Rightarrow> u32 \<Rightarrow> u32 list \<Rightarrow> u32 list" where
  "step256 K W [a, b, c, d, e, f, g, h] =
     (let T1 = h + Sum1 e + Choose e f g + K + W; T2 = Sum0 a + Majority a b c
      in [T1 + T2, a, b, c, d + T1, e, f, g])"
| "step256 K W v = v"

definition mix160 :: "nat \<Rightarrow> u32 \<Rightarrow> u32 \<Rightarrow> u32 \<Rightarrow> u32" where
  "mix160 t = (if t \<le> 19 then Choose else if t \<le> 39 then Parity else if t \<le> 59 then Majority else Parity)"

fun step160 :: "nat \<Rightarrow> u32 \<Rightarrow> u32 list \<Rightarrow> u32 list" where
  "step160 t W [a, b, c, d, e] = [ROTL 5 a + mix160 t b c d + e + K160 t + W, a, ROTL 30 b, c, d]"
| "step160 t W v = v"

primrec vars256 :: "bytes \<Rightarrow> u32 list \<Rightarrow> nat \<Rightarrow> u32 list" where
  "vars256 b H 0 = H"
| "vars256 b H (Suc t) = step256 (K256 t) (W256 b t) (vars256 b H t)"

primrec vars160 :: "bytes \<Rightarrow> u32 list \<Rightarrow> nat \<Rightarrow> u32 list" where
  "vars160 b H 0 = H"
| "vars160 b H (Suc t) = step160 t (W160 b t) (vars160 b H t)"

definition hash256 :: "u32 list \<Rightarrow> bytes \<Rightarrow> u32 list" where
  "hash256 H b = map2 (+) (vars256 b H 64) H"

definition hash160 :: "u32 list \<Rightarrow> bytes \<Rightarrow> u32 list" where
  "hash160 H b = map2 (+) (vars160 b H 80) H"

definition standard_sha256 :: "bytes \<Rightarrow> bytes" where
  "standard_sha256 m = concat (map word_bytes (foldl hash256 H256 (blocks (padded m))))"

definition standard_sha1 :: "bytes \<Rightarrow> bytes" where
  "standard_sha1 m = concat (map word_bytes (foldl hash160 H160 (blocks (padded m))))"

section \<open>Roots\<close>

text \<open>The integer part of a scaled root, decided by integer arithmetic.\<close>

lemma floor_scaled_root:
  assumes "0 < r" and n: "n ^ r \<le> p * s ^ r" "p * s ^ r < (n + 1) ^ r"
  shows "\<lfloor>real s * root r (real p)\<rfloor> = int n"
proof -
  have s: "real s * root r (real p) = root r (real (p * s ^ r))"
    using \<open>0 < r\<close> by (simp add: real_root_mult real_root_power_cancel mult.commute)
  have "real n = root r (real (n ^ r))" using \<open>0 < r\<close> by (simp add: real_root_power_cancel)
  also have "\<dots> \<le> root r (real (p * s ^ r))" using n(1) \<open>0 < r\<close> by (simp only: real_root_le_iff of_nat_le_iff)
  finally have lo: "real n \<le> real s * root r (real p)" using s by simp
  have "root r (real (p * s ^ r)) < root r (real ((n + 1) ^ r))" using n(2) \<open>0 < r\<close> by (simp only: real_root_less_iff of_nat_less_iff)
  also have "\<dots> = real (n + 1)" using \<open>0 < r\<close> by (simp only: of_nat_power real_root_power_cancel of_nat_0_le_iff)
  finally have "real s * root r (real p) < real n + 1" using s by simp
  with lo show ?thesis by (intro floor_unique) simp_all
qed

lemma fraction32_root:
  assumes "0 < r" "n ^ r \<le> p * (2 ^ 32) ^ r" "p * (2 ^ 32) ^ r < (n + 1) ^ r"
  shows "fraction32 (root r (real p)) = of_nat n"
  using floor_scaled_root [OF assms] by (simp add: fraction32_def)

text \<open>A word is a constant of the standard when, put after the integer part \<open>a\<close>, it is the scaled root.\<close>

definition root_digits :: "nat \<Rightarrow> nat \<Rightarrow> nat \<Rightarrow> u32 \<Rightarrow> bool" where
  "root_digits r a p k \<longleftrightarrow> (let n = a * 2 ^ 32 + unat k in n ^ r \<le> p * 2 ^ (32 * r) \<and> p * 2 ^ (32 * r) < (n + 1) ^ r)"

lemma root_digits_fraction: "root_digits r a p k \<Longrightarrow> 0 < r \<Longrightarrow> fraction32 (root r (real p)) = k"
proof -
  assume a: "root_digits r a p k" "0 < r"
  have z: "(2 ^ 32 :: u32) = 0" by simp
  have "fraction32 (root r (real p)) = of_nat (a * 2 ^ 32 + unat k)"
    using a by (intro fraction32_root) (simp_all add: root_digits_def Let_def power_mult)
  then show ?thesis by (simp only: of_nat_add of_nat_mult of_nat_power of_nat_numeral z) simp
qed

end
