(* ===== verification/Digest.thy ===== *)
theory Digest
  imports Secure_Hash
begin

text \<open>
  The message digests of \<^verbatim>\<open>src/nxt/crypto/sha256.cpp\<close> and \<^verbatim>\<open>src/nxt/crypto/sha1.cpp\<close>: the compression
  functions, the streaming states that buffer a partial block, the padding, and the keyed
  digest.  The two state classes have the same \<^verbatim>\<open>update\<close> and \<^verbatim>\<open>finalize\<close> up to the compression
  function, which is the parameter of the shared definitions here.  The reference is the standard as
  \<^verbatim>\<open>Secure_Hash\<close> states it: the constants, the schedules, the rounds and the byte order of the program
  are proved equal to those, and the buffering and padding to the padding of a whole message.
\<close>

section \<open>Model: SHA-256\<close>

definition sha256_k :: "u32 list" where
  "sha256_k = concat
     [[0x428a2f98, 0x71374491, 0xb5c0fbcf, 0xe9b5dba5], [0x3956c25b, 0x59f111f1, 0x923f82a4, 0xab1c5ed5],
      [0xd807aa98, 0x12835b01, 0x243185be, 0x550c7dc3], [0x72be5d74, 0x80deb1fe, 0x9bdc06a7, 0xc19bf174],
      [0xe49b69c1, 0xefbe4786, 0x0fc19dc6, 0x240ca1cc], [0x2de92c6f, 0x4a7484aa, 0x5cb0a9dc, 0x76f988da],
      [0x983e5152, 0xa831c66d, 0xb00327c8, 0xbf597fc7], [0xc6e00bf3, 0xd5a79147, 0x06ca6351, 0x14292967],
      [0x27b70a85, 0x2e1b2138, 0x4d2c6dfc, 0x53380d13], [0x650a7354, 0x766a0abb, 0x81c2c92e, 0x92722c85],
      [0xa2bfe8a1, 0xa81a664b, 0xc24b8b70, 0xc76c51a3], [0xd192e819, 0xd6990624, 0xf40e3585, 0x106aa070],
      [0x19a4c116, 0x1e376c08, 0x2748774c, 0x34b0bcb5], [0x391c0cb3, 0x4ed8aa4a, 0x5b9cca4f, 0x682e6ff3],
      [0x748f82ee, 0x78a5636f, 0x84c87814, 0x8cc70208], [0x90befffa, 0xa4506ceb, 0xbef9a3f7, 0xc67178f2]]"

definition sha256_load32_be :: "bytes \<Rightarrow> nat \<Rightarrow> u32" where
  "sha256_load32_be bs i =
     push_bit 24 (ucast (bs ! i)) OR push_bit 16 (ucast (bs ! (i + 1))) OR push_bit 8 (ucast (bs ! (i + 2))) OR ucast (bs ! (i + 3))"

definition sha256_store32_be :: "u32 \<Rightarrow> bytes" where
  "sha256_store32_be v = [ucast (drop_bit 24 v), ucast (drop_bit 16 v), ucast (drop_bit 8 v), ucast v]"

definition sha256_extend :: "nat \<Rightarrow> u32 list \<Rightarrow> u32 list" where
  "sha256_extend i w =
     (let s0 = word_rotr 7 (w ! (i - 15)) XOR word_rotr 18 (w ! (i - 15)) XOR drop_bit 3 (w ! (i - 15));
          s1 = word_rotr 17 (w ! (i - 2)) XOR word_rotr 19 (w ! (i - 2)) XOR drop_bit 10 (w ! (i - 2))
      in w[i := w ! (i - 16) + s0 + w ! (i - 7) + s1])"

definition sha256_schedule :: "bytes \<Rightarrow> u32 list" where
  "sha256_schedule block =
     fold sha256_extend [16..<64] (map (\<lambda>i. sha256_load32_be block (4 * i)) [0..<16] @ replicate 48 0)"

text \<open>The eight working variables are the list \<open>[a, b, c, d, e, f, g, h]\<close>.\<close>

definition sha256_round :: "u32 list \<Rightarrow> nat \<Rightarrow> u32 list \<Rightarrow> u32 list" where
  "sha256_round w i v =
     (let a = v ! 0; b = v ! 1; c = v ! 2; d = v ! 3; e = v ! 4; f = v ! 5; g = v ! 6; h = v ! 7;
          s1 = word_rotr 6 e XOR word_rotr 11 e XOR word_rotr 25 e;
          ch = (e AND f) XOR (NOT e AND g);
          temp1 = h + s1 + ch + sha256_k ! i + w ! i;
          s0 = word_rotr 2 a XOR word_rotr 13 a XOR word_rotr 22 a;
          maj = (a AND b) XOR (a AND c) XOR (b AND c);
          temp2 = s0 + maj
      in [temp1 + temp2, a, b, c, d + temp1, e, f, g])"

definition sha256_compress :: "u32 list \<Rightarrow> bytes \<Rightarrow> u32 list" where
  "sha256_compress state block = map2 (+) state (fold (sha256_round (sha256_schedule block)) [0..<64] state)"

section \<open>Model: SHA-1\<close>

definition sha1_load32_be :: "bytes \<Rightarrow> nat \<Rightarrow> u32" where
  "sha1_load32_be bs i =
     push_bit 24 (ucast (bs ! i)) OR push_bit 16 (ucast (bs ! (i + 1))) OR push_bit 8 (ucast (bs ! (i + 2))) OR ucast (bs ! (i + 3))"

definition sha1_store32_be :: "u32 \<Rightarrow> bytes" where
  "sha1_store32_be v = [ucast (drop_bit 24 v), ucast (drop_bit 16 v), ucast (drop_bit 8 v), ucast v]"

definition sha1_extend :: "nat \<Rightarrow> u32 list \<Rightarrow> u32 list" where
  "sha1_extend i w = w[i := word_rotl 1 (w ! (i - 3) XOR w ! (i - 8) XOR w ! (i - 14) XOR w ! (i - 16))]"

definition sha1_schedule :: "bytes \<Rightarrow> u32 list" where
  "sha1_schedule block =
     fold sha1_extend [16..<80] (map (\<lambda>i. sha1_load32_be block (4 * i)) [0..<16] @ replicate 64 0)"

definition sha1_mix :: "nat \<Rightarrow> u32 \<Rightarrow> u32 \<Rightarrow> u32 \<Rightarrow> u32 \<times> u32" where
  "sha1_mix i b c d =
     (if i < 20 then ((b AND c) OR (NOT b AND d), 0x5a827999)
      else if i < 40 then (b XOR c XOR d, 0x6ed9eba1)
      else if i < 60 then ((b AND c) OR (b AND d) OR (c AND d), 0x8f1bbcdc)
      else (b XOR c XOR d, 0xca62c1d6))"

definition sha1_round :: "u32 list \<Rightarrow> nat \<Rightarrow> u32 list \<Rightarrow> u32 list" where
  "sha1_round w i v =
     (let a = v ! 0; b = v ! 1; c = v ! 2; d = v ! 3; e = v ! 4;
          (f, k) = sha1_mix i b c d;
          temp = word_rotl 5 a + f + e + k + w ! i
      in [temp, a, word_rotl 30 b, c, d])"

definition sha1_compress :: "u32 list \<Rightarrow> bytes \<Rightarrow> u32 list" where
  "sha1_compress state block = map2 (+) state (fold (sha1_round (sha1_schedule block)) [0..<80] state)"

section \<open>Model: streaming states\<close>

record hash_state =
  st_state :: "u32 list"
  st_buffer :: bytes
  st_size :: u64
  st_buffered :: nat

type_synonym compression = "u32 list \<Rightarrow> bytes \<Rightarrow> u32 list"

definition hash_init :: "u32 list \<Rightarrow> hash_state" where
  "hash_init init = \<lparr>st_state = init, st_buffer = replicate 64 0, st_size = 0, st_buffered = 0\<rparr>"

text \<open>\<^verbatim>\<open>std::ranges::copy\<close> into an array, from position \<open>i\<close> on.\<close>

definition copy_at :: "nat \<Rightarrow> bytes \<Rightarrow> bytes \<Rightarrow> bytes" where
  "copy_at i xs arr = take i arr @ xs @ drop (i + length xs) arr"

function compress_blocks :: "compression \<Rightarrow> u32 list \<Rightarrow> bytes \<Rightarrow> u32 list \<times> bytes" where
  "compress_blocks f state input =
     (if length input \<ge> 64 then compress_blocks f (f state (take 64 input)) (drop 64 input) else (state, input))"
  by auto
termination by (relation "measure (\<lambda>(f, state, input). length input)") auto

declare compress_blocks.simps [simp del]

definition fill_buffer :: "compression \<Rightarrow> hash_state \<Rightarrow> bytes \<Rightarrow> hash_state \<times> bytes" where
  "fill_buffer f st input =
     (if st_buffered st = 0 then (st, input)
      else
        let n = min (length input) (length (st_buffer st) - st_buffered st);
            st = st\<lparr>st_buffer := copy_at (st_buffered st) (take n input) (st_buffer st), st_buffered := st_buffered st + n\<rparr>
        in (if st_buffered st = length (st_buffer st)
            then st\<lparr>st_state := f (st_state st) (st_buffer st), st_buffered := 0\<rparr> else st, drop n input))"

definition hash_update :: "compression \<Rightarrow> hash_state \<Rightarrow> bytes \<Rightarrow> hash_state" where
  "hash_update f st input =
     (let (st, input) = fill_buffer f (st\<lparr>st_size := st_size st + of_nat (length input)\<rparr>) input;
          (state, rest) = compress_blocks f (st_state st) input;
          st = st\<lparr>st_state := state\<rparr>
      in if rest \<noteq> [] then st\<lparr>st_buffer := copy_at 0 rest (st_buffer st), st_buffered := length rest\<rparr> else st)"

definition final_block :: "hash_state \<Rightarrow> nat \<Rightarrow> bytes" where
  "final_block st final_size =
     (let bit_size = st_size st * 8;
          block = (copy_at 0 (take (st_buffered st) (st_buffer st)) (replicate 128 0))[st_buffered st := 0x80]
      in fold (\<lambda>i b. b[final_size - 1 - i := ucast (drop_bit (8 * i) bit_size)]) [0..<8] block)"

definition hash_finalize :: "compression \<Rightarrow> (u32 \<Rightarrow> bytes) \<Rightarrow> hash_state \<Rightarrow> bytes" where
  "hash_finalize f store st =
     (let final_size = (if st_buffered st < 56 then 64 else 128);
          block = final_block st final_size;
          state = f (st_state st) (take 64 block);
          state = (if final_size = 128 then f state (take 64 (drop 64 block)) else state)
      in concat (map store state))"

definition sha256_initial :: "u32 list" where
  "sha256_initial = [0x6a09e667, 0xbb67ae85, 0x3c6ef372, 0xa54ff53a, 0x510e527f, 0x9b05688c, 0x1f83d9ab, 0x5be0cd19]"

definition sha256_new :: hash_state where "sha256_new = hash_init sha256_initial"
definition sha256_update :: "hash_state \<Rightarrow> bytes \<Rightarrow> hash_state" where "sha256_update = hash_update sha256_compress"
definition sha256_finalize :: "hash_state \<Rightarrow> bytes" where "sha256_finalize = hash_finalize sha256_compress sha256_store32_be"

definition sha256 :: "bytes \<Rightarrow> bytes" where
  "sha256 input = sha256_finalize (sha256_update sha256_new input)"

definition sha1_initial :: "u32 list" where
  "sha1_initial = [0x67452301, 0xefcdab89, 0x98badcfe, 0x10325476, 0xc3d2e1f0]"

definition sha1_new :: hash_state where "sha1_new = hash_init sha1_initial"
definition sha1_update :: "hash_state \<Rightarrow> bytes \<Rightarrow> hash_state" where "sha1_update = hash_update sha1_compress"
definition sha1_finalize :: "hash_state \<Rightarrow> bytes" where "sha1_finalize = hash_finalize sha1_compress sha1_store32_be"

definition sha1 :: "bytes \<Rightarrow> bytes" where
  "sha1 input = sha1_finalize (sha1_update sha1_new input)"

section \<open>Model: the keyed digest\<close>

definition hmac_key_block :: "bytes \<Rightarrow> bytes" where
  "hmac_key_block key = copy_at 0 (if length key > 64 then sha256 key else key) (replicate 64 0)"

record hmac_state =
  hm_inner :: hash_state
  hm_outer_pad :: bytes

definition hmac_new :: "bytes \<Rightarrow> hmac_state" where
  "hmac_new key =
     (let key_block = hmac_key_block key
      in \<lparr>hm_inner = sha256_update sha256_new (map (\<lambda>b. b XOR 0x36) key_block), hm_outer_pad = map (\<lambda>b. b XOR 0x5c) key_block\<rparr>)"

definition hmac_update :: "hmac_state \<Rightarrow> bytes \<Rightarrow> hmac_state" where
  "hmac_update st input = st\<lparr>hm_inner := sha256_update (hm_inner st) input\<rparr>"

definition hmac_finalize :: "hmac_state \<Rightarrow> bytes" where
  "hmac_finalize st =
     sha256_finalize (sha256_update (sha256_update sha256_new (hm_outer_pad st)) (sha256_finalize (hm_inner st)))"

definition hmac_sha256 :: "bytes \<Rightarrow> bytes \<Rightarrow> bytes" where
  "hmac_sha256 key data = hmac_finalize (hmac_update (hmac_new key) data)"

section \<open>Chained blocks\<close>

definition chained_digest :: "compression \<Rightarrow> u32 list \<Rightarrow> (u32 \<Rightarrow> bytes) \<Rightarrow> bytes \<Rightarrow> bytes" where
  "chained_digest f init store m = concat (map store (foldl f init (blocks (padded m))))"

lemma blocks_Nil [simp]: "blocks [] = []"
  by (simp add: blocks.simps)

lemma blocks_whole: "length b = 64 \<Longrightarrow> blocks (b @ m) = b # blocks m"
  by (subst blocks.simps) auto

lemma blocks_append: "64 dvd length a \<Longrightarrow> blocks (a @ m) = blocks a @ blocks m"
proof (induction a rule: blocks.induct)
  case (1 a)
  show ?case
  proof (cases "a = []")
    case False
    then have l: "64 \<le> length a" using 1(2) by (auto dest: dvd_imp_le)
    then have "64 dvd length (drop 64 a)" using 1(2) by (simp add: dvd_diff_nat)
    note IH = 1(1) [OF False this]
    have "blocks (a @ m) = take 64 a # blocks (drop 64 a @ m)"
      using blocks_whole [of "take 64 a" "drop 64 a @ m"] l by (metis append_assoc append_take_drop_id length_take min.absorb2)
    moreover have "blocks a = take 64 a # blocks (drop 64 a)" using False by (subst blocks.simps) simp
    ultimately show ?thesis using IH by simp
  qed simp
qed

lemma compress_blocks_spec:
  obtains full rest where "input = full @ rest" "64 dvd length full" "length rest < 64"
    "compress_blocks f s input = (foldl f s (blocks full), rest)"
proof (induction f s input arbitrary: thesis rule: compress_blocks.induct)
  case (1 f s input)
  show ?case
  proof (cases "64 \<le> length input")
    case True
    from 1(1) [OF True] obtain full rest where r: "drop 64 input = full @ rest" "64 dvd length full" "length rest < 64"
      "compress_blocks f (f s (take 64 input)) (drop 64 input) = (foldl f (f s (take 64 input)) (blocks full), rest)" by blast
    have "input = (take 64 input @ full) @ rest" using r(1) by (metis append_assoc append_take_drop_id)
    moreover have "64 dvd length (take 64 input @ full)" using r(2) True by simp
    moreover have "compress_blocks f s input = (foldl f s (blocks (take 64 input @ full)), rest)"
      using r(4) True by (subst compress_blocks.simps) (simp add: blocks_whole)
    ultimately show ?thesis using 1(2) r(3) by blast
  next
    case False
    then show ?thesis using 1(2) [of "[]" input] by (simp add: compress_blocks.simps)
  qed
qed

lemma copy_at_simps [simp]:
  "length xs \<le> length arr \<Longrightarrow> length (copy_at 0 xs arr) = length arr"
  "length xs \<le> length arr \<Longrightarrow> take (length xs) (copy_at 0 xs arr) = xs"
  by (simp_all add: copy_at_def)

section \<open>The streaming state\<close>

text \<open>A state that has absorbed the bytes \<open>m\<close>: the whole blocks are compressed, the rest is buffered.\<close>

definition absorbed :: "compression \<Rightarrow> u32 list \<Rightarrow> bytes \<Rightarrow> hash_state \<Rightarrow> bool" where
  "absorbed f init m st \<longleftrightarrow>
     (\<exists>full. m = full @ take (st_buffered st) (st_buffer st) \<and> 64 dvd length full \<and> st_buffered st < 64
        \<and> length (st_buffer st) = 64 \<and> st_state st = foldl f init (blocks full) \<and> st_size st = of_nat (length m))"

lemma absorbed_init: "absorbed f init [] (hash_init init)"
  by (simp add: absorbed_def hash_init_def)

text \<open>\<^verbatim>\<open>update\<close> first completes the buffered block, or uses up its input doing so.\<close>

definition refilled :: "compression \<Rightarrow> u32 list \<Rightarrow> bytes \<Rightarrow> hash_state \<Rightarrow> bytes \<Rightarrow> bool" where
  "refilled f init m st rest \<longleftrightarrow> length (st_buffer st) = 64 \<and> st_size st = of_nat (length m) \<and>
     (\<exists>full. 64 dvd length full \<and> st_state st = foldl f init (blocks full) \<and>
        (st_buffered st = 0 \<and> m = full @ rest
         \<or> rest = [] \<and> st_buffered st < 64 \<and> m = full @ take (st_buffered st) (st_buffer st)))"

lemma fill_buffer_refilled:
  assumes "absorbed f init m st"
  shows "case fill_buffer f (st\<lparr>st_size := st_size st + of_nat (length input)\<rparr>) input of
    (st', rest) \<Rightarrow> refilled f init (m @ input) st' rest"
proof -
  obtain full where a: "m = full @ take (st_buffered st) (st_buffer st)" "64 dvd length full" "st_buffered st < 64"
    "length (st_buffer st) = 64" "st_state st = foldl f init (blocks full)" "st_size st = of_nat (length m)"
    using assms by (auto simp: absorbed_def)
  let ?k = "st_buffered st"
  show ?thesis
  proof (cases "?k = 0")
    case True
    then show ?thesis using a by (auto simp: fill_buffer_def refilled_def)
  next
    case k: False
    show ?thesis
    proof (cases "length input < 64 - ?k")
      case True
      then have "take (?k + length input) (copy_at ?k input (st_buffer st)) = take ?k (st_buffer st) @ input"
        using a(3,4) by (simp add: copy_at_def)
      then show ?thesis using k True a by (auto simp: fill_buffer_def refilled_def Let_def copy_at_def)
    next
      case False
      let ?b = "take ?k (st_buffer st) @ take (64 - ?k) input"
      have b: "copy_at ?k (take (64 - ?k) input) (st_buffer st) = ?b" "length ?b = 64"
        using False a(3,4) by (simp_all add: copy_at_def)
      have "blocks (full @ ?b) = blocks full @ [?b]" using blocks_append [OF a(2)] blocks_whole [OF b(2), of "[]"] by simp
      then have "f (foldl f init (blocks full)) ?b = foldl f init (blocks (full @ ?b))" by simp
      moreover have "m @ input = (full @ ?b) @ drop (64 - ?k) input" using a(1) by simp
      moreover have "64 dvd length (full @ ?b)" using a(2) b(2) by (metis dvd_add dvd_refl length_append)
      ultimately show ?thesis using k False a b
        by (auto simp: fill_buffer_def refilled_def Let_def min_def simp del: append_assoc)
    qed
  qed
qed

lemma absorbed_update:
  assumes "absorbed f init m st"
  shows "absorbed f init (m @ input) (hash_update f st input)"
proof -
  obtain st' rest where fb: "fill_buffer f (st\<lparr>st_size := st_size st + of_nat (length input)\<rparr>) input = (st', rest)"
    by (cases "fill_buffer f (st\<lparr>st_size := st_size st + of_nat (length input)\<rparr>) input")
  have r: "refilled f init (m @ input) st' rest" using fill_buffer_refilled [OF assms, of input] fb by simp
  obtain whole tail where c: "rest = whole @ tail" "64 dvd length whole" "length tail < 64"
    "compress_blocks f (st_state st') rest = (foldl f (st_state st') (blocks whole), tail)"
    by (rule compress_blocks_spec)
  obtain full where full: "64 dvd length full" "st_state st' = foldl f init (blocks full)"
    "st_buffered st' = 0 \<and> m @ input = full @ rest
      \<or> rest = [] \<and> st_buffered st' < 64 \<and> m @ input = full @ take (st_buffered st') (st_buffer st')"
    using r by (auto simp: refilled_def)
  have st: "foldl f (st_state st') (blocks whole) = foldl f init (blocks (full @ whole))"
    using full(2) blocks_append [OF full(1)] by simp
  have ok: "length (st_buffer st') = 64" "st_size st' = of_nat (length (m @ input))" "64 dvd length (full @ whole)"
    using r full(1) c(2) by (simp_all add: refilled_def)
  from full(3) show ?thesis
  proof (elim disjE conjE)
    assume z: "st_buffered st' = 0" "m @ input = full @ rest"
    then have "m @ input = (full @ whole) @ tail" using c(1) by simp
    moreover have "take (length tail) (copy_at 0 tail (st_buffer st')) = tail" using c(3) ok(1) by simp
    ultimately show ?thesis using c(3,4) ok z st fb
      by (auto simp: hash_update_def absorbed_def Let_def intro!: exI [of _ "full @ whole"])
  next
    assume "rest = []" "st_buffered st' < 64" "m @ input = full @ take (st_buffered st') (st_buffer st')"
    then show ?thesis using c ok st fb full(1) by (auto simp: hash_update_def absorbed_def Let_def intro!: exI [of _ full])
  qed
qed

lemma absorbed_chunks:
  "absorbed f init m st \<Longrightarrow> absorbed f init (m @ concat cs) (foldl (hash_update f) st cs)"
proof (induction cs arbitrary: m st)
  case (Cons c cs)
  then show ?case using absorbed_update [OF Cons.prems, of c] Cons.IH [of "m @ c"] by simp
qed simp

section \<open>Padding\<close>

lemma length_fold_downward: "length (fold (\<lambda>i b. b[fs - 1 - i := g i]) is b) = length b"
  by (induction "is" arbitrary: b) simp_all

lemma nth_fold_downward:
  "n \<le> fs \<Longrightarrow> fs \<le> length b \<Longrightarrow> j < length b \<Longrightarrow>
   fold (\<lambda>i b. b[fs - 1 - i := g i]) [0..<n] b ! j = (if fs - n \<le> j \<and> j < fs then g (fs - 1 - j) else b ! j)"
proof (induction n)
  case (Suc n)
  then show ?case using length_fold_downward [of fs g "[0..<n]" b] by (auto simp: nth_list_update)
qed auto

lemma length_byte: "ucast (drop_bit (8 * i) (of_nat n * 8 :: u64)) = (of_nat (8 * n div 256 ^ i) :: byte)" if "i < 8"
proof -
  have i: "(256 :: nat) ^ i = 2 ^ (8 * i)" by (simp add: power_mult)
  have "(of_nat n * 8 :: u64) = of_nat (8 * n)" by simp
  then have "unat (of_nat n * 8 :: u64) = 8 * n mod 2 ^ 64" by (simp only: unat_of_nat) simp
  then have "unat (drop_bit (8 * i) (of_nat n * 8 :: u64)) = (8 * n mod 2 ^ 64) div 2 ^ (8 * i)"
    by (simp only: unat_drop_bit_eq) (simp only: drop_bit_eq_div)
  moreover have "(8 * n mod 2 ^ 64) div 2 ^ (8 * i) mod 2 ^ 8 = 8 * n div 2 ^ (8 * i) mod 2 ^ 8"
  proof -
    have "(2 :: nat) ^ 64 = 2 ^ (8 * i) * 2 ^ (64 - 8 * i)" using that by (simp flip: power_add)
    then have "(8 * n mod 2 ^ 64) div 2 ^ (8 * i) = 8 * n div 2 ^ (8 * i) mod 2 ^ (64 - 8 * i)"
      by (simp only: mod_mult2_eq) simp
    moreover have "(2 :: nat) ^ 8 dvd 2 ^ (64 - 8 * i)" using that by (intro le_imp_power_dvd) simp
    ultimately show ?thesis by (simp only: mod_mod_cancel)
  qed
  ultimately show ?thesis
    by (simp add: word_unat_eq_iff unsigned_ucast_eq take_bit_eq_mod unat_of_nat i)
qed

lemma length_length_suffix [simp]: "length (length_suffix n) = 8"
  by (simp add: length_suffix_def)

lemma final_block_padding:
  assumes k: "st_buffered st < 64" "length (st_buffer st) = 64" and fs: "st_buffered st + 9 \<le> fs" "fs \<le> 128"
    and n: "st_size st = of_nat n"
  shows "take fs (final_block st fs) =
    take (st_buffered st) (st_buffer st) @ 0x80 # replicate (fs - 9 - st_buffered st) 0 @ length_suffix n"
proof (rule nth_equalityI)
  let ?k = "st_buffered st"
  let ?b = "(copy_at 0 (take ?k (st_buffer st)) (replicate 128 0))[?k := 0x80]"
  have len: "length ?b = 128" using k by (simp add: copy_at_def)
  then have lf: "length (final_block st fs) = 128"
    unfolding final_block_def Let_def by (simp only: length_fold_downward)
  then show "length (take fs (final_block st fs)) =
      length (take ?k (st_buffer st) @ 0x80 # replicate (fs - 9 - ?k) 0 @ length_suffix n)"
    using k fs by simp
  fix j assume "j < length (take fs (final_block st fs))"
  then have j: "j < fs" by simp
  have g: "final_block st fs ! j = (if fs - 8 \<le> j then ucast (drop_bit (8 * (fs - 1 - j)) (st_size st * 8)) else ?b ! j)"
    using nth_fold_downward [of 8 fs ?b j] fs j len by (simp add: final_block_def)
  show "take fs (final_block st fs) ! j =
      (take ?k (st_buffer st) @ 0x80 # replicate (fs - 9 - ?k) 0 @ length_suffix n) ! j"
  proof (cases "fs - 8 \<le> j")
    case True
    then have "7 - (j - (fs - 8)) = fs - 1 - j" "fs - 1 - j < 8" "j - (fs - 8) < 8" using j fs by auto
    moreover have "(take ?k (st_buffer st) @ 0x80 # replicate (fs - 9 - ?k) 0 @ length_suffix n) ! j = length_suffix n ! (j - (fs - 8))"
    proof -
      have "length (take ?k (st_buffer st) @ 0x80 # replicate (fs - 9 - ?k) 0) = fs - 8" using k fs by simp
      then show ?thesis using True nth_append [of "take ?k (st_buffer st) @ 0x80 # replicate (fs - 9 - ?k) 0" "length_suffix n" j]
        by (simp only: append_assoc append_Cons leD if_False not_less)
    qed
    ultimately show ?thesis using g True j n length_byte [of "fs - 1 - j" n] by (simp add: length_suffix_def)
  next
    case False
    then show ?thesis using g j k fs by (auto simp: copy_at_def nth_append nth_Cons nth_list_update split: nat.split)
  qed
qed

section \<open>Digests of streams\<close>

lemma finalize_absorbed:
  assumes "absorbed f init m st"
  shows "hash_finalize f store st = chained_digest f init store m"
proof -
  let ?k = "st_buffered st"
  obtain full where a: "m = full @ take ?k (st_buffer st)" "64 dvd length full" "?k < 64"
    "length (st_buffer st) = 64" "st_state st = foldl f init (blocks full)" "st_size st = of_nat (length m)"
    using assms by (auto simp: absorbed_def)
  define fs :: nat where "fs = (if ?k < 56 then 64 else 128)"
  let ?b = "take fs (final_block st fs)"
  have mk: "length m mod 64 = ?k" using a(1-4) by (auto simp: mod_0_imp_dvd elim!: dvdE)
  have b: "?b = take ?k (st_buffer st) @ 0x80 # replicate (fs - 9 - ?k) 0 @ length_suffix (length m)"
    by (rule final_block_padding) (use a(3,4,6) in \<open>auto simp: fs_def\<close>)
  have "(119 - ?k) mod 64 = fs - 9 - ?k" using a(3) by (auto simp: fs_def mod_if)
  then have p: "blocks (padded m) = blocks full @ blocks ?b"
    using blocks_append [OF a(2), of ?b] a(1) mk b by (simp add: padded_def)
  have lb: "length ?b = fs" using b a(3,4) by (auto simp: fs_def)
  show ?thesis
  proof (cases "?k < 56")
    case True
    then have "blocks ?b = [take 64 (final_block st 64)]" using lb blocks_whole [of ?b "[]"] by (simp add: fs_def)
    then show ?thesis using True p a(5) by (simp add: hash_finalize_def chained_digest_def Let_def)
  next
    case False
    then have fs: "fs = 128" by (simp add: fs_def)
    have "?b = take 64 (final_block st 128) @ take 64 (drop 64 (final_block st 128))"
      using take_drop_split [of 64 128 "final_block st 128"] fs by simp
    moreover have "length (take 64 (final_block st 128)) = 64" "length (take 64 (drop 64 (final_block st 128))) = 64"
      using lb fs by auto
    ultimately have "blocks ?b = [take 64 (final_block st 128), take 64 (drop 64 (final_block st 128))]"
      using blocks_whole [of "take 64 (final_block st 128)" "take 64 (drop 64 (final_block st 128))"]
        blocks_whole [of "take 64 (drop 64 (final_block st 128))" "[]"] by simp
    then show ?thesis using False p a(5) by (simp add: hash_finalize_def chained_digest_def Let_def)
  qed
qed

text \<open>What a keyed or unkeyed client of a digest may rely on: the digest of a stream depends on the
  concatenation of its pieces only.\<close>

locale stream_digest =
  fixes new :: 's and update :: "'s \<Rightarrow> bytes \<Rightarrow> 's" and finalize :: "'s \<Rightarrow> bytes" and digest :: "bytes \<Rightarrow> bytes"
  assumes stream: "finalize (foldl update new cs) = digest (concat cs)"
begin

lemma one_piece: "finalize (update new m) = digest m"
  using stream [of "[m]"] by simp

lemma two_pieces: "finalize (update (update new a) b) = digest (a @ b)"
  using stream [of "[a, b]"] by simp

lemma regrouped: "concat cs = concat ds \<Longrightarrow> finalize (foldl update new cs) = finalize (foldl update new ds)"
  by (simp add: stream)

lemma after_prefix: "finalize (foldl update (update new a) cs) = digest (a @ concat cs)"
  using stream [of "a # cs"] by simp

end

section \<open>The constants, words and rounds of the standard\<close>

lemma sha256_k_roots:
  "list_all2 (\<lambda>p. root_digits 3 (if p < 8 then 1 else if p < 27 then 2 else if p < 64 then 3 else if p < 125 then 4
      else if p < 216 then 5 else 6) p) first_primes sha256_k"
  by (simp add: first_primes_def sha256_k_def root_digits_def)

lemma sha256_k_standard: "t < 64 \<Longrightarrow> sha256_k ! t = K256 t"
  using list_all2_nthD [OF sha256_k_roots, of t] by (simp add: K256_def first_primes_def root_digits_fraction)

lemma sha256_initial_roots:
  "list_all2 (\<lambda>p. root_digits 2 (if p < 4 then 1 else if p < 9 then 2 else if p < 16 then 3 else 4) p)
     (take 8 first_primes) sha256_initial"
  by (simp add: first_primes_def sha256_initial_def root_digits_def)

lemma sha256_initial_standard: "sha256_initial = H256"
proof (rule nth_equalityI)
  show "length sha256_initial = length H256" by (simp add: sha256_initial_def H256_def first_primes_def)
  fix t assume "t < length sha256_initial"
  then have t: "t < 8" by (simp add: sha256_initial_def)
  then have "t < length (take 8 first_primes)" by (simp add: first_primes_def)
  from list_all2_nthD [OF sha256_initial_roots this] this show "sha256_initial ! t = H256 ! t"
    by (simp add: H256_def sqrt_def root_digits_fraction)
qed

lemma sha1_initial_standard: "sha1_initial = H160"
  by (simp add: sha1_initial_def H160_def)

lemma floor_scaled_sqrt: "n ^ 2 \<le> p * (2 ^ 30) ^ 2 \<Longrightarrow> p * (2 ^ 30) ^ 2 < (n + 1) ^ 2 \<Longrightarrow> \<lfloor>2 ^ 30 * sqrt (real p)\<rfloor> = int n"
  using floor_scaled_root [of 2 n p "2 ^ 30"] by (simp add: sqrt_def)

lemma sha1_k_standard: "snd (sha1_mix t b c d) = K160 t"
proof -
  have "\<lfloor>2 ^ 30 * sqrt 2\<rfloor> = 0x5a827999" using floor_scaled_sqrt [of "0x5a827999" 2] by simp
  moreover have "\<lfloor>2 ^ 30 * sqrt 3\<rfloor> = 0x6ed9eba1" using floor_scaled_sqrt [of "0x6ed9eba1" 3] by simp
  moreover have "\<lfloor>2 ^ 30 * sqrt 5\<rfloor> = 0x8f1bbcdc" using floor_scaled_sqrt [of "0x8f1bbcdc" 5] by simp
  moreover have "\<lfloor>2 ^ 30 * sqrt 10\<rfloor> = 0xca62c1d6" using floor_scaled_sqrt [of "0xca62c1d6" 10] by simp
  ultimately show ?thesis by (simp add: sha1_mix_def K160_def)
qed

lemma sha1_mix_standard: "fst (sha1_mix t b c d) = mix160 t b c d"
  by (auto simp: sha1_mix_def mix160_def Choose_def Parity_def Majority_def bit_eq_iff bit_simps)

lemma word_rotr_ROTR: "n \<le> 32 \<Longrightarrow> word_rotr n x = ROTR n x"
proof (rule bit_word_eqI)
  fix i assume n: "n \<le> 32" and "i < LENGTH(32)"
  then have i: "i < 32" by simp
  show "bit (word_rotr n x) i = bit (ROTR n x) i"
  proof (cases "i + n < 32")
    case True
    then have "\<not> 32 - n \<le> i" by simp
    then show ?thesis using True i n by (simp add: ROTR_def bit_or_iff bit_drop_bit_eq bit_push_bit_iff bit_word_rotr_iff add.commute)
  next
    case False
    then have "(i + n) mod 32 = i + n - 32" using i n by (simp add: mod_if)
    moreover have "\<not> bit x (n + i)" using False bit_imp_le_length [of x "n + i"] by auto
    moreover have "32 - n \<le> i" using False n by simp
    ultimately show ?thesis using i n False
      by (simp add: ROTR_def bit_or_iff bit_drop_bit_eq bit_push_bit_iff bit_word_rotr_iff)
  qed
qed

lemma word_rotl_ROTL: "n \<le> 32 \<Longrightarrow> word_rotl n x = ROTL n x"
proof -
  assume n: "n \<le> 32"
  then have "word_rotr (32 - n) x = ROTL n x" by (simp add: word_rotr_ROTR ROTR_def ROTL_def or.commute)
  moreover have "word_rotr 32 x = word_rotr 0 x" by (rule bit_word_eqI) (simp add: bit_word_rotr_iff)
  ultimately show ?thesis using n by (cases "n = 32") (simp_all add: word_rotl_eq_word_rotr)
qed

lemma load32_be_standard: "sha256_load32_be b (4 * t) = block_word b t" "sha1_load32_be b (4 * t) = block_word b t"
proof -
  let ?x = "\<lambda>k. b ! (4 * t + k)"
  have u: "unat x < 256" for x :: byte using unsigned_less [of x, where ?'a = nat] by simp
  have 1: "unat (push_bit 8 (ucast (?x 2)) OR ucast (?x 3) :: u32) = 256 * unat (?x 2) + unat (?x 3)"
    using unat_or_push [of "ucast (?x 3)" 8 "ucast (?x 2)"] u [of "?x 2"] u [of "?x 3"] by simp
  have 2: "unat (push_bit 16 (ucast (?x 1)) OR push_bit 8 (ucast (?x 2)) OR ucast (?x 3) :: u32)
      = 65536 * unat (?x 1) + (256 * unat (?x 2) + unat (?x 3))"
    using unat_or_push [of "push_bit 8 (ucast (?x 2)) OR ucast (?x 3)" 16 "ucast (?x 1)"] u [of "?x 1"] u [of "?x 2"] u [of "?x 3"]
    unfolding 1 by simp
  have "unat (sha256_load32_be b (4 * t)) = 16777216 * unat (?x 0) + (65536 * unat (?x 1) + (256 * unat (?x 2) + unat (?x 3)))"
    using unat_or_push [of "push_bit 16 (ucast (?x 1)) OR push_bit 8 (ucast (?x 2)) OR ucast (?x 3)" 24 "ucast (?x 0)"]
      u [of "?x 0"] u [of "?x 1"] u [of "?x 2"] u [of "?x 3"] unfolding 2 by (simp add: sha256_load32_be_def)
  also have "\<dots> = (\<Sum>k<4. 256 ^ (3 - k) * unat (?x k))" by (simp add: lessThan_nat_numeral)
  finally have "of_nat (unat (sha256_load32_be b (4 * t))) = block_word b t" by (simp only: block_word_def)
  then show "sha256_load32_be b (4 * t) = block_word b t" by simp
  then show "sha1_load32_be b (4 * t) = block_word b t" by (simp add: sha1_load32_be_def sha256_load32_be_def)
qed

lemma store32_be_standard: "sha256_store32_be = word_bytes" "sha1_store32_be = word_bytes"
proof -
  have "ucast (drop_bit k v) = (of_nat (unat v div 2 ^ k) :: byte)" for k and v :: u32
    by (simp only: word_unat_eq_iff unat_of_nat unsigned_ucast_eq unat_drop_bit_eq) (simp add: take_bit_eq_mod drop_bit_eq_div)
  from this [of 24] this [of 16] this [of 8] this [of 0] show "sha256_store32_be = word_bytes"
    by (simp add: fun_eq_iff sha256_store32_be_def word_bytes_def upt_rec)
  then show "sha1_store32_be = word_bytes" by (simp add: fun_eq_iff sha1_store32_be_def sha256_store32_be_def)
qed

lemma sha256_schedule_standard: "t < 64 \<Longrightarrow> sha256_schedule b ! t = W256 b t"
proof -
  let ?w = "map (\<lambda>i. sha256_load32_be b (4 * i)) [0..<16] @ replicate 48 0"
  have "length (fold sha256_extend [16..<n] ?w) = 64 \<and> (\<forall>t < n. fold sha256_extend [16..<n] ?w ! t = W256 b t)"
    if "16 \<le> n" "n \<le> 64" for n
    using that
  proof (induction n rule: dec_induct)
    case base
    then show ?case by (simp add: nth_append W256.simps load32_be_standard)
  next
    case (step n)
    let ?v = "fold sha256_extend [16..<n] ?w"
    have v: "length ?v = 64" "\<And>t. t < n \<Longrightarrow> ?v ! t = W256 b t" using step by simp_all
    have "?v ! (n - 16) = W256 b (n - 16)" "?v ! (n - 15) = W256 b (n - 15)" "?v ! (n - 7) = W256 b (n - 7)"
      "?v ! (n - 2) = W256 b (n - 2)" using step.hyps by (simp_all add: v(2))
    then have "sha256_extend n ?v = ?v[n := W256 b n]" using step.hyps
      by (simp add: sha256_extend_def W256.simps [of b n] small0_def small1_def word_rotr_ROTR add.commute add.left_commute add.assoc)
    then show ?case using step v by (simp add: nth_list_update less_Suc_eq)
  qed
  from this [of 64] show "t < 64 \<Longrightarrow> sha256_schedule b ! t = W256 b t" by (simp add: sha256_schedule_def)
qed

lemma sha1_schedule_standard: "t < 80 \<Longrightarrow> sha1_schedule b ! t = W160 b t"
proof -
  let ?w = "map (\<lambda>i. sha1_load32_be b (4 * i)) [0..<16] @ replicate 64 0"
  have "length (fold sha1_extend [16..<n] ?w) = 80 \<and> (\<forall>t < n. fold sha1_extend [16..<n] ?w ! t = W160 b t)"
    if "16 \<le> n" "n \<le> 80" for n
    using that
  proof (induction n rule: dec_induct)
    case base
    then show ?case by (simp add: nth_append W160.simps load32_be_standard)
  next
    case (step n)
    let ?v = "fold sha1_extend [16..<n] ?w"
    have v: "length ?v = 80" "\<And>t. t < n \<Longrightarrow> ?v ! t = W160 b t" using step by simp_all
    have "?v ! (n - 16) = W160 b (n - 16)" "?v ! (n - 14) = W160 b (n - 14)" "?v ! (n - 8) = W160 b (n - 8)"
      "?v ! (n - 3) = W160 b (n - 3)" using step.hyps by (simp_all add: v(2))
    then have "sha1_extend n ?v = ?v[n := W160 b n]" using step.hyps
      by (simp add: sha1_extend_def W160.simps [of b n] word_rotl_ROTL)
    then show ?case using step v by (simp add: nth_list_update less_Suc_eq)
  qed
  from this [of 80] show "t < 80 \<Longrightarrow> sha1_schedule b ! t = W160 b t" by (simp add: sha1_schedule_def)
qed

lemma sha256_vars_standard:
  assumes "length H = 8" "t \<le> 64"
  shows "length (vars256 b H t) = 8 \<and> fold (sha256_round (sha256_schedule b)) [0..<t] H = vars256 b H t"
  using assms(2)
proof (induction t)
  case (Suc t)
  then obtain a1 a2 a3 a4 a5 a6 a7 a8 where v: "vars256 b H t = [a1, a2, a3, a4, a5, a6, a7, a8]"
    by (auto simp: numeral_eq_Suc length_Suc_conv)
  with Suc show ?case
    by (simp add: sha256_round_def Let_def sha256_k_standard sha256_schedule_standard word_rotr_ROTR Choose_def Majority_def
        Sum0_def Sum1_def)
qed (simp add: assms(1))

lemma sha1_vars_standard:
  assumes "length H = 5" "t \<le> 80"
  shows "length (vars160 b H t) = 5 \<and> fold (sha1_round (sha1_schedule b)) [0..<t] H = vars160 b H t"
  using assms(2)
proof (induction t)
  case (Suc t)
  then obtain a1 a2 a3 a4 a5 where v: "vars160 b H t = [a1, a2, a3, a4, a5]"
    by (auto simp: numeral_eq_Suc length_Suc_conv)
  with Suc show ?case
    by (simp add: sha1_round_def Let_def case_prod_beta sha1_k_standard sha1_mix_standard sha1_schedule_standard word_rotl_ROTL)
qed (simp add: assms(1))

lemma map2_add_commute: "map2 (+) xs ys = map2 (+) ys (xs :: u32 list)"
  by (induction xs ys rule: list_induct2') (simp_all add: add.commute)

lemma sha256_compress_standard: "length H = 8 \<Longrightarrow> sha256_compress H b = hash256 H b \<and> length (sha256_compress H b) = 8"
  using sha256_vars_standard [of H 64 b] by (simp add: sha256_compress_def hash256_def map2_add_commute [of H])

lemma sha1_compress_standard: "length H = 5 \<Longrightarrow> sha1_compress H b = hash160 H b \<and> length (sha1_compress H b) = 5"
  using sha1_vars_standard [of H 80 b] by (simp add: sha1_compress_def hash160_def map2_add_commute [of H])

lemma foldl_const_length_cong:
  assumes "\<And>v b. length v = n \<Longrightarrow> f v b = g v b \<and> length (f v b) = n" and "length v = n"
  shows "foldl f v bs = foldl g v bs \<and> length (foldl f v bs) = n"
  using assms(2)
proof (induction bs arbitrary: v)
  case (Cons b bs)
  then show ?case using assms(1) [of v b] by (metis foldl_Cons)
qed simp

lemma length_concat_const: "(\<And>x. length (g x) = n) \<Longrightarrow> length (concat (map g xs)) = n * length xs"
  by (induction xs) simp_all

lemma sha256_blocks_standard:
  "foldl sha256_compress sha256_initial bs = foldl hash256 H256 bs \<and> length (foldl hash256 H256 bs) = 8"
proof -
  have "length sha256_initial = 8" by (simp add: sha256_initial_def)
  from foldl_const_length_cong [of 8 sha256_compress hash256, OF sha256_compress_standard this, of bs]
  show ?thesis unfolding sha256_initial_standard by metis
qed

lemma sha1_blocks_standard:
  "foldl sha1_compress sha1_initial bs = foldl hash160 H160 bs \<and> length (foldl hash160 H160 bs) = 5"
proof -
  have "length sha1_initial = 5" by (simp add: sha1_initial_def)
  from foldl_const_length_cong [of 5 sha1_compress hash160, OF sha1_compress_standard this, of bs]
  show ?thesis unfolding sha1_initial_standard by metis
qed

lemma chained_sha256: "chained_digest sha256_compress sha256_initial sha256_store32_be = standard_sha256"
  by (rule ext) (simp add: chained_digest_def standard_sha256_def sha256_blocks_standard store32_be_standard)

lemma chained_sha1: "chained_digest sha1_compress sha1_initial sha1_store32_be = standard_sha1"
  by (rule ext) (simp add: chained_digest_def standard_sha1_def sha1_blocks_standard store32_be_standard)

text \<open>The digests have 32, respectively 20, bytes.\<close>

lemma length_standard_sha256: "length (standard_sha256 m) = 32"
  using sha256_blocks_standard [of "blocks (padded m)"]
  by (simp add: standard_sha256_def length_concat_const [of _ 4] word_bytes_def)

lemma length_standard_sha1: "length (standard_sha1 m) = 20"
  using sha1_blocks_standard [of "blocks (padded m)"]
  by (simp add: standard_sha1_def length_concat_const [of _ 4] word_bytes_def)

interpretation sha256: stream_digest sha256_new sha256_update sha256_finalize standard_sha256
  by unfold_locales
    (use finalize_absorbed [OF absorbed_chunks [OF absorbed_init]] in
     \<open>simp add: sha256_new_def sha256_update_def sha256_finalize_def chained_sha256\<close>)

interpretation sha1: stream_digest sha1_new sha1_update sha1_finalize standard_sha1
  by unfold_locales
    (use finalize_absorbed [OF absorbed_chunks [OF absorbed_init]] in
     \<open>simp add: sha1_new_def sha1_update_def sha1_finalize_def chained_sha1\<close>)

lemma length_sha256 [simp]: "length (sha256 m) = 32"
  by (simp add: sha256_def sha256.one_piece length_standard_sha256)

section \<open>Properties\<close>

text \<open>C27. Streaming digests follow the standard.  However a message is cut into pieces, absorbing the
  pieces one after the other and finalizing gives the digest that FIPS 180-4 prescribes for the whole
  message: SHA-256 and SHA-1 with the standard's own initial values, constants (bits of the roots of
  the first primes), message schedules, round functions, padding and byte order, which are written
  down independently of the program.  The digests have 32 and 20 bytes.  The length field is the bit
  length reduced to 64 bits, as the program computes it; the standard leaves longer messages out.\<close>

theorem streaming_digest_is_standard:
  "sha256_finalize (foldl sha256_update sha256_new cs) = standard_sha256 (concat cs)
   \<and> sha1_finalize (foldl sha1_update sha1_new cs) = standard_sha1 (concat cs)
   \<and> sha256 (concat cs) = standard_sha256 (concat cs) \<and> sha1 (concat cs) = standard_sha1 (concat cs)
   \<and> length (sha256 (concat cs)) = 32 \<and> length (sha1 (concat cs)) = 20"
  by (simp add: sha256_def sha1_def sha256.stream sha1.stream sha256.one_piece sha1.one_piece length_standard_sha256
      length_standard_sha1)

text \<open>C28. The keyed digest.  With the key padded with zeros to a block, or hashed first when it is longer
  than one, the streaming keyed digest is the digest of the outer pad followed by the digest of the
  inner pad and the message.\<close>

theorem hmac_is_nested_digest:
  "hmac_finalize (foldl hmac_update (hmac_new key) cs) =
     (let k = (if length key > 64 then standard_sha256 key else key);
          k0 = k @ replicate (64 - length k) 0
      in standard_sha256 (map (\<lambda>b. b XOR 0x5c) k0 @ standard_sha256 (map (\<lambda>b. b XOR 0x36) k0 @ concat cs)))"
proof -
  let ?k = "if length key > 64 then standard_sha256 key else key"
  have k: "length ?k \<le> 64" by (simp add: length_standard_sha256)
  have kb: "hmac_key_block key = ?k @ replicate (64 - length ?k) 0"
    using k by (simp add: hmac_key_block_def copy_at_def sha256_def sha256.one_piece)
  have "hm_inner (foldl hmac_update st cs) = foldl sha256_update (hm_inner st) cs
      \<and> hm_outer_pad (foldl hmac_update st cs) = hm_outer_pad st" for st
    by (induction cs arbitrary: st) (simp_all add: hmac_update_def)
  then show ?thesis
    by (simp add: hmac_finalize_def hmac_new_def Let_def sha256.two_pieces sha256.after_prefix kb)
qed

end
