(* ===== verification/Wisp_Tape.thy ===== *)
theory Wisp_Tape
  imports Wisp_Machine Digest
begin

text \<open>
  Tapes, the saved images of a Wisp machine: \<^verbatim>\<open>src/wisp/tape.cpp\<close>.  \<^verbatim>\<open>encode\<close> checks the machine and
  writes its storage, roots and manifests, followed by a digest; \<^verbatim>\<open>decode\<close> reads them into a fresh
  machine, relocates the builtins by name and checks the result the same way.  A thrown error
  is \<open>Inl\<close>.  The compressor is zlib, a parameter of the outer operations.

  The checks walk lists and continuation chains with colour arrays (0, 1 or 2); each walk is a total
  function, its measure the number of cells it has not coloured yet.
\<close>

section \<open>Model: bytes\<close>

datatype tape_error = TapeError string | TapeHeap heap_error | TapeEval eval_error

definition magic :: bytes where
  "magic = ascii ''NXWISP'' @ [0x0d, 0x0a]"

definition compressed_magic :: bytes where
  "compressed_magic = ascii ''NXWISPZ'' @ [0x0a]"

definition tape_version :: u32 where "tape_version = 5"

definition demand :: "bool \<Rightarrow> string \<Rightarrow> tape_error + unit" where
  "demand good message = (if good then Inr () else Inl (TapeError message))"

text \<open>Checks run in order; the first failure is the result.\<close>

fun all_ok :: "(tape_error + unit) list \<Rightarrow> tape_error + unit" where
  "all_ok [] = Inr ()"
| "all_ok (c # cs) = (case c of Inl e \<Rightarrow> Inl e | Inr _ \<Rightarrow> all_ok cs)"

definition then_check :: "heap_error + 'a \<Rightarrow> ('a \<Rightarrow> tape_error + 'b) \<Rightarrow> tape_error + 'b" where
  "then_check r f = (case r of Inl e \<Rightarrow> Inl (TapeHeap e) | Inr x \<Rightarrow> f x)"

definition put_u32 :: "u32 \<Rightarrow> bytes" where
  "put_u32 x = map (\<lambda>shift. ucast (drop_bit shift x AND 255)) [0, 8, 16, 24]"

definition put_count :: "nat \<Rightarrow> tape_error + bytes" where
  "put_count n = (if n \<le> 2 ^ 32 - 1 then Inr (put_u32 (of_nat n)) else Inl (TapeError ''tape count overflow''))"

fun parts :: "(tape_error + bytes) list \<Rightarrow> tape_error + bytes" where
  "parts [] = Inr []"
| "parts (p # ps) = (case p of Inl e \<Rightarrow> Inl e | Inr b \<Rightarrow> map_sum id (\<lambda>bs. b @ bs) (parts ps))"

definition put_text :: "bytes \<Rightarrow> tape_error + bytes" where
  "put_text v = parts [put_count (length v), Inr v]"

text \<open>A reader takes the bytes left and returns a value and the bytes after it.\<close>

type_synonym 'a tape_reader = "bytes \<Rightarrow> tape_error + 'a \<times> bytes"

definition rd_return :: "'a \<Rightarrow> 'a tape_reader" where
  "rd_return x bs = Inr (x, bs)"

definition rd_bind :: "'a tape_reader \<Rightarrow> ('a \<Rightarrow> 'b tape_reader) \<Rightarrow> 'b tape_reader" where
  "rd_bind p q bs = (case p bs of Inl e \<Rightarrow> Inl e | Inr (x, bs') \<Rightarrow> q x bs')"

definition rd_demand :: "bool \<Rightarrow> string \<Rightarrow> unit tape_reader" where
  "rd_demand good message bs = map_sum id (\<lambda>_. ((), bs)) (demand good message)"

definition rd_left :: "nat tape_reader" where
  "rd_left bs = Inr (length bs, bs)"

definition rd_take :: "nat \<Rightarrow> bytes tape_reader" where
  "rd_take n bs = (if n \<le> length bs then Inr (take n bs, drop n bs) else Inl (TapeError ''truncated tape''))"

definition rd_u32 :: "u32 tape_reader" where
  "rd_u32 = rd_bind (rd_take 4) (\<lambda>data. rd_return
     (fold (\<lambda>i result. result OR push_bit (8 * i) (ucast (data ! i))) [0..<4] 0))"

definition rd_text :: "bytes tape_reader" where
  "rd_text = rd_bind rd_u32 (\<lambda>n. rd_take (unat n))"

definition rd_flag :: "bool tape_reader" where
  "rd_flag = rd_bind rd_u32 (\<lambda>x. rd_bind (rd_demand (x \<le> 1) ''invalid tape flag'') (\<lambda>_. rd_return (x \<noteq> 0)))"

text \<open>A loop over a list of indices that threads a state.\<close>

fun rd_for :: "'i list \<Rightarrow> ('i \<Rightarrow> 's \<Rightarrow> 's tape_reader) \<Rightarrow> 's \<Rightarrow> 's tape_reader" where
  "rd_for [] body s = rd_return s"
| "rd_for (i # is) body s = rd_bind (body i s) (rd_for is body)"

section \<open>Model: the checks\<close>

fun kind_name :: "field_kind \<Rightarrow> string" where
  "kind_name Value = ''value''"
| "kind_name Offset = ''offset''"
| "kind_name Length = ''length''"
| "kind_name Count = ''count''"
| "kind_name External = ''external''"

definition root_names :: "string list" where
  "root_names =
     [''WISP'', ''KEYWORD'', ''KEY'', ''packages'', ''current'', ''NIL-name'', ''T-name'', ''DO'', ''IF'', ''EVAL'', ''LET'',
      ''PROMPT'', ''BINDING'', ''CONTINUATION'', ''RESUME'', ''&OPTIONAL'', ''&REST'', ''&BODY'']"

definition saved_get :: "machine \<Rightarrow> nat \<Rightarrow> wword" where
  "saved_get m i =
     (if i = 0 then ev_base (vm_ev m) else if i = 1 then ev_keywords (vm_ev m) else if i = 2 then vm_keys m
      else if i = 3 then ev_packages (vm_ev m) else if i = 4 then ev_current (vm_ev m)
      else if i = 5 then vm_nil_name m else if i = 6 then vm_true_name m
      else ev_known (vm_ev m) (ascii (root_names ! i)))"

definition saved_set :: "machine \<Rightarrow> nat \<Rightarrow> wword \<Rightarrow> machine" where
  "saved_set m i v =
     (let ev = vm_ev m in
      if i = 0 then m\<lparr>vm_ev := ev\<lparr>ev_base := v\<rparr>\<rparr> else if i = 1 then m\<lparr>vm_ev := ev\<lparr>ev_keywords := v\<rparr>\<rparr>
      else if i = 2 then m\<lparr>vm_keys := v\<rparr> else if i = 3 then m\<lparr>vm_ev := ev\<lparr>ev_packages := v\<rparr>\<rparr>
      else if i = 4 then m\<lparr>vm_ev := ev\<lparr>ev_current := v\<rparr>\<rparr> else if i = 5 then m\<lparr>vm_nil_name := v\<rparr>
      else if i = 6 then m\<lparr>vm_true_name := v\<rparr>
      else m\<lparr>vm_ev := ev\<lparr>ev_known := (ev_known ev)(ascii (root_names ! i) := v)\<rparr>\<rparr>)"

definition check_value :: "heap \<Rightarrow> wword \<Rightarrow> tape_error + unit" where
  "check_value h x =
     (let T = tag_of x; payload = payload_of x in
      if is_pointer T then
        demand (era_of x = hera h \<and> unat (index_of x) < tab_size (hvat h T)) ''invalid tape pointer''
      else if T = integer then Inr ()
      else if T = sys then demand (x = nil \<or> x = w_t \<or> x = nah \<or> x = w_top) ''invalid system word''
      else if T = chr then
        demand (payload \<le> 0x10ffff \<and> \<not> (payload \<ge> 0xd800 \<and> payload \<le> 0xdfff)) ''invalid character''
      else if T = jet then demand (unat payload < length jet_manifest) ''invalid builtin ID''
      else if T = pin then demand (payload > 0 \<and> payload < next_pin h) ''invalid pin handle''
      else Inl (TapeError ''unknown word tag''))"

definition pool_length :: "heap \<Rightarrow> tag \<Rightarrow> nat" where
  "pool_length h T = (if T = v08 then length (hbytes h) else length (hwords h))"

text \<open>One table: no forwarding mark, valid words in the value columns, descriptors inside their pool.
  The total of the lengths is a \<^verbatim>\<open>uint64_t\<close> that at most \<open>2 ^ 26\<close> rows cannot overflow.\<close>

definition check_table :: "heap \<Rightarrow> tag \<Rightarrow> tape_error + unit" where
  "check_table h T =
     (let t = hvat h T in
      all_ok
        (map (\<lambda>x. demand (x \<noteq> zap) ''collector forwarding marker in tape'') (tab_col 0 t)
         @ concat (map (\<lambda>c. if snd (schema T ! c) = Value then map (check_value h) (tab_col c t) else []) [0..<width T])
         @ (if T = v08 \<or> word_payload T then
              map (\<lambda>r. demand (unat (r ! 0) \<le> pool_length h T \<and> unat (r ! 1) \<le> pool_length h T - unat (r ! 0)) ''invalid pool slice'')
                (trows t)
              @ [demand (sum_list (map (\<lambda>r. unat (r ! 1)) (trows t)) \<le> 2 ^ 32 - 1) ''collected payload pool would overflow'']
            else [])))"

definition typed :: "wword \<Rightarrow> tag \<Rightarrow> tape_error + unit" where
  "typed x T = demand (tag_of x = T) ''invalid machine field type''"

definition check_symbol :: "row \<Rightarrow> tape_error + unit" where
  "check_symbol r = all_ok [typed (r ! 0) v08, if r ! 1 \<noteq> nil then typed (r ! 1) pkg else Inr ()]"

definition check_code :: "heap \<Rightarrow> nat \<Rightarrow> tape_error + unit" where
  "check_code h i =
     (let x = pointer rec (of_nat i) (hera h) in
      then_check (code_record_op h x) (\<lambda>op.
        case op of
          None \<Rightarrow> Inr ()
        | Some op \<Rightarrow>
            then_check (heap_words rec x h) (\<lambda>xs.
              then_check (code_operands_valid h op (drop 1 xs)) (\<lambda>valid. demand valid ''invalid code record''))))"

text \<open>The two loops of \<^verbatim>\<open>proper\<close>: colour the list up to its end or to a list already known to be
  proper, then mark it as proper.\<close>

lemma colour_less:
  "i < length (colors :: nat list) \<Longrightarrow> colors ! i = a \<Longrightarrow> a \<noteq> b \<Longrightarrow>
     length (filter (\<lambda>c. c = a) (colors[i := b])) < length (filter (\<lambda>c. c = a) colors)"
proof (induction colors arbitrary: i)
  case (Cons c cs)
  then show ?case by (cases i) auto
qed simp

function walk_list :: "heap \<Rightarrow> tag \<Rightarrow> nat list \<Rightarrow> wword \<Rightarrow> tape_error + nat list" where
  "walk_list h element colors cur =
     (if cur = nil then Inr colors
      else if tag_of cur \<noteq> duo then Inl (TapeError ''invalid machine field type'')
      else
        let i = unat (index_of cur) in
        if i \<ge> length colors then Inl (TapeHeap Assertion)
        else if colors ! i = 1 then Inl (TapeError ''cyclic machine list'')
        else if colors ! i = 2 then Inr colors
        else if colors ! i \<noteq> 0 then Inl (TapeHeap Assertion)
        else case heap_read duo cur h of
          Inl e \<Rightarrow> Inl (TapeHeap e)
        | Inr r \<Rightarrow>
            if tag_of (r ! 0) \<noteq> element then Inl (TapeError ''invalid machine field type'')
            else walk_list h element (colors[i := 1]) (r ! 1))"
  by pat_completeness auto
termination
  by (relation "measure (\<lambda>(h, element, colors, cur). length (filter (\<lambda>c. c = 0) colors))") (auto intro: colour_less)

function settle_list :: "heap \<Rightarrow> nat list \<Rightarrow> wword \<Rightarrow> tape_error + nat list" where
  "settle_list h colors cur =
     (let i = unat (index_of cur) in
      if cur = nil then Inr colors
      else if i \<ge> length colors then Inl (TapeHeap Assertion)
      else if colors ! i \<noteq> 1 then Inr colors
      else case heap_get duo F_cdr cur h of
        Inl e \<Rightarrow> Inl (TapeHeap e)
      | Inr next \<Rightarrow> settle_list h (colors[i := 2]) next)"
  by pat_completeness auto
termination by (relation "measure (\<lambda>(h, colors, cur). length (filter (\<lambda>c. c = 1) colors))") (auto intro: colour_less)

declare walk_list.simps [simp del] settle_list.simps [simp del]

definition proper :: "heap \<Rightarrow> tag \<Rightarrow> nat list \<Rightarrow> wword \<Rightarrow> tape_error + nat list" where
  "proper h element colors head =
     (case walk_list h element colors head of Inl e \<Rightarrow> Inl e | Inr colors' \<Rightarrow> settle_list h colors' head)"

fun check_package_rows :: "heap \<Rightarrow> nat list \<Rightarrow> row list \<Rightarrow> tape_error + unit" where
  "check_package_rows h colors [] = Inr ()"
| "check_package_rows h colors (r # rs) =
     (case typed (r ! 0) v08 of
        Inl e \<Rightarrow> Inl e
      | Inr _ \<Rightarrow> (case proper h sym colors (r ! 1) of Inl e \<Rightarrow> Inl e | Inr colors' \<Rightarrow> check_package_rows h colors' rs))"

text \<open>The packages of the package list and their names, none twice.\<close>

function list_packages :: "heap \<Rightarrow> wword list \<Rightarrow> bytes list \<Rightarrow> wword \<Rightarrow> tape_error + wword list" where
  "list_packages h seen names cur =
     (if cur = nil then Inr seen
      else case heap_read duo cur h of
        Inl e \<Rightarrow> Inl (TapeHeap e)
      | Inr r \<Rightarrow>
          (case heap_get pkg F_nam (r ! 0) h of
             Inl e \<Rightarrow> Inl (TapeHeap e)
           | Inr n \<Rightarrow>
               (case v08slice n h of
                  Inl e \<Rightarrow> Inl (TapeHeap e)
                | Inr nm \<Rightarrow>
                    if r ! 0 \<notin> set seen \<and> nm \<notin> set names then list_packages h (seen @ [r ! 0]) (names @ [nm]) (r ! 1)
                    else Inl (TapeError ''duplicate package''))))"
  by pat_completeness auto
termination
proof (relation "measure (\<lambda>(h, seen, names, cur). card (UNIV - set seen))", goal_cases)
  case (2 h seen names cur r n nm)
  then have "UNIV - set (seen @ [r ! 0]) \<subset> UNIV - set seen" by auto
  then show ?case by (simp add: psubset_card_mono)
qed simp

declare list_packages.simps [simp del]

definition check_root :: "heap \<Rightarrow> machine \<Rightarrow> wword list \<Rightarrow> nat \<Rightarrow> tape_error + unit" where
  "check_root h m packages i =
     (let nm = ascii (root_names ! i); x = saved_get m i in
      if i < 3 then
        all_ok [demand (x \<in> set packages) ''canonical package missing'',
          then_check (heap_get pkg F_nam x h) (\<lambda>n. then_check (v08slice n h) (\<lambda>s. demand (s = nm) ''wrong canonical package''))]
      else if i = 5 \<or> i = 6 then
        all_ok [typed x v08,
          then_check (v08slice x h) (\<lambda>s. demand (s = ascii (if i = 5 then ''NIL'' else ''T'')) ''invalid immediate name'')]
      else if i \<ge> 7 then
        all_ok [typed x sym,
          then_check (heap_get sym F_pkg x h) (\<lambda>p. then_check (symbol_name h x) (\<lambda>s.
            demand (p = ev_base (vm_ev m) \<and> s = nm) ''invalid cached symbol''))]
      else Inr ())"

definition known :: "machine \<Rightarrow> string \<Rightarrow> wword" where
  "known m nm = ev_known (vm_ev m) (ascii nm)"

definition check_continuation :: "wword \<Rightarrow> tape_error + unit" where
  "check_continuation x = (if x \<noteq> w_top then typed x ktx else Inr ())"

definition boundary_kind :: "machine \<Rightarrow> wword \<Rightarrow> bool" where
  "boundary_kind m k \<longleftrightarrow> k = known m ''PROMPT'' \<or> k = known m ''BINDING'' \<or> k = known m ''RESUME''"

definition segment :: "heap \<Rightarrow> machine \<Rightarrow> wword \<Rightarrow> tape_error + unit" where
  "segment h m x =
     all_ok [check_continuation x,
       if x \<noteq> w_top
       then then_check (heap_get ktx F_fun x h) (\<lambda>k.
         demand (\<not> boundary_kind m k \<and> k \<noteq> known m ''CONTINUATION'') ''invalid continuation segment'')
       else Inr ()]"

definition meta :: "heap \<Rightarrow> machine \<Rightarrow> wword \<Rightarrow> tape_error + unit" where
  "meta h m x =
     all_ok [check_continuation x,
       if x \<noteq> w_top
       then then_check (heap_get ktx F_fun x h) (\<lambda>k. demand (boundary_kind m k) ''invalid continuation meta chain'')
       else Inr ()]"

text \<open>The control edges of one continuation row: columns hop, env, fun, acc, arg.\<close>

definition control_edges :: "heap \<Rightarrow> machine \<Rightarrow> nat \<Rightarrow> tape_error + wword list" where
  "control_edges h m i =
     then_check (heap_read ktx (pointer ktx (of_nat i) (hera h)) h) (\<lambda>r.
       let hop = r ! 0; k = r ! 2; acc = r ! 3; arg = r ! 4 in
       if k = known m ''CONTINUATION'' then
         map_sum id (\<lambda>_. [acc, arg])
           (all_ok [demand (hop = w_top) ''invalid continuation wrapper'', segment h m acc, meta h m arg])
       else if boundary_kind m k then
         (case all_ok [meta h m hop, typed arg v32] of
            Inl e \<Rightarrow> Inl e
          | Inr _ \<Rightarrow>
              then_check (v32slice arg h) (\<lambda>xs.
                if length xs = 2 then map_sum id (\<lambda>_. [hop, xs ! 1]) (segment h m (xs ! 1))
                else Inl (TapeError ''invalid continuation boundary'')))
       else map_sum id (\<lambda>_. [hop, w_top]) (segment h m hop))"

fun collect_edges :: "(tape_error + wword list) list \<Rightarrow> tape_error + wword list list" where
  "collect_edges [] = Inr []"
| "collect_edges (e # es) =
     (case e of Inl x \<Rightarrow> Inl x | Inr v \<Rightarrow> map_sum id (\<lambda>vs. v # vs) (collect_edges es))"

text \<open>The depth-first walk over the control edges, with an explicit stack.\<close>

function walk_control :: "wword list list \<Rightarrow> nat list \<Rightarrow> (wword \<times> bool) list \<Rightarrow> tape_error + nat list" where
  "walk_control edges colors [] = Inr colors"
| "walk_control edges colors ((cur, leaving) # pending) =
     (if cur = w_top then walk_control edges colors pending
      else
        let i = unat (index_of cur) in
        if i \<ge> length colors then Inl (TapeHeap Assertion)
        else if leaving then walk_control edges (colors[i := 2]) pending
        else if colors ! i = 1 then Inl (TapeError ''cyclic continuation'')
        else if colors ! i = 2 then walk_control edges colors pending
        else if colors ! i \<noteq> 0 then Inl (TapeHeap Assertion)
        else walk_control edges (colors[i := 1])
               (rev (map (\<lambda>e. (e, False)) (edges ! i)) @ (cur, True) # pending))"
  by pat_completeness auto
termination
proof (relation "(\<lambda>(edges, colors, pending). length (filter (\<lambda>c. c = 0) colors)) <*mlex*> measure (\<lambda>(edges, colors, pending). length pending)",
    goal_cases)
  case 1
  then show ?case by (simp add: wf_mlex)
next
  case (2 edges colors cur leaving pending)
  then show ?case by (simp add: mlex_iff)
next
  case (3 edges colors cur leaving pending x)
  have "length (filter (\<lambda>c. c = 0) (colors[x := 2])) \<le> length (filter (\<lambda>c. c = (0 :: nat)) colors)"
    by (induction colors arbitrary: x) (auto split: nat.split simp: le_SucI)
  then show ?case by (auto simp: mlex_iff)
next
  case (4 edges colors cur leaving pending x)
  then show ?case by (simp add: mlex_iff)
next
  case (5 edges colors cur leaving pending x)
  then show ?case by (simp add: mlex_iff colour_less)
qed

fun walk_all :: "wword list list \<Rightarrow> nat list \<Rightarrow> wword list \<Rightarrow> tape_error + unit" where
  "walk_all edges colors [] = Inr ()"
| "walk_all edges colors (x # xs) =
     (case walk_control edges colors [(x, False)] of Inl e \<Rightarrow> Inl e | Inr colors' \<Rightarrow> walk_all edges colors' xs)"

definition check_control :: "heap \<Rightarrow> machine \<Rightarrow> tape_error + unit" where
  "check_control h m =
     (let n = tab_size (hvat h ktx) in
      case collect_edges (map (control_edges h m) [0..<n]) of
        Inl e \<Rightarrow> Inl e
      | Inr edges \<Rightarrow> walk_all edges (replicate n 0) (map (\<lambda>i. pointer ktx (of_nat i) (hera h)) [0..<n]))"

definition check_links :: "heap \<Rightarrow> machine \<Rightarrow> tag \<Rightarrow> tape_error + unit" where
  "check_links h m T =
     (let t = hvat h T in
      if T = run then all_ok (map (segment h m) (tab_col 4 t) @ map (meta h m) (tab_col 5 t))
      else if T = fun \<or> T = mac then all_ok (map (\<lambda>s. if s \<noteq> nil then typed s sym else Inr ()) (tab_col 3 t))
      else Inr ())"

definition check_packages :: "heap \<Rightarrow> machine \<Rightarrow> tape_error + unit" where
  "check_packages h m =
     (let n = tab_size (hvat h duo) in
      case check_package_rows h (replicate n 0) (trows (hvat h pkg)) of
        Inl e \<Rightarrow> Inl e
      | Inr _ \<Rightarrow>
          (case proper h pkg (replicate n 0) (ev_packages (vm_ev m)) of
             Inl e \<Rightarrow> Inl e
           | Inr _ \<Rightarrow>
               (case list_packages h [] [] (ev_packages (vm_ev m)) of
                  Inl e \<Rightarrow> Inl e
                | Inr packages \<Rightarrow>
                    all_ok (demand (ev_current (vm_ev m) \<in> set packages) ''current package missing''
                            # map (check_root h m packages) [0..<length root_names]))))"

definition check_storage :: "heap \<Rightarrow> machine \<Rightarrow> wword \<Rightarrow> tape_error + unit" where
  "check_storage h m entry =
     all_ok
       ([demand (tab_size (hvat h ext) = 0) ''external resources are not portable'',
         demand (next_pin h \<ge> 1 \<and> next_pin h \<le> max_immediate + 1) ''invalid next pin ID'',
         demand (vm_next_key m < push_bit 48 1) ''invalid fresh key sequence'',
         check_value h entry]
        @ map (\<lambda>i. check_value h (saved_get m i)) [0..<length root_names]
        @ concat (map (\<lambda>(k, x). [demand (k > 0 \<and> k < next_pin h) ''invalid pin ID'', check_value h x]) (hpins h))
        @ map (check_value h) (hwords h)
        @ map (check_table h) vat_order
        @ map check_symbol (trows (hvat h sym))
        @ map (check_code h) [0..<tab_size (hvat h rec)])"

definition validate :: "heap \<Rightarrow> machine \<Rightarrow> wword \<Rightarrow> tape_error + unit" where
  "validate h m entry =
     all_ok ([check_storage h m entry, check_packages h m, check_control h m] @ map (check_links h m) vat_order)"

section \<open>Model: writing\<close>

definition put_table :: "heap \<Rightarrow> tag \<Rightarrow> tape_error + bytes" where
  "put_table h T =
     (let t = hvat h T in
      parts
        ([Inr (put_u32 (tag_code T)), put_count (tab_size t), put_count (width T)]
         @ concat (map (\<lambda>(F, k). [put_text (field_name F), put_text (ascii (kind_name k))]) (schema T))
         @ map (\<lambda>c. Inr (concat (map put_u32 (tab_col c t)))) [0..<width T]))"

definition put_operation :: "code_operation \<Rightarrow> tape_error + bytes" where
  "put_operation oper =
     (case oper of (op, nm, operands) \<Rightarrow>
        parts ([put_text (ascii nm), Inr (put_u32 (code_opcode op)), put_count (length operands)]
               @ map (\<lambda>k. put_text (ascii (operand_name k))) operands))"

definition put_body :: "heap \<Rightarrow> machine \<Rightarrow> wword \<Rightarrow> tape_error + bytes" where
  "put_body h m entry =
     parts
       ([Inr magic, Inr (put_u32 tape_version), Inr (put_u32 (of_bool (hera h))), Inr (put_u32 (next_pin h)),
         Inr (put_u32 (ucast (vm_next_key m))), Inr (put_u32 (ucast (drop_bit 32 (vm_next_key m)))),
         Inr (put_u32 (of_bool (vm_collect m))), Inr (put_u32 entry), put_count (length root_names)]
        @ concat (map (\<lambda>i. [put_text (ascii (root_names ! i)), Inr (put_u32 (saved_get m i))]) [0..<length root_names])
        @ [put_count (length jet_manifest)]
        @ concat (map (\<lambda>(nm, control). [put_text (ascii nm), Inr (put_u32 (of_bool control))]) jet_manifest)
        @ [Inr (put_u32 (of_nat code_version)), put_count (length code_operations)]
        @ map put_operation code_operations
        @ [put_count (length (hbytes h)), Inr (hbytes h), put_count (length (hwords h)), Inr (concat (map put_u32 (hwords h))),
           put_count (length vat_order)]
        @ map (put_table h) vat_order
        @ [put_count (length (hpins h)), Inr (concat (map (\<lambda>(k, x). put_u32 k @ put_u32 x) (hpins h)))])"

definition encode :: "heap \<Rightarrow> machine \<Rightarrow> wword \<Rightarrow> tape_error + bytes" where
  "encode h m entry =
     (case validate h m entry of
        Inl e \<Rightarrow> Inl e
      | Inr _ \<Rightarrow> map_sum id (\<lambda>body. body @ sha256 body) (put_body h m entry))"

section \<open>Model: reading\<close>

record image =
  im_storage :: heap
  im_machine :: machine
  im_entry :: wword

definition rd_root :: "nat \<Rightarrow> nat list \<times> machine \<Rightarrow> (nat list \<times> machine) tape_reader" where
  "rd_root i s =
     rd_bind rd_text (\<lambda>nm.
       let index = length (takeWhile (\<lambda>r. ascii r \<noteq> nm) root_names) in
       rd_bind (rd_demand (index < length root_names) ''unknown root'') (\<lambda>_.
       rd_bind (rd_demand (index \<notin> set (fst s)) ''duplicate root'') (\<lambda>_.
       rd_bind rd_u32 (\<lambda>x. rd_return (index # fst s, saved_set (snd s) index x)))))"

definition rd_jet :: "nat \<Rightarrow> nat list \<Rightarrow> nat list tape_reader" where
  "rd_jet i jet_map =
     rd_bind rd_text (\<lambda>nm.
       rd_bind rd_flag (\<lambda>control.
         let index = length (takeWhile (\<lambda>j. ascii (fst j) \<noteq> nm) jet_manifest) in
         rd_bind (rd_demand (index < length jet_manifest \<and> snd (jet_manifest ! index) = control) ''unsupported builtin'') (\<lambda>_.
         rd_bind (rd_demand (index \<notin> set jet_map) ''duplicate builtin'') (\<lambda>_. rd_return (jet_map @ [index])))))"

definition rd_operation :: "code_operation \<Rightarrow> unit \<Rightarrow> unit tape_reader" where
  "rd_operation oper u =
     (case oper of (op, nm, operands) \<Rightarrow>
        rd_bind rd_text (\<lambda>t. rd_bind (rd_demand (t = ascii nm) ''unsupported code operation'') (\<lambda>_.
        rd_bind rd_u32 (\<lambda>x. rd_bind (rd_demand (x = code_opcode op) ''unsupported code opcode'') (\<lambda>_.
        rd_bind rd_u32 (\<lambda>x. rd_bind (rd_demand (unat x = length operands) ''unsupported code layout'') (\<lambda>_.
        rd_for operands (\<lambda>k _. rd_bind rd_text (\<lambda>t. rd_demand (t = ascii (operand_name k)) ''unsupported code operand'')) ())))))))"

definition rd_words :: "nat \<Rightarrow> wword list tape_reader" where
  "rd_words n = rd_for [0..<n] (\<lambda>i ws. rd_bind rd_u32 (\<lambda>x. rd_return (ws @ [x]))) []"

definition rd_column :: "tag \<Rightarrow> nat \<Rightarrow> nat list \<Rightarrow> nat list tape_reader" where
  "rd_column T i columns =
     rd_bind rd_text (\<lambda>nm. rd_bind rd_text (\<lambda>k.
       let c = length (takeWhile (\<lambda>col. field_name (fst col) \<noteq> nm) (schema T)) in
       rd_bind (rd_demand (c < width T \<and> ascii (kind_name (snd (schema T ! c))) = k) ''unsupported column schema'') (\<lambda>_.
       rd_bind (rd_demand (c \<notin> set columns) ''duplicate column'') (\<lambda>_. rd_return (columns @ [c])))))"

fun push_rows :: "nat \<Rightarrow> row \<Rightarrow> tab \<Rightarrow> heap_error + tab" where
  "push_rows 0 r t = Inr t"
| "push_rows (Suc n) r t = (case tab_push r t of Inl e \<Rightarrow> Inl e | Inr (_, t') \<Rightarrow> push_rows n r t')"

text \<open>\<^verbatim>\<open>reserve\<close> and \<^verbatim>\<open>push({})\<close> on the empty table: rows of zeros.\<close>

definition blank_table :: "tag \<Rightarrow> nat \<Rightarrow> heap_error + tab" where
  "blank_table T rows =
     (case tab_reserve rows empty_tab of Inl e \<Rightarrow> Inl e | Inr t \<Rightarrow> push_rows rows (replicate (width T) 0) t)"

definition rd_cells :: "nat \<Rightarrow> nat \<Rightarrow> tab \<Rightarrow> tab tape_reader" where
  "rd_cells rows c t = rd_for [0..<rows] (\<lambda>i t. rd_bind rd_u32 (\<lambda>x. rd_return (tab_set i c x t))) t"

definition rd_rows :: "tag \<Rightarrow> nat \<Rightarrow> nat list \<Rightarrow> tab tape_reader" where
  "rd_rows T rows columns =
     rd_bind rd_left (\<lambda>left.
       rd_bind (rd_demand (rows \<le> left div (4 * width T)) ''truncated table'') (\<lambda>_.
         case blank_table T rows of
           Inl e \<Rightarrow> (\<lambda>_. Inl (TapeHeap e))
         | Inr t \<Rightarrow> rd_for columns (rd_cells rows) t))"

definition rd_table :: "nat \<Rightarrow> u32 list \<times> vat \<Rightarrow> (u32 list \<times> vat) tape_reader" where
  "rd_table n s =
     rd_bind rd_u32 (\<lambda>type.
       rd_bind (rd_demand (type \<notin> set (fst s)) ''duplicate table'') (\<lambda>_.
         case find (\<lambda>T. tag_code T = type) vat_order of
           None \<Rightarrow> (\<lambda>_. Inl (TapeError ''unknown table tag''))
         | Some T \<Rightarrow>
             rd_bind rd_u32 (\<lambda>rows.
             rd_bind (rd_demand (rows \<le> max_index + 1) ''table count overflow'') (\<lambda>_.
             rd_bind (rd_demand (T = ext \<longrightarrow> rows = 0) ''external resources are not portable'') (\<lambda>_.
             rd_bind rd_u32 (\<lambda>w.
             rd_bind (rd_demand (unat w = width T) ''wrong column count'') (\<lambda>_.
             rd_bind (rd_for [0..<width T] (rd_column T) []) (\<lambda>columns.
             rd_bind (rd_rows T (unat rows) columns) (\<lambda>t. rd_return (type # fst s, (snd s)(T := t)))))))))))"

definition rd_pin :: "nat \<Rightarrow> (u32 \<times> wword) list \<Rightarrow> (u32 \<times> wword) list tape_reader" where
  "rd_pin i pins =
     rd_bind rd_u32 (\<lambda>k. rd_bind rd_u32 (\<lambda>x.
       rd_bind (rd_demand (map_of pins k = None) ''duplicate pin ID'') (\<lambda>_. rd_return (insort_key fst (k, x) pins))))"

text \<open>What the body of a tape holds: era, pin counter, machine, entry, relocation of the builtins, pools,
  tables and pins.\<close>

record tape_body =
  tb_era :: bool
  tb_next_pin :: u32
  tb_machine :: machine
  tb_entry :: wword
  tb_jets :: "nat list"
  tb_bytes :: bytes
  tb_words :: "wword list"
  tb_vat :: vat
  tb_pins :: "(u32 \<times> wword) list"

definition rd_state :: "(bool \<times> u32 \<times> u64 \<times> bool \<times> wword) tape_reader" where
  "rd_state =
     rd_bind (rd_take (length magic)) (\<lambda>mg. rd_bind (rd_demand (mg = magic) ''unknown tape magic'') (\<lambda>_.
     rd_bind rd_u32 (\<lambda>v. rd_bind (rd_demand (v = tape_version) ''unsupported tape version'') (\<lambda>_.
     rd_bind rd_flag (\<lambda>era. rd_bind rd_u32 (\<lambda>next.
     rd_bind rd_u32 (\<lambda>low. rd_bind rd_u32 (\<lambda>high.
     rd_bind rd_flag (\<lambda>collect. rd_bind rd_u32 (\<lambda>entry.
       rd_return (era, next, ucast low OR push_bit 32 (ucast high), collect, entry)))))))))))"

definition rd_roots :: "machine tape_reader" where
  "rd_roots =
     rd_bind rd_u32 (\<lambda>n. rd_bind (rd_demand (unat n = length root_names) ''wrong root directory'') (\<lambda>_.
     rd_bind (rd_for [0..<length root_names] rd_root ([], empty_machine)) (\<lambda>s. rd_return (snd s))))"

definition rd_jets :: "nat list tape_reader" where
  "rd_jets =
     rd_bind rd_u32 (\<lambda>n. rd_bind (rd_demand (unat n \<le> length jet_manifest) ''unsupported builtin manifest'') (\<lambda>_.
     rd_for [0..<unat n] rd_jet []))"

definition rd_code :: "unit tape_reader" where
  "rd_code =
     rd_bind rd_u32 (\<lambda>v. rd_bind (rd_demand (unat v = code_version) ''unsupported code version'') (\<lambda>_.
     rd_bind rd_u32 (\<lambda>n. rd_bind (rd_demand (unat n = length code_operations) ''unsupported code manifest'') (\<lambda>_.
     rd_for code_operations rd_operation ()))))"

definition rd_pools :: "(bytes \<times> wword list) tape_reader" where
  "rd_pools =
     rd_bind rd_u32 (\<lambda>n. rd_bind (rd_take (unat n)) (\<lambda>bytes.
     rd_bind rd_u32 (\<lambda>words. rd_bind rd_left (\<lambda>left.
     rd_bind (rd_demand (unat words \<le> left div 4) ''truncated word pool'') (\<lambda>_.
     rd_bind (rd_words (unat words)) (\<lambda>ws. rd_return (bytes, ws)))))))"

definition rd_vat :: "vat tape_reader" where
  "rd_vat =
     rd_bind rd_u32 (\<lambda>n. rd_bind (rd_demand (unat n = length vat_order) ''wrong table directory'') (\<lambda>_.
     rd_bind (rd_for [0..<length vat_order] rd_table ([], \<lambda>_. empty_tab)) (\<lambda>s. rd_return (snd s))))"

definition rd_pins :: "(u32 \<times> wword) list tape_reader" where
  "rd_pins =
     rd_bind rd_u32 (\<lambda>n. rd_bind rd_left (\<lambda>left. rd_bind (rd_demand (unat n \<le> left div 8) ''truncated pin map'') (\<lambda>_.
     rd_for [0..<unat n] rd_pin [])))"

definition rd_body :: "tape_body tape_reader" where
  "rd_body =
     rd_bind rd_state (\<lambda>(era, next, key, collect, entry).
     rd_bind rd_roots (\<lambda>m.
     rd_bind rd_jets (\<lambda>jets.
     rd_bind rd_code (\<lambda>_.
     rd_bind rd_pools (\<lambda>(bytes, ws).
     rd_bind rd_vat (\<lambda>v.
     rd_bind rd_pins (\<lambda>pins.
     rd_bind rd_left (\<lambda>left.
     rd_bind (rd_demand (left = 0) ''trailing tape bytes'') (\<lambda>_.
       rd_return \<lparr>tb_era = era, tb_next_pin = next, tb_machine = m\<lparr>vm_next_key := key, vm_collect := collect\<rparr>,
         tb_entry = entry, tb_jets = jets, tb_bytes = bytes, tb_words = ws, tb_vat = v, tb_pins = pins\<rparr>)))))))))"

definition remap :: "nat list \<Rightarrow> wword \<Rightarrow> tape_error + wword" where
  "remap jet_map x =
     (if tag_of x \<noteq> jet then Inr x
      else let i = unat (payload_of x) in
        if i < length jet_map then Inr (immediate jet (of_nat (jet_map ! i)))
        else Inl (TapeError ''invalid saved builtin ID''))"

fun remap_all :: "nat list \<Rightarrow> wword list \<Rightarrow> tape_error + wword list" where
  "remap_all jm [] = Inr []"
| "remap_all jm (x # xs) =
     (case remap jm x of Inl e \<Rightarrow> Inl e | Inr y \<Rightarrow> map_sum id (\<lambda>ys. y # ys) (remap_all jm xs))"

fun remap_roots :: "nat list \<Rightarrow> nat list \<Rightarrow> machine \<Rightarrow> tape_error + machine" where
  "remap_roots jm [] m = Inr m"
| "remap_roots jm (i # is) m =
     (case remap jm (saved_get m i) of Inl e \<Rightarrow> Inl e | Inr y \<Rightarrow> remap_roots jm is (saved_set m i y))"

text \<open>The value columns of a row.  The source goes column by column; the one error there is, and the
  words written, do not depend on the order.\<close>

fun remap_row :: "nat list \<Rightarrow> column list \<Rightarrow> row \<Rightarrow> tape_error + row" where
  "remap_row jm (col # cols) (x # xs) =
     (case (if snd col = Value then remap jm x else Inr x) of
        Inl e \<Rightarrow> Inl e
      | Inr y \<Rightarrow> map_sum id (\<lambda>ys. y # ys) (remap_row jm cols xs))"
| "remap_row jm _ xs = Inr xs"

fun remap_rows :: "nat list \<Rightarrow> tag \<Rightarrow> row list \<Rightarrow> tape_error + row list" where
  "remap_rows jm T [] = Inr []"
| "remap_rows jm T (r # rs) =
     (case remap_row jm (schema T) r of Inl e \<Rightarrow> Inl e | Inr y \<Rightarrow> map_sum id (\<lambda>ys. y # ys) (remap_rows jm T rs))"

fun remap_vat :: "nat list \<Rightarrow> tag list \<Rightarrow> vat \<Rightarrow> tape_error + vat" where
  "remap_vat jm [] v = Inr v"
| "remap_vat jm (T # Ts) v =
     (case remap_rows jm T (trows (v T)) of
        Inl e \<Rightarrow> Inl e
      | Inr rs \<Rightarrow> remap_vat jm Ts (v(T := (v T)\<lparr>trows := rs\<rparr>)))"

definition remap_body :: "tape_body \<Rightarrow> tape_error + tape_body" where
  "remap_body b =
     (let jm = tb_jets b in
      case remap jm (tb_entry b) of
        Inl e \<Rightarrow> Inl e
      | Inr entry \<Rightarrow>
          (case remap_roots jm [0..<length root_names] (tb_machine b) of
             Inl e \<Rightarrow> Inl e
           | Inr m \<Rightarrow>
               (case remap_all jm (map snd (tb_pins b)) of
                  Inl e \<Rightarrow> Inl e
                | Inr pins \<Rightarrow>
                    (case remap_all jm (tb_words b) of
                       Inl e \<Rightarrow> Inl e
                     | Inr ws \<Rightarrow>
                         (case remap_vat jm vat_order (tb_vat b) of
                            Inl e \<Rightarrow> Inl e
                          | Inr v \<Rightarrow>
                              Inr (b\<lparr>tb_entry := entry, tb_machine := m, tb_pins := zip (map fst (tb_pins b)) pins,
                                     tb_words := ws, tb_vat := v\<rparr>))))))"

text \<open>The storage of the fresh heap that the body fills.\<close>

definition body_storage :: "tape_body \<Rightarrow> heap" where
  "body_storage b = (new_heap False)\<lparr>hvat := tb_vat b, hbytes := tb_bytes b, hwords := tb_words b, hpins := tb_pins b,
     next_pin := tb_next_pin b, hera := tb_era b\<rparr>"

text \<open>The root objects of an image, in the order in which they are linked into its heap.\<close>

definition image_roots :: "machine \<Rightarrow> wword \<Rightarrow> (nat \<times> wword) list" where
  "image_roots m entry =
     rev (zip [0..<length known_names + 8]
       ([ev_base (vm_ev m), ev_keywords (vm_ev m), vm_keys m, ev_packages (vm_ev m), ev_current (vm_ev m),
         vm_nil_name m, vm_true_name m] @ map (known m) known_names @ [entry]))"

definition restore :: "tape_body \<Rightarrow> (tape_error + image) option" where
  "restore b =
     (case remap_body b of
        Inl e \<Rightarrow> Some (Inl e)
      | Inr b \<Rightarrow>
          (case validate (body_storage b) (tb_machine b) (tb_entry b) of
             Inl e \<Rightarrow> Some (Inl e)
           | Inr _ \<Rightarrow>
               (case install_known (vm_ev (tb_machine b)) (body_storage b) of
                  None \<Rightarrow> None
                | Some (Inl e) \<Rightarrow> Some (Inl (TapeEval e))
                | Some (Inr (ev, h)) \<Rightarrow>
                    let m = (tb_machine b)\<lparr>vm_ev := ev\<rparr> in
                    Some (Inr \<lparr>im_storage = (freeze_continuations h)\<lparr>hroots := image_roots m (tb_entry b)\<rparr>,
                               im_machine = m, im_entry = tb_entry b\<rparr>))))"

definition decode_raw :: "nat \<Rightarrow> bytes \<Rightarrow> (tape_error + image) option" where
  "decode_raw limit data =
     (if length data > limit then Some (Inl (TapeError ''tape exceeds input limit''))
      else if length data < length magic + 4 + 32 then Some (Inl (TapeError ''truncated tape''))
      else
        let body = take (length data - 32) data in
        if sha256 body \<noteq> drop (length data - 32) data then Some (Inl (TapeError ''tape checksum mismatch''))
        else case rd_body body of Inl e \<Rightarrow> Some (Inl e) | Inr (b, _) \<Rightarrow> restore b)"

section \<open>Model: compression\<close>

text \<open>zlib is a parameter: \<open>deflate\<close> returns the compressed bytes, or nothing on failure; \<open>inflate\<close> is given
  the expected size and returns the bytes and how many source bytes it used.\<close>

definition tape_encode :: "(bytes \<Rightarrow> bytes option) \<Rightarrow> bool \<Rightarrow> heap \<Rightarrow> machine \<Rightarrow> wword \<Rightarrow> tape_error + bytes" where
  "tape_encode deflate compressed h m entry =
     (case encode h m entry of
        Inl e \<Rightarrow> Inl e
      | Inr data \<Rightarrow>
          if \<not> compressed then Inr data
          else case put_count (length data) of
            Inl e \<Rightarrow> Inl e
          | Inr n \<Rightarrow>
              (case deflate data of
                 None \<Rightarrow> Inl (TapeError ''tape compression failed'')
               | Some z \<Rightarrow> Inr (compressed_magic @ n @ z)))"

definition tape_decode :: "(nat \<Rightarrow> bytes \<Rightarrow> (bytes \<times> nat) option) \<Rightarrow> nat \<Rightarrow> bytes \<Rightarrow> (tape_error + image) option" where
  "tape_decode inflate limit data =
     (if length data \<ge> length compressed_magic \<and> take (length compressed_magic) data = compressed_magic then
        if length data > limit then Some (Inl (TapeError ''tape exceeds input limit''))
        else case rd_u32 (drop (length compressed_magic) data) of
          Inl e \<Rightarrow> Some (Inl e)
        | Inr (n, source) \<Rightarrow>
            if unat n > limit then Some (Inl (TapeError ''tape exceeds decoded limit''))
            else (case inflate (unat n) source of
                    None \<Rightarrow> Some (Inl (TapeError ''invalid compressed tape''))
                  | Some (decoded, used) \<Rightarrow>
                      if length decoded \<noteq> unat n then Some (Inl (TapeError ''wrong decoded tape size''))
                      else if used \<noteq> length source then Some (Inl (TapeError ''trailing compressed tape data''))
                      else decode_raw limit decoded)
      else decode_raw limit data)"

end
