(* ===== verification/Wisp_Restore.thy ===== *)
theory Wisp_Restore
  imports Wisp_Tape Wisp_Sample
begin

text \<open>
  A tape restores the machine it was made of: decoding what \<^verbatim>\<open>tape::encode\<close> wrote gives an image with
  the same tables, pools, pins, roots and counters.  The proof follows the layout of the tape: for
  every piece the writer emits, the reader that comes next takes exactly that piece.
\<close>

section \<open>Readers and the pieces they take\<close>

definition reads :: "'a tape_reader \<Rightarrow> bytes \<Rightarrow> 'a \<Rightarrow> bool" where
  "reads p bs x \<longleftrightarrow> (\<forall>rest. p (bs @ rest) = Inr (x, rest))"

named_theorems reads_intros \<open>readers that take a piece of the tape\<close>

lemma reads_return [reads_intros]: "reads (rd_return x) [] x"
  by (simp add: reads_def rd_return_def)

lemma reads_bind: "reads p a x \<Longrightarrow> reads (q x) b y \<Longrightarrow> reads (rd_bind p q) (a @ b) y"
  by (simp add: reads_def rd_bind_def)

lemma reads_demand_bind: "good \<Longrightarrow> reads (q ()) b y \<Longrightarrow> reads (rd_bind (rd_demand good msg) q) b y"
  by (simp add: reads_def rd_bind_def rd_demand_def demand_def)

lemma reads_return_bind: "reads p b x \<Longrightarrow> reads (rd_bind p (\<lambda>x. rd_return (f x))) b (f x)"
  by (simp add: reads_def rd_bind_def rd_return_def)

lemma reads_demand [reads_intros]: "good \<Longrightarrow> reads (rd_demand good msg) [] ()"
  by (simp add: reads_def rd_demand_def demand_def)

lemma reads_left_bind: "(\<And>n. length b \<le> n \<Longrightarrow> reads (q n) b y) \<Longrightarrow> reads (rd_bind rd_left q) b y"
  by (simp add: reads_def rd_bind_def rd_left_def)

lemma reads_take [reads_intros]: "reads (rd_take (length bs)) bs bs"
  by (simp add: reads_def rd_take_def)

lemma reads_for_step:
  "reads (body i s) b s' \<Longrightarrow> reads (rd_for is body s') bs s'' \<Longrightarrow> reads (rd_for (i # is) body s) (b @ bs) s''"
  using reads_bind [of "body i s" b s' "rd_for is body"] by simp

lemma reads_for:
  assumes "\<And>k. k < length is \<Longrightarrow> reads (body (is ! k) (st k)) (b k) (st (Suc k))"
  shows "reads (rd_for is body (st 0)) (concat (map b [0..<length is])) (st (length is))"
  using assms
proof (induction "is" arbitrary: st b)
  case Nil
  then show ?case by (simp add: reads_return)
next
  case (Cons i "is")
  have "reads (rd_for is body (st (Suc 0))) (concat (map (\<lambda>k. b (Suc k)) [0..<length is])) (st (Suc (length is)))"
    by (rule Cons.IH [of "\<lambda>k. st (Suc k)"]) (use Cons.prems in force)
  moreover have "reads (body i (st 0)) (b 0) (st (Suc 0))" using Cons.prems [of 0] by simp
  moreover have "map b [0..<length (i # is)] = b 0 # map (\<lambda>k. b (Suc k)) [0..<length is]"
    by (simp add: upt_conv_Cons map_Suc_upt [symmetric] o_def del: upt_Suc)
  ultimately show ?case using reads_for_step [of body i "st 0" "b 0"] by simp
qed

lemma length_put_u32 [simp]: "length (put_u32 x) = 4"
  by (simp add: put_u32_def)

lemma bit_u32_piece:
  "bit (push_bit s (ucast (ucast (drop_bit s x AND 255 :: u32) :: byte) :: u32)) n \<longleftrightarrow> s \<le> n \<and> n < s + 8 \<and> n < 32 \<and> bit x n"
proof -
  have m: "(255 :: u32) = mask 8" by (simp add: mask_eq_exp_minus_1)
  show ?thesis unfolding m by (auto simp: bit_push_bit_iff bit_ucast_iff bit_and_iff bit_mask_iff bit_drop_bit_eq)
qed

lemma put_u32_value:
  "fold (\<lambda>i result. result OR push_bit (8 * i) (ucast (put_u32 x ! i))) [0..<4] (0 :: u32) = x"
proof -
  have u: "[0..<4] = [0, 1, 2, 3 :: nat]" by (simp add: upt_rec)
  have "fold (\<lambda>i result. result OR push_bit (8 * i) (ucast (put_u32 x ! i))) [0..<4] (0 :: u32)
    = push_bit 0 (ucast (ucast (drop_bit 0 x AND 255) :: byte)) OR push_bit 8 (ucast (ucast (drop_bit 8 x AND 255) :: byte))
      OR push_bit 16 (ucast (ucast (drop_bit 16 x AND 255) :: byte)) OR push_bit 24 (ucast (ucast (drop_bit 24 x AND 255) :: byte))"
    unfolding u put_u32_def by (simp add: ac_simps)
  also have "\<dots> = x"
  proof (rule bit_word_eqI)
    fix n assume "n < LENGTH(32)"
    then show "bit (push_bit 0 (ucast (ucast (drop_bit 0 x AND 255) :: byte) :: u32) OR push_bit 8 (ucast (ucast (drop_bit 8 x AND 255) :: byte))
      OR push_bit 16 (ucast (ucast (drop_bit 16 x AND 255) :: byte)) OR push_bit 24 (ucast (ucast (drop_bit 24 x AND 255) :: byte))) n = bit x n"
      unfolding bit_or_iff bit_u32_piece by auto
  qed
  finally show ?thesis .
qed

lemma reads_u32 [reads_intros]: "reads rd_u32 (put_u32 x) x"
proof -
  have "reads (rd_take 4) (put_u32 x) (put_u32 x)" using reads_take [of "put_u32 x"] by simp
  from reads_return_bind [OF this, of "\<lambda>data. fold (\<lambda>i result. result OR push_bit (8 * i) (ucast (data ! i))) [0..<4] (0 :: u32)"]
  show ?thesis unfolding rd_u32_def by (simp only: put_u32_value)
qed

lemma put_count_Inr: "put_count n = Inr b \<Longrightarrow> n < 2 ^ 32 \<and> b = put_u32 (of_nat n)"
  by (auto simp: put_count_def split: if_splits)

lemma unat_count: "n < 2 ^ 32 \<Longrightarrow> unat (of_nat n :: u32) = n"
  by (simp add: unat_of_nat)

lemma reads_count:
  assumes "put_count n = Inr b"
  shows "reads rd_u32 b (of_nat n)" "unat (of_nat n :: u32) = n"
  using put_count_Inr [OF assms] reads_u32 unat_count by auto

text \<open>A piece of several parts is their concatenation.\<close>

lemma parts_Cons:
  assumes "parts (p # ps) = Inr b"
  obtains b1 b2 where "p = Inr b1" "parts ps = Inr b2" "b = b1 @ b2"
  using assms by (auto split: sum.splits simp: map_sum_def)

lemma parts_append:
  "parts (ps @ qs) = (case parts ps of Inl e \<Rightarrow> Inl e | Inr a \<Rightarrow> map_sum id (\<lambda>b. a @ b) (parts qs))"
  by (induction ps) (auto split: sum.splits simp: map_sum_def)

lemma parts_appendE:
  assumes "parts (ps @ qs) = Inr b"
  obtains b1 b2 where "parts ps = Inr b1" "parts qs = Inr b2" "b = b1 @ b2"
  using assms by (auto simp: parts_append map_sum_def split: sum.splits)

lemma parts_concat: "parts (concat pss) = parts (map parts pss)"
  by (induction pss) (simp_all add: parts_append split: sum.split)

lemma parts_map:
  assumes "parts (map f xs) = Inr b"
  shows "b = concat (map (\<lambda>x. projr (f x)) xs)" "\<forall>x \<in> set xs. f x = Inr (projr (f x))"
  using assms by (induction xs arbitrary: b) (auto simp: map_sum_def split: sum.splits)

lemma reads_text:
  assumes "put_text v = Inr b"
  shows "reads rd_text b v"
proof -
  obtain n where n: "put_count (length v) = Inr n" "b = n @ v"
    using assms by (auto simp: put_text_def split: sum.splits)
  show ?thesis unfolding rd_text_def n(2)
    by (rule reads_bind [OF reads_count(1) [OF n(1)]]) (simp only: reads_count(2) [OF n(1)] reads_take)
qed

lemma reads_flag: "reads rd_flag (put_u32 (of_bool f)) f"
proof -
  have "reads rd_flag (put_u32 (of_bool f) @ []) f" unfolding rd_flag_def
    by (rule reads_bind [OF reads_u32], rule reads_demand_bind) (cases f, auto intro: reads_return simp: reads_def rd_return_def)
  then show ?thesis by simp
qed

text \<open>Finding a name in a list without duplicates.\<close>

lemma find_index:
  assumes "distinct (map f xs)" "k < length xs"
  shows "length (takeWhile (\<lambda>x. f x \<noteq> f (xs ! k)) xs) = k"
  using assms
proof (induction xs arbitrary: k)
  case (Cons x xs)
  show ?case
  proof (cases k)
    case (Suc j)
    then have "f x \<noteq> f (xs ! j)" using Cons.prems by (metis distinct.simps(2) length_Cons length_map list.simps(9) not_less_eq nth_map nth_mem)
    then show ?thesis using Suc Cons by simp
  qed simp
qed simp

lemma distinct_ascii: "distinct (map (\<lambda>x. ascii (f x)) xs) \<longleftrightarrow> distinct (map f xs)"
  by (induction xs) (auto simp: ascii_inj)

section \<open>The counters, the roots and the manifests\<close>

lemma key_halves: "ucast (ucast key :: u32) OR push_bit 32 (ucast (ucast (drop_bit 32 key) :: u32)) = (key :: u64)"
  by (rule bit_word_eqI) (auto simp: bit_or_iff bit_push_bit_iff bit_ucast_iff bit_drop_bit_eq)

lemma reads_state:
  "reads rd_state
     (magic @ put_u32 tape_version @ put_u32 (of_bool era) @ put_u32 np @ put_u32 (ucast key) @ put_u32 (ucast (drop_bit 32 key))
      @ put_u32 (of_bool col) @ put_u32 entry)
     (era, np, key, col, entry)"
proof -
  have "reads (rd_bind rd_u32 (\<lambda>entry. rd_return (era, np, ucast (ucast key :: u32) OR push_bit 32 (ucast (ucast (drop_bit 32 key) :: u32)), col, entry)))
      (put_u32 entry) (era, np, key, col, entry)"
    using reads_return_bind [OF reads_u32, of "\<lambda>e. (era, np, key, col, e)" entry] by (simp only: key_halves)
  then show ?thesis unfolding rd_state_def
    by (intro reads_bind [OF reads_take] reads_bind [OF reads_u32] reads_bind [OF reads_flag] reads_demand_bind refl)
qed

lemma distinct_root_names: "distinct root_names"
  by (simp add: root_names_def)

lemma saved_get_set:
  assumes "i < length root_names" "j < length root_names"
  shows "saved_get (saved_set m i v) j = (if i = j then v else saved_get m j)"
proof -
  have "ascii (root_names ! i) = ascii (root_names ! j) \<longleftrightarrow> i = j"
    using assms distinct_root_names by (simp add: ascii_inj nth_eq_iff_index_eq)
  then show ?thesis by (auto simp: saved_get_def saved_set_def Let_def)
qed

definition roots_from :: "machine \<Rightarrow> nat \<Rightarrow> machine" where
  "roots_from m k = fold (\<lambda>i r. saved_set r i (saved_get m i)) [0..<k] empty_machine"

lemma roots_from_Suc: "roots_from m (Suc k) = saved_set (roots_from m k) k (saved_get m k)"
  by (simp add: roots_from_def)

lemma roots_from_get:
  "k \<le> length root_names \<Longrightarrow> j < k \<Longrightarrow> saved_get (roots_from m k) j = saved_get m j"
  by (induction k) (auto simp: roots_from_Suc saved_get_set)

lemma reads_root:
  assumes "k < length root_names" "parts [put_text (ascii (root_names ! k)), Inr (put_u32 (saved_get m k))] = Inr b"
  shows "reads (rd_root k (rev [0..<k], roots_from m k)) b (rev [0..<Suc k], roots_from m (Suc k))"
proof -
  obtain t where t: "put_text (ascii (root_names ! k)) = Inr t" "b = t @ put_u32 (saved_get m k)"
    using assms(2) by (auto split: sum.splits)
  have i: "length (takeWhile (\<lambda>r. ascii r \<noteq> ascii (root_names ! k)) root_names) = k"
    using find_index [of ascii root_names k] assms(1) distinct_root_names distinct_ascii [of "\<lambda>x. x" root_names] by simp
  have "reads (rd_bind rd_u32 (\<lambda>x. rd_return (k # rev [0..<k], saved_set (roots_from m k) k x))) (put_u32 (saved_get m k))
      (k # rev [0..<k], saved_set (roots_from m k) k (saved_get m k))"
    by (rule reads_return_bind [OF reads_u32])
  then show ?thesis unfolding rd_root_def t(2)
    by (intro reads_bind [OF reads_text [OF t(1)]]) (simp add: i assms(1) roots_from_Suc reads_demand_bind)
qed

lemma reads_roots:
  assumes "parts (put_count (length root_names) # concat (map (\<lambda>i. [put_text (ascii (root_names ! i)), Inr (put_u32 (saved_get m i))]) [0..<length root_names])) = Inr b"
  shows "reads rd_roots b (roots_from m (length root_names))"
proof -
  let ?n = "length root_names"
  obtain n b' where n: "put_count ?n = Inr n" "b = n @ b'"
    and b': "parts (map (\<lambda>i. parts [put_text (ascii (root_names ! i)), Inr (put_u32 (saved_get m i))]) [0..<?n]) = Inr b'"
    using assms by (elim parts_Cons) (simp add: parts_concat comp_def)
  have "reads (rd_for [0..<?n] rd_root (rev [0..<0], roots_from m 0))
     (concat (map (\<lambda>i. projr (parts [put_text (ascii (root_names ! i)), Inr (put_u32 (saved_get m i))])) [0..<length [0..<?n]]))
     (rev [0..<length [0..<?n]], roots_from m (length [0..<?n]))"
    by (rule reads_for) (use parts_map(2) [OF b'] reads_root in \<open>auto simp del: parts.simps\<close>)
  then have "reads (rd_for [0..<?n] rd_root ([], empty_machine)) b' (rev [0..<?n], roots_from m ?n)"
    using parts_map(1) [OF b'] by (simp add: roots_from_def)
  from reads_return_bind [OF this, of snd] show ?thesis unfolding rd_roots_def n(2)
    by (intro reads_bind [OF reads_count(1) [OF n(1)]] reads_demand_bind) (use reads_count(2) [OF n(1)] in simp_all)
qed

lemma distinct_jets: "distinct (map fst jet_manifest)"
  by code_simp

lemma reads_jet:
  assumes "k < length jet_manifest"
    "parts [put_text (ascii (fst (jet_manifest ! k))), Inr (put_u32 (of_bool (snd (jet_manifest ! k))))] = Inr b"
  shows "reads (rd_jet k [0..<k]) b [0..<Suc k]"
proof -
  let ?j = "jet_manifest ! k"
  obtain t where t: "put_text (ascii (fst ?j)) = Inr t" "b = t @ put_u32 (of_bool (snd ?j))"
    using assms(2) by (auto split: sum.splits)
  have i: "length (takeWhile (\<lambda>j. ascii (fst j) \<noteq> ascii (fst ?j)) jet_manifest) = k"
    using find_index [of "\<lambda>j. ascii (fst j)" jet_manifest k] assms(1) distinct_jets distinct_ascii [of fst jet_manifest] by simp
  have "reads (rd_bind rd_flag (\<lambda>control. rd_bind (rd_demand (k < length jet_manifest \<and> snd ?j = control) ''unsupported builtin'')
      (\<lambda>_. rd_bind (rd_demand (k \<notin> set [0..<k]) ''duplicate builtin'') (\<lambda>_. rd_return ([0..<k] @ [k])))))
      (put_u32 (of_bool (snd ?j)) @ []) ([0..<k] @ [k])"
    by (intro reads_bind [OF reads_flag] reads_demand_bind reads_return) (use assms(1) in auto)
  then show ?thesis unfolding rd_jet_def t(2)
    by (intro reads_bind [OF reads_text [OF t(1)]]) (simp add: i)
qed

lemma reads_jets:
  assumes "parts (put_count (length jet_manifest) # concat (map (\<lambda>(nm, control). [put_text (ascii nm), Inr (put_u32 (of_bool control))]) jet_manifest)) = Inr b"
  shows "reads rd_jets b [0..<length jet_manifest]"
proof -
  let ?n = "length jet_manifest" and ?p = "\<lambda>j. parts [put_text (ascii (fst j)), Inr (put_u32 (of_bool (snd j)))]"
  obtain n b' where n: "put_count ?n = Inr n" "b = n @ b'" and b': "parts (map ?p jet_manifest) = Inr b'"
    using assms by (elim parts_Cons) (simp add: parts_concat comp_def case_prod_beta')
  have "map (\<lambda>x. projr (?p x)) jet_manifest = map (\<lambda>k. projr (?p (jet_manifest ! k))) [0..<?n]"
    by (rule nth_equalityI) simp_all
  then have c: "b' = concat (map (\<lambda>k. projr (?p (jet_manifest ! k))) [0..<?n])" using parts_map(1) [OF b'] by simp
  have "reads (rd_for [0..<?n] rd_jet [0..<0]) (concat (map (\<lambda>k. projr (?p (jet_manifest ! k))) [0..<length [0..<?n]])) [0..<length [0..<?n]]"
    by (rule reads_for) (use parts_map(2) [OF b'] reads_jet in \<open>auto simp del: parts.simps upt_Suc\<close>)
  then have "reads (rd_for [0..<?n] rd_jet []) b' [0..<?n]" using c by simp
  then show ?thesis unfolding rd_jets_def n(2)
    by (intro reads_bind [OF reads_count(1) [OF n(1)]] reads_demand_bind) (use reads_count(2) [OF n(1)] in simp_all)
qed

lemma reads_texts:
  assumes "parts (map (\<lambda>k. put_text (f k)) ks) = Inr b"
  shows "reads (rd_for ks (\<lambda>k _. rd_bind rd_text (\<lambda>t. rd_demand (t = f k) msg)) ()) b ()"
  using assms
proof (induction ks arbitrary: b)
  case Nil
  then show ?case by (simp add: reads_return)
next
  case (Cons k ks)
  from Cons.prems obtain b1 b2 where b: "put_text (f k) = Inr b1" "parts (map (\<lambda>k. put_text (f k)) ks) = Inr b2" "b = b1 @ b2"
    unfolding list.map by (rule parts_Cons)
  have "reads (rd_bind rd_text (\<lambda>t. rd_demand (t = f k) msg)) (b1 @ []) ()"
    by (intro reads_bind [OF reads_text [OF b(1)]] reads_demand) simp
  then show ?case unfolding b(3) using reads_for_step [OF _ Cons.IH [OF b(2)]] by simp
qed

lemma reads_operation:
  assumes "put_operation oper = Inr b"
  shows "reads (rd_operation oper ()) b ()"
proof -
  obtain op nm ks where o: "oper = (op, nm, ks)" by (cases oper)
  have "parts (put_text (ascii nm) # Inr (put_u32 (code_opcode op)) # put_count (length ks) # map (\<lambda>k. put_text (ascii (operand_name k))) ks) = Inr b"
    using assms by (simp add: put_operation_def o)
  then obtain t n b' where t: "put_text (ascii nm) = Inr t" "put_count (length ks) = Inr n"
    "parts (map (\<lambda>k. put_text (ascii (operand_name k))) ks) = Inr b'" "b = t @ put_u32 (code_opcode op) @ n @ b'"
    by (elim parts_Cons) auto
  show ?thesis unfolding rd_operation_def o prod.case t(4)
    by (intro reads_bind [OF reads_text [OF t(1)]] reads_bind [OF reads_u32] reads_bind [OF reads_count(1) [OF t(2)]]
        reads_demand_bind reads_texts t(3) refl) (use reads_count(2) [OF t(2)] in simp)
qed

lemma reads_code:
  assumes "parts (Inr (put_u32 (of_nat code_version)) # put_count (length code_operations) # map put_operation code_operations) = Inr b"
  shows "reads rd_code b ()"
proof -
  obtain n b' where n: "put_count (length code_operations) = Inr n" "parts (map put_operation code_operations) = Inr b'"
    "b = put_u32 (of_nat code_version) @ n @ b'"
    using assms by (elim parts_Cons) auto
  have "reads (rd_for ops rd_operation ()) b' ()" if "parts (map put_operation ops) = Inr b'" for ops b'
    using that
  proof (induction ops arbitrary: b')
    case (Cons oper ops)
    from Cons.prems obtain b1 b2 where "put_operation oper = Inr b1" "parts (map put_operation ops) = Inr b2" "b' = b1 @ b2"
      unfolding list.map by (rule parts_Cons)
    then show ?case using reads_for_step [OF reads_operation Cons.IH] by simp
  qed (simp add: reads_return)
  from this [OF n(2)] show ?thesis unfolding rd_code_def n(3)
    by (intro reads_bind [OF reads_u32] reads_bind [OF reads_count(1) [OF n(1)]] reads_demand_bind)
      (use reads_count(2) [OF n(1)] in \<open>simp_all add: code_version_def\<close>)
qed

section \<open>The pools and the pins\<close>

lemma length_concat_u32 [simp]: "length (concat (map put_u32 ws)) = 4 * length ws"
  by (induction ws) simp_all

lemma reads_words: "reads (rd_words (length ws)) (concat (map put_u32 ws)) ws"
proof -
  have "reads (rd_for [0..<length ws] (\<lambda>i vs. rd_bind rd_u32 (\<lambda>x. rd_return (vs @ [x]))) (take 0 ws))
     (concat (map (\<lambda>k. put_u32 (ws ! k)) [0..<length [0..<length ws]])) (take (length [0..<length ws]) ws)"
  proof (rule reads_for)
    fix k assume "k < length [0..<length ws]"
    then show "reads (rd_bind rd_u32 (\<lambda>x. rd_return (take k ws @ [x]))) (put_u32 (ws ! k)) (take (Suc k) ws)"
      using reads_return_bind [OF reads_u32, of "\<lambda>x. take k ws @ [x]" "ws ! k"] by (simp add: take_Suc_conv_app_nth)
  qed
  moreover have "map (\<lambda>k. put_u32 (ws ! k)) [0..<length ws] = map put_u32 ws" by (rule nth_equalityI) simp_all
  ultimately show ?thesis by (simp add: rd_words_def)
qed

lemma reads_pools:
  assumes "parts [put_count (length bs), Inr bs, put_count (length ws), Inr (concat (map put_u32 ws))] = Inr b"
  shows "reads rd_pools b (bs, ws)"
proof -
  obtain n k where n: "put_count (length bs) = Inr n" "put_count (length ws) = Inr k" "b = n @ bs @ k @ concat (map put_u32 ws)"
    using assms by (elim parts_Cons) auto
  note c = reads_count(2) [OF n(1)] reads_count(2) [OF n(2)]
  have "reads (rd_bind rd_left (\<lambda>left. rd_bind (rd_demand (unat (of_nat (length ws) :: u32) \<le> left div 4) ''truncated word pool'') (\<lambda>_.
     rd_bind (rd_words (unat (of_nat (length ws) :: u32))) (\<lambda>ws. rd_return (bs, ws))))) (concat (map put_u32 ws)) (bs, ws)"
    unfolding c by (intro reads_left_bind reads_demand_bind reads_return_bind reads_words) simp
  then show ?thesis unfolding rd_pools_def n(3)
    by (intro reads_bind [OF reads_count(1) [OF n(1)]] reads_bind [OF reads_count(1) [OF n(2)]])
      (simp only: c, intro reads_bind [OF reads_take] reads_bind [OF reads_count(1) [OF n(2)]], simp only: c)
qed

lemma insort_last: "\<forall>y \<in> set ps. fst y < k \<Longrightarrow> insort_key fst (k :: 'a :: linorder, x) ps = ps @ [(k, x)]"
  by (induction ps) auto

lemma reads_pins:
  assumes "parts [put_count (length ps), Inr (concat (map (\<lambda>(k, x). put_u32 k @ put_u32 x) ps))] = Inr b"
    and s: "sorted_wrt (<) (map fst ps)"
  shows "reads rd_pins b ps"
proof -
  let ?e = "\<lambda>p. put_u32 (fst p) @ put_u32 (snd p)"
  obtain n where n: "put_count (length ps) = Inr n" "b = n @ concat (map ?e ps)"
    using assms(1) by (elim parts_Cons) (auto simp: case_prod_beta')
  have e: "map (\<lambda>k. ?e (ps ! k)) [0..<length ps] = map ?e ps" by (rule nth_equalityI) simp_all
  have len: "length (concat (map ?e ps)) = 8 * length ps" by (induction ps) simp_all
  have "reads (rd_for [0..<length ps] rd_pin (take 0 ps)) (concat (map (\<lambda>k. ?e (ps ! k)) [0..<length [0..<length ps]]))
     (take (length [0..<length ps]) ps)"
  proof (rule reads_for)
    fix k assume "k < length [0..<length ps]"
    then have k: "k < length ps" by simp
    have lt: "\<forall>y \<in> set (take k ps). fst y < fst (ps ! k)"
      using s k by (auto simp: sorted_wrt_iff_nth_less in_set_conv_nth) (metis fst_conv)
    then have "map_of (take k ps) (fst (ps ! k)) = None" by (auto simp: map_of_eq_None_iff)
    moreover have "insort_key fst (fst (ps ! k), snd (ps ! k)) (take k ps) = take (Suc k) ps"
      using insort_last [OF lt, of "snd (ps ! k)"] k by (simp add: take_Suc_conv_app_nth)
    ultimately have "reads (rd_pin k (take k ps)) (put_u32 (fst (ps ! k)) @ put_u32 (snd (ps ! k)) @ []) (take (Suc k) ps)"
      unfolding rd_pin_def by (intro reads_bind [OF reads_u32] reads_demand_bind) (simp_all add: reads_return)
    then show "reads (rd_pin ([0..<length ps] ! k) (take k ps)) (?e (ps ! k)) (take (Suc k) ps)" using k by simp
  qed
  then have "reads (rd_for [0..<length ps] rd_pin []) (concat (map ?e ps)) ps" using e by simp
  then show ?thesis unfolding rd_pins_def n(2)
    by (intro reads_bind [OF reads_count(1) [OF n(1)]] reads_left_bind reads_demand_bind)
      (use len in \<open>simp_all add: reads_count(2) [OF n(1)]\<close>)
qed

section \<open>The tables\<close>

lemma distinct_fields: "distinct (map (\<lambda>c. field_name (fst c)) (schema T))"
  by (cases T) (simp_all add: field_name_def ascii_inj)

lemma reads_column:
  assumes "k < width T"
    "parts [put_text (field_name (fst (schema T ! k))), put_text (ascii (kind_name (snd (schema T ! k))))] = Inr b"
  shows "reads (rd_column T k [0..<k]) b [0..<Suc k]"
proof -
  let ?c = "schema T ! k"
  obtain b1 b2 where t: "put_text (field_name (fst ?c)) = Inr b1" "put_text (ascii (kind_name (snd ?c))) = Inr b2" "b = b1 @ b2"
    using assms(2) by (auto split: sum.splits)
  have i: "length (takeWhile (\<lambda>col. field_name (fst col) \<noteq> field_name (fst ?c)) (schema T)) = k"
    using find_index [of "\<lambda>c. field_name (fst c)" "schema T" k] assms(1) distinct_fields by simp
  have "reads (rd_bind rd_text (\<lambda>kk. rd_bind (rd_demand (k < width T \<and> ascii (kind_name (snd ?c)) = kk) ''unsupported column schema'')
      (\<lambda>_. rd_bind (rd_demand (k \<notin> set [0..<k]) ''duplicate column'') (\<lambda>_. rd_return ([0..<k] @ [k]))))) (b2 @ []) ([0..<k] @ [k])"
    by (intro reads_bind [OF reads_text [OF t(2)]] reads_demand_bind reads_return) (use assms(1) in auto)
  then show ?thesis unfolding rd_column_def t(3)
    by (intro reads_bind [OF reads_text [OF t(1)]]) (simp add: i)
qed

lemma push_rows_room:
  "tab_size t + n \<le> tcapacity t \<Longrightarrow> push_rows n r t = Inr (t\<lparr>trows := trows t @ replicate n r\<rparr>)"
proof (induction n arbitrary: t)
  case (Suc n)
  then have "tab_push r t = Inr (of_nat (tab_size t), t\<lparr>trows := trows t @ [r]\<rparr>)" by (simp add: tab_push_def)
  then show ?case using Suc.IH [of "t\<lparr>trows := trows t @ [r]\<rparr>"] Suc.prems by (simp add: tab_size_def)
qed simp

lemma blank_table_eq:
  assumes "n \<le> max_rows"
  shows "blank_table T n = Inr \<lparr>trows = replicate n (replicate (width T) 0), tcapacity = n\<rparr>"
proof -
  have "tab_reserve n empty_tab = Inr \<lparr>trows = [], tcapacity = n\<rparr>" using assms by (auto simp: tab_reserve_def empty_tab_def)
  then show ?thesis using push_rows_room [of "\<lparr>trows = [], tcapacity = n\<rparr>" n] by (simp add: blank_table_def tab_size_def)
qed

text \<open>A row of which the first columns have been read.\<close>

definition partial_row :: "nat \<Rightarrow> row \<Rightarrow> row" where
  "partial_row c r = take c r @ replicate (length r - c) 0"

lemma partial_row_simps [simp]: "partial_row 0 r = replicate (length r) 0" "partial_row (length r) r = r"
  by (simp_all add: partial_row_def)

lemma partial_row_Suc:
  assumes "c < length r"
  shows "(partial_row c r)[c := r ! c] = partial_row (Suc c) r"
proof -
  have "replicate (length r - c) 0 = (0 :: wword) # replicate (length r - Suc c) 0"
    using assms by (simp add: Suc_diff_Suc flip: replicate_Suc)
  then show ?thesis using assms by (simp add: partial_row_def list_update_append take_Suc_conv_app_nth)
qed

lemma reads_cells:
  assumes "trows t = map (partial_row c) R" "\<forall>r \<in> set R. c < length r"
  shows "reads (rd_cells (length R) c t) (concat (map put_u32 (map (\<lambda>r. r ! c) R))) (t\<lparr>trows := map (partial_row (Suc c)) R\<rparr>)"
proof -
  define st where "st k = t\<lparr>trows := map (partial_row (Suc c)) (take k R) @ map (partial_row c) (drop k R)\<rparr>" for k
  have "reads (rd_for [0..<length R] (\<lambda>i t. rd_bind rd_u32 (\<lambda>x. rd_return (tab_set i c x t))) (st 0))
     (concat (map (\<lambda>k. put_u32 (R ! k ! c)) [0..<length [0..<length R]])) (st (length [0..<length R]))"
  proof (rule reads_for)
    fix k assume "k < length [0..<length R]"
    then have k: "k < length R" by simp
    have d: "drop k R = R ! k # drop (Suc k) R" using k by (simp add: Cons_nth_drop_Suc)
    have tk: "take (Suc k) R = take k R @ [R ! k]" using k by (simp add: take_Suc_conv_app_nth)
    have "tab_set k c (R ! k ! c) (st k) = st (Suc k)"
      using k d tk partial_row_Suc [of c "R ! k"] assms(2) by (simp add: st_def tab_set_def list_update_append nth_append)
    then show "reads (rd_bind rd_u32 (\<lambda>x. rd_return (tab_set ([0..<length R] ! k) c x (st k)))) (put_u32 (R ! k ! c)) (st (Suc k))"
      using reads_return_bind [OF reads_u32, of "\<lambda>x. tab_set k c x (st k)" "R ! k ! c"] k by simp
  qed
  moreover have "map (\<lambda>k. put_u32 (R ! k ! c)) [0..<length R] = map put_u32 (map (\<lambda>r. r ! c) R)" by (rule nth_equalityI) simp_all
  moreover have "st 0 = t" using assms(1) by (simp add: st_def)
  ultimately show ?thesis by (simp add: rd_cells_def st_def)
qed

lemma reads_rows:
  assumes w: "\<forall>r \<in> set R. length r = width T" and n: "length R \<le> max_rows" and T: "0 < width T"
  shows "reads (rd_rows T (length R) [0..<width T]) (concat (map (\<lambda>c. concat (map put_u32 (map (\<lambda>r. r ! c) R))) [0..<width T]))
    \<lparr>trows = R, tcapacity = length R\<rparr>"
proof -
  let ?data = "concat (map (\<lambda>c. concat (map put_u32 (map (\<lambda>r. r ! c) R))) [0..<width T])"
  define st where "st k = \<lparr>trows = map (partial_row k) R, tcapacity = length R\<rparr>" for k
  have "reads (rd_for [0..<width T] (rd_cells (length R)) (st 0))
     (concat (map (\<lambda>c. concat (map put_u32 (map (\<lambda>r. r ! c) R))) [0..<length [0..<width T]])) (st (length [0..<width T]))"
  proof (rule reads_for)
    fix k assume "k < length [0..<width T]"
    then have k: "k < width T" by simp
    have "reads (rd_cells (length R) k (st k)) (concat (map put_u32 (map (\<lambda>r. r ! k) R))) ((st k)\<lparr>trows := map (partial_row (Suc k)) R\<rparr>)"
      by (rule reads_cells) (use k w in \<open>simp_all add: st_def\<close>)
    then show "reads (rd_cells (length R) ([0..<width T] ! k) (st k)) (concat (map put_u32 (map (\<lambda>r. r ! k) R))) (st (Suc k))"
      using k by (simp add: st_def)
  qed
  moreover have "st (width T) = \<lparr>trows = R, tcapacity = length R\<rparr>" "st 0 = \<lparr>trows = replicate (length R) (replicate (width T) 0), tcapacity = length R\<rparr>"
    using w by (auto simp: st_def intro!: map_idI nth_equalityI) (metis partial_row_simps(2), simp add: partial_row_def)
  ultimately have c: "reads (rd_for [0..<width T] (rd_cells (length R)) \<lparr>trows = replicate (length R) (replicate (width T) 0), tcapacity = length R\<rparr>)
     ?data \<lparr>trows = R, tcapacity = length R\<rparr>" by simp
  have len: "length ?data = 4 * width T * length R"
    by (simp add: length_concat comp_def sum_list_triv)
  show ?thesis unfolding rd_rows_def
    by (intro reads_left_bind reads_demand_bind) (use len c T n in \<open>simp_all add: blank_table_eq less_eq_div_iff_mult_less_eq mult.commute\<close>)
qed

lemma vat_order_codes: "distinct vat_order" "distinct (map tag_code vat_order)"
  "T \<in> set vat_order \<Longrightarrow> find (\<lambda>S. tag_code S = tag_code T) vat_order = Some T"
  by (auto simp: vat_order_def)

lemma vat_order_widths: "T \<in> set vat_order \<Longrightarrow> 0 < width T \<and> width T < 10"
  by (auto simp: vat_order_def)

lemma reads_columns:
  assumes "parts (concat (map (\<lambda>(F, k). [put_text (field_name F), put_text (ascii (kind_name k))]) (schema T))) = Inr b"
  shows "reads (rd_for [0..<width T] (rd_column T) []) b [0..<width T]"
proof -
  let ?p = "\<lambda>c. parts [put_text (field_name (fst c)), put_text (ascii (kind_name (snd c)))]"
  have b: "parts (map ?p (schema T)) = Inr b" using assms by (simp add: parts_concat comp_def case_prod_beta')
  have "map (\<lambda>x. projr (?p x)) (schema T) = map (\<lambda>k. projr (?p (schema T ! k))) [0..<width T]"
    by (rule nth_equalityI) (simp_all del: parts.simps)
  then have c: "b = concat (map (\<lambda>k. projr (?p (schema T ! k))) [0..<width T])" using parts_map(1) [OF b] by simp
  have "reads (rd_for [0..<width T] (rd_column T) [0..<0]) (concat (map (\<lambda>k. projr (?p (schema T ! k))) [0..<length [0..<width T]]))
     [0..<length [0..<width T]]"
    by (rule reads_for) (use parts_map(2) [OF b] reads_column in \<open>auto simp del: parts.simps upt_Suc\<close>)
  then show ?thesis using c by simp
qed

lemma parts_pure: "parts (map (\<lambda>c. Inr (f c)) cs) = Inr (concat (map f cs))"
  by (induction cs) simp_all

text \<open>What \<^verbatim>\<open>decode\<close> has read of the tables \<open>h\<close> after \<open>k\<close> of them.\<close>

definition tables_from :: "heap \<Rightarrow> nat \<Rightarrow> u32 list \<times> vat" where
  "tables_from h k = (rev (map tag_code (take k vat_order)),
     \<lambda>T. if T \<in> set (take k vat_order) then \<lparr>trows = trows (hvat h T), tcapacity = tab_size (hvat h T)\<rparr> else empty_tab)"

lemma tables_from_Suc:
  assumes "k < length vat_order"
  shows "tables_from h (Suc k) = (tag_code (vat_order ! k) # fst (tables_from h k),
    (snd (tables_from h k))(vat_order ! k := \<lparr>trows = trows (hvat h (vat_order ! k)), tcapacity = tab_size (hvat h (vat_order ! k))\<rparr>))"
  using assms by (auto simp: tables_from_def take_Suc_conv_app_nth fun_eq_iff)

lemma table_code_fresh: "k < length vat_order \<Longrightarrow> tag_code (vat_order ! k) \<notin> set (fst (tables_from h k))"
  using vat_order_codes(2) by (auto simp: tables_from_def in_set_conv_nth distinct_conv_nth)

lemma reads_table:
  assumes k: "k < length vat_order" and b: "put_table h (vat_order ! k) = Inr b" and ok: "heap_ok h"
    and e: "tab_size (hvat h ext) = 0"
  shows "reads (rd_table k (tables_from h k)) b (tables_from h (Suc k))"
proof -
  define T where "T = vat_order ! k"
  let ?t = "hvat h T" and ?n = "tab_size (hvat h T)"
  have T: "T \<in> set vat_order" using k by (simp add: T_def)
  have R: "\<forall>r \<in> set (trows ?t). length r = width T" "?n \<le> max_rows"
    using ok by (auto simp: heap_ok_def tables_ok_def row_ok_def tab_ok_def) (metis order_trans)
  obtain n w cs where p: "put_count ?n = Inr n" "put_count (width T) = Inr w"
    "parts (concat (map (\<lambda>(F, k). [put_text (field_name F), put_text (ascii (kind_name k))]) (schema T))) = Inr cs"
    "b = put_u32 (tag_code T) @ n @ w @ cs @ concat (map (\<lambda>c. concat (map put_u32 (map (\<lambda>r. r ! c) (trows ?t)))) [0..<width T])"
    using b unfolding put_table_def T_def [symmetric] Let_def
    by (elim parts_appendE) (auto simp: parts_append parts_pure tab_col_def split: sum.splits elim!: parts_Cons)
  have le: "(of_nat ?n :: u32) \<le> max_index + 1"
    using R(2) reads_count(2) [OF p(1)] by (simp add: word_le_nat_alt max_rows_eq max_index_def)
  have rows: "reads (rd_rows T ?n [0..<width T]) (concat (map (\<lambda>c. concat (map put_u32 (map (\<lambda>r. r ! c) (trows ?t)))) [0..<width T]))
      \<lparr>trows = trows ?t, tcapacity = ?n\<rparr>"
    using reads_rows [of "trows ?t" T] R vat_order_widths [OF T] by (simp add: tab_size_def)
  have "reads (rd_bind rd_u32 (\<lambda>rows.
      rd_bind (rd_demand (rows \<le> max_index + 1) ''table count overflow'') (\<lambda>_.
      rd_bind (rd_demand (T = ext \<longrightarrow> rows = 0) ''external resources are not portable'') (\<lambda>_.
      rd_bind rd_u32 (\<lambda>w.
      rd_bind (rd_demand (unat w = width T) ''wrong column count'') (\<lambda>_.
      rd_bind (rd_for [0..<width T] (rd_column T) []) (\<lambda>columns.
      rd_bind (rd_rows T (unat rows) columns) (\<lambda>t. rd_return (tag_code T # fst (tables_from h k), (snd (tables_from h k))(T := t))))))))))
     (n @ w @ cs @ concat (map (\<lambda>c. concat (map put_u32 (map (\<lambda>r. r ! c) (trows ?t)))) [0..<width T]))
     (tag_code T # fst (tables_from h k), (snd (tables_from h k))(T := \<lparr>trows = trows ?t, tcapacity = ?n\<rparr>))"
    by (intro reads_bind [OF reads_count(1) [OF p(1)]] reads_bind [OF reads_count(1) [OF p(2)]] reads_bind [OF reads_columns [OF p(3)]]
        reads_demand_bind reads_return_bind) (use le e rows reads_count(2) [OF p(1)] reads_count(2) [OF p(2)] in simp_all)
  moreover have "find (\<lambda>S. tag_code S = tag_code T) vat_order = Some T" by (rule vat_order_codes(3) [OF T])
  moreover have "tag_code T \<notin> set (fst (tables_from h k))" using table_code_fresh [OF k] by (simp add: T_def)
  ultimately show ?thesis unfolding rd_table_def p(4) tables_from_Suc [OF k] T_def [symmetric]
    by (intro reads_bind [OF reads_u32] reads_demand_bind) simp_all
qed

lemma reads_vat:
  assumes "parts (put_count (length vat_order) # map (put_table h) vat_order) = Inr b" "heap_ok h" "tab_size (hvat h ext) = 0"
  shows "reads rd_vat b (snd (tables_from h (length vat_order)))"
proof -
  let ?n = "length vat_order"
  obtain n b' where n: "put_count ?n = Inr n" "b = n @ b'" "parts (map (put_table h) vat_order) = Inr b'"
    using assms(1) by (elim parts_Cons) simp
  have "map (\<lambda>T. projr (put_table h T)) vat_order = map (\<lambda>k. projr (put_table h (vat_order ! k))) [0..<?n]"
    by (rule nth_equalityI) simp_all
  then have c: "b' = concat (map (\<lambda>k. projr (put_table h (vat_order ! k))) [0..<?n])" using parts_map(1) [OF n(3)] by simp
  have "reads (rd_for [0..<?n] rd_table (tables_from h 0)) (concat (map (\<lambda>k. projr (put_table h (vat_order ! k))) [0..<length [0..<?n]]))
     (tables_from h (length [0..<?n]))"
    by (rule reads_for) (use parts_map(2) [OF n(3)] reads_table [OF _ _ assms(2,3)] in \<open>auto simp del: parts.simps upt_Suc\<close>)
  then have "reads (rd_for [0..<?n] rd_table ([], \<lambda>_. empty_tab)) b' (tables_from h ?n)" using c by (simp add: tables_from_def)
  from reads_return_bind [OF this, of snd] show ?thesis unfolding rd_vat_def n(2)
    by (intro reads_bind [OF reads_count(1) [OF n(1)]] reads_demand_bind) (use reads_count(2) [OF n(1)] in simp_all)
qed

section \<open>The whole tape\<close>

text \<open>The body that \<^verbatim>\<open>decode\<close> reads off the tape of a machine.\<close>

definition saved_body :: "heap \<Rightarrow> machine \<Rightarrow> wword \<Rightarrow> tape_body" where
  "saved_body h m entry =
     \<lparr>tb_era = hera h, tb_next_pin = next_pin h,
      tb_machine = (roots_from m (length root_names))\<lparr>vm_next_key := vm_next_key m, vm_collect := vm_collect m\<rparr>,
      tb_entry = entry, tb_jets = [0..<length jet_manifest], tb_bytes = hbytes h, tb_words = hwords h,
      tb_vat = snd (tables_from h (length vat_order)), tb_pins = hpins h\<rparr>"

lemma body_read:
  assumes "put_body h m entry = Inr b" "heap_ok h" "tab_size (hvat h ext) = 0"
  shows "rd_body b = Inr (saved_body h m entry, [])"
proof -
  have s: "sorted_wrt (<) (map fst (hpins h))" using assms(2) by (simp add: heap_ok_def pins_ok_def)
  obtain rb jb cb pb vb nb where p:
    "parts (put_count (length root_names) # concat (map (\<lambda>i. [put_text (ascii (root_names ! i)), Inr (put_u32 (saved_get m i))]) [0..<length root_names])) = Inr rb"
    "parts (put_count (length jet_manifest) # concat (map (\<lambda>(nm, control). [put_text (ascii nm), Inr (put_u32 (of_bool control))]) jet_manifest)) = Inr jb"
    "parts (Inr (put_u32 (of_nat code_version)) # put_count (length code_operations) # map put_operation code_operations) = Inr cb"
    "parts [put_count (length (hbytes h)), Inr (hbytes h), put_count (length (hwords h)), Inr (concat (map put_u32 (hwords h)))] = Inr pb"
    "parts (put_count (length vat_order) # map (put_table h) vat_order) = Inr vb"
    "parts [put_count (length (hpins h)), Inr (concat (map (\<lambda>(k, x). put_u32 k @ put_u32 x) (hpins h)))] = Inr nb"
    "b = (magic @ put_u32 tape_version @ put_u32 (of_bool (hera h)) @ put_u32 (next_pin h) @ put_u32 (ucast (vm_next_key m))
        @ put_u32 (ucast (drop_bit 32 (vm_next_key m))) @ put_u32 (of_bool (vm_collect m)) @ put_u32 entry) @ rb @ jb @ cb @ pb @ vb @ nb"
  proof -
    have "put_body h m entry = parts
      ([Inr magic, Inr (put_u32 tape_version), Inr (put_u32 (of_bool (hera h))), Inr (put_u32 (next_pin h)), Inr (put_u32 (ucast (vm_next_key m))),
        Inr (put_u32 (ucast (drop_bit 32 (vm_next_key m)))), Inr (put_u32 (of_bool (vm_collect m))), Inr (put_u32 entry)]
       @ (put_count (length root_names) # concat (map (\<lambda>i. [put_text (ascii (root_names ! i)), Inr (put_u32 (saved_get m i))]) [0..<length root_names]))
       @ (put_count (length jet_manifest) # concat (map (\<lambda>(nm, control). [put_text (ascii nm), Inr (put_u32 (of_bool control))]) jet_manifest))
       @ (Inr (put_u32 (of_nat code_version)) # put_count (length code_operations) # map put_operation code_operations)
       @ [put_count (length (hbytes h)), Inr (hbytes h), put_count (length (hwords h)), Inr (concat (map put_u32 (hwords h)))]
       @ (put_count (length vat_order) # map (put_table h) vat_order)
       @ [put_count (length (hpins h)), Inr (concat (map (\<lambda>(k, x). put_u32 k @ put_u32 x) (hpins h)))])"
      unfolding put_body_def by (simp only: append_assoc append_Cons append_Nil)
    from this [symmetric, unfolded assms(1)] that show thesis
      by (elim parts_appendE) (simp only: parts.simps sum.case map_sum.simps id_apply, simp)
  qed
  note r = reads_state reads_roots [OF p(1)] reads_jets [OF p(2)] reads_code [OF p(3)] reads_pools [OF p(4)]
    reads_vat [OF p(5) assms(2,3)] reads_pins [OF p(6) s]
  have "rd_pins nb = Inr (hpins h, [])" using r(7) [unfolded reads_def, rule_format, of "[]"] by simp
  then show ?thesis unfolding p(7) rd_body_def
    using r(1-6) by (simp add: reads_def rd_bind_def rd_left_def rd_demand_def demand_def rd_return_def saved_body_def)
qed

section \<open>Relocation of the builtins\<close>

lemma all_ok_iff: "all_ok cs = Inr () \<longleftrightarrow> (\<forall>c \<in> set cs. c = Inr ())"
  by (induction cs) (auto split: sum.splits)

lemma demand_iff [simp]: "demand g msg = Inr () \<longleftrightarrow> g"
  by (simp add: demand_def)

lemma immediate_eta:
  assumes "tag_of x \<noteq> integer" "tag_of x \<noteq> unnamed"
  shows "immediate (tag_of x) (payload_of x) = x"
proof -
  have c: "tag_code (tag_of x) = drop_bit 27 x"
    using assms by (intro tag_of_code_eq) (auto simp: tag_of_def split: if_splits)
  show ?thesis unfolding immediate_def c payload_of_def max_immediate_mask
    by (rule bit_word_eqI) (auto simp: bit_or_iff bit_push_bit_iff bit_drop_bit_eq bit_and_iff bit_mask_iff)
qed

abbreviation same_jets :: "nat list" where
  "same_jets \<equiv> [0..<length jet_manifest]"

lemma remap_valid:
  assumes "check_value h x = Inr ()"
  shows "remap same_jets x = Inr x"
proof (cases "tag_of x = jet")
  case True
  then have "unat (payload_of x) < length jet_manifest" using assms by (simp add: check_value_def Let_def is_pointer_iff)
  moreover have "immediate jet (payload_of x) = x" using immediate_eta [of x] True by simp
  ultimately show ?thesis using True by (simp add: remap_def Let_def)
qed (simp add: remap_def)

lemma remap_all_valid: "\<forall>x \<in> set xs. check_value h x = Inr () \<Longrightarrow> remap_all same_jets xs = Inr xs"
  by (induction xs) (simp_all add: remap_valid [of h])

lemma saved_set_get: "saved_set m i (saved_get m i) = m"
  by (cases m; cases "vm_ev m") (auto simp: saved_set_def saved_get_def Let_def)

lemma remap_roots_valid:
  "\<forall>i \<in> set is. check_value h (saved_get m i) = Inr () \<Longrightarrow> remap_roots same_jets is m = Inr m"
  by (induction "is") (simp_all add: remap_valid [of h] saved_set_get)

lemma remap_row_valid:
  "\<forall>c < length xs. c < length cols \<longrightarrow> snd (cols ! c) = Value \<longrightarrow> check_value h (xs ! c) = Inr () \<Longrightarrow>
   remap_row same_jets cols xs = Inr xs"
proof (induction same_jets cols xs rule: remap_row.induct)
  case (1 col cols x xs)
  have "check_value h x = Inr ()" if "snd col = Value"
    using 1(2) [rule_format, of 0] that by simp
  then have x: "(if snd col = Value then remap same_jets x else Inr x) = Inr x" using remap_valid by auto
  have "remap_row same_jets cols xs = Inr xs"
  proof (rule 1(1) [OF x])
    show "\<forall>c < length xs. c < length cols \<longrightarrow> snd (cols ! c) = Value \<longrightarrow> check_value h (xs ! c) = Inr ()"
      using 1(2) by auto
  qed
  then show ?case using x by simp
qed simp_all

lemma remap_rows_valid:
  "\<forall>r \<in> set rs. \<forall>c < length r. c < width T \<longrightarrow> snd (schema T ! c) = Value \<longrightarrow> check_value h (r ! c) = Inr () \<Longrightarrow>
   remap_rows same_jets T rs = Inr rs"
  by (induction rs) (simp_all add: remap_row_valid [where h = h])

lemma remap_vat_valid:
  "\<forall>T \<in> set Ts. remap_rows same_jets T (trows (v T)) = Inr (trows (v T)) \<Longrightarrow> remap_vat same_jets Ts v = Inr v"
  by (induction Ts) simp_all

lemma check_table_cells:
  assumes "check_table h T = Inr ()" "r \<in> set (trows (hvat h T))" "c < width T" "snd (schema T ! c) = Value"
  shows "check_value h (r ! c) = Inr ()"
proof -
  have "check_value h (r ! c) \<in> set (map (check_value h) (tab_col c (hvat h T)))" using assms(2) by (auto simp: tab_col_def)
  then show ?thesis using assms(1,3,4) unfolding check_table_def Let_def all_ok_iff by fastforce
qed

lemma validated:
  assumes "validate h m entry = Inr ()"
  shows "tab_size (hvat h ext) = 0" "check_value h entry = Inr ()"
    "i < length root_names \<Longrightarrow> check_value h (saved_get m i) = Inr ()"
    "(k, x) \<in> set (hpins h) \<Longrightarrow> check_value h x = Inr ()" "x \<in> set (hwords h) \<Longrightarrow> check_value h x = Inr ()"
    "T \<in> set vat_order \<Longrightarrow> check_table h T = Inr ()"
proof -
  have c: "check_storage h m entry = Inr ()" using assms unfolding validate_def all_ok_iff by simp
  note d = c [unfolded check_storage_def all_ok_iff]
  show "tab_size (hvat h ext) = 0" "check_value h entry = Inr ()" using d by auto
  show "i < length root_names \<Longrightarrow> check_value h (saved_get m i) = Inr ()" using d by auto
  show "(k, x) \<in> set (hpins h) \<Longrightarrow> check_value h x = Inr ()" using d by fastforce
  show "x \<in> set (hwords h) \<Longrightarrow> check_value h x = Inr ()" using d by auto
  show "T \<in> set vat_order \<Longrightarrow> check_table h T = Inr ()" using d by auto
qed

lemma saved_get_counters [simp]: "saved_get (m\<lparr>vm_next_key := k, vm_collect := c\<rparr>) i = saved_get m i"
  by (simp add: saved_get_def)

lemma remap_saved:
  assumes v: "validate h m entry = Inr ()"
  shows "remap_body (saved_body h m entry) = Inr (saved_body h m entry)"
proof -
  have "remap_roots same_jets [0..<length root_names] (tb_machine (saved_body h m entry)) = Inr (tb_machine (saved_body h m entry))"
    by (rule remap_roots_valid [where h = h]) (use validated(3) [OF v] in \<open>auto simp: saved_body_def roots_from_get\<close>)
  moreover have "remap_all same_jets (map snd (hpins h)) = Inr (map snd (hpins h))"
    by (rule remap_all_valid [where h = h]) (use validated(4) [OF v] in auto)
  moreover have "remap_all same_jets (hwords h) = Inr (hwords h)"
    by (rule remap_all_valid [where h = h]) (use validated(5) [OF v] in auto)
  moreover have "remap_vat same_jets vat_order (snd (tables_from h (length vat_order))) = Inr (snd (tables_from h (length vat_order)))"
    by (rule remap_vat_valid)
      (use check_table_cells [OF validated(6) [OF v]] in \<open>auto simp: tables_from_def intro!: remap_rows_valid [where h = h]\<close>)
  ultimately show ?thesis using remap_valid [OF validated(2) [OF v]]
    by (simp add: remap_body_def saved_body_def zip_map_fst_snd)
qed

section \<open>Storages that read alike\<close>

text \<open>Two heaps with the same era, rows, pools and pins: every read, and so every check of a tape, gives the
  same on both.  Capacities, host roots and the release callback may differ.\<close>

locale same_storage =
  fixes h h' :: heap
  assumes era: "hera h' = hera h" and rows: "trows (hvat h' T) = trows (hvat h T)"
    and pools: "hbytes h' = hbytes h" "hwords h' = hwords h" and pins: "hpins h' = hpins h" "next_pin h' = next_pin h"
begin

lemma size: "tab_size (hvat h' T) = tab_size (hvat h T)"
  by (simp add: tab_size_def rows)

lemma heap_check: "heap_check T x h' = heap_check T x h"
  by (simp add: heap_check_def era size)

lemma heap_read: "heap_read T x h' = heap_read T x h"
  by (simp add: heap_read_def heap_check tab_read_def rows)

lemma heap_get: "heap_get T F x h' = heap_get T F x h"
  unfolding heap_get_def heap_check tab_get_def rows ..

lemma slices: "heap_words T x h' = heap_words T x h" "v08slice x h' = v08slice x h" "v32slice x h' = v32slice x h"
  unfolding heap_words_def v08slice_def v32slice_def heap_read pools by (rule refl)+

lemma symbol_name: "symbol_name h' x = symbol_name h x"
  unfolding symbol_name_def heap_get slices ..

lemma code_record_op: "code_record_op h' x = code_record_op h x"
  unfolding code_record_op_def slices ..

lemma operand_valid: "operand_valid h' k x = operand_valid h k x"
  unfolding operand_valid_def code_record_op ..

lemma operands_valid: "operands_valid_from h' ks xs = operands_valid_from h ks xs"
proof (induction ks arbitrary: xs)
  case (Cons k ks)
  then show ?case by (cases xs) (simp_all add: operand_valid split: sum.split)
qed simp

lemma check_value: "check_value h' x = check_value h x"
  unfolding check_value_def era size pins ..

lemma check_table: "check_table h' T = check_table h T"
proof -
  have c: "check_value h' = check_value h" using check_value by blast
  show ?thesis unfolding check_table_def Let_def rows tab_col_def pool_length_def pools c ..
qed

lemma check_code: "check_code h' i = check_code h i"
  unfolding check_code_def era code_record_op slices code_operands_valid_def operands_valid ..

lemma walk_list: "walk_list h' T colors cur = walk_list h T colors cur"
proof (induction "length (filter (\<lambda>c. c = 0) colors)" arbitrary: colors cur rule: less_induct)
  case less
  have "walk_list h' T (colors[unat (index_of cur) := 1]) (r ! 1) = walk_list h T (colors[unat (index_of cur) := 1]) (r ! 1)"
    if "unat (index_of cur) < length colors" "colors ! unat (index_of cur) = 0" for r
    by (rule less) (use that colour_less in simp)
  then show ?case
    by (subst (1 2) walk_list.simps) (simp add: heap_read Let_def split: sum.split)
qed

lemma settle_list: "settle_list h' colors cur = settle_list h colors cur"
proof (induction "length (filter (\<lambda>c. c = 1) colors)" arbitrary: colors cur rule: less_induct)
  case less
  have "settle_list h' (colors[unat (index_of cur) := 2]) x = settle_list h (colors[unat (index_of cur) := 2]) x"
    if "unat (index_of cur) < length colors" "colors ! unat (index_of cur) = 1" for x
    by (rule less) (use that colour_less in simp)
  then show ?case
    by (subst (1 2) settle_list.simps) (simp add: heap_get Let_def split: sum.split)
qed

lemma package_rows: "check_package_rows h' colors rs = check_package_rows h colors rs"
  by (induction rs arbitrary: colors) (simp_all add: proper_def walk_list settle_list split: sum.split)

lemma list_packages: "list_packages h' seen names cur = list_packages h seen names cur"
proof (induction "card (UNIV - set seen)" arbitrary: seen names cur rule: less_induct)
  case less
  have "list_packages h' (seen @ [x]) ns c = list_packages h (seen @ [x]) ns c" if "x \<notin> set seen" for x ns c
  proof (rule less)
    show "card (UNIV - set (seen @ [x])) < card (UNIV - set seen)" using that by (intro psubset_card_mono) auto
  qed
  then show ?case
    by (subst (1 2) list_packages.simps) (simp add: heap_read heap_get slices split: sum.split)
qed

lemma find_symbol:
  assumes "find_symbol h nm cur = Some r"
  shows "find_symbol h' nm cur = Some r"
proof -
  have "h = h \<longrightarrow> find_symbol h' nm cur = Some r"
  proof (rule find_symbol.raw_induct [where P = "\<lambda>k nm cur r. k = h \<longrightarrow> find_symbol h' nm cur = Some r", OF _ assms])
    fix F :: "heap \<Rightarrow> bytes \<Rightarrow> wword \<Rightarrow> (heap_error + wword option) option" and k n c y
    assume F: "\<And>k n c y. F k n c = Some y \<Longrightarrow> k = h \<longrightarrow> find_symbol h' n c = Some y"
      and e: "(if c = nil then Some (Inr None)
        else case heap_read duo c k of Inl e \<Rightarrow> Some (Inl e)
          | Inr r \<Rightarrow> (case symbol_name k (r ! 0) of Inl e \<Rightarrow> Some (Inl e)
             | Inr s \<Rightarrow> if s = n then Some (Inr (Some (r ! 0))) else F k n (r ! 1))) = Some y"
    show "k = h \<longrightarrow> find_symbol h' n c = Some y"
      using e F by (subst find_symbol.simps) (auto simp: heap_read symbol_name split: if_splits sum.splits)
  qed
  then show ?thesis by simp
qed

lemma find_in_package: "find_in_package h nm p = Some r \<Longrightarrow> find_in_package h' nm p = Some r"
  unfolding find_in_package_def heap_get using find_symbol by (auto split: sum.splits)

end

text \<open>The copy that a tape makes of a heap: the same rows, without spare capacity and without host state.\<close>

definition tape_copy :: "heap \<Rightarrow> heap" where
  "tape_copy h = (new_heap False)\<lparr>hvat := (\<lambda>T. \<lparr>trows = trows (hvat h T), tcapacity = tab_size (hvat h T)\<rparr>),
     hbytes := hbytes h, hwords := hwords h, hpins := hpins h, next_pin := next_pin h, hera := hera h\<rparr>"

interpretation copy: same_storage h "tape_copy h" for h
  by unfold_locales (simp_all add: tape_copy_def)

lemma saved_storage:
  assumes "heap_ok h"
  shows "body_storage (saved_body h m entry) = tape_copy h"
proof -
  have "snd (tables_from h (length vat_order)) T = \<lparr>trows = trows (hvat h T), tcapacity = tab_size (hvat h T)\<rparr>" for T
  proof (cases "T \<in> set vat_order")
    case False
    then have "\<not> is_pointer T" by (auto simp: vat_order_def is_pointer_iff)
    then have "trows (hvat h T) = []" using assms by (simp add: heap_ok_def tables_ok_def)
    then show ?thesis using False by (simp add: tables_from_def empty_tab_def tab_size_def)
  qed (simp add: tables_from_def)
  then have "snd (tables_from h (length vat_order)) = (\<lambda>T. \<lparr>trows = trows (hvat h T), tcapacity = tab_size (hvat h T)\<rparr>)"
    by (rule ext)
  then show ?thesis by (simp add: body_storage_def saved_body_def tape_copy_def)
qed

section \<open>Machines with the same saved roots\<close>

definition same_saved :: "machine \<Rightarrow> machine \<Rightarrow> bool" where
  "same_saved m m' \<longleftrightarrow> (\<forall>i < length root_names. saved_get m' i = saved_get m i) \<and> vm_next_key m' = vm_next_key m"

lemma same_saved_roots:
  assumes "same_saved m m'"
  shows "ev_base (vm_ev m') = ev_base (vm_ev m)" "ev_keywords (vm_ev m') = ev_keywords (vm_ev m)" "vm_keys m' = vm_keys m"
    "ev_packages (vm_ev m') = ev_packages (vm_ev m)" "ev_current (vm_ev m') = ev_current (vm_ev m)"
    "vm_nil_name m' = vm_nil_name m" "vm_true_name m' = vm_true_name m"
    "known m' ''PROMPT'' = known m ''PROMPT''" "known m' ''BINDING'' = known m ''BINDING''"
    "known m' ''CONTINUATION'' = known m ''CONTINUATION''" "known m' ''RESUME'' = known m ''RESUME''"
proof -
  have s: "saved_get m' i = saved_get m i" if "i < 18" for i using assms that by (simp add: same_saved_def root_names_def)
  show "ev_base (vm_ev m') = ev_base (vm_ev m)" "ev_keywords (vm_ev m') = ev_keywords (vm_ev m)" "vm_keys m' = vm_keys m"
    "ev_packages (vm_ev m') = ev_packages (vm_ev m)" "ev_current (vm_ev m') = ev_current (vm_ev m)"
    "vm_nil_name m' = vm_nil_name m" "vm_true_name m' = vm_true_name m"
    using s [of 0] s [of 1] s [of 2] s [of 3] s [of 4] s [of 5] s [of 6] by (simp_all add: saved_get_def)
  show "known m' ''PROMPT'' = known m ''PROMPT''" "known m' ''BINDING'' = known m ''BINDING''"
    "known m' ''CONTINUATION'' = known m ''CONTINUATION''" "known m' ''RESUME'' = known m ''RESUME''"
    using s [of 11] s [of 12] s [of 13] s [of 14] by (simp_all add: saved_get_def known_def root_names_def)
qed

lemma check_root_same:
  assumes "same_saved m m'" "i < length root_names"
  shows "check_root (tape_copy h) m' ps i = check_root h m ps i"
proof -
  have "saved_get m' i = saved_get m i" using assms by (simp add: same_saved_def)
  then show ?thesis unfolding check_root_def copy.heap_get copy.slices copy.symbol_name same_saved_roots(1) [OF assms(1)] by simp
qed

lemma segment_same:
  assumes "same_saved m m'"
  shows "boundary_kind m' = boundary_kind m" "segment (tape_copy h) m' = segment h m" "meta (tape_copy h) m' = meta h m"
proof -
  show b: "boundary_kind m' = boundary_kind m" by (simp add: boundary_kind_def fun_eq_iff same_saved_roots [OF assms])
  show "segment (tape_copy h) m' = segment h m" "meta (tape_copy h) m' = meta h m"
    unfolding segment_def meta_def fun_eq_iff copy.heap_get b same_saved_roots [OF assms] by simp_all
qed

lemma control_edges_same:
  assumes "same_saved m m'"
  shows "control_edges (tape_copy h) m' = control_edges h m"
  unfolding control_edges_def fun_eq_iff copy.era copy.heap_read copy.slices segment_same [OF assms] same_saved_roots [OF assms] by simp

lemma check_packages_same:
  assumes "same_saved m m'"
  shows "check_packages (tape_copy h) m' = check_packages h m"
proof -
  have r: "map (check_root (tape_copy h) m' ps) [0..<length root_names] = map (check_root h m ps) [0..<length root_names]" for ps
    using check_root_same [OF assms] by simp
  show ?thesis unfolding check_packages_def proper_def copy.size copy.rows copy.package_rows copy.walk_list copy.settle_list
      copy.list_packages same_saved_roots [OF assms] r ..
qed

lemma check_storage_same:
  assumes "same_saved m m'"
  shows "check_storage (tape_copy h) m' entry = check_storage h m entry"
proof -
  have r: "map (\<lambda>i. check_value h (saved_get m' i)) [0..<length root_names] = map (\<lambda>i. check_value h (saved_get m i)) [0..<length root_names]"
    using assms by (simp add: same_saved_def)
  have c: "check_value (tape_copy h) = check_value h" "check_table (tape_copy h) = check_table h" "check_code (tape_copy h) = check_code h"
    using copy.check_value copy.check_table copy.check_code by blast+
  have k: "vm_next_key m' = vm_next_key m" using assms by (simp add: same_saved_def)
  show ?thesis unfolding check_storage_def copy.size copy.rows copy.pools copy.pins c k r ..
qed

lemma validate_same:
  assumes "same_saved m m'"
  shows "validate (tape_copy h) m' entry = validate h m entry"
proof -
  have "check_control (tape_copy h) m' = check_control h m"
    unfolding check_control_def copy.size copy.era control_edges_same [OF assms] ..
  moreover have "check_links (tape_copy h) m' = check_links h m"
    unfolding check_links_def fun_eq_iff Let_def tab_col_def copy.rows segment_same [OF assms] by simp
  ultimately show ?thesis unfolding validate_def check_storage_same [OF assms] check_packages_same [OF assms] by simp
qed

lemma saved_machine: "same_saved m (tb_machine (saved_body h m entry))"
  by (simp add: same_saved_def saved_body_def roots_from_get)

section \<open>The round trip\<close>

text \<open>Every cached symbol of the machine is the symbol of its name in the base package, as \<^verbatim>\<open>install_known\<close>
  leaves it.\<close>

definition interned_known :: "heap \<Rightarrow> machine \<Rightarrow> bool" where
  "interned_known h m \<longleftrightarrow>
     (\<forall>nm \<in> set known_names. find_in_package h (ascii nm) (ev_base (vm_ev m)) = Some (Inr (Some (known m nm))))"

text \<open>The machine, with the cache of symbols read at the known names only: the source has no others.\<close>

definition known_only :: "machine \<Rightarrow> machine" where
  "known_only m = m\<lparr>vm_ev := (vm_ev m)\<lparr>ev_known := (\<lambda>s. if s \<in> ascii ` set known_names then ev_known (vm_ev m) s else nil)\<rparr>\<rparr>"

definition tape_image :: "heap \<Rightarrow> machine \<Rightarrow> wword \<Rightarrow> image" where
  "tape_image h m entry = \<lparr>im_storage = (freeze_continuations (tape_copy h))\<lparr>hroots := image_roots m entry\<rparr>,
     im_machine = known_only m, im_entry = entry\<rparr>"

text \<open>The last steps of \<^verbatim>\<open>decode\<close> on the restored copy: find or make the cached symbols, freeze the
  continuations and link the roots of the image.\<close>

definition reopened :: "heap \<Rightarrow> machine \<Rightarrow> wword \<Rightarrow> (tape_error + image) option" where
  "reopened h m entry =
     (let m' = (roots_from m (length root_names))\<lparr>vm_next_key := vm_next_key m, vm_collect := vm_collect m\<rparr> in
      case install_known (vm_ev m') (tape_copy h) of
        None \<Rightarrow> None
      | Some (Inl e) \<Rightarrow> Some (Inl (TapeEval e))
      | Some (Inr (ev, h')) \<Rightarrow>
          Some (Inr \<lparr>im_storage = (freeze_continuations h')\<lparr>hroots := image_roots (m'\<lparr>vm_ev := ev\<rparr>) entry\<rparr>,
                     im_machine = m'\<lparr>vm_ev := ev\<rparr>, im_entry = entry\<rparr>))"

lemma intern_known:
  assumes "find_in_package h (ascii nm) (ev_base ev) = Some (Inr (Some x))" "nm \<noteq> ''NIL''" "nm \<noteq> ''T''"
  shows "intern ev (ascii nm) (ev_base ev) h = Some (Inr (x, h))"
  using assms by (simp add: intern_def ascii_inj)

lemma install_known_interned:
  assumes "\<forall>nm \<in> set nms. find_in_package h (ascii nm) (ev_base ev) = Some (Inr (Some (f (ascii nm))))"
    "''NIL'' \<notin> set nms" "''T'' \<notin> set nms"
  shows "install_known_from nms ev h = Some (Inr (ev\<lparr>ev_known := (\<lambda>s. if s \<in> ascii ` set nms then f s else ev_known ev s)\<rparr>, h))"
  using assms
proof (induction nms arbitrary: ev)
  case (Cons nm nms)
  have "intern ev (ascii nm) (ev_base ev) h = Some (Inr (f (ascii nm), h))" using Cons.prems by (intro intern_known) auto
  moreover have "install_known_from nms (ev\<lparr>ev_known := (ev_known ev)(ascii nm := f (ascii nm))\<rparr>) h
    = Some (Inr (ev\<lparr>ev_known := (\<lambda>s. if s \<in> ascii ` set nms then f s else ((ev_known ev)(ascii nm := f (ascii nm))) s)\<rparr>, h))"
    by (subst Cons.IH) (use Cons.prems in \<open>auto cong: if_cong\<close>)
  moreover have "(\<lambda>s. if s \<in> ascii ` set nms then f s else ((ev_known ev)(ascii nm := f (ascii nm))) s)
    = (\<lambda>s. if s \<in> ascii ` set (nm # nms) then f s else ev_known ev s)" by auto
  ultimately show ?case by simp
qed simp

lemma roots_from_known:
  "k \<le> length root_names \<Longrightarrow> s \<notin> ascii ` set (drop 7 root_names) \<Longrightarrow> ev_known (vm_ev (roots_from m k)) s = nil"
proof (induction k)
  case (Suc k)
  have "ascii (root_names ! k) \<noteq> s" if "k \<ge> 7"
  proof -
    have "root_names ! k = drop 7 root_names ! (k - 7)" using that Suc.prems(1) by simp
    then have "root_names ! k \<in> set (drop 7 root_names)" using that Suc.prems(1) by (simp only:) (rule nth_mem, simp)
    then show ?thesis using Suc.prems(2) by blast
  qed
  moreover have "k \<in> {0, 1, 2, 3, 4, 5, 6} \<or> k \<ge> 7" by auto
  ultimately show ?case using Suc by (auto simp: roots_from_Suc saved_set_def Let_def)
qed (simp add: roots_from_def empty_machine_def)

lemma cached_roots_known: "set (drop 7 root_names) \<subseteq> set known_names"
  by (simp add: root_names_def known_names_def)

lemma saved_machine_known:
  fixes h m entry
  defines "m' \<equiv> tb_machine (saved_body h m entry)"
  shows "m'\<lparr>vm_ev := (vm_ev m')\<lparr>ev_known := (\<lambda>s. if s \<in> ascii ` set known_names then ev_known (vm_ev m) s else ev_known (vm_ev m') s)\<rparr>\<rparr>
    = known_only m"
proof -
  have "ev_known (vm_ev m') s = nil" if "s \<notin> ascii ` set known_names" for s
    using roots_from_known [of "length root_names" s m] that cached_roots_known unfolding m'_def saved_body_def by auto
  then have k: "(\<lambda>s. if s \<in> ascii ` set known_names then ev_known (vm_ev m) s else ev_known (vm_ev m') s)
    = (\<lambda>s. if s \<in> ascii ` set known_names then ev_known (vm_ev m) s else nil)" by auto
  have e: "vm_next_key m' = vm_next_key m" "vm_collect m' = vm_collect m" by (simp_all add: m'_def saved_body_def)
  note same_saved_roots [OF saved_machine [of m h entry], folded m'_def]
  then show ?thesis unfolding k known_only_def using e
    by (cases m; cases m'; cases "vm_ev m"; cases "vm_ev m'") simp
qed

lemma image_roots_known: "image_roots (known_only m) entry = image_roots m entry"
proof -
  have "map (known (known_only m)) known_names = map (known m) known_names"
    by (simp add: known_def known_only_def)
  then show ?thesis unfolding image_roots_def by (simp only:) (simp add: known_only_def)
qed

lemma restore_saved:
  assumes ok: "heap_ok h" and v: "validate h m entry = Inr ()"
  shows "restore (saved_body h m entry) = reopened h m entry"
proof -
  have m: "tb_machine (saved_body h m entry) = (roots_from m (length root_names))\<lparr>vm_next_key := vm_next_key m, vm_collect := vm_collect m\<rparr>"
    "tb_entry (saved_body h m entry) = entry" by (simp_all add: saved_body_def)
  have c: "validate (tape_copy h) (tb_machine (saved_body h m entry)) entry = Inr ()"
    using validate_same [OF saved_machine] v by simp
  show ?thesis unfolding restore_def remap_saved [OF v] sum.case saved_storage [OF ok] m(2) c unfolding m(1) reopened_def Let_def ..
qed

lemma known_names_plain: "''NIL'' \<notin> set known_names" "''T'' \<notin> set known_names"
  by (simp_all add: known_names_def)

lemma reopened_interned:
  assumes "interned_known h m"
  shows "reopened h m entry = Some (Inr (tape_image h m entry))"
proof -
  let ?m = "tb_machine (saved_body h m entry)"
  have m: "?m = (roots_from m (length root_names))\<lparr>vm_next_key := vm_next_key m, vm_collect := vm_collect m\<rparr>"
    by (simp add: saved_body_def)
  have "\<forall>nm \<in> set known_names. find_in_package (tape_copy h) (ascii nm) (ev_base (vm_ev ?m)) = Some (Inr (Some (ev_known (vm_ev m) (ascii nm))))"
    using assms copy.find_in_package same_saved_roots(1) [OF saved_machine, of h m entry] by (simp add: interned_known_def known_def)
  from install_known_interned [OF this known_names_plain]
  have "install_known (vm_ev ?m) (tape_copy h) = Some (Inr ((vm_ev ?m)\<lparr>ev_known :=
      (\<lambda>s. if s \<in> ascii ` set known_names then ev_known (vm_ev m) s else ev_known (vm_ev ?m) s)\<rparr>, tape_copy h))"
    unfolding install_known_def .
  then show ?thesis unfolding reopened_def m [symmetric] Let_def tape_image_def
    by (simp add: saved_machine_known image_roots_known)
qed

lemma encoded:
  assumes "encode h m entry = Inr raw"
  obtains body where "validate h m entry = Inr ()" "put_body h m entry = Inr body" "raw = body @ sha256 body"
  using assms by (auto simp: encode_def map_sum_def split: sum.splits)

lemma magic_facts: "length magic = 8" "length compressed_magic = 8" "magic \<noteq> compressed_magic"
  by (simp_all add: magic_def compressed_magic_def ascii_def)

lemma put_body_magic:
  assumes "put_body h m entry = Inr b"
  shows "take 8 b = magic" "length b \<ge> 12"
proof -
  from assms obtain b2 where "b = magic @ put_u32 tape_version @ b2"
    unfolding put_body_def append_Cons by (elim parts_Cons) auto
  then show "take 8 b = magic" "length b \<ge> 12" by (simp_all add: magic_facts)
qed

lemma decode_raw_encoded:
  assumes e: "encode h m entry = Inr raw" and ok: "heap_ok h" and l: "length raw \<le> limit"
  shows "decode_raw limit raw = reopened h m entry" "take 8 raw \<noteq> compressed_magic" "length raw \<ge> 44"
proof -
  obtain body where b: "validate h m entry = Inr ()" "put_body h m entry = Inr body" "raw = body @ sha256 body"
    using encoded [OF e] .
  note r = body_read [OF b(2) ok validated(1) [OF b(1)]]
  note g = put_body_magic [OF b(2)]
  show "length raw \<ge> 44" using g b(3) by simp
  then show "decode_raw limit raw = reopened h m entry"
    using l r restore_saved [OF ok b(1)] b(3) by (simp add: decode_raw_def magic_facts)
  show "take 8 raw \<noteq> compressed_magic" using g b(3) by (simp add: magic_facts)
qed

section \<open>The sample machine is valid\<close>

lemma check_at: "is_pointer T \<Longrightarrow> i < length (minimal_table T) \<Longrightarrow> i < 100 \<Longrightarrow> check_value minimal_heap (row_at T i) = Inr ()"
  using at_fields [of T i] by (simp add: check_value_def)

lemma check_sys: "check_value minimal_heap nil = Inr ()" "check_value minimal_heap nah = Inr ()"
  by (simp_all add: check_value_def is_pointer_iff)

lemma minimal_rows:
  "r \<in> set (minimal_table pkg) \<Longrightarrow> x \<in> set r \<Longrightarrow> check_value minimal_heap x = Inr ()"
  "r \<in> set (minimal_table sym) \<Longrightarrow> x \<in> set r \<Longrightarrow> check_value minimal_heap x = Inr ()"
  "r \<in> set (minimal_table duo) \<Longrightarrow> x \<in> set r \<Longrightarrow> check_value minimal_heap x = Inr ()"
proof -
  have c: "\<And>i. i < 78 \<Longrightarrow> check_value minimal_heap (row_at v08 i) = Inr ()" "\<And>i. i < 3 \<Longrightarrow> check_value minimal_heap (row_at pkg i) = Inr ()"
    "\<And>i. i < 73 \<Longrightarrow> check_value minimal_heap (row_at sym i) = Inr ()" "\<And>i. i < 76 \<Longrightarrow> check_value minimal_heap (row_at duo i) = Inr ()"
    using check_at [of v08] check_at [of pkg] check_at [of sym] check_at [of duo] by simp_all
  show "r \<in> set (minimal_table pkg) \<Longrightarrow> x \<in> set r \<Longrightarrow> check_value minimal_heap x = Inr ()"
    "r \<in> set (minimal_table sym) \<Longrightarrow> x \<in> set r \<Longrightarrow> check_value minimal_heap x = Inr ()"
    "r \<in> set (minimal_table duo) \<Longrightarrow> x \<in> set r \<Longrightarrow> check_value minimal_heap x = Inr ()"
    using c check_sys by (auto simp: minimal_table_def symbol_cell_def split: if_splits)
qed

lemma minimal_lengths_sum: "sum_list (map (\<lambda>r. unat (r ! 1)) (name_slices off nms)) = sum_list (map length nms)"
  if "sum_list (map length nms) < 2 ^ 32"
  using that by (induction nms arbitrary: off) (simp_all add: unat_of_nat)

lemma minimal_table_ok: "check_table minimal_heap T = Inr ()" if "T \<in> set vat_order"
proof -
  have row: "length r = width T \<and> r ! 0 \<noteq> zap \<and> payload_ok T 805 0 r" if "r \<in> set (minimal_table T)" for r
    using minimal_row_ok [OF that] by (simp add: row_ok_def minimal_bytes)
  have z: "\<forall>x \<in> set (tab_col 0 (hvat minimal_heap T)). demand (x \<noteq> zap) ''collector forwarding marker in tape'' = Inr ()"
    using row by (auto simp: tab_col_def)
  show ?thesis
  proof (cases "T = v08")
    case True
    have "\<forall>r \<in> set (minimal_table v08). unat (r ! 0) \<le> 805 \<and> unat (r ! 1) \<le> 805 - unat (r ! 0)"
      using row True by (fastforce simp: payload_ok_def)
    moreover have "sum_list (map (\<lambda>r. unat (r ! 1)) (minimal_table v08)) \<le> 2 ^ 32 - 1"
      using minimal_lengths_sum [of minimal_names 0] name_bytes by (simp add: minimal_table_def)
    ultimately show ?thesis using z True unfolding check_table_def Let_def all_ok_iff by (auto simp: pool_length_def minimal_bytes)
  next
    case False
    have v: "check_value minimal_heap (r ! c) = Inr ()" if r: "r \<in> set (minimal_table T)" "c < width T" for r c
    proof -
      have "r ! c \<in> set r" using row r by simp
      moreover have "T \<in> {pkg, sym, duo}" using False r minimal_table_empty by force
      ultimately show ?thesis using minimal_rows r by blast
    qed
    have "\<not> word_payload T \<or> minimal_table T = []" using minimal_table_empty [of T] by (auto simp: word_payload_def)
    then show ?thesis using z v False unfolding check_table_def Let_def all_ok_iff by (auto simp: tab_col_def)
  qed
qed

lemma minimal_symbol_rows: "r \<in> set (minimal_table sym) \<Longrightarrow> check_symbol r = Inr ()"
  using at_fields(1) [of v08] at_fields(1) [of pkg 0] by (auto simp: minimal_table_def check_symbol_def typed_def demand_def)

lemma root_count: "length root_names = 18"
  by (simp add: root_names_def)

lemma root_index: "i < 18 \<Longrightarrow> 7 \<le> i \<Longrightarrow> \<exists>k < 73. root_names ! i = known_names ! k"
proof -
  assume "i < 18" "7 \<le> i"
  then have "root_names ! i = drop 7 root_names ! (i - 7)" "i - 7 < length (drop 7 root_names)" using root_count by simp_all
  then have "root_names ! i \<in> set (drop 7 root_names)" by (metis nth_mem)
  then have "root_names ! i \<in> set known_names" using cached_roots_known by blast
  then show ?thesis by (metis count_known in_set_conv_nth)
qed

lemma minimal_saved:
  "saved_get minimal_machine 0 = row_at pkg 0" "saved_get minimal_machine 1 = row_at pkg 1" "saved_get minimal_machine 2 = row_at pkg 2"
  "saved_get minimal_machine 3 = row_at duo 75" "saved_get minimal_machine 4 = row_at pkg 0"
  "saved_get minimal_machine 5 = row_at v08 3" "saved_get minimal_machine 6 = row_at v08 4"
  by (simp_all add: saved_get_def minimal_machine_def)

lemma minimal_saved_symbol:
  assumes "i < 18" "7 \<le> i"
  shows "\<exists>k < 73. saved_get minimal_machine i = row_at sym k \<and> root_names ! i = known_names ! k"
  using root_index [OF assms] minimal_known assms(2) by (force simp: saved_get_def)

lemma index_cases: "i < 18 \<Longrightarrow> i \<in> {0, 1, 2, 3, 4, 5, 6} \<or> 7 \<le> i" for i :: nat
  by auto

lemma minimal_roots: "i < 18 \<Longrightarrow> check_value minimal_heap (saved_get minimal_machine i) = Inr ()"
  using index_cases [of i] minimal_saved_symbol [of i] check_at [of v08] check_at [of pkg] check_at [of sym] check_at [of duo]
  by (auto simp: minimal_saved simp del: One_nat_def)

text \<open>The list of the symbols: walking it colours its cells, settling it colours them again.\<close>

lemma recolour: "(replicate i a @ b # xs)[i := a] = replicate (Suc i) a @ xs"
  by (simp add: list_update_append replicate_app_Cons_same)

lemma minimal_walk:
  assumes "i + Suc m = 73"
  shows "walk_list minimal_heap sym (replicate i 1 @ replicate (Suc m) 0 @ rest) (row_at duo i) = Inr (replicate 73 1 @ rest)"
  using assms
proof (induction m arbitrary: i)
  case 0
  then have "Suc i = 73" by simp
  then show ?case using minimal_cell [of i] at_fields [of duo i] at_fields(1) [of sym i] at_not_sys [of duo i] recolour [of i 1 0 rest]
    by (subst walk_list.simps) (simp add: symbol_cell_def nth_append walk_list.simps [of _ _ _ nil])
next
  case (Suc m)
  then have "Suc i < 73" by simp
  then show ?case using Suc.IH [of "Suc i"] Suc.prems minimal_cell [of i] at_fields [of duo i] at_fields(1) [of sym i] at_not_sys [of duo i]
      recolour [of i 1 0 "replicate (Suc m) 0 @ rest"]
    by (subst walk_list.simps) (simp add: symbol_cell_def nth_append)
qed

lemma minimal_settle:
  assumes "i + Suc m = 73"
  shows "settle_list minimal_heap (replicate i 2 @ replicate (Suc m) 1 @ rest) (row_at duo i) = Inr (replicate 73 2 @ rest)"
  using assms
proof (induction m arbitrary: i)
  case 0
  then have i: "Suc i = 73" by simp
  then have "heap_get duo F_cdr (row_at duo i) minimal_heap = Inr nil"
    using minimal_get [of duo i F_cdr 1] by (simp add: minimal_columns) (simp add: minimal_table_def nth_append symbol_cell_def)
  then show ?case using i at_fields [of duo i] at_not_sys [of duo i] recolour [of i 2 1 rest]
    by (subst settle_list.simps) (simp add: nth_append settle_list.simps [of _ _ nil])
next
  case (Suc m)
  then have i: "Suc i < 73" by simp
  then have "heap_get duo F_cdr (row_at duo i) minimal_heap = Inr (row_at duo (Suc i))"
    using minimal_get [of duo i F_cdr 1] by (simp add: minimal_columns) (simp add: minimal_table_def nth_append symbol_cell_def)
  then show ?case using i Suc.IH [of "Suc i"] Suc.prems at_fields [of duo i] at_not_sys [of duo i] recolour [of i 2 1 "replicate (Suc m) 1 @ rest"]
    by (subst settle_list.simps) (simp add: nth_append)
qed

lemma minimal_proper: "proper minimal_heap sym (replicate 76 0) (row_at duo 0) = Inr (replicate 73 2 @ replicate 3 0)"
proof -
  have "replicate 76 (0 :: nat) = replicate 73 0 @ replicate 3 0" by (simp flip: replicate_add)
  then show ?thesis using minimal_walk [of 0 72 "replicate 3 0"] minimal_settle [of 0 72 "replicate 3 0"] by (simp add: proper_def)
qed

lemma proper_nil: "proper h T colors nil = Inr colors"
  by (simp add: proper_def walk_list.simps [of _ _ _ nil] settle_list.simps [of _ _ nil])

lemma minimal_package_rows: "check_package_rows minimal_heap (replicate 76 0) (minimal_table pkg) = Inr ()"
  using minimal_proper at_fields(1) [of v08 0] at_fields(1) [of v08 1] at_fields(1) [of v08 2]
  by (simp add: minimal_table_def typed_def demand_def proper_nil)

lemma minimal_package_cells:
  "heap_read duo (row_at duo 75) minimal_heap = Inr [row_at pkg 2, row_at duo 74]"
  "heap_read duo (row_at duo 74) minimal_heap = Inr [row_at pkg 1, row_at duo 73]"
  "heap_read duo (row_at duo 73) minimal_heap = Inr [row_at pkg 0, nil]"
  using minimal_read [of duo 75] minimal_read [of duo 74] minimal_read [of duo 73] by (simp_all) (simp_all add: minimal_table_def nth_append)

lemma minimal_package_cdrs:
  "heap_get duo F_cdr (row_at duo 75) minimal_heap = Inr (row_at duo 74)" "heap_get duo F_cdr (row_at duo 74) minimal_heap = Inr (row_at duo 73)"
  "heap_get duo F_cdr (row_at duo 73) minimal_heap = Inr nil"
  using minimal_get [of duo 75 F_cdr 1] minimal_get [of duo 74 F_cdr 1] minimal_get [of duo 73 F_cdr 1]
  by (simp_all add: minimal_columns) (simp_all add: minimal_table_def nth_append)

lemma minimal_package_list: "\<not> isl (proper minimal_heap pkg (replicate 76 0) (row_at duo 75))"
proof -
  note f = at_fields [of duo 73] at_fields [of duo 74] at_fields [of duo 75] at_fields(1) [of pkg 0] at_fields(1) [of pkg 1] at_fields(1) [of pkg 2]
    at_not_sys [of duo 73] at_not_sys [of duo 74] at_not_sys [of duo 75]
  show ?thesis using f unfolding proper_def
    by (simp add: walk_list.simps [of _ _ _ "row_at duo i" for i] settle_list.simps [of _ _ "row_at duo i" for i] minimal_package_cells minimal_package_cdrs
        walk_list.simps [of _ _ _ nil] settle_list.simps [of _ _ nil] nth_list_update)
qed

lemma minimal_packages_found: "list_packages minimal_heap [] [] (row_at duo 75) = Inr [row_at pkg 2, row_at pkg 1, row_at pkg 0]"
proof -
  have n: "v08slice (row_at v08 0) minimal_heap = Inr (ascii ''WISP'')" "v08slice (row_at v08 1) minimal_heap = Inr (ascii ''KEYWORD'')"
    "v08slice (row_at v08 2) minimal_heap = Inr (ascii ''KEY'')"
    using minimal_name [of 0] minimal_name [of 1] minimal_name [of 2] by (simp_all add: minimal_names_def)
  have d: "row_at pkg 0 \<noteq> row_at pkg 1" "row_at pkg 0 \<noteq> row_at pkg 2" "row_at pkg 1 \<noteq> row_at pkg 2"
    using at_fields(2) [of pkg 0] at_fields(2) [of pkg 1] at_fields(2) [of pkg 2] by auto
  note nn = at_not_sys [of duo 73] at_not_sys [of duo 74] at_not_sys [of duo 75]
  show ?thesis using nn d n
    by (simp add: list_packages.simps [of _ _ _ "row_at duo i" for i] list_packages.simps [of _ _ _ nil] minimal_package_cells minimal_package(2) ascii_inj
        del: One_nat_def)
qed

lemma minimal_base: "ev_base (vm_ev minimal_machine) = row_at pkg 0"
  by (simp add: minimal_machine_def)

lemma minimal_root_ok: "i < 18 \<Longrightarrow> check_root minimal_heap minimal_machine [row_at pkg 2, row_at pkg 1, row_at pkg 0] i = Inr ()"
proof -
  assume i: "i < 18"
  have n: "v08slice (row_at v08 0) minimal_heap = Inr (ascii ''WISP'')" "v08slice (row_at v08 1) minimal_heap = Inr (ascii ''KEYWORD'')"
    "v08slice (row_at v08 2) minimal_heap = Inr (ascii ''KEY'')" "v08slice (row_at v08 3) minimal_heap = Inr (ascii ''NIL'')"
    "v08slice (row_at v08 4) minimal_heap = Inr (ascii ''T'')"
    using minimal_name [of 0] minimal_name [of 1] minimal_name [of 2] minimal_name [of 3] minimal_name [of 4] by (simp_all add: minimal_names_def)
  have r: "root_names ! 0 = ''WISP''" "root_names ! 1 = ''KEYWORD''" "root_names ! 2 = ''KEY''" by (simp_all add: root_names_def)
  show ?thesis
  proof (cases "7 \<le> i")
    case True
    then obtain k where "k < 73" "saved_get minimal_machine i = row_at sym k" "root_names ! i = known_names ! k"
      using minimal_saved_symbol [OF i] by blast
    then show ?thesis using True minimal_symbol [of k] at_fields(1) [of sym k] by (simp add: check_root_def typed_def demand_def then_check_def Let_def minimal_base)
  next
    case False
    then have "i \<in> {0, 1, 2, 3, 4, 5, 6}" using index_cases [OF i] by blast
    then show ?thesis using n r minimal_package(2) [of 0] minimal_package(2) [of 1] minimal_package(2) [of 2] at_fields(1) [of v08 3] at_fields(1) [of v08 4]
      by (auto simp: check_root_def typed_def demand_def then_check_def minimal_saved simp del: One_nat_def)
  qed
qed

lemma minimal_packages: "check_packages minimal_heap minimal_machine = Inr ()"
proof -
  obtain colors where "proper minimal_heap pkg (replicate 76 0) (row_at duo 75) = Inr colors"
    using minimal_package_list by (cases "proper minimal_heap pkg (replicate 76 0) (row_at duo 75)") auto
  moreover have "ev_packages (vm_ev minimal_machine) = row_at duo 75" "ev_current (vm_ev minimal_machine) = row_at pkg 0"
    by (simp_all add: minimal_machine_def)
  moreover have "length root_names = 18" by (simp add: root_names_def)
  moreover have "\<forall>x \<in> set (map (check_root minimal_heap minimal_machine [row_at pkg 2, row_at pkg 1, row_at pkg 0]) [0..<18]). x = Inr ()"
    using minimal_root_ok by auto
  ultimately show ?thesis using minimal_package_rows minimal_packages_found by (simp add: check_packages_def all_ok_iff demand_def)
qed

lemma minimal_control: "check_control minimal_heap minimal_machine = Inr ()" "check_links minimal_heap minimal_machine T = Inr ()"
  by (simp_all add: check_control_def check_links_def Let_def minimal_table_empty tab_col_def)

lemma minimal_valid: "validate minimal_heap minimal_machine (row_at sym 0) = Inr ()"
proof -
  have r: "length root_names = 18" by (simp add: root_names_def)
  have "check_storage minimal_heap minimal_machine (row_at sym 0) = Inr ()"
    unfolding check_storage_def all_ok_iff minimal_reads r using minimal_table_ok minimal_roots minimal_symbol_rows check_at [of sym 0]
    by (auto simp: minimal_table_empty max_immediate_def) (simp_all add: minimal_machine_def)
  then show ?thesis unfolding validate_def all_ok_iff using minimal_packages minimal_control by auto
qed

lemma minimal_interned_known: "interned_known minimal_heap minimal_machine"
  using minimal_interned by (simp add: interned_known_def known_def)

lemma parts_ok: "\<forall>p \<in> set ps. \<not> isl p \<Longrightarrow> \<not> isl (parts ps)"
  by (induction ps) (auto simp: map_sum_def split: sum.splits)

lemma put_count_ok: "n < 2 ^ 32 \<Longrightarrow> \<not> isl (put_count n)"
  by (simp add: put_count_def)

lemma put_text_ok: "length v < 2 ^ 32 \<Longrightarrow> \<not> isl (put_text v)"
  unfolding put_text_def by (rule parts_ok) (simp add: put_count_ok)

lemma fixed_texts_short:
  "length (field_name F) < 2 ^ 32" "length (kind_name k) < 2 ^ 32" "length (operand_name o') < 2 ^ 32"
  "(nm, c) \<in> set jet_manifest \<Longrightarrow> length nm < 2 ^ 32" "i < length root_names \<Longrightarrow> length (root_names ! i) < 2 ^ 32"
  "(op, nm, os) \<in> set code_operations \<Longrightarrow> length nm < 2 ^ 32 \<and> length os < 2 ^ 32"
proof -
  show "length (field_name F) < 2 ^ 32" by (cases F) (simp_all add: field_name_def ascii_def)
  show "length (kind_name k) < 2 ^ 32" by (cases k) simp_all
  show "length (operand_name o') < 2 ^ 32" by (cases o') simp_all
  have "list_all (\<lambda>(nm, c). length nm < 2 ^ 32) jet_manifest" by (simp add: jet_manifest_def)
  then show "(nm, c) \<in> set jet_manifest \<Longrightarrow> length nm < 2 ^ 32" by (auto simp: list_all_iff)
  have "list_all (\<lambda>nm. length nm < 2 ^ 32) root_names" by (simp add: root_names_def)
  then show "i < length root_names \<Longrightarrow> length (root_names ! i) < 2 ^ 32" by (auto simp: list_all_iff)
  have "list_all (\<lambda>(op, nm, os). length nm < 2 ^ 32 \<and> length os < 2 ^ 32) code_operations" by (simp add: code_operations_def)
  then show "(op, nm, os) \<in> set code_operations \<Longrightarrow> length nm < 2 ^ 32 \<and> length os < 2 ^ 32" by (auto simp: list_all_iff)
qed

lemma fixed_counts: "length root_names = 18" "length jet_manifest < 2 ^ 32" "length code_operations < 2 ^ 32" "length vat_order = 11" "width T \<le> 6"
  by (simp_all add: root_names_def jet_manifest_def code_operations_def vat_order_def) (cases T; simp)

lemma put_body_ok:
  assumes "length (hbytes h) < 2 ^ 32" "length (hwords h) < 2 ^ 32" "length (hpins h) < 2 ^ 32" "\<And>T. tab_size (hvat h T) < 2 ^ 32"
  shows "\<not> isl (put_body h m entry)"
proof -
  have "\<not> isl (put_table h T)" for T
    unfolding put_table_def Let_def
    by (rule parts_ok) (use assms(4) fixed_texts_short(1,2) fixed_counts(5) [of T] in \<open>auto simp: put_count_ok put_text_ok ascii_def\<close>)
  moreover have "\<not> isl (put_operation oper)" if "oper \<in> set code_operations" for oper
  proof (cases oper)
    case (fields op nm os)
    show ?thesis unfolding put_operation_def fields prod.case
      by (rule parts_ok) (use that fields fixed_texts_short(3) fixed_texts_short(6) in \<open>auto simp: put_count_ok put_text_ok ascii_def\<close>)
  qed
  ultimately show ?thesis unfolding put_body_def using assms(1-3) fixed_counts fixed_texts_short
    by (intro parts_ok) (auto simp: put_count_ok put_text_ok ascii_def)
qed

text \<open>A bound for the length of a tape.\<close>

definition at_most :: "nat \<Rightarrow> ('e + 'b list) \<Rightarrow> bool" where
  "at_most K p = (case p of Inl e \<Rightarrow> True | Inr x \<Rightarrow> length x \<le> K)"

lemma at_most_simps [simp]:
  "at_most K (Inr x) = (length x \<le> K)" "4 \<le> K \<Longrightarrow> at_most K (put_count n)"
  by (simp_all add: at_most_def put_count_def)

lemma at_most_text [simp]: "length v + 4 \<le> K \<Longrightarrow> at_most K (put_text v)"
  by (simp add: at_most_def put_text_def put_count_def)

lemma parts_bound: "parts ps = Inr b \<Longrightarrow> \<forall>p \<in> set ps. at_most K p \<Longrightarrow> length b \<le> K * length ps"
proof (induction ps arbitrary: b)
  case (Cons p ps)
  then obtain x c where "p = Inr x" "parts ps = Inr c" "b = x @ c" by (auto simp: map_sum_def split: sum.splits)
  then show ?case using Cons.IH [of c] Cons.prems(2) by fastforce
qed simp

lemma at_most_parts: "\<forall>p \<in> set ps. at_most K p \<Longrightarrow> K * length ps \<le> L \<Longrightarrow> at_most L (parts ps)"
  using parts_bound [of ps _ K] by (cases "parts ps") (force simp: at_most_def)+

lemma text_lengths:
  "length (field_name F) \<le> 100" "length (kind_name k) \<le> 100" "length (operand_name o') \<le> 100"
  "(nm, c) \<in> set jet_manifest \<Longrightarrow> length nm \<le> 100" "i < length root_names \<Longrightarrow> length (root_names ! i) \<le> 100"
  "(op, nm, os) \<in> set code_operations \<Longrightarrow> length nm \<le> 100 \<and> length os \<le> 100"
proof -
  show "length (field_name F) \<le> 100" by (cases F) (simp_all add: field_name_def ascii_def)
  show "length (kind_name k) \<le> 100" by (cases k) simp_all
  show "length (operand_name o') \<le> 100" by (cases o') simp_all
  have "list_all (\<lambda>(nm, c). length nm \<le> 100) jet_manifest" by (simp add: jet_manifest_def)
  then show "(nm, c) \<in> set jet_manifest \<Longrightarrow> length nm \<le> 100" by (auto simp: list_all_iff)
  have "list_all (\<lambda>nm. length nm \<le> 100) root_names" by (simp add: root_names_def)
  then show "i < length root_names \<Longrightarrow> length (root_names ! i) \<le> 100" by (auto simp: list_all_iff)
  have "list_all (\<lambda>(op, nm, os). length nm \<le> 100 \<and> length os \<le> 100) code_operations" by (simp add: code_operations_def)
  then show "(op, nm, os) \<in> set code_operations \<Longrightarrow> length nm \<le> 100 \<and> length os \<le> 100" by (auto simp: list_all_iff)
qed

lemma put_words_length: "length (concat (map put_u32 xs)) = 4 * length xs"
  by (induction xs) simp_all

lemma put_table_length:
  assumes "tab_size (hvat h T) \<le> 100"
  shows "at_most 12000 (put_table h T)"
proof -
  have "length (tab_col c (hvat h T)) \<le> 100" for c using assms by (simp add: tab_col_def tab_size_def)
  moreover have "at_most 400 (put_text (field_name F))" "at_most 400 (put_text (ascii (kind_name k)))" for F k
    using text_lengths(1) [of F] text_lengths(2) [of k] by simp_all
  ultimately show ?thesis unfolding put_table_def Let_def
    using fixed_counts(5) [of T]
    by (intro at_most_parts [where K = 400])
      (auto simp: put_words_length length_concat comp_def case_prod_beta sum_list_triv)
qed

lemma put_operation_length:
  assumes "oper \<in> set code_operations"
  shows "at_most 12000 (put_operation oper)"
proof -
  obtain op nm os where o': "oper = (op, nm, os)" by (cases oper)
  then have "length nm \<le> 100" "length os \<le> 100" using text_lengths(6) [of op nm os] assms by auto
  then show ?thesis unfolding put_operation_def o' prod.case
    using text_lengths(3) by (intro at_most_parts [where K = 104]) auto
qed

lemma put_body_length:
  assumes "put_body h m entry = Inr b" "length (hbytes h) \<le> 12000" "hwords h = []" "hpins h = []" "\<And>T. tab_size (hvat h T) \<le> 100"
  shows "length b \<le> 12000 * 10000"
proof -
  have t: "at_most 12000 (put_text (ascii s))" if "length s \<le> 100" for s using that by simp
  have j: "at_most 12000 (put_text (ascii nm))" if "(nm, c) \<in> set jet_manifest" for nm c using t text_lengths(4) [OF that] .
  have r: "at_most 12000 (put_text (ascii (root_names ! i)))" if "i < length root_names" for i using t text_lengths(5) [OF that] .
  have "at_most (12000 * 10000) (put_body h m entry)" unfolding put_body_def
  proof (rule at_most_parts [where K = 12000], goal_cases)
    case 1
    show ?case using assms(2-5) magic_facts(1) j r put_operation_length put_table_length by auto
  next
    case 2
    show ?case
      by (simp add: length_concat comp_def case_prod_beta sum_list_triv root_count fixed_counts(4))
        (simp add: jet_manifest_def code_operations_def)
  qed
  then show ?thesis using assms(1) by simp
qed

section \<open>The theorem\<close>

text \<open>C13. Saving a machine and loading the tape: let \<^verbatim>\<open>tape::encode\<close>, raw or compressed, succeed on a consistent
  heap, let the saved bytes and the raw tape stay within the limit that \<^verbatim>\<open>tape::decode\<close> is given, and let zlib inflate what
  it deflated.  Then the tape is read and validated without error, and decoding is the caching of the known symbols
  (\<^verbatim>\<open>install_known\<close>) in an exact copy of the storage: the same rows, pools, pins, pin counter and era, the same saved
  roots, key sequence and collection flag (\<^const>\<open>reopened\<close>; that step may add symbols, or fail, when the saved
  machine lacks some).  When the saved machine has every known symbol interned in its base package
  (\<^const>\<open>interned_known\<close>), the result is the exact copy itself with its continuations frozen, the machine and the
  entry.\<close>

theorem tape_roundtrip:
  assumes "heap_ok h" and raw: "encode h m entry = Inr raw"
    and data: "tape_encode deflate compressed h m entry = Inr data"
    and l: "length raw \<le> limit" "length data \<le> limit"
    and zlib: "\<And>y. deflate raw = Some y \<Longrightarrow> inflate (length raw) y = Some (raw, length y)"
  shows "tape_decode inflate limit data = reopened h m entry
    \<and> (interned_known h m \<longrightarrow> tape_decode inflate limit data = Some (Inr (tape_image h m entry)))"
proof -
  note d = decode_raw_encoded [OF raw assms(1) l(1)]
  have "tape_decode inflate limit data = reopened h m entry"
  proof (cases compressed)
    case False
    then have "data = raw" using data raw by (simp add: tape_encode_def)
    then show ?thesis using d by (simp add: tape_decode_def magic_facts)
  next
    case True
    then obtain n y where n: "put_count (length raw) = Inr n" and y: "deflate raw = Some y" "data = compressed_magic @ n @ y"
      using data raw by (auto simp: tape_encode_def split: sum.splits option.splits)
    note c = reads_count [OF n]
    show ?thesis
      using c(1) [unfolded reads_def, rule_format, of y] c(2) y zlib [OF y(1)] l d(1)
      by (simp add: tape_decode_def magic_facts)
  qed
  then show ?thesis using reopened_interned by simp
qed

text \<open>The sample machine, saved raw and compressed, comes back as it was; functions that change nothing stand for
  zlib.\<close>

theorem tape_roundtrip_witness:
  "\<exists>raw data.
     tape_encode Some False minimal_heap minimal_machine (row_at sym 0) = Inr raw
   \<and> tape_decode (\<lambda>n y. Some (take n y, n)) (2 * length data) raw = Some (Inr (tape_image minimal_heap minimal_machine (row_at sym 0)))
   \<and> tape_encode Some True minimal_heap minimal_machine (row_at sym 0) = Inr data
   \<and> tape_decode (\<lambda>n y. Some (take n y, n)) (2 * length data) data = Some (Inr (tape_image minimal_heap minimal_machine (row_at sym 0)))"
proof -
  let ?e = "row_at sym 0" and ?inflate = "\<lambda>n y. Some (take n y, n)"
  have "\<not> isl (put_body minimal_heap minimal_machine ?e)"
  proof (rule put_body_ok)
    show "tab_size (hvat minimal_heap T) < 2 ^ 32" for T by (cases "T \<in> {v08, pkg, sym, duo}") (auto simp: minimal_table_empty)
  qed (simp_all add: minimal_bytes)
  then obtain raw where e: "encode minimal_heap minimal_machine ?e = Inr raw"
    using minimal_valid by (cases "put_body minimal_heap minimal_machine ?e") (simp_all add: encode_def)
  have "length raw < 2 ^ 32"
  proof -
    obtain body where b: "put_body minimal_heap minimal_machine ?e = Inr body" "raw = body @ sha256 body" using encoded [OF e] by metis
    have "tab_size (hvat minimal_heap T) \<le> 100" for T by (cases "T \<in> {v08, pkg, sym, duo}") (auto simp: minimal_table_empty)
    then have "length body \<le> 12000 * 10000" by (intro put_body_length [OF b(1)]) (simp_all add: minimal_bytes)
    then show ?thesis using b(2) by simp
  qed
  then obtain n where n: "put_count (length raw) = Inr n" "length n = 4" by (auto simp: put_count_def)
  let ?data = "compressed_magic @ n @ raw"
  have f: "tape_encode Some False minimal_heap minimal_machine ?e = Inr raw" "tape_encode Some True minimal_heap minimal_machine ?e = Inr ?data"
    using e n by (simp_all add: tape_encode_def)
  have l: "length raw \<le> 2 * length ?data" "length ?data \<le> 2 * length ?data" by simp_all
  have z: "Some raw = Some y \<Longrightarrow> ?inflate (length raw) y = Some (raw, length y)" for y by simp
  show ?thesis
    using tape_roundtrip [where deflate = Some and inflate = ?inflate, OF minimal_heap_ok e f(1) l(1) l(1) z]
      tape_roundtrip [where deflate = Some and inflate = ?inflate, OF minimal_heap_ok e f(2) l z]
      minimal_interned_known f by blast
qed

end
