(* ===== verification/Raster.thy ===== *)
theory Raster
  imports Utf8
begin

text \<open>
  The cell grid of the terminal interface: colours and emphasis (\<^verbatim>\<open>nxtui/style.hpp\<close>), the table of glyphs
  (\<^verbatim>\<open>nxtui/glyph-table.cpp\<close>), the raster and its windows (\<^verbatim>\<open>nxtui/raster.cpp\<close>) and the runs of changed cells
  between two frames (\<^verbatim>\<open>nxtui/raster-diff.hpp\<close>).  A window holds no cells: it is an offset and a stride into
  the four arrays of its raster, which every drawing operation takes and returns.
\<close>

section \<open>Model: colours and emphasis\<close>

type_synonym Rgba8 = u32
type_synonym Emphasis = "8 word"

definition rgba8 :: "byte \<Rightarrow> byte \<Rightarrow> byte \<Rightarrow> byte \<Rightarrow> Rgba8" where
  "rgba8 r g b a = ucast r OR push_bit 8 (ucast g) OR push_bit 16 (ucast b) OR push_bit 24 (ucast a)"

definition terminal_default :: Rgba8 where "terminal_default = 0x00000100"

definition palette :: "byte \<Rightarrow> Rgba8" where "palette index = ucast index"

definition transparent :: Rgba8 where "transparent = 0x00000200"

definition is_true_color :: "Rgba8 \<Rightarrow> bool" where "is_true_color c \<longleftrightarrow> drop_bit 24 c > 0"

definition is_palette :: "Rgba8 \<Rightarrow> bool" where "is_palette c \<longleftrightarrow> c \<le> 0xff"

definition is_terminal_default :: "Rgba8 \<Rightarrow> bool" where "is_terminal_default c \<longleftrightarrow> c = 0x00000100"

definition is_transparent :: "Rgba8 \<Rightarrow> bool" where "is_transparent c \<longleftrightarrow> c = 0x00000200"

definition palette_index :: "Rgba8 \<Rightarrow> byte" where "palette_index c = ucast (c AND 0xff)"

definition to_rgb :: "Rgba8 \<Rightarrow> byte \<times> byte \<times> byte" where
  "to_rgb c = (ucast (c AND 0xff), ucast (drop_bit 8 c AND 0xff), ucast (drop_bit 16 c AND 0xff))"

definition has_emphasis :: "Emphasis \<Rightarrow> Emphasis \<Rightarrow> bool" where
  "has_emphasis s flag \<longleftrightarrow> s AND flag \<noteq> 0"

abbreviation DEFAULT_COLOR :: Rgba8 where "DEFAULT_COLOR \<equiv> terminal_default"
abbreviation DEFAULT_EMPHASIS :: Emphasis where "DEFAULT_EMPHASIS \<equiv> 0"

record Style =
  st_fg :: Rgba8
  st_bg :: Rgba8
  st_em :: Emphasis

definition style_or :: "Style \<Rightarrow> Style \<Rightarrow> Style" where
  "style_or s other =
     \<lparr>st_fg = (if st_fg other \<noteq> DEFAULT_COLOR then st_fg other else st_fg s),
      st_bg = (if st_bg other \<noteq> DEFAULT_COLOR then st_bg other else st_bg s),
      st_em = st_em s OR st_em other\<rparr>"

section \<open>Model: the glyph table\<close>

type_synonym glyph_id = u32

record GlyphTable =
  gt_glyphs :: "bytes list"
  gt_table :: "bytes \<rightharpoonup> glyph_id"

datatype glyph_error = GlyphTooLong | InvalidGlyphId

definition init_ascii :: "GlyphTable \<Rightarrow> GlyphTable" where
  "init_ascii t = fold (\<lambda>i t. \<lparr>gt_glyphs = gt_glyphs t @ [[of_nat i]],
     gt_table = (if [of_nat i] \<in> dom (gt_table t) then gt_table t else (gt_table t)([of_nat i] \<mapsto> of_nat i))\<rparr>) [0..<256] t"

definition new_glyph_table :: GlyphTable where
  "new_glyph_table = init_ascii \<lparr>gt_glyphs = [], gt_table = (\<lambda>_. None)\<rparr>"

definition gt_intern :: "bytes \<Rightarrow> GlyphTable \<Rightarrow> glyph_error + glyph_id \<times> GlyphTable" where
  "gt_intern bs t =
     (if length bs = 1 then Inr (ucast (bs ! 0), t)
      else case gt_table t bs of
        Some i \<Rightarrow> Inr (i, t)
      | None \<Rightarrow>
          if length bs > 255 then Inl GlyphTooLong
          else let gs = gt_glyphs t @ [bs]; i = of_nat (length gs - 1)
               in Inr (i, \<lparr>gt_glyphs = gs, gt_table = (gt_table t)(bs \<mapsto> i)\<rparr>))"

definition gt_get :: "glyph_id \<Rightarrow> GlyphTable \<Rightarrow> bytes option" where
  "gt_get i t = (if unat i \<ge> length (gt_glyphs t) then None else Some (gt_glyphs t ! unat i))"

definition gt_index :: "glyph_id \<Rightarrow> GlyphTable \<Rightarrow> glyph_error + bytes" where
  "gt_index i t = (case gt_get i t of Some bs \<Rightarrow> Inr bs | None \<Rightarrow> Inl InvalidGlyphId)"

definition gt_size :: "GlyphTable \<Rightarrow> nat" where
  "gt_size t = length (gt_glyphs t)"

definition gt_clear :: "GlyphTable \<Rightarrow> GlyphTable" where
  "gt_clear t = init_ascii \<lparr>gt_glyphs = [], gt_table = (\<lambda>_. None)\<rparr>"

section \<open>Model: the raster\<close>

record Raster =
  ra_width :: nat
  ra_height :: nat
  ra_glyphs :: "glyph_id list"
  ra_fgs :: "Rgba8 list"
  ra_bgs :: "Rgba8 list"
  ra_ems :: "Emphasis list"

definition new_raster :: "nat \<Rightarrow> nat \<Rightarrow> Raster" where
  "new_raster width height =
     \<lparr>ra_width = width, ra_height = height, ra_glyphs = replicate (width * height) 32,
      ra_fgs = replicate (width * height) DEFAULT_COLOR, ra_bgs = replicate (width * height) DEFAULT_COLOR,
      ra_ems = replicate (width * height) DEFAULT_EMPHASIS\<rparr>"

definition raster_clear :: "Raster \<Rightarrow> Raster" where
  "raster_clear r = r\<lparr>ra_glyphs := replicate (length (ra_glyphs r)) 32,
     ra_fgs := replicate (length (ra_fgs r)) DEFAULT_COLOR, ra_bgs := replicate (length (ra_bgs r)) DEFAULT_COLOR,
     ra_ems := replicate (length (ra_ems r)) DEFAULT_EMPHASIS\<rparr>"

record Cell =
  c_glyph :: glyph_id
  c_fg :: Rgba8
  c_bg :: Rgba8
  c_em :: Emphasis

text \<open>A strided window: the cell at row \<open>y\<close> and column \<open>x\<close> is number \<open>offset + y * stride + x\<close> of the arrays.\<close>

record RasterView =
  v_offset :: nat
  v_rows :: nat
  v_cols :: nat
  v_stride :: nat

definition raster_view :: "Raster \<Rightarrow> RasterView" where
  "raster_view r = \<lparr>v_offset = 0, v_rows = ra_height r, v_cols = ra_width r, v_stride = ra_width r\<rparr>"

definition v_index :: "RasterView \<Rightarrow> nat \<Rightarrow> nat \<Rightarrow> nat" where
  "v_index v y x = v_offset v + y * v_stride v + x"

definition submdspan :: "RasterView \<Rightarrow> nat \<times> nat \<Rightarrow> nat \<times> nat \<Rightarrow> RasterView" where
  "submdspan v rows cols = v\<lparr>v_offset := v_index v (fst rows) (fst cols),
     v_rows := sz_sub (snd rows) (fst rows), v_cols := sz_sub (snd cols) (fst cols)\<rparr>"

definition subraster :: "RasterView \<Rightarrow> nat \<times> nat \<Rightarrow> nat \<times> nat \<Rightarrow> RasterView" where
  "subraster v origin extent =
     (let (x, y) = origin; (w, h) = extent;
          x0 = min x (v_cols v); y0 = min y (v_rows v);
          x1 = min (sz_add x w) (v_cols v); y1 = min (sz_add y h) (v_rows v)
      in submdspan v (y0, y1) (x0, x1))"

definition set_glyph :: "RasterView \<Rightarrow> nat \<times> nat \<Rightarrow> glyph_id \<Rightarrow> Raster \<Rightarrow> Raster" where
  "set_glyph v pos gid r =
     (let (x, y) = pos in
      if x \<ge> v_cols v \<or> y \<ge> v_rows v then r else r\<lparr>ra_glyphs := (ra_glyphs r)[v_index v y x := gid]\<rparr>)"

definition set_fg :: "RasterView \<Rightarrow> nat \<times> nat \<Rightarrow> Rgba8 \<Rightarrow> Raster \<Rightarrow> Raster" where
  "set_fg v pos color r =
     (let (x, y) = pos in
      if x \<ge> v_cols v \<or> y \<ge> v_rows v then r else r\<lparr>ra_fgs := (ra_fgs r)[v_index v y x := color]\<rparr>)"

definition set_bg :: "RasterView \<Rightarrow> nat \<times> nat \<Rightarrow> Rgba8 \<Rightarrow> Raster \<Rightarrow> Raster" where
  "set_bg v pos color r =
     (let (x, y) = pos in
      if x \<ge> v_cols v \<or> y \<ge> v_rows v then r else r\<lparr>ra_bgs := (ra_bgs r)[v_index v y x := color]\<rparr>)"

definition set_em :: "RasterView \<Rightarrow> nat \<times> nat \<Rightarrow> Emphasis \<Rightarrow> Raster \<Rightarrow> Raster" where
  "set_em v pos em r =
     (let (x, y) = pos in
      if x \<ge> v_cols v \<or> y \<ge> v_rows v then r else r\<lparr>ra_ems := (ra_ems r)[v_index v y x := em]\<rparr>)"

definition set_char :: "RasterView \<Rightarrow> nat \<times> nat \<Rightarrow> byte \<Rightarrow> Raster \<Rightarrow> Raster" where
  "set_char v pos c r = set_glyph v pos (scast c) r"

definition cell_of :: "Raster \<Rightarrow> nat \<Rightarrow> Cell" where
  "cell_of r i = \<lparr>c_glyph = ra_glyphs r ! i, c_fg = ra_fgs r ! i, c_bg = ra_bgs r ! i, c_em = ra_ems r ! i\<rparr>"

definition get_cell :: "RasterView \<Rightarrow> nat \<times> nat \<Rightarrow> Raster \<Rightarrow> Cell option" where
  "get_cell v pos r =
     (let (x, y) = pos in if x \<ge> v_cols v \<or> y \<ge> v_rows v then None else Some (cell_of r (v_index v y x)))"

text \<open>\<^verbatim>\<open>write_text\<close>: the cells after the first of a wide cluster hold the empty glyph.\<close>

fun write_tail :: "RasterView \<Rightarrow> nat \<Rightarrow> nat \<Rightarrow> nat list \<Rightarrow> Raster \<times> GlyphTable \<Rightarrow> glyph_error + Raster \<times> GlyphTable" where
  "write_tail v y col [] s = Inr s"
| "write_tail v y col (dx # dxs) (r, t) =
     (case gt_intern [] t of
        Inl e \<Rightarrow> Inl e
      | Inr (gid, t') \<Rightarrow> write_tail v y col dxs (r\<lparr>ra_glyphs := (ra_glyphs r)[v_index v y (col + dx) := gid]\<rparr>, t'))"

function write_loop :: "Unicode \<Rightarrow> RasterView \<Rightarrow> nat \<Rightarrow> bytes \<Rightarrow> nat \<Rightarrow> nat \<Rightarrow> Raster \<times> GlyphTable
    \<Rightarrow> glyph_error + nat \<times> Raster \<times> GlyphTable" where
  "write_loop U v y str i col s =
     (if i < length str \<and> col < v_cols v then
        let cluster_end = utf8_next U str i;
            glyph_bytes = substr str i (cluster_end - i);
            cell_width = cluster_width U glyph_bytes
        in if cell_width > v_cols v - col then Inr (col, s)
           else case gt_intern glyph_bytes (snd s) of
             Inl e \<Rightarrow> Inl e
           | Inr (gid, t) \<Rightarrow>
               (case write_tail v y col [1..<cell_width] ((fst s)\<lparr>ra_glyphs := (ra_glyphs (fst s))[v_index v y col := gid]\<rparr>, t) of
                  Inl e \<Rightarrow> Inl e
                | Inr s' \<Rightarrow> write_loop U v y str cluster_end (col + cell_width) s')
      else Inr (col, s))"
  by auto
termination
  by (relation "measure (\<lambda>(U, v, y, str, i, col, s). length str - i)") (auto intro: next_measure)

declare write_loop.simps [simp del]

definition write_text :: "Unicode \<Rightarrow> RasterView \<Rightarrow> nat \<times> nat \<Rightarrow> bytes \<Rightarrow> Raster \<times> GlyphTable \<Rightarrow> glyph_error + nat \<times> Raster \<times> GlyphTable" where
  "write_text U v pos str s =
     (let (x, y) = pos in if y \<ge> v_rows v then Inr (x, s) else write_loop U v y str 0 x s)"

section \<open>Model: changed runs\<close>

record RawChange =
  rc_origin :: "nat \<times> nat"
  rc_glyphs :: "glyph_id list"
  rc_fg :: Rgba8
  rc_bg :: Rgba8
  rc_em :: Emphasis

record ChangeRun =
  cr_origin :: "nat \<times> nat"
  cr_glyphs :: "glyph_id list"
  cr_fg_change :: "Rgba8 option"
  cr_bg_change :: "Rgba8 option"
  cr_em_change :: "Emphasis option"
  cr_fg_reset :: bool
  cr_bg_reset :: bool
  cr_em_reset :: bool

record StyleState =
  ss_fg :: "Rgba8 option"
  ss_bg :: "Rgba8 option"
  ss_em :: "Emphasis option"

definition style_step :: "StyleState \<Rightarrow> RawChange \<Rightarrow> ChangeRun \<times> StyleState" where
  "style_step s raw =
     (let run = \<lparr>cr_origin = rc_origin raw, cr_glyphs = rc_glyphs raw, cr_fg_change = None, cr_bg_change = None,
            cr_em_change = None, cr_fg_reset = False, cr_bg_reset = False, cr_em_reset = False\<rparr>;
          (run, s) =
            (if is_terminal_default (rc_fg raw) \<and> ss_fg s \<noteq> None then (run\<lparr>cr_fg_reset := True\<rparr>, s\<lparr>ss_fg := None\<rparr>)
             else if \<not> is_terminal_default (rc_fg raw) \<and> Some (rc_fg raw) \<noteq> ss_fg s
             then (run\<lparr>cr_fg_change := Some (rc_fg raw)\<rparr>, s\<lparr>ss_fg := Some (rc_fg raw)\<rparr>) else (run, s));
          (run, s) =
            (if is_terminal_default (rc_bg raw) \<and> ss_bg s \<noteq> None then (run\<lparr>cr_bg_reset := True\<rparr>, s\<lparr>ss_bg := None\<rparr>)
             else if \<not> is_terminal_default (rc_bg raw) \<and> Some (rc_bg raw) \<noteq> ss_bg s
             then (run\<lparr>cr_bg_change := Some (rc_bg raw)\<rparr>, s\<lparr>ss_bg := Some (rc_bg raw)\<rparr>) else (run, s));
          run = (case ss_em s of Some em \<Rightarrow> if em AND rc_em raw \<noteq> em then run\<lparr>cr_em_reset := True\<rparr> else run | None \<Rightarrow> run);
          run = (if rc_em raw \<noteq> 0 \<and> Some (rc_em raw) \<noteq> ss_em s then run\<lparr>cr_em_change := Some (rc_em raw)\<rparr> else run)
      in (run, s\<lparr>ss_em := (if rc_em raw = 0 then None else Some (rc_em raw))\<rparr>))"

text \<open>A row as indexed cells; \<^verbatim>\<open>IndexedCell\<close> compares all but the column.\<close>

type_synonym indexed_cell = "nat \<times> Cell"

definition raster_row :: "Raster \<Rightarrow> nat \<Rightarrow> indexed_cell list" where
  "raster_row r y = map (\<lambda>x. (x, cell_of r (v_index (raster_view r) y x))) [0..<ra_width r]"

definition glyph_span :: "Raster \<Rightarrow> nat \<Rightarrow> nat \<Rightarrow> nat \<Rightarrow> glyph_id list" where
  "glyph_span r y x len = take len (drop (y * ra_width r + x) (ra_glyphs r))"

definition zip_rows :: "Raster \<Rightarrow> Raster \<Rightarrow> (nat \<times> (indexed_cell \<times> indexed_cell) list) list" where
  "zip_rows front back = map (\<lambda>y. (y, zip (raster_row front y) (raster_row back y))) [0..<ra_height back]"

definition is_changed :: "indexed_cell \<times> indexed_cell \<Rightarrow> bool" where
  "is_changed pair \<longleftrightarrow> snd (fst pair) \<noteq> snd (snd pair)"

definition same_run :: "indexed_cell \<times> indexed_cell \<Rightarrow> indexed_cell \<times> indexed_cell \<Rightarrow> bool" where
  "same_run a b \<longleftrightarrow> is_changed a = is_changed b \<and> c_fg (snd (snd a)) = c_fg (snd (snd b))
     \<and> c_bg (snd (snd a)) = c_bg (snd (snd b)) \<and> c_em (snd (snd a)) = c_em (snd (snd b))"

text \<open>\<^verbatim>\<open>std::views::chunk_by\<close>: a new chunk wherever two neighbours are not related.\<close>

fun chunk_by :: "('a \<Rightarrow> 'a \<Rightarrow> bool) \<Rightarrow> 'a list \<Rightarrow> 'a list list" where
  "chunk_by R [] = []"
| "chunk_by R [x] = [[x]]"
| "chunk_by R (x # y # xs) =
     (if R x y then (case chunk_by R (y # xs) of c # cs \<Rightarrow> (x # c) # cs | [] \<Rightarrow> [[x]]) else [x] # chunk_by R (y # xs))"

definition row_changes :: "nat \<Rightarrow> (indexed_cell \<times> indexed_cell) list \<Rightarrow> Raster \<Rightarrow> RawChange list" where
  "row_changes y cells back =
     map (\<lambda>chunk. let (col, cell) = snd (hd chunk) in
            \<lparr>rc_origin = (col, y), rc_glyphs = glyph_span back y col (length chunk),
             rc_fg = c_fg cell, rc_bg = c_bg cell, rc_em = c_em cell\<rparr>)
       (filter (\<lambda>chunk. is_changed (hd chunk)) (chunk_by same_run cells))"

definition raw_changes :: "Raster \<Rightarrow> Raster \<Rightarrow> RawChange list" where
  "raw_changes front back = concat (map (\<lambda>(y, cells). row_changes y cells back) (zip_rows front back))"

fun diff_from :: "StyleState \<Rightarrow> RawChange list \<Rightarrow> ChangeRun list" where
  "diff_from s [] = []"
| "diff_from s (raw # raws) = (let (run, s') = style_step s raw in run # diff_from s' raws)"

definition diff_rasters :: "Raster \<Rightarrow> Raster \<Rightarrow> ChangeRun list" where
  "diff_rasters front back = diff_from \<lparr>ss_fg = None, ss_bg = None, ss_em = None\<rparr> (raw_changes front back)"

section \<open>The glyph table keeps what it is given\<close>

text \<open>The text of a cell; an id that the table does not know has none.\<close>

definition glyph_text :: "GlyphTable \<Rightarrow> glyph_id \<Rightarrow> bytes" where
  "glyph_text t gid = (case gt_get gid t of Some str \<Rightarrow> str | None \<Rightarrow> [])"

definition gt_ok :: "GlyphTable \<Rightarrow> bool" where
  "gt_ok t \<longleftrightarrow> 256 \<le> gt_size t \<and> gt_size t \<le> 2 ^ 32 \<and> distinct (gt_glyphs t) \<and> (\<forall>i < 256. gt_glyphs t ! i = [of_nat i])
     \<and> (\<forall>bs i. gt_table t bs = Some i \<longleftrightarrow> unat i < gt_size t \<and> gt_glyphs t ! unat i = bs)"

lemma glyph_text_nth: "unat i < gt_size t \<Longrightarrow> glyph_text t i = gt_glyphs t ! unat i"
  by (simp add: glyph_text_def gt_get_def gt_size_def)

lemma init_ascii_from:
  assumes "n \<le> 256"
  shows "fold (\<lambda>i t. \<lparr>gt_glyphs = gt_glyphs t @ [[of_nat i]],
     gt_table = (if [of_nat i] \<in> dom (gt_table t) then gt_table t else (gt_table t)([of_nat i] \<mapsto> of_nat i))\<rparr>) [0..<n]
       \<lparr>gt_glyphs = [], gt_table = (\<lambda>_. None)\<rparr>
    = \<lparr>gt_glyphs = map (\<lambda>i. [of_nat i]) [0..<n],
       gt_table = (\<lambda>bs. case bs of [b] \<Rightarrow> if unat b < n then Some (ucast b) else None | _ \<Rightarrow> None)\<rparr>"
  using assms
proof (induction n)
  case 0
  have "(\<lambda>bs :: bytes. case bs of [b] \<Rightarrow> if unat b < 0 then Some (ucast b :: u32) else None | _ \<Rightarrow> None) = (\<lambda>_. None)"
    by (auto split: list.split)
  then show ?case by simp
next
  case (Suc n)
  have u: "unat (of_nat n :: byte) = n" using Suc.prems by (simp add: unat_of_nat)
  have b: "unat b < Suc n \<longleftrightarrow> unat b < n \<or> b = of_nat n" for b :: byte
    using u by (metis less_Suc_eq word_unat_eq_iff)
  have "unat (ucast (of_nat n :: byte) :: u32) = unat (of_nat n :: u32)"
    using u Suc.prems by (simp add: unat_ucast_byte unat_of_nat)
  then have "(ucast (of_nat n :: byte) :: u32) = of_nat n" by (simp add: word_unat_eq_iff)
  then have "(\<lambda>bs :: bytes. case bs of [b] \<Rightarrow> if unat b < n then Some (ucast b :: u32) else None | _ \<Rightarrow> None)([of_nat n] \<mapsto> of_nat n)
    = (\<lambda>bs. case bs of [b] \<Rightarrow> if unat b < Suc n then Some (ucast b) else None | _ \<Rightarrow> None)"
    by (auto simp: fun_eq_iff b split: list.splits)
  then show ?case using Suc u by (auto simp: dom_def)
qed

lemma new_glyph_table_eq:
  "new_glyph_table = \<lparr>gt_glyphs = map (\<lambda>i. [of_nat i]) [0..<256], gt_table = (\<lambda>bs. case bs of [b] \<Rightarrow> Some (ucast b) | _ \<Rightarrow> None)\<rparr>"
proof -
  have "unat b < 256" for b :: byte using unsigned_less [of b] by simp
  then show ?thesis unfolding new_glyph_table_def init_ascii_def init_ascii_from [OF order_refl] by simp
qed

lemma new_glyph_table_ok: "gt_ok new_glyph_table"
proof -
  have "inj_on (\<lambda>i. [of_nat i :: byte]) {0..<256}" by (rule inj_on_inverseI [of _ "\<lambda>bs. unat (hd bs)"]) (simp add: unat_of_nat)
  moreover have "(case bs of [b] \<Rightarrow> Some (ucast b :: u32) | _ \<Rightarrow> None) = Some i \<longleftrightarrow> unat i < 256 \<and> [of_nat (unat i)] = bs"
    for bs :: bytes and i
  proof (cases "\<exists>b. bs = [b]")
    case True
    then obtain b where b: "bs = [b]" ..
    have "unat b < 256" using unsigned_less [of b] by simp
    then have "ucast b = i \<longleftrightarrow> unat i < 256 \<and> of_nat (unat i) = b"
      by (auto simp: word_unat_eq_iff unsigned_ucast_eq take_bit_eq_mod)
    then show ?thesis by (simp add: b)
  qed (auto split: list.split)
  ultimately show ?thesis by (auto simp: gt_ok_def new_glyph_table_eq gt_size_def distinct_map)
qed

lemma gt_okD:
  assumes "gt_ok t"
  shows "256 \<le> gt_size t" "gt_size t \<le> 2 ^ 32" "distinct (gt_glyphs t)" "i < 256 \<Longrightarrow> gt_glyphs t ! i = [of_nat i]"
    "gt_table t bs = Some j \<longleftrightarrow> unat j < gt_size t \<and> gt_glyphs t ! unat j = bs"
  using assms by (simp_all add: gt_ok_def)

lemma gt_table_None: "gt_ok t \<Longrightarrow> gt_table t bs = None \<longleftrightarrow> bs \<notin> set (gt_glyphs t)"
proof -
  assume ok: "gt_ok t"
  have "\<exists>j. gt_table t bs = Some j" if m: "bs \<in> set (gt_glyphs t)"
  proof -
    obtain k where k: "k < gt_size t" "gt_glyphs t ! k = bs" using m by (auto simp: in_set_conv_nth gt_size_def)
    have "unat (of_nat k :: u32) = k" using k(1) gt_okD(2) [OF ok] by (simp add: unat_of_nat)
    then show ?thesis using gt_okD(5) [OF ok] k by metis
  qed
  moreover have "bs \<in> set (gt_glyphs t)" if "gt_table t bs = Some j" for j
    using that gt_okD(5) [OF ok] by (auto simp: gt_size_def)
  ultimately show ?thesis by (cases "gt_table t bs") auto
qed

lemma gt_intern_spec:
  assumes ok: "gt_ok t" and n: "gt_size t < 2 ^ 32" and i: "gt_intern bs t = Inr (i, t')"
  shows "gt_ok t'" "unat i < gt_size t'" "glyph_text t' i = bs" "gt_size t \<le> gt_size t'" "gt_size t' \<le> Suc (gt_size t)"
    "\<And>j. unat j < gt_size t \<Longrightarrow> glyph_text t' j = glyph_text t j"
proof -
  consider (one) "length bs = 1" "i = ucast (bs ! 0)" "t' = t" | (known) "gt_table t bs = Some i" "t' = t"
    | (new) "length bs \<noteq> 1" "gt_table t bs = None" "i = of_nat (gt_size t)"
        "t' = \<lparr>gt_glyphs = gt_glyphs t @ [bs], gt_table = (gt_table t)(bs \<mapsto> i)\<rparr>"
  proof (cases "length bs = 1")
    case True
    then show thesis using i by (intro one) (simp_all add: gt_intern_def)
  next
    case False
    show thesis
    proof (cases "gt_table t bs")
      case None
      show thesis by (rule new [OF False None]) (use i False None in \<open>auto simp: gt_intern_def gt_size_def Let_def split: if_splits\<close>)
    next
      case (Some k)
      show thesis by (rule known) (use i False Some in \<open>auto simp: gt_intern_def\<close>)
    qed
  qed
  then have "gt_ok t' \<and> unat i < gt_size t' \<and> glyph_text t' i = bs \<and> gt_size t \<le> gt_size t' \<and> gt_size t' \<le> Suc (gt_size t)
    \<and> (\<forall>j. unat j < gt_size t \<longrightarrow> glyph_text t' j = glyph_text t j)"
  proof cases
    case one
    obtain b where b: "bs = [b]" using one(1) by (cases bs) auto
    have "unat i = unat b" using one b by (simp add: unat_ucast_byte)
    moreover have "unat b < 256" using unsigned_less [of b] by simp
    ultimately show ?thesis using ok one(3) b gt_okD(1) [OF ok] gt_okD(4) [OF ok, of "unat b"] by (simp add: glyph_text_nth)
  next
    case known
    then show ?thesis using ok gt_okD(5) [OF ok] by (simp add: glyph_text_nth)
  next
    case new
    have u: "unat i = gt_size t" using n by (simp add: new(3) unat_of_nat)
    have fresh: "bs \<notin> set (gt_glyphs t)" using gt_table_None [OF ok] new(2) by blast
    have tab: "gt_table t' b = Some j \<longleftrightarrow> unat j < gt_size t' \<and> gt_glyphs t' ! unat j = b" for b j
    proof (cases "b = bs")
      case True
      have "unat j < Suc (gt_size t) \<and> (gt_glyphs t @ [bs]) ! unat j = bs \<longleftrightarrow> unat j = gt_size t"
        using fresh by (auto simp: nth_append gt_size_def less_Suc_eq)
      then show ?thesis using True u by (auto simp: new(4) gt_size_def word_unat_eq_iff)
    next
      case False
      have "unat j < Suc (gt_size t) \<and> (gt_glyphs t @ [bs]) ! unat j = b \<longleftrightarrow> unat j < gt_size t \<and> gt_glyphs t ! unat j = b"
        using False by (auto simp: nth_append gt_size_def less_Suc_eq)
      then show ?thesis using False gt_okD(5) [OF ok, of b j] by (simp add: new(4) gt_size_def)
    qed
    have sz: "gt_size t' = Suc (gt_size t)" by (simp add: new(4) gt_size_def)
    have g: "gt_glyphs t' = gt_glyphs t @ [bs]" by (simp add: new(4))
    have "gt_ok t'" unfolding gt_ok_def
    proof (intro conjI allI impI)
      show "gt_glyphs t' ! k = [of_nat k]" if "k < 256" for k
        using gt_okD(1,4) [OF ok] that by (simp add: g nth_append gt_size_def)
    qed (use sz n tab fresh gt_okD(1,3) [OF ok] in \<open>simp_all add: g\<close>)
    moreover have "glyph_text t' j = glyph_text t j" if "unat j < gt_size t" for j
      using that sz by (simp add: glyph_text_nth g nth_append gt_size_def)
    moreover have "glyph_text t' i = bs" using u sz by (simp add: glyph_text_nth g nth_append gt_size_def)
    ultimately show ?thesis using u sz by simp
  qed
  then show "gt_ok t'" "unat i < gt_size t'" "glyph_text t' i = bs" "gt_size t \<le> gt_size t'" "gt_size t' \<le> Suc (gt_size t)"
    "\<And>j. unat j < gt_size t \<Longrightarrow> glyph_text t' j = glyph_text t j" by auto
qed

lemma gt_intern_fails:
  assumes "gt_ok t"
  shows "gt_intern bs t = Inl e \<longleftrightarrow> e = GlyphTooLong \<and> 255 < length bs \<and> bs \<notin> set (gt_glyphs t)"
  using gt_table_None [OF assms, of bs] by (auto simp: gt_intern_def Let_def split: option.splits)

section \<open>Windows\<close>

text \<open>The far corner of a window does not wrap around.\<close>

definition window_fits :: "nat \<times> nat \<Rightarrow> nat \<times> nat \<Rightarrow> bool" where
  "window_fits pos extent \<longleftrightarrow> fst pos + fst extent < 2 ^ 64 \<and> snd pos + snd extent < 2 ^ 64"

lemma subraster_in:
  assumes "window_fits (x, y) (w, h)"
  shows "i < v_cols (subraster v (x, y) (w, h)) \<longleftrightarrow> i < w \<and> x + i < v_cols v"
    "j < v_rows (subraster v (x, y) (w, h)) \<longleftrightarrow> j < h \<and> y + j < v_rows v"
  using assms by (auto simp: window_fits_def subraster_def submdspan_def Let_def min_def sz_add_exact sz_sub_def)

lemma subraster_index:
  "x < v_cols v \<Longrightarrow> y < v_rows v \<Longrightarrow> v_index (subraster v (x, y) (w, h)) j i = v_index v (y + j) (x + i)"
  by (simp add: subraster_def submdspan_def v_index_def Let_def min_def algebra_simps)

lemma subraster_clip:
  assumes "window_fits (x, y) (w, h)"
  shows "(v_cols (subraster v (x, y) (w, h)) \<le> i \<or> v_rows (subraster v (x, y) (w, h)) \<le> j)
    \<longleftrightarrow> \<not> (i < w \<and> j < h) \<or> v_cols v \<le> x + i \<or> v_rows v \<le> y + j"
  using subraster_in [OF assms, of i v] subraster_in [OF assms, of j v] by (auto simp: not_less [symmetric])

lemma subraster_get:
  assumes "window_fits (x, y) (w, h)"
  shows "get_cell (subraster v (x, y) (w, h)) (i, j) r = (if i < w \<and> j < h then get_cell v (x + i, y + j) r else None)"
  unfolding get_cell_def Let_def prod.case subraster_clip [OF assms] using subraster_index [of x v y w h j i] by auto

lemma subraster_set:
  assumes "window_fits (x, y) (w, h)"
  shows "set_glyph (subraster v (x, y) (w, h)) (i, j) gid r = (if i < w \<and> j < h then set_glyph v (x + i, y + j) gid r else r)"
    "set_fg (subraster v (x, y) (w, h)) (i, j) c r = (if i < w \<and> j < h then set_fg v (x + i, y + j) c r else r)"
    "set_bg (subraster v (x, y) (w, h)) (i, j) c r = (if i < w \<and> j < h then set_bg v (x + i, y + j) c r else r)"
    "set_em (subraster v (x, y) (w, h)) (i, j) e r = (if i < w \<and> j < h then set_em v (x + i, y + j) e r else r)"
  unfolding set_glyph_def set_fg_def set_bg_def set_em_def Let_def prod.case subraster_clip [OF assms]
  using subraster_index [of x v y w h j i] by auto

text \<open>When the far corner wraps around, the window is not clipped: it has almost \<open>2\<^sup>6\<^sup>4\<close> columns, whatever the view.\<close>

lemma subraster_wraps:
  assumes "0 < x" "x < 2 ^ 64" "v_cols v \<le> x" "2 \<le> v_cols v"
  shows "v_cols (subraster v (x, y) (2 ^ 64 - x + 1, h)) = 2 ^ 64 - (v_cols v - 1)"
proof -
  have "sz_add x (2 ^ 64 - x + 1) = (2 ^ 64 + 1) mod 2 ^ 64" unfolding sz_add_def by (rule arg_cong [where f = "\<lambda>n. n mod 2 ^ 64"]) (use assms in linarith)
  then have "sz_add x (2 ^ 64 - x + 1) = 1" by simp
  then show ?thesis using assms by (simp add: subraster_def submdspan_def sz_sub_def Let_def)
qed

section \<open>Writing text\<close>

text \<open>The clusters that fit into a number of cells, and the cells they take.\<close>

fun fitted :: "(bytes \<Rightarrow> nat) \<Rightarrow> nat \<Rightarrow> bytes list \<Rightarrow> bytes list" where
  "fitted wd room [] = []"
| "fitted wd room (g # gs) = (if room = 0 \<or> wd g > room then [] else g # fitted wd (room - wd g) gs)"

definition text_cells :: "(bytes \<Rightarrow> nat) \<Rightarrow> bytes list \<Rightarrow> bytes list" where
  "text_cells wd gs = concat (map (\<lambda>g. g # replicate (wd g - 1) []) gs)"

text \<open>\<open>ids\<close> placed over the array from an index on.\<close>

definition placed :: "nat \<Rightarrow> 'a list \<Rightarrow> 'a list \<Rightarrow> 'a list" where
  "placed s ids xs = take s xs @ ids @ drop (s + length ids) xs"

lemma placed_Nil [simp]: "placed s [] xs = xs"
  by (simp add: placed_def)

lemma length_placed: "s + length ids \<le> length xs \<Longrightarrow> length (placed s ids xs) = length xs"
  by (simp add: placed_def)

lemma placed_one: "s < length xs \<Longrightarrow> xs[s := i] = placed s [i] xs"
  by (simp add: placed_def upd_conv_take_nth_drop)

lemma placed_append: "s + length a \<le> length xs \<Longrightarrow> placed (s + length a) b (placed s a xs) = placed s (a @ b) xs"
  by (simp add: placed_def ac_simps)

definition gt_grows :: "GlyphTable \<Rightarrow> GlyphTable \<Rightarrow> bool" where
  "gt_grows t t' \<longleftrightarrow> gt_ok t' \<and> gt_size t \<le> gt_size t' \<and> (\<forall>j. unat j < gt_size t \<longrightarrow> glyph_text t' j = glyph_text t j)"

lemma gt_grows_trans: "gt_grows t t' \<Longrightarrow> gt_grows t' t'' \<Longrightarrow> gt_grows t t''"
  by (auto simp: gt_grows_def)

lemma gt_grows_refl: "gt_ok t \<Longrightarrow> gt_grows t t"
  by (simp add: gt_grows_def)

lemma gt_intern_grows:
  assumes "gt_ok t" "gt_size t < 2 ^ 32" "gt_intern bs t = Inr (i, t')"
  shows "gt_grows t t'" "unat i < gt_size t'" "glyph_text t' i = bs" "gt_size t' \<le> Suc (gt_size t)"
  using gt_intern_spec [OF assms] by (auto simp: gt_grows_def)

definition ids_show :: "GlyphTable \<Rightarrow> glyph_id list \<Rightarrow> bytes list \<Rightarrow> bool" where
  "ids_show t ids strs \<longleftrightarrow> (\<forall>i \<in> set ids. unat i < gt_size t) \<and> map (glyph_text t) ids = strs"

lemma ids_show_grows: "ids_show t ids strs \<Longrightarrow> gt_grows t t' \<Longrightarrow> ids_show t' ids strs"
  by (fastforce simp: ids_show_def gt_grows_def)

lemma space_text: "gt_ok t \<Longrightarrow> glyph_text t 32 = [0x20]"
  using gt_okD(1) [of t] gt_okD(4) [of t 32] by (simp add: glyph_text_nth)

lemma gt_intern_short: "length bs \<le> 255 \<Longrightarrow> \<exists>i t'. gt_intern bs t = Inr (i, t')"
  by (auto simp: gt_intern_def Let_def split: option.split)

lemma gt_intern_known: "gt_ok t \<Longrightarrow> length bs \<noteq> 1 \<Longrightarrow> glyph_text t i = bs \<Longrightarrow> unat i < gt_size t \<Longrightarrow> gt_intern bs t = Inr (i, t)"
  using gt_okD(5) [of t bs i] by (simp add: gt_intern_def glyph_text_nth)

lemma write_tail_known:
  assumes "gt_intern [] t = Inr (i, t)" "v_index v y (col + a) + (b - a) \<le> length (ra_glyphs r)"
  shows "write_tail v y col [a..<b] (r, t) = Inr (r\<lparr>ra_glyphs := placed (v_index v y (col + a)) (replicate (b - a) i) (ra_glyphs r)\<rparr>, t)"
  using assms(2)
proof (induction "b - a" arbitrary: a r)
  case (Suc k)
  let ?s = "v_index v y (col + a)"
  have ab: "[a..<b] = a # [Suc a..<b]" "b - a = Suc (b - Suc a)" using Suc.hyps(2) by (auto intro: upt_conv_Cons)
  have s: "v_index v y (Suc (col + a)) = Suc ?s" "?s < length (ra_glyphs r)" using Suc.hyps(2) Suc.prems by (simp_all add: v_index_def)
  let ?r = "r\<lparr>ra_glyphs := (ra_glyphs r)[?s := i]\<rparr>"
  have "write_tail v y col [Suc a..<b] (?r, t) =
    Inr (?r\<lparr>ra_glyphs := placed (v_index v y (col + Suc a)) (replicate (b - Suc a) i) (ra_glyphs ?r)\<rparr>, t)"
    by (rule Suc.hyps(1)) (use Suc.hyps(2) Suc.prems s(1) in auto)
  moreover have "placed (Suc ?s) (replicate (b - Suc a) i) ((ra_glyphs r)[?s := i]) = placed ?s (replicate (b - a) i) (ra_glyphs r)"
    using placed_append [of ?s "[i]" "ra_glyphs r"] s(2) by (simp add: placed_one ab(2))
  ultimately show ?case using assms(1) by (simp add: ab(1) s(1))
qed simp

lemma write_tail_spec:
  assumes ok: "gt_ok t" "gt_size t < 2 ^ 32" and l: "v_index v y (col + a) + (b - a) \<le> length (ra_glyphs r)"
  shows "\<exists>ids t'. write_tail v y col [a..<b] (r, t) = Inr (r\<lparr>ra_glyphs := placed (v_index v y (col + a)) ids (ra_glyphs r)\<rparr>, t')
    \<and> length ids = b - a \<and> ids_show t' ids (replicate (b - a) []) \<and> gt_grows t t' \<and> gt_size t' \<le> Suc (gt_size t)"
proof (cases "a < b")
  case False
  then show ?thesis using ok by (intro exI [of _ "[]"] exI [of _ t]) (simp add: ids_show_def gt_grows_refl)
next
  case True
  let ?s = "v_index v y (col + a)"
  obtain i t1 where i: "gt_intern [] t = Inr (i, t1)" using gt_intern_short [of "[]" t] by auto
  note g = gt_intern_grows [OF ok i]
  have k: "gt_intern [] t1 = Inr (i, t1)" using g by (intro gt_intern_known) (auto simp: gt_grows_def)
  have ab: "[a..<b] = a # [Suc a..<b]" "b - a = Suc (b - Suc a)" using True by (auto intro: upt_conv_Cons)
  have s: "v_index v y (Suc (col + a)) = Suc ?s" "?s < length (ra_glyphs r)" using True l by (simp_all add: v_index_def)
  let ?r = "r\<lparr>ra_glyphs := (ra_glyphs r)[?s := i]\<rparr>"
  have "write_tail v y col [Suc a..<b] (?r, t1) =
    Inr (?r\<lparr>ra_glyphs := placed (Suc ?s) (replicate (b - Suc a) i) (ra_glyphs ?r)\<rparr>, t1)"
    using write_tail_known [OF k, of v y col "Suc a" b ?r] l s(1) True by simp
  moreover have "placed (Suc ?s) (replicate (b - Suc a) i) ((ra_glyphs r)[?s := i]) = placed ?s (replicate (b - a) i) (ra_glyphs r)"
    using placed_append [of ?s "[i]" "ra_glyphs r"] s(2) by (simp add: placed_one ab(2))
  ultimately have "write_tail v y col [a..<b] (r, t) = Inr (r\<lparr>ra_glyphs := placed ?s (replicate (b - a) i) (ra_glyphs r)\<rparr>, t1)"
    using i by (simp add: ab(1))
  then show ?thesis using g by (intro exI [of _ "replicate (b - a) i"] exI [of _ t1]) (simp add: ids_show_def)
qed

text \<open>A window whose cells are in the arrays of a raster.\<close>

definition view_ok :: "RasterView \<Rightarrow> Raster \<Rightarrow> bool" where
  "view_ok v r \<longleftrightarrow> v_cols v \<le> v_stride v \<and> (\<forall>y < v_rows v. v_index v y (v_cols v) \<le> length (ra_glyphs r))"

lemma write_loop_spec:
  assumes "gt_ok t" "gt_size t + 2 * (length str - i) < 2 ^ 32" "view_ok v r" "y < v_rows v" "col \<le> v_cols v"
    "\<forall>g \<in> set (clusters_from U str i). length g \<le> 255"
  shows "\<exists>ids t'. write_loop U v y str i col (r, t) =
      Inr (col + length ids, r\<lparr>ra_glyphs := placed (v_index v y col) ids (ra_glyphs r)\<rparr>, t')
    \<and> col + length ids \<le> v_cols v \<and> gt_grows t t'
    \<and> ids_show t' ids (text_cells (cluster_width U) (fitted (cluster_width U) (v_cols v - col) (clusters_from U str i)))"
  using assms
proof (induction "length str - i" arbitrary: i col r t rule: less_induct)
  case less
  let ?wd = "cluster_width U" and ?n = "utf8_next U str i"
  let ?g = "substr str i (?n - i)"
  show ?case
  proof (cases "i < length str \<and> col < v_cols v")
    case False
    have "fitted ?wd (v_cols v - col) (clusters_from U str i) = []"
      using False by (cases "clusters_from U str i") (auto simp: clusters_from_end)
    moreover have "write_loop U v y str i col (r, t) = Inr (col, r, t)" using False by (subst write_loop.simps) (rule if_not_P)
    ultimately show ?thesis using less.prems(1,5)
      by (intro exI [of _ "[]"] exI [of _ t]) (simp add: ids_show_def text_cells_def gt_grows_refl)
  next
    case True
    have n: "i < ?n" "?n \<le> length str" using next_progress [of i str U] True by auto
    have cs: "clusters_from U str i = ?g # clusters_from U str ?n" using True by (simp add: clusters_from_step)
    show ?thesis
    proof (cases "?wd ?g > v_cols v - col")
      case wide: True
      then show ?thesis using True less.prems(1,5)
        by (intro exI [of _ "[]"] exI [of _ t]) (simp add: write_loop.simps Let_def cs ids_show_def text_cells_def gt_grows_refl)
    next
      case False
      have w: "1 \<le> ?wd ?g" unfolding cluster_width_def by (rule width_from_pos)
      have fits: "col + ?wd ?g \<le> v_cols v" using False True by linarith
      have top: "v_index v y (col + ?wd ?g) \<le> length (ra_glyphs r)"
        using less.prems(3,4) fits by (fastforce simp: view_ok_def v_index_def)
      obtain gid t1 where i1: "gt_intern ?g t = Inr (gid, t1)" using gt_intern_short [of ?g t] less.prems(6) by (auto simp: cs)
      note g1 = gt_intern_grows [OF less.prems(1) _ i1]
      have sz: "gt_size t < 2 ^ 32" "Suc (gt_size t) < 2 ^ 32" using less.prems(2) True by auto
      let ?s = "v_index v y col"
      let ?r1 = "r\<lparr>ra_glyphs := (ra_glyphs r)[?s := gid]\<rparr>"
      have s: "v_index v y (Suc col) = Suc ?s" "?s < length (ra_glyphs r)" using top w by (simp_all add: v_index_def)
      have "\<exists>ids t2. write_tail v y col [1..<?wd ?g] (?r1, t1) = Inr (?r1\<lparr>ra_glyphs := placed (v_index v y (col + 1)) ids (ra_glyphs ?r1)\<rparr>, t2)
        \<and> length ids = ?wd ?g - 1 \<and> ids_show t2 ids (replicate (?wd ?g - 1) []) \<and> gt_grows t1 t2 \<and> gt_size t2 \<le> Suc (gt_size t1)"
        by (rule write_tail_spec) (use g1 sz top w in \<open>auto simp: gt_grows_def v_index_def\<close>)
      then obtain tl t2 where t2: "write_tail v y col [1..<?wd ?g] (?r1, t1) = Inr (?r1\<lparr>ra_glyphs := placed (?s + 1) tl (ra_glyphs ?r1)\<rparr>, t2)"
        "length tl = ?wd ?g - 1" "ids_show t2 tl (replicate (?wd ?g - 1) [])" "gt_grows t1 t2" "gt_size t2 \<le> Suc (gt_size t1)"
        by (auto simp: s(1))
      let ?r2 = "r\<lparr>ra_glyphs := placed ?s (gid # tl) (ra_glyphs r)\<rparr>"
      have r2: "?r1\<lparr>ra_glyphs := placed (?s + 1) tl (ra_glyphs ?r1)\<rparr> = ?r2"
        using placed_append [of ?s "[gid]" "ra_glyphs r" tl] s(2) by (simp add: placed_one)
      have len: "length (gid # tl) = ?wd ?g" using t2(2) w by simp
      have l2: "length (placed ?s (gid # tl) (ra_glyphs r)) = length (ra_glyphs r)"
        by (rule length_placed) (use top len in \<open>simp add: v_index_def\<close>)
      have "\<exists>ids t'. write_loop U v y str ?n (col + ?wd ?g) (?r2, t2) =
          Inr (col + ?wd ?g + length ids, ?r2\<lparr>ra_glyphs := placed (v_index v y (col + ?wd ?g)) ids (ra_glyphs ?r2)\<rparr>, t')
        \<and> col + ?wd ?g + length ids \<le> v_cols v \<and> gt_grows t2 t'
        \<and> ids_show t' ids (text_cells ?wd (fitted ?wd (v_cols v - (col + ?wd ?g)) (clusters_from U str ?n)))"
        by (rule less.hyps) (use n True less.prems t2(4,5) g1 sz fits l2 in \<open>auto simp: gt_grows_def view_ok_def cs\<close>)
      then obtain ids t' where R: "write_loop U v y str ?n (col + ?wd ?g) (?r2, t2) =
          Inr (col + ?wd ?g + length ids, ?r2\<lparr>ra_glyphs := placed (v_index v y (col + ?wd ?g)) ids (ra_glyphs ?r2)\<rparr>, t')"
        "col + ?wd ?g + length ids \<le> v_cols v" "gt_grows t2 t'"
        "ids_show t' ids (text_cells ?wd (fitted ?wd (v_cols v - (col + ?wd ?g)) (clusters_from U str ?n)))" by blast
      have p: "placed (v_index v y (col + ?wd ?g)) ids (placed ?s (gid # tl) (ra_glyphs r)) = placed ?s ((gid # tl) @ ids) (ra_glyphs r)"
      proof -
        have e: "v_index v y (col + ?wd ?g) = ?s + length (gid # tl)" using len by (simp add: v_index_def)
        show ?thesis unfolding e by (rule placed_append) (use top e in simp)
      qed
      have "gt_grows t1 t'" using gt_grows_trans t2(4) R(3) by blast
      then have "ids_show t' ((gid # tl) @ ids) (text_cells ?wd (fitted ?wd (v_cols v - col) (clusters_from U str i)))"
        using R(4) ids_show_grows [OF t2(3) R(3)] g1 sz False True
        by (auto simp: ids_show_def text_cells_def cs gt_grows_def)
      moreover have "write_loop U v y str i col (r, t) =
          Inr (col + length ((gid # tl) @ ids), r\<lparr>ra_glyphs := placed ?s ((gid # tl) @ ids) (ra_glyphs r)\<rparr>, t')"
      proof -
        have cl: "col + length ((gid # tl) @ ids) = col + ?wd ?g + length ids" using len by simp
        show ?thesis unfolding cl using True False i1 t2(1) [unfolded r2] R(1) by (subst write_loop.simps) (simp add: Let_def p)
      qed
      moreover have "gt_grows t t'" using gt_grows_trans [OF g1(1) \<open>gt_grows t1 t'\<close>] sz by blast
      ultimately show ?thesis using R(2) len by (intro exI [of _ "(gid # tl) @ ids"] exI [of _ t']) simp
    qed
  qed
qed

text \<open>C22. Writing text puts whole grapheme clusters on the row, as many as fit.  Every cluster fills its first cell and
  leaves the empty glyph in the other cells of its width; the returned column is the one after them.  No other cell, no colour
  and no emphasis changes, the glyph table gains the new clusters only, and ids handed out before keep their text.\<close>

theorem write_text_cells:
  assumes "gt_ok t" "gt_size t + 2 * length str < 2 ^ 32" "view_ok v r" "y < v_rows v" "x \<le> v_cols v"
    "\<forall>g \<in> set (clusters_from U str 0). length g \<le> 255"
  shows "\<exists>ids t'. write_text U v (x, y) str (r, t) =
      Inr (x + length ids, r\<lparr>ra_glyphs := placed (v_index v y x) ids (ra_glyphs r)\<rparr>, t')
    \<and> x + length ids \<le> v_cols v \<and> gt_grows t t'
    \<and> map (glyph_text t') ids = text_cells (cluster_width U) (fitted (cluster_width U) (v_cols v - x) (clusters_from U str 0))"
  using write_loop_spec [of t str 0 v r y x U] assms by (fastforce simp: write_text_def ids_show_def)

theorem write_text_cells_witness:
  "\<exists>ids t'. write_text sample_table (raster_view (new_raster 4 2)) (1, 1) [0x41, 0x20, 0x42] (new_raster 4 2, new_glyph_table) =
      Inr (1 + length ids, (new_raster 4 2)\<lparr>ra_glyphs := placed 5 ids (replicate 8 32)\<rparr>, t')
    \<and> 1 + length ids \<le> 4 \<and> gt_grows new_glyph_table t'
    \<and> map (glyph_text t') ids = [[0x41], [0x20], [0x42]]"
proof -
  have "clusters_from sample_table [0x41, 0x20, 0x42] 0 = [[0x41], [0x20], [0x42]]" by code_simp
  moreover have "fitted (cluster_width sample_table) 3 [[0x41], [0x20], [0x42]] = [[0x41], [0x20], [0x42]]" by code_simp
  moreover have "text_cells (cluster_width sample_table) [[0x41], [0x20], [0x42]] = [[0x41], [0x20], [0x42]]" by code_simp
  moreover have "gt_size new_glyph_table = 256" by (simp add: new_glyph_table_eq gt_size_def)
  ultimately show ?thesis
    using write_text_cells [OF new_glyph_table_ok, of "[0x41, 0x20, 0x42]" "raster_view (new_raster 4 2)" "new_raster 4 2" 1 1 sample_table]
    by (simp add: view_ok_def raster_view_def new_raster_def v_index_def less_2_cases_iff)
qed

end
