(* ===== verification/Ansi.thy ===== *)
theory Ansi
  imports Raster Input
begin

text \<open>
  Terminal output, \<^verbatim>\<open>nxtui/ansi.cpp\<close>: the writer of escape sequences, whose state is its buffer, and the rendering
  of a raster as lines of styled text.  Every method takes the process-wide \<^verbatim>\<open>mode\<close> and returns the longer
  buffer.  Rows and columns are zero-based, as \<^verbatim>\<open>row_t\<close> and \<^verbatim>\<open>col_t\<close>.
\<close>

section \<open>Model: the writer\<close>

datatype Mode = disabled | debug | enabled

definition CSI :: bytes where "CSI = [0x1b, 0x5b]"
definition CSI_DEBUG :: bytes where "CSI_DEBUG = [0xe2, 0x9f, 0xa8, 0x43, 0x53, 0x49, 0x3a]"

definition init_mode :: "bool \<Rightarrow> string option \<Rightarrow> Mode" where
  "init_mode is_tty env =
     (let mode = if is_tty then enabled else debug in
      case env of
        None \<Rightarrow> mode
      | Some v \<Rightarrow>
          if v = ''disabled'' \<or> v = ''off'' \<or> v = ''0'' then disabled
          else if v = ''debug'' then debug
          else if v = ''enabled'' \<or> v = ''on'' \<or> v = ''1'' then enabled
          else mode)"

definition w_csi :: "Mode \<Rightarrow> bytes \<Rightarrow> byte \<Rightarrow> bytes \<Rightarrow> bytes" where
  "w_csi mode params final_byte buf =
     (case mode of
        disabled \<Rightarrow> buf
      | debug \<Rightarrow> buf @ CSI_DEBUG @ params @ [final_byte] @ [0xe2, 0x9f, 0xa9]
      | enabled \<Rightarrow> buf @ CSI @ params @ [final_byte])"

text \<open>\<^verbatim>\<open>std::format\<close> with semicolons between decimal numbers.\<close>

fun semis :: "nat list \<Rightarrow> bytes" where
  "semis [] = []"
| "semis [n] = decimal n"
| "semis (n # m # ns) = decimal n @ 0x3b # semis (m # ns)"

definition w_move_to :: "Mode \<Rightarrow> nat \<times> nat \<Rightarrow> bytes \<Rightarrow> bytes" where
  "w_move_to mode pos = (let (x, y) = pos in w_csi mode (semis [y + 1, x + 1]) 0x48)"

definition w_move_up :: "Mode \<Rightarrow> nat \<Rightarrow> bytes \<Rightarrow> bytes" where
  "w_move_up mode n buf = (if n > 0 then w_csi mode (semis [n]) 0x41 buf else buf)"

definition w_move_down :: "Mode \<Rightarrow> nat \<Rightarrow> bytes \<Rightarrow> bytes" where
  "w_move_down mode n buf = (if n > 0 then w_csi mode (semis [n]) 0x42 buf else buf)"

definition w_move_right :: "Mode \<Rightarrow> nat \<Rightarrow> bytes \<Rightarrow> bytes" where
  "w_move_right mode n buf = (if n > 0 then w_csi mode (semis [n]) 0x43 buf else buf)"

definition w_move_left :: "Mode \<Rightarrow> nat \<Rightarrow> bytes \<Rightarrow> bytes" where
  "w_move_left mode n buf = (if n > 0 then w_csi mode (semis [n]) 0x44 buf else buf)"

definition w_move :: "Mode \<Rightarrow> nat \<times> nat \<Rightarrow> bytes \<Rightarrow> bytes" where
  "w_move mode delta buf = w_move_down mode (snd delta) (w_move_right mode (fst delta) buf)"

definition w_move_to_column :: "Mode \<Rightarrow> nat \<Rightarrow> bytes \<Rightarrow> bytes" where
  "w_move_to_column mode col = w_csi mode (semis [col + 1]) 0x47"

definition w_clear_screen :: "Mode \<Rightarrow> bytes \<Rightarrow> bytes" where "w_clear_screen mode = w_csi mode (semis [2]) 0x4a"
definition w_clear_screen_from_cursor :: "Mode \<Rightarrow> bytes \<Rightarrow> bytes" where "w_clear_screen_from_cursor mode = w_csi mode (semis [0]) 0x4a"
definition w_clear_screen_to_cursor :: "Mode \<Rightarrow> bytes \<Rightarrow> bytes" where "w_clear_screen_to_cursor mode = w_csi mode (semis [1]) 0x4a"
definition w_clear_line :: "Mode \<Rightarrow> bytes \<Rightarrow> bytes" where "w_clear_line mode = w_csi mode (semis [2]) 0x4b"
definition w_clear_line_from_cursor :: "Mode \<Rightarrow> bytes \<Rightarrow> bytes" where "w_clear_line_from_cursor mode = w_csi mode (semis [0]) 0x4b"
definition w_clear_line_to_cursor :: "Mode \<Rightarrow> bytes \<Rightarrow> bytes" where "w_clear_line_to_cursor mode = w_csi mode (semis [1]) 0x4b"

definition w_set_scroll_region :: "Mode \<Rightarrow> nat \<Rightarrow> nat \<Rightarrow> bytes \<Rightarrow> bytes" where
  "w_set_scroll_region mode upper lower = w_csi mode (semis [upper + 1, lower + 1]) 0x72"

definition w_reset_scroll_region :: "Mode \<Rightarrow> bytes \<Rightarrow> bytes" where
  "w_reset_scroll_region mode = w_csi mode [] 0x72"

definition w_scroll_up :: "Mode \<Rightarrow> nat \<Rightarrow> bytes \<Rightarrow> bytes" where
  "w_scroll_up mode n buf = (if n > 0 then w_csi mode (semis [n]) 0x53 buf else buf)"

definition w_scroll_down :: "Mode \<Rightarrow> nat \<Rightarrow> bytes \<Rightarrow> bytes" where
  "w_scroll_down mode n buf = (if n > 0 then w_csi mode (semis [n]) 0x54 buf else buf)"

definition w_hide_cursor :: "Mode \<Rightarrow> bytes \<Rightarrow> bytes" where "w_hide_cursor mode = w_csi mode (0x3f # semis [25]) 0x6c"
definition w_show_cursor :: "Mode \<Rightarrow> bytes \<Rightarrow> bytes" where "w_show_cursor mode = w_csi mode (0x3f # semis [25]) 0x68"
definition w_begin_synchronized_update :: "Mode \<Rightarrow> bytes \<Rightarrow> bytes" where
  "w_begin_synchronized_update mode = w_csi mode (0x3f # semis [2026]) 0x68"
definition w_end_synchronized_update :: "Mode \<Rightarrow> bytes \<Rightarrow> bytes" where
  "w_end_synchronized_update mode = w_csi mode (0x3f # semis [2026]) 0x6c"

definition w_save_cursor :: "bytes \<Rightarrow> bytes" where "w_save_cursor buf = buf @ [0x1b, 0x37]"
definition w_restore_cursor :: "bytes \<Rightarrow> bytes" where "w_restore_cursor buf = buf @ [0x1b, 0x38]"

definition w_request_cursor_position :: "Mode \<Rightarrow> bytes \<Rightarrow> bytes" where
  "w_request_cursor_position mode = w_csi mode (semis [6]) 0x6e"

definition w_fg :: "Mode \<Rightarrow> byte \<times> byte \<times> byte \<Rightarrow> bytes \<Rightarrow> bytes" where
  "w_fg mode rgb = (let (r, g, b) = rgb in w_csi mode (semis [38, 2, unat r, unat g, unat b]) 0x6d)"

definition w_bg :: "Mode \<Rightarrow> byte \<times> byte \<times> byte \<Rightarrow> bytes \<Rightarrow> bytes" where
  "w_bg mode rgb = (let (r, g, b) = rgb in w_csi mode (semis [48, 2, unat r, unat g, unat b]) 0x6d)"

definition w_fg_palette :: "Mode \<Rightarrow> byte \<Rightarrow> bytes \<Rightarrow> bytes" where
  "w_fg_palette mode index = w_csi mode (semis [38, 5, unat index]) 0x6d"

definition w_bg_palette :: "Mode \<Rightarrow> byte \<Rightarrow> bytes \<Rightarrow> bytes" where
  "w_bg_palette mode index = w_csi mode (semis [48, 5, unat index]) 0x6d"

definition w_fg_default :: "Mode \<Rightarrow> bytes \<Rightarrow> bytes" where "w_fg_default mode = w_csi mode (semis [39]) 0x6d"
definition w_bg_default :: "Mode \<Rightarrow> bytes \<Rightarrow> bytes" where "w_bg_default mode = w_csi mode (semis [49]) 0x6d"

definition w_fg_terminal :: "Mode \<Rightarrow> nat \<Rightarrow> bytes \<Rightarrow> bytes" where "w_fg_terminal mode c = w_csi mode (semis [c]) 0x6d"
definition w_bg_terminal :: "Mode \<Rightarrow> nat \<Rightarrow> bytes \<Rightarrow> bytes" where "w_bg_terminal mode c = w_csi mode (semis [c + 10]) 0x6d"

text \<open>The emphasis bits in the order of \<^verbatim>\<open>Writer::style\<close>, with their parameters.\<close>

definition emphasis_codes :: "(Emphasis \<times> nat) list" where
  "emphasis_codes = [(1, 1), (2, 2), (4, 3), (8, 4), (16, 5), (32, 7), (64, 8), (128, 9)]"

definition w_style :: "Mode \<Rightarrow> Emphasis \<Rightarrow> bytes \<Rightarrow> bytes" where
  "w_style mode e = fold (\<lambda>(flag, code) buf. if has_emphasis e flag then w_csi mode (semis [code]) 0x6d buf else buf) emphasis_codes"

definition w_reset :: "Mode \<Rightarrow> bytes \<Rightarrow> bytes" where "w_reset mode = w_csi mode (semis [0]) 0x6d"

definition w_text :: "bytes \<Rightarrow> bytes \<Rightarrow> bytes" where "w_text str buf = buf @ str"

definition w_bold :: "Mode \<Rightarrow> bytes \<Rightarrow> bytes" where "w_bold mode = w_style mode 1"
definition w_dim :: "Mode \<Rightarrow> bytes \<Rightarrow> bytes" where "w_dim mode = w_style mode 2"
definition w_italic :: "Mode \<Rightarrow> bytes \<Rightarrow> bytes" where "w_italic mode = w_style mode 4"
definition w_underline :: "Mode \<Rightarrow> bytes \<Rightarrow> bytes" where "w_underline mode = w_style mode 8"
definition w_reverse :: "Mode \<Rightarrow> bytes \<Rightarrow> bytes" where "w_reverse mode = w_style mode 32"

section \<open>Model: printing at once\<close>

text \<open>The free functions write one sequence to the standard output; the result is what they write.\<close>

definition print_csi :: "Mode \<Rightarrow> bytes \<Rightarrow> bytes" where
  "print_csi mode body =
     (case mode of disabled \<Rightarrow> [] | debug \<Rightarrow> CSI_DEBUG @ body @ [0xe2, 0x9f, 0xa9] | enabled \<Rightarrow> CSI @ body)"

definition print_move_to :: "Mode \<Rightarrow> nat \<times> nat \<Rightarrow> bytes" where
  "print_move_to mode pos = (let (x, y) = pos in print_csi mode (semis [y + 1, x + 1] @ [0x48]))"

definition print_clear_screen :: "Mode \<Rightarrow> bytes" where "print_clear_screen mode = print_csi mode [0x32, 0x4a]"
definition print_clear_line :: "Mode \<Rightarrow> bytes" where "print_clear_line mode = print_csi mode [0x32, 0x4b]"
definition print_hide_cursor :: "Mode \<Rightarrow> bytes" where "print_hide_cursor mode = print_csi mode [0x3f, 0x32, 0x35, 0x6c]"
definition print_show_cursor :: "Mode \<Rightarrow> bytes" where "print_show_cursor mode = print_csi mode [0x3f, 0x32, 0x35, 0x68]"
definition print_begin_update :: "Mode \<Rightarrow> bytes" where "print_begin_update mode = w_begin_synchronized_update mode []"
definition print_end_update :: "Mode \<Rightarrow> bytes" where "print_end_update mode = w_end_synchronized_update mode []"

definition print_scroll_region :: "Mode \<Rightarrow> nat \<Rightarrow> nat \<Rightarrow> bytes" where
  "print_scroll_region mode upper lower = print_csi mode (semis [upper + 1, lower + 1] @ [0x72])"

definition print_reset_region :: "Mode \<Rightarrow> bytes" where "print_reset_region mode = print_csi mode [0x72]"

definition print_scroll_up :: "Mode \<Rightarrow> nat \<Rightarrow> bytes" where
  "print_scroll_up mode n = (if n > 0 then print_csi mode (semis [n] @ [0x53]) else [])"

definition print_scroll_down :: "Mode \<Rightarrow> nat \<Rightarrow> bytes" where
  "print_scroll_down mode n = (if n > 0 then print_csi mode (semis [n] @ [0x54]) else [])"

text \<open>\<^verbatim>\<open>TerminalGuard\<close> hides the cursor and its end gives the terminal back; \<^verbatim>\<open>SynchronizedUpdate\<close> brackets output.\<close>

definition guard_opens :: "bool \<Rightarrow> string option \<Rightarrow> Mode \<times> bytes" where
  "guard_opens is_tty env = (let mode = init_mode is_tty env in (mode, print_hide_cursor mode))"

definition guard_closes :: "Mode \<Rightarrow> bytes" where
  "guard_closes mode = w_show_cursor mode (w_reset mode (w_restore_cursor (w_reset_scroll_region mode (w_save_cursor []))))"

definition sync_opens :: "Mode \<Rightarrow> bool \<Rightarrow> bytes" where "sync_opens mode on = (if on then print_begin_update mode else [])"
definition sync_closes :: "Mode \<Rightarrow> bool \<Rightarrow> bytes" where "sync_closes mode on = (if on then print_end_update mode else [])"

section \<open>Model: rendering a raster as text\<close>

definition is_visible_trailing_cell :: "glyph_id \<Rightarrow> Rgba8 \<Rightarrow> Emphasis \<Rightarrow> bool" where
  "is_visible_trailing_cell glyph bg em \<longleftrightarrow> glyph \<noteq> 32 \<or> \<not> is_terminal_default bg \<or> em \<noteq> 0"

definition emit_fg :: "Mode \<Rightarrow> Rgba8 \<Rightarrow> bytes \<Rightarrow> bytes" where
  "emit_fg mode color =
     (if is_terminal_default color \<or> is_transparent color then w_fg_default mode
      else if is_palette color then w_fg_palette mode (palette_index color)
      else w_fg mode (to_rgb color))"

definition emit_bg :: "Mode \<Rightarrow> Rgba8 \<Rightarrow> bytes \<Rightarrow> bytes" where
  "emit_bg mode color =
     (if is_terminal_default color \<or> is_transparent color then w_bg_default mode
      else if is_palette color then w_bg_palette mode (palette_index color)
      else w_bg mode (to_rgb color))"

definition apply_style :: "Mode \<Rightarrow> Style option \<times> bytes \<Rightarrow> Style \<Rightarrow> Style option \<times> bytes" where
  "apply_style mode s desired =
     (let (current, buf) = s in
      if current = Some desired then s
      else
        let buf = w_reset mode buf;
            buf = (if \<not> is_terminal_default (st_fg desired) then emit_fg mode (st_fg desired) buf else buf);
            buf = (if \<not> is_terminal_default (st_bg desired) then emit_bg mode (st_bg desired) buf else buf);
            buf = (if st_em desired \<noteq> 0 then w_style mode (st_em desired) buf else buf)
        in (Some desired, buf))"

definition last_visible :: "Raster \<Rightarrow> nat \<Rightarrow> nat" where
  "last_visible r y =
     fold (\<lambda>x last. let c = cell_of r (v_index (raster_view r) y x) in
             if is_visible_trailing_cell (c_glyph c) (c_bg c) (c_em c) then x + 1 else last) [0..<ra_width r] 0"

definition render_cell :: "Mode \<Rightarrow> GlyphTable \<Rightarrow> Raster \<Rightarrow> nat \<Rightarrow> nat \<Rightarrow> Style option \<times> bytes \<Rightarrow> Style option \<times> bytes" where
  "render_cell mode t r y x s =
     (let c = cell_of r (v_index (raster_view r) y x);
          (current, buf) = apply_style mode s \<lparr>st_fg = c_fg c, st_bg = c_bg c, st_em = c_em c\<rparr>
      in (current, w_text (case gt_get (c_glyph c) t of Some bs \<Rightarrow> bs | None \<Rightarrow> [0x20]) buf))"

definition render_line :: "Mode \<Rightarrow> GlyphTable \<Rightarrow> Raster \<Rightarrow> nat \<Rightarrow> Style option \<times> bytes \<Rightarrow> Style option \<times> bytes" where
  "render_line mode t r y s =
     fold (render_cell mode t r y) [0..<last_visible r y]
       (if y > 0 then (None, w_text [0x0a] (w_reset mode (snd s))) else s)"

definition render_raster :: "Mode \<Rightarrow> GlyphTable \<Rightarrow> Raster \<Rightarrow> bytes" where
  "render_raster mode t r = w_reset mode (snd (fold (render_line mode t r) [0..<ra_height r] (None, [])))"

section \<open>Both ways of writing agree\<close>

lemma print_is_write: "print_csi mode (params @ [f]) = w_csi mode params f []"
  by (simp add: print_csi_def w_csi_def split: Mode.split)

lemma prints_agree:
  "print_move_to mode pos = w_move_to mode pos []" "print_scroll_region mode u l = w_set_scroll_region mode u l []"
  "print_scroll_up mode n = w_scroll_up mode n []" "print_scroll_down mode n = w_scroll_down mode n []"
  "print_reset_region mode = w_reset_scroll_region mode []"
  using print_is_write [of mode "[]" "0x72"]
  by (simp_all add: print_move_to_def w_move_to_def print_scroll_region_def w_set_scroll_region_def print_scroll_up_def w_scroll_up_def
    print_scroll_down_def w_scroll_down_def print_reset_region_def w_reset_scroll_region_def print_is_write del: semis.simps split: prod.split)

end
