(* ===== verification/Compositor.thy ===== *)
theory Compositor
  imports Ansi
begin

text \<open>
  The terminal split into a scrolling region and a fixed region (\<^verbatim>\<open>nxtui/regional-tty.hpp\<close>) and the compositor
  that puts frames on it (\<^verbatim>\<open>nxtui/compositor.cpp\<close>).  Rows are zero-based; \<^verbatim>\<open>height_t\<close> and \<^verbatim>\<open>row_t\<close> count
  in \<^verbatim>\<open>std::size_t\<close>, so a difference wraps around.
\<close>

section \<open>Model: partitions of the screen\<close>

record vertical_region =
  vr_top :: nat
  vr_bottom :: nat

definition from_terminal_height :: "nat \<Rightarrow> vertical_region" where
  "from_terminal_height height = \<lparr>vr_top = 0, vr_bottom = 0 + height\<rparr>"

definition vr_empty :: "vertical_region \<Rightarrow> bool" where
  "vr_empty v \<longleftrightarrow> vr_top v = vr_bottom v"

definition vr_height :: "vertical_region \<Rightarrow> nat" where
  "vr_height v = sz_sub (vr_bottom v) (vr_top v)"

definition vr_contains :: "vertical_region \<Rightarrow> nat \<Rightarrow> bool" where
  "vr_contains v row \<longleftrightarrow> vr_top v \<le> row \<and> row < vr_bottom v"

definition bottom_inclusive :: "vertical_region \<Rightarrow> nat" where
  "bottom_inclusive v = sz_sub (vr_bottom v) 1"

definition top_margin :: "vertical_region \<Rightarrow> nat" where
  "top_margin rows = vr_top rows"

definition bottom_margin :: "vertical_region \<Rightarrow> nat" where
  "bottom_margin rows = bottom_inclusive rows"

datatype partition_kind = hidden_fixed_region | windowed_fixed_region | fullscreen_fixed_region

record screen_partition =
  sp_terminal :: vertical_region
  sp_kind :: partition_kind
  sp_scroll :: "vertical_region option"
  sp_fixed :: vertical_region

definition for_bottom_fixed_height :: "nat \<Rightarrow> nat \<Rightarrow> screen_partition" where
  "for_bottom_fixed_height terminal_height height =
     (let terminal_rows = from_terminal_height terminal_height;
          fixed_height = min height terminal_height
      in if fixed_height = 0 then
           \<lparr>sp_terminal = terminal_rows, sp_kind = hidden_fixed_region, sp_scroll = None,
            sp_fixed = \<lparr>vr_top = vr_bottom terminal_rows, vr_bottom = vr_bottom terminal_rows\<rparr>\<rparr>
         else if fixed_height = terminal_height then
           \<lparr>sp_terminal = terminal_rows, sp_kind = fullscreen_fixed_region, sp_scroll = None, sp_fixed = terminal_rows\<rparr>
         else
           let fixed_top = sz_sub (vr_bottom terminal_rows) fixed_height in
           \<lparr>sp_terminal = terminal_rows, sp_kind = windowed_fixed_region,
            sp_scroll = Some \<lparr>vr_top = vr_top terminal_rows, vr_bottom = fixed_top\<rparr>,
            sp_fixed = \<lparr>vr_top = fixed_top, vr_bottom = vr_bottom terminal_rows\<rparr>\<rparr>)"

definition windowed :: "screen_partition \<Rightarrow> bool" where "windowed p \<longleftrightarrow> sp_kind p = windowed_fixed_region"
definition hidden :: "screen_partition \<Rightarrow> bool" where "hidden p \<longleftrightarrow> sp_kind p = hidden_fixed_region"
definition fullscreen :: "screen_partition \<Rightarrow> bool" where "fullscreen p \<longleftrightarrow> sp_kind p = fullscreen_fixed_region"

definition chrome_start :: "screen_partition \<Rightarrow> nat" where
  "chrome_start p =
     (if windowed p then vr_top (sp_fixed p) else if fullscreen p then vr_top (sp_terminal p) else vr_bottom (sp_terminal p))"

section \<open>Model: changes of the partition\<close>

record repartition =
  rp_old :: "screen_partition option"
  rp_next :: screen_partition
  rp_cursor :: "nat option"
  rp_initial :: bool

definition rp_initially :: "screen_partition \<Rightarrow> nat option \<Rightarrow> repartition" where
  "rp_initially new_one insertion_cursor = \<lparr>rp_old = None, rp_next = new_one, rp_cursor = insertion_cursor, rp_initial = True\<rparr>"

definition rp_from :: "screen_partition \<Rightarrow> screen_partition \<Rightarrow> repartition" where
  "rp_from old_one new_one = \<lparr>rp_old = Some old_one, rp_next = new_one, rp_cursor = None, rp_initial = False\<rparr>"

text \<open>The bottom margin of a partition that has a scroll region; the source reads it in windowed mode only.\<close>

definition scroll_bottom :: "screen_partition \<Rightarrow> nat" where
  "scroll_bottom p = (case sp_scroll p of Some rows \<Rightarrow> bottom_margin rows | None \<Rightarrow> 0)"

definition reservation :: "repartition \<Rightarrow> nat" where
  "reservation c =
     (if \<not> windowed (rp_next c) then 0
      else if rp_initial c then
        (case rp_cursor c of
           Some row \<Rightarrow> if row > scroll_bottom (rp_next c) then sz_sub row (scroll_bottom (rp_next c)) else 0
         | None \<Rightarrow> 0)
      else case rp_old c of
        None \<Rightarrow> vr_height (sp_fixed (rp_next c))
      | Some p \<Rightarrow>
          if \<not> windowed p then vr_height (sp_fixed (rp_next c))
          else if scroll_bottom (rp_next c) < scroll_bottom p then sz_sub (scroll_bottom p) (scroll_bottom (rp_next c))
          else 0)"

definition release :: "repartition \<Rightarrow> nat" where
  "release c =
     (if rp_initial c then 0
      else case rp_old c of
        None \<Rightarrow> 0
      | Some p \<Rightarrow>
          if \<not> windowed p then 0
          else if hidden (rp_next c) then vr_height (sp_fixed p)
          else if \<not> windowed (rp_next c) then 0
          else if scroll_bottom (rp_next c) > scroll_bottom p then sz_sub (scroll_bottom (rp_next c)) (scroll_bottom p)
          else 0)"

definition clamp :: "nat \<Rightarrow> nat \<Rightarrow> nat \<Rightarrow> nat" where
  "clamp x lo hi = (if x < lo then lo else if hi < x then hi else x)"

definition chrome_to_clear :: "repartition \<Rightarrow> vertical_region" where
  "chrome_to_clear c =
     (let terminal = sp_terminal (rp_next c) in
      if rp_initial c then \<lparr>vr_top = vr_bottom terminal, vr_bottom = vr_bottom terminal\<rparr>
      else case (hidden (rp_next c), rp_old c) of
        (True, Some p) \<Rightarrow> sp_fixed p
      | (_, old_one) \<Rightarrow>
          let start = chrome_start (rp_next c);
              start = (case old_one of Some p \<Rightarrow> min start (chrome_start p) | None \<Rightarrow> start);
              start = clamp start (vr_top terminal) (vr_bottom terminal)
          in \<lparr>vr_top = start, vr_bottom = vr_bottom terminal\<rparr>)"

text \<open>The commands of \<^verbatim>\<open>command_list_backend\<close>; a program is a list of them.\<close>

datatype tty_command =
    save_cursor | restore_cursor | reset_graphics | set_scroll_region vertical_region | reset_scroll_region
  | scroll_up nat | scroll_down nat | move_up nat | move_down nat | move_to_left nat | clear_line | line_feed | put_text bytes

text \<open>\<^verbatim>\<open>ansi_string_backend\<close>: each step in a buffer of its own.\<close>

fun ansi_string :: "Mode \<Rightarrow> tty_command \<Rightarrow> bytes" where
  "ansi_string mode save_cursor = w_save_cursor []"
| "ansi_string mode restore_cursor = w_restore_cursor []"
| "ansi_string mode reset_graphics = w_reset mode []"
| "ansi_string mode (set_scroll_region rows) = w_set_scroll_region mode (top_margin rows) (bottom_margin rows) []"
| "ansi_string mode reset_scroll_region = w_reset_scroll_region mode []"
| "ansi_string mode (scroll_up n) = w_scroll_up mode n []"
| "ansi_string mode (scroll_down n) = w_scroll_down mode n []"
| "ansi_string mode (move_up n) = w_move_up mode n []"
| "ansi_string mode (move_down n) = w_move_down mode n []"
| "ansi_string mode (move_to_left row) = w_move_to mode (0, row) []"
| "ansi_string mode clear_line = w_clear_line mode []"
| "ansi_string mode line_feed = [0x0a]"
| "ansi_string mode (put_text str) = str"

text \<open>A backend is the function that turns one command into a program; programs are appended.\<close>

definition emit_repartition :: "(tty_command \<Rightarrow> 'p list) \<Rightarrow> repartition \<Rightarrow> 'p list" where
  "emit_repartition backend c =
     (let clear = chrome_to_clear c in
      backend reset_graphics
      @ (if reservation c > 0 then backend (scroll_up (reservation c)) @ backend (move_up (reservation c)) else [])
      @ backend save_cursor
      @ (case sp_scroll (rp_next c) of Some rows \<Rightarrow> backend (set_scroll_region rows) | None \<Rightarrow> backend reset_scroll_region)
      @ backend restore_cursor
      @ (if \<not> vr_empty clear
         then backend save_cursor
              @ concat (map (\<lambda>row. backend (move_to_left row) @ backend clear_line) [vr_top clear..<vr_bottom clear])
              @ backend restore_cursor
         else [])
      @ (if release c > 0 \<and> hidden (rp_next c) then backend (scroll_down (release c)) @ backend (move_down (release c)) else []))"

text \<open>The lines of a block, as the two loops over \<^verbatim>\<open>remaining\<close> cut it.\<close>

function block_lines :: "bytes \<Rightarrow> bytes list" where
  "block_lines remaining =
     (let line = takeWhile (\<lambda>b. b \<noteq> 0x0a) remaining in
      if length line = length remaining then [line] else line # block_lines (drop (length line + 1) remaining))"
  by auto
termination by (relation "measure length") (auto intro!: diff_less)

definition text_step :: "(tty_command \<Rightarrow> 'p list) \<Rightarrow> bytes \<Rightarrow> 'p list" where
  "text_step backend line = (if line \<noteq> [] then backend (put_text line) else [])"

definition append_block :: "(tty_command \<Rightarrow> 'p list) \<Rightarrow> bytes \<Rightarrow> 'p list" where
  "append_block backend block =
     (if block = [] then []
      else backend reset_graphics
           @ concat (map (\<lambda>line. text_step backend line @ backend line_feed) (block_lines block)))"

fun separated :: "(tty_command \<Rightarrow> 'p list) \<Rightarrow> bytes list \<Rightarrow> 'p list" where
  "separated backend [] = []"
| "separated backend [line] = text_step backend line"
| "separated backend (line # l # ls) = text_step backend line @ backend line_feed @ separated backend (l # ls)"

definition scrollback_append :: "(tty_command \<Rightarrow> 'p list) \<Rightarrow> bool \<Rightarrow> bytes \<Rightarrow> 'p list \<times> bool" where
  "scrollback_append backend after_block block =
     (if block = [] then ([], after_block)
      else (backend reset_graphics @ (if after_block then backend line_feed else []) @ separated backend (block_lines block), True))"

section \<open>Model: the compositor\<close>

record TerminalCompositor =
  tc_front :: Raster
  tc_back :: Raster
  tc_partition :: screen_partition
  tc_initialized :: bool

definition partition_for :: "nat \<Rightarrow> nat \<Rightarrow> screen_partition" where
  "partition_for hud_height term_height = for_bottom_fixed_height term_height hud_height"

definition raster_height_for :: "screen_partition \<Rightarrow> nat" where
  "raster_height_for p =
     (if hidden p then 0 else if windowed p then vr_height (sp_fixed p) else vr_height (sp_terminal p))"

definition new_compositor :: "nat \<times> nat \<Rightarrow> TerminalCompositor" where
  "new_compositor extent =
     (let (w, h) = extent in
      \<lparr>tc_front = new_raster w h, tc_back = new_raster w h, tc_partition = partition_for h h, tc_initialized = False\<rparr>)"

definition resize :: "Mode \<Rightarrow> nat \<times> nat \<Rightarrow> TerminalCompositor \<Rightarrow> bytes \<times> TerminalCompositor" where
  "resize mode extent c =
     (let (w, h) = extent;
          hud_height = (if fullscreen (tc_partition c) then h else vr_height (sp_fixed (tc_partition c)));
          resized = partition_for hud_height h;
          raster_h = raster_height_for resized;
          c = c\<lparr>tc_front := new_raster w raster_h, tc_back := new_raster w raster_h, tc_partition := resized\<rparr>
      in if \<not> tc_initialized c then ([], c)
         else
           let buf = w_save_cursor [];
               buf = (case sp_scroll resized of
                        Some rows \<Rightarrow> w_set_scroll_region mode (top_margin rows) (bottom_margin rows) buf
                      | None \<Rightarrow> w_reset_scroll_region mode buf);
               buf = (if windowed resized
                      then fold (\<lambda>row buf. w_clear_line mode (w_move_to mode (0, row) buf)) [vr_top (sp_fixed resized)..<vr_bottom (sp_fixed resized)] buf
                      else if fullscreen resized then w_clear_screen mode buf else buf)
           in (w_restore_cursor buf, c))"

definition set_hud_height :: "Mode \<Rightarrow> nat \<Rightarrow> nat \<Rightarrow> nat option \<Rightarrow> TerminalCompositor \<Rightarrow> bytes \<times> TerminalCompositor" where
  "set_hud_height mode hud_height term_height insertion_cursor c =
     (let next_partition = partition_for hud_height term_height; raster_w = ra_width (tc_front c) in
      if next_partition = tc_partition c then ([], c)
      else if \<not> tc_initialized c \<and> hidden next_partition then
        ([], c\<lparr>tc_partition := next_partition, tc_front := new_raster raster_w 0, tc_back := new_raster raster_w 0\<rparr>)
      else
        let change = (if tc_initialized c then rp_from (tc_partition c) next_partition
                      else rp_initially next_partition insertion_cursor);
            raster_h = raster_height_for next_partition
        in (emit_repartition (ansi_string mode) change,
            c\<lparr>tc_partition := next_partition, tc_initialized := True,
              tc_front := new_raster raster_w raster_h, tc_back := new_raster raster_w raster_h\<rparr>))"

definition hud_height :: "TerminalCompositor \<Rightarrow> nat" where
  "hud_height c = vr_height (sp_fixed (tc_partition c))"

definition scrollback_bottom_row :: "TerminalCompositor \<Rightarrow> int" where
  "scrollback_bottom_row c = (case sp_scroll (tc_partition c) of None \<Rightarrow> - 1 | Some rows \<Rightarrow> int (bottom_margin rows))"

datatype frame_error = ControlGlyph

fun write_terminal_text :: "bytes \<Rightarrow> bytes \<Rightarrow> frame_error + bytes" where
  "write_terminal_text [] buf = Inr buf"
| "write_terminal_text (ch # str) buf =
     (if ch \<in> {0x0a, 0x0d, 0x09, 0x0b, 0x0c, 0x1b} then Inl ControlGlyph else write_terminal_text str (w_text [ch] buf))"

fun write_glyphs :: "GlyphTable \<Rightarrow> glyph_id list \<Rightarrow> bytes \<Rightarrow> frame_error + bytes" where
  "write_glyphs t [] buf = Inr buf"
| "write_glyphs t (gid # gids) buf =
     (case gt_get gid t of
        None \<Rightarrow> write_glyphs t gids buf
      | Some str \<Rightarrow> (case write_terminal_text str buf of Inl e \<Rightarrow> Inl e | Inr buf' \<Rightarrow> write_glyphs t gids buf'))"

definition frame_fg :: "Mode \<Rightarrow> Rgba8 \<Rightarrow> bytes \<Rightarrow> bytes" where
  "frame_fg mode c = (if is_palette c then w_fg_palette mode (palette_index c) else w_fg mode (to_rgb c))"

definition frame_bg :: "Mode \<Rightarrow> Rgba8 \<Rightarrow> bytes \<Rightarrow> bytes" where
  "frame_bg mode c = (if is_palette c then w_bg_palette mode (palette_index c) else w_bg mode (to_rgb c))"

text \<open>The buffer and the colours in force, as the callback of \<^verbatim>\<open>present_frame\<close> keeps them.\<close>

type_synonym frame_state = "bytes \<times> Rgba8 option \<times> Rgba8 option"

definition emit_reset :: "Mode \<Rightarrow> ChangeRun \<Rightarrow> Rgba8 option \<Rightarrow> Rgba8 option \<Rightarrow> bytes \<Rightarrow> bytes" where
  "emit_reset mode run current_fg current_bg buf =
     (if cr_em_reset run
      then let buf = w_reset mode buf;
               buf = (case current_fg of Some c \<Rightarrow> frame_fg mode c buf | None \<Rightarrow> buf)
           in (case current_bg of Some c \<Rightarrow> frame_bg mode c buf | None \<Rightarrow> buf)
      else buf)"

definition emit_bg_change :: "Mode \<Rightarrow> ChangeRun \<Rightarrow> Rgba8 option \<Rightarrow> bytes \<Rightarrow> bytes \<times> Rgba8 option" where
  "emit_bg_change mode run current_bg buf =
     (if cr_bg_reset run then (w_bg_default mode buf, None)
      else case cr_bg_change run of Some c \<Rightarrow> (frame_bg mode c buf, Some c) | None \<Rightarrow> (buf, current_bg))"

definition emit_fg_change :: "Mode \<Rightarrow> ChangeRun \<Rightarrow> Rgba8 option \<Rightarrow> bytes \<Rightarrow> bytes \<times> Rgba8 option" where
  "emit_fg_change mode run current_fg buf =
     (if cr_fg_reset run then (w_fg_default mode buf, None)
      else case cr_fg_change run of Some c \<Rightarrow> (frame_fg mode c buf, Some c) | None \<Rightarrow> (buf, current_fg))"

definition emit_run :: "Mode \<Rightarrow> GlyphTable \<Rightarrow> nat \<Rightarrow> ChangeRun \<Rightarrow> frame_state \<Rightarrow> frame_error + frame_state" where
  "emit_run mode t row_offset run s =
     (let (buf, current_fg, current_bg) = s;
          buf = w_move_to mode (fst (cr_origin run), snd (cr_origin run) + row_offset) buf;
          buf = emit_reset mode run current_fg current_bg buf;
          (buf, current_bg) = emit_bg_change mode run current_bg buf;
          (buf, current_fg) = emit_fg_change mode run current_fg buf;
          buf = (case cr_em_change run of Some e \<Rightarrow> w_style mode e buf | None \<Rightarrow> buf)
      in (case write_glyphs t (cr_glyphs run) buf of Inl e \<Rightarrow> Inl e | Inr buf \<Rightarrow> Inr (buf, current_fg, current_bg)))"

fun emit_runs :: "Mode \<Rightarrow> GlyphTable \<Rightarrow> nat \<Rightarrow> ChangeRun list \<Rightarrow> frame_state \<Rightarrow> frame_error + frame_state" where
  "emit_runs mode t row_offset [] s = Inr s"
| "emit_runs mode t row_offset (run # runs) s =
     (case emit_run mode t row_offset run s of Inl e \<Rightarrow> Inl e | Inr s' \<Rightarrow> emit_runs mode t row_offset runs s')"

definition present_frame :: "Mode \<Rightarrow> GlyphTable \<Rightarrow> TerminalCompositor \<Rightarrow> frame_error + bytes \<times> TerminalCompositor" where
  "present_frame mode t c =
     (case emit_runs mode t (chrome_start (tc_partition c)) (diff_rasters (tc_front c) (tc_back c)) (w_save_cursor [], None, None) of
        Inl e \<Rightarrow> Inl e
      | Inr (buf, _, _) \<Rightarrow> Inr (w_restore_cursor buf, c\<lparr>tc_front := tc_back c, tc_back := tc_back c\<rparr>))"

section \<open>Model: a full-screen program\<close>

text \<open>\<^verbatim>\<open>terminal_app\<close>: what \<^verbatim>\<open>ioctl\<close> reports for the terminal is an argument, \<open>None\<close> where the call fails.\<close>

record terminal_app_options =
  to_raw_input :: bool
  to_alternate_screen :: bool
  to_hide_cursor :: bool
  to_clear_screen :: bool
  to_fallback_size :: "nat \<times> nat"

definition default_options :: terminal_app_options where
  "default_options = \<lparr>to_raw_input = True, to_alternate_screen = False, to_hide_cursor = True, to_clear_screen = True,
     to_fallback_size = (96, 26)\<rparr>"

definition current_terminal_size :: "(nat \<times> nat) option \<Rightarrow> nat \<times> nat \<Rightarrow> nat \<times> nat" where
  "current_terminal_size winsize fallback =
     (case winsize of Some (col, row) \<Rightarrow> if col > 0 \<and> row > 0 then (col, row) else fallback | None \<Rightarrow> fallback)"

record terminal_app =
  ta_options :: terminal_app_options
  ta_size :: "nat \<times> nat"
  ta_compositor :: TerminalCompositor

definition open_terminal_app :: "terminal_app_options \<Rightarrow> (nat \<times> nat) option \<Rightarrow> bytes \<times> terminal_app" where
  "open_terminal_app options winsize =
     (let sz = current_terminal_size winsize (to_fallback_size options) in
      ((if to_alternate_screen options then [0x1b, 0x5b, 0x3f, 0x31, 0x30, 0x34, 0x39, 0x68] else [])
       @ (if to_hide_cursor options then [0x1b, 0x5b, 0x3f, 0x32, 0x35, 0x6c] else [])
       @ (if to_clear_screen options then [0x1b, 0x5b, 0x32, 0x4a, 0x1b, 0x5b, 0x48] else []),
       \<lparr>ta_options = options, ta_size = sz, ta_compositor = new_compositor sz\<rparr>))"

definition close_terminal_app :: "terminal_app \<Rightarrow> bytes" where
  "close_terminal_app app =
     (if to_hide_cursor (ta_options app) then [0x1b, 0x5b, 0x3f, 0x32, 0x35, 0x68] else [])
     @ [0x1b, 0x5b, 0x30, 0x6d]
     @ (if to_alternate_screen (ta_options app) then [0x1b, 0x5b, 0x3f, 0x31, 0x30, 0x34, 0x39, 0x6c] else [])"

definition refresh_size :: "Mode \<Rightarrow> (nat \<times> nat) option \<Rightarrow> terminal_app \<Rightarrow> bool \<times> bytes \<times> terminal_app" where
  "refresh_size mode winsize app =
     (let sz = current_terminal_size winsize (to_fallback_size (ta_options app)) in
      if fst sz = fst (ta_size app) \<and> snd sz = snd (ta_size app) then (False, [], app)
      else let (out, c) = resize mode sz (ta_compositor app)
           in (True, out, app\<lparr>ta_size := sz, ta_compositor := c\<rparr>))"

end
