(* ===== verification/Terminal.thy ===== *)
theory Terminal
  imports Compositor
begin

text \<open>
  What the compositor writes, seen from the terminal.  A terminal is specified by what the escape sequences of
  ECMA-48 and the DEC cursor and margin controls do to its screen, and the sequences that begin a run of changed cells are
  shown to put the style of the run in force.
\<close>

section \<open>A terminal\<close>

datatype colour = Default | Palette byte | Rgb byte byte byte

record attrs =
  at_fg :: colour
  at_bg :: colour
  at_em :: Emphasis

definition plain :: attrs where
  "plain = \<lparr>at_fg = Default, at_bg = Default, at_em = 0\<rparr>"

text \<open>A cell shows a part of a glyph: its bytes, its width in cells, its attributes and which of its columns.  A
  glyph of which another glyph has overwritten a part is lost.\<close>

datatype shown = Part bytes nat attrs nat | Lost

record terminal =
  tm_rows :: nat
  tm_cols :: nat
  tm_screen :: "nat \<Rightarrow> nat \<Rightarrow> shown"
  tm_row :: nat
  tm_col :: nat
  tm_attrs :: attrs
  tm_saved :: "nat \<times> nat \<times> attrs"
  tm_margins :: "nat \<times> nat"
  tm_wrapped :: bool

definition hits :: "nat \<Rightarrow> nat \<Rightarrow> nat \<Rightarrow> nat \<Rightarrow> bool" where
  "hits s w c n \<longleftrightarrow> s < c + n \<and> c < s + w"

definition overwrite :: "nat \<Rightarrow> bytes \<Rightarrow> nat \<Rightarrow> attrs \<Rightarrow> (nat \<Rightarrow> shown) \<Rightarrow> nat \<Rightarrow> shown" where
  "overwrite c g w a line x =
     (if c \<le> x \<and> x < c + w then Part g w a (x - c)
      else case line x of
        Part g' w' a' k \<Rightarrow> if hits (x - k) w' c w then Lost else line x
      | Lost \<Rightarrow> Lost)"

definition put_glyph :: "bytes \<times> nat \<Rightarrow> terminal \<Rightarrow> terminal" where
  "put_glyph gw T =
     (let (g, w) = gw in
      if tm_col T + w \<le> tm_cols T
      then T\<lparr>tm_screen := (tm_screen T)(tm_row T := overwrite (tm_col T) g w (tm_attrs T) (tm_screen T (tm_row T))),
             tm_col := tm_col T + w\<rparr>
      else T\<lparr>tm_wrapped := True\<rparr>)"

definition sgr :: "nat list \<Rightarrow> attrs \<Rightarrow> attrs" where
  "sgr ps a =
     (case ps of
        [p, q, r, g, b] \<Rightarrow>
          if p = 38 \<and> q = 2 then a\<lparr>at_fg := Rgb (of_nat r) (of_nat g) (of_nat b)\<rparr>
          else if p = 48 \<and> q = 2 then a\<lparr>at_bg := Rgb (of_nat r) (of_nat g) (of_nat b)\<rparr> else a
      | [p, q, n] \<Rightarrow>
          if p = 38 \<and> q = 5 then a\<lparr>at_fg := Palette (of_nat n)\<rparr>
          else if p = 48 \<and> q = 5 then a\<lparr>at_bg := Palette (of_nat n)\<rparr> else a
      | [n] \<Rightarrow>
          if n = 0 then plain
          else if n = 39 then a\<lparr>at_fg := Default\<rparr>
          else if n = 49 then a\<lparr>at_bg := Default\<rparr>
          else (case map_of (map (\<lambda>(flag, code). (code, flag)) emphasis_codes) n of
                  Some flag \<Rightarrow> a\<lparr>at_em := at_em a OR flag\<rparr> | None \<Rightarrow> a)
      | _ \<Rightarrow> a)"

text \<open>An erased row takes the background in force; scrolling moves the rows between the margins.\<close>

definition blank_row :: "attrs \<Rightarrow> nat \<Rightarrow> shown" where
  "blank_row a x = Part [0x20] 1 (plain\<lparr>at_bg := at_bg a\<rparr>) 0"

definition tm_scroll_up :: "nat \<Rightarrow> terminal \<Rightarrow> terminal" where
  "tm_scroll_up n T = (let (u, l) = tm_margins T in T\<lparr>tm_screen := (\<lambda>r. if u \<le> r \<and> r \<le> l
     then if r + n \<le> l then tm_screen T (r + n) else blank_row (tm_attrs T) else tm_screen T r)\<rparr>)"

definition tm_scroll_down :: "nat \<Rightarrow> terminal \<Rightarrow> terminal" where
  "tm_scroll_down n T = (let (u, l) = tm_margins T in T\<lparr>tm_screen := (\<lambda>r. if u \<le> r \<and> r \<le> l
     then if u + n \<le> r then tm_screen T (r - n) else blank_row (tm_attrs T) else tm_screen T r)\<rparr>)"

definition tm_csi :: "nat list \<Rightarrow> byte \<Rightarrow> terminal \<Rightarrow> terminal" where
  "tm_csi ps f T =
     (if f = 0x6d then T\<lparr>tm_attrs := sgr ps (tm_attrs T)\<rparr>
      else if f = 0x48 then
        (case ps of [r, c] \<Rightarrow> T\<lparr>tm_row := min (r - 1) (tm_rows T - 1), tm_col := min (c - 1) (tm_cols T - 1)\<rparr>
         | _ \<Rightarrow> T\<lparr>tm_row := 0, tm_col := 0\<rparr>)
      else if f = 0x4b \<and> ps = [2] then T\<lparr>tm_screen := (tm_screen T)(tm_row T := blank_row (tm_attrs T))\<rparr>
      else if f = 0x4a \<and> ps = [2] then T\<lparr>tm_screen := (\<lambda>_. blank_row (tm_attrs T))\<rparr>
      else if f = 0x72 then
        (case ps of
           [u, l] \<Rightarrow> if u < l \<and> l \<le> tm_rows T then T\<lparr>tm_margins := (u - 1, l - 1), tm_row := 0, tm_col := 0\<rparr> else T
         | _ \<Rightarrow> T\<lparr>tm_margins := (0, tm_rows T - 1), tm_row := 0, tm_col := 0\<rparr>)
      else if f = 0x53 then (case ps of [n] \<Rightarrow> tm_scroll_up n T | _ \<Rightarrow> T)
      else if f = 0x54 then (case ps of [n] \<Rightarrow> tm_scroll_down n T | _ \<Rightarrow> T)
      else if f = 0x41 then
        (case ps of [n] \<Rightarrow> T\<lparr>tm_row := (if fst (tm_margins T) \<le> tm_row T then max (fst (tm_margins T)) (tm_row T - n) else tm_row T - n)\<rparr> | _ \<Rightarrow> T)
      else if f = 0x42 then
        (case ps of [n] \<Rightarrow> T\<lparr>tm_row := (if tm_row T \<le> snd (tm_margins T) then min (snd (tm_margins T)) (tm_row T + n)
                                    else min (tm_rows T - 1) (tm_row T + n))\<rparr> | _ \<Rightarrow> T)
      else T)"

definition tm_esc :: "byte \<Rightarrow> terminal \<Rightarrow> terminal" where
  "tm_esc b T =
     (if b = 0x37 then T\<lparr>tm_saved := (tm_row T, tm_col T, tm_attrs T)\<rparr>
      else if b = 0x38 then T\<lparr>tm_row := fst (tm_saved T), tm_col := fst (snd (tm_saved T)), tm_attrs := snd (snd (tm_saved T))\<rparr>
      else T)"

definition dec_value :: "bytes \<Rightarrow> nat" where
  "dec_value = foldl (\<lambda>v b. v * 10 + unat (b - 0x30)) 0"

text \<open>How the terminal cuts text into glyphs with their widths is a parameter.\<close>

function term_run :: "(bytes \<Rightarrow> (bytes \<times> nat) list) \<Rightarrow> bytes \<Rightarrow> terminal \<Rightarrow> terminal" where
  "term_run segs bs T =
     (case bs of
        [] \<Rightarrow> T
      | b # rest \<Rightarrow>
          if b = 0x1b then
            (case rest of
               [] \<Rightarrow> T
             | c # rest' \<Rightarrow>
                 if c = 0x5b then
                   let body = takeWhile (\<lambda>b. b < 0x40) rest' in
                   (case drop (length body) rest' of
                      [] \<Rightarrow> T
                    | f # rest'' \<Rightarrow> term_run segs rest'' (tm_csi (map dec_value (split_at 0x3b body)) f T))
                 else term_run segs rest' (tm_esc c T))
          else
            let str = takeWhile (\<lambda>b. b \<noteq> 0x1b) bs in
            term_run segs (drop (length str) bs) (fold put_glyph (segs str) T))"
  by pat_completeness auto
termination
proof (relation "measure (\<lambda>(segs, bs, T). length bs)", goal_cases)
  case (2 segs bs T b rest c rest' body f rest'')
  have "length (drop (length body) rest') = Suc (length rest'')" using 2 by (metis length_Cons)
  then show ?case using 2(1,3) by simp
qed auto

declare term_run.simps [simp del]

section \<open>Escape sequences\<close>

definition esc :: "nat list \<Rightarrow> byte \<Rightarrow> bytes" where
  "esc ns f = CSI @ semis ns @ [f]"

lemma w_csi_enabled: "w_csi enabled (semis ns) f buf = buf @ esc ns f"
  by (simp add: w_csi_def esc_def)

lemma dec_value_decimal: "dec_value (decimal n) = n"
proof (induction n rule: decimal.induct)
  case (1 n)
  have d: "unat (0x30 + of_nat d - 0x30 :: byte) = d" if "d < 10" for d using that by (simp add: unat_of_nat)
  show ?case using 1 d [of n] d [of "n mod 10"] by (cases "n < 10") (auto simp: decimal.simps [of n] dec_value_def)
qed

lemma split_semis: "ns \<noteq> [] \<Longrightarrow> map dec_value (split_at 0x3b (semis ns)) = ns"
  by (induction ns rule: semis.induct) (simp_all add: split_at_none split_at_sep dec_value_decimal)

lemma semis_low: "\<forall>b \<in> set (semis ns). b < 0x40"
proof -
  have "b < 0x40" if "b \<in> set (decimal n)" for b n
  proof -
    have "b \<le> 0x39" using decimal_digits [OF that] by simp
    then show ?thesis by (rule le_less_trans) simp
  qed
  then show ?thesis by (induction ns rule: semis.induct) auto
qed

lemma run_esc:
  assumes "ns \<noteq> []" "f \<ge> 0x40"
  shows "term_run segs (esc ns f @ rest) T = term_run segs rest (tm_csi ns f T)"
proof -
  have "takeWhile (\<lambda>b. b < 0x40) (semis ns @ f # rest) = semis ns"
    using semis_low assms(2) by (subst takeWhile_append2) (auto simp: not_less)
  then show ?thesis
    by (subst term_run.simps) (simp add: esc_def CSI_def Let_def split_semis [OF assms(1)])
qed

lemma run_two: "b \<noteq> 0x5b \<Longrightarrow> term_run segs (0x1b # b # rest) T = term_run segs rest (tm_esc b T)"
  by (subst term_run.simps) simp

lemma run_text:
  assumes "0x1b \<notin> set str" "rest = [] \<or> hd rest = 0x1b"
  shows "term_run segs (str @ rest) T = term_run segs rest (if str = [] then T else fold put_glyph (segs str) T)"
proof (cases str)
  case (Cons b bs)
  have "takeWhile (\<lambda>b. b \<noteq> 0x1b) (str @ rest) = str"
    using assms by (subst takeWhile_append2) (auto simp: takeWhile_eq_Nil_iff)
  then show ?thesis using assms Cons by (subst term_run.simps) (simp add: Let_def)
qed simp

section \<open>Styles\<close>

text \<open>What the emitted control sequences select for a colour.\<close>

definition emitted :: "Rgba8 \<Rightarrow> colour" where
  "emitted c = (if is_terminal_default c then Default else if is_palette c then Palette (palette_index c)
     else case to_rgb c of (r, g, b) \<Rightarrow> Rgb r g b)"

definition emitted_opt :: "Rgba8 option \<Rightarrow> colour" where
  "emitted_opt c = (case c of None \<Rightarrow> Default | Some c \<Rightarrow> emitted c)"

definition style_attrs :: "StyleState \<Rightarrow> attrs" where
  "style_attrs s = \<lparr>at_fg = emitted_opt (ss_fg s), at_bg = emitted_opt (ss_bg s), at_em = (case ss_em s of None \<Rightarrow> 0 | Some e \<Rightarrow> e)\<rparr>"

definition style_ok :: "StyleState \<Rightarrow> bool" where
  "style_ok s \<longleftrightarrow> (\<forall>c. ss_fg s = Some c \<or> ss_bg s = Some c \<longrightarrow> \<not> is_terminal_default c) \<and> ss_em s \<noteq> Some 0"

definition raw_attrs :: "RawChange \<Rightarrow> attrs" where
  "raw_attrs raw = \<lparr>at_fg = emitted (rc_fg raw), at_bg = emitted (rc_bg raw), at_em = rc_em raw\<rparr>"

definition emphasis_text :: "Emphasis \<Rightarrow> bytes" where
  "emphasis_text e = concat (map (\<lambda>(flag, code). if has_emphasis e flag then esc [code] 0x6d else []) emphasis_codes)"

lemma w_style_enabled: "w_style enabled e buf = buf @ emphasis_text e"
  by (simp add: w_style_def emphasis_text_def emphasis_codes_def w_csi_enabled del: semis.simps)

lemma has_emphasis_bit:
  "has_emphasis e 1 = bit e 0" "has_emphasis e 2 = bit e 1" "has_emphasis e 4 = bit e 2" "has_emphasis e 8 = bit e 3"
  "has_emphasis e 16 = bit e 4" "has_emphasis e 32 = bit e 5" "has_emphasis e 64 = bit e 6" "has_emphasis e 128 = bit e 7"
  by (simp_all add: has_emphasis_def bit_iff_and_push_bit_not_eq_0)

lemma emphasis_bits:
  fixes e :: Emphasis
  shows "(if bit e 0 then 1 else 0) OR (if bit e 1 then 2 else 0) OR (if bit e 2 then 4 else 0)
     OR (if bit e 3 then 8 else 0) OR (if bit e 4 then 16 else 0) OR (if bit e 5 then 32 else 0)
     OR (if bit e 6 then 64 else 0) OR (if bit e 7 then 128 else 0) = e" (is "?m = e")
proof (rule bit_word_eqI)
  fix n
  have i: "bit (if p then x else 0) k \<longleftrightarrow> p \<and> bit x k" for p k and x :: Emphasis by simp
  assume "n < LENGTH(8)"
  then have "n \<in> {0, 1, 2, 3, 4, 5, 6, 7}" by auto
  then show "bit ?m n = bit e n"
    unfolding bit_or_iff i by (elim insertE emptyE) simp_all
qed

lemma run_sgr: "ns \<noteq> [] \<Longrightarrow> term_run segs (esc ns 0x6d @ rest) T = term_run segs rest (T\<lparr>tm_attrs := sgr ns (tm_attrs T)\<rparr>)"
  by (simp add: run_esc tm_csi_def)

definition sgr_text :: "bytes \<Rightarrow> (attrs \<Rightarrow> attrs) \<Rightarrow> bool" where
  "sgr_text bs f \<longleftrightarrow> (\<forall>segs rest T. term_run segs (bs @ rest) T = term_run segs rest (T\<lparr>tm_attrs := f (tm_attrs T)\<rparr>))"

lemma sgr_text_Nil: "sgr_text [] id"
  by (simp add: sgr_text_def)

lemma sgr_text_append: "sgr_text a f \<Longrightarrow> sgr_text b g \<Longrightarrow> sgr_text (a @ b) (g \<circ> f)"
  by (simp add: sgr_text_def)

lemma sgr_text_esc: "ns \<noteq> [] \<Longrightarrow> sgr_text (esc ns 0x6d) (sgr ns)"
  by (simp add: sgr_text_def run_sgr)

lemma sgr_text_if:
  assumes "sgr_text bs f"
  shows "sgr_text (if p then bs else []) (if p then f else id)"
  using assms by (simp add: sgr_text_Nil)

lemma sgr_code: "(flag, code) \<in> set emphasis_codes \<Longrightarrow> sgr [code] a = a\<lparr>at_em := at_em a OR flag\<rparr>"
  by (auto simp: sgr_def emphasis_codes_def)

lemma emphasis_pieces:
  assumes "set cs \<subseteq> set emphasis_codes"
  shows "sgr_text (concat (map (\<lambda>(flag, code). if has_emphasis e flag then esc [code] 0x6d else []) cs))
    (\<lambda>a. a\<lparr>at_em := fold (\<lambda>(flag, code) em. if has_emphasis e flag then em OR flag else em) cs (at_em a)\<rparr>)"
  using assms
proof (induction cs)
  case Nil
  then show ?case using sgr_text_Nil by (simp add: id_def)
next
  case (Cons fc cs)
  obtain flag code where fc: "fc = (flag, code)" by (cases fc)
  have f: "sgr [code] = (\<lambda>a. a\<lparr>at_em := at_em a OR flag\<rparr>)" using sgr_code Cons.prems fc by auto
  have "sgr_text (if has_emphasis e flag then esc [code] 0x6d else []) (if has_emphasis e flag then sgr [code] else id)"
    by (rule sgr_text_if) (simp add: sgr_text_esc)
  from sgr_text_append [OF this Cons.IH] Cons.prems show ?case
    by (auto simp: fc f comp_def split: if_splits)
qed

lemma sgr_emphasis: "sgr_text (emphasis_text e) (\<lambda>a. a\<lparr>at_em := at_em a OR e\<rparr>)"
proof -
  have "fold (\<lambda>(flag, code) em. if has_emphasis e flag then em OR flag else em) emphasis_codes m = m OR e" for m
  proof -
    have i: "(if p then x OR f else x) = x OR (if p then f else 0)" for p and x f :: Emphasis by simp
    show ?thesis by (subst (2) emphasis_bits [of e, symmetric])
      (simp add: emphasis_codes_def has_emphasis_bit i or.assoc del: if_split)
  qed
  then show ?thesis using emphasis_pieces [of emphasis_codes e] by (simp add: emphasis_text_def)
qed

definition colour_text :: "bool \<Rightarrow> Rgba8 \<Rightarrow> bytes" where
  "colour_text fg c = (if is_palette c then esc [if fg then 38 else 48, 5, unat (palette_index c)] 0x6d
     else case to_rgb c of (r, g, b) \<Rightarrow> esc [if fg then 38 else 48, 2, unat r, unat g, unat b] 0x6d)"

lemma frame_colour_enabled:
  "frame_fg enabled c buf = buf @ colour_text True c" "frame_bg enabled c buf = buf @ colour_text False c"
  by (simp_all add: frame_fg_def frame_bg_def colour_text_def w_fg_palette_def w_bg_palette_def w_fg_def w_bg_def w_csi_enabled
      del: semis.simps split: prod.split)

lemma sgr_colour:
  assumes "\<not> is_terminal_default c"
  shows "sgr_text (colour_text True c) (at_fg_update (\<lambda>_. emitted c))" "sgr_text (colour_text False c) (at_bg_update (\<lambda>_. emitted c))"
proof -
  obtain r g b where rgb: "to_rgb c = (r, g, b)" by (cases "to_rgb c")
  have "sgr [38, 5, unat n] = at_fg_update (\<lambda>_. Palette n)" "sgr [48, 5, unat n] = at_bg_update (\<lambda>_. Palette n)"
    "sgr [38, 2, unat r, unat g, unat b] = at_fg_update (\<lambda>_. Rgb r g b)" "sgr [48, 2, unat r, unat g, unat b] = at_bg_update (\<lambda>_. Rgb r g b)" for n
    by (simp_all add: sgr_def fun_eq_iff)
  then show "sgr_text (colour_text True c) (at_fg_update (\<lambda>_. emitted c))" "sgr_text (colour_text False c) (at_bg_update (\<lambda>_. emitted c))"
    using sgr_text_esc [of "[38, 5, unat (palette_index c)]"] sgr_text_esc [of "[48, 5, unat (palette_index c)]"]
      sgr_text_esc [of "[38, 2, unat r, unat g, unat b]"] sgr_text_esc [of "[48, 2, unat r, unat g, unat b]"] assms
    by (simp_all add: colour_text_def emitted_def rgb)
qed

lemma style_step_fields:
  fixes s raw
  defines "run \<equiv> fst (style_step s raw)" and "s' \<equiv> snd (style_step s raw)"
  shows "cr_origin run = rc_origin raw" "cr_glyphs run = rc_glyphs raw"
    "cr_fg_reset run \<longleftrightarrow> is_terminal_default (rc_fg raw) \<and> ss_fg s \<noteq> None"
    "cr_fg_change run = (if \<not> is_terminal_default (rc_fg raw) \<and> Some (rc_fg raw) \<noteq> ss_fg s then Some (rc_fg raw) else None)"
    "cr_bg_reset run \<longleftrightarrow> is_terminal_default (rc_bg raw) \<and> ss_bg s \<noteq> None"
    "cr_bg_change run = (if \<not> is_terminal_default (rc_bg raw) \<and> Some (rc_bg raw) \<noteq> ss_bg s then Some (rc_bg raw) else None)"
    "cr_em_reset run \<longleftrightarrow> (\<exists>em. ss_em s = Some em \<and> em AND rc_em raw \<noteq> em)"
    "cr_em_change run = (if rc_em raw \<noteq> 0 \<and> Some (rc_em raw) \<noteq> ss_em s then Some (rc_em raw) else None)"
    "ss_fg s' = (if is_terminal_default (rc_fg raw) then None else Some (rc_fg raw))"
    "ss_bg s' = (if is_terminal_default (rc_bg raw) then None else Some (rc_bg raw))"
    "ss_em s' = (if rc_em raw = 0 then None else Some (rc_em raw))"
  unfolding run_def s'_def style_step_def Let_def by (auto split: option.splits prod.splits if_splits)

lemma style_after:
  fixes s raw
  defines "s' \<equiv> snd (style_step s raw)"
  shows "style_ok s'" "style_attrs s' = raw_attrs raw"
  using style_step_fields(9-11) [where s = s and raw = raw]
  by (auto simp: s'_def style_ok_def style_attrs_def raw_attrs_def emitted_opt_def emitted_def split: if_splits)

text \<open>The sequences before the text of a run bring the attributes of the terminal to those of the run.\<close>

definition reset_text :: "ChangeRun \<Rightarrow> Rgba8 option \<Rightarrow> Rgba8 option \<Rightarrow> bytes" where
  "reset_text run fg bg =
     (if cr_em_reset run
      then esc [0] 0x6d @ (case fg of Some c \<Rightarrow> colour_text True c | None \<Rightarrow> [])
           @ (case bg of Some c \<Rightarrow> colour_text False c | None \<Rightarrow> []) else [])"

definition bg_text :: "ChangeRun \<Rightarrow> bytes" where
  "bg_text run = (if cr_bg_reset run then esc [49] 0x6d else case cr_bg_change run of Some c \<Rightarrow> colour_text False c | None \<Rightarrow> [])"

definition fg_text :: "ChangeRun \<Rightarrow> bytes" where
  "fg_text run = (if cr_fg_reset run then esc [39] 0x6d else case cr_fg_change run of Some c \<Rightarrow> colour_text True c | None \<Rightarrow> [])"

definition em_text :: "ChangeRun \<Rightarrow> bytes" where
  "em_text run = (case cr_em_change run of Some e \<Rightarrow> emphasis_text e | None \<Rightarrow> [])"

definition style_text :: "StyleState \<Rightarrow> RawChange \<Rightarrow> bytes" where
  "style_text s raw =
     (let run = fst (style_step s raw) in reset_text run (ss_fg s) (ss_bg s) @ bg_text run @ fg_text run @ em_text run)"

lemma emit_text:
  "emit_reset enabled run fg bg buf = buf @ reset_text run fg bg"
  "fst (emit_bg_change enabled run bg buf) = buf @ bg_text run" "fst (emit_fg_change enabled run fg buf) = buf @ fg_text run"
  "(case cr_em_change run of Some e \<Rightarrow> w_style enabled e buf | None \<Rightarrow> buf) = buf @ em_text run"
proof -
  show "emit_reset enabled run fg bg buf = buf @ reset_text run fg bg"
    by (simp add: emit_reset_def reset_text_def Let_def w_reset_def w_csi_enabled frame_colour_enabled del: semis.simps split: option.split)
  show "fst (emit_bg_change enabled run bg buf) = buf @ bg_text run"
    by (simp add: emit_bg_change_def bg_text_def w_bg_default_def w_csi_enabled frame_colour_enabled del: semis.simps split: option.split)
  show "fst (emit_fg_change enabled run fg buf) = buf @ fg_text run"
    by (simp add: emit_fg_change_def fg_text_def w_fg_default_def w_csi_enabled frame_colour_enabled del: semis.simps split: option.split)
  show "(case cr_em_change run of Some e \<Rightarrow> w_style enabled e buf | None \<Rightarrow> buf) = buf @ em_text run"
    by (simp add: em_text_def w_style_enabled split: option.split)
qed

lemma emit_colours:
  fixes s raw
  defines "run \<equiv> fst (style_step s raw)" and "s' \<equiv> snd (style_step s raw)"
  shows "snd (emit_bg_change mode run (ss_bg s) buf) = ss_bg s'" "snd (emit_fg_change mode run (ss_fg s) buf) = ss_fg s'"
  using style_step_fields [where s = s and raw = raw] unfolding run_def s'_def
  by (auto simp: emit_bg_change_def emit_fg_change_def)

lemma sgr_text_opt:
  assumes "\<And>c. o' = Some c \<Longrightarrow> sgr_text (f c) (g c)"
  shows "sgr_text (case o' of Some c \<Rightarrow> f c | None \<Rightarrow> []) (case o' of Some c \<Rightarrow> g c | None \<Rightarrow> id)"
  using assms by (cases o') (simp_all add: sgr_text_Nil)

lemma sgr_text_cond: "sgr_text a f \<Longrightarrow> sgr_text b g \<Longrightarrow> sgr_text (if p then a else b) (if p then f else g)"
  by simp

lemma sgr_simple: "sgr [0] = (\<lambda>_. plain)" "sgr [39] = at_fg_update (\<lambda>_. Default)" "sgr [49] = at_bg_update (\<lambda>_. Default)"
  by (simp_all add: sgr_def fun_eq_iff)

lemma or_absorb_and: "em AND e = em \<Longrightarrow> em OR e = e" for em e :: Emphasis
  by (rule bit_word_eqI) (metis bit_and_iff bit_or_iff)

lemma style_text_sets:
  assumes ok: "style_ok s"
  shows "\<exists>f. sgr_text (style_text s raw) f \<and> f (style_attrs s) = raw_attrs raw"
proof -
  let ?run = "fst (style_step s raw)"
  note F = style_step_fields [where s = s and raw = raw]
  have nd: "\<not> is_terminal_default c" if "ss_fg s = Some c \<or> ss_bg s = Some c" for c using ok that by (auto simp: style_ok_def)
  have r: "sgr_text (if cr_em_reset ?run then esc [0] 0x6d @ (case ss_fg s of Some c \<Rightarrow> colour_text True c | None \<Rightarrow> [])
        @ (case ss_bg s of Some c \<Rightarrow> colour_text False c | None \<Rightarrow> []) else [])
      (if cr_em_reset ?run then ((case ss_bg s of Some c \<Rightarrow> at_bg_update (\<lambda>_. emitted c) | None \<Rightarrow> id)
         \<circ> (case ss_fg s of Some c \<Rightarrow> at_fg_update (\<lambda>_. emitted c) | None \<Rightarrow> id)) \<circ> sgr [0] else id)" (is "sgr_text _ ?r")
    by (intro sgr_text_cond sgr_text_append sgr_text_esc sgr_text_Nil sgr_text_opt sgr_colour) (simp_all add: nd)
  have b: "sgr_text (if cr_bg_reset ?run then esc [49] 0x6d else case cr_bg_change ?run of Some c \<Rightarrow> colour_text False c | None \<Rightarrow> [])
      (if cr_bg_reset ?run then sgr [49] else case cr_bg_change ?run of Some c \<Rightarrow> at_bg_update (\<lambda>_. emitted c) | None \<Rightarrow> id)" (is "sgr_text _ ?b")
    by (intro sgr_text_cond sgr_text_esc sgr_text_opt sgr_colour) (auto simp: F split: if_splits)
  have f: "sgr_text (if cr_fg_reset ?run then esc [39] 0x6d else case cr_fg_change ?run of Some c \<Rightarrow> colour_text True c | None \<Rightarrow> [])
      (if cr_fg_reset ?run then sgr [39] else case cr_fg_change ?run of Some c \<Rightarrow> at_fg_update (\<lambda>_. emitted c) | None \<Rightarrow> id)" (is "sgr_text _ ?f")
    by (intro sgr_text_cond sgr_text_esc sgr_text_opt sgr_colour) (auto simp: F split: if_splits)
  have e: "sgr_text (case cr_em_change ?run of Some e \<Rightarrow> emphasis_text e | None \<Rightarrow> [])
      (case cr_em_change ?run of Some e \<Rightarrow> (\<lambda>a. a\<lparr>at_em := at_em a OR e\<rparr>) | None \<Rightarrow> id)" (is "sgr_text _ ?e")
    by (intro sgr_text_opt sgr_emphasis)
  have "(((?e \<circ> ?f) \<circ> ?b) \<circ> ?r) (style_attrs s) = raw_attrs raw"
  proof -
    have fg: "at_fg (?r (style_attrs s)) = emitted_opt (ss_fg s)" and bg: "at_bg (?r (style_attrs s)) = emitted_opt (ss_bg s)"
      by (auto simp: sgr_simple style_attrs_def emitted_opt_def plain_def split: option.splits)
    have em: "at_em (?r (style_attrs s)) = (if cr_em_reset ?run then 0 else at_em (style_attrs s))"
      by (auto simp: sgr_simple plain_def split: option.splits)
    have "at_fg ((((?e \<circ> ?f) \<circ> ?b) \<circ> ?r) (style_attrs s)) = emitted (rc_fg raw)"
      using fg by (auto simp: F sgr_simple emitted_opt_def emitted_def split: option.splits if_splits)
    moreover have "at_bg ((((?e \<circ> ?f) \<circ> ?b) \<circ> ?r) (style_attrs s)) = emitted (rc_bg raw)"
      using bg by (auto simp: F sgr_simple emitted_opt_def emitted_def split: option.splits if_splits)
    moreover have "at_em ((((?e \<circ> ?f) \<circ> ?b) \<circ> ?r) (style_attrs s)) = rc_em raw"
    proof -
      have "at_em ((((?e \<circ> ?f) \<circ> ?b) \<circ> ?r) (style_attrs s)) =
        (case cr_em_change ?run of Some e \<Rightarrow> at_em (?r (style_attrs s)) OR e | None \<Rightarrow> at_em (?r (style_attrs s)))"
        by (auto simp: sgr_simple split: option.splits)
      also have "\<dots> = rc_em raw"
        unfolding em using ok or_absorb_and
        by (auto simp: F style_attrs_def style_ok_def split: option.splits if_splits)
      finally show ?thesis .
    qed
    ultimately show ?thesis by (simp add: raw_attrs_def)
  qed
  moreover have "sgr_text (style_text s raw) (((?e \<circ> ?f) \<circ> ?b) \<circ> ?r)"
    unfolding style_text_def Let_def reset_text_def bg_text_def fg_text_def em_text_def by (intro sgr_text_append r b f e)
  ultimately show ?thesis by blast
qed

lemma write_terminal_text_plain:
  assumes "set str \<inter> {0x0a, 0x0d, 0x09, 0x0b, 0x0c, 0x1b} = {}"
  shows "write_terminal_text str buf = Inr (buf @ str)"
  using assms by (induction str arbitrary: buf) (auto simp: w_text_def)

lemma write_terminal_text_control:
  assumes "set str \<inter> {0x0a, 0x0d, 0x09, 0x0b, 0x0c, 0x1b} \<noteq> {}"
  shows "write_terminal_text str buf = Inl ControlGlyph"
  using assms by (induction str arbitrary: buf) auto

definition printable :: "GlyphTable \<Rightarrow> glyph_id \<Rightarrow> bool" where
  "printable t gid \<longleftrightarrow> set (glyph_text t gid) \<inter> {0x0a, 0x0d, 0x09, 0x0b, 0x0c, 0x1b} = {}"

lemma write_glyphs_step:
  "write_glyphs t (gid # gids) buf = (if printable t gid then write_glyphs t gids (buf @ glyph_text t gid) else Inl ControlGlyph)"
  using write_terminal_text_plain write_terminal_text_control by (auto simp: glyph_text_def printable_def split: option.splits)

lemma write_glyphs_plain:
  "\<forall>gid \<in> set gids. printable t gid \<Longrightarrow> write_glyphs t gids buf = Inr (buf @ concat (map (glyph_text t) gids))"
  by (induction gids arbitrary: buf) (simp_all add: write_glyphs_step del: write_glyphs.simps(2))

lemma write_glyphs_control: "\<exists>gid \<in> set gids. \<not> printable t gid \<Longrightarrow> write_glyphs t gids buf = Inl ControlGlyph"
  by (induction gids arbitrary: buf) (auto simp: write_glyphs_step simp del: write_glyphs.simps(2))

lemma emit_run_enabled:
  assumes "\<forall>gid \<in> set (rc_glyphs raw). printable t gid"
  shows "emit_run enabled t off (fst (style_step s raw)) (buf, ss_fg s, ss_bg s) =
    Inr (buf @ esc [snd (rc_origin raw) + off + 1, fst (rc_origin raw) + 1] 0x48 @ style_text s raw
        @ concat (map (glyph_text t) (rc_glyphs raw)), ss_fg (snd (style_step s raw)), ss_bg (snd (style_step s raw)))"
proof -
  have m: "w_move_to enabled (x, y) buf = buf @ esc [Suc y, Suc x] 0x48" for x y
    by (simp add: w_move_to_def w_csi_enabled del: semis.simps)
  show ?thesis
    unfolding emit_run_def Let_def prod.case case_prod_beta m emit_text emit_colours style_step_fields(1,2)
      write_glyphs_plain [OF assms] style_text_def
    by (simp add: m emit_colours)
qed

text \<open>What a run does to the terminal.\<close>

definition exec_raw :: "(bytes \<Rightarrow> (bytes \<times> nat) list) \<Rightarrow> GlyphTable \<Rightarrow> nat \<Rightarrow> RawChange \<Rightarrow> terminal \<Rightarrow> terminal" where
  "exec_raw segs t off raw T =
     (let str = concat (map (glyph_text t) (rc_glyphs raw));
          T' = T\<lparr>tm_row := min (snd (rc_origin raw) + off) (tm_rows T - 1), tm_col := min (fst (rc_origin raw)) (tm_cols T - 1),
                 tm_attrs := raw_attrs raw\<rparr>
      in if str = [] then T' else fold put_glyph (segs str) T')"

lemma run_raw:
  assumes ok: "style_ok s" and a: "tm_attrs T = style_attrs s" and p: "\<forall>gid \<in> set (rc_glyphs raw). printable t gid"
    and rest: "rest = [] \<or> hd rest = 0x1b"
  shows "term_run segs (esc [snd (rc_origin raw) + off + 1, fst (rc_origin raw) + 1] 0x48 @ style_text s raw
        @ concat (map (glyph_text t) (rc_glyphs raw)) @ rest) T = term_run segs rest (exec_raw segs t off raw T)"
proof -
  obtain f where f: "sgr_text (style_text s raw) f" "f (style_attrs s) = raw_attrs raw" using style_text_sets [OF ok] by blast
  have n: "0x1b \<notin> set (concat (map (glyph_text t) (rc_glyphs raw)))" using p by (auto simp: printable_def)
  have c: "tm_csi [Suc (snd (rc_origin raw) + off), Suc (fst (rc_origin raw))] 0x48 T =
    T\<lparr>tm_row := min (snd (rc_origin raw) + off) (tm_rows T - 1), tm_col := min (fst (rc_origin raw)) (tm_cols T - 1)\<rparr>"
    by (simp add: tm_csi_def)
  show ?thesis
    using f(1) unfolding sgr_text_def
    by (simp add: run_esc c run_text [OF n rest] exec_raw_def Let_def a f(2))
qed

lemma put_glyph_attrs: "tm_attrs (fold put_glyph gs T) = tm_attrs T"
  by (induction gs arbitrary: T) (auto simp: put_glyph_def Let_def split: prod.splits)

lemma exec_raw_attrs: "tm_attrs (exec_raw segs t off raw T) = raw_attrs raw"
  by (simp add: exec_raw_def Let_def put_glyph_attrs)

lemma emit_runs_enabled:
  assumes "style_ok s" "tm_attrs T = style_attrs s" "\<forall>raw \<in> set raws. \<forall>gid \<in> set (rc_glyphs raw). printable t gid"
  shows "\<exists>out fg bg. emit_runs enabled t off (diff_from s raws) (buf, ss_fg s, ss_bg s) = Inr (buf @ out, fg, bg)
    \<and> (out = [] \<or> hd out = 0x1b)
    \<and> (\<forall>rest. rest = [] \<or> hd rest = 0x1b \<longrightarrow> term_run segs (out @ rest) T = term_run segs rest (fold (exec_raw segs t off) raws T))"
  using assms
proof (induction raws arbitrary: s T buf)
  case (Cons raw raws)
  let ?s = "snd (style_step s raw)"
  let ?o = "esc [snd (rc_origin raw) + off + 1, fst (rc_origin raw) + 1] 0x48 @ style_text s raw
    @ concat (map (glyph_text t) (rc_glyphs raw))"
  have p: "\<forall>gid \<in> set (rc_glyphs raw). printable t gid" using Cons.prems(3) by simp
  have "tm_attrs (exec_raw segs t off raw T) = style_attrs ?s" by (simp add: exec_raw_attrs style_after)
  from Cons.IH [OF style_after(1) this, of "buf @ ?o"] Cons.prems(3) obtain out fg bg where
    o: "emit_runs enabled t off (diff_from ?s raws) (buf @ ?o, ss_fg ?s, ss_bg ?s) = Inr ((buf @ ?o) @ out, fg, bg)"
      "out = [] \<or> hd out = 0x1b"
      "\<forall>rest. rest = [] \<or> hd rest = 0x1b \<longrightarrow>
        term_run segs (out @ rest) (exec_raw segs t off raw T) = term_run segs rest (fold (exec_raw segs t off) raws (exec_raw segs t off raw T))"
    by auto
  have e: "emit_runs enabled t off (diff_from s (raw # raws)) (buf, ss_fg s, ss_bg s) = Inr (buf @ (?o @ out), fg, bg)"
    using o(1) emit_run_enabled [OF p, of off s buf] by (simp add: Let_def case_prod_beta)
  have h: "?o @ out = [] \<or> hd (?o @ out) = 0x1b" by (simp add: esc_def CSI_def)
  have "term_run segs ((?o @ out) @ rest) T = term_run segs rest (fold (exec_raw segs t off) (raw # raws) T)"
    if "rest = [] \<or> hd rest = 0x1b" for rest
  proof -
    have "out @ rest = [] \<or> hd (out @ rest) = 0x1b" using that o(2) by (cases out) auto
    from run_raw [OF Cons.prems(1,2) p this, of segs off] that o(3) show ?thesis by simp
  qed
  then show ?case using e h by blast
qed simp

end
