(* ===== verification/Frame.thy ===== *)
theory Frame
  imports Terminal
begin

text \<open>
  Presenting a frame: the runs of changed cells, printed on a terminal that shows the front buffer, leave it showing the
  back buffer.  A row is a function from columns to glyphs, in which a wide glyph is followed by an empty one.
\<close>

section \<open>Rows of cells\<close>

text \<open>The column where the glyph at a column begins, and what a terminal shows there.\<close>

definition lead :: "(nat \<Rightarrow> bytes) \<Rightarrow> nat \<Rightarrow> nat" where
  "lead g x = (if g x = [] then x - 1 else x)"

definition shown_at :: "(nat \<Rightarrow> bytes) \<Rightarrow> (nat \<Rightarrow> nat) \<Rightarrow> (nat \<Rightarrow> attrs) \<Rightarrow> nat \<Rightarrow> shown" where
  "shown_at g w a x = Part (g (lead g x)) (w (lead g x)) (a (lead g x)) (x - lead g x)"

text \<open>The glyphs of the columns \<open>D\<close> are on the line.\<close>

definition holds :: "nat \<Rightarrow> (nat \<Rightarrow> bytes) \<Rightarrow> (nat \<Rightarrow> nat) \<Rightarrow> (nat \<Rightarrow> attrs) \<Rightarrow> nat set \<Rightarrow> (nat \<Rightarrow> shown) \<Rightarrow> bool" where
  "holds n g w a D line \<longleftrightarrow> (\<forall>x < n. lead g x \<in> D \<longrightarrow> line x = shown_at g w a x)"

text \<open>A row whose glyphs take one cell, or two with an empty glyph in the second.\<close>

definition cell_row :: "nat \<Rightarrow> (nat \<Rightarrow> bytes) \<Rightarrow> (nat \<Rightarrow> nat) \<Rightarrow> bool" where
  "cell_row n g w \<longleftrightarrow> (\<forall>x < n. if g x = [] then 0 < x \<and> g (x - 1) \<noteq> [] \<and> w (x - 1) = 2
     else w x = 1 \<or> w x = 2 \<and> x + 1 < n \<and> g (x + 1) = [])"

lemma cell_rowD:
  assumes "cell_row n g w"
  shows row_glyph: "x < n \<Longrightarrow> g x \<noteq> [] \<Longrightarrow> w x = 1 \<or> w x = 2 \<and> x + 1 < n \<and> g (x + 1) = []"
    and row_tail: "x < n \<Longrightarrow> g x = [] \<Longrightarrow> 0 < x \<and> g (x - 1) \<noteq> [] \<and> w (x - 1) = 2"
  using assms by (auto simp: cell_row_def)

lemma lead_glyph: "cell_row n g w \<Longrightarrow> x < n \<Longrightarrow> g (lead g x) \<noteq> []"
  using row_tail by (simp add: lead_def)

lemma lead_covers: "cell_row n g w \<Longrightarrow> x < n \<Longrightarrow> lead g x \<le> x \<and> x < lead g x + w (lead g x)"
  using row_tail [of n g w x] row_glyph [of n g w x] by (cases "g x = []") (auto simp: lead_def)

lemma covered:
  assumes row: "cell_row n g w" and c: "c < n" "g c \<noteq> []" and x: "c \<le> x" "x < c + w c"
  shows "x < n \<and> lead g x = c"
proof -
  have "w c = 1 \<or> w c = 2 \<and> c + 1 < n \<and> g (c + 1) = []" using row_glyph [OF row c] .
  then show ?thesis
  proof
    assume "w c = 1"
    then have "x = c" using x by simp
    then show ?thesis using c by (simp add: lead_def)
  next
    assume w: "w c = 2 \<and> c + 1 < n \<and> g (c + 1) = []"
    then have "x = c \<or> x = c + 1" using x by auto
    then show ?thesis using w c by (auto simp: lead_def)
  qed
qed

lemma apart:
  assumes row: "cell_row n g w" and x: "x < n" and c: "c < n" "g c \<noteq> []" and ne: "lead g x \<noteq> c"
  shows "\<not> hits (lead g x) (w (lead g x)) c (w c)"
proof
  assume h: "hits (lead g x) (w (lead g x)) c (w c)"
  let ?s = "lead g x"
  have s: "?s < n" "g ?s \<noteq> []" using lead_covers [OF row x] lead_glyph [OF row x] x by auto
  have "lead g ?s = ?s" "lead g c = c" using s c(2) by (simp_all add: lead_def)
  then show False
    using h covered [OF row s, of c] covered [OF row c, of ?s] ne by (cases "?s \<le> c") (auto simp: hits_def)
qed

lemma print_lead:
  assumes row: "cell_row n g w" and h: "holds n g w a D line" and c: "c < n" "g c \<noteq> []"
  shows "holds n g w a (insert c D) (overwrite c (g c) (w c) (a c) line)"
  unfolding holds_def
proof (intro allI impI)
  fix x
  assume x: "x < n" "lead g x \<in> insert c D"
  show "overwrite c (g c) (w c) (a c) line x = shown_at g w a x"
  proof (cases "lead g x = c")
    case True
    then show ?thesis using lead_covers [OF row x(1)] by (simp add: overwrite_def shown_at_def)
  next
    case False
    then have l: "line x = shown_at g w a x" using h x by (simp add: holds_def)
    have "\<not> (c \<le> x \<and> x < c + w c)" using covered [OF row c] False by blast
    moreover have "x - (x - lead g x) = lead g x" using lead_covers [OF row x(1)] by simp
    ultimately show ?thesis using apart [OF row x(1) c False] l by (auto simp: overwrite_def shown_at_def)
  qed
qed

lemma next_glyph:
  assumes row: "cell_row n g w" and c: "c < n" "g c \<noteq> []"
  shows "c + w c < n \<Longrightarrow> g (c + w c) \<noteq> []"
proof
  assume n: "c + w c < n" "g (c + w c) = []"
  have "w c = 1 \<or> w c = 2 \<and> g (c + 1) = []" using row_glyph [OF row c] by blast
  then show False using row_tail [OF row n] c by (auto simp: numeral_2_eq_2)
qed


text \<open>Printing the glyphs that begin in \<open>c..<e\<close>.\<close>

definition glyphs_in :: "(nat \<Rightarrow> bytes) \<Rightarrow> (nat \<Rightarrow> nat) \<Rightarrow> nat \<Rightarrow> nat \<Rightarrow> (bytes \<times> nat) list" where
  "glyphs_in g w c e = map (\<lambda>x. (g x, w x)) (filter (\<lambda>x. g x \<noteq> []) [c..<e])"

definition same_but :: "nat set \<Rightarrow> terminal \<Rightarrow> terminal \<Rightarrow> bool" where
  "same_but R T T' \<longleftrightarrow> tm_rows T' = tm_rows T \<and> tm_cols T' = tm_cols T \<and> tm_saved T' = tm_saved T \<and> tm_margins T' = tm_margins T \<and> tm_wrapped T' = tm_wrapped T
     \<and> (\<forall>r. r \<notin> R \<longrightarrow> tm_screen T' r = tm_screen T r)"

lemma same_but_refl: "same_but R T T"
  by (simp add: same_but_def)

lemma same_but_trans: "same_but R T T' \<Longrightarrow> same_but R' T' T'' \<Longrightarrow> same_but (R \<union> R') T T''"
  by (simp add: same_but_def)


lemma glyphs_in_step:
  assumes row: "cell_row n g w" and "c < e" "e \<le> n" "g c \<noteq> []"
  shows "glyphs_in g w c e = (g c, w c) # glyphs_in g w (c + w c) e"
proof -
  have "w c = 1 \<or> w c = 2 \<and> c + 1 < n \<and> g (c + 1) = []" using row_glyph [OF row, of c] assms by simp
  moreover have "[c..<e] = c # [Suc c..<e]" using assms(2) by (rule upt_conv_Cons)
  moreover have "[Suc c..<e] = Suc c # [Suc (Suc c)..<e] \<or> [Suc c..<e] = [] \<and> [Suc (Suc c)..<e] = []"
    using upt_conv_Cons [of "Suc c" e] by (cases "Suc c < e") auto
  ultimately show ?thesis using assms(4) by (auto simp: glyphs_in_def)
qed

lemma print_range:
  assumes row: "cell_row n g w" and "holds n g w a D (tm_screen T (tm_row T))" "e \<le> n" "n \<le> tm_cols T" "tm_col T = c" "c < e \<Longrightarrow> g c \<noteq> []"
    "\<forall>x. c \<le> x \<longrightarrow> x < e \<longrightarrow> a x = tm_attrs T"
  shows "same_but {tm_row T} T (fold put_glyph (glyphs_in g w c e) T)
    \<and> holds n g w a (D \<union> {c..<e}) (tm_screen (fold put_glyph (glyphs_in g w c e) T) (tm_row T))
    \<and> tm_row (fold put_glyph (glyphs_in g w c e) T) = tm_row T"
  using assms(2-)
proof (induction "e - c" arbitrary: c T D rule: less_induct)
  case less
  show ?case
  proof (cases "c < e")
    case False
    then show ?thesis using less.prems(1) by (simp add: glyphs_in_def same_but_refl)
  next
    case True
    have c: "c < n" "g c \<noteq> []" using True less.prems by auto
    have w: "1 \<le> w c" "c + w c \<le> n" using row_glyph [OF row c] c by auto
    let ?T = "put_glyph (g c, w c) T"
    have T: "?T = T\<lparr>tm_screen := (tm_screen T)(tm_row T := overwrite c (g c) (w c) (a c) (tm_screen T (tm_row T))), tm_col := c + w c\<rparr>"
      using w less.prems(3,4,6) True by (simp add: put_glyph_def)
    have h: "holds n g w a (insert c D) (tm_screen ?T (tm_row ?T))" using print_lead [OF row less.prems(1) c] by (simp add: T)
    have "same_but {tm_row ?T} ?T (fold put_glyph (glyphs_in g w (c + w c) e) ?T)
      \<and> holds n g w a (insert c D \<union> {c + w c..<e}) (tm_screen (fold put_glyph (glyphs_in g w (c + w c) e) ?T) (tm_row ?T))
      \<and> tm_row (fold put_glyph (glyphs_in g w (c + w c) e) ?T) = tm_row ?T"
    proof (rule less.hyps)
      show "c + w c < e \<Longrightarrow> g (c + w c) \<noteq> []" using next_glyph [OF row c] less.prems(2) by simp
    qed (use True w h less.prems in \<open>auto simp: T\<close>)
    moreover have "same_but {tm_row T} T ?T" by (simp add: T same_but_def)
    moreover have "holds n g w a (D \<union> {c..<e}) line" if "holds n g w a (insert c D \<union> {c + w c..<e}) line" for line
      unfolding holds_def
    proof (intro allI impI)
      fix x assume x: "x < n" "lead g x \<in> D \<union> {c..<e}"
      have "lead g x = c \<or> c + w c \<le> lead g x" if "c \<le> lead g x"
        using covered [OF row c that] lead_glyph [OF row x(1)] by (auto simp: lead_def not_less [symmetric])
      then show "line x = shown_at g w a x" using that x by (auto simp: holds_def)
    qed
    ultimately show ?thesis
      using same_but_trans [of "{tm_row T}" T ?T "{tm_row T}"] glyphs_in_step [OF row True less.prems(2) c(2)] by (simp add: T)
  qed
qed


section \<open>Chunks\<close>

lemma chunk_by_Cons: "xs \<noteq> [] \<Longrightarrow> \<exists>c cs. chunk_by R xs = c # cs \<and> c \<noteq> [] \<and> hd c = hd xs"
  by (induction R xs rule: chunk_by.induct) (auto split: list.split)

lemma chunk_by_head:
  assumes "xs \<noteq> []"
  shows "\<exists>k > 0. k \<le> length xs \<and> chunk_by R xs = take k xs # chunk_by R (drop k xs)
    \<and> (\<forall>i. Suc i < k \<longrightarrow> R (xs ! i) (xs ! Suc i)) \<and> (k < length xs \<longrightarrow> \<not> R (xs ! (k - 1)) (xs ! k))"
  using assms
proof (induction R xs rule: chunk_by.induct)
  case (2 R x)
  then show ?case by (intro exI [of _ 1]) simp
next
  case (3 R x y xs)
  show ?case
  proof (cases "R x y")
    case False
    then show ?thesis by (intro exI [of _ 1]) simp
  next
    case True
    then obtain k where k: "k > 0" "k \<le> length (y # xs)" "chunk_by R (y # xs) = take k (y # xs) # chunk_by R (drop k (y # xs))"
      "\<forall>i. Suc i < k \<longrightarrow> R ((y # xs) ! i) ((y # xs) ! Suc i)" "k < length (y # xs) \<longrightarrow> \<not> R ((y # xs) ! (k - 1)) ((y # xs) ! k)"
      using 3 by auto
    have "R ((x # y # xs) ! i) ((x # y # xs) ! Suc i)" if "Suc i < Suc k" for i
      using that k(1,4) True by (cases i) auto
    then show ?thesis using k True by (intro exI [of _ "Suc k"]) (auto simp: nth_Cons')
  qed
qed simp

section \<open>Frames\<close>

definition raster_cell :: "Raster \<Rightarrow> nat \<Rightarrow> nat \<Rightarrow> Cell" where
  "raster_cell r y x = cell_of r (y * ra_width r + x)"

definition cell_text :: "GlyphTable \<Rightarrow> Raster \<Rightarrow> nat \<Rightarrow> nat \<Rightarrow> bytes" where
  "cell_text t r y x = glyph_text t (c_glyph (raster_cell r y x))"

text \<open>The colour of a cell as \<^verbatim>\<open>style.hpp\<close> documents it: the terminal's own for the default colour and for the
  transparent one, a palette entry, or a direct colour.\<close>

definition paint :: "Rgba8 \<Rightarrow> colour" where
  "paint c = (if is_terminal_default c \<or> is_transparent c then Default
     else if is_palette c then Palette (palette_index c) else case to_rgb c of (r, g, b) \<Rightarrow> Rgb r g b)"

lemma paint_emitted: "\<not> is_transparent c \<Longrightarrow> paint c = emitted c"
  by (simp add: paint_def emitted_def)

text \<open>\<^verbatim>\<open>emit_fg\<close> and \<^verbatim>\<open>emit_bg\<close> have no case for the transparent colour and draw it as a direct colour.\<close>

lemma transparent_misprints: "paint transparent = Default \<and> emitted transparent \<noteq> Default"
  by (simp add: paint_def emitted_def transparent_def is_transparent_def is_terminal_default_def is_palette_def to_rgb_def)

definition cell_attrs :: "Raster \<Rightarrow> nat \<Rightarrow> nat \<Rightarrow> attrs" where
  "cell_attrs r y x = (let c = raster_cell r y x in \<lparr>at_fg = paint (c_fg c), at_bg = paint (c_bg c), at_em = c_em c\<rparr>)"

definition raster_ok :: "Raster \<Rightarrow> bool" where
  "raster_ok r \<longleftrightarrow> (let n = ra_width r * ra_height r in
     length (ra_glyphs r) = n \<and> length (ra_fgs r) = n \<and> length (ra_bgs r) = n \<and> length (ra_ems r) = n)"

text \<open>A frame a terminal can show: known glyphs of one or two cells without the bytes that are rejected,
  behind a wide glyph the empty glyph in the same style, and no transparent colours, which the
  compositor misprints.\<close>

definition same_style :: "Cell \<Rightarrow> Cell \<Rightarrow> bool" where
  "same_style c d \<longleftrightarrow> c_fg c = c_fg d \<and> c_bg c = c_bg d \<and> c_em c = c_em d"

definition cell_ok :: "(bytes \<Rightarrow> nat) \<Rightarrow> GlyphTable \<Rightarrow> Raster \<Rightarrow> nat \<Rightarrow> nat \<Rightarrow> bool" where
  "cell_ok wd t r y x \<longleftrightarrow>
     unat (c_glyph (raster_cell r y x)) < gt_size t \<and> printable t (c_glyph (raster_cell r y x))
     \<and> \<not> is_transparent (c_fg (raster_cell r y x)) \<and> \<not> is_transparent (c_bg (raster_cell r y x))
     \<and> (if cell_text t r y x = [] then 0 < x \<and> cell_text t r y (x - 1) \<noteq> [] \<and> wd (cell_text t r y (x - 1)) = 2
        else wd (cell_text t r y x) = 1
          \<or> wd (cell_text t r y x) = 2 \<and> x + 1 < ra_width r \<and> cell_text t r y (x + 1) = []
            \<and> same_style (raster_cell r y x) (raster_cell r y (x + 1)))"

definition frame_ok :: "(bytes \<Rightarrow> nat) \<Rightarrow> GlyphTable \<Rightarrow> Raster \<Rightarrow> bool" where
  "frame_ok wd t r \<longleftrightarrow> raster_ok r \<and> (\<forall>y < ra_height r. \<forall>x < ra_width r. cell_ok wd t r y x)"

text \<open>The terminal shows the raster from row \<open>off\<close> on.\<close>

definition displays :: "(bytes \<Rightarrow> nat) \<Rightarrow> GlyphTable \<Rightarrow> Raster \<Rightarrow> nat \<Rightarrow> terminal \<Rightarrow> bool" where
  "displays wd t r off T \<longleftrightarrow> (\<forall>y < ra_height r. \<forall>x < ra_width r.
     tm_screen T (off + y) x = shown_at (cell_text t r y) (\<lambda>x. wd (cell_text t r y x)) (cell_attrs r y) x)"

text \<open>The terminal cuts the text of neighbouring cells into their glyphs, with the same widths.\<close>

definition cuts_cells :: "(bytes \<Rightarrow> (bytes \<times> nat) list) \<Rightarrow> (bytes \<Rightarrow> nat) \<Rightarrow> GlyphTable \<Rightarrow> Raster \<Rightarrow> bool" where
  "cuts_cells segs wd t r \<longleftrightarrow> (\<forall>y < ra_height r. \<forall>e \<le> ra_width r. \<forall>c < e.
     segs (concat (map (cell_text t r y) [c..<e])) = glyphs_in (cell_text t r y) (\<lambda>x. wd (cell_text t r y x)) c e)"

text \<open>Two ids of a table have the same text only if they are equal.\<close>

definition glyphs_distinct :: "GlyphTable \<Rightarrow> bool" where
  "glyphs_distinct t \<longleftrightarrow> distinct (gt_glyphs t)"

lemma glyph_text_inj:
  assumes "glyphs_distinct t" "unat i < gt_size t" "unat j < gt_size t" "glyph_text t i = glyph_text t j"
  shows "i = j"
proof -
  have "gt_glyphs t ! unat i = gt_glyphs t ! unat j" using assms(2-4) by (simp add: glyph_text_def gt_get_def gt_size_def)
  then have "unat i = unat j" using assms(1-3) by (simp add: glyphs_distinct_def gt_size_def nth_eq_iff_index_eq)
  then show ?thesis by (simp add: word_unat_eq_iff)
qed

lemma frame_cell: "frame_ok wd t r \<Longrightarrow> y < ra_height r \<Longrightarrow> x < ra_width r \<Longrightarrow> cell_ok wd t r y x"
  by (simp add: frame_ok_def)

lemma frame_row:
  assumes "frame_ok wd t r" "y < ra_height r"
  shows "cell_row (ra_width r) (cell_text t r y) (\<lambda>x. wd (cell_text t r y x))"
  unfolding cell_row_def
proof (intro allI impI)
  fix x assume x: "x < ra_width r"
  show "if cell_text t r y x = [] then 0 < x \<and> cell_text t r y (x - 1) \<noteq> [] \<and> wd (cell_text t r y (x - 1)) = 2
    else wd (cell_text t r y x) = 1 \<or> wd (cell_text t r y x) = 2 \<and> x + 1 < ra_width r \<and> cell_text t r y (x + 1) = []"
    using frame_cell [OF assms x, unfolded cell_ok_def] by (auto split: if_splits)
qed

lemma glyph_span_cells:
  assumes "raster_ok r" "y < ra_height r" "c + k \<le> ra_width r"
  shows "glyph_span r y c k = map (\<lambda>x. c_glyph (raster_cell r y x)) [c..<c + k]"
proof (rule nth_equalityI)
  have "Suc y * ra_width r \<le> ra_height r * ra_width r" using assms(2) by (intro mult_le_mono1) simp
  then have l: "y * ra_width r + c + k \<le> length (ra_glyphs r)" using assms by (simp add: raster_ok_def Let_def mult.commute)
  then show "length (glyph_span r y c k) = length (map (\<lambda>x. c_glyph (raster_cell r y x)) [c..<c + k])" by (simp add: glyph_span_def)
  show "glyph_span r y c k ! i = map (\<lambda>x. c_glyph (raster_cell r y x)) [c..<c + k] ! i" if "i < length (glyph_span r y c k)" for i
    using that l by (simp add: glyph_span_def raster_cell_def cell_of_def add.assoc)
qed

lemma zip_row_cells:
  assumes "ra_width front = ra_width back"
  shows "zip (raster_row front y) (raster_row back y) =
    map (\<lambda>x. ((x, raster_cell front y x), (x, raster_cell back y x))) [0..<ra_width back]"
  by (simp add: raster_row_def assms zip_map_map zip_same_conv_map raster_cell_def v_index_def raster_view_def)

lemma unchanged_wide:
  assumes f: "frame_ok wd t front" and b: "frame_ok wd t back" and d: "glyphs_distinct t"
    and dim: "ra_width front = ra_width back" "ra_height front = ra_height back"
    and x: "x + 1 < ra_width back" "y < ra_height back" "cell_text t back y (x + 1) = []"
    and same: "raster_cell front y x = raster_cell back y x"
  shows "raster_cell front y (x + 1) = raster_cell back y (x + 1)" "same_style (raster_cell back y x) (raster_cell back y (x + 1))"
proof -
  have B: "cell_ok wd t back y x" "cell_ok wd t back y (x + 1)" using b x by (auto simp: frame_ok_def)
  have F: "cell_ok wd t front y x" "cell_ok wd t front y (x + 1)" using f x dim by (auto simp: frame_ok_def)
  have g: "cell_text t front y x = cell_text t back y x" by (simp add: cell_text_def same)
  have w: "cell_text t back y x \<noteq> []" "wd (cell_text t back y x) = 2" using B(2) x(3) by (auto simp: cell_ok_def)
  show sb: "same_style (raster_cell back y x) (raster_cell back y (x + 1))" using B(1) w by (simp add: cell_ok_def)
  have e: "cell_text t front y (x + 1) = []" and sf: "same_style (raster_cell front y x) (raster_cell front y (x + 1))"
    using F(1) w by (simp_all add: cell_ok_def g)
  have "c_glyph (raster_cell front y (x + 1)) = c_glyph (raster_cell back y (x + 1))"
    by (rule glyph_text_inj [OF d]) (use F(2) B(2) e x(3) in \<open>auto simp: cell_ok_def cell_text_def\<close>)
  then show "raster_cell front y (x + 1) = raster_cell back y (x + 1)" using sb sf same by (simp add: same_style_def)
qed

text \<open>A glyph that did not change is on the screen already.\<close>

lemma displays_unchanged:
  assumes f: "frame_ok wd t front" and b: "frame_ok wd t back" and d: "glyphs_distinct t"
    and dim: "ra_width front = ra_width back" "ra_height front = ra_height back" and y: "y < ra_height back"
    and s: "displays wd t front off T"
  shows "holds (ra_width back) (cell_text t back y) (\<lambda>x. wd (cell_text t back y x)) (cell_attrs back y)
    {x. raster_cell front y x = raster_cell back y x} (tm_screen T (off + y))"
  unfolding holds_def
proof (intro allI impI)
  fix x
  let ?g = "cell_text t back y" and ?h = "cell_text t front y"
  assume x: "x < ra_width back" "lead ?g x \<in> {x. raster_cell front y x = raster_cell back y x}"
  have c: "raster_cell front y (lead ?g x) = raster_cell back y (lead ?g x)" using x(2) by simp
  then have e: "?h (lead ?g x) = ?g (lead ?g x)" "cell_attrs front y (lead ?g x) = cell_attrs back y (lead ?g x)"
    by (simp_all add: cell_text_def cell_attrs_def)
  have l: "lead ?h x = lead ?g x"
  proof (cases "?g x = []")
    case True
    have "0 < x" using b x(1) y True by (auto simp: frame_ok_def cell_ok_def)
    then have "raster_cell front y x = raster_cell back y x"
      using unchanged_wide(1) [OF f b d dim, of "x - 1" y] x(1) y True c by (simp add: lead_def)
    then show ?thesis using True by (simp add: lead_def cell_text_def)
  next
    case False
    then show ?thesis using e by (simp add: lead_def split: if_splits)
  qed
  have "tm_screen T (off + y) x = shown_at ?h (\<lambda>x. wd (?h x)) (cell_attrs front y) x"
    using s x(1) y dim by (simp add: displays_def)
  then show "tm_screen T (off + y) x = shown_at ?g (\<lambda>x. wd (?g x)) (cell_attrs back y) x" by (simp add: shown_at_def l e)
qed

section \<open>Presenting a row\<close>

abbreviation row_pairs :: "Raster \<Rightarrow> Raster \<Rightarrow> nat \<Rightarrow> (indexed_cell \<times> indexed_cell) list" where
  "row_pairs front back y \<equiv> map (\<lambda>x. ((x, raster_cell front y x), (x, raster_cell back y x))) [0..<ra_width back]"

lemma same_run_cells:
  assumes "\<forall>i. Suc i < k \<longrightarrow> same_run (ps ! i) (ps ! Suc i)" "j < k"
  shows "is_changed (ps ! j) = is_changed (ps ! 0) \<and> same_style (snd (snd (ps ! j))) (snd (snd (ps ! 0)))"
  using assms(2)
proof (induction j)
  case (Suc j)
  then have "same_run (ps ! j) (ps ! Suc j)" using assms(1) by simp
  then show ?case using Suc by (auto simp: same_run_def same_style_def)
qed (simp add: same_style_def)

lemma changed_start_glyph:
  assumes f: "frame_ok wd t front" and b: "frame_ok wd t back" and d: "glyphs_distinct t"
    and dim: "ra_width front = ra_width back" "ra_height front = ra_height back" and y: "y < ra_height back"
    and c: "c < ra_width back" "raster_cell front y c \<noteq> raster_cell back y c"
    and edge: "0 < c \<Longrightarrow> \<not> same_run (row_pairs front back y ! (c - 1)) (row_pairs front back y ! c)"
  shows "cell_text t back y c \<noteq> []"
proof
  assume e: "cell_text t back y c = []"
  have c0: "0 < c" using frame_cell [OF b y c(1)] e by (simp add: cell_ok_def)
  have "raster_cell front y (c - 1) \<noteq> raster_cell back y (c - 1)"
    using unchanged_wide(1) [OF f b d dim, of "c - 1" y] c0 c e y by auto
  moreover have "same_style (raster_cell back y (c - 1)) (raster_cell back y c)"
  proof -
    have "cell_text t back y (c - 1) \<noteq> []" "wd (cell_text t back y (c - 1)) = 2"
      using frame_cell [OF b y c(1)] e by (simp_all add: cell_ok_def)
    then show ?thesis using frame_cell [OF b y, of "c - 1"] c(1) c0 by (simp add: cell_ok_def)
  qed
  ultimately show False using edge c0 c by (simp add: same_run_def is_changed_def same_style_def)
qed

text \<open>The run of the columns \<open>c..<c + k\<close> puts the glyphs that begin there on the screen.\<close>

lemma exec_run:
  assumes b: "frame_ok wd t back" and y: "y < ra_height back" and ck: "0 < k" "c + k \<le> ra_width back"
    and cut: "cuts_cells segs wd t back" and fit: "off + ra_height back \<le> tm_rows T" "ra_width back \<le> tm_cols T"
    and g: "cell_text t back y c \<noteq> []"
    and st: "\<forall>x. c \<le> x \<longrightarrow> x < c + k \<longrightarrow> same_style (raster_cell back y x) (raster_cell back y c)"
    and h: "holds (ra_width back) (cell_text t back y) (\<lambda>x. wd (cell_text t back y x)) (cell_attrs back y) D (tm_screen T (off + y))"
    and raw: "raw = \<lparr>rc_origin = (c, y), rc_glyphs = glyph_span back y c k, rc_fg = c_fg (raster_cell back y c),
      rc_bg = c_bg (raster_cell back y c), rc_em = c_em (raster_cell back y c)\<rparr>"
  shows "same_but {off + y} T (exec_raw segs t off raw T)
    \<and> holds (ra_width back) (cell_text t back y) (\<lambda>x. wd (cell_text t back y x)) (cell_attrs back y) (D \<union> {c..<c + k})
        (tm_screen (exec_raw segs t off raw T) (off + y))"
proof -
  let ?T = "T\<lparr>tm_row := off + y, tm_col := c, tm_attrs := raw_attrs raw\<rparr>"
  have ok: "raster_ok back" using b by (simp add: frame_ok_def)
  have s: "map (glyph_text t) (rc_glyphs raw) = map (cell_text t back y) [c..<c + k]"
    using glyph_span_cells [OF ok y ck(2)] by (simp add: raw cell_text_def)
  have ne: "concat (map (cell_text t back y) [c..<c + k]) \<noteq> []"
    using g ck(1) by (simp add: upt_conv_Cons)
  have e: "exec_raw segs t off raw T = fold put_glyph (glyphs_in (cell_text t back y) (\<lambda>x. wd (cell_text t back y x)) c (c + k)) ?T"
  proof -
    have "min (y + off) (tm_rows T - 1) = off + y" "min c (tm_cols T - 1) = c" using fit y ck by auto
    moreover have "segs (concat (map (cell_text t back y) [c..<c + k])) =
      glyphs_in (cell_text t back y) (\<lambda>x. wd (cell_text t back y x)) c (c + k)" using cut y ck by (simp add: cuts_cells_def)
    ultimately show ?thesis unfolding exec_raw_def Let_def s if_not_P [OF ne] by (simp add: raw)
  qed
  have at: "\<forall>x. c \<le> x \<longrightarrow> x < c + k \<longrightarrow> cell_attrs back y x = raw_attrs raw"
  proof (intro allI impI)
    fix x assume "c \<le> x" "x < c + k"
    then have "same_style (raster_cell back y x) (raster_cell back y c)" using st by blast
    moreover have "\<not> is_transparent (c_fg (raster_cell back y c)) \<and> \<not> is_transparent (c_bg (raster_cell back y c))"
      using frame_cell [OF b y, of c] ck by (simp add: cell_ok_def)
    ultimately show "cell_attrs back y x = raw_attrs raw"
      by (simp add: cell_attrs_def raw_attrs_def raw same_style_def Let_def paint_emitted)
  qed
  let ?F = "fold put_glyph (glyphs_in (cell_text t back y) (\<lambda>x. wd (cell_text t back y x)) c (c + k)) ?T"
  have "same_but {tm_row ?T} ?T ?F \<and> holds (ra_width back) (cell_text t back y) (\<lambda>x. wd (cell_text t back y x)) (cell_attrs back y)
      (D \<union> {c..<c + k}) (tm_screen ?F (tm_row ?T)) \<and> tm_row ?F = tm_row ?T"
    by (rule print_range [OF frame_row [OF b y]]) (use h ck fit g at in simp_all)
  moreover have "same_but {off + y} T T'" if "same_but {tm_row ?T} ?T T'" for T' using that by (simp add: same_but_def)
  ultimately show ?thesis unfolding e by simp
qed

text \<open>The changes of a row, from a column on where a chunk begins.\<close>

lemma exec_row_from:
  assumes f: "frame_ok wd t front" and b: "frame_ok wd t back" and d: "glyphs_distinct t"
    and dim: "ra_width front = ra_width back" "ra_height front = ra_height back" and y: "y < ra_height back"
    and cut: "cuts_cells segs wd t back" and fit: "off + ra_height back \<le> tm_rows T" "ra_width back \<le> tm_cols T"
    and c: "c \<le> ra_width back"
    and edge: "0 < c \<Longrightarrow> c < ra_width back \<Longrightarrow> \<not> same_run (row_pairs front back y ! (c - 1)) (row_pairs front back y ! c)"
    and h: "holds (ra_width back) (cell_text t back y) (\<lambda>x. wd (cell_text t back y x)) (cell_attrs back y)
      ({x. raster_cell front y x = raster_cell back y x} \<union> {0..<c}) (tm_screen T (off + y))"
  shows "same_but {off + y} T (fold (exec_raw segs t off) (row_changes y (drop c (row_pairs front back y)) back) T)
    \<and> holds (ra_width back) (cell_text t back y) (\<lambda>x. wd (cell_text t back y x)) (cell_attrs back y)
        UNIV (tm_screen (fold (exec_raw segs t off) (row_changes y (drop c (row_pairs front back y)) back) T) (off + y))"
  using fit c edge h
proof (induction "ra_width back - c" arbitrary: c T rule: less_induct)
  case less
  let ?ps = "row_pairs front back y" and ?n = "ra_width back"
  let ?holds = "\<lambda>D T. holds ?n (cell_text t back y) (\<lambda>x. wd (cell_text t back y x)) (cell_attrs back y) D (tm_screen T (off + y))"
  let ?un = "{x. raster_cell front y x = raster_cell back y x}"
  show ?case
  proof (cases "c < ?n")
    case False
    have "lead (cell_text t back y) x < ?n" if "x < ?n" for x using that by (auto simp: lead_def)
    then have "?holds UNIV T" using less.prems(3,5) False by (simp add: holds_def)
    then show ?thesis using False by (simp add: row_changes_def same_but_refl)
  next
    case True
    then have ne: "drop c ?ps \<noteq> []" by simp
    obtain k where k: "0 < k" "k \<le> length (drop c ?ps)" "chunk_by same_run (drop c ?ps) = take k (drop c ?ps) # chunk_by same_run (drop k (drop c ?ps))"
      "\<forall>i. Suc i < k \<longrightarrow> same_run (drop c ?ps ! i) (drop c ?ps ! Suc i)"
      "k < length (drop c ?ps) \<longrightarrow> \<not> same_run (drop c ?ps ! (k - 1)) (drop c ?ps ! k)"
      using chunk_by_head [OF ne, of same_run] by blast
    have ck: "c + k \<le> ?n" using k(2) True by simp
    have nth: "drop c ?ps ! i = ((c + i, raster_cell front y (c + i)), (c + i, raster_cell back y (c + i)))" if "i < k" for i
      using that ck by simp
    have run: "is_changed (drop c ?ps ! i) = is_changed (drop c ?ps ! 0) \<and> same_style (raster_cell back y (c + i)) (raster_cell back y c)"
      if "i < k" for i using same_run_cells [OF k(4) that] nth [OF that] nth [of 0] k(1) by simp
    have edge: "\<not> same_run (?ps ! (c + k - 1)) (?ps ! (c + k))" if "c + k < ?n"
      using k(1,5) that True by (simp add: nth_append)
    let ?raw = "\<lparr>rc_origin = (c, y), rc_glyphs = glyph_span back y c k, rc_fg = c_fg (raster_cell back y c),
      rc_bg = c_bg (raster_cell back y c), rc_em = c_em (raster_cell back y c)\<rparr>"
    have hd: "hd (take k (drop c ?ps)) = ((c, raster_cell front y c), (c, raster_cell back y c))"
      using nth [of 0] k(1,2) by (simp add: hd_conv_nth)
    have rc: "row_changes y (drop c ?ps) back =
      (if is_changed (drop c ?ps ! 0) then [?raw] else []) @ row_changes y (drop (c + k) ?ps) back"
      using k(2) True by (simp add: row_changes_def k(3) hd nth [OF k(1)] add.commute)
    show ?thesis
    proof (cases "is_changed (drop c ?ps ! 0)")
      case False
      have "?holds (?un \<union> {0..<c + k}) T"
      proof -
        have "x \<in> ?un" if "c \<le> x" "x < c + k" for x
          using run [of "x - c"] nth [of "x - c"] False that by (simp add: is_changed_def)
        then have "?un \<union> {0..<c + k} = ?un \<union> {0..<c}" by auto
        then show ?thesis using less.prems(5) by simp
      qed
      then show ?thesis using less.hyps [of "c + k" T] less.prems(1,2) ck k(1) edge True False by (simp add: rc)
    next
      case ch: True
      let ?T = "exec_raw segs t off ?raw T"
      have "raster_cell front y c \<noteq> raster_cell back y c" using ch nth [OF k(1)] by (simp add: is_changed_def)
      then have g: "cell_text t back y c \<noteq> []" using changed_start_glyph [OF f b d dim y True] less.prems(4) True by blast
      have "\<forall>x. c \<le> x \<longrightarrow> x < c + k \<longrightarrow> same_style (raster_cell back y x) (raster_cell back y c)"
        using run by (metis add_diff_inverse_nat less_diff_conv2 not_less add.commute)
      from exec_run [OF b y k(1) ck cut less.prems(1,2) g this less.prems(5) refl]
      have T: "same_but {off + y} T ?T" "?holds (?un \<union> {0..<c} \<union> {c..<c + k}) ?T" by auto
      have "?un \<union> {0..<c} \<union> {c..<c + k} = ?un \<union> {0..<c + k}" by auto
      then show ?thesis
        using less.hyps [of "c + k" ?T] less.prems(1,2) ck k(1) edge True ch T same_but_trans [OF T(1), of "{off + y}"]
        by (simp add: rc same_but_def)
    qed
  qed
qed

section \<open>Presenting a frame\<close>

lemma raw_changes_rows:
  assumes "ra_width front = ra_width back"
  shows "raw_changes front back = concat (map (\<lambda>y. row_changes y (row_pairs front back y) back) [0..<ra_height back])"
  by (simp add: raw_changes_def zip_rows_def zip_row_cells [OF assms] comp_def)

lemma exec_rows:
  assumes f: "frame_ok wd t front" and b: "frame_ok wd t back" and d: "glyphs_distinct t"
    and dim: "ra_width front = ra_width back" "ra_height front = ra_height back"
    and cut: "cuts_cells segs wd t back" and fit: "off + ra_height back \<le> tm_rows T" "ra_width back \<le> tm_cols T"
    and s: "displays wd t front off T" and m: "m \<le> ra_height back"
  shows "same_but {off..<off + m} T (fold (exec_raw segs t off) (concat (map (\<lambda>y. row_changes y (row_pairs front back y) back) [0..<m])) T)
    \<and> (\<forall>y < m. holds (ra_width back) (cell_text t back y) (\<lambda>x. wd (cell_text t back y x)) (cell_attrs back y) UNIV
        (tm_screen (fold (exec_raw segs t off) (concat (map (\<lambda>y. row_changes y (row_pairs front back y) back) [0..<m])) T) (off + y)))"
  using m
proof (induction m)
  case (Suc m)
  let ?T = "fold (exec_raw segs t off) (concat (map (\<lambda>y. row_changes y (row_pairs front back y) back) [0..<m])) T"
  let ?T' = "fold (exec_raw segs t off) (row_changes m (row_pairs front back m) back) ?T"
  have IH: "same_but {off..<off + m} T ?T" "\<forall>y < m. holds (ra_width back) (cell_text t back y) (\<lambda>x. wd (cell_text t back y x))
      (cell_attrs back y) UNIV (tm_screen ?T (off + y))" using Suc by auto
  have y: "m < ra_height back" using Suc.prems by simp
  have r: "tm_screen ?T (off + m) = tm_screen T (off + m)" using IH(1) by (simp add: same_but_def)
  have h: "holds (ra_width back) (cell_text t back m) (\<lambda>x. wd (cell_text t back m x)) (cell_attrs back m)
    ({x. raster_cell front m x = raster_cell back m x} \<union> {0..<0}) (tm_screen ?T (off + m))"
    using displays_unchanged [OF f b d dim y s] by (simp add: r)
  have fit': "off + ra_height back \<le> tm_rows ?T" "ra_width back \<le> tm_cols ?T" using IH(1) fit by (simp_all add: same_but_def)
  have T': "same_but {off + m} ?T ?T'" "holds (ra_width back) (cell_text t back m) (\<lambda>x. wd (cell_text t back m x)) (cell_attrs back m)
      UNIV (tm_screen ?T' (off + m))"
    using exec_row_from [OF f b d dim y cut fit' _ _ h] by simp_all
  have "{off..<off + m} \<union> {off + m} = {off..<off + Suc m}" by auto
  with same_but_trans [OF IH(1) T'(1)] have "same_but {off..<off + Suc m} T ?T'" by simp
  moreover have "tm_screen ?T' (off + y) = tm_screen ?T (off + y)" if "y < m" for y using T'(1) that by (simp add: same_but_def)
  ultimately show ?case using IH(2) T'(2) by (auto simp: less_Suc_eq)
qed (simp add: same_but_refl)

text \<open>The runs hold the glyphs of the changed cells.\<close>

lemma row_changes_glyphs:
  assumes ok: "raster_ok back" and y: "y < ra_height back" and c: "c \<le> ra_width back"
  shows "(\<Union>raw \<in> set (row_changes y (drop c (row_pairs front back y)) back). set (rc_glyphs raw))
    = {c_glyph (raster_cell back y x) | x. c \<le> x \<and> x < ra_width back \<and> raster_cell front y x \<noteq> raster_cell back y x}"
  using c
proof (induction "ra_width back - c" arbitrary: c rule: less_induct)
  case less
  let ?ps = "row_pairs front back y" and ?n = "ra_width back"
  show ?case
  proof (cases "c < ?n")
    case True
    then have ne: "drop c ?ps \<noteq> []" by simp
    obtain k where k: "0 < k" "k \<le> length (drop c ?ps)" "chunk_by same_run (drop c ?ps) = take k (drop c ?ps) # chunk_by same_run (drop k (drop c ?ps))"
      "\<forall>i. Suc i < k \<longrightarrow> same_run (drop c ?ps ! i) (drop c ?ps ! Suc i)"
      using chunk_by_head [OF ne, of same_run] by blast
    have ck: "c + k \<le> ?n" using k(2) True by simp
    have nth: "drop c ?ps ! i = ((c + i, raster_cell front y (c + i)), (c + i, raster_cell back y (c + i)))" if "i < k" for i
      using that ck by simp
    have run: "raster_cell front y x \<noteq> raster_cell back y x \<longleftrightarrow> is_changed (drop c ?ps ! 0)" if "c \<le> x" "x < c + k" for x
      using same_run_cells [OF k(4), of "x - c"] nth [of "x - c"] that by (simp add: is_changed_def)
    have hd: "hd (take k (drop c ?ps)) = ((c, raster_cell front y c), (c, raster_cell back y c))"
      using nth [of 0] k(1,2) by (simp add: hd_conv_nth)
    have rc: "(\<Union>raw \<in> set (row_changes y (drop c ?ps) back). set (rc_glyphs raw)) =
      (if is_changed (drop c ?ps ! 0) then {c_glyph (raster_cell back y x) | x. c \<le> x \<and> x < c + k} else {})
      \<union> (\<Union>raw \<in> set (row_changes y (drop (c + k) ?ps) back). set (rc_glyphs raw))"
      using k(2) True glyph_span_cells [OF ok y ck]
      by (auto simp: row_changes_def k(3) hd nth [OF k(1)] add.commute)
    have "(\<Union>raw \<in> set (row_changes y (drop (c + k) ?ps) back). set (rc_glyphs raw))
      = {c_glyph (raster_cell back y x) | x. c + k \<le> x \<and> x < ?n \<and> raster_cell front y x \<noteq> raster_cell back y x}"
      by (rule less.hyps) (use True k(1) ck in auto)
    moreover have "c \<le> x \<and> x < ?n \<longleftrightarrow> c \<le> x \<and> x < c + k \<or> c + k \<le> x \<and> x < ?n" for x using ck by auto
    ultimately show ?thesis unfolding rc using run by (auto; metis)
  qed (simp add: row_changes_def)
qed

lemma changed_glyphs:
  assumes "raster_ok back" "ra_width front = ra_width back"
  shows "(\<Union>raw \<in> set (raw_changes front back). set (rc_glyphs raw)) = {c_glyph (raster_cell back y x) | x y.
    x < ra_width back \<and> y < ra_height back \<and> raster_cell front y x \<noteq> raster_cell back y x}"
proof -
  have "(\<Union>raw \<in> set (row_changes y (row_pairs front back y) back). set (rc_glyphs raw))
    = {c_glyph (raster_cell back y x) | x. x < ra_width back \<and> raster_cell front y x \<noteq> raster_cell back y x}"
    if "y < ra_height back" for y using row_changes_glyphs [OF assms(1) that, of 0 front] by simp
  then show ?thesis unfolding raw_changes_rows [OF assms(2)] by (auto; blast)
qed

lemma emit_run_fails: "emit_run mode t off run s = Inl e \<longleftrightarrow> e = ControlGlyph \<and> (\<exists>gid \<in> set (cr_glyphs run). \<not> printable t gid)"
proof (cases "\<exists>gid \<in> set (cr_glyphs run). \<not> printable t gid")
  case True
  then show ?thesis using write_glyphs_control [OF True] by (auto simp: emit_run_def Let_def split: prod.splits)
next
  case False
  then show ?thesis using write_glyphs_plain [of "cr_glyphs run" t] by (auto simp: emit_run_def Let_def split: prod.splits)
qed

lemma emit_runs_fails:
  "(\<exists>e. emit_runs mode t off (diff_from ss raws) s = Inl e) \<longleftrightarrow> (\<exists>raw \<in> set raws. \<exists>gid \<in> set (rc_glyphs raw). \<not> printable t gid)"
proof (induction raws arbitrary: ss s)
  case (Cons raw raws)
  let ?run = "fst (style_step ss raw)"
  have g: "cr_glyphs ?run = rc_glyphs raw" by (rule style_step_fields(2))
  show ?case
  proof (cases "emit_run mode t off ?run s")
    case (Inl e)
    then show ?thesis using emit_run_fails [of mode t off ?run s e] by (auto simp: g Let_def case_prod_beta)
  next
    case (Inr s')
    then have "\<not> (\<exists>gid \<in> set (rc_glyphs raw). \<not> printable t gid)" using emit_run_fails [of mode t off ?run s ControlGlyph] by (simp add: g)
    then show ?thesis using Cons.IH Inr by (simp add: Let_def case_prod_beta)
  qed
qed simp

lemma frame_presented:
  assumes f: "frame_ok (cluster_width U) t (tc_front c)" and b: "frame_ok (cluster_width U) t (tc_back c)" and t: "gt_ok t"
    and dim: "ra_width (tc_front c) = ra_width (tc_back c)" "ra_height (tc_front c) = ra_height (tc_back c)"
    and cut: "cuts_cells segs (cluster_width U) t (tc_back c)"
    and fit: "chrome_start (tc_partition c) + ra_height (tc_back c) \<le> tm_rows T" "ra_width (tc_back c) \<le> tm_cols T"
    and a: "tm_attrs T = plain" and s: "displays (cluster_width U) t (tc_front c) (chrome_start (tc_partition c)) T"
  shows "\<exists>out. present_frame enabled t c = Inr (out, c\<lparr>tc_front := tc_back c\<rparr>)
    \<and> displays (cluster_width U) t (tc_back c) (chrome_start (tc_partition c)) (term_run segs out T)
    \<and> term_run segs out T = T\<lparr>tm_screen := tm_screen (term_run segs out T), tm_saved := (tm_row T, tm_col T, plain)\<rparr>
    \<and> (\<forall>row. row < chrome_start (tc_partition c) \<or> chrome_start (tc_partition c) + ra_height (tc_back c) \<le> row
        \<longrightarrow> tm_screen (term_run segs out T) row = tm_screen T row)"
proof -
  have d: "glyphs_distinct t" using gt_okD(3) [OF t] by (simp add: glyphs_distinct_def)
  let ?off = "chrome_start (tc_partition c)" and ?front = "tc_front c" and ?bk = "tc_back c"
  let ?s = "\<lparr>ss_fg = None, ss_bg = None, ss_em = None\<rparr>" and ?T = "T\<lparr>tm_saved := (tm_row T, tm_col T, plain)\<rparr>"
  let ?raws = "raw_changes ?front ?bk"
  have ok: "raster_ok ?bk" using b by (simp add: frame_ok_def)
  have p: "\<forall>raw \<in> set ?raws. \<forall>gid \<in> set (rc_glyphs raw). printable t gid"
  proof (intro ballI)
    fix raw gid assume "raw \<in> set ?raws" "gid \<in> set (rc_glyphs raw)"
    then have "gid \<in> (\<Union>raw \<in> set ?raws. set (rc_glyphs raw))" by blast
    then obtain x y where "x < ra_width ?bk" "y < ra_height ?bk" "gid = c_glyph (raster_cell ?bk y x)"
      unfolding changed_glyphs [OF ok dim(1)] by blast
    then show "printable t gid" using frame_cell [OF b] by (simp add: cell_ok_def)
  qed
  have st: "style_ok ?s" "tm_attrs ?T = style_attrs ?s" using a by (simp_all add: style_ok_def style_attrs_def emitted_opt_def plain_def)
  from emit_runs_enabled [OF st p, of ?off "w_save_cursor []" segs] obtain out fg bg where
    o: "emit_runs enabled t ?off (diff_rasters ?front ?bk) (w_save_cursor [], None, None) = Inr (w_save_cursor [] @ out, fg, bg)"
      "\<forall>rest. rest = [] \<or> hd rest = 0x1b \<longrightarrow> term_run segs (out @ rest) ?T = term_run segs rest (fold (exec_raw segs t ?off) ?raws ?T)"
    by (auto simp: diff_rasters_def)
  let ?T' = "fold (exec_raw segs t ?off) ?raws ?T"
  have run: "term_run segs (w_restore_cursor (w_save_cursor [] @ out)) T = tm_esc 0x38 ?T'"
  proof -
    have "term_run segs (w_restore_cursor (w_save_cursor [] @ out)) T = term_run segs (out @ [0x1b, 0x38]) ?T"
      using a by (simp add: w_restore_cursor_def w_save_cursor_def run_two tm_esc_def)
    also have "\<dots> = term_run segs [0x1b, 0x38] ?T'" using o(2) by simp
    also have "\<dots> = tm_esc 0x38 ?T'" by (simp add: run_two term_run.simps [of segs "[]"])
    finally show ?thesis .
  qed
  have s': "displays (cluster_width U) t ?front ?off ?T" using s by (simp add: displays_def)
  have R: "same_but {?off..<?off + ra_height ?bk} ?T ?T'"
    "\<forall>y < ra_height ?bk. holds (ra_width ?bk) (cell_text t ?bk y) (\<lambda>x. cluster_width U (cell_text t ?bk y x)) (cell_attrs ?bk y) UNIV (tm_screen ?T' (?off + y))"
    using exec_rows [OF f b d dim cut, of ?off ?T "ra_height ?bk"] fit s' by (simp_all add: raw_changes_rows [OF dim(1)])
  let ?out = "w_restore_cursor (w_save_cursor [] @ out)"
  have "present_frame enabled t c = Inr (?out, c\<lparr>tc_front := ?bk\<rparr>)"
    using o(1) by (simp add: present_frame_def)
  moreover have "displays (cluster_width U) t ?bk ?off (term_run segs ?out T)"
    using R(2) unfolding run by (simp add: displays_def holds_def tm_esc_def)
  moreover have "term_run segs ?out T = T\<lparr>tm_screen := tm_screen (term_run segs ?out T), tm_saved := (tm_row T, tm_col T, plain)\<rparr>"
    using R(1) a unfolding run same_but_def by (cases T; cases ?T') (simp add: tm_esc_def)
  moreover have "tm_screen (term_run segs ?out T) row = tm_screen T row" if "row < ?off \<or> ?off + ra_height ?bk \<le> row" for row
    using R(1) that unfolding run by (auto simp: same_but_def tm_esc_def)
  ultimately show ?thesis by blast
qed

lemma frame_rejected:
  assumes "raster_ok (tc_back c)" "ra_width (tc_front c) = ra_width (tc_back c)"
  shows "present_frame mode t c = Inl ControlGlyph \<longleftrightarrow> (\<exists>x y. x < ra_width (tc_back c) \<and> y < ra_height (tc_back c)
    \<and> raster_cell (tc_front c) y x \<noteq> raster_cell (tc_back c) y x \<and> \<not> printable t (c_glyph (raster_cell (tc_back c) y x)))"
proof -
  let ?e = "emit_runs mode t (chrome_start (tc_partition c)) (diff_rasters (tc_front c) (tc_back c)) (w_save_cursor [], None, None)"
  have "present_frame mode t c = Inl ControlGlyph \<longleftrightarrow> (\<exists>e. ?e = Inl e)"
    by (cases ?e) (auto simp: present_frame_def, metis frame_error.exhaust)
  also have "\<dots> \<longleftrightarrow> (\<exists>raw \<in> set (raw_changes (tc_front c) (tc_back c)). \<exists>gid \<in> set (rc_glyphs raw). \<not> printable t gid)"
    unfolding diff_rasters_def by (rule emit_runs_fails)
  also have "\<dots> \<longleftrightarrow> (\<exists>gid \<in> (\<Union>raw \<in> set (raw_changes (tc_front c) (tc_back c)). set (rc_glyphs raw)). \<not> printable t gid)" by blast
  finally show ?thesis unfolding changed_glyphs [OF assms] by blast
qed

section \<open>Frames of one-byte glyphs\<close>

lemma raster_index: "y < ra_height r \<Longrightarrow> x < ra_width r \<Longrightarrow> y * ra_width r + x < ra_width r * ra_height r"
  using mult_le_mono1 [of "Suc y" "ra_height r" "ra_width r"] by (simp add: mult.commute)

lemma raster_glyph_mem:
  assumes "raster_ok r" "y < ra_height r" "x < ra_width r"
  shows "c_glyph (raster_cell r y x) \<in> set (ra_glyphs r)"
  using raster_index [OF assms(2,3)] assms(1) by (simp add: raster_ok_def Let_def raster_cell_def cell_of_def)

lemma raster_colour_mem:
  assumes "raster_ok r" "y < ra_height r" "x < ra_width r"
  shows "c_fg (raster_cell r y x) \<in> set (ra_fgs r)" "c_bg (raster_cell r y x) \<in> set (ra_bgs r)"
  using raster_index [OF assms(2,3)] assms(1) by (simp_all add: raster_ok_def Let_def raster_cell_def cell_of_def)

definition narrow_glyphs :: "(bytes \<Rightarrow> nat) \<Rightarrow> Raster \<Rightarrow> bool" where
  "narrow_glyphs wd r \<longleftrightarrow> (\<forall>i \<in> set (ra_glyphs r). 0x20 \<le> i \<and> i \<le> 0xff \<and> wd [ucast i] = 1)"

lemma narrow_cell:
  assumes "gt_ok t" "raster_ok r" "narrow_glyphs wd r" "y < ra_height r" "x < ra_width r"
  defines "i \<equiv> c_glyph (raster_cell r y x)"
  shows "cell_text t r y x = [ucast i]" "unat i < gt_size t" "printable t i" "wd [ucast i] = 1"
proof -
  have m: "0x20 \<le> i" "i \<le> 0xff" "wd [ucast i] = 1"
    using raster_glyph_mem [OF assms(2,4,5)] assms(3) by (auto simp: narrow_glyphs_def i_def)
  have u: "0x20 \<le> unat i" "unat i < 256" using m(1,2) by (simp_all add: word_le_nat_alt)
  then have g: "glyph_text t i = [ucast i]" using gt_okD(1,4) [OF assms(1)] by (simp add: glyph_text_nth)
  then show "cell_text t r y x = [ucast i]" by (simp add: cell_text_def i_def)
  show "unat i < gt_size t" using u gt_okD(1) [OF assms(1)] by simp
  have "0x20 \<le> (ucast i :: byte)" using u by (simp add: word_le_nat_alt unsigned_ucast_eq take_bit_eq_mod)
  then have "ucast i \<notin> {0x0a, 0x0d, 0x09, 0x0b, 0x0c, 0x1b :: byte}" by (auto simp: word_le_nat_alt)
  then show "printable t i" by (simp add: printable_def g)
  show "wd [ucast i] = 1" by (rule m(3))
qed

definition opaque :: "Raster \<Rightarrow> bool" where
  "opaque r \<longleftrightarrow> (\<forall>c \<in> set (ra_fgs r) \<union> set (ra_bgs r). \<not> is_transparent c)"

lemma narrow_frame_ok: "gt_ok t \<Longrightarrow> raster_ok r \<Longrightarrow> narrow_glyphs wd r \<Longrightarrow> opaque r \<Longrightarrow> frame_ok wd t r"
  using narrow_cell raster_colour_mem by (simp add: frame_ok_def cell_ok_def opaque_def)

lemma narrow_cuts:
  assumes "gt_ok t" "raster_ok r" "narrow_glyphs wd r"
  shows "cuts_cells (map (\<lambda>b. ([b], 1))) wd t r"
  unfolding cuts_cells_def
proof (intro allI impI)
  fix y e c assume y: "y < ra_height r" "e \<le> ra_width r" "c < e"
  have m: "map (\<lambda>b. ([b], 1)) (concat (map (cell_text t r y) xs)) =
      map (\<lambda>x. (cell_text t r y x, wd (cell_text t r y x))) (filter (\<lambda>x. cell_text t r y x \<noteq> []) xs)"
    if "set xs \<subseteq> {..<ra_width r}" for xs
    using that narrow_cell(1,4) [OF assms y(1)] by (induction xs) auto
  show "map (\<lambda>b. ([b], 1)) (concat (map (cell_text t r y) [c..<e])) = glyphs_in (cell_text t r y) (\<lambda>x. wd (cell_text t r y x)) c e"
    unfolding glyphs_in_def by (rule m) (use y(2) in auto)
qed

section \<open>Blank frames\<close>

definition blank_rows :: "nat \<Rightarrow> nat \<Rightarrow> terminal \<Rightarrow> bool" where
  "blank_rows a b T \<longleftrightarrow> (\<forall>r. a \<le> r \<longrightarrow> r < b \<longrightarrow> tm_screen T r = blank_row plain)"

lemma new_raster_cell:
  "x < w \<Longrightarrow> y < h \<Longrightarrow> raster_cell (new_raster w h) y x = \<lparr>c_glyph = 32, c_fg = DEFAULT_COLOR, c_bg = DEFAULT_COLOR, c_em = 0\<rparr>"
proof -
  assume "x < w" "y < h"
  then have "y * w + x < w * h" using nat_mult_le_cancel_disj [of w "Suc y" h] by (simp add: mult.commute)
  then show ?thesis by (simp add: raster_cell_def cell_of_def new_raster_def)
qed

lemma new_raster_text: "gt_ok t \<Longrightarrow> x < w \<Longrightarrow> y < h \<Longrightarrow> cell_text t (new_raster w h) y x = [0x20]"
  by (simp add: cell_text_def new_raster_cell space_text)

lemma new_raster_dims [simp]: "ra_width (new_raster w h) = w" "ra_height (new_raster w h) = h"
  by (simp_all add: new_raster_def)

lemma blank_frame_ok:
  assumes "gt_ok t" "wd [0x20] = 1"
  shows "frame_ok wd t (new_raster w h)"
proof -
  have "raster_ok (new_raster w h)" by (simp add: raster_ok_def new_raster_def Let_def)
  moreover have "cell_ok wd t (new_raster w h) y x" if "y < h" "x < w" for x y
    using that assms gt_okD(1) [of t] by (simp add: cell_ok_def new_raster_text new_raster_cell printable_def space_text
        is_transparent_def terminal_default_def)
  ultimately show ?thesis by (simp add: frame_ok_def)
qed

lemma blank_displays:
  assumes "gt_ok t" "wd [0x20] = 1" "blank_rows off (off + h) T"
  shows "displays wd t (new_raster w h) off T"
proof -
  have "cell_attrs (new_raster w h) y x = plain" if "y < h" "x < w" for x y
    using that by (simp add: cell_attrs_def new_raster_cell plain_def paint_def is_terminal_default_def terminal_default_def)
  moreover have "lead (cell_text t (new_raster w h) y) x = x" if "y < h" "x < w" for x y
    using that assms(1) by (simp add: lead_def new_raster_text)
  ultimately show ?thesis using assms
    by (simp add: displays_def shown_at_def new_raster_text blank_rows_def blank_row_def plain_def)
qed

section \<open>Properties\<close>

definition sample_frame :: Raster where
  "sample_frame = \<lparr>ra_width = 3, ra_height = 1, ra_glyphs = [0x48, 0x69, 0x20], ra_fgs = [palette 1, rgba8 10 20 30 255, terminal_default],
     ra_bgs = [terminal_default, palette 4, terminal_default], ra_ems = [1, 33, 0]\<rparr>"

definition sample_terminal :: "nat \<Rightarrow> nat \<Rightarrow> terminal" where
  "sample_terminal rows cols = \<lparr>tm_rows = rows, tm_cols = cols, tm_screen = (\<lambda>_. blank_row plain), tm_row = 0, tm_col = 0,
     tm_attrs = plain, tm_saved = (0, 0, plain), tm_margins = (0, rows - 1), tm_wrapped = False\<rparr>"

definition sample_compositor :: TerminalCompositor where
  "sample_compositor = (new_compositor (3, 1))\<lparr>tc_back := sample_frame\<rparr>"

lemma sample_space: "cluster_width sample_table [0x20] = 1"
  by code_simp

lemma sample_frame_narrow: "narrow_glyphs (cluster_width sample_table) sample_frame"
proof -
  have "cluster_width sample_table [0x48] = 1" "cluster_width sample_table [0x69] = 1" by code_simp+
  then show ?thesis using sample_space by (simp add: narrow_glyphs_def sample_frame_def)
qed

lemma sample_frame_ok: "frame_ok (cluster_width sample_table) new_glyph_table sample_frame"
  "cuts_cells (map (\<lambda>b. ([b], 1))) (cluster_width sample_table) new_glyph_table sample_frame"
proof -
  have "raster_ok sample_frame" "opaque sample_frame"
    by (simp_all add: raster_ok_def sample_frame_def opaque_def is_transparent_def terminal_default_def) code_simp+
  then show "frame_ok (cluster_width sample_table) new_glyph_table sample_frame"
    "cuts_cells (map (\<lambda>b. ([b], 1))) (cluster_width sample_table) new_glyph_table sample_frame"
    using narrow_frame_ok narrow_cuts new_glyph_table_ok sample_frame_narrow by blast+
qed

lemma sample_compositor_fields:
  "tc_front sample_compositor = new_raster 3 1" "tc_back sample_compositor = sample_frame"
  "chrome_start (tc_partition sample_compositor) = 0" "ra_width sample_frame = 3" "ra_height sample_frame = 1"
  by (simp_all add: sample_compositor_def new_compositor_def sample_frame_def) code_simp

text \<open>C4. Presenting a frame.  Take a terminal with plain attributes that has room for the owned rows and shows the front
  buffer there.  After the output of \<^verbatim>\<open>present_frame\<close> it shows the back buffer, glyph by glyph and with every colour and
  emphasis; the cursor and the attributes are as before, rows outside the owned ones are unchanged, nothing wraps, and
  the frame becomes the new front buffer.  The conditions on the two frames: glyphs are known, one or two cells wide and free of
  the six bytes that \<^verbatim>\<open>present_frame\<close> rejects; a wide glyph is followed by the empty glyph in its own style; no colour is the transparent one.
  The terminal cuts the text of neighbouring cells into the glyphs of the cells.  Frames with a wide glyph in two
  styles or with the transparent colour are left out because they are misprinted (\<open>split_style_misprints\<close> in \<^verbatim>\<open>Screen\<close>,
  \<open>transparent_misprints\<close>).\<close>

theorem present_frame_displays:
  assumes "frame_ok (cluster_width U) t (tc_front c)" "frame_ok (cluster_width U) t (tc_back c)" "gt_ok t"
    "ra_width (tc_front c) = ra_width (tc_back c)" "ra_height (tc_front c) = ra_height (tc_back c)"
    "cuts_cells segs (cluster_width U) t (tc_back c)"
    "chrome_start (tc_partition c) + ra_height (tc_back c) \<le> tm_rows T" "ra_width (tc_back c) \<le> tm_cols T"
    "tm_attrs T = plain" "displays (cluster_width U) t (tc_front c) (chrome_start (tc_partition c)) T"
  shows "\<exists>out. present_frame enabled t c = Inr (out, c\<lparr>tc_front := tc_back c\<rparr>)
    \<and> displays (cluster_width U) t (tc_back c) (chrome_start (tc_partition c)) (term_run segs out T)
    \<and> term_run segs out T = T\<lparr>tm_screen := tm_screen (term_run segs out T), tm_saved := (tm_row T, tm_col T, plain)\<rparr>
    \<and> (\<forall>row. row < chrome_start (tc_partition c) \<or> chrome_start (tc_partition c) + ra_height (tc_back c) \<le> row
        \<longrightarrow> tm_screen (term_run segs out T) row = tm_screen T row)"
  using frame_presented [OF assms] .

theorem present_frame_displays_witness:
  "\<exists>out. present_frame enabled new_glyph_table sample_compositor = Inr (out, sample_compositor\<lparr>tc_front := sample_frame\<rparr>)
    \<and> displays (cluster_width sample_table) new_glyph_table sample_frame 0 (term_run (map (\<lambda>b. ([b], 1))) out (sample_terminal 1 3))"
proof -
  have "blank_rows 0 (0 + 1) (sample_terminal 1 3)" by (simp add: blank_rows_def sample_terminal_def)
  then have "displays (cluster_width sample_table) new_glyph_table (new_raster 3 1) 0 (sample_terminal 1 3)"
    by (rule blank_displays [where wd = "cluster_width sample_table", OF new_glyph_table_ok sample_space])
  then show ?thesis
    using present_frame_displays [of sample_table new_glyph_table sample_compositor "map (\<lambda>b. ([b], 1))" "sample_terminal 1 3"]
      sample_frame_ok new_glyph_table_ok blank_frame_ok [where wd = "cluster_width sample_table", OF new_glyph_table_ok sample_space, of 3 1]
    by (auto simp: sample_compositor_fields sample_terminal_def)
qed

lemma other_controls_pass: "i \<in> {0x00, 0x07, 0x08, 0x7f} \<Longrightarrow> printable new_glyph_table i"
  using gt_okD(1) [OF new_glyph_table_ok] gt_okD(4) [OF new_glyph_table_ok, of "unat i"] by (auto simp: printable_def glyph_text_nth)

text \<open>C35. Presenting fails exactly when a cell that differs from the front buffer has a glyph with one of the six bytes line feed,
  carriage return, tab, vertical tab, form feed and escape.  Nothing but the changed cells is looked at, no other error is possible, and
  other control bytes (null, bell, backspace and delete, \<open>other_controls_pass\<close>) pass.\<close>

theorem present_frame_rejects:
  assumes "raster_ok (tc_back c)" "ra_width (tc_front c) = ra_width (tc_back c)"
  shows "present_frame mode t c = Inl ControlGlyph \<longleftrightarrow> (\<exists>x y. x < ra_width (tc_back c) \<and> y < ra_height (tc_back c)
    \<and> raster_cell (tc_front c) y x \<noteq> raster_cell (tc_back c) y x \<and> \<not> printable t (c_glyph (raster_cell (tc_back c) y x)))"
  by (rule frame_rejected [OF assms])

theorem present_frame_rejects_witness:
  "present_frame enabled new_glyph_table (sample_compositor\<lparr>tc_back := sample_frame\<lparr>ra_glyphs := [0x48, 0x09, 0x20]\<rparr>\<rparr>) = Inl ControlGlyph"
proof -
  let ?c = "sample_compositor\<lparr>tc_back := sample_frame\<lparr>ra_glyphs := [0x48, 0x09, 0x20]\<rparr>\<rparr>"
  have "raster_ok (tc_back ?c)" "ra_width (tc_front ?c) = ra_width (tc_back ?c)"
    by (simp_all add: raster_ok_def sample_frame_def sample_compositor_def new_compositor_def)
  note r = present_frame_rejects [OF this, of enabled new_glyph_table]
  have g: "raster_cell (tc_back ?c) 0 1 = \<lparr>c_glyph = 0x09, c_fg = rgba8 10 20 30 255, c_bg = palette 4, c_em = 33\<rparr>"
    "raster_cell (tc_front ?c) 0 1 = \<lparr>c_glyph = 32, c_fg = terminal_default, c_bg = terminal_default, c_em = 0\<rparr>"
    by (simp_all add: raster_cell_def cell_of_def sample_frame_def sample_compositor_def new_compositor_def new_raster_def eval_nat_numeral)
  have "glyph_text new_glyph_table 9 = [9]" using gt_okD(1) [OF new_glyph_table_ok] gt_okD(4) [OF new_glyph_table_ok, of 9] by (simp add: glyph_text_nth)
  then have "\<not> printable new_glyph_table 9" by (simp add: printable_def)
  then show ?thesis unfolding r using g by (intro exI [of _ 1] exI [of _ 0]) (simp add: sample_compositor_fields)
qed

end
