(* ===== verification/Screen.thy ===== *)
theory Screen
  imports Frame
begin

text \<open>
  The compositor over its life: the first layout, later layouts, a resized terminal and presented frames.  Between them the
  terminal shows the front buffer in the rows the compositor owns, which is what makes the next difference right.
\<close>

section \<open>The regions tile the screen\<close>

lemma partition_cases:
  fixes th hh
  defines "p \<equiv> partition_for hh th"
  obtains (hidden) "min hh th = 0" "hidden p" "sp_scroll p = None" "chrome_start p = th" "raster_height_for p = 0" "vr_height (sp_fixed p) = 0"
  | (fullscreen) "0 < th" "th \<le> hh" "fullscreen p" "\<not> hidden p" "\<not> windowed p" "sp_scroll p = None" "chrome_start p = 0"
      "raster_height_for p = th" "vr_height (sp_fixed p) = th" "sp_fixed p = \<lparr>vr_top = 0, vr_bottom = th\<rparr>"
  | (windowed) "0 < hh" "hh < th" "windowed p" "\<not> hidden p" "\<not> fullscreen p" "sp_scroll p = Some \<lparr>vr_top = 0, vr_bottom = th - hh\<rparr>"
      "chrome_start p = th - hh" "raster_height_for p = hh" "vr_height (sp_fixed p) = hh" "sp_fixed p = \<lparr>vr_top = th - hh, vr_bottom = th\<rparr>"
proof -
  consider "min hh th = 0" | "0 < th" "th \<le> hh" | "0 < hh" "hh < th" by linarith
  then show thesis
  proof cases
    case 1
    then show ?thesis by (intro hidden)
      (auto simp: p_def partition_for_def for_bottom_fixed_height_def hidden_def windowed_def fullscreen_def from_terminal_height_def
        raster_height_for_def chrome_start_def vr_height_def sz_sub_def Let_def)
  next
    case 2
    then show ?thesis by (intro fullscreen)
      (auto simp: p_def partition_for_def for_bottom_fixed_height_def hidden_def windowed_def fullscreen_def from_terminal_height_def
        raster_height_for_def chrome_start_def vr_height_def sz_sub_def Let_def)
  next
    case 3
    then show ?thesis by (intro windowed)
      (auto simp: p_def partition_for_def for_bottom_fixed_height_def hidden_def windowed_def fullscreen_def from_terminal_height_def
        raster_height_for_def chrome_start_def vr_height_def sz_sub_def Let_def)
  qed
qed

lemma partition_bounds: "chrome_start (partition_for hh th) + raster_height_for (partition_for hh th) = th"
  by (rule partition_cases [of hh th]) auto

section \<open>Controls\<close>

text \<open>\<open>ctl bs f\<close>: the bytes are a control sequence that does \<open>f\<close>.\<close>

definition ctl :: "bytes \<Rightarrow> (terminal \<Rightarrow> terminal) \<Rightarrow> bool" where
  "ctl bs f \<longleftrightarrow> (\<forall>segs rest T. term_run segs (bs @ rest) T = term_run segs rest (f T))"

lemma ctl_Nil: "ctl [] id"
  by (simp add: ctl_def)

lemma ctl_append: "ctl a f \<Longrightarrow> ctl b g \<Longrightarrow> ctl (a @ b) (g \<circ> f)"
  by (simp add: ctl_def)

lemma ctl_esc: "ns \<noteq> [] \<Longrightarrow> f \<ge> 0x40 \<Longrightarrow> ctl (esc ns f) (tm_csi ns f)"
  by (simp add: ctl_def run_esc)

lemma ctl_run: "ctl bs f \<Longrightarrow> term_run segs bs T = f T"
proof -
  assume "ctl bs f"
  then have "term_run segs (bs @ []) T = term_run segs [] (f T)" unfolding ctl_def by blast
  then show ?thesis by (simp add: term_run.simps [of segs "[]"])
qed

lemma ctl_saved: "ctl [0x1b, 0x37] (tm_esc 0x37)" "ctl [0x1b, 0x38] (tm_esc 0x38)"
  by (simp_all add: ctl_def run_two)

lemma ctl_reset_region: "ctl (CSI @ [0x72]) (tm_csi [0] 0x72)"
  unfolding ctl_def
proof (intro allI)
  fix segs rest T
  show "term_run segs ((CSI @ [0x72]) @ rest) T = term_run segs rest (tm_csi [0] 0x72 T)"
    by (subst term_run.simps) (simp add: CSI_def Let_def dec_value_def split_at_none)
qed

lemma ctl_if: "ctl a f \<Longrightarrow> ctl b g \<Longrightarrow> ctl (if p then a else b) (if p then f else g)"
  by simp

lemma ctl_concat: "(\<And>x. x \<in> set xs \<Longrightarrow> ctl (b x) (f x)) \<Longrightarrow> ctl (concat (map b xs)) (fold f xs)"
proof (induction xs)
  case (Cons x xs)
  then show ?case using ctl_append [of "b x" "f x" "concat (map b xs)" "fold f xs"] by (simp add: comp_def)
qed (simp add: ctl_Nil)

text \<open>What the commands of a repartition do; \<open>scroll_up 0\<close> and its like are not sent.\<close>

definition region_text :: "vertical_region option \<Rightarrow> bytes" where
  "region_text s = (case s of Some rows \<Rightarrow> esc [top_margin rows + 1, bottom_margin rows + 1] 0x72 | None \<Rightarrow> CSI @ [0x72])"

definition set_region :: "vertical_region option \<Rightarrow> terminal \<Rightarrow> terminal" where
  "set_region s = (case s of Some rows \<Rightarrow> tm_csi [top_margin rows + 1, bottom_margin rows + 1] 0x72 | None \<Rightarrow> tm_csi [0] 0x72)"

lemma ctl_region: "ctl (region_text s) (set_region s)"
  by (cases s) (simp_all add: region_text_def set_region_def ctl_reset_region ctl_esc)

definition clear_text :: "nat \<Rightarrow> bytes" where
  "clear_text row = esc [row + 1, 1] 0x48 @ esc [2] 0x4b"

definition clear_at :: "nat \<Rightarrow> terminal \<Rightarrow> terminal" where
  "clear_at row = tm_csi [2] 0x4b \<circ> tm_csi [row + 1, 1] 0x48"

lemma ctl_clear: "ctl (clear_text row) (clear_at row)"
  unfolding clear_text_def clear_at_def by (intro ctl_append ctl_esc) simp_all

text \<open>Everything but the screen and the cursor.\<close>

definition same_mode :: "terminal \<Rightarrow> terminal \<Rightarrow> bool" where
  "same_mode T T' \<longleftrightarrow> tm_rows T' = tm_rows T \<and> tm_cols T' = tm_cols T \<and> tm_attrs T' = tm_attrs T \<and> tm_saved T' = tm_saved T
     \<and> tm_margins T' = tm_margins T \<and> tm_wrapped T' = tm_wrapped T"

lemma clear_rows:
  assumes "tm_attrs T = plain" "b \<le> tm_rows T"
  shows "same_mode T (fold clear_at [a..<b] T)
    \<and> tm_screen (fold clear_at [a..<b] T) = (\<lambda>r. if a \<le> r \<and> r < b then blank_row plain else tm_screen T r)"
  using assms
proof (induction "b - a" arbitrary: a T)
  case 0
  then show ?case by (auto simp: same_mode_def fun_eq_iff)
next
  case (Suc k)
  let ?T = "clear_at a T"
  have ab: "a < b" "[a..<b] = a # [Suc a..<b]" using Suc.hyps(2) by (simp_all add: upt_conv_Cons)
  have T: "same_mode T ?T" "tm_screen ?T = (tm_screen T)(a := blank_row plain)"
    using Suc.prems ab(1) by (simp_all add: clear_at_def tm_csi_def same_mode_def)
  have "same_mode ?T (fold clear_at [Suc a..<b] ?T)
    \<and> tm_screen (fold clear_at [Suc a..<b] ?T) = (\<lambda>r. if Suc a \<le> r \<and> r < b then blank_row plain else tm_screen ?T r)"
    by (rule Suc.hyps(1)) (use Suc.hyps(2) Suc.prems T(1) in \<open>auto simp: same_mode_def\<close>)
  then show ?case using T ab by (auto simp: same_mode_def fun_eq_iff)
qed

section \<open>Resizing\<close>

lemma fold_clear: "fold (\<lambda>row buf. w_clear_line enabled (w_move_to enabled (0, row) buf)) rows buf = buf @ concat (map clear_text rows)"
  by (induction rows arbitrary: buf)
    (simp_all add: w_clear_line_def w_move_to_def w_csi_enabled clear_text_def del: semis.simps)

definition resize_clears :: "screen_partition \<Rightarrow> terminal \<Rightarrow> terminal" where
  "resize_clears p = (if windowed p then fold clear_at [vr_top (sp_fixed p)..<vr_bottom (sp_fixed p)]
     else if fullscreen p then tm_csi [2] 0x4a else id)"

lemma resize_program:
  assumes "tc_initialized c" "resize enabled (w, h) c = (out, c')"
  shows "ctl out (tm_esc 0x38 \<circ> resize_clears (tc_partition c') \<circ> set_region (sp_scroll (tc_partition c')) \<circ> tm_esc 0x37)"
proof -
  let ?p = "tc_partition c'"
  let ?clears = "if windowed ?p then concat (map clear_text [vr_top (sp_fixed ?p)..<vr_bottom (sp_fixed ?p)])
     else if fullscreen ?p then esc [2] 0x4a else []"
  have "out = (([0x1b, 0x37] @ region_text (sp_scroll ?p)) @ ?clears) @ [0x1b, 0x38]"
    using assms by (auto simp: resize_def Let_def fold_clear w_save_cursor_def w_restore_cursor_def w_set_scroll_region_def
      w_reset_scroll_region_def region_text_def w_clear_screen_def w_csi_enabled simp del: semis.simps split: option.splits prod.splits)
     (simp_all add: w_csi_def)
  moreover have "ctl ?clears (resize_clears ?p)" unfolding resize_clears_def
    by (intro ctl_if ctl_concat ctl_clear ctl_esc ctl_Nil) simp_all
  ultimately show ?thesis by (simp only: comp_assoc) (intro ctl_append ctl_saved ctl_region, assumption)
qed

text \<open>The compositor and the terminal agree: the screen shows the front buffer in the owned rows.\<close>

definition in_sync :: "Unicode \<Rightarrow> GlyphTable \<Rightarrow> TerminalCompositor \<Rightarrow> terminal \<Rightarrow> bool" where
  "in_sync U t c T \<longleftrightarrow>
     gt_ok t \<and> frame_ok (cluster_width U) t (tc_front c)
     \<and> ra_width (tc_back c) = ra_width (tc_front c) \<and> ra_height (tc_back c) = ra_height (tc_front c)
     \<and> chrome_start (tc_partition c) + ra_height (tc_front c) \<le> tm_rows T \<and> ra_width (tc_front c) \<le> tm_cols T
     \<and> tm_attrs T = plain \<and> displays (cluster_width U) t (tc_front c) (chrome_start (tc_partition c)) T"

lemma set_region_keeps:
  "tm_screen (set_region s T) = tm_screen T" "tm_rows (set_region s T) = tm_rows T" "tm_cols (set_region s T) = tm_cols T"
  "tm_attrs (set_region s T) = tm_attrs T" "tm_saved (set_region s T) = tm_saved T" "tm_wrapped (set_region s T) = tm_wrapped T"
  by (simp_all add: set_region_def tm_csi_def split: option.split)

lemma blank_sync:
  assumes "gt_ok t" "cluster_width U [0x20] = 1" "p = partition_for hh (tm_rows T)" "w \<le> tm_cols T" "tm_attrs T = plain"
    "blank_rows (chrome_start p) (tm_rows T) T" "tc_front c = new_raster w (raster_height_for p)"
    "tc_back c = new_raster w (raster_height_for p)" "tc_partition c = p"
  shows "in_sync U t c T"
  using assms partition_bounds [of hh "tm_rows T"] blank_frame_ok [OF assms(1), of "cluster_width U"]
    blank_displays [where wd = "cluster_width U" and t = t and off = "chrome_start p" and h = "raster_height_for p" and T = T and w = w]
  by (simp add: in_sync_def)

lemma resize_clears_all:
  assumes "tm_attrs T = plain" "p = partition_for hh (tm_rows T)"
  shows "same_mode T (resize_clears p T)" "blank_rows (chrome_start p) (tm_rows T) (resize_clears p T)"
    "r < chrome_start p \<Longrightarrow> tm_screen (resize_clears p T) r = tm_screen T r"
proof -
  have J: "tm_csi [2] 0x4a T = T\<lparr>tm_screen := \<lambda>_. blank_row plain\<rparr>" using assms(1) by (simp add: tm_csi_def)
  have "same_mode T (resize_clears p T) \<and> blank_rows (chrome_start p) (tm_rows T) (resize_clears p T)
    \<and> (r < chrome_start p \<longrightarrow> tm_screen (resize_clears p T) r = tm_screen T r)"
  proof (rule partition_cases [of hh "tm_rows T"])
  qed (use clear_rows [OF assms(1) order_refl] assms(2) J in \<open>auto simp: resize_clears_def same_mode_def blank_rows_def hidden_def windowed_def fullscreen_def\<close>)
  then show "same_mode T (resize_clears p T)" "blank_rows (chrome_start p) (tm_rows T) (resize_clears p T)"
    "r < chrome_start p \<Longrightarrow> tm_screen (resize_clears p T) r = tm_screen T r" by auto
qed

lemma resize_fields:
  assumes "resize mode (w, h) c = (out, c')"
  shows "tc_initialized c' = tc_initialized c" "tc_front c' = new_raster w (raster_height_for (tc_partition c'))"
    "tc_back c' = new_raster w (raster_height_for (tc_partition c'))"
    "tc_partition c' = partition_for (if fullscreen (tc_partition c) then h else hud_height c) h"
  using assms by (auto simp: resize_def Let_def hud_height_def split: if_splits)

lemma resize_sync:
  assumes t: "gt_ok t" "cluster_width U [0x20] = 1" and i: "tc_initialized c" and a: "tm_attrs T = plain"
    and r: "resize enabled (tm_cols T, tm_rows T) c = (out, c')"
  shows "in_sync U t c' (term_run segs out T)"
    "tm_row (term_run segs out T) = tm_row T" "tm_col (term_run segs out T) = tm_col T"
    "row < chrome_start (tc_partition c') \<Longrightarrow> tm_screen (term_run segs out T) row = tm_screen T row"
proof -
  let ?p = "tc_partition c'" and ?T1 = "set_region (sp_scroll (tc_partition c')) (tm_esc 0x37 T)"
  let ?T2 = "resize_clears ?p ?T1"
  note f = resize_fields [OF r]
  have T1: "tm_rows ?T1 = tm_rows T" "tm_cols ?T1 = tm_cols T" "tm_attrs ?T1 = plain" "tm_saved ?T1 = (tm_row T, tm_col T, plain)" "tm_screen ?T1 = tm_screen T"
    using a by (simp_all add: set_region_keeps tm_esc_def)
  obtain hh where p: "?p = partition_for hh (tm_rows ?T1)" using f(4) T1(1) by simp
  note C = resize_clears_all [OF T1(3) p]
  have run: "term_run segs out T = tm_esc 0x38 ?T2"
    using ctl_run [OF resize_program [OF i r], of segs T] by simp
  have T2: "tm_rows ?T2 = tm_rows T" "tm_cols ?T2 = tm_cols T" "tm_attrs ?T2 = plain" "tm_saved ?T2 = (tm_row T, tm_col T, plain)"
    using C(1) T1 by (simp_all add: same_mode_def)
  show "in_sync U t c' (term_run segs out T)"
    by (rule blank_sync [OF t _ _ _ _ f(2,3) refl]) (use C(2) T1 T2 p in \<open>simp_all add: run tm_esc_def blank_rows_def\<close>)
  show "tm_row (term_run segs out T) = tm_row T" "tm_col (term_run segs out T) = tm_col T"
    using T2 by (simp_all add: run tm_esc_def)
  show "row < chrome_start ?p \<Longrightarrow> tm_screen (term_run segs out T) row = tm_screen T row"
    using C(3) T1 by (simp add: run tm_esc_def)
qed

section \<open>Repartitioning\<close>

definition repartition_does :: "repartition \<Rightarrow> terminal \<Rightarrow> terminal" where
  "repartition_does c =
     (let clear = chrome_to_clear c in
      (if release c > 0 \<and> hidden (rp_next c) then tm_csi [release c] 0x42 \<circ> tm_csi [release c] 0x54 else id)
      \<circ> (if \<not> vr_empty clear then tm_esc 0x38 \<circ> fold clear_at [vr_top clear..<vr_bottom clear] \<circ> tm_esc 0x37 else id)
      \<circ> tm_esc 0x38 \<circ> set_region (sp_scroll (rp_next c)) \<circ> tm_esc 0x37
      \<circ> (if reservation c > 0 then tm_csi [reservation c] 0x41 \<circ> tm_csi [reservation c] 0x53 else id)
      \<circ> tm_csi [0] 0x6d)"

lemma ansi_commands:
  "ansi_string enabled reset_graphics = esc [0] 0x6d" "ansi_string enabled save_cursor = [0x1b, 0x37]"
  "ansi_string enabled restore_cursor = [0x1b, 0x38]"
  "0 < n \<Longrightarrow> ansi_string enabled (scroll_up n) = esc [n] 0x53" "0 < n \<Longrightarrow> ansi_string enabled (move_up n) = esc [n] 0x41"
  "0 < n \<Longrightarrow> ansi_string enabled (scroll_down n) = esc [n] 0x54" "0 < n \<Longrightarrow> ansi_string enabled (move_down n) = esc [n] 0x42"
  "(case s of Some rows \<Rightarrow> ansi_string enabled (set_scroll_region rows) | None \<Rightarrow> ansi_string enabled reset_scroll_region) = region_text s"
  "ansi_string enabled (move_to_left row) @ ansi_string enabled clear_line = clear_text row"
  by (simp_all add: w_reset_def w_save_cursor_def w_restore_cursor_def w_scroll_up_def w_scroll_down_def w_move_up_def w_move_down_def
      region_text_def clear_text_def w_clear_line_def w_move_to_def w_csi_enabled w_set_scroll_region_def w_reset_scroll_region_def
      del: semis.simps split: option.split) (simp add: w_csi_def)

lemma repartition_program: "ctl (emit_repartition (ansi_string enabled) c) (repartition_does c)"
proof -
  have "emit_repartition (ansi_string enabled) c =
    (let clear = chrome_to_clear c in
     esc [0] 0x6d @ (if reservation c > 0 then esc [reservation c] 0x53 @ esc [reservation c] 0x41 else [])
     @ [0x1b, 0x37] @ region_text (sp_scroll (rp_next c)) @ [0x1b, 0x38]
     @ (if \<not> vr_empty clear then [0x1b, 0x37] @ concat (map clear_text [vr_top clear..<vr_bottom clear]) @ [0x1b, 0x38] else [])
     @ (if release c > 0 \<and> hidden (rp_next c) then esc [release c] 0x54 @ esc [release c] 0x42 else []))"
    unfolding emit_repartition_def Let_def by (simp add: ansi_commands del: ansi_string.simps)
  also have "ctl \<dots> (repartition_does c)" unfolding repartition_does_def Let_def
    by (intro ctl_append ctl_if ctl_saved ctl_region ctl_concat ctl_clear ctl_Nil ctl_esc) simp_all
  finally show ?thesis .
qed

lemma clear_mode: "same_mode T (fold clear_at rows T)"
  by (induction rows arbitrary: T) (simp_all add: same_mode_def clear_at_def tm_csi_def)

lemma scroll_mode:
  "same_mode T (tm_csi [n] 0x53 T)" "same_mode T (tm_csi [n] 0x54 T)" "same_mode T (tm_csi [n] 0x41 T)" "same_mode T (tm_csi [n] 0x42 T)"
  by (simp_all add: same_mode_def tm_csi_def tm_scroll_up_def tm_scroll_down_def split: prod.split)

lemma same_mode_trans: "same_mode T T' \<Longrightarrow> same_mode T' T'' \<Longrightarrow> same_mode T T''"
  by (simp add: same_mode_def)

lemma same_mode_refl: "same_mode T T"
  by (simp add: same_mode_def)

text \<open>The stages of a repartition.\<close>

definition after_reservation :: "repartition \<Rightarrow> terminal \<Rightarrow> terminal" where
  "after_reservation c T = (if reservation c > 0 then tm_csi [reservation c] 0x41 (tm_csi [reservation c] 0x53 (T\<lparr>tm_attrs := plain\<rparr>))
     else T\<lparr>tm_attrs := plain\<rparr>)"

definition after_region :: "repartition \<Rightarrow> terminal \<Rightarrow> terminal" where
  "after_region c T = tm_esc 0x38 (set_region (sp_scroll (rp_next c)) (tm_esc 0x37 (after_reservation c T)))"

definition after_clear :: "repartition \<Rightarrow> terminal \<Rightarrow> terminal" where
  "after_clear c T = (let clear = chrome_to_clear c in
     if \<not> vr_empty clear then tm_esc 0x38 (fold clear_at [vr_top clear..<vr_bottom clear] (tm_esc 0x37 (after_region c T))) else after_region c T)"

definition after_release :: "repartition \<Rightarrow> terminal \<Rightarrow> terminal" where
  "after_release c T = (if release c > 0 \<and> hidden (rp_next c)
     then tm_csi [release c] 0x42 (tm_csi [release c] 0x54 (after_clear c T)) else after_clear c T)"

lemma repartition_stages: "repartition_does c T = after_release c T"
proof -
  have "tm_csi [0] 0x6d T = T\<lparr>tm_attrs := plain\<rparr>" by (simp add: tm_csi_def sgr_simple)
  then show ?thesis
    by (simp add: repartition_does_def after_release_def after_clear_def after_region_def after_reservation_def Let_def)
qed

lemma reservation_mode:
  "tm_rows (after_reservation c T) = tm_rows T" "tm_cols (after_reservation c T) = tm_cols T" "tm_attrs (after_reservation c T) = plain"
  "tm_margins (after_reservation c T) = tm_margins T"
  by (simp_all add: after_reservation_def tm_csi_def tm_scroll_up_def split: prod.split)

lemma region_keeps:
  "tm_rows (after_region c T) = tm_rows T" "tm_cols (after_region c T) = tm_cols T" "tm_attrs (after_region c T) = plain"
  "tm_screen (after_region c T) = tm_screen (after_reservation c T)" "tm_row (after_region c T) = tm_row (after_reservation c T)"
  by (simp_all add: after_region_def tm_esc_def set_region_keeps reservation_mode)

lemma clear_keeps:
  "tm_rows (after_clear c T) = tm_rows T" "tm_cols (after_clear c T) = tm_cols T" "tm_attrs (after_clear c T) = plain"
  "tm_row (after_clear c T) = tm_row (after_reservation c T)" "tm_margins (after_clear c T) = tm_margins (after_region c T)"
proof -
  let ?R = "tm_esc 0x37 (after_region c T)" and ?rows = "[vr_top (chrome_to_clear c)..<vr_bottom (chrome_to_clear c)]"
  have "same_mode ?R (fold clear_at ?rows ?R)" by (rule clear_mode)
  then show "tm_rows (after_clear c T) = tm_rows T" "tm_cols (after_clear c T) = tm_cols T" "tm_attrs (after_clear c T) = plain"
    "tm_row (after_clear c T) = tm_row (after_reservation c T)" "tm_margins (after_clear c T) = tm_margins (after_region c T)"
    using region_keeps [of c T] by (simp_all add: after_clear_def Let_def same_mode_def tm_esc_def)
qed

lemma clear_screen_rows:
  assumes "vr_bottom (chrome_to_clear c) \<le> tm_rows T"
  shows "tm_screen (after_clear c T) r =
    (if vr_contains (chrome_to_clear c) r then blank_row plain else tm_screen (after_reservation c T) r)"
proof -
  let ?R = "tm_esc 0x37 (after_region c T)" and ?v = "chrome_to_clear c"
  have "tm_attrs ?R = plain" "vr_bottom ?v \<le> tm_rows ?R" using region_keeps [of c T] assms by (simp_all add: tm_esc_def)
  from clear_rows [OF this, of "vr_top ?v"] show ?thesis
    using region_keeps(4) [of c T] by (auto simp: after_clear_def Let_def tm_esc_def vr_contains_def vr_empty_def)
qed

lemma release_mode:
  "tm_rows (after_release c T) = tm_rows T" "tm_cols (after_release c T) = tm_cols T" "tm_attrs (after_release c T) = plain"
  "\<not> hidden (rp_next c) \<Longrightarrow> after_release c T = after_clear c T"
  using clear_keeps [of c T] by (simp_all add: after_release_def tm_csi_def tm_scroll_down_def split: prod.split)

lemma repartition_run: "term_run segs (emit_repartition (ansi_string enabled) c) T = after_release c T"
  using ctl_run [OF repartition_program, of segs c T] by (simp add: repartition_stages)

lemma partition_terminal: "sp_terminal (partition_for hh th) = \<lparr>vr_top = 0, vr_bottom = th\<rparr>"
  by (simp add: partition_for_def for_bottom_fixed_height_def from_terminal_height_def Let_def)

lemma partition_hidden: "hidden (partition_for hh th) \<Longrightarrow> chrome_start (partition_for hh th) = th"
  by (simp add: chrome_start_def hidden_def windowed_def fullscreen_def partition_terminal)

text \<open>The rows that are cleared when a partition replaces another reach from the owned rows to the bottom.\<close>

lemma cleared_rows:
  assumes "\<not> hidden (partition_for hh th)"
  shows "vr_top (chrome_to_clear (rp_from p (partition_for hh th))) \<le> chrome_start (partition_for hh th)"
    "vr_bottom (chrome_to_clear (rp_from p (partition_for hh th))) = th"
  using assms partition_bounds [of hh th]
  by (auto simp: chrome_to_clear_def rp_from_def partition_terminal Let_def clamp_def)

lemma hud_fields:
  assumes "set_hud_height mode hh th cur c = (out, c')" "tc_initialized c" "partition_for hh th \<noteq> tc_partition c"
  shows "out = emit_repartition (ansi_string mode) (rp_from (tc_partition c) (partition_for hh th))"
    "tc_partition c' = partition_for hh th" "tc_initialized c'"
    "tc_front c' = new_raster (ra_width (tc_front c)) (raster_height_for (partition_for hh th))"
    "tc_back c' = new_raster (ra_width (tc_front c)) (raster_height_for (partition_for hh th))"
  using assms by (auto simp: set_hud_height_def Let_def)

lemma hud_sync:
  assumes s: "in_sync U t c T" and sp: "cluster_width U [0x20] = 1" and i: "tc_initialized c"
    and r: "set_hud_height enabled hh (tm_rows T) cur c = (out, c')"
  shows "in_sync U t c' (term_run segs out T)" "tc_initialized c'"
proof -
  let ?p = "partition_for hh (tm_rows T)" and ?c = "rp_from (tc_partition c) (partition_for hh (tm_rows T))"
  have "in_sync U t c' (term_run segs out T) \<and> tc_initialized c'"
  proof (cases "?p = tc_partition c")
    case True
    then have "out = []" "c' = c" using r by (simp_all add: set_hud_height_def)
    then show ?thesis using s i by (simp add: term_run.simps [of segs "[]"])
  next
    case False
    note f = hud_fields [OF r i False]
    let ?T = "after_release ?c T"
    have run: "term_run segs out T = ?T" by (simp add: f(1) repartition_run)
    have "blank_rows (chrome_start ?p) (tm_rows T) ?T"
    proof (cases "hidden ?p")
      case True
      then have "chrome_start ?p = tm_rows T" by (rule partition_hidden)
      then show ?thesis by (simp add: blank_rows_def)
    next
      case False
      then show ?thesis using cleared_rows [OF False, of "tc_partition c"] release_mode(4) [of ?c T] clear_screen_rows [of ?c T]
        by (simp add: blank_rows_def rp_from_def vr_contains_def)
    qed
    then have "in_sync U t c' ?T"
      using s sp f by (intro blank_sync [where hh = hh and p = ?p and w = "ra_width (tc_front c)"]) (simp_all add: release_mode in_sync_def)
    then show ?thesis using f(3) by (simp add: run)
  qed
  then show "in_sync U t c' (term_run segs out T)" "tc_initialized c'" by auto
qed

section \<open>The first layout\<close>

lemma first_fields:
  assumes "set_hud_height mode hh th cur c = (out, c')" "\<not> tc_initialized c" "partition_for hh th \<noteq> tc_partition c"
    "\<not> hidden (partition_for hh th)"
  shows "out = emit_repartition (ansi_string mode) (rp_initially (partition_for hh th) cur)"
    "tc_partition c' = partition_for hh th" "tc_initialized c'"
    "tc_front c' = new_raster (ra_width (tc_front c)) (raster_height_for (partition_for hh th))"
    "tc_back c' = new_raster (ra_width (tc_front c)) (raster_height_for (partition_for hh th))"
  using assms by (auto simp: set_hud_height_def Let_def)

lemma windowed_bottom:
  assumes "0 < hh" "hh < th"
  shows "windowed (partition_for hh th)" "\<not> hidden (partition_for hh th)" "chrome_start (partition_for hh th) = th - hh"
    "scroll_bottom (partition_for hh th) = th - hh - 1" "vr_height (sp_fixed (partition_for hh th)) = hh"
proof -
  have "windowed (partition_for hh th) \<and> \<not> hidden (partition_for hh th) \<and> chrome_start (partition_for hh th) = th - hh
    \<and> scroll_bottom (partition_for hh th) = th - hh - 1 \<and> vr_height (sp_fixed (partition_for hh th)) = hh"
    by (rule partition_cases [of hh th])
      (use assms in \<open>simp_all add: scroll_bottom_def bottom_margin_def bottom_inclusive_def sz_sub_def\<close>)
  then show "windowed (partition_for hh th)" "\<not> hidden (partition_for hh th)" "chrome_start (partition_for hh th) = th - hh"
    "scroll_bottom (partition_for hh th) = th - hh - 1" "vr_height (sp_fixed (partition_for hh th)) = hh" by auto
qed

lemma first_reservation:
  assumes "0 < hh" "hh < th"
  shows "reservation (rp_initially (partition_for hh th) cur) = (case cur of Some row \<Rightarrow> row - (th - hh - 1) | None \<Rightarrow> 0)"
  using windowed_bottom [OF assms] by (auto simp: reservation_def rp_initially_def sz_sub_def split: option.split)

text \<open>Scrolling by the reservation puts the line of the cursor above the fixed rows.\<close>

lemma scrolled_up:
  assumes "tm_margins T = (0, tm_rows T - 1)" "r < tm_rows T"
  shows "tm_screen (after_reservation c T) r =
      (if reservation c = 0 \<or> r + reservation c < tm_rows T then tm_screen T (r + reservation c) else blank_row plain)"
    "tm_row (after_reservation c T) = tm_row T - reservation c"
  using assms by (auto simp: after_reservation_def tm_csi_def tm_scroll_up_def)

lemma first_hud_sync:
  assumes t: "gt_ok t" "cluster_width U [0x20] = 1" and i: "\<not> tc_initialized c" and w: "ra_width (tc_front c) \<le> tm_cols T"
    and hh: "0 < hh" "hh < tm_rows T" and m: "tm_margins T = (0, tm_rows T - 1)"
    and new: "partition_for hh (tm_rows T) \<noteq> tc_partition c" and row: "tm_row T < tm_rows T" "blank_rows (tm_row T + 1) (tm_rows T) T"
    and r: "set_hud_height enabled hh (tm_rows T) (Some (tm_row T)) c = (out, c')"
  shows "in_sync U t c' (term_run segs out T)" "tc_initialized c'"
    "tm_row (term_run segs out T) = min (tm_row T) (tm_rows T - hh - 1)"
    "k \<le> tm_row (term_run segs out T) \<Longrightarrow>
       tm_screen (term_run segs out T) (tm_row (term_run segs out T) - k) = tm_screen T (tm_row T - k)"
proof -
  let ?p = "partition_for hh (tm_rows T)" and ?c = "rp_initially (partition_for hh (tm_rows T)) (Some (tm_row T))"
  note W = windowed_bottom [OF hh]
  note f = first_fields [OF r i new W(2)]
  let ?T = "after_release ?c T" and ?n = "tm_row T - (tm_rows T - hh - 1)"
  have n: "reservation ?c = ?n" using first_reservation [OF hh, of "Some (tm_row T)"] by simp
  have run: "term_run segs out T = ?T" by (simp add: f(1) repartition_run)
  have e: "vr_empty (chrome_to_clear ?c)" "rp_next ?c = ?p"
    by (simp_all add: chrome_to_clear_def rp_initially_def vr_empty_def Let_def)
  have T: "tm_screen ?T = tm_screen (after_reservation ?c T)" "tm_row ?T = tm_row (after_reservation ?c T)"
    using release_mode(4) [of ?c T] e W(2) region_keeps(4,5) [of ?c T] by (simp_all add: after_clear_def)
  have rows: "tm_screen ?T q = (if ?n = 0 \<or> q + ?n < tm_rows T then tm_screen T (q + ?n) else blank_row plain)" if "q < tm_rows T" for q
    using scrolled_up(1) [OF m that, of ?c] unfolding T(1) n .
  have "blank_rows (chrome_start ?p) (tm_rows T) ?T"
    unfolding blank_rows_def W(3)
  proof (intro allI impI)
    fix q assume q: "tm_rows T - hh \<le> q" "q < tm_rows T"
    have "tm_row T + 1 \<le> q + ?n" using q(1) hh by linarith
    then show "tm_screen ?T q = blank_row plain" using rows [OF q(2)] row(2) q(2) by (auto simp: blank_rows_def)
  qed
  then show "in_sync U t c' (term_run segs out T)"
    unfolding run using t f w by (intro blank_sync [where hh = hh and p = ?p and w = "ra_width (tc_front c)"]) (simp_all add: release_mode)
  show "tc_initialized c'" by (rule f(3))
  have row': "tm_row ?T = min (tm_row T) (tm_rows T - hh - 1)" using scrolled_up(2) [OF m row(1), of ?c] by (simp add: T n)
  then show "tm_row (term_run segs out T) = min (tm_row T) (tm_rows T - hh - 1)" by (simp add: run)
  show "tm_screen (term_run segs out T) (tm_row (term_run segs out T) - k) = tm_screen T (tm_row T - k)"
    if "k \<le> tm_row (term_run segs out T)"
  proof -
    have k: "k \<le> min (tm_row T) (tm_rows T - hh - 1)" using that by (simp add: run row')
    then have q: "tm_row ?T - k + ?n = tm_row T - k" "tm_row ?T - k < tm_rows T" using row(1) unfolding row' by auto
    have "tm_row T - k < tm_rows T" using row(1) by simp
    then show ?thesis using rows [OF q(2), unfolded q(1)] unfolding run by simp
  qed
qed

text \<open>A full-screen program starts from a cleared screen.\<close>

lemma ctl_private: "ctl [0x1b, 0x5b, 0x3f, 0x32, 0x35, 0x6c] id" "ctl [0x1b, 0x5b, 0x3f, 0x31, 0x30, 0x34, 0x39, 0x68] id"
  "ctl [0x1b, 0x5b, 0x48] (tm_csi [0] 0x48)" "ctl [0x1b, 0x5b, 0x32, 0x4a] (tm_csi [2] 0x4a)"
  unfolding ctl_def by (subst term_run.simps, simp add: Let_def tm_csi_def split_at_none dec_value_def)+

lemma open_app_program:
  assumes "to_clear_screen o'"
  shows "ctl (fst (open_terminal_app o' ws)) (tm_csi [0] 0x48 \<circ> tm_csi [2] 0x4a)"
proof -
  have "ctl ((if to_alternate_screen o' then [0x1b, 0x5b, 0x3f, 0x31, 0x30, 0x34, 0x39, 0x68] else [])
      @ (if to_hide_cursor o' then [0x1b, 0x5b, 0x3f, 0x32, 0x35, 0x6c] else []) @ [0x1b, 0x5b, 0x32, 0x4a] @ [0x1b, 0x5b, 0x48])
    (((tm_csi [0] 0x48 \<circ> tm_csi [2] 0x4a) \<circ> (if to_hide_cursor o' then id else id)) \<circ> (if to_alternate_screen o' then id else id))"
    by (intro ctl_append ctl_if ctl_private ctl_Nil)
  then show ?thesis using assms by (simp add: open_terminal_app_def Let_def comp_assoc)
qed

lemma open_app_sync:
  assumes t: "gt_ok t" "cluster_width U [0x20] = 1" and o': "to_clear_screen o'" and a: "tm_attrs T = plain"
    and ws: "0 < tm_cols T" "0 < tm_rows T"
  shows "in_sync U t (ta_compositor (snd (open_terminal_app o' (Some (tm_cols T, tm_rows T)))))
    (term_run segs (fst (open_terminal_app o' (Some (tm_cols T, tm_rows T)))) T)"
proof -
  let ?T = "tm_csi [0] 0x48 (tm_csi [2] 0x4a T)" and ?c = "new_compositor (tm_cols T, tm_rows T)"
  have T: "?T = T\<lparr>tm_screen := \<lambda>_. blank_row plain, tm_row := 0, tm_col := 0\<rparr>" using a by (simp add: tm_csi_def)
  have "raster_height_for (partition_for (tm_rows T) (tm_rows T)) = tm_rows T"
    by (rule partition_cases [of "tm_rows T" "tm_rows T"]) (use ws in auto)
  then have "in_sync U t ?c ?T"
    using t a by (intro blank_sync [where hh = "tm_rows T" and w = "tm_cols T" and p = "partition_for (tm_rows T) (tm_rows T)"])
      (simp_all add: T blank_rows_def new_compositor_def)
  then show ?thesis using ctl_run [OF open_app_program [OF o'], of segs "Some (tm_cols T, tm_rows T)" T] ws
    by (simp add: open_terminal_app_def Let_def current_terminal_size_def)
qed

section \<open>Sessions\<close>

lemma glyph_text_grows:
  assumes "gt_grows t t'" "frame_ok wd t r" "y < ra_height r" "x < ra_width r"
  shows "cell_text t' r y x = cell_text t r y x"
  using frame_cell [OF assms(2-4)] assms(1) by (simp add: cell_ok_def cell_text_def gt_grows_def)

lemma frame_ok_grows:
  assumes g: "gt_grows t t'" and f: "frame_ok wd t r"
  shows "frame_ok wd t' r"
proof -
  have "cell_ok wd t' r y x" if "y < ra_height r" "x < ra_width r" for x y
  proof -
    note c = frame_cell [OF f that] and e = glyph_text_grows [OF g f that(1)]
    have "gt_size t \<le> gt_size t'" "printable t' (c_glyph (raster_cell r y x)) = printable t (c_glyph (raster_cell r y x))"
      using g c by (simp_all add: gt_grows_def printable_def cell_ok_def)
    then show ?thesis using c e [OF that(2)] e [of "x - 1"] e [of "x + 1"] that(2) by (auto simp: cell_ok_def split: if_splits)
  qed
  then show ?thesis using f by (simp add: frame_ok_def)
qed

lemma displays_grows:
  assumes g: "gt_grows t t'" and f: "frame_ok wd t r" and s: "displays wd t r off T"
  shows "displays wd t' r off T"
  unfolding displays_def
proof (intro allI impI)
  fix y x assume y: "y < ra_height r" and x: "x < ra_width r"
  note e = glyph_text_grows [OF g f y]
  have l: "lead (cell_text t' r y) x = lead (cell_text t r y) x" by (simp add: lead_def e [OF x])
  have "lead (cell_text t r y) x < ra_width r" using x by (auto simp: lead_def)
  then show "tm_screen T (off + y) x = shown_at (cell_text t' r y) (\<lambda>x. wd (cell_text t' r y x)) (cell_attrs r y) x"
    using s x y by (simp add: displays_def shown_at_def l e)
qed

text \<open>
  What happens between the compositor and its terminal: drawing into the back buffer, presenting, a new height
  of the fixed region, a new size of the terminal (whose screen may then hold anything), and output of others outside the
  owned rows.
\<close>

inductive screen_step :: "Unicode \<Rightarrow> (bytes \<Rightarrow> (bytes \<times> nat) list) \<Rightarrow> TerminalCompositor \<times> GlyphTable \<times> terminal
    \<Rightarrow> TerminalCompositor \<times> GlyphTable \<times> terminal \<Rightarrow> bool" for U segs where
  draw: "gt_grows t t' \<Longrightarrow> ra_width r = ra_width (tc_back c) \<Longrightarrow> ra_height r = ra_height (tc_back c) \<Longrightarrow>
    screen_step U segs (c, t, T) (c\<lparr>tc_back := r\<rparr>, t', T)"
| present: "frame_ok (cluster_width U) t (tc_back c) \<Longrightarrow> cuts_cells segs (cluster_width U) t (tc_back c) \<Longrightarrow>
    present_frame enabled t c = Inr (out, c') \<Longrightarrow> screen_step U segs (c, t, T) (c', t, term_run segs out T)"
| repartition: "tc_initialized c \<Longrightarrow> set_hud_height enabled hh (tm_rows T) cur c = (out, c') \<Longrightarrow>
    screen_step U segs (c, t, T) (c', t, term_run segs out T)"
| winch: "tc_initialized c \<Longrightarrow> tm_attrs T' = plain \<Longrightarrow> resize enabled (tm_cols T', tm_rows T') c = (out, c') \<Longrightarrow>
    screen_step U segs (c, t, T) (c', t, term_run segs out T')"
| others: "tm_rows T' = tm_rows T \<Longrightarrow> tm_cols T' = tm_cols T \<Longrightarrow> tm_attrs T' = plain \<Longrightarrow>
    \<forall>row. chrome_start (tc_partition c) \<le> row \<longrightarrow> tm_screen T' row = tm_screen T row \<Longrightarrow>
    screen_step U segs (c, t, T) (c, t, T')"

abbreviation synced :: "Unicode \<Rightarrow> TerminalCompositor \<times> GlyphTable \<times> terminal \<Rightarrow> bool" where
  "synced U s \<equiv> (case s of (c, t, T) \<Rightarrow> in_sync U t c T)"

lemma present_sync:
  assumes s: "in_sync U t c T" and b: "frame_ok (cluster_width U) t (tc_back c)" and cut: "cuts_cells segs (cluster_width U) t (tc_back c)"
    and p: "present_frame enabled t c = Inr (out, c')"
  shows "in_sync U t c' (term_run segs out T)"
proof -
  have "\<exists>out. present_frame enabled t c = Inr (out, c\<lparr>tc_front := tc_back c\<rparr>)
    \<and> displays (cluster_width U) t (tc_back c) (chrome_start (tc_partition c)) (term_run segs out T)
    \<and> term_run segs out T = T\<lparr>tm_screen := tm_screen (term_run segs out T), tm_saved := (tm_row T, tm_col T, plain)\<rparr>"
    using frame_presented [OF _ b _ _ _ cut, of T] s unfolding in_sync_def by auto
  then have d: "c' = c\<lparr>tc_front := tc_back c\<rparr>"
      "displays (cluster_width U) t (tc_back c) (chrome_start (tc_partition c)) (term_run segs out T)"
    and T: "term_run segs out T = T\<lparr>tm_screen := tm_screen (term_run segs out T), tm_saved := (tm_row T, tm_col T, plain)\<rparr>"
    using p by auto
  have "tm_rows (term_run segs out T) = tm_rows T" "tm_cols (term_run segs out T) = tm_cols T" "tm_attrs (term_run segs out T) = tm_attrs T"
    by (subst T; simp)+
  then show ?thesis using s b d by (simp add: in_sync_def)
qed

lemma screen_step_sync:
  assumes "screen_step U segs s s'" "cluster_width U [0x20] = 1" "synced U s"
  shows "synced U s'"
  using assms
proof (cases rule: screen_step.cases)
  case (draw t t' r c T)
  then show ?thesis using assms(3) frame_ok_grows [OF draw(3)] displays_grows [OF draw(3)] by (auto simp: in_sync_def gt_grows_def)
next
  case (present t c out c' T)
  then show ?thesis using assms(3) present_sync by auto
next
  case (repartition c hh T cur out c' t)
  then show ?thesis using assms(2,3) hud_sync(1) by auto
next
  case (winch c T' out c' t T)
  then show ?thesis using assms(2,3) resize_sync(1) [of t U c T' out c'] by (auto simp: in_sync_def)
next
  case (others T' T c t)
  then show ?thesis using assms(3) by (auto simp: in_sync_def displays_def)
qed

text \<open>A full-screen program never installs a layout, so a new size clears the buffers and not the screen.\<close>

lemma same_rasters_no_runs: "raw_changes r r = []"
proof -
  have c: "filter (\<lambda>chunk. is_changed (hd chunk)) (chunk_by same_run ps) = []" if "\<forall>p \<in> set ps. \<not> is_changed p" for ps
    using that
  proof (induction "length ps" arbitrary: ps rule: less_induct)
    case less
    show ?case
    proof (cases "ps = []")
      case False
      then obtain k where k: "0 < k" "k \<le> length ps" "chunk_by same_run ps = take k ps # chunk_by same_run (drop k ps)"
        using chunk_by_head [of ps same_run] by blast
      have "hd (take k ps) \<in> set ps" using k(1) False by simp
      moreover have "filter (\<lambda>chunk. is_changed (hd chunk)) (chunk_by same_run (drop k ps)) = []"
        by (rule less.hyps) (use k less.prems False in \<open>auto dest: in_set_dropD\<close>)
      ultimately show ?thesis using less.prems k(3) by simp
    qed simp
  qed
  have "\<not> is_changed p" if "p \<in> set (zip xs xs)" for p xs using that by (auto simp: is_changed_def in_set_zip)
  then show ?thesis by (auto simp: raw_changes_def zip_rows_def row_changes_def c)
qed

lemma refresh_writes_nothing:
  assumes "\<not> tc_initialized (ta_compositor app)" "current_terminal_size ws (to_fallback_size (ta_options app)) \<noteq> ta_size app"
  shows "\<exists>app'. refresh_size enabled ws app = (True, [], app') \<and> \<not> tc_initialized (ta_compositor app')
    \<and> tc_front (ta_compositor app') = tc_back (ta_compositor app')
    \<and> present_frame enabled t (ta_compositor app') = Inr ([0x1b, 0x37, 0x1b, 0x38], ta_compositor app')"
proof -
  let ?sz = "current_terminal_size ws (to_fallback_size (ta_options app))"
  obtain out c where r: "resize enabled ?sz (ta_compositor app) = (out, c)" by (cases "resize enabled ?sz (ta_compositor app)")
  obtain w h where sz: "?sz = (w, h)" by (cases ?sz)
  note f = resize_fields [OF r [unfolded sz]]
  have out: "out = []" using r assms(1) by (simp add: sz resize_def Let_def)
  have eq: "tc_front c = tc_back c" using f(2,3) by simp
  have p: "present_frame enabled t c = Inr ([0x1b, 0x37, 0x1b, 0x38], c)"
    using eq by (simp add: present_frame_def diff_rasters_def same_rasters_no_runs w_save_cursor_def w_restore_cursor_def)
  have "\<not> (fst ?sz = fst (ta_size app) \<and> snd ?sz = snd (ta_size app))" using assms(2) by (metis prod.collapse)
  then have "refresh_size enabled ws app = (True, [], app\<lparr>ta_size := ?sz, ta_compositor := c\<rparr>)"
    using r out unfolding refresh_size_def Let_def by simp
  then show ?thesis using p f(1) eq assms(1) by (intro exI [of _ "app\<lparr>ta_size := ?sz, ta_compositor := c\<rparr>"]) simp
qed

section \<open>Output above the fixed rows\<close>

lemma kept_rows:
  assumes "\<not> hidden (partition_for hh th)" "r < vr_top (chrome_to_clear (rp_from p (partition_for hh th)))" "tm_rows T = th"
  shows "tm_screen (after_release (rp_from p (partition_for hh th)) T) r = tm_screen (after_reservation (rp_from p (partition_for hh th)) T) r"
  using assms clear_screen_rows [of "rp_from p (partition_for hh th)" T] cleared_rows(2) [OF assms(1), of p] release_mode(4) [of "rp_from p (partition_for hh th)" T]
  by (simp add: vr_contains_def rp_from_def)

lemma clear_top:
  assumes "0 < hh" "hh < th" "0 < old" "old < th"
  shows "vr_top (chrome_to_clear (rp_from (partition_for old th) (partition_for hh th))) = th - max hh old"
  using windowed_bottom [OF assms(1,2)] windowed_bottom [OF assms(3,4)] assms
  by (auto simp: chrome_to_clear_def rp_from_def Let_def clamp_def partition_terminal)

lemma grown:
  assumes "0 < old" "old < hh" "hh < tm_rows T" "tm_margins T = (0, tm_rows T - old - 1)"
  defines "c \<equiv> rp_from (partition_for old (tm_rows T)) (partition_for hh (tm_rows T))"
  shows "r < tm_rows T - hh \<Longrightarrow> tm_screen (after_release c T) r = tm_screen T (r + (hh - old))"
    "tm_row (after_release c T) = tm_row T - (hh - old)"
proof -
  have o: "old < tm_rows T" "0 < hh" using assms by auto
  note P = windowed_bottom [OF assms(1) o(1)] and N = windowed_bottom [OF o(2) assms(3)]
  have n: "reservation c = hh - old" using P N assms(1-3) by (simp add: reservation_def c_def rp_from_def sz_sub_def)
  show "tm_row (after_release c T) = tm_row T - (hh - old)"
    using release_mode(4) [of c T] N(2) clear_keeps(4) [of c T] assms(2,4)
    by (simp add: c_def rp_from_def after_reservation_def n [unfolded c_def rp_from_def] tm_csi_def tm_scroll_up_def)
  show "tm_screen (after_release c T) r = tm_screen T (r + (hh - old))" if "r < tm_rows T - hh"
  proof -
    have "r \<le> tm_rows T - old - 1" "r + (hh - old) \<le> tm_rows T - old - 1" using that assms(2) by linarith+
    then have "tm_screen (after_reservation c T) r = tm_screen T (r + (hh - old))"
      using assms(2,4) n by (simp add: after_reservation_def tm_csi_def tm_scroll_up_def)
    then show ?thesis
      using kept_rows [OF N(2), of r "partition_for old (tm_rows T)" T] clear_top [OF o(2) assms(3,1) o(1)] that assms(2) by (simp add: c_def)
  qed
qed

lemma shrunk:
  assumes "0 < hh" "hh < old" "old < tm_rows T"
  defines "c \<equiv> rp_from (partition_for old (tm_rows T)) (partition_for hh (tm_rows T))"
  shows "r < tm_rows T - old \<Longrightarrow> tm_screen (after_release c T) r = tm_screen T r"
    "tm_row (after_release c T) = tm_row T"
proof -
  have o: "0 < old" "hh < tm_rows T" using assms by auto
  note P = windowed_bottom [OF o(1) assms(3)] and N = windowed_bottom [OF assms(1) o(2)]
  have n: "reservation c = 0" using P N assms(1-3) by (simp add: reservation_def c_def rp_from_def sz_sub_def)
  show "tm_row (after_release c T) = tm_row T"
    using release_mode(4) [of c T] N(2) clear_keeps(4) [of c T]
    by (simp add: c_def rp_from_def after_reservation_def n [unfolded c_def rp_from_def])
  show "tm_screen (after_release c T) r = tm_screen T r" if "r < tm_rows T - old"
    using kept_rows [OF N(2), of r "partition_for old (tm_rows T)" T] clear_top [OF assms(1) o(2,1) assms(3)] that assms(2) n
    by (simp add: c_def after_reservation_def)
qed

lemma hidden_again:
  assumes "0 < old" "old < tm_rows T"
  defines "c \<equiv> rp_from (partition_for old (tm_rows T)) (partition_for 0 (tm_rows T))"
  shows "r < tm_rows T - old \<Longrightarrow> tm_screen (after_release c T) (r + old) = tm_screen T r"
    "tm_row (after_release c T) = min (tm_rows T - 1) (tm_row T + old)"
proof -
  note P = windowed_bottom [OF assms(1,2)]
  let ?n = "partition_for 0 (tm_rows T)"
  have N: "hidden ?n" "\<not> windowed ?n" "sp_scroll ?n = None"
    by (simp_all add: partition_for_def for_bottom_fixed_height_def hidden_def windowed_def Let_def)
  have rr: "reservation c = 0" "release c = old" using P N by (simp_all add: reservation_def release_def c_def rp_from_def)
  have f: "sp_fixed (partition_for old (tm_rows T)) = \<lparr>vr_top = tm_rows T - old, vr_bottom = tm_rows T\<rparr>"
    by (rule partition_cases [of old "tm_rows T"]) (use assms in auto)
  have cl: "chrome_to_clear c = \<lparr>vr_top = tm_rows T - old, vr_bottom = tm_rows T\<rparr>"
    using N(1) by (simp add: chrome_to_clear_def c_def rp_from_def Let_def f)
  have m: "tm_margins (after_clear c T) = (0, tm_rows T - 1)"
    using clear_keeps(5) [of c T] N(3) reservation_mode(1) [of c T]
    by (simp add: after_region_def set_region_def c_def rp_from_def tm_csi_def tm_esc_def)
  have nx: "hidden (rp_next c)" using N(1) by (simp add: c_def rp_from_def)
  have R: "after_release c T = tm_csi [old] 0x42 (tm_csi [old] 0x54 (after_clear c T))"
    using rr(2) nx assms(1) by (simp add: after_release_def)
  show "tm_screen (after_release c T) (r + old) = tm_screen T r" if "r < tm_rows T - old"
  proof -
    have "r + old \<le> tm_rows T - 1" using that by linarith
    then show ?thesis
      using that m clear_screen_rows [of c T r] cl rr(1) assms(2)
      by (simp add: R tm_csi_def tm_scroll_down_def vr_contains_def after_reservation_def)
  qed
  show "tm_row (after_release c T) = min (tm_rows T - 1) (tm_row T + old)"
    using m clear_keeps(1,4) [of c T] rr(1) by (auto simp: R tm_csi_def tm_scroll_down_def after_reservation_def)
qed

section \<open>A style that splits a wide glyph\<close>

text \<open>A wide glyph in reverse video, as under the cursor of a text field, with its second cell in the style of the text: the
  run that begins in the second cell prints the following glyph over it.\<close>

definition split_style :: TerminalCompositor where
  "split_style = (new_compositor (3, 1))\<lparr>tc_back :=
     \<lparr>ra_width = 3, ra_height = 1, ra_glyphs = [256, 257, 0x41], ra_fgs = [terminal_default, terminal_default, terminal_default],
      ra_bgs = [terminal_default, terminal_default, terminal_default], ra_ems = [32, 0, 0]\<rparr>\<rparr>"

lemma split_runs:
  "diff_rasters (tc_front split_style) (tc_back split_style) =
    [\<lparr>cr_origin = (0, 0), cr_glyphs = [256], cr_fg_change = None, cr_bg_change = None, cr_em_change = Some 32,
      cr_fg_reset = False, cr_bg_reset = False, cr_em_reset = False\<rparr>,
     \<lparr>cr_origin = (1, 0), cr_glyphs = [257, 0x41], cr_fg_change = None, cr_bg_change = None, cr_em_change = None,
      cr_fg_reset = False, cr_bg_reset = False, cr_em_reset = True\<rparr>]"
  by code_simp

lemma split_start: "chrome_start (tc_partition split_style) = 0"
  by code_simp

lemma split_style_misprints:
  assumes "gt_get 256 t = Some [0xe4, 0xb8, 0x96]" "gt_get 257 t = Some []" "gt_get 0x41 t = Some [0x41]"
    "segs [0xe4, 0xb8, 0x96] = [([0xe4, 0xb8, 0x96], 2)]" "segs [0x41] = [([0x41], 1)]" "tm_rows T = 1" "tm_cols T = 3"
    "tm_attrs T = plain" "tm_screen T 0 = blank_row plain"
  shows "\<exists>out. present_frame enabled t split_style = Inr (out, split_style\<lparr>tc_front := tc_back split_style\<rparr>)
    \<and> tm_screen (term_run segs out T) 0 0 = Lost
    \<and> tm_screen (term_run segs out T) 0 1 = Part [0x41] 1 plain 0
    \<and> tm_screen (term_run segs out T) 0 2 = Part [0x20] 1 plain 0"
proof -
  let ?out = "[0x1b, 0x37] @ esc [1, 1] 0x48 @ esc [7] 0x6d @ [0xe4, 0xb8, 0x96] @ esc [1, Suc (Suc 0)] 0x48 @ esc [0] 0x6d @ [0x41] @ [0x1b, 0x38]"
  have m: "w_move_to enabled (x, y) buf = buf @ esc [y + 1, x + 1] 0x48" for x y buf
    by (simp add: w_move_to_def w_csi_enabled del: semis.simps)
  have e: "emphasis_text 32 = esc [7] 0x6d" by (simp add: emphasis_text_def emphasis_codes_def has_emphasis_def)
  have "present_frame enabled t split_style = Inr (?out, split_style\<lparr>tc_front := tc_back split_style\<rparr>)"
    unfolding present_frame_def split_runs split_start
    by (simp add: emit_run_def Let_def m emit_reset_def emit_bg_change_def emit_fg_change_def w_style_enabled e w_reset_def w_csi_enabled assms(1-3)
       w_save_cursor_def w_restore_cursor_def w_text_def del: semis.simps)
  moreover have "tm_screen (term_run segs ?out T) 0 = overwrite 1 [0x41] 1 plain (overwrite 0 [0xe4, 0xb8, 0x96] 2 (plain\<lparr>at_em := 32\<rparr>) (blank_row plain))"
  proof -
    have t: "term_run segs (0xe4 # 0xb8 # 0x96 # esc ns f @ rest) T' = term_run segs (esc ns f @ rest) (put_glyph ([0xe4, 0xb8, 0x96], 2) T')" for ns f rest T'
      using run_text [of "[0xe4, 0xb8, 0x96]" "esc ns f @ rest" segs T'] assms(4) by (simp add: esc_def CSI_def)
    have u: "term_run segs [0x41, 0x1b, 0x38] T' = tm_esc 0x38 (put_glyph ([0x41], 1) T')" for T'
      using run_text [of "[0x41]" "[0x1b, 0x38]" segs T'] assms(5) by (simp add: run_two term_run.simps [of segs "[]"])
    show ?thesis using assms(6-)
      by (simp add: run_two run_esc t u tm_esc_def tm_csi_def put_glyph_def sgr_def emphasis_codes_def plain_def)
  qed
  ultimately show ?thesis by (simp add: overwrite_def blank_row_def hits_def plain_def)
qed

section \<open>Properties\<close>

text \<open>C5. The compositor and its terminal stay in step.  From a state in which the terminal shows the front buffer in the owned
  rows, every sequence of the following steps leads to such a state again: drawing into the back buffer; presenting a frame
  whose cells the terminal can show (the conditions of \<open>frame_ok\<close> and \<open>cuts_cells\<close>); once a layout has been
  installed, a new height of the layout and a new size of the terminal, after which its screen may hold anything; and output of others
  that leaves the owned rows and the plain attributes alone.  Left out are heights and sizes that change before a
  layout is installed: \<open>first_layout\<close> is about the first height, and a full-screen program, which never installs one, is not
  redrawn when its terminal is resized (\<open>refresh_writes_nothing\<close>).\<close>

theorem session_in_sync:
  assumes "(screen_step U segs)\<^sup>*\<^sup>* s s'" "cluster_width U [0x20] = 1" "synced U s"
  shows "synced U s'"
  using assms by (induction rule: rtranclp_induct) (auto dest: screen_step_sync)

theorem session_in_sync_witness:
  "\<exists>T. (screen_step sample_table (map (\<lambda>b. ([b], 1))))\<^sup>*\<^sup>*
      (new_compositor (3, 1), new_glyph_table, sample_terminal 1 3) (sample_compositor\<lparr>tc_front := sample_frame\<rparr>, new_glyph_table, T)
    \<and> displays (cluster_width sample_table) new_glyph_table sample_frame 0 T"
proof -
  let ?segs = "map (\<lambda>b :: byte. ([b], 1 :: nat))"
  have s: "synced sample_table (new_compositor (3, 1), new_glyph_table, sample_terminal 1 3)"
    using blank_sync [OF new_glyph_table_ok sample_space, of "partition_for 1 1" 1 "sample_terminal 1 3" 3 "new_compositor (3, 1)"]
    by (simp add: sample_terminal_def new_compositor_def blank_rows_def raster_height_for_def partition_for_def for_bottom_fixed_height_def
      hidden_def windowed_def from_terminal_height_def vr_height_def sz_sub_def Let_def)
  have d: "screen_step sample_table ?segs (new_compositor (3, 1), new_glyph_table, sample_terminal 1 3) (sample_compositor, new_glyph_table, sample_terminal 1 3)"
    using draw [of new_glyph_table new_glyph_table sample_frame "new_compositor (3, 1)" sample_table ?segs "sample_terminal 1 3"]
    by (simp add: gt_grows_refl new_glyph_table_ok sample_compositor_def sample_frame_def new_compositor_def)
  have "synced sample_table (sample_compositor, new_glyph_table, sample_terminal 1 3)" by (rule screen_step_sync [OF d sample_space s])
  then have "\<exists>out. present_frame enabled new_glyph_table sample_compositor = Inr (out, sample_compositor\<lparr>tc_front := sample_frame\<rparr>)"
    using frame_presented [of sample_table new_glyph_table sample_compositor ?segs "sample_terminal 1 3"] sample_frame_ok
    by (auto simp: in_sync_def sample_compositor_fields)
  then obtain out where out: "present_frame enabled new_glyph_table sample_compositor = Inr (out, sample_compositor\<lparr>tc_front := sample_frame\<rparr>)" ..
  let ?T = "term_run ?segs out (sample_terminal 1 3)"
  have "screen_step sample_table ?segs (sample_compositor, new_glyph_table, sample_terminal 1 3) (sample_compositor\<lparr>tc_front := sample_frame\<rparr>, new_glyph_table, ?T)"
    by (rule present) (use sample_frame_ok out in \<open>simp_all add: sample_compositor_fields\<close>)
  with d have r: "(screen_step sample_table ?segs)\<^sup>*\<^sup>* (new_compositor (3, 1), new_glyph_table, sample_terminal 1 3)
    (sample_compositor\<lparr>tc_front := sample_frame\<rparr>, new_glyph_table, ?T)" by (meson converse_rtranclp_into_rtranclp rtranclp.rtrancl_refl)
  from session_in_sync [OF r sample_space s] show ?thesis
    using r by (auto simp: in_sync_def sample_compositor_fields)
qed

text \<open>C11. The first layout.  Its height is positive and less than that of the terminal; the caller passes the row the cursor of the terminal
  is in, the whole screen scrolls, and the rows below the cursor are blank.  Then the fixed rows are blank and the compositor is
  in step with the terminal; the line of the cursor and the lines above it, as far as they fit, end up above the fixed rows, and the
  cursor is still on its line.  The program clears nothing here and, given no cursor, scrolls nothing: that the fixed rows
  are blank comes from the blank rows below the cursor, which the scrolling keeps.\<close>

theorem first_layout:
  assumes "gt_ok t" "cluster_width U [0x20] = 1" "\<not> tc_initialized c" "ra_width (tc_front c) \<le> tm_cols T"
    "0 < hh" "hh < tm_rows T" "tm_margins T = (0, tm_rows T - 1)" "partition_for hh (tm_rows T) \<noteq> tc_partition c"
    "tm_row T < tm_rows T" "blank_rows (tm_row T + 1) (tm_rows T) T"
    "set_hud_height enabled hh (tm_rows T) (Some (tm_row T)) c = (out, c')"
  shows "in_sync U t c' (term_run segs out T) \<and> tc_initialized c'
    \<and> tm_row (term_run segs out T) = min (tm_row T) (tm_rows T - hh - 1)
    \<and> (\<forall>k \<le> tm_row (term_run segs out T).
        tm_screen (term_run segs out T) (tm_row (term_run segs out T) - k) = tm_screen T (tm_row T - k))"
  using first_hud_sync [OF assms] by blast

theorem first_layout_witness:
  "\<exists>out c'. set_hud_height enabled 1 3 (Some 2) (new_compositor (4, 3)) = (out, c')
    \<and> in_sync sample_table new_glyph_table c' (term_run (map (\<lambda>b. ([b], 1))) out ((sample_terminal 3 4)\<lparr>tm_row := 2\<rparr>))
    \<and> tm_row (term_run (map (\<lambda>b. ([b], 1))) out ((sample_terminal 3 4)\<lparr>tm_row := 2\<rparr>)) = 1"
proof -
  let ?T = "(sample_terminal 3 4)\<lparr>tm_row := 2\<rparr>" and ?c = "new_compositor (4, 3)"
  obtain out c' where r: "set_hud_height enabled 1 3 (Some 2) ?c = (out, c')" by (cases "set_hud_height enabled 1 3 (Some 2) ?c")
  have p: "partition_for 1 3 \<noteq> tc_partition ?c" by (simp add: new_compositor_def partition_for_def for_bottom_fixed_height_def Let_def)
  show ?thesis
    using first_layout [of new_glyph_table sample_table ?c ?T 1 out c' "map (\<lambda>b. ([b], 1))"] new_glyph_table_ok sample_space p r
    by (auto simp: sample_terminal_def blank_rows_def new_compositor_def)
qed

text \<open>C12. What was printed above the fixed rows survives a new height: when the layout grows, the lines above it move up by the
  difference and the cursor with them; when it shrinks they stay; when it is hidden they move down into the freed rows.\<close>

theorem layout_keeps_output:
  assumes "tc_initialized c" "0 < old" "old < tm_rows T" "hh < tm_rows T" "hh \<noteq> old" "tc_partition c = partition_for old (tm_rows T)"
    "tm_margins T = (0, tm_rows T - old - 1)" "set_hud_height enabled hh (tm_rows T) cur c = (out, c')"
  shows "(old < hh \<longrightarrow> (\<forall>r < tm_rows T - hh. tm_screen (term_run segs out T) r = tm_screen T (r + (hh - old)))
      \<and> tm_row (term_run segs out T) = tm_row T - (hh - old))
    \<and> (hh < old \<longrightarrow> 0 < hh \<longrightarrow> (\<forall>r < tm_rows T - old. tm_screen (term_run segs out T) r = tm_screen T r)
      \<and> tm_row (term_run segs out T) = tm_row T)
    \<and> (hh = 0 \<longrightarrow> (\<forall>r < tm_rows T - old. tm_screen (term_run segs out T) (r + old) = tm_screen T r)
      \<and> tm_row (term_run segs out T) = min (tm_rows T - 1) (tm_row T + old))"
proof -
  have "chrome_start (partition_for hh (tm_rows T)) \<noteq> chrome_start (partition_for old (tm_rows T))"
    using windowed_bottom(3) [of hh "tm_rows T"] windowed_bottom(3) [OF assms(2,3)] assms(2-5) partition_hidden [of 0 "tm_rows T"]
    by (cases "hh = 0") (auto simp: partition_for_def for_bottom_fixed_height_def hidden_def Let_def)
  then have "partition_for hh (tm_rows T) \<noteq> tc_partition c" using assms(6) by auto
  then have run: "term_run segs out T = after_release (rp_from (partition_for old (tm_rows T)) (partition_for hh (tm_rows T))) T"
    using hud_fields(1) [OF assms(8,1)] assms(6) by (simp add: repartition_run)
  show ?thesis unfolding run
    using grown [of old hh T] shrunk [of hh old T] hidden_again [of old T] assms(2-4,7) by blast
qed

theorem layout_keeps_output_witness:
  "\<exists>out c'. set_hud_height enabled 2 4 None ((new_compositor (2, 4))\<lparr>tc_partition := partition_for 1 4, tc_initialized := True\<rparr>) = (out, c')
    \<and> tm_screen (term_run (map (\<lambda>b. ([b], 1))) out ((sample_terminal 4 2)\<lparr>tm_margins := (0, 2), tm_row := 2,
          tm_screen := (\<lambda>r _. Part [of_nat r] 1 plain 0)\<rparr>)) 1 0 = Part [2] 1 plain 0
    \<and> tm_row (term_run (map (\<lambda>b. ([b], 1))) out ((sample_terminal 4 2)\<lparr>tm_margins := (0, 2), tm_row := 2,
          tm_screen := (\<lambda>r _. Part [of_nat r] 1 plain 0)\<rparr>)) = 1"
proof -
  let ?T = "(sample_terminal 4 2)\<lparr>tm_margins := (0, 2), tm_row := 2, tm_screen := (\<lambda>r _. Part [of_nat r] 1 plain 0)\<rparr>"
  let ?c = "(new_compositor (2, 4))\<lparr>tc_partition := partition_for 1 4, tc_initialized := True\<rparr>"
  obtain out c' where r: "set_hud_height enabled 2 4 None ?c = (out, c')" by (cases "set_hud_height enabled 2 4 None ?c")
  show ?thesis
    using layout_keeps_output [of ?c 1 ?T 2 None out c' "map (\<lambda>b. ([b], 1))"] r by (auto simp: sample_terminal_def)
qed

end
