(* ===== verification/Flex.thy ===== *)
theory Flex
  imports Nxt_Prelude "HOL-Library.Log_Nat"
begin

text \<open>
  Sharing out the space of a row or column (\<^verbatim>\<open>nxtui/layout.hpp\<close>, \<^verbatim>\<open>nxtui/units.hpp\<close>).  Flex factors are
  \<^verbatim>\<open>double\<close>; a double is the rational it denotes and every operation rounds its exact result to 53 binary digits, half to
  even.  Overflow and subnormal numbers are outside: factors and extents are far from both.
\<close>

section \<open>Model: double precision\<close>

text \<open>The exponent of the leading binary digit, and rounding to a multiple of the last of 53 digits.\<close>

definition exponent :: "rat \<Rightarrow> int" where
  "exponent x = (let (p, q) = quotient_of x; e = int (floorlog 2 (nat p)) - int (floorlog 2 (nat q))
     in if x < 2 powi e then e - 1 else e)"

definition half_even :: "rat \<Rightarrow> int" where
  "half_even y = (let f = \<lfloor>y\<rfloor>; d = y - of_int f in if d < 1 / 2 \<or> d = 1 / 2 \<and> even f then f else f + 1)"

definition fl :: "rat \<Rightarrow> rat" where
  "fl x = (if x = 0 then 0 else if x < 0 then - (let u = 2 powi (exponent (- x) - 52) in of_int (half_even (- x / u)) * u)
     else let u = 2 powi (exponent x - 52) in of_int (half_even (x / u)) * u)"

lemma half_even_error: "\<bar>of_int (half_even y) - y\<bar> \<le> 1 / 2"
  using floor_correct [of y] by (auto simp: half_even_def Let_def abs_le_iff)

lemma half_even_int: "half_even (of_int n) = n"
  by (simp add: half_even_def)

lemma half_evenI: "of_int n \<le> y \<Longrightarrow> y < of_int n + 1 / 2 \<Longrightarrow> half_even y = n"
proof -
  assume y: "of_int n \<le> y" "y < of_int n + 1 / 2"
  then have "\<lfloor>y\<rfloor> = n" by (simp add: floor_eq_iff)
  then show ?thesis using y by (simp add: half_even_def)
qed

lemma exponent_bounds:
  assumes "0 < x"
  shows "2 powi exponent x \<le> x" "x < 2 powi (exponent x + 1)"
proof -
  obtain p q where pq: "quotient_of x = (p, q)" by (cases "quotient_of x")
  have q: "0 < q" using quotient_of_denom_pos [OF pq] .
  have x: "x = of_int p / of_int q" using quotient_of_div [OF pq] .
  have p: "0 < p" using assms q by (simp add: x zero_less_divide_iff)
  let ?a = "floorlog 2 (nat p)" and ?b = "floorlog 2 (nat q)"
  have a: "2 ^ (?a - 1) \<le> nat p" "nat p < 2 ^ ?a" "0 < ?a" using floorlog_bounds [of "nat p" 2] p by (auto simp: floorlog_eq_zero_iff intro: gr0I)
  have b: "2 ^ (?b - 1) \<le> nat q" "nat q < 2 ^ ?b" "0 < ?b" using floorlog_bounds [of "nat q" 2] q by (auto simp: floorlog_eq_zero_iff intro: gr0I)
  have P: "2 powi (int ?a - 1) \<le> (of_int p :: rat)" "(of_int p :: rat) < 2 powi int ?a"
  proof -
    have "(2 :: rat) ^ (?a - 1) \<le> of_nat (nat p)" using a(1) by (metis of_nat_le_iff of_nat_numeral of_nat_power)
    moreover have "(2 :: rat) powi (int ?a - 1) = 2 ^ (?a - 1)" using a(3) by (simp add: power_int_def nat_diff_distrib')
    ultimately show "2 powi (int ?a - 1) \<le> (of_int p :: rat)" using p by simp
    have "of_nat (nat p) < (2 :: rat) ^ ?a" using a(2) by (metis of_nat_less_iff of_nat_numeral of_nat_power)
    then show "(of_int p :: rat) < 2 powi int ?a" using p by simp
  qed
  have Q: "2 powi (int ?b - 1) \<le> (of_int q :: rat)" "(of_int q :: rat) < 2 powi int ?b"
  proof -
    have "(2 :: rat) ^ (?b - 1) \<le> of_nat (nat q)" using b(1) by (metis of_nat_le_iff of_nat_numeral of_nat_power)
    moreover have "(2 :: rat) powi (int ?b - 1) = 2 ^ (?b - 1)" using b(3) by (simp add: power_int_def nat_diff_distrib')
    ultimately show "2 powi (int ?b - 1) \<le> (of_int q :: rat)" using q by simp
    have "of_nat (nat q) < (2 :: rat) ^ ?b" using b(2) by (metis of_nat_less_iff of_nat_numeral of_nat_power)
    then show "(of_int q :: rat) < 2 powi int ?b" using q by simp
  qed
  let ?e = "int ?a - int ?b"
  have q0: "(0 :: rat) < of_int q" using q by simp
  have low: "2 powi (?e - 1) \<le> x"
  proof -
    have "(2 :: rat) powi (?e - 1) * of_int q \<le> 2 powi (?e - 1) * 2 powi int ?b" using Q(2) by (intro mult_left_mono) auto
    also have "\<dots> = 2 powi (int ?a - 1)" using power_int_add [of "2 :: rat" "?e - 1" "int ?b"] by simp
    also have "\<dots> \<le> of_int p" by (rule P(1))
    finally show ?thesis using q0 by (simp add: x pos_le_divide_eq)
  qed
  have high: "x < 2 powi (?e + 1)"
  proof -
    have "of_int p < (2 :: rat) powi int ?a" by (rule P(2))
    also have "\<dots> = 2 powi (?e + 1) * 2 powi (int ?b - 1)" using power_int_add [of "2 :: rat" "?e + 1" "int ?b - 1"] by simp
    also have "\<dots> \<le> 2 powi (?e + 1) * of_int q" using Q(1) by (intro mult_left_mono) auto
    finally show ?thesis using q0 by (simp add: x pos_divide_less_eq)
  qed
  show "2 powi exponent x \<le> x" "x < 2 powi (exponent x + 1)"
    using low high by (auto simp: exponent_def pq Let_def)
qed

lemma fl_error:
  assumes "0 \<le> x"
  shows "\<bar>fl x - x\<bar> \<le> x / 2 ^ 53"
proof (cases "x = 0")
  case False
  then have x: "0 < x" using assms by simp
  let ?u = "2 powi (exponent x - 52) :: rat"
  have u: "0 < ?u" by simp
  have "\<bar>fl x - x\<bar> = \<bar>(of_int (half_even (x / ?u)) - x / ?u) * ?u\<bar>" using x u by (simp add: fl_def Let_def left_diff_distrib)
  also have "\<dots> = \<bar>of_int (half_even (x / ?u)) - x / ?u\<bar> * ?u" using u by (simp add: abs_mult)
  also have "\<dots> \<le> 1 / 2 * ?u" using half_even_error u by (intro mult_right_mono) auto
  also have "1 / 2 * ?u = 2 powi exponent x / 2 ^ 53" by (simp add: power_int_diff)
  also have "\<dots> \<le> x / 2 ^ 53" using exponent_bounds(1) [OF x] by (simp add: divide_right_mono)
  finally show ?thesis .
qed (simp add: fl_def)

lemma fl_exact:
  assumes "n < 2 ^ 53"
  shows "fl (of_nat n) = of_nat n"
proof (cases "n = 0")
  case False
  let ?x = "of_nat n :: rat"
  have x: "0 < ?x" using False by simp
  have "2 powi exponent ?x \<le> ?x" by (rule exponent_bounds [OF x])
  also have "?x < 2 powi 53" using assms by (metis of_nat_less_iff of_nat_numeral of_nat_power power_int_numeral)
  finally have "(2 :: rat) powi exponent ?x < 2 powi 53" .
  then have e: "exponent ?x < 53" using power_int_increasing [of 53 "exponent ?x" "2 :: rat"] by (meson not_less one_le_numeral)
  define k where "k = nat (52 - exponent ?x)"
  have k: "exponent ?x - 52 = - int k" using e by (simp add: k_def)
  have u: "(2 :: rat) powi (exponent ?x - 52) = 1 / 2 ^ k" unfolding k by (simp add: power_int_minus field_simps)
  have "?x / (1 / 2 ^ k) = of_int (int n * 2 ^ k)" by simp
  then have "half_even (?x / (1 / 2 ^ k)) = int n * 2 ^ k" using half_even_int by metis
  then show ?thesis using x by (simp add: fl_def Let_def u)
qed (simp add: fl_def)

lemma fl_nonneg: "0 \<le> x \<Longrightarrow> 0 \<le> fl x"
proof -
  assume x: "0 \<le> x"
  have "x / 2 ^ 53 \<le> x" using x by (simp add: field_simps)
  then show ?thesis using fl_error [OF x] by linarith
qed

section \<open>Model: hints and extents\<close>

record SizeHint =
  h_min :: nat
  h_flex :: rat

definition fixed_hint :: "nat \<Rightarrow> SizeHint" where "fixed_hint n = \<lparr>h_min = n, h_flex = 0\<rparr>"
definition grow_hint :: "rat \<Rightarrow> SizeHint" where "grow_hint factor = \<lparr>h_min = 0, h_flex = factor\<rparr>"
definition no_hint :: SizeHint where "no_hint = \<lparr>h_min = 0, h_flex = 0\<rparr>"

definition ratio_add :: "rat \<Rightarrow> rat \<Rightarrow> rat" where "ratio_add a b = fl (a + b)"

definition scale_extent :: "nat \<Rightarrow> rat \<Rightarrow> nat" where "scale_extent a b = nat \<lfloor>fl (fl (of_nat a) * b)\<rfloor>"

definition allocate_main_extent :: "SizeHint \<Rightarrow> SizeHint \<Rightarrow> nat \<Rightarrow> nat" where
  "allocate_main_extent hint tot available =
     (let leftover = if available > h_min tot then available - h_min tot else 0; extent = h_min hint
      in if h_flex hint > 0 \<and> h_flex tot > 0 \<and> leftover > 0
         then sz_add extent (scale_extent leftover (fl (h_flex hint / h_flex tot))) else extent)"

definition add_hint :: "SizeHint \<Rightarrow> SizeHint \<Rightarrow> SizeHint" where
  "add_hint tot hint = \<lparr>h_min = sz_add (h_min tot) (h_min hint), h_flex = ratio_add (h_flex tot) (h_flex hint)\<rparr>"

definition total_hint :: "SizeHint list \<Rightarrow> SizeHint" where
  "total_hint hints = foldl add_hint no_hint hints"

definition largest_min :: "SizeHint list \<Rightarrow> nat" where
  "largest_min hints = foldl (\<lambda>largest hint. max largest (h_min hint)) 0 hints"

section \<open>Shares\<close>

lemma fl_upper: "0 \<le> x \<Longrightarrow> fl x \<le> x * (1 + 1 / 2 ^ 53)"
  using fl_error [of x] unfolding distrib_left times_divide_eq_right mult_1_right abs_le_iff by linarith

lemma fl_lower: "0 \<le> x \<Longrightarrow> x * (1 - 1 / 2 ^ 53) \<le> fl x"
  using fl_error [of x] unfolding right_diff_distrib times_divide_eq_right mult_1_right abs_le_iff by linarith

text \<open>Evaluating a rounding: any exponent that brackets the number is its exponent.\<close>

lemma fl_at:
  assumes "2 powi e \<le> x" "x < 2 powi (e + 1)"
  shows "fl x = of_int (half_even (x / 2 powi (e - 52))) * 2 powi (e - 52)"
proof -
  have "(0 :: rat) < 2 powi e" by simp
  then have x: "0 < x" using assms(1) by linarith
  note b = exponent_bounds [OF x]
  have "\<not> exponent x < e" using power_int_increasing [of "exponent x + 1" e "2 :: rat"] b(2) assms(1) by auto
  moreover have "\<not> e < exponent x" using power_int_increasing [of "e + 1" "exponent x" "2 :: rat"] b(1) assms(2) by auto
  ultimately have "exponent x = e" by simp
  then show ?thesis using x by (simp add: fl_def Let_def)
qed

lemma share_bounds:
  assumes L: "L < 2 ^ 53" and f: "0 \<le> f" "0 < F"
  defines "s \<equiv> scale_extent L (fl (f / F))"
  shows "of_nat s \<le> of_nat L * (f / F) * (1 + 1 / 2 ^ 53) ^ 2" "of_nat L * (f / F) * (1 - 1 / 2 ^ 53) ^ 2 < of_nat s + 1"
proof -
  have q: "0 \<le> f / F" using f by simp
  let ?y = "fl (of_nat L * fl (f / F))"
  have y: "0 \<le> of_nat L * fl (f / F)" "0 \<le> ?y" using fl_nonneg [OF q] fl_nonneg [of "of_nat L * fl (f / F)"] by auto
  have s: "of_nat s = (of_int \<lfloor>?y\<rfloor> :: rat)" using y(2) by (simp add: s_def scale_extent_def fl_exact [OF L])
  have "?y \<le> of_nat L * fl (f / F) * (1 + 1 / 2 ^ 53)" by (rule fl_upper [OF y(1)])
  also have "\<dots> \<le> of_nat L * (f / F * (1 + 1 / 2 ^ 53)) * (1 + 1 / 2 ^ 53)"
    using fl_upper [OF q] by (intro mult_right_mono mult_left_mono) auto
  finally have "?y \<le> of_nat L * (f / F) * (1 + 1 / 2 ^ 53) ^ 2" by (simp add: power2_eq_square mult.assoc)
  then show "of_nat s \<le> of_nat L * (f / F) * (1 + 1 / 2 ^ 53) ^ 2" using s of_int_floor_le [of ?y] by linarith
  have "of_nat L * (f / F) * (1 - 1 / 2 ^ 53) ^ 2 = of_nat L * (f / F * (1 - 1 / 2 ^ 53)) * (1 - 1 / 2 ^ 53)"
    by (simp add: power2_eq_square mult.assoc)
  also have "\<dots> \<le> of_nat L * fl (f / F) * (1 - 1 / 2 ^ 53)" using fl_lower [OF q] by (intro mult_right_mono mult_left_mono) auto
  also have "\<dots> \<le> ?y" by (rule fl_lower [OF y(1)])
  finally show "of_nat L * (f / F) * (1 - 1 / 2 ^ 53) ^ 2 < of_nat s + 1" using s floor_correct [of ?y] by linarith
qed

text \<open>The total of a list of hints: the minimums add up modulo \<open>2\<^sup>6\<^sup>4\<close>, the flex factors with a relative error of one
  rounding for each child.\<close>

lemma total_hint_snoc: "total_hint (hs @ [h]) = add_hint (total_hint hs) h"
  by (simp add: total_hint_def)

lemma total_min: "sum_list (map h_min hs) < 2 ^ 64 \<Longrightarrow> h_min (total_hint hs) = sum_list (map h_min hs)"
proof (induction hs rule: rev_induct)
  case (snoc h hs)
  then show ?case by (simp add: total_hint_snoc add_hint_def sz_add_exact)
qed (simp add: total_hint_def no_hint_def)

lemma total_flex_bounds:
  assumes "\<forall>h \<in> set hs. 0 \<le> h_flex h"
  defines "F \<equiv> \<lambda>hs. sum_list (map h_flex hs)" and "e \<equiv> 1 / 2 ^ 53 :: rat"
  shows "F hs * (1 - e) ^ length hs \<le> h_flex (total_hint hs)" "h_flex (total_hint hs) \<le> F hs * (1 + e) ^ length hs"
proof -
  have e: "0 < e" "e < 1" by (simp_all add: e_def)
  have "0 \<le> F hs \<and> F hs * (1 - e) ^ length hs \<le> h_flex (total_hint hs) \<and> h_flex (total_hint hs) \<le> F hs * (1 + e) ^ length hs
      \<and> 0 \<le> h_flex (total_hint hs)"
    using assms(1)
  proof (induction hs rule: rev_induct)
    case (snoc h hs)
    let ?T = "h_flex (total_hint hs)" and ?f = "h_flex h" and ?n = "length hs"
    have IH: "0 \<le> F hs" "F hs * (1 - e) ^ ?n \<le> ?T" "?T \<le> F hs * (1 + e) ^ ?n" "0 \<le> ?T" and f: "0 \<le> ?f" using snoc by simp_all
    have T: "h_flex (total_hint (hs @ [h])) = fl (?T + ?f)" by (simp add: total_hint_snoc add_hint_def ratio_add_def)
    have F: "F (hs @ [h]) = F hs + ?f" by (simp add: F_def)
    have "?f \<le> ?f * (1 + e) ^ ?n" using mult_left_mono [OF one_le_power [of "1 + e" ?n] f] e by simp
    with IH(3) have "?T + ?f \<le> (F hs + ?f) * (1 + e) ^ ?n" by (simp add: distrib_right)
    then have "(?T + ?f) * (1 + e) \<le> (F hs + ?f) * (1 + e) ^ ?n * (1 + e)" using e by (intro mult_right_mono) auto
    then have up: "fl (?T + ?f) \<le> (F hs + ?f) * (1 + e) ^ Suc ?n"
      using fl_upper [of "?T + ?f"] IH(4) f by (simp add: e_def mult.assoc mult.commute)
    have "?f * (1 - e) ^ ?n \<le> ?f" using mult_left_mono [OF power_le_one [of "1 - e" ?n] f] e by simp
    with IH(2) have "(F hs + ?f) * (1 - e) ^ ?n \<le> ?T + ?f" by (simp add: distrib_right)
    then have "(F hs + ?f) * (1 - e) ^ ?n * (1 - e) \<le> (?T + ?f) * (1 - e)" using e by (intro mult_right_mono) auto
    then have lo: "(F hs + ?f) * (1 - e) ^ Suc ?n \<le> fl (?T + ?f)"
      using fl_lower [of "?T + ?f"] IH(4) f by (simp add: e_def mult.assoc mult.commute)
    show ?case unfolding T F using up lo IH(1,4) f fl_nonneg [of "?T + ?f"] by simp
  qed (simp add: F_def total_hint_def no_hint_def)
  then show "F hs * (1 - e) ^ length hs \<le> h_flex (total_hint hs)" "h_flex (total_hint hs) \<le> F hs * (1 + e) ^ length hs" by auto
qed

text \<open>So the exact and the rounded total differ by little: \<open>2 / 2\<^sup>5\<^sup>3\<close> for each child.\<close>

lemma total_flex_ratio:
  assumes "\<forall>h \<in> set hs. 0 \<le> h_flex h" "0 < sum_list (map h_flex hs)" "length hs < 2 ^ 52"
  defines "q \<equiv> sum_list (map h_flex hs) / h_flex (total_hint hs)" and "d \<equiv> of_nat (length hs) / 2 ^ 52 :: rat"
  shows "0 < h_flex (total_hint hs)" "q \<le> 1 + d" "1 - d \<le> q"
proof -
  let ?F = "sum_list (map h_flex hs)" and ?T = "h_flex (total_hint hs)" and ?n = "length hs"
  let ?e = "1 / 2 ^ 53 :: rat"
  note b = total_flex_bounds [OF assms(1)]
  have "(of_nat ?n :: rat) < of_nat (2 ^ 52)" using assms(3) by (simp only: of_nat_less_iff)
  then have n: "of_nat ?n * ?e < 1 / 2" by simp
  have lo: "1 - of_nat ?n * ?e \<le> (1 - ?e) ^ ?n" using Bernoulli_inequality [of "- ?e" ?n] by simp
  have "?F * (1 - of_nat ?n * ?e) \<le> ?T" using mult_left_mono [OF lo, of ?F] assms(2) b(1) by linarith
  moreover have "0 < ?F * (1 - of_nat ?n * ?e)" using assms(2) n by simp
  ultimately show T: "0 < ?T" by linarith
  let ?x = "of_nat ?n * ?e"
  have "1 \<le> (1 + 2 * ?x) * (1 - ?x)"
  proof -
    have "?x * ?x \<le> ?x * (1 / 2)" using n by (intro mult_left_mono) auto
    then show ?thesis by (simp add: algebra_simps)
  qed
  from mult_left_mono [OF this, of ?F] have "?F \<le> (1 + 2 * ?x) * (?F * (1 - ?x))" using assms(2) by (simp add: mult_ac)
  also have "\<dots> \<le> (1 + 2 * ?x) * ?T" using \<open>?F * (1 - ?x) \<le> ?T\<close> by (intro mult_left_mono) auto
  finally have "?F \<le> (1 + d) * ?T" by (simp add: d_def)
  then show "q \<le> 1 + d" using T by (simp add: q_def divide_le_eq)
  have "(1 - ?e) ^ ?n * (1 + ?e) ^ ?n \<le> 1" unfolding power_mult_distrib [symmetric] by (rule power_le_one) (simp_all add: field_simps)
  from mult_left_mono [OF this, of ?F] have "?F * (1 + ?e) ^ ?n * (1 - ?e) ^ ?n \<le> ?F" using assms(2) by (simp add: mult_ac)
  moreover have "?T * (1 - ?e) ^ ?n \<le> ?F * (1 + ?e) ^ ?n * (1 - ?e) ^ ?n" using b(2) by (intro mult_right_mono) simp_all
  moreover have "?T * (1 - ?x) \<le> ?T * (1 - ?e) ^ ?n" using lo T by (intro mult_left_mono) auto
  moreover have "?T * (1 - d) \<le> ?T * (1 - ?x)" using T by (intro mult_left_mono) (auto simp: d_def)
  ultimately have "?T * (1 - d) \<le> ?F" by linarith
  then show "1 - d \<le> q" using T by (simp add: q_def le_divide_eq mult.commute)
qed

lemma factors_below: "a * (n + 3) < b \<Longrightarrow> a < b" "a * (n + 3) < b \<Longrightarrow> 0 < a \<Longrightarrow> n + 3 < b" for a n b :: nat
proof -
  assume x: "a * (n + 3) < b"
  have "a * 1 \<le> a * (n + 3)" by (intro mult_le_mono2) simp
  from le_less_trans [OF this x] show "a < b" by simp
  assume "0 < a"
  then have "1 * (n + 3) \<le> a * (n + 3)" by (intro mult_le_mono1) simp
  from le_less_trans [OF this x] show "n + 3 < b" by simp
qed

lemma sum_list_pos: "\<forall>h \<in> set hs. 0 \<le> f h \<Longrightarrow> \<exists>h \<in> set hs. 0 < f h \<Longrightarrow> 0 < sum_list (map f hs)" for f :: "'a \<Rightarrow> rat"
proof (induction hs)
  case (Cons h hs)
  have "0 \<le> sum_list (map f hs)" using Cons.prems(1) by (intro sum_list_nonneg) auto
  then show ?case using Cons by (auto intro: add_pos_nonneg add_nonneg_pos)
qed simp

lemma sum_floor_shares:
  assumes f: "\<forall>h \<in> set hs. 0 \<le> h_flex h" "0 < sum_list (map h_flex hs)" and L: "0 < L" "L * (length hs + 3) < 2 ^ 52"
  defines "s \<equiv> \<lambda>h. scale_extent L (fl (h_flex h / h_flex (total_hint hs)))"
  shows "sum_list (map s hs) \<le> L" "L \<le> sum_list (map s hs) + length (filter (\<lambda>h. 0 < h_flex h) hs)"
proof -
  let ?n = "length hs" and ?T = "h_flex (total_hint hs)" and ?e = "1 / 2 ^ 53 :: rat"
  define q where "q = sum_list (map h_flex hs) / ?T"
  define d :: rat where "d = of_nat ?n / 2 ^ 52"
  note b = factors_below [OF L(2)]
  have n: "?n < 2 ^ 52" using b(2) [OF L(1)] by simp
  have L': "L < 2 ^ 53" using b(1) by simp
  note q = total_flex_ratio [OF f n, folded q_def d_def]
  have "(of_nat ?n :: rat) < of_nat (2 ^ 52)" using n by (simp only: of_nat_less_iff)
  then have d1: "0 \<le> d" "d \<le> 1" by (simp_all add: d_def)
  have Ln: "of_nat L * (d + 3 / 2 ^ 52) < 1"
  proof -
    have "(of_nat (L * (?n + 3)) :: rat) < of_nat (2 ^ 52)" using L(2) by (simp only: of_nat_less_iff)
    then show ?thesis by (simp add: d_def field_simps)
  qed
  note B = share_bounds [OF L' _ q(1)]
  have "(of_nat (sum_list (map s gs)) :: rat) \<le> of_nat L * (sum_list (map h_flex gs) / ?T) * (1 + ?e) ^ 2
      \<and> of_nat L * (sum_list (map h_flex gs) / ?T) * (1 - ?e) ^ 2 \<le> of_nat (sum_list (map s gs)) + of_nat (length (filter (\<lambda>h. 0 < h_flex h) gs))"
    if "set gs \<subseteq> set hs" for gs
    using that
  proof (induction gs)
    case (Cons h gs)
    have h: "0 \<le> h_flex h" using f(1) Cons.prems by auto
    have z: "s h = 0" if "h_flex h = 0" using that by (simp add: s_def scale_extent_def fl_def)
    have "of_nat (s h) \<le> of_nat L * (h_flex h / ?T) * (1 + ?e) ^ 2" using B(1) [OF h] by (simp add: s_def)
    moreover have "of_nat L * (h_flex h / ?T) * (1 - ?e) ^ 2 \<le> (of_nat (s h) :: rat) + (if 0 < h_flex h then 1 else 0)"
      using B(2) [OF h] z h by (auto simp: s_def intro: less_imp_le)
    ultimately show ?case using Cons by (auto simp: distrib_left distrib_right add_divide_distrib split: if_splits)
  qed simp
  from this [of hs] have up: "(of_nat (sum_list (map s hs)) :: rat) \<le> of_nat L * q * (1 + ?e) ^ 2"
    and lo: "of_nat L * q * (1 - ?e) ^ 2 \<le> of_nat (sum_list (map s hs)) + of_nat (length (filter (\<lambda>h. 0 < h_flex h) hs))"
    by (simp_all add: q_def)
  have "q * (1 + ?e) ^ 2 \<le> (1 + d) * (1 + 3 * ?e)" using q(2) d1 by (intro mult_mono) (simp_all add: power2_eq_square)
  also have "\<dots> \<le> 1 + (d + 3 / 2 ^ 52)" using d1 by (simp add: algebra_simps)
  finally have "of_nat L * (q * (1 + ?e) ^ 2) \<le> of_nat L * (1 + (d + 3 / 2 ^ 52))" by (intro mult_left_mono) simp_all
  then have "of_nat L * q * (1 + ?e) ^ 2 < of_nat L + 1" using Ln unfolding distrib_left by (simp add: mult.assoc)
  then have "(of_nat (sum_list (map s hs)) :: rat) < of_nat (L + 1)" using up by simp
  then have "sum_list (map s hs) < L + 1" by (simp only: of_nat_less_iff)
  then show "sum_list (map s hs) \<le> L" by simp
  have "1 - (d + 3 / 2 ^ 52) \<le> (1 - d) * (1 - 2 * ?e)" using d1 by (simp add: algebra_simps)
  also have "\<dots> \<le> q * (1 - ?e) ^ 2" using q(3) d1 by (intro mult_mono) (simp_all add: power2_eq_square)
  finally have "of_nat L * (1 - (d + 3 / 2 ^ 52)) \<le> of_nat L * (q * (1 - ?e) ^ 2)" by (intro mult_left_mono) simp_all
  then have "of_nat L - 1 < of_nat L * q * (1 - ?e) ^ 2" using Ln unfolding right_diff_distrib by (simp add: mult.assoc)
  then have "(of_nat L :: rat) < of_nat (sum_list (map s hs) + length (filter (\<lambda>h. 0 < h_flex h) hs) + 1)" using lo by simp
  then show "L \<le> sum_list (map s hs) + length (filter (\<lambda>h. 0 < h_flex h) hs)" by (simp only: of_nat_less_iff)
qed

text \<open>The extents add up to the minimums and the shares of the rest.\<close>

lemma extents_sum:
  assumes f: "\<forall>h \<in> set hs. 0 \<le> h_flex h" and m: "sum_list (map h_min hs) \<le> available" and a: "available * (length hs + 3) < 2 ^ 52"
  defines "n \<equiv> \<lambda>h. allocate_main_extent h (total_hint hs) available"
  shows "sum_list (map n hs) \<le> available"
    "\<exists>h \<in> set hs. 0 < h_flex h \<Longrightarrow> available \<le> sum_list (map n hs) + length (filter (\<lambda>h. 0 < h_flex h) hs)"
    "\<forall>h \<in> set hs. h_flex h = 0 \<Longrightarrow> map n hs = map h_min hs"
proof -
  let ?L = "available - sum_list (map h_min hs)" and ?s = "\<lambda>h. scale_extent (available - sum_list (map h_min hs)) (fl (h_flex h / h_flex (total_hint hs)))"
  have b: "available < 2 ^ 52" using factors_below(1) [OF a] by simp
  then have t: "h_min (total_hint hs) = sum_list (map h_min hs)" using m by (intro total_min) simp
  show all: "\<forall>h \<in> set hs. h_flex h = 0 \<Longrightarrow> map n hs = map h_min hs" by (auto simp: n_def allocate_main_extent_def)
  have "sum_list (map n hs) \<le> available \<and> ((\<exists>h \<in> set hs. 0 < h_flex h) \<longrightarrow> available \<le> sum_list (map n hs) + length (filter (\<lambda>h. 0 < h_flex h) hs))"
  proof (cases "(\<exists>h \<in> set hs. 0 < h_flex h) \<and> 0 < ?L")
    case True
    then have F: "0 < sum_list (map h_flex hs)" using sum_list_pos [OF f] by blast
    have "?L * (length hs + 3) \<le> available * (length hs + 3)" by (intro mult_le_mono1) simp
    then have L: "?L * (length hs + 3) < 2 ^ 52" using a by (rule le_less_trans)
    note S = sum_floor_shares [OF f F conjunct2 [OF True] L]
    have T: "0 < h_flex (total_hint hs)"
      by (rule total_flex_ratio(1) [OF f F]) (use factors_below(2) [OF L conjunct2 [OF True]] in simp)
    have "n h = h_min h + ?s h" if "h \<in> set hs" for h
    proof -
      have "h_min h \<le> sum_list (map h_min hs)" "?s h \<le> sum_list (map ?s hs)" using that by (simp_all add: member_le_sum_list)
      then have "h_min h + ?s h \<le> available" using S(1) m by linarith
      then have "h_min h + ?s h < 2 ^ 64" using b by simp
      then have s: "sz_add (h_min h) (?s h) = h_min h + ?s h" by (rule sz_add_exact)
      have z: "scale_extent ?L (fl 0) = 0" by (simp add: scale_extent_def fl_def)
      have "sum_list (map h_min hs) < available" using True by simp
      then show ?thesis using s z T f that unfolding n_def allocate_main_extent_def Let_def t by (cases "0 < h_flex h") auto
    qed
    then have "map n hs = map (\<lambda>h. h_min h + ?s h) hs" by (rule map_cong [OF refl])
    then have "sum_list (map n hs) = sum_list (map h_min hs) + sum_list (map ?s hs)" by (simp only: sum_list_addf)
    moreover have "?L + sum_list (map h_min hs) = available" using m by simp
    ultimately show ?thesis using S by (intro conjI impI) linarith+
  next
    case False
    then have "map n hs = map h_min hs" using f by (auto simp: n_def allocate_main_extent_def Let_def t)
    from arg_cong [OF this, of sum_list] show ?thesis using m False by auto
  qed
  then show "sum_list (map n hs) \<le> available"
    "\<exists>h \<in> set hs. 0 < h_flex h \<Longrightarrow> available \<le> sum_list (map n hs) + length (filter (\<lambda>h. 0 < h_flex h) hs)" by auto
qed

text \<open>C24. The space of a row or column whose children have flex factors that are not negative, whole or fractional.  When the minimums
  fit, the extents of the children never exceed the available space, and with a growing child they fill it up to at most one cell
  for each growing child; without one every child gets its minimum.  The sizes are those for which the rounding of
  \<^verbatim>\<open>double\<close> arithmetic stays below a cell: the available space times the number of children (and three) is below
  \<open>2\<^sup>5\<^sup>2\<close>.\<close>

theorem extents_fill:
  assumes "\<forall>h \<in> set hs. 0 \<le> h_flex h" "sum_list (map h_min hs) \<le> available" "available * (length hs + 3) < 2 ^ 52"
  shows "sum_list (map (\<lambda>h. allocate_main_extent h (total_hint hs) available) hs) \<le> available
    \<and> (if \<exists>h \<in> set hs. 0 < h_flex h
       then available \<le> sum_list (map (\<lambda>h. allocate_main_extent h (total_hint hs) available) hs) + length (filter (\<lambda>h. 0 < h_flex h) hs)
       else map (\<lambda>h. allocate_main_extent h (total_hint hs) available) hs = map h_min hs)"
  using extents_sum [OF assms] assms(1) by (auto simp: not_less intro: antisym)

theorem extents_fill_witness:
  "sum_list (map (\<lambda>h. allocate_main_extent h (total_hint [fixed_hint 5, grow_hint (1 / 2), grow_hint 2]) 80) [fixed_hint 5, grow_hint (1 / 2), grow_hint 2]) \<le> 80
    \<and> 80 \<le> sum_list (map (\<lambda>h. allocate_main_extent h (total_hint [fixed_hint 5, grow_hint (1 / 2), grow_hint 2]) 80) [fixed_hint 5, grow_hint (1 / 2), grow_hint 2]) + 2"
proof -
  let ?hs = "[fixed_hint 5, grow_hint (1 / 2), grow_hint 2]"
  have w: "\<forall>h \<in> set ?hs. 0 \<le> h_flex h" "sum_list (map h_min ?hs) \<le> 80" "(80 :: nat) * (length ?hs + 3) < 2 ^ 52"
    by (simp_all add: fixed_hint_def grow_hint_def)
  have l: "length (filter (\<lambda>h. 0 < h_flex h) ?hs) = 2" and ex: "\<exists>h \<in> set ?hs. 0 < h_flex h"
    by (simp_all add: fixed_hint_def grow_hint_def)
  from extents_fill [OF w] show ?thesis unfolding if_P [OF ex] l .
qed


text \<open>The share is not always the exact one rounded down: seven tenths of 90 cells are 63.\<close>

lemma share_rounds_below: "allocate_main_extent (grow_hint 7) (total_hint [grow_hint 7, grow_hint 3]) 90 = 62"
proof -
  have t: "total_hint [grow_hint 7, grow_hint 3] = \<lparr>h_min = 0, h_flex = 10\<rparr>"
    using fl_exact [of 7] fl_exact [of 10]
    by (simp add: total_hint_def add_hint_def no_hint_def grow_hint_def ratio_add_def sz_add_def)
  have a: "half_even (7 / 10 / 2 powi (- 1 - 52)) = 6305039478318694" by (rule half_evenI) (simp_all add: power_int_minus)
  have s: "fl (7 / 10) = 6305039478318694 / 2 ^ 53" using fl_at [of "- 1" "7 / 10", unfolded a] by (simp add: power_int_minus)
  have n: "fl (of_nat 90) = 90" using fl_exact [of 90] by simp
  have b: "half_even (90 * (6305039478318694 / 2 ^ 53) / 2 powi (5 - 52)) = 8866461766385663" by (rule half_evenI) (simp_all add: power_int_minus)
  have p: "fl (90 * (6305039478318694 / 2 ^ 53)) = 8866461766385663 / 2 ^ 47"
    using fl_at [of 5 "90 * (6305039478318694 / 2 ^ 53)", unfolded b] by (simp add: power_int_minus)
  have "\<lfloor>8866461766385663 / 2 ^ 47 :: rat\<rfloor> = 62" by (simp add: floor_eq_iff)
  then have "scale_extent 90 (fl (7 / 10)) = 62" unfolding scale_extent_def n s p by simp
  then show ?thesis unfolding t by (simp add: allocate_main_extent_def grow_hint_def sz_add_def)
qed

end
