(* ===== verification/Layout.thy ===== *)
theory Layout
  imports Flex Raster Text_Field
begin

text \<open>
  Layouts (\<^verbatim>\<open>nxtui/tui.hpp\<close>, the leaf of \<^verbatim>\<open>nxtui/text_field.hpp\<close>): how a layout is measured and
  how it draws into a raster view.  The model's \<open>layout\<close> has one constructor for each layout type of the source; an item list with
  its view function (\<^verbatim>\<open>Each\<close>, \<^verbatim>\<open>List\<close>) is the list of the layouts the function gives.  Drawing changes a
  raster and the glyph table it interns into, and fails where interning a glyph fails.  The lemmas show that every leaf draws
  inside its view (the locale \<open>drawing\<close>, interpreted on each of them), that containers keep their children apart, and that a text
  shows all of itself at its own width.
\<close>

section \<open>Model: layouts\<close>

type_synonym canvas = "Raster \<times> GlyphTable"
type_synonym drawing_fn = "RasterView \<Rightarrow> nat \<times> nat \<Rightarrow> canvas \<Rightarrow> glyph_error + canvas"

datatype Axis = Axis_row | Axis_column

datatype layout =
    Leaf SizeHint SizeHint drawing_fn
  | Empty
  | Surface Style layout
  | FixedHeight nat layout
  | FixedWidth nat layout
  | GrowWidth layout rat
  | Stack Axis "layout list"
  | Each "layout list"
  | ListView "layout list"

definition leaf :: "SizeHint \<Rightarrow> SizeHint \<Rightarrow> drawing_fn \<Rightarrow> layout" where "leaf w h f = Leaf w h f"
definition empty_layout :: layout where "empty_layout = Empty"
definition surface :: "Style \<Rightarrow> layout \<Rightarrow> layout" where "surface style child = Surface style child"
definition fixed_height :: "nat \<Rightarrow> layout \<Rightarrow> layout" where "fixed_height height child = FixedHeight height child"
definition fixed_width :: "nat \<Rightarrow> layout \<Rightarrow> layout" where "fixed_width width child = FixedWidth width child"
definition grow_width :: "layout \<Rightarrow> rat \<Rightarrow> layout" where "grow_width child factor = GrowWidth child factor"
definition row_layout :: "layout list \<Rightarrow> layout" where "row_layout children = Stack Axis_row children"
definition column_layout :: "layout list \<Rightarrow> layout" where "column_layout children = Stack Axis_column children"
definition each :: "'a list \<Rightarrow> ('a \<Rightarrow> layout) \<Rightarrow> layout" where "each items view = Each (map view items)"
definition list_layout :: "'a list \<Rightarrow> ('a \<Rightarrow> layout) \<Rightarrow> layout" where "list_layout items view = ListView (map view items)"

definition either :: "bool \<Rightarrow> layout \<Rightarrow> layout \<Rightarrow> layout" where
  "either choose_true false_layout true_layout = (if choose_true then true_layout else false_layout)"

definition when_layout :: "bool \<Rightarrow> layout \<Rightarrow> layout" where
  "when_layout condition child = either condition empty_layout child"

text \<open>\<^verbatim>\<open>axis_traits::cross_hint\<close>.\<close>

definition row_cross :: "nat \<Rightarrow> SizeHint" where
  "row_cross tallest = fixed_hint (if tallest > 0 then tallest else 1)"

definition column_cross :: "nat \<Rightarrow> SizeHint" where
  "column_cross widest = \<lparr>h_min = widest, h_flex = 1\<rparr>"

fun width_hint :: "layout \<Rightarrow> SizeHint" where
  "width_hint (Leaf w h draw) = w"
| "width_hint Empty = no_hint"
| "width_hint (Surface style child) = width_hint child"
| "width_hint (FixedHeight n child) = width_hint child"
| "width_hint (FixedWidth n child) = fixed_hint n"
| "width_hint (GrowWidth child factor) = (let hint = width_hint child in hint\<lparr>h_flex := max (h_flex hint) factor\<rparr>)"
| "width_hint (Stack Axis_row children) = total_hint (map width_hint children)"
| "width_hint (Stack Axis_column children) = column_cross (largest_min (map width_hint children))"
| "width_hint (Each children) = column_cross (largest_min (map width_hint children))"
| "width_hint (ListView children) = grow_hint 1"

fun height_hint :: "layout \<Rightarrow> SizeHint" where
  "height_hint (Leaf w h draw) = h"
| "height_hint Empty = no_hint"
| "height_hint (Surface style child) = height_hint child"
| "height_hint (FixedHeight n child) = fixed_hint n"
| "height_hint (FixedWidth n child) = height_hint child"
| "height_hint (GrowWidth child factor) = height_hint child"
| "height_hint (Stack Axis_row children) = row_cross (largest_min (map height_hint children))"
| "height_hint (Stack Axis_column children) = total_hint (map height_hint children)"
| "height_hint (Each children) = fixed_hint (foldl sz_add 0 (map (\<lambda>child. h_min (height_hint child)) children))"
| "height_hint (ListView children) = fixed_hint (length children)"

fun main_hint :: "Axis \<Rightarrow> layout \<Rightarrow> SizeHint" where
  "main_hint Axis_row l = width_hint l"
| "main_hint Axis_column l = height_hint l"

fun axis_extent :: "Axis \<Rightarrow> nat \<times> nat \<Rightarrow> nat" where
  "axis_extent Axis_row extent = fst extent"
| "axis_extent Axis_column extent = snd extent"

fun child_size :: "Axis \<Rightarrow> nat \<times> nat \<Rightarrow> nat \<Rightarrow> nat \<times> nat" where
  "child_size Axis_row extent n = (n, snd extent)"
| "child_size Axis_column extent n = (fst extent, n)"

fun advance :: "Axis \<Rightarrow> nat \<times> nat \<Rightarrow> nat \<Rightarrow> nat \<times> nat" where
  "advance Axis_row pos n = (sz_add (fst pos) n, snd pos)"
| "advance Axis_column pos n = (fst pos, sz_add (snd pos) n)"

text \<open>\<^verbatim>\<open>std::ranges::fill\<close> over the flat range of a view.\<close>

definition flat_indices :: "RasterView \<Rightarrow> nat list" where
  "flat_indices v = map (\<lambda>i. v_index v (i div v_cols v) (i mod v_cols v)) [0..<v_rows v * v_cols v]"

definition fill_glyphs :: "RasterView \<Rightarrow> glyph_id \<Rightarrow> Raster \<Rightarrow> Raster" where
  "fill_glyphs v x r = r\<lparr>ra_glyphs := fold (\<lambda>i a. a[i := x]) (flat_indices v) (ra_glyphs r)\<rparr>"
definition fill_fgs :: "RasterView \<Rightarrow> Rgba8 \<Rightarrow> Raster \<Rightarrow> Raster" where
  "fill_fgs v x r = r\<lparr>ra_fgs := fold (\<lambda>i a. a[i := x]) (flat_indices v) (ra_fgs r)\<rparr>"
definition fill_bgs :: "RasterView \<Rightarrow> Rgba8 \<Rightarrow> Raster \<Rightarrow> Raster" where
  "fill_bgs v x r = r\<lparr>ra_bgs := fold (\<lambda>i a. a[i := x]) (flat_indices v) (ra_bgs r)\<rparr>"
definition fill_ems :: "RasterView \<Rightarrow> Emphasis \<Rightarrow> Raster \<Rightarrow> Raster" where
  "fill_ems v x r = r\<lparr>ra_ems := fold (\<lambda>i a. a[i := x]) (flat_indices v) (ra_ems r)\<rparr>"

definition paint_surface :: "RasterView \<Rightarrow> Style \<Rightarrow> Raster \<Rightarrow> Raster" where
  "paint_surface v style r = fill_ems v (st_em style) (fill_bgs v (st_bg style) (fill_fgs v (st_fg style) (fill_glyphs v 32 r)))"

text \<open>The loops over the children; a child is its hint along the axis (its height, for \<^verbatim>\<open>Each\<close>) and its drawing.\<close>

fun render_stack :: "Axis \<Rightarrow> SizeHint \<Rightarrow> nat \<times> nat \<Rightarrow> (SizeHint \<times> drawing_fn) list \<Rightarrow> RasterView \<Rightarrow> nat \<times> nat \<Rightarrow> canvas
    \<Rightarrow> glyph_error + canvas" where
  "render_stack A tot extent [] v pos s = Inr s"
| "render_stack A tot extent ((hint, draw) # children) v pos s =
     (let n = allocate_main_extent hint tot (axis_extent A extent) in
      if n = 0 then render_stack A tot extent children v pos s
      else case draw (subraster v pos (child_size A extent n)) (child_size A extent n) s of
        Inl e \<Rightarrow> Inl e
      | Inr s' \<Rightarrow> render_stack A tot extent children v (advance A pos n) s')"

fun render_each :: "nat \<times> nat \<Rightarrow> (SizeHint \<times> drawing_fn) list \<Rightarrow> RasterView \<Rightarrow> nat \<Rightarrow> canvas \<Rightarrow> glyph_error + canvas" where
  "render_each extent [] v y s = Inr s"
| "render_each extent ((hint, draw) # children) v y s =
     (let h = h_min hint in
      if h = 0 then render_each extent children v y s
      else if sz_add y h > snd extent then Inr s
      else case draw (subraster v (0, y) (fst extent, h)) (fst extent, h) s of
        Inl e \<Rightarrow> Inl e
      | Inr s' \<Rightarrow> render_each extent children v (sz_add y h) s')"

fun render_list :: "nat \<times> nat \<Rightarrow> drawing_fn list \<Rightarrow> RasterView \<Rightarrow> nat \<Rightarrow> canvas \<Rightarrow> glyph_error + canvas" where
  "render_list extent [] v y s = Inr s"
| "render_list extent (draw # children) v y s =
     (if y \<ge> snd extent then Inr s
      else case draw (subraster v (0, y) (fst extent, 1)) (fst extent, 1) s of
        Inl e \<Rightarrow> Inl e
      | Inr s' \<Rightarrow> render_list extent children v (y + 1) s')"

fun render :: "layout \<Rightarrow> RasterView \<Rightarrow> nat \<times> nat \<Rightarrow> canvas \<Rightarrow> glyph_error + canvas" where
  "render (Leaf w h draw) v extent s = draw v extent s"
| "render Empty v extent s = Inr s"
| "render (Surface style child) v extent s = render child v extent (paint_surface v style (fst s), snd s)"
| "render (FixedHeight n child) v extent s = render child v extent s"
| "render (FixedWidth n child) v extent s = render child v extent s"
| "render (GrowWidth child factor) v extent s = render child v extent s"
| "render (Stack A children) v extent s =
     render_stack A (total_hint (map (main_hint A) children)) extent (map (\<lambda>c. (main_hint A c, render c)) children) v (0, 0) s"
| "render (Each children) v extent s = render_each extent (map (\<lambda>c. (height_hint c, render c)) children) v 0 s"
| "render (ListView children) v extent s = render_list extent (map render children) v 0 s"

section \<open>Model: leaves\<close>

record Span =
  sp_text :: bytes
  sp_style :: Style

definition plain_style :: Style where
  "plain_style = \<lparr>st_fg = DEFAULT_COLOR, st_bg = DEFAULT_COLOR, st_em = DEFAULT_EMPHASIS\<rparr>"

definition style_cell :: "RasterView \<Rightarrow> Style \<Rightarrow> nat \<times> nat \<Rightarrow> Raster \<Rightarrow> Raster" where
  "style_cell v style p r =
     (let r = (if st_fg style \<noteq> DEFAULT_COLOR then set_fg v p (st_fg style) r else r);
          r = (if st_bg style \<noteq> DEFAULT_COLOR then set_bg v p (st_bg style) r else r)
      in if st_em style \<noteq> DEFAULT_EMPHASIS then set_em v p (st_em style) r else r)"

definition render_span :: "Unicode \<Rightarrow> RasterView \<Rightarrow> nat \<times> nat \<Rightarrow> Span \<Rightarrow> canvas \<Rightarrow> glyph_error + nat \<times> canvas" where
  "render_span U v pos s c =
     (case write_text U v pos (sp_text s) c of
        Inl e \<Rightarrow> Inl e
      | Inr (end_x, r, t) \<Rightarrow> Inr (end_x, fold (\<lambda>x. style_cell v (sp_style s) (x, snd pos)) [fst pos..<end_x] r, t))"

definition tui_clear_line :: "RasterView \<Rightarrow> Style \<Rightarrow> Raster \<Rightarrow> Raster" where
  "tui_clear_line v style r =
     (let r = fill_glyphs v 32 r;
          r = (if st_fg style \<noteq> DEFAULT_COLOR then fill_fgs v (st_fg style) r else r);
          r = (if st_bg style \<noteq> DEFAULT_COLOR then fill_bgs v (st_bg style) r else r)
      in if st_em style \<noteq> DEFAULT_EMPHASIS then fill_ems v (st_em style) r else r)"

definition tui_render_line :: "Unicode \<Rightarrow> RasterView \<Rightarrow> bytes \<Rightarrow> Style \<Rightarrow> canvas \<Rightarrow> glyph_error + nat \<times> canvas" where
  "tui_render_line U v str style c =
     render_span U v (0, 0) \<lparr>sp_text = str, sp_style = style\<rparr> (tui_clear_line v style (fst c), snd c)"

definition drop_column :: "glyph_error + nat \<times> canvas \<Rightarrow> glyph_error + canvas" where
  "drop_column x = (case x of Inl e \<Rightarrow> Inl e | Inr (col, c) \<Rightarrow> Inr c)"

definition line_draw :: "Unicode \<Rightarrow> (nat \<Rightarrow> bytes) \<Rightarrow> Style \<Rightarrow> drawing_fn" where
  "line_draw U make_text style v extent c = drop_column (tui_render_line U v (make_text (fst extent)) style c)"

definition line_text :: "Unicode \<Rightarrow> SizeHint \<Rightarrow> (nat \<Rightarrow> bytes) \<Rightarrow> Style \<Rightarrow> layout" where
  "line_text U width make_text style = Leaf width (fixed_hint 1) (line_draw U make_text style)"

definition repeat_glyph :: "bytes \<Rightarrow> nat \<Rightarrow> bytes" where
  "repeat_glyph glyph w = concat (replicate w glyph)"

definition text_layout :: "Unicode \<Rightarrow> bytes \<Rightarrow> Style \<Rightarrow> layout" where
  "text_layout U s style = line_text U (fixed_hint (display_width U s)) (\<lambda>_. s) style"

definition flex_string :: "bytes \<Rightarrow> nat \<Rightarrow> bytes" where
  "flex_string s w =
     (if w = 0 then []
      else if length s > w then (if w > 1 then take (w - 1) s @ [0xe2, 0x80, 0xa6] else take w s) else s)"

definition flex_text :: "Unicode \<Rightarrow> bytes \<Rightarrow> Style \<Rightarrow> layout" where
  "flex_text U s style = line_text U (grow_hint 1) (flex_string s) style"

fun render_spans :: "Unicode \<Rightarrow> RasterView \<Rightarrow> nat \<times> nat \<Rightarrow> Span list \<Rightarrow> canvas \<Rightarrow> glyph_error + canvas" where
  "render_spans U v pos [] c = Inr c"
| "render_spans U v pos (s # ss) c =
     (case render_span U v pos s c of Inl e \<Rightarrow> Inl e | Inr (col, c') \<Rightarrow> render_spans U v (col, snd pos) ss c')"

fun render_rows :: "Unicode \<Rightarrow> RasterView \<Rightarrow> nat \<Rightarrow> nat \<Rightarrow> Span list list \<Rightarrow> canvas \<Rightarrow> glyph_error + canvas" where
  "render_rows U v h row [] c = Inr c"
| "render_rows U v h row (spans # lines) c =
     (if row \<ge> h then Inr c
      else case render_spans U v (0, row) spans c of Inl e \<Rightarrow> Inl e | Inr c' \<Rightarrow> render_rows U v h (row + 1) lines c')"

definition lines_draw :: "Unicode \<Rightarrow> Span list list \<Rightarrow> Style \<Rightarrow> drawing_fn" where
  "lines_draw U lines style v extent c = render_rows U v (snd extent) 0 lines (tui_clear_line v style (fst c), snd c)"

definition styled_lines :: "Unicode \<Rightarrow> Span list list \<Rightarrow> Style \<Rightarrow> layout" where
  "styled_lines U lines style =
     (let lines = (if lines = [] then [[]] else lines);
          width = foldl (\<lambda>w spans. max w (sum_list (map (\<lambda>s. display_width U (sp_text s)) spans))) 0 lines
      in Leaf (fixed_hint width) (fixed_hint (length lines)) (lines_draw U lines style))"

text \<open>\<^verbatim>\<open>text_lines\<close>: the clusters of the text, cut at line breaks.\<close>

fun cut_lines :: "bytes list \<Rightarrow> bytes \<Rightarrow> bytes list \<Rightarrow> bytes list" where
  "cut_lines [] current done_lines = (if current \<noteq> [] \<or> done_lines = [] then done_lines @ [current] else done_lines)"
| "cut_lines (g # gs) current done_lines =
     (if is_line_break g then cut_lines gs [] (done_lines @ [current]) else cut_lines gs (current @ g) done_lines)"

definition text_lines :: "Unicode \<Rightarrow> bytes \<Rightarrow> Style \<Rightarrow> layout" where
  "text_lines U s style =
     styled_lines U (map (\<lambda>l. [\<lparr>sp_text = l, sp_style = style\<rparr>]) (cut_lines (clusters_from U s 0) [] [])) style"

definition spans_draw :: "Unicode \<Rightarrow> Span list \<Rightarrow> drawing_fn" where
  "spans_draw U spans v extent c = render_spans U v (0, 0) spans c"

definition styled_text :: "Unicode \<Rightarrow> Span list \<Rightarrow> layout" where
  "styled_text U spans = Leaf (fixed_hint (sum_list (map (\<lambda>s. display_width U (sp_text s)) spans))) (fixed_hint 1) (spans_draw U spans)"

definition fill_draw :: "Rgba8 \<Rightarrow> drawing_fn" where
  "fill_draw color v extent c = Inr (fill_bgs v color (fst c), snd c)"

definition fill_layout :: "Rgba8 \<Rightarrow> layout" where
  "fill_layout color = Leaf (grow_hint 1) (grow_hint 1) (fill_draw color)"

definition strip_draw :: "Rgba8 \<Rightarrow> drawing_fn" where
  "strip_draw color v extent c = Inr (fill_bgs v color (fill_glyphs v 32 (fst c)), snd c)"

definition hfill :: "nat \<Rightarrow> Rgba8 \<Rightarrow> layout" where
  "hfill width color = Leaf (fixed_hint width) (fixed_hint 1) (strip_draw color)"

definition flex_fill :: "Rgba8 \<Rightarrow> layout" where
  "flex_fill color = Leaf (grow_hint 1) (fixed_hint 1) (strip_draw color)"

definition hrule_string :: "nat \<Rightarrow> bytes" where
  "hrule_string w = repeat_glyph [0xe2, 0x94, 0x80] w"

definition hrule :: "Unicode \<Rightarrow> layout" where
  "hrule U = line_text U (grow_hint 1) hrule_string plain_style"

definition spinner_frames :: "bytes list" where
  "spinner_frames = map (\<lambda>b. [0xe2, 0xa0, b]) [0x8b, 0x99, 0xb9, 0xb8, 0xbc, 0xb4, 0xa6, 0xa7, 0x87, 0x8f]"

definition spinner :: "Unicode \<Rightarrow> nat \<Rightarrow> Style \<Rightarrow> layout" where
  "spinner U tick style = text_layout U ([0x20] @ spinner_frames ! (tick mod length spinner_frames) @ [0x20]) style"

text \<open>\<^verbatim>\<open>text_field\<close>: the leaf that draws a field.\<close>

record TextFieldStyle =
  tfs_fg :: Rgba8
  tfs_bg :: Rgba8
  tfs_prefix_fg :: Rgba8
  tfs_placeholder_fg :: Rgba8

record TextFieldOptions =
  tfo_prefix :: bytes
  tfo_placeholder :: bytes
  tfo_style :: TextFieldStyle
  tfo_focused :: bool

definition write_at :: "Unicode \<Rightarrow> RasterView \<Rightarrow> nat \<Rightarrow> bytes \<Rightarrow> canvas \<Rightarrow> glyph_error + canvas" where
  "write_at U v x str c = drop_column (write_text U v (x, 0) str c)"

definition field_body :: "Unicode \<Rightarrow> TextFieldOptions \<Rightarrow> TextField \<Rightarrow> RasterView \<Rightarrow> nat \<Rightarrow> nat \<Rightarrow> canvas \<Rightarrow> glyph_error + canvas" where
  "field_body U opts f v total_w prefix_cells c =
     (let field_w = total_w - prefix_cells;
          scroll = scroll_for_cursor (column_at U (tf_text f) (cursor_byte f)) field_w
      in if tf_text f = [] \<and> tfo_placeholder opts \<noteq> [] \<and> field_w > 0
         then write_at U v prefix_cells (tfo_placeholder opts)
                (fold (\<lambda>x. set_fg v (x, 0) (tfs_placeholder_fg (tfo_style opts))) [prefix_cells..<total_w] (fst c), snd c)
         else if field_w > 0
         then let start_byte = byte_at_column U (tf_text f) scroll; end_byte = byte_at_column U (tf_text f) (scroll + field_w)
              in write_at U v prefix_cells (substr (tf_text f) start_byte (end_byte - start_byte)) c
         else Inr c)"

definition field_draw :: "Unicode \<Rightarrow> TextFieldOptions \<Rightarrow> TextField \<Rightarrow> drawing_fn" where
  "field_draw U opts f v extent c =
     (let total_w = fst extent in
      if total_w = 0 then Inr c
      else
        let prefix_cells = min (display_width U (tfo_prefix opts)) total_w;
            field_w = total_w - prefix_cells;
            r = fold (\<lambda>x r. set_fg v (x, 0) (tfs_fg (tfo_style opts)) (set_bg v (x, 0) (tfs_bg (tfo_style opts)) r)) [0..<total_w] (fst c);
            prefixed = (if prefix_cells > 0
              then write_at U v 0 (tfo_prefix opts) (fold (\<lambda>x. set_fg v (x, 0) (tfs_prefix_fg (tfo_style opts))) [0..<prefix_cells] r, snd c)
              else Inr (r, snd c));
            cell = column_at U (tf_text f) (cursor_byte f);
            scroll = scroll_for_cursor cell field_w
        in case prefixed of
             Inl e \<Rightarrow> Inl e
           | Inr c \<Rightarrow>
               (case field_body U opts f v total_w prefix_cells c of
                  Inl e \<Rightarrow> Inl e
                | Inr (r, t) \<Rightarrow>
                    Inr (if tfo_focused opts \<and> field_w > 0
                         then set_em v (min (prefix_cells + (cell - scroll)) (total_w - 1), 0) 32 r else r, t)))"

definition text_field :: "Unicode \<Rightarrow> TextField \<Rightarrow> TextFieldOptions \<Rightarrow> layout" where
  "text_field U f opts = Leaf (grow_hint 1) (fixed_hint 1) (field_draw U opts f)"

section \<open>Drawing stays inside\<close>

definition view_cells :: "RasterView \<Rightarrow> nat set" where
  "view_cells v = {v_index v y x | y x. y < v_rows v \<and> x < v_cols v}"

definition same_shape :: "Raster \<Rightarrow> Raster \<Rightarrow> bool" where
  "same_shape r r' \<longleftrightarrow> ra_width r' = ra_width r \<and> ra_height r' = ra_height r \<and> length (ra_glyphs r') = length (ra_glyphs r)
     \<and> length (ra_fgs r') = length (ra_fgs r) \<and> length (ra_bgs r') = length (ra_bgs r) \<and> length (ra_ems r') = length (ra_ems r)"

definition only_in :: "RasterView \<Rightarrow> Raster \<Rightarrow> Raster \<Rightarrow> bool" where
  "only_in v r r' \<longleftrightarrow> same_shape r r' \<and> (\<forall>i. i \<notin> view_cells v \<longrightarrow> cell_of r' i = cell_of r i)"

named_theorems inside_rules

lemma only_in_refl [inside_rules]: "only_in v r r"
  by (simp add: only_in_def same_shape_def)

lemma only_in_trans: "only_in v r r' \<Longrightarrow> only_in v r' r'' \<Longrightarrow> only_in v r r''"
  by (simp add: only_in_def same_shape_def)

lemma only_in_mono: "only_in w r r' \<Longrightarrow> view_cells w \<subseteq> view_cells v \<Longrightarrow> only_in v r r'"
  by (auto simp: only_in_def)

lemma view_cell: "y < v_rows v \<Longrightarrow> x < v_cols v \<Longrightarrow> v_index v y x \<in> view_cells v"
  by (auto simp: view_cells_def)

lemma update_glyph: "i \<in> view_cells v \<Longrightarrow> only_in v r (r\<lparr>ra_glyphs := (ra_glyphs r)[i := g]\<rparr>)"
  and update_fg: "i \<in> view_cells v \<Longrightarrow> only_in v r (r\<lparr>ra_fgs := (ra_fgs r)[i := c]\<rparr>)"
  and update_bg: "i \<in> view_cells v \<Longrightarrow> only_in v r (r\<lparr>ra_bgs := (ra_bgs r)[i := c]\<rparr>)"
  and update_em: "i \<in> view_cells v \<Longrightarrow> only_in v r (r\<lparr>ra_ems := (ra_ems r)[i := e]\<rparr>)"
  by (auto simp: only_in_def same_shape_def cell_of_def) (metis nth_list_update_neq)+

lemma set_inside [inside_rules]:
  "only_in v r (set_glyph v pos g r)" "only_in v r (set_fg v pos c r)" "only_in v r (set_bg v pos c r)" "only_in v r (set_em v pos e r)"
  by (auto simp: set_glyph_def set_fg_def set_bg_def set_em_def only_in_refl view_cell update_glyph update_fg update_bg update_em
      split: prod.split)

lemma fold_inside:
  assumes "\<And>x r. x \<in> set xs \<Longrightarrow> only_in v r (f x r)"
  shows "only_in v r (fold f xs r)"
  using assms
proof (induction xs arbitrary: r)
  case (Cons x xs)
  then show ?case using only_in_trans [of v r "f x r"] by simp
qed (simp add: only_in_refl)

lemma flat_in: "i \<in> set (flat_indices v) \<Longrightarrow> i \<in> view_cells v"
proof -
  assume "i \<in> set (flat_indices v)"
  then obtain k where k: "k < v_rows v * v_cols v" "i = v_index v (k div v_cols v) (k mod v_cols v)" by (auto simp: flat_indices_def)
  have "k div v_cols v < v_rows v" using k(1) by (simp add: less_mult_imp_div_less)
  moreover have "k mod v_cols v < v_cols v" using k(1) by (cases "v_cols v") auto
  ultimately show ?thesis by (simp add: k(2) view_cell)
qed

lemma fold_update:
  "length (fold (\<lambda>i a. a[i := x]) is xs) = length xs" "j \<notin> set is \<Longrightarrow> fold (\<lambda>i a. a[i := x]) is xs ! j = xs ! j"
  by (induction "is" arbitrary: xs) auto

lemma fill_inside [inside_rules]:
  "only_in v r (fill_glyphs v g r)" "only_in v r (fill_fgs v c r)" "only_in v r (fill_bgs v c r)" "only_in v r (fill_ems v e r)"
  by (auto simp: only_in_def same_shape_def cell_of_def fill_glyphs_def fill_fgs_def fill_bgs_def fill_ems_def fold_update(1)
      intro!: fold_update(2) dest: flat_in)

lemma write_tail_inside:
  assumes "write_tail v y col dxs (r, t) = Inr (r', t')" "y < v_rows v" "\<forall>dx \<in> set dxs. col + dx < v_cols v"
  shows "only_in v r r'"
  using assms
proof (induction dxs arbitrary: r t)
  case (Cons dx dxs)
  obtain gid t1 where g: "gt_intern [] t = Inr (gid, t1)" using Cons.prems(1) by (auto split: sum.splits)
  let ?r = "r\<lparr>ra_glyphs := (ra_glyphs r)[v_index v y (col + dx) := gid]\<rparr>"
  have "only_in v ?r r'" using Cons.IH [of ?r t1] Cons.prems g by auto
  moreover have "only_in v r ?r" using Cons.prems(2,3) by (intro update_glyph view_cell) auto
  ultimately show ?case by (rule only_in_trans [rotated])
qed (simp add: only_in_refl)

lemma write_loop_inside:
  assumes "write_loop U v y str i col (r, t) = Inr (col', r', t')" "y < v_rows v"
  shows "only_in v r r'"
  using assms
proof (induction "length str - i" arbitrary: i col r t rule: less_induct)
  case less
  let ?n = "utf8_next U str i"
  let ?g = "substr str i (?n - i)"
  let ?w = "cluster_width U ?g"
  show ?case
  proof (cases "i < length str \<and> col < v_cols v \<and> \<not> ?w > v_cols v - col")
    case False
    then have "r' = r" using less.prems(1) by (subst (asm) write_loop.simps) (auto simp: Let_def split: if_splits)
    then show ?thesis by (simp add: only_in_refl)
  next
    case True
    from less.prems(1) True obtain gid t1 r2 t2 where
      g: "gt_intern ?g t = Inr (gid, t1)"
      "write_tail v y col [1..<?w] (r\<lparr>ra_glyphs := (ra_glyphs r)[v_index v y col := gid]\<rparr>, t1) = Inr (r2, t2)"
      "write_loop U v y str ?n (col + ?w) (r2, t2) = Inr (col', r', t')"
      by (subst (asm) write_loop.simps) (auto simp: Let_def split: sum.splits prod.splits)
    let ?r1 = "r\<lparr>ra_glyphs := (ra_glyphs r)[v_index v y col := gid]\<rparr>"
    have "only_in v r ?r1" using True less.prems(2) by (intro update_glyph view_cell) auto
    moreover have "only_in v ?r1 r2" by (rule write_tail_inside [OF g(2) less.prems(2)]) (use True in auto)
    moreover have "only_in v r2 r'" by (rule less.hyps [OF _ g(3) less.prems(2)]) (use True next_measure in auto)
    ultimately show ?thesis by (blast intro: only_in_trans)
  qed
qed

lemma write_text_inside: "write_text U v pos str (r, t) = Inr (col, r', t') \<Longrightarrow> only_in v r r'"
  using write_loop_inside [of U v "snd pos" str 0 "fst pos" r t] by (auto simp: write_text_def only_in_refl split: prod.splits if_splits)

lemma subraster_cells_eq:
  assumes "window_fits (x, y) (w, h)"
  shows "view_cells (subraster v (x, y) (w, h)) = {v_index v (y + j) (x + i) | j i. j < h \<and> y + j < v_rows v \<and> i < w \<and> x + i < v_cols v}"
  unfolding view_cells_def by (intro Collect_cong ex_cong1) (auto simp: subraster_in [OF assms] subraster_index)

lemma subraster_cells: "window_fits pos ext \<Longrightarrow> view_cells (subraster v pos ext) \<subseteq> view_cells v"
  by (cases pos; cases ext) (auto simp: subraster_cells_eq view_cell)

text \<open>A drawing that, given a certain extent, stays in the view it is given.\<close>

definition inside_at :: "nat \<times> nat \<Rightarrow> drawing_fn \<Rightarrow> bool" where
  "inside_at extent draw \<longleftrightarrow> (\<forall>v r t r' t'. draw v extent (r, t) = Inr (r', t') \<longrightarrow> only_in v r r')"

lemma inside_atD: "inside_at extent draw \<Longrightarrow> draw v extent (r, t) = Inr (r', t') \<Longrightarrow> only_in v r r'"
  unfolding inside_at_def by blast

lemma inside_atI: "(\<And>v r t r' t'. draw v extent (r, t) = Inr (r', t') \<Longrightarrow> only_in v r r') \<Longrightarrow> inside_at extent draw"
  unfolding inside_at_def by blast

text \<open>The interface of a leaf: what it draws stays in the view it is given, whatever the extent.\<close>

locale drawing =
  fixes draw :: drawing_fn
  assumes draws_inside: "draw v extent (r, t) = Inr (r', t') \<Longrightarrow> only_in v r r'"
begin

lemma inside: "inside_at extent draw"
  using draws_inside by (rule inside_atI)

lemma draws_in_window:
  assumes "window_fits pos ext" "draw (subraster v pos ext) extent (r, t) = Inr (r', t')"
  shows "only_in v r r'"
  using draws_inside [OF assms(2)] subraster_cells [OF assms(1)] by (rule only_in_mono)

lemma keeps_shape: "draw v extent (r, t) = Inr (r', t') \<Longrightarrow> same_shape r r'"
  using draws_inside by (simp add: only_in_def)

end

lemma only_in_then: "only_in v r r1 \<Longrightarrow> (\<And>r. only_in v r (f r)) \<Longrightarrow> only_in v r (f r1)"
  using only_in_trans by blast

lemma only_in_if: "only_in v r r1 \<Longrightarrow> (\<And>r. only_in v r (f r)) \<Longrightarrow> only_in v r (if p then f r1 else r1)"
  using only_in_then [of v r r1 f] by simp

lemma style_cell_inside [inside_rules]: "only_in v r (style_cell v style p r)"
  unfolding style_cell_def Let_def by (intro only_in_if set_inside only_in_refl)

lemma tui_clear_line_inside [inside_rules]: "only_in v r (tui_clear_line v style r)"
  unfolding tui_clear_line_def Let_def by (intro only_in_if fill_inside)

lemma paint_surface_inside [inside_rules]: "only_in v r (paint_surface v style r)"
  unfolding paint_surface_def
  by (rule only_in_then [OF only_in_then [OF only_in_then [OF fill_inside(1)]]]) (rule fill_inside)+

lemma render_span_inside:
  assumes "render_span U v pos s (r, t) = Inr (col, r', t')"
  shows "only_in v r r'"
proof -
  obtain r1 where w: "write_text U v pos (sp_text s) (r, t) = Inr (col, r1, t')"
    and r': "r' = fold (\<lambda>x. style_cell v (sp_style s) (x, snd pos)) [fst pos..<col] r1"
    using assms by (auto simp: render_span_def split: sum.splits)
  have "only_in v r1 r'" unfolding r' by (rule fold_inside) (rule style_cell_inside)
  with write_text_inside [OF w] show ?thesis by (rule only_in_trans)
qed

lemma render_spans_inside: "render_spans U v pos ss (r, t) = Inr (r', t') \<Longrightarrow> only_in v r r'"
proof (induction ss arbitrary: pos r t)
  case (Cons s ss)
  then show ?case by (auto split: sum.splits prod.splits intro: only_in_trans [OF render_span_inside])
qed (simp add: only_in_refl)

lemma render_rows_inside: "render_rows U v h row ls (r, t) = Inr (r', t') \<Longrightarrow> only_in v r r'"
proof (induction ls arbitrary: row r t)
  case (Cons l ls)
  then show ?case by (auto split: sum.splits prod.splits if_splits intro: only_in_refl only_in_trans [OF render_spans_inside])
qed (simp add: only_in_refl)

lemma write_at_inside: "write_at U v x str (r, t) = Inr (r', t') \<Longrightarrow> only_in v r r'"
  by (auto simp: write_at_def drop_column_def split: sum.splits prod.splits intro: write_text_inside)

interpretation line: drawing "line_draw U make_text style" for U make_text style
  by unfold_locales (auto simp: line_draw_def tui_render_line_def drop_column_def split: sum.splits prod.splits
    intro: only_in_trans [OF tui_clear_line_inside render_span_inside])

interpretation lines: drawing "lines_draw U ls style" for U ls style
  by unfold_locales (auto simp: lines_draw_def intro: only_in_trans [OF tui_clear_line_inside render_rows_inside])

interpretation spans: drawing "spans_draw U ss" for U ss
  by unfold_locales (auto simp: spans_draw_def intro: render_spans_inside)

interpretation area: drawing "fill_draw color" for color
  by unfold_locales (auto simp: fill_draw_def fill_inside)

interpretation strip: drawing "strip_draw color" for color
  by unfold_locales (auto simp: strip_draw_def intro: only_in_trans [OF fill_inside(1) fill_inside(3)])

lemma fold_fg_inside: "only_in v r (fold (\<lambda>x. set_fg v (x, 0) c) xs r)"
  by (rule fold_inside) (rule set_inside)

lemma field_body_inside: "field_body U opts f v tw pc (r, t) = Inr (r', t') \<Longrightarrow> only_in v r r'"
  by (auto simp: field_body_def Let_def split: if_splits intro: write_at_inside only_in_refl only_in_trans [OF fold_fg_inside write_at_inside])

interpretation field: drawing "field_draw U opts f" for U opts f
proof
  fix v extent r t r' t'
  assume d: "field_draw U opts f v extent (r, t) = Inr (r', t')"
  have base: "only_in v r (fold (\<lambda>x r. set_fg v (x, 0) c (set_bg v (x, 0) d r)) xs r)" for xs c d
    by (rule fold_inside) (blast intro: only_in_trans set_inside)
  have em: "only_in v q (if p then set_em v pos e q else q)" for p pos e q by (simp add: only_in_refl set_inside)
  show "only_in v r r'"
  proof (cases "fst extent = 0")
    case True
    then show ?thesis using d by (simp add: field_draw_def only_in_refl)
  next
    case False
    let ?pc = "min (display_width U (tfo_prefix opts)) (fst extent)"
    let ?r = "fold (\<lambda>x r. set_fg v (x, 0) (tfs_fg (tfo_style opts)) (set_bg v (x, 0) (tfs_bg (tfo_style opts)) r)) [0..<fst extent] r"
    obtain r1 t1 r2 t2 p pos where
      1: "(if ?pc > 0 then write_at U v 0 (tfo_prefix opts) (fold (\<lambda>x. set_fg v (x, 0) (tfs_prefix_fg (tfo_style opts))) [0..<?pc] ?r, t) else Inr (?r, t)) = Inr (r1, t1)"
      and 2: "field_body U opts f v (fst extent) ?pc (r1, t1) = Inr (r2, t2)" and 3: "r' = (if p then set_em v pos 32 r2 else r2)"
      using d False by (auto simp: field_draw_def Let_def split: sum.splits if_splits)
    have "only_in v ?r r1" using 1 by (auto split: if_splits intro: only_in_refl only_in_trans [OF fold_fg_inside write_at_inside])
    then show ?thesis using base field_body_inside [OF 2] em unfolding 3 by (blast intro: only_in_trans)
  qed
qed

section \<open>Containers keep their children apart\<close>

fun all_leaves :: "(drawing_fn \<Rightarrow> bool) \<Rightarrow> layout \<Rightarrow> bool" where
  "all_leaves P (Leaf w h draw) = P draw"
| "all_leaves P Empty = True"
| "all_leaves P (Surface style child) = all_leaves P child"
| "all_leaves P (FixedHeight n child) = all_leaves P child"
| "all_leaves P (FixedWidth n child) = all_leaves P child"
| "all_leaves P (GrowWidth child factor) = all_leaves P child"
| "all_leaves P (Stack A children) = list_all (all_leaves P) children"
| "all_leaves P (Each children) = list_all (all_leaves P) children"
| "all_leaves P (ListView children) = list_all (all_leaves P) children"

text \<open>The extent of a child in its container.\<close>

definition child_extent :: "Axis \<Rightarrow> layout list \<Rightarrow> nat \<times> nat \<Rightarrow> layout \<Rightarrow> nat" where
  "child_extent A children extent c =
     allocate_main_extent (main_hint A c) (total_hint (map (main_hint A) children)) (axis_extent A extent)"

text \<open>No position in the drawing of a layout wraps around: in a row or column the extents of the children add up to less than
  \<open>2\<^sup>6\<^sup>4\<close> along the axis, in an item list the height and any one item do.\<close>

fun sizes_fit :: "layout \<Rightarrow> nat \<times> nat \<Rightarrow> bool" where
  "sizes_fit (Leaf w h draw) extent = True"
| "sizes_fit Empty extent = True"
| "sizes_fit (Surface style child) extent = sizes_fit child extent"
| "sizes_fit (FixedHeight n child) extent = sizes_fit child extent"
| "sizes_fit (FixedWidth n child) extent = sizes_fit child extent"
| "sizes_fit (GrowWidth child factor) extent = sizes_fit child extent"
| "sizes_fit (Stack A children) extent \<longleftrightarrow>
     window_fits (0, 0) (child_size A extent (sum_list (map (child_extent A children extent) children)))
     \<and> list_all (\<lambda>c. sizes_fit c (child_size A extent (child_extent A children extent c))) children"
| "sizes_fit (Each children) extent \<longleftrightarrow>
     list_all (\<lambda>c. window_fits (0, snd extent) (fst extent, h_min (height_hint c)) \<and> sizes_fit c (fst extent, h_min (height_hint c))) children"
| "sizes_fit (ListView children) extent \<longleftrightarrow> window_fits (0, 0) extent \<and> list_all (\<lambda>c. sizes_fit c (fst extent, 1)) children"

lemma window_then:
  "inside_at ext d \<Longrightarrow> window_fits pos ext \<Longrightarrow> d (subraster v pos ext) ext (r, t) = Inr (r1, t1) \<Longrightarrow> only_in v r1 r' \<Longrightarrow> only_in v r r'"
  unfolding inside_at_def using only_in_mono [OF _ subraster_cells] only_in_trans by blast

definition extents :: "Axis \<Rightarrow> SizeHint \<Rightarrow> nat \<times> nat \<Rightarrow> (SizeHint \<times> drawing_fn) list \<Rightarrow> nat" where
  "extents A tot extent cs = sum_list (map (\<lambda>c. allocate_main_extent (fst c) tot (axis_extent A extent)) cs)"

text \<open>What fits with the extent \<open>m + n\<close> fits with \<open>m\<close>, and with \<open>n\<close> after an advance by \<open>m\<close>, which does not wrap.\<close>

lemma window_fits_split:
  assumes "window_fits pos (child_size A extent (m + n))"
  shows "window_fits pos (child_size A extent m)" "window_fits (advance A pos m) (child_size A extent n)"
    "axis_extent A (advance A pos m) = axis_extent A pos + m"
  using assms by (cases A; cases pos; auto simp: window_fits_def sz_add_exact)+

definition stack_inside :: "Axis \<Rightarrow> SizeHint \<Rightarrow> nat \<times> nat \<Rightarrow> SizeHint \<times> drawing_fn \<Rightarrow> bool" where
  "stack_inside A tot extent c \<longleftrightarrow> inside_at (child_size A extent (allocate_main_extent (fst c) tot (axis_extent A extent))) (snd c)"

lemma render_stack_inside:
  assumes "\<forall>c \<in> set cs. stack_inside A tot extent c" "window_fits pos (child_size A extent (extents A tot extent cs))"
    "render_stack A tot extent cs v pos (r, t) = Inr (r', t')"
  shows "only_in v r r'"
  using assms
proof (induction cs arbitrary: pos r t)
  case (Cons c cs)
  obtain hint draw where c: "c = (hint, draw)" by (cases c)
  define n where "n = allocate_main_extent hint tot (axis_extent A extent)"
  have "extents A tot extent (c # cs) = n + extents A tot extent cs" by (simp add: c extents_def n_def)
  note w = window_fits_split [OF Cons.prems(2) [unfolded this]]
  show ?case
  proof (cases "n = 0")
    case True
    then show ?thesis using Cons.IH [of pos r t] Cons.prems by (simp add: c Let_def extents_def n_def [symmetric])
  next
    case False
    then obtain r1 t1 where d: "draw (subraster v pos (child_size A extent n)) (child_size A extent n) (r, t) = Inr (r1, t1)"
      and rest: "render_stack A tot extent cs v (advance A pos n) (r1, t1) = Inr (r', t')"
      using Cons.prems(3) by (auto simp: c Let_def n_def [symmetric] split: sum.splits)
    have "inside_at (child_size A extent n) draw" using Cons.prems(1) by (simp add: c stack_inside_def n_def)
    from window_then [where d = draw, OF this w(1) d] show ?thesis using Cons.IH [OF _ w(2) rest] Cons.prems(1) by simp
  qed
qed (simp add: only_in_refl)

lemma render_each_inside:
  assumes "\<forall>c \<in> set cs. inside_at (fst extent, h_min (fst c)) (snd c) \<and> window_fits (0, snd extent) (fst extent, h_min (fst c))"
    "y \<le> snd extent" "render_each extent cs v y (r, t) = Inr (r', t')"
  shows "only_in v r r'"
  using assms
proof (induction cs arbitrary: y r t)
  case (Cons c cs)
  obtain hint draw where c: "c = (hint, draw)" by (cases c)
  have i: "inside_at (fst extent, h_min hint) draw" and w: "window_fits (0, y) (fst extent, h_min hint)"
    using Cons.prems(1,2) by (auto simp: c window_fits_def)
  have a: "sz_add y (h_min hint) = y + h_min hint" using w by (simp add: window_fits_def sz_add_exact)
  consider "h_min hint = 0" | "h_min hint \<noteq> 0" "y + h_min hint > snd extent"
    | r1 t1 where "h_min hint \<noteq> 0" "y + h_min hint \<le> snd extent"
      "draw (subraster v (0, y) (fst extent, h_min hint)) (fst extent, h_min hint) (r, t) = Inr (r1, t1)"
      "render_each extent cs v (y + h_min hint) (r1, t1) = Inr (r', t')"
    using Cons.prems(3) by (auto simp: c Let_def a split: if_splits sum.splits)
  then show ?case
  proof cases
    case 1
    then show ?thesis using Cons.IH [of y r t] Cons.prems by (simp add: c)
  next
    case 2
    then show ?thesis using Cons.prems(3) by (simp add: c Let_def a only_in_refl)
  next
    case 3
    then show ?thesis using window_then [OF i w 3(3)] Cons.IH [OF _ 3(2,4)] Cons.prems(1) by simp
  qed
qed (simp add: only_in_refl)

lemma render_list_inside:
  assumes "\<forall>c \<in> set cs. inside_at (fst extent, 1) c" "window_fits (0, 0) extent" "render_list extent cs v y (r, t) = Inr (r', t')"
  shows "only_in v r r'"
  using assms
proof (induction cs arbitrary: y r t)
  case (Cons c cs)
  show ?case
  proof (cases "y < snd extent")
    case True
    then obtain r1 t1 where d: "c (subraster v (0, y) (fst extent, 1)) (fst extent, 1) (r, t) = Inr (r1, t1)"
      and rest: "render_list extent cs v (y + 1) (r1, t1) = Inr (r', t')"
      using Cons.prems(3) by (auto split: if_splits sum.splits)
    have w: "window_fits (0, y) (fst extent, 1)" using True Cons.prems(2) by (simp add: window_fits_def)
    have "inside_at (fst extent, 1) c" using Cons.prems(1) by simp
    from window_then [where d = c, OF this w d] show ?thesis using Cons.IH [OF _ _ rest] Cons.prems(1,2) by simp
  next
    case False
    then show ?thesis using Cons.prems(3) by (simp add: only_in_refl)
  qed
qed (simp add: only_in_refl)

lemma render_inside: "all_leaves drawing l \<Longrightarrow> sizes_fit l extent \<Longrightarrow> inside_at extent (render l)"
proof (induction l arbitrary: extent)
  case (Leaf w h draw)
  then show ?case using drawing.draws_inside [of draw] by (intro inside_atI) simp
next
  case (Surface style child)
  then have "inside_at extent (render child)" by simp
  note child = only_in_trans [OF paint_surface_inside inside_atD [OF this]]
  show ?case by (rule inside_atI, rule child) simp
next
  case (Stack A children)
  let ?cs = "map (\<lambda>c. (main_hint A c, render c)) children" and ?tot = "total_hint (map (main_hint A) children)"
  have 1: "\<forall>c \<in> set ?cs. stack_inside A ?tot extent c"
    using Stack by (auto simp: stack_inside_def list_all_iff child_extent_def)
  have "extents A ?tot extent ?cs = sum_list (map (child_extent A children extent) children)"
    by (simp add: extents_def child_extent_def [abs_def] comp_def)
  then have 2: "window_fits (0, 0) (child_size A extent (extents A ?tot extent ?cs))" using Stack.prems(2) by simp
  show ?case by (rule inside_atI, rule render_stack_inside [OF 1 2]) simp
next
  case (Each children)
  let ?cs = "map (\<lambda>c. (height_hint c, render c)) children"
  have 1: "\<forall>c \<in> set ?cs. inside_at (fst extent, h_min (fst c)) (snd c) \<and> window_fits (0, snd extent) (fst extent, h_min (fst c))"
    using Each by (auto simp: list_all_iff)
  show ?case by (rule inside_atI, rule render_each_inside [OF 1 le0]) simp
next
  case (ListView children)
  have 1: "\<forall>c \<in> set (map render children). inside_at (fst extent, 1) c" using ListView by (auto simp: list_all_iff)
  show ?case by (rule inside_atI, rule render_list_inside [OF 1 conjunct1]) (use ListView.prems(2) in auto)
next
  case Empty
  show ?case by (rule inside_atI) (simp add: only_in_refl)
qed (simp_all add: inside_at_def)

text \<open>Where the children of a stack draw.\<close>

lemma v_index_inj:
  assumes "v_index v y x = v_index v y' x'" "x < v_cols v" "x' < v_cols v" "v_cols v \<le> v_stride v"
  shows "y = y' \<and> x = x'"
proof -
  have e: "y * v_stride v + x = y' * v_stride v + x'" using assms(1) by (simp add: v_index_def)
  have l: "x < v_stride v" "x' < v_stride v" using assms by auto
  have "y = y'" using arg_cong [OF e, of "\<lambda>n. n div v_stride v"] l by simp
  then show ?thesis using e by simp
qed

lemma window_cells:
  assumes "x < v_cols v" "y < v_rows v" "v_cols v \<le> v_stride v" and fits: "window_fits (px, py) (w, h)"
  shows "v_index v y x \<in> view_cells (subraster v (px, py) (w, h)) \<longleftrightarrow> px \<le> x \<and> x < px + w \<and> py \<le> y \<and> y < py + h"
proof
  assume "v_index v y x \<in> view_cells (subraster v (px, py) (w, h))"
  then show "px \<le> x \<and> x < px + w \<and> py \<le> y \<and> y < py + h"
    using v_index_inj [OF _ assms(1) _ assms(3)] by (fastforce simp: subraster_cells_eq [OF fits])
next
  assume "px \<le> x \<and> x < px + w \<and> py \<le> y \<and> y < py + h"
  then show "v_index v y x \<in> view_cells (subraster v (px, py) (w, h))"
    using assms unfolding subraster_cells_eq [OF fits] mem_Collect_eq by - (rule exI [of _ "y - py"], rule exI [of _ "x - px"], auto)
qed

lemma window_axis:
  assumes "v_index v y x \<in> view_cells (subraster v pos (child_size A extent n))" "x < v_cols v" "y < v_rows v" "v_cols v \<le> v_stride v"
    "window_fits pos (child_size A extent n)"
  shows "axis_extent A pos \<le> axis_extent A (x, y) \<and> axis_extent A (x, y) < axis_extent A pos + n"
  using assms(1,5) window_cells [OF assms(2-4)] by (cases A; cases pos) auto

lemma advance_add: "advance A (advance A pos m) n = advance A pos (m + n)"
  by (cases A; cases pos) (simp_all add: sz_add_assoc)

lemma advance_0: "axis_extent A pos < 2 ^ 64 \<Longrightarrow> advance A pos 0 = pos"
  by (cases A; cases pos) (simp_all add: sz_add_def)

lemma axis_advance_bound: "axis_extent A (advance A pos n) < 2 ^ 64"
  by (cases A) (simp_all add: sz_add_def)

lemma render_stack_append:
  "axis_extent A pos < 2 ^ 64 \<Longrightarrow> render_stack A tot extent (xs @ ys) v pos s = (case render_stack A tot extent xs v pos s of
     Inl e \<Rightarrow> Inl e | Inr s' \<Rightarrow> render_stack A tot extent ys v (advance A pos (extents A tot extent xs)) s')"
proof (induction xs arbitrary: pos s)
  case (Cons x xs)
  obtain hint draw where x: "x = (hint, draw)" by (cases x)
  define n where "n = allocate_main_extent hint tot (axis_extent A extent)"
  have "extents A tot extent (x # xs) = n + extents A tot extent xs" by (simp add: x extents_def n_def)
  then show ?case using Cons.IH [OF Cons.prems] Cons.IH [OF axis_advance_bound]
    by (simp add: x Let_def n_def [symmetric] advance_add split: sum.split)
qed (simp add: extents_def advance_0)

lemma render_stack_region:
  assumes "\<forall>c \<in> set cs. stack_inside A tot extent c" "render_stack A tot extent cs v pos (r, t) = Inr (r', t')"
    and xy: "x < v_cols v" "y < v_rows v" "v_cols v \<le> v_stride v"
    and out: "\<not> (axis_extent A pos \<le> axis_extent A (x, y) \<and> axis_extent A (x, y) < axis_extent A pos + extents A tot extent cs)"
    and fits: "window_fits pos (child_size A extent (extents A tot extent cs))"
  shows "cell_of r' (v_index v y x) = cell_of r (v_index v y x)"
  using assms(1,2) out fits
proof (induction cs arbitrary: pos r t)
  case (Cons c cs)
  obtain hint draw where c: "c = (hint, draw)" by (cases c)
  define n where "n = allocate_main_extent hint tot (axis_extent A extent)"
  have e: "extents A tot extent (c # cs) = n + extents A tot extent cs" by (simp add: c extents_def n_def)
  note w = window_fits_split [OF Cons.prems(4) [unfolded e]]
  show ?case
  proof (cases "n = 0")
    case True
    then show ?thesis using Cons.IH [of pos r t] Cons.prems e by (simp add: c Let_def n_def [symmetric])
  next
    case False
    then obtain r1 t1 where d: "draw (subraster v pos (child_size A extent n)) (child_size A extent n) (r, t) = Inr (r1, t1)"
      and rest: "render_stack A tot extent cs v (advance A pos n) (r1, t1) = Inr (r', t')"
      using Cons.prems(2) by (auto simp: c Let_def n_def [symmetric] split: sum.splits)
    have dr: "inside_at (child_size A extent n) draw" using Cons.prems(1) by (simp add: c stack_inside_def n_def)
    have "v_index v y x \<notin> view_cells (subraster v pos (child_size A extent n))"
      using window_axis [OF _ xy w(1)] Cons.prems(3) e by fastforce
    then have "cell_of r1 (v_index v y x) = cell_of r (v_index v y x)"
      using inside_atD [OF dr d] by (simp add: only_in_def)
    then show ?thesis using Cons.IH [OF _ rest _ w(2)] Cons.prems(1,3) e w(3) by auto
  qed
qed simp

text \<open>Sizes that fit: with minimums that fit into the extent, or with children that do not grow.\<close>

lemma row_fits:
  assumes "\<forall>h \<in> set (map (main_hint A) children). 0 \<le> h_flex h"
    "sum_list (map (\<lambda>c. h_min (main_hint A c)) children) \<le> axis_extent A extent"
    "axis_extent A extent * (length children + 3) < 2 ^ 52"
  shows "sum_list (map (child_extent A children extent) children) \<le> axis_extent A extent"
  using extents_sum(1) [of "map (main_hint A) children" "axis_extent A extent"] assms
  by (simp add: child_extent_def [abs_def] comp_def)

text \<open>C20. A layout draws inside the view it is given: whatever leaves it is built from, as long as each of them stays in its
  own view and no position computed while drawing wraps around (\<open>sizes_fit\<close>), no cell outside the view changes and the
  raster keeps its shape.  With positions near \<open>2\<^sup>6\<^sup>4\<close> the source gives a child a window that is not clipped
  (\<open>subraster_wraps\<close>).\<close>

theorem layout_confined:
  assumes "all_leaves drawing l" "sizes_fit l extent" "render l v extent (r, t) = Inr (r', t')"
  shows "same_shape r r' \<and> (\<forall>i. i \<notin> view_cells v \<longrightarrow> cell_of r' i = cell_of r i)"
  using inside_atD [OF render_inside [OF assms(1,2)] assms(3)] by (simp add: only_in_def)

theorem layout_confined_witness:
  "\<exists>r' t'. render (Surface plain_style (Stack Axis_row [hfill 2 7, hfill 1 8])) (subraster (raster_view (new_raster 6 2)) (1, 0) (4, 1)) (4, 1)
      (new_raster 6 2, new_glyph_table) = Inr (r', t')
    \<and> same_shape (new_raster 6 2) r'
    \<and> (\<forall>i. i \<notin> view_cells (subraster (raster_view (new_raster 6 2)) (1, 0) (4, 1)) \<longrightarrow> cell_of r' i = cell_of (new_raster 6 2) i)"
proof -
  let ?l = "Surface plain_style (Stack Axis_row [hfill 2 7, hfill 1 8])"
  have a: "all_leaves drawing ?l" by (simp add: hfill_def strip.drawing_axioms)
  obtain r' t' where "render ?l (subraster (raster_view (new_raster 6 2)) (1, 0) (4, 1)) (4, 1) (new_raster 6 2, new_glyph_table) = Inr (r', t')"
    by (simp add: hfill_def strip_draw_def total_hint_def add_hint_def no_hint_def fixed_hint_def allocate_main_extent_def)
  moreover have "sizes_fit ?l (4, 1)"
    by (simp add: hfill_def total_hint_def add_hint_def no_hint_def fixed_hint_def allocate_main_extent_def child_extent_def window_fits_def)
  ultimately show ?thesis using layout_confined [OF a] by blast
qed

text \<open>The window of a child.\<close>

definition child_window :: "Axis \<Rightarrow> layout list \<Rightarrow> nat \<times> nat \<Rightarrow> nat \<Rightarrow> RasterView \<Rightarrow> RasterView" where
  "child_window A children extent k v =
     subraster v (advance A (0, 0) (sum_list (map (child_extent A children extent) (take k children))))
       (child_size A extent (child_extent A children extent (children ! k)))"

text \<open>C21. The children of a row or column do not disturb one another: each child that gets an extent draws into a window of
  that extent, right after the extents of the children before it; it finds there what was there before the container drew, and
  what it draws there is what the window shows at the end.  Again no position may wrap around: the extents of the children add up to
  less than \<open>2\<^sup>6\<^sup>4\<close>, and so within each child.\<close>

theorem stack_child_window:
  fixes A extent children k v
  defines "n \<equiv> child_extent A children extent (children ! k)" and "w \<equiv> child_window A children extent k v"
  assumes "all_leaves drawing (Stack A children)" "v_cols v \<le> v_stride v" "k < length children" "0 < n"
    and "render (Stack A children) v extent (r, t) = Inr (r', t')" and fits: "sizes_fit (Stack A children) extent"
  shows "\<exists>r1 t1 r2 t2. render (children ! k) w (child_size A extent n) (r1, t1) = Inr (r2, t2)
    \<and> (\<forall>i \<in> view_cells w. cell_of r1 i = cell_of r i \<and> cell_of r' i = cell_of r2 i)"
proof -
  let ?p = "\<lambda>c. (main_hint A c, render c)" and ?before = "take k children" and ?after = "drop (Suc k) children"
  let ?tot = "total_hint (map (main_hint A) children)"
  let ?m = "sum_list (map (child_extent A children extent) ?before)" and ?l = "sum_list (map (child_extent A children extent) ?after)"
  let ?pos = "advance A (0, 0) ?m"
  have ext: "extents A ?tot extent (map ?p cs) = sum_list (map (child_extent A children extent) cs)" for cs
    by (simp add: extents_def child_extent_def [abs_def] comp_def)
  have dr: "\<forall>c \<in> set (map ?p cs). stack_inside A ?tot extent c" if "set cs \<subseteq> set children" for cs
    using assms(3) fits that by (auto simp: list_all_iff stack_inside_def child_extent_def intro!: render_inside)
  have cs: "children = ?before @ children ! k # ?after" using id_take_nth_drop [OF assms(5)] .
  have "sum_list (map (child_extent A children extent) children) = ?m + (n + ?l)"
    using arg_cong [OF cs, of "\<lambda>cs. sum_list (map (child_extent A children extent) cs)"] by (simp add: n_def)
  then have "window_fits (0, 0) (child_size A extent (?m + (n + ?l)))" using fits by simp
  note w1 = window_fits_split [OF this]
  note w2 = window_fits_split [OF w1(2)]
  have split: "map ?p children = map ?p ?before @ ?p (children ! k) # map ?p ?after"
    using arg_cong [OF cs, of "map ?p"] by simp
  have R: "render_stack A ?tot extent (map ?p ?before @ ?p (children ! k) # map ?p ?after) v (0, 0) (r, t) = Inr (r', t')"
    using assms(7) by (simp only: render.simps split)
  have z: "axis_extent A (0, 0) < 2 ^ 64" by (cases A) simp_all
  obtain r1 t1 r2 t2 where 1: "render_stack A ?tot extent (map ?p ?before) v (0, 0) (r, t) = Inr (r1, t1)"
    and 2: "render (children ! k) w (child_size A extent n) (r1, t1) = Inr (r2, t2)"
    and 3: "render_stack A ?tot extent (map ?p ?after) v (advance A ?pos n) (r2, t2) = Inr (r', t')"
    using R assms(6)
    by (auto simp: render_stack_append [OF z] ext Let_def child_extent_def [symmetric] n_def w_def child_window_def split: sum.splits)
  have "cell_of r1 i = cell_of r i \<and> cell_of r' i = cell_of r2 i" if i: "i \<in> view_cells w" for i
  proof -
    have wf: "window_fits ?pos (child_size A extent (child_extent A children extent (children ! k)))" using w2(1) by (simp add: n_def)
    obtain y x where xy: "i = v_index v y x" "x < v_cols v" "y < v_rows v"
      using subsetD [OF subraster_cells [OF wf] i [unfolded w_def child_window_def]] by (auto simp: view_cells_def)
    have in_w: "axis_extent A ?pos \<le> axis_extent A (x, y) \<and> axis_extent A (x, y) < axis_extent A ?pos + n"
      using i unfolding w_def n_def child_window_def xy(1) by (rule window_axis) (use xy assms(4) wf in auto)
    show ?thesis
      using render_stack_region [OF dr 1 xy(2,3) assms(4)] render_stack_region [OF dr 3 xy(2,3) assms(4)] in_w w1 w2
      unfolding xy(1) by (auto simp: ext set_take_subset set_drop_subset)
  qed
  with 2 show ?thesis by blast
qed

theorem stack_child_window_witness:
  "\<exists>r1 t1 r2 t2 r' t'. render (Stack Axis_row [hfill 2 7, hfill 1 8]) (raster_view (new_raster 6 2)) (6, 2) (new_raster 6 2, new_glyph_table) = Inr (r', t')
    \<and> render (hfill 1 8) (subraster (raster_view (new_raster 6 2)) (2, 0) (1, 2)) (1, 2) (r1, t1) = Inr (r2, t2)
    \<and> (\<forall>i \<in> view_cells (subraster (raster_view (new_raster 6 2)) (2, 0) (1, 2)).
         cell_of r1 i = cell_of (new_raster 6 2) i \<and> cell_of r' i = cell_of r2 i)"
proof -
  let ?cs = "[hfill 2 7, hfill 1 8]" and ?v = "raster_view (new_raster 6 2)"
  have a: "all_leaves drawing (Stack Axis_row ?cs)" by (simp add: hfill_def strip.drawing_axioms)
  have s: "v_cols ?v \<le> v_stride ?v" by (simp add: raster_view_def)
  have e: "child_extent Axis_row ?cs (6, 2) (hfill 2 7) = 2" "child_extent Axis_row ?cs (6, 2) (hfill 1 8) = 1"
    by (simp_all add: child_extent_def hfill_def total_hint_def add_hint_def no_hint_def fixed_hint_def allocate_main_extent_def)
  then have n: "0 < child_extent Axis_row ?cs (6, 2) (?cs ! 1)" and w: "child_window Axis_row ?cs (6, 2) 1 ?v = subraster ?v (2, 0) (1, 2)"
    by (simp_all add: child_window_def sz_add_def) (simp add: numeral_2_eq_2)
  have f: "sizes_fit (Stack Axis_row ?cs) (6, 2)" using e by (simp add: hfill_def window_fits_def)
  obtain r' t' where "render (Stack Axis_row ?cs) ?v (6, 2) (new_raster 6 2, new_glyph_table) = Inr (r', t')"
    by (simp add: hfill_def strip_draw_def total_hint_def add_hint_def no_hint_def fixed_hint_def allocate_main_extent_def)
  with stack_child_window [OF a s _ n this f] w e(2) show ?thesis by auto
qed

section \<open>A text shows all of itself\<close>

lemma display_from_clusters: "display_from U str b acc = acc + sum_list (map (cluster_width U) (clusters_from U str b))"
proof (induction U str b acc rule: display_from.induct)
  case (1 U str b acc)
  show ?case
  proof (cases "b < length str")
    case True
    then show ?thesis using 1 by (subst display_from.simps) (simp add: Let_def clusters_from_step)
  next
    case False
    then show ?thesis by (subst display_from.simps) (simp add: clusters_from_end)
  qed
qed

lemma cluster_width_pos: "1 \<le> cluster_width U g"
  unfolding cluster_width_def by (rule width_from_pos)

lemma fitted_all: "sum_list (map wd gs) \<le> room \<Longrightarrow> \<forall>g. 1 \<le> wd g \<Longrightarrow> fitted wd room gs = gs"
proof (induction gs arbitrary: room)
  case (Cons g gs)
  have "1 \<le> wd g" using Cons.prems(2) by blast
  then have "\<not> (room = 0 \<or> wd g > room)" using Cons.prems(1) by simp
  moreover have "sum_list (map wd gs) \<le> room - wd g" using Cons.prems(1) by simp
  ultimately show ?case using Cons.IH Cons.prems(2) by simp
qed simp

lemma length_text_cells: "\<forall>g. 1 \<le> wd g \<Longrightarrow> length (text_cells wd gs) = sum_list (map wd gs)"
proof (induction gs)
  case (Cons g gs)
  have "1 \<le> wd g" using Cons.prems by blast
  then obtain k where "wd g = Suc k" using not0_implies_Suc [of "wd g"] by auto
  then show ?case using Cons by (simp add: text_cells_def)
qed (simp add: text_cells_def)

lemma style_cells_glyphs: "ra_glyphs (fold (\<lambda>x. style_cell v style (x, y)) xs r) = ra_glyphs r"
  by (induction xs arbitrary: r) (simp_all add: style_cell_def set_fg_def set_bg_def set_em_def Let_def)

lemma fold_update_in: "j \<in> set is \<Longrightarrow> j < length xs \<Longrightarrow> fold (\<lambda>i a. a[i := x]) is xs ! j = x"
proof (induction "is" arbitrary: xs)
  case (Cons i js)
  then show ?case by (cases "j \<in> set js") (auto simp: fold_update(2))
qed simp

lemma flat_row: "x < v_cols v \<Longrightarrow> 0 < v_rows v \<Longrightarrow> v_index v 0 x \<in> set (flat_indices v)"
  unfolding flat_indices_def set_map by (rule image_eqI [of _ _ x]) (auto intro: less_le_trans)

lemma clear_line_glyphs: "ra_glyphs (tui_clear_line v style r) = ra_glyphs (fill_glyphs v 32 r)"
  by (simp add: tui_clear_line_def Let_def fill_fgs_def fill_bgs_def fill_ems_def)

lemma clear_line_row:
  assumes "view_ok v r" "0 < v_rows v" "x < v_cols v"
  shows "ra_glyphs (tui_clear_line v style r) ! v_index v 0 x = 32"
proof -
  have "v_index v 0 x < v_index v 0 (v_cols v)" using assms(3) by (simp add: v_index_def)
  also have "\<dots> \<le> length (ra_glyphs r)" using assms(1,2) by (simp add: view_ok_def)
  finally have "v_index v 0 x < length (ra_glyphs r)" .
  then show ?thesis using fold_update_in [OF flat_row [OF assms(3,2)], of "ra_glyphs r" 32]
    by (simp add: clear_line_glyphs fill_glyphs_def)
qed

lemma clear_line_view: "view_ok v r \<Longrightarrow> view_ok v (tui_clear_line v style r)"
  by (simp add: view_ok_def clear_line_glyphs fill_glyphs_def fold_update(1))

lemma nth_placed: "s + length ids \<le> length xs \<Longrightarrow> s + k < length xs \<Longrightarrow> placed s ids xs ! (s + k) = (if k < length ids then ids ! k else xs ! (s + k))"
  by (auto simp: placed_def nth_append min_def)

text \<open>C23. A text shows all of itself in any window at least as wide as its width hint: its clusters from the first cell on,
  each in the cells of its width, and blanks up to the end of the line; ids handed out before keep their text.\<close>

theorem text_shows_all:
  assumes "gt_ok t" "gt_size t + 2 * length str < 2 ^ 32" "view_ok v r" "0 < v_rows v"
    "\<forall>g \<in> set (clusters_from U str 0). length g \<le> 255" "h_min (width_hint (text_layout U str style)) \<le> v_cols v"
  shows "\<exists>r' t'. render (text_layout U str style) v extent (r, t) = Inr (r', t') \<and> gt_grows t t'
    \<and> map (\<lambda>x. glyph_text t' (ra_glyphs r' ! v_index v 0 x)) [0..<v_cols v] =
        text_cells (cluster_width U) (clusters_from U str 0) @ replicate (v_cols v - display_width U str) [0x20]"
proof -
  let ?r = "tui_clear_line v style r" and ?cs = "clusters_from U str 0" and ?wd = "cluster_width U"
  let ?s = "v_index v 0 0"
  have w: "display_width U str = sum_list (map ?wd ?cs)" by (simp add: display_width_def display_from_clusters)
  then have room: "sum_list (map ?wd ?cs) \<le> v_cols v" using assms(6) by (simp add: text_layout_def line_text_def fixed_hint_def)
  obtain ids t' where L: "write_loop U v 0 str 0 0 (?r, t) = Inr (length ids, ?r\<lparr>ra_glyphs := placed ?s ids (ra_glyphs ?r)\<rparr>, t')"
    "length ids \<le> v_cols v" "gt_grows t t'" "map (glyph_text t') ids = text_cells ?wd ?cs"
    using write_loop_spec [OF assms(1) _ clear_line_view [OF assms(3)] assms(4) _ assms(5), of 0 style] assms(2)
      fitted_all [OF room] cluster_width_pos
    by (auto simp: ids_show_def)
  let ?r' = "fold (\<lambda>x. style_cell v style (x, 0)) [0..<length ids] (?r\<lparr>ra_glyphs := placed ?s ids (ra_glyphs ?r)\<rparr>)"
  have R: "render (text_layout U str style) v extent (r, t) = Inr (?r', t')"
    using L(1) assms(4) by (simp add: text_layout_def line_text_def line_draw_def tui_render_line_def render_span_def drop_column_def write_text_def)
  have top: "?s + v_cols v \<le> length (ra_glyphs ?r)"
    using clear_line_view [OF assms(3), of style] assms(4) by (fastforce simp: view_ok_def v_index_def)
  have n: "length ids = display_width U str"
    using arg_cong [OF L(4), of length] length_text_cells [of ?wd ?cs] cluster_width_pos by (simp add: w)
  have cell: "ra_glyphs ?r' ! v_index v 0 x = (ids @ replicate (v_cols v - length ids) 32) ! x" if "x < v_cols v" for x
    using that nth_placed [of ?s ids "ra_glyphs ?r" x] clear_line_row [OF assms(3,4) that] top L(2)
    by (simp add: style_cells_glyphs v_index_def nth_append)
  have "map (\<lambda>x. glyph_text t' (ra_glyphs ?r' ! v_index v 0 x)) [0..<v_cols v] =
      map (glyph_text t') (map ((!) (ids @ replicate (v_cols v - length ids) 32)) [0..<v_cols v])"
    by (simp add: cell)
  also have "\<dots> = map (glyph_text t') (ids @ replicate (v_cols v - length ids) 32)"
    using map_nth [of "ids @ replicate (v_cols v - length ids) 32"] L(2) by simp
  also have "\<dots> = text_cells ?wd ?cs @ replicate (v_cols v - display_width U str) [0x20]"
    using L(3,4) n by (simp add: gt_grows_def space_text)
  finally show ?thesis using R L(3) by blast
qed

theorem text_shows_all_witness:
  "\<exists>r' t'. render (text_layout sample_table [0x41, 0x42] plain_style) (raster_view (new_raster 4 2)) (4, 1) (new_raster 4 2, new_glyph_table) = Inr (r', t')
    \<and> gt_grows new_glyph_table t'
    \<and> map (\<lambda>x. glyph_text t' (ra_glyphs r' ! x)) [0..<4] = [[0x41], [0x42], [0x20], [0x20]]"
proof -
  have cs: "clusters_from sample_table [0x41, 0x42] 0 = [[0x41], [0x42]]" by code_simp
  have tc: "text_cells (cluster_width sample_table) [[0x41], [0x42]] = [[0x41], [0x42]]" by code_simp
  have dw: "display_width sample_table [0x41, 0x42] = 2" by code_simp
  have "gt_size new_glyph_table + 2 * length [0x41 :: byte, 0x42] < 2 ^ 32" by (simp add: new_glyph_table_eq gt_size_def)
  moreover have "view_ok (raster_view (new_raster 4 2)) (new_raster 4 2)" "0 < v_rows (raster_view (new_raster 4 2))"
    by (simp_all add: view_ok_def raster_view_def new_raster_def v_index_def less_2_cases_iff)
  moreover have "v_index (raster_view (new_raster 4 2)) 0 x = x" "v_cols (raster_view (new_raster 4 2)) = 4" for x
    by (simp_all add: raster_view_def new_raster_def v_index_def)
  moreover have "replicate 2 [0x20 :: byte] = [[0x20], [0x20]]" by (simp add: numeral_2_eq_2)
  ultimately show ?thesis
    using text_shows_all [OF new_glyph_table_ok, of "[0x41, 0x42]" "raster_view (new_raster 4 2)" "new_raster 4 2" sample_table plain_style "(4, 1)"]
    by (simp add: cs tc dw text_layout_def line_text_def fixed_hint_def)
qed

end
