(* ===== verification/X25519.thy ===== *)
theory X25519
  imports Nxt_Prelude
begin

text \<open>
  The key exchange of \<^verbatim>\<open>nxt/crypto/x25519.cpp\<close>: arithmetic modulo \<open>2\<^sup>2\<^sup>5\<^sup>5 - 19\<close> on five limbs of 51 bits, the
  Montgomery ladder and the scalar multiplication of RFC 7748.
\<close>

section \<open>Model\<close>

type_synonym u128 = "128 word"

record fe =
  v0 :: u64
  v1 :: u64
  v2 :: u64
  v3 :: u64
  v4 :: u64

abbreviation fe_of :: "u64 \<Rightarrow> u64 \<Rightarrow> u64 \<Rightarrow> u64 \<Rightarrow> u64 \<Rightarrow> fe" where
  "fe_of a b c d e \<equiv> \<lparr>v0 = a, v1 = b, v2 = c, v3 = d, v4 = e\<rparr>"

definition MASK51 :: u64 where "MASK51 = push_bit 51 1 - 1"

definition load64_le :: "bytes \<Rightarrow> u64" where
  "load64_le p = foldl (\<lambda>out i. out OR push_bit (8 * i) (ucast (p ! i))) 0 [0..<8]"

definition store64_le :: "u64 \<Rightarrow> bytes" where
  "store64_le value = map (\<lambda>i. ucast (drop_bit (8 * i) value)) [0..<8]"

definition fe_from_bytes :: "bytes \<Rightarrow> fe" where
  "fe_from_bytes b = fe_of
     (load64_le (drop 0 b) AND MASK51)
     (drop_bit 3 (load64_le (drop 6 b)) AND MASK51)
     (drop_bit 6 (load64_le (drop 12 b)) AND MASK51)
     (drop_bit 1 (load64_le (drop 19 b)) AND MASK51)
     (drop_bit 12 (load64_le (drop 24 b)) AND MASK51)"

text \<open>The carries and the conditional subtraction of \<^verbatim>\<open>fe_to_bytes\<close>, and its four output words.\<close>

definition carry_limbs :: "fe \<Rightarrow> fe" where
  "carry_limbs t =
     (let c = drop_bit 51 (v0 t); t = t\<lparr>v0 := v0 t AND MASK51, v1 := v1 t + c\<rparr>;
          c = drop_bit 51 (v1 t); t = t\<lparr>v1 := v1 t AND MASK51, v2 := v2 t + c\<rparr>;
          c = drop_bit 51 (v2 t); t = t\<lparr>v2 := v2 t AND MASK51, v3 := v3 t + c\<rparr>;
          c = drop_bit 51 (v3 t); t = t\<lparr>v3 := v3 t AND MASK51, v4 := v4 t + c\<rparr>;
          c = drop_bit 51 (v4 t)
      in t\<lparr>v4 := v4 t AND MASK51, v0 := v0 t + 19 * c\<rparr>)"

definition minus_p :: "fe \<Rightarrow> fe" where
  "minus_p t =
     (let g0 = v0 t + 19; c = drop_bit 51 g0; g0 = g0 AND MASK51;
          g1 = v1 t + c; c = drop_bit 51 g1; g1 = g1 AND MASK51;
          g2 = v2 t + c; c = drop_bit 51 g2; g2 = g2 AND MASK51;
          g3 = v3 t + c; c = drop_bit 51 g3; g3 = g3 AND MASK51;
          g4 = v4 t + c - push_bit 51 1
      in fe_of g0 g1 g2 g3 g4)"

definition pick_limb :: "u64 \<Rightarrow> u64 \<Rightarrow> u64 \<Rightarrow> u64" where
  "pick_limb m t g = (t AND NOT m) OR (g AND m)"

definition select_limbs :: "fe \<Rightarrow> fe \<Rightarrow> fe" where
  "select_limbs t g =
     (let m = drop_bit 63 (v4 g) - 1; g = g\<lparr>v4 := v4 g AND MASK51\<rparr>
      in fe_of (pick_limb m (v0 t) (v0 g)) (pick_limb m (v1 t) (v1 g)) (pick_limb m (v2 t) (v2 g))
           (pick_limb m (v3 t) (v3 g)) (pick_limb m (v4 t) (v4 g)))"

definition limb_words :: "fe \<Rightarrow> u64 list" where
  "limb_words t =
    [v0 t OR push_bit 51 (v1 t),
     drop_bit 13 (v1 t) OR push_bit 38 (v2 t),
     drop_bit 26 (v2 t) OR push_bit 25 (v3 t),
     drop_bit 39 (v3 t) OR push_bit 12 (v4 t)]"

definition fe_to_bytes :: "fe \<Rightarrow> bytes" where
  "fe_to_bytes f = (let t = carry_limbs f; t = select_limbs t (minus_p t) in concat (map store64_le (limb_words t)))"

definition fe_add :: "fe \<Rightarrow> fe \<Rightarrow> fe" where
  "fe_add a b = fe_of (v0 a + v0 b) (v1 a + v1 b) (v2 a + v2 b) (v3 a + v3 b) (v4 a + v4 b)"

definition fe_sub :: "fe \<Rightarrow> fe \<Rightarrow> fe" where
  "fe_sub a b = fe_of (v0 a + 0xFFFFFFFFFFFDA - v0 b) (v1 a + 0xFFFFFFFFFFFFE - v1 b) (v2 a + 0xFFFFFFFFFFFFE - v2 b)
     (v3 a + 0xFFFFFFFFFFFFE - v3 b) (v4 a + 0xFFFFFFFFFFFFE - v4 b)"

abbreviation wide :: "u64 \<Rightarrow> u128" where "wide \<equiv> ucast"
abbreviation narrow :: "u128 \<Rightarrow> u64" where "narrow \<equiv> ucast"

text \<open>The carry chain that ends \<^verbatim>\<open>fe_mul\<close> and \<^verbatim>\<open>fe_mul121665\<close>.\<close>

definition fe_carry :: "u128 \<Rightarrow> u128 \<Rightarrow> u128 \<Rightarrow> u128 \<Rightarrow> u128 \<Rightarrow> fe" where
  "fe_carry r0 r1 r2 r3 r4 =
     (let c = narrow (drop_bit 51 r0); l0 = narrow r0 AND MASK51; r1 = r1 + wide c;
          c = narrow (drop_bit 51 r1); l1 = narrow r1 AND MASK51; r2 = r2 + wide c;
          c = narrow (drop_bit 51 r2); l2 = narrow r2 AND MASK51; r3 = r3 + wide c;
          c = narrow (drop_bit 51 r3); l3 = narrow r3 AND MASK51; r4 = r4 + wide c;
          c = narrow (drop_bit 51 r4); l4 = narrow r4 AND MASK51; l0 = l0 + 19 * c;
          c = drop_bit 51 l0; l0 = l0 AND MASK51; l1 = l1 + c
      in fe_of l0 l1 l2 l3 l4)"

definition fe_mul :: "fe \<Rightarrow> fe \<Rightarrow> fe" where
  "fe_mul a b =
     (let r0 = wide (v0 a) * wide (v0 b) + 19 * wide (v1 a) * wide (v4 b) + 19 * wide (v2 a) * wide (v3 b)
             + 19 * wide (v3 a) * wide (v2 b) + 19 * wide (v4 a) * wide (v1 b);
          r1 = wide (v0 a) * wide (v1 b) + wide (v1 a) * wide (v0 b) + 19 * wide (v2 a) * wide (v4 b)
             + 19 * wide (v3 a) * wide (v3 b) + 19 * wide (v4 a) * wide (v2 b);
          r2 = wide (v0 a) * wide (v2 b) + wide (v1 a) * wide (v1 b) + wide (v2 a) * wide (v0 b)
             + 19 * wide (v3 a) * wide (v4 b) + 19 * wide (v4 a) * wide (v3 b);
          r3 = wide (v0 a) * wide (v3 b) + wide (v1 a) * wide (v2 b) + wide (v2 a) * wide (v1 b)
             + wide (v3 a) * wide (v0 b) + 19 * wide (v4 a) * wide (v4 b);
          r4 = wide (v0 a) * wide (v4 b) + wide (v1 a) * wide (v3 b) + wide (v2 a) * wide (v2 b)
             + wide (v3 a) * wide (v1 b) + wide (v4 a) * wide (v0 b)
      in fe_carry r0 r1 r2 r3 r4)"

definition fe_sq :: "fe \<Rightarrow> fe" where "fe_sq a = fe_mul a a"

definition fe_mul121665 :: "fe \<Rightarrow> fe" where
  "fe_mul121665 a = fe_carry (wide (v0 a) * 121665) (wide (v1 a) * 121665) (wide (v2 a) * 121665) (wide (v3 a) * 121665)
     (wide (v4 a) * 121665)"

definition swap_limb :: "u64 \<Rightarrow> u64 \<Rightarrow> u64 \<Rightarrow> u64 \<times> u64" where
  "swap_limb m a b = (let t = m AND (a XOR b) in (a XOR t, b XOR t))"

definition fe_cswap :: "fe \<Rightarrow> fe \<Rightarrow> u64 \<Rightarrow> fe \<times> fe" where
  "fe_cswap a b swap =
     (let m = 0 - swap;
          (a0, b0) = swap_limb m (v0 a) (v0 b); (a1, b1) = swap_limb m (v1 a) (v1 b);
          (a2, b2) = swap_limb m (v2 a) (v2 b); (a3, b3) = swap_limb m (v3 a) (v3 b);
          (a4, b4) = swap_limb m (v4 a) (v4 b)
      in (fe_of a0 a1 a2 a3 a4, fe_of b0 b1 b2 b3 b4))"

text \<open>\<^verbatim>\<open>for (int i = 1; i < n; i++) t = fe_sq(t);\<close>\<close>

definition sq_loop :: "nat \<Rightarrow> fe \<Rightarrow> fe" where
  "sq_loop n t = fold (\<lambda>i t. fe_sq t) [1..<n] t"

definition fe_invert :: "fe \<Rightarrow> fe" where
  "fe_invert z =
     (let z2 = fe_sq z;
          t = fe_sq z2; t = fe_sq t;
          z9 = fe_mul t z;
          z11 = fe_mul z9 z2;
          t = fe_sq z11;
          z2_5_0 = fe_mul t z9;
          t = sq_loop 5 (fe_sq z2_5_0);
          z2_10_0 = fe_mul t z2_5_0;
          t = sq_loop 10 (fe_sq z2_10_0);
          z2_20_0 = fe_mul t z2_10_0;
          t = sq_loop 20 (fe_sq z2_20_0);
          t = fe_mul t z2_20_0;
          t = sq_loop 10 (fe_sq t);
          z2_50_0 = fe_mul t z2_10_0;
          t = sq_loop 50 (fe_sq z2_50_0);
          z2_100_0 = fe_mul t z2_50_0;
          t = sq_loop 100 (fe_sq z2_100_0);
          t = fe_mul t z2_100_0;
          t = sq_loop 50 (fe_sq t);
          t = fe_mul t z2_50_0;
          t = fe_sq t; t = fe_sq t; t = fe_sq t; t = fe_sq t; t = fe_sq t
      in fe_mul t z11)"

definition fe_zero :: fe where "fe_zero = fe_of 0 0 0 0 0"
definition fe_one :: fe where "fe_one = fe_of 1 0 0 0 0"

definition clamp_scalar :: "bytes \<Rightarrow> bytes" where
  "clamp_scalar scalar =
     (let e = scalar[0 := scalar ! 0 AND 248]; e = e[31 := e ! 31 AND 127] in e[31 := e ! 31 OR 64])"

definition scalar_bit :: "bytes \<Rightarrow> nat \<Rightarrow> u64" where
  "scalar_bit e t = drop_bit (t mod 8) (ucast (e ! (t div 8))) AND 1"

record ladder =
  l_x2 :: fe
  l_z2 :: fe
  l_x3 :: fe
  l_z3 :: fe
  l_swap :: u64

text \<open>The two swaps, and the step of the ladder after them.\<close>

definition ladder_swap :: "u64 \<Rightarrow> ladder \<Rightarrow> ladder" where
  "ladder_swap swap s =
     (let (x2, x3) = fe_cswap (l_x2 s) (l_x3 s) swap; (z2, z3) = fe_cswap (l_z2 s) (l_z3 s) swap
      in s\<lparr>l_x2 := x2, l_x3 := x3, l_z2 := z2, l_z3 := z3\<rparr>)"

definition ladder_add :: "fe \<Rightarrow> ladder \<Rightarrow> ladder" where
  "ladder_add x1 s =
     (let x2 = l_x2 s; z2 = l_z2 s; x3 = l_x3 s; z3 = l_z3 s;
          A = fe_add x2 z2; AA = fe_sq A; B = fe_sub x2 z2; BB = fe_sq B; E = fe_sub AA BB;
          C = fe_add x3 z3; D = fe_sub x3 z3; DA = fe_mul D A; CB = fe_mul C B;
          t0 = fe_add DA CB; x3 = fe_sq t0; t1 = fe_sub DA CB; z3 = fe_mul (fe_sq t1) x1;
          x2 = fe_mul AA BB; t2 = fe_mul121665 E; t3 = fe_add AA t2; z2 = fe_mul E t3
      in s\<lparr>l_x2 := x2, l_z2 := z2, l_x3 := x3, l_z3 := z3\<rparr>)"

definition ladder_step :: "fe \<Rightarrow> bytes \<Rightarrow> nat \<Rightarrow> ladder \<Rightarrow> ladder" where
  "ladder_step x1 e t s =
     (let b = scalar_bit e t; swap = l_swap s XOR b; s = ladder_swap swap s in ladder_add x1 (s\<lparr>l_swap := b\<rparr>))"

definition ladder_init :: "fe \<Rightarrow> ladder" where
  "ladder_init x1 = \<lparr>l_x2 = fe_one, l_z2 = fe_zero, l_x3 = x1, l_z3 = fe_one, l_swap = 0\<rparr>"

definition x25519_result :: "bytes \<Rightarrow> bytes \<Rightarrow> fe" where
  "x25519_result scalar point =
     (let e = clamp_scalar scalar; x1 = fe_from_bytes point;
          s = fold (ladder_step x1 e) (rev [0..<255]) (ladder_init x1);
          s = ladder_swap (l_swap s) s
      in fe_mul (l_x2 s) (fe_invert (l_z2 s)))"

definition x25519_raw :: "bytes \<Rightarrow> bytes \<Rightarrow> bytes" where
  "x25519_raw scalar point = fe_to_bytes (x25519_result scalar point)"

definition is_all_zero :: "bytes \<Rightarrow> bool" where
  "is_all_zero value = (foldl (OR) 0 value = 0)"

record x25519_key_pair =
  kp_public :: bytes
  kp_secret :: bytes

definition x25519_keygen :: "bytes \<Rightarrow> x25519_key_pair" where
  "x25519_keygen random = \<lparr>kp_public = x25519_raw random (9 # replicate 31 0), kp_secret = random\<rparr>"

definition require_x25519_size :: "bytes \<Rightarrow> string \<Rightarrow> crypto_error + unit" where
  "require_x25519_size value name = (if length value \<noteq> 32 then Inl (crypto_error name) else Inr ())"

definition x25519dh :: "bytes \<Rightarrow> bytes \<Rightarrow> crypto_error + bytes option" where
  "x25519dh secret_key peer_public_key =
     (case require_x25519_size secret_key ''X25519 secret key must be 32 bytes'' of
        Inl e \<Rightarrow> Inl e
      | Inr u \<Rightarrow>
          (case require_x25519_size peer_public_key ''X25519 public key must be 32 bytes'' of
             Inl e \<Rightarrow> Inl e
           | Inr u \<Rightarrow>
               (let out = x25519_raw secret_key peer_public_key in if is_all_zero out then Inr None else Inr (Some out))))"

definition x25519_dh :: "bytes \<Rightarrow> bytes \<Rightarrow> crypto_error + bytes option" where
  "x25519_dh secret_key peer_public_key = x25519dh secret_key peer_public_key"

section \<open>Words as integers\<close>

lemma add64: "uint (x :: u64) + uint y < 2 ^ 64 \<Longrightarrow> uint (x + y) = uint x + uint y"
  using uint_add_lem [of x y] by simp

lemma add128: "uint (x :: u128) + uint y < 2 ^ 128 \<Longrightarrow> uint (x + y) = uint x + uint y"
  using uint_add_lem [of x y] by simp

lemma mult64: "uint (x :: u64) * uint y < 2 ^ 64 \<Longrightarrow> uint (x * y) = uint x * uint y"
  using uint_mult_lem [of x y] by simp

lemma mult128: "uint (x :: u128) * uint y < 2 ^ 128 \<Longrightarrow> uint (x * y) = uint x * uint y"
  using uint_mult_lem [of x y] by simp

lemma sub64: "uint y \<le> uint (x :: u64) \<Longrightarrow> uint (x - y) = uint x - uint y"
  using uint_sub_lem [of y x] by simp

lemma drop64: "uint (drop_bit n (x :: u64)) = uint x div 2 ^ n"
proof -
  have "take_bit 64 (uint x) = uint x" using uint_lt2p [of x] by (intro take_bit_int_eq_self) simp_all
  then show ?thesis using unsigned_drop_bit_eq [of n x, where ?'a = int] drop_bit_eq_div [of n "uint x"] by simp
qed

lemma drop128: "uint (drop_bit n (x :: u128)) = uint x div 2 ^ n"
proof -
  have "take_bit 128 (uint x) = uint x" using uint_lt2p [of x] by (intro take_bit_int_eq_self) simp_all
  then show ?thesis using unsigned_drop_bit_eq [of n x, where ?'a = int] drop_bit_eq_div [of n "uint x"] by simp
qed

lemma wide_uint: "uint (wide x) = uint x"
proof -
  have "uint x < 2 ^ 64" using uint_lt2p [of x] by simp
  then show ?thesis by (simp add: unsigned_ucast_eq take_bit_eq_mod)
qed

lemma narrow_uint: "uint (narrow x) = uint x mod 2 ^ 64"
  by (simp add: unsigned_ucast_eq take_bit_eq_mod)

lemma MASK51_mask: "MASK51 = mask 51"
  by (simp add: MASK51_def mask_eq_exp_minus_1)

lemma low51: "uint (x AND MASK51) = uint x mod 2 ^ 51"
  by (simp only: MASK51_mask take_bit_eq_mask [symmetric] unsigned_take_bit_eq) (simp add: take_bit_eq_mod)

lemma mod_narrow: "uint x < 2 ^ 115 \<Longrightarrow> uint (narrow (drop_bit 51 x)) = uint x div 2 ^ 51"
proof -
  assume "uint x < 2 ^ 115"
  then have "uint x div 2 ^ 51 < 2 ^ 64" by (simp add: div_less_iff_less_mult)
  moreover have "0 \<le> uint x div 2 ^ 51" by (simp add: pos_imp_zdiv_nonneg_iff)
  ultimately show ?thesis unfolding narrow_uint drop128 by (rule mod_pos_pos_trivial [rotated])
qed

lemma low_narrow: "uint (narrow x AND MASK51) = uint x mod 2 ^ 51"
  by (simp add: low51 narrow_uint mod_mod_cancel)

section \<open>Field elements\<close>

definition P25519 :: int where "P25519 = 2 ^ 255 - 19"

definition fe_val :: "fe \<Rightarrow> int" where
  "fe_val f = uint (v0 f) + 2 ^ 51 * uint (v1 f) + 2 ^ 102 * uint (v2 f) + 2 ^ 153 * uint (v3 f) + 2 ^ 204 * uint (v4 f)"

text \<open>The limbs of a product, and limbs that may be multiplied.\<close>

definition fe_reduced :: "fe \<Rightarrow> bool" where
  "fe_reduced f \<longleftrightarrow> uint (v0 f) < 2 ^ 51 \<and> uint (v1 f) < 2 ^ 51 + 2 ^ 13 \<and> uint (v2 f) < 2 ^ 51 \<and> uint (v3 f) < 2 ^ 51 \<and> uint (v4 f) < 2 ^ 51"

definition fe_loose :: "fe \<Rightarrow> bool" where
  "fe_loose f \<longleftrightarrow> uint (v0 f) < 2 ^ 54 \<and> uint (v1 f) < 2 ^ 54 \<and> uint (v2 f) < 2 ^ 54 \<and> uint (v3 f) < 2 ^ 54 \<and> uint (v4 f) < 2 ^ 54"

lemma split51:
  obtains q m where "x div 2 ^ 51 = q" "x mod 2 ^ 51 = m" "x = 2251799813685248 * q + m" "0 \<le> m" "m < (2251799813685248 :: int)"
    "0 \<le> x \<Longrightarrow> 0 \<le> q"
proof -
  have "x = 2251799813685248 * (x div 2 ^ 51) + x mod 2 ^ 51" "0 \<le> x mod 2 ^ 51" "x mod 2 ^ 51 < (2251799813685248 :: int)" by simp_all
  moreover have "0 \<le> x \<Longrightarrow> 0 \<le> x div 2 ^ 51" by (simp add: pos_imp_zdiv_nonneg_iff)
  ultimately show ?thesis using that [OF refl refl] by blast
qed

lemma carry_step:
  assumes "uint r < 2 ^ 115" "uint r' + 2 ^ 64 < 2 ^ 128"
  shows "uint (r' + wide (narrow (drop_bit 51 r))) = uint r' + uint r div 2 ^ 51"
proof -
  have d: "uint (wide (narrow (drop_bit 51 r))) = uint r div 2 ^ 51" using assms(1) by (subst wide_uint) (rule mod_narrow)
  have "uint r div 2 ^ 51 < 2 ^ 64" using assms(1) by (simp add: div_less_iff_less_mult)
  then have "uint r' + uint (wide (narrow (drop_bit 51 r))) < 2 ^ 128"
    unfolding d by (rule order_less_trans [OF add_strict_left_mono assms(2)])
  from add128 [OF this] show ?thesis unfolding d .
qed

lemma fe_carry_spec:
  assumes b: "uint r0 < 2 ^ 115 - 2 ^ 64" "uint r1 < 2 ^ 115 - 2 ^ 64" "uint r2 < 2 ^ 115 - 2 ^ 64" "uint r3 < 2 ^ 115 - 2 ^ 64"
    "uint r4 < 5 * 2 ^ 108"
  shows "fe_reduced (fe_carry r0 r1 r2 r3 r4)
    \<and> (\<exists>c. fe_val (fe_carry r0 r1 r2 r3 r4) + P25519 * c =
         uint r0 + 2 ^ 51 * uint r1 + 2 ^ 102 * uint r2 + 2 ^ 153 * uint r3 + 2 ^ 204 * uint r4)"
proof -
  note B = b [simplified]
  have nn: "0 \<le> uint r0" "0 \<le> uint r1" "0 \<le> uint r2" "0 \<le> uint r3" "0 \<le> uint r4" by simp_all
  define w1 where "w1 = r1 + wide (narrow (drop_bit 51 r0))"
  define w2 where "w2 = r2 + wide (narrow (drop_bit 51 w1))"
  define w3 where "w3 = r3 + wide (narrow (drop_bit 51 w2))"
  define w4 where "w4 = r4 + wide (narrow (drop_bit 51 w3))"
  obtain q0 m0 where s0: "uint r0 div 2 ^ 51 = q0" "uint r0 mod 2 ^ 51 = m0" "uint r0 = 2251799813685248 * q0 + m0" "0 \<le> m0" "m0 < 2251799813685248"
    by (rule split51 [of "uint r0"])
  have u1: "uint w1 = uint r1 + q0" unfolding w1_def s0(1) [symmetric] by (rule carry_step) (use B in simp_all)
  have b1: "uint r1 + q0 < 2 ^ 115" using B(1,2) s0(3-5) by simp
  obtain q1 m1 where s1: "uint w1 div 2 ^ 51 = q1" "uint w1 mod 2 ^ 51 = m1" "uint w1 = 2251799813685248 * q1 + m1" "0 \<le> m1" "m1 < 2251799813685248"
    by (rule split51 [of "uint w1"])
  have u2: "uint w2 = uint r2 + q1" unfolding w2_def s1(1) [symmetric] by (rule carry_step) (use B b1 u1 in simp_all)
  have b2: "uint r2 + q1 < 2 ^ 115" using B(3) b1 u1 s1(3-5) by simp
  obtain q2 m2 where s2: "uint w2 div 2 ^ 51 = q2" "uint w2 mod 2 ^ 51 = m2" "uint w2 = 2251799813685248 * q2 + m2" "0 \<le> m2" "m2 < 2251799813685248"
    by (rule split51 [of "uint w2"])
  have u3: "uint w3 = uint r3 + q2" unfolding w3_def s2(1) [symmetric] by (rule carry_step) (use B b2 u2 in simp_all)
  have b3: "uint r3 + q2 < 2 ^ 115" using B(4) b2 u2 s2(3-5) by simp
  obtain q3 m3 where s3: "uint w3 div 2 ^ 51 = q3" "uint w3 mod 2 ^ 51 = m3" "uint w3 = 2251799813685248 * q3 + m3" "0 \<le> m3" "m3 < 2251799813685248"
    by (rule split51 [of "uint w3"])
  have u4: "uint w4 = uint r4 + q3" unfolding w4_def s3(1) [symmetric] by (rule carry_step) (use B b3 u3 in simp_all)
  have b4: "uint r4 + q3 < 5 * 2 ^ 108 + 2 ^ 64" using B(5) b3 u3 s3(3-5) by simp
  obtain q4 m4 where s4: "uint w4 div 2 ^ 51 = q4" "uint w4 mod 2 ^ 51 = m4" "uint w4 = 2251799813685248 * q4 + m4" "0 \<le> m4" "m4 < 2251799813685248"
    "0 \<le> q4" using split51 [of "uint w4"] by (metis unsigned_greater_eq)
  define c4 where "c4 = narrow (drop_bit 51 w4)"
  have c4: "uint c4 = q4" unfolding c4_def s4(1) [symmetric] by (rule mod_narrow) (use u4 b4 in simp)
  have c4b: "q4 < 5 * 2 ^ 57 + 2 ^ 14" using s4(3-5) u4 b4 by simp
  define k0 where "k0 = (narrow r0 AND MASK51) + 19 * c4"
  have m: "uint (19 * c4) = 19 * q4" using mult64 [of 19 c4] c4b c4 by simp
  have k0: "uint k0 = m0 + 19 * q4"
    using add64 [of "narrow r0 AND MASK51" "19 * c4", unfolded low_narrow s0 m] c4b s0(4,5) unfolding k0_def by simp
  obtain q5 m5 where s5: "uint k0 div 2 ^ 51 = q5" "uint k0 mod 2 ^ 51 = m5" "uint k0 = 2251799813685248 * q5 + m5" "0 \<le> m5" "m5 < 2251799813685248"
    "0 \<le> q5" using split51 [of "uint k0"] by (metis unsigned_greater_eq)
  have q5: "q5 < 2 ^ 13" using s5(3-5) k0 c4b s0(4,5) by simp
  have k1: "uint ((narrow w1 AND MASK51) + drop_bit 51 k0) = m1 + q5"
    using add64 [of "narrow w1 AND MASK51" "drop_bit 51 k0", unfolded low_narrow drop64 s1(2) s5(1)] q5 s1(4,5) by simp
  have f: "fe_carry r0 r1 r2 r3 r4 = fe_of (k0 AND MASK51) ((narrow w1 AND MASK51) + drop_bit 51 k0) (narrow w2 AND MASK51)
      (narrow w3 AND MASK51) (narrow w4 AND MASK51)"
    by (simp add: fe_carry_def Let_def k0_def c4_def w1_def w2_def w3_def w4_def)
  have "fe_reduced (fe_carry r0 r1 r2 r3 r4)"
    using q5 s1(5) s2(5) s3(5) s4(5) s5(5) unfolding f fe_reduced_def fe.simps k1 low_narrow s2(2) s3(2) s4(2) unfolding low51 s5(2) by simp
  moreover have "fe_val (fe_carry r0 r1 r2 r3 r4) = m5 + 2 ^ 51 * (m1 + q5) + 2 ^ 102 * m2 + 2 ^ 153 * m3 + 2 ^ 204 * m4"
    unfolding f fe_val_def fe.simps k1 low_narrow s2(2) s3(2) s4(2) unfolding low51 s5(2) ..
  then have "fe_val (fe_carry r0 r1 r2 r3 r4) + P25519 * q4 =
      uint r0 + 2 ^ 51 * uint r1 + 2 ^ 102 * uint r2 + 2 ^ 153 * uint r3 + 2 ^ 204 * uint r4"
    using s0(3) s1(3) s2(3) s3(3) s4(3) s5(3) u1 u2 u3 u4 k0 by (simp add: P25519_def)
  ultimately show ?thesis by blast
qed

lemma prod128:
  assumes "uint (a :: u64) < 2 ^ 54" "uint (b :: u64) < 2 ^ 54"
  shows "uint (wide a * wide b) = uint a * uint b" "uint a * uint b < 2 ^ 108"
    "uint (19 * wide a * wide b) = 19 * uint a * uint b" "19 * uint a * uint b < 19 * 2 ^ 108" "0 \<le> uint a * uint b" "0 \<le> 19 * uint a * uint b"
proof -
  have "uint a * uint b < 2 ^ 54 * 2 ^ 54" by (rule mult_strict_mono) (use assms in simp_all)
  then show p: "uint a * uint b < 2 ^ 108" by simp
  then show "19 * uint a * uint b < 19 * 2 ^ 108" by simp
  have "uint a * uint b < 2 ^ 128" by (rule order_less_trans [OF p]) simp
  then show "uint (wide a * wide b) = uint a * uint b" using mult128 [of "wide a" "wide b"] unfolding wide_uint by blast
  have "19 * uint a < 2 ^ 128" using assms(1) by simp
  then have e: "uint (19 * wide a) = 19 * uint a" using mult128 [of 19 "wide a"] by (simp add: wide_uint)
  have "19 * uint a * uint b < 2 ^ 128" using p by simp
  then show "uint (19 * wide a * wide b) = 19 * uint a * uint b" using mult128 [of "19 * wide a" "wide b"] unfolding e wide_uint by blast
qed simp_all

lemma sum5:
  assumes "uint (a :: u128) < 2 ^ 113" "uint (b :: u128) < 2 ^ 113" "uint (c :: u128) < 2 ^ 113" "uint (d :: u128) < 2 ^ 113" "uint (e :: u128) < 2 ^ 113"
  shows "uint (a + b + c + d + e) = uint a + uint b + uint c + uint d + uint e"
proof -
  note B = assms [simplified]
  have 1: "uint (a + b) = uint a + uint b" by (rule add128) (use B in simp)
  have 2: "uint (a + b + c) = uint a + uint b + uint c" using add128 [of "a + b" c] B unfolding 1 by simp
  have 3: "uint (a + b + c + d) = uint a + uint b + uint c + uint d" using add128 [of "a + b + c" d] B unfolding 2 by simp
  show ?thesis using add128 [of "a + b + c + d" e] B unfolding 3 by simp
qed

lemma fe_looseD:
  assumes "fe_loose f"
  shows "uint (v0 f) < 2 ^ 54" "uint (v1 f) < 2 ^ 54" "uint (v2 f) < 2 ^ 54" "uint (v3 f) < 2 ^ 54" "uint (v4 f) < 2 ^ 54"
  using assms by (simp_all add: fe_loose_def)

lemma fe_mul_spec:
  assumes "fe_loose a" "fe_loose b"
  shows "fe_reduced (fe_mul a b) \<and> fe_val (fe_mul a b) mod P25519 = fe_val a * fe_val b mod P25519"
proof -
  note A = fe_looseD [OF assms(1)] and B = fe_looseD [OF assms(2)]
  note P = prod128 [OF A(1) B(1)] prod128 [OF A(1) B(2)] prod128 [OF A(1) B(3)] prod128 [OF A(1) B(4)] prod128 [OF A(1) B(5)]
    prod128 [OF A(2) B(1)] prod128 [OF A(2) B(2)] prod128 [OF A(2) B(3)] prod128 [OF A(2) B(4)] prod128 [OF A(2) B(5)]
    prod128 [OF A(3) B(1)] prod128 [OF A(3) B(2)] prod128 [OF A(3) B(3)] prod128 [OF A(3) B(4)] prod128 [OF A(3) B(5)]
    prod128 [OF A(4) B(1)] prod128 [OF A(4) B(2)] prod128 [OF A(4) B(3)] prod128 [OF A(4) B(4)] prod128 [OF A(4) B(5)]
    prod128 [OF A(5) B(1)] prod128 [OF A(5) B(2)] prod128 [OF A(5) B(3)] prod128 [OF A(5) B(4)] prod128 [OF A(5) B(5)]
  define r0 where "r0 = wide (v0 a) * wide (v0 b) + 19 * wide (v1 a) * wide (v4 b) + 19 * wide (v2 a) * wide (v3 b)
             + 19 * wide (v3 a) * wide (v2 b) + 19 * wide (v4 a) * wide (v1 b)"
  define r1 where "r1 = wide (v0 a) * wide (v1 b) + wide (v1 a) * wide (v0 b) + 19 * wide (v2 a) * wide (v4 b)
             + 19 * wide (v3 a) * wide (v3 b) + 19 * wide (v4 a) * wide (v2 b)"
  define r2 where "r2 = wide (v0 a) * wide (v2 b) + wide (v1 a) * wide (v1 b) + wide (v2 a) * wide (v0 b)
             + 19 * wide (v3 a) * wide (v4 b) + 19 * wide (v4 a) * wide (v3 b)"
  define r3 where "r3 = wide (v0 a) * wide (v3 b) + wide (v1 a) * wide (v2 b) + wide (v2 a) * wide (v1 b)
             + wide (v3 a) * wide (v0 b) + 19 * wide (v4 a) * wide (v4 b)"
  define r4 where "r4 = wide (v0 a) * wide (v4 b) + wide (v1 a) * wide (v3 b) + wide (v2 a) * wide (v2 b)
             + wide (v3 a) * wide (v1 b) + wide (v4 a) * wide (v0 b)"
  have small: "x < 2 ^ 113" if "x < 2 ^ 108 \<or> x < 19 * 2 ^ 108" for x :: int using that by auto
  have s0: "uint r0 = uint (v0 a) * uint (v0 b) + 19 * uint (v1 a) * uint (v4 b) + 19 * uint (v2 a) * uint (v3 b)
             + 19 * uint (v3 a) * uint (v2 b) + 19 * uint (v4 a) * uint (v1 b)"
    unfolding r0_def by (subst sum5) (simp_all only: P small simp_thms)
  have s1: "uint r1 = uint (v0 a) * uint (v1 b) + uint (v1 a) * uint (v0 b) + 19 * uint (v2 a) * uint (v4 b)
             + 19 * uint (v3 a) * uint (v3 b) + 19 * uint (v4 a) * uint (v2 b)"
    unfolding r1_def by (subst sum5) (simp_all only: P small simp_thms)
  have s2: "uint r2 = uint (v0 a) * uint (v2 b) + uint (v1 a) * uint (v1 b) + uint (v2 a) * uint (v0 b)
             + 19 * uint (v3 a) * uint (v4 b) + 19 * uint (v4 a) * uint (v3 b)"
    unfolding r2_def by (subst sum5) (simp_all only: P small simp_thms)
  have s3: "uint r3 = uint (v0 a) * uint (v3 b) + uint (v1 a) * uint (v2 b) + uint (v2 a) * uint (v1 b)
             + uint (v3 a) * uint (v0 b) + 19 * uint (v4 a) * uint (v4 b)"
    unfolding r3_def by (subst sum5) (simp_all only: P small simp_thms)
  have s4: "uint r4 = uint (v0 a) * uint (v4 b) + uint (v1 a) * uint (v3 b) + uint (v2 a) * uint (v2 b)
             + uint (v3 a) * uint (v1 b) + uint (v4 a) * uint (v0 b)"
    unfolding r4_def by (subst sum5) (simp_all only: P small simp_thms)
  have b: "uint r0 < 2 ^ 115 - 2 ^ 64" "uint r1 < 2 ^ 115 - 2 ^ 64" "uint r2 < 2 ^ 115 - 2 ^ 64" "uint r3 < 2 ^ 115 - 2 ^ 64" "uint r4 < 5 * 2 ^ 108"
    unfolding s0 s1 s2 s3 s4 using P(2,4,8,10,14,16,20,22,26,28,32,34,38,40,44,46,50,52,56,58,62,64,68,70,74,76,80,82,86,88,92,94,98,100,104,106,110,112,116,118,122,124,128,130,134,136,140,142,146,148)
    by simp_all
  have m: "fe_mul a b = fe_carry r0 r1 r2 r3 r4" by (simp only: fe_mul_def Let_def r0_def r1_def r2_def r3_def r4_def)
  obtain c where c: "fe_val (fe_mul a b) + P25519 * c = uint r0 + 2 ^ 51 * uint r1 + 2 ^ 102 * uint r2 + 2 ^ 153 * uint r3 + 2 ^ 204 * uint r4"
    and red: "fe_reduced (fe_mul a b)" using fe_carry_spec [OF b] unfolding m by blast
  define K where "K = uint (v1 a) * uint (v4 b) + uint (v2 a) * uint (v3 b) + uint (v3 a) * uint (v2 b) + uint (v4 a) * uint (v1 b)
    + 2 ^ 51 * (uint (v2 a) * uint (v4 b) + uint (v3 a) * uint (v3 b) + uint (v4 a) * uint (v2 b))
    + 2 ^ 102 * (uint (v3 a) * uint (v4 b) + uint (v4 a) * uint (v3 b)) + 2 ^ 153 * (uint (v4 a) * uint (v4 b))"
  have "fe_val a * fe_val b = uint r0 + 2 ^ 51 * uint r1 + 2 ^ 102 * uint r2 + 2 ^ 153 * uint r3 + 2 ^ 204 * uint r4 + P25519 * K"
    unfolding s0 s1 s2 s3 s4 K_def fe_val_def P25519_def by (simp add: algebra_simps)
  also have "\<dots> = fe_val (fe_mul a b) + P25519 * c + P25519 * K" unfolding c ..
  finally have "fe_val a * fe_val b = fe_val (fe_mul a b) + P25519 * (c + K)" by (simp add: distrib_left)
  then have "fe_val a * fe_val b mod P25519 = fe_val (fe_mul a b) mod P25519" by simp
  with red show ?thesis by simp
qed

lemma fe_reduced_loose: "fe_reduced f \<Longrightarrow> fe_loose f"
  by (simp add: fe_reduced_def fe_loose_def)

lemma fe_mul121665_spec:
  assumes "fe_loose a"
  shows "fe_reduced (fe_mul121665 a) \<and> fe_val (fe_mul121665 a) mod P25519 = 121665 * fe_val a mod P25519"
proof -
  note A = fe_looseD [OF assms, simplified]
  have m: "uint (wide x * 121665) = uint x * 121665" if "uint x < 2 ^ 54" for x
    using mult128 [of "wide x" 121665] that by (simp add: wide_uint)
  note M = m [OF fe_looseD(1) [OF assms]] m [OF fe_looseD(2) [OF assms]] m [OF fe_looseD(3) [OF assms]] m [OF fe_looseD(4) [OF assms]]
    m [OF fe_looseD(5) [OF assms]]
  obtain c where c: "fe_val (fe_mul121665 a) + P25519 * c = uint (v0 a) * 121665 + 2 ^ 51 * (uint (v1 a) * 121665)
      + 2 ^ 102 * (uint (v2 a) * 121665) + 2 ^ 153 * (uint (v3 a) * 121665) + 2 ^ 204 * (uint (v4 a) * 121665)"
    and red: "fe_reduced (fe_mul121665 a)"
    using fe_carry_spec [of "wide (v0 a) * 121665" "wide (v1 a) * 121665" "wide (v2 a) * 121665" "wide (v3 a) * 121665" "wide (v4 a) * 121665"] A
    unfolding fe_mul121665_def M by auto
  have "121665 * fe_val a = uint (v0 a) * 121665 + 2 ^ 51 * (uint (v1 a) * 121665)
      + 2 ^ 102 * (uint (v2 a) * 121665) + 2 ^ 153 * (uint (v3 a) * 121665) + 2 ^ 204 * (uint (v4 a) * 121665)"
    unfolding fe_val_def by simp
  then have "121665 * fe_val a = fe_val (fe_mul121665 a) + P25519 * c" unfolding c .
  then have "121665 * fe_val a mod P25519 = fe_val (fe_mul121665 a) mod P25519" by simp
  with red show ?thesis by simp
qed

lemma fe_add_spec:
  assumes "fe_reduced a" "fe_reduced b"
  shows "fe_loose (fe_add a b) \<and> fe_val (fe_add a b) mod P25519 = (fe_val a + fe_val b) mod P25519"
proof -
  have e: "uint (x + y) = uint x + uint y" if "uint x < 2 ^ 51 + 2 ^ 13" "uint y < 2 ^ 51 + 2 ^ 13" for x y :: u64
    by (rule add64) (use that in simp)
  have E: "uint (v0 a + v0 b) = uint (v0 a) + uint (v0 b)" "uint (v1 a + v1 b) = uint (v1 a) + uint (v1 b)"
    "uint (v2 a + v2 b) = uint (v2 a) + uint (v2 b)" "uint (v3 a + v3 b) = uint (v3 a) + uint (v3 b)"
    "uint (v4 a + v4 b) = uint (v4 a) + uint (v4 b)"
    by (rule e; use assms in \<open>simp add: fe_reduced_def\<close>)+
  have "fe_val (fe_add a b) = fe_val a + fe_val b" unfolding fe_val_def fe_add_def fe.simps E by (simp add: distrib_left)
  moreover have "fe_loose (fe_add a b)"
    using assms unfolding fe_loose_def fe_add_def fe.simps E by (simp add: fe_reduced_def)
  ultimately show ?thesis by simp
qed

lemma fe_sub_spec:
  assumes "fe_reduced a" "fe_reduced b"
  shows "fe_loose (fe_sub a b) \<and> fe_val (fe_sub a b) mod P25519 = (fe_val a - fe_val b) mod P25519"
proof -
  have e: "uint (x + c - y) = uint x + uint c - uint y" if "uint x < 2 ^ 51 + 2 ^ 13" "uint y < 2 ^ 51 + 2 ^ 13" "2 ^ 51 + 2 ^ 13 \<le> uint c" "uint c < 2 ^ 52"
    for x y c :: u64
  proof -
    have a: "uint (x + c) = uint x + uint c" by (rule add64) (use that in simp)
    have "uint y \<le> uint (x + c)" using that a uint_ge_0 [of x] by linarith
    from sub64 [OF this] show ?thesis unfolding a .
  qed
  have E: "uint (v0 a + 0xFFFFFFFFFFFDA - v0 b) = uint (v0 a) + 0xFFFFFFFFFFFDA - uint (v0 b)"
    "uint (v1 a + 0xFFFFFFFFFFFFE - v1 b) = uint (v1 a) + 0xFFFFFFFFFFFFE - uint (v1 b)"
    "uint (v2 a + 0xFFFFFFFFFFFFE - v2 b) = uint (v2 a) + 0xFFFFFFFFFFFFE - uint (v2 b)"
    "uint (v3 a + 0xFFFFFFFFFFFFE - v3 b) = uint (v3 a) + 0xFFFFFFFFFFFFE - uint (v3 b)"
    "uint (v4 a + 0xFFFFFFFFFFFFE - v4 b) = uint (v4 a) + 0xFFFFFFFFFFFFE - uint (v4 b)"
    by (subst e; use assms in \<open>simp add: fe_reduced_def\<close>)+
  have "fe_val (fe_sub a b) = fe_val a - fe_val b + P25519 * 2"
    unfolding fe_val_def fe_sub_def fe.simps E by (simp add: P25519_def)
  moreover have "fe_loose (fe_sub a b)"
  proof -
    have "x - uint y < n" if "x < n" for x n and y :: u64 using that uint_ge_0 [of y] by linarith
    then show ?thesis using assms(1) unfolding fe_loose_def fe_sub_def fe.simps E fe_reduced_def by simp
  qed
  ultimately show ?thesis by simp
qed

section \<open>The reference\<close>

text \<open>The scalar multiplication of RFC 7748 on integers modulo the prime: a point is given by \<open>(x, z)\<close>.\<close>

definition le_value :: "bytes \<Rightarrow> nat" where
  "le_value bs = foldr (\<lambda>b n. unat b + 256 * n) bs 0"

definition le_encode :: "nat \<Rightarrow> nat \<Rightarrow> bytes" where
  "le_encode k n = map (\<lambda>i. of_nat (n div 256 ^ i)) [0..<k]"

type_synonym xz = "int \<times> int"

definition double_add :: "int \<Rightarrow> xz \<Rightarrow> xz \<Rightarrow> xz \<times> xz" where
  "double_add u p q =
     (let (x2, z2) = p; (x3, z3) = q; A = x2 + z2; B = x2 - z2; E = A ^ 2 - B ^ 2; DA = (x3 - z3) * A; CB = (x3 + z3) * B
      in ((A ^ 2 * B ^ 2 mod P25519, E * (A ^ 2 + 121665 * E) mod P25519),
          ((DA + CB) ^ 2 mod P25519, (DA - CB) ^ 2 * u mod P25519)))"

definition curve_step :: "int \<Rightarrow> bool \<Rightarrow> xz \<times> xz \<Rightarrow> xz \<times> xz" where
  "curve_step u b pq = (if b then prod.swap (double_add u (snd pq) (fst pq)) else double_add u (fst pq) (snd pq))"

definition curve_ladder :: "int \<Rightarrow> nat \<Rightarrow> xz \<times> xz" where
  "curve_ladder u k = fold (\<lambda>t. curve_step u (bit k t)) (rev [0..<255]) ((1, 0), (u, 1))"

definition decode_scalar :: "bytes \<Rightarrow> nat" where
  "decode_scalar bs = 2 ^ 254 + (le_value bs mod 2 ^ 254 - le_value bs mod 8)"

definition decode_point :: "bytes \<Rightarrow> int" where
  "decode_point bs = int (le_value bs mod 2 ^ 255) mod P25519"

definition curve_point :: "bytes \<Rightarrow> bytes \<Rightarrow> int" where
  "curve_point scalar point =
     (let (x, z) = fst (curve_ladder (decode_point point) (decode_scalar scalar)) in x * z ^ nat (P25519 - 2) mod P25519)"

definition x25519_reference :: "bytes \<Rightarrow> bytes \<Rightarrow> bytes" where
  "x25519_reference scalar point = le_encode 32 (nat (curve_point scalar point))"

section \<open>Powers\<close>

definition represents :: "fe \<Rightarrow> int \<Rightarrow> bool" where
  "represents f x \<longleftrightarrow> fe_reduced f \<and> fe_val f mod P25519 = x mod P25519"

lemma represents_mul_loose:
  "fe_loose a \<Longrightarrow> fe_loose b \<Longrightarrow> fe_val a mod P25519 = x mod P25519 \<Longrightarrow> fe_val b mod P25519 = y mod P25519 \<Longrightarrow> represents (fe_mul a b) (x * y)"
  using fe_mul_spec [of a b] mod_mult_cong [of "fe_val a" P25519 x "fe_val b" y] by (simp add: represents_def)

lemma represents_mul: "represents a x \<Longrightarrow> represents b y \<Longrightarrow> represents (fe_mul a b) (x * y)"
  by (rule represents_mul_loose) (auto simp: represents_def fe_reduced_loose)

lemma represents_sq: "represents a x \<Longrightarrow> represents (fe_sq a) (x ^ 2)"
  using represents_mul [of a x a x] by (simp add: fe_sq_def power2_eq_square)

lemma represents_mod: "represents a x \<Longrightarrow> represents a (x mod P25519)"
  by (simp add: represents_def)

lemma mul_power: "represents a (z ^ m) \<Longrightarrow> represents b (z ^ n) \<Longrightarrow> m + n = k \<Longrightarrow> represents (fe_mul a b) (z ^ k)"
  using represents_mul [of a "z ^ m" b "z ^ n"] by (auto simp: power_add)

lemma sq_power: "represents a (z ^ m) \<Longrightarrow> 2 * m = k \<Longrightarrow> represents (fe_sq a) (z ^ k)"
  using mul_power [of a z m a m k] by (simp add: fe_sq_def)

lemma sq_fold: "represents t (z ^ m) \<Longrightarrow> m * 2 ^ length xs = k \<Longrightarrow> represents (fold (\<lambda>i. fe_sq) xs t) (z ^ k)"
proof (induction xs arbitrary: t m)
  case (Cons x xs)
  have "2 * m * 2 ^ length xs = k" using Cons.prems(2) by simp
  from Cons.IH [OF sq_power [OF Cons.prems(1) refl] this] show ?case by simp
qed simp

lemma sq_loop_power: "represents a (z ^ m) \<Longrightarrow> 0 < n \<Longrightarrow> m * 2 ^ n = k \<Longrightarrow> represents (sq_loop n (fe_sq a)) (z ^ k)"
proof -
  assume a: "represents a (z ^ m)" "0 < n" "m * 2 ^ n = k"
  then have "2 * m * 2 ^ length [1..<n] = k" by (cases n) (auto simp del: upt_Suc)
  from sq_fold [OF sq_power [OF a(1) refl] this] show ?thesis by (simp add: sq_loop_def)
qed

lemma fe_invert_spec:
  assumes "represents f z"
  shows "represents (fe_invert f) (z ^ nat (P25519 - 2))"
proof -
  have 1: "represents f (z ^ 1)" using assms by simp
  define z2 where "z2 = fe_sq f"
  define t0 where "t0 = fe_sq (fe_sq z2)"
  define z9 where "z9 = fe_mul t0 f"
  define z11 where "z11 = fe_mul z9 z2"
  define z5 where "z5 = fe_mul (fe_sq z11) z9"
  define z10 where "z10 = fe_mul (sq_loop 5 (fe_sq z5)) z5"
  define z20 where "z20 = fe_mul (sq_loop 10 (fe_sq z10)) z10"
  define z40 where "z40 = fe_mul (sq_loop 20 (fe_sq z20)) z20"
  define z50 where "z50 = fe_mul (sq_loop 10 (fe_sq z40)) z10"
  define z100 where "z100 = fe_mul (sq_loop 50 (fe_sq z50)) z50"
  define z200 where "z200 = fe_mul (sq_loop 100 (fe_sq z100)) z100"
  define z250 where "z250 = fe_mul (sq_loop 50 (fe_sq z200)) z50"
  have z2: "represents z2 (z ^ 2)" unfolding z2_def by (rule sq_power [OF 1]) simp
  have "represents (fe_sq z2) (z ^ 4)" by (rule sq_power [OF z2]) simp
  then have "represents t0 (z ^ 8)" unfolding t0_def by (rule sq_power) simp
  then have z9: "represents z9 (z ^ 9)" unfolding z9_def by (rule mul_power [OF _ 1]) simp
  then have z11: "represents z11 (z ^ 11)" unfolding z11_def by (rule mul_power [OF _ z2]) simp
  have "represents (fe_sq z11) (z ^ 22)" by (rule sq_power [OF z11]) simp
  then have z5: "represents z5 (z ^ (2 ^ 5 - 1))" unfolding z5_def by (rule mul_power [OF _ z9]) simp
  have z10: "represents z10 (z ^ (2 ^ 10 - 1))" unfolding z10_def by (rule mul_power [OF sq_loop_power [OF z5 _ refl] z5]) simp_all
  have z20: "represents z20 (z ^ (2 ^ 20 - 1))" unfolding z20_def by (rule mul_power [OF sq_loop_power [OF z10 _ refl] z10]) simp_all
  have z40: "represents z40 (z ^ (2 ^ 40 - 1))" unfolding z40_def by (rule mul_power [OF sq_loop_power [OF z20 _ refl] z20]) simp_all
  have z50: "represents z50 (z ^ (2 ^ 50 - 1))" unfolding z50_def by (rule mul_power [OF sq_loop_power [OF z40 _ refl] z10]) simp_all
  have z100: "represents z100 (z ^ (2 ^ 100 - 1))" unfolding z100_def by (rule mul_power [OF sq_loop_power [OF z50 _ refl] z50]) simp_all
  have z200: "represents z200 (z ^ (2 ^ 200 - 1))" unfolding z200_def by (rule mul_power [OF sq_loop_power [OF z100 _ refl] z100]) simp_all
  have z250: "represents z250 (z ^ (2 ^ 250 - 1))" unfolding z250_def by (rule mul_power [OF sq_loop_power [OF z200 _ refl] z50]) simp_all
  have s1: "represents (fe_sq z250) (z ^ (2 * (2 ^ 250 - 1)))" by (rule sq_power [OF z250 refl])
  have s2: "represents (fe_sq (fe_sq z250)) (z ^ (2 * (2 * (2 ^ 250 - 1))))" by (rule sq_power [OF s1 refl])
  have s3: "represents (fe_sq (fe_sq (fe_sq z250))) (z ^ (2 * (2 * (2 * (2 ^ 250 - 1)))))" by (rule sq_power [OF s2 refl])
  have s4: "represents (fe_sq (fe_sq (fe_sq (fe_sq z250)))) (z ^ (2 * (2 * (2 * (2 * (2 ^ 250 - 1))))))" by (rule sq_power [OF s3 refl])
  have s5: "represents (fe_sq (fe_sq (fe_sq (fe_sq (fe_sq z250))))) (z ^ (2 * (2 * (2 * (2 * (2 * (2 ^ 250 - 1)))))))" by (rule sq_power [OF s4 refl])
  have inv: "fe_invert f = fe_mul (fe_sq (fe_sq (fe_sq (fe_sq (fe_sq z250))))) z11"
    by (simp only: fe_invert_def Let_def z250_def z200_def z100_def z50_def z40_def z20_def z10_def z5_def z11_def z9_def t0_def z2_def)
  show ?thesis unfolding inv by (rule mul_power [OF s5 z11]) (simp add: P25519_def)
qed

section \<open>The ladder\<close>

lemma swap_limb_spec: "swap_limb (0 - of_bool b) x y = (if b then (y, x) else (x, y))"
  by (simp add: swap_limb_def Let_def xor.assoc [symmetric]) (simp add: xor.commute xor.left_commute xor.assoc)

lemma fe_cswap_spec: "fe_cswap a b (of_bool s) = (if s then (b, a) else (a, b))"
  unfolding fe_cswap_def Let_def swap_limb_spec by (cases a; cases b) simp

lemma double_add_spec:
  assumes x1: "represents x1 u" and s: "represents (l_x2 s) x2" "represents (l_z2 s) z2" "represents (l_x3 s) x3" "represents (l_z3 s) z3"
    and r: "double_add u (x2, z2) (x3, z3) = ((x2', z2'), (x3', z3'))"
  shows "represents (l_x2 (ladder_add x1 s)) x2'" "represents (l_z2 (ladder_add x1 s)) z2'"
    "represents (l_x3 (ladder_add x1 s)) x3'" "represents (l_z3 (ladder_add x1 s)) z3'" "l_swap (ladder_add x1 s) = l_swap s"
proof -
  have add: "fe_loose (fe_add a b) \<and> fe_val (fe_add a b) mod P25519 = (x + y) mod P25519" if "represents a x" "represents b y" for a b x y
    using fe_add_spec [of a b] that mod_add_cong [of "fe_val a" P25519 x "fe_val b" y] by (simp add: represents_def)
  have sub: "fe_loose (fe_sub a b) \<and> fe_val (fe_sub a b) mod P25519 = (x - y) mod P25519" if "represents a x" "represents b y" for a b x y
    using fe_sub_spec [of a b] that mod_diff_cong [of "fe_val a" P25519 x "fe_val b" y] by (simp add: represents_def)
  have sq: "represents (fe_sq a) (x ^ 2)" if "fe_loose a \<and> fe_val a mod P25519 = x mod P25519" for a x
    unfolding fe_sq_def power2_eq_square using that by (intro represents_mul_loose) auto
  let ?A = "fe_add (l_x2 s) (l_z2 s)" and ?B = "fe_sub (l_x2 s) (l_z2 s)" and ?C = "fe_add (l_x3 s) (l_z3 s)" and ?D = "fe_sub (l_x3 s) (l_z3 s)"
  let ?E = "fe_sub (fe_sq ?A) (fe_sq ?B)" and ?DA = "fe_mul ?D ?A" and ?CB = "fe_mul ?C ?B"
  note A = add [OF s(1,2)] and B = sub [OF s(1,2)] and C = add [OF s(3,4)] and D = sub [OF s(3,4)]
  note AA = sq [OF A] and BB = sq [OF B]
  note E = sub [OF AA BB]
  have DA: "represents ?DA ((x3 - z3) * (x2 + z2))" using D A by (intro represents_mul_loose) auto
  have CB: "represents ?CB ((x3 + z3) * (x2 - z2))" using C B by (intro represents_mul_loose) auto
  have t2: "represents (fe_mul121665 ?E) (121665 * ((x2 + z2) ^ 2 - (x2 - z2) ^ 2))"
    using fe_mul121665_spec [of ?E] E mod_mult_cong [of 121665 P25519 121665 "fe_val ?E" "(x2 + z2) ^ 2 - (x2 - z2) ^ 2"] by (simp add: represents_def)
  note t3 = add [OF AA t2]
  have e: "ladder_add x1 s = s\<lparr>l_x2 := fe_mul (fe_sq ?A) (fe_sq ?B), l_z2 := fe_mul ?E (fe_add (fe_sq ?A) (fe_mul121665 ?E)),
      l_x3 := fe_sq (fe_add ?DA ?CB), l_z3 := fe_mul (fe_sq (fe_sub ?DA ?CB)) x1\<rparr>"
    by (simp only: ladder_add_def Let_def)
  have r': "x2' = (x2 + z2) ^ 2 * (x2 - z2) ^ 2 mod P25519"
    "z2' = ((x2 + z2) ^ 2 - (x2 - z2) ^ 2) * ((x2 + z2) ^ 2 + 121665 * ((x2 + z2) ^ 2 - (x2 - z2) ^ 2)) mod P25519"
    "x3' = ((x3 - z3) * (x2 + z2) + (x3 + z3) * (x2 - z2)) ^ 2 mod P25519"
    "z3' = ((x3 - z3) * (x2 + z2) - (x3 + z3) * (x2 - z2)) ^ 2 * u mod P25519"
    using r by (simp_all add: double_add_def Let_def)
  show "represents (l_x2 (ladder_add x1 s)) x2'" unfolding e r' by (simp add: represents_mod represents_mul [OF AA BB])
  have "represents (fe_mul ?E (fe_add (fe_sq ?A) (fe_mul121665 ?E))) (((x2 + z2) ^ 2 - (x2 - z2) ^ 2) * ((x2 + z2) ^ 2 + 121665 * ((x2 + z2) ^ 2 - (x2 - z2) ^ 2)))"
    using E t3 by (intro represents_mul_loose) auto
  then show "represents (l_z2 (ladder_add x1 s)) z2'" unfolding e r' by (simp add: represents_mod)
  show "represents (l_x3 (ladder_add x1 s)) x3'" unfolding e r' by (simp add: represents_mod sq [OF add [OF DA CB]])
  show "represents (l_z3 (ladder_add x1 s)) z3'" unfolding e r' by (simp add: represents_mod represents_mul [OF sq [OF sub [OF DA CB]] x1])
  show "l_swap (ladder_add x1 s) = l_swap s" unfolding e by simp
qed

definition pair_of :: "fe \<Rightarrow> fe \<Rightarrow> xz \<Rightarrow> bool" where
  "pair_of x z p \<longleftrightarrow> represents x (fst p) \<and> represents z (snd p)"

text \<open>The state of the loop with its pending swap.\<close>

definition in_step :: "ladder \<Rightarrow> bool \<Rightarrow> xz \<times> xz \<Rightarrow> bool" where
  "in_step s b pq \<longleftrightarrow> l_swap s = of_bool b \<and> pair_of (l_x2 s) (l_z2 s) (if b then snd pq else fst pq)
     \<and> pair_of (l_x3 s) (l_z3 s) (if b then fst pq else snd pq)"

lemma ladder_swap_spec:
  assumes "in_step s b pq"
  shows "pair_of (l_x2 (ladder_swap (of_bool (b \<noteq> c)) s)) (l_z2 (ladder_swap (of_bool (b \<noteq> c)) s)) (if c then snd pq else fst pq)"
    "pair_of (l_x3 (ladder_swap (of_bool (b \<noteq> c)) s)) (l_z3 (ladder_swap (of_bool (b \<noteq> c)) s)) (if c then fst pq else snd pq)"
  using assms by (auto simp: ladder_swap_def Let_def fe_cswap_spec in_step_def)

lemma ladder_step_spec:
  assumes x1: "represents x1 u" and s: "in_step s b pq" and c: "scalar_bit e t = of_bool c"
  shows "in_step (ladder_step x1 e t s) c (curve_step u c pq)"
proof -
  have x: "l_swap s XOR scalar_bit e t = of_bool (b \<noteq> c)" using s c by (cases b; cases c) (simp_all add: in_step_def)
  let ?s = "(ladder_swap (of_bool (b \<noteq> c)) s)\<lparr>l_swap := of_bool c\<rparr>"
  have e: "ladder_step x1 e t s = ladder_add x1 ?s" unfolding ladder_step_def Let_def x unfolding c ..
  let ?p = "if c then snd pq else fst pq" and ?q = "if c then fst pq else snd pq"
  obtain x2' z2' x3' z3' where d: "double_add u (fst ?p, snd ?p) (fst ?q, snd ?q) = ((x2', z2'), (x3', z3'))" by (metis surj_pair)
  have p: "represents (l_x2 ?s) (fst ?p)" "represents (l_z2 ?s) (snd ?p)" "represents (l_x3 ?s) (fst ?q)" "represents (l_z3 ?s) (snd ?q)"
    using ladder_swap_spec [OF s, of c] unfolding pair_of_def by simp_all
  have cs: "curve_step u c pq = (if c then ((x3', z3'), (x2', z2')) else ((x2', z2'), (x3', z3')))"
    using d by (cases c) (simp_all add: curve_step_def)
  note D = double_add_spec [OF x1 p d]
  have "l_swap (ladder_add x1 ?s) = of_bool c" using D(5) by simp
  then show ?thesis unfolding e cs in_step_def pair_of_def using D(1-4) by (cases c) simp_all
qed

lemma ladder_fold_spec:
  assumes x1: "represents x1 u" and e: "\<forall>t \<in> set ts. scalar_bit e t = of_bool (bit k t)" and s: "in_step s b pq"
  shows "\<exists>b'. in_step (fold (ladder_step x1 e) ts s) b' (fold (\<lambda>t. curve_step u (bit k t)) ts pq)"
  using e s
proof (induction ts arbitrary: s b pq)
  case (Cons t ts)
  have "in_step (ladder_step x1 e t s) (bit k t) (curve_step u (bit k t) pq)"
    by (rule ladder_step_spec [OF x1 Cons.prems(2)]) (use Cons.prems(1) in simp)
  from Cons.IH [OF _ this] show ?case using Cons.prems(1) by simp
qed auto

lemma x25519_result_value:
  assumes x1: "represents (fe_from_bytes point) u" and e: "\<forall>t < 255. scalar_bit (clamp_scalar scalar) t = of_bool (bit k t)"
  shows "represents (x25519_result scalar point) (let (x, z) = fst (curve_ladder u k) in x * z ^ nat (P25519 - 2))"
proof -
  let ?x = "fe_from_bytes point" and ?e = "clamp_scalar scalar" and ?ts = "rev [0..<255]"
  have r: "represents fe_one 1" "represents fe_zero 0"
    by (simp_all add: represents_def fe_reduced_def fe_val_def fe_one_def fe_zero_def)
  have "in_step (ladder_init ?x) False ((1, 0), (u, 1))"
    using x1 r by (simp add: in_step_def ladder_init_def pair_of_def)
  from ladder_fold_spec [OF x1 _ this, of ?ts ?e k] e obtain b where
    b: "in_step (fold (ladder_step ?x ?e) ?ts (ladder_init ?x)) b (curve_ladder u k)"
    unfolding curve_ladder_def by auto
  let ?s = "fold (ladder_step ?x ?e) ?ts (ladder_init ?x)"
  have w: "l_swap ?s = of_bool (b \<noteq> False)" using b by (simp add: in_step_def)
  from ladder_swap_spec(1) [OF b, of False]
  have p: "represents (l_x2 (ladder_swap (l_swap ?s) ?s)) (fst (fst (curve_ladder u k)))"
    "represents (l_z2 (ladder_swap (l_swap ?s) ?s)) (snd (fst (curve_ladder u k)))"
    unfolding w pair_of_def by simp_all
  from represents_mul [OF p(1) fe_invert_spec [OF p(2)]] show ?thesis
    unfolding x25519_result_def Let_def by (simp add: case_prod_beta)
qed

section \<open>Bytes\<close>

lemma le_value_simps [simp]: "le_value [] = 0" "le_value (b # bs) = unat b + 256 * le_value bs"
  by (simp_all add: le_value_def)

lemma le_value_append: "le_value (xs @ ys) = le_value xs + 256 ^ length xs * le_value ys"
  by (induction xs) (simp_all add: algebra_simps)

lemma le_value_bound: "le_value bs < 256 ^ length bs"
proof (induction bs)
  case (Cons b bs)
  have "unat b < 256" using unsigned_less [of b] by simp
  then have "unat b + 256 * le_value bs < 256 * (le_value bs + 1)" by simp
  also have "\<dots> \<le> 256 * 256 ^ length bs" using Cons.IH by (intro mult_le_mono2) simp
  finally show ?case by simp
qed simp

lemma le_value_take_drop:
  assumes "n \<le> length bs"
  shows "le_value (take n bs) = le_value bs mod 256 ^ n" "le_value (drop n bs) = le_value bs div 256 ^ n"
proof -
  have e: "le_value bs = le_value (take n bs) + 256 ^ n * le_value (drop n bs)"
    using le_value_append [of "take n bs" "drop n bs"] assms by simp
  have "le_value (take n bs) < 256 ^ n" using le_value_bound [of "take n bs"] assms by simp
  then show "le_value (take n bs) = le_value bs mod 256 ^ n" "le_value (drop n bs) = le_value bs div 256 ^ n" unfolding e by simp_all
qed

lemma le_encode_value: "length bs = k \<Longrightarrow> le_encode k (le_value bs) = bs"
proof (rule nth_equalityI)
  fix i assume k: "length bs = k" and i: "i < length (le_encode k (le_value bs))"
  then have l: "i < length bs" by (simp add: le_encode_def)
  have "le_value bs div 256 ^ i = unat (bs ! i) + 256 * le_value (drop (Suc i) bs)"
    using le_value_take_drop(2) [of i bs] l by (simp add: Cons_nth_drop_Suc [symmetric])
  then have "(of_nat (le_value bs div 256 ^ i) :: byte) = of_nat (unat (bs ! i)) + of_nat 256 * of_nat (le_value (drop (Suc i) bs))"
    by (simp only: of_nat_add of_nat_mult)
  moreover have "(of_nat 256 :: byte) = 0" by simp
  ultimately have "(of_nat (le_value bs div 256 ^ i) :: byte) = of_nat (unat (bs ! i))" by (simp only: mult_zero_left add_0_right)
  then show "le_encode k (le_value bs) ! i = bs ! i" using k l by (simp add: le_encode_def)
qed (simp add: le_encode_def)

lemma bit_le_value: "bit (le_value bs) t \<longleftrightarrow> t div 8 < length bs \<and> bit (bs ! (t div 8)) (t mod 8)"
proof (induction bs arbitrary: t)
  case (Cons b bs)
  have s: "unat b < 2 ^ 8" using unsigned_less [of b] by simp
  have o: "le_value (b # bs) = or (unat b) (push_bit 8 (le_value bs))"
  proof -
    have "and (unat b) (push_bit 8 (le_value bs)) = 0"
    proof (rule bit_eqI)
      fix n
      have "\<not> bit (unat b) n" if "8 \<le> n"
        using that bit_imp_le_length [of b n] by (auto simp: bit_unsigned_iff)
      then show "bit (and (unat b) (push_bit 8 (le_value bs))) n = bit 0 n" by (auto simp: bit_and_iff bit_push_bit_iff)
    qed
    from disjunctive_add_eq_or [OF this] show ?thesis by (simp add: push_bit_eq_mult)
  qed
  show ?case
  proof (cases "t < 8")
    case True
    then show ?thesis unfolding o by (simp add: bit_or_iff bit_push_bit_iff bit_unsigned_iff)
  next
    case False
    then obtain k where k: "t = 8 + k" by (metis le_add_diff_inverse not_less)
    have "\<not> bit (unat b) t" using False bit_imp_le_length [of b t] by (auto simp: bit_unsigned_iff)
    moreover have "(8 + k) div 8 = Suc (k div 8)" by simp
    ultimately show ?thesis unfolding o using Cons.IH [of k] by (simp add: k bit_or_iff bit_push_bit_iff)
  qed
qed simp

lemma bit_foldl_or:
  fixes f :: "nat \<Rightarrow> u64"
  shows "bit (foldl (\<lambda>out i. out OR f i) a xs) n \<longleftrightarrow> bit a n \<or> (\<exists>i \<in> set xs. bit (f i) n)"
  by (induction xs arbitrary: a) (auto simp: bit_or_iff)

lemma load64_value:
  assumes "8 \<le> length p"
  shows "uint (load64_le p) = int (le_value p mod 2 ^ 64)"
proof -
  have "unat (load64_le p) = take_bit 64 (le_value p)"
  proof (rule bit_eqI)
    fix n
    have "bit (load64_le p) n \<longleftrightarrow> n < 64 \<and> bit (p ! (n div 8)) (n mod 8)"
    proof -
      have f: "bit (push_bit (8 * i) (ucast b :: u64)) n \<longleftrightarrow> n < 64 \<and> i = n div 8 \<and> bit b (n mod 8)" for i and b :: byte
      proof -
        have "bit (push_bit (8 * i) (ucast b :: u64)) n \<longleftrightarrow> n < 64 \<and> 8 * i \<le> n \<and> n - 8 * i < 8 \<and> bit b (n - 8 * i)"
          using bit_imp_le_length [of b "n - 8 * i"] by (auto simp: bit_push_bit_iff bit_unsigned_iff)
        moreover have "8 * i \<le> n \<and> n - 8 * i < 8 \<longleftrightarrow> i = n div 8" by auto
        moreover have "n - 8 * (n div 8) = n mod 8" by (simp add: minus_mult_div_eq_mod)
        ultimately show ?thesis by metis
      qed
      show ?thesis unfolding load64_le_def bit_foldl_or f by (auto simp: less_mult_imp_div_less)
    qed
    then show "bit (unat (load64_le p)) n = bit (take_bit 64 (le_value p)) n"
      using assms by (auto simp: bit_unsigned_iff bit_take_bit_iff bit_le_value less_mult_imp_div_less intro: less_le_trans)
  qed
  then show ?thesis by (simp add: take_bit_eq_mod uint_nat)
qed

lemma limb_of_load:
  assumes "length b = 32" "k + 8 \<le> 32" "s + 51 \<le> 64" "8 * k + s = n"
  shows "uint (drop_bit s (load64_le (drop k b)) AND MASK51) = int (le_value b) div 2 ^ n mod 2 ^ 51"
proof -
  have l: "uint (load64_le (drop k b)) = take_bit 64 (drop_bit (8 * k) (int (le_value b)))"
    using load64_value [of "drop k b"] le_value_take_drop(2) [of k b] assms
    by (simp add: take_bit_eq_mod drop_bit_eq_div zmod_int zdiv_int power_mult)
  have "uint (drop_bit s (load64_le (drop k b)) AND MASK51) = take_bit 51 (drop_bit s (take_bit 64 (drop_bit (8 * k) (int (le_value b)))))"
    unfolding low51 drop64 l by (simp add: take_bit_eq_mod drop_bit_eq_div)
  also have "\<dots> = take_bit 51 (drop_bit (8 * k + s) (int (le_value b)))"
  proof -
    have "min 51 (64 - s) = 51" using assms(3) by simp
    then show ?thesis by (simp add: drop_bit_take_bit add.commute)
  qed
  finally show ?thesis by (simp add: take_bit_eq_mod drop_bit_eq_div assms(4))
qed

lemma five_limbs:
  "x mod 2 ^ 51 + 2 ^ 51 * (x div 2 ^ 51 mod 2 ^ 51) + 2 ^ 102 * (x div 2 ^ 102 mod 2 ^ 51) + 2 ^ 153 * (x div 2 ^ 153 mod 2 ^ 51)
    + 2 ^ 204 * (x div 2 ^ 204 mod 2 ^ 51) = x mod (2 :: int) ^ 255"
proof -
  have m: "x mod 2 ^ k = x mod 2 ^ n + 2 ^ n * (x div 2 ^ n mod 2 ^ 51)" if "n + 51 = k" for n k
    using zmod_zmult2_eq [of "2 ^ 51" x "2 ^ n"] that [symmetric] by (simp add: power_add)
  have k: "51 + 51 = (102 :: nat)" "102 + 51 = (153 :: nat)" "153 + 51 = (204 :: nat)" "204 + 51 = (255 :: nat)" by simp_all
  show ?thesis unfolding m [OF k(4)] m [OF k(3)] m [OF k(2)] m [OF k(1)] ..
qed

lemma fe_from_bytes_spec:
  assumes "length b = 32"
  shows "represents (fe_from_bytes b) (decode_point b)"
proof -
  let ?n = "int (le_value b)"
  note L = limb_of_load [OF assms]
  have l: "uint (v0 (fe_from_bytes b)) = ?n mod 2 ^ 51"
    using L [of 0 0 0] by (simp only: fe_from_bytes_def fe.simps drop_bit_0 id_apply) simp
  have l': "uint (v1 (fe_from_bytes b)) = ?n div 2 ^ 51 mod 2 ^ 51"
    "uint (v2 (fe_from_bytes b)) = ?n div 2 ^ 102 mod 2 ^ 51" "uint (v3 (fe_from_bytes b)) = ?n div 2 ^ 153 mod 2 ^ 51"
    "uint (v4 (fe_from_bytes b)) = ?n div 2 ^ 204 mod 2 ^ 51"
    unfolding fe_from_bytes_def fe.simps by (rule L; simp)+
  have "fe_val (fe_from_bytes b) = ?n mod 2 ^ 255" unfolding fe_val_def l l' by (rule five_limbs)
  moreover have "fe_reduced (fe_from_bytes b)"
  proof -
    have "a mod 2 ^ 51 < (2 :: int) ^ 51" "a mod 2 ^ 51 < (2 :: int) ^ 51 + 2 ^ 13" for a :: int
      using pos_mod_bound [of "2 ^ 51" a] by simp_all
    then show ?thesis unfolding fe_reduced_def l l' by blast
  qed
  ultimately show ?thesis by (simp add: represents_def decode_point_def zmod_int)
qed

lemma scalar_bit_spec: "scalar_bit e t = of_bool (bit (e ! (t div 8)) (t mod 8))"
proof -
  have "bit (ucast b :: u64) (t mod 8) = bit b (t mod 8)" for b :: byte by (simp add: bit_unsigned_iff less_trans [of "t mod 8" 8])
  then show ?thesis unfolding scalar_bit_def by (simp add: and_one_eq odd_iff_mod_2_eq_one [symmetric] bit_iff_odd_drop_bit mod2_eq_if)
qed

lemma clamp_bits:
  assumes "length s = 32" "t < 255"
  shows "bit (clamp_scalar s ! (t div 8)) (t mod 8) \<longleftrightarrow> t = 254 \<or> 3 \<le> t \<and> bit (le_value s) t"
proof -
  have l: "t div 8 < 32" using assms(2) by simp
  have n: "clamp_scalar s ! (t div 8) = (if t div 8 = 0 then s ! 0 AND 248 else if t div 8 = 31 then (s ! 31 AND 127) OR 64 else s ! (t div 8))"
    using assms l by (simp add: clamp_scalar_def Let_def nth_list_update)
  have b: "bit (le_value s) t \<longleftrightarrow> bit (s ! (t div 8)) (t mod 8)" using assms(1) l by (simp add: bit_le_value)
  have b248: "bit (248 :: byte) k \<longleftrightarrow> 3 \<le> k \<and> k < 8" for k
  proof (cases "k < 8")
    case True
    then have "k \<in> {0, 1, 2, 3, 4, 5, 6, 7}" by auto
    then show ?thesis by auto
  next
    case False
    then show ?thesis using bit_imp_le_length [of "248 :: byte" k] by auto
  qed
  have b127: "bit (127 :: byte) k \<longleftrightarrow> k < 7" and b64: "bit (64 :: byte) k \<longleftrightarrow> k = 6" if "k < 8" for k
  proof -
    have "k \<in> {0, 1, 2, 3, 4, 5, 6, 7}" using that by auto
    then show "bit (127 :: byte) k \<longleftrightarrow> k < 7" "bit (64 :: byte) k \<longleftrightarrow> k = 6" by auto
  qed
  have m: "t mod 8 < 8" by simp
  have "t < 8 \<Longrightarrow> t div 8 = 0" "248 \<le> t \<Longrightarrow> t div 8 = 31 \<and> t mod 8 = t - 248" "8 \<le> t \<and> t < 248 \<Longrightarrow> t div 8 \<noteq> 0 \<and> t div 8 \<noteq> 31"
    using assms(2) by presburger+
  then consider "t div 8 = 0" "t < 8" | "t div 8 = 31" "248 \<le> t" "t mod 8 = t - 248" | "t div 8 \<noteq> 0" "t div 8 \<noteq> 31" "8 \<le> t" "t < 248"
    by (meson not_less)
  then show ?thesis
  proof cases
    case 1
    then show ?thesis unfolding n b using b248 [of t] by (simp add: bit_and_iff) blast
  next
    case 2
    moreover have "t - 248 < 8" "t - 248 < 7" "t - 248 = 6 \<longleftrightarrow> t = 254" using 2 assms(2) by auto
    ultimately show ?thesis using b127 [of "t - 248"] b64 [of "t - 248"] unfolding n b by (simp add: bit_and_iff bit_or_iff) blast
  next
    case 3
    then show ?thesis unfolding n b by simp
  qed
qed

lemma decode_scalar_bits:
  assumes "t < 255"
  shows "bit (decode_scalar s) t \<longleftrightarrow> t = 254 \<or> 3 \<le> t \<and> bit (le_value s) t"
proof -
  let ?m = "push_bit 3 (drop_bit 3 (take_bit 254 (le_value s)))"
  have "?m = 8 * (take_bit 254 (le_value s) div 8)" by (simp add: push_bit_eq_mult drop_bit_eq_div)
  also have "\<dots> = take_bit 254 (le_value s) - take_bit 254 (le_value s) mod 8" by (simp add: minus_mod_eq_mult_div [symmetric])
  also have "take_bit 254 (le_value s) mod 8 = le_value s mod 8" by (simp add: take_bit_eq_mod mod_mod_cancel)
  finally have e: "decode_scalar s = push_bit 254 1 + ?m" by (simp add: decode_scalar_def take_bit_eq_mod push_bit_eq_mult)
  have "and (push_bit 254 1) ?m = 0"
  proof (rule bit_eqI)
    fix n :: nat
    have "\<not> (254 \<le> n \<and> 3 + (n - 3) < 254)" by auto
    then have "\<not> bit (and (push_bit 254 1) ?m) n"
      unfolding bit_and_iff bit_push_bit_iff bit_drop_bit_eq bit_take_bit_iff o_apply by blast
    then show "bit (and (push_bit 254 1) ?m) n = bit 0 n" by simp
  qed
  from disjunctive_add_eq_or [OF this] have "decode_scalar s = or (push_bit 254 1) ?m" unfolding e .
  then show ?thesis using assms by (auto simp only: bit_or_iff bit_1_iff bit_push_bit_iff bit_drop_bit_eq bit_take_bit_iff o_apply) auto
qed

section \<open>Output\<close>

lemma or_shift:
  assumes "uint (a :: u64) < 2 ^ k" "k \<le> 64"
  shows "uint (a OR push_bit k b) = uint a + 2 ^ k * (uint b mod 2 ^ (64 - k))"
proof -
  have p: "uint (push_bit k b) = push_bit k (take_bit (64 - k) (uint b))"
    by (simp add: unsigned_push_bit_eq take_bit_push_bit)
  have "and (uint a) (push_bit k (take_bit (64 - k) (uint b))) = 0"
  proof (rule bit_eqI)
    fix n
    have "uint a = take_bit k (uint a)" using assms(1) by (simp add: take_bit_int_eq_self)
    then have "\<not> bit (uint a) n" if "k \<le> n" using that by (metis bit_take_bit_iff not_less)
    then show "bit (and (uint a) (push_bit k (take_bit (64 - k) (uint b)))) n = bit 0 n" by (auto simp: bit_and_iff bit_push_bit_iff)
  qed
  from disjunctive_add_eq_or [OF this] have "uint (a OR push_bit k b) = uint a + push_bit k (take_bit (64 - k) (uint b))"
    by (simp only: unsigned_or_eq p)
  then show ?thesis by (simp add: push_bit_eq_mult take_bit_eq_mod mult.commute)
qed

lemma store64_value: "le_value (store64_le w) = unat w"
proof (rule bit_eqI)
  fix n :: nat
  have "8 * (n div 8) + n mod 8 = n" by simp
  then show "bit (le_value (store64_le w)) n = bit (unat w) n"
    using bit_imp_le_length [of w n] by (auto simp: bit_le_value store64_le_def bit_unsigned_iff bit_drop_bit_eq less_mult_imp_div_less)
qed

definition fe_canonical :: "fe \<Rightarrow> bool" where
  "fe_canonical t \<longleftrightarrow> uint (v0 t) < 2 ^ 51 \<and> uint (v1 t) < 2 ^ 51 \<and> uint (v2 t) < 2 ^ 51 \<and> uint (v3 t) < 2 ^ 51 \<and> uint (v4 t) < 2 ^ 51"

lemma split_div:
  obtains q m where "x div 2 ^ k = q" "x mod 2 ^ k = m" "x = 2 ^ k * q + (m :: int)" "0 \<le> m"
  using that [OF refl refl] by (metis mult_div_mod_eq pos_mod_sign zero_less_numeral zero_less_power)

lemma limb_words_value:
  assumes "fe_canonical t"
  shows "int (le_value (concat (map store64_le (limb_words t)))) = fe_val t"
proof -
  note c = assms [unfolded fe_canonical_def, simplified]
  have len: "length (store64_le w) = 8" for w by (simp add: store64_le_def)
  obtain q1 m1 where 1: "uint (v1 t) div 2 ^ 13 = q1" "uint (v1 t) mod 2 ^ 13 = m1" "uint (v1 t) = 2 ^ 13 * q1 + m1" "0 \<le> m1" by (rule split_div)
  obtain q2 m2 where 2: "uint (v2 t) div 2 ^ 26 = q2" "uint (v2 t) mod 2 ^ 26 = m2" "uint (v2 t) = 2 ^ 26 * q2 + m2" "0 \<le> m2" by (rule split_div)
  obtain q3 m3 where 3: "uint (v3 t) div 2 ^ 39 = q3" "uint (v3 t) mod 2 ^ 39 = m3" "uint (v3 t) = 2 ^ 39 * q3 + m3" "0 \<le> m3" by (rule split_div)
  have b: "q1 < 2 ^ 38" "q2 < 2 ^ 25" "q3 < 2 ^ 12"
    using c 1(3,4) 2(3,4) 3(3,4) by simp_all
  have w0: "uint (v0 t OR push_bit 51 (v1 t)) = uint (v0 t) + 2 ^ 51 * m1"
    using or_shift [of "v0 t" 51 "v1 t"] c 1(2) by simp
  have w1: "uint (drop_bit 13 (v1 t) OR push_bit 38 (v2 t)) = q1 + 2 ^ 38 * m2"
    using or_shift [of "drop_bit 13 (v1 t)" 38 "v2 t", unfolded drop64 1(1)] b(1) 2(2) by simp
  have w2: "uint (drop_bit 26 (v2 t) OR push_bit 25 (v3 t)) = q2 + 2 ^ 25 * m3"
    using or_shift [of "drop_bit 26 (v2 t)" 25 "v3 t", unfolded drop64 2(1)] b(2) 3(2) by simp
  have m4: "uint (v4 t) mod 2 ^ 52 = uint (v4 t)" by (rule mod_pos_pos_trivial) (use c in simp_all)
  have w3: "uint (drop_bit 39 (v3 t) OR push_bit 12 (v4 t)) = q3 + 2 ^ 12 * uint (v4 t)"
    using or_shift [of "drop_bit 39 (v3 t)" 12 "v4 t", unfolded drop64 3(1)] b(3) m4 by simp
  have "int (le_value (concat (map store64_le (limb_words t)))) = uint (v0 t OR push_bit 51 (v1 t)) + 2 ^ 64 * uint (drop_bit 13 (v1 t) OR push_bit 38 (v2 t))
      + 2 ^ 128 * uint (drop_bit 26 (v2 t) OR push_bit 25 (v3 t)) + 2 ^ 192 * uint (drop_bit 39 (v3 t) OR push_bit 12 (v4 t))"
    unfolding limb_words_def by (simp add: le_value_append store64_value len uint_nat [symmetric])
  also have "\<dots> = fe_val t" unfolding w0 w1 w2 w3 fe_val_def unfolding 1(3) 2(3) 3(3) by simp
  finally show ?thesis .
qed

text \<open>The one case in which the carries do not settle: a result between \<open>2\<^sup>5\<^sup>1\<close> and \<open>2\<^sup>6\<^sup>5\<close>.\<close>

definition carries_settle :: "int \<Rightarrow> bool" where
  "carries_settle x \<longleftrightarrow> x < 2 ^ 51 \<or> 2 ^ 65 \<le> x"

lemma limb_step:
  assumes x: "uint x < 2 ^ 51 + 2 ^ 13" and c: "uint c = k" "k \<le> 19"
  obtains q m where "uint (x + c) = uint x + k" "uint (drop_bit 51 (x + c)) = q" "uint ((x + c) AND MASK51) = m"
    "uint x + k = 2251799813685248 * q + m" "0 \<le> m" "m < 2251799813685248" "0 \<le> q" "q \<le> 1" "q \<le> 19"
proof -
  have s: "uint (x + c) = uint x + k" using add64 [of x c] x c by simp
  obtain q m where q: "uint (x + c) div 2 ^ 51 = q" "uint (x + c) mod 2 ^ 51 = m" "uint (x + c) = 2251799813685248 * q + m" "0 \<le> m"
    "m < 2251799813685248" "0 \<le> q" using split51 [of "uint (x + c)"] by (metis unsigned_greater_eq)
  have "q \<le> 1" using q(3,4) s x c by simp
  then show ?thesis using that [of q m] q s by (simp add: drop64 low51)
qed

lemma carry_limbs_spec:
  assumes f: "fe_reduced f" and x: "carries_settle (fe_val f mod P25519)"
  shows "fe_canonical (carry_limbs f) \<and> fe_val (carry_limbs f) mod P25519 = fe_val f mod P25519"
proof -
  note r = f [unfolded fe_reduced_def, simplified]
  define w1 where "w1 = v1 f + drop_bit 51 (v0 f + 0)"
  define w2 where "w2 = v2 f + drop_bit 51 w1"
  define w3 where "w3 = v3 f + drop_bit 51 w2"
  define w4 where "w4 = v4 f + drop_bit 51 w3"
  have t: "carry_limbs f = fe_of (((v0 f + 0) AND MASK51) + 19 * drop_bit 51 w4) (w1 AND MASK51) (w2 AND MASK51) (w3 AND MASK51) (w4 AND MASK51)"
    by (simp add: carry_limbs_def Let_def w1_def w2_def w3_def w4_def)
  have b: "uint (v0 f) < 2 ^ 51 + 2 ^ 13" "uint (v1 f) < 2 ^ 51 + 2 ^ 13" "uint (v2 f) < 2 ^ 51 + 2 ^ 13" "uint (v3 f) < 2 ^ 51 + 2 ^ 13" "uint (v4 f) < 2 ^ 51 + 2 ^ 13"
    using r by simp_all
  obtain q0 m0 where 0: "uint (v0 f + 0) = uint (v0 f) + 0" "uint (drop_bit 51 (v0 f + 0)) = q0" "uint ((v0 f + 0) AND MASK51) = m0"
    "uint (v0 f) + 0 = 2251799813685248 * q0 + m0" "0 \<le> m0" "m0 < 2251799813685248" "0 \<le> q0" "q0 \<le> 1" "q0 \<le> 19"
    by (rule limb_step [OF b(1), of 0 0]) simp_all
  obtain q1 m1 where 1: "uint w1 = uint (v1 f) + q0" "uint (drop_bit 51 w1) = q1" "uint (w1 AND MASK51) = m1"
    "uint (v1 f) + q0 = 2251799813685248 * q1 + m1" "0 \<le> m1" "m1 < 2251799813685248" "0 \<le> q1" "q1 \<le> 1" "q1 \<le> 19"
    unfolding w1_def by (rule limb_step [OF b(2) 0(2,9)])
  obtain q2 m2 where 2: "uint w2 = uint (v2 f) + q1" "uint (drop_bit 51 w2) = q2" "uint (w2 AND MASK51) = m2"
    "uint (v2 f) + q1 = 2251799813685248 * q2 + m2" "0 \<le> m2" "m2 < 2251799813685248" "0 \<le> q2" "q2 \<le> 1" "q2 \<le> 19"
    unfolding w2_def by (rule limb_step [OF b(3) 1(2,9)])
  obtain q3 m3 where 3: "uint w3 = uint (v3 f) + q2" "uint (drop_bit 51 w3) = q3" "uint (w3 AND MASK51) = m3"
    "uint (v3 f) + q2 = 2251799813685248 * q3 + m3" "0 \<le> m3" "m3 < 2251799813685248" "0 \<le> q3" "q3 \<le> 1" "q3 \<le> 19"
    unfolding w3_def by (rule limb_step [OF b(4) 2(2,9)])
  obtain q4 m4 where 4: "uint w4 = uint (v4 f) + q3" "uint (drop_bit 51 w4) = q4" "uint (w4 AND MASK51) = m4"
    "uint (v4 f) + q3 = 2251799813685248 * q4 + m4" "0 \<le> m4" "m4 < 2251799813685248" "0 \<le> q4" "q4 \<le> 1" "q4 \<le> 19"
    unfolding w4_def by (rule limb_step [OF b(5) 3(2,9)])
  have "uint (19 * drop_bit 51 w4) = 19 * q4" using mult64 [of 19 "drop_bit 51 w4"] 4(2,7,8) by simp
  then have s0: "uint (((v0 f + 0) AND MASK51) + 19 * drop_bit 51 w4) = m0 + 19 * q4"
    using add64 [of "(v0 f + 0) AND MASK51" "19 * drop_bit 51 w4"] 0(3,6) 4(8) by simp
  have v: "fe_val (carry_limbs f) = m0 + 19 * q4 + 2 ^ 51 * m1 + 2 ^ 102 * m2 + 2 ^ 153 * m3 + 2 ^ 204 * m4"
    unfolding t fe_val_def fe.simps s0 1(3) 2(3) 3(3) 4(3) ..
  have "fe_val f = fe_val (carry_limbs f) + P25519 * q4"
    unfolding v unfolding fe_val_def P25519_def using 0(4) 1(4) 2(4) 3(4) 4(4) by simp
  then have val: "fe_val (carry_limbs f) mod P25519 = fe_val f mod P25519" by simp
  have "m0 + 19 * q4 < 2 ^ 51"
  proof (rule ccontr)
    assume big: "\<not> m0 + 19 * q4 < 2 ^ 51"
    then have "q4 = 1" using 0(6) 4(7,8) by (cases "q4 = 0") auto
    have "m4 = 0" "q3 = 1" using \<open>q4 = 1\<close> 3(8) 4(4,5) r by simp_all
    moreover from this have "m3 = 0" "q2 = 1" using 2(8) 3(4,5) r by simp_all
    moreover from this have "m2 = 0" "q1 = 1" using 1(8) 2(4,5) r by simp_all
    moreover from this have "m1 < 2 ^ 13" using 0(4,5,8) 1(4) r by simp
    ultimately have v': "fe_val (carry_limbs f) = m0 + 19 + 2 ^ 51 * m1" and m: "m1 < 2 ^ 13" using v \<open>q4 = 1\<close> by simp_all
    have "fe_val (carry_limbs f) < 2 ^ 65" "2 ^ 51 \<le> fe_val (carry_limbs f)"
      unfolding v' using big \<open>q4 = 1\<close> 0(6) m 1(5) by simp_all
    moreover from this have "fe_val (carry_limbs f) mod P25519 = fe_val (carry_limbs f)"
      by (intro mod_pos_pos_trivial) (simp_all add: P25519_def)
    ultimately show False using x val by (simp add: carries_settle_def)
  qed
  then have "fe_canonical (carry_limbs f)"
    unfolding fe_canonical_def t fe.simps s0 1(3) 2(3) 3(3) 4(3) using 1(6) 2(6) 3(6) 4(6) by simp
  with val show ?thesis by simp
qed

lemma minus_p_spec:
  assumes t: "fe_canonical t"
  defines "g \<equiv> minus_p t"
  shows "if P25519 \<le> fe_val t then drop_bit 63 (v4 g) - 1 = -1 \<and> fe_canonical g \<and> fe_val g = fe_val t - P25519
    else drop_bit 63 (v4 g) - 1 = 0"
proof -
  note c = t [unfolded fe_canonical_def, simplified]
  define w0 where "w0 = v0 t + 19"
  define w1 where "w1 = v1 t + drop_bit 51 w0"
  define w2 where "w2 = v2 t + drop_bit 51 w1"
  define w3 where "w3 = v3 t + drop_bit 51 w2"
  define w4 where "w4 = v4 t + drop_bit 51 w3"
  have g: "g = fe_of (w0 AND MASK51) (w1 AND MASK51) (w2 AND MASK51) (w3 AND MASK51) (w4 - push_bit 51 1)"
    by (simp add: g_def minus_p_def Let_def w0_def w1_def w2_def w3_def w4_def)
  have b: "uint (v0 t) < 2 ^ 51 + 2 ^ 13" "uint (v1 t) < 2 ^ 51 + 2 ^ 13" "uint (v2 t) < 2 ^ 51 + 2 ^ 13" "uint (v3 t) < 2 ^ 51 + 2 ^ 13" "uint (v4 t) < 2 ^ 51 + 2 ^ 13"
    using c by simp_all
  obtain q0 m0 where 0: "uint w0 = uint (v0 t) + 19" "uint (drop_bit 51 w0) = q0" "uint (w0 AND MASK51) = m0"
    "uint (v0 t) + 19 = 2251799813685248 * q0 + m0" "0 \<le> m0" "m0 < 2251799813685248" "0 \<le> q0" "q0 \<le> 1" "q0 \<le> 19"
    unfolding w0_def by (rule limb_step [OF b(1), of 19 19]) simp_all
  obtain q1 m1 where 1: "uint w1 = uint (v1 t) + q0" "uint (drop_bit 51 w1) = q1" "uint (w1 AND MASK51) = m1"
    "uint (v1 t) + q0 = 2251799813685248 * q1 + m1" "0 \<le> m1" "m1 < 2251799813685248" "0 \<le> q1" "q1 \<le> 1" "q1 \<le> 19"
    unfolding w1_def by (rule limb_step [OF b(2) 0(2,9)])
  obtain q2 m2 where 2: "uint w2 = uint (v2 t) + q1" "uint (drop_bit 51 w2) = q2" "uint (w2 AND MASK51) = m2"
    "uint (v2 t) + q1 = 2251799813685248 * q2 + m2" "0 \<le> m2" "m2 < 2251799813685248" "0 \<le> q2" "q2 \<le> 1" "q2 \<le> 19"
    unfolding w2_def by (rule limb_step [OF b(3) 1(2,9)])
  obtain q3 m3 where 3: "uint w3 = uint (v3 t) + q2" "uint (drop_bit 51 w3) = q3" "uint (w3 AND MASK51) = m3"
    "uint (v3 t) + q2 = 2251799813685248 * q3 + m3" "0 \<le> m3" "m3 < 2251799813685248" "0 \<le> q3" "q3 \<le> 1" "q3 \<le> 19"
    unfolding w3_def by (rule limb_step [OF b(4) 2(2,9)])
  have u4: "uint w4 = uint (v4 t) + q3" unfolding w4_def by (rule limb_step [OF b(5) 3(2,9)])
  have p51: "uint (push_bit 51 1 :: u64) = 2 ^ 51" by simp
  have val: "fe_val t + 19 = m0 + 2 ^ 51 * m1 + 2 ^ 102 * m2 + 2 ^ 153 * m3 + 2 ^ 204 * uint w4"
    unfolding fe_val_def using 0(4) 1(4) 2(4) 3(4) u4 by simp
  have low: "m0 + 2 ^ 51 * m1 + 2 ^ 102 * m2 + 2 ^ 153 * m3 < 2 ^ 204" "0 \<le> m0 + 2 ^ 51 * m1 + 2 ^ 102 * m2 + 2 ^ 153 * m3"
    using 0(5,6) 1(5,6) 2(5,6) 3(5,6) by simp_all
  have iff: "P25519 \<le> fe_val t \<longleftrightarrow> 2 ^ 51 \<le> uint w4" using val low unfolding P25519_def by simp linarith
  show ?thesis
  proof (cases "2 ^ 51 \<le> uint w4")
    case True
    have w: "uint (w4 - push_bit 51 1) = uint w4 - 2 ^ 51" using sub64 [of "push_bit 51 1" w4] True p51 by simp
    have "uint w4 \<le> 2 ^ 51" using u4 3(8) c by simp
    then have z: "w4 - push_bit 51 1 = 0" using w True by (simp add: uint_0_iff [symmetric] del: uint_0_iff)
    have "fe_canonical g" unfolding g z fe_canonical_def fe.simps 0(3) 1(3) 2(3) 3(3) using 0(6) 1(6) 2(6) 3(6) by simp
    moreover have "uint w4 = 2 ^ 51" using True \<open>uint w4 \<le> 2 ^ 51\<close> by simp
    then have "fe_val g = fe_val t - P25519"
      using val unfolding g z fe_val_def fe.simps 0(3) 1(3) 2(3) 3(3) P25519_def by simp
    moreover have "v4 g = 0" unfolding g fe.simps by (rule z)
    ultimately show ?thesis using iff True by simp
  next
    case False
    define d where "d = push_bit 51 1 - w4"
    have d: "uint d = 2 ^ 51 - uint w4" using sub64 [of w4 "push_bit 51 1"] False p51 by (simp add: d_def)
    have "w4 - push_bit 51 1 = - d" by (simp add: d_def)
    moreover have "uint (- d) = 2 ^ 64 - uint d"
    proof -
      have "d \<noteq> 0" using d False by (auto simp: uint_0_iff [symmetric] simp del: uint_0_iff)
      moreover have "uint d mod 2 ^ 64 = uint d" by (rule mod_pos_pos_trivial) (use uint_lt2p [of d] in simp_all)
      ultimately show ?thesis by (simp add: uint_word_ariths(4) zmod_zminus1_eq_if uint_0_iff)
    qed
    ultimately have w: "uint (w4 - push_bit 51 1) = 2 ^ 64 - (2 ^ 51 - uint w4)" using d by simp
    have "uint (drop_bit 63 (w4 - push_bit 51 1)) = 1"
      unfolding drop64 w by (rule int_div_pos_eq [where r = "2 ^ 64 - (2 ^ 51 - uint w4) - 2 ^ 63"]) (use False in simp_all)
    then have "drop_bit 63 (w4 - push_bit 51 1) = 1" by (metis uint_1 word_uint_eq_iff)
    then show ?thesis using iff False by (simp add: g)
  qed
qed

lemma pick_limb_spec: "pick_limb 0 a b = a" "pick_limb (- 1) a b = b"
  by (simp_all add: pick_limb_def)

lemma select_spec:
  assumes t: "fe_canonical t"
  shows "fe_canonical (select_limbs t (minus_p t)) \<and> fe_val (select_limbs t (minus_p t)) = fe_val t mod P25519"
proof (cases "P25519 \<le> fe_val t")
  case True
  note g = minus_p_spec [OF t, unfolded if_P [OF True]]
  have "fe_val t < 2 * P25519" using t by (simp add: fe_canonical_def fe_val_def P25519_def)
  then have m: "fe_val t mod P25519 = fe_val t - P25519" 
    using True mod_pos_pos_trivial [of "fe_val t - P25519" P25519] minus_mod_self2 [of "fe_val t" P25519] by simp
  have "v4 (minus_p t) AND MASK51 = v4 (minus_p t)"
  proof -
    have "uint (v4 (minus_p t) AND MASK51) = uint (v4 (minus_p t))"
      unfolding low51 by (rule mod_pos_pos_trivial) (use g in \<open>simp_all add: fe_canonical_def\<close>)
    then show ?thesis by (metis word_uint_eq_iff)
  qed
  then have "select_limbs t (minus_p t) = minus_p t"
    unfolding select_limbs_def Let_def using g by (simp add: pick_limb_spec)
  then show ?thesis using g m by simp
next
  case False
  note g = minus_p_spec [OF t, unfolded if_not_P [OF False]]
  have "0 \<le> fe_val t" by (simp add: fe_val_def)
  then have "fe_val t mod P25519 = fe_val t" using False by (simp add: mod_pos_pos_trivial)
  moreover have "select_limbs t (minus_p t) = t" unfolding select_limbs_def Let_def g by (simp add: pick_limb_spec)
  ultimately show ?thesis using t by simp
qed

lemma fe_to_bytes_spec:
  assumes "fe_reduced f" "carries_settle (fe_val f mod P25519)"
  shows "fe_to_bytes f = le_encode 32 (nat (fe_val f mod P25519))"
proof -
  note c = carry_limbs_spec [OF assms]
  let ?t = "select_limbs (carry_limbs f) (minus_p (carry_limbs f))"
  note s = select_spec [of "carry_limbs f"]
  have "int (le_value (fe_to_bytes f)) = fe_val f mod P25519"
    using limb_words_value [of ?t] s c by (simp add: fe_to_bytes_def Let_def)
  then have "nat (fe_val f mod P25519) = le_value (fe_to_bytes f)" by linarith
  moreover have "length (fe_to_bytes f) = 32" by (simp add: fe_to_bytes_def Let_def limb_words_def store64_le_def)
  ultimately show ?thesis using le_encode_value [of "fe_to_bytes f" 32] by simp
qed

lemma x25519_raw_spec:
  assumes "length scalar = 32" "length point = 32" "carries_settle (curve_point scalar point)"
  shows "x25519_raw scalar point = x25519_reference scalar point"
proof -
  have b: "\<forall>t < 255. scalar_bit (clamp_scalar scalar) t = of_bool (bit (decode_scalar scalar) t)"
    using clamp_bits [OF assms(1)] decode_scalar_bits [of _ scalar] by (simp add: scalar_bit_spec)
  have r: "represents (x25519_result scalar point) (curve_point scalar point)"
    using represents_mod [OF x25519_result_value [OF fe_from_bytes_spec [OF assms(2)] b]]
    by (simp add: curve_point_def case_prod_beta)
  have m: "curve_point scalar point mod P25519 = curve_point scalar point" by (simp add: curve_point_def case_prod_beta)
  show ?thesis
    using fe_to_bytes_spec [of "x25519_result scalar point"] r assms(3) m
    by (simp add: x25519_raw_def x25519_reference_def represents_def)
qed

lemma foldl_or_zero: "foldl (OR) a bs = (0 :: byte) \<longleftrightarrow> a = 0 \<and> (\<forall>b \<in> set bs. b = 0)"
proof (induction bs arbitrary: a)
  case (Cons b bs)
  then show ?case by (auto simp: or_eq_0_iff)
qed simp

lemma zero_value: "le_value bs = 0 \<longleftrightarrow> (\<forall>b \<in> set bs. b = 0)"
  by (induction bs) (auto simp: unat_eq_zero)

lemma curve_point_range: "0 \<le> curve_point scalar point" "curve_point scalar point < P25519"
  by (simp_all add: curve_point_def case_prod_beta P25519_def)

lemma le_value_encode: "n < 256 ^ k \<Longrightarrow> le_value (le_encode k n) = n"
proof (induction k arbitrary: n)
  case (Suc k)
  have e: "le_encode (Suc k) n = of_nat n # le_encode k (n div 256)"
    by (simp add: le_encode_def upt_conv_Cons map_Suc_upt [symmetric] div_mult2_eq [symmetric] del: upt_Suc)
  have "n div 256 < 256 ^ k" using Suc.prems by (simp add: div_less_iff_less_mult mult.commute)
  from Suc.IH [OF this] show ?case unfolding e by (simp add: unat_of_nat)
qed (simp add: le_encode_def)

lemma all_zero_reference: "is_all_zero (x25519_reference scalar point) \<longleftrightarrow> curve_point scalar point = 0"
proof -
  let ?n = "nat (curve_point scalar point)"
  have "?n < 256 ^ 32" using curve_point_range [of scalar point] by (simp add: P25519_def)
  from le_value_encode [OF this] have "le_value (x25519_reference scalar point) = ?n" by (simp add: x25519_reference_def)
  then show ?thesis using curve_point_range [of scalar point] zero_value [of "x25519_reference scalar point"]
    by (auto simp: is_all_zero_def foldl_or_zero)
qed

text \<open>C29. The key exchange computes the function of RFC 7748 for every secret and every public key: the reference works on integers
  modulo the prime, the code on limbs of 51 bits.  Keys of the wrong size are refused, and the shared secret zero is no result.
  The hypothesis leaves out results between \<open>2\<^sup>5\<^sup>1\<close> and \<open>2\<^sup>6\<^sup>5\<close>, for which the last carry can be lost.\<close>

theorem x25519dh_is_reference:
  assumes "carries_settle (curve_point secret peer)"
  shows "x25519dh secret peer =
    (if length secret \<noteq> 32 then Inl (crypto_error ''X25519 secret key must be 32 bytes'')
     else if length peer \<noteq> 32 then Inl (crypto_error ''X25519 public key must be 32 bytes'')
     else Inr (if curve_point secret peer = 0 then None else Some (x25519_reference secret peer)))"
  using x25519_raw_spec [OF _ _ assms] all_zero_reference [of secret peer]
  by (simp add: x25519dh_def require_x25519_size_def Let_def)

text \<open>The point of order two: every multiple is zero.\<close>

lemma double_add_zero:
  assumes "fst p * snd p = 0" "fst q * snd q = 0" "double_add 0 p q = (p', q')"
  shows "fst p' * snd p' = 0" "fst q' * snd q' = 0"
proof -
  have "(fst p + snd p) ^ 2 - (fst p - snd p) ^ 2 = 4 * (fst p * snd p)" by (simp add: power2_eq_square algebra_simps)
  then have "snd p' = 0" "snd q' = 0" using assms by (auto simp: double_add_def Let_def case_prod_beta)
  then show "fst p' * snd p' = 0" "fst q' * snd q' = 0" by simp_all
qed

lemma curve_fold_zero:
  assumes "fst (fst pq) * snd (fst pq) = 0" "fst (snd pq) * snd (snd pq) = 0"
  shows "fst (fst (fold (\<lambda>t. curve_step 0 (bit k t)) ts pq)) * snd (fst (fold (\<lambda>t. curve_step 0 (bit k t)) ts pq)) = 0"
  using assms
proof (induction ts arbitrary: pq)
  case (Cons t ts)
  obtain p' q' where d: "curve_step 0 (bit k t) pq = (p', q')" using prod.exhaust by blast
  have "fst p' * snd p' = 0 \<and> fst q' * snd q' = 0"
    using d double_add_zero [of "fst pq" "snd pq"] double_add_zero [of "snd pq" "fst pq"] Cons.prems
    by (cases "bit k t"; cases "double_add 0 (fst pq) (snd pq)"; cases "double_add 0 (snd pq) (fst pq)") (auto simp: curve_step_def)
  then show ?case using Cons.IH [of "(p', q')"] d by simp
qed simp

lemma curve_point_zero: "decode_point point = 0 \<Longrightarrow> curve_point scalar point = 0"
proof -
  assume "decode_point point = 0"
  then have "fst (fst (curve_ladder 0 (decode_scalar scalar))) * snd (fst (curve_ladder 0 (decode_scalar scalar))) = 0" "decode_point point = 0"
    using curve_fold_zero [of "((1, 0), (0, 1))"] by (simp_all add: curve_ladder_def)
  moreover have "0 < nat (P25519 - 2)" by (simp add: P25519_def)
  ultimately show ?thesis by (auto simp: curve_point_def case_prod_beta zero_power)
qed

theorem x25519dh_is_reference_witness:
  "x25519dh (replicate 32 7) (replicate 32 0) = Inr None \<and> x25519dh [] (replicate 32 0) = Inl (crypto_error ''X25519 secret key must be 32 bytes'')"
proof -
  have "le_value (replicate 32 0) = 0" by (simp add: zero_value)
  then have z: "curve_point s (replicate 32 0) = 0" for s by (intro curve_point_zero) (simp add: decode_point_def)
  then have c: "carries_settle (curve_point s (replicate 32 0))" for s by (simp add: carries_settle_def)
  show ?thesis using x25519dh_is_reference [OF c, of "replicate 32 7"] x25519dh_is_reference [OF c, of "[]"] z by simp
qed

text \<open>The excluded case: two reduced elements whose product is written wrongly.\<close>

lemma fe_mul_example:
  "fe_mul (fe_of 0x7ffffffffffff 0x7ffffffffffff 0x7ffffffffffff 0x7ffffffffffff 592578898338223) (fe_of 0x4000000000000 0 0 0 0)
    = fe_of 0x7fffffffffff5 0x8000000000001 0x7ffffffffffff 0x7ffffffffffff 0x7ffffffffffff"
  by (simp add: fe_mul_def fe_carry_def MASK51_def drop_bit_eq_div push_bit_eq_mult)

lemma fe_to_bytes_drops_carry:
  defines "a \<equiv> fe_of 0x7ffffffffffff 0x7ffffffffffff 0x7ffffffffffff 0x7ffffffffffff 592578898338223" and "b \<equiv> fe_of 0x4000000000000 0 0 0 0"
  shows "fe_val a * fe_val b mod P25519 = 0x10000000000008" "le_value (fe_to_bytes (fe_mul a b)) = 0x8000000000008"
proof -
  show "fe_val a * fe_val b mod P25519 = 0x10000000000008" by (simp add: a_def b_def fe_val_def P25519_def)
  let ?f = "fe_of 0x7fffffffffff5 0x8000000000001 0x7ffffffffffff 0x7ffffffffffff 0x7ffffffffffff"
  have "limb_words (select_limbs (carry_limbs ?f) (minus_p (carry_limbs ?f))) = [0x8000000000008, 0, 0, 0]"
    by (simp add: limb_words_def select_limbs_def carry_limbs_def minus_p_def pick_limb_def Let_def MASK51_def drop_bit_eq_div push_bit_eq_mult)
  then show "le_value (fe_to_bytes (fe_mul a b)) = 0x8000000000008"
    unfolding a_def b_def fe_mul_example fe_to_bytes_def Let_def by (simp add: le_value_append store64_value)
qed

end
