(* ===== verification/Aes.thy ===== *)
theory Aes
  imports Nxt_Prelude
begin

text \<open>
  The block cipher and its modes in \<^verbatim>\<open>nxt/crypto/aes128gcm.cpp\<close>: AES with ten and fourteen rounds, its key
  expansion, the authenticated mode GCM and the mode IGE.  A block is a list of sixteen bytes.
\<close>

section \<open>Model: the cipher\<close>

type_synonym block = bytes

definition sbox :: bytes where
  "sbox = [
    0x63, 0x7c, 0x77, 0x7b, 0xf2, 0x6b, 0x6f, 0xc5, 0x30, 0x01, 0x67, 0x2b, 0xfe, 0xd7, 0xab, 0x76,
    0xca, 0x82, 0xc9, 0x7d, 0xfa, 0x59, 0x47, 0xf0, 0xad, 0xd4, 0xa2, 0xaf, 0x9c, 0xa4, 0x72, 0xc0,
    0xb7, 0xfd, 0x93, 0x26, 0x36, 0x3f, 0xf7, 0xcc, 0x34, 0xa5, 0xe5, 0xf1, 0x71, 0xd8, 0x31, 0x15,
    0x04, 0xc7, 0x23, 0xc3, 0x18, 0x96, 0x05, 0x9a, 0x07, 0x12, 0x80, 0xe2, 0xeb, 0x27, 0xb2, 0x75,
    0x09, 0x83, 0x2c, 0x1a, 0x1b, 0x6e, 0x5a, 0xa0, 0x52, 0x3b, 0xd6, 0xb3, 0x29, 0xe3, 0x2f, 0x84,
    0x53, 0xd1, 0x00, 0xed, 0x20, 0xfc, 0xb1, 0x5b, 0x6a, 0xcb, 0xbe, 0x39, 0x4a, 0x4c, 0x58, 0xcf,
    0xd0, 0xef, 0xaa, 0xfb, 0x43, 0x4d, 0x33, 0x85, 0x45, 0xf9, 0x02, 0x7f, 0x50, 0x3c, 0x9f, 0xa8,
    0x51, 0xa3, 0x40, 0x8f, 0x92, 0x9d, 0x38, 0xf5, 0xbc, 0xb6, 0xda, 0x21, 0x10, 0xff, 0xf3, 0xd2,
    0xcd, 0x0c, 0x13, 0xec, 0x5f, 0x97, 0x44, 0x17, 0xc4, 0xa7, 0x7e, 0x3d, 0x64, 0x5d, 0x19, 0x73,
    0x60, 0x81, 0x4f, 0xdc, 0x22, 0x2a, 0x90, 0x88, 0x46, 0xee, 0xb8, 0x14, 0xde, 0x5e, 0x0b, 0xdb,
    0xe0, 0x32, 0x3a, 0x0a, 0x49, 0x06, 0x24, 0x5c, 0xc2, 0xd3, 0xac, 0x62, 0x91, 0x95, 0xe4, 0x79,
    0xe7, 0xc8, 0x37, 0x6d, 0x8d, 0xd5, 0x4e, 0xa9, 0x6c, 0x56, 0xf4, 0xea, 0x65, 0x7a, 0xae, 0x08,
    0xba, 0x78, 0x25, 0x2e, 0x1c, 0xa6, 0xb4, 0xc6, 0xe8, 0xdd, 0x74, 0x1f, 0x4b, 0xbd, 0x8b, 0x8a,
    0x70, 0x3e, 0xb5, 0x66, 0x48, 0x03, 0xf6, 0x0e, 0x61, 0x35, 0x57, 0xb9, 0x86, 0xc1, 0x1d, 0x9e,
    0xe1, 0xf8, 0x98, 0x11, 0x69, 0xd9, 0x8e, 0x94, 0x9b, 0x1e, 0x87, 0xe9, 0xce, 0x55, 0x28, 0xdf,
    0x8c, 0xa1, 0x89, 0x0d, 0xbf, 0xe6, 0x42, 0x68, 0x41, 0x99, 0x2d, 0x0f, 0xb0, 0x54, 0xbb, 0x16]"

definition inv_sbox :: bytes where
  "inv_sbox = fold (\<lambda>i out. out[unat (sbox ! i) := of_nat i]) [0..<256] (replicate 256 0)"

definition xtime :: "byte \<Rightarrow> byte" where
  "xtime value = push_bit 1 value XOR (drop_bit 7 value * 0x1b)"

definition gmul_step :: "byte \<times> byte \<times> byte \<Rightarrow> byte \<times> byte \<times> byte" where
  "gmul_step s = (let (out, a, b) = s;
      out = (if b AND 1 \<noteq> 0 then out XOR a else out);
      high = a AND 0x80;
      a = push_bit 1 a;
      a = (if high \<noteq> 0 then a XOR 0x1b else a);
      b = drop_bit 1 b
    in (out, a, b))"

definition gmul :: "byte \<Rightarrow> byte \<Rightarrow> byte" where
  "gmul a b = fst ((gmul_step ^^ 8) (0, a, b))"

definition xor_bytes :: "bytes \<Rightarrow> bytes \<Rightarrow> bytes" where
  "xor_bytes a b = map2 (XOR) a b"

definition add_round_key :: "block \<Rightarrow> bytes \<Rightarrow> nat \<Rightarrow> block" where
  "add_round_key state round_keys round = xor_bytes state (take 16 (drop (round * 16) round_keys))"

definition sub_bytes :: "block \<Rightarrow> block" where
  "sub_bytes s = map (\<lambda>b. sbox ! unat b) s"

definition inv_sub_bytes :: "block \<Rightarrow> block" where
  "inv_sub_bytes s = map (\<lambda>b. inv_sbox ! unat b) s"

definition shift_rows :: "block \<Rightarrow> block" where
  "shift_rows state = map ((!) state) [0,5,10,15, 4,9,14,3, 8,13,2,7, 12,1,6,11]"

definition inv_shift_rows :: "block \<Rightarrow> block" where
  "inv_shift_rows state = map ((!) state) [0,13,10,7, 4,1,14,11, 8,5,2,15, 12,9,6,3]"

definition mix_column :: "byte \<Rightarrow> byte \<Rightarrow> byte \<Rightarrow> byte \<Rightarrow> bytes" where
  "mix_column a0 a1 a2 a3 =
    [gmul a0 2 XOR gmul a1 3 XOR a2 XOR a3,
     a0 XOR gmul a1 2 XOR gmul a2 3 XOR a3,
     a0 XOR a1 XOR gmul a2 2 XOR gmul a3 3,
     gmul a0 3 XOR a1 XOR a2 XOR gmul a3 2]"

definition inv_mix_column :: "byte \<Rightarrow> byte \<Rightarrow> byte \<Rightarrow> byte \<Rightarrow> bytes" where
  "inv_mix_column a0 a1 a2 a3 =
    [gmul a0 14 XOR gmul a1 11 XOR gmul a2 13 XOR gmul a3 9,
     gmul a0 9 XOR gmul a1 14 XOR gmul a2 11 XOR gmul a3 13,
     gmul a0 13 XOR gmul a1 9 XOR gmul a2 14 XOR gmul a3 11,
     gmul a0 11 XOR gmul a1 13 XOR gmul a2 9 XOR gmul a3 14]"

definition on_columns :: "(byte \<Rightarrow> byte \<Rightarrow> byte \<Rightarrow> byte \<Rightarrow> bytes) \<Rightarrow> block \<Rightarrow> block" where
  "on_columns f s = concat (map (\<lambda>c. f (s ! (4 * c)) (s ! (4 * c + 1)) (s ! (4 * c + 2)) (s ! (4 * c + 3))) [0..<4])"

definition mix_columns :: "block \<Rightarrow> block" where "mix_columns = on_columns mix_column"
definition inv_mix_columns :: "block \<Rightarrow> block" where "inv_mix_columns = on_columns inv_mix_column"

definition aes_round :: "bytes \<Rightarrow> nat \<Rightarrow> nat \<Rightarrow> block \<Rightarrow> block" where
  "aes_round round_keys rounds round s =
     (let s = sub_bytes s; s = shift_rows s; s = (if round < rounds then mix_columns s else s)
      in add_round_key s round_keys round)"

definition aes_encrypt_block :: "bytes \<Rightarrow> nat \<Rightarrow> block \<Rightarrow> block" where
  "aes_encrypt_block round_keys rounds input =
     fold (aes_round round_keys rounds) [1..<Suc rounds] (add_round_key input round_keys 0)"

definition inv_aes_round :: "bytes \<Rightarrow> nat \<Rightarrow> block \<Rightarrow> block" where
  "inv_aes_round round_keys round s =
     (let s = inv_shift_rows s; s = inv_sub_bytes s; s = add_round_key s round_keys round in inv_mix_columns s)"

definition aes_decrypt_block :: "bytes \<Rightarrow> nat \<Rightarrow> block \<Rightarrow> block" where
  "aes_decrypt_block round_keys rounds input =
     (let s = add_round_key input round_keys rounds;
          s = fold (inv_aes_round round_keys) (rev [1..<rounds]) s;
          s = inv_shift_rows s;
          s = inv_sub_bytes s
      in add_round_key s round_keys 0)"

text \<open>One turn of the loop of \<^verbatim>\<open>expand_aes_key\<close>: the array so far, its filled size and the round constant.\<close>

definition key_temp :: "nat \<Rightarrow> bytes \<Rightarrow> nat \<Rightarrow> byte \<Rightarrow> bytes \<times> byte" where
  "key_temp key_size temp generated rcon =
     (if generated mod key_size = 0
      then ([(sbox ! unat (temp ! 1)) XOR rcon, sbox ! unat (temp ! 2), sbox ! unat (temp ! 3), sbox ! unat (temp ! 0)], xtime rcon)
      else if key_size > 24 \<and> generated mod key_size = 16 then (map (\<lambda>b. sbox ! unat b) temp, rcon)
      else (temp, rcon))"

definition key_word :: "nat \<Rightarrow> bytes \<Rightarrow> bytes \<Rightarrow> nat \<Rightarrow> bytes" where
  "key_word key_size temp round_keys generated =
     fold (\<lambda>i ks. ks[generated + i := ks ! (generated + i - key_size) XOR temp ! i]) [0..<4] round_keys"

lemma length_key_word [simp]: "length (key_word key_size temp round_keys generated) = length round_keys"
proof -
  have "length (fold (\<lambda>i ks. ks[generated + i := ks ! (generated + i - key_size) XOR temp ! i]) xs ks) = length ks" for xs ks
    by (induction xs arbitrary: ks) simp_all
  then show ?thesis by (simp add: key_word_def)
qed

function expand_loop :: "nat \<Rightarrow> bytes \<Rightarrow> nat \<Rightarrow> byte \<Rightarrow> bytes" where
  "expand_loop key_size round_keys generated rcon =
     (if generated < length round_keys
      then let (temp, rcon) = key_temp key_size (take 4 (drop (generated - 4) round_keys)) generated rcon
           in expand_loop key_size (key_word key_size temp round_keys generated) (generated + 4) rcon
      else round_keys)"
  by auto
termination by (relation "measure (\<lambda>(k, ks, g, r). length ks - g)") auto

declare expand_loop.simps [simp del]

definition expand_aes_key :: "bytes \<Rightarrow> nat \<Rightarrow> bytes" where
  "expand_aes_key key n_total = expand_loop (length key) (key @ replicate (n_total - length key) 0) (length key) 1"

section \<open>Model: GCM\<close>

definition shift_block :: "block \<Rightarrow> block" where
  "shift_block v =
     (let lsb = v ! 15 AND 1;
          w = map (\<lambda>j. if j = 0 then drop_bit 1 (v ! 0) else drop_bit 1 (v ! j) OR push_bit 7 (v ! (j - 1))) [0..<16]
      in if lsb \<noteq> 0 then w[0 := w ! 0 XOR 0xe1] else w)"

definition block_bit :: "block \<Rightarrow> nat \<Rightarrow> bool" where
  "block_bit x i \<longleftrightarrow> x ! (i div 8) AND drop_bit (i mod 8) 0x80 \<noteq> 0"

definition gf_mul_step :: "block \<Rightarrow> nat \<Rightarrow> block \<times> block \<Rightarrow> block \<times> block" where
  "gf_mul_step x i zv = ((if block_bit x i then xor_bytes (fst zv) (snd zv) else fst zv), shift_block (snd zv))"

definition gf_mul :: "block \<Rightarrow> block \<Rightarrow> block" where
  "gf_mul x v = fst (fold (gf_mul_step x) [0..<128] (replicate 16 0, v))"

definition ghash_block :: "block \<Rightarrow> block \<Rightarrow> block \<Rightarrow> block" where
  "ghash_block h acc data = gf_mul (xor_bytes acc data) h"

function ghash_update :: "block \<Rightarrow> block \<Rightarrow> bytes \<Rightarrow> block" where
  "ghash_update h acc data =
     (if length data \<ge> 16 then ghash_update h (ghash_block h acc (take 16 data)) (drop 16 data)
      else if data \<noteq> [] then ghash_block h acc (data @ replicate (16 - length data) 0) else acc)"
  by auto
termination by (relation "measure (\<lambda>(h, a, d). length d)") auto

declare ghash_update.simps [simp del]

definition put_be64 :: "u64 \<Rightarrow> bytes" where
  "put_be64 value = map (\<lambda>i. ucast (drop_bit (56 - 8 * i) value)) [0..<8]"

definition initial_counter :: "bytes \<Rightarrow> block" where
  "initial_counter nonce = (nonce @ replicate (16 - length nonce) 0)[15 := 1]"

fun increment_from :: "nat list \<Rightarrow> block \<Rightarrow> block" where
  "increment_from [] ctr = ctr"
| "increment_from (i # is) ctr = (let ctr = ctr[i := ctr ! i + 1] in if ctr ! i \<noteq> 0 then ctr else increment_from is ctr)"

definition increment32 :: "block \<Rightarrow> block" where
  "increment32 ctr = increment_from [15, 14, 13, 12] ctr"

record aes128gcm_context =
  gc_round_keys :: bytes
  gc_ghash_key :: block
  gc_initialized :: bool

definition ghash_finish :: "aes128gcm_context \<Rightarrow> bytes \<Rightarrow> bytes \<Rightarrow> block" where
  "ghash_finish ctx aad ciphertext =
     (let acc = ghash_update (gc_ghash_key ctx) (replicate 16 0) aad;
          acc = ghash_update (gc_ghash_key ctx) acc ciphertext;
          len = put_be64 (of_nat (length aad) * 8) @ put_be64 (of_nat (length ciphertext) * 8)
      in ghash_block (gc_ghash_key ctx) acc len)"

function crypt_ctr :: "aes128gcm_context \<Rightarrow> block \<Rightarrow> bytes \<Rightarrow> bytes" where
  "crypt_ctr ctx counter input =
     (if input = [] then []
      else let counter = increment32 counter; stream = aes_encrypt_block (gc_round_keys ctx) 10 counter
           in xor_bytes (take 16 input) stream @ crypt_ctr ctx counter (drop 16 input))"
  by auto
termination by (relation "measure (\<lambda>(c, n, i). length i)") auto

declare crypt_ctr.simps [simp del]

text \<open>The same loop on one buffer: \<open>n\<close> bytes of \<open>buf\<close> from \<open>offset\<close> on are replaced where they are.\<close>

definition xor_at :: "nat \<Rightarrow> block \<Rightarrow> nat \<Rightarrow> bytes \<Rightarrow> bytes" where
  "xor_at offset stream n buf = fold (\<lambda>i b. b[offset + i := b ! (offset + i) XOR stream ! i]) [0..<n] buf"

function crypt_in_place :: "aes128gcm_context \<Rightarrow> block \<Rightarrow> nat \<Rightarrow> nat \<Rightarrow> bytes \<Rightarrow> bytes" where
  "crypt_in_place ctx counter n_total offset buf =
     (if offset < n_total
      then let counter = increment32 counter; stream = aes_encrypt_block (gc_round_keys ctx) 10 counter; n = min 16 (n_total - offset)
           in crypt_in_place ctx counter n_total (offset + n) (xor_at offset stream n buf)
      else buf)"
  by auto
termination by (relation "measure (\<lambda>(c, n, s, off, b). s - off)") auto

declare crypt_in_place.simps [simp del]

definition tag_equal :: "block \<Rightarrow> bytes \<Rightarrow> bool" where
  "tag_equal a b \<longleftrightarrow> foldl (\<lambda>diff i. diff OR (a ! i XOR b ! i)) 0 [0..<16] = 0"

definition require_size :: "bytes \<Rightarrow> nat \<Rightarrow> string \<Rightarrow> crypto_error + unit" where
  "require_size value n message = (if length value \<noteq> n then Inl (crypto_error message) else Inr ())"

definition require_initialized :: "bool \<Rightarrow> string \<Rightarrow> crypto_error + unit" where
  "require_initialized initialized message = (if \<not> initialized then Inl (crypto_error message) else Inr ())"

text \<open>A check followed by the rest of a function.\<close>

definition after :: "crypto_error + unit \<Rightarrow> crypto_error + 'a \<Rightarrow> crypto_error + 'a" where
  "after check rest = (case check of Inl e \<Rightarrow> Inl e | Inr u \<Rightarrow> rest)"

definition new_gcm_context :: "bytes \<Rightarrow> crypto_error + aes128gcm_context" where
  "new_gcm_context key =
     after (require_size key 16 ''AES-128-GCM key must be 16 bytes'')
       (let ks = expand_aes_key key 176
        in Inr \<lparr>gc_round_keys = ks, gc_ghash_key = aes_encrypt_block ks 10 (replicate 16 0), gc_initialized = True\<rparr>)"

definition gcm_tag :: "aes128gcm_context \<Rightarrow> bytes \<Rightarrow> bytes \<Rightarrow> bytes \<Rightarrow> block" where
  "gcm_tag ctx nonce aad text =
     xor_bytes (ghash_finish ctx aad text) (aes_encrypt_block (gc_round_keys ctx) 10 (initial_counter nonce))"

definition gcm_checks :: "aes128gcm_context \<Rightarrow> bytes \<Rightarrow> crypto_error + 'a \<Rightarrow> crypto_error + 'a" where
  "gcm_checks ctx nonce rest =
     after (require_initialized (gc_initialized ctx) ''AES-128-GCM context is not initialized'')
       (after (require_size nonce 12 ''AES-GCM nonce must be 12 bytes'') rest)"

definition aes128gcm_open :: "aes128gcm_context \<Rightarrow> bytes \<Rightarrow> bytes \<Rightarrow> bytes \<Rightarrow> crypto_error + bytes option" where
  "aes128gcm_open ctx nonce aad ciphertext =
     gcm_checks ctx nonce
       (if length ciphertext < 16 then Inr None
        else let text = take (length ciphertext - 16) ciphertext; tag = drop (length ciphertext - 16) ciphertext
             in if \<not> tag_equal (gcm_tag ctx nonce aad text) tag then Inr None
                else Inr (Some (crypt_ctr ctx (initial_counter nonce) text)))"

text \<open>In place, the buffer is changed and the size of the text is the result.\<close>

definition aes128gcm_open_in_place :: "aes128gcm_context \<Rightarrow> bytes \<Rightarrow> bytes \<Rightarrow> bytes \<Rightarrow> crypto_error + nat option \<times> bytes" where
  "aes128gcm_open_in_place ctx nonce aad buf =
     gcm_checks ctx nonce
       (if length buf < 16 then Inr (None, buf)
        else let n = length buf - 16
             in if \<not> tag_equal (gcm_tag ctx nonce aad (take n buf)) (drop n buf) then Inr (None, buf)
                else Inr (Some n, crypt_in_place ctx (initial_counter nonce) n 0 buf))"

definition aes128gcm_seal :: "aes128gcm_context \<Rightarrow> bytes \<Rightarrow> bytes \<Rightarrow> bytes \<Rightarrow> crypto_error + bytes" where
  "aes128gcm_seal ctx nonce aad plaintext =
     gcm_checks ctx nonce
       (let text = crypt_ctr ctx (initial_counter nonce) plaintext in Inr (text @ gcm_tag ctx nonce aad text))"

text \<open>The variants that make a context from a key first.\<close>

definition aes128gcm_open_key :: "bytes \<Rightarrow> bytes \<Rightarrow> bytes \<Rightarrow> bytes \<Rightarrow> crypto_error + bytes option" where
  "aes128gcm_open_key key nonce aad ciphertext =
     (case new_gcm_context key of Inl e \<Rightarrow> Inl e | Inr ctx \<Rightarrow> aes128gcm_open ctx nonce aad ciphertext)"

definition aes128gcm_open_in_place_key :: "bytes \<Rightarrow> bytes \<Rightarrow> bytes \<Rightarrow> bytes \<Rightarrow> crypto_error + nat option \<times> bytes" where
  "aes128gcm_open_in_place_key key nonce aad buf =
     (case new_gcm_context key of Inl e \<Rightarrow> Inl e | Inr ctx \<Rightarrow> aes128gcm_open_in_place ctx nonce aad buf)"

definition aes128gcm_seal_key :: "bytes \<Rightarrow> bytes \<Rightarrow> bytes \<Rightarrow> bytes \<Rightarrow> crypto_error + bytes" where
  "aes128gcm_seal_key key nonce aad plaintext =
     (case new_gcm_context key of Inl e \<Rightarrow> Inl e | Inr ctx \<Rightarrow> aes128gcm_seal ctx nonce aad plaintext)"

section \<open>Model: AES-256 and IGE\<close>

record aes256_context =
  c256_round_keys :: bytes
  c256_initialized :: bool

definition new_aes256_context :: "bytes \<Rightarrow> crypto_error + aes256_context" where
  "new_aes256_context key =
     after (require_size key 32 ''AES-256 key must be 32 bytes'')
       (Inr \<lparr>c256_round_keys = expand_aes_key key 240, c256_initialized = True\<rparr>)"

text \<open>The output span is overwritten; its size is an argument, its new content the result.\<close>

definition aes256_encrypt_block :: "aes256_context \<Rightarrow> bytes \<Rightarrow> nat \<Rightarrow> crypto_error + bytes" where
  "aes256_encrypt_block ctx input output_size =
     after (require_initialized (c256_initialized ctx) ''AES-256 context is not initialized'')
       (after (require_size input 16 ''AES block input must be 16 bytes'')
         (after (require_size (replicate output_size 0) 16 ''AES block output must be 16 bytes'')
           (Inr (aes_encrypt_block (c256_round_keys ctx) 14 input))))"

definition aes256_decrypt_block :: "aes256_context \<Rightarrow> bytes \<Rightarrow> nat \<Rightarrow> crypto_error + bytes" where
  "aes256_decrypt_block ctx input output_size =
     after (require_initialized (c256_initialized ctx) ''AES-256 context is not initialized'')
       (after (require_size input 16 ''AES block input must be 16 bytes'')
         (after (require_size (replicate output_size 0) 16 ''AES block output must be 16 bytes'')
           (Inr (aes_decrypt_block (c256_round_keys ctx) 14 input))))"

definition require_ige_spans :: "bytes \<Rightarrow> bytes \<Rightarrow> nat \<Rightarrow> crypto_error + unit" where
  "require_ige_spans iv input output_size =
     after (require_size iv 32 ''AES-IGE IV must be 32 bytes'')
       (if length input mod 16 \<noteq> 0 then Inl (crypto_error ''AES-IGE input must be a multiple of 16 bytes'')
        else if output_size \<noteq> length input then Inl (crypto_error ''AES-IGE output must match input size'')
        else Inr ())"

text \<open>The loops, over the encryption and the decryption of one block.\<close>

function ige_encrypt_loop :: "(block \<Rightarrow> block) \<Rightarrow> block \<Rightarrow> block \<Rightarrow> bytes \<Rightarrow> bytes" where
  "ige_encrypt_loop enc c_prev p_prev input =
     (if input = [] then []
      else let block_in = take 16 input;
               block_out = xor_bytes block_in c_prev;
               block_out = enc block_out;
               block_out = xor_bytes block_out p_prev
           in block_out @ ige_encrypt_loop enc block_out block_in (drop 16 input))"
  by auto
termination by (relation "measure (\<lambda>(k, c, p, i). length i)") auto

function ige_decrypt_loop :: "(block \<Rightarrow> block) \<Rightarrow> block \<Rightarrow> block \<Rightarrow> bytes \<Rightarrow> bytes" where
  "ige_decrypt_loop dec c_prev p_prev input =
     (if input = [] then []
      else let block_in = take 16 input;
               block_out = xor_bytes block_in p_prev;
               block_out = dec block_out;
               block_out = xor_bytes block_out c_prev
           in block_out @ ige_decrypt_loop dec block_in block_out (drop 16 input))"
  by auto
termination by (relation "measure (\<lambda>(k, c, p, i). length i)") auto

declare ige_encrypt_loop.simps [simp del] ige_decrypt_loop.simps [simp del]

definition aes256_ige_encrypt :: "aes256_context \<Rightarrow> bytes \<Rightarrow> bytes \<Rightarrow> nat \<Rightarrow> crypto_error + bytes" where
  "aes256_ige_encrypt ctx iv input output_size =
     after (require_initialized (c256_initialized ctx) ''AES-256 context is not initialized'')
       (after (require_ige_spans iv input output_size)
         (Inr (ige_encrypt_loop (aes_encrypt_block (c256_round_keys ctx) 14) (take 16 iv) (drop 16 iv) input)))"

definition aes256_ige_decrypt :: "aes256_context \<Rightarrow> bytes \<Rightarrow> bytes \<Rightarrow> nat \<Rightarrow> crypto_error + bytes" where
  "aes256_ige_decrypt ctx iv input output_size =
     after (require_initialized (c256_initialized ctx) ''AES-256 context is not initialized'')
       (after (require_ige_spans iv input output_size)
         (Inr (ige_decrypt_loop (aes_decrypt_block (c256_round_keys ctx) 14) (take 16 iv) (drop 16 iv) input)))"

section \<open>Bytes\<close>

lemma xor_bytes_simps [simp]: "xor_bytes [] b = []" "xor_bytes a [] = []" "xor_bytes (x # a) (y # b) = (x XOR y) # xor_bytes a b"
  by (simp_all add: xor_bytes_def)

lemma length_xor_bytes [simp]: "length (xor_bytes a b) = min (length a) (length b)"
  by (simp add: xor_bytes_def)

lemma xor_bytes_twice: "length a \<le> length b \<Longrightarrow> xor_bytes (xor_bytes a b) b = a"
proof (induction a arbitrary: b)
  case (Cons x a)
  then show ?case by (cases b) (simp_all add: xor.assoc)
qed simp

section \<open>The inverse cipher\<close>

text \<open>Multiplication by a constant is additive, so that it is determined by its values on the eight bits.\<close>

definition additive :: "(byte \<Rightarrow> byte) \<Rightarrow> bool" where
  "additive f \<longleftrightarrow> f 0 = 0 \<and> (\<forall>a b. f (a XOR b) = f a XOR f b)"

lemma byte_as_bits:
  "(b :: byte) = (if bit b 0 then 1 else 0) XOR (if bit b 1 then 2 else 0) XOR (if bit b 2 then 4 else 0) XOR (if bit b 3 then 8 else 0)
    XOR (if bit b 4 then 16 else 0) XOR (if bit b 5 then 32 else 0) XOR (if bit b 6 then 64 else 0) XOR (if bit b 7 then 128 else 0)"
  (is "b = ?rhs")
proof (rule bit_eqI)
  have i: "bit (if p then c else 0) n \<longleftrightarrow> p \<and> bit c n" for p n and c :: byte by simp
  fix n
  assume "possible_bit TYPE(byte) n"
  then have "n < 8" by simp
  then have "n \<in> {0, 1, 2, 3, 4, 5, 6, 7}" by auto
  then show "bit b n = bit ?rhs n"
    unfolding bit_xor_iff i by (elim insertE emptyE; simp)
qed

lemma additive_eqI:
  assumes f: "additive f" and g: "additive g"
    and e: "f 1 = g 1" "f 2 = g 2" "f 4 = g 4" "f 8 = g 8" "f 16 = g 16" "f 32 = g 32" "f 64 = g 64" "f 128 = g 128"
  shows "f b = g b"
proof -
  have F: "f (x XOR y) = f x XOR f y" "f 0 = 0" "g (x XOR y) = g x XOR g y" "g 0 = 0" for x y using f g by (simp_all add: additive_def)
  have i: "f (if p then k else 0) = g (if p then k else 0)" if "f k = g k" for p k using that F by simp
  show ?thesis by (subst byte_as_bits, subst (3) byte_as_bits) (simp only: F i e)
qed

lemma additive_xor: "additive f \<Longrightarrow> additive g \<Longrightarrow> additive (\<lambda>a. f a XOR g a)"
  by (simp add: additive_def xor.assoc xor.left_commute)

lemma additive_comp: "additive f \<Longrightarrow> additive g \<Longrightarrow> additive (\<lambda>a. f (g a))"
  by (simp add: additive_def)

lemma additive_basic: "additive (\<lambda>a. a)" "additive (\<lambda>a. 0)"
  by (simp_all add: additive_def)

lemma and_bit7: "(a :: byte) AND 0x80 \<noteq> 0 \<longleftrightarrow> bit a 7"
proof -
  have "(0x80 :: byte) = push_bit 7 1" by simp
  then show ?thesis by (metis and_exp_eq_0_iff_not_bit push_bit_of_1)
qed

lemma doubling_additive: "additive (\<lambda>a :: byte. if a AND 0x80 \<noteq> 0 then push_bit 1 a XOR 0x1b else push_bit 1 a)"
  unfolding and_bit7 additive_def by (auto simp: bit_xor_iff push_bit_xor xor.assoc xor.left_commute xor.commute)

lemma gmul_additive: "additive (\<lambda>a. gmul a k)"
proof -
  let ?d = "\<lambda>a :: byte. if a AND 0x80 \<noteq> 0 then push_bit 1 a XOR 0x1b else push_bit 1 a"
  have D: "?d (a XOR b) = ?d a XOR ?d b" "?d 0 = 0" for a b using doubling_additive unfolding additive_def by blast+
  have step: "gmul_step (out, a, k) = ((if k AND 1 \<noteq> 0 then out XOR a else out), ?d a, drop_bit 1 k)" for out a k
    by (simp add: gmul_step_def Let_def)
  have run: "\<exists>oa ob a' b' k'. (gmul_step ^^ n) (o1, a, k) = (oa, a', k') \<and> (gmul_step ^^ n) (o2, b, k) = (ob, b', k')
      \<and> (gmul_step ^^ n) (o1 XOR o2, a XOR b, k) = (oa XOR ob, a' XOR b', k')" for n o1 o2 a b k
  proof (induction n)
    case (Suc n)
    then obtain oa ob a' b' k' where h: "(gmul_step ^^ n) (o1, a, k) = (oa, a', k')" "(gmul_step ^^ n) (o2, b, k) = (ob, b', k')"
      "(gmul_step ^^ n) (o1 XOR o2, a XOR b, k) = (oa XOR ob, a' XOR b', k')" by blast
    show ?case unfolding funpow.simps o_apply h step D(1)
      by (cases "k' AND 1 \<noteq> 0") (simp_all add: xor.assoc xor.left_commute)
  qed simp
  have "gmul (a XOR b) k = gmul a k XOR gmul b k" for a b
    using run [of 8 0 a k 0 b] by (auto simp: gmul_def)
  moreover have "gmul 0 k = 0" using calculation [of 0 0] by simp
  ultimately show ?thesis unfolding additive_def by blast
qed

lemma mix_coefficients:
  "gmul (gmul a 2) 14 XOR gmul a 11 XOR gmul a 13 XOR gmul (gmul a 3) 9 = a"
  "gmul (gmul a 3) 14 XOR gmul (gmul a 2) 11 XOR gmul a 13 XOR gmul a 9 = 0"
  "gmul a 14 XOR gmul (gmul a 3) 11 XOR gmul (gmul a 2) 13 XOR gmul a 9 = 0"
  "gmul a 14 XOR gmul a 11 XOR gmul (gmul a 3) 13 XOR gmul (gmul a 2) 9 = 0"
proof -
  note add = additive_xor additive_comp [OF gmul_additive] gmul_additive additive_basic
  show "gmul (gmul a 2) 14 XOR gmul a 11 XOR gmul a 13 XOR gmul (gmul a 3) 9 = a"
    by (rule additive_eqI [where g = "\<lambda>a. a"]) (intro add | code_simp)+
  show "gmul (gmul a 3) 14 XOR gmul (gmul a 2) 11 XOR gmul a 13 XOR gmul a 9 = 0"
    by (rule additive_eqI [where g = "\<lambda>a. 0"]) (intro add | code_simp)+
  show "gmul a 14 XOR gmul (gmul a 3) 11 XOR gmul (gmul a 2) 13 XOR gmul a 9 = 0"
    by (rule additive_eqI [where g = "\<lambda>a. 0"]) (intro add | code_simp)+
  show "gmul a 14 XOR gmul a 11 XOR gmul (gmul a 3) 13 XOR gmul (gmul a 2) 9 = 0"
    by (rule additive_eqI [where g = "\<lambda>a. 0"]) (intro add | code_simp)+
qed

lemma gmul_xor: "gmul (a XOR b) k = gmul a k XOR gmul b k"
  using gmul_additive unfolding additive_def by blast

text \<open>One row of the product of the two matrices, with the groups of each input byte.\<close>

lemma mix_row:
  "gmul (gmul p 2 XOR gmul q 3 XOR r XOR s) 14 XOR gmul (p XOR gmul q 2 XOR gmul r 3 XOR s) 11
     XOR gmul (p XOR q XOR gmul r 2 XOR gmul s 3) 13 XOR gmul (gmul p 3 XOR q XOR r XOR gmul s 2) 9 = p"
proof -
  have "gmul (gmul p 2 XOR gmul q 3 XOR r XOR s) 14 XOR gmul (p XOR gmul q 2 XOR gmul r 3 XOR s) 11
      XOR gmul (p XOR q XOR gmul r 2 XOR gmul s 3) 13 XOR gmul (gmul p 3 XOR q XOR r XOR gmul s 2) 9 =
    (gmul (gmul p 2) 14 XOR gmul p 11 XOR gmul p 13 XOR gmul (gmul p 3) 9)
      XOR (gmul (gmul q 3) 14 XOR gmul (gmul q 2) 11 XOR gmul q 13 XOR gmul q 9)
      XOR (gmul r 14 XOR gmul (gmul r 3) 11 XOR gmul (gmul r 2) 13 XOR gmul r 9)
      XOR (gmul s 14 XOR gmul s 11 XOR gmul (gmul s 3) 13 XOR gmul (gmul s 2) 9)"
    unfolding gmul_xor by (simp only: xor.assoc xor.left_commute xor.commute)
  then show ?thesis by (simp only: mix_coefficients xor.right_neutral)
qed

lemma inv_mix_column_mix:
  "(case mix_column a b c d of [w, x, y, z] \<Rightarrow> inv_mix_column w x y z) = [a, b, c, d]"
proof -
  let ?w = "gmul a 2 XOR gmul b 3 XOR c XOR d" and ?x = "a XOR gmul b 2 XOR gmul c 3 XOR d"
    and ?y = "a XOR b XOR gmul c 2 XOR gmul d 3" and ?z = "gmul a 3 XOR b XOR c XOR gmul d 2"
  have 1: "gmul ?w 14 XOR gmul ?x 11 XOR gmul ?y 13 XOR gmul ?z 9 = a" by (rule mix_row)
  have 2: "gmul ?w 9 XOR gmul ?x 14 XOR gmul ?y 11 XOR gmul ?z 13 = b"
    using mix_row [of b c d a] by (simp only: xor.assoc xor.left_commute xor.commute)
  have 3: "gmul ?w 13 XOR gmul ?x 9 XOR gmul ?y 14 XOR gmul ?z 11 = c"
    using mix_row [of c d a b] by (simp only: xor.assoc xor.left_commute xor.commute)
  have 4: "gmul ?w 11 XOR gmul ?x 13 XOR gmul ?y 9 XOR gmul ?z 14 = d"
    using mix_row [of d a b c] by (simp only: xor.assoc xor.left_commute xor.commute)
  show ?thesis unfolding mix_column_def inv_mix_column_def using 1 2 3 4 by simp
qed

lemma list16:
  assumes "length s = 16"
  obtains a b c d e f g h i j k l m n p q where "s = [a, b, c, d, e, f, g, h, i, j, k, l, m, n, p, q]"
  using assms by (auto simp: numeral_eq_Suc length_Suc_conv)

lemma inv_mix_columns_mix: "length s = 16 \<Longrightarrow> inv_mix_columns (mix_columns s) = s"
proof -
  assume "length s = 16"
  then obtain a b c d e f g h i j k l m n p q where s: "s = [a, b, c, d, e, f, g, h, i, j, k, l, m, n, p, q]" by (rule list16)
  have col: "on_columns F [a, b, c, d, e, f, g, h, i, j, k, l, m, n, p, q] = F a b c d @ F e f g h @ F i j k l @ F m n p q" for F a b c d e f g h i j k l m n p q
    by (simp add: on_columns_def upt_rec)
  have four: "\<exists>w x y z. mix_column a b c d = [w, x, y, z] \<and> inv_mix_column w x y z = [a, b, c, d]" for a b c d
    using inv_mix_column_mix [of a b c d] by (simp add: mix_column_def)
  from four [of a b c d] four [of e f g h] four [of i j k l] four [of m n p q] show ?thesis
    unfolding s mix_columns_def inv_mix_columns_def col by (elim exE conjE) (simp add: col)
qed

lemma inv_shift_rows_shift: "length s = 16 \<Longrightarrow> inv_shift_rows (shift_rows s) = s"
  by (erule list16) (simp add: shift_rows_def inv_shift_rows_def)

lemma sbox_sorted: "sort (map uint sbox) = [0..255]"
  by code_simp

lemma sbox_facts: "length sbox = 256" "distinct sbox"
proof -
  show "length sbox = 256" by (simp add: sbox_def)
  have "distinct (sort (map uint sbox))" unfolding sbox_sorted by simp
  then show "distinct sbox" by (simp add: distinct_map)
qed

lemma fold_update_keep: "\<forall>j \<in> set js. f j \<noteq> k \<Longrightarrow> fold (\<lambda>i out. out[f i := g i]) js out ! k = out ! k"
  by (induction js arbitrary: out) auto

lemma fold_update_inj:
  assumes "inj_on f (set is)" "i \<in> set is" "f i < length out"
  shows "fold (\<lambda>i out. out[f i := g i]) is out ! f i = g i"
  using assms
proof (induction "is" arbitrary: out)
  case (Cons j js)
  show ?case
  proof (cases "i \<in> set js")
    case True
    then show ?thesis using Cons.IH [of "out[f j := g j]"] Cons.prems by simp
  next
    case False
    then have "\<forall>j' \<in> set js. f j' \<noteq> f i" using Cons.prems(1,2) unfolding inj_on_def by (metis list.set_intros(2))
    from fold_update_keep [of js f "f i" g "out[f j := g j]", OF this] show ?thesis using False Cons.prems by simp
  qed
qed simp

lemma inv_sbox_sbox: "inv_sbox ! unat (sbox ! unat (b :: byte)) = b"
proof -
  have b: "unat b < 256" using unsigned_less [of b] by simp
  have "unat (sbox ! unat b) < 256" using unsigned_less [of "sbox ! unat b"] by simp
  moreover have "inj_on (\<lambda>i. unat (sbox ! i)) (set [0..<256])"
    using sbox_facts by (auto simp: inj_on_def nth_eq_iff_index_eq dest: unsigned_word_eqI)
  ultimately show ?thesis using fold_update_inj [of "\<lambda>i. unat (sbox ! i)" "[0..<256]" "unat b" "replicate 256 0" "of_nat :: nat \<Rightarrow> byte"] b
    by (simp add: inv_sbox_def)
qed

lemma inv_sub_bytes_sub: "inv_sub_bytes (sub_bytes s) = s"
  by (simp add: inv_sub_bytes_def sub_bytes_def comp_def inv_sbox_sbox)

lemma block_lengths [simp]:
  "length (sub_bytes s) = length s" "length (shift_rows s) = 16" "length (inv_shift_rows s) = 16" "length (mix_columns s) = 16"
  "length (inv_sub_bytes s) = length s"
  by (simp_all add: sub_bytes_def inv_sub_bytes_def shift_rows_def inv_shift_rows_def mix_columns_def on_columns_def mix_column_def upt_rec)

definition key_covers :: "bytes \<Rightarrow> nat \<Rightarrow> bool" where
  "key_covers ks rounds \<longleftrightarrow> 16 * (rounds + 1) \<le> length ks"

lemma add_round_key_facts:
  assumes "key_covers ks rounds" "r \<le> rounds" "length s = 16"
  shows "length (add_round_key s ks r) = 16" "add_round_key (add_round_key s ks r) ks r = s"
proof -
  have "16 * r + 16 \<le> length ks" using assms by (simp add: key_covers_def)
  then have "length (take 16 (drop (r * 16) ks)) = 16" by simp
  then show "length (add_round_key s ks r) = 16" "add_round_key (add_round_key s ks r) ks r = s"
    using assms(3) by (simp_all add: add_round_key_def xor_bytes_twice)
qed

lemma rounds_length:
  assumes "key_covers ks rounds" "length s = 16" "\<forall>r \<in> set rs. r \<le> rounds"
  shows "length (fold (aes_round ks rounds) rs s) = 16"
  using assms(2,3)
proof (induction rs arbitrary: s)
  case (Cons r rs)
  have "length (aes_round ks rounds r s) = 16"
    using add_round_key_facts(1) [OF assms(1), of r] Cons.prems by (simp add: aes_round_def Let_def)
  then show ?case using Cons by simp
qed simp

lemma inv_rounds:
  assumes k: "key_covers ks rounds" and s: "length s = 16" and m: "m < rounds"
  shows "fold (inv_aes_round ks) (rev [1..<Suc m]) (shift_rows (sub_bytes (fold (aes_round ks rounds) [1..<Suc m] s))) = shift_rows (sub_bytes s)"
  using m
proof (induction m)
  case (Suc m)
  let ?S = "fold (aes_round ks rounds) [1..<Suc m] s"
  have l: "length ?S = 16" by (rule rounds_length [OF k s]) (use Suc.prems in auto)
  have e: "fold (aes_round ks rounds) [1..<Suc (Suc m)] s = add_round_key (mix_columns (shift_rows (sub_bytes ?S))) ks (Suc m)"
    using Suc.prems by (simp add: aes_round_def)
  have "inv_aes_round ks (Suc m) (shift_rows (sub_bytes (add_round_key (mix_columns (shift_rows (sub_bytes ?S))) ks (Suc m)))) = shift_rows (sub_bytes ?S)"
    using add_round_key_facts [OF k, of "Suc m" "mix_columns (shift_rows (sub_bytes ?S))"] Suc.prems l
    by (simp add: inv_aes_round_def inv_shift_rows_shift inv_sub_bytes_sub inv_mix_columns_mix)
  moreover have "rev [1..<Suc (Suc m)] = Suc m # rev [1..<Suc m]" by simp
  ultimately show ?case using Suc.IH Suc.prems unfolding e by simp
qed simp

lemma decrypt_encrypt:
  assumes k: "key_covers ks rounds" and s: "length s = 16" and r: "0 < rounds"
  shows "aes_decrypt_block ks rounds (aes_encrypt_block ks rounds s) = s" "length (aes_encrypt_block ks rounds s) = 16"
proof -
  obtain m where m: "rounds = Suc m" using r by (cases rounds) auto
  let ?s = "add_round_key s ks 0"
  let ?S = "fold (aes_round ks rounds) [1..<Suc m] ?s"
  note a0 = add_round_key_facts [OF k _ s, of 0, simplified]
  have l: "length ?S = 16" by (rule rounds_length [OF k]) (use a0 m in auto)
  have e: "aes_encrypt_block ks rounds s = add_round_key (shift_rows (sub_bytes ?S)) ks rounds"
    unfolding aes_encrypt_block_def m by (simp add: aes_round_def m)
  note ar = add_round_key_facts [OF k order_refl, of "shift_rows (sub_bytes ?S)"]
  show "length (aes_encrypt_block ks rounds s) = 16" unfolding e using ar by simp
  have "fold (inv_aes_round ks) (rev [1..<rounds]) (shift_rows (sub_bytes ?S)) = shift_rows (sub_bytes ?s)"
    using inv_rounds [OF k a0(1), of m] m by simp
  then show "aes_decrypt_block ks rounds (aes_encrypt_block ks rounds s) = s"
    unfolding e aes_decrypt_block_def Let_def using ar a0 by (simp add: inv_shift_rows_shift inv_sub_bytes_sub)
qed

lemma expand_loop_length: "length (expand_loop n ks g r) = length ks"
proof (induction n ks g r rule: expand_loop.induct)
  case (1 n ks g r)
  show ?case
  proof (cases "g < length ks")
    case True
    obtain temp r' where t: "key_temp n (take 4 (drop (g - 4) ks)) g r = (temp, r')" by fastforce
    show ?thesis using 1 [OF True t [symmetric]] True by (subst expand_loop.simps) (simp add: t)
  qed (subst expand_loop.simps, simp)
qed

lemma expand_covers: "16 * (rounds + 1) \<le> n \<Longrightarrow> key_covers (expand_aes_key key n) rounds"
  by (simp add: key_covers_def expand_aes_key_def expand_loop_length)

text \<open>The interface of a block cipher, and the chained mode over it.\<close>

locale block_cipher =
  fixes enc dec :: "block \<Rightarrow> block"
  assumes enc_length: "length b = 16 \<Longrightarrow> length (enc b) = 16"
    and dec_enc: "length b = 16 \<Longrightarrow> dec (enc b) = b"
begin

lemma ige_length: "length c = 16 \<Longrightarrow> length p = 16 \<Longrightarrow> length xs = 16 * n \<Longrightarrow> length (ige_encrypt_loop enc c p xs) = length xs"
proof (induction n arbitrary: c p xs)
  case (Suc n)
  show ?case using Suc by (subst ige_encrypt_loop.simps) (auto simp: Let_def enc_length)
qed (simp add: ige_encrypt_loop.simps)

lemma ige_roundtrip:
  "length c = 16 \<Longrightarrow> length p = 16 \<Longrightarrow> length xs = 16 * n \<Longrightarrow> ige_decrypt_loop dec c p (ige_encrypt_loop enc c p xs) = xs"
proof (induction n arbitrary: c p xs)
  case (Suc n)
  let ?b = "take 16 xs"
  let ?o = "xor_bytes (enc (xor_bytes ?b c)) p"
  have l: "length ?b = 16" "length ?o = 16" "length (drop 16 xs) = 16 * n" using Suc.prems by (auto simp: enc_length)
  have e: "ige_encrypt_loop enc c p xs = ?o @ ige_encrypt_loop enc ?o ?b (drop 16 xs)"
    using Suc.prems by (subst ige_encrypt_loop.simps) (auto simp: Let_def)
  have x: "xor_bytes ?o p = enc (xor_bytes ?b c)" "xor_bytes (dec (enc (xor_bytes ?b c))) c = ?b"
    using Suc.prems l by (simp_all add: xor_bytes_twice enc_length dec_enc)
  have "ige_decrypt_loop dec c p (?o @ ige_encrypt_loop enc ?o ?b (drop 16 xs)) =
      ?b @ ige_decrypt_loop dec ?o ?b (ige_encrypt_loop enc ?o ?b (drop 16 xs))"
    using l x by (subst ige_decrypt_loop.simps) (auto simp: Let_def)
  then show ?case unfolding e using Suc.IH [OF l(2,1,3)] by simp
qed (simp add: ige_encrypt_loop.simps ige_decrypt_loop.simps)

end

interpretation aes128: block_cipher "aes_encrypt_block (expand_aes_key key 176) 10" "aes_decrypt_block (expand_aes_key key 176) 10" for key
  by unfold_locales (simp_all add: decrypt_encrypt expand_covers)

interpretation aes256: block_cipher "aes_encrypt_block (expand_aes_key key 240) 14" "aes_decrypt_block (expand_aes_key key 240) 14" for key
  by unfold_locales (simp_all add: decrypt_encrypt expand_covers)

section \<open>GCM\<close>

lemma foldl_or_index_zero: "foldl (\<lambda>diff i. diff OR f i) a is = (0 :: byte) \<longleftrightarrow> a = 0 \<and> (\<forall>i \<in> set is. f i = 0)"
  by (induction "is" arbitrary: a) (auto simp: or_eq_0_iff)

lemma xor_zero: "(a :: byte) XOR b = 0 \<longleftrightarrow> a = b"
  by (metis xor.assoc xor.right_neutral xor_self_eq)

lemma tag_equal_eq: "length a = 16 \<Longrightarrow> length b = 16 \<Longrightarrow> tag_equal a b \<longleftrightarrow> a = b"
  by (auto simp: tag_equal_def foldl_or_index_zero xor_zero list_eq_iff_nth_eq)

lemma length_gf_mul: "length v = 16 \<Longrightarrow> length (gf_mul x v) = 16"
proof -
  assume v: "length v = 16"
  have s: "length (shift_block v) = 16" for v by (simp add: shift_block_def Let_def)
  have "length z = 16 \<Longrightarrow> length v = 16 \<Longrightarrow> length (fst (fold (gf_mul_step x) is (z, v))) = 16" for z v "is"
    by (induction "is" arbitrary: z v) (auto simp: gf_mul_step_def s)
  then show ?thesis using v by (simp add: gf_mul_def)
qed

definition context_ok :: "aes128gcm_context \<Rightarrow> bool" where
  "context_ok ctx \<longleftrightarrow> key_covers (gc_round_keys ctx) 10 \<and> length (gc_ghash_key ctx) = 16 \<and> gc_initialized ctx"

lemma new_gcm_context_ok: "new_gcm_context key = Inr ctx \<Longrightarrow> context_ok ctx"
  by (auto simp: new_gcm_context_def after_def require_size_def Let_def context_ok_def expand_covers aes128.enc_length split: if_splits)

lemma increment_length: "length (increment32 c) = length c"
proof -
  have "length (increment_from is c) = length c" for "is" c by (induction "is" c rule: increment_from.induct) (auto simp: Let_def)
  then show ?thesis unfolding increment32_def .
qed

lemma stream_length: "context_ok ctx \<Longrightarrow> length c = 16 \<Longrightarrow> length (aes_encrypt_block (gc_round_keys ctx) 10 c) = 16"
  by (rule decrypt_encrypt(2)) (simp_all add: context_ok_def)

lemma length_gcm_tag: "context_ok ctx \<Longrightarrow> length nonce = 12 \<Longrightarrow> length (gcm_tag ctx nonce aad text) = 16"
  by (simp add: gcm_tag_def ghash_finish_def ghash_block_def Let_def length_gf_mul stream_length initial_counter_def context_ok_def)

lemma crypt_ctr_step: "xs \<noteq> [] \<Longrightarrow> crypt_ctr ctx c xs =
    xor_bytes (take 16 xs) (aes_encrypt_block (gc_round_keys ctx) 10 (increment32 c)) @ crypt_ctr ctx (increment32 c) (drop 16 xs)"
  by (subst crypt_ctr.simps) (simp add: Let_def)

lemma crypt_ctr_nil: "crypt_ctr ctx c [] = []"
  by (simp add: crypt_ctr.simps)

lemma crypt_ctr_facts:
  assumes ctx: "context_ok ctx"
  shows "length c = 16 \<Longrightarrow> length (crypt_ctr ctx c xs) = length xs \<and> crypt_ctr ctx c (crypt_ctr ctx c xs) = xs"
proof (induction xs arbitrary: c rule: length_induct)
  case (1 xs)
  show ?case
  proof (cases "xs = []")
    case False
    let ?s = "aes_encrypt_block (gc_round_keys ctx) 10 (increment32 c)"
    let ?r = "crypt_ctr ctx (increment32 c) (drop 16 xs)"
    have l: "length ?s = 16" "length (increment32 c) = 16" using stream_length [OF ctx] 1(2) by (simp_all add: increment_length)
    have IH: "length ?r = length (drop 16 xs)" "crypt_ctr ctx (increment32 c) ?r = drop 16 xs"
      using 1(1) [rule_format, of "drop 16 xs" "increment32 c"] False l(2) by auto
    have e: "crypt_ctr ctx c xs = xor_bytes (take 16 xs) ?s @ ?r" using False by (rule crypt_ctr_step)
    have "length (crypt_ctr ctx c xs) = length xs" unfolding e using IH(1) l(1) by simp
    moreover have "crypt_ctr ctx c (xor_bytes (take 16 xs) ?s @ ?r) = xs"
    proof (cases "length xs < 16")
      case True
      then have "?r = []" by (simp add: crypt_ctr_nil)
      moreover have "xor_bytes (take 16 xs) ?s \<noteq> []"
      proof
        assume "xor_bytes (take 16 xs) ?s = []"
        then have "length (xor_bytes (take 16 xs) ?s) = 0" by simp
        then show False using False l(1) by (simp add: min_def split: if_splits)
      qed
      ultimately show ?thesis using True l(1) by (subst crypt_ctr_step) (auto simp: xor_bytes_twice crypt_ctr_nil)
    next
      case ge: False
      define y where "y = xor_bytes (take 16 xs) ?s"
      have y: "length y = 16" unfolding y_def using ge l(1) by simp
      then have "y @ ?r \<noteq> []" by auto
      from crypt_ctr_step [OF this] y have "crypt_ctr ctx c (y @ ?r) = xor_bytes y ?s @ crypt_ctr ctx (increment32 c) ?r" by simp
      then have "crypt_ctr ctx c (xor_bytes (take 16 xs) ?s @ ?r) = xor_bytes (xor_bytes (take 16 xs) ?s) ?s @ crypt_ctr ctx (increment32 c) ?r"
        unfolding y_def .
      then show ?thesis using IH(2) l(1) ge by (simp add: xor_bytes_twice)
    qed
    ultimately show ?thesis using e by simp
  qed (simp add: crypt_ctr_nil)
qed

lemma counter_length: "length nonce = 12 \<Longrightarrow> length (initial_counter nonce) = 16"
  by (simp add: initial_counter_def)

lemma gcm_checks_ok: "context_ok ctx \<Longrightarrow> length nonce = 12 \<Longrightarrow> gcm_checks ctx nonce r = r"
  by (simp add: gcm_checks_def after_def require_initialized_def require_size_def context_ok_def)

text \<open>C30. Opening accepts exactly what sealing produces: a message opens to a plaintext if and only if it is that plaintext sealed
  under the same key, nonce and associated data.  So sealing and opening are inverse, and whatever was changed under way is
  refused unless it is a sealed message itself.\<close>

theorem open_iff_sealed:
  assumes "new_gcm_context key = Inr ctx" "length nonce = 12"
  shows "aes128gcm_open ctx nonce aad message = Inr (Some plaintext) \<longleftrightarrow> aes128gcm_seal ctx nonce aad plaintext = Inr message"
proof -
  note ctx = new_gcm_context_ok [OF assms(1)]
  let ?j = "initial_counter nonce" and ?n = "length message - 16"
  note ctr = crypt_ctr_facts [OF ctx counter_length [OF assms(2)]] and tag = length_gcm_tag [OF ctx assms(2)]
  let ?text = "take ?n message"
  have "aes128gcm_open ctx nonce aad message = Inr (Some plaintext) \<longleftrightarrow>
      16 \<le> length message \<and> drop ?n message = gcm_tag ctx nonce aad ?text \<and> plaintext = crypt_ctr ctx ?j ?text"
    using tag_equal_eq [OF tag, of "drop ?n message" aad ?text] by (auto simp: aes128gcm_open_def gcm_checks_ok [OF ctx assms(2)] Let_def)
  also have "\<dots> \<longleftrightarrow> message = crypt_ctr ctx ?j plaintext @ gcm_tag ctx nonce aad (crypt_ctr ctx ?j plaintext)"
  proof
    assume m: "16 \<le> length message \<and> drop ?n message = gcm_tag ctx nonce aad ?text \<and> plaintext = crypt_ctr ctx ?j ?text"
    then have "crypt_ctr ctx ?j plaintext = ?text" using ctr by simp
    then show "message = crypt_ctr ctx ?j plaintext @ gcm_tag ctx nonce aad (crypt_ctr ctx ?j plaintext)"
      using m append_take_drop_id [of ?n message] by simp
  next
    assume m: "message = crypt_ctr ctx ?j plaintext @ gcm_tag ctx nonce aad (crypt_ctr ctx ?j plaintext)"
    have n: "?n = length (crypt_ctr ctx ?j plaintext)" using arg_cong [OF m, of length] tag by simp
    have "?text = crypt_ctr ctx ?j plaintext" "drop ?n message = gcm_tag ctx nonce aad (crypt_ctr ctx ?j plaintext)" "16 \<le> length message"
      using n m tag by (metis append_eq_conv_conj, metis append_eq_conv_conj, metis le_add2 length_append)
    then show "16 \<le> length message \<and> drop ?n message = gcm_tag ctx nonce aad ?text \<and> plaintext = crypt_ctr ctx ?j ?text" using ctr by simp
  qed
  also have "\<dots> \<longleftrightarrow> aes128gcm_seal ctx nonce aad plaintext = Inr message"
    by (auto simp: aes128gcm_seal_def gcm_checks_ok [OF ctx assms(2)] Let_def)
  finally show ?thesis .
qed

theorem open_iff_sealed_witness:
  "\<exists>ctx message. new_gcm_context (replicate 16 0) = Inr ctx \<and> aes128gcm_seal ctx (replicate 12 7) [1] [2, 3] = Inr message
    \<and> aes128gcm_open ctx (replicate 12 7) [1] message = Inr (Some [2, 3])"
proof -
  obtain ctx where c: "new_gcm_context (replicate 16 0) = Inr ctx" by (simp add: new_gcm_context_def after_def require_size_def Let_def)
  obtain message where m: "aes128gcm_seal ctx (replicate 12 7) [1] [2, 3] = Inr message"
    by (simp add: aes128gcm_seal_def Let_def gcm_checks_ok [OF new_gcm_context_ok [OF c]])
  then have "aes128gcm_open ctx (replicate 12 7) [1] message = Inr (Some [2, 3])" using open_iff_sealed [OF c, of "replicate 12 7"] by simp
  with c m show ?thesis by blast
qed

text \<open>The counter: its last four bytes count modulo \<open>2\<^sup>3\<^sup>2\<close>.\<close>

definition counter_value :: "block \<Rightarrow> nat" where
  "counter_value c = foldl (\<lambda>n b. 256 * n + unat b) 0 (drop 12 c)"

lemma byte_inc: "unat ((b :: byte) + 1) = (if unat b = 255 then 0 else unat b + 1)"
proof -
  have "unat b < 256" using unsigned_less [of b] by simp
  then show ?thesis by (auto simp: unat_word_ariths)
qed

lemma byte_inc_zero: "(b :: byte) + 1 = 0 \<longleftrightarrow> unat b = 255"
  using byte_inc [of b] by (metis add_is_0 one_neq_zero unat_eq_zero)

lemma increment32_value:
  assumes "length c = 16"
  shows "counter_value (increment32 c) = (counter_value c + 1) mod 2 ^ 32 \<and> take 12 (increment32 c) = take 12 c"
proof -
  obtain a b d e f g h i j k l m w x y z where c: "c = [a, b, d, e, f, g, h, i, j, k, l, m, w, x, y, z]" using assms by (rule list16)
  have u: "unat w < 256" "unat x < 256" "unat y < 256" "unat z < 256"
    using unsigned_less [of w] unsigned_less [of x] unsigned_less [of y] unsigned_less [of z] by simp_all
  show ?thesis unfolding c using u by (simp add: increment32_def counter_value_def Let_def byte_inc_zero byte_inc)
qed

text \<open>Opening in place: the buffer is read and written at the same places.\<close>

lemma nth_xor_at:
  assumes "off + n \<le> length buf"
  shows "length (xor_at off s n buf) = length buf"
    "k < length buf \<Longrightarrow> xor_at off s n buf ! k = (if off \<le> k \<and> k < off + n then buf ! k XOR s ! (k - off) else buf ! k)"
proof -
  have "off + n \<le> length buf \<Longrightarrow> length (xor_at off s n buf) = length buf
    \<and> (\<forall>k < length buf. xor_at off s n buf ! k = (if off \<le> k \<and> k < off + n then buf ! k XOR s ! (k - off) else buf ! k))"
  proof (induction n)
    case (Suc n)
    then show ?case by (auto simp: xor_at_def nth_list_update)
  qed (auto simp: xor_at_def)
  with assms show "length (xor_at off s n buf) = length buf"
    "k < length buf \<Longrightarrow> xor_at off s n buf ! k = (if off \<le> k \<and> k < off + n then buf ! k XOR s ! (k - off) else buf ! k)" by auto
qed

lemma xor_at_eq:
  assumes "off + n \<le> length buf" "n \<le> length s"
  shows "xor_at off s n buf = take off buf @ xor_bytes (take n (drop off buf)) s @ drop (off + n) buf"
proof (rule nth_equalityI)
  fix k assume "k < length (xor_at off s n buf)"
  then have "k < length buf" using nth_xor_at(1) [OF assms(1)] by simp
  then show "xor_at off s n buf ! k = (take off buf @ xor_bytes (take n (drop off buf)) s @ drop (off + n) buf) ! k"
    using nth_xor_at(2) [OF assms(1), of k s] assms by (auto simp: nth_append xor_bytes_def)
qed (use assms nth_xor_at(1) [OF assms(1)] in simp)

lemma crypt_in_place_eq:
  assumes ctx: "context_ok ctx"
  shows "length c = 16 \<Longrightarrow> off \<le> n \<Longrightarrow> n \<le> length buf \<Longrightarrow>
    crypt_in_place ctx c n off buf = take off buf @ crypt_ctr ctx c (take (n - off) (drop off buf)) @ drop n buf"
proof (induction "n - off" arbitrary: c off buf rule: less_induct)
  case less
  show ?case
  proof (cases "off < n")
    case False
    then show ?thesis using less.prems by (subst crypt_in_place.simps) (simp add: crypt_ctr_nil)
  next
    case True
    let ?c = "increment32 c" and ?k = "min 16 (n - off)"
    let ?s = "aes_encrypt_block (gc_round_keys ctx) 10 ?c"
    let ?x = "take (n - off) (drop off buf)"
    have l: "length ?s = 16" "length ?c = 16" using stream_length [OF ctx] less.prems(1) by (simp_all add: increment_length)
    have x: "xor_at off ?s ?k buf = take off buf @ xor_bytes (take ?k (drop off buf)) ?s @ drop (off + ?k) buf"
      by (rule xor_at_eq) (use less.prems True l in auto)
    have step: "crypt_in_place ctx c n off buf = crypt_in_place ctx ?c n (off + ?k) (xor_at off ?s ?k buf)"
      using True by (subst crypt_in_place.simps) (simp add: Let_def)
    have lx: "length (xor_at off ?s ?k buf) = length buf" by (rule nth_xor_at(1)) (use less.prems True in auto)
    have IH: "crypt_in_place ctx ?c n (off + ?k) (xor_at off ?s ?k buf) = take (off + ?k) (xor_at off ?s ?k buf)
        @ crypt_ctr ctx ?c (take (n - (off + ?k)) (drop (off + ?k) (xor_at off ?s ?k buf))) @ drop n (xor_at off ?s ?k buf)"
      by (rule less.hyps) (use True less.prems l(2) lx in auto)
    have ld: "length (take off buf @ xor_bytes (take ?k (drop off buf)) ?s) = off + ?k" using less.prems True l(1) by simp
    have t: "take (off + ?k) (xor_at off ?s ?k buf) = take off buf @ xor_bytes (take ?k (drop off buf)) ?s"
      and d: "drop (off + ?k) (xor_at off ?s ?k buf) = drop (off + ?k) buf" and dn: "drop n (xor_at off ?s ?k buf) = drop n buf"
    proof -
      show "take (off + ?k) (xor_at off ?s ?k buf) = take off buf @ xor_bytes (take ?k (drop off buf)) ?s"
        unfolding x append_assoc [symmetric] using ld by (metis append_eq_conv_conj)
      show d: "drop (off + ?k) (xor_at off ?s ?k buf) = drop (off + ?k) buf"
        unfolding x append_assoc [symmetric] using ld by (metis append_eq_conv_conj)
      have "drop n xs = drop (n - (off + ?k)) (drop (off + ?k) xs)" for xs :: bytes using True by (simp add: drop_drop min_def)
      then show "drop n (xor_at off ?s ?k buf) = drop n buf" using d by metis
    qed
    have "?x \<noteq> []" using True less.prems by auto
    then have "crypt_ctr ctx c ?x = xor_bytes (take 16 ?x) ?s @ crypt_ctr ctx ?c (drop 16 ?x)" by (rule crypt_ctr_step)
    moreover have "take 16 ?x = take ?k (drop off buf)" by simp
    moreover have "drop 16 ?x = take (n - (off + ?k)) (drop (off + ?k) buf)"
      by (cases "n - off \<le> 16") (auto simp: drop_take drop_drop min_def add.commute)
    ultimately show ?thesis unfolding step IH t d dn by simp
  qed
qed

lemma open_in_place_same:
  assumes "new_gcm_context key = Inr ctx"
  shows "aes128gcm_open_in_place ctx nonce aad buf = (case aes128gcm_open ctx nonce aad buf of
      Inl e \<Rightarrow> Inl e
    | Inr None \<Rightarrow> Inr (None, buf)
    | Inr (Some plaintext) \<Rightarrow> Inr (Some (length plaintext), plaintext @ drop (length plaintext) buf))"
proof (cases "length nonce = 12")
  case True
  note ctx = new_gcm_context_ok [OF assms]
  let ?n = "length buf - 16" and ?j = "initial_counter nonce"
  have "crypt_in_place ctx ?j ?n 0 buf = crypt_ctr ctx ?j (take ?n buf) @ drop ?n buf"
    using crypt_in_place_eq [OF ctx counter_length [OF True], of 0 ?n buf] by simp
  moreover have "length (crypt_ctr ctx ?j (take ?n buf)) = ?n" using crypt_ctr_facts [OF ctx counter_length [OF True]] by simp
  ultimately show ?thesis
    by (auto simp: aes128gcm_open_in_place_def aes128gcm_open_def gcm_checks_ok [OF ctx True] Let_def)
next
  case False
  then show ?thesis
    by (simp add: aes128gcm_open_in_place_def aes128gcm_open_def gcm_checks_def after_def require_initialized_def require_size_def)
qed

section \<open>IGE\<close>

text \<open>C31. Decrypting in the mode IGE inverts encrypting, for every key, every initial vector and every input of whole blocks.\<close>

theorem ige_inverse:
  assumes "new_aes256_context key = Inr ctx" "length iv = 32" "16 dvd length input"
  shows "\<exists>output. aes256_ige_encrypt ctx iv input (length input) = Inr output \<and> length output = length input
    \<and> aes256_ige_decrypt ctx iv output (length output) = Inr input"
proof -
  have ctx: "c256_round_keys ctx = expand_aes_key key 240" "c256_initialized ctx"
    using assms(1) by (auto simp: new_aes256_context_def after_def require_size_def split: if_splits)
  obtain n where n: "length input = 16 * n" using assms(3) by (elim dvdE)
  have iv: "length (take 16 iv) = 16" "length (drop 16 iv) = 16" using assms(2) by simp_all
  let ?o = "ige_encrypt_loop (aes_encrypt_block (expand_aes_key key 240) 14) (take 16 iv) (drop 16 iv) input"
  have l: "length ?o = length input" by (rule aes256.ige_length [OF iv n])
  have "aes256_ige_encrypt ctx iv input (length input) = Inr ?o"
    using ctx assms(2) n by (simp add: aes256_ige_encrypt_def require_ige_spans_def after_def require_initialized_def require_size_def)
  moreover have "aes256_ige_decrypt ctx iv ?o (length ?o) = Inr input"
    using ctx assms(2) n l aes256.ige_roundtrip [OF iv n]
    by (simp add: aes256_ige_decrypt_def require_ige_spans_def after_def require_initialized_def require_size_def)
  ultimately show ?thesis using l by blast
qed

theorem ige_inverse_witness:
  "\<exists>ctx output. new_aes256_context (replicate 32 5) = Inr ctx \<and> aes256_ige_encrypt ctx (replicate 32 1) (replicate 32 2) 32 = Inr output
    \<and> aes256_ige_decrypt ctx (replicate 32 1) output 32 = Inr (replicate 32 2)"
proof -
  obtain ctx where c: "new_aes256_context (replicate 32 5) = Inr ctx" by (simp add: new_aes256_context_def after_def require_size_def)
  from ige_inverse [OF c, of "replicate 32 1" "replicate 32 2"] show ?thesis using c by auto
qed

end
