(* ===== verification/Spec2Isabelle.thy ===== *)
theory Spec2Isabelle
  imports Wisp_Tidy Land Deck Buffer_Core Input Utf8 Text_Field Wisp_Roundtrip Digest Wisp_Restore Screen Layout X25519 Aes
begin

text \<open>
  Verification library for \<^verbatim>\<open>nxt\<close>, a set of C++23 libraries for coroutine-driven command-line software:
  a coroutine runtime (\<^verbatim>\<open>src/src/nxtrt\<close>), a terminal interface (\<^verbatim>\<open>src/src/nxtui\<close>), a Lisp interpreter
  (\<^verbatim>\<open>src/src/wisp\<close>) and common protocols (\<^verbatim>\<open>src/src/nxt\<close>).

  \<^bold>\<open>The parts and how they interact.\<close>
  The scheduler of the runtime keeps coroutines in a table of rows; \<^verbatim>\<open>land.hpp\<close> hands out slots, \<^verbatim>\<open>deck.hpp\<close>
  queues and resumes tasks, and \<^verbatim>\<open>buffer-core.hpp\<close> holds the bytes that tasks exchange.  The terminal interface
  turns bytes from the keyboard into events (\<^verbatim>\<open>input.cpp\<close>), finds the positions of grapheme clusters in UTF-8 text
  (\<^verbatim>\<open>utf8.hpp\<close> over the vendored \<^verbatim>\<open>utf8proc.c\<close>) and edits a line of text (\<^verbatim>\<open>text_field.hpp\<close>).  Each frame, a
  tree of layouts is measured and drawn (\<^verbatim>\<open>layout.hpp\<close>, \<^verbatim>\<open>tui.hpp\<close>) into the cells of a raster whose glyphs are
  interned (\<^verbatim>\<open>raster.cpp\<close>, \<^verbatim>\<open>glyph-table.cpp\<close>); the compositor (\<^verbatim>\<open>compositor.cpp\<close>) sends the difference to the
  last frame (\<^verbatim>\<open>raster-diff.hpp\<close>) to the terminal as escape sequences (\<^verbatim>\<open>ansi.cpp\<close>) and keeps its rows fixed below
  the scrolling output (\<^verbatim>\<open>regional-tty.hpp\<close>).  The interpreter
  stores its data in columnar tables of tagged 32-bit words (\<^verbatim>\<open>word.hpp\<close>, \<^verbatim>\<open>vat.hpp\<close>, \<^verbatim>\<open>heap.hpp\<close>), collects
  garbage by copying (\<^verbatim>\<open>heap.cpp\<close>), prints and reads data (\<^verbatim>\<open>printer.cpp\<close>, \<^verbatim>\<open>reader.cpp\<close>) and saves whole
  machines on tapes sealed by a digest (\<^verbatim>\<open>tape.cpp\<close>, \<^verbatim>\<open>sha256.cpp\<close>).
  The secure protocols rest on a key exchange (\<^verbatim>\<open>x25519.cpp\<close>) and a block cipher (\<^verbatim>\<open>aes128gcm.cpp\<close>).

  \<^bold>\<open>Theories.\<close>
  \<^item> \<^verbatim>\<open>Nxt_Prelude\<close>: machine types and the lemmas on lists and words that the components share.
  \<^item> \<^verbatim>\<open>Land\<close> (\<^verbatim>\<open>nxtrt/land.hpp\<close>): the layout of the summary tree and the operations of \<^verbatim>\<open>mask<N>\<close> and
    \<^verbatim>\<open>mask<>\<close>.  Every operation keeps the tree invariant and implements the operation on a set of slots; a filled
    mask hands out the slots in order; borrowing and giving back are inverse.
  \<^item> \<^verbatim>\<open>Deck\<close> (\<^verbatim>\<open>nxtrt/ids.hpp\<close>, \<^verbatim>\<open>nxtrt/deck.hpp\<close>, \<^verbatim>\<open>nxtrt/task/root.hpp\<close>): task ids with eras, the table of
    rows, the ready queue, the pump.  What a resumed coroutine or a wand does is a parameter that may use the
    interface of the deck only.  The table invariant is preserved; a round resumes what was queued, in order, once;
    a queued task is resumed in the next round; an id does not resolve once the row of its task is freed, until the
    8-bit era comes round; registration fails in the listed cases only.
  \<^item> \<^verbatim>\<open>Buffer_Core\<close> (\<^verbatim>\<open>nxtrt/buffer-core.hpp\<close>): chunk views, the chop view and the ring region, which
    refines a queue of values with explicit lifetimes.
  \<^item> \<^verbatim>\<open>Input\<close> (\<^verbatim>\<open>nxtui/input.hpp\<close>, \<^verbatim>\<open>nxtui/input.cpp\<close>): the incremental parser of terminal input.
    Cutting the input differently gives the same events, no byte is lost, key reports and text decode to what they
    encode.
  \<^item> \<^verbatim>\<open>Utf8proc\<close>, \<^verbatim>\<open>Utf8\<close>, \<^verbatim>\<open>Text_Field\<close>: decoding, the grapheme break machine against the rules of
    Unicode Annex 29, navigation by clusters and columns, words, and the edited line with its cursor.
  \<^item> \<^verbatim>\<open>Raster\<close>, \<^verbatim>\<open>Ansi\<close>, \<^verbatim>\<open>Compositor\<close> (\<^verbatim>\<open>nxtui/style.hpp\<close>, \<^verbatim>\<open>glyph-table.cpp\<close>, \<^verbatim>\<open>raster.cpp\<close>,
    \<^verbatim>\<open>raster-diff.hpp\<close>, \<^verbatim>\<open>ansi.cpp\<close>, \<^verbatim>\<open>regional-tty.hpp\<close>, \<^verbatim>\<open>compositor.cpp\<close>, \<^verbatim>\<open>nxtrt/terminal_app.hpp\<close>): cells, windows
    and the writing of text, the difference of two rasters, the escape sequence writer, the partition of the screen and the
    compositor.
  \<^item> \<^verbatim>\<open>Terminal\<close>, \<^verbatim>\<open>Frame\<close>, \<^verbatim>\<open>Screen\<close>: a terminal that interprets the bytes the compositor writes, that a presented
    frame turns a screen showing the front buffer into one showing the back buffer, and the session: once a layout is
    installed, screen and front buffer stay in step through frames, layout changes, resizes and foreign output, which is kept
    above the fixed rows.  Frames that the program misprints are left out and shown to be misprinted: a wide glyph in two
    styles (\<open>split_style_misprints\<close>), the transparent colour (\<open>transparent_misprints\<close>); so is the resize of a
    full-screen program (\<open>refresh_writes_nothing\<close>).
  \<^item> \<^verbatim>\<open>Flex\<close>, \<^verbatim>\<open>Layout\<close> (\<^verbatim>\<open>nxtui/layout.hpp\<close>, \<^verbatim>\<open>tui.hpp\<close>, the leaf of \<^verbatim>\<open>text_field.hpp\<close>): sharing out
    space in double precision fills what is available and never exceeds it; a layout draws inside its view, the children of a
    container keep apart, a text shows all of itself.  Positions are added modulo \<open>2\<^sup>6\<^sup>4\<close> as the source does; the
    theorems ask that none wraps (\<open>sizes_fit\<close>), and \<open>subraster_wraps\<close> shows what happens otherwise.  The locale \<open>drawing\<close> states what a leaf promises and is interpreted on
    every leaf.
  \<^item> \<^verbatim>\<open>Wisp_Word\<close>, \<^verbatim>\<open>Wisp_Heap\<close>, \<^verbatim>\<open>Wisp_Tidy\<close>: tagged words, tables, payload pools, pins and roots, and the
    copying collector.  The heap invariant is preserved by every operation; collection terminates, yields an exact
    copy of what the roots reach and keeps nothing else.
  \<^item> \<^verbatim>\<open>Wisp_Printer\<close>, \<^verbatim>\<open>Wisp_Reader\<close>, \<^verbatim>\<open>Wisp_Roundtrip\<close>: the printer, which terminates on cyclic data,
    the reader with its packages, and that reading what was printed gives the same data (negative integers, which
    read back as symbols, and names that need escapes apart).
  \<^item> \<^verbatim>\<open>Secure_Hash\<close>, \<^verbatim>\<open>Digest\<close> (\<^verbatim>\<open>nxt/crypto/sha256.cpp\<close>, \<^verbatim>\<open>nxt/crypto/sha1.cpp\<close>): the first states
    SHA-256 and SHA-1 as FIPS 180-4 defines them, apart from the program; the second has the compression functions and the
    streaming states of the program, once as a locale \<open>stream_digest\<close> interpreted for both digests, their equality with the
    standard, and the keyed digest.
  \<^item> \<^verbatim>\<open>X25519\<close> (\<^verbatim>\<open>nxt/crypto/x25519.cpp\<close>): arithmetic modulo \<open>2\<^sup>2\<^sup>5\<^sup>5 - 19\<close> on limbs in 64 and 128 bits and the
    ladder.  No operation overflows, and the exchange is the function of RFC 7748, stated on integers, except where
    \<^verbatim>\<open>fe_to_bytes\<close> loses its last carry (\<open>fe_to_bytes_drops_carry\<close>).
  \<^item> \<^verbatim>\<open>Aes\<close> (\<^verbatim>\<open>nxt/crypto/aes128gcm.cpp\<close>, \<^verbatim>\<open>nxt/crypto.cpp\<close>): the cipher with both key sizes, GCM and IGE.  Decryption
    inverts encryption, which the locale \<open>block_cipher\<close> states for the modes and is interpreted on both; opening accepts what
    sealing produces and nothing else.
  \<^item> \<^verbatim>\<open>Wisp_Machine\<close>, \<^verbatim>\<open>Wisp_Tape\<close>, \<^verbatim>\<open>Wisp_Restore\<close> (\<^verbatim>\<open>wisp/code.hpp\<close>, \<^verbatim>\<open>wisp/eval.cpp\<close>,
    \<^verbatim>\<open>wisp/tape.cpp\<close>): code records, the construction of a machine, the checks, the writer and the reader of tapes,
    and that loading a saved machine restores it.  \<^verbatim>\<open>Wisp_Sample\<close> lays out a small machine with every known symbol,
    which the round trips of tapes and of printing are applied to.

  \<^bold>\<open>Conventions.\<close>
  A class is a record, a call that changes it returns the new record, an exception or a failed assertion is an
  \<open>Inl\<close>.  Machine words keep their width; sizes of containers are natural numbers, with the limits that the source
  checks written out and wrap-around (\<open>sz_add\<close>, \<open>sz_sub\<close>) where sums and differences of \<^verbatim>\<open>size_t\<close> come from the caller.  Loops are structural recursion or \<open>function\<close>s with a termination proof; the searches
  through lists of symbols, which need not end on a cyclic heap, the collector and the printer are
  \<open>partial_function (option)\<close>, with theorems that they return where the source relies on it.  No definition uses
  fuel.  A row of a payload table whose offset is \<open>0x88000003\<close> looks like a forwarding mark of the collector; the
  collector theorems exclude it through the bound on the payload pools, and \<open>offset_forges_mark\<close> shows why.

  A \<^verbatim>\<open>double\<close> is the rational number it denotes, with every operation rounded to 53 binary digits, half to even; overflow and
  subnormal numbers are outside the model, and the extents are bounded where the rounding errors have to stay below a cell (by \<open>2\<^sup>5\<^sup>2\<close>, divided by the number of
  children and three).

  \<^bold>\<open>Parameters.\<close>
  The generated Unicode property table, the effects of coroutines and wands, zlib, the bytes of the random
  generator, and how a terminal cuts the text it receives into glyphs are arguments of the definitions that use them; what is relied on is a named hypothesis.

  \<^bold>\<open>Not modelled.\<close>
  System calls and drivers (wands, files, sockets, processes, terminals, windows), coroutine frames and the
  templates over them, the network protocols written as coroutines over them, clients of external services, the
  step machine and the builtins of the interpreter, the graphical widgets, vendored and generated code.  The
  manifest lists every part with the reason.
\<close>

end
